(* ===== verification/Prelude.thy ===== *)
theory Prelude
  imports Main "HOL-Library.Word"
begin

text \<open>
  Shared vocabulary of the development: the machine types of the C code, the arithmetic of
  \<open>size_t\<close> with its wrap-around, byte memory (writes, moves), big- and little-endian values of
  byte lists, and the word lemmas every component uses. Nothing in this theory is specific to one
  component.
\<close>

unbundle bit_operations_syntax

section \<open>Machine types\<close>

type_synonym u8 = "8 word"
type_synonym u16 = "16 word"
type_synonym u32 = "32 word"
type_synonym u64 = "64 word"

type_synonym bytes = "u8 list"

text \<open>
  \<open>size_t\<close> is 64 bits wide. Sizes are natural numbers below \<open>SIZE_MOD\<close>; the operations that may
  wrap are written with the reduction, so that every overflow check of the source has its meaning.
\<close>

definition SIZE_MOD :: nat where
  "SIZE_MOD = 2 ^ 64"

definition size_add :: "nat \<Rightarrow> nat \<Rightarrow> nat" where
  "size_add a b = (a + b) mod SIZE_MOD"

definition size_mul :: "nat \<Rightarrow> nat \<Rightarrow> nat" where
  "size_mul a b = (a * b) mod SIZE_MOD"

definition INT_MAX :: nat where
  "INT_MAX = 2 ^ 31 - 1"

named_theorems size_arith "facts about the wrap-around of size_t"

lemma SIZE_MOD_pos [simp]: "0 < SIZE_MOD"
  by (simp add: SIZE_MOD_def)

lemma size_add_exact [size_arith]: "a + b < SIZE_MOD \<Longrightarrow> size_add a b = a + b"
  by (simp add: size_add_def)

lemma size_mul_exact [size_arith]: "a * b < SIZE_MOD \<Longrightarrow> size_mul a b = a * b"
  by (simp add: size_mul_def)

text \<open>The source's overflow test \<open>a + b < a\<close> detects exactly the sums that do not fit.\<close>

lemma size_add_overflow_iff:
  assumes "a < SIZE_MOD" and "b < SIZE_MOD"
  shows "size_add a b < a \<longleftrightarrow> SIZE_MOD \<le> a + b"
proof (cases "a + b < SIZE_MOD")
  case True
  then show ?thesis by (simp add: size_add_exact)
next
  case False
  then have "size_add a b = a + b - SIZE_MOD"
    using assms by (simp add: size_add_def mod_if)
  then show ?thesis using False assms by linarith
qed

section \<open>Byte memory\<close>

text \<open>\<open>mem_write m i bs\<close> is \<open>memcpy(m + i, bs, |bs|)\<close>.\<close>

definition mem_write :: "'a list \<Rightarrow> nat \<Rightarrow> 'a list \<Rightarrow> 'a list" where
  "mem_write m i bs = take i m @ bs @ drop (i + length bs) m"

text \<open>\<open>mem_move m dst src n\<close> is \<open>memmove(m + dst, m + src, n)\<close>: the source is read first.\<close>

definition mem_move :: "'a list \<Rightarrow> nat \<Rightarrow> nat \<Rightarrow> nat \<Rightarrow> 'a list" where
  "mem_move m dst src n = mem_write m dst (take n (drop src m))"

named_theorems mem_simps "reads of a memory after a write"

lemma length_mem_write [simp]:
  "i + length bs \<le> length m \<Longrightarrow> length (mem_write m i bs) = length m"
  by (simp add: mem_write_def)

lemma take_mem_write_before [mem_simps]:
  "n \<le> i \<Longrightarrow> i \<le> length m \<Longrightarrow> take n (mem_write m i bs) = take n m"
  by (simp add: mem_write_def min_absorb2)

lemma take_mem_write_upto [mem_simps]:
  "i \<le> length m \<Longrightarrow> take (i + length bs) (mem_write m i bs) = take i m @ bs"
  by (simp add: mem_write_def)

lemma mem_write_Nil [simp]: "mem_write m i [] = m"
  by (simp add: mem_write_def)

lemma mem_write_single: "i < length m \<Longrightarrow> mem_write m i [b] = m[i := b]"
  by (simp add: mem_write_def upd_conv_take_nth_drop)

section \<open>Values of byte strings\<close>

text \<open>Big-endian value of a byte string and the \<open>n\<close>-byte big-endian encoding of a number.\<close>

definition be_val :: "bytes \<Rightarrow> nat" where
  "be_val bs = foldl (\<lambda>r b. r * 256 + unat b) 0 bs"

fun be_bytes :: "nat \<Rightarrow> nat \<Rightarrow> bytes" where
  "be_bytes 0 v = []"
| "be_bytes (Suc n) v = be_bytes n (v div 256) @ [word_of_nat v]"

named_theorems byte_simps "values and encodings of byte strings"

lemma be_val_Nil [byte_simps, simp]: "be_val [] = 0"
  by (simp add: be_val_def)

lemma be_val_snoc [byte_simps, simp]: "be_val (bs @ [b]) = be_val bs * 256 + unat b"
  by (simp add: be_val_def)

lemma unat_u8_less [simp]: "unat (b :: u8) < 256"
  using unsigned_less [of b, where ?'a = nat] by simp

lemma be_val_less: "be_val bs < 256 ^ length bs"
proof (induction bs rule: rev_induct)
  case Nil
  then show ?case by simp
next
  case (snoc b bs)
  have "be_val bs + 1 \<le> 256 ^ length bs" using snoc by simp
  then have "(be_val bs + 1) * 256 \<le> 256 ^ length bs * 256" by (rule mult_le_mono1)
  moreover have "be_val bs * 256 + unat b < (be_val bs + 1) * 256"
    using unat_u8_less [of b] by simp
  ultimately have "be_val bs * 256 + unat b < 256 ^ length bs * 256" by linarith
  then show ?case by (simp add: mult.commute)
qed

lemma length_be_bytes [byte_simps, simp]: "length (be_bytes n v) = n"
  by (induction n arbitrary: v) simp_all

lemma unat_word_of_nat_u8 [byte_simps]: "unat (word_of_nat v :: u8) = v mod 256"
  by (simp add: unat_of_nat)

lemma mod_times_256: "v mod (256 * k) = v div 256 mod k * 256 + v mod (256 :: nat)"
proof -
  have "v mod (256 * k) = 256 * (v div 256 mod k) + v mod 256"
    by (rule mod_mult2_eq)
  then show ?thesis by simp
qed

lemma be_val_be_bytes [byte_simps]: "be_val (be_bytes n v) = v mod 256 ^ n"
proof (induction n arbitrary: v)
  case 0
  then show ?case by simp
next
  case (Suc n)
  then show ?case by (simp add: unat_word_of_nat_u8 mod_times_256 [of v "256 ^ n"])
qed

lemma be_bytes_be_val: "be_bytes (length bs) (be_val bs) = bs"
proof (induction bs rule: rev_induct)
  case Nil
  then show ?case by simp
next
  case (snoc b bs)
  have "(be_val bs * 256 + unat b) div 256 = be_val bs"
    using unat_u8_less [of b] by simp
  moreover have "word_of_nat (be_val bs * 256 + unat b) = b"
    unfolding word_unat_eq_iff unat_of_nat using unat_u8_less [of b] by simp
  ultimately show ?case using snoc.IH by simp
qed

lemma be_val_inj: "length xs = length ys \<Longrightarrow> be_val xs = be_val ys \<Longrightarrow> xs = ys"
  by (metis be_bytes_be_val)

text \<open>Little-endian values, the byte order of the supported targets.\<close>

fun le_bytes :: "nat \<Rightarrow> nat \<Rightarrow> bytes" where
  "le_bytes 0 v = []"
| "le_bytes (Suc n) v = word_of_nat v # le_bytes n (v div 256)"

fun le_val :: "bytes \<Rightarrow> nat" where
  "le_val [] = 0"
| "le_val (b # bs) = unat b + 256 * le_val bs"

lemma length_le_bytes [byte_simps, simp]: "length (le_bytes n v) = n"
  by (induction n arbitrary: v) simp_all

lemma le_val_le_bytes [byte_simps]: "le_val (le_bytes n v) = v mod 256 ^ n"
proof (induction n arbitrary: v)
  case 0
  then show ?case by simp
next
  case (Suc n)
  then show ?case by (simp add: unat_word_of_nat_u8 mod_times_256 [of v "256 ^ n"])
qed

lemma rev_le_bytes: "rev (le_bytes n v) = be_bytes n v"
  by (induction n arbitrary: v) simp_all

lemma le_val_less: "le_val bs < 256 ^ length bs"
proof (induction bs)
  case Nil
  then show ?case by simp
next
  case (Cons b bs)
  then have "256 * (le_val bs + 1) \<le> 256 * 256 ^ length bs" by simp
  moreover have "unat b + 256 * le_val bs < 256 * (le_val bs + 1)"
    using unat_u8_less [of b] by simp
  ultimately have "unat b + 256 * le_val bs < 256 * 256 ^ length bs" by linarith
  then show ?case by simp
qed

section \<open>Words\<close>

text \<open>
  A shift to the left followed by an \<open>OR\<close> of a value that fits in the vacated bits is an addition:
  the pattern every multi-byte read of the source uses.
\<close>

lemma not_bit_unat_less:
  fixes s :: "'a :: len word"
  assumes "unat s < 2 ^ n" and "n \<le> k"
  shows "\<not> bit s k"
proof -
  have "take_bit n (unat s) = unat s"
    using assms(1) by (simp add: take_bit_nat_eq_self)
  then have "\<not> bit (unat s) k"
    using assms(2) by (metis bit_take_bit_iff not_less)
  then show ?thesis by (auto simp: bit_unsigned_iff)
qed

lemma unat_push_or:
  fixes r s :: "'a :: len word"
  assumes s: "unat s < 2 ^ n" and r: "unat r * 2 ^ n < 2 ^ LENGTH('a)"
  shows "unat (push_bit n r OR s) = unat r * 2 ^ n + unat s"
proof -
  have n: "n < LENGTH('a) \<or> r = 0"
  proof (cases "unat r = 0")
    case True
    then show ?thesis by (simp add: unat_eq_zero)
  next
    case False
    then have "2 ^ n \<le> unat r * 2 ^ n" by simp
    with r have "(2::nat) ^ n < 2 ^ LENGTH('a)" by linarith
    then show ?thesis by simp
  qed
  have push: "unat (push_bit n r) = unat r * 2 ^ n"
    unfolding unsigned_push_bit_eq using r by (simp add: push_bit_eq_mult take_bit_nat_eq_self)
  have "push_bit n r OR s = push_bit n r + s"
    by (rule sym, rule disjunctive_add)
      (use s in \<open>auto simp: bit_push_bit_iff not_bit_unat_less not_less\<close>)
  moreover have "unat (push_bit n r) + unat s < 2 ^ LENGTH('a)"
  proof (cases "r = 0")
    case True
    then show ?thesis by simp
  next
    case False
    with n have n': "n < LENGTH('a)" by simp
    have dvd: "(2::nat) ^ LENGTH('a) = 2 ^ (LENGTH('a) - n) * 2 ^ n"
      using n' by (simp flip: power_add)
    with r have "unat r < 2 ^ (LENGTH('a) - n)" by simp
    then have "(unat r + 1) * 2 ^ n \<le> 2 ^ (LENGTH('a) - n) * 2 ^ n"
      by (intro mult_le_mono1) simp
    with s dvd push show ?thesis by simp
  qed
  ultimately show ?thesis using push by (simp add: unat_word_ariths)
qed

lemma unat_ucast_u8 [simp]:
  "8 \<le> LENGTH('a) \<Longrightarrow> unat (ucast (b :: u8) :: 'a :: len word) = unat b"
  by (simp add: unsigned_ucast_eq take_bit_nat_eq_self less_le_trans [OF unat_u8_less] power_increasing [of 8 _ 2, simplified])

lemma word_of_natI: "unat w = n \<Longrightarrow> w = word_of_nat n"
  by (drule sym) simp

lemma word_of_nat_bit: "bit (word_of_nat m :: 'a :: len word) n \<longleftrightarrow> n < LENGTH('a) \<and> bit m n"
  by transfer (auto simp: bit_take_bit_iff bit_of_nat_iff_bit)

lemma be_val_Cons: "be_val (b # bs) = unat b * 256 ^ length bs + be_val bs"
proof (induction bs rule: rev_induct)
  case Nil
  show ?case by (simp add: be_val_def)
next
  case (snoc x xs)
  have "be_val (b # xs @ [x]) = be_val (b # xs) * 256 + unat x"
    using be_val_snoc [of "b # xs" x] by simp
  then show ?case using snoc by (simp add: algebra_simps)
qed

lemma bit_add_256: "bit (unat (b :: u8) + 256 * m) n = (if n < 8 then bit b n else bit m (n - 8))"
proof -
  have d: "\<not> bit b k" if "8 \<le> k" for k
    using not_bit_unat_less [of b 8 k] that by simp
  have "unat b + 256 * m = unat b + push_bit 8 m" by (simp add: push_bit_eq_mult)
  also have "\<dots> = unat b OR push_bit 8 m"
    by (rule disjunctive_add) (auto simp: bit_push_bit_iff bit_unsigned_iff dest: d)
  finally show ?thesis
    using d [of n] by (auto simp: bit_or_iff bit_push_bit_iff bit_unsigned_iff)
qed

lemma bit_le_val: "bit (le_val bs) n \<longleftrightarrow> n div 8 < length bs \<and> bit (bs ! (n div 8)) (n mod 8)"
proof (induction bs arbitrary: n)
  case Nil
  then show ?case by simp
next
  case (Cons b bs)
  show ?case
  proof (cases "n < 8")
    case True
    then show ?thesis by (simp add: bit_add_256)
  next
    case False
    then have "n div 8 = Suc ((n - 8) div 8)" "n mod 8 = (n - 8) mod 8"
      by (simp_all add: div_if mod_if)
    with False show ?thesis by (simp only: le_val.simps bit_add_256 if_False Cons.IH length_Cons nth_Cons_Suc) simp
  qed
qed

lemma le_val_snoc: "le_val (xs @ [b]) = le_val xs + 256 ^ length xs * unat b"
  by (induction xs) (simp_all add: algebra_simps)

lemma le_val_rev: "le_val (rev bs) = be_val bs"
  by (induction bs) (simp_all add: be_val_Cons le_val_snoc)

lemma bit_be_val: "bit (be_val bs) n \<longleftrightarrow>
   n div 8 < length bs \<and> bit (bs ! (length bs - 1 - n div 8)) (n mod 8)"
  unfolding le_val_rev [symmetric] bit_le_val by (auto simp: rev_nth)

text \<open>A fact about one byte can be decided by enumeration.\<close>

lemma u8_all:
  assumes "list_all (\<lambda>n. P (word_of_nat n)) [0 ..< 256]"
  shows "P (b :: u8)"
proof -
  have "P (word_of_nat (unat b))"
    using assms unat_u8_less [of b] by (auto simp only: list_all_iff set_upt atLeastLessThan_iff)
  then show ?thesis by simp
qed

lemma unat_and_mask:
  fixes w :: "'a :: len word"
  shows "unat (w AND mask n) = unat w mod 2 ^ n"
  by (simp only: take_bit_eq_mask [symmetric] unsigned_take_bit_eq) (simp only: take_bit_eq_mod)

lemma u8_and_7f: "unat (b AND 0x7f :: u8) = unat b mod 128"
  using unat_and_mask [of b 7] by (simp add: mask_eq_exp_minus_1)

lemma u8_high_bit: "(b AND 0x80 :: u8) \<noteq> 0 \<longleftrightarrow> 128 \<le> unat b"
proof -
  have "list_all (\<lambda>n. ((word_of_nat n :: u8) AND 0x80 \<noteq> 0) = (128 \<le> unat (word_of_nat n :: u8))) [0 ..< 256]"
    by code_simp
  then show ?thesis by (rule u8_all)
qed

lemma u8_mod_128: "128 \<le> unat (b :: u8) \<Longrightarrow> unat b mod 128 = unat b - 128"
proof -
  assume b: "128 \<le> unat b"
  have "unat b - 128 < 128" using b unat_u8_less [of b] by linarith
  with b show ?thesis by (simp add: le_mod_geq)
qed

lemma drop_bit_eq_0_iff: "drop_bit n (w :: 'a :: len word) = 0 \<longleftrightarrow> unat w < 2 ^ n"
proof -
  have "drop_bit n w = 0 \<longleftrightarrow> drop_bit n (unat w) = 0"
    by (simp only: unat_0_iff [symmetric] unat_drop_bit_eq)
  then show ?thesis by (simp add: drop_bit_eq_div div_eq_0_iff)
qed

end
