(* ===== verification/Mem.thy ===== *)
theory Mem
  imports Prelude
begin

text \<open>
  \<open>crypto/mem.c\<close>: the allocator wrapper that prefixes every block with its size, the
  constant-time comparison, the FNV-1a hash and the bounded C-string routines.

  A block of the C heap is the list of its bytes. \<open>malloc\<close> of the C library is the parameter
  \<open>libc\<close>: \<open>libc n\<close> is the block handed out for \<open>n\<close> bytes (with whatever it contains), or
  \<open>None\<close> where it returns \<open>NULL\<close>. A block of \<open>OPENSSL_malloc\<close> holds an eight-byte size and
  then the caller's bytes; \<open>heap_malloc\<close> and \<open>heap_realloc\<close> are the caller's view of it, without
  the prefix. A C string is a byte list that holds a zero byte.
\<close>

type_synonym libc_malloc = "nat \<Rightarrow> bytes option"

definition OPENSSL_MALLOC_PREFIX :: nat where
  "OPENSSL_MALLOC_PREFIX = 8"

section \<open>The allocator\<close>

definition OPENSSL_malloc :: "libc_malloc \<Rightarrow> nat \<Rightarrow> bytes option" where
  "OPENSSL_malloc libc n =
     (case libc (size_add n OPENSSL_MALLOC_PREFIX) of
        None \<Rightarrow> None
      | Some ptr \<Rightarrow> Some (mem_write ptr 0 (le_bytes 8 n)))"

definition OPENSSL_cleanse :: "bytes \<Rightarrow> nat \<Rightarrow> bytes" where
  "OPENSSL_cleanse ptr len = mem_write ptr 0 (replicate len 0)"

text \<open>
  \<open>OPENSSL_free\<close> returns the bytes of the block when it is handed back and the size that
  \<open>sdallocx\<close> is told.
\<close>

definition OPENSSL_free :: "bytes \<Rightarrow> bytes \<times> nat" where
  "OPENSSL_free ptr =
     (let n = le_val (take 8 ptr)
      in (OPENSSL_cleanse ptr (size_add n OPENSSL_MALLOC_PREFIX),
          size_add n OPENSSL_MALLOC_PREFIX))"

definition OPENSSL_realloc :: "libc_malloc \<Rightarrow> bytes option \<Rightarrow> nat \<Rightarrow> bytes option" where
  "OPENSSL_realloc libc orig_ptr new_size =
     (case orig_ptr of
        None \<Rightarrow> OPENSSL_malloc libc new_size
      | Some ptr \<Rightarrow>
          (let old_size = le_val (take 8 ptr)
           in case OPENSSL_malloc libc new_size of
                None \<Rightarrow> None
              | Some ret \<Rightarrow>
                  (let to_copy = (if old_size < new_size then old_size else new_size)
                   in Some (mem_write ret 8 (take to_copy (drop 8 ptr))))))"

text \<open>The caller's view: the bytes behind the prefix.\<close>

definition heap_malloc :: "libc_malloc \<Rightarrow> nat \<Rightarrow> bytes option" where
  "heap_malloc libc n = map_option (drop 8) (OPENSSL_malloc libc n)"

definition heap_block :: "bytes \<Rightarrow> bytes" where
  "heap_block data = le_bytes 8 (length data) @ data"

definition heap_realloc :: "libc_malloc \<Rightarrow> bytes option \<Rightarrow> nat \<Rightarrow> bytes option" where
  "heap_realloc libc data n =
     map_option (drop 8) (OPENSSL_realloc libc (map_option heap_block data) n)"

definition OPENSSL_memdup :: "libc_malloc \<Rightarrow> bytes \<Rightarrow> nat \<Rightarrow> bytes option" where
  "OPENSSL_memdup libc data n =
     (if n = 0 then None
      else case heap_malloc libc n of
             None \<Rightarrow> None
           | Some ret \<Rightarrow> Some (mem_write ret 0 (take n data)))"

text \<open>
  What the C standard promises of \<open>malloc\<close>: a block it returns has the requested size. No block is
  larger than the address space of a process, for which \<open>2 ^ 62\<close> is a generous bound.
\<close>

definition ADDRESS_SPACE :: nat where
  "ADDRESS_SPACE = 2 ^ 62"

definition libc_wf :: "libc_malloc \<Rightarrow> bool" where
  "libc_wf libc \<longleftrightarrow> (\<forall>n ptr. libc n = Some ptr \<longrightarrow> length ptr = n \<and> n \<le> ADDRESS_SPACE)"

text \<open>
  The contract the components with a growing buffer rely on, for elements of any type: a new
  array has the requested number of elements, and reallocation keeps the common prefix. \<open>limit\<close>
  bounds the sizes that may be requested, \<open>bound\<close> the sizes that are ever handed out.
\<close>

locale array_heap =
  fixes ok :: "'env \<Rightarrow> bool"
    and limit bound :: nat
    and malloc :: "'env \<Rightarrow> nat \<Rightarrow> 'x list option"
    and realloc :: "'env \<Rightarrow> 'x list option \<Rightarrow> nat \<Rightarrow> 'x list option"
  assumes malloc_length:
      "ok e \<Longrightarrow> n \<le> limit \<Longrightarrow> malloc e n = Some xs \<Longrightarrow> length xs = n \<and> n \<le> bound"
    and realloc_NULL: "realloc e None n = malloc e n"
    and realloc_length:
      "ok e \<Longrightarrow> n \<le> limit \<Longrightarrow> length ys \<le> limit \<Longrightarrow> realloc e (Some ys) n = Some xs \<Longrightarrow>
       length xs = n \<and> n \<le> bound"
    and realloc_prefix:
      "ok e \<Longrightarrow> n \<le> limit \<Longrightarrow> length ys \<le> limit \<Longrightarrow> realloc e (Some ys) n = Some xs \<Longrightarrow>
       take (min (length ys) n) xs = take (min (length ys) n) ys"
begin

text \<open>A growing array, or none yet: the elements there were are kept.\<close>

definition elems :: "'x list option \<Rightarrow> 'x list" where
  "elems xs = (case xs of None \<Rightarrow> [] | Some ys \<Rightarrow> ys)"

lemma grow:
  assumes "ok e" and "n \<le> limit" and "length (elems ys) \<le> n" and "realloc e ys n = Some xs"
  shows "length xs = n" and "n \<le> bound" and "take (length (elems ys)) xs = elems ys"
proof -
  have "length xs = n \<and> n \<le> bound \<and> take (length (elems ys)) xs = elems ys"
  proof (cases ys)
    case None
    with assms show ?thesis using malloc_length [of e n xs] by (simp add: realloc_NULL elems_def)
  next
    case (Some zs)
    with assms show ?thesis
      using realloc_length [of e n zs xs] realloc_prefix [of e n zs xs]
      by (simp add: elems_def min_absorb1)
  qed
  then show "length xs = n" "n \<le> bound" "take (length (elems ys)) xs = elems ys" by auto
qed

text \<open>Growing keeps every element that was there.\<close>

lemma grow_take:
  assumes "ok e" and "n \<le> limit" and "length ys \<le> n" and "realloc e (Some ys) n = Some xs"
    and "k \<le> length ys"
  shows "take k xs = take k ys"
proof -
  have "take (length ys) xs = ys"
    using realloc_prefix [OF assms(1,2) _ assms(4)] assms(2,3) by (simp add: min_absorb1)
  then have "take k (take (length ys) xs) = take k ys" by simp
  then show ?thesis using assms(5) by (simp add: min_absorb1)
qed

lemma grow_nth:
  assumes "ok e" and "n \<le> limit" and "length ys \<le> n" and "realloc e (Some ys) n = Some xs"
    and "k < length ys"
  shows "xs ! k = ys ! k"
  using grow_take [OF assms(1-4), of "Suc k"] assms(5) by (metis Suc_leI lessI nth_take)

end

text \<open>Largest request for which the prefix does not wrap; half of the address space is plenty.\<close>

definition HEAP_LIMIT :: nat where
  "HEAP_LIMIT = 2 ^ 63"

lemma HEAP_LIMIT_fits: "n \<le> HEAP_LIMIT \<Longrightarrow> n + 8 < SIZE_MOD"
  by (simp add: HEAP_LIMIT_def SIZE_MOD_def)

lemma OPENSSL_malloc_length:
  assumes "libc_wf libc" and "n \<le> HEAP_LIMIT" and "OPENSSL_malloc libc n = Some ptr"
  shows "length ptr = n + 8" and "le_val (take 8 ptr) = n" and "n \<le> ADDRESS_SPACE"
proof -
  from assms(2) have n: "size_add n 8 = n + 8" "n mod 256 ^ 8 = n"
    by (auto simp: size_arith HEAP_LIMIT_fits HEAP_LIMIT_def)
  from assms(3) n(1) obtain blk where blk: "libc (n + 8) = Some blk"
      "ptr = mem_write blk 0 (le_bytes 8 n)"
    by (auto simp: OPENSSL_malloc_def OPENSSL_MALLOC_PREFIX_def split: option.splits)
  with assms(1) have l: "length blk = n + 8" "n + 8 \<le> ADDRESS_SPACE"
    by (auto simp: libc_wf_def)
  with blk show "length ptr = n + 8" "n \<le> ADDRESS_SPACE" by simp_all
  have "take 8 ptr = le_bytes 8 n"
    using blk(2) by (simp add: mem_write_def)
  with n(2) show "le_val (take 8 ptr) = n" by (simp only: le_val_le_bytes)
qed

lemma heap_malloc_length:
  "libc_wf libc \<Longrightarrow> n \<le> HEAP_LIMIT \<Longrightarrow> heap_malloc libc n = Some xs \<Longrightarrow>
   length xs = n \<and> n \<le> ADDRESS_SPACE"
  by (auto simp: heap_malloc_def OPENSSL_malloc_length)

lemma heap_block_simps:
  "length data \<le> HEAP_LIMIT \<Longrightarrow> le_val (take 8 (heap_block data)) = length data"
  "drop 8 (heap_block data) = data"
  by (simp_all add: heap_block_def le_val_le_bytes HEAP_LIMIT_def)

lemma heap_realloc_Some:
  assumes "libc_wf libc" and n: "n \<le> HEAP_LIMIT" and ys: "length ys \<le> HEAP_LIMIT"
    and r: "heap_realloc libc (Some ys) n = Some xs"
  shows "length xs = n \<and> n \<le> ADDRESS_SPACE"
    and "take (min (length ys) n) xs = take (min (length ys) n) ys"
proof -
  let ?c = "if length ys < n then length ys else n"
  from r obtain ret where ret: "OPENSSL_malloc libc n = Some ret"
      "xs = drop 8 (mem_write ret 8 (take ?c ys))"
    by (auto simp: heap_realloc_def OPENSSL_realloc_def heap_block_simps ys Let_def
        split: option.splits)
  have l: "length ret = n + 8" using OPENSSL_malloc_length [OF assms(1) n ret(1)] by simp
  have xs: "xs = take ?c ys @ drop (8 + length (take ?c ys)) ret"
    using ret(2) l by (simp add: mem_write_def)
  show "length xs = n \<and> n \<le> ADDRESS_SPACE"
    using xs l OPENSSL_malloc_length(3) [OF assms(1) n ret(1)] by auto
  show "take (min (length ys) n) xs = take (min (length ys) n) ys"
    using xs by (auto simp: min_def)
qed

interpretation heap: array_heap libc_wf HEAP_LIMIT ADDRESS_SPACE heap_malloc heap_realloc
proof
  show "heap_realloc e None n = heap_malloc e n" for e n
    by (simp add: heap_realloc_def heap_malloc_def OPENSSL_realloc_def)
qed (rule heap_malloc_length heap_realloc_Some; assumption)+

section \<open>Comparison and hashing\<close>

definition CRYPTO_memcmp :: "bytes \<Rightarrow> bytes \<Rightarrow> nat \<Rightarrow> u8" where
  "CRYPTO_memcmp a b len = foldl (\<lambda>x i. x OR (a ! i XOR b ! i)) 0 [0 ..< len]"

lemma or_eq_0_iff: "(a OR b = 0) = (a = 0 \<and> (b :: 'a :: len word) = 0)"
  by (auto simp: bit_eq_iff bit_simps)

lemma xor_eq_0_iff: "(a XOR b = 0) = (a = (b :: 'a :: len word))"
  by (auto simp: bit_eq_iff bit_simps)

lemma memcmp_loop_zero:
  "foldl (\<lambda>x i. x OR (a ! i XOR b ! i)) (x :: u8) idxs = 0 \<longleftrightarrow> x = 0 \<and> (\<forall>i \<in> set idxs. a ! i = b ! i)"
  by (induction idxs arbitrary: x) (auto simp: or_eq_0_iff xor_eq_0_iff)

definition OPENSSL_hash32 :: "bytes \<Rightarrow> nat \<Rightarrow> u32" where
  "OPENSSL_hash32 ptr len = foldl (\<lambda>h i. (h XOR ucast (ptr ! i)) * 16777619) 2166136261 [0 ..< len]"

section \<open>C strings\<close>

fun strlen :: "bytes \<Rightarrow> nat" where
  "strlen [] = 0"
| "strlen (c # s) = (if c = 0 then 0 else Suc (strlen s))"

fun strnlen_loop :: "bytes \<Rightarrow> nat \<Rightarrow> nat \<Rightarrow> nat" where
  "strnlen_loop [] i len = len"
| "strnlen_loop (c # s) i len =
     (if i < len then if c = 0 then i else strnlen_loop s (Suc i) len else len)"

definition OPENSSL_strnlen :: "bytes \<Rightarrow> nat \<Rightarrow> nat" where
  "OPENSSL_strnlen s len = strnlen_loop s 0 len"

definition OPENSSL_strdup :: "libc_malloc \<Rightarrow> bytes option \<Rightarrow> bytes option" where
  "OPENSSL_strdup libc s =
     (case s of
        None \<Rightarrow> None
      | Some s' \<Rightarrow>
          (let len = strlen s' + 1
           in case heap_malloc libc len of
                None \<Rightarrow> None
              | Some ret \<Rightarrow> Some (mem_write ret 0 (take len s'))))"

definition OPENSSL_strndup :: "libc_malloc \<Rightarrow> bytes option \<Rightarrow> nat \<Rightarrow> bytes option" where
  "OPENSSL_strndup libc str max_len =
     (case str of
        None \<Rightarrow> None
      | Some s \<Rightarrow>
          (let n = OPENSSL_strnlen s max_len; alloc_size = size_add n 1
           in if alloc_size < n then None
              else case heap_malloc libc alloc_size of
                     None \<Rightarrow> None
                   | Some ret \<Rightarrow> Some ((mem_write ret 0 (take n s))[n := 0])))"

text \<open>A \<open>char\<close> is signed on the targets of this build; it is promoted to \<open>int\<close> before the test.\<close>

definition OPENSSL_tolower :: "int \<Rightarrow> int" where
  "OPENSSL_tolower c = (if 65 \<le> c \<and> c \<le> 90 then c + (97 - 65) else c)"

fun OPENSSL_strcasecmp :: "bytes \<Rightarrow> bytes \<Rightarrow> int" where
  "OPENSSL_strcasecmp (a # as) (b # bs) =
     (let aa = OPENSSL_tolower (sint a); bb = OPENSSL_tolower (sint b)
      in if aa < bb then -1 else if aa > bb then 1 else if aa = 0 then 0
         else OPENSSL_strcasecmp as bs)"
| "OPENSSL_strcasecmp _ _ = 0"

fun OPENSSL_strncasecmp :: "bytes \<Rightarrow> bytes \<Rightarrow> nat \<Rightarrow> int" where
  "OPENSSL_strncasecmp as bs 0 = 0"
| "OPENSSL_strncasecmp (a # as) (b # bs) (Suc n) =
     (let aa = OPENSSL_tolower (sint a); bb = OPENSSL_tolower (sint b)
      in if aa < bb then -1 else if aa > bb then 1 else if aa = 0 then 0
         else OPENSSL_strncasecmp as bs n)"
| "OPENSSL_strncasecmp _ _ (Suc n) = 0"

text \<open>
  The copy loop of \<open>OPENSSL_strlcpy\<close>: the destination, the index of \<open>dst\<close> in it, the rest of the
  source, the remaining \<open>dst_size\<close> and the count \<open>l\<close>.
\<close>

fun strlcpy_loop :: "bytes \<Rightarrow> nat \<Rightarrow> bytes \<Rightarrow> nat \<Rightarrow> nat \<Rightarrow> bytes \<times> nat \<times> bytes \<times> nat \<times> nat" where
  "strlcpy_loop m i [] dst_size l = (m, i, [], dst_size, l)"
| "strlcpy_loop m i (c # src) dst_size l =
     (if dst_size > 1 \<and> c \<noteq> 0 then strlcpy_loop (m[i := c]) (Suc i) src (dst_size - 1) (Suc l)
      else (m, i, c # src, dst_size, l))"

definition strlcpy_at :: "bytes \<Rightarrow> nat \<Rightarrow> bytes \<Rightarrow> nat \<Rightarrow> bytes \<times> nat" where
  "strlcpy_at dst i src dst_size =
     (case strlcpy_loop dst i src dst_size 0 of
        (m, j, rest, sz, l) \<Rightarrow> (if sz \<noteq> 0 then m[j := 0] else m, l + strlen rest))"

definition OPENSSL_strlcpy :: "bytes \<Rightarrow> bytes \<Rightarrow> nat \<Rightarrow> bytes \<times> nat" where
  "OPENSSL_strlcpy dst src dst_size = strlcpy_at dst 0 src dst_size"

fun strlcat_skip :: "bytes \<Rightarrow> nat \<Rightarrow> nat \<Rightarrow> nat" where
  "strlcat_skip [] dst_size l = l"
| "strlcat_skip (c # dst) dst_size l =
     (if dst_size > 0 \<and> c \<noteq> 0 then strlcat_skip dst (dst_size - 1) (Suc l) else l)"

definition OPENSSL_strlcat :: "bytes \<Rightarrow> bytes \<Rightarrow> nat \<Rightarrow> bytes \<times> nat" where
  "OPENSSL_strlcat dst src dst_size =
     (let l = strlcat_skip dst dst_size 0
      in case strlcpy_at dst l src (dst_size - l) of (m, r) \<Rightarrow> (m, l + r))"

end
