(* ===== verification/Cbs.thy ===== *)
theory Cbs
  imports Mem
begin

text \<open>
  \<open>crypto/bytestring/cbs.c\<close>: the byte-string reader every parser of the library is written with.

  A \<open>CBS\<close> is a pointer and a length. \<open>cbs_data\<close> is the memory from the pointer on, which may
  extend beyond the string, \<open>cbs_len\<close> the number of bytes that belong to it; advancing the pointer
  drops bytes. An operation that returns \<open>int\<close> and writes an output parameter returns an option
  (\<open>None\<close> for 0, with the outputs left unspecified) and the reader after the call, which some
  operations have advanced even though they fail. \<open>Cbs_Spec\<close> holds the lemmas.
\<close>

section \<open>The reader\<close>

record cbs =
  cbs_data :: bytes
  cbs_len :: nat

definition CBS_init :: "bytes \<Rightarrow> nat \<Rightarrow> cbs" where
  "CBS_init p n = \<lparr>cbs_data = p, cbs_len = n\<rparr>"

definition cbs_get :: "cbs \<Rightarrow> nat \<Rightarrow> bytes option \<times> cbs" where
  "cbs_get c n =
     (if cbs_len c < n then (None, c)
      else (Some (cbs_data c), c\<lparr>cbs_data := drop n (cbs_data c), cbs_len := cbs_len c - n\<rparr>))"

definition CBS_skip :: "cbs \<Rightarrow> nat \<Rightarrow> bool \<times> cbs" where
  "CBS_skip c n = (case cbs_get c n of (None, c') \<Rightarrow> (False, c') | (Some _, c') \<Rightarrow> (True, c'))"

definition CBS_data :: "cbs \<Rightarrow> bytes" where
  "CBS_data c = cbs_data c"

definition CBS_len :: "cbs \<Rightarrow> nat" where
  "CBS_len c = cbs_len c"

text \<open>\<open>CBS_stow\<close>: outside the option, failure; inside, \<open>None\<close> is the \<open>NULL\<close> of an empty string.\<close>

definition CBS_stow :: "libc_malloc \<Rightarrow> cbs \<Rightarrow> (bytes option \<times> nat) option" where
  "CBS_stow libc c =
     (if cbs_len c = 0 then Some (None, 0)
      else case OPENSSL_memdup libc (cbs_data c) (cbs_len c) of
             None \<Rightarrow> None
           | Some p \<Rightarrow> Some (Some p, cbs_len c))"

definition CBS_strdup :: "libc_malloc \<Rightarrow> cbs \<Rightarrow> bytes option" where
  "CBS_strdup libc c = OPENSSL_strndup libc (Some (cbs_data c)) (cbs_len c)"

definition CBS_contains_zero_byte :: "cbs \<Rightarrow> bool" where
  "CBS_contains_zero_byte c \<longleftrightarrow> (0 \<in> set (take (cbs_len c) (cbs_data c)))"

definition CBS_mem_equal :: "cbs \<Rightarrow> bytes \<Rightarrow> nat \<Rightarrow> bool" where
  "CBS_mem_equal c p n =
     (if n \<noteq> cbs_len c then False else CRYPTO_memcmp (cbs_data c) p n = 0)"

section \<open>Fixed-width integers\<close>

definition cbs_get_u :: "cbs \<Rightarrow> nat \<Rightarrow> u64 option \<times> cbs" where
  "cbs_get_u c n =
     (case cbs_get c n of
        (None, c') \<Rightarrow> (None, c')
      | (Some p, c') \<Rightarrow>
          (Some (foldl (\<lambda>result i. push_bit 8 result OR ucast (p ! i)) 0 [0 ..< n]), c'))"

definition CBS_get_u8 :: "cbs \<Rightarrow> u8 option \<times> cbs" where
  "CBS_get_u8 c =
     (case cbs_get c 1 of (None, c') \<Rightarrow> (None, c') | (Some p, c') \<Rightarrow> (Some (p ! 0), c'))"

definition CBS_get_u16 :: "cbs \<Rightarrow> u16 option \<times> cbs" where
  "CBS_get_u16 c =
     (case cbs_get_u c 2 of (None, c') \<Rightarrow> (None, c') | (Some v, c') \<Rightarrow> (Some (ucast v), c'))"

definition CRYPTO_bswap2 :: "u16 \<Rightarrow> u16" where
  "CRYPTO_bswap2 x = drop_bit 8 x OR push_bit 8 x"

definition CRYPTO_bswap4 :: "u32 \<Rightarrow> u32" where
  "CRYPTO_bswap4 x0 =
     (let x = drop_bit 16 x0 OR push_bit 16 x0
      in drop_bit 8 (x AND 0xff00ff00) OR push_bit 8 (x AND 0x00ff00ff))"

definition CRYPTO_bswap8 :: "u64 \<Rightarrow> u64" where
  "CRYPTO_bswap8 x =
     ucast (CRYPTO_bswap4 (ucast (drop_bit 32 x))) OR push_bit 32 (ucast (CRYPTO_bswap4 (ucast x)))"

definition CBS_get_u16le :: "cbs \<Rightarrow> u16 option \<times> cbs" where
  "CBS_get_u16le c =
     (case CBS_get_u16 c of (None, c') \<Rightarrow> (None, c') | (Some v, c') \<Rightarrow> (Some (CRYPTO_bswap2 v), c'))"

definition CBS_get_u24 :: "cbs \<Rightarrow> u32 option \<times> cbs" where
  "CBS_get_u24 c =
     (case cbs_get_u c 3 of (None, c') \<Rightarrow> (None, c') | (Some v, c') \<Rightarrow> (Some (ucast v), c'))"

definition CBS_get_u32 :: "cbs \<Rightarrow> u32 option \<times> cbs" where
  "CBS_get_u32 c =
     (case cbs_get_u c 4 of (None, c') \<Rightarrow> (None, c') | (Some v, c') \<Rightarrow> (Some (ucast v), c'))"

definition CBS_get_u32le :: "cbs \<Rightarrow> u32 option \<times> cbs" where
  "CBS_get_u32le c =
     (case CBS_get_u32 c of (None, c') \<Rightarrow> (None, c') | (Some v, c') \<Rightarrow> (Some (CRYPTO_bswap4 v), c'))"

definition CBS_get_u64 :: "cbs \<Rightarrow> u64 option \<times> cbs" where
  "CBS_get_u64 c = cbs_get_u c 8"

definition CBS_get_u64le :: "cbs \<Rightarrow> u64 option \<times> cbs" where
  "CBS_get_u64le c =
     (case cbs_get_u c 8 of (None, c') \<Rightarrow> (None, c') | (Some v, c') \<Rightarrow> (Some (CRYPTO_bswap8 v), c'))"

definition CBS_get_last_u8 :: "cbs \<Rightarrow> u8 option \<times> cbs" where
  "CBS_get_last_u8 c =
     (if cbs_len c = 0 then (None, c)
      else (Some (cbs_data c ! (cbs_len c - 1)), c\<lparr>cbs_len := cbs_len c - 1\<rparr>))"

section \<open>Byte strings and length prefixes\<close>

definition CBS_get_bytes :: "cbs \<Rightarrow> nat \<Rightarrow> cbs option \<times> cbs" where
  "CBS_get_bytes c n =
     (case cbs_get c n of (None, c') \<Rightarrow> (None, c') | (Some p, c') \<Rightarrow> (Some (CBS_init p n), c'))"

definition CBS_copy_bytes :: "cbs \<Rightarrow> bytes \<Rightarrow> nat \<Rightarrow> bytes option \<times> cbs" where
  "CBS_copy_bytes c out n =
     (case cbs_get c n of
        (None, c') \<Rightarrow> (None, c')
      | (Some p, c') \<Rightarrow> (Some (mem_write out 0 (take n p)), c'))"

definition cbs_get_length_prefixed :: "cbs \<Rightarrow> nat \<Rightarrow> cbs option \<times> cbs" where
  "cbs_get_length_prefixed c len_len =
     (case cbs_get_u c len_len of
        (None, c') \<Rightarrow> (None, c')
      | (Some n, c') \<Rightarrow> CBS_get_bytes c' (unat n))"

definition CBS_get_u8_length_prefixed :: "cbs \<Rightarrow> cbs option \<times> cbs" where
  "CBS_get_u8_length_prefixed c = cbs_get_length_prefixed c 1"

definition CBS_get_u16_length_prefixed :: "cbs \<Rightarrow> cbs option \<times> cbs" where
  "CBS_get_u16_length_prefixed c = cbs_get_length_prefixed c 2"

definition CBS_get_u24_length_prefixed :: "cbs \<Rightarrow> cbs option \<times> cbs" where
  "CBS_get_u24_length_prefixed c = cbs_get_length_prefixed c 3"

section \<open>ASN.1 tags and elements\<close>

definition CBS_ASN1_TAG_SHIFT :: nat where
  "CBS_ASN1_TAG_SHIFT = 24"

definition CBS_ASN1_CONSTRUCTED :: u32 where
  "CBS_ASN1_CONSTRUCTED = 0x20000000"

definition CBS_ASN1_TAG_NUMBER_MASK :: u32 where
  "CBS_ASN1_TAG_NUMBER_MASK = 0x1fffffff"

definition CBS_ASN1_BOOLEAN :: u32 where "CBS_ASN1_BOOLEAN = 0x1"
definition CBS_ASN1_INTEGER :: u32 where "CBS_ASN1_INTEGER = 0x2"
definition CBS_ASN1_OCTETSTRING :: u32 where "CBS_ASN1_OCTETSTRING = 0x4"

text \<open>The \<open>do\<close> loop of \<open>parse_base128_integer\<close>: every round consumes a byte.\<close>

lemma CBS_get_u8_shrinks: "CBS_get_u8 c = (Some b, c') \<Longrightarrow> cbs_len c' < cbs_len c"
  by (auto simp: CBS_get_u8_def cbs_get_def split: if_splits)

function parse_base128_loop :: "cbs \<Rightarrow> u64 \<Rightarrow> u64 option \<times> cbs" where
  "parse_base128_loop c v =
     (case CBS_get_u8 c of
        (None, c') \<Rightarrow> (None, c')
      | (Some b, c') \<Rightarrow>
          (if drop_bit (64 - 7) v \<noteq> 0 then (None, c')
           else if v = 0 \<and> b = 0x80 then (None, c')
           else
             (let v' = push_bit 7 v OR ucast (b AND 0x7f)
              in if b AND 0x80 \<noteq> 0 then parse_base128_loop c' v' else (Some v', c'))))"
  by pat_completeness auto
termination
  by (relation "measure (\<lambda>(c, v). cbs_len c)") (auto dest!: CBS_get_u8_shrinks [OF sym])

declare parse_base128_loop.simps [simp del]

definition parse_base128_integer :: "cbs \<Rightarrow> u64 option \<times> cbs" where
  "parse_base128_integer c = parse_base128_loop c 0"

definition parse_asn1_tag :: "cbs \<Rightarrow> u32 option \<times> cbs" where
  "parse_asn1_tag c =
     (case CBS_get_u8 c of
        (None, c') \<Rightarrow> (None, c')
      | (Some tag_byte, c') \<Rightarrow>
          (let tag = push_bit CBS_ASN1_TAG_SHIFT (ucast tag_byte AND 0xe0 :: u32);
               tag_number = (ucast tag_byte AND 0x1f :: u32)
           in if tag_number = 0x1f then
                (case parse_base128_integer c' of
                   (None, c'') \<Rightarrow> (None, c'')
                 | (Some v, c'') \<Rightarrow>
                     (if v > ucast CBS_ASN1_TAG_NUMBER_MASK \<or> v < 0x1f then (None, c'')
                      else (Some (tag OR ucast v), c'')))
              else (Some (tag OR tag_number), c')))"

text \<open>
  \<open>cbs_get_any_asn1_element\<close> works on a copy of the reader (\<open>header\<close>) and advances the reader
  itself only with the final \<open>CBS_get_bytes\<close>. Its result is the element, the tag and the length of
  the header.
\<close>

definition cbs_get_any_asn1_element :: "cbs \<Rightarrow> bool \<Rightarrow> (cbs \<times> u32 \<times> nat) option \<times> cbs" where
  "cbs_get_any_asn1_element c ber_ok =
     (case parse_asn1_tag c of
        (None, _) \<Rightarrow> (None, c)
      | (Some tag, h1) \<Rightarrow>
     (case CBS_get_u8 h1 of
        (None, _) \<Rightarrow> (None, c)
      | (Some length_byte, h2) \<Rightarrow>
     (let header_len = CBS_len c - CBS_len h2;
          finish = (\<lambda>n hl. case CBS_get_bytes c n of
                             (None, c') \<Rightarrow> (None, c')
                           | (Some out, c') \<Rightarrow> (Some (out, tag, hl), c'))
      in if length_byte AND 0x80 = 0
         then finish (unat length_byte + header_len) header_len
         else
           (let num_bytes = unat (length_byte AND 0x7f)
            in if ber_ok \<and> tag AND CBS_ASN1_CONSTRUCTED \<noteq> 0 \<and> num_bytes = 0
               then finish header_len header_len
               else if num_bytes = 0 \<or> num_bytes > 4 then (None, c)
               else
                 (case cbs_get_u h2 num_bytes of
                    (None, _) \<Rightarrow> (None, c)
                  | (Some len64, _) \<Rightarrow>
                      (if len64 < 128 then (None, c)
                       else if drop_bit ((num_bytes - 1) * 8) len64 = 0 then (None, c)
                       else
                         (let n = unat len64
                          in if size_add n (header_len + num_bytes) < n then (None, c)
                             else finish (size_add n (header_len + num_bytes))
                                    (header_len + num_bytes))))))))"

definition CBS_get_any_asn1_element :: "cbs \<Rightarrow> (cbs \<times> u32 \<times> nat) option \<times> cbs" where
  "CBS_get_any_asn1_element c = cbs_get_any_asn1_element c False"

definition CBS_get_any_ber_asn1_element :: "cbs \<Rightarrow> (cbs \<times> u32 \<times> nat) option \<times> cbs" where
  "CBS_get_any_ber_asn1_element c = cbs_get_any_asn1_element c True"

definition CBS_get_any_asn1 :: "cbs \<Rightarrow> (cbs \<times> u32) option \<times> cbs" where
  "CBS_get_any_asn1 c =
     (case CBS_get_any_asn1_element c of
        (None, c') \<Rightarrow> (None, c')
      | (Some (out, tag, header_len), c') \<Rightarrow>
          (case CBS_skip out header_len of
             (False, _) \<Rightarrow> (None, c')
           | (True, out') \<Rightarrow> (Some (out', tag), c')))"

definition cbs_get_asn1 :: "cbs \<Rightarrow> u32 \<Rightarrow> bool \<Rightarrow> cbs option \<times> cbs" where
  "cbs_get_asn1 c tag_value skip_header =
     (case CBS_get_any_asn1_element c of
        (None, c') \<Rightarrow> (None, c')
      | (Some (out, tag, header_len), c') \<Rightarrow>
          (if tag \<noteq> tag_value then (None, c')
           else if skip_header then
             (case CBS_skip out header_len of
                (False, _) \<Rightarrow> (None, c')
              | (True, out') \<Rightarrow> (Some out', c'))
           else (Some out, c')))"

definition CBS_get_asn1 :: "cbs \<Rightarrow> u32 \<Rightarrow> cbs option \<times> cbs" where
  "CBS_get_asn1 c tag_value = cbs_get_asn1 c tag_value True"

definition CBS_get_asn1_element :: "cbs \<Rightarrow> u32 \<Rightarrow> cbs option \<times> cbs" where
  "CBS_get_asn1_element c tag_value = cbs_get_asn1 c tag_value False"

definition CBS_peek_asn1_tag :: "cbs \<Rightarrow> u32 \<Rightarrow> bool" where
  "CBS_peek_asn1_tag c tag_value =
     (if CBS_len c < 1 then False
      else case parse_asn1_tag c of
             (None, _) \<Rightarrow> False
           | (Some actual_tag, _) \<Rightarrow> tag_value = actual_tag)"

section \<open>ASN.1 values\<close>

fun asn1_uint64_loop :: "u64 \<Rightarrow> bytes \<Rightarrow> u64 option" where
  "asn1_uint64_loop out [] = Some out"
| "asn1_uint64_loop out (b # bs) =
     (if drop_bit 56 out \<noteq> 0 then None
      else asn1_uint64_loop (push_bit 8 out OR ucast b) bs)"

definition CBS_get_asn1_uint64 :: "cbs \<Rightarrow> u64 option \<times> cbs" where
  "CBS_get_asn1_uint64 c =
     (case CBS_get_asn1 c CBS_ASN1_INTEGER of
        (None, c') \<Rightarrow> (None, c')
      | (Some bs, c') \<Rightarrow>
          (let p = CBS_data bs; n = CBS_len bs
           in if n = 0 then (None, c')
              else if p ! 0 AND 0x80 \<noteq> 0 then (None, c')
              else if p ! 0 = 0 \<and> n > 1 \<and> p ! 1 AND 0x80 = 0 then (None, c')
              else (asn1_uint64_loop 0 (take n p), c')))"

text \<open>
  \<open>CBS_get_asn1_int64\<close> fills the eight bytes of a union, sign bytes first, and reads them as an
  \<open>int64_t\<close> of the (little-endian) machine. The result is that two's complement word.
\<close>

definition CBS_get_asn1_int64 :: "cbs \<Rightarrow> u64 option \<times> cbs" where
  "CBS_get_asn1_int64 c =
     (case CBS_get_asn1 c CBS_ASN1_INTEGER of
        (None, c') \<Rightarrow> (None, c')
      | (Some bs, c') \<Rightarrow>
          (let p = CBS_data bs; n = CBS_len bs
           in if n = 0 \<or> n > 8 then (None, c')
              else if n > 1 \<and> p ! 0 = 0 \<and> p ! 1 AND 0x80 = 0 then (None, c')
              else if n > 1 \<and> p ! 0 = 0xff \<and> p ! 1 AND 0x80 \<noteq> 0 then (None, c')
              else
                (let is_negative = (p ! 0 AND 0x80 \<noteq> 0);
                     u0 = replicate 8 (if is_negative then 0xff else 0 :: u8);
                     u = foldl (\<lambda>u i. u[i := p ! (n - i - 1)]) u0 [0 ..< n]
                 in (Some (word_of_nat (le_val u)), c'))))"

definition CBS_get_asn1_bool :: "cbs \<Rightarrow> bool option \<times> cbs" where
  "CBS_get_asn1_bool c =
     (case CBS_get_asn1 c CBS_ASN1_BOOLEAN of
        (None, c') \<Rightarrow> (None, c')
      | (Some bs, c') \<Rightarrow>
          (if CBS_len bs \<noteq> 1 then (None, c')
           else
             (let v = CBS_data bs ! 0
              in if v \<noteq> 0 \<and> v \<noteq> 0xff then (None, c') else (Some (v \<noteq> 0), c'))))"

text \<open>The result of \<open>CBS_get_optional_asn1\<close> is \<open>Some None\<close> where the element is absent.\<close>

definition CBS_get_optional_asn1 :: "cbs \<Rightarrow> u32 \<Rightarrow> cbs option option \<times> cbs" where
  "CBS_get_optional_asn1 c tag =
     (if CBS_peek_asn1_tag c tag then
        (case CBS_get_asn1 c tag of
           (None, c') \<Rightarrow> (None, c')
         | (Some out, c') \<Rightarrow> (Some (Some out), c'))
      else (Some None, c))"

definition CBS_get_optional_asn1_octet_string ::
    "cbs \<Rightarrow> u32 \<Rightarrow> (cbs \<times> bool) option \<times> cbs" where
  "CBS_get_optional_asn1_octet_string c tag =
     (case CBS_get_optional_asn1 c tag of
        (None, c') \<Rightarrow> (None, c')
      | (Some None, c') \<Rightarrow> (Some (CBS_init [] 0, False), c')
      | (Some (Some child), c') \<Rightarrow>
          (case CBS_get_asn1 child CBS_ASN1_OCTETSTRING of
             (None, _) \<Rightarrow> (None, c')
           | (Some out, child') \<Rightarrow>
               (if CBS_len child' \<noteq> 0 then (None, c') else (Some (out, True), c'))))"

definition CBS_get_optional_asn1_uint64 :: "cbs \<Rightarrow> u32 \<Rightarrow> u64 \<Rightarrow> u64 option \<times> cbs" where
  "CBS_get_optional_asn1_uint64 c tag default_value =
     (case CBS_get_optional_asn1 c tag of
        (None, c') \<Rightarrow> (None, c')
      | (Some None, c') \<Rightarrow> (Some default_value, c')
      | (Some (Some child), c') \<Rightarrow>
          (case CBS_get_asn1_uint64 child of
             (None, _) \<Rightarrow> (None, c')
           | (Some v, child') \<Rightarrow>
               (if CBS_len child' \<noteq> 0 then (None, c') else (Some v, c'))))"

definition CBS_get_optional_asn1_bool :: "cbs \<Rightarrow> u32 \<Rightarrow> int \<Rightarrow> int option \<times> cbs" where
  "CBS_get_optional_asn1_bool c tag default_value =
     (case CBS_get_optional_asn1 c tag of
        (None, c') \<Rightarrow> (None, c')
      | (Some None, c') \<Rightarrow> (Some default_value, c')
      | (Some (Some child), c') \<Rightarrow>
          (case CBS_get_asn1 child CBS_ASN1_BOOLEAN of
             (None, _) \<Rightarrow> (None, c')
           | (Some child2, child') \<Rightarrow>
               (if CBS_len child2 \<noteq> 1 \<or> CBS_len child' \<noteq> 0 then (None, c')
                else
                  (let boolean = CBS_data child2 ! 0
                   in if boolean = 0 then (Some 0, c')
                      else if boolean = 0xff then (Some 1, c')
                      else (None, c')))))"

section \<open>Bit strings\<close>

definition CBS_is_valid_asn1_bitstring :: "cbs \<Rightarrow> bool" where
  "CBS_is_valid_asn1_bitstring c =
     (case CBS_get_u8 c of
        (None, _) \<Rightarrow> False
      | (Some num_unused_bits, c1) \<Rightarrow>
          (if num_unused_bits > 7 then False
           else if num_unused_bits = 0 then True
           else
             (case CBS_get_last_u8 c1 of
                (None, _) \<Rightarrow> False
              | (Some last_byte, _) \<Rightarrow>
                  last_byte AND (push_bit (unat num_unused_bits) 1 - 1) = 0)))"

definition CBS_asn1_bitstring_has_bit :: "cbs \<Rightarrow> u32 \<Rightarrow> bool" where
  "CBS_asn1_bitstring_has_bit c n =
     (if \<not> CBS_is_valid_asn1_bitstring c then False
      else
        (let byte_num = unat (drop_bit 3 n + 1); bit_num = unat (7 - (n AND 7))
         in byte_num < CBS_len c \<and> CBS_data c ! byte_num AND push_bit bit_num 1 \<noteq> 0))"

end
