(* ===== verification/Cbb.thy ===== *)
theory Cbb
  imports Cbs
begin

text \<open>
  \<open>crypto/bytestring/cbb.c\<close>: the byte-string builder. A top-level \<open>CBB\<close> owns a growing (or fixed)
  buffer, the base; a child \<open>CBB\<close> writes to the same base behind a length prefix that is filled in
  when the parent is next used.

  The \<open>CBB\<close> structs refer to one another by pointer, so the model keeps them in a store \<open>cbb_at\<close>
  from addresses to structs next to the one base they share. \<open>base_buf\<close> is \<open>base->buf\<close>, \<open>None\<close> for
  \<open>NULL\<close>, and \<open>has_base\<close> of a struct says that its \<open>base\<close> pointer is not \<open>NULL\<close>. A local variable
  \<open>CBB child\<close> of a function is the address parameter \<open>child\<close> of its model. An \<open>int\<close> result is a
  \<open>bool\<close>; a written output parameter is the contents of an option.
\<close>

section \<open>State\<close>

record cbb =
  has_base :: bool
  child :: "nat option"
  cbb_offset :: nat
  pending_len_len :: nat
  pending_is_asn1 :: bool
  is_child :: bool

record cbb_mem =
  base_buf :: "bytes option"
  base_len :: nat
  base_cap :: nat
  can_resize :: bool
  base_error :: bool
  cbb_at :: "nat \<Rightarrow> cbb"
  cbb_objects :: nat

text \<open>\<open>cbb_objects\<close> is the number of \<open>CBB\<close> structs in memory: their addresses are below it.\<close>

definition base_bytes :: "cbb_mem \<Rightarrow> bytes" where
  "base_bytes st = (case base_buf st of None \<Rightarrow> [] | Some b \<Rightarrow> b)"

definition base_write :: "cbb_mem \<Rightarrow> nat \<Rightarrow> bytes \<Rightarrow> cbb_mem" where
  "base_write st i bs = st\<lparr>base_buf := map_option (\<lambda>b. mem_write b i bs) (base_buf st)\<rparr>"

definition base_move :: "cbb_mem \<Rightarrow> nat \<Rightarrow> nat \<Rightarrow> nat \<Rightarrow> cbb_mem" where
  "base_move st dst src n = st\<lparr>base_buf := map_option (\<lambda>b. mem_move b dst src n) (base_buf st)\<rparr>"

definition upd_cbb :: "cbb_mem \<Rightarrow> nat \<Rightarrow> (cbb \<Rightarrow> cbb) \<Rightarrow> cbb_mem" where
  "upd_cbb st h f = st\<lparr>cbb_at := (cbb_at st)(h := f (cbb_at st h))\<rparr>"

definition zero_cbb :: cbb where
  "zero_cbb = \<lparr>has_base = False, child = None, cbb_offset = 0, pending_len_len = 0,
     pending_is_asn1 = False, is_child = False\<rparr>"

definition CBB_zero :: "cbb_mem \<Rightarrow> nat \<Rightarrow> cbb_mem" where
  "CBB_zero st h = upd_cbb st h (\<lambda>_. zero_cbb)"

section \<open>Creation and release\<close>

definition SIZEOF_CBB_BUFFER :: nat where
  "SIZEOF_CBB_BUFFER = 32"

definition cbb_init :: "libc_malloc \<Rightarrow> cbb_mem \<Rightarrow> nat \<Rightarrow> bytes option \<Rightarrow> nat \<Rightarrow> bool \<times> cbb_mem" where
  "cbb_init libc st h buf cap =
     (if OPENSSL_malloc libc SIZEOF_CBB_BUFFER = None then (False, st)
      else (True, upd_cbb (st\<lparr>base_buf := buf, base_len := 0, base_cap := cap,
                            can_resize := True, base_error := False\<rparr>) h
                    (\<lambda>c. c\<lparr>has_base := True, is_child := False\<rparr>)))"

definition CBB_init :: "libc_malloc \<Rightarrow> cbb_mem \<Rightarrow> nat \<Rightarrow> nat \<Rightarrow> bool \<times> cbb_mem" where
  "CBB_init libc st h initial_capacity =
     (let st1 = CBB_zero st h; buf = heap_malloc libc initial_capacity
      in if initial_capacity > 0 \<and> buf = None then (False, st1)
         else cbb_init libc st1 h buf initial_capacity)"

definition CBB_init_fixed :: "libc_malloc \<Rightarrow> cbb_mem \<Rightarrow> nat \<Rightarrow> bytes \<Rightarrow> nat \<Rightarrow> bool \<times> cbb_mem" where
  "CBB_init_fixed libc st h buf len =
     (case cbb_init libc (CBB_zero st h) h (Some buf) len of
        (False, st1) \<Rightarrow> (False, st1)
      | (True, st1) \<Rightarrow> (True, st1\<lparr>can_resize := False\<rparr>))"

definition CBB_cleanup :: "cbb_mem \<Rightarrow> nat \<Rightarrow> cbb_mem" where
  "CBB_cleanup st h =
     (if is_child (cbb_at st h) then st
      else
        (let st1 = (if has_base (cbb_at st h) \<and> can_resize st then st\<lparr>base_buf := None\<rparr> else st)
         in upd_cbb st1 h (\<lambda>c. c\<lparr>has_base := False\<rparr>)))"

section \<open>The buffer\<close>

text \<open>The result is the position \<open>*out\<close> points to.\<close>

definition cbb_buffer_reserve :: "libc_malloc \<Rightarrow> cbb_mem \<Rightarrow> nat \<Rightarrow> nat \<Rightarrow> nat option \<times> cbb_mem" where
  "cbb_buffer_reserve libc st h n =
     (if \<not> has_base (cbb_at st h) then (None, st)
      else
        (let newlen = size_add (base_len st) n
         in if newlen < base_len st then (None, st\<lparr>base_error := True\<rparr>)
            else if newlen > base_cap st then
              (let newcap = size_mul (base_cap st) 2
               in if \<not> can_resize st then (None, st\<lparr>base_error := True\<rparr>)
                  else
                    (let newcap' = (if newcap < base_cap st \<or> newcap < newlen then newlen else newcap)
                     in case heap_realloc libc (base_buf st) newcap' of
                          None \<Rightarrow> (None, st\<lparr>base_error := True\<rparr>)
                        | Some newbuf \<Rightarrow>
                            (Some (base_len st), st\<lparr>base_buf := Some newbuf, base_cap := newcap'\<rparr>)))
            else (Some (base_len st), st)))"

definition cbb_buffer_add :: "libc_malloc \<Rightarrow> cbb_mem \<Rightarrow> nat \<Rightarrow> nat \<Rightarrow> nat option \<times> cbb_mem" where
  "cbb_buffer_add libc st h n =
     (case cbb_buffer_reserve libc st h n of
        (None, st1) \<Rightarrow> (None, st1)
      | (Some out, st1) \<Rightarrow> (Some out, st1\<lparr>base_len := base_len st1 + n\<rparr>))"

text \<open>
  The loop that stores the low bytes of \<open>v\<close> in the \<open>n\<close> positions from \<open>pos\<close>, last position first.
  \<open>v\<close> is the value of the unsigned variable; what is left of it is returned.
\<close>

fun put_be_loop :: "cbb_mem \<Rightarrow> nat \<Rightarrow> nat \<Rightarrow> nat \<Rightarrow> cbb_mem \<times> nat" where
  "put_be_loop st pos 0 v = (st, v)"
| "put_be_loop st pos (Suc i) v = put_be_loop (base_write st (pos + i) [word_of_nat v]) pos i (v div 256)"

definition cbb_buffer_add_u :: "libc_malloc \<Rightarrow> cbb_mem \<Rightarrow> nat \<Rightarrow> u64 \<Rightarrow> nat \<Rightarrow> bool \<times> cbb_mem" where
  "cbb_buffer_add_u libc st h v len_len =
     (if len_len = 0 then (True, st)
      else
        (case cbb_buffer_add libc st h len_len of
           (None, st1) \<Rightarrow> (False, st1)
         | (Some buf, st1) \<Rightarrow>
             (case put_be_loop st1 buf len_len (unat v) of
                (st2, v') \<Rightarrow>
                  (if v' \<noteq> 0 then (False, st2\<lparr>base_error := True\<rparr>) else (True, st2)))))"

section \<open>Flushing length prefixes\<close>

text \<open>\<open>len_len\<close>, \<open>initial_length_byte\<close> and the length that is still to be written.\<close>

definition asn1_length_form :: "nat \<Rightarrow> nat \<times> u8 \<times> nat" where
  "asn1_length_form len =
     (if len > 0xffffff then (5, 0x80 OR 4, len)
      else if len > 0xffff then (4, 0x80 OR 3, len)
      else if len > 0xff then (3, 0x80 OR 2, len)
      else if len > 0x7f then (2, 0x80 OR 1, len)
      else (1, word_of_nat len, 0))"

definition cbb_error :: "cbb_mem \<Rightarrow> bool \<times> cbb_mem" where
  "cbb_error st = (False, st\<lparr>base_error := True\<rparr>)"

text \<open>The end of \<open>CBB_flush\<close>: the prefix of \<open>ch\<close>, a child of \<open>h\<close>, is written and the child detached.\<close>

definition cbb_write_prefix :: "cbb_mem \<Rightarrow> nat \<Rightarrow> nat \<Rightarrow> nat \<Rightarrow> bool \<times> cbb_mem" where
  "cbb_write_prefix st h ch len =
     (case put_be_loop st (cbb_offset (cbb_at st ch)) (pending_len_len (cbb_at st ch)) len of
        (st1, len') \<Rightarrow>
          (if len' \<noteq> 0 then cbb_error st1
           else (True, upd_cbb (upd_cbb st1 ch (\<lambda>c. c\<lparr>has_base := False\<rparr>)) h (\<lambda>c. c\<lparr>child := None\<rparr>))))"

text \<open>The branch of \<open>CBB_flush\<close> for an ASN.1 length: room is made for its octets first.\<close>

definition cbb_flush_asn1 ::
    "libc_malloc \<Rightarrow> cbb_mem \<Rightarrow> nat \<Rightarrow> nat \<Rightarrow> nat \<Rightarrow> nat \<Rightarrow> bool \<times> cbb_mem" where
  "cbb_flush_asn1 libc st h ch child_start len =
     (if len > 0xfffffffe then cbb_error st
      else
        (case asn1_length_form len of
           (len_len, initial_length_byte, len') \<Rightarrow>
             (case (if len_len \<noteq> 1
                    then (case cbb_buffer_add libc st h (len_len - 1) of
                            (None, st1) \<Rightarrow> (False, st1)
                          | (Some _, st1) \<Rightarrow>
                              (True, base_move st1 (child_start + (len_len - 1)) child_start len'))
                    else (True, st)) of
                (False, st1) \<Rightarrow> cbb_error st1
              | (True, st1) \<Rightarrow>
                  cbb_write_prefix
                    (upd_cbb (base_write st1 (cbb_offset (cbb_at st1 ch)) [initial_length_byte]) ch
                       (\<lambda>c. c\<lparr>cbb_offset := cbb_offset c + 1, pending_len_len := len_len - 1\<rparr>))
                    h ch len')))"

text \<open>
  The recursion follows the \<open>child\<close> pointers. Its fuel is one more than the number of structs,
  which no chain of distinct structs exceeds.
\<close>

fun CBB_flush_rec :: "nat \<Rightarrow> libc_malloc \<Rightarrow> cbb_mem \<Rightarrow> nat \<Rightarrow> bool \<times> cbb_mem" where
  "CBB_flush_rec 0 libc st h = (False, st)"
| "CBB_flush_rec (Suc fuel) libc st h =
     (if \<not> has_base (cbb_at st h) \<or> base_error st then (False, st)
      else
        (case child (cbb_at st h) of
           None \<Rightarrow> (True, st)
         | Some ch \<Rightarrow>
             (if pending_len_len (cbb_at st ch) = 0 then (True, st)
              else
                (let child_start = size_add (cbb_offset (cbb_at st ch)) (pending_len_len (cbb_at st ch))
                 in case CBB_flush_rec fuel libc st ch of
                      (False, st1) \<Rightarrow> cbb_error st1
                    | (True, st1) \<Rightarrow>
                        (if child_start < cbb_offset (cbb_at st1 ch) \<or> base_len st1 < child_start
                         then cbb_error st1
                         else
                           (let len = base_len st1 - child_start
                            in if pending_is_asn1 (cbb_at st1 ch)
                               then cbb_flush_asn1 libc st1 h ch child_start len
                               else cbb_write_prefix st1 h ch len))))))"

definition CBB_flush :: "libc_malloc \<Rightarrow> cbb_mem \<Rightarrow> nat \<Rightarrow> bool \<times> cbb_mem" where
  "CBB_flush libc st h = CBB_flush_rec (Suc (cbb_objects st)) libc st h"

text \<open>
  The caller of \<open>CBB_finish\<close> passes \<open>NULL\<close> for an output it does not want, which only a fixed
  buffer allows. The result is the buffer and the number of bytes written.
\<close>

definition CBB_finish ::
    "libc_malloc \<Rightarrow> cbb_mem \<Rightarrow> nat \<Rightarrow> bool \<Rightarrow> bool \<Rightarrow> (bytes option \<times> nat) option \<times> cbb_mem" where
  "CBB_finish libc st h out_data out_len =
     (if is_child (cbb_at st h) then (None, st)
      else
        (case CBB_flush libc st h of
           (False, st1) \<Rightarrow> (None, st1)
         | (True, st1) \<Rightarrow>
             (if can_resize st1 \<and> (\<not> out_data \<or> \<not> out_len) then (None, st1)
              else (Some (base_buf st1, base_len st1), CBB_cleanup (st1\<lparr>base_buf := None\<rparr>) h))))"

definition CBB_data :: "cbb_mem \<Rightarrow> nat \<Rightarrow> bytes" where
  "CBB_data st h = drop (cbb_offset (cbb_at st h) + pending_len_len (cbb_at st h)) (base_bytes st)"

definition CBB_len :: "cbb_mem \<Rightarrow> nat \<Rightarrow> nat" where
  "CBB_len st h = base_len st - cbb_offset (cbb_at st h) - pending_len_len (cbb_at st h)"

section \<open>Children\<close>

definition attach_child :: "cbb_mem \<Rightarrow> nat \<Rightarrow> nat \<Rightarrow> nat \<Rightarrow> nat \<Rightarrow> bool \<Rightarrow> cbb_mem" where
  "attach_child st h out_contents off len_len asn1 =
     upd_cbb
       (upd_cbb (upd_cbb st out_contents (\<lambda>_. zero_cbb\<lparr>has_base := has_base (cbb_at st h), is_child := True\<rparr>))
          h (\<lambda>c. c\<lparr>child := Some out_contents\<rparr>))
       out_contents (\<lambda>c. c\<lparr>cbb_offset := off, pending_len_len := len_len, pending_is_asn1 := asn1\<rparr>)"

definition cbb_add_length_prefixed :: "libc_malloc \<Rightarrow> cbb_mem \<Rightarrow> nat \<Rightarrow> nat \<Rightarrow> nat \<Rightarrow> bool \<times> cbb_mem" where
  "cbb_add_length_prefixed libc st h out_contents len_len =
     (case CBB_flush libc st h of
        (False, st1) \<Rightarrow> (False, st1)
      | (True, st1) \<Rightarrow>
          (let off = base_len st1
           in case cbb_buffer_add libc st1 h len_len of
                (None, st2) \<Rightarrow> (False, st2)
              | (Some prefix_bytes, st2) \<Rightarrow>
                  (True, attach_child (base_write st2 prefix_bytes (replicate len_len 0))
                           h out_contents off len_len False)))"

definition CBB_add_u8_length_prefixed :: "libc_malloc \<Rightarrow> cbb_mem \<Rightarrow> nat \<Rightarrow> nat \<Rightarrow> bool \<times> cbb_mem" where
  "CBB_add_u8_length_prefixed libc st h out_contents = cbb_add_length_prefixed libc st h out_contents 1"

definition CBB_add_u16_length_prefixed :: "libc_malloc \<Rightarrow> cbb_mem \<Rightarrow> nat \<Rightarrow> nat \<Rightarrow> bool \<times> cbb_mem" where
  "CBB_add_u16_length_prefixed libc st h out_contents = cbb_add_length_prefixed libc st h out_contents 2"

definition CBB_add_u24_length_prefixed :: "libc_malloc \<Rightarrow> cbb_mem \<Rightarrow> nat \<Rightarrow> nat \<Rightarrow> bool \<times> cbb_mem" where
  "CBB_add_u24_length_prefixed libc st h out_contents = cbb_add_length_prefixed libc st h out_contents 3"

definition CBB_discard_child :: "cbb_mem \<Rightarrow> nat \<Rightarrow> cbb_mem" where
  "CBB_discard_child st h =
     (case child (cbb_at st h) of
        None \<Rightarrow> st
      | Some ch \<Rightarrow>
          upd_cbb (upd_cbb (st\<lparr>base_len := cbb_offset (cbb_at st ch)\<rparr>) ch (\<lambda>c. c\<lparr>has_base := False\<rparr>))
            h (\<lambda>c. c\<lparr>child := None\<rparr>))"

section \<open>Writing\<close>

definition CBB_add_bytes :: "libc_malloc \<Rightarrow> cbb_mem \<Rightarrow> nat \<Rightarrow> bytes \<Rightarrow> nat \<Rightarrow> bool \<times> cbb_mem" where
  "CBB_add_bytes libc st h data len =
     (case CBB_flush libc st h of
        (False, st1) \<Rightarrow> (False, st1)
      | (True, st1) \<Rightarrow>
          (case cbb_buffer_add libc st1 h len of
             (None, st2) \<Rightarrow> (False, st2)
           | (Some dest, st2) \<Rightarrow> (True, base_write st2 dest (take len data))))"

definition CBB_add_space :: "libc_malloc \<Rightarrow> cbb_mem \<Rightarrow> nat \<Rightarrow> nat \<Rightarrow> nat option \<times> cbb_mem" where
  "CBB_add_space libc st h len =
     (case CBB_flush libc st h of
        (False, st1) \<Rightarrow> (None, st1)
      | (True, st1) \<Rightarrow> cbb_buffer_add libc st1 h len)"

definition CBB_reserve :: "libc_malloc \<Rightarrow> cbb_mem \<Rightarrow> nat \<Rightarrow> nat \<Rightarrow> nat option \<times> cbb_mem" where
  "CBB_reserve libc st h len =
     (case CBB_flush libc st h of
        (False, st1) \<Rightarrow> (None, st1)
      | (True, st1) \<Rightarrow> cbb_buffer_reserve libc st1 h len)"

definition CBB_did_write :: "cbb_mem \<Rightarrow> nat \<Rightarrow> nat \<Rightarrow> bool \<times> cbb_mem" where
  "CBB_did_write st h len =
     (let newlen = size_add (base_len st) len
      in if child (cbb_at st h) \<noteq> None \<or> newlen < base_len st \<or> newlen > base_cap st then (False, st)
         else (True, st\<lparr>base_len := newlen\<rparr>))"

text \<open>\<open>CBB_flush\<close> followed by \<open>cbb_buffer_add_u\<close>, the body of the fixed-width writers.\<close>

definition flush_add_u :: "libc_malloc \<Rightarrow> cbb_mem \<Rightarrow> nat \<Rightarrow> u64 \<Rightarrow> nat \<Rightarrow> bool \<times> cbb_mem" where
  "flush_add_u libc st h v n =
     (case CBB_flush libc st h of
        (False, st1) \<Rightarrow> (False, st1)
      | (True, st1) \<Rightarrow> cbb_buffer_add_u libc st1 h v n)"

definition CBB_add_u8 :: "libc_malloc \<Rightarrow> cbb_mem \<Rightarrow> nat \<Rightarrow> u8 \<Rightarrow> bool \<times> cbb_mem" where
  "CBB_add_u8 libc st h v = flush_add_u libc st h (ucast v) 1"

definition CBB_add_u16 :: "libc_malloc \<Rightarrow> cbb_mem \<Rightarrow> nat \<Rightarrow> u16 \<Rightarrow> bool \<times> cbb_mem" where
  "CBB_add_u16 libc st h v = flush_add_u libc st h (ucast v) 2"

definition CBB_add_u16le :: "libc_malloc \<Rightarrow> cbb_mem \<Rightarrow> nat \<Rightarrow> u16 \<Rightarrow> bool \<times> cbb_mem" where
  "CBB_add_u16le libc st h v = CBB_add_u16 libc st h (CRYPTO_bswap2 v)"

definition CBB_add_u24 :: "libc_malloc \<Rightarrow> cbb_mem \<Rightarrow> nat \<Rightarrow> u32 \<Rightarrow> bool \<times> cbb_mem" where
  "CBB_add_u24 libc st h v = flush_add_u libc st h (ucast v) 3"

definition CBB_add_u32 :: "libc_malloc \<Rightarrow> cbb_mem \<Rightarrow> nat \<Rightarrow> u32 \<Rightarrow> bool \<times> cbb_mem" where
  "CBB_add_u32 libc st h v = flush_add_u libc st h (ucast v) 4"

definition CBB_add_u32le :: "libc_malloc \<Rightarrow> cbb_mem \<Rightarrow> nat \<Rightarrow> u32 \<Rightarrow> bool \<times> cbb_mem" where
  "CBB_add_u32le libc st h v = CBB_add_u32 libc st h (CRYPTO_bswap4 v)"

definition CBB_add_u64 :: "libc_malloc \<Rightarrow> cbb_mem \<Rightarrow> nat \<Rightarrow> u64 \<Rightarrow> bool \<times> cbb_mem" where
  "CBB_add_u64 libc st h v = flush_add_u libc st h v 8"

definition CBB_add_u64le :: "libc_malloc \<Rightarrow> cbb_mem \<Rightarrow> nat \<Rightarrow> u64 \<Rightarrow> bool \<times> cbb_mem" where
  "CBB_add_u64le libc st h v = CBB_add_u64 libc st h (CRYPTO_bswap8 v)"

end
