(* ===== verification/Cbs_Spec.thy ===== *)
theory Cbs_Spec
  imports Cbs
begin

text \<open>
  What the reader's operations do on the bytes it shows. Every well-formed reader is a
  \<open>window v t\<close>: the string \<open>v\<close> it may read, in front of memory \<open>t\<close> that is not part of it. The
  lemmas of this theory give each operation's result on \<open>window v t\<close>; none depends on \<open>t\<close>, which is
  the memory safety of the parser: no operation reads behind the string. The collection
  \<open>cbs_simps\<close> evaluates the operations on windows.
\<close>

section \<open>Windows\<close>

definition cbs_wf :: "cbs \<Rightarrow> bool" where
  "cbs_wf c \<longleftrightarrow> cbs_len c \<le> length (cbs_data c)"

definition cbs_view :: "cbs \<Rightarrow> bytes" where
  "cbs_view c = take (cbs_len c) (cbs_data c)"

definition window :: "bytes \<Rightarrow> bytes \<Rightarrow> cbs" where
  "window v t = \<lparr>cbs_data = v @ t, cbs_len = length v\<rparr>"

named_theorems cbs_simps "the operations of CBS on a window"

lemma window_view [simp]: "cbs_view (window v t) = v"
  by (simp add: cbs_view_def window_def)

lemma window_wf [simp]: "cbs_wf (window v t)"
  by (simp add: cbs_wf_def window_def)

lemma cbs_wf_window: "cbs_wf c \<Longrightarrow> c = window (cbs_view c) (drop (cbs_len c) (cbs_data c))"
  by (simp add: cbs_wf_def cbs_view_def window_def min_absorb2)

lemma cbs_wf_cases:
  assumes "cbs_wf c"
  obtains v t where "c = window v t"
  using cbs_wf_window [OF assms] by blast

lemma window_eq_iff [simp]: "window v t = window v' t' \<longleftrightarrow> v = v' \<and> t = t'"
  by (auto simp: window_def append_eq_append_conv)

lemma CBS_init_window [cbs_simps]: "CBS_init (v @ t) (length v) = window v t"
  by (simp add: CBS_init_def window_def)

lemma CBS_init_whole [cbs_simps]: "CBS_init v (length v) = window v []"
  by (simp add: CBS_init_def window_def)

lemma CBS_len_window [cbs_simps]: "CBS_len (window v t) = length v"
  by (simp add: CBS_len_def window_def)

lemma CBS_data_window [cbs_simps]: "CBS_data (window v t) = v @ t"
  by (simp add: CBS_data_def window_def)

section \<open>Reads\<close>

lemma cbs_get_window [cbs_simps]:
  "cbs_get (window v t) n =
     (if length v < n then (None, window v t) else (Some (v @ t), window (drop n v) t))"
  by (simp add: cbs_get_def window_def)

lemma CBS_skip_window [cbs_simps]:
  "CBS_skip (window v t) n =
     (if length v < n then (False, window v t) else (True, window (drop n v) t))"
  by (simp add: CBS_skip_def cbs_simps)

lemma CBS_get_u8_window [cbs_simps]:
  "CBS_get_u8 (window [] t) = (None, window [] t)"
  "CBS_get_u8 (window (b # v) t) = (Some b, window v t)"
  by (simp_all add: CBS_get_u8_def cbs_simps)

lemma CBS_get_last_u8_window [cbs_simps]:
  "CBS_get_last_u8 (window [] t) = (None, window [] t)"
  "CBS_get_last_u8 (window (v @ [b]) t) = (Some b, window v (b # t))"
  by (simp_all add: CBS_get_last_u8_def window_def)

lemma CBS_init_split: "n \<le> length d \<Longrightarrow> CBS_init d n = window (take n d) (drop n d)"
  using CBS_init_window [of "take n d" "drop n d"] by (simp add: min_absorb2)

lemma CBS_init_take [cbs_simps]:
  "n \<le> length v \<Longrightarrow> CBS_init (v @ t) n = window (take n v) (drop n v @ t)"
  by (simp add: CBS_init_def window_def min_absorb2)

lemma CBS_get_bytes_window [cbs_simps]:
  "CBS_get_bytes (window v t) n =
     (if length v < n then (None, window v t)
      else (Some (window (take n v) (drop n v @ t)), window (drop n v) t))"
  by (simp add: CBS_get_bytes_def cbs_simps)

lemma foldl_nth_upt:
  "n \<le> length p \<Longrightarrow> foldl (\<lambda>r i. f r (p ! i)) a [0 ..< n] = foldl f a (take n p)"
proof (induction n)
  case 0
  then show ?case by simp
next
  case (Suc n)
  then show ?case by (simp add: take_Suc_conv_app_nth)
qed

lemma unat_shift_fold:
  "length bs \<le> 8 \<Longrightarrow>
   unat (foldl (\<lambda>r b. push_bit 8 r OR ucast b) (0 :: u64) bs) = be_val bs"
proof (induction bs rule: rev_induct)
  case Nil
  then show ?case by simp
next
  case (snoc b bs)
  let ?r = "foldl (\<lambda>r b. push_bit 8 r OR ucast b) (0 :: u64) bs"
  have IH: "unat ?r = be_val bs" using snoc by simp
  have "(256::nat) ^ length bs \<le> 256 ^ 7"
    using snoc.prems by (intro power_increasing) simp_all
  with be_val_less [of bs] have "be_val bs < 256 ^ 7" by (rule less_le_trans)
  then have "unat ?r * 2 ^ 8 < 2 ^ LENGTH(64)" by (simp add: IH)
  then show ?case by (simp add: unat_push_or IH)
qed

lemma cbs_get_u_window [cbs_simps]:
  assumes "n \<le> 8"
  shows "cbs_get_u (window v t) n =
     (if length v < n then (None, window v t)
      else (Some (word_of_nat (be_val (take n v))), window (drop n v) t))"
proof (cases "length v < n")
  case True
  then show ?thesis by (simp add: cbs_get_u_def cbs_simps)
next
  case False
  let ?w = "foldl (\<lambda>result i. push_bit 8 result OR ucast ((v @ t) ! i)) (0 :: u64) [0 ..< n]"
  have "?w = foldl (\<lambda>r b. push_bit 8 r OR ucast b) 0 (take n v)"
    using False by (subst foldl_nth_upt) simp_all
  then have "unat ?w = be_val (take n v)"
    using assms by (simp add: unat_shift_fold)
  then have "?w = word_of_nat (be_val (take n v))" by (rule word_of_natI)
  then show ?thesis using False by (simp add: cbs_get_u_def cbs_simps)
qed

lemma unat_word_of_be_val:
  assumes "length bs \<le> 8"
  shows "unat (word_of_nat (be_val bs) :: u64) = be_val bs"
proof -
  have "(256::nat) ^ length bs \<le> 256 ^ 8" using assms by (intro power_increasing) simp_all
  with be_val_less [of bs] have "be_val bs < 256 ^ 8" by (rule less_le_trans)
  then show ?thesis by (simp add: unat_of_nat)
qed

lemma cbs_get_length_prefixed_window [cbs_simps]:
  assumes "n \<le> 3"
  shows "cbs_get_length_prefixed (window v t) n =
     (if length v < n then (None, window v t)
      else let k = be_val (take n v); w = drop n v
           in if length w < k then (None, window w t)
              else (Some (window (take k w) (drop k w @ t)), window (drop k w) t))"
  using assms
  by (simp add: cbs_get_length_prefixed_def cbs_simps unat_word_of_be_val Let_def)

section \<open>Little-endian reads\<close>

lemma bit_beyond [simp]:
  "32 \<le> n \<Longrightarrow> \<not> bit (x :: u32) n" "16 \<le> n \<Longrightarrow> \<not> bit (y :: u16) n"
  by (auto dest: bit_imp_le_length)

lemma bit_bswap4: "n < 32 \<Longrightarrow> bit (CRYPTO_bswap4 x) n \<longleftrightarrow> bit x (8 * (3 - n div 8) + n mod 8)"
proof -
  assume n: "n < 32"
  have "{0 ..< 32 :: nat} = {0,1,2,3,4,5,6,7,8,9,10,11,12,13,14,15,16,17,18,19,20,21,22,23,24,25,26,27,28,29,30,31}"
    by (simp only: set_upt [symmetric]) code_simp
  with n have "n \<in> {0,1,2,3,4,5,6,7,8,9,10,11,12,13,14,15,16,17,18,19,20,21,22,23,24,25,26,27,28,29,30,31}" by (metis atLeastLessThan_iff le0)
  then show ?thesis
    by (elim insertE emptyE; simp add: CRYPTO_bswap4_def Let_def bit_simps numeral_2_eq_2 [symmetric])
qed

lemma bit_bswap2: "n < 16 \<Longrightarrow> bit (CRYPTO_bswap2 x) n \<longleftrightarrow> bit x (8 * (1 - n div 8) + n mod 8)"
proof -
  assume n: "n < 16"
  have "{0 ..< 16 :: nat} = {0,1,2,3,4,5,6,7,8,9,10,11,12,13,14,15}"
    by (simp only: set_upt [symmetric]) code_simp
  with n have "n \<in> {0,1,2,3,4,5,6,7,8,9,10,11,12,13,14,15}" by (metis atLeastLessThan_iff le0)
  then show ?thesis
    by (elim insertE emptyE; simp add: CRYPTO_bswap2_def Let_def bit_simps numeral_2_eq_2 [symmetric])
qed

lemma bit_bswap8:
  assumes "n < 64"
  shows "bit (CRYPTO_bswap8 x) n \<longleftrightarrow> bit x (8 * (7 - n div 8) + n mod 8)"
proof (cases "n < 32")
  case True
  then have "n div 8 \<le> 3" by (simp add: div_le_mono [of n 31 8, simplified])
  then have "32 + (8 * (3 - n div 8) + n mod 8) = 8 * (7 - n div 8) + n mod 8" by simp
  moreover have "8 * (3 - n div 8) + n mod 8 < 32" using \<open>n div 8 \<le> 3\<close> by simp
  ultimately show ?thesis using True
    by (simp add: CRYPTO_bswap8_def bit_simps bit_bswap4 add.assoc [symmetric])
next
  case False
  define m where "m = n - 32"
  with False assms have n: "n = m + 32" "m < 32" by auto
  then have "n div 8 = m div 8 + 4" "n mod 8 = m mod 8"
    using div_add1_eq [of m 32 8] by (simp_all add: mod_add_eq [of m 8 32, symmetric])
  then have "8 * (7 - n div 8) + n mod 8 = 8 * (3 - m div 8) + m mod 8" by simp
  moreover have "8 * (3 - m div 8) + m mod 8 < 32"
    using n(2) mod_less_divisor [of 8 m] by linarith
  ultimately show ?thesis using n
    by (simp add: CRYPTO_bswap8_def bit_simps bit_bswap4)
qed

text \<open>A big-endian read followed by a byte swap is a little-endian read.\<close>

lemma swap_index: "i < k \<Longrightarrow> (8 * (k - 1 - i) + n mod 8) div 8 = k - 1 - (i :: nat)"
  "(8 * (k - 1 - i) + n mod 8) mod 8 = n mod (8 :: nat)"
  by simp_all

lemma bswap2_be_val:
  assumes "length bs = 2"
  shows "CRYPTO_bswap2 (word_of_nat (be_val bs)) = word_of_nat (le_val bs)"
proof (rule bit_word_eqI)
  fix n assume "n < LENGTH(16)"
  then have n: "n < 16" "n div 8 < 2" by simp_all
  then have "8 * (1 - n div 8) + n mod 8 < 16" by linarith
  then show "bit (CRYPTO_bswap2 (word_of_nat (be_val bs))) n = bit (word_of_nat (le_val bs) :: u16) n"
    using n assms swap_index [of "n div 8" 2 n]
    by (simp add: bit_bswap2 word_of_nat_bit bit_be_val bit_le_val)
qed

lemma bswap4_be_val:
  assumes "length bs = 4"
  shows "CRYPTO_bswap4 (word_of_nat (be_val bs)) = word_of_nat (le_val bs)"
proof (rule bit_word_eqI)
  fix n assume "n < LENGTH(32)"
  then have n: "n < 32" "n div 8 < 4" by simp_all
  then have "8 * (3 - n div 8) + n mod 8 < 32" by linarith
  then show "bit (CRYPTO_bswap4 (word_of_nat (be_val bs))) n = bit (word_of_nat (le_val bs) :: u32) n"
    using n assms swap_index [of "n div 8" 4 n]
    by (simp add: bit_bswap4 word_of_nat_bit bit_be_val bit_le_val)
qed

lemma bswap8_be_val:
  assumes "length bs = 8"
  shows "CRYPTO_bswap8 (word_of_nat (be_val bs)) = word_of_nat (le_val bs)"
proof (rule bit_word_eqI)
  fix n assume "n < LENGTH(64)"
  then have n: "n < 64" "n div 8 < 8" by simp_all
  then have "8 * (7 - n div 8) + n mod 8 < 64" by linarith
  then show "bit (CRYPTO_bswap8 (word_of_nat (be_val bs))) n = bit (word_of_nat (le_val bs) :: u64) n"
    using n assms swap_index [of "n div 8" 8 n]
    by (simp add: bit_bswap8 word_of_nat_bit bit_be_val bit_le_val)
qed


lemma ucast_word_of_be_val:
  "length bs \<le> 8 \<Longrightarrow> (ucast (word_of_nat (be_val bs) :: u64) :: 'a :: len word) = word_of_nat (be_val bs)"
  by (rule bit_word_eqI) (auto simp: bit_ucast_iff word_of_nat_bit bit_be_val)

lemma CBS_get_words_window [cbs_simps]:
  "CBS_get_u16 (window v t) =
     (if length v < 2 then (None, window v t) else (Some (word_of_nat (be_val (take 2 v))), window (drop 2 v) t))"
  "CBS_get_u24 (window v t) =
     (if length v < 3 then (None, window v t) else (Some (word_of_nat (be_val (take 3 v))), window (drop 3 v) t))"
  "CBS_get_u32 (window v t) =
     (if length v < 4 then (None, window v t) else (Some (word_of_nat (be_val (take 4 v))), window (drop 4 v) t))"
  "CBS_get_u64 (window v t) =
     (if length v < 8 then (None, window v t) else (Some (word_of_nat (be_val (take 8 v))), window (drop 8 v) t))"
  by (simp_all add: CBS_get_u16_def CBS_get_u24_def CBS_get_u32_def CBS_get_u64_def cbs_simps
      ucast_word_of_be_val)

lemma CBS_get_le_words_window [cbs_simps]:
  "CBS_get_u16le (window v t) =
     (if length v < 2 then (None, window v t) else (Some (word_of_nat (le_val (take 2 v))), window (drop 2 v) t))"
  "CBS_get_u32le (window v t) =
     (if length v < 4 then (None, window v t) else (Some (word_of_nat (le_val (take 4 v))), window (drop 4 v) t))"
  "CBS_get_u64le (window v t) =
     (if length v < 8 then (None, window v t) else (Some (word_of_nat (le_val (take 8 v))), window (drop 8 v) t))"
  by (simp_all add: CBS_get_u16le_def CBS_get_u32le_def CBS_get_u64le_def cbs_simps
      bswap2_be_val bswap4_be_val bswap8_be_val)

section \<open>Bit strings\<close>

text \<open>
  A \<open>BIT STRING\<close> is a count of unused bits, at most seven, and the octets; the unused bits are the
  low bits of the last octet and must be zero.
\<close>

definition bitstring_ok :: "bytes \<Rightarrow> bool" where
  "bitstring_ok v \<longleftrightarrow>
     (case v of [] \<Rightarrow> False
      | u # bs \<Rightarrow> unat u \<le> 7 \<and> (u \<noteq> 0 \<longrightarrow> bs \<noteq> [] \<and> (\<forall>j < unat u. \<not> bit (last bs) j)))"

lemma and_low_mask: "(b AND (push_bit k 1 - 1) = 0) \<longleftrightarrow> (\<forall>j < k. \<not> bit (b :: 'a :: len word) j)"
proof -
  have "push_bit k 1 - 1 = (mask k :: 'a word)" by (simp add: mask_eq_exp_minus_1)
  then show ?thesis
    by (auto simp: bit_eq_iff bit_simps dest: bit_imp_le_length)
qed

lemma valid_bitstring_window [cbs_simps]: "CBS_is_valid_asn1_bitstring (window v t) \<longleftrightarrow> bitstring_ok v"
proof (cases v)
  case Nil
  then show ?thesis by (simp add: CBS_is_valid_asn1_bitstring_def cbs_simps bitstring_ok_def)
next
  case (Cons u bs)
  show ?thesis
  proof (cases bs rule: rev_cases)
    case Nil
    with Cons show ?thesis
      by (simp add: CBS_is_valid_asn1_bitstring_def cbs_simps bitstring_ok_def word_le_nat_alt not_less [symmetric] word_less_nat_alt)
  next
    case (snoc ys y)
    with Cons show ?thesis
      by (simp add: CBS_is_valid_asn1_bitstring_def cbs_simps bitstring_ok_def word_less_nat_alt
          and_low_mask [unfolded push_bit_eq_mult, simplified])
  qed
qed

lemma and_single_bit: "(b AND push_bit k 1 \<noteq> 0) \<longleftrightarrow> bit (b :: 'a :: len word) k"
  by (simp add: and_exp_eq_0_iff_not_bit)

lemma bitstring_has_bit_window [cbs_simps]:
  "CBS_asn1_bitstring_has_bit (window v t) n \<longleftrightarrow>
   bitstring_ok v \<and> unat n div 8 < length (tl v) \<and> bit (tl v ! (unat n div 8)) (7 - unat n mod 8)"
proof (cases v)
  case Nil
  then show ?thesis by (simp add: CBS_asn1_bitstring_has_bit_def cbs_simps bitstring_ok_def)
next
  case (Cons u bs)
  have "unat (drop_bit 3 n) = unat n div 8" by (simp only: unat_drop_bit_eq) (simp add: drop_bit_eq_div)
  moreover have "unat n < 2 ^ 32" using unsigned_less [of n, where ?'a = nat] by simp
  ultimately have byte: "unat (drop_bit 3 n + 1) = Suc (unat n div 8)"
    by (simp add: unat_word_ariths)
  have m: "unat (n AND 7) = unat n mod 8"
    using unat_and_mask [of n 3] by (simp add: mask_eq_exp_minus_1)
  then have "unat (7 - (n AND 7)) = 7 - unat n mod 8"
    by (subst unat_sub) (simp_all add: word_le_nat_alt)
  with byte Cons show ?thesis
    by (auto simp: CBS_asn1_bitstring_has_bit_def cbs_simps Let_def and_single_bit nth_append
        simp del: push_bit_of_1)
qed

section \<open>Base-128 integers\<close>

text \<open>The encoding: seven bits a byte, most significant first, the high bit on all but the last.\<close>

fun b128_high :: "nat \<Rightarrow> bytes" where
  "b128_high n = (if n = 0 then [] else b128_high (n div 128) @ [word_of_nat (128 + n mod 128)])"

declare b128_high.simps [simp del]

definition b128 :: "nat \<Rightarrow> bytes" where
  "b128 n = b128_high (n div 128) @ [word_of_nat (n mod 128)]"

lemma b128_high_0 [simp]: "b128_high 0 = []"
  by (simp add: b128_high.simps)

lemma b128_high_step: "n \<noteq> 0 \<Longrightarrow>
    b128_high n = b128_high (n div 128) @ [word_of_nat (128 + n mod 128)]"
  by (subst b128_high.simps) simp

lemma length_b128_high: "n < 128 ^ k \<Longrightarrow> length (b128_high n) \<le> k"
proof (induction k arbitrary: n)
  case 0
  then show ?case by simp
next
  case (Suc k)
  show ?case
  proof (cases "n = 0")
    case False
    have "n div 128 < 128 ^ k" using Suc.prems by (simp add: less_mult_imp_div_less mult.commute)
    then have "length (b128_high (n div 128)) \<le> k" by (rule Suc.IH)
    with False show ?thesis by (simp add: b128_high_step del: of_nat_add)
  qed simp
qed

lemma length_b128: "n < 128 ^ Suc k \<Longrightarrow> length (b128 n) \<le> Suc k"
  using length_b128_high [of "n div 128" k]
  by (simp add: b128_def less_mult_imp_div_less mult.commute)

lemma unat_b128_step:
  assumes "unat (v :: u64) < 2 ^ 57"
  shows "unat (push_bit 7 v OR ucast (b AND 0x7f :: u8)) = unat v * 128 + unat b mod 128"
proof -
  have b: "unat (ucast (b AND 0x7f :: u8) :: u64) = unat b mod 128"
    by (simp add: u8_and_7f)
  have "unat (push_bit 7 v OR ucast (b AND 0x7f :: u8)) =
        unat v * 2 ^ 7 + unat (ucast (b AND 0x7f :: u8) :: u64)"
    by (rule unat_push_or) (use assms b in simp_all)
  then show ?thesis by (simp add: b)
qed

lemma drop_57_iff: "drop_bit 57 (v :: u64) = 0 \<longleftrightarrow> unat v < 2 ^ 57"
  by (rule drop_bit_eq_0_iff)

text \<open>One round of the loop, in terms of the number read so far.\<close>

lemma b128_round:
  "parse_base128_loop (window (b # v) t) w =
     (if \<not> unat w < 2 ^ 57 then (None, window v t)
      else if unat w = 0 \<and> unat b = 128 then (None, window v t)
      else let w' = word_of_nat (unat w * 128 + unat b mod 128)
           in if 128 \<le> unat b then parse_base128_loop (window v t) w' else (Some w', window v t))"
proof -
  have "push_bit 7 w OR ucast (b AND 0x7f :: u8) = word_of_nat (unat w * 128 + unat b mod 128)"
    if "unat w < 2 ^ 57"
    using unat_b128_step [OF that, of b] by (rule word_of_natI)
  moreover have "w = 0 \<and> b = 0x80 \<longleftrightarrow> unat w = 0 \<and> unat b = 128"
    by (simp add: word_unat_eq_iff)
  ultimately show ?thesis
    by (subst parse_base128_loop.simps)
      (simp add: cbs_simps drop_57_iff u8_high_bit Let_def)
qed

lemma b128_round_more:
  "unat w < 2 ^ 57 \<Longrightarrow> \<not> (unat w = 0 \<and> unat b = 128) \<Longrightarrow> 128 \<le> unat b \<Longrightarrow>
   parse_base128_loop (window (b # v) t) w =
   parse_base128_loop (window v t) (word_of_nat (unat w * 128 + unat b mod 128))"
  by (simp only: b128_round Let_def if_True if_False not_not simp_thms)

lemma b128_round_last:
  "unat w < 2 ^ 57 \<Longrightarrow> unat b < 128 \<Longrightarrow>
   parse_base128_loop (window (b # v) t) w =
   (Some (word_of_nat (unat w * 128 + unat b mod 128)), window v t)"
  unfolding b128_round Let_def by simp

lemma b128_round_ok:
  assumes "parse_base128_loop (window (b # v) t) w = (Some x, c)"
  shows "unat w < 2 ^ 57" and "\<not> (unat w = 0 \<and> unat b = 128)"
  using assms unfolding b128_round by (metis option.distinct(1) prod.inject)+

lemma parse_base128_empty: "parse_base128_loop (window [] t) w = (None, window [] t)"
  by (subst parse_base128_loop.simps) (simp add: cbs_simps)

lemma parse_b128_high:
  "n < 2 ^ 64 \<Longrightarrow>
   parse_base128_loop (window (b128_high n @ v) t) 0 = parse_base128_loop (window v t) (word_of_nat n)"
proof (induction n arbitrary: v rule: less_induct)
  case (less n)
  show ?case
  proof (cases "n = 0")
    case True
    then show ?thesis by simp
  next
    case False
    let ?b = "word_of_nat (128 + n mod 128) :: u8"
    have b: "unat ?b = 128 + n mod 128"
    proof -
      have "128 + n mod 128 < 256" by simp
      then show ?thesis by (simp add: unat_word_of_nat_u8 del: of_nat_add of_nat_mult)
    qed
    have q: "n div 128 < 2 ^ 57" using less.prems by simp
    have w: "unat (word_of_nat (n div 128) :: u64) = n div 128"
      using q by (simp add: unat_of_nat)
    have "parse_base128_loop (window (b128_high n @ v) t) 0
        = parse_base128_loop (window (?b # v) t) (word_of_nat (n div 128))"
      using False less.IH [of "n div 128" "?b # v"] less.prems
      by (simp add: b128_high_step del: of_nat_add of_nat_mult)
    also have "\<dots> = parse_base128_loop (window v t) (word_of_nat n)"
    proof -
      have "\<not> (n div 128 = 0 \<and> 128 + n mod 128 = 128)" using False by (auto simp: div_eq_0_iff)
      moreover have "n div 128 * 128 + (128 + n mod 128) mod 128 = n" by simp
      ultimately show ?thesis
        using b128_round_more [of "word_of_nat (n div 128)" ?b v t, unfolded w b] q by simp
    qed
    finally show ?thesis .
  qed
qed

lemma parse_base128_complete:
  assumes "n < 2 ^ 64"
  shows "parse_base128_integer (window (b128 n @ v) t) = (Some (word_of_nat n), window v t)"
proof -
  have w: "unat (word_of_nat (n div 128) :: u64) = n div 128" and q: "n div 128 < 2 ^ 57"
    using assms by (simp_all add: unat_of_nat)
  have b: "unat (word_of_nat (n mod 128) :: u8) = n mod 128"
    by (simp add: unat_word_of_nat_u8)
  have "parse_base128_integer (window (b128 n @ v) t)
      = parse_base128_loop (window (word_of_nat (n mod 128) # v) t) (word_of_nat (n div 128))"
    using q by (simp add: parse_base128_integer_def b128_def parse_b128_high)
  also have "\<dots> = (Some (word_of_nat n), window v t)"
    using b128_round_last [of "word_of_nat (n div 128)" "word_of_nat (n mod 128)" v t, unfolded w b] q
    by simp
  finally show ?thesis .
qed

lemma parse_base128_loop_sound:
  "parse_base128_loop (window v t) w = (Some x, c) \<Longrightarrow>
   \<exists>p r. v = p @ r \<and> c = window r t \<and> b128_high (unat w) @ p = b128 (unat x)"
proof (induction v arbitrary: w)
  case Nil
  then show ?case by (simp add: parse_base128_empty)
next
  case (Cons b v)
  let ?w' = "word_of_nat (unat w * 128 + unat b mod 128) :: u64"
  from Cons.prems have w: "unat w < 2 ^ 57" and z: "\<not> (unat w = 0 \<and> unat b = 128)"
    by (rule b128_round_ok)+
  then have w': "unat ?w' = unat w * 128 + unat b mod 128"
    by (simp add: unat_of_nat del: of_nat_add of_nat_mult)
  show ?case
  proof (cases "128 \<le> unat b")
    case True
    have "parse_base128_loop (window v t) ?w' = (Some x, c)"
      using b128_round_more [OF w z True, of v t] Cons.prems by simp
    from Cons.IH [OF this] obtain p r where r: "v = p @ r" "c = window r t"
      and p: "b128_high (unat ?w') @ p = b128 (unat x)" by blast
    obtain k where k: "unat b = 128 + k" "k < 128"
      using that [of "unat b - 128"] True unat_u8_less [of b] by linarith
    then have w'k: "unat ?w' = unat w * 128 + k" unfolding w' by simp
    have "unat ?w' \<noteq> 0" unfolding w'k using k z by linarith
    moreover have "unat ?w' div 128 = unat w" "128 + unat ?w' mod 128 = unat b"
      unfolding w'k using k by simp_all
    ultimately have "b128_high (unat ?w') = b128_high (unat w) @ [b]"
      by (simp add: b128_high_step del: of_nat_add of_nat_mult)
    with p have "b128_high (unat w) @ b # p = b128 (unat x)" by simp
    with r show ?thesis by (intro exI [of _ "b # p"] exI [of _ r]) simp
  next
    case False
    have x: "x = ?w'" "c = window v t"
      using b128_round_last [OF w, of b v t] Cons.prems False by simp_all
    have "unat x = unat w * 128 + unat b" unfolding x(1) w' using False by simp
    then have "b128 (unat x) = b128_high (unat w) @ [b]"
      using False by (simp add: b128_def del: of_nat_add of_nat_mult)
    with x show ?thesis by (intro exI [of _ "[b]"] exI [of _ v]) simp
  qed
qed

text \<open>The parser accepts exactly the minimal encodings of the 64-bit numbers.\<close>

lemma parse_base128_iff:
  "parse_base128_integer (window v t) = (Some x, c) \<longleftrightarrow>
   (\<exists>r. v = b128 (unat x) @ r \<and> c = window r t)"
proof
  assume "parse_base128_integer (window v t) = (Some x, c)"
  then show "\<exists>r. v = b128 (unat x) @ r \<and> c = window r t"
    using parse_base128_loop_sound [of v t 0 x c] by (auto simp: parse_base128_integer_def)
next
  assume "\<exists>r. v = b128 (unat x) @ r \<and> c = window r t"
  then show "parse_base128_integer (window v t) = (Some x, c)"
    using unsigned_less [of x, where ?'a = nat] by (auto simp: parse_base128_complete)
qed

end
