(* ===== verification/Der.thy ===== *)
theory Der
  imports Cbs_Spec
begin

text \<open>
  The distinguished encoding the element parser implements: identifier octets, minimal length
  octets and contents, written as functions of their own, and the proof that
  \<open>cbs_get_any_asn1_element\<close> accepts exactly these encodings (contents below \<open>2 ^ 32\<close> bytes) and
  that the typed readers built on it return the contents.
\<close>

section \<open>Identifier octets\<close>

definition tag_lead :: "u32 \<Rightarrow> u8" where
  "tag_lead tag = ucast (drop_bit 24 tag) AND 0xe0"

definition tag_num :: "u32 \<Rightarrow> u32" where
  "tag_num tag = tag AND CBS_ASN1_TAG_NUMBER_MASK"

definition der_tag :: "u32 \<Rightarrow> bytes" where
  "der_tag tag =
     (if 0x1f \<le> unat (tag_num tag)
      then (tag_lead tag OR 0x1f) # b128 (unat (tag_num tag))
      else [tag_lead tag OR ucast (tag_num tag)])"

lemma mask_consts:
  "(0xe0 :: u32) = push_bit 5 (mask 3)" "(0xe0 :: u8) = push_bit 5 (mask 3)"
  "(0x1f :: u32) = mask 5" "(0x1f :: u8) = mask 5"
  "(0x1fffffff :: u32) = mask 29"
  by (simp_all add: mask_eq_exp_minus_1)

lemma tag_num_less: "unat (tag_num tag) < 2 ^ 29"
  by (simp add: tag_num_def CBS_ASN1_TAG_NUMBER_MASK_def mask_consts unat_and_mask del: mask_numeral)

lemma not_bit_small:
  fixes m :: "'a :: len word"
  shows "unat m < 2 ^ k \<Longrightarrow> bit m n \<Longrightarrow> n < k"
  by (meson not_bit_unat_less not_le)

lemma lead_byte_split:
  assumes "unat (m :: u32) < 32"
  shows "push_bit 24 (ucast (tag_lead tag OR ucast m) AND 0xe0) = tag AND NOT (mask 29)"
    and "ucast (tag_lead tag OR ucast m) AND 0x1f = m"
proof -
  have b: "n < 5" if "bit m n" for n
    using not_bit_small [of m 5 n] that assms by simp
  show "push_bit 24 (ucast (tag_lead tag OR ucast m) AND 0xe0) = tag AND NOT (mask 29)"
    unfolding tag_lead_def mask_consts
    by (rule bit_word_eqI) (auto simp: bit_simps dest: b)
  show "ucast (tag_lead tag OR ucast m) AND 0x1f = m"
    unfolding tag_lead_def mask_consts
    by (rule bit_word_eqI) (auto simp: bit_simps dest: b)
qed

lemma tag_recombine: "(tag AND NOT (mask 29)) OR tag_num tag = tag"
  unfolding tag_num_def CBS_ASN1_TAG_NUMBER_MASK_def mask_consts
  by (rule bit_word_eqI) (auto simp: bit_simps)

lemma parse_asn1_tag_complete:
  "parse_asn1_tag (window (der_tag tag @ v) t) = (Some tag, window v t)"
proof (cases "0x1f \<le> unat (tag_num tag)")
  case True
  have lead: "push_bit 24 (ucast (tag_lead tag OR 0x1f) AND 0xe0) = tag AND NOT (mask 29)"
    "ucast (tag_lead tag OR 0x1f) AND (0x1f :: u32) = 0x1f"
    using lead_byte_split [of "0x1f" tag] by simp_all
  have n: "unat (tag_num tag) < 2 ^ 64" using tag_num_less [of tag] by simp
  have "unat (word_of_nat (unat (tag_num tag)) :: u64) = unat (tag_num tag)"
    using n by (simp only: unat_of_nat) simp
  moreover have "ucast (word_of_nat (unat (tag_num tag)) :: u64) = tag_num tag"
    by simp (rule bit_word_eqI, simp add: bit_simps)
  moreover have "push_bit 24 (ucast (tag_lead tag OR 0x1f) AND 0xe0) OR tag_num tag = tag"
    unfolding lead by (rule tag_recombine)
  ultimately show ?thesis
    using True tag_num_less [of tag] lead(2)
    by (simp add: der_tag_def parse_asn1_tag_def cbs_simps Let_def CBS_ASN1_TAG_SHIFT_def
        parse_base128_complete n word_less_nat_alt CBS_ASN1_TAG_NUMBER_MASK_def)
next
  case False
  then show ?thesis
    using lead_byte_split [of "tag_num tag" tag]
    by (auto simp: der_tag_def parse_asn1_tag_def cbs_simps Let_def CBS_ASN1_TAG_SHIFT_def
        tag_recombine)
qed

lemma tag_parts:
  assumes "unat (m :: u32) < 2 ^ 29"
  shows "tag_lead (push_bit 24 (ucast b AND 0xe0) OR m) = b AND 0xe0"
    and "tag_num (push_bit 24 (ucast b AND 0xe0) OR m) = m"
proof -
  have m: "n < 29" if "bit m n" for n
    using not_bit_small [OF assms] that by simp
  show "tag_lead (push_bit 24 (ucast b AND 0xe0) OR m) = b AND 0xe0"
    unfolding tag_lead_def mask_consts
    by (rule bit_word_eqI) (auto simp: bit_simps dest: m)
  show "tag_num (push_bit 24 (ucast b AND 0xe0) OR m) = m"
    unfolding tag_num_def CBS_ASN1_TAG_NUMBER_MASK_def mask_consts
    by (rule bit_word_eqI) (auto simp: bit_simps dest: m)
qed

lemma byte_split: "(b AND 0xe0) OR (b AND 0x1f) = (b :: u8)"
  unfolding mask_consts by (rule bit_word_eqI) (auto simp: bit_simps)

lemma low_bits_u32: "ucast (ucast (b :: u8) AND 0x1f :: u32) = b AND 0x1f"
  unfolding mask_consts by (rule bit_word_eqI) (auto simp: bit_simps)

lemma parse_asn1_tag_sound:
  assumes "parse_asn1_tag (window v t) = (Some tag, c)"
  shows "\<exists>r. v = der_tag tag @ r \<and> c = window r t"
proof (cases v)
  case Nil
  with assms show ?thesis by (simp add: parse_asn1_tag_def cbs_simps)
next
  case (Cons b v')
  let ?n = "ucast b AND 0x1f :: u32"
  have n: "unat ?n < 32"
    by (simp add: mask_consts unat_and_mask del: mask_numeral)
  show ?thesis
  proof (cases "?n = 0x1f")
    case True
    with assms Cons obtain x where p: "parse_base128_integer (window v' t) = (Some x, c)"
      and x: "\<not> x > ucast CBS_ASN1_TAG_NUMBER_MASK" "\<not> x < 0x1f"
      and tag: "tag = push_bit 24 (ucast b AND 0xe0) OR ucast x"
      by (auto simp: parse_asn1_tag_def cbs_simps Let_def CBS_ASN1_TAG_SHIFT_def
          split: prod.splits option.splits if_splits)
    from x have x29: "unat x < 2 ^ 29" "0x1f \<le> unat x"
      by (simp_all add: word_less_nat_alt CBS_ASN1_TAG_NUMBER_MASK_def)
    then have ux: "unat (ucast x :: u32) = unat x"
      by (simp add: unsigned_ucast_eq take_bit_nat_eq_self)
    from p obtain r where r: "v' = b128 (unat x) @ r" "c = window r t"
      by (auto simp: parse_base128_iff)
    have "b AND 0x1f = 0x1f" using True low_bits_u32 [of b] by simp
    with byte_split [of b] have "(b AND 0xe0) OR 0x1f = b" by simp
    with x29 ux r Cons show ?thesis
      using tag_parts [of "ucast x" b] by (auto simp: der_tag_def tag)
  next
    case False
    with assms Cons have tag: "tag = push_bit 24 (ucast b AND 0xe0) OR ?n" "c = window v' t"
      by (auto simp: parse_asn1_tag_def cbs_simps Let_def CBS_ASN1_TAG_SHIFT_def split: if_splits)
    have "unat ?n \<noteq> 0x1f" using False by (simp add: word_unat_eq_iff)
    with n have "unat ?n < 0x1f" by linarith
    then show ?thesis
      using tag_parts [of ?n b] byte_split [of b] low_bits_u32 [of b] Cons tag n
      by (auto simp: der_tag_def)
  qed
qed

section \<open>Length octets\<close>

fun len_octets :: "nat \<Rightarrow> nat" where
  "len_octets n = (if n = 0 then 0 else Suc (len_octets (n div 256)))"

declare len_octets.simps [simp del]

definition der_len :: "nat \<Rightarrow> bytes" where
  "der_len n =
     (if n < 128 then [word_of_nat n]
      else word_of_nat (128 + len_octets n) # be_bytes (len_octets n) n)"

definition der :: "u32 \<Rightarrow> bytes \<Rightarrow> bytes" where
  "der tag body = der_tag tag @ der_len (length body) @ body"

lemma len_octets_0 [simp]: "len_octets 0 = 0"
  by (simp add: len_octets.simps)

lemma len_octets_pos: "0 < n \<Longrightarrow> len_octets n = Suc (len_octets (n div 256))"
  by (subst len_octets.simps) simp

lemma len_octets_bound: "n < 256 ^ k \<Longrightarrow> len_octets n \<le> k"
proof (induction k arbitrary: n)
  case 0
  then show ?case by simp
next
  case (Suc k)
  show ?case
  proof (cases "n = 0")
    case False
    have "n div 256 < 256 ^ k" using Suc.prems by (simp add: less_mult_imp_div_less mult.commute)
    then have "len_octets (n div 256) \<le> k" by (rule Suc.IH)
    with False show ?thesis by (simp add: len_octets_pos)
  qed simp
qed

lemma less_len_octets: "n < 256 ^ len_octets n"
proof (induction n rule: len_octets.induct)
  case (1 n)
  show ?case
  proof (cases "n = 0")
    case False
    then have "n div 256 < 256 ^ len_octets (n div 256)" using 1 by simp
    then have "n < 256 ^ len_octets (n div 256) * 256" by (simp add: div_less_iff_less_mult)
    with False show ?thesis by (simp add: len_octets_pos mult.commute)
  qed simp
qed

lemma len_octets_unique:
  assumes "256 ^ k \<le> n" and "n < 256 ^ Suc k"
  shows "len_octets n = Suc k"
proof (rule antisym)
  show "len_octets n \<le> Suc k" using assms(2) by (rule len_octets_bound)
  have "(256::nat) ^ k < 256 ^ len_octets n" using assms(1) less_len_octets [of n] by linarith
  then have "k < len_octets n" by simp
  then show "Suc k \<le> len_octets n" by simp
qed

lemma len_octets_least:
  assumes "0 < n"
  shows "256 ^ (len_octets n - 1) \<le> n"
proof (rule ccontr)
  assume "\<not> 256 ^ (len_octets n - 1) \<le> n"
  then have "n < 256 ^ (len_octets n - 1)" by simp
  then have "len_octets n \<le> len_octets n - 1" by (rule len_octets_bound)
  then show False using assms by (simp add: len_octets_pos)
qed

section \<open>Elements\<close>

definition der_header_len :: "u32 \<Rightarrow> nat \<Rightarrow> nat" where
  "der_header_len tag n = length (der_tag tag) + length (der_len n)"

lemma length_der: "length (der tag body) = der_header_len tag (length body) + length body"
  by (simp add: der_def der_header_len_def)

lemma length_der_tag: "length (der_tag tag) \<le> 6"
  using length_b128 [of "unat (tag_num tag)" 4] tag_num_less [of tag]
  by (simp add: der_tag_def)

lemma long_length_byte:
  assumes "k \<le> 4"
  shows "unat (word_of_nat (128 + k) AND 0x7f :: u8) = k"
    and "(word_of_nat (128 + k) :: u8) AND 0x80 \<noteq> 0"
proof -
  have u: "unat (word_of_nat (128 + k) :: u8) = 128 + k"
    using assms by (simp only: unat_word_of_nat_u8) simp
  show "unat (word_of_nat (128 + k) AND 0x7f :: u8) = k"
    unfolding u8_and_7f u using assms by simp
  show "(word_of_nat (128 + k) :: u8) AND 0x80 \<noteq> 0"
    unfolding u8_high_bit u by simp
qed

lemma short_length_byte:
  assumes "n < 128"
  shows "unat (word_of_nat n :: u8) = n" and "(word_of_nat n :: u8) AND 0x80 = 0"
proof -
  show u: "unat (word_of_nat n :: u8) = n" using assms by (simp add: unat_word_of_nat_u8)
  show "(word_of_nat n :: u8) AND 0x80 = 0"
    using u8_high_bit [of "word_of_nat n"] u assms by auto
qed

lemma any_element_short:
  assumes "n < 128" and "length body = n"
  shows "cbs_get_any_asn1_element (window (der_tag tag @ word_of_nat n # body @ v) t) ber_ok =
         (Some (window (der_tag tag @ word_of_nat n # body) (v @ t), tag, length (der_tag tag) + 1),
          window v t)"
  using short_length_byte [OF assms(1)] assms(2)
  by (simp add: cbs_get_any_asn1_element_def parse_asn1_tag_complete cbs_simps Let_def)

lemma any_element_long:
  assumes n: "128 \<le> n" "n < 2 ^ 32" and b: "length body = n" and k: "k = len_octets n"
  shows "cbs_get_any_asn1_element
           (window (der_tag tag @ word_of_nat (128 + k) # be_bytes k n @ body @ v) t) ber_ok =
         (Some (window (der_tag tag @ word_of_nat (128 + k) # be_bytes k n @ body) (v @ t), tag,
                length (der_tag tag) + 1 + k), window v t)"
proof -
  have k4: "k \<le> 4" unfolding k using n by (intro len_octets_bound) simp
  have k0: "0 < k" unfolding k using n by (simp add: len_octets_pos)
  have val: "be_val (be_bytes k n) = n"
    using less_len_octets [of n] by (simp add: be_val_be_bytes k)
  have u: "unat (word_of_nat n :: u64) = n" using n by (simp add: unat_of_nat)
  have "256 ^ (k - 1) \<le> n" unfolding k using n by (intro len_octets_least) simp
  moreover have "(2::nat) ^ ((k - 1) * 8) = 256 ^ (k - 1)"
    unfolding mult.commute [of "k - 1"] power_mult by simp
  ultimately have "\<not> n < 2 ^ ((k - 1) * 8)" by simp
  then have min: "drop_bit ((k - 1) * 8) (word_of_nat n :: u64) \<noteq> 0"
    by (simp only: drop_bit_eq_0_iff u) simp
  have add: "size_add n (Suc (length (der_tag tag) + k)) = n + Suc (length (der_tag tag) + k)"
    using n k4 length_der_tag [of tag] by (intro size_add_exact) (simp add: SIZE_MOD_def)
  show ?thesis
    using n k4 k0 b
    by (simp add: cbs_get_any_asn1_element_def parse_asn1_tag_complete cbs_simps Let_def
        long_length_byte val min [unfolded One_nat_def] add word_less_nat_alt u del: of_nat_add)
qed

lemma der_short: "length body < 128 \<Longrightarrow>
    der tag body = der_tag tag @ word_of_nat (length body) # body"
  by (simp add: der_def der_len_def)

lemma der_long: "128 \<le> length body \<Longrightarrow>
    der tag body = der_tag tag @ word_of_nat (128 + len_octets (length body)) #
                   be_bytes (len_octets (length body)) (length body) @ body"
  by (simp add: der_def der_len_def)

text \<open>Completeness: every encoding is accepted, and what follows it is left in the reader.\<close>

lemma any_element_complete:
  assumes "length body < 2 ^ 32"
  shows "cbs_get_any_asn1_element (window (der tag body @ v) t) ber_ok =
         (Some (window (der tag body) (v @ t), tag, der_header_len tag (length body)), window v t)"
proof (cases "length body < 128")
  case True
  then show ?thesis
    using any_element_short [OF True refl, of tag v t ber_ok]
    by (simp add: der_short der_header_len_def der_len_def)
next
  case False
  then show ?thesis
    using any_element_long [OF _ assms refl refl, of tag v t ber_ok]
    by (simp add: der_long der_header_len_def der_len_def del: of_nat_add)
qed

text \<open>
  Soundness: what is accepted without the BER extension is an encoding. The first lemma covers
  both modes, with the indefinite-length form as the only other outcome.
\<close>

lemma any_element_sound:
  assumes "cbs_get_any_asn1_element (window v t) False = (Some (out, tag, hl), c)"
  shows "\<exists>body r. v = der tag body @ r \<and> length body < 2 ^ 32 \<and> c = window r t \<and>
           out = window (der tag body) (r @ t) \<and> hl = der_header_len tag (length body)"
proof -
  from assms obtain h1 where tag: "parse_asn1_tag (window v t) = (Some tag, h1)"
    by (auto simp: cbs_get_any_asn1_element_def Let_def split: prod.splits option.splits if_splits)
  then obtain v1 where v1: "v = der_tag tag @ v1" "h1 = window v1 t"
    using parse_asn1_tag_sound by blast
  with assms tag obtain b v2 where v2: "v1 = b # v2"
    by (cases v1) (auto simp: cbs_get_any_asn1_element_def cbs_simps)
  let ?T = "length (der_tag tag)"
  have v: "v = der_tag tag @ b # v2" using v1 v2 by simp
  show ?thesis
  proof (cases "b AND 0x80 = 0")
    case True
    then have b: "unat b < 128" using u8_high_bit [of b] by auto
    have len: "unat b \<le> length v2" and r: "out = window (take (?T + 1 + unat b) v) (drop (?T + 1 + unat b) v @ t)"
      "hl = ?T + 1" "c = window (drop (?T + 1 + unat b) v) t"
      using assms True
      by (auto simp: v cbs_get_any_asn1_element_def parse_asn1_tag_complete cbs_simps Let_def
          split: if_splits)
    let ?body = "take (unat b) v2"
    have "der tag ?body = take (?T + 1 + unat b) v"
      using len b by (simp add: der_short v min_absorb2)
    moreover have "v = take (?T + 1 + unat b) v @ drop (?T + 1 + unat b) v" by simp
    ultimately show ?thesis
      using r len b
      by (intro exI [of _ ?body] exI [of _ "drop (?T + 1 + unat b) v"])
        (simp add: der_header_len_def der_len_def min_absorb2)
  next
    case False
    let ?k = "unat (b AND 0x7f)"
    let ?n = "be_val (take ?k v2)"
    have sz: "size_add m (Suc (?T + ?k)) = m + Suc (?T + ?k)" if "m < 2 ^ 32" "?k \<le> 4" for m
      using that length_der_tag [of tag] by (intro size_add_exact) (simp add: SIZE_MOD_def)
    have k: "0 < ?k" "?k \<le> 4"
      using assms False
      by (auto simp: v cbs_get_any_asn1_element_def parse_asn1_tag_complete cbs_simps Let_def
          split: if_splits)
    then have k2: "?k \<le> length v2"
      using assms False
      by (auto simp: v cbs_get_any_asn1_element_def parse_asn1_tag_complete cbs_simps Let_def
          split: if_splits)
    have u: "unat (word_of_nat ?n :: u64) = ?n" using k by (intro unat_word_of_be_val) simp
    have n32: "?n < 256 ^ ?k" using be_val_less [of "take ?k v2"] k2 by (simp add: min_absorb2)
    also have "(256::nat) ^ ?k \<le> 256 ^ 4" using k by (intro power_increasing) simp_all
    finally have n4: "?n < 2 ^ 32" by simp
    have min: "128 \<le> ?n" "drop_bit ((?k - 1) * 8) (word_of_nat ?n :: u64) \<noteq> 0"
      and len: "?n + Suc (?T + ?k) \<le> length v"
      and r: "out = window (take (?n + Suc (?T + ?k)) v) (drop (?n + Suc (?T + ?k)) v @ t)"
        "hl = Suc (?T + ?k)" "c = window (drop (?n + Suc (?T + ?k)) v) t"
      using assms False k k2 u sz [OF n4 k(2)]
      by (auto simp: v cbs_get_any_asn1_element_def parse_asn1_tag_complete cbs_simps Let_def
          word_less_nat_alt split: if_splits)
    have "(2::nat) ^ ((?k - 1) * 8) = 256 ^ (?k - 1)"
      unfolding mult.commute [of "?k - 1"] power_mult by simp
    with min(2) u have "256 ^ (?k - 1) \<le> ?n" by (simp only: drop_bit_eq_0_iff not_less)
    moreover have "Suc (?k - 1) = ?k" using k by simp
    ultimately have oct: "len_octets ?n = ?k" using n32 len_octets_unique [of "?k - 1" ?n] by simp
    have bytes: "be_bytes ?k ?n = take ?k v2"
      using be_bytes_be_val [of "take ?k v2"] k2 by (simp add: min_absorb2)
    have "128 + ?k = unat b"
      using False u8_high_bit [of b] u8_mod_128 [of b] by (simp add: u8_and_7f)
    then have b: "word_of_nat (128 + ?k) = b" by simp
    let ?body = "take ?n (drop ?k v2)"
    have body: "length ?body = ?n" using len by (simp add: v)
    let ?M = "?n + Suc (?T + ?k)"
    have d: "der tag ?body = take ?M v"
      using der_long [of ?body tag, unfolded body oct bytes b, OF min(1)] k2
      by (simp add: v min_absorb2 take_add add.commute [of ?n])
    have hl: "hl = der_header_len tag (length ?body)"
      unfolding der_header_len_def der_len_def body oct using min(1) r(2) by simp
    show ?thesis
    proof (intro exI conjI)
      show "v = der tag ?body @ drop ?M v" unfolding d by simp
      show "length ?body < 2 ^ 32" unfolding body by (rule n4)
      show "out = window (der tag ?body) (drop ?M v @ t)" unfolding d by (rule r(1))
    qed (rule r(3) hl)+
  qed
qed

lemma get_any_asn1_element_complete [cbs_simps]:
  "length body < 2 ^ 32 \<Longrightarrow>
   CBS_get_any_asn1_element (window (der tag body @ v) t) =
   (Some (window (der tag body) (v @ t), tag, der_header_len tag (length body)), window v t)"
  by (simp add: CBS_get_any_asn1_element_def any_element_complete)

lemma any_element_fail:
  "cbs_get_any_asn1_element (window v t) ber_ok = (None, c) \<Longrightarrow> c = window v t"
  by (auto simp: cbs_get_any_asn1_element_def Let_def cbs_simps
      split: prod.splits option.splits if_splits)

lemma der_nonempty [simp]: "der tag body \<noteq> []"
  by (simp add: der_def der_tag_def)

lemma drop_header: "drop (der_header_len tag (length body)) (der tag body @ v) = body @ v"
  by (simp add: der_header_len_def der_def)

lemma der_header_simps [cbs_simps]:
  "drop (der_header_len tag (length body)) (der tag body) = body"
  "\<not> length (der tag body) < der_header_len tag (length body)"
  using drop_header [of tag body "[]"] by (simp_all add: length_der)

lemma get_any_asn1_complete [cbs_simps]:
  "length body < 2 ^ 32 \<Longrightarrow>
   CBS_get_any_asn1 (window (der tag body @ v) t) = (Some (window body (v @ t), tag), window v t)"
  by (simp add: CBS_get_any_asn1_def cbs_simps)

lemma get_asn1_complete [cbs_simps]:
  "length body < 2 ^ 32 \<Longrightarrow>
   CBS_get_asn1 (window (der tag body @ v) t) tag' =
   (if tag = tag' then Some (window body (v @ t)) else None, window v t)"
  by (simp add: CBS_get_asn1_def cbs_get_asn1_def cbs_simps)

lemma get_asn1_element_complete [cbs_simps]:
  "length body < 2 ^ 32 \<Longrightarrow>
   CBS_get_asn1_element (window (der tag body @ v) t) tag' =
   (if tag = tag' then Some (window (der tag body) (v @ t)) else None, window v t)"
  by (simp add: CBS_get_asn1_element_def cbs_get_asn1_def cbs_simps)

lemma get_asn1_sound:
  assumes "CBS_get_asn1 (window v t) tag = (Some out, c)"
  shows "\<exists>body r. v = der tag body @ r \<and> length body < 2 ^ 32 \<and> out = window body (r @ t) \<and> c = window r t"
proof -
  from assms obtain el tg hl where el: "cbs_get_any_asn1_element (window v t) False = (Some (el, tg, hl), c)"
    by (auto simp: CBS_get_asn1_def cbs_get_asn1_def CBS_get_any_asn1_element_def
        split: prod.splits option.splits if_splits bool.splits)
  from any_element_sound [OF this] obtain body r where b: "v = der tg body @ r" "length body < 2 ^ 32"
    by blast
  with assms show ?thesis by (auto simp: cbs_simps split: if_splits)
qed

lemma peek_asn1_complete [cbs_simps]:
  "CBS_peek_asn1_tag (window (der tag body @ v) t) tag' \<longleftrightarrow> tag' = tag"
proof -
  have "der tag body @ v = der_tag tag @ (der_len (length body) @ body @ v)" by (simp add: der_def)
  then have "parse_asn1_tag (window (der tag body @ v) t) =
      (Some tag, window (der_len (length body) @ body @ v) t)"
    by (simp only: parse_asn1_tag_complete)
  moreover have "\<not> length (der tag body @ v) < 1"
    using der_nonempty [of tag body] by (simp del: der_nonempty)
  ultimately show ?thesis by (simp add: CBS_peek_asn1_tag_def CBS_len_window)
qed

section \<open>Integers\<close>

text \<open>Contents octets of a non-negative \<open>INTEGER\<close>: minimal, with a zero byte before a high bit.\<close>

definition asn1_uint :: "nat \<Rightarrow> bytes" where
  "asn1_uint n =
     (if n = 0 then [0]
      else let bs = be_bytes (len_octets n) n
           in if 128 \<le> unat (hd bs) then 0 # bs else bs)"

lemma len_octets_be_val: "b \<noteq> 0 \<Longrightarrow> len_octets (be_val (b # bs)) = Suc (length bs)"
proof (rule len_octets_unique)
  assume "b \<noteq> 0"
  then have "1 \<le> unat b" by (simp add: unat_gt_0 Suc_leI)
  then have "1 * 256 ^ length bs \<le> unat b * 256 ^ length bs" by (rule mult_le_mono1)
  then have "256 ^ length bs \<le> unat b * 256 ^ length bs" by (simp only: mult_1)
  then show "256 ^ length bs \<le> be_val (b # bs)" unfolding be_val_Cons by (rule trans_le_add1)
qed (use be_val_less [of "b # bs"] in simp)

lemma be_bytes_hd_nonzero:
  assumes "0 < n" and "be_bytes (len_octets n) n = b # bs"
  shows "b \<noteq> 0"
proof
  assume "b = 0"
  have "be_val (b # bs) = n"
    using less_len_octets [of n] by (simp flip: assms(2) add: be_val_be_bytes)
  with \<open>b = 0\<close> have "be_val bs = n" by (simp add: be_val_Cons)
  moreover have "length bs = len_octets n - 1"
    using arg_cong [OF assms(2), of length] by simp
  ultimately have "n < 256 ^ (len_octets n - 1)" using be_val_less [of bs] by simp
  with len_octets_least [OF assms(1)] show False by simp
qed

lemma be_val_asn1_uint: "be_val (asn1_uint n) = n"
  using less_len_octets [of n]
  by (auto simp: asn1_uint_def Let_def be_val_Cons be_val_be_bytes)

lemma asn1_uint_be_val:
  assumes "p \<noteq> []" and "unat (hd p) < 128" and "\<not> (hd p = 0 \<and> 1 < length p \<and> unat (p ! 1) < 128)"
  shows "asn1_uint (be_val p) = p"
proof (cases p)
  case (Cons b q)
  show ?thesis
  proof (cases "b = 0")
    case False
    have "be_val p \<noteq> 0"
      using len_octets_be_val [OF False, of q] Cons by (metis Zero_not_Suc len_octets_0)
    moreover have "be_bytes (len_octets (be_val p)) (be_val p) = p"
      using len_octets_be_val [OF False, of q] be_bytes_be_val [of p] Cons by simp
    ultimately show ?thesis using assms(2) by (simp add: asn1_uint_def)
  next
    case True
    show ?thesis
    proof (cases q)
      case Nil
      with True Cons show ?thesis by (simp add: asn1_uint_def be_val_def)
    next
      case (Cons c r)
      with assms(3) True \<open>p = b # q\<close> have c: "128 \<le> unat c" by auto
      then have "c \<noteq> 0" by auto
      then have l: "len_octets (be_val q) = length q" "be_val q \<noteq> 0"
        using len_octets_be_val [of c r] Cons by (simp, metis Zero_not_Suc len_octets_0)
      with c True Cons \<open>p = b # q\<close> show ?thesis
        using be_bytes_be_val [of q] by (simp add: asn1_uint_def be_val_Cons)
    qed
  qed
qed (use assms in simp)

lemma asn1_uint_wf:
  "asn1_uint n \<noteq> []" "unat (hd (asn1_uint n)) < 128"
  "\<not> (hd (asn1_uint n) = 0 \<and> 1 < length (asn1_uint n) \<and> unat (asn1_uint n ! 1) < 128)"
proof -
  have "asn1_uint n \<noteq> [] \<and> unat (hd (asn1_uint n)) < 128 \<and>
    \<not> (hd (asn1_uint n) = 0 \<and> 1 < length (asn1_uint n) \<and> unat (asn1_uint n ! 1) < 128)"
  proof (cases "n = 0")
    case False
    then obtain b bs where b: "be_bytes (len_octets n) n = b # bs"
      by (cases "be_bytes (len_octets n) n") (auto simp: len_octets_pos dest: arg_cong [of _ _ length])
    with False have "b \<noteq> 0" by (intro be_bytes_hd_nonzero) auto
    with False b show ?thesis by (auto simp: asn1_uint_def Let_def)
  qed (simp add: asn1_uint_def)
  then show "asn1_uint n \<noteq> []" "unat (hd (asn1_uint n)) < 128"
    "\<not> (hd (asn1_uint n) = 0 \<and> 1 < length (asn1_uint n) \<and> unat (asn1_uint n ! 1) < 128)"
    by blast+
qed

lemma asn1_uint64_loop_eq:
  "asn1_uint64_loop out bs =
   (let n = unat out * 256 ^ length bs + be_val bs
    in if n < 2 ^ 64 then Some (word_of_nat n) else None)"
proof (induction bs arbitrary: out)
  case Nil
  show ?case using unsigned_less [of out, where ?'a = nat] by simp
next
  case (Cons b bs)
  show ?case
  proof (cases "unat out < 2 ^ 56")
    case True
    have u: "unat (push_bit 8 out OR ucast b) = unat out * 256 + unat b"
      using unat_push_or [of "ucast b" 8 out] True by simp
    have "drop_bit 56 out = 0" using True by (simp only: drop_bit_eq_0_iff)
    then show ?thesis
      by (simp add: Cons.IH u be_val_Cons Let_def algebra_simps del: of_nat_add of_nat_mult)
  next
    case False
    have "drop_bit 56 out \<noteq> 0" using False by (simp only: drop_bit_eq_0_iff) simp
    moreover have "\<not> unat out * 256 ^ length (b # bs) + be_val (b # bs) < 2 ^ 64"
    proof -
      have "2 ^ 56 * 256 \<le> unat out * 256 ^ length (b # bs)"
        using False by (intro mult_le_mono) simp_all
      then show ?thesis by simp
    qed
    ultimately show ?thesis by (simp add: Let_def)
  qed
qed

end
