(* ===== verification/Der_Values.thy ===== *)
theory Der_Values
  imports Der
begin

lemma length_asn1_uint: "n < 2 ^ 64 \<Longrightarrow> length (asn1_uint n) \<le> 9"
  using len_octets_bound [of n 8] by (auto simp: asn1_uint_def Let_def)

lemma get_asn1_uint64_complete [cbs_simps]:
  "CBS_get_asn1_uint64 (window (der CBS_ASN1_INTEGER (asn1_uint (unat x)) @ v) t) = (Some x, window v t)"
proof -
  let ?p = "asn1_uint (unat x)"
  have x: "unat x < 2 ^ 64" using unsigned_less [of x, where ?'a = nat] by simp
  have l: "length ?p < 2 ^ 32" using length_asn1_uint [OF x] by simp
  obtain b q where p: "?p = b # q" using asn1_uint_wf(1) [of "unat x"] by (cases ?p) auto
  have h: "\<not> 128 \<le> unat b" using asn1_uint_wf(2) [of "unat x"] p by simp
  have m: "\<not> (b = 0 \<and> q \<noteq> [] \<and> unat (q ! 0) < 128)"
    using asn1_uint_wf(3) [of "unat x"] p by simp
  have loop: "asn1_uint64_loop 0 ?p = Some x"
    using x by (simp add: asn1_uint64_loop_eq be_val_asn1_uint Let_def)
  have nth: "(q @ v') ! 0 = q ! 0" if "q \<noteq> []" for v'
    using that by (simp add: nth_append)
  show ?thesis
    using h m loop l u8_high_bit [of b] u8_high_bit [of "q ! 0"]
    by (auto simp: CBS_get_asn1_uint64_def cbs_simps Let_def p nth)
qed

lemma get_asn1_uint64_iff:
  "CBS_get_asn1_uint64 (window v t) = (Some x, c) \<longleftrightarrow>
   (\<exists>r. v = der CBS_ASN1_INTEGER (asn1_uint (unat x)) @ r \<and> c = window r t)"
proof
  assume a: "CBS_get_asn1_uint64 (window v t) = (Some x, c)"
  then obtain out where "CBS_get_asn1 (window v t) CBS_ASN1_INTEGER = (Some out, c)"
    by (auto simp: CBS_get_asn1_uint64_def Let_def split: prod.splits option.splits if_splits)
  from get_asn1_sound [OF this] obtain p r where
    p: "v = der CBS_ASN1_INTEGER p @ r" "length p < 2 ^ 32" "c = window r t" by blast
  have ne: "p \<noteq> []"
    using a p by (auto simp: CBS_get_asn1_uint64_def cbs_simps)
  have nth0: "(p @ r') ! 0 = hd p" for r' using ne by (simp add: nth_append hd_conv_nth)
  have nth1: "(p @ r') ! Suc 0 = p ! Suc 0" if "1 < length p" for r' using that by (simp add: nth_append)
  have hd: "unat (hd p) < 128" and min: "\<not> (hd p = 0 \<and> 1 < length p \<and> unat (p ! 1) < 128)"
    and loop: "asn1_uint64_loop 0 p = Some x"
    using a p ne u8_high_bit [of "hd p"] u8_high_bit [of "p ! 1"]
    by (auto simp: CBS_get_asn1_uint64_def cbs_simps Let_def nth0 nth1 split: if_splits)
  from loop have "unat x = be_val p"
    by (auto simp: asn1_uint64_loop_eq Let_def unat_of_nat split: if_splits)
  with asn1_uint_be_val [OF ne hd min] p show
    "\<exists>r. v = der CBS_ASN1_INTEGER (asn1_uint (unat x)) @ r \<and> c = window r t" by auto
qed (auto simp: cbs_simps)

section \<open>Signed integers\<close>

definition sbe_val :: "bytes \<Rightarrow> int" where
  "sbe_val p = (if p \<noteq> [] \<and> 128 \<le> unat (hd p) then int (be_val p) - 256 ^ length p else int (be_val p))"

definition asn1_int_minimal :: "bytes \<Rightarrow> bool" where
  "asn1_int_minimal p \<longleftrightarrow> p \<noteq> [] \<and>
     \<not> (1 < length p \<and> hd p = 0 \<and> unat (p ! 1) < 128) \<and>
     \<not> (1 < length p \<and> hd p = 0xff \<and> 128 \<le> unat (p ! 1))"

lemma fill_union:
  "n \<le> length u \<Longrightarrow> n \<le> length p \<Longrightarrow>
   foldl (\<lambda>u i. u[i := f i]) u [0 ..< n] = map f [0 ..< n] @ drop n u"
proof (induction n)
  case 0
  then show ?case by simp
next
  case (Suc n)
  then show ?case
    by (simp add: list_update_append Cons_nth_drop_Suc [symmetric])
qed

lemma rev_take_map: "n \<le> length p \<Longrightarrow> map (\<lambda>i. p ! (n - i - 1)) [0 ..< n] = rev (take n p)"
  by (rule nth_equalityI) (simp_all add: rev_nth min_absorb2)

lemma be_val_replicate_ff:
  "be_val (replicate k 0xff @ p) + 256 ^ length p = 256 ^ k * 256 ^ length p + be_val p"
proof (induction k)
  case 0
  then show ?case by simp
next
  case (Suc k)
  have ff: "unat (0xff :: u8) = 255" by simp
  have "be_val (replicate (Suc k) 0xff @ p) + 256 ^ length p =
      255 * (256 ^ k * 256 ^ length p) + (be_val (replicate k 0xff @ p) + 256 ^ length p)"
    unfolding replicate_Suc append_Cons be_val_Cons ff by (simp add: power_add)
  also have "\<dots> = 256 ^ Suc k * 256 ^ length p + be_val p"
    unfolding Suc.IH by simp
  finally show ?case .
qed

lemma be_val_replicate_0: "be_val (replicate k 0 @ p) = be_val p"
  by (induction k) (simp_all add: be_val_Cons)

lemma sint_u64: "sint (w :: u64) = (if unat w < 2 ^ 63 then int (unat w) else int (unat w) - 2 ^ 64)"
proof -
  have "sint w = signed_take_bit 63 (uint w)" by (simp add: sint_uint)
  also have "\<dots> = (if bit (uint w) 63 then uint w - 2 ^ 64 else uint w)"
    using uint_bounded [of w]
    by (simp add: signed_take_bit_eq_take_bit_minus take_bit_int_eq_self)
  also have "bit (uint w) 63 \<longleftrightarrow> \<not> unat w < 2 ^ 63"
  proof -
    have "bit (uint w) 63 \<longleftrightarrow> bit (unat w) 63" by (simp add: bit_unsigned_iff)
    also have "\<dots> \<longleftrightarrow> odd (unat w div 2 ^ 63)" by (simp add: bit_iff_odd)
    also have "\<dots> \<longleftrightarrow> \<not> unat w < 2 ^ 63"
    proof
      assume "odd (unat w div 2 ^ 63)"
      then show "\<not> unat w < 2 ^ 63" by (metis div_less even_zero)
    next
      assume "\<not> unat w < 2 ^ 63"
      moreover have "unat w < 2 * 2 ^ 63" using unsigned_less [of w, where ?'a = nat] by simp
      ultimately have "unat w div 2 ^ 63 = 1" by (intro div_nat_eqI) simp_all
      then show "odd (unat w div 2 ^ 63)" by simp
    qed
    finally show ?thesis .
  qed
  finally have "sint w = (if unat w < 2 ^ 63 then uint w else uint w - 2 ^ 64)" by (simp only: if_not_P not_not split: if_split) auto
  then show ?thesis by (simp only: uint_nat)
qed

lemma be_val_hd:
  assumes "p \<noteq> []"
  shows "128 \<le> unat (hd p) \<Longrightarrow> 256 ^ length p \<le> 2 * be_val p"
    and "unat (hd p) < 128 \<Longrightarrow> 2 * be_val p < 256 ^ length p"
proof -
  from assms obtain b q where p: "p = b # q" by (cases p) auto
  show "256 ^ length p \<le> 2 * be_val p" if "128 \<le> unat (hd p)"
  proof -
    have "128 * 256 ^ length q \<le> unat b * 256 ^ length q"
      using that p by (intro mult_le_mono1) simp
    then have "256 * 256 ^ length q \<le> 2 * (unat b * 256 ^ length q)" by linarith
    moreover have "(256::nat) ^ length p = 256 * 256 ^ length q"
      "be_val p = unat b * 256 ^ length q + be_val q" by (simp_all add: p be_val_Cons)
    ultimately show ?thesis by linarith
  qed
  show "2 * be_val p < 256 ^ length p" if "unat (hd p) < 128"
  proof -
    have "(unat b + 1) * 256 ^ length q \<le> 128 * 256 ^ length q"
      using that p by (intro mult_le_mono1) simp
    then have "unat b * 256 ^ length q + 256 ^ length q \<le> 128 * 256 ^ length q"
      by (simp only: distrib_right mult_1)
    moreover have "(256::nat) ^ length p = 256 * 256 ^ length q"
      "be_val p = unat b * 256 ^ length q + be_val q" by (simp_all add: p be_val_Cons)
    ultimately show ?thesis using be_val_less [of q] by linarith
  qed
qed

text \<open>Filling the word with the sign before the octets gives the two's complement value.\<close>

lemma sint_sign_fill:
  assumes p: "p \<noteq> []" and l: "length p \<le> 8"
  shows "sint (word_of_nat (be_val (replicate (8 - length p) (if 128 \<le> unat (hd p) then 0xff else 0) @ p)) :: u64)
       = sbe_val p"
proof -
  have pow: "(256::nat) ^ (8 - length p) * 256 ^ length p = 2 ^ 64"
    using l by (simp flip: power_add)
  have "(256::nat) ^ length p \<le> 256 ^ 8" using l by (intro power_increasing) simp_all
  then have le: "(256::nat) ^ length p \<le> 2 ^ 64" by simp
  have lt: "be_val p < 256 ^ length p" by (rule be_val_less)
  show ?thesis
  proof (cases "128 \<le> unat (hd p)")
    case True
    let ?V = "be_val (replicate (8 - length p) 0xff @ p)"
    have V: "?V + 256 ^ length p = 2 ^ 64 + be_val p"
      unfolding be_val_replicate_ff pow ..
    have h: "256 ^ length p \<le> 2 * be_val p" using be_val_hd(1) [OF p True] .
    have b: "?V < 2 ^ 64" "\<not> ?V < 2 ^ 63"
      using V lt h le by simp_all
    then have u: "unat (word_of_nat ?V :: u64) = ?V" by (simp add: unat_of_nat)
    have "int ?V + 256 ^ length p = 2 ^ 64 + int (be_val p)"
      using arg_cong [OF V, of int] by simp
    then show ?thesis using True p b(2) by (simp add: sint_u64 u sbe_val_def)
  next
    case False
    then have h: "2 * be_val p < 256 ^ length p" using be_val_hd(2) [OF p] by simp
    then have b: "be_val p < 2 ^ 63" using le by simp
    then have u: "unat (word_of_nat (be_val p) :: u64) = be_val p" by (simp add: unat_of_nat)
    show ?thesis using False b by (simp add: sint_u64 u sbe_val_def be_val_replicate_0)
  qed
qed

lemma int64_fill:
  assumes p: "p \<noteq> []" and l: "length p \<le> 8"
  shows "foldl (\<lambda>u i. u[i := (p @ t) ! (length p - i - 1)]) (replicate 8 f) [0 ..< length p]
       = rev (replicate (8 - length p) f @ p)"
proof -
  have "foldl (\<lambda>u i. u[i := (p @ t) ! (length p - i - 1)]) (replicate 8 f) [0 ..< length p] =
      map (\<lambda>i. (p @ t) ! (length p - i - 1)) [0 ..< length p] @ drop (length p) (replicate 8 f)"
    by (rule fill_union [of _ _ p]) (use l in simp_all)
  also have "map (\<lambda>i. (p @ t) ! (length p - i - 1)) [0 ..< length p] = rev p"
    using rev_take_map [of "length p" "p @ t"] by simp
  finally show ?thesis by simp
qed

lemma get_asn1_int64_window:
  assumes l: "length p < 2 ^ 32"
  shows "CBS_get_asn1_int64 (window (der CBS_ASN1_INTEGER p @ r) t) =
     (if asn1_int_minimal p \<and> length p \<le> 8
      then Some (word_of_nat (be_val (replicate (8 - length p) (if 128 \<le> unat (hd p) then 0xff else 0) @ p)))
      else None, window r t)"
proof (cases "p = [] \<or> 8 < length p")
  case True
  with l show ?thesis by (auto simp: CBS_get_asn1_int64_def cbs_simps asn1_int_minimal_def)
next
  case False
  then have p: "p \<noteq> []" and l8: "length p \<le> 8" by auto
  have n0: "(p @ v) ! 0 = hd p" for v using p by (simp add: nth_append hd_conv_nth)
  have n1: "(p @ v) ! 1 = p ! 1" if "1 < length p" for v using that by (simp add: nth_append)
  have m: "asn1_int_minimal p \<longleftrightarrow>
      \<not> (1 < length p \<and> hd p = 0 \<and> p ! 1 AND 0x80 = 0) \<and>
      \<not> (1 < length p \<and> hd p = 0xff \<and> p ! 1 AND 0x80 \<noteq> 0)"
    using p u8_high_bit [of "p ! 1"] by (auto simp: asn1_int_minimal_def)
  have fill: "le_val (foldl (\<lambda>u i. u[i := (p @ r @ t) ! (length p - i - 1)])
       (replicate 8 (if hd p AND 0x80 \<noteq> 0 then 0xff else 0)) [0 ..< length p]) =
     be_val (replicate (8 - length p) (if 128 \<le> unat (hd p) then 0xff else 0) @ p)"
    unfolding int64_fill [OF p l8] le_val_rev u8_high_bit ..
  have g: "CBS_get_asn1 (window (der CBS_ASN1_INTEGER p @ r) t) CBS_ASN1_INTEGER =
      (Some (window p (r @ t)), window r t)"
    using l by (simp add: cbs_simps)
  show ?thesis
    unfolding CBS_get_asn1_int64_def g prod.case option.case CBS_data_window CBS_len_window Let_def
      n0 fill m
    using p l8 n1 [of "r @ t"] by auto
qed

lemma get_asn1_int64_iff:
  "CBS_get_asn1_int64 (window v t) = (Some x, c) \<longleftrightarrow>
   (\<exists>p r. v = der CBS_ASN1_INTEGER p @ r \<and> c = window r t \<and>
          asn1_int_minimal p \<and> length p \<le> 8 \<and> sint x = sbe_val p)"
  (is "?L \<longleftrightarrow> ?R")
proof
  assume a: ?L
  then obtain out where "CBS_get_asn1 (window v t) CBS_ASN1_INTEGER = (Some out, c)"
    by (auto simp: CBS_get_asn1_int64_def Let_def split: prod.splits option.splits if_splits)
  from get_asn1_sound [OF this] obtain p r where
    p: "v = der CBS_ASN1_INTEGER p @ r" "length p < 2 ^ 32" "c = window r t" by blast
  with a have "asn1_int_minimal p" "length p \<le> 8"
    "x = word_of_nat (be_val (replicate (8 - length p) (if 128 \<le> unat (hd p) then 0xff else 0) @ p))"
    by (auto simp: get_asn1_int64_window split: if_splits)
  then have "sint x = sbe_val p"
    using sint_sign_fill [of p] by (auto simp: asn1_int_minimal_def)
  with p \<open>asn1_int_minimal p\<close> \<open>length p \<le> 8\<close> show ?R by blast
next
  assume ?R
  then obtain p r where p: "v = der CBS_ASN1_INTEGER p @ r" "c = window r t" "asn1_int_minimal p"
    "length p \<le> 8" "sint x = sbe_val p" by blast
  then have "sint x = sint (word_of_nat (be_val (replicate (8 - length p)
      (if 128 \<le> unat (hd p) then 0xff else 0) @ p)) :: u64)"
    using sint_sign_fill [of p] by (auto simp: asn1_int_minimal_def)
  then have "x = word_of_nat (be_val (replicate (8 - length p) (if 128 \<le> unat (hd p) then 0xff else 0) @ p))"
    by (rule signed_word_eqI)
  with p show ?L by (simp add: get_asn1_int64_window)
qed

section \<open>Booleans\<close>

lemma get_asn1_bool_complete [cbs_simps]:
  "CBS_get_asn1_bool (window (der CBS_ASN1_BOOLEAN [if b then 0xff else 0] @ v) t) = (Some b, window v t)"
  by (simp add: CBS_get_asn1_bool_def cbs_simps Let_def)

lemma get_asn1_bool_iff:
  "CBS_get_asn1_bool (window v t) = (Some b, c) \<longleftrightarrow>
   (\<exists>r. v = der CBS_ASN1_BOOLEAN [if b then 0xff else 0] @ r \<and> c = window r t)"
proof
  assume a: "CBS_get_asn1_bool (window v t) = (Some b, c)"
  then obtain out where "CBS_get_asn1 (window v t) CBS_ASN1_BOOLEAN = (Some out, c)"
    by (auto simp: CBS_get_asn1_bool_def Let_def split: prod.splits option.splits if_splits)
  from get_asn1_sound [OF this] obtain p r where
    p: "v = der CBS_ASN1_BOOLEAN p @ r" "length p < 2 ^ 32" "c = window r t" by blast
  with a obtain x where "p = [x]" "x = 0 \<or> x = 0xff" "b = (x \<noteq> 0)"
    by (cases p) (auto simp: CBS_get_asn1_bool_def cbs_simps Let_def split: if_splits)
  with p show "\<exists>r. v = der CBS_ASN1_BOOLEAN [if b then 0xff else 0] @ r \<and> c = window r t" by auto
next
  assume "\<exists>r. v = der CBS_ASN1_BOOLEAN [if b then 0xff else 0] @ r \<and> c = window r t"
  then show "CBS_get_asn1_bool (window v t) = (Some b, c)"
    using get_asn1_bool_complete [of b _ t] by auto
qed

end
