(* ===== verification/Cbb_Spec.thy ===== *)
theory Cbb_Spec
  imports Cbb Der_Values
begin

text \<open>
  The contract of the byte-string builder. An abstract builder is a list of frames, one per open
  \<open>CBB\<close>, each with the bytes written to it so far; using a frame closes the ones below it, which
  puts their bytes behind their length. \<open>cbb_rep st hs fs\<close> says that the structs at the addresses
  \<open>hs\<close> and the shared base represent the frames \<open>fs\<close>; the lemmas show that every operation of
  \<open>Cbb\<close> implements the abstract one or reports an error for a reason that is stated.
\<close>

section \<open>The shared buffer\<close>

definition valid_bytes :: "cbb_mem \<Rightarrow> bytes" where
  "valid_bytes st = take (base_len st) (base_bytes st)"

definition buf_ok :: "cbb_mem \<Rightarrow> bool" where
  "buf_ok st \<longleftrightarrow> \<not> base_error st \<and> base_len st \<le> base_cap st \<and>
     base_cap st = length (base_bytes st) \<and> base_cap st \<le> ADDRESS_SPACE"

named_theorems cbb_fields "fields that an operation on the buffer leaves alone"

lemma length_valid_bytes: "buf_ok st \<Longrightarrow> length (valid_bytes st) = base_len st"
  by (simp add: buf_ok_def valid_bytes_def)

lemma base_bytes_map: "base_bytes (st\<lparr>base_buf := map_option f (base_buf st)\<rparr>) =
    (if base_buf st = None then [] else f (base_bytes st))"
  by (auto simp: base_bytes_def split: option.splits)

lemma base_write_fields [cbb_fields, simp]:
  "base_len (base_write st i bs) = base_len st" "base_cap (base_write st i bs) = base_cap st"
  "can_resize (base_write st i bs) = can_resize st" "base_error (base_write st i bs) = base_error st"
  "cbb_at (base_write st i bs) = cbb_at st" "cbb_objects (base_write st i bs) = cbb_objects st"
  by (simp_all add: base_write_def)

lemma base_move_fields [cbb_fields, simp]:
  "base_len (base_move st i j n) = base_len st" "base_cap (base_move st i j n) = base_cap st"
  "can_resize (base_move st i j n) = can_resize st" "base_error (base_move st i j n) = base_error st"
  "cbb_at (base_move st i j n) = cbb_at st" "cbb_objects (base_move st i j n) = cbb_objects st"
  by (simp_all add: base_move_def)

lemma upd_cbb_fields [cbb_fields, simp]:
  "base_len (upd_cbb st h f) = base_len st" "base_cap (upd_cbb st h f) = base_cap st"
  "can_resize (upd_cbb st h f) = can_resize st" "base_error (upd_cbb st h f) = base_error st"
  "base_buf (upd_cbb st h f) = base_buf st" "cbb_objects (upd_cbb st h f) = cbb_objects st"
  "cbb_at (upd_cbb st h f) = (cbb_at st)(h := f (cbb_at st h))"
  by (simp_all add: upd_cbb_def)

lemma upd_cbb_buf [simp]:
  "base_bytes (upd_cbb st h f) = base_bytes st" "valid_bytes (upd_cbb st h f) = valid_bytes st"
  "buf_ok (upd_cbb st h f) = buf_ok st"
  by (simp_all add: base_bytes_def valid_bytes_def buf_ok_def)

lemma base_bytes_write:
  assumes "buf_ok st" and "i + length bs \<le> base_len st"
  shows "base_bytes (base_write st i bs) = mem_write (base_bytes st) i bs"
  using assms unfolding base_write_def base_bytes_map
  by (auto simp: base_bytes_def buf_ok_def)

lemma base_write_ok:
  assumes "buf_ok st" and "i + length bs \<le> base_len st"
  shows "buf_ok (base_write st i bs)"
    and "valid_bytes (base_write st i bs) = mem_write (valid_bytes st) i bs"
  using assms by (simp_all add: buf_ok_def base_bytes_write valid_bytes_def mem_write_def min_absorb2 take_drop)

lemma base_move_ok:
  assumes "buf_ok st" and "dst + n \<le> base_len st" and "src + n \<le> base_len st"
  shows "buf_ok (base_move st dst src n)"
    and "valid_bytes (base_move st dst src n) = mem_move (valid_bytes st) dst src n"
proof -
  have b: "base_bytes (base_move st dst src n) = mem_move (base_bytes st) dst src n"
    using assms unfolding base_move_def base_bytes_map
    by (auto simp: base_bytes_def buf_ok_def mem_move_def)
  have l: "length (take n (drop src (base_bytes st))) = n"
    "take n (drop src (valid_bytes st)) = take n (drop src (base_bytes st))"
    using assms by (auto simp: buf_ok_def valid_bytes_def drop_take min_def)
  show "buf_ok (base_move st dst src n)"
    using assms b l by (simp add: buf_ok_def mem_move_def)
  show "valid_bytes (base_move st dst src n) = mem_move (valid_bytes st) dst src n"
    using assms b l unfolding valid_bytes_def mem_move_def mem_write_def
    by (simp add: buf_ok_def min_absorb2 take_drop)
qed

text \<open>
  The buffer is too small for \<open>n\<close> bytes and cannot grow: it is fixed, or the heap refuses a block of
  at most twice the bytes that are needed.
\<close>

definition outgrown :: "libc_malloc \<Rightarrow> cbb_mem \<Rightarrow> nat \<Rightarrow> bool" where
  "outgrown libc st n \<longleftrightarrow> base_cap st < n \<and>
     (can_resize st \<longrightarrow> (\<exists>m. base_cap st < m \<and> m \<le> 2 * n \<and> heap_malloc libc m = None))"

lemma outgrownD: "outgrown libc st n \<Longrightarrow> base_cap st < n"
  by (simp add: outgrown_def)

lemma outgrown_fits [simp]: "n \<le> base_cap st \<Longrightarrow> \<not> outgrown libc st n"
  by (simp add: outgrown_def)

lemma outgrown_mono:
  assumes "outgrown libc st1 n" and "n \<le> n'" and "base_cap st \<le> base_cap st1" and "can_resize st1 = can_resize st"
  shows "outgrown libc st n'"
  using assms unfolding outgrown_def by (meson dual_order.trans le_less_trans less_le_trans mult_le_mono2)

lemma realloc_refused: "heap_realloc libc d n = None \<longleftrightarrow> heap_malloc libc n = None"
  by (simp add: heap_realloc_def heap_malloc_def OPENSSL_realloc_def Let_def split: option.splits)

text \<open>Growing the buffer: its contents stay, or the error is recorded because it had to grow.\<close>

lemma cbb_buffer_reserve_cases:
  assumes st: "buf_ok st" "has_base (cbb_at st h)" and libc: "libc_wf libc" and n: "n \<le> ADDRESS_SPACE"
  obtains (fail) "cbb_buffer_reserve libc st h n = (None, st\<lparr>base_error := True\<rparr>)"
      "outgrown libc st (base_len st + n)"
  | (ok) buf cap where
      "cbb_buffer_reserve libc st h n = (Some (base_len st), st\<lparr>base_buf := buf, base_cap := cap\<rparr>)"
      "buf_ok (st\<lparr>base_buf := buf, base_cap := cap\<rparr>)" "base_len st + n \<le> cap" "base_cap st \<le> cap"
      "valid_bytes (st\<lparr>base_buf := buf, base_cap := cap\<rparr>) = valid_bytes st"
proof -
  let ?new = "base_len st + n"
  have new: "size_add (base_len st) n = ?new" "\<not> ?new < base_len st"
    and cap2: "size_mul (base_cap st) 2 = base_cap st * 2"
    using st n by (auto simp: buf_ok_def ADDRESS_SPACE_def SIZE_MOD_def size_add_def size_mul_def)
  show thesis
  proof (cases "?new \<le> base_cap st")
    case True
    then have "cbb_buffer_reserve libc st h n = (Some (base_len st), st)"
      using st new by (simp add: cbb_buffer_reserve_def Let_def)
    moreover have "st\<lparr>base_buf := base_buf st, base_cap := base_cap st\<rparr> = st" by simp
    ultimately show ?thesis using ok [where buf = "base_buf st" and cap = "base_cap st"] True st by simp
  next
    case False
    let ?cap = "if base_cap st * 2 < ?new then ?new else base_cap st * 2"
    have lim: "?cap \<le> HEAP_LIMIT" "base_cap st \<le> ?cap" "?new \<le> ?cap"
      using st n by (auto simp: buf_ok_def ADDRESS_SPACE_def HEAP_LIMIT_def)
    show ?thesis
    proof (cases "can_resize st \<and> heap_realloc libc (base_buf st) ?cap \<noteq> None")
      case no: False
      then have "cbb_buffer_reserve libc st h n = (None, st\<lparr>base_error := True\<rparr>)"
        using st new cap2 False by (auto simp: cbb_buffer_reserve_def Let_def)
      moreover have "outgrown libc st ?new"
        using False no lim(2,3) by (auto simp: outgrown_def realloc_refused intro!: exI [of _ ?cap])
      ultimately show ?thesis using fail by simp
    next
      case True
      then obtain newbuf where buf: "heap_realloc libc (base_buf st) ?cap = Some newbuf" by auto
      have el: "heap.elems (base_buf st) = base_bytes st"
        by (simp add: heap.elems_def base_bytes_def)
      have grown: "length newbuf = ?cap" "?cap \<le> ADDRESS_SPACE"
        "take (base_cap st) newbuf = base_bytes st"
        using heap.grow [OF libc lim(1) _ buf] st lim(2) unfolding el by (auto simp: buf_ok_def)
      have keep: "take (base_len st) newbuf = valid_bytes st"
        using arg_cong [OF grown(3), of "take (base_len st)"] st
        by (simp add: buf_ok_def valid_bytes_def min_absorb1)
      have "cbb_buffer_reserve libc st h n =
          (Some (base_len st), st\<lparr>base_buf := Some newbuf, base_cap := ?cap\<rparr>)"
        using st new cap2 False True buf by (auto simp: cbb_buffer_reserve_def Let_def)
      then show ?thesis
        using ok [where buf = "Some newbuf" and cap = ?cap] st grown keep lim
        by (simp add: buf_ok_def base_bytes_def valid_bytes_def)
    qed
  qed
qed

lemma cbb_buffer_add_cases:
  assumes st: "buf_ok st" "has_base (cbb_at st h)" and libc: "libc_wf libc" and n: "n \<le> ADDRESS_SPACE"
  obtains (fail) "cbb_buffer_add libc st h n = (None, st\<lparr>base_error := True\<rparr>)"
      "outgrown libc st (base_len st + n)"
  | (ok) st' where
      "cbb_buffer_add libc st h n = (Some (base_len st), st')" "buf_ok st'"
      "base_len st' = base_len st + n" "base_cap st \<le> base_cap st'"
      "take (base_len st) (valid_bytes st') = valid_bytes st"
      "cbb_at st' = cbb_at st" "cbb_objects st' = cbb_objects st" "can_resize st' = can_resize st"
  using st libc n
proof (cases rule: cbb_buffer_reserve_cases)
  case fail
  then show thesis using that(1) by (simp add: cbb_buffer_add_def)
next
  case (ok buf cap)
  let ?st = "st\<lparr>base_buf := buf, base_cap := cap, base_len := base_len st + n\<rparr>"
  have "buf_ok ?st" using ok by (simp add: buf_ok_def base_bytes_def)
  moreover have "take (base_len st) (valid_bytes ?st) = valid_bytes st"
    using ok(5) by (simp add: valid_bytes_def base_bytes_def min_absorb1)
  ultimately show thesis
    using that(2) [of ?st] ok by (simp add: cbb_buffer_add_def)
qed

lemma mem_write_join:
  assumes "i + length bs \<le> length m"
  shows "mem_write (mem_write m (i + length bs) [x]) i bs = mem_write m i (bs @ [x])"
  using assms by (simp add: mem_write_def min_absorb1)

lemma base_write_join:
  assumes "buf_ok st" and "i + length bs < base_len st"
  shows "base_write (base_write st (i + length bs) [x]) i bs = base_write st i (bs @ [x])"
proof (cases "base_buf st")
  case (Some b)
  with assms have "i + length bs \<le> length b" by (simp add: buf_ok_def base_bytes_def)
  then show ?thesis using Some by (simp add: base_write_def mem_write_join)
qed (simp add: base_write_def)

lemma put_be_loop_eq:
  "buf_ok st \<Longrightarrow> pos + n \<le> base_len st \<Longrightarrow>
   put_be_loop st pos n v = (base_write st pos (be_bytes n v), v div 256 ^ n)"
proof (induction n arbitrary: st v)
  case 0
  have "map_option (\<lambda>b. b) (base_buf st) = base_buf st" by (cases "base_buf st") simp_all
  then show ?case by (simp add: base_write_def)
next
  case (Suc n)
  let ?st = "base_write st (pos + n) [word_of_nat v]"
  have "buf_ok ?st" using Suc.prems by (intro base_write_ok(1)) simp_all
  then have "put_be_loop ?st pos n (v div 256) =
      (base_write ?st pos (be_bytes n (v div 256)), v div 256 div 256 ^ n)"
    using Suc.prems by (intro Suc.IH) simp_all
  then show ?case
    using base_write_join [of st pos "be_bytes n (v div 256)" "word_of_nat v"] Suc.prems
    by (simp add: div_mult2_eq)
qed

section \<open>Abstract builder\<close>

datatype frame_kind = Top | Prefixed nat | Asn1

type_synonym frames = "(frame_kind \<times> bytes) list"

fun prefix_len :: "frame_kind \<Rightarrow> nat" where
  "prefix_len Top = 0"
| "prefix_len (Prefixed n) = n"
| "prefix_len Asn1 = 1"

text \<open>What a frame becomes when it is closed: its contents behind their length, if they fit.\<close>

fun close_frame :: "frame_kind \<Rightarrow> bytes \<Rightarrow> bytes option" where
  "close_frame Top c = Some c"
| "close_frame (Prefixed n) c = (if length c < 256 ^ n then Some (be_bytes n (length c) @ c) else None)"
| "close_frame Asn1 c = (if length c \<le> 0xfffffffe then Some (der_len (length c) @ c) else None)"

fun collapse :: "frames \<Rightarrow> bytes option" where
  "collapse [] = Some []"
| "collapse ((k, b) # fs) =
     (case collapse fs of None \<Rightarrow> None | Some c \<Rightarrow> close_frame k (b @ c))"

text \<open>The bytes in the buffer while frames are open: a placeholder stands for each length.\<close>

definition layout :: "frames \<Rightarrow> bytes" where
  "layout fs = concat (map (\<lambda>(k, b). replicate (prefix_len k) 0 @ b) fs)"

lemma layout_simps [simp]:
  "layout [] = []" "layout ((k, b) # fs) = replicate (prefix_len k) 0 @ b @ layout fs"
  "layout (fs @ gs) = layout fs @ layout gs"
  by (simp_all add: layout_def)

section \<open>Representation\<close>

text \<open>\<open>next\<close> is the child pointer of the last struct.\<close>

fun chain_ok :: "cbb_mem \<Rightarrow> nat \<Rightarrow> nat list \<Rightarrow> frames \<Rightarrow> nat option \<Rightarrow> bool" where
  "chain_ok st off [] [] nxt = True"
| "chain_ok st off (h # hs) ((k, b) # fs) nxt \<longleftrightarrow>
     cbb_at st h = \<lparr>has_base = True, child = (case hs of [] \<Rightarrow> nxt | h' # _ \<Rightarrow> Some h'),
       cbb_offset = off, pending_len_len = prefix_len k, pending_is_asn1 = (k = Asn1),
       is_child = (k \<noteq> Top)\<rparr> \<and>
     chain_ok st (off + prefix_len k + length b) hs fs nxt"
| "chain_ok st off _ _ nxt = False"

definition frames_ok :: "frames \<Rightarrow> bool" where
  "frames_ok fs \<longleftrightarrow> (\<exists>b fs'. fs = (Top, b) # fs' \<and> (\<forall>k b. (k, b) \<in> set fs' \<longrightarrow> 0 < prefix_len k))"

definition cbb_rep :: "cbb_mem \<Rightarrow> nat list \<Rightarrow> frames \<Rightarrow> bool" where
  "cbb_rep st hs fs \<longleftrightarrow> buf_ok st \<and> valid_bytes st = layout fs \<and> frames_ok fs \<and>
     chain_ok st 0 hs fs None \<and> distinct hs \<and> (\<forall>h \<in> set hs. h < cbb_objects st)"

lemma chain_ok_length: "chain_ok st off hs fs nxt \<Longrightarrow> length hs = length fs"
  by (induction st off hs fs nxt rule: chain_ok.induct) auto

lemma chain_ok_append:
  "length hs = length fs \<Longrightarrow>
   chain_ok st off (hs @ hs') (fs @ fs') nxt \<longleftrightarrow>
   chain_ok st off hs fs (case hs' of [] \<Rightarrow> nxt | h' # _ \<Rightarrow> Some h') \<and>
   chain_ok st (off + length (layout fs)) hs' fs' nxt"
proof (induction hs fs arbitrary: off rule: list_induct2)
  case (Cons h hs f fs)
  then show ?case by (cases f; cases hs) (auto simp: add.assoc)
qed simp

lemma chain_ok_cong:
  "(\<And>h. h \<in> set hs \<Longrightarrow> cbb_at st h = cbb_at st' h) \<Longrightarrow>
   chain_ok st off hs fs nxt = chain_ok st' off hs fs nxt"
proof (induction hs arbitrary: off fs)
  case Nil
  then show ?case by (cases fs) auto
next
  case (Cons h hs)
  then show ?case by (cases fs) (auto)
qed

text \<open>A handle splits the chain: the frames above it, its own, and the ones it closes.\<close>

lemma cbb_rep_split:
  assumes "cbb_rep st hs fs" and "h \<in> set hs"
  obtains ps qs gs k b ys where "hs = ps @ h # qs" "fs = gs @ (k, b) # ys"
    "length ps = length gs" "length qs = length ys"
proof -
  from assms(2) obtain ps qs where hs: "hs = ps @ h # qs" by (meson split_list)
  have l: "length hs = length fs" using assms(1) chain_ok_length by (auto simp: cbb_rep_def)
  define gs where "gs = take (length ps) fs"
  have gs: "length ps = length gs" using l hs by (simp add: gs_def)
  obtain f ys where f: "drop (length ps) fs = f # ys" using l hs by (cases "drop (length ps) fs") auto
  have fs: "fs = gs @ f # ys" unfolding gs_def f [symmetric] by simp
  then have "length qs = length ys" using l hs gs by simp
  then show thesis using that [OF hs, of gs "fst f" "snd f" ys] fs gs by simp
qed

text \<open>The outcome of an operation that is to leave the frames \<open>spec\<close> (\<open>None\<close> where they cannot be
  encoded): it fails only if they cannot, or if the buffer would have had to grow and could not.\<close>

definition cbb_result :: "libc_malloc \<Rightarrow> cbb_mem \<Rightarrow> nat list \<Rightarrow> frames option \<Rightarrow> bool \<times> cbb_mem \<Rightarrow> bool" where
  "cbb_result libc st hs spec r \<longleftrightarrow>
     (case r of (ok, st') \<Rightarrow>
        if ok then (\<exists>fs. spec = Some fs \<and> cbb_rep st' hs fs) \<and> base_cap st \<le> base_cap st' \<and>
                   cbb_objects st' = cbb_objects st \<and> can_resize st' = can_resize st
        else base_error st' \<and> (\<forall>fs. spec = Some fs \<longrightarrow> outgrown libc st (length (layout fs))))"

lemma cbb_error_result: "cbb_result libc st hs None (cbb_error st')"
  by (simp add: cbb_result_def cbb_error_def)

section \<open>Flushing\<close>

lemma be_bytes_numerals:
  "be_bytes 2 = be_bytes (Suc (Suc 0))" "be_bytes 3 = be_bytes (Suc (Suc (Suc 0)))"
  "be_bytes 4 = be_bytes (Suc (Suc (Suc (Suc 0))))"
  by (simp_all only: numeral_eq_Suc pred_numeral_simps BitM.simps numeral_One One_nat_def)

lemma asn1_length_form_spec:
  assumes "asn1_length_form len = (ll, ib, len')" and "len \<le> 0xfffffffe"
  shows "der_len len = ib # be_bytes (ll - 1) len" "len' div 256 ^ (ll - 1) = 0"
    "ll \<noteq> 1 \<longrightarrow> len' = len" "ll - 1 \<le> 4"
proof -
  have "der_len len = ib # be_bytes (ll - 1) len \<and> len' div 256 ^ (ll - 1) = 0 \<and>
    (ll \<noteq> 1 \<longrightarrow> len' = len) \<and> ll - 1 \<le> 4"
    using assms len_octets_unique [of 3 len] len_octets_unique [of 2 len] len_octets_unique [of 1 len]
      len_octets_unique [of 0 len]
    by (auto simp: asn1_length_form_def der_len_def be_bytes_numerals split: if_splits)
  then show "der_len len = ib # be_bytes (ll - 1) len" "len' div 256 ^ (ll - 1) = 0"
    "ll \<noteq> 1 \<longrightarrow> len' = len" "ll - 1 \<le> 4" by blast+
qed

lemma cbb_write_prefix_eq:
  assumes "buf_ok s" and "cbb_offset (cbb_at s ch) + pending_len_len (cbb_at s ch) \<le> base_len s"
  shows "cbb_write_prefix s h ch len =
     (let s1 = base_write s (cbb_offset (cbb_at s ch)) (be_bytes (pending_len_len (cbb_at s ch)) len)
      in if len div 256 ^ pending_len_len (cbb_at s ch) \<noteq> 0 then cbb_error s1
         else (True, upd_cbb (upd_cbb s1 ch (\<lambda>c. c\<lparr>has_base := False\<rparr>)) h (\<lambda>c. c\<lparr>child := None\<rparr>)))"
  using assms by (simp add: cbb_write_prefix_def put_be_loop_eq Let_def)

text \<open>Detaching the last frame, once its length is in place.\<close>

lemma detach_rep:
  assumes rep: "cbb_rep st (ps @ [h, ch]) (gs @ [(k, b), (k1, c)])" and len: "length ps = length gs"
    and s: "buf_ok s" "cbb_objects s = cbb_objects st" "\<And>x. x \<noteq> ch \<Longrightarrow> cbb_at s x = cbb_at st x"
    and bytes: "valid_bytes s = layout gs @ replicate (prefix_len k) 0 @ b @ pre @ c"
  shows "cbb_rep (upd_cbb (upd_cbb s ch (\<lambda>c. c\<lparr>has_base := False\<rparr>)) h (\<lambda>c. c\<lparr>child := None\<rparr>))
           (ps @ [h]) (gs @ [(k, b @ pre @ c)])" (is "cbb_rep ?s _ _")
proof -
  have d: "ch \<notin> set ps" "ch \<noteq> h" "h \<notin> set ps" using rep by (auto simp: cbb_rep_def)
  from rep len have "chain_ok st 0 ps gs (Some h)"
    and h: "cbb_at st h = \<lparr>has_base = True, child = Some ch, cbb_offset = length (layout gs),
      pending_len_len = prefix_len k, pending_is_asn1 = (k = Asn1), is_child = (k \<noteq> Top)\<rparr>"
    by (simp_all add: cbb_rep_def chain_ok_append)
  moreover have "chain_ok st 0 ps gs (Some h) = chain_ok ?s 0 ps gs (Some h)"
    by (rule chain_ok_cong) (use d s in auto)
  ultimately have "chain_ok ?s 0 (ps @ [h]) (gs @ [(k, b @ pre @ c)]) None"
    using len d s by (simp add: chain_ok_append)
  moreover have "frames_ok (gs @ [(k, b @ pre @ c)])"
    using rep by (cases gs) (auto simp: cbb_rep_def frames_ok_def)
  ultimately show ?thesis
    using rep s bytes by (simp add: cbb_rep_def)
qed

lemma flush_prefixed:
  assumes rep: "cbb_rep st (ps @ [h, ch]) (gs @ [(k, b), (Prefixed n, c)])" and len: "length ps = length gs"
  shows "cbb_result libc st (ps @ [h]) (map_option (\<lambda>c'. gs @ [(k, b @ c')]) (close_frame (Prefixed n) c))
           (cbb_write_prefix st h ch (length c))"
proof -
  let ?o = "length (layout gs) + (prefix_len k + length b)"
  have ch: "cbb_offset (cbb_at st ch) = ?o" "pending_len_len (cbb_at st ch) = n"
    using rep len by (simp_all add: cbb_rep_def chain_ok_append)
  have st: "buf_ok st" "valid_bytes st = layout gs @ replicate (prefix_len k) 0 @ b @ replicate n 0 @ c"
    using rep by (simp_all add: cbb_rep_def)
  have bl: "?o + n \<le> base_len st"
    using length_valid_bytes [OF st(1)] st(2) by simp
  let ?s = "base_write st ?o (be_bytes n (length c))"
  show ?thesis
  proof (cases "length c < 256 ^ n")
    case False
    then have "length c div 256 ^ n \<noteq> 0" by (simp add: div_eq_0_iff)
    then show ?thesis using False bl st(1)
      by (simp add: cbb_write_prefix_eq ch Let_def cbb_error_result)
  next
    case True
    have "valid_bytes ?s = layout gs @ replicate (prefix_len k) 0 @ b @ be_bytes n (length c) @ c"
      using base_write_ok(2) [of st ?o "be_bytes n (length c)"] st bl by (simp add: mem_write_def)
    then have "cbb_rep (upd_cbb (upd_cbb ?s ch (\<lambda>c. c\<lparr>has_base := False\<rparr>)) h (\<lambda>c. c\<lparr>child := None\<rparr>))
           (ps @ [h]) (gs @ [(k, b @ be_bytes n (length c) @ c)])"
      using base_write_ok(1) [of st ?o "be_bytes n (length c)"] st bl
      by (intro detach_rep [OF rep len]) simp_all
    then show ?thesis using True bl st(1)
      by (simp add: cbb_write_prefix_eq ch Let_def cbb_result_def)
  qed
qed


lemma upd_cbb_twice_bytes: "base_write (upd_cbb s h f) i bs = upd_cbb (base_write s i bs) h f"
  by (simp add: base_write_def upd_cbb_def)

lemma flush_asn1:
  assumes rep: "cbb_rep st (ps @ [h, ch]) (gs @ [(k, b), (Asn1, c)])" and len: "length ps = length gs"
    and libc: "libc_wf libc"
    and start: "child_start = length (layout gs) + (prefix_len k + length b) + 1"
  shows "cbb_result libc st (ps @ [h]) (map_option (\<lambda>c'. gs @ [(k, b @ c')]) (close_frame Asn1 c))
           (cbb_flush_asn1 libc st h ch child_start (length c))"
proof (cases "length c \<le> 0xfffffffe")
  case False
  then show ?thesis by (simp add: cbb_flush_asn1_def cbb_error_result)
next
  case True
  let ?A = "layout gs @ replicate (prefix_len k) 0 @ b"
  let ?o = "length ?A"
  obtain ll ib len' where form: "asn1_length_form (length c) = (ll, ib, len')"
    by (cases "asn1_length_form (length c)") auto
  note spec = asn1_length_form_spec [OF form True]
  have ch: "cbb_offset (cbb_at st ch) = ?o" and h: "has_base (cbb_at st h)" and d: "h \<noteq> ch"
    using rep len by (auto simp: cbb_rep_def chain_ok_append)
  have st: "buf_ok st" "valid_bytes st = ?A @ 0 # c"
    using rep by (simp_all add: cbb_rep_def)
  have bl: "base_len st = ?o + 1 + length c"
    using length_valid_bytes [OF st(1)] st(2) by simp
  have start': "child_start = ?o + 1" using start by simp
  define room where "room = (if ll \<noteq> 1
      then (case cbb_buffer_add libc st h (ll - 1) of
              (None, st1) \<Rightarrow> (False, st1)
            | (Some _, st1) \<Rightarrow> (True, base_move st1 (child_start + (ll - 1)) child_start len'))
      else (True, st))"
  have room_cases: "(\<exists>s. room = (False, s)) \<and> outgrown libc st (base_len st + (ll - 1)) \<or>
      (\<exists>s X. room = (True, s) \<and> length X = ll - 1 \<and> buf_ok s \<and> base_len s = base_len st + (ll - 1) \<and>
        valid_bytes s = ?A @ 0 # X @ c \<and> cbb_at s = cbb_at st \<and> base_cap st \<le> base_cap s \<and>
        cbb_objects s = cbb_objects st \<and> can_resize s = can_resize st)"
  proof (cases "ll = 1")
    case True
    then show ?thesis using st by (simp add: room_def)
  next
    case ne: False
    have small: "ll - 1 \<le> ADDRESS_SPACE" using spec(4) by (simp add: ADDRESS_SPACE_def)
    show ?thesis
    proof (rule cbb_buffer_add_cases [OF st(1) h libc small])
      assume "cbb_buffer_add libc st h (ll - 1) = (None, st\<lparr>base_error := True\<rparr>)"
        and "outgrown libc st (base_len st + (ll - 1))"
      then show ?thesis using ne by (simp add: room_def)
    next
      fix s1
      assume add: "cbb_buffer_add libc st h (ll - 1) = (Some (base_len st), s1)" and s1: "buf_ok s1"
        "base_len s1 = base_len st + (ll - 1)" "base_cap st \<le> base_cap s1"
        "take (base_len st) (valid_bytes s1) = valid_bytes st" "cbb_at s1 = cbb_at st"
        "cbb_objects s1 = cbb_objects st" "can_resize s1 = can_resize st"
      define Y where "Y = drop (base_len st) (valid_bytes s1)"
      have v1: "valid_bytes s1 = ?A @ 0 # c @ Y" and Y: "length Y = ll - 1"
        using s1(4) st(2) length_valid_bytes [OF s1(1)] s1(2) append_take_drop_id [of "base_len st" "valid_bytes s1"]
        by (simp_all add: Y_def)
      let ?s = "base_move s1 (child_start + (ll - 1)) child_start (length c)"
      define X where "X = take (ll - 1) (c @ Y)"
      have "buf_ok ?s" "valid_bytes ?s = mem_move (valid_bytes s1) (child_start + (ll - 1)) child_start (length c)"
        using s1 bl start' by (simp_all add: base_move_ok)
      moreover have "mem_move (valid_bytes s1) (child_start + (ll - 1)) child_start (length c) =
          ?A @ 0 # X @ c"
        using Y unfolding X_def by (simp add: v1 start' mem_move_def mem_write_def take_Cons' drop_Cons')
      moreover have "length X = ll - 1" using Y by (simp add: X_def)
      ultimately show ?thesis
        using ne add s1 spec(3) bl by (intro disjI2 exI [of _ ?s] exI [of _ X]) (simp add: room_def)
    qed
  qed
  have unf: "cbb_flush_asn1 libc st h ch child_start (length c) =
     (case room of
        (False, st1) \<Rightarrow> cbb_error st1
      | (True, st1) \<Rightarrow>
          cbb_write_prefix
            (upd_cbb (base_write st1 (cbb_offset (cbb_at st1 ch)) [ib]) ch
               (\<lambda>c. c\<lparr>cbb_offset := cbb_offset c + 1, pending_len_len := ll - 1\<rparr>)) h ch len')"
    using True form by (simp add: cbb_flush_asn1_def room_def)
  have total: "length (layout (gs @ [(k, b @ der_len (length c) @ c)])) = base_len st + (ll - 1)"
    using bl spec(1) by simp
  from room_cases show ?thesis
  proof (elim disjE conjE exE)
    fix s assume "room = (False, s)" "outgrown libc st (base_len st + (ll - 1))"
    then show ?thesis using True total unfolding unf by (simp add: cbb_result_def cbb_error_def)
  next
    fix s X assume r: "room = (True, s)" and X: "length X = ll - 1" and s: "buf_ok s"
      "base_len s = base_len st + (ll - 1)" "valid_bytes s = ?A @ 0 # X @ c" "cbb_at s = cbb_at st"
      "base_cap st \<le> base_cap s" "cbb_objects s = cbb_objects st" "can_resize s = can_resize st"
    let ?L = "be_bytes (ll - 1) (length c)"
    define s1 where "s1 = upd_cbb (base_write s ?o [ib]) ch
               (\<lambda>c. c\<lparr>cbb_offset := cbb_offset c + 1, pending_len_len := ll - 1\<rparr>)"
    have ok1: "buf_ok (base_write s ?o [ib])"
      and v1: "valid_bytes (base_write s ?o [ib]) = ?A @ ib # X @ c"
      using base_write_ok [of s ?o "[ib]"] s bl by (simp_all add: mem_write_def)
    have s1: "buf_ok s1" "valid_bytes s1 = ?A @ ib # X @ c" "base_len s1 = base_len st + (ll - 1)"
      "cbb_offset (cbb_at s1 ch) = ?o + 1" "pending_len_len (cbb_at s1 ch) = ll - 1"
      using ok1 v1 s ch by (simp_all add: s1_def)
    have lb: "be_bytes (ll - 1) len' = ?L"
      using spec(3) by (cases "ll = 1") auto
    let ?s2 = "base_write s1 (?o + 1) ?L"
    have "buf_ok ?s2" and v2: "valid_bytes ?s2 = ?A @ ib # ?L @ c"
      using base_write_ok [of s1 "?o + 1" ?L] s1 bl X by (simp_all add: mem_write_def take_Cons' drop_Cons')
    then have "cbb_rep (upd_cbb (upd_cbb ?s2 ch (\<lambda>c. c\<lparr>has_base := False\<rparr>)) h (\<lambda>c. c\<lparr>child := None\<rparr>))
           (ps @ [h]) (gs @ [(k, b @ der_len (length c) @ c)])"
      using s spec(1) by (intro detach_rep [OF rep len]) (auto simp: s1_def)
    moreover have "cbb_write_prefix s1 h ch len' =
        (True, upd_cbb (upd_cbb ?s2 ch (\<lambda>c. c\<lparr>has_base := False\<rparr>)) h (\<lambda>c. c\<lparr>child := None\<rparr>))"
      using s1 bl spec(2) lb by (simp add: cbb_write_prefix_eq Let_def)
    ultimately show ?thesis
      unfolding unf r using s ch True by (simp add: cbb_result_def s1_def [symmetric]) (simp add: s1_def)
  qed
qed


lemma frame_at:
  assumes "cbb_rep st (ps @ h # qs) (gs @ (k, b) # ys)" and "length ps = length gs"
  shows "cbb_at st h = \<lparr>has_base = True, child = (case qs of [] \<Rightarrow> None | q # _ \<Rightarrow> Some q),
    cbb_offset = length (layout gs), pending_len_len = prefix_len k, pending_is_asn1 = (k = Asn1),
    is_child = (k \<noteq> Top)\<rparr>"
  using assms by (simp add: cbb_rep_def chain_ok_append)

lemma cbb_rep_buf: "cbb_rep st hs fs \<Longrightarrow> buf_ok st" "cbb_rep st hs fs \<Longrightarrow> \<not> base_error st"
  "cbb_rep st hs fs \<Longrightarrow> base_len st = length (layout fs)"
  using length_valid_bytes [of st] by (auto simp: cbb_rep_def, auto simp: buf_ok_def)

lemma close_frame_length: "close_frame k c = Some c' \<Longrightarrow> prefix_len k + length c \<le> length c'"
  by (cases k) (auto split: if_splits simp: der_len_def)

lemma collapse_length: "collapse fs = Some c \<Longrightarrow> length (layout fs) \<le> length c"
proof (induction fs arbitrary: c)
  case (Cons f fs)
  obtain k b where f: "f = (k, b)" by (cases f)
  with Cons.prems obtain c' where c': "collapse fs = Some c'" "close_frame k (b @ c') = Some c"
    by (auto split: option.splits)
  from close_frame_length [OF c'(2)] Cons.IH [OF c'(1)] show ?case by (simp add: f)
qed simp

lemma flush_rec_result:
  "cbb_rep st (ps @ h # qs) (gs @ (k, b) # ys) \<Longrightarrow> length ps = length gs \<Longrightarrow> libc_wf libc \<Longrightarrow>
   length qs < fuel \<Longrightarrow>
   cbb_result libc st (ps @ [h]) (map_option (\<lambda>c. gs @ [(k, b @ c)]) (collapse ys)) (CBB_flush_rec fuel libc st h)"
proof (induction ys arbitrary: fuel st ps h qs gs k b)
  case Nil
  then have "length qs = 0" using chain_ok_length [of st 0 "ps @ h # qs" "gs @ [(k, b)]"] by (auto simp: cbb_rep_def)
  moreover obtain f where "fuel = Suc f" using Nil.prems(4) by (cases fuel) auto
  ultimately show ?case
    using Nil.prems frame_at [OF Nil.prems(1,2)] cbb_rep_buf(2) [OF Nil.prems(1)]
    by (simp add: cbb_result_def)
next
  case (Cons y ys)
  obtain k1 b1 where y: "y = (k1, b1)" by (cases y)
  have "length qs = Suc (length ys)"
    using Cons.prems(1,2) chain_ok_length [of st 0 "ps @ h # qs" "gs @ (k, b) # y # ys"] by (auto simp: cbb_rep_def)
  then obtain ch qs' where qs: "qs = ch # qs'" by (cases qs) auto
  from Cons.prems(4) qs obtain f where f: "fuel = Suc f" "length qs' < f" by (cases fuel) auto
  let ?gs = "gs @ [(k, b)]"
  have rep: "cbb_rep st ((ps @ [h]) @ ch # qs') (?gs @ (k1, b1) # ys)"
    using Cons.prems(1) by (simp add: qs y)
  have len: "length (ps @ [h]) = length ?gs" using Cons.prems(2) by simp
  note h = frame_at [OF Cons.prems(1,2)] note ch = frame_at [OF rep len]
  have pos: "0 < prefix_len k1"
    using Cons.prems(1) by (cases gs) (auto simp: cbb_rep_def frames_ok_def y)
  have err: "\<not> base_error st" using Cons.prems(1) by (simp add: cbb_rep_buf)
  let ?start = "length (layout gs) + (prefix_len k + length b) + prefix_len k1"
  have "?start \<le> base_len st" using cbb_rep_buf(3) [OF rep] by simp
  also have "\<dots> < SIZE_MOD" using cbb_rep_buf(1) [OF rep] by (simp add: buf_ok_def ADDRESS_SPACE_def SIZE_MOD_def)
  finally have start: "size_add (cbb_offset (cbb_at st ch)) (pending_len_len (cbb_at st ch)) = ?start"
    by (simp add: ch size_add_def)
  have IH: "cbb_result libc st (ps @ [h, ch]) (map_option (\<lambda>c. gs @ [(k, b), (k1, b1 @ c)]) (collapse ys))
      (CBB_flush_rec f libc st ch)"
    using Cons.IH [OF rep len Cons.prems(3) f(2)] by simp
  obtain ok st1 where r: "CBB_flush_rec f libc st ch = (ok, st1)" by fastforce
  show ?case
  proof (cases ok)
    case False
    have bound: "outgrown libc st (length (layout (gs @ [(k, b @ c)])))" if "collapse ((k1, b1) # ys) = Some c" for c
    proof -
      from that obtain c' where c': "collapse ys = Some c'" "close_frame k1 (b1 @ c') = Some c"
        by (auto split: option.splits)
      with IH r False have "outgrown libc st (length (layout (gs @ [(k, b), (k1, b1 @ c')])))"
        by (auto simp: cbb_result_def)
      then show ?thesis using close_frame_length [OF c'(2)] by (auto elim: outgrown_mono)
    qed
    show ?thesis
      using bound pos by (auto simp: f h err ch Let_def r False y qs cbb_result_def cbb_error_def)
  next
    case True
    with IH r obtain c where c: "collapse ys = Some c" and rep1: "cbb_rep st1 (ps @ [h, ch]) (gs @ [(k, b), (k1, b1 @ c)])"
      and mono: "base_cap st \<le> base_cap st1" "cbb_objects st1 = cbb_objects st" "can_resize st1 = can_resize st"
      by (auto simp: cbb_result_def)
    have rep1': "cbb_rep st1 ((ps @ [h]) @ ch # []) (?gs @ (k1, b1 @ c) # [])" using rep1 by simp
    note ch1 = frame_at [OF rep1' len]
    have bl: "base_len st1 = ?start + length (b1 @ c)" using cbb_rep_buf(3) [OF rep1] by simp
    have step: "cbb_result libc st1 (ps @ [h]) (map_option (\<lambda>c'. gs @ [(k, b @ c')]) (close_frame k1 (b1 @ c)))
        (if k1 = Asn1 then cbb_flush_asn1 libc st1 h ch ?start (length (b1 @ c))
         else cbb_write_prefix st1 h ch (length (b1 @ c)))"
    proof (cases k1)
      case Top
      then show ?thesis using pos by simp
    next
      case (Prefixed n)
      then show ?thesis using flush_prefixed [of st1 ps h ch gs k b n "b1 @ c"] rep1 Cons.prems(2) by simp
    next
      case Asn1
      then show ?thesis
        using flush_asn1 [of st1 ps h ch gs k b "b1 @ c" libc ?start] rep1 Cons.prems(2,3) by simp
    qed
    have "CBB_flush_rec fuel libc st h =
        (if k1 = Asn1 then cbb_flush_asn1 libc st1 h ch ?start (length (b1 @ c))
         else cbb_write_prefix st1 h ch (length (b1 @ c)))"
      using start pos err bl by (simp add: f h r True qs ch ch1 Let_def)
    then show ?thesis
      using step mono by (auto simp: cbb_result_def y c split: prod.splits if_splits elim: outgrown_mono)
  qed
qed

lemma cbb_rep_fuel:
  assumes "cbb_rep st (ps @ h # qs) fs"
  shows "length qs < Suc (cbb_objects st)"
proof -
  have "set qs \<subseteq> {..< cbb_objects st}" "distinct qs" using assms by (auto simp: cbb_rep_def)
  then have "length qs \<le> cbb_objects st"
    using card_mono [of "{..< cbb_objects st}" "set qs"] by (simp add: distinct_card)
  then show ?thesis by simp
qed

theorem CBB_flush_result:
  assumes "cbb_rep st (ps @ h # qs) (gs @ (k, b) # ys)" and "length ps = length gs" and "libc_wf libc"
  shows "cbb_result libc st (ps @ [h]) (map_option (\<lambda>c. gs @ [(k, b @ c)]) (collapse ys)) (CBB_flush libc st h)"
  unfolding CBB_flush_def by (rule flush_rec_result [OF assms cbb_rep_fuel [OF assms(1)]])

end
