(* ===== verification/Cbb_Asn1.thy ===== *)
theory Cbb_Asn1
  imports Cbb
begin

text \<open>
  The ASN.1 half of \<open>crypto/bytestring/cbb.c\<close>: elements, integers, booleans, octet strings, object
  identifiers and the ordering of \<open>SET OF\<close>, and the two functions of \<open>cbs.c\<close> that write the text of
  an object identifier with a \<open>CBB\<close>. The lemmas are in \<open>Cbb_Writers\<close> and \<open>Oid\<close>.
\<close>

section \<open>Base-128 integers and elements\<close>

lemma drop_bit_7_less: "copy \<noteq> 0 \<Longrightarrow> unat (drop_bit 7 (copy :: u64)) < unat copy"
  by (simp only: unat_drop_bit_eq) (simp add: drop_bit_eq_div unat_gt_0)

function base128_len :: "u64 \<Rightarrow> nat" where
  "base128_len copy = (if copy = 0 then 0 else Suc (base128_len (drop_bit 7 copy)))"
  by pat_completeness auto
termination
  by (relation "measure unat") (simp_all only: wf_measure in_measure, rule drop_bit_7_less)

declare base128_len.simps [simp del]

fun add_base128_loop :: "libc_malloc \<Rightarrow> cbb_mem \<Rightarrow> nat \<Rightarrow> u64 \<Rightarrow> nat \<Rightarrow> bool \<times> cbb_mem" where
  "add_base128_loop libc st h v 0 = (True, st)"
| "add_base128_loop libc st h v (Suc i) =
     (let byte = ucast (drop_bit (7 * i) v AND 0x7f);
          byte' = (if i \<noteq> 0 then byte OR 0x80 else byte)
      in case CBB_add_u8 libc st h byte' of
           (False, st1) \<Rightarrow> (False, st1)
         | (True, st1) \<Rightarrow> add_base128_loop libc st1 h v i)"

definition add_base128_integer :: "libc_malloc \<Rightarrow> cbb_mem \<Rightarrow> nat \<Rightarrow> u64 \<Rightarrow> bool \<times> cbb_mem" where
  "add_base128_integer libc st h v =
     (let len_len = (if base128_len v = 0 then 1 else base128_len v)
      in add_base128_loop libc st h v len_len)"

definition add_asn1_tag :: "libc_malloc \<Rightarrow> cbb_mem \<Rightarrow> nat \<Rightarrow> u32 \<Rightarrow> bool \<times> cbb_mem" where
  "add_asn1_tag libc st h tag =
     (let tag_bits = ucast (drop_bit CBS_ASN1_TAG_SHIFT tag) AND 0xe0 :: u8;
          tag_number = tag AND CBS_ASN1_TAG_NUMBER_MASK
      in if tag_number \<ge> 0x1f then
           (case CBB_add_u8 libc st h (tag_bits OR 0x1f) of
              (False, st1) \<Rightarrow> (False, st1)
            | (True, st1) \<Rightarrow> add_base128_integer libc st1 h (ucast tag_number))
         else CBB_add_u8 libc st h (tag_bits OR ucast tag_number))"

definition CBB_add_asn1 :: "libc_malloc \<Rightarrow> cbb_mem \<Rightarrow> nat \<Rightarrow> nat \<Rightarrow> u32 \<Rightarrow> bool \<times> cbb_mem" where
  "CBB_add_asn1 libc st h out_contents tag =
     (case CBB_flush libc st h of
        (False, st1) \<Rightarrow> (False, st1)
      | (True, st1) \<Rightarrow>
     (case add_asn1_tag libc st1 h tag of
        (False, st2) \<Rightarrow> (False, st2)
      | (True, st2) \<Rightarrow>
          (let off = base_len st2
           in case CBB_add_u8 libc st2 h 0 of
                (False, st3) \<Rightarrow> (False, st3)
              | (True, st3) \<Rightarrow> (True, attach_child st3 h out_contents off 1 True))))"

section \<open>Values\<close>

text \<open>The loop over the indices \<open>i\<close>; the result is \<open>started\<close>, \<open>None\<close> where the function returns 0.\<close>

fun add_asn1_uint64_loop ::
    "libc_malloc \<Rightarrow> cbb_mem \<Rightarrow> nat \<Rightarrow> u64 \<Rightarrow> nat list \<Rightarrow> bool \<Rightarrow> bool option \<times> cbb_mem" where
  "add_asn1_uint64_loop libc st ch v [] started = (Some started, st)"
| "add_asn1_uint64_loop libc st ch v (i # is) started =
     (let byte = ucast (drop_bit (8 * (7 - i)) v AND 0xff) :: u8
      in if \<not> started \<and> byte = 0 then add_asn1_uint64_loop libc st ch v is started
         else
           (case (if \<not> started \<and> byte AND 0x80 \<noteq> 0 then CBB_add_u8 libc st ch 0 else (True, st)) of
              (False, st1) \<Rightarrow> (None, st1)
            | (True, st1) \<Rightarrow>
                (case CBB_add_u8 libc st1 ch byte of
                   (False, st2) \<Rightarrow> (None, st2)
                 | (True, st2) \<Rightarrow> add_asn1_uint64_loop libc st2 ch v is True)))"

definition CBB_add_asn1_uint64 :: "libc_malloc \<Rightarrow> nat \<Rightarrow> cbb_mem \<Rightarrow> nat \<Rightarrow> u64 \<Rightarrow> bool \<times> cbb_mem" where
  "CBB_add_asn1_uint64 libc ch st h v =
     (case CBB_add_asn1 libc st h ch CBS_ASN1_INTEGER of
        (False, st1) \<Rightarrow> (False, st1)
      | (True, st1) \<Rightarrow>
          (case add_asn1_uint64_loop libc st1 ch v [0 ..< 8] False of
             (None, st2) \<Rightarrow> (False, st2)
           | (Some started, st2) \<Rightarrow>
               (case (if \<not> started then CBB_add_u8 libc st2 ch 0 else (True, st2)) of
                  (False, st3) \<Rightarrow> (False, st3)
                | (True, st3) \<Rightarrow> CBB_flush libc st3 h)))"

text \<open>An \<open>int64_t\<close> is its two's complement word; the union's bytes are those of the little-endian word.\<close>

definition int64_bytes :: "u64 \<Rightarrow> bytes" where
  "int64_bytes v = le_bytes 8 (unat v)"

fun int64_start :: "bytes \<Rightarrow> nat \<Rightarrow> nat" where
  "int64_start u 0 = 0"
| "int64_start u (Suc s) =
     (if u ! Suc s = 0xff \<and> u ! s AND 0x80 \<noteq> 0 then int64_start u s else Suc s)"

fun add_bytes_down :: "libc_malloc \<Rightarrow> cbb_mem \<Rightarrow> nat \<Rightarrow> bytes \<Rightarrow> nat \<Rightarrow> bool \<times> cbb_mem" where
  "add_bytes_down libc st ch u 0 = (True, st)"
| "add_bytes_down libc st ch u (Suc i) =
     (case CBB_add_u8 libc st ch (u ! i) of
        (False, st1) \<Rightarrow> (False, st1)
      | (True, st1) \<Rightarrow> add_bytes_down libc st1 ch u i)"

definition CBB_add_asn1_int64 :: "libc_malloc \<Rightarrow> nat \<Rightarrow> cbb_mem \<Rightarrow> nat \<Rightarrow> u64 \<Rightarrow> bool \<times> cbb_mem" where
  "CBB_add_asn1_int64 libc ch st h v =
     (if sint v \<ge> 0 then CBB_add_asn1_uint64 libc ch st h v
      else
        (let u = int64_bytes v; start = int64_start u 7
         in case CBB_add_asn1 libc st h ch CBS_ASN1_INTEGER of
              (False, st1) \<Rightarrow> (False, st1)
            | (True, st1) \<Rightarrow>
                (case add_bytes_down libc st1 ch u (Suc start) of
                   (False, st2) \<Rightarrow> (False, st2)
                 | (True, st2) \<Rightarrow> CBB_flush libc st2 h)))"

definition CBB_add_asn1_octet_string ::
    "libc_malloc \<Rightarrow> nat \<Rightarrow> cbb_mem \<Rightarrow> nat \<Rightarrow> bytes \<Rightarrow> nat \<Rightarrow> bool \<times> cbb_mem" where
  "CBB_add_asn1_octet_string libc ch st h data data_len =
     (case CBB_add_asn1 libc st h ch CBS_ASN1_OCTETSTRING of
        (False, st1) \<Rightarrow> (False, st1)
      | (True, st1) \<Rightarrow>
          (case CBB_add_bytes libc st1 ch data data_len of
             (False, st2) \<Rightarrow> (False, st2)
           | (True, st2) \<Rightarrow> CBB_flush libc st2 h))"

definition CBB_add_asn1_bool :: "libc_malloc \<Rightarrow> nat \<Rightarrow> cbb_mem \<Rightarrow> nat \<Rightarrow> int \<Rightarrow> bool \<times> cbb_mem" where
  "CBB_add_asn1_bool libc ch st h v =
     (case CBB_add_asn1 libc st h ch CBS_ASN1_BOOLEAN of
        (False, st1) \<Rightarrow> (False, st1)
      | (True, st1) \<Rightarrow>
          (case CBB_add_u8 libc st1 ch (if v \<noteq> 0 then 0xff else 0) of
             (False, st2) \<Rightarrow> (False, st2)
           | (True, st2) \<Rightarrow> CBB_flush libc st2 h))"

section \<open>Object identifiers\<close>

function parse_dotted_loop :: "cbs \<Rightarrow> u64 \<Rightarrow> bool \<Rightarrow> u64 option \<times> cbs" where
  "parse_dotted_loop c out seen_digit =
     (case CBS_get_u8 c of
        (None, c') \<Rightarrow> (if seen_digit then Some out else None, c')
      | (Some u, c') \<Rightarrow>
          (if u = 0x2e \<and> CBS_len c' > 0 then (if seen_digit then Some out else None, c')
           else if u < 0x30 \<or> u > 0x39 \<or> (seen_digit \<and> out = 0) \<or> out > (- 1) div 10
                   \<or> out * 10 > (- 1) - (ucast u - 0x30) then (None, c')
           else parse_dotted_loop c' (out * 10 + (ucast u - 0x30)) True))"
  by pat_completeness auto
termination
  by (relation "measure (\<lambda>(c, out, s). cbs_len c)") (auto dest!: CBS_get_u8_shrinks [OF sym])

declare parse_dotted_loop.simps [simp del]

definition parse_dotted_decimal :: "cbs \<Rightarrow> u64 option \<times> cbs" where
  "parse_dotted_decimal c = parse_dotted_loop c 0 False"

lemma parse_dotted_loop_len: "parse_dotted_loop c out s = (r, c') \<Longrightarrow> cbs_len c' \<le> cbs_len c"
proof (induction c out s arbitrary: r c' rule: parse_dotted_loop.induct)
  case (1 c out s)
  show ?case
  proof (cases "CBS_get_u8 c")
    case (Pair x c1)
    have "cbs_len c1 \<le> cbs_len c"
      using Pair by (auto simp: CBS_get_u8_def cbs_get_def split: if_splits)
    with Pair "1.prems" "1.IH" [OF Pair [symmetric]] show ?thesis
      by (subst (asm) parse_dotted_loop.simps) (fastforce split: option.splits if_splits)
  qed
qed

lemma parse_dotted_decimal_shrinks:
  "parse_dotted_decimal c = (Some v, c') \<Longrightarrow> cbs_len c' < cbs_len c"
  unfolding parse_dotted_decimal_def
  by (subst (asm) parse_dotted_loop.simps)
    (auto split: prod.splits option.splits if_splits dest!: CBS_get_u8_shrinks parse_dotted_loop_len)

text \<open>The components after the first two.\<close>

function oid_components_loop :: "libc_malloc \<Rightarrow> cbb_mem \<Rightarrow> nat \<Rightarrow> cbs \<Rightarrow> bool \<times> cbb_mem" where
  "oid_components_loop libc st h c =
     (if CBS_len c > 0 then
        (case parse_dotted_decimal c of
           (None, _) \<Rightarrow> (False, st)
         | (Some a, c') \<Rightarrow>
             (case add_base128_integer libc st h a of
                (False, st1) \<Rightarrow> (False, st1)
              | (True, st1) \<Rightarrow> oid_components_loop libc st1 h c'))
      else (True, st))"
  by pat_completeness auto
termination
  by (relation "measure (\<lambda>(libc, st, h, c). cbs_len c)")
    (auto dest!: parse_dotted_decimal_shrinks [OF sym])

declare oid_components_loop.simps [simp del]

definition CBB_add_asn1_oid_from_text ::
    "libc_malloc \<Rightarrow> cbb_mem \<Rightarrow> nat \<Rightarrow> bytes \<Rightarrow> nat \<Rightarrow> bool \<times> cbb_mem" where
  "CBB_add_asn1_oid_from_text libc st h txt len =
     (case CBB_flush libc st h of
        (False, st1) \<Rightarrow> (False, st1)
      | (True, st1) \<Rightarrow>
     (case parse_dotted_decimal (CBS_init txt len) of
        (None, _) \<Rightarrow> (False, st1)
      | (Some a, c1) \<Rightarrow>
     (case parse_dotted_decimal c1 of
        (None, _) \<Rightarrow> (False, st1)
      | (Some b, c2) \<Rightarrow>
          (if a > 2 \<or> (a < 2 \<and> b > 39) \<or> b > (- 1) - 80 then (False, st1)
           else
             (case add_base128_integer libc st1 h (40 * a + b) of
                (False, st2) \<Rightarrow> (False, st2)
              | (True, st2) \<Rightarrow> oid_components_loop libc st2 h c2)))))"

text \<open>What \<open>snprintf\<close> writes for \<open>PRIu64\<close>: the decimal digits.\<close>

fun decimal :: "nat \<Rightarrow> bytes" where
  "decimal n = (if n < 10 then [word_of_nat (48 + n)] else decimal (n div 10) @ [word_of_nat (48 + n mod 10)])"

declare decimal.simps [simp del]

definition add_decimal :: "libc_malloc \<Rightarrow> cbb_mem \<Rightarrow> nat \<Rightarrow> u64 \<Rightarrow> bool \<times> cbb_mem" where
  "add_decimal libc st h v =
     (let buf = decimal (unat v) in CBB_add_bytes libc st h buf (length buf))"

lemma parse_base128_loop_len: "parse_base128_loop c v = (r, c') \<Longrightarrow> cbs_len c' \<le> cbs_len c"
proof (induction c v arbitrary: r c' rule: parse_base128_loop.induct)
  case (1 c v)
  show ?case
  proof (cases "CBS_get_u8 c")
    case (Pair x c1)
    have "cbs_len c1 \<le> cbs_len c"
      using Pair by (auto simp: CBS_get_u8_def cbs_get_def split: if_splits)
    with Pair "1.prems" "1.IH" [OF Pair [symmetric]] show ?thesis
      by (subst (asm) parse_base128_loop.simps) (fastforce simp: Let_def split: option.splits if_splits)
  qed
qed

lemma parse_base128_shrinks:
  "parse_base128_integer c = (Some v, c') \<Longrightarrow> cbs_len c' < cbs_len c"
  unfolding parse_base128_integer_def
  by (subst (asm) parse_base128_loop.simps)
    (auto simp: Let_def split: prod.splits option.splits if_splits
      dest!: CBS_get_u8_shrinks parse_base128_loop_len)

function oid_text_loop :: "libc_malloc \<Rightarrow> cbb_mem \<Rightarrow> nat \<Rightarrow> cbs \<Rightarrow> bool \<times> cbb_mem" where
  "oid_text_loop libc st h c =
     (if CBS_len c \<noteq> 0 then
        (case parse_base128_integer c of
           (None, _) \<Rightarrow> (False, st)
         | (Some v, c') \<Rightarrow>
             (case CBB_add_u8 libc st h 0x2e of
                (False, st1) \<Rightarrow> (False, st1)
              | (True, st1) \<Rightarrow>
                  (case add_decimal libc st1 h v of
                     (False, st2) \<Rightarrow> (False, st2)
                   | (True, st2) \<Rightarrow> oid_text_loop libc st2 h c')))
      else (True, st))"
  by pat_completeness auto
termination
  by (relation "measure (\<lambda>(libc, st, h, c). cbs_len c)")
    (auto dest!: parse_base128_shrinks [OF sym])

declare oid_text_loop.simps [simp del]

definition oid_text_first :: "libc_malloc \<Rightarrow> cbb_mem \<Rightarrow> nat \<Rightarrow> u64 \<Rightarrow> bool \<times> cbb_mem" where
  "oid_text_first libc st h v =
     (if v \<ge> 80 then
        (case CBB_add_bytes libc st h [0x32, 0x2e] 2 of
           (False, st1) \<Rightarrow> (False, st1)
         | (True, st1) \<Rightarrow> add_decimal libc st1 h (v - 80))
      else
        (case add_decimal libc st h (v div 40) of
           (False, st1) \<Rightarrow> (False, st1)
         | (True, st1) \<Rightarrow>
             (case CBB_add_u8 libc st1 h 0x2e of
                (False, st2) \<Rightarrow> (False, st2)
              | (True, st2) \<Rightarrow> add_decimal libc st2 h (v mod 40))))"

text \<open>The builder of \<open>CBS_asn1_oid_to_text\<close> is a local variable, the only \<open>CBB\<close> of its own base.\<close>

definition fresh_cbb_mem :: cbb_mem where
  "fresh_cbb_mem = \<lparr>base_buf = None, base_len = 0, base_cap = 0, can_resize = False,
     base_error = False, cbb_at = (\<lambda>_. zero_cbb), cbb_objects = 1\<rparr>"

definition CBS_asn1_oid_to_text :: "libc_malloc \<Rightarrow> cbs \<Rightarrow> bytes option" where
  "CBS_asn1_oid_to_text libc c =
     (case CBB_init libc fresh_cbb_mem 0 32 of
        (False, _) \<Rightarrow> None
      | (True, st) \<Rightarrow>
     (case parse_base128_integer c of
        (None, _) \<Rightarrow> None
      | (Some v, c1) \<Rightarrow>
     (case oid_text_first libc st 0 v of
        (False, _) \<Rightarrow> None
      | (True, st1) \<Rightarrow>
     (case oid_text_loop libc st1 0 c1 of
        (False, _) \<Rightarrow> None
      | (True, st2) \<Rightarrow>
     (case CBB_add_u8 libc st2 0 0 of
        (False, _) \<Rightarrow> None
      | (True, st3) \<Rightarrow>
     (case CBB_finish libc st3 0 True True of
        (None, _) \<Rightarrow> None
      | (Some (txt, txt_len), _) \<Rightarrow> txt))))))"

section \<open>\<open>SET OF\<close>\<close>

text \<open>\<open>memcmp\<close> of the C library on the first \<open>n\<close> bytes.\<close>

fun memcmp :: "bytes \<Rightarrow> bytes \<Rightarrow> nat \<Rightarrow> int" where
  "memcmp (a # as) (b # bs) (Suc n) =
     (if a < b then - 1 else if a > b then 1 else memcmp as bs n)"
| "memcmp _ _ _ = 0"

definition compare_set_of_element :: "cbs \<Rightarrow> cbs \<Rightarrow> int" where
  "compare_set_of_element a b =
     (let a_len = CBS_len a; b_len = CBS_len b;
          min_len = (if a_len < b_len then a_len else b_len);
          ret = memcmp (CBS_data a) (CBS_data b) min_len
      in if ret \<noteq> 0 then ret
         else if a_len = b_len then 0
         else if a_len < b_len then - 1 else 1)"

text \<open>
  \<open>qsort\<close> of the C library. The order of elements that compare equal is not specified; here equal
  elements are equal byte strings, so every sorting algorithm has the same output.
\<close>

fun qsort_insert :: "('a \<Rightarrow> 'a \<Rightarrow> int) \<Rightarrow> 'a \<Rightarrow> 'a list \<Rightarrow> 'a list" where
  "qsort_insert cmp x [] = [x]"
| "qsort_insert cmp x (y # ys) = (if cmp x y \<le> 0 then x # y # ys else y # qsort_insert cmp x ys)"

definition qsort :: "('a \<Rightarrow> 'a \<Rightarrow> int) \<Rightarrow> 'a list \<Rightarrow> 'a list" where
  "qsort cmp xs = foldr (qsort_insert cmp) xs []"

lemma parse_asn1_tag_len: "parse_asn1_tag c = (Some tag, c') \<Longrightarrow> cbs_len c' < cbs_len c"
  by (auto simp: parse_asn1_tag_def parse_base128_integer_def Let_def
      split: prod.splits option.splits if_splits
      dest!: CBS_get_u8_shrinks parse_base128_loop_len)

lemma get_any_element_shrinks:
  assumes "CBS_get_any_asn1_element c = (Some r, c')"
  shows "cbs_len c' < cbs_len c"
proof -
  have get: "cbs_len d' < cbs_len d" if "CBS_get_bytes d n = (Some out, d')" "0 < n" for d n out d'
    using that by (auto simp: CBS_get_bytes_def cbs_get_def split: if_splits)
  obtain tag h1 b h2 where h: "parse_asn1_tag c = (Some tag, h1)" "CBS_get_u8 h1 = (Some b, h2)"
    using assms
    by (auto simp: CBS_get_any_asn1_element_def cbs_get_any_asn1_element_def split: prod.splits option.splits)
  then have "cbs_len h2 < cbs_len c"
    by (auto dest!: parse_asn1_tag_len CBS_get_u8_shrinks)
  then have hl: "0 < CBS_len c - CBS_len h2" by (simp add: CBS_len_def)
  have pos: "0 < size_add n m" if "\<not> size_add n m < n" "128 \<le> n" for n m using that by linarith
  obtain n out where n: "CBS_get_bytes c n = (Some out, c')" "0 < n"
    using assms h hl
    by (auto simp: CBS_get_any_asn1_element_def cbs_get_any_asn1_element_def Let_def
        word_less_nat_alt split: prod.splits option.splits if_splits intro!: pos)
  then show ?thesis by (rule get)
qed

function parse_elements :: "cbs \<Rightarrow> cbs list option" where
  "parse_elements c =
     (if CBS_len c \<noteq> 0 then
        (case CBS_get_any_asn1_element c of
           (None, _) \<Rightarrow> None
         | (Some (out, _, _), c') \<Rightarrow>
             (case parse_elements c' of None \<Rightarrow> None | Some outs \<Rightarrow> Some (out # outs)))
      else Some [])"
  by pat_completeness auto
termination
  by (relation "measure cbs_len") (auto dest!: get_any_element_shrinks [OF sym])

declare parse_elements.simps [simp del]

fun add_elements :: "libc_malloc \<Rightarrow> cbb_mem \<Rightarrow> nat \<Rightarrow> cbs list \<Rightarrow> bool \<times> cbb_mem" where
  "add_elements libc st h [] = (True, st)"
| "add_elements libc st h (e # es) =
     (case CBB_add_bytes libc st h (CBS_data e) (CBS_len e) of
        (False, st1) \<Rightarrow> (False, st1)
      | (True, st1) \<Rightarrow> add_elements libc st1 h es)"

definition SIZEOF_CBS :: nat where
  "SIZEOF_CBS = 16"

text \<open>
  The first pass over the contents only counts the elements; the second one stores them. Both are
  \<open>parse_elements\<close>, first on the buffer and then on the copy \<open>buf\<close> of the contents.
\<close>

definition CBB_flush_asn1_set_of :: "libc_malloc \<Rightarrow> cbb_mem \<Rightarrow> nat \<Rightarrow> bool \<times> cbb_mem" where
  "CBB_flush_asn1_set_of libc st h =
     (case CBB_flush libc st h of
        (False, st1) \<Rightarrow> (False, st1)
      | (True, st1) \<Rightarrow>
     (case parse_elements (CBS_init (CBB_data st1 h) (CBB_len st1 h)) of
        None \<Rightarrow> (False, st1)
      | Some counted \<Rightarrow>
          (let num_children = length counted
           in if num_children < 2 then (True, st1)
              else if num_children > (SIZE_MOD - 1) div SIZEOF_CBS then (False, st1)
              else
                (let buf_len = CBB_len st1 h
                 in case OPENSSL_memdup libc (CBB_data st1 h) buf_len of
                      None \<Rightarrow> (False, st1)
                    | Some buf \<Rightarrow>
                (case OPENSSL_malloc libc (num_children * SIZEOF_CBS) of
                   None \<Rightarrow> (False, st1)
                 | Some _ \<Rightarrow>
                (case parse_elements (CBS_init buf buf_len) of
                   None \<Rightarrow> (False, st1)
                 | Some children \<Rightarrow>
                     add_elements libc
                       (st1\<lparr>base_len := cbb_offset (cbb_at st1 h) + pending_len_len (cbb_at st1 h)\<rparr>)
                       h (qsort compare_set_of_element children)))))))"

end
