(* ===== verification/Cbb_Writers.thy ===== *)
theory Cbb_Writers
  imports Cbb_Spec Cbb_Asn1
begin

text \<open>
  Every writer of \<open>cbb.c\<close> closes the open children of its \<open>CBB\<close> and appends a byte string to it.
  \<open>writes libc F op bs\<close> says so; \<open>F\<close> are addresses of structs the operation uses for itself. The
  combinators compose writers the way the code calls them one after another.
\<close>

section \<open>Composing results\<close>

lemma cbb_result_then:
  assumes r1: "cbb_result libc st hs spec1 r1"
    and step: "\<And>st1 fs1. spec1 = Some fs1 \<Longrightarrow> cbb_rep st1 hs fs1 \<Longrightarrow> cbb_objects st1 = cbb_objects st \<Longrightarrow>
        cbb_result libc st1 hs' (spec2 fs1) (f st1)"
    and grows: "\<And>fs1 fs2. spec1 = Some fs1 \<Longrightarrow> spec2 fs1 = Some fs2 \<Longrightarrow> length (layout fs1) \<le> length (layout fs2)"
  shows "cbb_result libc st hs' (Option.bind spec1 spec2)
           (case r1 of (False, st1) \<Rightarrow> (False, st1) | (True, st1) \<Rightarrow> f st1)"
proof (cases r1)
  case (Pair ok st1)
  show ?thesis
  proof (cases ok)
    case True
    with r1 Pair obtain fs1 where fs1: "spec1 = Some fs1" "cbb_rep st1 hs fs1" "base_cap st \<le> base_cap st1"
      "cbb_objects st1 = cbb_objects st" "can_resize st1 = can_resize st"
      by (auto simp: cbb_result_def)
    from step [OF fs1(1,2,4)] show ?thesis
      using fs1 Pair True by (auto simp: cbb_result_def split: prod.splits if_splits elim: outgrown_mono)
  next
    case False
    have "outgrown libc st (length (layout fs2))" if "Option.bind spec1 spec2 = Some fs2" for fs2
    proof -
      from that obtain fs1 where "spec1 = Some fs1" "spec2 fs1 = Some fs2" by (auto simp: bind_eq_Some_conv)
      with r1 Pair False grows [of fs1 fs2] show ?thesis by (auto simp: cbb_result_def elim: outgrown_mono)
    qed
    with r1 Pair False show ?thesis by (auto simp: cbb_result_def)
  qed
qed

section \<open>Appending to the last frame\<close>

lemma buffer_append:
  assumes rep: "cbb_rep st (ps @ [h]) (gs @ [(k, b)])" and len: "length ps = length gs"
    and libc: "libc_wf libc" and n: "length bs \<le> ADDRESS_SPACE" "n = length bs"
  shows "cbb_result libc st (ps @ [h]) (Some (gs @ [(k, b @ bs)]))
     (case cbb_buffer_add libc st h n of
        (None, st1) \<Rightarrow> (False, st1)
      | (Some d, st1) \<Rightarrow> (True, base_write st1 d bs))"
proof -
  note at = frame_at [OF rep len] note buf = cbb_rep_buf [OF rep]
  have h: "has_base (cbb_at st h)" using at by simp
  show ?thesis unfolding n(2)
  proof (rule cbb_buffer_add_cases [OF buf(1) h libc n(1)])
    assume "cbb_buffer_add libc st h (length bs) = (None, st\<lparr>base_error := True\<rparr>)"
      "outgrown libc st (base_len st + length bs)"
    then show "cbb_result libc st (ps @ [h]) (Some (gs @ [(k, b @ bs)]))
     (case cbb_buffer_add libc st h (length bs) of (None, st1) \<Rightarrow> (False, st1)
      | (Some d, st1) \<Rightarrow> (True, base_write st1 d bs))"
      using buf(3) by (simp add: cbb_result_def add.assoc)
  next
    fix s assume add: "cbb_buffer_add libc st h (length bs) = (Some (base_len st), s)" and s: "buf_ok s"
      "base_len s = base_len st + length bs" "base_cap st \<le> base_cap s"
      "take (base_len st) (valid_bytes s) = valid_bytes st" "cbb_at s = cbb_at st"
      "cbb_objects s = cbb_objects st" "can_resize s = can_resize st"
    have w: "buf_ok (base_write s (base_len st) bs)"
      "valid_bytes (base_write s (base_len st) bs) = valid_bytes st @ bs"
      using base_write_ok [OF s(1), of "base_len st" bs] s length_valid_bytes [OF s(1)]
      by (simp_all add: mem_write_def)
    have "chain_ok (base_write s (base_len st) bs) 0 (ps @ [h]) (gs @ [(k, b @ bs)]) None =
        chain_ok st 0 (ps @ [h]) (gs @ [(k, b @ bs)]) None"
      by (rule chain_ok_cong) (simp add: s)
    also have "\<dots>" using rep len by (simp add: cbb_rep_def chain_ok_append)
    finally have c: "chain_ok (base_write s (base_len st) bs) 0 (ps @ [h]) (gs @ [(k, b @ bs)]) None" .
    have "cbb_rep (base_write s (base_len st) bs) (ps @ [h]) (gs @ [(k, b @ bs)])"
      unfolding cbb_rep_def
    proof (intro conjI)
      show "frames_ok (gs @ [(k, b @ bs)])"
        using rep by (cases gs) (auto simp: cbb_rep_def frames_ok_def)
    qed (use w c rep s in \<open>simp_all add: cbb_rep_def\<close>)
    then show "cbb_result libc st (ps @ [h]) (Some (gs @ [(k, b @ bs)]))
     (case cbb_buffer_add libc st h (length bs) of (None, st1) \<Rightarrow> (False, st1)
      | (Some d, st1) \<Rightarrow> (True, base_write st1 d bs))"
      using add s by (simp add: cbb_result_def)
  qed
qed

lemma unat_div_pow: "n \<le> 8 \<Longrightarrow> unat (v :: u64) div 256 ^ n = 0 \<longleftrightarrow> unat v < 256 ^ n"
  by (simp add: div_eq_0_iff)

lemma buffer_add_u_append:
  assumes rep: "cbb_rep st (ps @ [h]) (gs @ [(k, b)])" and len: "length ps = length gs"
    and libc: "libc_wf libc" and n: "0 < n" "n \<le> 8" and v: "unat v < 256 ^ n"
  shows "cbb_result libc st (ps @ [h]) (Some (gs @ [(k, b @ be_bytes n (unat v))])) (cbb_buffer_add_u libc st h v n)"
proof -
  note at = frame_at [OF rep len] note buf = cbb_rep_buf [OF rep]
  have h: "has_base (cbb_at st h)" using at by simp
  have small: "n \<le> ADDRESS_SPACE" using n(2) by (simp add: ADDRESS_SPACE_def)
  have "cbb_buffer_add_u libc st h v n =
     (case cbb_buffer_add libc st h n of
        (None, st1) \<Rightarrow> (False, st1)
      | (Some d, st1) \<Rightarrow> (True, base_write st1 d (be_bytes n (unat v))))"
    by (rule cbb_buffer_add_cases [OF buf(1) h libc small])
      (use n v in \<open>simp_all add: cbb_buffer_add_u_def put_be_loop_eq\<close>)
  then show ?thesis
    using buffer_append [OF rep len libc, of "be_bytes n (unat v)" n] small by simp
qed

section \<open>Writers\<close>

type_synonym writer = "cbb_mem \<Rightarrow> nat \<Rightarrow> bool \<times> cbb_mem"

definition appended :: "frames \<Rightarrow> frame_kind \<Rightarrow> bytes \<Rightarrow> frames \<Rightarrow> bytes \<Rightarrow> frames option" where
  "appended gs k b ys bs = map_option (\<lambda>c. gs @ [(k, b @ c @ bs)]) (collapse ys)"

definition writes :: "libc_malloc \<Rightarrow> nat set \<Rightarrow> writer \<Rightarrow> bytes \<Rightarrow> bool" where
  "writes libc F op bs \<longleftrightarrow>
     (\<forall>st ps h qs gs k b ys.
        cbb_rep st (ps @ h # qs) (gs @ (k, b) # ys) \<and> length ps = length gs \<and>
        F \<inter> set (ps @ h # qs) = {} \<and> F \<subseteq> {..< cbb_objects st} \<longrightarrow>
        cbb_result libc st (ps @ [h]) (appended gs k b ys bs) (op st h))"

definition seq_writer :: "writer \<Rightarrow> writer \<Rightarrow> writer" where
  "seq_writer op1 op2 st h = (case op1 st h of (False, st1) \<Rightarrow> (False, st1) | (True, st1) \<Rightarrow> op2 st1 h)"

lemma writesD:
  "writes libc F op bs \<Longrightarrow> cbb_rep st (ps @ h # qs) (gs @ (k, b) # ys) \<Longrightarrow> length ps = length gs \<Longrightarrow>
   F \<inter> set (ps @ h # qs) = {} \<Longrightarrow> F \<subseteq> {..< cbb_objects st} \<Longrightarrow>
   cbb_result libc st (ps @ [h]) (appended gs k b ys bs) (op st h)"
  unfolding writes_def by blast

lemma writesD_last:
  "writes libc F op bs \<Longrightarrow> cbb_rep st (ps @ [h]) (gs @ [(k, b)]) \<Longrightarrow> length ps = length gs \<Longrightarrow>
   F \<inter> set (ps @ [h]) = {} \<Longrightarrow> F \<subseteq> {..< cbb_objects st} \<Longrightarrow>
   cbb_result libc st (ps @ [h]) (Some (gs @ [(k, b @ bs)])) (op st h)"
  using writesD [of libc F op bs st ps h "[]" gs k b "[]"] by (simp add: appended_def)

lemma writes_mono: "writes libc F op bs \<Longrightarrow> F \<subseteq> F' \<Longrightarrow> writes libc F' op bs"
  by (fastforce simp: writes_def)

lemma writes_flush: "libc_wf libc \<Longrightarrow> writes libc {} (CBB_flush libc) []"
  by (auto simp: writes_def appended_def intro: CBB_flush_result)

text \<open>An operation that flushes and then appends to its own frame.\<close>

lemma writes_after_flush:
  assumes libc: "libc_wf libc"
    and app: "\<And>st ps h gs k b. cbb_rep st (ps @ [h]) (gs @ [(k, b)]) \<Longrightarrow> length ps = length gs \<Longrightarrow>
        cbb_result libc st (ps @ [h]) (Some (gs @ [(k, b @ bs)])) (f st h)"
  shows "writes libc {} (\<lambda>st h. case CBB_flush libc st h of (False, st1) \<Rightarrow> (False, st1) | (True, st1) \<Rightarrow> f st1 h) bs"
  unfolding writes_def
proof (intro allI impI, elim conjE)
  fix st ps h qs gs k b ys
  assume rep: "cbb_rep st (ps @ h # qs) (gs @ (k, b) # ys)" and len: "length ps = length gs"
  let ?spec2 = "\<lambda>fs. Some (butlast fs @ [(fst (last fs), snd (last fs) @ bs)])"
  have app': "cbb_result libc st1 (ps @ [h]) (Some (gs @ [(k, b @ c @ bs)])) (f st1 h)"
    if "cbb_rep st1 (ps @ [h]) (gs @ [(k, b @ c)])" for st1 c
    using app [OF that len] by simp
  have "cbb_result libc st (ps @ [h]) (Option.bind (map_option (\<lambda>c. gs @ [(k, b @ c)]) (collapse ys)) ?spec2)
      (case CBB_flush libc st h of (False, st1) \<Rightarrow> (False, st1) | (True, st1) \<Rightarrow> f st1 h)"
    by (rule cbb_result_then [OF CBB_flush_result [OF rep len libc]])
      (use app' len in auto)
  moreover have "Option.bind (map_option (\<lambda>c. gs @ [(k, b @ c)]) (collapse ys)) ?spec2 = appended gs k b ys bs"
    by (cases "collapse ys") (simp_all add: appended_def)
  ultimately show "cbb_result libc st (ps @ [h]) (appended gs k b ys bs)
      (case CBB_flush libc st h of (False, st1) \<Rightarrow> (False, st1) | (True, st1) \<Rightarrow> f st1 h)" by simp
qed

lemma writes_seq:
  assumes w1: "writes libc F op1 bs1" and w2: "writes libc F op2 bs2"
  shows "writes libc F (seq_writer op1 op2) (bs1 @ bs2)"
  unfolding writes_def
proof (intro allI impI, elim conjE)
  fix st ps h qs gs k b ys
  assume rep: "cbb_rep st (ps @ h # qs) (gs @ (k, b) # ys)" and len: "length ps = length gs"
    and F: "F \<inter> set (ps @ h # qs) = {}" "F \<subseteq> {..< cbb_objects st}"
  let ?spec2 = "\<lambda>fs. Some (butlast fs @ [(fst (last fs), snd (last fs) @ bs2)])"
  have w2': "cbb_result libc st1 (ps @ [h]) (Some (gs @ [(k, b @ c @ bs1 @ bs2)])) (op2 st1 h)"
    if "cbb_rep st1 (ps @ [h]) (gs @ [(k, b @ c @ bs1)])" "cbb_objects st1 = cbb_objects st" for st1 c
    using writesD_last [OF w2 that(1) len] that(2) F by auto
  have "cbb_result libc st (ps @ [h]) (Option.bind (appended gs k b ys bs1) ?spec2) (seq_writer op1 op2 st h)"
    unfolding seq_writer_def
    by (rule cbb_result_then [OF writesD [OF w1 rep len F]])
      (use w2' in \<open>auto simp: appended_def\<close>)
  moreover have "Option.bind (appended gs k b ys bs1) ?spec2 = appended gs k b ys (bs1 @ bs2)"
    by (cases "collapse ys") (simp_all add: appended_def)
  ultimately show "cbb_result libc st (ps @ [h]) (appended gs k b ys (bs1 @ bs2)) (seq_writer op1 op2 st h)" by simp
qed

lemma writes_bytes:
  assumes "libc_wf libc" and "n \<le> length data" and "n \<le> ADDRESS_SPACE"
  shows "writes libc {} (\<lambda>st h. CBB_add_bytes libc st h data n) (take n data)"
  unfolding CBB_add_bytes_def
  by (rule writes_after_flush [OF assms(1)], rule buffer_append) (use assms in \<open>auto simp: min_absorb2\<close>)

lemma writes_add_u:
  assumes "libc_wf libc" and "0 < n" "n \<le> 8" "unat v < 256 ^ n"
  shows "writes libc {} (\<lambda>st h. flush_add_u libc st h v n) (be_bytes n (unat v))"
  unfolding flush_add_u_def
  by (rule writes_after_flush [OF assms(1)], rule buffer_add_u_append) (use assms in auto)


text \<open>The fixed-width writers. The 24-bit one reports a value that does not fit.\<close>

lemma unat_ucast_up: "LENGTH('b) \<le> LENGTH('a) \<Longrightarrow> unat (ucast (v :: 'b :: len word) :: 'a :: len word) = unat v"
  by (simp add: unsigned_ucast_eq take_bit_nat_eq_self less_le_trans [OF unsigned_less] power_increasing)

lemma word_size_less:
  "unat (a :: u8) < 256 ^ 1" "unat (b :: u16) < 256 ^ 2" "unat (c :: u32) < 256 ^ 4" "unat (d :: u64) < 256 ^ 8"
  using unsigned_less [of a, where ?'a = nat] unsigned_less [of b, where ?'a = nat]
    unsigned_less [of c, where ?'a = nat] unsigned_less [of d, where ?'a = nat] by simp_all

named_theorems writer_intros "what the writers of cbb.c append"

lemma writes_words [writer_intros]:
  assumes "libc_wf libc"
  shows "writes libc {} (\<lambda>st h. CBB_add_u8 libc st h a) [a]"
    and "writes libc {} (\<lambda>st h. CBB_add_u16 libc st h b) (be_bytes 2 (unat b))"
    and "writes libc {} (\<lambda>st h. CBB_add_u32 libc st h c) (be_bytes 4 (unat c))"
    and "writes libc {} (\<lambda>st h. CBB_add_u64 libc st h d) (be_bytes 8 (unat d))"
    and "unat e < 2 ^ 24 \<Longrightarrow> writes libc {} (\<lambda>st h. CBB_add_u24 libc st h e) (be_bytes 3 (unat e))"
  using writes_add_u [OF assms, of 1 "ucast a"] writes_add_u [OF assms, of 2 "ucast b"]
    writes_add_u [OF assms, of 4 "ucast c"] writes_add_u [OF assms, of 8 d]
    writes_add_u [OF assms, of 3 "ucast e"] word_size_less(1) [of a] word_size_less(2) [of b] word_size_less(3) [of c]
    word_size_less(4) [of d]
  by (simp_all add: CBB_add_u8_def CBB_add_u16_def CBB_add_u24_def CBB_add_u32_def CBB_add_u64_def
      unat_ucast_up numeral_eq_Suc [symmetric] del: of_nat_add)

section \<open>Children\<close>

lemma attach_rep:
  assumes rep: "cbb_rep st (ps @ [h]) (gs @ [(k, b @ replicate n 0)])" and len: "length ps = length gs"
    and ch: "ch \<notin> set (ps @ [h])" "ch < cbb_objects st" and n: "0 < n"
    and k1: "prefix_len k1 = n" "asn1 = (k1 = Asn1)"
    and off: "off = length (layout (gs @ [(k, b)]))"
  shows "cbb_rep (attach_child st h ch off n asn1) (ps @ [h, ch]) (gs @ [(k, b), (k1, [])])" (is "cbb_rep ?s _ _")
proof -
  note at = frame_at [OF rep len]
  have ne: "k1 \<noteq> Top" using k1(1) n by (cases k1) auto
  have fields: "base_bytes ?s = base_bytes st" "valid_bytes ?s = valid_bytes st" "buf_ok ?s = buf_ok st"
    "cbb_objects ?s = cbb_objects st"
    by (simp_all add: attach_child_def)
  have "chain_ok st 0 ps gs (Some h)" using rep len by (simp add: cbb_rep_def chain_ok_append)
  moreover have "chain_ok st 0 ps gs (Some h) = chain_ok ?s 0 ps gs (Some h)"
    by (rule chain_ok_cong) (use ch rep in \<open>auto simp: attach_child_def cbb_rep_def\<close>)
  ultimately have "chain_ok ?s 0 (ps @ [h, ch]) (gs @ [(k, b), (k1, [])]) None"
    using len at ch off k1 ne by (simp add: chain_ok_append attach_child_def zero_cbb_def)
  moreover have "frames_ok (gs @ [(k, b), (k1, [])])"
    using rep n k1 by (cases gs) (auto simp: cbb_rep_def frames_ok_def)
  ultimately show ?thesis
    using rep ch k1 unfolding cbb_rep_def fields by auto
qed

text \<open>Opening a child: the parent has the bytes in front of it, the child is empty.\<close>

definition opened :: "frames \<Rightarrow> frame_kind \<Rightarrow> bytes \<Rightarrow> frames \<Rightarrow> bytes \<Rightarrow> frame_kind \<Rightarrow> frames option" where
  "opened gs k b ys bs k1 = map_option (\<lambda>c. gs @ [(k, b @ c @ bs), (k1, [])]) (collapse ys)"

lemma cbb_result_attach:
  assumes r: "cbb_result libc st (ps @ [h]) (appended gs k b ys (bs @ replicate n 0)) (ok, st1)"
    and len: "length ps = length gs" and ch: "ch \<notin> set (ps @ [h])" "ch < cbb_objects st"
    and n: "0 < n" "prefix_len k1 = n" "asn1 = (k1 = Asn1)"
    and off: "ok \<Longrightarrow> off = base_len st1 - n"
  shows "cbb_result libc st (ps @ [h, ch]) (opened gs k b ys bs k1)
           (if ok then (True, attach_child st1 h ch off n asn1) else (False, st1))"
proof (cases ok)
  case False
  with r show ?thesis
    by (auto simp: cbb_result_def appended_def opened_def n(2))
next
  case True
  with r obtain c where c: "collapse ys = Some c"
    and rep: "cbb_rep st1 (ps @ [h]) (gs @ [(k, (b @ c @ bs) @ replicate n 0)])"
    and m: "base_cap st \<le> base_cap st1" "cbb_objects st1 = cbb_objects st" "can_resize st1 = can_resize st"
    by (auto simp: cbb_result_def appended_def)
  have o: "off = length (layout (gs @ [(k, b @ c @ bs)]))"
    using off [OF True] cbb_rep_buf(3) [OF rep] by simp
  have "cbb_rep (attach_child st1 h ch off n asn1) (ps @ [h, ch]) (gs @ [(k, b @ c @ bs), (k1, [])])"
    by (rule attach_rep [OF rep len ch(1) _ n(1) n(2) n(3) o]) (use ch m in simp)
  then show ?thesis using c m True by (simp add: cbb_result_def opened_def attach_child_def)
qed

text \<open>A child that is opened, written and flushed by its parent.\<close>

lemma writes_child:
  assumes open_ok: "\<And>st ps h qs gs k b ys.
      cbb_rep st (ps @ h # qs) (gs @ (k, b) # ys) \<Longrightarrow> length ps = length gs \<Longrightarrow>
      ch \<notin> set (ps @ h # qs) \<Longrightarrow> ch < cbb_objects st \<Longrightarrow>
      cbb_result libc st (ps @ [h, ch]) (opened gs k b ys pre k1) (opn st h)"
    and inner: "writes libc F inner body" and libc: "libc_wf libc" and F: "ch \<notin> F"
    and fits: "close_frame k1 body = Some c1"
  shows "writes libc (insert ch F)
     (\<lambda>st h. case opn st h of (False, st1) \<Rightarrow> (False, st1)
             | (True, st1) \<Rightarrow> (case inner st1 ch of (False, st2) \<Rightarrow> (False, st2)
                               | (True, st2) \<Rightarrow> CBB_flush libc st2 h)) (pre @ c1)"
  unfolding writes_def
proof (intro allI impI, elim conjE)
  fix st ps h qs gs k b ys
  assume rep: "cbb_rep st (ps @ h # qs) (gs @ (k, b) # ys)" and len: "length ps = length gs"
    and F': "insert ch F \<inter> set (ps @ h # qs) = {}" "insert ch F \<subseteq> {..< cbb_objects st}"
  have c1: "length body + prefix_len k1 \<le> length c1" using close_frame_length [OF fits] by simp
  have in1: "cbb_result libc st1 (ps @ [h, ch]) (Some (gs @ [(k, b @ c @ pre), (k1, body)])) (inner st1 ch)"
    if "cbb_rep st1 (ps @ [h, ch]) (gs @ [(k, b @ c @ pre), (k1, [])])" "cbb_objects st1 = cbb_objects st" for st1 c
    using writesD_last [OF inner, of st1 "ps @ [h]" ch "gs @ [(k, b @ c @ pre)]" k1 "[]"] that len F F' by auto
  have fl: "cbb_result libc st1 (ps @ [h]) (Some (gs @ [(k, b @ c @ pre @ c1)])) (CBB_flush libc st1 h)"
    if "cbb_rep st1 (ps @ [h, ch]) (gs @ [(k, b @ c @ pre), (k1, body)])" for st1 c
    using CBB_flush_result [of st1 ps h "[ch]" gs k "b @ c @ pre" "[(k1, body)]" libc] that len libc fits by simp
  let ?s2 = "\<lambda>fs. Some (butlast fs @ [(k1, body)])"
  let ?s3 = "\<lambda>fs. Some (butlast (butlast fs) @ [(k, snd (last (butlast fs)) @ c1)])"
  have step: "cbb_result libc st1 (ps @ [h]) (Option.bind (?s2 fs) ?s3)
      (case inner st1 ch of (False, st2) \<Rightarrow> (False, st2) | (True, st2) \<Rightarrow> CBB_flush libc st2 h)"
    if "opened gs k b ys pre k1 = Some fs" "cbb_rep st1 (ps @ [h, ch]) fs" "cbb_objects st1 = cbb_objects st" for st1 fs
  proof -
    from that obtain c where c: "collapse ys = Some c" "fs = gs @ [(k, b @ c @ pre), (k1, [])]"
      by (auto simp: opened_def)
    have "cbb_result libc st1 (ps @ [h, ch]) (?s2 fs) (inner st1 ch)"
      using in1 that c by (simp add: butlast_append)
    then show ?thesis
      by (rule cbb_result_then) (use c fl c1 in \<open>auto simp: butlast_append\<close>)
  qed
  have "cbb_result libc st (ps @ [h]) (Option.bind (opened gs k b ys pre k1) (\<lambda>fs. Option.bind (?s2 fs) ?s3))
     (case opn st h of (False, st1) \<Rightarrow> (False, st1)
             | (True, st1) \<Rightarrow> (case inner st1 ch of (False, st2) \<Rightarrow> (False, st2)
                               | (True, st2) \<Rightarrow> CBB_flush libc st2 h))"
    by (rule cbb_result_then [OF open_ok [OF rep len]])
      (use F' step c1 in \<open>auto simp: opened_def butlast_append\<close>)
  moreover have "Option.bind (opened gs k b ys pre k1) (\<lambda>fs. Option.bind (?s2 fs) ?s3) =
      appended gs k b ys (pre @ c1)"
    by (cases "collapse ys") (simp_all add: opened_def appended_def butlast_append)
  ultimately show "cbb_result libc st (ps @ [h]) (appended gs k b ys (pre @ c1))
     (case opn st h of (False, st1) \<Rightarrow> (False, st1)
             | (True, st1) \<Rightarrow> (case inner st1 ch of (False, st2) \<Rightarrow> (False, st2)
                               | (True, st2) \<Rightarrow> CBB_flush libc st2 h))" by simp
qed

lemma length_prefixed_result:
  assumes rep: "cbb_rep st (ps @ h # qs) (gs @ (k, b) # ys)" and len: "length ps = length gs"
    and libc: "libc_wf libc" and n: "0 < n" "n \<le> 3"
    and ch: "ch \<notin> set (ps @ h # qs)" "ch < cbb_objects st"
  shows "cbb_result libc st (ps @ [h, ch]) (opened gs k b ys [] (Prefixed n)) (cbb_add_length_prefixed libc st h ch n)"
proof -
  define op where "op = (\<lambda>st h. case CBB_flush libc st h of (False, st1) \<Rightarrow> (False, st1)
      | (True, st1) \<Rightarrow> (case cbb_buffer_add libc st1 h n of (None, st2) \<Rightarrow> (False, st2)
                        | (Some d, st2) \<Rightarrow> (True, base_write st2 d (replicate n 0))))"
  have "writes libc {} op (replicate n 0)"
    unfolding op_def
    by (rule writes_after_flush [OF libc], rule buffer_append)
      (use libc n in \<open>auto simp: ADDRESS_SPACE_def\<close>)
  then have r: "cbb_result libc st (ps @ [h]) (appended gs k b ys ([] @ replicate n 0)) (op st h)"
    using rep len by (auto dest: writesD)
  obtain ok st1 where op: "op st h = (ok, st1)" by fastforce
  have off: "base_len s1 = base_len s2 - n"
    if "cbb_buffer_add libc s1 h n = (Some d, s2)" for s1 s2 d
    using that by (auto simp: cbb_buffer_add_def cbb_buffer_reserve_def Let_def split: prod.splits option.splits if_splits)
  have len1: "cbb_add_length_prefixed libc st h ch n =
      (if ok then (True, attach_child st1 h ch (base_len st1 - n) n False) else (False, st1))"
    using op off unfolding op_def cbb_add_length_prefixed_def Let_def
    by (auto split: prod.splits bool.splits option.splits)
  show ?thesis unfolding len1
    by (rule cbb_result_attach [OF r [unfolded op] len]) (use ch n in auto)
qed


section \<open>Sequences of bytes\<close>

lemma writes_nil: "libc_wf libc \<Longrightarrow> writes libc {} (\<lambda>st h. CBB_add_bytes libc st h [] 0) []"
  using writes_bytes [of libc 0 "[]"] by simp

text \<open>
  Loops of \<open>CBB_add_u8\<close> append their bytes in turn. They may append nothing and then do not even
  flush, so the statement is about a frame without open children, or about at least one byte.
\<close>

definition writes_here :: "libc_malloc \<Rightarrow> writer \<Rightarrow> bytes \<Rightarrow> bool" where
  "writes_here libc op bs \<longleftrightarrow>
     (\<forall>st ps h gs k b. cbb_rep st (ps @ [h]) (gs @ [(k, b)]) \<and> length ps = length gs \<longrightarrow>
        cbb_result libc st (ps @ [h]) (Some (gs @ [(k, b @ bs)])) (op st h))"

lemma writes_hereD:
  "writes_here libc op bs \<Longrightarrow> cbb_rep st (ps @ [h]) (gs @ [(k, b)]) \<Longrightarrow> length ps = length gs \<Longrightarrow>
   cbb_result libc st (ps @ [h]) (Some (gs @ [(k, b @ bs)])) (op st h)"
  unfolding writes_here_def by blast

lemma writes_here_return: "writes_here libc (\<lambda>st h. (True, st)) []"
  by (auto simp: writes_here_def cbb_result_def)

lemma writes_imp_here: "writes libc {} op bs \<Longrightarrow> writes_here libc op bs"
  unfolding writes_here_def using writesD_last by blast

lemma writes_then_here:
  assumes w1: "writes libc {} op1 bs1" and w2: "writes_here libc op2 bs2"
  shows "writes libc {} (seq_writer op1 op2) (bs1 @ bs2)"
  unfolding writes_def
proof (intro allI impI, elim conjE)
  fix st ps h qs gs k b ys
  assume rep: "cbb_rep st (ps @ h # qs) (gs @ (k, b) # ys)" and len: "length ps = length gs"
  let ?spec2 = "\<lambda>fs. Some (butlast fs @ [(fst (last fs), snd (last fs) @ bs2)])"
  have w2': "cbb_result libc st1 (ps @ [h]) (Some (gs @ [(k, b @ c @ bs1 @ bs2)])) (op2 st1 h)"
    if "cbb_rep st1 (ps @ [h]) (gs @ [(k, b @ c @ bs1)])" for st1 c
    using writes_hereD [OF w2 that len] by simp
  have "cbb_result libc st (ps @ [h]) (Option.bind (appended gs k b ys bs1) ?spec2) (seq_writer op1 op2 st h)"
    unfolding seq_writer_def
    by (rule cbb_result_then [OF writesD [OF w1 rep len]]) (use w2' in \<open>auto simp: appended_def\<close>)
  moreover have "Option.bind (appended gs k b ys bs1) ?spec2 = appended gs k b ys (bs1 @ bs2)"
    by (cases "collapse ys") (simp_all add: appended_def)
  ultimately show "cbb_result libc st (ps @ [h]) (appended gs k b ys (bs1 @ bs2)) (seq_writer op1 op2 st h)" by simp
qed

lemma here_then_here:
  assumes w1: "writes_here libc op1 bs1" and w2: "writes_here libc op2 bs2"
  shows "writes_here libc (seq_writer op1 op2) (bs1 @ bs2)"
  unfolding writes_here_def
proof (intro allI impI, elim conjE)
  fix st ps h gs k b
  assume rep: "cbb_rep st (ps @ [h]) (gs @ [(k, b)])" and len: "length ps = length gs"
  have "cbb_result libc st (ps @ [h]) (Option.bind (Some (gs @ [(k, b @ bs1)]))
      (\<lambda>fs. Some (gs @ [(k, b @ bs1 @ bs2)]))) (seq_writer op1 op2 st h)"
    unfolding seq_writer_def
    by (rule cbb_result_then [OF writes_hereD [OF w1 rep len]])
      (use writes_hereD [OF w2 _ len, of _ h k "b @ bs1"] in auto)
  then show "cbb_result libc st (ps @ [h]) (Some (gs @ [(k, b @ bs1 @ bs2)])) (seq_writer op1 op2 st h)" by simp
qed

lemma here_add_u8: "libc_wf libc \<Longrightarrow> writes_here libc (\<lambda>st h. CBB_add_u8 libc st h a) [a]"
  by (intro writes_imp_here writes_words)

section \<open>Base-128 integers\<close>

text \<open>The bytes for the groups \<open>i - 1\<close> down to 0.\<close>

fun b128_groups :: "nat \<Rightarrow> nat \<Rightarrow> bytes" where
  "b128_groups n 0 = []"
| "b128_groups n (Suc i) =
     word_of_nat (n div 128 ^ i mod 128 + (if i \<noteq> 0 then 128 else 0)) # b128_groups n i"

lemma b128_groups_high:
  "b128_high (n div 128 ^ Suc i) @ b128_groups n (Suc i) = b128 n \<or> n div 128 ^ i = 0 \<and> i \<noteq> 0"
proof (induction i)
  case 0
  show ?case by (simp add: b128_def)
next
  case (Suc i)
  show ?case
  proof (cases "n div 128 ^ Suc i = 0")
    case False
    then have "n div 128 ^ i \<noteq> 0" by (auto simp: div_eq_0_iff)
    with Suc have IH: "b128_high (n div 128 ^ Suc i) @ b128_groups n (Suc i) = b128 n" by simp
    have q: "n div 128 ^ Suc i div 128 = n div 128 ^ Suc (Suc i)"
      by (simp add: div_mult2_eq [symmetric] mult.commute)
    have "b128_high (n div 128 ^ Suc i) =
        b128_high (n div 128 ^ Suc (Suc i)) @ [word_of_nat (128 + n div 128 ^ Suc i mod 128)]"
      using b128_high_step [OF False] unfolding q .
    then show ?thesis using IH by (simp add: add.commute del: of_nat_add power_Suc)
  qed simp
qed

lemma b128_groups_eq:
  assumes "n div 128 ^ m = 0" and "m = 1 \<or> n div 128 ^ (m - 1) \<noteq> 0" and "0 < m"
  shows "b128_groups n m = b128 n"
proof -
  obtain i where m: "m = Suc i" using assms(3) by (cases m) auto
  from b128_groups_high [of n i] assms show ?thesis by (auto simp: m)
qed

lemma drop_bit_7_unat: "unat (drop_bit 7 (v :: u64)) = unat v div 128"
  by (simp only: unat_drop_bit_eq) (simp add: drop_bit_eq_div)

lemma base128_len_spec:
  "unat v div 128 ^ base128_len v = 0 \<and>
   (v \<noteq> 0 \<longrightarrow> 0 < base128_len v \<and> unat v div 128 ^ (base128_len v - 1) \<noteq> 0)"
proof (induction v rule: base128_len.induct)
  case (1 v)
  show ?case
  proof (cases "v = 0")
    case True
    then show ?thesis by (simp add: base128_len.simps)
  next
    case False
    let ?w = "drop_bit 7 v"
    have l: "base128_len v = Suc (base128_len ?w)" using False by (subst base128_len.simps) simp
    note IH = "1.IH" [OF False, unfolded drop_bit_7_unat]
    have "unat v div 128 ^ base128_len v = 0"
      using IH unfolding l by (simp add: div_mult2_eq)
    moreover have "unat v div 128 ^ base128_len ?w \<noteq> 0"
    proof (cases "?w = 0")
      case True
      then show ?thesis using False by (simp add: base128_len.simps [of 0] unat_eq_zero)
    next
      case w: False
      with IH have p: "0 < base128_len ?w" "unat v div 128 div 128 ^ (base128_len ?w - 1) \<noteq> 0" by auto
      then obtain m where m: "base128_len ?w = Suc m" by (cases "base128_len ?w") auto
      with p(2) have "unat v div 128 ^ Suc m \<noteq> 0" by (simp only: diff_Suc_1 power_Suc div_mult2_eq) simp
      then show ?thesis unfolding m .
    qed
    ultimately show ?thesis by (simp add: l)
  qed
qed

lemma group_byte:
  "(if i \<noteq> 0 then ucast (drop_bit (7 * i) (v :: u64) AND 0x7f) OR 0x80 else ucast (drop_bit (7 * i) v AND 0x7f)) =
   (word_of_nat (unat v div 128 ^ i mod 128 + (if i \<noteq> 0 then 128 else 0)) :: u8)"
proof -
  have "unat (drop_bit (7 * i) v) = unat v div 128 ^ i"
    by (simp only: unat_drop_bit_eq) (simp add: drop_bit_eq_div power_mult)
  then have u: "unat (drop_bit (7 * i) v AND 0x7f) = unat v div 128 ^ i mod 128"
    using unat_and_mask [of "drop_bit (7 * i) v" 7] by (simp add: mask_eq_exp_minus_1)
  define m where "m = unat v div 128 ^ i mod 128"
  have m: "m < 128" by (simp add: m_def)
  have c: "ucast (drop_bit (7 * i) v AND 0x7f) = (word_of_nat m :: u8)"
    by (rule word_of_natI) (use m in \<open>simp only: unsigned_ucast_eq u m_def [symmetric], simp add: take_bit_nat_eq_self\<close>)
  have "(word_of_nat m :: u8) OR 0x80 = word_of_nat (m + 128)"
  proof (rule word_of_natI)
    have "unat (push_bit 7 1 OR (word_of_nat m :: u8)) = unat (1 :: u8) * 2 ^ 7 + unat (word_of_nat m :: u8)"
      by (rule unat_push_or) (use m in \<open>simp_all add: unat_of_nat\<close>)
    then show "unat ((word_of_nat m :: u8) OR 0x80) = m + 128"
      using m by (simp add: unat_of_nat or.commute)
  qed
  then show ?thesis unfolding c m_def [symmetric] by simp
qed

lemma here_base128_loop:
  "libc_wf libc \<Longrightarrow> writes_here libc (\<lambda>st h. add_base128_loop libc st h v i) (b128_groups (unat v) i)"
proof (induction i)
  case 0
  then show ?case using writes_here_return by simp
next
  case (Suc i)
  let ?a = "word_of_nat (unat v div 128 ^ i mod 128 + (if i \<noteq> 0 then 128 else 0)) :: u8"
  have "(\<lambda>st h. add_base128_loop libc st h v (Suc i)) =
     seq_writer (\<lambda>st h. CBB_add_u8 libc st h ?a) (\<lambda>st h. add_base128_loop libc st h v i)"
    unfolding add_base128_loop.simps Let_def group_byte seq_writer_def ..
  then show ?case
    using here_then_here [OF here_add_u8 [OF Suc.prems, of ?a] Suc.IH [OF Suc.prems]] by simp
qed

lemma writes_base128 [writer_intros]:
  assumes "libc_wf libc"
  shows "writes libc {} (\<lambda>st h. add_base128_integer libc st h v) (b128 (unat v))"
proof -
  define m where "m = (if base128_len v = 0 then 1 else base128_len v)"
  have "unat v div 128 ^ m = 0" "m = 1 \<or> unat v div 128 ^ (m - 1) \<noteq> 0" "0 < m"
    using base128_len_spec [of v] by (auto simp: m_def base128_len.simps [of 0])
  then have g: "b128_groups (unat v) m = b128 (unat v)" by (rule b128_groups_eq)
  obtain i where i: "m = Suc i" using \<open>0 < m\<close> by (cases m) auto
  let ?a = "word_of_nat (unat v div 128 ^ i mod 128 + (if i \<noteq> 0 then 128 else 0)) :: u8"
  have op: "(\<lambda>st h. add_base128_integer libc st h v) =
     seq_writer (\<lambda>st h. CBB_add_u8 libc st h ?a) (\<lambda>st h. add_base128_loop libc st h v i)"
    unfolding add_base128_integer_def m_def [symmetric] i Let_def add_base128_loop.simps group_byte seq_writer_def ..
  show ?thesis
    unfolding op using writes_then_here [OF writes_words(1) [OF assms, of ?a] here_base128_loop [OF assms, of v i]]
    by (simp add: g [unfolded i, symmetric])
qed


section \<open>ASN.1 elements\<close>

lemma writes_asn1_tag:
  assumes "libc_wf libc"
  shows "writes libc {} (\<lambda>st h. add_asn1_tag libc st h tag) (der_tag tag)"
proof (cases "0x1f \<le> unat (tag_num tag)")
  case True
  have u: "unat (ucast (tag_num tag) :: u64) = unat (tag_num tag)" by (rule unat_ucast_up) simp
  have "(\<lambda>st h. add_asn1_tag libc st h tag) =
      seq_writer (\<lambda>st h. CBB_add_u8 libc st h (tag_lead tag OR 0x1f))
        (\<lambda>st h. add_base128_integer libc st h (ucast (tag_num tag)))"
    using True
    by (simp add: fun_eq_iff add_asn1_tag_def seq_writer_def Let_def tag_lead_def tag_num_def
        CBS_ASN1_TAG_SHIFT_def word_le_nat_alt)
  then show ?thesis
    using writes_seq [OF writes_words(1) [OF assms, of "tag_lead tag OR 0x1f"]
        writes_base128 [OF assms, of "ucast (tag_num tag)"]] True
    by (simp add: der_tag_def u)
next
  case False
  then have "(\<lambda>st h. add_asn1_tag libc st h tag) =
      (\<lambda>st h. CBB_add_u8 libc st h (tag_lead tag OR ucast (tag_num tag)))"
    by (simp add: fun_eq_iff add_asn1_tag_def Let_def tag_lead_def tag_num_def
        CBS_ASN1_TAG_SHIFT_def word_le_nat_alt)
  then show ?thesis using writes_words(1) [OF assms] False by (simp add: der_tag_def)
qed

lemma flush_add_u8_len:
  "cbb_rep st (ps @ [h]) (gs @ [(k, b)]) \<Longrightarrow> length ps = length gs \<Longrightarrow> libc_wf libc \<Longrightarrow>
   CBB_add_u8 libc st h a = (True, st') \<Longrightarrow> base_len st' - 1 = base_len st"
  using writes_hereD [OF here_add_u8, of libc st ps h gs k b a]
  by (auto simp: cbb_result_def cbb_rep_buf(3))

lemma add_asn1_result:
  assumes rep: "cbb_rep st (ps @ h # qs) (gs @ (k, b) # ys)" and len: "length ps = length gs"
    and libc: "libc_wf libc" and ch: "ch \<notin> set (ps @ h # qs)" "ch < cbb_objects st"
  shows "cbb_result libc st (ps @ [h, ch]) (opened gs k b ys (der_tag tag) Asn1) (CBB_add_asn1 libc st h ch tag)"
proof -
  define op where "op = seq_writer (CBB_flush libc)
     (seq_writer (\<lambda>st h. add_asn1_tag libc st h tag) (\<lambda>st h. CBB_add_u8 libc st h 0))"
  have "writes libc {} op ([] @ der_tag tag @ [0])"
    unfolding op_def
    by (intro writes_seq writes_flush writes_asn1_tag writes_words libc)
  then have r: "cbb_result libc st (ps @ [h]) (appended gs k b ys (der_tag tag @ replicate 1 0)) (op st h)"
    using rep len by (auto dest: writesD)
  obtain ok st1 where op: "op st h = (ok, st1)" by fastforce
  have "writes libc {} (seq_writer (CBB_flush libc) (\<lambda>st h. add_asn1_tag libc st h tag)) ([] @ der_tag tag)"
    by (intro writes_seq writes_flush writes_asn1_tag libc)
  then have r2: "cbb_result libc st (ps @ [h]) (appended gs k b ys (der_tag tag))
      (seq_writer (CBB_flush libc) (\<lambda>st h. add_asn1_tag libc st h tag) st h)"
    using rep len by (auto dest: writesD)
  have "CBB_add_asn1 libc st h ch tag =
      (if ok then (True, attach_child st1 h ch (base_len st1 - 1) 1 True) else (False, st1))"
  proof (cases "seq_writer (CBB_flush libc) (\<lambda>st h. add_asn1_tag libc st h tag) st h")
    case (Pair ok2 st2)
    show ?thesis
    proof (cases ok2)
      case False
      then show ?thesis using op Pair
        unfolding op_def CBB_add_asn1_def seq_writer_def by (auto split: prod.splits bool.splits)
    next
      case True
      with r2 Pair obtain c where "cbb_rep st2 (ps @ [h]) (gs @ [(k, b @ c @ der_tag tag)])"
        by (auto simp: cbb_result_def appended_def)
      from flush_add_u8_len [OF this len libc, of 0] show ?thesis using op Pair True
        unfolding op_def CBB_add_asn1_def seq_writer_def Let_def by (auto split: prod.splits bool.splits)
    qed
  qed
  then show ?thesis
    using cbb_result_attach [OF r [unfolded op] len, of ch Asn1 True "base_len st1 - 1"] ch by auto
qed

lemma writes_element:
  assumes libc: "libc_wf libc" and inner: "writes libc F inner body" and F: "ch \<notin> F"
    and fits: "length body \<le> 0xfffffffe"
  shows "writes libc (insert ch F)
     (\<lambda>st h. case CBB_add_asn1 libc st h ch tag of (False, st1) \<Rightarrow> (False, st1)
             | (True, st1) \<Rightarrow> (case inner st1 ch of (False, st2) \<Rightarrow> (False, st2)
                               | (True, st2) \<Rightarrow> CBB_flush libc st2 h)) (der tag body)"
  unfolding der_def
  by (rule writes_child [OF add_asn1_result [OF _ _ libc] inner libc F]) (use fits in auto)

lemma writes_length_prefixed:
  assumes libc: "libc_wf libc" and inner: "writes libc F inner body" and F: "ch \<notin> F"
    and n: "0 < n" "n \<le> 3" and fits: "length body < 256 ^ n"
  shows "writes libc (insert ch F)
     (\<lambda>st h. case cbb_add_length_prefixed libc st h ch n of (False, st1) \<Rightarrow> (False, st1)
             | (True, st1) \<Rightarrow> (case inner st1 ch of (False, st2) \<Rightarrow> (False, st2)
                               | (True, st2) \<Rightarrow> CBB_flush libc st2 h)) (be_bytes n (length body) @ body)"
proof -
  have "writes libc (insert ch F)
     (\<lambda>st h. case cbb_add_length_prefixed libc st h ch n of (False, st1) \<Rightarrow> (False, st1)
             | (True, st1) \<Rightarrow> (case inner st1 ch of (False, st2) \<Rightarrow> (False, st2)
                               | (True, st2) \<Rightarrow> CBB_flush libc st2 h)) ([] @ be_bytes n (length body) @ body)"
    by (rule writes_child [OF length_prefixed_result [OF _ _ libc n] inner libc F]) (use fits in auto)
  then show ?thesis by simp
qed

lemma writes_octet_string [writer_intros]:
  assumes "libc_wf libc" and "n \<le> length data" and "n \<le> 0xfffffffe"
  shows "writes libc {ch} (\<lambda>st h. CBB_add_asn1_octet_string libc ch st h data n)
           (der CBS_ASN1_OCTETSTRING (take n data))"
  unfolding CBB_add_asn1_octet_string_def
  by (rule writes_element [OF assms(1) writes_bytes [OF assms(1,2)]])
    (use assms in \<open>auto simp: ADDRESS_SPACE_def\<close>)

lemma writes_bool [writer_intros]:
  assumes "libc_wf libc"
  shows "writes libc {ch} (\<lambda>st h. CBB_add_asn1_bool libc ch st h v) (der CBS_ASN1_BOOLEAN [if v \<noteq> 0 then 0xff else 0])"
  unfolding CBB_add_asn1_bool_def
  by (rule writes_element [OF assms writes_words(1) [OF assms]]) simp_all

section \<open>Integers\<close>

lemma here_after_case:
  "writes_here libc (\<lambda>st h. case op1 st h of (False, st1) \<Rightarrow> (False, st1) | (True, st1) \<Rightarrow> op2 st1 h) bs \<longleftrightarrow>
   writes_here libc (seq_writer op1 op2) bs"
  by (simp add: seq_writer_def [abs_def])

text \<open>The end of the loop: a zero was not started and is written as one byte.\<close>

definition uint64_end :: "libc_malloc \<Rightarrow> bool option \<times> cbb_mem \<Rightarrow> nat \<Rightarrow> bool \<times> cbb_mem" where
  "uint64_end libc r ch =
     (case r of (None, st) \<Rightarrow> (False, st)
      | (Some started, st) \<Rightarrow> if \<not> started then CBB_add_u8 libc st ch 0 else (True, st))"

definition value_byte :: "u64 \<Rightarrow> nat \<Rightarrow> u8" where
  "value_byte v i = ucast (drop_bit (8 * (7 - i)) v AND 0xff)"

lemma here_uint64_started:
  assumes "libc_wf libc"
  shows "writes_here libc (\<lambda>st ch. uint64_end libc (add_asn1_uint64_loop libc st ch v idx True) ch) (map (value_byte v) idx)"
proof (induction idx)
  case Nil
  then show ?case using writes_here_return by (simp add: uint64_end_def)
next
  case (Cons i idx)
  have "(\<lambda>st ch. uint64_end libc (add_asn1_uint64_loop libc st ch v (i # idx) True) ch) =
      seq_writer (\<lambda>st ch. CBB_add_u8 libc st ch (value_byte v i))
        (\<lambda>st ch. uint64_end libc (add_asn1_uint64_loop libc st ch v idx True) ch)"
    by (auto simp: fun_eq_iff seq_writer_def value_byte_def Let_def uint64_end_def split: prod.splits bool.splits)
  then show ?case using here_then_here [OF here_add_u8 [OF assms] Cons] by simp
qed

definition pad_uint :: "bytes \<Rightarrow> bytes" where
  "pad_uint bs = (if bs = [] then [0] else if 128 \<le> unat (hd bs) then 0 # bs else bs)"

lemma here_uint64_loop:
  assumes libc: "libc_wf libc"
  shows "writes_here libc (\<lambda>st ch. uint64_end libc (add_asn1_uint64_loop libc st ch v idx False) ch)
           (pad_uint (dropWhile (\<lambda>b. b = 0) (map (value_byte v) idx)))"
proof (induction idx)
  case Nil
  then show ?case using here_add_u8 [OF libc] by (simp add: uint64_end_def pad_uint_def)
next
  case (Cons i idx)
  let ?b = "value_byte v i"
  let ?rest = "\<lambda>st ch. uint64_end libc (add_asn1_uint64_loop libc st ch v idx True) ch"
  note u = value_byte_def [of v i, symmetric]
  show ?case
  proof (cases "?b = 0")
    case True
    then show ?thesis using Cons by (simp add: u Let_def)
  next
    case False
    have rest: "writes_here libc (seq_writer (\<lambda>st ch. CBB_add_u8 libc st ch ?b) ?rest) (?b # map (value_byte v) idx)"
      using here_then_here [OF here_add_u8 [OF libc] here_uint64_started [OF libc]] by simp
    show ?thesis
    proof (cases "128 \<le> unat ?b")
      case h: True
      then have "?b AND 0x80 \<noteq> 0" by (simp add: u8_high_bit)
      then have "(\<lambda>st ch. uint64_end libc (add_asn1_uint64_loop libc st ch v (i # idx) False) ch) =
          seq_writer (\<lambda>st ch. CBB_add_u8 libc st ch 0) (seq_writer (\<lambda>st ch. CBB_add_u8 libc st ch ?b) ?rest)"
        using False
        by (auto simp: fun_eq_iff seq_writer_def u Let_def uint64_end_def split: prod.splits bool.splits)
      then show ?thesis
        using here_then_here [OF here_add_u8 [OF libc] rest] False h by (simp add: pad_uint_def)
    next
      case h: False
      then have "?b AND 0x80 = 0" using u8_high_bit [of ?b] by blast
      then have "(\<lambda>st ch. uint64_end libc (add_asn1_uint64_loop libc st ch v (i # idx) False) ch) =
          seq_writer (\<lambda>st ch. CBB_add_u8 libc st ch ?b) ?rest"
        using False
        by (auto simp: fun_eq_iff seq_writer_def u Let_def uint64_end_def split: prod.splits bool.splits)
      then show ?thesis using rest False h by (simp add: pad_uint_def)
    qed
  qed
qed


lemma be_bytes_map: "be_bytes n v = map (\<lambda>i. word_of_nat (v div 256 ^ (n - 1 - i))) [0 ..< n]"
proof (induction n arbitrary: v)
  case (Suc n)
  have "be_bytes n (v div 256) = map (\<lambda>i. word_of_nat (v div 256 ^ (Suc n - 1 - i))) [0 ..< n]"
    unfolding Suc.IH
  proof (rule map_cong [OF refl])
    fix i assume "i \<in> set [0 ..< n]"
    then have "Suc n - 1 - i = Suc (n - 1 - i)" by auto
    then show "word_of_nat (v div 256 div 256 ^ (n - 1 - i)) = (word_of_nat (v div 256 ^ (Suc n - 1 - i)) :: u8)"
      by (simp add: div_mult2_eq)
  qed
  then show ?case by simp
qed simp

lemma value_byte_eq: "value_byte v i = word_of_nat (unat v div 256 ^ (7 - i))"
proof -
  have "unat (drop_bit (8 * (7 - i)) v) = unat v div 256 ^ (7 - i)"
    by (simp only: unat_drop_bit_eq) (simp add: drop_bit_eq_div power_mult)
  then have "unat (drop_bit (8 * (7 - i)) v AND 0xff) = unat v div 256 ^ (7 - i) mod 256"
    using unat_and_mask [of "drop_bit (8 * (7 - i)) v" 8] by (simp add: mask_eq_exp_minus_1)
  then show ?thesis
    unfolding value_byte_def word_unat_eq_iff
    by (simp only: unsigned_ucast_eq unat_of_nat) (simp add: take_bit_eq_mod)
qed

lemma value_bytes: "map (value_byte v) [0 ..< 8] = be_bytes 8 (unat v)"
  by (simp add: be_bytes_map value_byte_eq cong: map_cong)

lemma be_bytes_0: "be_bytes n 0 = replicate n 0"
  by (induction n) (simp_all add: replicate_append_same)

lemma strip_zeros: "n < 256 ^ k \<Longrightarrow> dropWhile (\<lambda>b. b = 0) (be_bytes k n) = be_bytes (len_octets n) n"
proof (induction k arbitrary: n)
  case 0
  then show ?case by simp
next
  case (Suc k)
  have IH: "dropWhile (\<lambda>b. b = 0) (be_bytes k (n div 256)) = be_bytes (len_octets (n div 256)) (n div 256)"
    using Suc.prems by (intro Suc.IH) (simp add: less_mult_imp_div_less mult.commute)
  show ?case
  proof (cases "n div 256 = 0")
    case True
    then have "n < 256" by (simp add: div_eq_0_iff)
    then have "(word_of_nat n :: u8) = 0 \<longleftrightarrow> n = 0" by (simp add: word_unat_eq_iff unat_of_nat)
    then show ?thesis
      using True by (cases "n = 0") (simp_all add: be_bytes_0 len_octets_pos dropWhile_append3 dropWhile_append2)
  next
    case False
    then have n: "0 < n" and l: "0 < len_octets (n div 256)" by (auto simp: len_octets_pos intro: Nat.gr0I)
    then have "be_bytes (len_octets (n div 256)) (n div 256) \<noteq> []" by (auto dest: arg_cong [of _ _ length])
    with IH have "dropWhile (\<lambda>b. b = 0) (be_bytes k (n div 256)) \<noteq> []" by simp
    then have "dropWhile (\<lambda>b. b = 0) (be_bytes k (n div 256) @ [word_of_nat n]) =
        dropWhile (\<lambda>b. b = 0) (be_bytes k (n div 256)) @ [word_of_nat n]"
      by (auto simp: dropWhile_eq_Nil_conv dropWhile_append1)
    then show ?thesis using IH by (simp add: len_octets_pos [OF n])
  qed
qed

lemma pad_uint_eq: "pad_uint (be_bytes (len_octets n) n) = asn1_uint n"
  by (cases "n = 0") (auto simp: pad_uint_def asn1_uint_def Let_def len_octets_pos)

lemma writes_flush_here:
  assumes libc: "libc_wf libc" and op: "writes_here libc op bs"
  shows "writes libc {} (seq_writer (CBB_flush libc) op) bs"
  using writes_then_here [OF writes_flush [OF libc] op] by simp

text \<open>An element whose contents are written by a loop.\<close>

lemma writes_element_here:
  assumes libc: "libc_wf libc" and inner: "writes_here libc inner body" and fits: "length body \<le> 0xfffffffe"
  shows "writes libc {ch}
     (\<lambda>st h. case CBB_add_asn1 libc st h ch tag of (False, st1) \<Rightarrow> (False, st1)
             | (True, st1) \<Rightarrow> (case inner st1 ch of (False, st2) \<Rightarrow> (False, st2)
                               | (True, st2) \<Rightarrow> CBB_flush libc st2 h)) (der tag body)"
  unfolding writes_def
proof (intro allI impI, elim conjE)
  fix st ps h qs gs k b ys
  assume rep: "cbb_rep st (ps @ h # qs) (gs @ (k, b) # ys)" and len: "length ps = length gs"
    and F: "{ch} \<inter> set (ps @ h # qs) = {}" "{ch} \<subseteq> {..< cbb_objects st}"
  have r: "cbb_result libc st (ps @ [h, ch]) (opened gs k b ys (der_tag tag) Asn1) (CBB_add_asn1 libc st h ch tag)"
    by (rule add_asn1_result [OF rep len libc]) (use F in auto)
  let ?op = "\<lambda>inner. (case CBB_add_asn1 libc st h ch tag of (False, st1) \<Rightarrow> (False, st1)
             | (True, st1) \<Rightarrow> (case inner st1 ch of (False, st2) \<Rightarrow> (False, st2)
                               | (True, st2) \<Rightarrow> CBB_flush libc st2 h))"
  let ?flushed = "seq_writer (CBB_flush libc) inner"
  have "cbb_result libc st (ps @ [h]) (appended gs k b ys (der tag body)) (?op ?flushed)"
    using writesD [OF writes_element [OF libc writes_flush_here [OF libc inner] _ fits] rep len] F by auto
  moreover have "?op inner = ?op ?flushed"
  proof (cases "CBB_add_asn1 libc st h ch tag")
    case (Pair ok st1)
    have "CBB_flush libc st1 ch = (True, st1)" if ok
    proof -
      from r Pair that obtain c where c: "cbb_rep st1 (ps @ [h, ch]) (gs @ [(k, c), (Asn1, [])])"
        by (auto simp: cbb_result_def opened_def)
      have "cbb_at st1 ch = \<lparr>has_base = True, child = None, cbb_offset = length (layout (gs @ [(k, c)])),
          pending_len_len = 1, pending_is_asn1 = True, is_child = True\<rparr>"
        using frame_at [of st1 "ps @ [h]" ch "[]" "gs @ [(k, c)]" Asn1 "[]" "[]"] c len by simp
      then show ?thesis using cbb_rep_buf(2) [OF c] by (simp add: CBB_flush_def)
    qed
    then show ?thesis using Pair by (cases ok) (simp_all add: seq_writer_def)
  qed
  ultimately show "cbb_result libc st (ps @ [h]) (appended gs k b ys (der tag body)) (?op inner)" by simp
qed

lemma writes_asn1_uint64 [writer_intros]:
  assumes "libc_wf libc"
  shows "writes libc {ch} (\<lambda>st h. CBB_add_asn1_uint64 libc ch st h v) (der CBS_ASN1_INTEGER (asn1_uint (unat v)))"
proof -
  let ?inner = "\<lambda>st ch. uint64_end libc (add_asn1_uint64_loop libc st ch v [0 ..< 8] False) ch"
  have v: "unat v < 256 ^ 8" by (rule word_size_less)
  have "writes_here libc ?inner (asn1_uint (unat v))"
    using here_uint64_loop [OF assms, of v "[0 ..< 8]"] by (simp only: value_bytes strip_zeros [OF v] pad_uint_eq)
  moreover have "length (asn1_uint (unat v)) \<le> 0xfffffffe"
    using length_asn1_uint [of "unat v"] v by simp
  moreover have "(\<lambda>st h. CBB_add_asn1_uint64 libc ch st h v) = (\<lambda>st h.
      case CBB_add_asn1 libc st h ch CBS_ASN1_INTEGER of (False, st1) \<Rightarrow> (False, st1)
      | (True, st1) \<Rightarrow> (case ?inner st1 ch of (False, st2) \<Rightarrow> (False, st2)
                        | (True, st2) \<Rightarrow> CBB_flush libc st2 h))"
    by (auto simp: fun_eq_iff CBB_add_asn1_uint64_def uint64_end_def split: prod.splits bool.splits option.splits)
  ultimately show ?thesis using writes_element_here [OF assms] by simp
qed

section \<open>Signed integers\<close>

lemma int64_start_spec:
  "int64_start u s0 \<le> s0 \<and> (\<forall>j. int64_start u s0 < j \<and> j \<le> s0 \<longrightarrow> u ! j = 0xff) \<and>
   (128 \<le> unat (u ! s0) \<longrightarrow> 128 \<le> unat (u ! int64_start u s0)) \<and>
   (int64_start u s0 \<noteq> 0 \<longrightarrow>
      \<not> (u ! int64_start u s0 = 0xff \<and> 128 \<le> unat (u ! (int64_start u s0 - 1))))"
proof (induction s0)
  case (Suc s)
  have h: "(u ! s AND 0x80 \<noteq> 0) = (128 \<le> unat (u ! s))" by (rule u8_high_bit)
  show ?case
  proof (cases "u ! Suc s = 0xff \<and> 128 \<le> unat (u ! s)")
    case True
    have "u ! j = 0xff" if "int64_start u s < j" "j \<le> Suc s" for j
      using Suc that True by (cases "j = Suc s") auto
    with True Suc h show ?thesis by auto
  qed (use h in auto)
qed simp

lemma sint_negative_bytes:
  assumes neg: "sint v < 0"
  defines "u \<equiv> int64_bytes v"
  defines "p \<equiv> rev (take (Suc (int64_start u 7)) u)"
  shows "asn1_int_minimal p" and "length p \<le> 8" and "sbe_val p = sint v"
proof -
  let ?s = "int64_start u 7"
  have u: "length u = 8" "le_val u = unat v"
    using word_size_less(4) [of v] by (simp_all add: u_def int64_bytes_def le_val_le_bytes)
  note spec = int64_start_spec [of u 7]
  have v: "2 ^ 63 \<le> unat v" using neg by (simp add: sint_u64 split: if_splits)
  have "u \<noteq> []" using u(1) by auto
  then have hd_u: "rev u \<noteq> []" "hd (rev u) = u ! 7" using u(1) by (simp_all add: hd_rev last_conv_nth)
  have "2 * be_val (rev u) = 2 * unat v" using u(2) le_val_rev [of "rev u"] by simp
  then have "128 \<le> unat (u ! 7)"
    using be_val_hd(2) [OF hd_u(1)] u(1) v hd_u(2) by (cases "128 \<le> unat (u ! 7)") auto
  with spec have s: "?s \<le> 7" "128 \<le> unat (u ! ?s)" by auto
  have p: "length p = Suc ?s" "p \<noteq> []" "hd p = u ! ?s"
    using s u(1) by (auto simp: p_def take_Suc_conv_app_nth)
  then show "length p \<le> 8" using s by simp
  have p1: "p ! 1 = u ! (?s - 1)" if "1 < length p"
    using that s u(1) by (simp add: p_def rev_nth min_absorb2)
  show "asn1_int_minimal p"
    using p p1 s spec by (auto simp: asn1_int_minimal_def)
  have "drop (Suc ?s) u = replicate (8 - Suc ?s) 0xff"
    by (rule nth_equalityI) (use spec u(1) s in auto)
  then have "rev u = replicate (8 - length p) 0xff @ p"
    using append_take_drop_id [of "Suc ?s" u] p(1) unfolding p_def
    by (metis rev_append rev_replicate)
  moreover have "le_val u = be_val (rev u)" using le_val_rev [of "rev u"] by (simp only: rev_rev_ident)
  ultimately have "unat v = be_val (replicate (8 - length p) 0xff @ p)" using u(2) by simp
  then have "v = word_of_nat (be_val (replicate (8 - length p) (if 128 \<le> unat (hd p) then 0xff else 0) @ p))"
    using p(3) s(2) by (simp add: word_of_natI)
  then show "sbe_val p = sint v"
    using sint_sign_fill [OF p(2) \<open>length p \<le> 8\<close>] by simp
qed

lemma sint_nonneg_bytes:
  fixes v :: u64
  assumes "0 \<le> sint v"
  shows "asn1_int_minimal (asn1_uint (unat v))" and "length (asn1_uint (unat v)) \<le> 8"
    and "sbe_val (asn1_uint (unat v)) = sint v"
proof -
  let ?p = "asn1_uint (unat v)"
  have v: "unat v < 2 ^ 63"
  proof (rule ccontr)
    assume "\<not> unat v < 2 ^ 63"
    then have "sint v = int (unat v) - 2 ^ 64" using sint_u64 [of v] by (simp only: if_False)
    moreover have "int (unat v) < 2 ^ 64" using word_size_less(4) [of v] by (simp only: of_nat_less_numeral_power_cancel_iff) simp
    ultimately show False using assms by linarith
  qed
  then have v2: "sint v = int (unat v)" using sint_u64 [of v] by (simp only: if_True)
  note wf = asn1_uint_wf [of "unat v"]
  have "hd ?p \<noteq> 0xff" using wf(2) by auto
  with wf show "asn1_int_minimal ?p" by (auto simp: asn1_int_minimal_def)
  show "sbe_val ?p = sint v" using wf v2 by (simp add: sbe_val_def be_val_asn1_uint)
  show "length ?p \<le> 8"
  proof (rule ccontr)
    assume long: "\<not> length ?p \<le> 8"
    have lo: "len_octets (unat v) \<le> 8" using v by (intro len_octets_bound) simp
    let ?bs = "be_bytes (len_octets (unat v)) (unat v)"
    from long lo have bs: "128 \<le> unat (hd ?bs)" "len_octets (unat v) = 8"
      by (auto simp: asn1_uint_def Let_def split: if_splits)
    have "?bs \<noteq> []" using bs(2) by (auto dest: arg_cong [of _ _ length])
    from be_val_hd(1) [OF this bs(1)] have "256 ^ 8 \<le> 2 * (unat v)"
      using bs(2) v by (simp add: be_val_be_bytes)
    with v show False by simp
  qed
qed

text \<open>The contents octets the writer produces for a signed value.\<close>

definition asn1_int :: "u64 \<Rightarrow> bytes" where
  "asn1_int v = (if 0 \<le> sint v then asn1_uint (unat v)
                 else rev (take (Suc (int64_start (int64_bytes v) 7)) (int64_bytes v)))"

lemma asn1_int_spec:
  "asn1_int_minimal (asn1_int v)" "length (asn1_int v) \<le> 8" "sbe_val (asn1_int v) = sint v"
  using sint_negative_bytes [of v] sint_nonneg_bytes [of v] by (auto simp: asn1_int_def)

lemma here_bytes_down:
  "libc_wf libc \<Longrightarrow> n \<le> length u \<Longrightarrow> writes_here libc (\<lambda>st ch. add_bytes_down libc st ch u n) (rev (take n u))"
proof (induction n)
  case 0
  then show ?case using writes_here_return by simp
next
  case (Suc n)
  have "(\<lambda>st ch. add_bytes_down libc st ch u (Suc n)) =
      seq_writer (\<lambda>st ch. CBB_add_u8 libc st ch (u ! n)) (\<lambda>st ch. add_bytes_down libc st ch u n)"
    by (simp add: fun_eq_iff seq_writer_def)
  then show ?case
    using here_then_here [OF here_add_u8 [OF Suc.prems(1), of "u ! n"] Suc.IH] Suc.prems
    by (simp add: take_Suc_conv_app_nth)
qed

lemma writes_asn1_int64 [writer_intros]:
  assumes "libc_wf libc"
  shows "writes libc {ch} (\<lambda>st h. CBB_add_asn1_int64 libc ch st h v) (der CBS_ASN1_INTEGER (asn1_int v))"
proof (cases "0 \<le> sint v")
  case True
  then show ?thesis using writes_asn1_uint64 [OF assms] by (simp add: CBB_add_asn1_int64_def asn1_int_def)
next
  case False
  let ?u = "int64_bytes v" let ?s = "int64_start ?u 7"
  have "?s \<le> 7" using int64_start_spec [of ?u 7] by simp
  then have inner: "writes_here libc (\<lambda>st ch. add_bytes_down libc st ch ?u (Suc ?s)) (rev (take (Suc ?s) ?u))"
    by (intro here_bytes_down assms) (simp add: int64_bytes_def)
  have "length (rev (take (Suc ?s) ?u)) \<le> 0xfffffffe" by (simp add: int64_bytes_def)
  from writes_element_here [OF assms inner this, of ch CBS_ASN1_INTEGER] False show ?thesis
    by (simp add: CBB_add_asn1_int64_def asn1_int_def Let_def)
qed

end
