(* ===== verification/Codec.thy ===== *)
theory Codec
  imports Cbb_Writers
begin

text \<open>
  Writers of \<open>CBB\<close> against readers of \<open>CBS\<close>. The locale \<open>codec\<close> is the contract of a writer and
  its reader, \<open>strict_codec\<close> adds that the reader accepts nothing else. Both are interpreted for
  the fixed-width integers in both byte orders and for the ASN.1 values. The first section is the
  life of a builder from \<open>CBB_init\<close> to \<open>CBB_finish\<close>.
\<close>

section \<open>From init to finish\<close>

lemma init_rep:
  assumes libc: "libc_wf libc" and h: "h < cbb_objects st" and cap: "cap \<le> ADDRESS_SPACE"
    and init: "CBB_init libc st h cap = (True, st')"
  shows "cbb_rep st' [h] [(Top, [])]" and "base_cap st' = cap" and "cbb_objects st' = cbb_objects st"
    and "can_resize st'"
proof -
  let ?buf = "heap_malloc libc cap"
  have len: "length (case ?buf of None \<Rightarrow> [] | Some b \<Rightarrow> b) = cap"
    using init heap_malloc_length [OF libc, of cap] cap
    by (auto simp: CBB_init_def Let_def HEAP_LIMIT_def ADDRESS_SPACE_def split: option.splits if_splits)
  from init have st': "st' = upd_cbb ((CBB_zero st h)\<lparr>base_buf := ?buf, base_len := 0, base_cap := cap,
      can_resize := True, base_error := False\<rparr>) h (\<lambda>c. c\<lparr>has_base := True, is_child := False\<rparr>)"
    by (auto simp: CBB_init_def cbb_init_def Let_def split: if_splits)
  then show "base_cap st' = cap" "cbb_objects st' = cbb_objects st" "can_resize st'"
    by (simp_all add: CBB_zero_def)
  show "cbb_rep st' [h] [(Top, [])]"
    using len h cap
    by (simp add: st' cbb_rep_def buf_ok_def base_bytes_def valid_bytes_def frames_ok_def CBB_zero_def zero_cbb_def)
qed

lemma init_fixed_rep:
  assumes h: "h < cbb_objects st" and cap: "length buf \<le> ADDRESS_SPACE"
    and init: "CBB_init_fixed libc st h buf (length buf) = (True, st')"
  shows "cbb_rep st' [h] [(Top, [])]" and "base_cap st' = length buf" and "cbb_objects st' = cbb_objects st"
    and "\<not> can_resize st'"
proof -
  from init have st': "st' = (upd_cbb ((CBB_zero st h)\<lparr>base_buf := Some buf, base_len := 0, base_cap := length buf,
      can_resize := True, base_error := False\<rparr>) h (\<lambda>c. c\<lparr>has_base := True, is_child := False\<rparr>))\<lparr>can_resize := False\<rparr>"
    by (auto simp: CBB_init_fixed_def cbb_init_def split: if_splits)
  then show "base_cap st' = length buf" "cbb_objects st' = cbb_objects st" "\<not> can_resize st'"
    by (simp_all add: CBB_zero_def)
  show "cbb_rep st' [h] [(Top, [])]"
    using h cap
    by (simp add: st' cbb_rep_def buf_ok_def base_bytes_def valid_bytes_def frames_ok_def CBB_zero_def zero_cbb_def)
qed

text \<open>Finishing closes what is open and hands out the buffer.\<close>

lemma finish_result:
  assumes rep: "cbb_rep st (h # qs) ((Top, b) # ys)" and libc: "libc_wf libc"
  shows "case CBB_finish libc st h True True of
      (Some (buf, n), st') \<Rightarrow> (\<exists>c m. collapse ys = Some c \<and> buf = Some m \<and> n \<le> length m \<and> take n m = b @ c) \<or>
                              (collapse ys = Some [] \<and> b = [] \<and> buf = None \<and> n = 0)
    | (None, st') \<Rightarrow> base_error st' \<and> (\<forall>c. collapse ys = Some c \<longrightarrow> outgrown libc st (length (b @ c)))"
proof -
  have r: "cbb_result libc st [h] (map_option (\<lambda>c. [(Top, b @ c)]) (collapse ys)) (CBB_flush libc st h)"
    using CBB_flush_result [of st "[]" h qs "[]" Top b ys libc] rep libc by simp
  have at: "\<not> is_child (cbb_at st h)" using frame_at [of st "[]" h qs "[]" Top b ys] rep by simp
  show ?thesis
  proof (cases "CBB_flush libc st h")
    case (Pair ok st1)
    show ?thesis
    proof (cases ok)
      case False
      then show ?thesis using r Pair at by (auto simp: CBB_finish_def cbb_result_def)
    next
      case True
      with r Pair obtain c where c: "collapse ys = Some c" and rep1: "cbb_rep st1 [h] [(Top, b @ c)]"
        by (auto simp: cbb_result_def)
      have v: "take (base_len st1) (base_bytes st1) = b @ c" "base_len st1 \<le> length (base_bytes st1)"
        using rep1 by (simp_all add: cbb_rep_def buf_ok_def valid_bytes_def)
      then show ?thesis using Pair True at c
        by (auto simp: CBB_finish_def base_bytes_def split: option.splits)
    qed
  qed
qed

text \<open>A whole use of a builder: initialise it with a capacity, write, finish.\<close>

definition build :: "libc_malloc \<Rightarrow> cbb_mem \<Rightarrow> nat \<Rightarrow> writer \<Rightarrow> bytes option" where
  "build libc st cap op =
     (case CBB_init libc st 0 cap of
        (False, _) \<Rightarrow> None
      | (True, st1) \<Rightarrow>
          (case op st1 0 of
             (False, _) \<Rightarrow> None
           | (True, st2) \<Rightarrow>
               (case CBB_finish libc st2 0 True True of
                  (Some (Some buf, n), _) \<Rightarrow> Some (take n buf)
                | (Some (None, n), _) \<Rightarrow> Some []
                | (None, _) \<Rightarrow> None)))"

text \<open>
  What stops a builder of initial capacity \<open>cap\<close> that is to hold \<open>n\<close> bytes: the heap refuses the
  builder or its first buffer, or the buffer is too small and the heap refuses a larger one of at
  most twice the bytes needed.
\<close>

definition heap_short :: "libc_malloc \<Rightarrow> nat \<Rightarrow> nat \<Rightarrow> bool" where
  "heap_short libc cap n \<longleftrightarrow> heap_malloc libc SIZEOF_CBB_BUFFER = None \<or>
     0 < cap \<and> heap_malloc libc cap = None \<or>
     cap < n \<and> (\<exists>m. cap < m \<and> m \<le> 2 * n \<and> heap_malloc libc m = None)"

lemma init_short: "\<not> fst (CBB_init libc st h cap) \<Longrightarrow> heap_short libc cap n"
  by (auto simp: CBB_init_def cbb_init_def heap_short_def heap_malloc_def Let_def split: if_splits)

lemma outgrown_short: "outgrown libc st n \<Longrightarrow> can_resize st \<Longrightarrow> base_cap st = cap \<Longrightarrow> heap_short libc cap n"
  by (auto simp: outgrown_def heap_short_def)

lemma build_writes:
  assumes libc: "libc_wf libc" and op: "writes libc F op bs" and cap: "cap \<le> ADDRESS_SPACE"
    and F: "0 < cbb_objects st" "0 \<notin> F" "F \<subseteq> {..< cbb_objects st}"
  shows "build libc st cap op = Some bs \<or>
         build libc st cap op = None \<and> (fst (CBB_init libc st 0 cap) \<longrightarrow> cap < length bs) \<and>
           heap_short libc cap (length bs)"
proof (cases "CBB_init libc st 0 cap")
  case (Pair ok st1)
  show ?thesis
  proof (cases ok)
    case False
    then show ?thesis using Pair init_short [of libc st 0 cap "length bs"] by (simp add: build_def)
  next
    case True
    have "CBB_init libc st 0 cap = (True, st1)" using Pair True by simp
    note init = init_rep [OF libc F(1) cap this]
    have r: "cbb_result libc st1 [0] (Some [(Top, bs)]) (op st1 0)"
      using writesD_last [OF op, of st1 "[]" 0 "[]" Top "[]"] init F by auto
    obtain ok2 st2 where st2: "op st1 0 = (ok2, st2)" by fastforce
    show ?thesis
    proof (cases ok2)
      case False
      then have "outgrown libc st1 (length bs)" using r st2 by (simp add: cbb_result_def)
      then show ?thesis using False st2 Pair init \<open>ok\<close>
        by (auto simp: build_def dest: outgrownD outgrown_short)
    next
      case True
      with r st2 have rep: "cbb_rep st2 [0] [(Top, bs)]" by (auto simp: cbb_result_def)
      have "length bs \<le> base_cap st2"
        using rep length_valid_bytes [of st2] by (auto simp: cbb_rep_def buf_ok_def)
      then show ?thesis
        using finish_result [OF rep libc] st2 True Pair \<open>ok\<close>
        by (auto simp: build_def split: prod.splits option.splits)
    qed
  qed
qed

text \<open>A builder for an operation of any kind, and what its result says of the operation.\<close>

lemma build_cases:
  assumes "libc_wf libc" and "cap \<le> ADDRESS_SPACE" and "0 < cbb_objects st" and "fst (CBB_init libc st 0 cap)"
  obtains st1 ok st2 where "cbb_rep st1 [0] [(Top, [])]" "cbb_objects st1 = cbb_objects st" "base_cap st1 = cap"
    "op st1 0 = (ok, st2)" "\<not> ok \<longrightarrow> build libc st cap op = None"
    "\<forall>bs. ok \<and> cbb_rep st2 [0] [(Top, bs)] \<longrightarrow> build libc st cap op = Some bs"
proof -
  obtain st1 where init: "CBB_init libc st 0 cap = (True, st1)" using assms(4) by (cases "CBB_init libc st 0 cap") auto
  obtain ok st2 where op: "op st1 0 = (ok, st2)" by fastforce
  have "build libc st cap op = Some bs" if ok "cbb_rep st2 [0] [(Top, bs)]" for bs
  proof -
    have "\<not> base_cap st2 < length bs"
      using that(2) length_valid_bytes [of st2] by (auto simp: cbb_rep_def buf_ok_def)
    then show ?thesis using finish_result [OF that(2) assms(1)] that(1) init op
      by (auto simp: build_def split: prod.splits option.splits)
  qed
  moreover have "\<not> ok \<longrightarrow> build libc st cap op = None" using init op by (simp add: build_def)
  ultimately show thesis
    using that [OF init_rep(1) [OF assms(1,3,2) init] init_rep(3) [OF assms(1,3,2) init]
        init_rep(2) [OF assms(1,3,2) init] op] by blast
qed

lemma build_SomeE:
  assumes "build libc st cap op = Some out" and "libc_wf libc" and "cap \<le> ADDRESS_SPACE" and "0 < cbb_objects st"
  obtains st1 st2 where "cbb_rep st1 [0] [(Top, [])]" "cbb_objects st1 = cbb_objects st" "op st1 0 = (True, st2)"
    "\<And>bs. cbb_rep st2 [0] [(Top, bs)] \<Longrightarrow> out = bs"
proof -
  obtain st1 st2 where init: "CBB_init libc st 0 cap = (True, st1)" and op: "op st1 0 = (True, st2)"
    using assms(1) by (auto simp: build_def split: prod.splits bool.splits)
  have "out = bs" if "cbb_rep st2 [0] [(Top, bs)]" for bs
    using finish_result [OF that assms(2)] assms(1) init op
    by (auto simp: build_def split: prod.splits option.splits)
  then show thesis using that [OF init_rep(1) [OF assms(2,4,3) init] init_rep(3) [OF assms(2,4,3) init] op] by blast
qed

lemma flush_keeps:
  assumes "cbb_rep st [h] [(Top, d)]" and "libc_wf libc"
  shows "\<exists>st'. CBB_flush libc st h = (True, st') \<and> cbb_rep st' [h] [(Top, d)]"
proof -
  have "cbb_result libc st [h] (Some [(Top, d)]) (CBB_flush libc st h)"
    using CBB_flush_result [of st "[]" h "[]" "[]" Top d "[]" libc] assms by simp
  moreover have "\<not> base_cap st < length d"
    using assms(1) length_valid_bytes [of st] by (auto simp: cbb_rep_def buf_ok_def)
  ultimately show ?thesis by (cases "CBB_flush libc st h") (auto simp: cbb_result_def split: if_splits)
qed

section \<open>The contract of a writer and a reader\<close>

primrec put_list :: "('a \<Rightarrow> writer) \<Rightarrow> 'a list \<Rightarrow> writer" where
  "put_list put [] = (\<lambda>st h. (True, st))"
| "put_list put (x # xs) = seq_writer (put x) (put_list put xs)"

primrec get_list :: "(cbs \<Rightarrow> 'a option \<times> cbs) \<Rightarrow> nat \<Rightarrow> cbs \<Rightarrow> 'a list option \<times> cbs" where
  "get_list get 0 c = (Some [], c)"
| "get_list get (Suc n) c =
     (case get c of
        (None, c') \<Rightarrow> (None, c')
      | (Some x, c') \<Rightarrow>
          (case get_list get n c' of
             (None, c'') \<Rightarrow> (None, c'')
           | (Some xs, c'') \<Rightarrow> (Some (x # xs), c'')))"

locale codec =
  fixes dom_ok :: "'a \<Rightarrow> bool"
    and enc :: "'a \<Rightarrow> bytes"
    and locals :: "nat set"
    and put :: "libc_malloc \<Rightarrow> 'a \<Rightarrow> writer"
    and get :: "cbs \<Rightarrow> 'a option \<times> cbs"
  assumes put_writes: "libc_wf libc \<Longrightarrow> dom_ok x \<Longrightarrow> writes libc locals (put libc x) (enc x)"
    and get_enc: "dom_ok x \<Longrightarrow> get (window (enc x @ v) t) = (Some x, window v t)"
begin

lemma get_list_enc:
  "\<forall>x \<in> set xs. dom_ok x \<Longrightarrow>
   get_list get (length xs) (window (concat (map enc xs) @ v) t) = (Some xs, window v t)"
  by (induction xs) (simp_all add: get_enc)

lemma put_list_writes:
  "libc_wf libc \<Longrightarrow> \<forall>x \<in> set xs. dom_ok x \<Longrightarrow> xs \<noteq> [] \<Longrightarrow>
   writes libc locals (put_list (put libc) xs) (concat (map enc xs))"
proof (induction xs)
  case (Cons x xs)
  show ?case
  proof (cases "xs = []")
    case True
    have "(\<lambda>st h. case put libc x st h of (False, st1) \<Rightarrow> (False, st1) | (True, st1) \<Rightarrow> (True, st1)) = put libc x"
      by (auto simp: fun_eq_iff split: prod.splits bool.splits)
    then show ?thesis using True put_writes [of libc x] Cons.prems
      by (simp add: seq_writer_def [abs_def])
  next
    case False
    then show ?thesis using Cons put_writes [of libc x] by (auto intro: writes_seq)
  qed
qed simp

text \<open>What was written is what is read back, value by value.\<close>

lemma round_trip:
  assumes "libc_wf libc" and "\<forall>x \<in> set xs. dom_ok x" and "xs \<noteq> []" and "cap \<le> ADDRESS_SPACE"
    and "0 < cbb_objects st" "0 \<notin> locals" "locals \<subseteq> {..< cbb_objects st}"
    and "build libc st cap (put_list (put libc) xs) = Some out"
  shows "get_list get (length xs) (CBS_init out (length out)) = (Some xs, window [] [])"
proof -
  have "out = concat (map enc xs)"
    using build_writes [OF assms(1) put_list_writes [OF assms(1-3)] assms(4-7)] assms(8) by auto
  then show ?thesis using get_list_enc [OF assms(2), of "[]" "[]"] by (simp add: cbs_simps)
qed

text \<open>The same with what is built and with the only reason to fail, a request for memory refused.\<close>

lemma build_result:
  assumes "libc_wf libc" and "\<forall>x \<in> set xs. dom_ok x" and "xs \<noteq> []" and "cap \<le> ADDRESS_SPACE"
    and "0 < cbb_objects st" "0 \<notin> locals" "locals \<subseteq> {..< cbb_objects st}"
  shows "case build libc st cap (put_list (put libc) xs) of
      Some out \<Rightarrow> out = concat (map enc xs) \<and>
        get_list get (length xs) (CBS_init out (length out)) = (Some xs, window [] [])
    | None \<Rightarrow> heap_short libc cap (length (concat (map enc xs)))"
  using build_writes [OF assms(1) put_list_writes [OF assms(1-3)] assms(4-7)] round_trip [OF assms]
  by (auto split: option.splits)

end

text \<open>A reader that accepts the encodings only.\<close>

locale strict_codec = codec +
  assumes get_only: "get (window v t) = (Some x, c) \<Longrightarrow> dom_ok x \<and> (\<exists>r. v = enc x @ r \<and> c = window r t)"
begin

text \<open>No encoding is a prefix of the encoding of another value.\<close>

lemma prefix_free:
  assumes "dom_ok x" and "dom_ok y" and "enc x @ v = enc y @ w"
  shows "x = y \<and> v = w"
proof -
  have "(Some x, window v []) = (Some y, window w [])"
    unfolding get_enc [OF assms(1), symmetric] get_enc [OF assms(2), symmetric] assms(3) ..
  then show ?thesis by simp
qed

lemma reader_iff: "get (window v t) = (Some x, c) \<longleftrightarrow> dom_ok x \<and> (\<exists>r. v = enc x @ r \<and> c = window r t)"
  using get_only get_enc by blast

lemma reader_unique:
  "get (window v t) = (Some x, c) \<Longrightarrow> get (window v t') = (Some y, c') \<Longrightarrow> x = y \<and> cbs_view c = cbs_view c'"
  unfolding reader_iff using prefix_free [of x y] by auto

end

section \<open>Interpretations\<close>

lemma fixed_width_reader:
  fixes x :: "'w :: len word"
  assumes n: "n \<le> length v" and x: "x = word_of_nat (be_val (take n v))" and w: "256 ^ n \<le> (2 :: nat) ^ LENGTH('w)"
  shows "v = be_bytes n (unat x) @ drop n v" and "unat x < 256 ^ n"
proof -
  have lt: "be_val (take n v) < 256 ^ n" using be_val_less [of "take n v"] n by (simp add: min_absorb2)
  with w have u: "unat x = be_val (take n v)" unfolding x by (simp add: unat_of_nat)
  then have "be_bytes n (unat x) = take n v" using be_bytes_be_val [of "take n v"] n by (simp add: min_absorb2)
  then show "v = be_bytes n (unat x) @ drop n v" by simp
  show "unat x < 256 ^ n" using lt u by simp
qed

lemma word_of_be_bytes: "unat (x :: 'w :: len word) < 256 ^ n \<Longrightarrow> word_of_nat (be_val (be_bytes n (unat x))) = x"
  by (simp add: be_val_be_bytes)

interpretation u8: strict_codec "\<lambda>_. True" "\<lambda>x. [x]" "{}" "\<lambda>libc x st h. CBB_add_u8 libc st h x" CBS_get_u8
proof
  fix v t x c assume "CBS_get_u8 (window v t) = (Some x, c)"
  then show "True \<and> (\<exists>r. v = [x] @ r \<and> c = window r t)" by (cases v) (auto simp: cbs_simps)
qed (auto simp: cbs_simps intro: writes_words)

interpretation u16: strict_codec "\<lambda>_. True" "\<lambda>x. be_bytes 2 (unat x)" "{}" "\<lambda>libc x st h. CBB_add_u16 libc st h x" CBS_get_u16
proof
  fix v t x c assume "CBS_get_u16 (window v t) = (Some x, c)"
  then show "True \<and> (\<exists>r. v = be_bytes 2 (unat x) @ r \<and> c = window r t)"
    using fixed_width_reader(1) [of 2 v x] by (auto simp: cbs_simps split: if_splits)
qed (use word_size_less in \<open>auto simp: cbs_simps word_of_be_bytes intro: writes_words\<close>)

interpretation u24: strict_codec "\<lambda>x. unat x < 2 ^ 24" "\<lambda>x. be_bytes 3 (unat x)" "{}" "\<lambda>libc x st h. CBB_add_u24 libc st h x" CBS_get_u24
proof
  fix v t x c assume "CBS_get_u24 (window v t) = (Some x, c)"
  then show "unat x < 2 ^ 24 \<and> (\<exists>r. v = be_bytes 3 (unat x) @ r \<and> c = window r t)"
    using fixed_width_reader [of 3 v x] by (auto simp: cbs_simps split: if_splits)
qed (auto simp: cbs_simps word_of_be_bytes intro: writes_words)

interpretation u32: strict_codec "\<lambda>_. True" "\<lambda>x. be_bytes 4 (unat x)" "{}" "\<lambda>libc x st h. CBB_add_u32 libc st h x" CBS_get_u32
proof
  fix v t x c assume "CBS_get_u32 (window v t) = (Some x, c)"
  then show "True \<and> (\<exists>r. v = be_bytes 4 (unat x) @ r \<and> c = window r t)"
    using fixed_width_reader(1) [of 4 v x] by (auto simp: cbs_simps split: if_splits)
qed (use word_size_less in \<open>auto simp: cbs_simps word_of_be_bytes intro: writes_words\<close>)

interpretation u64: strict_codec "\<lambda>_. True" "\<lambda>x. be_bytes 8 (unat x)" "{}" "\<lambda>libc x st h. CBB_add_u64 libc st h x" CBS_get_u64
proof
  fix v t x c assume "CBS_get_u64 (window v t) = (Some x, c)"
  then show "True \<and> (\<exists>r. v = be_bytes 8 (unat x) @ r \<and> c = window r t)"
    using fixed_width_reader(1) [of 8 v x] by (auto simp: cbs_simps split: if_splits)
qed (use word_size_less in \<open>auto simp: cbs_simps word_of_be_bytes intro: writes_words\<close>)


text \<open>Little-endian order: the reader and the writer swap the bytes.\<close>

lemma be_bytes_eqI: "length bs = n \<Longrightarrow> be_val bs = m \<Longrightarrow> be_bytes n m = bs"
  using be_bytes_be_val [of bs] by simp

lemma bswap_bytes:
  "be_bytes 2 (unat (CRYPTO_bswap2 a)) = le_bytes 2 (unat a)"
  "be_bytes 4 (unat (CRYPTO_bswap4 b)) = le_bytes 4 (unat b)"
  "be_bytes 8 (unat (CRYPTO_bswap8 d)) = le_bytes 8 (unat d)"
proof -
  have r: "be_val (rev bs) = le_val bs" for bs using le_val_rev [of "rev bs"] by simp
  have le: "le_val (rev bs) = be_val bs" for bs by (rule le_val_rev)
  have 2: "unat (CRYPTO_bswap2 a) = be_val (le_bytes 2 (unat a))"
    using bswap2_be_val [of "rev (le_bytes 2 (unat a))"] word_size_less(2) [of a]
    by (simp add: r le le_val_le_bytes unat_of_nat)
      (use be_val_less [of "le_bytes 2 (unat a)"] in simp)
  have 4: "unat (CRYPTO_bswap4 b) = be_val (le_bytes 4 (unat b))"
    using bswap4_be_val [of "rev (le_bytes 4 (unat b))"] word_size_less(3) [of b]
    by (simp add: r le le_val_le_bytes unat_of_nat)
      (use be_val_less [of "le_bytes 4 (unat b)"] in simp)
  have 8: "unat (CRYPTO_bswap8 d) = be_val (le_bytes 8 (unat d))"
    using bswap8_be_val [of "rev (le_bytes 8 (unat d))"] word_size_less(4) [of d]
    by (simp add: r le le_val_le_bytes unat_of_nat)
      (use be_val_less [of "le_bytes 8 (unat d)"] in simp)
  show "be_bytes 2 (unat (CRYPTO_bswap2 a)) = le_bytes 2 (unat a)"
    "be_bytes 4 (unat (CRYPTO_bswap4 b)) = le_bytes 4 (unat b)"
    "be_bytes 8 (unat (CRYPTO_bswap8 d)) = le_bytes 8 (unat d)"
    by (rule be_bytes_eqI; simp add: 2 4 8)+
qed

lemma le_bytes_le_val: "le_bytes (length bs) (le_val bs) = bs"
proof -
  have "rev (le_bytes (length bs) (le_val bs)) = rev bs"
    using be_bytes_be_val [of "rev bs"] le_val_rev [of "rev bs"] by (simp add: rev_le_bytes)
  then show ?thesis by simp
qed

lemma fixed_width_le_reader:
  fixes x :: "'w :: len word"
  assumes n: "n \<le> length v" and x: "x = word_of_nat (le_val (take n v))" and w: "256 ^ n \<le> (2 :: nat) ^ LENGTH('w)"
  shows "v = le_bytes n (unat x) @ drop n v"
proof -
  have "le_val (take n v) < 256 ^ n" using le_val_less [of "take n v"] n by (simp add: min_absorb2)
  with w have u: "unat x = le_val (take n v)" unfolding x by (simp add: unat_of_nat)
  then have "le_bytes n (unat x) = take n v" using le_bytes_le_val [of "take n v"] n by (simp add: min_absorb2)
  then show "v = le_bytes n (unat x) @ drop n v" by simp
qed

lemma word_of_le_bytes: "unat (x :: 'w :: len word) < 256 ^ n \<Longrightarrow> word_of_nat (le_val (le_bytes n (unat x))) = x"
  by (simp add: le_val_le_bytes)

interpretation u16le: strict_codec "\<lambda>_. True" "\<lambda>x. le_bytes 2 (unat x)" "{}" "\<lambda>libc x st h. CBB_add_u16le libc st h x" CBS_get_u16le
proof
  fix v t x c assume "CBS_get_u16le (window v t) = (Some x, c)"
  then show "True \<and> (\<exists>r. v = le_bytes 2 (unat x) @ r \<and> c = window r t)"
    using fixed_width_le_reader [of 2 v x] by (auto simp: cbs_simps split: if_splits)
next
  fix libc :: libc_malloc and x :: u16 assume "libc_wf libc"
  from writes_words(2) [OF this, of "CRYPTO_bswap2 x"]
  show "writes libc {} (\<lambda>st h. CBB_add_u16le libc st h x) (le_bytes 2 (unat x))"
    by (simp add: CBB_add_u16le_def bswap_bytes)
qed (use word_size_less in \<open>auto simp: cbs_simps word_of_le_bytes\<close>)

interpretation u32le: strict_codec "\<lambda>_. True" "\<lambda>x. le_bytes 4 (unat x)" "{}" "\<lambda>libc x st h. CBB_add_u32le libc st h x" CBS_get_u32le
proof
  fix v t x c assume "CBS_get_u32le (window v t) = (Some x, c)"
  then show "True \<and> (\<exists>r. v = le_bytes 4 (unat x) @ r \<and> c = window r t)"
    using fixed_width_le_reader [of 4 v x] by (auto simp: cbs_simps split: if_splits)
next
  fix libc :: libc_malloc and x :: u32 assume "libc_wf libc"
  from writes_words(3) [OF this, of "CRYPTO_bswap4 x"]
  show "writes libc {} (\<lambda>st h. CBB_add_u32le libc st h x) (le_bytes 4 (unat x))"
    by (simp add: CBB_add_u32le_def bswap_bytes)
qed (use word_size_less in \<open>auto simp: cbs_simps word_of_le_bytes\<close>)

interpretation u64le: strict_codec "\<lambda>_. True" "\<lambda>x. le_bytes 8 (unat x)" "{}" "\<lambda>libc x st h. CBB_add_u64le libc st h x" CBS_get_u64le
proof
  fix v t x c assume "CBS_get_u64le (window v t) = (Some x, c)"
  then show "True \<and> (\<exists>r. v = le_bytes 8 (unat x) @ r \<and> c = window r t)"
    using fixed_width_le_reader [of 8 v x] by (auto simp: cbs_simps split: if_splits)
next
  fix libc :: libc_malloc and x :: u64 assume "libc_wf libc"
  from writes_words(4) [OF this, of "CRYPTO_bswap8 x"]
  show "writes libc {} (\<lambda>st h. CBB_add_u64le libc st h x) (le_bytes 8 (unat x))"
    by (simp add: CBB_add_u64le_def bswap_bytes)
qed (use word_size_less in \<open>auto simp: cbs_simps word_of_le_bytes\<close>)

text \<open>The ASN.1 values; the writer's child is the struct at address 1.\<close>

interpretation asn1_uint64: strict_codec "\<lambda>_. True" "\<lambda>x. der CBS_ASN1_INTEGER (asn1_uint (unat x))" "{1}"
  "\<lambda>libc x st h. CBB_add_asn1_uint64 libc 1 st h x" CBS_get_asn1_uint64
  by unfold_locales (auto simp: cbs_simps get_asn1_uint64_iff intro: writes_asn1_uint64)

lemma sbe_val_range:
  assumes "p \<noteq> []"
  shows "2 * sbe_val p < 256 ^ length p" and "- (256 ^ length p) \<le> 2 * sbe_val p"
proof -
  have b: "int (be_val p) < 256 ^ length p"
    using be_val_less [of p] by (metis of_nat_less_iff of_nat_numeral of_nat_power)
  have "2 * sbe_val p < 256 ^ length p \<and> - (256 ^ length p) \<le> 2 * sbe_val p"
  proof (cases "128 \<le> unat (hd p)")
    case True
    then have "int (256 ^ length p) \<le> int (2 * be_val p)" using be_val_hd(1) [OF assms] by (simp only: of_nat_le_iff)
    then have "256 ^ length p \<le> 2 * int (be_val p)" by simp
    moreover have "sbe_val p = int (be_val p) - 256 ^ length p" using True assms by (simp add: sbe_val_def)
    ultimately show ?thesis using b by linarith
  next
    case False
    then have "int (2 * be_val p) < int (256 ^ length p)" using be_val_hd(2) [OF assms] by (simp only: of_nat_less_iff)
    with False show ?thesis by (simp add: sbe_val_def)
  qed
  then show "2 * sbe_val p < 256 ^ length p" "- (256 ^ length p) \<le> 2 * sbe_val p" by auto
qed

lemma sbe_val_minimal:
  assumes min: "asn1_int_minimal p" and len: "length p = Suc (Suc m)"
  shows "\<not> (- (256 ^ Suc m) \<le> 2 * sbe_val p \<and> 2 * sbe_val p < 256 ^ Suc m)"
proof -
  obtain a q where p: "p = a # q" and q: "length q = Suc m" using len by (cases p) auto
  then have qne: "q \<noteq> []" by auto
  define K where "K = (256 :: int) ^ Suc m"
  have v: "int (be_val p) = int (unat a) * K + int (be_val q)"
    by (simp add: p be_val_Cons q K_def)
  have b: "0 \<le> int (be_val q)" "int (be_val q) < K"
    using be_val_less [of q] unfolding K_def q [symmetric] by (simp, metis of_nat_less_iff of_nat_numeral of_nat_power)
  have full: "(256 :: int) ^ length p = 256 * K" by (simp add: p q K_def)
  have q1: "p ! 1 = hd q" using qne by (simp add: p hd_conv_nth)
  have hi: "K \<le> 2 * int (be_val q)" if "128 \<le> unat (hd q)"
    using be_val_hd(1) [OF qne that] unfolding K_def q [symmetric]
    by (metis of_nat_le_iff of_nat_mult of_nat_numeral of_nat_power)
  have lo: "2 * int (be_val q) < K" if "unat (hd q) < 128"
    using be_val_hd(2) [OF qne that] unfolding K_def q [symmetric]
    by (metis of_nat_less_iff of_nat_mult of_nat_numeral of_nat_power)
  show ?thesis
  proof (cases "128 \<le> unat a")
    case True
    then have s: "sbe_val p = int (unat a) * K + int (be_val q) - 256 * K"
      using v full by (simp add: sbe_val_def p)
    show ?thesis
    proof (cases "a = 0xff")
      case ff: True
      with min len q1 have "unat (hd q) < 128" by (auto simp: asn1_int_minimal_def p)
      then show ?thesis using s lo ff unfolding K_def [symmetric] by simp
    next
      case False
      then have "unat a \<noteq> 255" by (simp add: word_unat_eq_iff)
      with unat_u8_less [of a] have "int (unat a) \<le> 254" by linarith
      then have "int (unat a) * K \<le> 254 * K" using b by (intro mult_right_mono) auto
      then show ?thesis using s b unfolding K_def [symmetric] by linarith
    qed
  next
    case False
    then have s: "sbe_val p = int (unat a) * K + int (be_val q)"
      using v by (simp add: sbe_val_def p)
    show ?thesis
    proof (cases "a = 0")
      case True
      with min len q1 have "128 \<le> unat (hd q)" by (auto simp: asn1_int_minimal_def p)
      then show ?thesis using s hi True unfolding K_def [symmetric] by simp
    next
      case False
      then have "0 < unat a" by (simp add: unat_gt_0)
      then have "1 \<le> int (unat a)" by linarith
      then have "1 * K \<le> int (unat a) * K" using b by (intro mult_right_mono) auto
      then show ?thesis using s b unfolding K_def [symmetric] by linarith
    qed
  qed
qed

lemma asn1_int_minimal_unique:
  assumes "asn1_int_minimal p" "asn1_int_minimal q" "sbe_val p = sbe_val q"
  shows "p = q"
proof -
  have shorter: False
    if m: "asn1_int_minimal p'" "asn1_int_minimal q'" "sbe_val p' = sbe_val q'" and l: "length p' < length q'"
    for p' q'
  proof -
    have ne: "p' \<noteq> []" using m by (simp add: asn1_int_minimal_def)
    then have "1 \<le> length p'" by (cases p') auto
    with l have "length q' = Suc (Suc (length q' - 2))" "length p' \<le> Suc (length q' - 2)" by auto
    moreover from this(2) have "(256 :: int) ^ length p' \<le> 256 ^ Suc (length q' - 2)"
      by (intro power_increasing) simp_all
    ultimately show False
      using sbe_val_minimal [OF m(2), of "length q' - 2"] sbe_val_range [OF ne] m(3) by linarith
  qed
  then have l: "length p = length q"
    using assms by (metis linorder_neqE_nat)
  have "int (be_val p) < 256 ^ length p" "int (be_val q) < 256 ^ length p"
    using be_val_less [of p] be_val_less [of q] l by (metis of_nat_less_iff of_nat_numeral of_nat_power)+
  moreover have "sbe_val p = int (be_val p) \<or> sbe_val p = int (be_val p) - 256 ^ length p"
    "sbe_val q = int (be_val q) \<or> sbe_val q = int (be_val q) - 256 ^ length p"
    using l by (auto simp: sbe_val_def)
  ultimately have "int (be_val p) = int (be_val q)" using assms(3) by linarith
  then have "be_val p = be_val q" by simp
  with l show ?thesis by (intro be_val_inj)
qed

interpretation asn1_int64: strict_codec "\<lambda>_. True" "\<lambda>x. der CBS_ASN1_INTEGER (asn1_int x)" "{1}"
  "\<lambda>libc x st h. CBB_add_asn1_int64 libc 1 st h x" CBS_get_asn1_int64
proof
  fix v t x c assume "CBS_get_asn1_int64 (window v t) = (Some x, c)"
  then obtain p r where p: "v = der CBS_ASN1_INTEGER p @ r" "c = window r t" "asn1_int_minimal p" "sint x = sbe_val p"
    by (auto simp: get_asn1_int64_iff)
  then have "p = asn1_int x" using asn1_int_minimal_unique [of p "asn1_int x"] asn1_int_spec [of x] by simp
  with p show "True \<and> (\<exists>r. v = der CBS_ASN1_INTEGER (asn1_int x) @ r \<and> c = window r t)" by auto
next
  fix x v t
  show "CBS_get_asn1_int64 (window (der CBS_ASN1_INTEGER (asn1_int x) @ v) t) = (Some x, window v t)"
    using asn1_int_spec [of x] by (auto simp: get_asn1_int64_iff)
qed (rule writes_asn1_int64)

interpretation asn1_bool: strict_codec "\<lambda>_. True" "\<lambda>b. der CBS_ASN1_BOOLEAN [if b then 0xff else 0]" "{1}"
  "\<lambda>libc b st h. CBB_add_asn1_bool libc 1 st h (if b then 1 else 0)" CBS_get_asn1_bool
proof
  fix libc :: libc_malloc and b :: bool assume "libc_wf libc"
  from writes_bool [OF this, of 1 "if b then 1 else 0"]
  show "writes libc {1} (\<lambda>st h. CBB_add_asn1_bool libc 1 st h (if b then 1 else 0)) (der CBS_ASN1_BOOLEAN [if b then 0xff else 0])"
    by (cases b) simp_all
qed (auto simp: cbs_simps get_asn1_bool_iff)

text \<open>
  The base-128 integers of object identifiers, which the reader returns as 64-bit words and the
  writer takes as such.
\<close>

interpretation base128: strict_codec "\<lambda>_. True" "\<lambda>x. b128 (unat x)" "{}"
  "\<lambda>libc x st h. add_base128_integer libc st h x" parse_base128_integer
  by unfold_locales (auto simp: parse_base128_iff intro: writes_base128)

interpretation asn1_tag: strict_codec "\<lambda>_. True" der_tag "{}"
  "\<lambda>libc tag st h. add_asn1_tag libc st h tag" parse_asn1_tag
  by unfold_locales (auto simp: parse_asn1_tag_complete dest: parse_asn1_tag_sound intro: writes_asn1_tag)

end
