(* ===== verification/Oid.thy ===== *)
theory Oid
  imports Codec
begin

text \<open>
  Object identifiers as text: \<open>CBB_add_asn1_oid_from_text\<close> accepts exactly the canonical dotted
  form, and it and \<open>CBS_asn1_oid_to_text\<close> are inverse to each other.
\<close>

section \<open>Decimal numbers\<close>

lemma decimal_small: "n < 10 \<Longrightarrow> decimal n = [word_of_nat (48 + n)]"
  by (simp add: decimal.simps)

lemma decimal_step: "n \<noteq> 0 \<Longrightarrow> d < 10 \<Longrightarrow> decimal (n * 10 + d) = decimal n @ [word_of_nat (48 + d)]"
  by (subst decimal.simps) simp

text \<open>One byte that is not an accepted dot, then one digit.\<close>

lemma dotted_byte:
  "\<not> (u = 0x2e \<and> v \<noteq> []) \<Longrightarrow>
   parse_dotted_loop (window (u # v) t) out seen =
     (if u < 0x30 \<or> u > 0x39 \<or> (seen \<and> out = 0) \<or> out > (- 1) div 10 \<or> out * 10 > (- 1) - (ucast u - 0x30)
      then (None, window v t) else parse_dotted_loop (window v t) (out * 10 + (ucast u - 0x30)) True)"
  by (subst parse_dotted_loop.simps) (auto simp: cbs_simps)

lemma digit_word:
  assumes "d < 10"
  shows "unat (word_of_nat (48 + d) :: u8) = 48 + d" "ucast (word_of_nat (48 + d) :: u8) - 0x30 = (word_of_nat d :: u64)"
proof -
  show u: "unat (word_of_nat (48 + d) :: u8) = 48 + d"
    using assms by (simp add: unat_word_of_nat_u8 del: of_nat_add)
  have "unat (ucast (word_of_nat (48 + d) :: u8) :: u64) = 48 + d"
    by (subst unat_ucast_u8) (simp_all only: u, simp_all)
  then have "ucast (word_of_nat (48 + d) :: u8) = (word_of_nat (48 + d) :: u64)" by (rule word_of_natI)
  then show "ucast (word_of_nat (48 + d) :: u8) - 0x30 = (word_of_nat d :: u64)" by simp
qed

lemma overflow_tests:
  assumes "d < 10"
  shows "\<not> (out > (- 1) div 10 \<or> out * 10 > (- 1) - (word_of_nat d :: u64)) \<longleftrightarrow> unat out * 10 + d < 2 ^ 64"
proof -
  have m: "unat ((- 1 :: u64) div 10) = 1844674407370955161" by (simp add: unat_div)
  have d: "unat (word_of_nat d :: u64) = d" using assms by (simp add: unat_of_nat)
  have m1: "unat (- 1 :: u64) = 2 ^ 64 - 1" by (simp add: unsigned_minus_1_eq_mask mask_eq_exp_minus_1)
  have s: "unat ((- 1) - (word_of_nat d :: u64)) = 2 ^ 64 - 1 - d"
    using assms d by (subst unat_sub) (simp_all add: word_le_nat_alt m1)
  show ?thesis
  proof (cases "unat out \<le> 1844674407370955161")
    case True
    then have "unat (out * 10) = unat out * 10" by (subst unat_mult_lem [THEN iffD1]) simp_all
    then show ?thesis using True m s assms by (auto simp: word_less_nat_alt)
  next
    case False
    then have "\<not> unat out * 10 + d < 2 ^ 64" by simp
    moreover have "out > (- 1) div 10" unfolding word_less_nat_alt m using False by simp
    ultimately show ?thesis by simp
  qed
qed

lemma dotted_digit:
  assumes d: "d < 10" and ok: "\<not> (seen \<and> out = 0)" and fit: "unat out * 10 + d < 2 ^ 64"
  shows "parse_dotted_loop (window (word_of_nat (48 + d) # v) t) out seen =
         parse_dotted_loop (window v t) (word_of_nat (unat out * 10 + d)) True"
proof -
  let ?u = "word_of_nat (48 + d) :: u8"
  note w = digit_word [OF d]
  have "?u \<noteq> 0x2e" "\<not> ?u < 0x30" "\<not> ?u > 0x39"
    using w(1) d by (simp_all add: word_unat_eq_iff word_less_nat_alt)
  moreover have "\<not> (out > (- 1) div 10 \<or> out * 10 > (- 1) - (ucast ?u - 0x30))"
    unfolding w(2) using overflow_tests [OF d] fit by blast
  moreover have "out * 10 + (ucast ?u - 0x30) = word_of_nat (unat out * 10 + d)"
    unfolding w(2) by simp
  ultimately show ?thesis
    using ok dotted_byte [of ?u v t out seen] by metis
qed

lemma dotted_end:
  "parse_dotted_loop (window [] t) out seen = (if seen then Some out else None, window [] t)"
  "parse_dotted_loop (window (0x2e # x # v) t) out seen = (if seen then Some out else None, window (x # v) t)"
  by (subst parse_dotted_loop.simps; simp add: cbs_simps)+

lemma dotted_decimal:
  "n < 2 ^ 64 \<Longrightarrow>
   parse_dotted_loop (window (decimal n @ v) t) 0 False = parse_dotted_loop (window v t) (word_of_nat n) True"
proof (induction n arbitrary: v rule: less_induct)
  case (less n)
  show ?case
  proof (cases "n < 10")
    case True
    then show ?thesis using dotted_digit [of n False 0 v t] by (simp add: decimal_small del: of_nat_add)
  next
    case False
    define q d where "q = n div 10" and "d = n mod 10"
    have n: "n = q * 10 + d" "d < 10" "q \<noteq> 0" using False by (auto simp: q_def d_def div_eq_0_iff)
    have uq: "unat (word_of_nat q :: u64) = q" using n less.prems by (simp add: unat_of_nat)
    have "parse_dotted_loop (window (decimal n @ v) t) 0 False =
        parse_dotted_loop (window (word_of_nat (48 + d) # v) t) (word_of_nat q) True"
      unfolding n(1) decimal_step [OF n(3,2)]
      using less.IH [of q "word_of_nat (48 + d) # v"] n less.prems by (simp del: of_nat_add)
    also have "\<dots> = parse_dotted_loop (window v t) (word_of_nat (unat (word_of_nat q :: u64) * 10 + d)) True"
      by (rule dotted_digit [OF n(2)]) (use n uq less.prems in \<open>auto simp: word_unat_eq_iff\<close>)
    finally show ?thesis unfolding uq n(1) .
  qed
qed

lemma parse_dotted_complete [cbs_simps]:
  "n < 2 ^ 64 \<Longrightarrow> parse_dotted_decimal (window (decimal n) t) = (Some (word_of_nat n), window [] t)"
  "n < 2 ^ 64 \<Longrightarrow>
   parse_dotted_decimal (window (decimal n @ 0x2e # x # v) t) = (Some (word_of_nat n), window (x # v) t)"
  using dotted_decimal [of n "[]" t] dotted_decimal [of n "0x2e # x # v" t]
  by (simp_all add: parse_dotted_decimal_def dotted_end)

text \<open>The end of a component: of the string, or a dot with something behind it.\<close>

definition component_end :: "bytes \<Rightarrow> bytes \<Rightarrow> bool" where
  "component_end r rest \<longleftrightarrow> (r = [] \<and> rest = []) \<or> (r = 0x2e # rest \<and> rest \<noteq> [])"

lemma digit_of_byte:
  assumes "\<not> (u :: u8) < 0x30" "\<not> u > 0x39"
  obtains d where "d < 10" "u = word_of_nat (48 + d)"
proof -
  have b: "48 \<le> unat u" "unat u \<le> 57" using assms by (simp_all add: word_less_nat_alt)
  then have "48 + (unat u - 48) = unat u" by simp
  then have "u = word_of_nat (48 + (unat u - 48))" by (simp del: of_nat_add)
  then show thesis using that [of "unat u - 48"] b by simp
qed

lemma parse_dotted_loop_sound:
  "parse_dotted_loop (window v t) out seen = (Some x, c) \<Longrightarrow> seen \<or> out = 0 \<Longrightarrow>
   \<exists>p r rest. v = p @ r \<and> component_end r rest \<and> c = window rest t \<and>
     (if seen then decimal (unat out) else []) @ p = decimal (unat x)"
proof (induction v arbitrary: out seen)
  case Nil
  then show ?case by (auto simp: dotted_end component_end_def split: if_splits)
next
  case (Cons u v)
  show ?case
  proof (cases "u = 0x2e \<and> v \<noteq> []")
    case True
    then obtain x' v' where "v = x' # v'" by (cases v) auto
    with Cons.prems True have "seen" "x = out" "c = window v t"
      by (auto simp: dotted_end split: if_splits)
    then show ?thesis
      by (intro exI [of _ "[]"] exI [of _ "u # v"] exI [of _ v]) (use True in \<open>auto simp: component_end_def\<close>)
  next
    case False
    note unf = dotted_byte [OF False, of t out seen]
    from Cons.prems(1) unf have ok: "\<not> u < 0x30" "\<not> u > 0x39" "\<not> (seen \<and> out = 0)"
      "\<not> (out > (- 1) div 10 \<or> out * 10 > (- 1) - (ucast u - 0x30))"
      by (auto split: if_splits)
    then obtain d where d: "d < 10" "u = word_of_nat (48 + d)" using digit_of_byte by blast
    have fit: "unat out * 10 + d < 2 ^ 64"
      using ok(4) overflow_tests [OF d(1), of out] unfolding d(2) digit_word(2) [OF d(1)] by blast
    let ?out = "word_of_nat (unat out * 10 + d) :: u64"
    have uo: "unat ?out = unat out * 10 + d" using fit by (simp add: unat_of_nat del: of_nat_add of_nat_mult)
    have "parse_dotted_loop (window v t) ?out True = (Some x, c)"
      using dotted_digit [OF d(1) ok(3) fit, of v t] Cons.prems(1) d(2) by simp
    from Cons.IH [OF this] obtain p r rest where p: "v = p @ r" "component_end r rest" "c = window rest t"
      "decimal (unat out * 10 + d) @ p = decimal (unat x)" unfolding uo by auto
    have "decimal (unat out * 10 + d) = (if seen then decimal (unat out) else []) @ [u]"
    proof (cases seen)
      case True
      with ok(3) have "unat out \<noteq> 0" by (auto simp: unat_eq_zero)
      then show ?thesis using True d decimal_step [of "unat out" d] by simp
    next
      case False
      with Cons.prems(2) have "out = 0" by simp
      then show ?thesis using False d by (simp add: decimal_small)
    qed
    with p have "(if seen then decimal (unat out) else []) @ u # p = decimal (unat x)" by simp
    with p show ?thesis by (intro exI [of _ "u # p"] exI [of _ r] exI [of _ rest]) simp
  qed
qed

lemma parse_dotted_sound:
  assumes "parse_dotted_decimal (window v t) = (Some x, c)"
  obtains r rest where "v = decimal (unat x) @ r" "component_end r rest" "c = window rest t"
  using parse_dotted_loop_sound [of v t 0 False x c] assms by (auto simp: parse_dotted_decimal_def)


section \<open>Contents and text\<close>

definition oid_contents :: "nat \<Rightarrow> nat list \<Rightarrow> bytes" where
  "oid_contents n ns = b128 n @ concat (map b128 ns)"

definition dotted :: "nat list \<Rightarrow> bytes" where
  "dotted ns = concat (map (\<lambda>m. 0x2e # decimal m) ns)"

definition oid_text :: "nat \<Rightarrow> nat list \<Rightarrow> bytes" where
  "oid_text n ns =
     (if n \<ge> 80 then [0x32, 0x2e] @ decimal (n - 80)
      else decimal (n div 40) @ [0x2e] @ decimal (n mod 40)) @ dotted ns"

definition oid_ok :: "nat \<Rightarrow> nat list \<Rightarrow> bool" where
  "oid_ok n ns \<longleftrightarrow> n < 2 ^ 64 \<and> (\<forall>m \<in> set ns. m < 2 ^ 64)"

lemma decimal_nonempty [simp]: "decimal n \<noteq> []"
  by (subst decimal.simps) simp

lemma length_decimal: "n < 10 ^ Suc k \<Longrightarrow> length (decimal n) \<le> Suc k"
proof (induction k arbitrary: n)
  case 0
  then show ?case by (simp add: decimal_small)
next
  case (Suc k)
  then have "n div 10 < 10 ^ Suc k" by (simp add: less_mult_imp_div_less)
  then have "length (decimal (n div 10)) \<le> Suc k" by (rule Suc.IH)
  then show ?case by (subst decimal.simps) simp
qed

lemma b128_nonempty [simp]: "b128 n \<noteq> []"
  by (simp add: b128_def)

lemma dotted_simps [simp]: "dotted [] = []" "dotted (m # ns) = 0x2e # decimal m @ dotted ns"
  by (simp_all add: dotted_def)

section \<open>From contents to text\<close>

lemma writes_decimal:
  assumes "libc_wf libc"
  shows "writes libc {} (\<lambda>st h. add_decimal libc st h v) (decimal (unat v))"
proof -
  have "unat v < 10 ^ Suc 19" using word_size_less(4) [of v] by simp
  then have "length (decimal (unat v)) \<le> Suc 19" by (rule length_decimal)
  then show ?thesis
    unfolding add_decimal_def Let_def
    using writes_bytes [OF assms, of "length (decimal (unat v))" "decimal (unat v)"] by (simp add: ADDRESS_SPACE_def)
qed

lemma writes_text_first:
  assumes "libc_wf libc"
  shows "writes libc {} (\<lambda>st h. oid_text_first libc st h v) (oid_text (unat v) [])"
proof (cases "v \<ge> 80")
  case True
  then have u: "unat (v - 80) = unat v - 80" by (subst unat_sub) simp_all
  have "(\<lambda>st h. oid_text_first libc st h v) =
      seq_writer (\<lambda>st h. CBB_add_bytes libc st h [0x32, 0x2e] 2) (\<lambda>st h. add_decimal libc st h (v - 80))"
    using True by (simp add: fun_eq_iff oid_text_first_def seq_writer_def [abs_def])
  moreover have "writes libc {} (\<lambda>st h. CBB_add_bytes libc st h [0x32, 0x2e] 2) [0x32, 0x2e]"
    using writes_bytes [OF assms, of 2 "[0x32, 0x2e]"] by (simp add: ADDRESS_SPACE_def)
  ultimately show ?thesis
    using writes_seq [OF _ writes_decimal [OF assms, of "v - 80"]] True by (force simp: oid_text_def u word_le_nat_alt)
next
  case False
  have u: "unat (v div 40) = unat v div 40" "unat (v mod 40) = unat v mod 40"
    by (simp_all add: unat_div unat_mod)
  have "(\<lambda>st h. oid_text_first libc st h v) =
      seq_writer (\<lambda>st h. add_decimal libc st h (v div 40))
        (seq_writer (\<lambda>st h. CBB_add_u8 libc st h 0x2e) (\<lambda>st h. add_decimal libc st h (v mod 40)))"
    using False by (simp add: fun_eq_iff oid_text_first_def seq_writer_def [abs_def])
  moreover have "writes libc {} (seq_writer (\<lambda>st h. add_decimal libc st h (v div 40))
        (seq_writer (\<lambda>st h. CBB_add_u8 libc st h 0x2e) (\<lambda>st h. add_decimal libc st h (v mod 40))))
      (decimal (unat (v div 40)) @ [0x2e] @ decimal (unat (v mod 40)))"
    by (intro writes_seq writes_decimal writes_words assms)
  ultimately show ?thesis using False by (simp add: oid_text_def u word_le_nat_alt)
qed

lemma oid_text_loop_simps:
  "oid_text_loop libc st h (window [] t) = (True, st)"
  "m < 2 ^ 64 \<Longrightarrow> oid_text_loop libc st h (window (b128 m @ v) t) =
     seq_writer (\<lambda>st h. CBB_add_u8 libc st h 0x2e) (seq_writer (\<lambda>st h. add_decimal libc st h (word_of_nat m))
       (\<lambda>st h. oid_text_loop libc st h (window v t))) st h"
  by (subst oid_text_loop.simps; simp add: cbs_simps parse_base128_complete seq_writer_def [abs_def])+

lemma here_text_loop:
  "libc_wf libc \<Longrightarrow> \<forall>m \<in> set ns. m < 2 ^ 64 \<Longrightarrow>
   writes_here libc (\<lambda>st h. oid_text_loop libc st h (window (concat (map b128 ns)) t)) (dotted ns)"
proof (induction ns)
  case Nil
  then show ?case using writes_here_return by (simp add: oid_text_loop_simps)
next
  case (Cons m ns)
  have u: "unat (word_of_nat m :: u64) = m" using Cons.prems by (simp add: unat_of_nat)
  have "writes_here libc (seq_writer (\<lambda>st h. CBB_add_u8 libc st h 0x2e) (seq_writer (\<lambda>st h. add_decimal libc st h (word_of_nat m))
       (\<lambda>st h. oid_text_loop libc st h (window (concat (map b128 ns)) t))))
     ([0x2e] @ decimal (unat (word_of_nat m :: u64)) @ dotted ns)"
    using Cons by (intro here_then_here here_add_u8 writes_imp_here [OF writes_decimal]) auto
  then show ?case using Cons.prems by (simp add: oid_text_loop_simps u)
qed

lemma text_loop_sound:
  "oid_text_loop libc st h (window r t) = (True, st') \<Longrightarrow> \<exists>ns. r = concat (map b128 ns) \<and> (\<forall>m \<in> set ns. m < 2 ^ 64)"
proof (induction "length r" arbitrary: r st rule: less_induct)
  case less
  show ?case
  proof (cases "r = []")
    case True
    then show ?thesis by (intro exI [of _ "[]"]) simp
  next
    case False
    with less.prems obtain v c where p: "parse_base128_integer (window r t) = (Some v, c)"
      by (subst (asm) oid_text_loop.simps) (auto simp: cbs_simps split: prod.splits option.splits)
    then obtain r' where r': "r = b128 (unat v) @ r'" by (auto simp: parse_base128_iff)
    have v: "unat v < 2 ^ 64" using word_size_less(4) [of v] by simp
    have "\<exists>st1. oid_text_loop libc st1 h (window r' t) = (True, st')"
      using less.prems unfolding r' oid_text_loop_simps(2) [OF v]
      by (auto simp: seq_writer_def split: prod.splits bool.splits)
    moreover have "length r' < length r" unfolding r' using b128_nonempty [of "unat v"] by (simp del: b128_nonempty)
    ultimately obtain ns where "r' = concat (map b128 ns)" "\<forall>m \<in> set ns. m < 2 ^ 64" using less.hyps by blast
    with v r' show ?thesis by (intro exI [of _ "unat v # ns"]) simp
  qed
qed

lemma concat_b128_inj:
  "\<forall>m \<in> set ns. m < 2 ^ 64 \<Longrightarrow> \<forall>m \<in> set ms. m < 2 ^ 64 \<Longrightarrow>
   concat (map b128 ns) = concat (map b128 ms) \<Longrightarrow> ns = ms"
proof (induction ns arbitrary: ms)
  case Nil
  then show ?case by (cases ms) auto
next
  case (Cons n ns)
  obtain m ms' where ms: "ms = m # ms'" using Cons.prems(3) b128_nonempty by (cases ms) simp_all
  have u: "unat (word_of_nat n :: u64) = n" "unat (word_of_nat m :: u64) = m"
    using Cons.prems by (simp_all add: ms unat_of_nat)
  have "(word_of_nat n :: u64) = word_of_nat m \<and> concat (map b128 ns) = concat (map b128 ms')"
    by (rule base128.prefix_free) (use Cons.prems(3) u ms in simp_all)
  then show ?case using Cons u ms by (metis list.set_intros(2))
qed

lemma oid_contents_inj:
  "oid_ok n ns \<Longrightarrow> oid_ok m ms \<Longrightarrow> oid_contents n ns = oid_contents m ms \<Longrightarrow> n = m \<and> ns = ms"
  using concat_b128_inj [of "n # ns" "m # ms"] by (simp add: oid_ok_def oid_contents_def)

text \<open>The conversion is correct whenever it returns, and it returns when the text fits in the first
  allocation.\<close>

lemma oid_to_text_cases:
  assumes libc: "libc_wf libc"
  shows "case CBS_asn1_oid_to_text libc (window oid t) of
      Some txt \<Rightarrow> (\<exists>n ns. oid_ok n ns \<and> oid = oid_contents n ns \<and>
                      take (Suc (length (oid_text n ns))) txt = oid_text n ns @ [0])
    | None \<Rightarrow> (\<forall>n ns. oid_ok n ns \<and> oid = oid_contents n ns \<longrightarrow>
                  \<not> fst (CBB_init libc fresh_cbb_mem 0 32) \<or> 32 < Suc (length (oid_text n ns)))"
proof (cases "\<exists>n ns. oid_ok n ns \<and> oid = oid_contents n ns")
  case False
  have "CBS_asn1_oid_to_text libc (window oid t) = None"
  proof (rule ccontr)
    assume "CBS_asn1_oid_to_text libc (window oid t) \<noteq> None"
    then obtain v c1 st1 st2 where p: "parse_base128_integer (window oid t) = (Some v, c1)"
      and l: "oid_text_loop libc st1 0 c1 = (True, st2)"
      by (auto simp: CBS_asn1_oid_to_text_def split: prod.splits bool.splits option.splits)
    from p obtain r where r: "oid = b128 (unat v) @ r" "c1 = window r t" by (auto simp: parse_base128_iff)
    with l obtain ns where "r = concat (map b128 ns)" "\<forall>m \<in> set ns. m < 2 ^ 64"
      using text_loop_sound by blast
    with r False word_size_less(4) [of v] show False by (auto simp: oid_ok_def oid_contents_def)
  qed
  with False show ?thesis by auto
next
  case True
  then obtain n ns where ok: "oid_ok n ns" and oid: "oid = oid_contents n ns" by blast
  have n: "n < 2 ^ 64" "unat (word_of_nat n :: u64) = n" and ns: "\<forall>m \<in> set ns. m < 2 ^ 64"
    using ok by (auto simp: oid_ok_def unat_of_nat)
  have p: "parse_base128_integer (window oid t) = (Some (word_of_nat n), window (concat (map b128 ns)) t)"
    unfolding oid oid_contents_def by (rule parse_base128_complete [OF n(1)])
  define op where "op = seq_writer (\<lambda>st h. oid_text_first libc st h (word_of_nat n))
     (seq_writer (\<lambda>st h. oid_text_loop libc st h (window (concat (map b128 ns)) t)) (\<lambda>st h. CBB_add_u8 libc st h 0))"
  have "writes libc {} op (oid_text (unat (word_of_nat n :: u64)) [] @ dotted ns @ [0])"
    unfolding op_def
    by (intro writes_then_here writes_text_first here_then_here here_text_loop here_add_u8 libc ns)
  then have w: "writes libc {} op (oid_text n ns @ [0])" using n(2) by (simp add: oid_text_def)
  have unf: "CBS_asn1_oid_to_text libc (window oid t) =
     (case CBB_init libc fresh_cbb_mem 0 32 of (False, _) \<Rightarrow> None
      | (True, st) \<Rightarrow> (case op st 0 of (False, _) \<Rightarrow> None
         | (True, st3) \<Rightarrow> (case CBB_finish libc st3 0 True True of
              (None, _) \<Rightarrow> None | (Some (txt, txt_len), _) \<Rightarrow> txt)))"
    unfolding CBS_asn1_oid_to_text_def p op_def seq_writer_def
    by (auto split: prod.splits bool.splits)
  show ?thesis
  proof (cases "CBB_init libc fresh_cbb_mem 0 32")
    case (Pair ok1 st1)
    show ?thesis
    proof (cases ok1)
      case False
      then show ?thesis using Pair by (simp add: unf)
    next
      case True
      then have "CBB_init libc fresh_cbb_mem 0 32 = (True, st1)" using Pair by simp
      note init = init_rep [OF libc _ _ this]
      have rep1: "cbb_rep st1 ([] @ [0]) ([] @ [(Top, [])])" and cap: "base_cap st1 = 32"
        using init by (simp_all add: fresh_cbb_mem_def ADDRESS_SPACE_def)
      have r: "cbb_result libc st1 [0] (Some [(Top, oid_text n ns @ [0])]) (op st1 0)"
        using writesD_last [OF w rep1] by simp
      obtain ok2 st2 where st2: "op st1 0 = (ok2, st2)" by fastforce
      show ?thesis
      proof (cases ok2)
        case False
        then have "32 < Suc (length (oid_text n ns))" using r st2 cap by (auto simp: cbb_result_def dest: outgrownD)
        moreover have "CBS_asn1_oid_to_text libc (window oid t) = None"
          using False Pair True st2 by (simp add: unf)
        ultimately show ?thesis using oid_contents_inj [OF ok] oid by auto
      next
        case ok2: True
        with r st2 have rep2: "cbb_rep st2 [0] [(Top, oid_text n ns @ [0])]" by (auto simp: cbb_result_def)
        have "length (oid_text n ns @ [0]) \<le> base_cap st2"
          using rep2 length_valid_bytes [of st2] by (auto simp: cbb_rep_def buf_ok_def)
        then obtain m k st3 where f: "CBB_finish libc st2 0 True True = (Some (Some m, k), st3)"
          "k \<le> length m" "take k m = oid_text n ns @ [0]"
          using finish_result [OF rep2 libc] by (auto split: prod.splits option.splits)
        then have "k = Suc (length (oid_text n ns))"
          by (metis length_append_singleton length_take min_absorb2)
        moreover have "CBS_asn1_oid_to_text libc (window oid t) = Some m"
          using f ok2 Pair True st2 by (simp add: unf)
        moreover have "take k m = take (Suc (length (oid_text n ns))) m" using f calculation by simp
        ultimately show ?thesis using f(3) ok oid by auto
      qed
    qed
  qed
qed

section \<open>From text to contents\<close>

definition tail_text :: "nat list \<Rightarrow> bytes" where
  "tail_text ns = (case ns of [] \<Rightarrow> [] | m # ms \<Rightarrow> decimal m @ dotted ms)"

lemma dotted_tail: "dotted (m # ns) = 0x2e # tail_text (m # ns)"
  by (simp add: tail_text_def)

lemma parse_component:
  assumes "n < 2 ^ 64"
  shows "parse_dotted_decimal (window (decimal n @ dotted ns) t) = (Some (word_of_nat n), window (tail_text ns) t)"
proof (cases ns)
  case Nil
  then show ?thesis using assms by (simp add: tail_text_def cbs_simps)
next
  case (Cons m ms)
  obtain x v where "tail_text (m # ms) = x # v"
    by (cases "tail_text (m # ms)") (simp_all add: tail_text_def)
  then show ?thesis
    using assms parse_dotted_complete(2) [of n x v t] unfolding Cons dotted_tail by simp
qed

lemma components_loop_simps:
  "oid_components_loop libc st h (window (tail_text []) t) = (True, st)"
  "m < 2 ^ 64 \<Longrightarrow> oid_components_loop libc st h (window (tail_text (m # ns)) t) =
     seq_writer (\<lambda>st h. add_base128_integer libc st h (word_of_nat m))
       (\<lambda>st h. oid_components_loop libc st h (window (tail_text ns) t)) st h"
proof -
  show "oid_components_loop libc st h (window (tail_text []) t) = (True, st)"
    by (subst oid_components_loop.simps) (simp add: cbs_simps tail_text_def)
  have "tail_text (m # ns) = decimal m @ dotted ns" by (simp add: tail_text_def)
  then show "m < 2 ^ 64 \<Longrightarrow> oid_components_loop libc st h (window (tail_text (m # ns)) t) =
     seq_writer (\<lambda>st h. add_base128_integer libc st h (word_of_nat m))
       (\<lambda>st h. oid_components_loop libc st h (window (tail_text ns) t)) st h"
    by (subst oid_components_loop.simps) (simp add: cbs_simps parse_component seq_writer_def)
qed

lemma here_components:
  "libc_wf libc \<Longrightarrow> \<forall>m \<in> set ns. m < 2 ^ 64 \<Longrightarrow>
   writes_here libc (\<lambda>st h. oid_components_loop libc st h (window (tail_text ns) t)) (concat (map b128 ns))"
proof (induction ns)
  case Nil
  then show ?case using writes_here_return by (simp add: components_loop_simps)
next
  case (Cons m ns)
  have u: "unat (word_of_nat m :: u64) = m" using Cons.prems by (simp add: unat_of_nat)
  have "writes_here libc (seq_writer (\<lambda>st h. add_base128_integer libc st h (word_of_nat m))
       (\<lambda>st h. oid_components_loop libc st h (window (tail_text ns) t)))
     (b128 (unat (word_of_nat m :: u64)) @ concat (map b128 ns))"
    using Cons by (intro here_then_here writes_imp_here [OF writes_base128]) auto
  then show ?case using Cons.prems by (simp add: components_loop_simps u)
qed

lemma component_end_cases:
  assumes "component_end r (tail_text ns)"
  shows "r = dotted ns"
  using assms by (cases ns) (auto simp: component_end_def tail_text_def)

lemma components_loop_sound:
  "oid_components_loop libc st h (window w t) = (True, st') \<Longrightarrow>
   \<exists>ns. w = tail_text ns \<and> (\<forall>m \<in> set ns. m < 2 ^ 64)"
proof (induction "length w" arbitrary: w st rule: less_induct)
  case less
  show ?case
  proof (cases "w = []")
    case True
    then show ?thesis by (intro exI [of _ "[]"]) (simp add: tail_text_def)
  next
    case False
    with less.prems obtain v c st1 where p: "parse_dotted_decimal (window w t) = (Some v, c)"
      and l: "oid_components_loop libc st1 h c = (True, st')"
      by (subst (asm) oid_components_loop.simps) (auto simp: cbs_simps split: prod.splits option.splits bool.splits)
    from parse_dotted_sound [OF p] obtain r rest where r: "w = decimal (unat v) @ r" "component_end r rest"
      "c = window rest t" by blast
    have "length rest < length w"
      using r(1,2) decimal_nonempty [of "unat v"] by (cases "decimal (unat v)") (auto simp: component_end_def)
    with less.hyps l r(3) obtain ns where ns: "rest = tail_text ns" "\<forall>m \<in> set ns. m < 2 ^ 64" by blast
    with r have "w = tail_text (unat v # ns)" using component_end_cases by (auto simp: tail_text_def)
    then show ?thesis using ns word_size_less(4) [of v] by (intro exI [of _ "unat v # ns"]) simp
  qed
qed

text \<open>The first two components.\<close>

lemma first_component:
  assumes "oid_ok n ns"
  obtains a b where "oid_text n ns = decimal a @ 0x2e # decimal b @ dotted ns" "a < 2 ^ 64" "b < 2 ^ 64"
    "n = 40 * a + b" "a \<le> 2" "a < 2 \<longrightarrow> b \<le> 39"
proof (cases "n \<ge> 80")
  case True
  have "decimal 2 = [0x32]" by (simp add: decimal_small)
  then have "oid_text n ns = decimal 2 @ 0x2e # decimal (n - 80) @ dotted ns"
    using True by (simp add: oid_text_def)
  moreover have "n - 80 < 2 ^ 64" using assms unfolding oid_ok_def by linarith
  ultimately show thesis using that [of 2 "n - 80"] True by simp
next
  case False
  have "n div 40 < 2" "n mod 40 \<le> 39" using False by simp_all
  then show thesis using that [of "n div 40" "n mod 40"] False by (simp add: oid_text_def)
qed

lemma first_component_unique:
  assumes "n = 40 * a + b" "a \<le> 2" "a < 2 \<longrightarrow> b \<le> 39"
  shows "oid_text n ns = decimal a @ 0x2e # decimal b @ dotted ns"
proof (cases "a = 2")
  case True
  have "decimal 2 = [0x32]" by (simp add: decimal_small)
  then show ?thesis using True assms by (simp add: oid_text_def)
next
  case False
  with assms have "a < 2" "b \<le> 39" by auto
  then have "n div 40 = a" "n mod 40 = b" "\<not> n \<ge> 80" using assms(1) by simp_all
  then show ?thesis by (simp add: oid_text_def)
qed


lemma minus_81: "unat ((- 1) - 80 :: u64) = 2 ^ 64 - 81"
  by (subst unat_sub) (simp_all add: word_le_nat_alt unsigned_minus_1_eq_mask mask_eq_exp_minus_1)

lemma writes_oid_from_text:
  assumes libc: "libc_wf libc" and ok: "oid_ok n ns"
  shows "writes libc {} (\<lambda>st h. CBB_add_asn1_oid_from_text libc st h (oid_text n ns @ t) (length (oid_text n ns)))
           (oid_contents n ns)"
proof -
  obtain a b where txt_eq: "oid_text n ns = decimal a @ dotted (b # ns)" and ab: "a < 2 ^ 64" "b < 2 ^ 64"
    "n = 40 * a + b" "a \<le> 2" "a < 2 \<longrightarrow> b \<le> 39"
    using first_component [OF ok] by auto
  have n: "n < 2 ^ 64" "unat (word_of_nat n :: u64) = n" and ns: "\<forall>m \<in> set ns. m < 2 ^ 64"
    using ok by (auto simp: oid_ok_def unat_of_nat)
  have u: "unat (word_of_nat a :: u64) = a" "unat (word_of_nat b :: u64) = b" using ab by (simp_all add: unat_of_nat)
  have p1: "parse_dotted_decimal (CBS_init (oid_text n ns @ t) (length (oid_text n ns))) =
      (Some (word_of_nat a), window (tail_text (b # ns)) t)"
    unfolding CBS_init_window txt_eq by (rule parse_component [OF ab(1)])
  have "tail_text (b # ns) = decimal b @ dotted ns" by (simp add: tail_text_def)
  then have p2: "parse_dotted_decimal (window (tail_text (b # ns)) t) = (Some (word_of_nat b), window (tail_text ns) t)"
    using parse_component [OF ab(2)] by simp
  have tests: "\<not> ((word_of_nat a :: u64) > 2 \<or> ((word_of_nat a :: u64) < 2 \<and> (word_of_nat b :: u64) > 39) \<or>
      (word_of_nat b :: u64) > (- 1) - 80)"
    unfolding word_less_nat_alt minus_81 u using ab n(1) by auto
  have first: "40 * word_of_nat a + word_of_nat b = (word_of_nat n :: u64)" using ab(3) by simp
  have op: "(\<lambda>st h. CBB_add_asn1_oid_from_text libc st h (oid_text n ns @ t) (length (oid_text n ns))) =
     seq_writer (CBB_flush libc) (seq_writer (\<lambda>st h. add_base128_integer libc st h (word_of_nat n))
       (\<lambda>st h. oid_components_loop libc st h (window (tail_text ns) t)))"
    unfolding CBB_add_asn1_oid_from_text_def p1 p2 prod.case option.case first if_not_P [OF tests] seq_writer_def [abs_def] ..
  have "writes libc {} (seq_writer (CBB_flush libc) (seq_writer (\<lambda>st h. add_base128_integer libc st h (word_of_nat n))
       (\<lambda>st h. oid_components_loop libc st h (window (tail_text ns) t))))
     ([] @ b128 (unat (word_of_nat n :: u64)) @ concat (map b128 ns))"
    by (intro writes_then_here writes_flush here_then_here writes_imp_here [OF writes_base128] here_components libc ns)
  then show ?thesis unfolding op by (simp add: n(2) oid_contents_def)
qed

lemma oid_from_text_sound:
  assumes "CBB_add_asn1_oid_from_text libc st h (txt @ t) (length txt) = (True, st')"
  shows "\<exists>n ns. oid_ok n ns \<and> txt = oid_text n ns"
proof -
  from assms obtain st1 a c1 b c2 st2 where p1: "parse_dotted_decimal (window txt t) = (Some a, c1)"
    and p2: "parse_dotted_decimal c1 = (Some b, c2)"
    and tests: "\<not> (a > 2 \<or> (a < 2 \<and> b > 39) \<or> b > (- 1) - 80)"
    and l: "oid_components_loop libc st2 h c2 = (True, st')"
    unfolding CBB_add_asn1_oid_from_text_def CBS_init_window
    by (auto split: prod.splits bool.splits option.splits if_splits)
  from parse_dotted_sound [OF p1] obtain r1 w1 where r1: "txt = decimal (unat a) @ r1" "component_end r1 w1"
    "c1 = window w1 t" by blast
  from parse_dotted_sound [OF p2 [unfolded r1(3)]] obtain r2 w2 where r2: "w1 = decimal (unat b) @ r2"
    "component_end r2 w2" "c2 = window w2 t" by blast
  from components_loop_sound [OF l [unfolded r2(3)]] obtain ns where ns: "w2 = tail_text ns"
    "\<forall>m \<in> set ns. m < 2 ^ 64" by blast
  have "w1 = tail_text (unat b # ns)"
    using r2 ns component_end_cases by (auto simp: tail_text_def)
  then have txt_eq: "txt = decimal (unat a) @ dotted (unat b # ns)"
    using r1 component_end_cases [of r1 "unat b # ns"] by simp
  let ?n = "40 * unat a + unat b"
  have t1: "unat a \<le> 2" "unat a < 2 \<longrightarrow> unat b \<le> 39" "unat b \<le> 2 ^ 64 - 81"
    using tests minus_81 unfolding word_less_nat_alt by auto
  then have "txt = oid_text ?n ns" using first_component_unique [of ?n "unat a" "unat b" ns] txt_eq by simp
  moreover have "oid_ok ?n ns" using t1 ns(2) by (auto simp: oid_ok_def)
  ultimately show ?thesis by blast
qed

end
