(* ===== verification/Comparator.thy ===== *)
theory Comparator
  imports Cbb_Asn1 "HOL-Library.Multiset"
begin

text \<open>
  The contract of a C comparison function, as \<open>qsort\<close>, \<open>CBB_flush_asn1_set_of\<close> and the sorted stacks
  of \<open>stack.c\<close> rely on it: opposite signs for exchanged arguments, and transitivity, on the elements
  it is meant for. \<open>qsort\<close> then sorts, and the matches of a value in a sorted list lie together.
\<close>

locale comparator =
  fixes ok :: "'a \<Rightarrow> bool"
    and cmp :: "'a \<Rightarrow> 'a \<Rightarrow> int"
  assumes opposite: "ok a \<Longrightarrow> ok b \<Longrightarrow> sgn (cmp b a) = - sgn (cmp a b)"
    and transitive: "ok a \<Longrightarrow> ok b \<Longrightarrow> ok c \<Longrightarrow> cmp a b \<le> 0 \<Longrightarrow> cmp b c \<le> 0 \<Longrightarrow> cmp a c \<le> 0"
begin

abbreviation ascending :: "'a list \<Rightarrow> bool" where
  "ascending \<equiv> sorted_wrt (\<lambda>a b. cmp a b \<le> 0)"

lemma swap_less: "ok a \<Longrightarrow> ok b \<Longrightarrow> 0 < cmp a b \<longleftrightarrow> cmp b a < 0"
  using opposite [of a b] by (auto simp: sgn_if split: if_splits)

lemma swap_zero: "ok a \<Longrightarrow> ok b \<Longrightarrow> cmp a b = 0 \<longleftrightarrow> cmp b a = 0"
  using opposite [of a b] by (auto simp: sgn_if split: if_splits)

lemma linear: "ok a \<Longrightarrow> ok b \<Longrightarrow> cmp a b \<le> 0 \<or> cmp b a \<le> 0"
  using swap_less [of a b] by linarith

lemma qsort_insert_mset: "mset (qsort_insert cmp x xs) = add_mset x (mset xs)"
  by (induction xs) auto

lemma qsort_mset: "mset (qsort cmp xs) = mset xs"
  unfolding qsort_def by (induction xs) (simp_all add: qsort_insert_mset)

lemma qsort_insert_ascending:
  "ok x \<Longrightarrow> \<forall>y \<in> set xs. ok y \<Longrightarrow> ascending xs \<Longrightarrow> ascending (qsort_insert cmp x xs)"
proof (induction xs)
  case (Cons y ys)
  have mem: "set (qsort_insert cmp x ys) = insert x (set ys)"
    using qsort_insert_mset [of x ys] by (metis set_mset_add_mset_insert set_mset_mset)
  show ?case
  proof (cases "cmp x y \<le> 0")
    case True
    then show ?thesis using Cons.prems transitive [of x y] by auto
  next
    case False
    then have "cmp y x \<le> 0" using linear [of x y] Cons.prems by auto
    then show ?thesis using False Cons mem by auto
  qed
qed simp

lemma qsort_ascending: "\<forall>y \<in> set xs. ok y \<Longrightarrow> ascending (qsort cmp xs)"
proof (induction xs)
  case (Cons x xs)
  have "set (qsort cmp xs) = set xs" using qsort_mset [of xs] by (metis set_mset_mset)
  then show ?case using Cons qsort_insert_ascending [of x "qsort cmp xs"] by (simp add: qsort_def)
qed (simp add: qsort_def)

text \<open>On an ascending list the matches of \<open>p\<close> lie together, between smaller and greater elements.\<close>

lemma below:
  assumes "ascending xs" and "\<forall>y \<in> set xs. ok y" and "ok p" and "i \<le> j" "j < length xs" and "0 < cmp p (xs ! j)"
  shows "0 < cmp p (xs ! i)"
proof (rule ccontr)
  assume "\<not> 0 < cmp p (xs ! i)"
  moreover have "cmp (xs ! i) (xs ! j) \<le> 0"
  proof (cases "i = j")
    case True
    then show ?thesis using assms(2,5) linear [of "xs ! j" "xs ! j"] by auto
  next
    case False
    then show ?thesis using assms by (auto simp: sorted_wrt_iff_nth_less)
  qed
  ultimately show False using transitive [of p "xs ! i" "xs ! j"] assms by (simp add: nth_mem)
qed

lemma above:
  assumes "ascending xs" and "\<forall>y \<in> set xs. ok y" and "ok p" and "i \<le> j" "j < length xs" and "cmp p (xs ! i) < 0"
  shows "cmp p (xs ! j) < 0"
proof (rule ccontr)
  assume "\<not> cmp p (xs ! j) < 0"
  then have "cmp (xs ! j) p \<le> 0"
    using swap_less [of "xs ! j" p] assms by (meson not_less nth_mem linorder_not_le)
  moreover have "cmp (xs ! i) (xs ! j) \<le> 0"
  proof (cases "i = j")
    case True
    then show ?thesis using assms(2,5) linear [of "xs ! j" "xs ! j"] by auto
  next
    case False
    then show ?thesis using assms by (auto simp: sorted_wrt_iff_nth_less)
  qed
  ultimately have "cmp (xs ! i) p \<le> 0" using transitive [of "xs ! i" "xs ! j" p] assms by (simp add: nth_mem)
  then show False using swap_less [of "xs ! i" p] assms by (simp add: nth_mem)
qed

end

end
