(* ===== verification/Set_Of.thy ===== *)
theory Set_Of
  imports Codec Comparator "HOL-Library.List_Lexorder"
begin

text \<open>
  \<open>CBB_flush_asn1_set_of\<close> sorts the elements of a \<open>SET OF\<close>: the contents become the concatenation
  of the same encodings in ascending order of their bytes, and stay as they were where it fails.
\<close>

section \<open>The order of encodings\<close>

lemma memcmp_prefix:
  "n \<le> length a \<Longrightarrow> n \<le> length b \<Longrightarrow>
   (memcmp a b n = 0 \<longleftrightarrow> take n a = take n b) \<and> (memcmp a b n < 0 \<longleftrightarrow> take n a < take n b)"
proof (induction a b n rule: memcmp.induct)
  case (1 a as b bs n)
  then show ?case by auto
qed auto

lemma list_less_prefix: "(xs :: bytes) @ y # ys > xs"
  by (induction xs) auto

lemma take_less_imp_less:
  "take n a < take n (b :: bytes) \<Longrightarrow> n \<le> length a \<Longrightarrow> n \<le> length b \<Longrightarrow> a < b"
proof (induction n arbitrary: a b)
  case (Suc n)
  then show ?case by (cases a; cases b) auto
qed simp

lemma compare_le_iff: "compare_set_of_element (window a s) (window b t) \<le> 0 \<longleftrightarrow> a \<le> b"
proof -
  define n where "n = (if length a < length b then length a else length b)"
  have n: "n \<le> length a" "n \<le> length b" by (auto simp: n_def)
  have m: "memcmp (a @ s) (b @ t) n = 0 \<longleftrightarrow> take n a = take n b"
    "memcmp (a @ s) (b @ t) n < 0 \<longleftrightarrow> take n a < take n b"
    using memcmp_prefix [of n "a @ s" "b @ t"] n by auto
  have unf: "compare_set_of_element (window a s) (window b t) =
      (let ret = memcmp (a @ s) (b @ t) n
       in if ret \<noteq> 0 then ret else if length a = length b then 0 else if length a < length b then - 1 else 1)"
    by (simp add: compare_set_of_element_def cbs_simps Let_def n_def)
  show ?thesis
  proof (cases "take n a = take n b")
    case True
    consider (eq) "length a = length b" | (lt) "length a < length b" | (gt) "length b < length a" by linarith
    then show ?thesis
    proof cases
      case eq
      then have "compare_set_of_element (window a s) (window b t) = 0" using True m by (simp add: unf)
      moreover have "a = b" using True eq by (simp add: n_def)
      ultimately show ?thesis by simp
    next
      case lt
      then have "a = take (length a) b" using True by (simp add: n_def)
      then obtain y ys where "b = a @ y # ys"
        using lt by (metis append_take_drop_id drop_eq_Nil list.exhaust not_le)
      then have "a < b" using list_less_prefix by simp
      then show ?thesis using True m lt by (simp add: unf less_imp_le)
    next
      case gt
      then have "b = take (length b) a" using True by (simp add: n_def)
      then obtain y ys where "a = b @ y # ys"
        using gt by (metis append_take_drop_id drop_eq_Nil list.exhaust not_le)
      then have "b < a" using list_less_prefix by simp
      then show ?thesis using True m gt by (simp add: unf)
    qed
  next
    case False
    show ?thesis
    proof (cases "take n a < take n b")
      case True
      then have "a < b" using take_less_imp_less n by blast
      then show ?thesis using m True False by (simp add: unf Let_def)
    next
      case less: False
      then have "take n b < take n a" using False by (simp add: not_less order.strict_iff_order)
      then have "b < a" using take_less_imp_less n by blast
      moreover have "memcmp (a @ s) (b @ t) n > 0" using m less False by linarith
      ultimately show ?thesis using False m by (simp add: unf Let_def)
    qed
  qed
qed

lemma compare_eq_iff: "compare_set_of_element (window a s) (window b t) = 0 \<longleftrightarrow> a = b"
proof -
  define n where "n = (if length a < length b then length a else length b)"
  have n: "n \<le> length a" "n \<le> length b" by (auto simp: n_def)
  have m: "memcmp (a @ s) (b @ t) n = 0 \<longleftrightarrow> take n a = take n b"
    using memcmp_prefix [of n "a @ s" "b @ t"] n by auto
  show ?thesis
    using m by (auto simp: compare_set_of_element_def cbs_simps Let_def n_def)
qed

lemma compare_views:
  assumes "cbs_wf c" "cbs_wf d"
  shows "compare_set_of_element c d \<le> 0 \<longleftrightarrow> cbs_view c \<le> cbs_view d"
    and "compare_set_of_element c d = 0 \<longleftrightarrow> cbs_view c = cbs_view d"
proof -
  obtain a s where "c = window a s" using cbs_wf_cases [OF assms(1)] by blast
  moreover obtain b t where "d = window b t" using cbs_wf_cases [OF assms(2)] by blast
  ultimately show "compare_set_of_element c d \<le> 0 \<longleftrightarrow> cbs_view c \<le> cbs_view d"
    "compare_set_of_element c d = 0 \<longleftrightarrow> cbs_view c = cbs_view d"
    by (simp_all add: compare_le_iff compare_eq_iff)
qed

interpretation set_of: comparator cbs_wf compare_set_of_element
proof
  fix a b assume ab: "cbs_wf a" "cbs_wf b"
  show "sgn (compare_set_of_element b a) = - sgn (compare_set_of_element a b)"
    using compare_views [OF ab] compare_views [OF ab(2,1)] by (auto simp: sgn_if)
qed (auto simp: compare_views)

lemma qsort_views:
  assumes "\<forall>c \<in> set cs. cbs_wf c"
  shows "map cbs_view (qsort compare_set_of_element cs) = sort (map cbs_view cs)"
    and "\<forall>c \<in> set (qsort compare_set_of_element cs). cbs_wf c"
proof -
  let ?s = "qsort compare_set_of_element cs"
  have s: "set ?s = set cs" using set_of.qsort_mset [of cs] by (metis set_mset_mset)
  then show wf: "\<forall>c \<in> set ?s. cbs_wf c" using assms by simp
  have "sorted_wrt (\<lambda>c d. cbs_view c \<le> cbs_view d) ?s"
    using set_of.qsort_ascending [OF assms] by (rule sorted_wrt_mono_rel [rotated]) (use wf compare_views(1) in blast)
  then have "sorted (map cbs_view ?s)" by (simp add: sorted_map)
  moreover have "mset (map cbs_view ?s) = mset (map cbs_view cs)" using set_of.qsort_mset [of cs] by simp
  ultimately show "map cbs_view ?s = sort (map cbs_view cs)" by (metis properties_for_sort)
qed

section \<open>Splitting the contents\<close>

definition is_der :: "bytes \<Rightarrow> bool" where
  "is_der e \<longleftrightarrow> (\<exists>tag body. e = der tag body \<and> length body < 2 ^ 32)"

lemma any_element_sound':
  assumes "CBS_get_any_asn1_element (window v t) = (Some (out, r), c)"
  obtains e w where "v = e @ w" "is_der e" "out = window e (w @ t)" "c = window w t"
  using assms any_element_sound [of v t out "fst r" "snd r" c]
  by (auto simp: CBS_get_any_asn1_element_def is_der_def)

lemma parse_elements_sound:
  "parse_elements (window v t) = Some cs \<Longrightarrow>
   v = concat (map cbs_view cs) \<and> (\<forall>c \<in> set cs. cbs_wf c \<and> is_der (cbs_view c))"
proof (induction "length v" arbitrary: v cs rule: less_induct)
  case less
  show ?case
  proof (cases "v = []")
    case True
    with less.prems show ?thesis by (subst (asm) parse_elements.simps) (simp add: cbs_simps)
  next
    case False
    with less.prems obtain out r c outs where p: "CBS_get_any_asn1_element (window v t) = (Some (out, r), c)"
      and rest: "parse_elements c = Some outs" and cs: "cs = out # outs"
      by (subst (asm) parse_elements.simps) (auto simp: cbs_simps split: prod.splits option.splits)
    from any_element_sound' [OF p] obtain e w where e: "v = e @ w" "is_der e" "out = window e (w @ t)" "c = window w t" .
    have "length w < length v" using e(1,2) by (auto simp: is_der_def)
    from less.hyps [OF this rest [unfolded e(4)]] show ?thesis using e cs by simp
  qed
qed

lemma parse_elements_complete:
  "\<forall>e \<in> set es. is_der e \<Longrightarrow> \<exists>cs. parse_elements (window (concat es) t) = Some cs \<and> map cbs_view cs = es"
proof (induction es)
  case Nil
  then show ?case by (subst parse_elements.simps) (simp add: cbs_simps)
next
  case (Cons e es)
  then obtain cs where cs: "parse_elements (window (concat es) t) = Some cs" "map cbs_view cs = es" by auto
  from Cons.prems obtain tag body where e: "e = der tag body" "length body < 2 ^ 32" by (auto simp: is_der_def)
  then have "parse_elements (window (concat (e # es)) t) = Some (window e (concat es @ t) # cs)"
    using cs by (subst parse_elements.simps) (simp add: cbs_simps)
  then show ?case using cs by simp
qed

section \<open>The operation\<close>

lemma here_elements:
  "libc_wf libc \<Longrightarrow> \<forall>c \<in> set cs. cbs_wf c \<and> length (cbs_view c) \<le> ADDRESS_SPACE \<Longrightarrow>
   writes_here libc (\<lambda>st h. add_elements libc st h cs) (concat (map cbs_view cs))"
proof (induction cs)
  case Nil
  then show ?case using writes_here_return by simp
next
  case (Cons c cs)
  from Cons.prems obtain v t where c: "c = window v t" "length v \<le> ADDRESS_SPACE"
    by (auto elim: cbs_wf_cases)
  have "(\<lambda>st h. add_elements libc st h (c # cs)) =
      seq_writer (\<lambda>st h. CBB_add_bytes libc st h (v @ t) (length v)) (\<lambda>st h. add_elements libc st h cs)"
    by (simp add: fun_eq_iff seq_writer_def c cbs_simps)
  moreover have "writes libc {} (\<lambda>st h. CBB_add_bytes libc st h (v @ t) (length v)) v"
    using writes_bytes [OF Cons.prems(1), of "length v" "v @ t"] c by simp
  ultimately show ?case
    using here_then_here [OF writes_imp_here Cons.IH] Cons.prems c by simp
qed

text \<open>What a builder shows of its last frame.\<close>

lemma last_frame_view:
  assumes rep: "cbb_rep st (ps @ [h]) (gs @ [(k, b)])" and len: "length ps = length gs"
  shows "take (CBB_len st h) (CBB_data st h) = b" and "CBB_len st h = length b"
    and "CBB_len st h \<le> length (CBB_data st h)"
    and "base_len st = cbb_offset (cbb_at st h) + pending_len_len (cbb_at st h) + length b"
proof -
  note at = frame_at [OF rep len]
  let ?o = "length (layout gs) + prefix_len k"
  have bl: "base_len st = ?o + length b" using cbb_rep_buf(3) [OF rep] by simp
  then show "base_len st = cbb_offset (cbb_at st h) + pending_len_len (cbb_at st h) + length b"
    by (simp add: at)
  show l: "CBB_len st h = length b" using bl by (simp add: CBB_len_def at)
  have ok: "base_len st \<le> length (base_bytes st)" using cbb_rep_buf(1) [OF rep] by (simp add: buf_ok_def)
  then show "CBB_len st h \<le> length (CBB_data st h)" using bl l by (simp add: CBB_data_def at)
  have "take (base_len st) (base_bytes st) = layout gs @ replicate (prefix_len k) 0 @ b"
    using rep by (simp add: cbb_rep_def valid_bytes_def)
  then have "drop ?o (take (base_len st) (base_bytes st)) = b" by simp
  then show "take (CBB_len st h) (CBB_data st h) = b"
    using bl l by (simp add: CBB_data_def at drop_take)
qed

lemma rewind_rep:
  assumes rep: "cbb_rep st (ps @ [h]) (gs @ [(k, b)])" and len: "length ps = length gs"
  shows "cbb_rep (st\<lparr>base_len := cbb_offset (cbb_at st h) + pending_len_len (cbb_at st h)\<rparr>)
           (ps @ [h]) (gs @ [(k, [])])" (is "cbb_rep ?st _ _")
proof -
  note bl = last_frame_view(4) [OF rep len]
  have at: "cbb_offset (cbb_at st h) + pending_len_len (cbb_at st h) = length (layout gs) + prefix_len k"
    using frame_at [OF rep len] by simp
  have "valid_bytes ?st = take (base_len ?st) (valid_bytes st)"
    using bl by (simp add: valid_bytes_def base_bytes_def min_absorb1)
  also have "\<dots> = layout (gs @ [(k, [])])" using rep at by (simp add: cbb_rep_def)
  finally have v: "valid_bytes ?st = layout (gs @ [(k, [])])" .
  have "chain_ok ?st 0 (ps @ [h]) (gs @ [(k, [])]) None = chain_ok st 0 (ps @ [h]) (gs @ [(k, [])]) None"
    by (rule chain_ok_cong) simp
  also have "\<dots>" using rep len by (simp add: cbb_rep_def chain_ok_append)
  finally have c: "chain_ok ?st 0 (ps @ [h]) (gs @ [(k, [])]) None" .
  have "buf_ok ?st" using cbb_rep_buf(1) [OF rep] bl by (simp add: buf_ok_def base_bytes_def)
  moreover have "frames_ok (gs @ [(k, [])])" using rep by (cases gs) (auto simp: cbb_rep_def frames_ok_def)
  ultimately show ?thesis using v c rep by (simp add: cbb_rep_def)
qed

lemma flush_set_of_last:
  assumes rep: "cbb_rep st1 (ps @ [h]) (gs @ [(k, concat es)])" and len: "length ps = length gs"
    and libc: "libc_wf libc" and es: "parse_elements (window (concat es) []) = Some cs" "map cbs_view cs = es"
  defines "st2 \<equiv> st1\<lparr>base_len := cbb_offset (cbb_at st1 h) + pending_len_len (cbb_at st1 h)\<rparr>"
  shows "\<exists>st'. add_elements libc st2 h (qsort compare_set_of_element cs) = (True, st') \<and>
           cbb_rep st' (ps @ [h]) (gs @ [(k, concat (sort es))])"
proof -
  have wf: "\<forall>c \<in> set cs. cbs_wf c" using parse_elements_sound [OF es(1)] by blast
  note q = qsort_views [OF wf, unfolded es(2)]
  have tot: "length (concat (sort es)) = length (concat es)"
  proof -
    have "sum_mset (mset (map length (sort es))) = sum_mset (mset (map length es))" by simp
    then have "sum_list (map length (sort es)) = sum_list (map length es)" by (simp only: sum_mset_sum_list)
    then show ?thesis by (simp add: length_concat)
  qed
  have small: "length (concat es) \<le> ADDRESS_SPACE" "length (layout (gs @ [(k, concat es)])) \<le> base_cap st1"
    using cbb_rep_buf(1,3) [OF rep] by (auto simp: buf_ok_def)
  have "length e \<le> length (concat es)" if "e \<in> set es" for e
    using that by (auto simp: length_concat intro: member_le_sum_list)
  then have "\<forall>c \<in> set (qsort compare_set_of_element cs). cbs_wf c \<and> length (cbs_view c) \<le> ADDRESS_SPACE"
    using q small(1) by (metis (no_types, lifting) image_eqI le_trans list.set_map set_sort)
  from here_elements [OF libc this] have w: "writes_here libc
      (\<lambda>st h. add_elements libc st h (qsort compare_set_of_element cs)) (concat (sort es))"
    by (simp add: q(1))
  have r: "cbb_result libc st2 (ps @ [h]) (Some (gs @ [(k, concat (sort es))]))
      (add_elements libc st2 h (qsort compare_set_of_element cs))"
    using writes_hereD [OF w rewind_rep [OF rep len] len] by (simp add: st2_def)
  have "\<not> base_cap st2 < length (layout (gs @ [(k, concat (sort es))]))"
    using small(2) tot by (simp add: st2_def)
  with r show ?thesis by (auto simp: cbb_result_def split: prod.splits if_splits)
qed


text \<open>A copy of the contents is parsed like the contents.\<close>

lemma memdup_window:
  assumes "libc_wf libc" and "OPENSSL_memdup libc d n = Some buf" and "n \<le> length d" and "n \<le> ADDRESS_SPACE"
  shows "CBS_init buf n = window (take n d) []"
proof -
  from assms(2) obtain ret where ret: "heap_malloc libc n = Some ret" "buf = mem_write ret 0 (take n d)"
    by (auto simp: OPENSSL_memdup_def split: if_splits option.splits)
  have "length ret = n"
    using heap_malloc_length [OF assms(1) _ ret(1)] assms(4) by (simp add: ADDRESS_SPACE_def HEAP_LIMIT_def)
  then have "buf = take n d" using ret(2) assms(3) by (simp add: mem_write_def)
  then show ?thesis using assms(3) CBS_init_whole [of "take n d"] by (simp add: min_absorb2)
qed

lemma flush_set_of_flushed:
  assumes rep: "cbb_rep st1 (ps @ [h]) (gs @ [(k, b)])" and len: "length ps = length gs"
    and libc: "libc_wf libc" and fl: "CBB_flush libc st h = (True, st1)"
    and r: "CBB_flush_asn1_set_of libc st h = (ok, st')"
  shows "if ok then \<exists>es. b = concat es \<and> (\<forall>e \<in> set es. is_der e) \<and> cbb_rep st' (ps @ [h]) (gs @ [(k, concat (sort es))])
         else cbb_rep st' (ps @ [h]) (gs @ [(k, b)])"
proof -
  note view = last_frame_view [OF rep len]
  let ?d = "CBB_data st1 h" let ?n = "CBB_len st1 h"
  have init: "CBS_init ?d ?n = window b (drop ?n ?d)"
    using CBS_init_split [OF view(3)] view(1) by simp
  have n: "?n \<le> ADDRESS_SPACE" using view(2) cbb_rep_buf(1,3) [OF rep] by (auto simp: buf_ok_def)
  show ?thesis
  proof (cases "parse_elements (window b (drop ?n ?d))")
    case None
    then show ?thesis using r fl rep by (auto simp: CBB_flush_asn1_set_of_def init)
  next
    case (Some counted)
    note snd = parse_elements_sound [OF Some]
    let ?es = "map cbs_view counted"
    have es: "b = concat ?es" "\<forall>e \<in> set ?es. is_der e" using snd by auto
    show ?thesis
    proof (cases "length counted < 2")
      case True
      then have "sort ?es = ?es" by (cases counted; cases "tl counted") auto
      then show ?thesis using True r fl rep es Some
        by (auto simp: CBB_flush_asn1_set_of_def init Let_def intro!: exI [of _ ?es])
    next
      case False
      obtain cs where cs: "parse_elements (window (concat ?es) []) = Some cs" "map cbs_view cs = ?es"
        using parse_elements_complete [OF es(2), of "[]"] by blast
      show ?thesis
      proof (cases "length counted > (SIZE_MOD - 1) div SIZEOF_CBS \<or> OPENSSL_memdup libc ?d ?n = None \<or>
          OPENSSL_malloc libc (length counted * SIZEOF_CBS) = None")
        case True
        then show ?thesis using r fl rep Some False
          by (auto simp: CBB_flush_asn1_set_of_def init Let_def split: if_splits option.splits)
      next
        case go: False
        then obtain buf where buf: "OPENSSL_memdup libc ?d ?n = Some buf" by auto
        have "CBS_init buf ?n = window b []"
          using memdup_window [OF libc buf view(3) n] view(1) by simp
        then have p2: "parse_elements (CBS_init buf ?n) = Some cs" using cs(1) es(1) by simp
        have "CBB_flush_asn1_set_of libc st h =
            add_elements libc (st1\<lparr>base_len := cbb_offset (cbb_at st1 h) + pending_len_len (cbb_at st1 h)\<rparr>) h
              (qsort compare_set_of_element cs)"
          using go False fl Some buf p2 by (auto simp: CBB_flush_asn1_set_of_def init Let_def)
        moreover have rep1: "cbb_rep st1 (ps @ [h]) (gs @ [(k, concat ?es)])" using rep es(1) by simp
        ultimately have "ok" "cbb_rep st' (ps @ [h]) (gs @ [(k, concat (sort ?es))])"
          using flush_set_of_last [OF rep1 len libc cs] r by auto
        then show ?thesis using es by (auto intro!: exI [of _ ?es])
      qed
    qed
  qed
qed

text \<open>With the elements of a SET in the builder, only the memory for the copies can be missing.\<close>

lemma flush_set_of_fails:
  assumes rep: "cbb_rep st1 (ps @ [h]) (gs @ [(k, concat es)])" and len: "length ps = length gs"
    and libc: "libc_wf libc" and fl: "CBB_flush libc st h = (True, st1)"
    and r: "CBB_flush_asn1_set_of libc st h = (False, st')" and es: "\<forall>e \<in> set es. is_der e"
  shows "heap_malloc libc (length (concat es)) = None \<or>
    OPENSSL_malloc libc (length es * SIZEOF_CBS) = None \<or> (SIZE_MOD - 1) div SIZEOF_CBS < length es"
proof (rule ccontr)
  note view = last_frame_view [OF rep len]
  let ?d = "CBB_data st1 h" let ?n = "CBB_len st1 h"
  assume no: "\<not> ?thesis"
  have init: "CBS_init ?d ?n = window (concat es) (drop ?n ?d)"
    using CBS_init_split [OF view(3)] view(1) by simp
  have n: "?n \<le> ADDRESS_SPACE" using view(2) cbb_rep_buf(1,3) [OF rep] by (auto simp: buf_ok_def)
  obtain counted where counted: "parse_elements (CBS_init ?d ?n) = Some counted" "map cbs_view counted = es"
    using parse_elements_complete [OF es] unfolding init by blast
  have l: "length counted = length es" using counted(2) by auto
  have two: "\<not> length es < 2" using r fl counted(1) l by (auto simp: CBB_flush_asn1_set_of_def Let_def)
  then have "concat es \<noteq> []" using es by (cases es) (auto simp: is_der_def)
  then have "?n \<noteq> 0" "heap_malloc libc ?n \<noteq> None" using no view(2) by auto
  then obtain buf where buf: "OPENSSL_memdup libc ?d ?n = Some buf" by (auto simp: OPENSSL_memdup_def)
  have "CBS_init buf ?n = window (concat es) []"
    using memdup_window [OF libc buf view(3) n] view(1) by simp
  moreover obtain cs where cs: "parse_elements (window (concat es) []) = Some cs" "map cbs_view cs = es"
    using parse_elements_complete [OF es] by blast
  ultimately have "add_elements libc (st1\<lparr>base_len := cbb_offset (cbb_at st1 h) + pending_len_len (cbb_at st1 h)\<rparr>) h
        (qsort compare_set_of_element cs) = (False, st')"
    using r fl counted(1) l no buf two by (auto simp: CBB_flush_asn1_set_of_def Let_def split: if_splits)
  then show False using flush_set_of_last [OF rep len libc cs] by auto
qed

end
