(* ===== verification/Unicode.thy ===== *)
theory Unicode
  imports Codec
begin

text \<open>
  \<open>crypto/bytestring/unicode.c\<close>: readers and writers of code points in UTF-8, Latin-1, UCS-2 and
  UTF-32, each a strict codec: the reader accepts exactly the encodings the writer produces.
\<close>

section \<open>The code\<close>

definition is_valid_code_point :: "u32 \<Rightarrow> bool" where
  "is_valid_code_point v =
     (\<not> (v > 0x10ffff \<or> v AND 0xfffe = 0xfffe \<or> (v \<ge> 0xfdd0 \<and> v \<le> 0xfdef) \<or>
         (v \<ge> 0xd800 \<and> v \<le> 0xdfff)))"

definition BOTTOM_BITS :: "nat \<Rightarrow> u8" where
  "BOTTOM_BITS n = ucast (push_bit n 1 - 1 :: u32)"

definition TOP_BITS :: "nat \<Rightarrow> u8" where
  "TOP_BITS n = NOT (BOTTOM_BITS (8 - n))"

text \<open>The continuation bytes.\<close>

fun utf8_loop :: "cbs \<Rightarrow> u32 \<Rightarrow> nat \<Rightarrow> u32 option \<times> cbs" where
  "utf8_loop cs v 0 = (Some v, cs)"
| "utf8_loop cs v (Suc n) =
     (case CBS_get_u8 cs of
        (None, cs') \<Rightarrow> (None, cs')
      | (Some c, cs') \<Rightarrow>
          (if c AND TOP_BITS 2 \<noteq> TOP_BITS 1 then (None, cs')
           else utf8_loop cs' (push_bit 6 v OR ucast (c AND BOTTOM_BITS 6)) n))"

definition utf8_lead :: "u8 \<Rightarrow> (u32 \<times> nat \<times> u32) option" where
  "utf8_lead c =
     (if c AND TOP_BITS 3 = TOP_BITS 2 then Some (ucast (c AND BOTTOM_BITS 5), 1, 0x80)
      else if c AND TOP_BITS 4 = TOP_BITS 3 then Some (ucast (c AND BOTTOM_BITS 4), 2, 0x800)
      else if c AND TOP_BITS 5 = TOP_BITS 4 then Some (ucast (c AND BOTTOM_BITS 3), 3, 0x10000)
      else None)"

definition cbs_get_utf8 :: "cbs \<Rightarrow> u32 option \<times> cbs" where
  "cbs_get_utf8 cs =
     (case CBS_get_u8 cs of
        (None, cs') \<Rightarrow> (None, cs')
      | (Some c, cs') \<Rightarrow>
          (if c \<le> 0x7f then (Some (ucast c), cs')
           else
             (case utf8_lead c of
                None \<Rightarrow> (None, cs')
              | Some (v, len, lower_bound) \<Rightarrow>
                  (case utf8_loop cs' v len of
                     (None, cs'') \<Rightarrow> (None, cs'')
                   | (Some v', cs'') \<Rightarrow>
                       (if \<not> is_valid_code_point v' \<or> v' < lower_bound then (None, cs'')
                        else (Some v', cs''))))))"

definition cbs_get_latin1 :: "cbs \<Rightarrow> u32 option \<times> cbs" where
  "cbs_get_latin1 cs =
     (case CBS_get_u8 cs of (None, cs') \<Rightarrow> (None, cs') | (Some c, cs') \<Rightarrow> (Some (ucast c), cs'))"

definition cbs_get_ucs2_be :: "cbs \<Rightarrow> u32 option \<times> cbs" where
  "cbs_get_ucs2_be cs =
     (case CBS_get_u16 cs of
        (None, cs') \<Rightarrow> (None, cs')
      | (Some c, cs') \<Rightarrow> (if \<not> is_valid_code_point (ucast c) then (None, cs') else (Some (ucast c), cs')))"

definition cbs_get_utf32_be :: "cbs \<Rightarrow> u32 option \<times> cbs" where
  "cbs_get_utf32_be cs =
     (case CBS_get_u32 cs of
        (None, cs') \<Rightarrow> (None, cs')
      | (Some u, cs') \<Rightarrow> (if is_valid_code_point u then Some u else None, cs'))"

definition cbb_get_utf8_len :: "u32 \<Rightarrow> nat" where
  "cbb_get_utf8_len u = (if u \<le> 0x7f then 1 else if u \<le> 0x7ff then 2 else if u \<le> 0xffff then 3 else 4)"

text \<open>A chain of \<open>CBB_add_u8\<close> calls joined by \<open>&&\<close>.\<close>

fun add_u8s :: "libc_malloc \<Rightarrow> cbb_mem \<Rightarrow> nat \<Rightarrow> bytes \<Rightarrow> bool \<times> cbb_mem" where
  "add_u8s libc st h [] = (True, st)"
| "add_u8s libc st h (b # bs) =
     (case CBB_add_u8 libc st h b of (False, st1) \<Rightarrow> (False, st1) | (True, st1) \<Rightarrow> add_u8s libc st1 h bs)"

definition utf8_byte :: "nat \<Rightarrow> u32 \<Rightarrow> u8" where
  "utf8_byte n w = ucast (ucast (TOP_BITS n) OR w)"

definition cbb_add_utf8 :: "libc_malloc \<Rightarrow> cbb_mem \<Rightarrow> nat \<Rightarrow> u32 \<Rightarrow> bool \<times> cbb_mem" where
  "cbb_add_utf8 libc st h u =
     (if \<not> is_valid_code_point u then (False, st)
      else if u \<le> 0x7f then CBB_add_u8 libc st h (ucast u)
      else if u \<le> 0x7ff then
        add_u8s libc st h [utf8_byte 2 (drop_bit 6 u), utf8_byte 1 (u AND ucast (BOTTOM_BITS 6))]
      else if u \<le> 0xffff then
        add_u8s libc st h [utf8_byte 3 (drop_bit 12 u), utf8_byte 1 (drop_bit 6 u AND ucast (BOTTOM_BITS 6)),
          utf8_byte 1 (u AND ucast (BOTTOM_BITS 6))]
      else if u \<le> 0x10ffff then
        add_u8s libc st h [utf8_byte 4 (drop_bit 18 u), utf8_byte 1 (drop_bit 12 u AND ucast (BOTTOM_BITS 6)),
          utf8_byte 1 (drop_bit 6 u AND ucast (BOTTOM_BITS 6)), utf8_byte 1 (u AND ucast (BOTTOM_BITS 6))]
      else (False, st))"

definition cbb_add_latin1 :: "libc_malloc \<Rightarrow> cbb_mem \<Rightarrow> nat \<Rightarrow> u32 \<Rightarrow> bool \<times> cbb_mem" where
  "cbb_add_latin1 libc st h u = (if u \<le> 0xff then CBB_add_u8 libc st h (ucast u) else (False, st))"

definition cbb_add_ucs2_be :: "libc_malloc \<Rightarrow> cbb_mem \<Rightarrow> nat \<Rightarrow> u32 \<Rightarrow> bool \<times> cbb_mem" where
  "cbb_add_ucs2_be libc st h u =
     (if u \<le> 0xffff \<and> is_valid_code_point u then CBB_add_u16 libc st h (ucast u) else (False, st))"

definition cbb_add_utf32_be :: "libc_malloc \<Rightarrow> cbb_mem \<Rightarrow> nat \<Rightarrow> u32 \<Rightarrow> bool \<times> cbb_mem" where
  "cbb_add_utf32_be libc st h u =
     (if is_valid_code_point u then CBB_add_u32 libc st h u else (False, st))"

section \<open>UTF-8\<close>

text \<open>The encoding as arithmetic on the code point.\<close>

definition utf8 :: "nat \<Rightarrow> bytes" where
  "utf8 n =
     map word_of_nat
       (if n < 0x80 then [n]
        else if n < 0x800 then [192 + n div 64, 128 + n mod 64]
        else if n < 0x10000 then [224 + n div 4096, 128 + n div 64 mod 64, 128 + n mod 64]
        else [240 + n div 262144, 128 + n div 4096 mod 64, 128 + n div 64 mod 64, 128 + n mod 64])"

lemma bits_consts:
  "TOP_BITS 1 = 0x80" "TOP_BITS 2 = 0xc0" "TOP_BITS 3 = 0xe0" "TOP_BITS 4 = 0xf0" "TOP_BITS 5 = 0xf8"
  "BOTTOM_BITS 6 = 0x3f" "BOTTOM_BITS 5 = 0x1f" "BOTTOM_BITS 4 = 0x0f" "BOTTOM_BITS 3 = 0x07"
  by code_simp+

lemma byte_classes:
  "(c AND 0xc0 = (0x80 :: u8)) = (128 \<le> unat c \<and> unat c < 192)"
  "(c AND 0xe0 = (0xc0 :: u8)) = (192 \<le> unat c \<and> unat c < 224)"
  "(c AND 0xf0 = (0xe0 :: u8)) = (224 \<le> unat c \<and> unat c < 240)"
  "(c AND 0xf8 = (0xf0 :: u8)) = (240 \<le> unat c \<and> unat c < 248)"
proof -
  have high: "unat (c AND NOT (mask k)) = unat c div 2 ^ k * 2 ^ k" for k
  proof -
    have "push_bit k (drop_bit k (unat c)) = unat c div 2 ^ k * 2 ^ k"
      by (simp add: push_bit_eq_mult drop_bit_eq_div)
    moreover have "unat (c AND NOT (mask k)) = push_bit k (drop_bit k (unat c))"
    proof (rule bit_eqI)
      fix n show "bit (unat (c AND NOT (mask k))) n = bit (push_bit k (drop_bit k (unat c))) n"
        by (auto simp: bit_simps dest: bit_imp_le_length)
    qed
    ultimately show ?thesis by simp
  qed
  have masks: "(0xc0 :: u8) = NOT (mask 6)" "(0xe0 :: u8) = NOT (mask 5)" "(0xf0 :: u8) = NOT (mask 4)"
    "(0xf8 :: u8) = NOT (mask 3)"
    by (simp_all add: mask_eq_exp_minus_1)
  show "(c AND 0xc0 = (0x80 :: u8)) = (128 \<le> unat c \<and> unat c < 192)"
    "(c AND 0xe0 = (0xc0 :: u8)) = (192 \<le> unat c \<and> unat c < 224)"
    "(c AND 0xf0 = (0xe0 :: u8)) = (224 \<le> unat c \<and> unat c < 240)"
    "(c AND 0xf8 = (0xf0 :: u8)) = (240 \<le> unat c \<and> unat c < 248)"
    using high [of 6] high [of 5] high [of 4] high [of 3]
    unfolding masks [symmetric] word_unat_eq_iff by auto
qed

lemma low_bits:
  "unat (c AND 0x3f :: u8) = unat c mod 64" "unat (c AND 0x1f :: u8) = unat c mod 32"
  "unat (c AND 0x0f :: u8) = unat c mod 16" "unat (c AND 0x07 :: u8) = unat c mod 8"
  using unat_and_mask [of c 6] unat_and_mask [of c 5] unat_and_mask [of c 4] unat_and_mask [of c 3]
  by (simp_all add: mask_eq_exp_minus_1)

text \<open>The loop, on numbers: a continuation byte is \<open>128 + m\<close> with \<open>m < 64\<close>.\<close>

lemma utf8_loop_step:
  assumes "unat v * 64 < 2 ^ 32"
  shows "utf8_loop (window (c # w) t) v (Suc n) =
     (if 128 \<le> unat c \<and> unat c < 192
      then utf8_loop (window w t) (word_of_nat (unat v * 64 + unat c mod 64)) n else (None, window w t))"
proof -
  have m: "unat (ucast (c AND 0x3f) :: u32) = unat c mod 64" by (simp add: low_bits)
  have "unat (push_bit 6 v OR ucast (c AND 0x3f)) = unat v * 2 ^ 6 + unat (ucast (c AND 0x3f :: u8) :: u32)"
    by (rule unat_push_or) (use assms m in simp_all)
  then have "push_bit 6 v OR ucast (c AND 0x3f) = word_of_nat (unat v * 64 + unat c mod 64)"
    using m by (intro word_of_natI) simp
  then show ?thesis by (simp add: cbs_simps bits_consts bits_consts(1) [unfolded One_nat_def] byte_classes)
qed

lemma utf8_loop_empty: "utf8_loop (window [] t) v (Suc n) = (None, window [] t)"
  by (simp add: cbs_simps)

lemma utf8_lead_cases:
  "utf8_lead c =
     (if 192 \<le> unat c \<and> unat c < 224 then Some (word_of_nat (unat c - 192), 1, 0x80)
      else if 224 \<le> unat c \<and> unat c < 240 then Some (word_of_nat (unat c - 224), 2, 0x800)
      else if 240 \<le> unat c \<and> unat c < 248 then Some (word_of_nat (unat c - 240), 3, 0x10000)
      else None)"
proof -
  have m: "unat c mod 32 = unat c - 192" if "192 \<le> unat c" "unat c < 224"
    using that by (simp add: mod_if)
  have m2: "unat c mod 16 = unat c - 224" if "224 \<le> unat c" "unat c < 240"
    using that by (simp add: mod_if)
  have m3: "unat c mod 8 = unat c - 240" if "240 \<le> unat c" "unat c < 248"
    using that by (simp add: mod_if)
  have u: "(ucast (c AND k) :: u32) = word_of_nat (unat (c AND k))" for k :: u8
    by (rule word_of_natI) simp
  show ?thesis
    using m m2 m3 by (simp add: utf8_lead_def bits_consts byte_classes u low_bits)
qed


definition cont_bytes :: "nat list \<Rightarrow> bytes" where
  "cont_bytes ms = map (\<lambda>m. word_of_nat (128 + m)) ms"

lemma unat_cont: "m < 64 \<Longrightarrow> unat (word_of_nat (128 + m) :: u8) = 128 + m"
  by (simp add: unat_word_of_nat_u8 del: of_nat_add)

lemma cont_value: "m < 64 \<Longrightarrow> (128 + m) mod 64 = (m :: nat)"
  using mod_mult_self2 [of m 64 2] by (simp add: add.commute)

lemma utf8_loop_complete:
  "\<forall>m \<in> set ms. m < 64 \<Longrightarrow> (unat v + 1) * 64 ^ length ms \<le> 2 ^ 32 \<Longrightarrow>
   utf8_loop (window (cont_bytes ms @ r) t) v (length ms) =
   (Some (word_of_nat (foldl (\<lambda>a m. a * 64 + m) (unat v) ms)), window r t)"
proof (induction ms arbitrary: v)
  case Nil
  then show ?case by (simp add: cont_bytes_def)
next
  case (Cons m ms)
  have m: "m < 64" using Cons.prems by simp
  have p: "(unat v * 64 + 64) * 64 ^ length ms \<le> 2 ^ 32" using Cons.prems(2) by (simp add: algebra_simps)
  have one: "(1 :: nat) \<le> 64 ^ length ms" by simp
  have "(unat v * 64 + 64) * 1 \<le> (unat v * 64 + 64) * 64 ^ length ms" by (rule mult_le_mono2 [OF one])
  from le_trans [OF this p] have fit: "unat v * 64 + 64 \<le> 2 ^ 32" by simp
  then have v: "unat v * 64 < 2 ^ 32" by linarith
  let ?v = "word_of_nat (unat v * 64 + m) :: u32"
  have uv: "unat ?v = unat v * 64 + m" using fit m by (simp add: unat_of_nat del: of_nat_add of_nat_mult)
  have "(unat ?v + 1) * 64 ^ length ms \<le> (unat v * 64 + 64) * 64 ^ length ms"
    unfolding uv using m by (intro mult_le_mono1) simp
  from le_trans [OF this p] have "(unat ?v + 1) * 64 ^ length ms \<le> 2 ^ 32" .
  then have IH: "utf8_loop (window (cont_bytes ms @ r) t) ?v (length ms) =
     (Some (word_of_nat (foldl (\<lambda>a m. a * 64 + m) (unat v * 64 + m) ms)), window r t)"
    using Cons.IH [of ?v] Cons.prems(1) unfolding uv by simp
  show ?case
    using utf8_loop_step [OF v, of "word_of_nat (128 + m)" "cont_bytes ms @ r" t "length ms"] IH m
    by (simp add: cont_bytes_def unat_cont cont_value del: of_nat_add utf8_loop.simps)
qed

lemma utf8_loop_sound:
  "utf8_loop (window w t) v n = (Some x, c) \<Longrightarrow> (unat v + 1) * 64 ^ n \<le> 2 ^ 32 \<Longrightarrow>
   \<exists>ms r. length ms = n \<and> (\<forall>m \<in> set ms. m < 64) \<and> w = cont_bytes ms @ r"
proof (induction n arbitrary: v w)
  case 0
  then show ?case by (intro exI [of _ "[]"] exI [of _ w]) (simp add: cont_bytes_def)
next
  case (Suc n)
  obtain b w' where w: "w = b # w'" using Suc.prems(1) utf8_loop_empty by (cases w) auto
  have p: "(unat v * 64 + 64) * 64 ^ n \<le> 2 ^ 32" using Suc.prems(2) by (simp add: algebra_simps)
  have one: "(1 :: nat) \<le> 64 ^ n" by simp
  have "(unat v * 64 + 64) * 1 \<le> (unat v * 64 + 64) * 64 ^ n" by (rule mult_le_mono2 [OF one])
  from le_trans [OF this p] have fit: "unat v * 64 + 64 \<le> 2 ^ 32" by simp
  then have v: "unat v * 64 < 2 ^ 32" by linarith
  define m where "m = unat b mod 64"
  have m: "m < 64" by (simp add: m_def)
  let ?v = "word_of_nat (unat v * 64 + m) :: u32"
  have uv: "unat ?v = unat v * 64 + m" using fit m by (simp add: unat_of_nat del: of_nat_add of_nat_mult)
  from Suc.prems(1) have b: "128 \<le> unat b" "unat b < 192" and l: "utf8_loop (window w' t) ?v n = (Some x, c)"
    unfolding w utf8_loop_step [OF v] m_def by (auto split: if_splits)
  have "(unat ?v + 1) * 64 ^ n \<le> (unat v * 64 + 64) * 64 ^ n"
    unfolding uv using m by (intro mult_le_mono1) simp
  from le_trans [OF this p] have "(unat ?v + 1) * 64 ^ n \<le> 2 ^ 32" .
  from Suc.IH [OF l this] obtain ms r where ms: "length ms = n" "\<forall>m \<in> set ms. m < 64" "w' = cont_bytes ms @ r"
    by blast
  obtain k where k: "unat b = 128 + k" "k < 64" using b that [of "unat b - 128"] by simp
  then have "unat b = 128 + m" unfolding m_def by (simp only: cont_value)
  then have "b = word_of_nat (128 + m)" by (intro word_of_natI)
  with ms m show ?case unfolding w
    by (intro exI [of _ "m # ms"] exI [of _ r]) (simp add: cont_bytes_def)
qed

text \<open>The three multi-byte forms of the encoding.\<close>

lemma utf8_forms:
  assumes "a < 32" "b < 16" "d < 8" "m1 < 64" "m2 < 64" "m3 < 64"
  shows "0x80 \<le> a * 64 + m1 \<Longrightarrow> utf8 (a * 64 + m1) = word_of_nat (192 + a) # cont_bytes [m1]"
    and "0x800 \<le> (b * 64 + m1) * 64 + m2 \<Longrightarrow>
         utf8 ((b * 64 + m1) * 64 + m2) = word_of_nat (224 + b) # cont_bytes [m1, m2]"
    and "0x10000 \<le> ((d * 64 + m1) * 64 + m2) * 64 + m3 \<Longrightarrow>
         utf8 (((d * 64 + m1) * 64 + m2) * 64 + m3) = word_of_nat (240 + d) # cont_bytes [m1, m2, m3]"
proof -
  have split: "(x * 64 + m) div 64 = x" "(x * 64 + m) mod 64 = m" if "m < 64" for x m :: nat
    using that by simp_all
  show "utf8 (a * 64 + m1) = word_of_nat (192 + a) # cont_bytes [m1]" if "0x80 \<le> a * 64 + m1"
    using assms that by (simp add: utf8_def cont_bytes_def)
  show "utf8 ((b * 64 + m1) * 64 + m2) = word_of_nat (224 + b) # cont_bytes [m1, m2]"
    if "0x800 \<le> (b * 64 + m1) * 64 + m2"
  proof -
    define n where "n = (b * 64 + m1) * 64 + m2"
    have d: "n div 64 = b * 64 + m1" "n mod 64 = m2" unfolding n_def using split assms by blast+
    have "n div 4096 = n div 64 div 64" by (simp add: div_mult2_eq [symmetric])
    then have e: "n div 4096 = b" unfolding d using split assms by simp
    have "b \<le> 15" "m1 \<le> 63" "m2 \<le> 63" using assms by simp_all
    then have "n < 0x10000" by (simp add: distrib_right n_def)
    then show ?thesis using that d e assms unfolding n_def [symmetric] by (simp add: utf8_def cont_bytes_def)
  qed
  show "utf8 (((d * 64 + m1) * 64 + m2) * 64 + m3) = word_of_nat (240 + d) # cont_bytes [m1, m2, m3]"
    if "0x10000 \<le> ((d * 64 + m1) * 64 + m2) * 64 + m3"
  proof -
    define n where "n = ((d * 64 + m1) * 64 + m2) * 64 + m3"
    have d: "n div 64 = (d * 64 + m1) * 64 + m2" "n mod 64 = m3" unfolding n_def using split assms by blast+
    have "n div 4096 = n div 64 div 64" "n div 262144 = n div 64 div 64 div 64"
      by (simp_all add: div_mult2_eq [symmetric])
    then have e: "n div 4096 = d * 64 + m1" "n div 262144 = d" unfolding d using split assms by simp_all
    have f: "(d * 64 + m1) mod 64 = m1" "((d * 64 + m1) * 64 + m2) mod 64 = m2" using split assms by blast+
    show ?thesis using that d(2) f unfolding n_def [symmetric] by (simp add: utf8_def cont_bytes_def d(1) e)
  qed
qed


lemma get_utf8_short: "unat c < 128 \<Longrightarrow> cbs_get_utf8 (window (c # w) t) = (Some (ucast c), window w t)"
  by (simp add: cbs_get_utf8_def cbs_simps word_le_nat_alt)

lemma get_utf8_long:
  assumes "unat c \<ge> 128" and "utf8_lead c = Some (v, n, lo)"
  shows "cbs_get_utf8 (window (c # w) t) =
     (case utf8_loop (window w t) v n of
        (None, c'') \<Rightarrow> (None, c'')
      | (Some v', c'') \<Rightarrow>
          (if \<not> is_valid_code_point v' \<or> v' < lo then (None, c'') else (Some v', c'')))"
  using assms by (simp add: cbs_get_utf8_def cbs_simps word_le_nat_alt)

text \<open>A lead byte and its continuation bytes.\<close>

lemma get_utf8_bytes:
  assumes lead: "utf8_lead c = Some (word_of_nat k, n, lo)" "unat c \<ge> 128"
    and ms: "length ms = n" "\<forall>m \<in> set ms. m < 64" and fit: "(k + 1) * 64 ^ n \<le> 2 ^ 32" "k < 32"
  shows "cbs_get_utf8 (window (c # cont_bytes ms @ r) t) =
     (let x = word_of_nat (foldl (\<lambda>a m. a * 64 + m) k ms) :: u32
      in (if is_valid_code_point x \<and> lo \<le> x then Some x else None, window r t))"
proof -
  have k: "unat (word_of_nat k :: u32) = k" using fit(2) by (simp add: unat_of_nat)
  show ?thesis
    unfolding get_utf8_long [OF lead(2,1)]
    using utf8_loop_complete [OF ms(2), of "word_of_nat k" r t] ms(1) fit k by (simp add: Let_def not_less)
qed

lemma get_utf8_sound:
  assumes "cbs_get_utf8 (window w t) = (Some x, c)"
  shows "is_valid_code_point x \<and> (\<exists>r. w = utf8 (unat x) @ r \<and> c = window r t)"
proof -
  from assms obtain b w' where w: "w = b # w'" by (cases w) (auto simp: cbs_get_utf8_def cbs_simps)
  show ?thesis
  proof (cases "unat b < 128")
    case True
    then have x: "x = ucast b" "c = window w' t" using assms get_utf8_short [OF True] w by auto
    have u: "unat x = unat b" using x by simp
    have "is_valid_code_point x"
    proof -
      have "x AND 0xfffe \<noteq> 0xfffe"
      proof
        assume "x AND 0xfffe = 0xfffe"
        then have "bit (x AND 0xfffe) 15" by simp
        then have "bit x 15" by (simp add: bit_and_iff)
        then show False using not_bit_unat_less [of x 7 15] True u by simp
      qed
      then show ?thesis using True u by (simp add: is_valid_code_point_def word_less_nat_alt word_le_nat_alt)
    qed
    then show ?thesis using True w x u by (simp add: utf8_def)
  next
    case False
    then have hi: "unat b \<ge> 128" by simp
    from assms w hi obtain v n lo where lead: "utf8_lead b = Some (v, n, lo)"
      by (auto simp: cbs_get_utf8_def cbs_simps word_le_nat_alt split: option.splits if_splits)
    have v: "\<exists>k. v = word_of_nat k \<and> (k + 1) * 64 ^ n \<le> 2 ^ 32 \<and> k < 32 \<and>
        (n = 1 \<and> lo = 0x80 \<and> b = word_of_nat (192 + k) \<or>
         n = 2 \<and> lo = 0x800 \<and> k < 16 \<and> b = word_of_nat (224 + k) \<or>
         n = 3 \<and> lo = 0x10000 \<and> k < 8 \<and> b = word_of_nat (240 + k))"
    proof -
      consider "192 \<le> unat b \<and> unat b < 224" | "224 \<le> unat b \<and> unat b < 240" | "240 \<le> unat b \<and> unat b < 248"
        using lead by (auto simp: utf8_lead_cases split: if_splits)
      then show ?thesis
      proof cases
        case 1
        then show ?thesis using lead
          by (intro exI [of _ "unat b - 192"]) (auto simp: utf8_lead_cases simp flip: of_nat_add split: if_splits)
      next
        case 2
        then show ?thesis using lead
          by (intro exI [of _ "unat b - 224"]) (auto simp: utf8_lead_cases split: if_splits)
      next
        case 3
        then show ?thesis using lead
          by (intro exI [of _ "unat b - 240"]) (auto simp: utf8_lead_cases split: if_splits)
      qed
    qed
    then obtain k where k: "v = word_of_nat k" "(k + 1) * 64 ^ n \<le> 2 ^ 32" "k < 32" and
        form: "n = 1 \<and> lo = 0x80 \<and> b = word_of_nat (192 + k) \<or>
         n = 2 \<and> lo = 0x800 \<and> k < 16 \<and> b = word_of_nat (224 + k) \<or>
         n = 3 \<and> lo = 0x10000 \<and> k < 8 \<and> b = word_of_nat (240 + k)" by blast
    have uk: "unat v = k" using k by (simp add: unat_of_nat)
    obtain y c' where loop: "utf8_loop (window w' t) v n = (Some y, c')"
      using assms unfolding w get_utf8_long [OF hi lead] by (auto split: prod.splits option.splits)
    from utf8_loop_sound [OF this] k(2) uk obtain ms r where ms: "length ms = n" "\<forall>m \<in> set ms. m < 64"
      and w': "w' = cont_bytes ms @ r" by auto
    let ?n = "foldl (\<lambda>a m. a * 64 + m) k ms"
    let ?x = "word_of_nat ?n :: u32"
    have x: "x = ?x" "is_valid_code_point ?x" "lo \<le> ?x" "c = window r t"
      using assms get_utf8_bytes [OF lead [unfolded k(1)] hi ms k(2,3), of r t]
      unfolding w w' by (auto simp: Let_def split: if_splits)
    have "utf8 (unat ?x) = b # cont_bytes ms"
      using form
    proof (elim disjE conjE)
      assume f: "n = 1" "lo = 0x80" "b = word_of_nat (192 + k)"
      then obtain m1 where m: "ms = [m1]" "m1 < 64" using ms by (auto simp: length_Suc_conv)
      have u: "unat ?x = k * 64 + m1" using m k(3) by (simp add: unat_of_nat del: of_nat_add of_nat_mult)
      show ?thesis
        unfolding u unfolding f(3) m(1)
        by (rule utf8_forms(1) [where b = 0 and d = 0 and ?m2.0 = 0 and ?m3.0 = 0])
          (use m k x(3) f(2) u in \<open>simp_all add: word_le_nat_alt del: of_nat_add of_nat_mult\<close>)
    next
      assume f: "n = 2" "lo = 0x800" "k < 16" "b = word_of_nat (224 + k)"
      then obtain m1 m2 where m: "ms = [m1, m2]" "m1 < 64" "m2 < 64" using ms by (auto simp: length_Suc_conv numeral_2_eq_2)
      have u: "unat ?x = (k * 64 + m1) * 64 + m2"
        using m f(3) by (simp add: unat_of_nat del: of_nat_add of_nat_mult)
      show ?thesis
        unfolding u unfolding f(4) m(1)
        by (rule utf8_forms(2) [where a = 0 and d = 0 and ?m3.0 = 0])
          (use m f x(3) u in \<open>simp_all add: word_le_nat_alt del: of_nat_add of_nat_mult\<close>)
    next
      assume f: "n = 3" "lo = 0x10000" "k < 8" "b = word_of_nat (240 + k)"
      then obtain m1 m2 m3 where m: "ms = [m1, m2, m3]" "m1 < 64" "m2 < 64" "m3 < 64"
        using ms by (auto simp: length_Suc_conv numeral_3_eq_3)
      have u: "unat ?x = ((k * 64 + m1) * 64 + m2) * 64 + m3"
        using m f(3) by (simp add: unat_of_nat del: of_nat_add of_nat_mult)
      show ?thesis
        unfolding u unfolding f(4) m(1)
        by (rule utf8_forms(3) [where a = 0 and b = 0])
          (use m f x(3) u in \<open>simp_all add: word_le_nat_alt del: of_nat_add of_nat_mult\<close>)
    qed
    then show ?thesis using x w w' by auto
  qed
qed

text \<open>Every code point has one of the forms.\<close>

lemma utf8_split:
  assumes "(n :: nat) \<le> 0x10ffff"
  obtains "n < 0x80" | (two) a m1 where "n = a * 64 + m1" "a < 32" "m1 < 64" "0x80 \<le> n"
  | (three) b m1 m2 where "n = (b * 64 + m1) * 64 + m2" "b < 16" "m1 < 64" "m2 < 64" "0x800 \<le> n"
  | (four) d m1 m2 m3 where "n = ((d * 64 + m1) * 64 + m2) * 64 + m3" "d < 8" "m1 < 64" "m2 < 64" "m3 < 64" "0x10000 \<le> n"
proof -
  obtain q1 r1 where 1: "n = q1 * 64 + r1" "r1 < 64" using that(1) by (metis div_mult_mod_eq mod_less_divisor zero_less_numeral)
  obtain q2 r2 where 2: "q1 = q2 * 64 + r2" "r2 < 64" by (metis div_mult_mod_eq mod_less_divisor zero_less_numeral)
  obtain q3 r3 where 3: "q2 = q3 * 64 + r3" "r3 < 64" by (metis div_mult_mod_eq mod_less_divisor zero_less_numeral)
  consider "n < 0x80" | "0x80 \<le> n" "n < 0x800" | "0x800 \<le> n" "n < 0x10000" | "0x10000 \<le> n" by linarith
  then show thesis
  proof cases
    assume "n < 0x80" then show thesis by (rule that(1))
  next
    assume n: "0x80 \<le> n" "n < 0x800"
    then have "q1 < 32" using 1 by simp
    then show thesis using that(2) [of q1 r1] 1 n by blast
  next
    assume n: "0x800 \<le> n" "n < 0x10000"
    then have "q1 < 1024" using 1 by simp
    then have "q2 < 16" using 2 by simp
    then show thesis using that(3) [of q2 r2 r1] 1 2 n by blast
  next
    assume n: "0x10000 \<le> n"
    have "q1 < 17408" using 1 assms by simp
    then have "q2 < 272" using 2 by simp
    then have "q3 < 8" using 3 by simp
    then show thesis using that(4) [of q3 r3 r2 r1] 1 2 3 n by blast
  qed
qed

lemma lead_of_nat:
  "a < 32 \<Longrightarrow> utf8_lead (word_of_nat (192 + a)) = Some (word_of_nat a, 1, 0x80) \<and> 128 \<le> unat (word_of_nat (192 + a) :: u8)"
  "b < 16 \<Longrightarrow> utf8_lead (word_of_nat (224 + b)) = Some (word_of_nat b, 2, 0x800) \<and> 128 \<le> unat (word_of_nat (224 + b) :: u8)"
  "d < 8 \<Longrightarrow> utf8_lead (word_of_nat (240 + d)) = Some (word_of_nat d, 3, 0x10000) \<and> 128 \<le> unat (word_of_nat (240 + d) :: u8)"
proof -
  have u: "unat (word_of_nat n :: u8) = n" if "n < 256" for n using that by (simp add: unat_word_of_nat_u8)
  show "a < 32 \<Longrightarrow> utf8_lead (word_of_nat (192 + a)) = Some (word_of_nat a, 1, 0x80) \<and> 128 \<le> unat (word_of_nat (192 + a) :: u8)"
    by (simp add: utf8_lead_cases u del: of_nat_add)
  show "b < 16 \<Longrightarrow> utf8_lead (word_of_nat (224 + b)) = Some (word_of_nat b, 2, 0x800) \<and> 128 \<le> unat (word_of_nat (224 + b) :: u8)"
    by (simp add: utf8_lead_cases u del: of_nat_add)
  show "d < 8 \<Longrightarrow> utf8_lead (word_of_nat (240 + d)) = Some (word_of_nat d, 3, 0x10000) \<and> 128 \<le> unat (word_of_nat (240 + d) :: u8)"
    by (simp add: utf8_lead_cases u del: of_nat_add)
qed

lemma valid_code_point_bound: "is_valid_code_point x \<Longrightarrow> unat x \<le> 0x10ffff"
  by (simp add: is_valid_code_point_def word_less_nat_alt)

lemma get_utf8_complete:
  assumes "is_valid_code_point x"
  shows "cbs_get_utf8 (window (utf8 (unat x) @ r) t) = (Some x, window r t)"
proof -
  have x: "word_of_nat (unat x) = x" by simp
  show ?thesis
    using valid_code_point_bound [OF assms]
  proof (cases rule: utf8_split)
    case 1
    define w where "w = (word_of_nat (unat x) :: u8)"
    have w: "unat w = unat x" using 1 by (simp add: w_def unsigned_ucast_eq take_bit_nat_eq_self)
    then have "unat (ucast w :: u32) = unat x" by simp
    then have "ucast w = x" by (simp only: word_unat_eq_iff)
    then show ?thesis
      using get_utf8_short [of w r t] 1 w by (simp add: utf8_def w_def)
  next
    case (two a m1)
    have "utf8 (unat x) = word_of_nat (192 + a) # cont_bytes [m1]"
      using utf8_forms(1) [of a 0 0 m1 0 0] two by simp
    then show ?thesis
      using get_utf8_bytes [where c = "word_of_nat (192 + a)" and k = a and n = 1 and lo = "0x80" and ms = "[m1]" and r = r and t = t] lead_of_nat(1) [OF two(2)] two assms x
      by (simp add: Let_def word_le_nat_alt del: of_nat_add of_nat_mult)
  next
    case (three b m1 m2)
    have "utf8 (unat x) = word_of_nat (224 + b) # cont_bytes [m1, m2]"
      using utf8_forms(2) [of 0 b 0 m1 m2 0] three by simp
    then show ?thesis
      using get_utf8_bytes [where c = "word_of_nat (224 + b)" and k = b and n = 2 and lo = "0x800" and ms = "[m1, m2]" and r = r and t = t] lead_of_nat(2) [OF three(2)] three assms x
      by (simp add: Let_def word_le_nat_alt del: of_nat_add of_nat_mult)
  next
    case (four d m1 m2 m3)
    have "utf8 (unat x) = word_of_nat (240 + d) # cont_bytes [m1, m2, m3]"
      using utf8_forms(3) [of 0 0 d m1 m2 m3] four by simp
    then show ?thesis
      using get_utf8_bytes [where c = "word_of_nat (240 + d)" and k = d and n = 3 and lo = "0x10000" and ms = "[m1, m2, m3]" and r = r and t = t] lead_of_nat(3) [OF four(2)] four assms x
      by (simp add: Let_def word_le_nat_alt del: of_nat_add of_nat_mult)
  qed
qed


section \<open>Writing UTF-8\<close>

lemma utf8_byte_eq:
  "m < 64 \<Longrightarrow> utf8_byte 1 (word_of_nat m) = word_of_nat (128 + m)"
  "a < 32 \<Longrightarrow> utf8_byte 2 (word_of_nat a) = word_of_nat (192 + a)"
  "b < 16 \<Longrightarrow> utf8_byte 3 (word_of_nat b) = word_of_nat (224 + b)"
  "d < 8 \<Longrightarrow> utf8_byte 4 (word_of_nat d) = word_of_nat (240 + d)"
proof -
  have "list_all (\<lambda>m. utf8_byte 1 (word_of_nat m) = word_of_nat (128 + m)) [0 ..< 64]"
    "list_all (\<lambda>m. utf8_byte 2 (word_of_nat m) = word_of_nat (192 + m)) [0 ..< 32]"
    "list_all (\<lambda>m. utf8_byte 3 (word_of_nat m) = word_of_nat (224 + m)) [0 ..< 16]"
    "list_all (\<lambda>m. utf8_byte 4 (word_of_nat m) = word_of_nat (240 + m)) [0 ..< 8]"
    by code_simp+
  then show "m < 64 \<Longrightarrow> utf8_byte 1 (word_of_nat m) = word_of_nat (128 + m)"
    "a < 32 \<Longrightarrow> utf8_byte 2 (word_of_nat a) = word_of_nat (192 + a)"
    "b < 16 \<Longrightarrow> utf8_byte 3 (word_of_nat b) = word_of_nat (224 + b)"
    "d < 8 \<Longrightarrow> utf8_byte 4 (word_of_nat d) = word_of_nat (240 + d)"
    by (simp_all only: list_all_iff set_upt atLeastLessThan_iff) simp_all
qed

lemma utf8_parts:
  "drop_bit 6 u = word_of_nat (unat (u :: u32) div 64)" "drop_bit 12 u = word_of_nat (unat u div 4096)"
  "drop_bit 18 u = word_of_nat (unat u div 262144)" "u AND ucast (BOTTOM_BITS 6) = word_of_nat (unat u mod 64)"
  "drop_bit 6 u AND ucast (BOTTOM_BITS 6) = word_of_nat (unat u div 64 mod 64)"
  "drop_bit 12 u AND ucast (BOTTOM_BITS 6) = word_of_nat (unat u div 4096 mod 64)"
proof -
  have d: "unat (drop_bit k u) = unat u div 2 ^ k" for k
    by (simp only: unat_drop_bit_eq) (simp add: drop_bit_eq_div)
  have m: "w AND ucast (BOTTOM_BITS 6) = word_of_nat (unat w mod 64)" for w :: u32
    using unat_and_mask [of w 6] by (intro word_of_natI) (simp add: bits_consts mask_eq_exp_minus_1)
  show "drop_bit 6 u = word_of_nat (unat u div 64)" "drop_bit 12 u = word_of_nat (unat u div 4096)"
    "drop_bit 18 u = word_of_nat (unat u div 262144)"
    using d [of 6] d [of 12] d [of 18] by (auto intro!: word_of_natI)
  show "u AND ucast (BOTTOM_BITS 6) = word_of_nat (unat u mod 64)" by (rule m)
  show "drop_bit 6 u AND ucast (BOTTOM_BITS 6) = word_of_nat (unat u div 64 mod 64)"
    "drop_bit 12 u AND ucast (BOTTOM_BITS 6) = word_of_nat (unat u div 4096 mod 64)"
    unfolding m using d [of 6] d [of 12] by simp_all
qed

lemma unat_div_u32 [simp]: "unat (word_of_nat (unat (u :: u32) div k) :: u32) = unat u div k"
proof -
  have "unat u div k \<le> unat u" by (rule div_le_dividend)
  also have "\<dots> < 2 ^ 32" using word_size_less(3) [of u] by simp
  finally show ?thesis by (simp add: unat_of_nat)
qed

lemma writes_u8s: "libc_wf libc \<Longrightarrow> bs \<noteq> [] \<Longrightarrow> writes libc {} (\<lambda>st h. add_u8s libc st h bs) bs"
proof -
  have here: "libc_wf libc \<Longrightarrow> writes_here libc (\<lambda>st h. add_u8s libc st h bs) bs" for bs
  proof (induction bs)
    case Nil
    then show ?case using writes_here_return by simp
  next
    case (Cons b bs)
    then show ?case
      using here_then_here [OF here_add_u8 [OF Cons.prems, of b] Cons.IH] by (simp add: seq_writer_def [abs_def])
  qed
  assume libc: "libc_wf libc" and "bs \<noteq> []"
  then obtain b bs' where bs: "bs = b # bs'" by (cases bs) auto
  show "writes libc {} (\<lambda>st h. add_u8s libc st h bs) bs"
    using writes_then_here [OF writes_words(1) [OF libc, of b] here [OF libc, of bs']]
    by (simp add: bs seq_writer_def [abs_def])
qed

lemma writes_utf8:
  assumes libc: "libc_wf libc" and u: "is_valid_code_point u"
  shows "writes libc {} (\<lambda>st h. cbb_add_utf8 libc st h u) (utf8 (unat u))"
proof -
  have top: "unat u \<le> 0x10ffff" using valid_code_point_bound [OF u] .
  consider "unat u < 0x80" | "0x80 \<le> unat u" "unat u < 0x800" | "0x800 \<le> unat u" "unat u < 0x10000" | "0x10000 \<le> unat u"
    by linarith
  then show ?thesis
  proof cases
    case 1
    have "(word_of_nat (unat u) :: u8) = ucast u" by simp
    then show ?thesis
      using writes_words(1) [OF libc, of "ucast u"] 1 u by (simp add: cbb_add_utf8_def word_le_nat_alt utf8_def)
  next
    case 2
    then have "unat u div 64 < 32" by simp
    then show ?thesis
      using writes_u8s [OF libc, of "utf8 (unat u)"] 2 u
      by (simp add: cbb_add_utf8_def word_le_nat_alt utf8_def utf8_parts utf8_byte_eq
          utf8_byte_eq(1) [unfolded One_nat_def])
  next
    case 3
    then have "unat u div 4096 < 16" by simp
    then show ?thesis
      using writes_u8s [OF libc, of "utf8 (unat u)"] 3 u
      by (simp add: cbb_add_utf8_def word_le_nat_alt utf8_def utf8_parts utf8_byte_eq
          utf8_byte_eq(1) [unfolded One_nat_def])
  next
    case 4
    then have "unat u div 262144 < 8" using top by simp
    then show ?thesis
      using writes_u8s [OF libc, of "utf8 (unat u)"] 4 u top
      by (simp add: cbb_add_utf8_def word_le_nat_alt utf8_def utf8_parts utf8_byte_eq
          utf8_byte_eq(1) [unfolded One_nat_def])
  qed
qed

lemma utf8_length: "length (utf8 (unat u)) = cbb_get_utf8_len u"
  by (simp add: utf8_def cbb_get_utf8_len_def word_le_nat_alt)

section \<open>The codecs\<close>

interpretation utf8: strict_codec is_valid_code_point "\<lambda>u. utf8 (unat u)" "{}"
  "\<lambda>libc u st h. cbb_add_utf8 libc st h u" cbs_get_utf8
  by unfold_locales (auto intro: writes_utf8 get_utf8_complete dest: get_utf8_sound)

interpretation utf32: strict_codec is_valid_code_point "\<lambda>u. be_bytes 4 (unat u)" "{}"
  "\<lambda>libc u st h. cbb_add_utf32_be libc st h u" cbs_get_utf32_be
proof
  fix v t u c assume "cbs_get_utf32_be (window v t) = (Some u, c)"
  then have "CBS_get_u32 (window v t) = (Some u, c)" "is_valid_code_point u"
    by (auto simp: cbs_get_utf32_be_def split: prod.splits option.splits if_splits)
  then show "is_valid_code_point u \<and> (\<exists>r. v = be_bytes 4 (unat u) @ r \<and> c = window r t)"
    using u32.get_only by blast
next
  fix u v t assume "is_valid_code_point u"
  then show "cbs_get_utf32_be (window (be_bytes 4 (unat u) @ v) t) = (Some u, window v t)"
    using u32.get_enc [of u v t] by (simp add: cbs_get_utf32_be_def)
qed (simp add: cbb_add_utf32_be_def writes_words)

interpretation ucs2: strict_codec "\<lambda>u. u \<le> 0xffff \<and> is_valid_code_point u" "\<lambda>u. be_bytes 2 (unat u)" "{}"
  "\<lambda>libc u st h. cbb_add_ucs2_be libc st h u" cbs_get_ucs2_be
proof
  fix v t u c assume "cbs_get_ucs2_be (window v t) = (Some u, c)"
  then obtain w where w: "CBS_get_u16 (window v t) = (Some w, c)" "is_valid_code_point u" "u = ucast w"
    by (auto simp: cbs_get_ucs2_be_def split: prod.splits option.splits if_splits)
  have uw: "unat u = unat w" unfolding w(3) by (rule unat_ucast_up) simp
  with word_size_less(2) [of w] have "u \<le> 0xffff" by (simp add: word_le_nat_alt)
  then show "(u \<le> 0xffff \<and> is_valid_code_point u) \<and> (\<exists>r. v = be_bytes 2 (unat u) @ r \<and> c = window r t)"
    using u16.get_only [OF w(1)] w(2) uw by simp
next
  fix u v t assume u: "u \<le> 0xffff \<and> is_valid_code_point u"
  define w where "w = (ucast u :: u16)"
  have w: "unat w = unat u"
    unfolding w_def using u by (simp add: unsigned_ucast_eq take_bit_nat_eq_self word_le_nat_alt)
  then have "ucast w = u" using unat_ucast_up [of w, where ?'a = 32] by (simp add: word_unat_eq_iff)
  then show "cbs_get_ucs2_be (window (be_bytes 2 (unat u) @ v) t) = (Some u, window v t)"
    using u16.get_enc [of w v t] u w by (simp add: cbs_get_ucs2_be_def)
next
  fix libc :: libc_malloc and u :: u32
  assume libc: "libc_wf libc" and u: "u \<le> 0xffff \<and> is_valid_code_point u"
  then have "unat (ucast u :: u16) = unat u"
    by (simp add: unsigned_ucast_eq take_bit_nat_eq_self word_le_nat_alt)
  then show "writes libc {} (\<lambda>st h. cbb_add_ucs2_be libc st h u) (be_bytes 2 (unat u))"
    using writes_words(2) [OF libc, of "ucast u"] u by (simp add: cbb_add_ucs2_be_def)
qed

interpretation latin1: strict_codec "\<lambda>u. u \<le> 0xff" "\<lambda>u. [ucast u]" "{}"
  "\<lambda>libc u st h. cbb_add_latin1 libc st h u" cbs_get_latin1
proof
  fix v t u c assume "cbs_get_latin1 (window v t) = (Some u, c)"
  then obtain w where w: "CBS_get_u8 (window v t) = (Some w, c)" "u = ucast w"
    by (auto simp: cbs_get_latin1_def split: prod.splits option.splits)
  have uw: "unat u = unat w" unfolding w(2) by simp
  then have "unat u \<le> 255" using unat_u8_less [of w] by linarith
  then have "u \<le> 0xff" by (simp add: word_le_nat_alt)
  moreover have "ucast u = w" unfolding w(2) by (rule bit_word_eqI) (simp add: bit_simps)
  ultimately show "u \<le> 0xff \<and> (\<exists>r. v = [ucast u] @ r \<and> c = window r t)"
    using u8.get_only [OF w(1)] by simp
next
  fix u :: u32 and v t assume u: "u \<le> 0xff"
  define w where "w = (ucast u :: u8)"
  have "unat w = unat u"
    unfolding w_def using u by (simp add: unsigned_ucast_eq take_bit_nat_eq_self word_le_nat_alt)
  then have "ucast w = u" using unat_ucast_up [of w, where ?'a = 32] by (simp add: word_unat_eq_iff)
  then show "cbs_get_latin1 (window ([ucast u] @ v) t) = (Some u, window v t)"
    by (simp add: cbs_get_latin1_def cbs_simps flip: w_def)
qed (simp add: cbb_add_latin1_def writes_words)

end
