(* ===== verification/Ber.thy ===== *)
theory Ber
  imports Cbb_Asn1
begin

text \<open>
  \<open>crypto/bytestring/ber.c\<close> and \<open>asn1_compat.c\<close>: the search for BER constructs, the conversion of
  BER to DER, implicitly tagged strings, and \<open>CBB_finish_i2d\<close>. The lemmas are in \<open>Ber_Spec\<close>.
\<close>

definition kMaxDepth :: nat where
  "kMaxDepth = 2048"

definition is_string_type :: "u32 \<Rightarrow> bool" where
  "is_string_type tag =
     (tag AND NOT CBS_ASN1_CONSTRUCTED \<in>
        {0x3, 0x4, 0xc, 0x12, 0x13, 0x14, 0x15, 0x16, 0x19, 0x1a, 0x1b, 0x1c, 0x1e})"

section \<open>Looking for BER\<close>

lemma any_ber_element_lens:
  assumes "CBS_get_any_ber_asn1_element c = (Some (out, tag, hl), c')"
  shows "0 < hl" and "cbs_len c' + cbs_len out = cbs_len c" and "0 < cbs_len out"
proof -
  have get: "cbs_len d' + cbs_len out = cbs_len d \<and> cbs_len out = n" if "CBS_get_bytes d n = (Some out, d')" for d n out d'
    using that by (auto simp: CBS_get_bytes_def cbs_get_def CBS_init_def split: if_splits)
  obtain h1 b h2 where h: "parse_asn1_tag c = (Some tag, h1)" "CBS_get_u8 h1 = (Some b, h2)"
    using assms
    by (auto simp: CBS_get_any_ber_asn1_element_def cbs_get_any_asn1_element_def Let_def
        split: prod.splits option.splits if_splits)
  then have "cbs_len h2 < cbs_len c" by (auto dest!: parse_asn1_tag_len CBS_get_u8_shrinks)
  then have pos: "0 < CBS_len c - CBS_len h2" by (simp add: CBS_len_def)
  have add: "0 < size_add n m" if "\<not> size_add n m < n" "128 \<le> n" for n m using that by linarith
  obtain n where "CBS_get_bytes c n = (Some out, c')" "0 < n" "0 < hl"
    using assms h pos
    by (auto simp: CBS_get_any_ber_asn1_element_def cbs_get_any_asn1_element_def Let_def
        word_less_nat_alt split: prod.splits option.splits if_splits intro!: add)
  then show "0 < hl" "cbs_len c' + cbs_len out = cbs_len c" "0 < cbs_len out" using get by auto
qed

lemma any_ber_element_shrinks:
  "CBS_get_any_ber_asn1_element c = (Some (out, tag, hl), c') \<Longrightarrow> cbs_len c' < cbs_len c"
  using any_ber_element_lens(2,3) by fastforce

text \<open>
  The loop of \<open>cbs_find_ber\<close> over the elements of \<open>in\<close>, at recursion depth \<open>depth\<close>, with
  \<open>*ber_found\<close> as an argument; \<open>None\<close> is the return value 0. The recursive call on the contents
  first tests the depth and stores 0 in the same \<open>*ber_found\<close>.
\<close>

function find_ber_loop :: "nat \<Rightarrow> cbs \<Rightarrow> bool \<Rightarrow> bool option" where
  "find_ber_loop depth c ber_found =
     (if CBS_len c > 0 then
        (case CBS_get_any_ber_asn1_element c of
           (None, _) \<Rightarrow> None
         | (Some (contents, tag, header_len), c') \<Rightarrow>
             (if CBS_len contents = header_len \<and> header_len > 0 \<and>
                 CBS_data contents ! (header_len - 1) = 0x80
              then Some True
              else if tag AND CBS_ASN1_CONSTRUCTED \<noteq> 0 then
                (if is_string_type tag then Some True
                 else
                   (case CBS_skip contents header_len of
                      (False, _) \<Rightarrow> None
                    | (True, body) \<Rightarrow>
                        (case (if Suc depth > kMaxDepth then None else find_ber_loop (Suc depth) body False) of
                           None \<Rightarrow> None
                         | Some found \<Rightarrow> find_ber_loop depth c' found)))
              else find_ber_loop depth c' ber_found))
      else Some ber_found)"
  by pat_completeness auto
termination
proof (relation "measure (\<lambda>(depth, c, b). cbs_len c)", goal_cases)
  case (2 depth c ber_found x c' y contents z tag header_len b body)
  have el: "CBS_get_any_ber_asn1_element c = (Some (contents, tag, header_len), c')"
    using 2 by simp
  note len = any_ber_element_lens [OF el]
  have "cbs_len body < cbs_len contents"
    using 2 len(1) by (auto simp: CBS_skip_def cbs_get_def split: if_splits)
  then show ?case using len by simp
qed (auto dest!: any_ber_element_shrinks [OF sym])

declare find_ber_loop.simps [simp del]

definition cbs_find_ber :: "cbs \<Rightarrow> nat \<Rightarrow> bool option" where
  "cbs_find_ber orig_in depth =
     (if depth > kMaxDepth then None
      else find_ber_loop depth (CBS_init (CBS_data orig_in) (CBS_len orig_in)) False)"

section \<open>Conversion\<close>

definition is_eoc :: "nat \<Rightarrow> cbs \<Rightarrow> bool" where
  "is_eoc header_len contents =
     (header_len = 2 \<and> CBS_len contents = 2 \<and> memcmp (CBS_data contents) [0, 0] 2 = 0)"

text \<open>
  Where an element's contents go (\<open>out_contents\<close>) and the \<open>child_string_tag\<close> for its children; \<open>loc\<close>
  is the address of the local \<open>out_contents_storage\<close>.
\<close>

definition convert_open ::
    "libc_malloc \<Rightarrow> nat \<Rightarrow> cbb_mem \<Rightarrow> nat \<Rightarrow> u32 \<Rightarrow> u32 \<Rightarrow> (nat \<times> u32) option \<times> cbb_mem" where
  "convert_open libc loc st out string_tag tag =
     (if string_tag \<noteq> 0 then
        (if tag AND NOT CBS_ASN1_CONSTRUCTED \<noteq> string_tag then (None, st) else (Some (out, string_tag), st))
      else
        (let constructed_string = (tag AND CBS_ASN1_CONSTRUCTED \<noteq> 0 \<and> is_string_type tag);
             out_tag = (if constructed_string then tag AND NOT CBS_ASN1_CONSTRUCTED else tag);
             child_string_tag = (if constructed_string then out_tag else string_tag)
         in case CBB_add_asn1 libc st out loc out_tag of
              (False, st1) \<Rightarrow> (None, st1)
            | (True, st1) \<Rightarrow> (Some (loc, child_string_tag), st1)))"

text \<open>
  \<open>cbs_convert_ber\<close>: every round of the loop and every recursive call takes bytes from a reader, so
  the number of bytes of \<open>in\<close> bounds their nesting; \<open>fuel\<close> is that bound. A deeper call has its
  local at the next address. The result is the return value, \<open>in\<close> and the memory of the builder.
\<close>

fun convert_ber_rec ::
    "nat \<Rightarrow> libc_malloc \<Rightarrow> nat \<Rightarrow> cbs \<Rightarrow> cbb_mem \<Rightarrow> nat \<Rightarrow> u32 \<Rightarrow> bool \<Rightarrow> nat \<Rightarrow> bool \<times> cbs \<times> cbb_mem" where
  "convert_ber_rec 0 libc loc c st out string_tag looking_for_eoc depth = (False, c, st)"
| "convert_ber_rec (Suc fuel) libc loc c st out string_tag looking_for_eoc depth =
     (if depth > kMaxDepth then (False, c, st)
      else if \<not> CBS_len c > 0 then (\<not> looking_for_eoc, c, st)
      else
     (case CBS_get_any_ber_asn1_element c of
        (None, c1) \<Rightarrow> (False, c1, st)
      | (Some (contents, tag, header_len), c1) \<Rightarrow>
          (if is_eoc header_len contents then (looking_for_eoc, c1, st)
           else
     (case convert_open libc loc st out string_tag tag of
        (None, st1) \<Rightarrow> (False, c1, st1)
      | (Some (out_contents, child_string_tag), st1) \<Rightarrow>
          (if CBS_len contents = header_len \<and> header_len > 0 \<and>
              CBS_data contents ! (header_len - 1) = 0x80
           then
     (case convert_ber_rec fuel libc (Suc loc) c1 st1 out_contents child_string_tag True (Suc depth) of
        (False, c2, st2) \<Rightarrow> (False, c2, st2)
      | (True, c2, st2) \<Rightarrow>
     (case CBB_flush libc st2 out of
        (False, st3) \<Rightarrow> (False, c2, st3)
      | (True, st3) \<Rightarrow> convert_ber_rec fuel libc loc c2 st3 out string_tag looking_for_eoc depth))
           else
     (case CBS_skip contents header_len of
        (False, _) \<Rightarrow> (False, c1, st1)
      | (True, body) \<Rightarrow>
     (case (if tag AND CBS_ASN1_CONSTRUCTED \<noteq> 0
            then (case convert_ber_rec fuel libc (Suc loc) body st1 out_contents child_string_tag False (Suc depth) of
                    (ok, _, st2) \<Rightarrow> (ok, st2))
            else CBB_add_bytes libc st1 out_contents (CBS_data body) (CBS_len body)) of
        (False, st2) \<Rightarrow> (False, c1, st2)
      | (True, st2) \<Rightarrow>
     (case CBB_flush libc st2 out of
        (False, st3) \<Rightarrow> (False, c1, st3)
      | (True, st3) \<Rightarrow> convert_ber_rec fuel libc loc c1 st3 out string_tag looking_for_eoc depth))))))))"

definition cbs_convert_ber ::
    "libc_malloc \<Rightarrow> nat \<Rightarrow> cbs \<Rightarrow> cbb_mem \<Rightarrow> nat \<Rightarrow> u32 \<Rightarrow> bool \<Rightarrow> nat \<Rightarrow> bool \<times> cbs \<times> cbb_mem" where
  "cbs_convert_ber libc loc c st out string_tag looking_for_eoc depth =
     convert_ber_rec (Suc (CBS_len c)) libc loc c st out string_tag looking_for_eoc depth"

text \<open>
  The result of \<open>CBS_asn1_ber_to_der\<close>: the DER string and the storage that holds it, \<open>None\<close> where
  it is a part of the input. The builder is a local variable at address 0 of a memory with room for
  the locals of every recursive call.
\<close>

definition CBS_asn1_ber_to_der :: "libc_malloc \<Rightarrow> cbs \<Rightarrow> (cbs \<times> bytes option) option \<times> cbs" where
  "CBS_asn1_ber_to_der libc c =
     (case cbs_find_ber c 0 of
        None \<Rightarrow> (None, c)
      | Some False \<Rightarrow>
          (case CBS_get_any_asn1_element c of
             (None, c1) \<Rightarrow> (None, c1)
           | (Some (out, _, _), c1) \<Rightarrow> (Some (out, None), c1))
      | Some True \<Rightarrow>
          (case CBB_init libc (fresh_cbb_mem\<lparr>cbb_objects := kMaxDepth + 3\<rparr>) 0 (CBS_len c) of
             (False, _) \<Rightarrow> (None, c)
           | (True, st) \<Rightarrow>
               (case cbs_convert_ber libc 1 c st 0 0 False 0 of
                  (False, c1, _) \<Rightarrow> (None, c1)
                | (True, c1, st1) \<Rightarrow>
                    (case CBB_finish libc st1 0 True True of
                       (None, _) \<Rightarrow> (None, c1)
                     | (Some (storage, len), _) \<Rightarrow>
                         (Some (CBS_init (case storage of None \<Rightarrow> [] | Some b \<Rightarrow> b) len, storage), c1)))))"

section \<open>Implicitly tagged strings\<close>

lemma get_asn1_shrinks:
  assumes "CBS_get_asn1 c tag = (Some out, c')"
  shows "cbs_len c' < cbs_len c"
  using assms
  by (auto simp: CBS_get_asn1_def cbs_get_asn1_def split: prod.splits option.splits if_splits bool.splits
      dest: get_any_element_shrinks)

function implicit_string_loop ::
    "libc_malloc \<Rightarrow> cbb_mem \<Rightarrow> cbs \<Rightarrow> u32 \<Rightarrow> bool \<times> cbb_mem" where
  "implicit_string_loop libc st ch inner_tag =
     (if CBS_len ch > 0 then
        (case CBS_get_asn1 ch inner_tag of
           (None, _) \<Rightarrow> (False, st)
         | (Some chunk, ch') \<Rightarrow>
             (case CBB_add_bytes libc st 0 (CBS_data chunk) (CBS_len chunk) of
                (False, st1) \<Rightarrow> (False, st1)
              | (True, st1) \<Rightarrow> implicit_string_loop libc st1 ch' inner_tag))
      else (True, st))"
  by pat_completeness auto
termination
  by (relation "measure (\<lambda>(libc, st, ch, tag). cbs_len ch)") (auto dest!: get_asn1_shrinks [OF sym])

declare implicit_string_loop.simps [simp del]

definition CBS_get_asn1_implicit_string ::
    "libc_malloc \<Rightarrow> cbs \<Rightarrow> u32 \<Rightarrow> u32 \<Rightarrow> (cbs \<times> bytes option) option \<times> cbs" where
  "CBS_get_asn1_implicit_string libc c outer_tag inner_tag =
     (if CBS_peek_asn1_tag c outer_tag then
        (case CBS_get_asn1 c outer_tag of
           (None, c1) \<Rightarrow> (None, c1)
         | (Some out, c1) \<Rightarrow> (Some (out, None), c1))
      else
        (case CBB_init libc fresh_cbb_mem 0 (CBS_len c) of
           (False, _) \<Rightarrow> (None, c)
         | (True, st) \<Rightarrow>
             (case CBS_get_asn1 c (outer_tag OR CBS_ASN1_CONSTRUCTED) of
                (None, c1) \<Rightarrow> (None, c1)
              | (Some ch, c1) \<Rightarrow>
                  (case implicit_string_loop libc st ch inner_tag of
                     (False, _) \<Rightarrow> (None, c1)
                   | (True, st1) \<Rightarrow>
                       (case CBB_finish libc st1 0 True True of
                          (None, _) \<Rightarrow> (None, c1)
                        | (Some (data, len), _) \<Rightarrow>
                            (Some (CBS_init (case data of None \<Rightarrow> [] | Some b \<Rightarrow> b) len, data), c1))))))"

section \<open>\<open>CBB_finish_i2d\<close>\<close>

text \<open>
  The caller's \<open>outp\<close>: no pointer at all, a pointer to \<open>NULL\<close>, which receives the buffer, or a
  pointer into a buffer, given as the bytes from there on, which receives a copy and is advanced.
  The result is the returned length (\<open>- 1\<close> for an error) and \<open>outp\<close> afterwards.
\<close>

datatype i2d_out = No_Output | Null_Output | Into bytes nat

definition CBB_finish_i2d :: "libc_malloc \<Rightarrow> cbb_mem \<Rightarrow> nat \<Rightarrow> i2d_out \<Rightarrow> int \<times> i2d_out" where
  "CBB_finish_i2d libc st h outp =
     (case CBB_finish libc st h True True of
        (None, _) \<Rightarrow> (- 1, outp)
      | (Some (der, der_len), _) \<Rightarrow>
          (if der_len > INT_MAX then (- 1, outp)
           else
             (int der_len,
              case outp of
                No_Output \<Rightarrow> No_Output
              | Null_Output \<Rightarrow> Into (case der of None \<Rightarrow> [] | Some b \<Rightarrow> b) 0
              | Into buf pos \<Rightarrow>
                  Into (mem_write buf pos (take der_len (case der of None \<Rightarrow> [] | Some b \<Rightarrow> b)))
                    (pos + der_len))))"

end
