(* ===== verification/Ber_Spec.thy ===== *)
theory Ber_Spec
  imports Ber Codec
begin

text \<open>
  BER values as trees, their encoding, and the DER they stand for: nested encodings made definite and
  the fragments of constructed strings concatenated. \<open>cbs_convert_ber\<close> maps the one to the other, and
  \<open>find_ber_loop\<close> computes \<open>scan\<close>, which is not quite the presence of BER.
\<close>

section \<open>Trees\<close>

datatype ber = Prim u32 bytes | Con u32 bool "ber list"

fun enc :: "ber \<Rightarrow> bytes" where
  "enc (Prim tag body) = der tag body"
| "enc (Con tag indefinite ts) =
     (if indefinite then der_tag tag @ [0x80] @ concat (map enc ts) @ [0, 0]
      else der tag (concat (map enc ts)))"

definition encs :: "ber list \<Rightarrow> bytes" where
  "encs ts = concat (map enc ts)"

fun ber_ok :: "ber \<Rightarrow> bool" where
  "ber_ok (Prim tag body) \<longleftrightarrow> tag AND CBS_ASN1_CONSTRUCTED = 0 \<and> length body < 2 ^ 32 \<and> \<not> (tag = 0 \<and> body = [])"
| "ber_ok (Con tag indefinite ts) \<longleftrightarrow> tag AND CBS_ASN1_CONSTRUCTED \<noteq> 0 \<and> (\<forall>t \<in> set ts. ber_ok t) \<and>
     (\<not> indefinite \<longrightarrow> length (concat (map enc ts)) < 2 ^ 32)"

fun height :: "ber \<Rightarrow> nat" where
  "height (Prim tag body) = 0"
| "height (Con tag indefinite ts) = Suc (foldr (\<lambda>t m. max (height t) m) ts 0)"

definition heights :: "ber list \<Rightarrow> nat" where
  "heights ts = foldr (\<lambda>t m. max (height t) m) ts 0"

lemma list_simps [simp]:
  "encs [] = []" "encs (t # ts) = enc t @ encs ts" "heights [] = 0"
  "heights (t # ts) = max (height t) (heights ts)"
  "enc (Con tag False ts) = der tag (encs ts)"
  "enc (Con tag True ts) = der_tag tag @ 0x80 # encs ts @ [0, 0]"
  "height (Con tag ind ts) = Suc (heights ts)"
  by (simp_all add: encs_def heights_def)

declare enc.simps(2) [simp del] height.simps(2) [simp del]

text \<open>Elements of a list of trees are smaller than the tree that holds it; the induction the proofs use.\<close>

lemma forest_induct [case_names Nil Prim Con]:
  assumes "P []"
    and "\<And>tag body ts. P ts \<Longrightarrow> P (Prim tag body # ts)"
    and "\<And>tag ind us ts. P us \<Longrightarrow> P ts \<Longrightarrow> P (Con tag ind us # ts)"
  shows "P ts"
proof (induction "size_list size ts" arbitrary: ts rule: less_induct)
  case less
  show ?case
  proof (cases ts)
    case Nil
    then show ?thesis using assms(1) by simp
  next
    case (Cons t ts')
    then have "P ts'" using less by simp
    then show ?thesis
    proof (cases t)
      case (Prim tag body)
      then show ?thesis using Cons assms(2) \<open>P ts'\<close> by simp
    next
      case (Con tag ind us)
      then have "P us" using less Cons by simp
      then show ?thesis using Con Cons assms(3) \<open>P ts'\<close> by simp
    qed
  qed
qed

section \<open>Reading an element\<close>

lemma get_ber_der [cbs_simps]:
  "length body < 2 ^ 32 \<Longrightarrow>
   CBS_get_any_ber_asn1_element (window (der tag body @ v) t) =
   (Some (window (der tag body) (v @ t), tag, der_header_len tag (length body)), window v t)"
  by (simp add: CBS_get_any_ber_asn1_element_def any_element_complete)

lemma get_ber_indefinite [cbs_simps]:
  assumes "tag AND CBS_ASN1_CONSTRUCTED \<noteq> 0"
  shows "CBS_get_any_ber_asn1_element (window (der_tag tag @ 0x80 # v) t) =
   (Some (window (der_tag tag @ [0x80]) (v @ t), tag, Suc (length (der_tag tag))), window v t)"
  using assms
  by (simp add: CBS_get_any_ber_asn1_element_def cbs_get_any_asn1_element_def parse_asn1_tag_complete
      cbs_simps Let_def)

lemma der_not_indefinite:
  "\<not> (length (der tag body) = der_header_len tag (length body) \<and> 0 < der_header_len tag (length body) \<and>
      (der tag body @ t) ! (der_header_len tag (length body) - Suc 0) = 0x80)"
proof
  assume a: "length (der tag body) = der_header_len tag (length body) \<and> 0 < der_header_len tag (length body) \<and>
      (der tag body @ t) ! (der_header_len tag (length body) - Suc 0) = 0x80"
  then have "body = []" by (simp add: der_header_len_def der_def)
  then show False using a by (simp add: der_def der_header_len_def der_len_def nth_append)
qed

lemma der_tag_hd: "tag AND CBS_ASN1_CONSTRUCTED \<noteq> 0 \<Longrightarrow> hd (der_tag tag) \<noteq> 0"
proof
  assume c: "tag AND CBS_ASN1_CONSTRUCTED \<noteq> 0" and h: "hd (der_tag tag) = 0"
  have "tag_lead tag = 0"
    using h by (auto simp: der_tag_def or_eq_0_iff split: if_splits)
  moreover have "bit (tag_lead tag) 5"
  proof -
    have e: "CBS_ASN1_CONSTRUCTED = 2 ^ 29" by (simp add: CBS_ASN1_CONSTRUCTED_def)
    have "bit tag 29" using c unfolding e and_exp_eq_0_iff_not_bit by simp
    moreover have "bit (0xe0 :: u8) 5" by code_simp
    ultimately show ?thesis by (simp add: tag_lead_def bit_and_iff bit_ucast_iff bit_drop_bit_eq)
  qed
  ultimately show False by simp
qed

lemma memcmp_zero2: "memcmp (a # b # v) [0, 0] 2 = 0 \<longleftrightarrow> a = 0 \<and> b = 0"
  by (auto simp: numeral_2_eq_2 word_gt_0)

lemma is_eoc_der: "is_eoc (der_header_len tag (length body)) (window (der tag body) t) \<longleftrightarrow> tag = 0 \<and> body = []"
proof
  assume e: "is_eoc (der_header_len tag (length body)) (window (der tag body) t)"
  then have b: "body = []" and l: "length (der_tag tag) = 1"
    by (auto simp: is_eoc_def cbs_simps der_header_len_def der_def der_len_def split: if_splits)
  then obtain x where x: "der_tag tag = [x]" by (cases "der_tag tag") auto
  with e b have "x = 0" by (simp add: is_eoc_def cbs_simps der_def der_len_def memcmp_zero2)
  with x have "der_tag tag = der_tag 0" by (simp add: der_tag_def tag_lead_def tag_num_def)
  then have "tag = 0" using asn1_tag.prefix_free [where x = tag and y = 0 and v = "[]" and w = "[]"] by simp
  with b show "tag = 0 \<and> body = []" by simp
next
  assume "tag = 0 \<and> body = []"
  then show "is_eoc (der_header_len tag (length body)) (window (der tag body) t)"
    by (simp add: is_eoc_def cbs_simps der_header_len_def der_def der_len_def der_tag_def tag_lead_def tag_num_def
        memcmp_zero2)
qed

lemma is_eoc_indefinite:
  "tag AND CBS_ASN1_CONSTRUCTED \<noteq> 0 \<Longrightarrow> \<not> is_eoc (Suc (length (der_tag tag))) (window (der_tag tag @ [0x80]) t)"
proof
  assume c: "tag AND CBS_ASN1_CONSTRUCTED \<noteq> 0"
    and e: "is_eoc (Suc (length (der_tag tag))) (window (der_tag tag @ [0x80]) t)"
  then obtain x where "der_tag tag = [x]" by (cases "der_tag tag") (auto simp: is_eoc_def cbs_simps)
  with e show False by (simp add: is_eoc_def cbs_simps memcmp_zero2)
qed

section \<open>What \<open>cbs_find_ber\<close> computes\<close>

function scan :: "bool \<Rightarrow> ber list \<Rightarrow> bool" where
  "scan found [] = found"
| "scan found (Prim tag body # ts) = scan found ts"
| "scan found (Con tag ind us # ts) =
     (ind \<or> is_string_type tag \<or> scan (scan False us) ts)"
  by pat_completeness auto
termination by (relation "measure (\<lambda>(b, ts). size_list size ts)") auto

text \<open>Whether the trees are in BER: an indefinite length or a constructed string anywhere.\<close>

fun uses_ber :: "ber \<Rightarrow> bool" where
  "uses_ber (Prim tag body) = False"
| "uses_ber (Con tag ind ts) = (ind \<or> is_string_type tag \<or> (\<exists>t \<in> set ts. uses_ber t))"

lemma find_ber_unfold:
  "find_ber_loop depth (window [] t) found = Some found"
  by (subst find_ber_loop.simps) (simp add: cbs_simps)

lemma find_ber_loop_scan:
  "\<forall>t \<in> set ts. ber_ok t \<Longrightarrow> depth + heights ts \<le> kMaxDepth \<Longrightarrow>
   find_ber_loop depth (window (encs ts) t) found = Some (scan found ts)"
proof (induction ts arbitrary: depth found t rule: forest_induct)
  case Nil
  then show ?case by (simp add: find_ber_unfold)
next
  case (Prim tag body ts)
  have IH: "find_ber_loop depth (window (encs ts) t) found = Some (scan found ts)"
    using Prim by simp
  show ?case
    using Prim.prems IH der_not_indefinite [of tag body "encs ts @ t"]
    by (subst find_ber_loop.simps) (auto simp: cbs_simps)
next
  case (Con tag ind us ts)
  have ok: "tag AND CBS_ASN1_CONSTRUCTED \<noteq> 0" "\<forall>u \<in> set us. ber_ok u" using Con.prems by auto
  have d: "Suc depth + heights us \<le> kMaxDepth" "depth + heights ts \<le> kMaxDepth" using Con.prems by auto
  show ?case
  proof (cases ind)
    case True
    then show ?thesis
      using ok by (subst find_ber_loop.simps) (simp add: cbs_simps)
  next
    case False
    have len: "length (encs us) < 2 ^ 32" using Con.prems False by (simp add: encs_def)
    have IH1: "find_ber_loop (Suc depth) (window (encs us) (encs ts @ t)) False = Some (scan False us)"
      using Con.IH(1) ok d by simp
    have IH2: "find_ber_loop depth (window (encs ts) t) f = Some (scan f ts)" for f
      using Con.IH(2) Con.prems d by simp
    show ?thesis
      using False ok len IH1 IH2 d der_not_indefinite [of tag "encs us" "encs ts @ t"]
      by (subst find_ber_loop.simps) (auto simp: cbs_simps)
  qed
qed

lemma scan_uses: "scan found ts \<Longrightarrow> found \<or> (\<exists>t \<in> set ts. uses_ber t)"
  by (induction found ts rule: scan.induct) auto

lemma scan_none: "\<forall>t \<in> set ts. \<not> uses_ber t \<Longrightarrow> scan False ts = False"
  using scan_uses by blast


section \<open>The DER of a tree\<close>

fun all_some :: "'a list option list \<Rightarrow> 'a list option" where
  "all_some [] = Some []"
| "all_some (None # xs) = None"
| "all_some (Some x # xs) = map_option (\<lambda>ys. x @ ys) (all_some xs)"

text \<open>
  \<open>to_der s t\<close>: with \<open>s = 0\<close> the DER encoding, otherwise the contents of a fragment of a string of
  tag \<open>s\<close>. \<open>None\<close> is an input the conversion rejects: a fragment of another type, or contents that
  are too long for the length octets it writes.
\<close>

fun to_der :: "u32 \<Rightarrow> ber \<Rightarrow> bytes option" where
  "to_der s (Prim tag body) =
     (if s \<noteq> 0 then (if tag AND NOT CBS_ASN1_CONSTRUCTED = s then Some body else None)
      else if length body \<le> 0xfffffffe then Some (der tag body) else None)"
| "to_der s (Con tag ind ts) =
     (if s \<noteq> 0 then (if tag AND NOT CBS_ASN1_CONSTRUCTED = s then all_some (map (to_der s) ts) else None)
      else
        (let out_tag = (if is_string_type tag then tag AND NOT CBS_ASN1_CONSTRUCTED else tag)
         in case all_some (map (to_der (if is_string_type tag then out_tag else 0)) ts) of
              None \<Rightarrow> None
            | Some c \<Rightarrow> if length c \<le> 0xfffffffe then Some (der out_tag c) else None))"

definition to_ders :: "u32 \<Rightarrow> ber list \<Rightarrow> bytes option" where
  "to_ders s ts = all_some (map (to_der s) ts)"

lemma to_ders_simps [simp]:
  "to_ders s [] = Some []"
  "to_ders s (t # ts) = (case to_der s t of None \<Rightarrow> None | Some x \<Rightarrow> map_option (\<lambda>ys. x @ ys) (to_ders s ts))"
  by (simp_all add: to_ders_def split: option.splits)

section \<open>The reader after a conversion\<close>

definition after_forest :: "bool \<Rightarrow> bytes \<Rightarrow> bytes \<Rightarrow> bool" where
  "after_forest eoc w rest \<longleftrightarrow> (if eoc then w = 0 # 0 # rest else w = [] \<and> rest = [])"

lemma der_eoc: "der 0 [] = [0, 0]"
  by (simp add: der_def der_tag_def der_len_def tag_lead_def tag_num_def)

lemma convert_end:
  assumes "after_forest eoc w rest" and "depth \<le> kMaxDepth"
  shows "convert_ber_rec (Suc fuel) libc loc (window w t) st h s eoc depth = (True, window rest t, st)"
proof (cases eoc)
  case True
  then have w: "w = der 0 [] @ rest" using assms(1) by (simp add: after_forest_def der_eoc)
  have eoc0: "is_eoc (der_header_len 0 0) (window (der 0 []) (rest @ t))"
    using is_eoc_der [of 0 "[]" "rest @ t"] by simp
  show ?thesis
    using True assms(2) eoc0 by (simp add: w cbs_simps)
next
  case False
  then show ?thesis using assms by (simp add: after_forest_def cbs_simps)
qed

text \<open>One round on each kind of element.\<close>

lemma convert_prim:
  assumes "ber_ok (Prim tag body)" and "depth \<le> kMaxDepth"
  shows "convert_ber_rec (Suc fuel) libc loc (window (der tag body @ w) t) st h s eoc depth =
     (case convert_open libc loc st h s tag of
        (None, st1) \<Rightarrow> (False, window w t, st1)
      | (Some (out, cs), st1) \<Rightarrow>
     (case CBB_add_bytes libc st1 out (body @ w @ t) (length body) of
        (False, st2) \<Rightarrow> (False, window w t, st2)
      | (True, st2) \<Rightarrow>
     (case CBB_flush libc st2 h of
        (False, st3) \<Rightarrow> (False, window w t, st3)
      | (True, st3) \<Rightarrow> convert_ber_rec fuel libc loc (window w t) st3 h s eoc depth)))"
proof -
  have ok: "tag AND CBS_ASN1_CONSTRUCTED = 0" "length body < 2 ^ 32"
    "is_eoc (der_header_len tag (length body)) (window (der tag body) (w @ t)) = False"
    using assms(1) by (auto simp: is_eoc_der)
  note nb = Eq_FalseI [OF der_not_indefinite [of tag body "w @ t"]]
  obtain r st1 where op: "convert_open libc loc st h s tag = (r, st1)" by fastforce
  show ?thesis
    using assms(2) ok
    by (cases r) (simp_all add: cbs_simps op nb split: prod.split)
qed

lemma convert_indefinite:
  assumes "tag AND CBS_ASN1_CONSTRUCTED \<noteq> 0" and "depth \<le> kMaxDepth"
  shows "convert_ber_rec (Suc fuel) libc loc (window (der_tag tag @ 0x80 # w) t) st h s eoc depth =
     (case convert_open libc loc st h s tag of
        (None, st1) \<Rightarrow> (False, window w t, st1)
      | (Some (out, cs), st1) \<Rightarrow>
     (case convert_ber_rec fuel libc (Suc loc) (window w t) st1 out cs True (Suc depth) of
        (False, c2, st2) \<Rightarrow> (False, c2, st2)
      | (True, c2, st2) \<Rightarrow>
     (case CBB_flush libc st2 h of
        (False, st3) \<Rightarrow> (False, c2, st3)
      | (True, st3) \<Rightarrow> convert_ber_rec fuel libc loc c2 st3 h s eoc depth)))"
proof -
  have e: "is_eoc (Suc (length (der_tag tag))) (window (der_tag tag @ [0x80]) (w @ t)) = False"
    using is_eoc_indefinite [OF assms(1)] by simp
  obtain r st1 where op: "convert_open libc loc st h s tag = (r, st1)" by fastforce
  show ?thesis
    using assms e by (cases r) (simp_all add: cbs_simps op split: prod.split)
qed

lemma convert_definite:
  assumes "tag AND CBS_ASN1_CONSTRUCTED \<noteq> 0" and "depth \<le> kMaxDepth" and "length body < 2 ^ 32"
  shows "convert_ber_rec (Suc fuel) libc loc (window (der tag body @ w) t) st h s eoc depth =
     (case convert_open libc loc st h s tag of
        (None, st1) \<Rightarrow> (False, window w t, st1)
      | (Some (out, cs), st1) \<Rightarrow>
     (case convert_ber_rec fuel libc (Suc loc) (window body (w @ t)) st1 out cs False (Suc depth) of
        (False, c2, st2) \<Rightarrow> (False, window w t, st2)
      | (True, c2, st2) \<Rightarrow>
     (case CBB_flush libc st2 h of
        (False, st3) \<Rightarrow> (False, window w t, st3)
      | (True, st3) \<Rightarrow> convert_ber_rec fuel libc loc (window w t) st3 h s eoc depth)))"
proof -
  have "tag \<noteq> 0" using assms(1) by auto
  then have e: "is_eoc (der_header_len tag (length body)) (window (der tag body) (w @ t)) = False"
    by (simp add: is_eoc_der)
  note nb = Eq_FalseI [OF der_not_indefinite [of tag body "w @ t"]]
  obtain r st1 where op: "convert_open libc loc st h s tag = (r, st1)" by fastforce
  show ?thesis
    using assms e by (cases r) (simp_all add: cbs_simps op nb split: prod.split)
qed

section \<open>The outcome of a conversion\<close>

text \<open>
  As \<open>cbb_result\<close>, with the reader: the conversion leaves the frames \<open>spec\<close> and the reader at
  \<open>rest\<close>. It can also fail before the builder does, so no error is recorded.
\<close>

definition conv_result ::
    "libc_malloc \<Rightarrow> cbb_mem \<Rightarrow> nat list \<Rightarrow> frames option \<Rightarrow> bytes \<Rightarrow> bytes \<Rightarrow> bool \<times> cbs \<times> cbb_mem \<Rightarrow> bool" where
  "conv_result libc st hs spec rest t r \<longleftrightarrow>
     (case r of (ok, c, st') \<Rightarrow>
        if ok then c = window rest t \<and> (\<exists>fs. spec = Some fs \<and> cbb_rep st' hs fs) \<and>
                   base_cap st \<le> base_cap st' \<and> cbb_objects st' = cbb_objects st \<and>
                   can_resize st' = can_resize st
        else (\<forall>fs. spec = Some fs \<longrightarrow> outgrown libc st (length (layout fs))))"

lemma conv_then:
  assumes r1: "conv_result libc st hs spec1 w t r1"
    and step: "\<And>st1 fs1. spec1 = Some fs1 \<Longrightarrow> cbb_rep st1 hs fs1 \<Longrightarrow> cbb_objects st1 = cbb_objects st \<Longrightarrow>
        conv_result libc st1 hs' (spec2 fs1) rest t (f (window w t) st1)"
    and grows: "\<And>fs1 fs2. spec1 = Some fs1 \<Longrightarrow> spec2 fs1 = Some fs2 \<Longrightarrow> length (layout fs1) \<le> length (layout fs2)"
  shows "conv_result libc st hs' (Option.bind spec1 spec2) rest t
           (case r1 of (False, c, st1) \<Rightarrow> (False, g c, st1) | (True, c, st1) \<Rightarrow> f c st1)"
proof -
  obtain ok c st1 where Pair: "r1 = (ok, c, st1)" by (cases r1)
  show ?thesis
  proof (cases ok)
    case True
    with r1 Pair obtain fs1 where fs1: "c = window w t" "spec1 = Some fs1" "cbb_rep st1 hs fs1"
      "base_cap st \<le> base_cap st1" "cbb_objects st1 = cbb_objects st" "can_resize st1 = can_resize st"
      by (auto simp: conv_result_def)
    from step [OF fs1(2,3,5)] show ?thesis
      using fs1 Pair True by (auto simp: conv_result_def split: prod.splits if_splits elim: outgrown_mono)
  next
    case False
    have "outgrown libc st (length (layout fs2))" if "Option.bind spec1 spec2 = Some fs2" for fs2
    proof -
      from that obtain fs1 where "spec1 = Some fs1" "spec2 fs1 = Some fs2" by (auto simp: bind_eq_Some_conv)
      with r1 Pair False grows [of fs1 fs2] show ?thesis by (auto simp: conv_result_def elim: outgrown_mono)
    qed
    with Pair False show ?thesis by (auto simp: conv_result_def)
  qed
qed

lemma conv_result_cbb: "cbb_result libc st hs spec (ok, st1) \<Longrightarrow> conv_result libc st hs spec w t (ok, window w t, st1)"
  by (auto simp: cbb_result_def conv_result_def)

lemma conv_then_cbb:
  assumes "cbb_result libc st hs spec1 r1"
    and "\<And>st1 fs1. spec1 = Some fs1 \<Longrightarrow> cbb_rep st1 hs fs1 \<Longrightarrow> cbb_objects st1 = cbb_objects st \<Longrightarrow>
        conv_result libc st1 hs' (spec2 fs1) rest t (f st1)"
    and "\<And>fs1 fs2. spec1 = Some fs1 \<Longrightarrow> spec2 fs1 = Some fs2 \<Longrightarrow> length (layout fs1) \<le> length (layout fs2)"
  shows "conv_result libc st hs' (Option.bind spec1 spec2) rest t
           (case r1 of (False, st1) \<Rightarrow> (False, wo, st1) | (True, st1) \<Rightarrow> f st1)"
proof (cases r1)
  case (Pair ok st1)
  then show ?thesis
    using conv_then [where f = "\<lambda>c st1. f st1" and g = "\<lambda>_. wo",
        OF conv_result_cbb [of libc st hs spec1 ok st1 "[]" t] assms(2,3)] assms(1)
    by (cases ok) auto
qed

definition child_tag :: "u32 \<Rightarrow> u32 \<Rightarrow> u32" where
  "child_tag s tag =
     (if s = 0 \<and> tag AND CBS_ASN1_CONSTRUCTED \<noteq> 0 \<and> is_string_type tag
      then tag AND NOT CBS_ASN1_CONSTRUCTED else s)"

definition element_der :: "u32 \<Rightarrow> u32 \<Rightarrow> bytes option \<Rightarrow> bytes option" where
  "element_der s tag contents =
     (if s \<noteq> 0 then (if tag AND NOT CBS_ASN1_CONSTRUCTED = s then contents else None)
      else Option.bind contents (\<lambda>c. if length c \<le> 0xfffffffe
             then Some (der (if child_tag 0 tag \<noteq> 0 then child_tag 0 tag else tag) c) else None))"

text \<open>
  One round of the loop: open, write the contents, close, go on. \<open>inner\<close> writes the contents and
  \<open>cont\<close> is the rest of the loop.
\<close>

definition convert_round ::
    "libc_malloc \<Rightarrow> nat \<Rightarrow> cbb_mem \<Rightarrow> nat \<Rightarrow> u32 \<Rightarrow> u32 \<Rightarrow> cbs \<Rightarrow> (cbs \<Rightarrow> cbs) \<Rightarrow>
     (cbb_mem \<Rightarrow> nat \<Rightarrow> u32 \<Rightarrow> bool \<times> cbs \<times> cbb_mem) \<Rightarrow> (cbs \<Rightarrow> cbb_mem \<Rightarrow> bool \<times> cbs \<times> cbb_mem) \<Rightarrow>
     bool \<times> cbs \<times> cbb_mem" where
  "convert_round libc loc st h s tag w0 g inner cont =
     (case convert_open libc loc st h s tag of
        (None, st1) \<Rightarrow> (False, w0, st1)
      | (Some (out, cs), st1) \<Rightarrow>
     (case inner st1 out cs of
        (False, c2, st2) \<Rightarrow> (False, g c2, st2)
      | (True, c2, st2) \<Rightarrow>
     (case CBB_flush libc st2 h of
        (False, st3) \<Rightarrow> (False, g c2, st3)
      | (True, st3) \<Rightarrow> cont c2 st3)))"

lemma conv_result_spec:
  "conv_result libc st hs spec rest t r \<Longrightarrow> spec = spec' \<Longrightarrow> conv_result libc st hs spec' rest t r"
  by simp

lemma string_child_tag: "is_string_type tag \<Longrightarrow> tag AND NOT CBS_ASN1_CONSTRUCTED \<noteq> 0"
  by (auto simp: is_string_type_def)

lemma close_last:
  assumes rep: "cbb_rep st (ps @ h # qs) (gs @ (k, b) # ys)" and len: "length ps = length gs" and libc: "libc_wf libc"
    and cont: "\<And>st3 b'. cbb_rep st3 (ps @ [h]) (gs @ [(k, b')]) \<Longrightarrow> cbb_objects st3 = cbb_objects st \<Longrightarrow>
        conv_result libc st3 (ps @ [h]) (map_option (\<lambda>d. gs @ [(k, b' @ d)]) D) rest t (cont st3)"
  shows "conv_result libc st (ps @ [h]) (Option.bind (collapse ys) (\<lambda>c. map_option (\<lambda>d. gs @ [(k, b @ c @ d)]) D)) rest t
     (case CBB_flush libc st h of (False, st3) \<Rightarrow> (False, wo, st3) | (True, st3) \<Rightarrow> cont st3)"
proof -
  let ?spec2 = "\<lambda>fs. map_option (\<lambda>d. butlast fs @ [(k, snd (last fs) @ d)]) D"
  have cont': "conv_result libc st3 (ps @ [h]) (map_option (\<lambda>d. gs @ [(k, b @ c @ d)]) D) rest t (cont st3)"
    if "cbb_rep st3 (ps @ [h]) (gs @ [(k, b @ c)])" "cbb_objects st3 = cbb_objects st" for st3 c
    using cont [OF that] by simp
  have "conv_result libc st (ps @ [h]) (Option.bind (map_option (\<lambda>c. gs @ [(k, b @ c)]) (collapse ys)) ?spec2) rest t
     (case CBB_flush libc st h of (False, st3) \<Rightarrow> (False, wo, st3) | (True, st3) \<Rightarrow> cont st3)"
    by (rule conv_then_cbb [OF CBB_flush_result [OF rep len libc]]) (use cont' in auto)
  then show ?thesis
    by (rule conv_result_spec) (cases "collapse ys"; simp)
qed

lemma round_in_string:
  assumes rep: "cbb_rep st (ps @ [h]) (gs @ [(k, b)])" and len: "length ps = length gs" and libc: "libc_wf libc"
    and s: "s \<noteq> 0"
    and inner: "conv_result libc st (ps @ [h]) (map_option (\<lambda>c. gs @ [(k, b @ c)]) body) w t (inner st h s)"
    and cont: "\<And>st3 b'. cbb_rep st3 (ps @ [h]) (gs @ [(k, b')]) \<Longrightarrow> cbb_objects st3 = cbb_objects st \<Longrightarrow>
        conv_result libc st3 (ps @ [h]) (map_option (\<lambda>c. gs @ [(k, b' @ c)]) D) rest t (cont (window w t) st3)"
  shows "conv_result libc st (ps @ [h])
     (map_option (\<lambda>c. gs @ [(k, b @ c)])
        (case element_der s tag body of None \<Rightarrow> None | Some x \<Rightarrow> map_option (\<lambda>ys. x @ ys) D)) rest t
     (convert_round libc loc st h s tag w0 g inner cont)"
proof (cases "tag AND NOT CBS_ASN1_CONSTRUCTED = s")
  case False
  then show ?thesis using s by (simp add: convert_round_def convert_open_def element_der_def conv_result_def)
next
  case True
  let ?spec2 = "\<lambda>fs. map_option (\<lambda>d. butlast fs @ [(k, snd (last fs) @ d)]) D"
  have fl: "conv_result libc st2 (ps @ [h]) (map_option (\<lambda>d. gs @ [(k, b @ c @ d)]) D) rest t
     (case CBB_flush libc st2 h of (False, st3) \<Rightarrow> (False, g (window w t), st3) | (True, st3) \<Rightarrow> cont (window w t) st3)"
    if "cbb_rep st2 (ps @ [h]) (gs @ [(k, b @ c)])" "cbb_objects st2 = cbb_objects st" for st2 c
    using close_last [where qs = "[]" and ys = "[]" and cont = "cont (window w t)" and wo = "g (window w t)" and st = st2 and ps = ps
        and h = h and gs = gs and k = k and b = "b @ c" and D = D and rest = rest and t = t, OF _ len libc]
      that cont by simp
  have "conv_result libc st (ps @ [h]) (Option.bind (map_option (\<lambda>c. gs @ [(k, b @ c)]) body) ?spec2) rest t
     (case inner st h s of (False, c2, st2) \<Rightarrow> (False, g c2, st2)
      | (True, c2, st2) \<Rightarrow> (case CBB_flush libc st2 h of
          (False, st3) \<Rightarrow> (False, g c2, st3) | (True, st3) \<Rightarrow> cont c2 st3))"
    by (rule conv_then [OF inner]) (use fl in auto)
  moreover have "Option.bind (map_option (\<lambda>c. gs @ [(k, b @ c)]) body) ?spec2 =
     map_option (\<lambda>c. gs @ [(k, b @ c)])
        (case element_der s tag body of None \<Rightarrow> None | Some x \<Rightarrow> map_option (\<lambda>ys. x @ ys) D)"
    using True s by (cases body; cases D) (simp_all add: element_der_def)
  ultimately show ?thesis using True s by (simp add: convert_round_def convert_open_def)
qed

lemma round_outside:
  assumes rep: "cbb_rep st (ps @ [h]) (gs @ [(k, b)])" and len: "length ps = length gs" and libc: "libc_wf libc"
    and loc: "loc \<notin> set (ps @ [h])" "loc < cbb_objects st"
    and inner: "\<And>st1 pre. cbb_rep st1 (ps @ [h, loc]) (gs @ [(k, b @ pre), (Asn1, [])]) \<Longrightarrow>
        cbb_objects st1 = cbb_objects st \<Longrightarrow>
        conv_result libc st1 (ps @ [h, loc]) (map_option (\<lambda>c. gs @ [(k, b @ pre), (Asn1, c)]) body) w t
          (inner st1 loc (child_tag 0 tag))"
    and cont: "\<And>st3 b'. cbb_rep st3 (ps @ [h]) (gs @ [(k, b')]) \<Longrightarrow> cbb_objects st3 = cbb_objects st \<Longrightarrow>
        conv_result libc st3 (ps @ [h]) (map_option (\<lambda>c. gs @ [(k, b' @ c)]) D) rest t (cont (window w t) st3)"
  shows "conv_result libc st (ps @ [h])
     (map_option (\<lambda>c. gs @ [(k, b @ c)])
        (case element_der 0 tag body of None \<Rightarrow> None | Some x \<Rightarrow> map_option (\<lambda>ys. x @ ys) D)) rest t
     (convert_round libc loc st h 0 tag w0 g inner cont)"
proof -
  define out where "out = (if child_tag 0 tag \<noteq> 0 then child_tag 0 tag else tag)"
  have op: "convert_open libc loc st h 0 tag =
     (case CBB_add_asn1 libc st h loc out of
        (False, st1) \<Rightarrow> (None, st1) | (True, st1) \<Rightarrow> (Some (loc, child_tag 0 tag), st1))"
    using string_child_tag [of tag] by (auto simp: convert_open_def child_tag_def out_def Let_def split: prod.split bool.split)
  let ?f = "\<lambda>st1. (case inner st1 loc (child_tag 0 tag) of (False, c2, st2) \<Rightarrow> (False, g c2, st2)
      | (True, c2, st2) \<Rightarrow> (case CBB_flush libc st2 h of
          (False, st3) \<Rightarrow> (False, g c2, st3) | (True, st3) \<Rightarrow> cont c2 st3))"
  have round_eq: "convert_round libc loc st h 0 tag w0 g inner cont =
     (case CBB_add_asn1 libc st h loc out of (False, st1) \<Rightarrow> (False, w0, st1) | (True, st1) \<Rightarrow> ?f st1)"
    by (auto simp: convert_round_def op split: prod.split bool.split)
  have fl: "conv_result libc st2 (ps @ [h])
     (Option.bind (close_frame Asn1 c) (\<lambda>c. map_option (\<lambda>d. gs @ [(k, (b @ der_tag out) @ c @ d)]) D)) rest t
     (case CBB_flush libc st2 h of (False, st3) \<Rightarrow> (False, g (window w t), st3) | (True, st3) \<Rightarrow> cont (window w t) st3)"
    if "cbb_rep st2 (ps @ [h, loc]) (gs @ [(k, b @ der_tag out), (Asn1, c)])" "cbb_objects st2 = cbb_objects st" for st2 c
  proof -
    have c: "collapse [(Asn1, c)] = close_frame Asn1 c" by simp
    show ?thesis
      unfolding c [symmetric] by (rule close_last) (use that len libc cont in auto)
  qed
  let ?tail = "\<lambda>c. Option.bind (close_frame Asn1 c) (\<lambda>c. map_option (\<lambda>d. gs @ [(k, (b @ der_tag out) @ c @ d)]) D)"
  let ?spec2 = "\<lambda>fs. ?tail (snd (last fs))"
  let ?spec1 = "\<lambda>fs :: frames. map_option (\<lambda>c. gs @ [(k, b @ der_tag out), (Asn1, c)]) body"
  have f: "conv_result libc st1 (ps @ [h]) (Option.bind body ?tail) rest t (?f st1)"
    if rep1: "cbb_rep st1 (ps @ [h, loc]) (gs @ [(k, b @ der_tag out), (Asn1, [])])"
      and o: "cbb_objects st1 = cbb_objects st" for st1
  proof -
    have "conv_result libc st1 (ps @ [h]) (Option.bind (?spec1 []) ?spec2) rest t (?f st1)"
      by (rule conv_then [OF inner [OF rep1 o]]) (use fl o in \<open>auto simp: bind_eq_Some_conv simp del: close_frame.simps dest!: close_frame_length\<close>)
    then show ?thesis by (rule conv_result_spec) (cases body; simp)
  qed
  have add: "cbb_result libc st (ps @ [h, loc]) (opened gs k b [] (der_tag out) Asn1) (CBB_add_asn1 libc st h loc out)"
    by (rule add_asn1_result) (use rep len libc loc in auto)
  have "conv_result libc st (ps @ [h]) (Option.bind (opened gs k b [] (der_tag out) Asn1) (\<lambda>_. Option.bind body ?tail)) rest t
     (convert_round libc loc st h 0 tag w0 g inner cont)"
    unfolding round_eq
    by (rule conv_then_cbb [OF add]) (use f in \<open>auto simp: opened_def bind_eq_Some_conv der_len_def split: if_splits\<close>)
  then show ?thesis
  proof (rule conv_result_spec)
    show "Option.bind (opened gs k b [] (der_tag out) Asn1) (\<lambda>_. Option.bind body ?tail) =
      map_option (\<lambda>c. gs @ [(k, b @ c)])
        (case element_der 0 tag body of None \<Rightarrow> None | Some x \<Rightarrow> map_option (\<lambda>ys. x @ ys) D)"
      by (cases body; cases D) (simp_all add: opened_def element_der_def out_def [symmetric] der_def)
  qed
qed

lemma to_der_prim:
  "tag AND CBS_ASN1_CONSTRUCTED = 0 \<Longrightarrow> to_der s (Prim tag body) = element_der s tag (Some body)"
  by (simp add: element_der_def child_tag_def)

lemma to_der_con:
  "tag AND CBS_ASN1_CONSTRUCTED \<noteq> 0 \<Longrightarrow>
   to_der s (Con tag ind ts) = element_der s tag (to_ders (child_tag s tag) ts)"
  using string_child_tag [of tag]
  by (auto simp: element_der_def child_tag_def to_ders_def Let_def split: option.splits)

lemma convert_round_eqs:
  assumes "depth \<le> kMaxDepth"
  shows "ber_ok (Prim tag body) \<Longrightarrow>
     convert_ber_rec (Suc fuel) libc loc (window (der tag body @ w) t) st h s eoc depth =
     convert_round libc loc st h s tag (window w t) (\<lambda>_. window w t)
       (\<lambda>st1 out cs. case CBB_add_bytes libc st1 out (body @ w @ t) (length body) of
          (ok, st2) \<Rightarrow> (ok, window w t, st2))
       (\<lambda>c st3. convert_ber_rec fuel libc loc c st3 h s eoc depth)"
    and "tag AND CBS_ASN1_CONSTRUCTED \<noteq> 0 \<Longrightarrow>
     convert_ber_rec (Suc fuel) libc loc (window (der_tag tag @ 0x80 # w) t) st h s eoc depth =
     convert_round libc loc st h s tag (window w t) (\<lambda>c. c)
       (\<lambda>st1 out cs. convert_ber_rec fuel libc (Suc loc) (window w t) st1 out cs True (Suc depth))
       (\<lambda>c st3. convert_ber_rec fuel libc loc c st3 h s eoc depth)"
    and "tag AND CBS_ASN1_CONSTRUCTED \<noteq> 0 \<Longrightarrow> length body < 2 ^ 32 \<Longrightarrow>
     convert_ber_rec (Suc fuel) libc loc (window (der tag body @ w) t) st h s eoc depth =
     convert_round libc loc st h s tag (window w t) (\<lambda>_. window w t)
       (\<lambda>st1 out cs. case convert_ber_rec fuel libc (Suc loc) (window body (w @ t)) st1 out cs False (Suc depth) of
          (ok, _, st2) \<Rightarrow> (ok, window w t, st2))
       (\<lambda>c st3. convert_ber_rec fuel libc loc c st3 h s eoc depth)"
proof -
  show "convert_ber_rec (Suc fuel) libc loc (window (der tag body @ w) t) st h s eoc depth =
     convert_round libc loc st h s tag (window w t) (\<lambda>_. window w t)
       (\<lambda>st1 out cs. case CBB_add_bytes libc st1 out (body @ w @ t) (length body) of
          (ok, st2) \<Rightarrow> (ok, window w t, st2))
       (\<lambda>c st3. convert_ber_rec fuel libc loc c st3 h s eoc depth)" if "ber_ok (Prim tag body)"
    unfolding convert_prim [OF that assms] convert_round_def
    by (auto split: prod.split option.split bool.split)
  show "convert_ber_rec (Suc fuel) libc loc (window (der_tag tag @ 0x80 # w) t) st h s eoc depth =
     convert_round libc loc st h s tag (window w t) (\<lambda>c. c)
       (\<lambda>st1 out cs. convert_ber_rec fuel libc (Suc loc) (window w t) st1 out cs True (Suc depth))
       (\<lambda>c st3. convert_ber_rec fuel libc loc c st3 h s eoc depth)" if "tag AND CBS_ASN1_CONSTRUCTED \<noteq> 0"
    unfolding convert_indefinite [OF that assms] convert_round_def ..
  show "convert_ber_rec (Suc fuel) libc loc (window (der tag body @ w) t) st h s eoc depth =
     convert_round libc loc st h s tag (window w t) (\<lambda>_. window w t)
       (\<lambda>st1 out cs. case convert_ber_rec fuel libc (Suc loc) (window body (w @ t)) st1 out cs False (Suc depth) of
          (ok, _, st2) \<Rightarrow> (ok, window w t, st2))
       (\<lambda>c st3. convert_ber_rec fuel libc loc c st3 h s eoc depth)"
    if "tag AND CBS_ASN1_CONSTRUCTED \<noteq> 0" "length body < 2 ^ 32"
    unfolding convert_definite [OF that(1) assms that(2)] convert_round_def
    by (auto split: prod.split option.split bool.split)
qed

text \<open>Both kinds of rounds at once.\<close>

lemma round_result:
  assumes rep: "cbb_rep st (ps @ [h]) (gs @ [(k, b)])" and len: "length ps = length gs" and libc: "libc_wf libc"
    and loc: "\<forall>a \<in> set (ps @ [h]). a < loc" "loc < cbb_objects st"
    and inner: "\<And>st1 ps' h' gs' k' b' l'. cbb_rep st1 (ps' @ [h']) (gs' @ [(k', b')]) \<Longrightarrow>
        length ps' = length gs' \<Longrightarrow> \<forall>a \<in> set (ps' @ [h']). a < Suc loc \<Longrightarrow> cbb_objects st1 = cbb_objects st \<Longrightarrow>
        conv_result libc st1 (ps' @ [h']) (map_option (\<lambda>c. gs' @ [(k', b' @ c)]) body) w t (inner st1 h' (child_tag s tag))"
    and cont: "\<And>st3 b'. cbb_rep st3 (ps @ [h]) (gs @ [(k, b')]) \<Longrightarrow> cbb_objects st3 = cbb_objects st \<Longrightarrow>
        conv_result libc st3 (ps @ [h]) (map_option (\<lambda>c. gs @ [(k, b' @ c)]) D) rest t (cont (window w t) st3)"
  shows "conv_result libc st (ps @ [h])
     (map_option (\<lambda>c. gs @ [(k, b @ c)])
        (case element_der s tag body of None \<Rightarrow> None | Some x \<Rightarrow> map_option (\<lambda>ys. x @ ys) D)) rest t
     (convert_round libc loc st h s tag w0 g inner cont)"
proof (cases "s = 0")
  case False
  have "\<forall>a \<in> set (ps @ [h]). a < Suc loc" using loc(1) by auto
  from inner [OF rep len this refl]
  have "conv_result libc st (ps @ [h]) (map_option (\<lambda>c. gs @ [(k, b @ c)]) body) w t (inner st h s)"
    using False by (simp add: child_tag_def)
  then show ?thesis by (rule round_in_string [where cont = cont, OF rep len libc False _ cont])
next
  case True
  have in1: "conv_result libc st1 (ps @ [h, loc]) (map_option (\<lambda>c. gs @ [(k, b @ pre), (Asn1, c)]) body) w t
      (inner st1 loc (child_tag 0 tag))"
    if "cbb_rep st1 (ps @ [h, loc]) (gs @ [(k, b @ pre), (Asn1, [])])" "cbb_objects st1 = cbb_objects st" for st1 pre
    using inner [of st1 "ps @ [h]" loc "gs @ [(k, b @ pre)]" Asn1 "[]"] that len loc(1) True by fastforce
  have "loc \<notin> set (ps @ [h])" using loc(1) by auto
  then show ?thesis
    using round_outside [where inner = inner and cont = cont, OF rep len libc _ loc(2) in1 cont] True by simp
qed

section \<open>The conversion is correct\<close>

lemma conv_prim_inner:
  assumes libc: "libc_wf libc" and n: "length body < 2 ^ 32" and rep: "cbb_rep st1 (ps @ [h]) (gs @ [(k, b)])"
    and len: "length ps = length gs"
  shows "conv_result libc st1 (ps @ [h]) (map_option (\<lambda>c. gs @ [(k, b @ c)]) (Some body)) w t
     (case CBB_add_bytes libc st1 h (body @ v) (length body) of (ok, st2) \<Rightarrow> (ok, window w t, st2))"
proof -
  have "writes libc {} (\<lambda>st h. CBB_add_bytes libc st h (body @ v) (length body)) (take (length body) (body @ v))"
    by (rule writes_bytes) (use libc n in \<open>auto simp: ADDRESS_SPACE_def\<close>)
  from writesD_last [OF this rep len]
  have "cbb_result libc st1 (ps @ [h]) (Some (gs @ [(k, b @ body)])) (CBB_add_bytes libc st1 h (body @ v) (length body))"
    by simp
  then show ?thesis by (cases "CBB_add_bytes libc st1 h (body @ v) (length body)") (auto intro: conv_result_cbb)
qed

lemma conv_result_drop_reader:
  "conv_result libc st hs spec v u r \<Longrightarrow> conv_result libc st hs spec w t (case r of (ok, _, st2) \<Rightarrow> (ok, window w t, st2))"
  by (cases r) (auto simp: conv_result_def)

lemma der_longer: "length body < length (der tag body)"
  by (simp add: der_def der_len_def)

theorem convert_forest:
  assumes "\<forall>u \<in> set ts. ber_ok u" and "libc_wf libc" and "after_forest eoc w rest"
    and "cbb_rep st (ps @ [h]) (gs @ [(k, b)])" and "length ps = length gs"
    and "\<forall>a \<in> set (ps @ [h]). a < loc" and "loc + heights ts < cbb_objects st"
    and "depth + heights ts \<le> kMaxDepth" and "length (encs ts) < fuel"
  shows "conv_result libc st (ps @ [h]) (map_option (\<lambda>c. gs @ [(k, b @ c)]) (to_ders s ts)) rest t
     (convert_ber_rec fuel libc loc (window (encs ts @ w) t) st h s eoc depth)"
  using assms
proof (induction ts arbitrary: eoc w rest t st ps h gs k b loc depth fuel s rule: forest_induct)
  case Nil
  then obtain f where f: "fuel = Suc f" by (cases fuel) auto
  have "depth \<le> kMaxDepth" using Nil by simp
  from convert_end [OF Nil.prems(3) this, of f libc loc t st h s] Nil f
  show ?case by (simp add: conv_result_def del: convert_ber_rec.simps)
next
  case (Prim tag body ts)
  then obtain f where f: "fuel = Suc f" by (cases fuel) auto
  have ok: "ber_ok (Prim tag body)" "tag AND CBS_ASN1_CONSTRUCTED = 0" "length body < 2 ^ 32"
    using Prim.prems(1) by auto
  have fuel: "length (encs ts) < f" using Prim.prems(9) f der_longer [of body tag] by simp
  have "conv_result libc st (ps @ [h])
     (map_option (\<lambda>c. gs @ [(k, b @ c)])
        (case element_der s tag (Some body) of None \<Rightarrow> None | Some x \<Rightarrow> map_option (\<lambda>ys. x @ ys) (to_ders s ts))) rest t
     (convert_round libc loc st h s tag (window (encs ts @ w) t) (\<lambda>_. window (encs ts @ w) t)
       (\<lambda>st1 out cs. case CBB_add_bytes libc st1 out (body @ (encs ts @ w) @ t) (length body) of
          (ok, st2) \<Rightarrow> (ok, window (encs ts @ w) t, st2))
       (\<lambda>c st3. convert_ber_rec f libc loc c st3 h s eoc depth))"
  proof (rule round_result [where w = "encs ts @ w"])
    show "conv_result libc st3 (ps @ [h]) (map_option (\<lambda>c. gs @ [(k, b' @ c)]) (to_ders s ts)) rest t
        (convert_ber_rec f libc loc (window (encs ts @ w) t) st3 h s eoc depth)"
      if "cbb_rep st3 (ps @ [h]) (gs @ [(k, b')])" "cbb_objects st3 = cbb_objects st" for st3 b'
      by (rule Prim.IH) (use that Prim.prems fuel in auto)
  qed (use Prim.prems ok in \<open>auto intro: conv_prim_inner simp del: append_assoc option.map\<close>)
  moreover have "enc (Prim tag body) = der tag body" by simp
  ultimately show ?case
    using convert_round_eqs(1) [where fuel = f and w = "encs ts @ w", OF _ ok(1)] Prim.prems(8) ok f
    by (simp add: to_der_prim del: convert_ber_rec.simps to_der.simps)
next
  case (Con tag ind us ts)
  then obtain f where f: "fuel = Suc f" by (cases fuel) auto
  have ok: "tag AND CBS_ASN1_CONSTRUCTED \<noteq> 0" "\<forall>u \<in> set us. ber_ok u" "\<forall>u \<in> set ts. ber_ok u"
    using Con.prems(1) by auto
  have d: "Suc loc + heights us < cbb_objects st" "loc + heights ts < cbb_objects st"
    "Suc depth + heights us \<le> kMaxDepth" "depth + heights ts \<le> kMaxDepth" "depth \<le> kMaxDepth" "loc < cbb_objects st"
    using Con.prems(7,8) by auto
  have fuel: "length (encs us) < f" "length (encs ts) < f"
    using Con.prems(9) f der_longer [of "encs us" tag] by (cases ind; simp)+
  have cont: "conv_result libc st3 (ps @ [h]) (map_option (\<lambda>c. gs @ [(k, b' @ c)]) (to_ders s ts)) rest t
      (convert_ber_rec f libc loc (window (encs ts @ w) t) st3 h s eoc depth)"
    if "cbb_rep st3 (ps @ [h]) (gs @ [(k, b')])" "cbb_objects st3 = cbb_objects st" for st3 b'
    by (rule Con.IH(2)) (use that Con.prems ok d fuel in auto)
  have inner: "conv_result libc st1 (ps' @ [h']) (map_option (\<lambda>c. gs' @ [(k', b' @ c)]) (to_ders cs us)) rest' t'
      (convert_ber_rec f libc (Suc loc) (window (encs us @ w') t') st1 h' cs eoc' (Suc depth))"
    if "cbb_rep st1 (ps' @ [h']) (gs' @ [(k', b')])" "length ps' = length gs'" "\<forall>a \<in> set (ps' @ [h']). a < Suc loc"
      "cbb_objects st1 = cbb_objects st" "after_forest eoc' w' rest'" for st1 ps' h' gs' k' b' cs eoc' w' rest' t'
    by (rule Con.IH(1)) (use that Con.prems(2) ok d fuel in auto)
  have spec: "to_ders s (Con tag ind us # ts) =
     (case element_der s tag (to_ders (child_tag s tag) us) of None \<Rightarrow> None
      | Some x \<Rightarrow> map_option (\<lambda>ys. x @ ys) (to_ders s ts))"
    using ok(1) by (simp add: to_der_con del: to_der.simps)
  show ?case
  proof (cases ind)
    case True
    have eoc: "after_forest True ([0, 0] @ encs ts @ w) (encs ts @ w)" by (simp add: after_forest_def)
    have r: "convert_ber_rec fuel libc loc (window (encs (Con tag ind us # ts) @ w) t) st h s eoc depth =
     convert_round libc loc st h s tag (window (encs us @ [0, 0] @ encs ts @ w) t) (\<lambda>c. c)
       (\<lambda>st1 out cs. convert_ber_rec f libc (Suc loc) (window (encs us @ [0, 0] @ encs ts @ w) t) st1 out cs True (Suc depth))
       (\<lambda>c st3. convert_ber_rec f libc loc c st3 h s eoc depth)"
      using convert_round_eqs(2) [where fuel = f and w = "encs us @ [0, 0] @ encs ts @ w", OF d(5) ok(1)] True f
      by (simp del: convert_ber_rec.simps)
    show ?thesis
      unfolding r spec by (rule round_result [where w = "encs ts @ w"]) (use Con.prems(2,4-6) d inner cont eoc in auto)
  next
    case False
    then have n: "length (encs us) < 2 ^ 32" using Con.prems(1) by (simp add: encs_def)
    have r: "convert_ber_rec fuel libc loc (window (encs (Con tag ind us # ts) @ w) t) st h s eoc depth =
     convert_round libc loc st h s tag (window (encs ts @ w) t) (\<lambda>_. window (encs ts @ w) t)
       (\<lambda>st1 out cs. case convert_ber_rec f libc (Suc loc) (window (encs us) ((encs ts @ w) @ t)) st1 out cs False (Suc depth) of
          (ok, _, st2) \<Rightarrow> (ok, window (encs ts @ w) t, st2))
       (\<lambda>c st3. convert_ber_rec f libc loc c st3 h s eoc depth)"
      using convert_round_eqs(3) [where fuel = f and w = "encs ts @ w", OF d(5) ok(1) n] False f
      by (simp del: convert_ber_rec.simps)
    have fin: "after_forest False [] []" by (simp add: after_forest_def)
    show ?thesis
      unfolding r spec
    proof (rule round_result [where w = "encs ts @ w"])
      fix st1 ps' h' gs' k' b'
      assume "cbb_rep st1 (ps' @ [h']) (gs' @ [(k', b')])" "length ps' = length gs'"
        "\<forall>a \<in> set (ps' @ [h']). a < Suc loc" "cbb_objects st1 = cbb_objects st"
      from conv_result_drop_reader [OF inner [OF this fin]]
      show "conv_result libc st1 (ps' @ [h']) (map_option (\<lambda>c. gs' @ [(k', b' @ c)]) (to_ders (child_tag s tag) us))
          (encs ts @ w) t
          (case convert_ber_rec f libc (Suc loc) (window (encs us) ((encs ts @ w) @ t)) st1 h' (child_tag s tag) False
             (Suc depth) of (ok, _, st2) \<Rightarrow> (ok, window (encs ts @ w) t, st2))" by simp
    qed (use Con.prems(2,4-6) d cont in auto)
  qed
qed

section \<open>The function as a whole\<close>

lemma find_ber_forest:
  assumes "\<forall>u \<in> set ts. ber_ok u" and "heights ts \<le> kMaxDepth"
  shows "cbs_find_ber (window (encs ts) t) 0 = Some (scan False ts)"
  using assms by (simp add: cbs_find_ber_def find_ber_loop_scan cbs_simps)

lemma convert_result:
  assumes ok: "\<forall>u \<in> set ts. ber_ok u" and h: "heights ts \<le> kMaxDepth" and libc: "libc_wf libc"
    and found: "scan False ts" and size: "length (encs ts) \<le> ADDRESS_SPACE"
  shows "case CBS_asn1_ber_to_der libc (window (encs ts) t) of
      (Some (out, storage), c) \<Rightarrow> to_ders 0 ts = Some (cbs_view out) \<and> cbs_wf out \<and> c = window [] t
    | (None, c) \<Rightarrow> \<forall>d. to_ders 0 ts = Some d \<longrightarrow> heap_short libc (length (encs ts)) (length d)"
proof -
  let ?st = "fresh_cbb_mem\<lparr>cbb_objects := kMaxDepth + 3\<rparr>"
  let ?cap = "length (encs ts)"
  note find = find_ber_forest [OF ok h, of t]
  show ?thesis
  proof (cases "CBB_init libc ?st 0 ?cap")
    case (Pair iok st)
    show ?thesis
    proof (cases iok)
      case False
      then show ?thesis using find found Pair init_short [of libc ?st 0 ?cap]
        by (simp add: CBS_asn1_ber_to_der_def cbs_simps)
    next
      case True
      with Pair have init: "CBB_init libc ?st 0 ?cap = (True, st)" by simp
      have objs: "0 < cbb_objects ?st" by simp
      note r = init_rep [OF libc objs size init]
      obtain cok c1 st1 where conv: "cbs_convert_ber libc 1 (window (encs ts) t) st 0 0 False 0 = (cok, c1, st1)"
        by (metis prod_cases3)
      have res: "conv_result libc st [0] (map_option (\<lambda>c. [(Top, c)]) (to_ders 0 ts)) [] t (cok, c1, st1)"
        using convert_forest [OF ok libc, of False "[]" "[]" st "[]" 0 "[]" Top "[]" 1 0 "Suc ?cap" 0 t] r h conv
        by (simp add: after_forest_def cbs_convert_ber_def cbs_simps)
      show ?thesis
      proof (cases cok)
        case False
        then show ?thesis using find found init conv res r by (auto simp: CBS_asn1_ber_to_der_def cbs_simps conv_result_def dest: outgrown_short)
      next
        case True
        with res obtain d where d: "to_ders 0 ts = Some d" "cbb_rep st1 [0] [(Top, d)]" "c1 = window [] t"
          by (auto simp: conv_result_def)
        have "\<not> base_cap st1 < length d"
          using d(2) length_valid_bytes [of st1] by (auto simp: cbb_rep_def buf_ok_def)
        then show ?thesis using finish_result [OF d(2) libc] find found init conv True d
          by (auto simp: CBS_asn1_ber_to_der_def cbs_simps CBS_init_split split: prod.splits option.splits)
      qed
    qed
  qed
qed

section \<open>BER is not DER\<close>

lemma drop_der: "drop (der_header_len tag (length body)) (der tag body) = body"
  by (simp add: der_def der_header_len_def)

lemma der_prefix_free:
  assumes "der tag body @ v = der tag' body' @ w" and "length body < 2 ^ 32" "length body' < 2 ^ 32"
  shows "tag = tag'" and "body = body'" and "v = w"
proof -
  have r: "Some (window (der tag body) v, tag, der_header_len tag (length body)) =
      Some (window (der tag' body') w, tag', der_header_len tag' (length body'))" and "window v [] = window w []"
    using get_ber_der [OF assms(2), of tag v "[]"] get_ber_der [OF assms(3), of tag' w "[]"] assms(1)
    by (metis append_Nil2 prod.inject)+
  then show "v = w" and t: "tag = tag'" by simp_all
  have h: "der_header_len tag (length body) = der_header_len tag' (length body')" using r by blast
  have "der tag body = der tag' body'" using assms(1) \<open>v = w\<close> by simp
  with h drop_der [of tag body] drop_der [of tag' body'] show "body = body'" by metis
qed

lemma der_len_definite: "n < 2 ^ 32 \<Longrightarrow> der_len n = x # xs \<Longrightarrow> x \<noteq> 0x80"
proof
  assume n: "n < 2 ^ 32" and d: "der_len n = x # xs" and x: "x = 0x80"
  have l: "0 < n \<Longrightarrow> 0 < len_octets n" by (simp add: len_octets_pos)
  have u: "len_octets n \<le> 4" using len_octets_bound [of n 4] n by simp
  have "n < 128 \<Longrightarrow> x = word_of_nat n" "\<not> n < 128 \<Longrightarrow> x = word_of_nat (128 + len_octets n)"
    using d by (simp_all add: der_len_def)
  moreover have "n < 128 \<Longrightarrow> unat (word_of_nat n :: u8) = n" by (simp add: unat_of_nat)
  moreover have "unat (word_of_nat (128 + len_octets n) :: u8) = 128 + len_octets n"
    unfolding unat_of_nat using u by simp
  moreover have "unat x = 128" using x by simp
  ultimately show False using l by (cases "n < 128") auto
qed

lemma der_not_open: "der tag body @ v \<noteq> der_tag tag' @ 0x80 # w" if "length body < 2 ^ 32"
proof
  assume e: "der tag body @ v = der_tag tag' @ 0x80 # w"
  then have "der_len (length body) @ body @ v = 0x80 # w"
    using asn1_tag.prefix_free [where x = tag and y = tag' and v = "der_len (length body) @ body @ v" and w = "0x80 # w"]
    by (simp add: der_def)
  then show False using der_len_definite [OF that] by (cases "der_len (length body)") (auto simp: der_len_def split: if_splits)
qed

lemma to_der_shape: "to_der 0 u = Some d \<Longrightarrow> \<exists>tag body. d = der tag body \<and> length body < 2 ^ 32"
  by (cases u) (fastforce simp: Let_def split: if_splits option.splits)+

lemma ders_without_ber:
  "\<forall>t \<in> set ts. ber_ok t \<Longrightarrow> to_ders 0 ts = Some d \<Longrightarrow> d @ v = encs ts @ w \<Longrightarrow> \<forall>t \<in> set ts. \<not> uses_ber t"
proof (induction ts arbitrary: d v w rule: forest_induct)
  case Nil
  then show ?case by simp
next
  case (Prim tag body ts)
  then obtain d' where "d = der tag body @ d'" "to_ders 0 ts = Some d'"
    by (auto split: option.splits if_splits)
  then show ?case using Prim by auto
next
  case (Con tag ind us ts)
  from Con.prems(2) obtain x d' where x: "to_der 0 (Con tag ind us) = Some x" "to_ders 0 ts = Some d'" "d = x @ d'"
    by (auto simp del: to_der.simps split: option.splits)
  from to_der_shape [OF x(1)] obtain tag' body where s: "x = der tag' body" "length body < 2 ^ 32" by blast
  have ind: "\<not> ind"
  proof
    assume ind
    then show False using Con.prems(3) der_not_open [OF s(2), of tag' "d' @ v" tag] x(3) s(1) by simp
  qed
  then have l: "length (encs us) < 2 ^ 32" using Con.prems(1) by (simp add: encs_def)
  have e: "der tag' body @ d' @ v = der tag (encs us) @ encs ts @ w" using Con.prems(3) x(3) s(1) ind by simp
  note p = der_prefix_free [OF e s(2) l]
  have c: "tag AND CBS_ASN1_CONSTRUCTED \<noteq> 0" using Con.prems(1) by simp
  have "\<not> is_string_type tag"
  proof
    assume str: "is_string_type tag"
    then obtain b where b: "x = der (tag AND NOT CBS_ASN1_CONSTRUCTED) b" "length b < 2 ^ 32"
      using x(1) by (fastforce simp: Let_def split: if_splits option.splits)
    with der_prefix_free(1) [of tag' body "[]" "tag AND NOT CBS_ASN1_CONSTRUCTED" b "[]"] s p(1)
    have "tag = tag AND NOT CBS_ASN1_CONSTRUCTED" by simp
    then have "tag AND CBS_ASN1_CONSTRUCTED = (tag AND NOT CBS_ASN1_CONSTRUCTED) AND CBS_ASN1_CONSTRUCTED" by simp
    also have "\<dots> = 0" by (simp add: bit_eq_iff bit_simps)
    finally show False using c by simp
  qed
  moreover from this x(1) obtain b where b: "to_ders 0 us = Some b" "x = der tag b" "length b < 2 ^ 32"
    by (fastforce simp: to_ders_def Let_def split: if_splits option.splits)
  have "b = body" using der_prefix_free(2) [of tag b "[]" tag' body "[]"] b s by simp
  then have "\<forall>t \<in> set us. \<not> uses_ber t" using Con.IH(1) [of b "[]" "[]"] Con.prems(1) b(1) p(2) by simp
  moreover have "\<forall>t \<in> set ts. \<not> uses_ber t" using Con.IH(2) [OF _ x(2) p(3)] Con.prems(1) by simp
  ultimately show ?case using ind by simp
qed

text \<open>Elements that are not DER themselves; an unmarked one may still have such an element inside.\<close>

fun marked :: "ber \<Rightarrow> bool" where
  "marked (Prim tag body) = False"
| "marked (Con tag ind ts) \<longleftrightarrow> ind \<or> is_string_type tag"

lemma scan_append: "\<forall>u \<in> set us. \<not> marked u \<Longrightarrow> scan found (us @ ts) = scan (scan found us) ts"
  by (induction found us rule: scan.induct) auto

text \<open>The flag after a constructed element says nothing of the elements before it.\<close>

lemma scan_forgets:
  assumes "\<forall>u \<in> set us. \<not> marked u" and "\<not> is_string_type tag" and "\<forall>v \<in> set vs \<union> set ps. \<not> uses_ber v"
  shows "\<not> scan False (us @ Con tag False vs # ps)"
  using assms by (simp add: scan_append scan_none)

section \<open>Input without BER\<close>

lemma unmarked_der: "ber_ok u \<Longrightarrow> \<not> marked u \<Longrightarrow> \<exists>tag body. enc u = der tag body \<and> length body < 2 ^ 32"
  by (cases u) (auto simp: encs_def)

lemma scan_head: "\<not> scan found (u # ts) \<Longrightarrow> \<not> marked u"
  by (cases u) auto

text \<open>Where the search finds nothing the first element is returned as it stands, without a copy.\<close>

lemma first_is_kept:
  assumes ok: "\<forall>u \<in> set ts. ber_ok u" and h: "heights ts \<le> kMaxDepth" and none: "\<not> scan False ts"
  shows "CBS_asn1_ber_to_der libc (window (encs ts) t) =
     (case ts of [] \<Rightarrow> (None, window [] t)
      | u # us \<Rightarrow> (Some (window (enc u) (encs us @ t), None), window (encs us) t))"
proof (cases ts)
  case Nil
  then show ?thesis
    using find_ber_forest [OF ok h, of t] none any_element_fail [of "[]" t False]
    by (auto simp: CBS_asn1_ber_to_der_def CBS_get_any_asn1_element_def cbs_get_any_asn1_element_def
        parse_asn1_tag_def cbs_simps Let_def split: option.splits prod.splits)
next
  case (Cons u us)
  from unmarked_der [of u] scan_head [of False u us] ok none Cons
  obtain tag body where "enc u = der tag body" "length body < 2 ^ 32" by auto
  then show ?thesis
    using find_ber_forest [OF ok h, of t] none Cons get_any_asn1_element_complete [of body tag "encs us" t]
    by (simp add: CBS_asn1_ber_to_der_def)
qed

end
