(* ===== verification/BufMem.thy ===== *)
theory BufMem
  imports Mem
begin

text \<open>
  \<open>crypto/buf/buf.c\<close>: the growable byte array \<open>BUF_MEM\<close>. Its contents are the first \<open>buf_length\<close>
  bytes of \<open>buf_data\<close>; the functions that only rename those of \<open>mem.c\<close> are definitions as well.
\<close>

record buf_mem =
  buf_length :: nat
  buf_data :: "bytes option"
  buf_max :: nat

definition SIZEOF_BUF_MEM :: nat where
  "SIZEOF_BUF_MEM = 24"

definition BUF_MEM_new :: "libc_malloc \<Rightarrow> buf_mem option" where
  "BUF_MEM_new libc =
     (case heap_malloc libc SIZEOF_BUF_MEM of
        None \<Rightarrow> None
      | Some _ \<Rightarrow> Some \<lparr>buf_length = 0, buf_data = None, buf_max = 0\<rparr>)"

text \<open>The blocks that \<open>BUF_MEM_free\<close> gives back, in order, as \<open>sdallocx\<close> sees them.\<close>

definition BUF_MEM_free :: "buf_mem option \<Rightarrow> bytes \<Rightarrow> (bytes \<times> nat) list" where
  "BUF_MEM_free buf struct_bytes =
     (case buf of
        None \<Rightarrow> []
      | Some b \<Rightarrow>
          (case buf_data b of None \<Rightarrow> [] | Some d \<Rightarrow> [OPENSSL_free (heap_block d)]) @
          [OPENSSL_free (heap_block struct_bytes)])"

definition BUF_MEM_reserve :: "libc_malloc \<Rightarrow> buf_mem \<Rightarrow> nat \<Rightarrow> bool \<times> buf_mem" where
  "BUF_MEM_reserve libc buf cap =
     (if buf_max buf \<ge> cap then (True, buf)
      else
        (let n = size_add cap 3
         in if n < cap then (False, buf)
            else
              (let n' = n div 3; alloc_size = size_mul n' 4
               in if alloc_size div 4 \<noteq> n' then (False, buf)
                  else
                    (case heap_realloc libc (buf_data buf) alloc_size of
                       None \<Rightarrow> (False, buf)
                     | Some new_buf \<Rightarrow> (True, buf\<lparr>buf_data := Some new_buf, buf_max := alloc_size\<rparr>)))))"

definition BUF_MEM_grow :: "libc_malloc \<Rightarrow> buf_mem \<Rightarrow> nat \<Rightarrow> nat \<times> buf_mem" where
  "BUF_MEM_grow libc buf len =
     (case BUF_MEM_reserve libc buf len of
        (False, buf1) \<Rightarrow> (0, buf1)
      | (True, buf1) \<Rightarrow>
          (let buf2 = (if buf_length buf1 < len
                       then buf1\<lparr>buf_data := map_option (\<lambda>d. mem_write d (buf_length buf1)
                                   (replicate (len - buf_length buf1) 0)) (buf_data buf1)\<rparr>
                       else buf1)
           in (len, buf2\<lparr>buf_length := len\<rparr>)))"

definition BUF_MEM_grow_clean :: "libc_malloc \<Rightarrow> buf_mem \<Rightarrow> nat \<Rightarrow> nat \<times> buf_mem" where
  "BUF_MEM_grow_clean libc buf len = BUF_MEM_grow libc buf len"

definition BUF_MEM_append :: "libc_malloc \<Rightarrow> buf_mem \<Rightarrow> bytes \<Rightarrow> nat \<Rightarrow> bool \<times> buf_mem" where
  "BUF_MEM_append libc buf src len =
     (if len = 0 then (True, buf)
      else
        (let new_len = size_add (buf_length buf) len
         in if new_len < len then (False, buf)
            else
              (case BUF_MEM_reserve libc buf new_len of
                 (False, buf1) \<Rightarrow> (False, buf1)
               | (True, buf1) \<Rightarrow>
                   (True, buf1\<lparr>buf_data := map_option (\<lambda>d. mem_write d (buf_length buf1) (take len src))
                                 (buf_data buf1),
                               buf_length := new_len\<rparr>))))"

definition BUF_strdup :: "libc_malloc \<Rightarrow> bytes option \<Rightarrow> bytes option" where
  "BUF_strdup libc str = OPENSSL_strdup libc str"

definition BUF_strnlen :: "bytes \<Rightarrow> nat \<Rightarrow> nat" where
  "BUF_strnlen str max_len = OPENSSL_strnlen str max_len"

definition BUF_strndup :: "libc_malloc \<Rightarrow> bytes option \<Rightarrow> nat \<Rightarrow> bytes option" where
  "BUF_strndup libc str len = OPENSSL_strndup libc str len"

definition BUF_strlcpy :: "bytes \<Rightarrow> bytes \<Rightarrow> nat \<Rightarrow> bytes \<times> nat" where
  "BUF_strlcpy dst src dst_size = OPENSSL_strlcpy dst src dst_size"

definition BUF_strlcat :: "bytes \<Rightarrow> bytes \<Rightarrow> nat \<Rightarrow> bytes \<times> nat" where
  "BUF_strlcat dst src dst_size = OPENSSL_strlcat dst src dst_size"

definition BUF_memdup :: "libc_malloc \<Rightarrow> bytes \<Rightarrow> nat \<Rightarrow> bytes option" where
  "BUF_memdup libc data len = OPENSSL_memdup libc data len"

section \<open>Invariant and contents\<close>

definition buf_wf :: "buf_mem \<Rightarrow> bool" where
  "buf_wf b \<longleftrightarrow> buf_length b \<le> buf_max b \<and> buf_max b = length (heap.elems (buf_data b)) \<and>
     buf_max b \<le> ADDRESS_SPACE"

definition contents :: "buf_mem \<Rightarrow> bytes" where
  "contents b = take (buf_length b) (heap.elems (buf_data b))"

lemma elems_simps [simp]: "heap.elems None = []" "heap.elems (Some x) = x"
  by (simp_all add: heap.elems_def)

lemma length_contents: "buf_wf b \<Longrightarrow> length (contents b) = buf_length b"
  by (simp add: buf_wf_def contents_def)

lemma BUF_MEM_new_empty: "BUF_MEM_new libc = Some b \<Longrightarrow> buf_wf b \<and> contents b = []"
  by (auto simp: BUF_MEM_new_def buf_wf_def contents_def heap.elems_def split: option.splits)

text \<open>
  Reserving: the capacity suffices and the contents stay. A failure leaves the buffer as it was. The
  allocation is at most four thirds of the request and three bytes.
\<close>

lemma reserve_cases:
  assumes wf: "buf_wf b" and libc: "libc_wf libc" and cap: "cap + 3 \<le> 3 * (HEAP_LIMIT div 4)"
  obtains (ok) b' where "BUF_MEM_reserve libc b cap = (True, b')" "buf_wf b'" "cap \<le> buf_max b'"
      "contents b' = contents b" "buf_length b' = buf_length b" "cap \<le> buf_max b \<Longrightarrow> b' = b"
  | (fail) "BUF_MEM_reserve libc b cap = (False, b)" "buf_max b < cap"
      "heap_realloc libc (buf_data b) (4 * ((cap + 3) div 3)) = None"
proof (cases "cap \<le> buf_max b")
  case True
  then show thesis using ok [of b] wf by (simp add: BUF_MEM_reserve_def)
next
  case False
  let ?a = "4 * ((cap + 3) div 3)"
  have n: "size_add cap 3 = cap + 3"
    using cap by (simp add: size_add_def SIZE_MOD_def HEAP_LIMIT_def)
  have a: "size_mul ((cap + 3) div 3) 4 = ?a" "?a \<le> HEAP_LIMIT" "cap \<le> ?a"
    using cap by (auto simp: size_mul_def SIZE_MOD_def HEAP_LIMIT_def)
  show thesis
  proof (cases "heap_realloc libc (buf_data b) ?a")
    case None
    then show thesis using fail False by (simp add: BUF_MEM_reserve_def n a Let_def)
  next
    case (Some d)
    have "length (heap.elems (buf_data b)) \<le> ?a" using wf False a(3) by (simp add: buf_wf_def)
    note grown = heap.grow [OF libc a(2) this Some]
    have "take (buf_length b) d = contents b"
      using arg_cong [OF grown(3), of "take (buf_length b)"] wf
      by (simp add: buf_wf_def contents_def min_absorb1)
    moreover have "buf_length b \<le> ?a" using wf False a(3) by (simp add: buf_wf_def)
    ultimately show thesis
      using ok [of "b\<lparr>buf_data := Some d, buf_max := ?a\<rparr>"] Some grown(1,2) wf a(3) False
      by (simp add: BUF_MEM_reserve_def n a Let_def buf_wf_def contents_def)
  qed
qed

theorem grow_result:
  assumes wf: "buf_wf b" and libc: "libc_wf libc" and len: "len + 3 \<le> 3 * (HEAP_LIMIT div 4)"
  shows "case BUF_MEM_grow libc b len of (r, b') \<Rightarrow>
     buf_wf b' \<and> (r = len \<and> contents b' = take len (contents b) @ replicate (len - buf_length b) 0 \<or>
                  r = 0 \<and> b' = b \<and> buf_max b < len)"
  using assms
proof (cases rule: reserve_cases)
  case (ok b')
  let ?E = "heap.elems (buf_data b')"
  have E: "take (buf_length b) ?E = contents b" "len \<le> length ?E" "buf_length b \<le> length ?E" "buf_max b' = length ?E"
    "length ?E \<le> ADDRESS_SPACE"
    using ok by (auto simp: buf_wf_def contents_def)
  show ?thesis
  proof (cases "buf_length b < len")
    case True
    then have "buf_data b' \<noteq> None" using E by (cases "buf_data b'") (auto simp: heap.elems_def)
    then have "BUF_MEM_grow libc b len = (len, b'\<lparr>buf_data := Some (mem_write ?E (buf_length b) (replicate (len - buf_length b) 0)),
        buf_length := len\<rparr>)"
      using ok True by (auto simp: BUF_MEM_grow_def Let_def heap.elems_def)
    moreover have "length (contents b) = buf_length b" using wf by (rule length_contents)
    ultimately show ?thesis using E True by (simp add: buf_wf_def contents_def mem_write_def)
  next
    case False
    then have "BUF_MEM_grow libc b len = (len, b'\<lparr>buf_length := len\<rparr>)" using ok by (simp add: BUF_MEM_grow_def Let_def)
    moreover have "take len ?E = take len (contents b)"
      unfolding E(1) [symmetric] using False by (simp add: min_absorb1)
    ultimately show ?thesis using False E by (simp add: buf_wf_def contents_def)
  qed
next
  case fail
  then show ?thesis using wf by (simp add: BUF_MEM_grow_def)
qed

theorem append_result:
  assumes wf: "buf_wf b" and libc: "libc_wf libc" and len: "len \<le> length src" "len \<le> ADDRESS_SPACE div 4"
  shows "case BUF_MEM_append libc b src len of (ok, b') \<Rightarrow>
     buf_wf b' \<and> (if ok then contents b' = contents b @ take len src else b' = b \<and> buf_max b < buf_length b + len)"
proof (cases "len = 0")
  case True
  then show ?thesis using wf by (simp add: BUF_MEM_append_def)
next
  case False
  have n: "size_add (buf_length b) len = buf_length b + len" "buf_length b + len + 3 \<le> 3 * (HEAP_LIMIT div 4)"
    using wf len(2) by (auto simp: buf_wf_def size_add_def SIZE_MOD_def HEAP_LIMIT_def ADDRESS_SPACE_def)
  show ?thesis using wf libc n(2)
  proof (cases rule: reserve_cases)
    case (ok b')
    let ?E = "heap.elems (buf_data b')"
    have E: "take (buf_length b) ?E = contents b" "buf_length b + len \<le> length ?E" "buf_max b' = length ?E"
      "length ?E \<le> ADDRESS_SPACE"
      using ok by (auto simp: buf_wf_def contents_def)
    then have "buf_data b' \<noteq> None" using False by (cases "buf_data b'") (auto simp: heap.elems_def)
    then have "BUF_MEM_append libc b src len = (True, b'\<lparr>buf_data := Some (mem_write ?E (buf_length b) (take len src)),
        buf_length := buf_length b + len\<rparr>)"
      using ok False n(1) by (auto simp: BUF_MEM_append_def Let_def heap.elems_def)
    moreover have "length (contents b) = buf_length b" using wf by (rule length_contents)
    ultimately show ?thesis using E len(1) by (simp add: buf_wf_def contents_def mem_write_def)
  next
    case fail
    then show ?thesis using False n(1) wf by (simp add: BUF_MEM_append_def Let_def)
  qed
qed

end
