(* ===== verification/ConstTime.thy ===== *)
theory ConstTime
  imports Prelude
begin

text \<open>
  The branch-free selections of \<open>crypto/internal.h\<close>, on the 64-bit \<open>crypto_word_t\<close> of the targets, and
  what they compute: comparisons give a mask of all ones or of zeros, and a selection by a mask is a
  conditional. An \<open>int\<close> argument is converted to \<open>crypto_word_t\<close> by sign extension.
\<close>

section \<open>Definitions\<close>

definition CONSTTIME_TRUE_W :: u64 where
  "CONSTTIME_TRUE_W = NOT 0"

definition CONSTTIME_FALSE_W :: u64 where
  "CONSTTIME_FALSE_W = 0"

definition CONSTTIME_TRUE_8 :: u8 where
  "CONSTTIME_TRUE_8 = 0xff"

definition CONSTTIME_FALSE_8 :: u8 where
  "CONSTTIME_FALSE_8 = 0"

definition value_barrier_w :: "u64 \<Rightarrow> u64" where
  "value_barrier_w a = a"

definition constant_time_msb_w :: "u64 \<Rightarrow> u64" where
  "constant_time_msb_w a = 0 - drop_bit (8 * 8 - 1) a"

definition constant_time_lt_w :: "u64 \<Rightarrow> u64 \<Rightarrow> u64" where
  "constant_time_lt_w a b = constant_time_msb_w (a XOR ((a XOR b) OR ((a - b) XOR a)))"

definition constant_time_lt_8 :: "u64 \<Rightarrow> u64 \<Rightarrow> u8" where
  "constant_time_lt_8 a b = ucast (constant_time_lt_w a b)"

definition constant_time_ge_w :: "u64 \<Rightarrow> u64 \<Rightarrow> u64" where
  "constant_time_ge_w a b = NOT (constant_time_lt_w a b)"

definition constant_time_ge_8 :: "u64 \<Rightarrow> u64 \<Rightarrow> u8" where
  "constant_time_ge_8 a b = ucast (constant_time_ge_w a b)"

definition constant_time_is_zero_w :: "u64 \<Rightarrow> u64" where
  "constant_time_is_zero_w a = constant_time_msb_w (NOT a AND (a - 1))"

definition constant_time_is_zero_8 :: "u64 \<Rightarrow> u8" where
  "constant_time_is_zero_8 a = ucast (constant_time_is_zero_w a)"

definition constant_time_eq_w :: "u64 \<Rightarrow> u64 \<Rightarrow> u64" where
  "constant_time_eq_w a b = constant_time_is_zero_w (a XOR b)"

definition constant_time_eq_8 :: "u64 \<Rightarrow> u64 \<Rightarrow> u8" where
  "constant_time_eq_8 a b = ucast (constant_time_eq_w a b)"

definition constant_time_eq_int :: "32 word \<Rightarrow> 32 word \<Rightarrow> u64" where
  "constant_time_eq_int a b = constant_time_eq_w (scast a) (scast b)"

definition constant_time_eq_int_8 :: "32 word \<Rightarrow> 32 word \<Rightarrow> u8" where
  "constant_time_eq_int_8 a b = constant_time_eq_8 (scast a) (scast b)"

definition constant_time_select_w :: "u64 \<Rightarrow> u64 \<Rightarrow> u64 \<Rightarrow> u64" where
  "constant_time_select_w msk a b = (value_barrier_w msk AND a) OR (value_barrier_w (NOT msk) AND b)"

definition constant_time_select_8 :: "u8 \<Rightarrow> u8 \<Rightarrow> u8 \<Rightarrow> u8" where
  "constant_time_select_8 msk a b = ucast (constant_time_select_w (ucast msk) (ucast a) (ucast b))"

definition constant_time_select_int :: "u64 \<Rightarrow> 32 word \<Rightarrow> 32 word \<Rightarrow> 32 word" where
  "constant_time_select_int msk a b = ucast (constant_time_select_w msk (scast a) (scast b))"

section \<open>Masks\<close>

named_theorems consttime "what the constant-time functions compute"

definition mask_w :: "bool \<Rightarrow> u64" where
  "mask_w p = (if p then CONSTTIME_TRUE_W else CONSTTIME_FALSE_W)"

definition mask_8 :: "bool \<Rightarrow> u8" where
  "mask_8 p = (if p then CONSTTIME_TRUE_8 else CONSTTIME_FALSE_8)"

lemma ucast_true: "ucast (- 1 :: u64) = (0xff :: u8)"
  by code_simp

lemma ucast_mask_w [consttime]: "ucast (mask_w p) = mask_8 p"
  using ucast_true by (cases p) (simp_all add: mask_w_def mask_8_def CONSTTIME_TRUE_W_def CONSTTIME_FALSE_W_def
      CONSTTIME_TRUE_8_def CONSTTIME_FALSE_8_def)

lemma NOT_mask_w [consttime]: "NOT (mask_w p) = mask_w (\<not> p)"
  by (cases p) (simp_all add: mask_w_def CONSTTIME_TRUE_W_def CONSTTIME_FALSE_W_def)

lemma msb_bit: "bit a 63 \<longleftrightarrow> 2 ^ 63 \<le> unat (a :: u64)"
proof -
  have "bit a 63 = bit (unat a) 63" by (simp add: bit_unsigned_iff)
  also have "\<dots> = odd (unat a div 2 ^ 63)" by (simp only: bit_iff_odd)
  also have "unat a div 2 ^ 63 = (if 2 ^ 63 \<le> unat a then 1 else 0)"
    using unsigned_less [of a, where ?'a = nat] by (auto simp: div_nat_eqI)
  finally show ?thesis by auto
qed

lemma msb_w [consttime]: "constant_time_msb_w a = mask_w (bit a 63)"
proof -
  have "unat (drop_bit 63 a) = unat a div 2 ^ 63" by (simp only: unat_drop_bit_eq) (simp only: drop_bit_eq_div)
  also have "\<dots> = (if 2 ^ 63 \<le> unat a then 1 else 0)"
    using unsigned_less [of a, where ?'a = nat] by (auto simp: div_nat_eqI)
  finally have "drop_bit 63 a = (if bit a 63 then 1 else 0)"
    unfolding msb_bit by (simp only: word_unat_eq_iff) auto
  then show ?thesis
    by (simp add: constant_time_msb_w_def mask_w_def CONSTTIME_TRUE_W_def CONSTTIME_FALSE_W_def)
qed

lemma msb_minus:
  fixes a b :: u64
  assumes "bit a 63 = bit b 63"
  shows "bit (a - b) 63 \<longleftrightarrow> a < b"
proof -
  have a: "unat a < 2 ^ 64" and b: "unat b < 2 ^ 64"
    using unsigned_less [of a, where ?'a = nat] unsigned_less [of b, where ?'a = nat] by simp_all
  show ?thesis
  proof (cases "a < b")
    case True
    then have lt: "unat a < unat b" by (simp add: word_less_nat_alt)
    then have "unat (a - b) = 2 ^ 64 + unat a - unat b" using b by (simp add: unat_sub_if')
    moreover have "(2 :: nat) ^ 64 = 2 ^ 63 + 2 ^ 63" by simp
    ultimately show ?thesis using True lt assms a b unfolding msb_bit by linarith
  next
    case False
    then have "unat (a - b) = unat a - unat b" by (simp add: unat_sub word_le_nat_alt not_less)
    then show ?thesis using False assms a b unfolding msb_bit by auto
  qed
qed

lemma lt_w [consttime]: "constant_time_lt_w a b = mask_w (a < b)"
proof -
  have "bit (a XOR ((a XOR b) OR ((a - b) XOR a))) 63 \<longleftrightarrow> a < b"
  proof (cases "bit a 63 = bit b 63")
    case True
    then show ?thesis using msb_minus [OF True] by (auto simp: bit_simps)
  next
    case False
    then have "a < b \<longleftrightarrow> bit b 63" unfolding msb_bit by (auto simp: word_less_nat_alt)
    with False show ?thesis by (auto simp: bit_simps)
  qed
  then show ?thesis by (simp add: constant_time_lt_w_def msb_w)
qed

lemma is_zero_w [consttime]: "constant_time_is_zero_w a = mask_w (a = 0)"
proof -
  have "bit (NOT a AND (a - 1)) 63 \<longleftrightarrow> a = 0"
  proof (cases "a = 0")
    case True
    then show ?thesis by (simp add: bit_simps)
  next
    case False
    then have u: "unat (a - 1) = unat a - 1" by (simp add: unat_minus_one)
    have "\<not> (\<not> bit a 63 \<and> bit (a - 1) 63)" unfolding msb_bit u by linarith
    then show ?thesis using False by (simp add: bit_simps)
  qed
  then show ?thesis by (simp add: constant_time_is_zero_w_def msb_w)
qed

lemma lt_8 [consttime]: "constant_time_lt_8 a b = mask_8 (a < b)"
  by (simp add: constant_time_lt_8_def consttime)

lemma ge_w [consttime]: "constant_time_ge_w a b = mask_w (b \<le> a)"
  by (simp add: constant_time_ge_w_def consttime not_less)

lemma ge_8 [consttime]: "constant_time_ge_8 a b = mask_8 (b \<le> a)"
  by (simp add: constant_time_ge_8_def consttime)

lemma is_zero_8 [consttime]: "constant_time_is_zero_8 a = mask_8 (a = 0)"
  by (simp add: constant_time_is_zero_8_def consttime)

lemma eq_w [consttime]: "constant_time_eq_w a b = mask_w (a = b)"
proof -
  have "a XOR b = 0 \<longleftrightarrow> a = b" by (auto simp: bit_eq_iff bit_simps)
  then show ?thesis by (simp add: constant_time_eq_w_def consttime)
qed

lemma eq_8 [consttime]: "constant_time_eq_8 a b = mask_8 (a = b)"
  by (simp add: constant_time_eq_8_def consttime)

lemma ucast_scast: "ucast (scast (a :: 32 word) :: u64) = a"
  by (rule bit_word_eqI) (simp add: bit_simps)

lemma ucast_ucast_u8: "ucast (ucast (a :: u8) :: u64) = a"
  by (rule bit_word_eqI) (simp add: bit_simps)

lemma scast_inj: "(scast (a :: 32 word) :: u64) = scast b \<longleftrightarrow> a = b"
proof
  assume "(scast a :: u64) = scast b"
  then have "(ucast (scast a :: u64) :: 32 word) = ucast (scast b :: u64)" by simp
  then show "a = b" by (simp only: ucast_scast)
qed simp

lemma eq_int [consttime]: "constant_time_eq_int a b = mask_w (a = b)"
  by (simp add: constant_time_eq_int_def consttime scast_inj)

lemma eq_int_8 [consttime]: "constant_time_eq_int_8 a b = mask_8 (a = b)"
  by (simp add: constant_time_eq_int_8_def consttime scast_inj)

lemma select_w [consttime]: "constant_time_select_w (mask_w p) a b = (if p then a else b)"
  by (cases p) (simp_all add: constant_time_select_w_def value_barrier_w_def mask_w_def
      CONSTTIME_TRUE_W_def CONSTTIME_FALSE_W_def)

lemma select_8 [consttime]: "constant_time_select_8 (mask_8 p) a b = (if p then a else b)"
proof (cases p)
  case True
  have "ucast ((0xff :: u64) AND ucast a OR (NOT 0xff) AND ucast b) = a"
  proof (rule bit_word_eqI)
    fix n assume n: "n < LENGTH(8)"
    then have "bit (0xff :: u64) n" using bit_mask_iff [of 8 n, where ?'a = u64] by (simp add: mask_eq_exp_minus_1)
    then show "bit (ucast ((0xff :: u64) AND ucast a OR (NOT 0xff) AND ucast b) :: u8) n = bit a n"
      using n by (simp add: bit_simps)
  qed
  then show ?thesis using True
    by (simp add: constant_time_select_8_def constant_time_select_w_def value_barrier_w_def mask_8_def
        CONSTTIME_TRUE_8_def)
next
  case False
  then show ?thesis
    by (simp add: constant_time_select_8_def constant_time_select_w_def value_barrier_w_def mask_8_def
        CONSTTIME_FALSE_8_def ucast_ucast_u8)
qed

lemma select_int [consttime]: "constant_time_select_int (mask_w p) a b = (if p then a else b)"
  by (simp add: constant_time_select_int_def consttime ucast_scast)

end
