(* ===== verification/Base64.thy ===== *)
theory Base64
  imports ConstTime
begin

text \<open>
  \<open>crypto/base64/base64.c\<close>. Output goes to a memory \<open>m\<close> at an index, as the code's \<open>dst\<close> or \<open>out\<close>
  advances through the caller's buffer; the input is a byte list and its length. The lemmas are in
  \<open>Base64_Spec\<close>.
\<close>

section \<open>Encoding\<close>

definition constant_time_lt_args_8 :: "u8 \<Rightarrow> u8 \<Rightarrow> u8" where
  "constant_time_lt_args_8 a b =
     (let aw = ucast a; bw = ucast b in ucast (constant_time_msb_w (aw - bw)))"

definition constant_time_in_range_8 :: "u8 \<Rightarrow> u8 \<Rightarrow> u8 \<Rightarrow> u8" where
  "constant_time_in_range_8 a lo hi =
     (let a' = a - lo in constant_time_lt_args_8 a' (hi - lo + 1))"

text \<open>\<open>'+'\<close> is \<open>0x2b\<close>, \<open>'/'\<close> is \<open>0x2f\<close>, \<open>'0'\<close> is \<open>0x30\<close>, \<open>'='\<close> is \<open>0x3d\<close>, \<open>'A'\<close> is \<open>0x41\<close>, \<open>'a'\<close> is \<open>0x61\<close>.\<close>

definition conv_bin2ascii :: "u8 \<Rightarrow> u8" where
  "conv_bin2ascii a0 =
     (let a = a0 AND 0x3f;
          ret = constant_time_select_8 (constant_time_eq_8 (ucast a) 62) 0x2b 0x2f;
          ret = constant_time_select_8 (constant_time_lt_args_8 a 62) (a - 52 + 0x30) ret;
          ret = constant_time_select_8 (constant_time_lt_args_8 a 52) (a - 26 + 0x61) ret;
          ret = constant_time_select_8 (constant_time_lt_args_8 a 26) (a + 0x41) ret
      in ret)"

definition EVP_EncodedLength :: "nat \<Rightarrow> nat option" where
  "EVP_EncodedLength len =
     (if size_add len 2 < len then None
      else
        (let len1 = size_add len 2 div 3
         in if size_mul len1 4 div 4 \<noteq> len1 then None
            else
              (let len2 = size_mul len1 4
               in if size_add len2 1 < len2 then None else Some (size_add len2 1))))"

function encode_block_loop :: "bytes \<Rightarrow> nat \<Rightarrow> bytes \<Rightarrow> nat \<Rightarrow> nat \<Rightarrow> nat \<times> bytes" where
  "encode_block_loop m dst src remaining ret =
     (if remaining \<noteq> 0 then
        (if remaining \<ge> 3 then
           (let l = push_bit 16 (ucast (src ! 0)) OR push_bit 8 (ucast (src ! 1)) OR ucast (src ! 2) :: u32
            in encode_block_loop
                 (mem_write m dst
                    [conv_bin2ascii (ucast (drop_bit 18 l)), conv_bin2ascii (ucast (drop_bit 12 l)),
                     conv_bin2ascii (ucast (drop_bit 6 l)), conv_bin2ascii (ucast l)])
                 (dst + 4) (drop 3 src) (remaining - 3) (size_add ret 4))
         else
           (let l = push_bit 16 (ucast (src ! 0)) :: u32;
                l = (if remaining = 2 then l OR push_bit 8 (ucast (src ! 1)) else l)
            in encode_block_loop
                 (mem_write m dst
                    [conv_bin2ascii (ucast (drop_bit 18 l)), conv_bin2ascii (ucast (drop_bit 12 l)),
                     if remaining = 1 then 0x3d else conv_bin2ascii (ucast (drop_bit 6 l)), 0x3d])
                 (dst + 4) (drop 3 src) 0 (size_add ret 4)))
      else (ret, mem_write m dst [0]))"
  by pat_completeness auto
termination by (relation "measure (\<lambda>(m, dst, src, remaining, ret). remaining)") auto

declare encode_block_loop.simps [simp del]

definition EVP_EncodeBlock :: "bytes \<Rightarrow> nat \<Rightarrow> bytes \<Rightarrow> nat \<Rightarrow> nat \<times> bytes" where
  "EVP_EncodeBlock m dst src src_len = encode_block_loop m dst src src_len 0"

section \<open>Streaming encoder\<close>

record evp_encode_ctx =
  data_used :: nat
  ctx_data :: bytes
  eof_seen :: bool
  error_encountered :: bool

definition SIZEOF_DATA :: nat where
  "SIZEOF_DATA = 48"

definition EVP_EncodeInit :: evp_encode_ctx where
  "EVP_EncodeInit =
     \<lparr>data_used = 0, ctx_data = replicate SIZEOF_DATA 0, eof_seen = False, error_encountered = False\<rparr>"

text \<open>
  The loop of \<open>EVP_EncodeUpdate\<close> over whole lines: the new \<open>total\<close>, \<open>None\<close> where it wraps and the
  function returns, with the memory and the rest of the input.
\<close>

function encode_update_loop ::
    "bytes \<Rightarrow> nat \<Rightarrow> bytes \<Rightarrow> nat \<Rightarrow> nat \<Rightarrow> nat option \<times> bytes \<times> bytes \<times> nat" where
  "encode_update_loop m out src in_len tot =
     (if in_len \<ge> SIZEOF_DATA then
        (case EVP_EncodeBlock m out src SIZEOF_DATA of
           (encoded, m1) \<Rightarrow>
             (let m2 = mem_write m1 (out + encoded) [0x0a, 0];
                  tot' = size_add (size_add tot encoded) 1
              in if tot' < tot then (None, m2, src, in_len)
                 else encode_update_loop m2 (out + encoded + 1) (drop SIZEOF_DATA src)
                        (in_len - SIZEOF_DATA) tot'))
      else (Some tot, m, src, in_len))"
  by pat_completeness auto
termination
  by (relation "measure (\<lambda>(m, out, src, in_len, tot). in_len)") (auto simp: SIZEOF_DATA_def)

declare encode_update_loop.simps [simp del]

text \<open>The result is the context, the output memory and \<open>*out_len\<close>.\<close>

definition EVP_EncodeUpdate ::
    "evp_encode_ctx \<Rightarrow> bytes \<Rightarrow> bytes \<Rightarrow> nat \<Rightarrow> evp_encode_ctx \<times> bytes \<times> nat" where
  "EVP_EncodeUpdate ctx m src in_len =
     (if in_len = 0 then (ctx, m, 0)
      else if SIZEOF_DATA - data_used ctx > in_len then
        (ctx\<lparr>ctx_data := mem_write (ctx_data ctx) (data_used ctx) (take in_len src),
             data_used := data_used ctx + in_len\<rparr>, m, 0)
      else
        (case (if data_used ctx \<noteq> 0 then
                 (let todo = SIZEOF_DATA - data_used ctx;
                      data = mem_write (ctx_data ctx) (data_used ctx) (take todo src)
                  in case EVP_EncodeBlock m 0 data SIZEOF_DATA of
                       (encoded, m1) \<Rightarrow>
                         (ctx\<lparr>ctx_data := data, data_used := 0\<rparr>, mem_write m1 encoded [0x0a, 0],
                          encoded + 1, drop todo src, in_len - todo, encoded + 1))
               else (ctx, m, 0, src, in_len, 0)) of
           (ctx1, m1, out, src1, in_len1, tot) \<Rightarrow>
             (case encode_update_loop m1 out src1 in_len1 tot of
                (None, m2, _, _) \<Rightarrow> (ctx1, m2, 0)
              | (Some tot', m2, src2, in_len2) \<Rightarrow>
                  (let ctx2 = (if in_len2 \<noteq> 0
                               then ctx1\<lparr>ctx_data := mem_write (ctx_data ctx1) 0 (take in_len2 src2)\<rparr>
                               else ctx1)
                   in (ctx2\<lparr>data_used := in_len2\<rparr>, m2, if tot' > INT_MAX then 0 else tot')))))"

definition EVP_EncodeFinal :: "evp_encode_ctx \<Rightarrow> bytes \<Rightarrow> evp_encode_ctx \<times> bytes \<times> nat" where
  "EVP_EncodeFinal ctx m =
     (if data_used ctx = 0 then (ctx, m, 0)
      else
        (case EVP_EncodeBlock m 0 (ctx_data ctx) (data_used ctx) of
           (encoded, m1) \<Rightarrow> (ctx\<lparr>data_used := 0\<rparr>, mem_write m1 encoded [0x0a, 0], encoded + 1)))"

section \<open>Decoding\<close>

definition EVP_DecodedLength :: "nat \<Rightarrow> nat option" where
  "EVP_DecodedLength len = (if len mod 4 \<noteq> 0 then None else Some (len div 4 * 3))"

definition EVP_DecodeInit :: evp_encode_ctx where
  "EVP_DecodeInit =
     \<lparr>data_used = 0, ctx_data = replicate SIZEOF_DATA 0, eof_seen = False, error_encountered = False\<rparr>"

definition base64_ascii_to_bin :: "u8 \<Rightarrow> u8" where
  "base64_ascii_to_bin a =
     (let is_upper = constant_time_in_range_8 a 0x41 0x5a;
          is_lower = constant_time_in_range_8 a 0x61 0x7a;
          is_digit = constant_time_in_range_8 a 0x30 0x39;
          is_plus = constant_time_eq_8 (ucast a) 0x2b;
          is_slash = constant_time_eq_8 (ucast a) 0x2f;
          is_equals = constant_time_eq_8 (ucast a) 0x3d;
          ret = 0xff;
          ret = constant_time_select_8 is_upper (a - 0x41) ret;
          ret = constant_time_select_8 is_lower (a - 0x61 + 26) ret;
          ret = constant_time_select_8 is_digit (a - 0x30 + 52) ret;
          ret = constant_time_select_8 is_plus 62 ret;
          ret = constant_time_select_8 is_slash 63 ret;
          ret = constant_time_select_8 is_equals 0 ret
      in ret)"

text \<open>The number of bytes written to \<open>m\<close> from \<open>out\<close> on, or \<open>None\<close> for the return value 0.\<close>

definition base64_decode_quad :: "bytes \<Rightarrow> nat \<Rightarrow> bytes \<Rightarrow> nat option \<times> bytes" where
  "base64_decode_quad m out src =
     (let a = base64_ascii_to_bin (src ! 0);
          b = base64_ascii_to_bin (src ! 1);
          c = base64_ascii_to_bin (src ! 2);
          d = base64_ascii_to_bin (src ! 3)
      in if a = 0xff \<or> b = 0xff \<or> c = 0xff \<or> d = 0xff then (None, m)
         else
           (let v = push_bit 18 (ucast a) OR push_bit 12 (ucast b) OR push_bit 6 (ucast c) OR ucast d :: u32;
                padding_pattern = of_bool (src ! 0 = 0x3d) * 8 + of_bool (src ! 1 = 0x3d) * 4 +
                                  of_bool (src ! 2 = 0x3d) * 2 + of_bool (src ! 3 = 0x3d) :: nat
            in if padding_pattern = 0 then
                 (Some 3, mem_write m out [ucast (drop_bit 16 v), ucast (drop_bit 8 v), ucast v])
               else if padding_pattern = 1 then
                 (Some 2, mem_write m out [ucast (drop_bit 16 v), ucast (drop_bit 8 v)])
               else if padding_pattern = 3 then
                 (Some 1, mem_write m out [ucast (drop_bit 16 v)])
               else (None, m)))"

text \<open>The loop of \<open>EVP_DecodeUpdate\<close> over the bytes of \<open>in\<close>; \<open>None\<close> is the return value \<open>- 1\<close>.\<close>

fun decode_update_loop ::
    "evp_encode_ctx \<Rightarrow> bytes \<Rightarrow> nat \<Rightarrow> nat \<Rightarrow> bytes \<Rightarrow> nat option \<times> evp_encode_ctx \<times> bytes" where
  "decode_update_loop ctx m out bytes_out [] = (Some bytes_out, ctx, m)"
| "decode_update_loop ctx m out bytes_out (c # cs) =
     (if c \<in> {0x20, 0x09, 0x0d, 0x0a} then decode_update_loop ctx m out bytes_out cs
      else if eof_seen ctx then (None, ctx\<lparr>error_encountered := True\<rparr>, m)
      else
        (let ctx1 = ctx\<lparr>ctx_data := (ctx_data ctx)[data_used ctx := c], data_used := data_used ctx + 1\<rparr>
         in if data_used ctx1 = 4 then
              (case base64_decode_quad m out (ctx_data ctx1) of
                 (None, m1) \<Rightarrow> (None, ctx1\<lparr>error_encountered := True\<rparr>, m1)
               | (Some n, m1) \<Rightarrow>
                   decode_update_loop
                     (ctx1\<lparr>data_used := 0, eof_seen := (if n < 3 then True else eof_seen ctx1)\<rparr>)
                     m1 (out + n) (bytes_out + n) cs)
            else decode_update_loop ctx1 m out bytes_out cs))"

text \<open>The return value, \<open>*out_len\<close>, the context and the output memory.\<close>

definition EVP_DecodeUpdate ::
    "evp_encode_ctx \<Rightarrow> bytes \<Rightarrow> bytes \<Rightarrow> nat \<Rightarrow> int \<times> nat \<times> evp_encode_ctx \<times> bytes" where
  "EVP_DecodeUpdate ctx m src in_len =
     (if error_encountered ctx then (- 1, 0, ctx, m)
      else
        (case decode_update_loop ctx m 0 0 (take in_len src) of
           (None, ctx1, m1) \<Rightarrow> (- 1, 0, ctx1, m1)
         | (Some bytes_out, ctx1, m1) \<Rightarrow>
             (if bytes_out > INT_MAX then (- 1, 0, ctx1\<lparr>error_encountered := True\<rparr>, m1)
              else (if eof_seen ctx1 then 0 else 1, bytes_out, ctx1, m1))))"

definition EVP_DecodeFinal :: "evp_encode_ctx \<Rightarrow> int \<times> nat" where
  "EVP_DecodeFinal ctx = (if error_encountered ctx \<or> data_used ctx \<noteq> 0 then (- 1, 0) else (1, 0))"

function decode_base64_loop ::
    "bytes \<Rightarrow> nat \<Rightarrow> bytes \<Rightarrow> nat \<Rightarrow> nat \<Rightarrow> nat \<Rightarrow> nat option \<times> bytes" where
  "decode_base64_loop m out src in_len i bytes_out =
     (if i < in_len then
        (case base64_decode_quad m out (drop i src) of
           (None, m1) \<Rightarrow> (None, m1)
         | (Some n, m1) \<Rightarrow>
             (if n \<noteq> 3 \<and> i \<noteq> in_len - 4 then (None, m1)
              else decode_base64_loop m1 (out + n) src in_len (i + 4) (bytes_out + n)))
      else (Some bytes_out, m))"
  by pat_completeness auto
termination by (relation "measure (\<lambda>(m, out, src, in_len, i, b). in_len - i)") auto

declare decode_base64_loop.simps [simp del]

definition EVP_DecodeBase64 :: "bytes \<Rightarrow> nat \<Rightarrow> bytes \<Rightarrow> nat \<Rightarrow> nat option \<times> bytes" where
  "EVP_DecodeBase64 m max_out src in_len =
     (if in_len mod 4 \<noteq> 0 then (None, m)
      else
        (case EVP_DecodedLength in_len of
           None \<Rightarrow> (None, m)
         | Some max_len \<Rightarrow>
             (if max_out < max_len then (None, m)
              else decode_base64_loop m 0 src in_len 0 0)))"

text \<open>The two loops of \<open>EVP_DecodeBlock\<close> that trim the input, and the one that pads the output.\<close>

fun trim_leading :: "bytes \<Rightarrow> nat \<Rightarrow> bytes \<times> nat" where
  "trim_leading src 0 = (src, 0)"
| "trim_leading src (Suc n) =
     (if src ! 0 \<noteq> 0x20 \<and> src ! 0 \<noteq> 0x09 then (src, Suc n) else trim_leading (drop 1 src) n)"

fun trim_trailing :: "bytes \<Rightarrow> nat \<Rightarrow> nat" where
  "trim_trailing src 0 = 0"
| "trim_trailing src (Suc n) =
     (if src ! n \<in> {0x20, 0x09, 0x0d, 0x0a} then trim_trailing src n else Suc n)"

function pad_zeros :: "bytes \<Rightarrow> nat \<Rightarrow> nat \<times> bytes" where
  "pad_zeros m dst_len =
     (if dst_len mod 3 \<noteq> 0 then pad_zeros (mem_write m dst_len [0]) (dst_len + 1) else (dst_len, m))"
  by pat_completeness auto
termination
  by (relation "measure (\<lambda>(m, n). (3 - n mod 3) mod 3)") (auto simp: mod_Suc)

declare pad_zeros.simps [simp del]

definition EVP_DecodeBlock :: "bytes \<Rightarrow> bytes \<Rightarrow> nat \<Rightarrow> int \<times> bytes" where
  "EVP_DecodeBlock m src src_len =
     (case trim_leading src src_len of
        (src1, len1) \<Rightarrow>
          (let len2 = trim_trailing src1 len1
           in case EVP_DecodedLength len2 of
                None \<Rightarrow> (- 1, m)
              | Some dst_len \<Rightarrow>
                  (if dst_len > INT_MAX then (- 1, m)
                   else
                     (case EVP_DecodeBase64 m dst_len src1 len2 of
                        (None, m1) \<Rightarrow> (- 1, m1)
                      | (Some n, m1) \<Rightarrow> (case pad_zeros m1 n of (n', m2) \<Rightarrow> (int n', m2))))))"

end
