(* ===== verification/Base64_Spec.thy ===== *)
theory Base64_Spec
  imports Base64
begin

text \<open>
  Base64 as a function on byte strings, and that the routines of \<open>base64.c\<close> compute it: the block
  encoder, the streaming encoder with its line breaks, the block decoder and the streaming decoder,
  however the input is cut into pieces.
\<close>

section \<open>Reference\<close>

definition b64_alphabet :: bytes where
  "b64_alphabet = map word_of_nat ([65 ..< 91] @ [97 ..< 123] @ [48 ..< 58] @ [43, 47])"

definition b64_char :: "nat \<Rightarrow> u8" where
  "b64_char n = b64_alphabet ! (n mod 64)"

text \<open>The first \<open>k\<close> of the four characters of a 24-bit group.\<close>

definition b64_quad :: "nat \<Rightarrow> nat \<Rightarrow> bytes" where
  "b64_quad k v = take k [b64_char (v div 2 ^ 18), b64_char (v div 2 ^ 12), b64_char (v div 2 ^ 6), b64_char v]"

fun b64 :: "bytes \<Rightarrow> bytes" where
  "b64 [] = []"
| "b64 [a] = b64_quad 2 (be_val [a, 0, 0]) @ [0x3d, 0x3d]"
| "b64 [a, b] = b64_quad 3 (be_val [a, b, 0]) @ [0x3d]"
| "b64 (a # b # c # r) = b64_quad 4 (be_val [a, b, c]) @ b64 r"

lemma length_b64: "length (b64 bs) = 4 * ((length bs + 2) div 3)"
proof (induction bs rule: b64.induct)
  case (4 a b c r)
  have "(length (a # b # c # r) + 2) div 3 = Suc ((length r + 2) div 3)" by simp
  with 4 show ?case by (simp add: b64_quad_def)
qed (simp_all add: b64_quad_def)

section \<open>One character\<close>

lemma lt_args_8 [consttime]: "constant_time_lt_args_8 a b = mask_8 (a < b)"
proof -
  have "\<not> bit (ucast (x :: u8) :: u64) 63" for x by (rule not_bit_unat_less [where n = 8]) simp_all
  then have "bit (ucast a - ucast b :: u64) 63 = (ucast a < (ucast b :: u64))"
    by (intro msb_minus) simp
  also have "\<dots> = (a < b)" by (simp add: word_less_nat_alt)
  finally show ?thesis by (simp add: constant_time_lt_args_8_def consttime)
qed

lemma in_range_8:
  assumes "lo \<le> hi" and "hi - lo \<noteq> 0xff"
  shows "constant_time_in_range_8 a lo hi = mask_8 (lo \<le> a \<and> a \<le> hi)"
proof -
  have lh: "unat (hi - lo) = unat hi - unat lo" "unat lo \<le> unat hi"
    using assms(1) by (simp_all add: unat_sub word_le_nat_alt)
  moreover have "unat (hi - lo) \<noteq> 255" using assms(2) by (simp add: word_unat_eq_iff)
  ultimately have "unat (hi - lo + 1) = unat hi - unat lo + 1"
    using unat_u8_less [of "hi - lo"] by (simp add: unat_word_ariths)
  moreover have "unat (a - lo) = (if unat lo \<le> unat a then unat a - unat lo else unat a + 256 - unat lo)"
    by (simp add: unat_sub_if' word_le_nat_alt)
  ultimately have "(a - lo < hi - lo + 1) = (lo \<le> a \<and> a \<le> hi)"
    using lh unat_u8_less [of a] unat_u8_less [of hi] unfolding word_less_nat_alt word_le_nat_alt
    by presburger
  then show ?thesis by (simp add: constant_time_in_range_8_def consttime)
qed

lemma ucast_u8_const [consttime]:
  "(ucast (a :: u8) :: u64) = 62 \<longleftrightarrow> a = 62" "(ucast (a :: u8) :: u64) = 0x2b \<longleftrightarrow> a = 0x2b"
  "(ucast (a :: u8) :: u64) = 0x2f \<longleftrightarrow> a = 0x2f" "(ucast (a :: u8) :: u64) = 0x3d \<longleftrightarrow> a = 0x3d"
  by (simp_all add: word_unat_eq_iff)

lemma unat_b64_char:
  "unat (b64_char n) =
   (let v = n mod 64 in if v < 26 then v + 65 else if v < 52 then v + 71 else if v < 62 then v - 4
    else if v = 62 then 43 else 47)"
proof -
  have "list_all (\<lambda>v. unat (b64_char v) =
      (if v < 26 then v + 65 else if v < 52 then v + 71 else if v < 62 then v - 4
       else if v = 62 then 43 else 47)) [0 ..< 64]"
    by code_simp
  then have "unat (b64_char (n mod 64)) =
      (let v = n mod 64 in if v < 26 then v + 65 else if v < 52 then v + 71 else if v < 62 then v - 4
       else if v = 62 then 43 else 47)"
    by (simp only: list_all_iff set_upt Let_def) (drule bspec [where x = "n mod 64"]; simp)
  moreover have "b64_char (n mod 64) = b64_char n" by (simp add: b64_char_def)
  ultimately show ?thesis by simp
qed

lemma conv_bin2ascii_char: "conv_bin2ascii a = b64_char (unat a)"
proof -
  define x where "x = a AND 0x3f"
  have x: "unat x = unat a mod 64" using unat_and_mask [of a 6] by (simp add: x_def mask_eq_exp_minus_1)
  have "conv_bin2ascii a = (if x < 26 then x + 0x41 else if x < 52 then x - 26 + 0x61
      else if x < 62 then x - 52 + 0x30 else if x = 62 then 0x2b else 0x2f)"
    by (simp only: conv_bin2ascii_def consttime Let_def x_def)
  also have "\<dots> = b64_char (unat a)"
    unfolding word_unat_eq_iff unat_b64_char x [symmetric] Let_def
    using unat_u8_less [of a] by (auto simp: word_less_nat_alt word_unat_eq_iff unat_word_ariths unat_sub_if' word_le_nat_alt)
  finally show ?thesis .
qed

text \<open>The value of a character; \<open>base64_ascii_to_bin\<close> maps padding to zero and marks the rest.\<close>

definition b64_value :: "u8 \<Rightarrow> nat option" where
  "b64_value c =
     (let n = unat c
      in if 65 \<le> n \<and> n \<le> 90 then Some (n - 65)
         else if 97 \<le> n \<and> n \<le> 122 then Some (n - 97 + 26)
         else if 48 \<le> n \<and> n \<le> 57 then Some (n - 48 + 52)
         else if n = 43 then Some 62 else if n = 47 then Some 63 else None)"

lemma ascii_to_bin:
  "base64_ascii_to_bin c =
   (case b64_value c of Some n \<Rightarrow> word_of_nat n | None \<Rightarrow> if c = 0x3d then 0 else 0xff)"
proof -
  have le: "(0x41 \<le> c) = (65 \<le> unat c)" "(c \<le> 0x5a) = (unat c \<le> 90)" "(0x61 \<le> c) = (97 \<le> unat c)"
    "(c \<le> 0x7a) = (unat c \<le> 122)" "(0x30 \<le> c) = (48 \<le> unat c)" "(c \<le> 0x39) = (unat c \<le> 57)"
    by (simp_all add: word_le_nat_alt)
  have eq: "(c = 0x2b) = (unat c = 43)" "(c = 0x2f) = (unat c = 47)" "(c = 0x3d) = (unat c = 61)"
    by (simp_all add: word_unat_eq_iff)
  have minus: "(word_of_nat (unat c - k) :: u8) = c - word_of_nat k" if "k \<le> unat c" for k
    using that by (simp add: of_nat_diff)
  have "base64_ascii_to_bin c =
     (if unat c = 61 then 0 else if unat c = 47 then 63 else if unat c = 43 then 62
      else if 48 \<le> unat c \<and> unat c \<le> 57 then c - 0x30 + 52
      else if 97 \<le> unat c \<and> unat c \<le> 122 then c - 0x61 + 26
      else if 65 \<le> unat c \<and> unat c \<le> 90 then c - 0x41 else 0xff)"
    by (simp add: base64_ascii_to_bin_def in_range_8 consttime Let_def le eq)
  then show ?thesis
    using minus [of 48] minus [of 97] minus [of 65] by (auto simp: b64_value_def Let_def eq)
qed

lemma b64_value_char: "b64_value (b64_char n) = Some (n mod 64)" "b64_char n \<noteq> 0x3d"
  "b64_char n \<notin> {0x20, 0x09, 0x0d, 0x0a}"
proof -
  have v: "n mod 64 < 64" by simp
  then show "b64_value (b64_char n) = Some (n mod 64)"
    unfolding b64_value_def unat_b64_char Let_def by auto
  show "b64_char n \<noteq> 0x3d" "b64_char n \<notin> {0x20, 0x09, 0x0d, 0x0a}"
    using v by (auto simp: word_unat_eq_iff unat_b64_char Let_def split: if_splits)
qed

lemma b64_value_less: "b64_value c = Some n \<Longrightarrow> n < 64"
  by (auto simp: b64_value_def Let_def split: if_splits)

lemma b64_char_value: "b64_value c = Some n \<Longrightarrow> b64_char n = c"
  unfolding word_unat_eq_iff unat_b64_char by (auto simp: b64_value_def Let_def split: if_splits)

section \<open>The block encoder\<close>

lemma mem_write_over:
  assumes "p \<le> length m" and "length xs \<le> length cs"
  shows "mem_write (mem_write m p (bs @ xs)) (p + length bs) cs = mem_write m p (bs @ cs)"
  using assms by (simp add: mem_write_def min_absorb1 ac_simps)

lemma conv_shift:
  fixes l :: u32
  shows "conv_bin2ascii (ucast l) = b64_char (unat l)" and "unat (drop_bit k l) = unat l div 2 ^ k"
proof -
  have c: "conv_bin2ascii (ucast w) = b64_char (unat w)" for w :: u32
  proof -
    have "unat (ucast w :: u8) = unat w mod 256"
      by (simp add: unsigned_ucast_eq take_bit_eq_mod)
    moreover have "b64_char (n mod 256) = b64_char n" for n
      by (simp add: b64_char_def mod_mod_cancel)
    ultimately show ?thesis by (simp add: conv_bin2ascii_char)
  qed
  then show "conv_bin2ascii (ucast l) = b64_char (unat l)" .
  show "unat (drop_bit k l) = unat l div 2 ^ k" by (simp only: unat_drop_bit_eq) (simp only: drop_bit_eq_div)
qed

lemma u8_less: "256 \<le> n \<Longrightarrow> unat (b :: u8) < n"
  using unat_u8_less [of b] by (rule less_le_trans)

lemma group_value:
  fixes a b c :: u8
  shows "unat (push_bit 16 (ucast a) OR push_bit 8 (ucast b) OR ucast c :: u32) = be_val [a, b, c]"
    and "unat (push_bit 16 (ucast a) OR push_bit 8 (ucast b) :: u32) = be_val [a, b, 0]"
    and "unat (push_bit 16 (ucast a) :: u32) = be_val [a, 0, 0]"
proof -
  have low: "unat (push_bit 8 (ucast b) OR ucast c :: u32) = unat b * 256 + unat c" for b c :: u8
    by (subst unat_push_or) (simp_all add: u8_less)
  have abc: "unat (push_bit 16 (ucast a) OR push_bit 8 (ucast b) OR ucast c :: u32) = be_val [a, b, c]" for b c :: u8
  proof -
    have "unat b * 256 + unat c < 2 ^ 16" using unat_u8_less [of b] unat_u8_less [of c] by (simp del: unat_u8_less)
    then show ?thesis
      unfolding or.assoc by (subst unat_push_or) (simp_all add: low be_val_Cons u8_less)
  qed
  show "unat (push_bit 16 (ucast a) OR push_bit 8 (ucast b) OR ucast c :: u32) = be_val [a, b, c]" by (rule abc)
  show "unat (push_bit 16 (ucast a) OR push_bit 8 (ucast b) :: u32) = be_val [a, b, 0]" using abc [of b 0] by simp
  show "unat (push_bit 16 (ucast a) :: u32) = be_val [a, 0, 0]" using abc [of 0 0] by simp
qed

lemma encode_block_loop_b64:
  "p \<le> length m \<Longrightarrow> n \<le> length src \<Longrightarrow> ret + length (b64 (take n src)) < SIZE_MOD \<Longrightarrow>
   encode_block_loop m p src n ret =
     (ret + length (b64 (take n src)), mem_write m p (b64 (take n src) @ [0]))"
proof (induction n arbitrary: m p src ret rule: less_induct)
  case (less n)
  have wr: "mem_write (mem_write m p q) (p + 4) (r @ [0]) = mem_write m p (q @ r @ [0])" if "length q = 4" for q r
    using mem_write_over [of p m "[]" "r @ [0]" q] less.prems(1) that by simp
  consider (nil) "n = 0" | (one) "n = 1" | (two) "n = 2" | (more) "3 \<le> n" by linarith
  then show ?case
  proof cases
    case nil
    then show ?thesis by (simp add: encode_block_loop.simps)
  next
    case one
    then obtain a r where "src = a # r" using less.prems(2) by (cases src) auto
    then show ?thesis
      using one less.prems wr [of "b64_quad 2 (be_val [a, 0, 0]) @ [0x3d, 0x3d]" "[]"]
      by (simp add: encode_block_loop.simps [of _ _ "a # r"] encode_block_loop.simps [of _ _ _ 0] Let_def
          conv_shift group_value size_add_exact b64_quad_def)
  next
    case two
    then obtain a b r where "src = a # b # r" using less.prems(2) by (cases src; cases "tl src") auto
    then show ?thesis
      using two less.prems wr [of "b64_quad 3 (be_val [a, b, 0]) @ [0x3d]" "[]"]
      by (simp add: encode_block_loop.simps [of _ _ "a # b # r"] encode_block_loop.simps [of _ _ _ 0] Let_def
          conv_shift group_value size_add_exact b64_quad_def numeral_2_eq_2)
  next
    case more
    define k where "k = n - 3"
    have n: "n = Suc (Suc (Suc k))" using more by (simp add: k_def)
    then obtain a b c r where src: "src = a # b # c # r" using less.prems(2)
      by (metis Suc_le_length_iff)
    let ?q = "b64_quad 4 (be_val [a, b, c])"
    have q: "length ?q = 4" by (simp add: b64_quad_def)
    have IH: "encode_block_loop (mem_write m p ?q) (p + 4) r k (ret + 4) =
        (ret + 4 + length (b64 (take k r)), mem_write (mem_write m p ?q) (p + 4) (b64 (take k r) @ [0]))"
      by (rule less.IH) (use less.prems n src q in \<open>auto simp: mem_write_def\<close>)
    have "encode_block_loop m p src n ret = encode_block_loop (mem_write m p ?q) (p + 4) r k (ret + 4)"
      using less.prems n src q
      by (subst encode_block_loop.simps)
        (simp add: Let_def conv_shift group_value size_add_exact b64_quad_def)
    then show ?thesis using IH wr [of ?q "b64 (take k r)"] n src q by simp
  qed
qed

theorem encode_block:
  assumes "p \<le> length m" and "n \<le> length src" and "n \<le> 2 ^ 62"
  shows "EVP_EncodeBlock m p src n = (length (b64 (take n src)), mem_write m p (b64 (take n src) @ [0]))"
proof -
  have "length (b64 (take n src)) < SIZE_MOD" using assms by (simp add: length_b64 SIZE_MOD_def)
  then show ?thesis using encode_block_loop_b64 [of p m n src 0] assms by (simp add: EVP_EncodeBlock_def)
qed

text \<open>\<open>EVP_EncodedLength\<close> is the space the encoder uses, or reports that it does not fit in \<open>size_t\<close>.\<close>

theorem encoded_length:
  assumes "len < SIZE_MOD"
  shows "EVP_EncodedLength len =
    (if 4 * ((len + 2) div 3) + 1 < SIZE_MOD then Some (4 * ((len + 2) div 3) + 1) else None)"
proof (cases "len + 2 < SIZE_MOD")
  case False
  then have "size_add len 2 < len" using assms by (simp add: size_add_overflow_iff SIZE_MOD_def)
  then show ?thesis using False by (simp add: EVP_EncodedLength_def SIZE_MOD_def)
next
  case True
  let ?n = "(len + 2) div 3"
  have a: "size_add len 2 = len + 2" using True by (simp add: size_add_exact)
  show ?thesis
  proof (cases "?n * 4 < SIZE_MOD")
    case False
    have "size_mul ?n 4 < ?n * 4" using False by (simp add: size_mul_def) (meson mod_less_divisor SIZE_MOD_pos less_le_trans not_less)
    then have "size_mul ?n 4 div 4 \<noteq> ?n" by linarith
    then show ?thesis using a False by (simp add: EVP_EncodedLength_def Let_def)
  next
    case fits: True
    then have m: "size_mul ?n 4 = ?n * 4" by (simp add: size_mul_exact)
    have "?n * 4 + 1 < SIZE_MOD"
    proof (rule ccontr)
      assume "\<not> ?n * 4 + 1 < SIZE_MOD"
      with fits have "SIZE_MOD = ?n * 4 + 1" by linarith
      moreover have "SIZE_MOD = 4 * 2 ^ 62" by (simp add: SIZE_MOD_def)
      ultimately show False by presburger
    qed
    then show ?thesis using a m fits by (simp add: EVP_EncodedLength_def Let_def size_add_exact)
  qed
qed

section \<open>The streaming encoder\<close>

function full_lines :: "bytes \<Rightarrow> bytes" where
  "full_lines x = (if 48 \<le> length x then b64 (take 48 x) @ [0x0a] @ full_lines (drop 48 x) else [])"
  by pat_completeness auto
termination by (relation "measure length") auto

declare full_lines.simps [simp del]

definition rest_line :: "bytes \<Rightarrow> bytes" where
  "rest_line x = drop (48 * (length x div 48)) x"

text \<open>The output for a whole input: lines of 64 characters, the last one possibly shorter.\<close>

definition pem_lines :: "bytes \<Rightarrow> bytes" where
  "pem_lines x = full_lines x @ (if rest_line x = [] then [] else b64 (rest_line x) @ [0x0a])"

lemma full_lines_short: "length x < 48 \<Longrightarrow> full_lines x = []"
  by (simp add: full_lines.simps)

lemma full_lines_step: "length x = 48 \<Longrightarrow> full_lines (x @ y) = b64 x @ 0x0a # full_lines y"
  by (subst full_lines.simps) simp

lemma length_full_lines: "length (full_lines x) = 65 * (length x div 48)"
proof (induction x rule: full_lines.induct)
  case (1 x)
  show ?case
  proof (cases "48 \<le> length x")
    case True
    then have "length x div 48 = Suc ((length x - 48) div 48)" by (simp add: le_div_geq)
    then show ?thesis using 1 [OF True] True
      by (subst full_lines.simps) (simp add: length_b64 min_absorb2)
  next
    case False
    then show ?thesis by (simp add: full_lines_short)
  qed
qed

lemma rest_line_step: "48 \<le> length x \<Longrightarrow> rest_line (drop 48 x) = rest_line x"
proof -
  assume "48 \<le> length x"
  then have "48 * ((length x - 48) div 48) + 48 = 48 * (length x div 48)" by (simp add: le_div_geq)
  then show ?thesis by (simp add: rest_line_def)
qed

lemma length_rest_line: "length (rest_line x) = length x mod 48"
  by (simp add: rest_line_def minus_mult_div_eq_mod)

lemma rest_line_short: "length x < 48 \<Longrightarrow> rest_line x = x"
  by (simp add: rest_line_def)

lemma lines_append:
  "full_lines (x @ y) = full_lines x @ full_lines (rest_line x @ y) \<and>
   rest_line (x @ y) = rest_line (rest_line x @ y)"
proof (induction x rule: full_lines.induct)
  case (1 x)
  show ?case
  proof (cases "48 \<le> length x")
    case True
    have x: "x @ y = take 48 x @ (drop 48 x @ y)" by simp
    have "full_lines (x @ y) = b64 (take 48 x) @ 0x0a # full_lines (drop 48 x @ y)"
      unfolding x by (rule full_lines_step) (use True in simp)
    moreover have "full_lines x = b64 (take 48 x) @ 0x0a # full_lines (drop 48 x)"
      using True by (subst full_lines.simps) simp
    moreover have "rest_line (x @ y) = rest_line (drop 48 x @ y)"
      using rest_line_step [of "x @ y"] True by simp
    ultimately show ?thesis using 1 [OF True] rest_line_step [OF True] by simp
  next
    case False
    then show ?thesis by (simp add: full_lines_short rest_line_short)
  qed
qed

lemmas full_lines_append = lines_append [THEN conjunct1]
lemmas rest_line_append = lines_append [THEN conjunct2]

lemma pem_lines_append: "pem_lines (x @ y) = full_lines x @ pem_lines (rest_line x @ y)"
  by (simp add: pem_lines_def full_lines_append [of x y] rest_line_append [of x y])

text \<open>What the encoder leaves in memory: the lines and a final zero byte, if it wrote at all.\<close>

definition ended :: "bytes \<Rightarrow> bytes" where
  "ended x = x @ (if x = [] then [] else [0])"

lemma encode_update_loop_lines:
  "p \<le> length m \<Longrightarrow> n \<le> length src \<Longrightarrow> n \<le> 2 ^ 62 \<Longrightarrow>
   tot + length (full_lines (take n src)) < SIZE_MOD \<Longrightarrow>
   encode_update_loop m p src n tot =
     (Some (tot + length (full_lines (take n src))), mem_write m p (ended (full_lines (take n src))),
      drop (48 * (n div 48)) src, n mod 48)"
proof (induction n arbitrary: m p src tot rule: less_induct)
  case (less n)
  show ?case
  proof (cases "48 \<le> n")
    case False
    then show ?thesis
      by (simp add: encode_update_loop.simps SIZEOF_DATA_def full_lines_short ended_def)
  next
    case True
    let ?l = "b64 (take 48 src) @ [0x0a]" and ?F = "full_lines (take (n - 48) (drop 48 src))"
    have F: "full_lines (take n src) = ?l @ ?F"
      using True less.prems(2) by (subst full_lines.simps) (simp add: min_absorb1 take_drop min_absorb2)
    have l: "length (b64 (take 48 src)) = 64" using True less.prems(2) by (simp add: length_b64 min_absorb2)
    have fit: "tot + 65 + length ?F < SIZE_MOD" using less.prems(4) l unfolding F by simp
    have enc: "EVP_EncodeBlock m p src SIZEOF_DATA = (64, mem_write m p (b64 (take 48 src) @ [0]))"
      using encode_block [OF less.prems(1), of 48 src] True less.prems(2) l by (simp add: SIZEOF_DATA_def)
    have wr: "mem_write (mem_write m p (b64 (take 48 src) @ [0])) (p + 64) [0x0a, 0] = mem_write m p (?l @ [0])"
      using mem_write_over [OF less.prems(1), of "[0]" "[0x0a, 0]" "b64 (take 48 src)"] l by simp
    have "encode_update_loop m p src n tot =
        encode_update_loop (mem_write m p (?l @ [0])) (p + 65) (drop 48 src) (n - 48) (tot + 65)"
      using True fit wr
      by (subst encode_update_loop.simps) (simp add: SIZEOF_DATA_def enc [unfolded SIZEOF_DATA_def] Let_def size_add_exact add.commute)
    also have "\<dots> = (Some (tot + 65 + length ?F), mem_write (mem_write m p (?l @ [0])) (p + 65) (ended ?F),
        drop (48 * ((n - 48) div 48)) (drop 48 src), (n - 48) mod 48)"
      by (rule less.IH) (use True less.prems fit l in \<open>auto simp: mem_write_def\<close>)
    also have "mem_write (mem_write m p (?l @ [0])) (p + 65) (ended ?F) = mem_write m p (ended (?l @ ?F))"
    proof (cases "?F = []")
      case True
      then show ?thesis by (simp add: ended_def)
    next
      case False
      then show ?thesis
        using mem_write_over [OF less.prems(1), of "[0]" "ended ?F" ?l] l by (simp add: ended_def Suc_le_eq)
    qed
    also have "drop (48 * ((n - 48) div 48)) (drop 48 src) = drop (48 * (n div 48)) src"
      using True by (simp add: le_div_geq add.commute)
    finally show ?thesis using True l unfolding F by (simp add: le_mod_geq)
  qed
qed

definition enc_ok :: "evp_encode_ctx \<Rightarrow> bool" where
  "enc_ok ctx \<longleftrightarrow> length (ctx_data ctx) = 48 \<and> data_used ctx < 48"

definition pending :: "evp_encode_ctx \<Rightarrow> bytes" where
  "pending ctx = take (data_used ctx) (ctx_data ctx)"

lemma length_pending: "enc_ok ctx \<Longrightarrow> length (pending ctx) = data_used ctx"
  by (simp add: enc_ok_def pending_def)

lemma encode_init: "enc_ok EVP_EncodeInit" "pending EVP_EncodeInit = []"
  by (simp_all add: enc_ok_def pending_def EVP_EncodeInit_def SIZEOF_DATA_def)

text \<open>The first step of \<open>EVP_EncodeUpdate\<close>: what is buffered is completed to a line.\<close>

lemma first_line:
  assumes ctx: "enc_ok ctx" and n: "n \<le> length src" "48 - data_used ctx \<le> n"
  obtains c1 first src1 n1 where
    "(if data_used ctx \<noteq> 0 then
        (let todo = SIZEOF_DATA - data_used ctx;
             data = mem_write (ctx_data ctx) (data_used ctx) (take todo src)
         in case EVP_EncodeBlock m 0 data SIZEOF_DATA of
              (encoded, m1) \<Rightarrow>
                (ctx\<lparr>ctx_data := data, data_used := 0\<rparr>, mem_write m1 encoded [0x0a, 0],
                 encoded + 1, drop todo src, n - todo, encoded + 1))
      else (ctx, m, 0, src, n, 0)) =
     (c1, mem_write m 0 (ended first), length first, src1, n1, length first)"
    "length (ctx_data c1) = 48" "data_used c1 = 0" "n1 \<le> length src1" "n1 \<le> n" "length first \<le> 65"
    "full_lines (pending ctx @ take n src) = first @ full_lines (take n1 src1)"
    "rest_line (pending ctx @ take n src) = rest_line (take n1 src1)"
proof (cases "data_used ctx = 0")
  case True
  then show thesis
    using that [of ctx "[]" src n] ctx n by (simp add: ended_def enc_ok_def pending_def)
next
  case False
  have used: "data_used ctx < 48" "length (ctx_data ctx) = 48" using ctx by (auto simp: enc_ok_def)
  define todo where "todo = 48 - data_used ctx"
  define l where "l = pending ctx @ take todo src"
  have todo: "todo \<le> n" "todo \<le> length src" using n by (simp_all add: todo_def)
  have len: "length l = 48" using used todo by (simp add: l_def todo_def length_pending [OF ctx] min_absorb2)
  have x: "pending ctx @ take n src = l @ take (n - todo) (drop todo src)"
    using todo by (simp add: l_def flip: take_add)
  have data: "mem_write (ctx_data ctx) (data_used ctx) (take todo src) = l"
    using used todo by (simp add: l_def pending_def mem_write_def todo_def)
  have "EVP_EncodeBlock m 0 l 48 = (64, mem_write m 0 (b64 l @ [0]))"
    using encode_block [of 0 m 48 l] len by (simp add: length_b64)
  moreover have "mem_write (mem_write m 0 (b64 l @ [0])) 64 [0x0a, 0] = mem_write m 0 (b64 l @ [0x0a, 0])"
    using mem_write_over [of 0 m "[0]" "[0x0a, 0]" "b64 l"] len by (simp add: length_b64)
  ultimately show thesis
    using that [of "ctx\<lparr>ctx_data := l, data_used := 0\<rparr>" "b64 l @ [0x0a]" "drop todo src" "n - todo"]
      False data len n todo_def rest_line_step [of "l @ take (n - todo) (drop todo src)"]
    by (simp add: x full_lines_step [OF len] SIZEOF_DATA_def Let_def ended_def length_b64)
qed

text \<open>The lines of a call, and what it leaves in the buffer.\<close>

lemma update_lines:
  assumes ctx: "enc_ok ctx" and n: "n \<le> length src" "n \<le> 2 ^ 61" "48 - data_used ctx \<le> n"
  defines "x \<equiv> pending ctx @ take n src"
  obtains ctx' where
    "EVP_EncodeUpdate ctx m src n =
       (ctx', mem_write m 0 (ended (full_lines x)),
        if INT_MAX < length (full_lines x) then 0 else length (full_lines x))"
    "enc_ok ctx'" "pending ctx' = rest_line x"
proof (rule first_line [OF ctx n(1,3), of m])
  fix c1 first src1 n1
  assume c1: "length (ctx_data c1) = 48" "data_used c1 = 0"
    and n1: "n1 \<le> length src1" "n1 \<le> n" and fst: "length first \<le> 65"
    and F: "full_lines (pending ctx @ take n src) = first @ full_lines (take n1 src1)"
    and R: "rest_line (pending ctx @ take n src) = rest_line (take n1 src1)"
    and step: "(if data_used ctx \<noteq> 0 then
        (let todo = SIZEOF_DATA - data_used ctx;
             data = mem_write (ctx_data ctx) (data_used ctx) (take todo src)
         in case EVP_EncodeBlock m 0 data SIZEOF_DATA of
              (encoded, m1) \<Rightarrow>
                (ctx\<lparr>ctx_data := data, data_used := 0\<rparr>, mem_write m1 encoded [0x0a, 0],
                 encoded + 1, drop todo src, n - todo, encoded + 1))
      else (ctx, m, 0, src, n, 0)) =
     (c1, mem_write m 0 (ended first), length first, src1, n1, length first)"
  let ?G = "full_lines (take n1 src1)"
  have x: "full_lines x = first @ ?G" "rest_line x = rest_line (take n1 src1)" using F R by (simp_all add: x_def)
  have "mem_write (mem_write m 0 (ended first)) (length first) (ended ?G) = mem_write m 0 (ended (full_lines x))"
    using mem_write_over [of 0 m "if first = [] then [] else [0]" "ended ?G" first]
    by (cases "?G = []") (simp_all add: ended_def x Suc_le_eq split: if_splits)
  moreover have "length first \<le> length (mem_write m 0 (ended first))" by (simp add: mem_write_def ended_def)
  moreover have "length first + length ?G < SIZE_MOD"
    using n(2) n1 fst unfolding length_full_lines SIZE_MOD_def by simp
  ultimately have loop: "encode_update_loop (mem_write m 0 (ended first)) (length first) src1 n1 (length first) =
      (Some (length (full_lines x)), mem_write m 0 (ended (full_lines x)), drop (48 * (n1 div 48)) src1, n1 mod 48)"
    using encode_update_loop_lines [of "length first" "mem_write m 0 (ended first)" n1 src1 "length first"] n(2) n1
    by (simp add: x)
  let ?rest = "take (n1 mod 48) (drop (48 * (n1 div 48)) src1)"
  have rest: "rest_line (take n1 src1) = ?rest"
    using n1 by (simp add: rest_line_def min_absorb2 drop_take minus_mult_div_eq_mod)
  have lr: "length ?rest = n1 mod 48" using n1 by (metis length_rest_line length_take min_absorb2 rest)
  define c2 where "c2 = (if n1 mod 48 \<noteq> 0 then c1\<lparr>ctx_data := mem_write (ctx_data c1) 0 ?rest\<rparr> else c1)\<lparr>data_used := n1 mod 48\<rparr>"
  have "0 < n" using n(3) ctx unfolding enc_ok_def by linarith
  then have "EVP_EncodeUpdate ctx m src n =
     (c2, mem_write m 0 (ended (full_lines x)), if INT_MAX < length (full_lines x) then 0 else length (full_lines x))"
    using n(3) step loop unfolding EVP_EncodeUpdate_def SIZEOF_DATA_def by (simp add: c2_def Let_def)
  moreover have "enc_ok c2" using c1 lr by (simp add: enc_ok_def c2_def mem_write_def)
  moreover have "pending c2 = rest_line x"
    using c1 lr unfolding x rest by (simp add: pending_def c2_def mem_write_def)
  ultimately show ?thesis using that by blast
qed

theorem encode_update:
  assumes ctx: "enc_ok ctx" and n: "n \<le> length src" "n \<le> 2 ^ 61"
  defines "x \<equiv> pending ctx @ take n src"
  obtains ctx' where
    "EVP_EncodeUpdate ctx m src n =
       (ctx', mem_write m 0 (ended (full_lines x)),
        if INT_MAX < length (full_lines x) then 0 else length (full_lines x))"
    "enc_ok ctx'" "pending ctx' = rest_line x"
proof -
  have used: "data_used ctx < 48" "length (ctx_data ctx) = 48" using ctx by (auto simp: enc_ok_def)
  note lp = length_pending [OF ctx]
  show thesis
  proof (cases "48 - data_used ctx \<le> n")
    case True
    then show ?thesis using update_lines [OF ctx n, of m] that unfolding x_def by blast
  next
    case False
    let ?c = "if n = 0 then ctx else ctx\<lparr>ctx_data := mem_write (ctx_data ctx) (data_used ctx) (take n src),
      data_used := data_used ctx + n\<rparr>"
    have "length x < 48" using False n lp by (simp add: x_def)
    then have "full_lines x = []" "rest_line x = x" by (simp_all add: full_lines_short rest_line_short)
    moreover have "data_used ctx + n < 48" using False by linarith
    then have "enc_ok ?c" "pending ?c = x"
      using n used by (simp_all add: enc_ok_def pending_def x_def mem_write_def)
    ultimately show ?thesis
      using that [of ?c] False by (simp add: EVP_EncodeUpdate_def ended_def SIZEOF_DATA_def)
  qed
qed

text \<open>
  A caller that encodes its input in pieces: the concatenation of what the calls put into a buffer.
\<close>

fun encode_pieces :: "bytes \<Rightarrow> evp_encode_ctx \<Rightarrow> bytes list \<Rightarrow> bytes" where
  "encode_pieces m ctx [] = (case EVP_EncodeFinal ctx m of (_, m1, n) \<Rightarrow> take n m1)"
| "encode_pieces m ctx (x # xs) =
     (case EVP_EncodeUpdate ctx m x (length x) of (ctx1, m1, n) \<Rightarrow> take n m1 @ encode_pieces m ctx1 xs)"

lemma take_written: "take (length bs) (mem_write m 0 (bs @ cs)) = bs"
  by (simp add: mem_write_def)

lemma encode_final:
  assumes "enc_ok ctx"
  shows "case EVP_EncodeFinal ctx m of (ctx', m1, n) \<Rightarrow>
    take n m1 = pem_lines (pending ctx) \<and> data_used ctx' = 0 \<and> n \<le> 65"
proof (cases "data_used ctx = 0")
  case True
  then show ?thesis by (simp add: EVP_EncodeFinal_def pem_lines_def pending_def full_lines_short rest_line_short)
next
  case False
  have u: "data_used ctx < 48" "length (ctx_data ctx) = 48" using assms by (auto simp: enc_ok_def)
  let ?e = "b64 (pending ctx)"
  have p: "length (pending ctx) = data_used ctx" using assms by (rule length_pending)
  have "EVP_EncodeBlock m 0 (ctx_data ctx) (data_used ctx) = (length ?e, mem_write m 0 (?e @ [0]))"
    using encode_block [of 0 m "data_used ctx" "ctx_data ctx"] u by (simp add: pending_def)
  moreover have "mem_write (mem_write m 0 (?e @ [0])) (length ?e) [0x0a, 0] = mem_write m 0 ((?e @ [0x0a]) @ [0])"
    using mem_write_over [of 0 m "[0]" "[0x0a, 0]" ?e] by simp
  moreover have "pem_lines (pending ctx) = ?e @ [0x0a]"
    using False p u by (auto simp: pem_lines_def full_lines_short rest_line_short)
  moreover have "length ?e \<le> 64" using u p by (simp add: length_b64)
  ultimately show ?thesis
    using False take_written [of "?e @ [0x0a]" m "[0]"] by (simp add: EVP_EncodeFinal_def)
qed

theorem encode_pieces_lines:
  assumes "enc_ok ctx" and "\<forall>x \<in> set xs. length x \<le> 2 ^ 30"
  shows "encode_pieces m ctx xs = pem_lines (pending ctx @ concat xs)"
  using assms
proof (induction xs arbitrary: ctx)
  case Nil
  then show ?case using encode_final [of ctx m] by (auto split: prod.splits)
next
  case (Cons x xs)
  let ?x = "pending ctx @ x"
  have "length ?x \<le> 2 ^ 30 + 48" using Cons.prems length_pending [of ctx] by (auto simp: enc_ok_def)
  then have small: "length (full_lines ?x) \<le> INT_MAX" by (simp add: length_full_lines INT_MAX_def)
  obtain ctx' where u: "EVP_EncodeUpdate ctx m x (length x) =
       (ctx', mem_write m 0 (ended (full_lines ?x)), length (full_lines ?x))" "enc_ok ctx'" "pending ctx' = rest_line ?x"
    using encode_update [of ctx "length x" x m] Cons.prems small by (auto simp: not_less)
  have "encode_pieces m ctx' xs = pem_lines (rest_line ?x @ concat xs)"
    using Cons.IH [OF u(2)] Cons.prems u(3) by simp
  then show ?case
    using u(1) take_written [of "full_lines ?x" m] pem_lines_append [of ?x "concat xs"]
    by (simp add: ended_def)
qed

section \<open>One group of four characters\<close>

text \<open>The bytes of a group, if it is valid: padding only at the end, all other characters of the alphabet.\<close>

fun quad_value :: "bytes \<Rightarrow> bytes option" where
  "quad_value [a, b, c, d] =
     (case (b64_value a, b64_value b) of
        (Some va, Some vb) \<Rightarrow>
          (case (b64_value c, b64_value d) of
             (Some vc, Some vd) \<Rightarrow> Some (be_bytes 3 (((va * 64 + vb) * 64 + vc) * 64 + vd))
           | (Some vc, None) \<Rightarrow>
               if d = 0x3d then Some (take 2 (be_bytes 3 (((va * 64 + vb) * 64 + vc) * 64))) else None
           | (None, None) \<Rightarrow>
               if c = 0x3d \<and> d = 0x3d then Some (take 1 (be_bytes 3 ((va * 64 + vb) * 64 * 64))) else None
           | _ \<Rightarrow> None)
      | _ \<Rightarrow> None)"
| "quad_value _ = None"

lemma b64_value_pad [simp]: "b64_value 0x3d = None"
  by (simp add: b64_value_def)

lemma ascii_to_bin_valid:
  "base64_ascii_to_bin c = 0xff \<longleftrightarrow> b64_value c = None \<and> c \<noteq> 0x3d"
  "base64_ascii_to_bin c \<noteq> 0xff \<Longrightarrow> unat (base64_ascii_to_bin c) = (case b64_value c of None \<Rightarrow> 0 | Some d \<Rightarrow> d)"
proof -
  have v: "unat (word_of_nat d :: u8) = d" if "d < 64" for d using that by (simp add: unat_of_nat)
  show "base64_ascii_to_bin c = 0xff \<longleftrightarrow> b64_value c = None \<and> c \<noteq> 0x3d"
    using v by (auto simp: ascii_to_bin word_unat_eq_iff split: option.splits dest!: b64_value_less)
  show "base64_ascii_to_bin c \<noteq> 0xff \<Longrightarrow> unat (base64_ascii_to_bin c) = (case b64_value c of None \<Rightarrow> 0 | Some d \<Rightarrow> d)"
    using v by (auto simp: ascii_to_bin split: option.splits if_splits dest: b64_value_less)
qed

lemma quad_word:
  fixes a b c d :: u8
  assumes "unat a < 64" "unat b < 64" "unat c < 64" "unat d < 64"
  shows "unat (push_bit 18 (ucast a) OR push_bit 12 (ucast b) OR push_bit 6 (ucast c) OR ucast d :: u32) =
    ((unat a * 64 + unat b) * 64 + unat c) * 64 + unat d"
proof -
  have 1: "unat (push_bit 6 (ucast c) OR ucast d :: u32) = unat c * 64 + unat d"
    using assms by (subst unat_push_or) simp_all
  have 2: "unat (push_bit 12 (ucast b) OR (push_bit 6 (ucast c) OR ucast d) :: u32) = unat b * 4096 + (unat c * 64 + unat d)"
    using assms by (subst unat_push_or) (simp_all add: 1)
  have 3: "unat (push_bit 18 (ucast a) OR (push_bit 12 (ucast b) OR (push_bit 6 (ucast c) OR ucast d)) :: u32) =
      unat a * 262144 + (unat b * 4096 + (unat c * 64 + unat d))"
    using assms by (subst unat_push_or) (simp_all add: 2)
  then show ?thesis by (simp add: or.assoc algebra_simps)
qed

lemma three_bytes:
  fixes v :: u32
  shows "[ucast (drop_bit 16 v), ucast (drop_bit 8 v), ucast v] = be_bytes 3 (unat v)"
proof -
  have u: "ucast w = word_of_nat (unat w)" for w :: u32 by simp
  have "unat v div 65536 = unat v div 256 div 256" by (simp add: div_mult2_eq [symmetric])
  then show ?thesis
    unfolding numeral_3_eq_3 be_bytes.simps u conv_shift(2) by (simp add: div_mult2_eq [symmetric])
qed

lemma list4: "4 \<le> length xs \<Longrightarrow> \<exists>a b c d r. xs = a # b # c # d # r"
  by (auto simp: numeral_eq_Suc Suc_le_length_iff)

lemma decode_quad:
  assumes "4 \<le> length src"
  shows "base64_decode_quad m out src =
    (case quad_value (take 4 src) of None \<Rightarrow> (None, m) | Some bs \<Rightarrow> (Some (length bs), mem_write m out bs))"
proof -
  obtain a b c d r where src: "src = a # b # c # d # r" using list4 [OF assms] by auto
  show ?thesis
  proof (cases "\<exists>x \<in> {a, b, c, d}. base64_ascii_to_bin x = 0xff")
    case True
    then have "quad_value [a, b, c, d] = None"
      by (auto simp: ascii_to_bin_valid(1) split: option.splits)
    then show ?thesis using True src by (auto simp: base64_decode_quad_def Let_def)
  next
    case False
    let ?v = "\<lambda>c. case b64_value c of None \<Rightarrow> 0 | Some d \<Rightarrow> d"
    define z where "z = (push_bit 18 (ucast (base64_ascii_to_bin a)) OR push_bit 12 (ucast (base64_ascii_to_bin b)) OR
        push_bit 6 (ucast (base64_ascii_to_bin c)) OR ucast (base64_ascii_to_bin d) :: u32)"
    have u: "unat (base64_ascii_to_bin x) = ?v x" "?v x < 64" if "x \<in> {a, b, c, d}" for x
      using False that ascii_to_bin_valid(2) [of x] by (auto split: option.splits dest: b64_value_less)
    have w: "unat z = ((?v a * 64 + ?v b) * 64 + ?v c) * 64 + ?v d"
      using u unfolding z_def by (subst quad_word) auto
    define bs where "bs = be_bytes 3 (unat z)"
    have valid: "(x = 0x3d) = (b64_value x = None)" if "x \<in> {a, b, c, d}" for x
      using False that ascii_to_bin_valid(1) [of x] by auto
    have valid: "(a = 0x3d) = (b64_value a = None)" "(b = 0x3d) = (b64_value b = None)"
      "(c = 0x3d) = (b64_value c = None)" "(d = 0x3d) = (b64_value d = None)" by (rule valid, simp)+
    have q: "quad_value [a, b, c, d] =
        (if a = 0x3d \<or> b = 0x3d \<or> (c = 0x3d \<and> d \<noteq> 0x3d) then None
         else if c = 0x3d then Some (take 1 bs) else if d = 0x3d then Some (take 2 bs) else Some bs)"
      by (cases "b64_value a"; cases "b64_value b"; cases "b64_value c"; cases "b64_value d")
        (simp_all add: bs_def w valid)
    have bs: "[ucast (drop_bit 16 z), ucast (drop_bit 8 z), ucast z] = bs"
      unfolding bs_def by (rule three_bytes)
    have take: "[ucast (drop_bit 16 z), ucast (drop_bit 8 z)] = take 2 bs" "[ucast (drop_bit 16 z)] = take 1 bs"
      unfolding bs [symmetric] by simp_all
    have len: "length bs = 3" by (simp add: bs_def)
    have "base64_decode_quad m out src =
        (if a = 0x3d \<or> b = 0x3d \<or> (c = 0x3d \<and> d \<noteq> 0x3d) then (None, m)
         else if c = 0x3d then (Some 1, mem_write m out (take 1 bs))
         else if d = 0x3d then (Some 2, mem_write m out (take 2 bs)) else (Some 3, mem_write m out bs))"
      using False
      unfolding src base64_decode_quad_def Let_def nth_Cons_0 nth_Cons_Suc One_nat_def numeral_2_eq_2 numeral_3_eq_3
        z_def [symmetric] bs take [unfolded One_nat_def numeral_2_eq_2]
      by simp
    then show ?thesis using q len by (simp add: src)
  qed
qed

lemma quad_value_length: "quad_value q = Some bs \<Longrightarrow> 1 \<le> length bs \<and> length bs \<le> 3"
  by (cases q rule: quad_value.cases) (auto split: option.splits if_splits)

text \<open>Decoding an encoded group.\<close>

lemma quad_digits: "v < 2 ^ 24 \<Longrightarrow> ((v div 2 ^ 18 mod 64 * 64 + v div 2 ^ 12 mod 64) * 64 + v div 2 ^ 6 mod 64) * 64 + v mod 64 = (v :: nat)"
proof -
  assume v: "v < 2 ^ 24"
  have "v div 2 ^ 12 = v div 2 ^ 6 div 64" "v div 2 ^ 18 = v div 2 ^ 6 div 64 div 64" "v div 2 ^ 6 = v div 64"
    by (simp_all add: div_mult2_eq [symmetric])
  moreover have "v div 64 div 64 div 64 < 64" using v by (simp add: div_mult2_eq [symmetric] less_mult_imp_div_less)
  ultimately show ?thesis by simp
qed

lemma quad_value_char:
  assumes "v < 2 ^ 24"
  shows "quad_value (b64_quad 4 v) = Some (be_bytes 3 v)"
    and "v mod 64 = 0 \<Longrightarrow> quad_value (b64_quad 3 v @ [0x3d]) = Some (take 2 (be_bytes 3 v))"
    and "v mod 4096 = 0 \<Longrightarrow> quad_value (b64_quad 2 v @ [0x3d, 0x3d]) = Some (take 1 (be_bytes 3 v))"
proof -
  note d = quad_digits [OF assms]
  let ?p = "(v div 2 ^ 18 mod 64 * 64 + v div 2 ^ 12 mod 64) * 64"
  have "quad_value (b64_quad 4 v) = Some (be_bytes 3 ((?p + v div 2 ^ 6 mod 64) * 64 + v mod 64))"
    by (simp add: b64_quad_def b64_value_char)
  then show "quad_value (b64_quad 4 v) = Some (be_bytes 3 v)" unfolding d .
  have three: "quad_value (b64_quad 3 v @ [0x3d]) = Some (take 2 (be_bytes 3 ((?p + v div 2 ^ 6 mod 64) * 64)))"
    by (simp add: b64_quad_def b64_value_char)
  show "quad_value (b64_quad 3 v @ [0x3d]) = Some (take 2 (be_bytes 3 v))" if "v mod 64 = 0"
  proof -
    have "(?p + v div 2 ^ 6 mod 64) * 64 = v" using d that by linarith
    then show ?thesis using three by metis
  qed
  have two: "quad_value (b64_quad 2 v @ [0x3d, 0x3d]) = Some (take 1 (be_bytes 3 (?p * 64)))"
    by (simp add: b64_quad_def b64_value_char)
  show "quad_value (b64_quad 2 v @ [0x3d, 0x3d]) = Some (take 1 (be_bytes 3 v))" if m: "v mod 4096 = 0"
  proof -
    have "v mod (64 * 64) = 64 * (v div 64 mod 64) + v mod 64" by (rule mod_mult2_eq)
    then have z: "v mod 64 = 0" "v div 2 ^ 6 mod 64 = 0" using m by simp_all
    have "?p * 64 = v" using d unfolding z by (simp only: add_0_right)
    then show ?thesis using two by metis
  qed
qed

lemma group_bytes:
  "quad_value (b64_quad 4 (be_val [a, b, c])) = Some [a, b, c]"
  "quad_value (b64_quad 3 (be_val [a, b, 0]) @ [0x3d]) = Some [a, b]"
  "quad_value (b64_quad 2 (be_val [a, 0, 0]) @ [0x3d, 0x3d]) = Some [a]"
proof -
  have less: "be_val [a, b, c] < 2 ^ 24" for a b c using be_val_less [of "[a, b, c]"] by simp
  have inv: "be_bytes 3 (be_val [a, b, c]) = [a, b, c]" for a b c
    using be_bytes_be_val [of "[a, b, c]"] unfolding numeral_3_eq_3 by (simp del: be_bytes.simps)
  show "quad_value (b64_quad 4 (be_val [a, b, c])) = Some [a, b, c]"
    using quad_value_char(1) [OF less] by (simp add: inv)
  have "be_val [a, b, 0] mod 64 = 0" "be_val [a, 0, 0] mod 4096 = 0"
    by (simp_all add: be_val_Cons)
  then show "quad_value (b64_quad 3 (be_val [a, b, 0]) @ [0x3d]) = Some [a, b]"
    "quad_value (b64_quad 2 (be_val [a, 0, 0]) @ [0x3d, 0x3d]) = Some [a]"
    using quad_value_char(2,3) [OF less] by (simp_all add: inv)
qed

section \<open>The block decoder\<close>

fun b64_decode :: "bytes \<Rightarrow> bytes option" where
  "b64_decode [] = Some []"
| "b64_decode (a # b # c # d # r) =
     (case quad_value [a, b, c, d] of
        None \<Rightarrow> None
      | Some bs \<Rightarrow> if length bs = 3 \<or> r = [] then map_option (\<lambda>x. bs @ x) (b64_decode r) else None)"
| "b64_decode _ = None"

theorem b64_decode_b64: "b64_decode (b64 x) = Some x"
proof (induction x rule: b64.induct)
  case (2 a)
  then show ?case using group_bytes(3) [of a] by (simp add: b64_quad_def)
next
  case (3 a b)
  then show ?case using group_bytes(2) [of a b] by (simp add: b64_quad_def)
next
  case (4 a b c r)
  then show ?case using group_bytes(1) [of a b c] by (simp add: b64_quad_def)
qed simp

lemma b64_decode_length: "b64_decode s = Some x \<Longrightarrow> length s mod 4 = 0 \<and> length x \<le> length s div 4 * 3"
proof (induction s arbitrary: x rule: b64_decode.induct)
  case (2 a b c d r)
  then obtain bs y where y: "quad_value [a, b, c, d] = Some bs" "b64_decode r = Some y" "x = bs @ y"
    by (auto split: option.splits if_splits)
  with "2.IH" [OF y(1)] 2(2) have "length r mod 4 = 0 \<and> length y \<le> length r div 4 * 3"
    by (auto split: option.splits if_splits)
  with y quad_value_length [OF y(1)] show ?case by auto
qed simp_all

lemma decode_base64_loop_decode:
  "p \<le> length m \<Longrightarrow> i \<le> n \<Longrightarrow> n \<le> length src \<Longrightarrow> (n - i) mod 4 = 0 \<Longrightarrow>
   (case decode_base64_loop m p src n i cnt of (r, m') \<Rightarrow>
      case b64_decode (take (n - i) (drop i src)) of
        None \<Rightarrow> r = None
      | Some x \<Rightarrow> r = Some (cnt + length x) \<and> m' = mem_write m p x)"
proof (induction "n - i" arbitrary: m p i cnt rule: less_induct)
  case less
  show ?case
  proof (cases "i < n")
    case False
    then show ?thesis by (simp add: decode_base64_loop.simps)
  next
    case True
    with less.prems(4) have i4: "i + 4 \<le> n" by presburger
    then obtain a b c d r where s: "drop i src = a # b # c # d # r"
      using list4 [of "drop i src"] less.prems(3) by fastforce
    have r: "r = drop (i + 4) src" using arg_cong [OF s, of "drop 4"] by (simp add: add.commute)
    have tk: "take (n - i) (drop i src) = a # b # c # d # take (n - (i + 4)) r"
    proof -
      have "n - i = Suc (Suc (Suc (Suc (n - (i + 4)))))" using i4 by linarith
      then show ?thesis by (simp only: s take_Suc_Cons)
    qed
    have q: "base64_decode_quad m p (drop i src) =
       (case quad_value [a, b, c, d] of None \<Rightarrow> (None, m) | Some bs \<Rightarrow> (Some (length bs), mem_write m p bs))"
      using decode_quad [of "drop i src" m p] i4 less.prems(3) by (simp add: s)
    show ?thesis
    proof (cases "quad_value [a, b, c, d]")
      case None
      then show ?thesis unfolding tk using True q by (subst decode_base64_loop.simps) simp
    next
      case (Some bs)
      have last: "take (n - (i + 4)) r = [] \<longleftrightarrow> i = n - 4" using i4 less.prems(3) r by auto
      have IH: "case decode_base64_loop (mem_write m p bs) (p + length bs) src n (i + 4) (cnt + length bs) of (r', m') \<Rightarrow>
          case b64_decode (take (n - (i + 4)) (drop (i + 4) src)) of
            None \<Rightarrow> r' = None
          | Some x \<Rightarrow> r' = Some (cnt + length bs + length x) \<and> m' = mem_write (mem_write m p bs) (p + length bs) x"
        by (rule less.hyps) (use i4 less.prems in \<open>auto simp: mem_write_def\<close>, presburger)
      have wr: "mem_write (mem_write m p bs) (p + length bs) x = mem_write m p (bs @ x)" for x
        using mem_write_over [OF less.prems(1), of "[]" x bs] by simp
      show ?thesis
        unfolding tk using True q Some IH last
        by (subst decode_base64_loop.simps)
          (auto simp: r wr add.assoc split: option.splits prod.splits)
    qed
  qed
qed

theorem decode_base64:
  assumes "n \<le> length src" and "n div 4 * 3 \<le> max_out"
  shows "case EVP_DecodeBase64 m max_out src n of (r, m') \<Rightarrow>
      case b64_decode (take n src) of
        None \<Rightarrow> r = None
      | Some x \<Rightarrow> r = Some (length x) \<and> m' = mem_write m 0 x"
proof (cases "n mod 4 = 0")
  case True
  then show ?thesis
    using decode_base64_loop_decode [of 0 m 0 n src 0] assms
    by (cases "b64_decode (take n src)") (simp_all add: EVP_DecodeBase64_def EVP_DecodedLength_def)
next
  case False
  then have "b64_decode (take n src) = None"
    using b64_decode_length [of "take n src"] assms by (cases "b64_decode (take n src)") (auto simp: min_absorb2)
  then show ?thesis using False by (simp add: EVP_DecodeBase64_def)
qed

section \<open>The streaming decoder\<close>

text \<open>
  The decoder as a machine on characters: the group collected so far and whether padding has been
  seen. It gives the bytes, the group that is left, and the flag, or nothing where the input is
  rejected.
\<close>

definition is_space :: "u8 \<Rightarrow> bool" where
  "is_space c \<longleftrightarrow> c \<in> {0x20, 0x09, 0x0d, 0x0a}"

fun dstream :: "bytes \<Rightarrow> bool \<Rightarrow> bytes \<Rightarrow> (bytes \<times> bytes \<times> bool) option" where
  "dstream p eof [] = Some ([], p, eof)"
| "dstream p eof (c # cs) =
     (if is_space c then dstream p eof cs
      else if eof then None
      else if length p = 3 then
        (case quad_value (p @ [c]) of
           None \<Rightarrow> None
         | Some bs \<Rightarrow> map_option (\<lambda>(x, r). (bs @ x, r)) (dstream [] (length bs < 3) cs))
      else dstream (p @ [c]) eof cs)"

lemma dstream_append:
  "dstream p e (xs @ ys) =
   (case dstream p e xs of
      None \<Rightarrow> None
    | Some (x, p', e') \<Rightarrow> map_option (\<lambda>(y, r). (x @ y, r)) (dstream p' e' ys))"
proof (induction p e xs rule: dstream.induct)
  case (1 p eof)
  show ?case by (cases "dstream p eof ys") auto
next
  case (2 p eof c cs)
  show ?case
  proof (cases "is_space c \<or> eof \<or> length p \<noteq> 3")
    case True
    then show ?thesis using 2(1,3) by auto
  next
    case False
    show ?thesis
    proof (cases "quad_value (p @ [c])")
      case None
      then show ?thesis using False by simp
    next
      case (Some bs)
      have IH: "dstream [] (length bs < 3) (cs @ ys) =
         (case dstream [] (length bs < 3) cs of
            None \<Rightarrow> None
          | Some (x, p', e') \<Rightarrow> map_option (\<lambda>(y, r). (x @ y, r)) (dstream p' e' ys))"
        using 2(2) False Some by blast
      then show ?thesis using False Some
        by (auto simp: map_option_case split: option.splits prod.splits)
    qed
  qed
qed

lemma dstream_length:
  "dstream p e cs = Some (x, p', e') \<Longrightarrow> length p < 4 \<Longrightarrow>
   length x + length p' \<le> length p + length cs \<and> length p' < 4"
proof (induction p e cs arbitrary: x p' e' rule: dstream.induct)
  case (2 p eof c cs)
  show ?case
  proof (cases "is_space c \<or> eof \<or> length p \<noteq> 3")
    case True
    have "\<not> is_space c \<longrightarrow> \<not> eof" using "2.prems"(1) by auto
    moreover have "length p < 3" if "\<not> is_space c" "\<not> eof" using that True "2.prems"(2) by linarith
    ultimately show ?thesis using 2(1) [of x p' e'] 2(3) [of x p' e'] "2.prems" True by (cases "is_space c") auto
  next
    case False
    then obtain bs y where b: "quad_value (p @ [c]) = Some bs" "dstream [] (length bs < 3) cs = Some (y, p', e')"
      "x = bs @ y"
      using "2.prems" by (auto split: option.splits)
    have "length y + length p' \<le> length ([] :: bytes) + length cs \<and> length p' < 4"
      using 2(2) [OF _ _ _ b(1) b(2)] False by simp
    then show ?thesis using b quad_value_length [OF b(1)] False by simp
  qed
qed simp

definition dec_ok :: "evp_encode_ctx \<Rightarrow> bool" where
  "dec_ok ctx \<longleftrightarrow> length (ctx_data ctx) = 48 \<and> data_used ctx < 4"

lemma decode_update_loop_stream:
  assumes "dec_ok ctx" and "p \<le> length m"
  shows "case decode_update_loop ctx m p cnt cs of (r, ctx', m') \<Rightarrow>
     case dstream (pending ctx) (eof_seen ctx) cs of
       None \<Rightarrow> r = None \<and> error_encountered ctx'
     | Some (x, p', e') \<Rightarrow> r = Some (cnt + length x) \<and> m' = mem_write m p x \<and> dec_ok ctx' \<and>
         pending ctx' = p' \<and> eof_seen ctx' = e' \<and> error_encountered ctx' = error_encountered ctx"
  using assms
proof (induction cs arbitrary: ctx m p cnt)
  case Nil
  then show ?case by simp
next
  case (Cons c cs)
  have ctx: "length (ctx_data ctx) = 48" "data_used ctx < 4" using Cons.prems by (auto simp: dec_ok_def)
  have lp: "length (pending ctx) = data_used ctx" using ctx by (simp add: pending_def)
  let ?c1 = "ctx\<lparr>ctx_data := (ctx_data ctx)[data_used ctx := c], data_used := data_used ctx + 1\<rparr>"
  have p1: "pending ?c1 = pending ctx @ [c]"
    using ctx by (simp add: pending_def take_Suc_conv_app_nth)
  consider (space) "is_space c" | (eof) "\<not> is_space c" "eof_seen ctx"
    | (more) "\<not> is_space c" "\<not> eof_seen ctx" "data_used ctx < 3"
    | (quad) "\<not> is_space c" "\<not> eof_seen ctx" "data_used ctx = 3"
    using ctx by linarith
  then show ?case
  proof cases
    case space
    then show ?thesis using Cons.IH [OF Cons.prems] by (simp add: is_space_def)
  next
    case eof
    then show ?thesis by (simp add: is_space_def)
  next
    case more
    then have "dec_ok ?c1" using ctx by (simp add: dec_ok_def)
    from Cons.IH [OF this Cons.prems(2), of cnt, unfolded p1] more lp show ?thesis
      by (auto simp: is_space_def Let_def split: prod.splits option.splits)
  next
    case quad
    have four: "take 4 (ctx_data ?c1) = pending ctx @ [c]" using p1 quad by (simp add: pending_def)
    have q: "base64_decode_quad m p (ctx_data ?c1) =
       (case quad_value (pending ctx @ [c]) of None \<Rightarrow> (None, m) | Some bs \<Rightarrow> (Some (length bs), mem_write m p bs))"
      using decode_quad [of "ctx_data ?c1" m p] ctx unfolding four by simp
    show ?thesis
    proof (cases "quad_value (pending ctx @ [c])")
      case None
      then show ?thesis using quad q lp by (simp add: is_space_def Let_def)
    next
      case (Some bs)
      let ?c2 = "?c1\<lparr>data_used := 0, eof_seen := (if length bs < 3 then True else eof_seen ?c1)\<rparr>"
      have c2: "dec_ok ?c2" "pending ?c2 = []" "eof_seen ?c2 = (length bs < 3)"
        using ctx quad by (simp_all add: dec_ok_def pending_def)
      have wr: "mem_write (mem_write m p bs) (p + length bs) x = mem_write m p (bs @ x)" for x
        using mem_write_over [OF Cons.prems(2), of "[]" x bs] by simp
      have "p + length bs \<le> length (mem_write m p bs)" using Cons.prems(2) by (simp add: mem_write_def)
      from Cons.IH [OF c2(1) this, of "cnt + length bs"] show ?thesis
        using quad q Some lp c2 wr
        by (auto simp: is_space_def Let_def add.assoc split: prod.splits option.splits)
    qed
  qed
qed

theorem decode_update:
  assumes "dec_ok ctx" and "\<not> error_encountered ctx" and "n \<le> length src" and "n + 3 \<le> INT_MAX"
  shows "case EVP_DecodeUpdate ctx m src n of (ret, out_len, ctx', m') \<Rightarrow>
     case dstream (pending ctx) (eof_seen ctx) (take n src) of
       None \<Rightarrow> ret = - 1 \<and> out_len = 0 \<and> error_encountered ctx'
     | Some (x, p', e') \<Rightarrow> ret = (if e' then 0 else 1) \<and> out_len = length x \<and> m' = mem_write m 0 x \<and>
         dec_ok ctx' \<and> pending ctx' = p' \<and> eof_seen ctx' = e' \<and> \<not> error_encountered ctx'"
proof -
  have lp: "length (pending ctx) < 4" using assms(1) by (simp add: dec_ok_def pending_def)
  have small: "length x \<le> INT_MAX" if "dstream (pending ctx) (eof_seen ctx) (take n src) = Some (x, p', e')" for x p' e'
    using dstream_length [OF that lp] assms(3,4) lp by simp
  show ?thesis
    using decode_update_loop_stream [OF assms(1), of 0 m 0 "take n src"] assms(2) small
    by (auto simp: EVP_DecodeUpdate_def not_less split: prod.splits option.splits)
qed

text \<open>A caller that decodes its input in pieces and stops at the first error.\<close>

fun decode_pieces :: "bytes \<Rightarrow> evp_encode_ctx \<Rightarrow> bytes list \<Rightarrow> bytes option" where
  "decode_pieces m ctx [] = (if fst (EVP_DecodeFinal ctx) = 1 then Some [] else None)"
| "decode_pieces m ctx (x # xs) =
     (case EVP_DecodeUpdate ctx m x (length x) of
        (ret, n, ctx1, m1) \<Rightarrow>
          (if ret = - 1 then None else map_option (\<lambda>y. take n m1 @ y) (decode_pieces m ctx1 xs)))"

theorem decode_pieces_stream:
  assumes "dec_ok ctx" and "\<not> error_encountered ctx" and "\<forall>x \<in> set xs. length x \<le> 2 ^ 30"
  shows "decode_pieces m ctx xs =
     (case dstream (pending ctx) (eof_seen ctx) (concat xs) of
        Some (x, [], _) \<Rightarrow> Some x | _ \<Rightarrow> None)"
  using assms
proof (induction xs arbitrary: ctx)
  case Nil
  have "pending ctx = [] \<longleftrightarrow> data_used ctx = 0" using Nil(1) by (auto simp: dec_ok_def pending_def)
  then show ?case using Nil by (auto simp: EVP_DecodeFinal_def split: list.splits)
next
  case (Cons x xs)
  have "length x + 3 \<le> INT_MAX" using Cons.prems(3) by (auto simp: INT_MAX_def)
  note u = decode_update [OF Cons.prems(1,2) order_refl this, of m]
  obtain ret n ctx' m' where r: "EVP_DecodeUpdate ctx m x (length x) = (ret, n, ctx', m')" by (metis prod_cases4)
  show ?case
  proof (cases "dstream (pending ctx) (eof_seen ctx) x")
    case None
    then show ?thesis using u r dstream_append [of "pending ctx" "eof_seen ctx" x "concat xs"] by simp
  next
    case (Some y)
    then obtain o1 p1 e1 where y: "dstream (pending ctx) (eof_seen ctx) x = Some (o1, p1, e1)" by (cases y) auto
    have c: "ret \<noteq> - 1" "take n m' = o1" "dec_ok ctx'" "pending ctx' = p1" "eof_seen ctx' = e1" "\<not> error_encountered ctx'"
      using u r y take_written [of o1 m "[]"] by (auto split: if_splits)
    have "decode_pieces m ctx' xs =
       (case dstream p1 e1 (concat xs) of Some (x, [], _) \<Rightarrow> Some x | _ \<Rightarrow> None)"
      using Cons.IH [OF c(3,6)] Cons.prems(3) c by simp
    then show ?thesis
      using r c(1,2) y dstream_append [of "pending ctx" "eof_seen ctx" x "concat xs"]
      by (auto split: option.splits prod.splits list.splits)
  qed
qed

text \<open>Decoding what the encoder writes.\<close>

lemma dstream_quad:
  assumes "length q = 4" and "quad_value q = Some bs" and "\<forall>c \<in> set q. \<not> is_space c"
  shows "dstream [] False (q @ cs) = map_option (\<lambda>(x, r). (bs @ x, r)) (dstream [] (length bs < 3) cs)"
proof -
  obtain a b c d r where "q = a # b # c # d # r" using list4 [of q] assms(1) by auto
  then have "q = [a, b, c, d]" using assms(1) by simp
  then show ?thesis using assms(2,3) by simp
qed

lemma is_space_pad: "\<not> is_space 0x3d"
  by (simp add: is_space_def)

lemma char_not_space: "\<not> is_space (b64_char n)"
  using b64_value_char(3) [of n] by (simp add: is_space_def)

lemma dstream_b64:
  "dstream [] False (b64 x @ cs) = map_option (\<lambda>(y, r). (x @ y, r)) (dstream [] (length x mod 3 \<noteq> 0) cs)"
proof (induction x rule: b64.induct)
  case 1
  show ?case by (cases "dstream [] False cs") auto
next
  case (2 a)
  have "dstream [] False ((b64_quad 2 (be_val [a, 0, 0]) @ [0x3d, 0x3d]) @ cs) =
      map_option (\<lambda>(x, r). ([a] @ x, r)) (dstream [] (length [a] < 3) cs)"
    by (rule dstream_quad [OF _ group_bytes(3)]) (auto simp: b64_quad_def is_space_pad char_not_space)
  then show ?case by simp
next
  case (3 a b)
  have "dstream [] False ((b64_quad 3 (be_val [a, b, 0]) @ [0x3d]) @ cs) =
      map_option (\<lambda>(x, r). ([a, b] @ x, r)) (dstream [] (length [a, b] < 3) cs)"
    by (rule dstream_quad [OF _ group_bytes(2)]) (auto simp: b64_quad_def is_space_pad char_not_space)
  then show ?case by simp
next
  case (4 a b c r)
  have "dstream [] False (b64_quad 4 (be_val [a, b, c]) @ (b64 r @ cs)) =
      map_option (\<lambda>(x, r). ([a, b, c] @ x, r)) (dstream [] (length [a, b, c] < 3) (b64 r @ cs))"
    by (rule dstream_quad [OF _ group_bytes(1)]) (auto simp: b64_quad_def char_not_space)
  moreover have "Suc (Suc (Suc (length r))) mod 3 = length r mod 3" by presburger
  ultimately show ?case using 4 by (cases "dstream [] (length r mod 3 \<noteq> 0) cs") auto
qed

lemma dstream_full_lines:
  "dstream [] False (full_lines x @ cs) =
   map_option (\<lambda>(y, r). (take (48 * (length x div 48)) x @ y, r)) (dstream [] False cs)"
proof (induction x rule: full_lines.induct)
  case (1 x)
  show ?case
  proof (cases "48 \<le> length x")
    case True
    let ?k = "48 * ((length x - 48) div 48)"
    have k: "48 * (length x div 48) = 48 + ?k" using True by (simp add: le_div_geq)
    have "full_lines x @ cs = b64 (take 48 x) @ 0x0a # full_lines (drop 48 x) @ cs"
      using True by (subst full_lines.simps) simp
    moreover have "length (take 48 x) mod 3 = 0" using True by (simp add: min_absorb2)
    ultimately have "dstream [] False (full_lines x @ cs) =
        map_option (\<lambda>(y, r). (take 48 x @ y, r)) (dstream [] False (full_lines (drop 48 x) @ cs))"
      using dstream_b64 [of "take 48 x" "0x0a # full_lines (drop 48 x) @ cs"] by (simp add: is_space_def)
    then show ?thesis
      using 1 [OF True] unfolding k take_add
      by (cases "dstream [] False cs") auto
  next
    case False
    then show ?thesis by (cases "dstream [] False cs") (auto simp: full_lines_short)
  qed
qed

theorem dstream_pem_lines: "dstream [] False (pem_lines x) = Some (x, [], length x mod 3 \<noteq> 0)"
proof -
  have m: "length (rest_line x) mod 3 = length x mod 3" by (simp add: length_rest_line mod_mod_cancel)
  have "dstream [] False (if rest_line x = [] then [] else b64 (rest_line x) @ [0x0a]) =
      Some (rest_line x, [], length (rest_line x) mod 3 \<noteq> 0)"
    using dstream_b64 [of "rest_line x" "[0x0a]"] by (simp add: is_space_def)
  then show ?thesis
    unfolding pem_lines_def dstream_full_lines using m by (simp add: rest_line_def)
qed

text \<open>The two streams are inverse, however their inputs are cut.\<close>

lemma decode_init: "dec_ok EVP_DecodeInit" "pending EVP_DecodeInit = []" "\<not> eof_seen EVP_DecodeInit"
  "\<not> error_encountered EVP_DecodeInit"
  by (simp_all add: dec_ok_def pending_def EVP_DecodeInit_def SIZEOF_DATA_def)

lemma pieces_round_trip:
  assumes "\<forall>x \<in> set xs. length x \<le> 2 ^ 30" and "\<forall>y \<in> set ys. length y \<le> 2 ^ 30"
    and "concat ys = encode_pieces m EVP_EncodeInit xs"
  shows "decode_pieces m' EVP_DecodeInit ys = Some (concat xs)"
proof -
  have "concat ys = pem_lines (concat xs)"
    using assms(3) encode_pieces_lines [OF encode_init(1) assms(1)] by (simp add: encode_init)
  then show ?thesis
    using decode_pieces_stream [OF decode_init(1,4) assms(2), of m'] by (simp add: decode_init dstream_pem_lines)
qed

section \<open>The deprecated block decoder\<close>

lemma trim_leading_eq:
  "n \<le> length src \<Longrightarrow> n = 0 \<or> src ! 0 \<notin> {0x20, 0x09} \<Longrightarrow> trim_leading src n = (src, n)"
  by (cases n) auto

lemma trim_trailing_eq: "n = 0 \<or> src ! (n - 1) \<notin> {0x20, 0x09, 0x0d, 0x0a} \<Longrightarrow> trim_trailing src n = n"
  by (cases n) auto

lemma trim_leading_spaces:
  "set w \<subseteq> {0x20, 0x09} \<Longrightarrow> trim_leading (w @ src) (length w + n) = trim_leading src n"
  by (induction w) auto

lemma trim_trailing_spaces:
  "set w \<subseteq> {0x20, 0x09, 0x0d, 0x0a} \<Longrightarrow> trim_trailing (src @ w) (length src + length w) = trim_trailing (src @ w) (length src)"
proof (induction w arbitrary: src)
  case (Cons c w)
  have "trim_trailing ((src @ [c]) @ w) (length (src @ [c]) + length w) = trim_trailing ((src @ [c]) @ w) (length (src @ [c]))"
    using Cons by (intro Cons.IH) auto
  moreover have "(src @ c # w) ! length src = c" by simp
  ultimately show ?case using Cons.prems by simp
qed simp

lemma b64_Nil_iff [simp]: "b64 x = [] \<longleftrightarrow> x = []"
  by (cases x rule: b64.cases) (simp_all add: b64_quad_def)

lemma b64_first: "x \<noteq> [] \<Longrightarrow> \<not> is_space (b64 x ! 0)"
  by (cases x rule: b64.cases) (simp_all add: b64_quad_def char_not_space)

lemma b64_last: "x \<noteq> [] \<Longrightarrow> \<not> is_space (last (b64 x))"
proof (induction x rule: b64.induct)
  case (4 a b c r)
  then show ?case by (cases "r = []") (simp_all add: b64_quad_def char_not_space)
qed (simp_all add: is_space_pad)

lemma pad_zeros_eq: "pad_zeros m n =
   (3 * ((n + 2) div 3), mem_write m n (replicate (3 * ((n + 2) div 3) - n) 0))" if "n \<le> length m"
proof -
  have wr: "mem_write (mem_write m n [0]) (n + 1) [0] = mem_write m n [0, 0]"
    using mem_write_over [OF that, of "[]" "[0]" "[0]"] by simp
  have "\<exists>k. n = 3 * k \<or> n = 3 * k + 1 \<or> n = 3 * k + 2" by presburger
  then consider k where "n = 3 * k" | k where "n = 3 * k + 1" | k where "n = 3 * k + 2" by blast
  then show ?thesis
  proof cases
    case 1
    then show ?thesis by (subst pad_zeros.simps) simp
  next
    case 2
    moreover have "Suc (Suc (3 * k)) mod 3 = 2" by presburger
    ultimately show ?thesis using wr
      by (subst pad_zeros.simps, subst pad_zeros.simps, subst pad_zeros.simps) (simp add: numeral_2_eq_2)
  next
    case 3
    moreover have "Suc (Suc (3 * k)) mod 3 = 2" by presburger
    ultimately show ?thesis by (subst pad_zeros.simps, subst pad_zeros.simps) simp
  qed
qed

lemma trimmed:
  assumes "set w1 \<subseteq> {0x20, 0x09}" and "set w2 \<subseteq> {0x20, 0x09, 0x0d, 0x0a}"
    and "s \<noteq> []" and "\<not> is_space (s ! 0)" and "\<not> is_space (last s)"
  shows "(case trim_leading (w1 @ s @ w2) (length (w1 @ s @ w2)) of (src, n) \<Rightarrow> (src, trim_trailing src n)) =
    (s @ w2, length s)"
proof -
  have "trim_leading (w1 @ s @ w2) (length w1 + length (s @ w2)) = trim_leading (s @ w2) (length (s @ w2))"
    using assms(1) by (rule trim_leading_spaces)
  also have "\<dots> = (s @ w2, length (s @ w2))"
    by (rule trim_leading_eq) (use assms(3,4) in \<open>auto simp: nth_append is_space_def\<close>)
  finally have lead: "trim_leading (w1 @ s @ w2) (length (w1 @ s @ w2)) = (s @ w2, length (s @ w2))" by simp
  have "trim_trailing (s @ w2) (length s + length w2) = trim_trailing (s @ w2) (length s)"
    using assms(2) by (rule trim_trailing_spaces)
  also have "\<dots> = length s"
    by (rule trim_trailing_eq) (use assms(3,5) in \<open>auto simp: nth_append is_space_def last_conv_nth\<close>)
  finally show ?thesis using lead by simp
qed

lemma decode_block_trimmed:
  assumes "set w1 \<subseteq> {0x20, 0x09}" and "set w2 \<subseteq> {0x20, 0x09, 0x0d, 0x0a}" and "x \<noteq> []"
    and "3 * ((length x + 2) div 3) \<le> INT_MAX"
  shows "EVP_DecodeBlock m (w1 @ b64 x @ w2) (length (w1 @ b64 x @ w2)) =
     (int (3 * ((length x + 2) div 3)), mem_write m 0 (x @ replicate (3 * ((length x + 2) div 3) - length x) 0))"
proof -
  note t = trimmed [OF assms(1,2) _ b64_first b64_last, of x]
  let ?n = "length (b64 x)"
  have n: "?n mod 4 = 0" "?n div 4 * 3 = 3 * ((length x + 2) div 3)" by (simp_all add: length_b64)
  have "case EVP_DecodeBase64 m (?n div 4 * 3) (b64 x @ w2) ?n of (r, m') \<Rightarrow>
      r = Some (length x) \<and> m' = mem_write m 0 x"
    using decode_base64 [of ?n "b64 x @ w2" "?n div 4 * 3" m] by (simp add: b64_decode_b64)
  then have d: "EVP_DecodeBase64 m (3 * ((length x + 2) div 3)) (b64 x @ w2) ?n = (Some (length x), mem_write m 0 x)"
    unfolding n by (auto split: prod.splits)
  have p: "pad_zeros (mem_write m 0 x) (length x) = (3 * ((length x + 2) div 3),
      mem_write m 0 (x @ replicate (3 * ((length x + 2) div 3) - length x) 0))"
    using pad_zeros_eq [of "length x" "mem_write m 0 x"] mem_write_over [of 0 m "[]" _ x]
    by (simp add: mem_write_def)
  show ?thesis
    using t assms(3,4) d [unfolded mult.commute [of 3]] p n
    by (auto simp: EVP_DecodeBlock_def EVP_DecodedLength_def Let_def split: prod.splits)
qed

text \<open>A minus behind the data is not stripped.\<close>

lemma decode_block_minus_rejected: "fst (EVP_DecodeBlock m (b64 x @ [0x2d]) (length (b64 x) + 1)) = - 1"
proof -
  have s: "\<not> is_space ((b64 x @ [0x2d]) ! 0)" "\<not> is_space (last (b64 x @ [0x2d]))"
    using b64_first [of x] by (cases "x = []"; simp add: nth_append is_space_def)+
  have "(length (b64 x) + 1) mod 4 \<noteq> 0" by (simp add: length_b64)
  then show ?thesis
    using trimmed [of "[]" "[]" "b64 x @ [0x2d]", OF _ _ _ s]
    by (auto simp: EVP_DecodeBlock_def EVP_DecodedLength_def Let_def split: prod.splits)
qed

end
