(* ===== verification/Stack.thy ===== *)
theory Stack
  imports Mem
begin

text \<open>
  \<open>crypto/stack/stack.c\<close>: the array of pointers \<open>_STACK\<close>. A pointer is an option (\<open>None\<close> is
  \<open>NULL\<close>), and so is the stack an operation is called with. Function pointers are values of a type
  \<open>'c\<close>; what calling one does is an argument (\<open>call_cmp_func\<close> and the like, as in the code). The
  lemmas are in \<open>Stack_Spec\<close>.
\<close>

section \<open>Arrays on the heap\<close>

text \<open>
  Typed views of \<open>OPENSSL_malloc\<close> and \<open>OPENSSL_realloc\<close>: \<open>junk i\<close> is what the \<open>i\<close>-th element
  holds before it is written, \<open>width\<close> the size of an element.
\<close>

definition array_malloc :: "libc_malloc \<times> (nat \<Rightarrow> 'x) \<Rightarrow> nat \<Rightarrow> nat \<Rightarrow> 'x list option" where
  "array_malloc env width n =
     map_option (\<lambda>b. map (snd env) [0 ..< length b div width]) (heap_malloc (fst env) n)"

definition array_realloc :: "libc_malloc \<times> (nat \<Rightarrow> 'x) \<Rightarrow> nat \<Rightarrow> 'x list option \<Rightarrow> nat \<Rightarrow> 'x list option" where
  "array_realloc env width xs n =
     (case xs of
        None \<Rightarrow> array_malloc env width n
      | Some ys \<Rightarrow>
          map_option (\<lambda>b. take (length b div width) ys @ map (snd env) [length ys ..< length b div width])
            (heap_realloc (fst env) (Some (replicate (width * length ys) 0)) n))"

lemma array_malloc_length:
  "libc_wf (fst env) \<Longrightarrow> 0 < w \<Longrightarrow> w * n \<le> HEAP_LIMIT \<Longrightarrow> array_malloc env w (w * n) = Some xs \<Longrightarrow>
   length xs = n \<and> n \<le> ADDRESS_SPACE div w"
  by (auto simp: array_malloc_def less_eq_div_iff_mult_less_eq mult.commute dest!: heap_malloc_length)

lemma array_realloc_Some:
  assumes "libc_wf (fst env)" and "0 < w" and "w * n \<le> HEAP_LIMIT" and "w * length ys \<le> HEAP_LIMIT"
    and "array_realloc env w (Some ys) (w * n) = Some xs"
  shows "length xs = n \<and> n \<le> ADDRESS_SPACE div w" and "take (min (length ys) n) xs = take (min (length ys) n) ys"
proof -
  obtain b where b: "heap_realloc (fst env) (Some (replicate (w * length ys) 0)) (w * n) = Some b"
    "xs = take (length b div w) ys @ map (snd env) [length ys ..< length b div w]"
    using assms(5) by (auto simp: array_realloc_def)
  have "length b = w * n \<and> w * n \<le> ADDRESS_SPACE"
    using heap_realloc_Some(1) [OF assms(1,3) _ b(1)] assms(4) by simp
  then show "length xs = n \<and> n \<le> ADDRESS_SPACE div w" "take (min (length ys) n) xs = take (min (length ys) n) ys"
    using b(2) assms(2) by (auto simp: less_eq_div_iff_mult_less_eq mult.commute min_def)
qed

interpretation pointers: array_heap "\<lambda>env. libc_wf (fst env)" "HEAP_LIMIT div 8" "ADDRESS_SPACE div 8"
  "\<lambda>env n. array_malloc env 8 (8 * n)" "\<lambda>env xs n. array_realloc env 8 xs (8 * n)"
proof
  show "array_realloc e 8 None (8 * n) = array_malloc e 8 (8 * n)" for e :: "libc_malloc \<times> (nat \<Rightarrow> 'x)" and n
    by (simp add: array_realloc_def)
  have lim: "8 * n \<le> HEAP_LIMIT" if "n \<le> HEAP_LIMIT div 8" for n using that by (simp add: HEAP_LIMIT_def)
  show "length xs = n \<and> n \<le> ADDRESS_SPACE div 8"
    if "libc_wf (fst e)" "n \<le> HEAP_LIMIT div 8" "array_malloc e 8 (8 * n) = Some xs"
    for e :: "libc_malloc \<times> (nat \<Rightarrow> 'x)" and n xs
    using array_malloc_length [OF that(1) _ lim [OF that(2)] that(3)] by simp
  show "length xs = n \<and> n \<le> ADDRESS_SPACE div 8" "take (min (length ys) n) xs = take (min (length ys) n) ys"
    if "libc_wf (fst e)" "n \<le> HEAP_LIMIT div 8" "length ys \<le> HEAP_LIMIT div 8"
      "array_realloc e 8 (Some ys) (8 * n) = Some xs"
    for e :: "libc_malloc \<times> (nat \<Rightarrow> 'x)" and n ys xs
    using array_realloc_Some [OF that(1) _ lim [OF that(2)] lim [OF that(3)] that(4)] by simp_all
qed

section \<open>The stack\<close>

type_synonym 'p ptr = "'p option"

record ('p, 'c) stack =
  num :: nat
  data :: "'p ptr list"
  sorted_flag :: bool
  num_alloc :: nat
  comp :: "'c option"

text \<open>The allocator with the contents of fresh memory.\<close>

type_synonym 'p env = "libc_malloc \<times> (nat \<Rightarrow> 'p ptr)"

definition kMinSize :: nat where
  "kMinSize = 4"

definition SIZEOF_STACK :: nat where
  "SIZEOF_STACK = 40"

definition SIZEOF_PTR :: nat where
  "SIZEOF_PTR = 8"

definition sk_new :: "'p env \<Rightarrow> 'c option \<Rightarrow> ('p, 'c) stack option" where
  "sk_new env cmp =
     (case heap_malloc (fst env) SIZEOF_STACK of
        None \<Rightarrow> None
      | Some _ \<Rightarrow>
          (case array_malloc env SIZEOF_PTR (SIZEOF_PTR * kMinSize) of
             None \<Rightarrow> None
           | Some d \<Rightarrow>
               Some \<lparr>num = 0, data = mem_write d 0 (replicate kMinSize None), sorted_flag = False,
                     num_alloc = kMinSize, comp = cmp\<rparr>))"

definition sk_new_null :: "'p env \<Rightarrow> ('p, 'c) stack option" where
  "sk_new_null env = sk_new env None"

definition sk_num :: "('p, 'c) stack option \<Rightarrow> nat" where
  "sk_num sk = (case sk of None \<Rightarrow> 0 | Some s \<Rightarrow> num s)"

definition sk_zero :: "('p, 'c) stack option \<Rightarrow> ('p, 'c) stack option" where
  "sk_zero sk =
     (case sk of
        None \<Rightarrow> None
      | Some s \<Rightarrow>
          (if num s = 0 then Some s
           else Some (s\<lparr>data := mem_write (data s) 0 (replicate (num s) None), num := 0, sorted_flag := False\<rparr>)))"

definition sk_value :: "('p, 'c) stack option \<Rightarrow> nat \<Rightarrow> 'p ptr" where
  "sk_value sk i = (case sk of None \<Rightarrow> None | Some s \<Rightarrow> if i \<ge> num s then None else data s ! i)"

definition sk_set :: "('p, 'c) stack option \<Rightarrow> nat \<Rightarrow> 'p ptr \<Rightarrow> 'p ptr \<times> ('p, 'c) stack option" where
  "sk_set sk i value =
     (case sk of
        None \<Rightarrow> (None, None)
      | Some s \<Rightarrow> if i \<ge> num s then (None, Some s) else (value, Some (s\<lparr>data := (data s)[i := value]\<rparr>)))"

text \<open>The objects that are released, in order.\<close>

datatype 'p released = Element 'p | Array | Struct

definition sk_free :: "('p, 'c) stack option \<Rightarrow> 'p released list" where
  "sk_free sk = (case sk of None \<Rightarrow> [] | Some s \<Rightarrow> [Array, Struct])"

definition sk_pop_free_ex :: "('p, 'c) stack option \<Rightarrow> 'p released list" where
  "sk_pop_free_ex sk =
     (case sk of
        None \<Rightarrow> []
      | Some s \<Rightarrow>
          concat (map (\<lambda>i. case data s ! i of None \<Rightarrow> [] | Some p \<Rightarrow> [Element p]) [0 ..< num s]) @ sk_free sk)"

definition sk_pop_free :: "('p, 'c) stack option \<Rightarrow> 'p released list" where
  "sk_pop_free sk = sk_pop_free_ex sk"

definition sk_insert ::
    "'p env \<Rightarrow> ('p, 'c) stack option \<Rightarrow> 'p ptr \<Rightarrow> nat \<Rightarrow> nat \<times> ('p, 'c) stack option" where
  "sk_insert env sk p pos =
     (case sk of
        None \<Rightarrow> (0, None)
      | Some s \<Rightarrow>
          (case (if num_alloc s \<le> num s + 1 then
                   (let new_alloc = size_mul (num_alloc s) 2;
                        alloc_size = size_mul new_alloc SIZEOF_PTR;
                        overflow = (new_alloc < num_alloc s \<or> alloc_size div SIZEOF_PTR \<noteq> new_alloc);
                        new_alloc = (if overflow then size_add (num_alloc s) 1 else new_alloc);
                        alloc_size = (if overflow then size_mul new_alloc SIZEOF_PTR else alloc_size)
                    in if new_alloc < num_alloc s \<or> alloc_size div SIZEOF_PTR \<noteq> new_alloc then None
                       else
                         (case array_realloc env SIZEOF_PTR (Some (data s)) alloc_size of
                            None \<Rightarrow> None
                          | Some d \<Rightarrow> Some (s\<lparr>data := d, num_alloc := new_alloc\<rparr>)))
                 else Some s) of
             None \<Rightarrow> (0, Some s)
           | Some s1 \<Rightarrow>
               (let d = (if pos \<ge> num s1 then (data s1)[num s1 := p]
                         else (mem_move (data s1) (pos + 1) pos (num s1 - pos))[pos := p])
                in (num s1 + 1, Some (s1\<lparr>data := d, num := num s1 + 1, sorted_flag := False\<rparr>)))))"

definition sk_delete :: "('p, 'c) stack option \<Rightarrow> nat \<Rightarrow> 'p ptr \<times> ('p, 'c) stack option" where
  "sk_delete sk pos =
     (case sk of
        None \<Rightarrow> (None, None)
      | Some s \<Rightarrow>
          (if pos \<ge> num s then (None, Some s)
           else
             (data s ! pos,
              Some (s\<lparr>data := (if pos \<noteq> num s - 1
                                then mem_move (data s) pos (pos + 1) (num s - pos - 1) else data s),
                      num := num s - 1\<rparr>))))"

definition sk_delete_ptr :: "('p, 'c) stack option \<Rightarrow> 'p ptr \<Rightarrow> 'p ptr \<times> ('p, 'c) stack option" where
  "sk_delete_ptr sk p =
     (case sk of
        None \<Rightarrow> (None, None)
      | Some s \<Rightarrow>
          (case find (\<lambda>i. data s ! i = p) [0 ..< num s] of
             None \<Rightarrow> (None, Some s)
           | Some i \<Rightarrow> sk_delete sk i))"

definition sk_is_sorted :: "('p, 'c) stack option \<Rightarrow> bool" where
  "sk_is_sorted sk = (case sk of None \<Rightarrow> True | Some s \<Rightarrow> sorted_flag s)"

text \<open>The binary search of \<open>sk_find\<close>; \<open>cmp\<close> compares the element sought with one of the stack.\<close>

function sk_find_loop :: "('a \<Rightarrow> int) \<Rightarrow> 'a list \<Rightarrow> nat \<Rightarrow> nat \<Rightarrow> nat option" where
  "sk_find_loop cmp d lo hi =
     (if lo < hi then
        (let mid = lo + (hi - lo - 1) div 2; r = cmp (d ! mid)
         in if r > 0 then sk_find_loop cmp d (mid + 1) hi
            else if r < 0 then sk_find_loop cmp d lo mid
            else if hi - lo = 1 then Some mid
            else sk_find_loop cmp d lo (mid + 1))
      else None)"
  by pat_completeness auto
termination by (relation "measure (\<lambda>(cmp, d, lo, hi). hi - lo)") auto

declare sk_find_loop.simps [simp del]

definition sk_find ::
    "('c \<Rightarrow> 'p ptr \<Rightarrow> 'p ptr \<Rightarrow> int) \<Rightarrow> ('p, 'c) stack option \<Rightarrow> 'p ptr \<Rightarrow> nat option" where
  "sk_find call_cmp_func sk p =
     (case sk of
        None \<Rightarrow> None
      | Some s \<Rightarrow>
          (case comp s of
             None \<Rightarrow> find (\<lambda>i. data s ! i = p) [0 ..< num s]
           | Some c \<Rightarrow>
               (if p = None then None
                else if \<not> sk_is_sorted sk then find (\<lambda>i. call_cmp_func c p (data s ! i) = 0) [0 ..< num s]
                else sk_find_loop (call_cmp_func c p) (data s) 0 (num s))))"

definition sk_shift :: "('p, 'c) stack option \<Rightarrow> 'p ptr \<times> ('p, 'c) stack option" where
  "sk_shift sk =
     (case sk of None \<Rightarrow> (None, None) | Some s \<Rightarrow> if num s = 0 then (None, Some s) else sk_delete sk 0)"

definition sk_push :: "'p env \<Rightarrow> ('p, 'c) stack option \<Rightarrow> 'p ptr \<Rightarrow> nat \<times> ('p, 'c) stack option" where
  "sk_push env sk p = sk_insert env sk p (case sk of None \<Rightarrow> 0 | Some s \<Rightarrow> num s)"

definition sk_pop :: "('p, 'c) stack option \<Rightarrow> 'p ptr \<times> ('p, 'c) stack option" where
  "sk_pop sk =
     (case sk of
        None \<Rightarrow> (None, None) | Some s \<Rightarrow> if num s = 0 then (None, Some s) else sk_delete sk (num s - 1))"

definition sk_dup :: "'p env \<Rightarrow> ('p, 'c) stack option \<Rightarrow> ('p, 'c) stack option" where
  "sk_dup env sk =
     (case sk of
        None \<Rightarrow> None
      | Some s \<Rightarrow>
          (case sk_new env (comp s) of
             None \<Rightarrow> None
           | Some ret \<Rightarrow>
               (case array_realloc env SIZEOF_PTR (Some (data ret)) (size_mul SIZEOF_PTR (num_alloc s)) of
                  None \<Rightarrow> None
                | Some d \<Rightarrow>
                    Some \<lparr>num = num s, data = mem_write d 0 (take (num s) (data s)),
                          sorted_flag = sorted_flag s, num_alloc = num_alloc s, comp = comp s\<rparr>)))"

text \<open>
  \<open>qsort\<close> of the C library is an argument: its order of elements that compare equal is not specified.
\<close>

definition sk_sort ::
    "(('p ptr \<Rightarrow> 'p ptr \<Rightarrow> int) \<Rightarrow> 'p ptr list \<Rightarrow> 'p ptr list) \<Rightarrow> ('c \<Rightarrow> 'p ptr \<Rightarrow> 'p ptr \<Rightarrow> int) \<Rightarrow>
     ('p, 'c) stack option \<Rightarrow> ('p, 'c) stack option" where
  "sk_sort qsort call_cmp_func sk =
     (case sk of
        None \<Rightarrow> None
      | Some s \<Rightarrow>
          (case comp s of
             None \<Rightarrow> Some s
           | Some c \<Rightarrow>
               (if sorted_flag s then Some s
                else
                  Some (s\<lparr>data := (if num s \<ge> 2
                                    then mem_write (data s) 0 (qsort (call_cmp_func c) (take (num s) (data s)))
                                    else data s),
                          sorted_flag := True\<rparr>))))"

definition sk_set_cmp_func :: "('p, 'c) stack \<Rightarrow> 'c option \<Rightarrow> 'c option \<times> ('p, 'c) stack" where
  "sk_set_cmp_func sk cmp =
     (comp sk, sk\<lparr>sorted_flag := (if comp sk \<noteq> cmp then False else sorted_flag sk), comp := cmp\<rparr>)"

text \<open>
  The loop of \<open>sk_deep_copy\<close> from index \<open>i\<close> on. \<open>copy\<close> is the copy function with the state it runs
  in. On a failure the copies made so far are released.
\<close>

function deep_copy_loop ::
    "('s \<Rightarrow> 'p \<Rightarrow> 'p ptr \<times> 's) \<Rightarrow> 's \<Rightarrow> ('p, 'c) stack \<Rightarrow> nat \<Rightarrow>
     ('p, 'c) stack option \<times> 'p released list \<times> 's" where
  "deep_copy_loop copy st ret i =
     (if i < num ret then
        (case data ret ! i of
           None \<Rightarrow> deep_copy_loop copy st ret (i + 1)
         | Some p \<Rightarrow>
             (case copy st p of
                (None, st1) \<Rightarrow>
                  (None,
                   concat (map (\<lambda>j. case data ret ! j of None \<Rightarrow> [] | Some q \<Rightarrow> [Element q]) [0 ..< i]) @
                   sk_free (Some ret), st1)
              | (Some q, st1) \<Rightarrow> deep_copy_loop copy st1 (ret\<lparr>data := (data ret)[i := Some q]\<rparr>) (i + 1)))
      else (Some ret, [], st))"
  by pat_completeness auto
termination by (relation "measure (\<lambda>(copy, st, ret, i). num ret - i)") auto

declare deep_copy_loop.simps [simp del]

definition sk_deep_copy ::
    "'p env \<Rightarrow> ('s \<Rightarrow> 'p \<Rightarrow> 'p ptr \<times> 's) \<Rightarrow> 's \<Rightarrow> ('p, 'c) stack option \<Rightarrow>
     ('p, 'c) stack option \<times> 'p released list \<times> 's" where
  "sk_deep_copy env copy st sk =
     (case sk_dup env sk of
        None \<Rightarrow> (None, [], st)
      | Some ret \<Rightarrow> deep_copy_loop copy st ret 0)"

end
