(* ===== verification/Stack_Spec.thy ===== *)
theory Stack_Spec
  imports Stack Comparator
begin

text \<open>
  What \<open>stack.c\<close> promises: the operations act on the list of elements, the sorted flag is true to
  the list, and \<open>sk_find\<close> finds the first match, by binary search where the flag allows it. The
  one operation that breaks the flag is \<open>sk_set\<close> (and a deep copy whose copies compare otherwise); runs
  record it in a ghost.
\<close>

section \<open>Elements\<close>

definition elements :: "('p, 'c) stack \<Rightarrow> 'p ptr list" where
  "elements s = take (num s) (data s)"

definition sk_wf :: "('p, 'c) stack \<Rightarrow> bool" where
  "sk_wf s \<longleftrightarrow> num s < num_alloc s \<and> num_alloc s = length (data s) \<and> num_alloc s \<le> ADDRESS_SPACE div 8"

lemma length_elements: "sk_wf s \<Longrightarrow> length (elements s) = num s"
  by (simp add: sk_wf_def elements_def)

lemma elements_nth: "sk_wf s \<Longrightarrow> i < num s \<Longrightarrow> elements s ! i = data s ! i"
  by (simp add: sk_wf_def elements_def)

lemma new_elements:
  assumes "libc_wf (fst env)" and "sk_new env cmp = Some s"
  shows "sk_wf s" and "elements s = []" and "comp s = cmp" and "\<not> sorted_flag s"
proof -
  obtain d where d: "array_malloc env 8 (8 * 4) = Some d"
    "s = \<lparr>num = 0, data = mem_write d 0 (replicate 4 None), sorted_flag = False, num_alloc = 4, comp = cmp\<rparr>"
    using assms(2) by (auto simp: sk_new_def SIZEOF_PTR_def kMinSize_def split: option.splits)
  have "length d = 4" using array_malloc_length [OF assms(1) _ _ d(1)] by (simp add: HEAP_LIMIT_def)
  then show "sk_wf s" "elements s = []" "comp s = cmp" "\<not> sorted_flag s"
    by (simp_all add: d(2) sk_wf_def elements_def ADDRESS_SPACE_def)
qed

text \<open>Moving the tail of an array by one place.\<close>

lemma take_insert:
  assumes "n < length d" and "i < n"
  shows "take (Suc n) ((mem_move d (i + 1) i (n - i))[i := p]) = take i d @ p # take (n - i) (drop i d)"
proof -
  have "mem_move d (i + 1) i (n - i) = take (Suc i) d @ take (n - i) (drop i d) @ drop (Suc n) d"
    using assms by (simp add: mem_move_def mem_write_def min_absorb2)
  then show ?thesis using assms by (simp add: list_update_append take_Suc_conv_app_nth min_absorb2 Suc_diff_le)
qed

lemma take_delete:
  assumes "n \<le> length d" and "i < n"
  shows "take (n - 1) (mem_move d i (i + 1) (n - i - 1)) = take i d @ take (n - i - 1) (drop (i + 1) d)"
  using assms by (simp add: mem_move_def mem_write_def min_absorb2)

lemma insert_elements:
  assumes wf: "sk_wf s" and libc: "libc_wf (fst env)"
  obtains (ok) s' where "sk_insert env (Some s) p i = (num s + 1, Some s')" "sk_wf s'"
      "elements s' = take i (elements s) @ p # drop i (elements s)" "comp s' = comp s" "\<not> sorted_flag s'"
  | (fail) "sk_insert env (Some s) p i = (0, Some s)" "num_alloc s \<le> num s + 1"
proof -
  have place: thesis
    if s1: "num s1 = num s" "comp s1 = comp s" "num s < length (data s1)" "num s + 1 < num_alloc s1"
      "num_alloc s1 = length (data s1)" "num_alloc s1 \<le> ADDRESS_SPACE div 8" "take (num s) (data s1) = elements s"
      and step: "sk_insert env (Some s) p i =
        (let d = (if i \<ge> num s1 then (data s1)[num s1 := p]
                  else (mem_move (data s1) (i + 1) i (num s1 - i))[i := p])
         in (num s1 + 1, Some (s1\<lparr>data := d, num := num s1 + 1, sorted_flag := False\<rparr>)))" for s1
  proof -
    let ?d = "if i \<ge> num s1 then (data s1)[num s1 := p] else (mem_move (data s1) (i + 1) i (num s1 - i))[i := p]"
    have "length ?d = length (data s1)" using s1(1,3) by (simp add: mem_move_def)
    moreover have "take (num s + 1) ?d = take i (elements s) @ p # drop i (elements s)"
    proof (cases "num s \<le> i")
      case True
      then show ?thesis using s1 wf by (simp add: length_elements take_Suc_conv_app_nth)
    next
      case False
      have "take i (elements s) = take i (data s1)" "drop i (elements s) = take (num s - i) (drop i (data s1))"
        unfolding s1(7) [symmetric] using False by (simp_all add: min_absorb1 drop_take)
      then show ?thesis using False take_insert [OF s1(3), of i p] s1(1) by simp
    qed
    ultimately show thesis
      using ok [of "s1\<lparr>data := ?d, num := num s1 + 1, sorted_flag := False\<rparr>"] step s1
      by (simp add: sk_wf_def elements_def Let_def)
  qed
  show thesis
  proof (cases "num_alloc s \<le> num s + 1")
    case False
    show thesis
      by (rule place [of s]) (use wf False in \<open>auto simp: sk_wf_def elements_def sk_insert_def\<close>)
  next
    case True
    let ?a = "num_alloc s * 2"
    have a: "size_mul (num_alloc s) 2 = ?a" "size_mul ?a 8 = ?a * 8" "\<not> ?a < num_alloc s" "8 * ?a \<le> HEAP_LIMIT"
      using wf by (auto simp: sk_wf_def size_mul_def SIZE_MOD_def ADDRESS_SPACE_def HEAP_LIMIT_def)
    show thesis
    proof (cases "array_realloc env 8 (Some (data s)) (8 * ?a)")
      case None
      then show thesis using fail True a by (simp add: sk_insert_def SIZEOF_PTR_def Let_def mult.commute)
    next
      case (Some d)
      have le: "length (pointers.elems (Some (data s))) \<le> ?a" "?a \<le> HEAP_LIMIT div 8"
        using wf a(4) by (auto simp: pointers.elems_def sk_wf_def HEAP_LIMIT_def)
      note g = pointers.grow [OF libc le(2,1) Some, unfolded pointers.elems_def option.case]
      have "take (num s) d = elements s"
        using arg_cong [OF g(3), of "take (num s)"] wf by (simp add: elements_def sk_wf_def min_absorb1)
      then show thesis
        using wf True Some g a
        by (intro place [of "s\<lparr>data := d, num_alloc := ?a\<rparr>"])
          (auto simp: sk_wf_def sk_insert_def SIZEOF_PTR_def Let_def mult.commute)
    qed
  qed
qed

lemma delete_elements:
  assumes "sk_wf s" and "i < num s"
  obtains s' where "sk_delete (Some s) i = (elements s ! i, Some s')" "sk_wf s'"
    "elements s' = take i (elements s) @ drop (i + 1) (elements s)"
    "comp s' = comp s" "sorted_flag s' = sorted_flag s"
proof -
  let ?d = "if i \<noteq> num s - 1 then mem_move (data s) i (i + 1) (num s - i - 1) else data s"
  have n: "num s \<le> length (data s)" using assms(1) by (simp add: sk_wf_def)
  have "length ?d = length (data s)" using assms n by (simp add: mem_move_def)
  moreover have "take (num s - 1) ?d = take i (elements s) @ drop (i + 1) (elements s)"
    using take_delete [OF n assms(2)] assms n by (auto simp: elements_def drop_take min_absorb1)
  moreover have "num s - 1 < length (data s)" using assms by (auto simp: sk_wf_def)
  ultimately show thesis
    using that [of "s\<lparr>data := ?d, num := num s - 1\<rparr>"] assms
    by (simp add: sk_delete_def sk_wf_def elements_def)
qed

lemma delete_out_of_range: "num s \<le> i \<Longrightarrow> sk_delete (Some s) i = (None, Some s)"
  by (simp add: sk_delete_def)

lemma delete_ptr_elements:
  assumes "sk_wf s"
  obtains (found) s' where "p \<in> set (elements s)" "sk_delete_ptr (Some s) p = (p, Some s')" "sk_wf s'"
      "elements s' = remove1 p (elements s)" "comp s' = comp s" "sorted_flag s' = sorted_flag s"
  | (absent) "p \<notin> set (elements s)" "sk_delete_ptr (Some s) p = (None, Some s)"
proof (cases "find (\<lambda>i. data s ! i = p) [0 ..< num s]")
  case None
  then have "p \<notin> set (elements s)"
    using assms by (auto simp: find_None_iff in_set_conv_nth length_elements elements_nth)
  then show thesis using absent None by (simp add: sk_delete_ptr_def)
next
  case (Some i)
  then have i: "i < num s" "data s ! i = p" "\<forall>j < i. data s ! j \<noteq> p"
    by (auto simp: find_Some_iff)
  obtain s' where s': "sk_delete (Some s) i = (elements s ! i, Some s')" "sk_wf s'"
    "elements s' = take i (elements s) @ drop (i + 1) (elements s)" "comp s' = comp s" "sorted_flag s' = sorted_flag s"
    by (rule delete_elements [OF assms i(1)])
  have e: "elements s = take i (elements s) @ p # drop (i + 1) (elements s)"
    using id_take_nth_drop [of i "elements s"] i assms by (simp add: length_elements elements_nth)
  have "p \<notin> set (take i (elements s))"
    using i assms by (auto simp: in_set_conv_nth length_elements elements_nth)
  then have "remove1 p (elements s) = take i (elements s) @ drop (i + 1) (elements s)"
    by (subst e) (simp add: remove1_append)
  moreover have "p \<in> set (elements s)" by (subst e) simp
  ultimately show thesis
    using found [of s'] s' Some i assms by (simp add: sk_delete_ptr_def elements_nth)
qed

lemma zero_elements:
  assumes "sk_wf s"
  obtains s' where "sk_zero (Some s) = Some s'" "sk_wf s'" "elements s' = []" "comp s' = comp s"
    "sorted_flag s' = (num s = 0 \<and> sorted_flag s)"
proof (cases "num s = 0")
  case True
  then show thesis using that [of s] assms by (simp add: sk_zero_def elements_def)
next
  case False
  then show thesis
    using that [of "s\<lparr>data := mem_write (data s) 0 (replicate (num s) None), num := 0, sorted_flag := False\<rparr>"] assms
    by (cases "data s") (auto simp: sk_zero_def elements_def sk_wf_def)
qed

lemma set_elements:
  assumes "sk_wf s"
  shows "sk_set (Some s) i p =
    (if i < num s then (p, Some (s\<lparr>data := (data s)[i := p]\<rparr>)) else (None, Some s))"
    and "elements (s\<lparr>data := (data s)[i := p]\<rparr>) = (elements s)[i := p]"
  by (auto simp: sk_set_def elements_def take_update_swap)

lemma dup_elements:
  assumes wf: "sk_wf s" and libc: "libc_wf (fst env)" and dup: "sk_dup env (Some s) = Some s'"
  shows "sk_wf s'" and "elements s' = elements s" and "sorted_flag s' = sorted_flag s" and "comp s' = comp s"
proof -
  obtain r d where r: "sk_new env (comp s) = Some r"
    "array_realloc env 8 (Some (data r)) (size_mul 8 (num_alloc s)) = Some d"
    "s' = \<lparr>num = num s, data = mem_write d 0 (take (num s) (data s)), sorted_flag = sorted_flag s,
      num_alloc = num_alloc s, comp = comp s\<rparr>"
    using dup by (auto simp: sk_dup_def SIZEOF_PTR_def split: option.splits)
  have n: "size_mul 8 (num_alloc s) = 8 * num_alloc s" "8 * num_alloc s \<le> HEAP_LIMIT"
    using wf by (auto simp: sk_wf_def size_mul_def SIZE_MOD_def ADDRESS_SPACE_def HEAP_LIMIT_def)
  have rl: "8 * length (data r) \<le> HEAP_LIMIT"
    using new_elements(1) [OF libc r(1)] by (auto simp: sk_wf_def ADDRESS_SPACE_def HEAP_LIMIT_def)
  have "length d = num_alloc s"
    using array_realloc_Some(1) [OF libc _ n(2) rl] r(2) n(1) by simp
  then show "sk_wf s'" "elements s' = elements s" "sorted_flag s' = sorted_flag s" "comp s' = comp s"
    using wf by (simp_all add: r(3) sk_wf_def elements_def mem_write_def)
qed

section \<open>Sorting and searching\<close>

text \<open>What the C standard says of \<open>qsort\<close>: on elements that its argument orders, it permutes them so that they ascend.\<close>

definition qsort_ok :: "('a \<Rightarrow> bool) \<Rightarrow> (('a \<Rightarrow> 'a \<Rightarrow> int) \<Rightarrow> 'a list \<Rightarrow> 'a list) \<Rightarrow> bool" where
  "qsort_ok ok qs \<longleftrightarrow> (\<forall>cmp xs. comparator ok cmp \<and> (\<forall>x \<in> set xs. ok x) \<longrightarrow>
     mset (qs cmp xs) = mset xs \<and> sorted_wrt (\<lambda>a b. cmp a b \<le> 0) (qs cmp xs))"

lemma qsort_meets: "qsort_ok ok qsort"
  using comparator.qsort_mset comparator.qsort_ascending unfolding qsort_ok_def by blast

text \<open>The sorted flag is true to the elements.\<close>

definition flag_ok :: "('c \<Rightarrow> 'p ptr \<Rightarrow> 'p ptr \<Rightarrow> int) \<Rightarrow> ('p, 'c) stack \<Rightarrow> bool" where
  "flag_ok call s \<longleftrightarrow> (sorted_flag s \<longrightarrow>
     (\<exists>c. comp s = Some c \<and> sorted_wrt (\<lambda>a b. call c a b \<le> 0) (elements s)))"

lemma sorted_wrt_remove:
  "sorted_wrt P xs \<Longrightarrow> sorted_wrt P (take i xs @ drop (i + 1) xs)"
proof -
  assume s: "sorted_wrt P xs"
  show ?thesis
  proof (cases "i < length xs")
    case True
    have "sorted_wrt P (take i xs @ xs ! i # drop (Suc i) xs)" using s id_take_nth_drop [OF True] by simp
    then show ?thesis by (simp add: sorted_wrt_append)
  next
    case False
    then show ?thesis using s by simp
  qed
qed

lemma sorted_wrt_remove1: "sorted_wrt P xs \<Longrightarrow> sorted_wrt P (remove1 x xs)"
  by (induction xs) (auto dest: notin_set_remove1 in_set_takeD intro: subsetD [OF set_remove1_subset])

lemma sort_elements:
  assumes wf: "sk_wf s" and cmp: "comp s = Some c" "comparator ok (call c)" "\<forall>x \<in> set (elements s). ok x"
    and qs: "qsort_ok ok qs" and flag: "flag_ok call s"
  obtains s' where "sk_sort qs call (Some s) = Some s'" "sk_wf s'" "flag_ok call s'" "sorted_flag s'"
    "mset (elements s') = mset (elements s)" "comp s' = comp s"
proof (cases "sorted_flag s")
  case True
  then show thesis using that [of s] wf flag cmp by (simp add: sk_sort_def)
next
  case False
  let ?q = "if num s \<ge> 2 then qs (call c) (elements s) else elements s"
  have q: "mset (qs (call c) (elements s)) = mset (elements s)"
    "sorted_wrt (\<lambda>a b. call c a b \<le> 0) (qs (call c) (elements s))"
    using qs cmp unfolding qsort_ok_def by blast+
  have "sorted_wrt (\<lambda>a b. call c a b \<le> 0) (elements s)" if "num s < 2"
    using that wf length_elements [of s] by (cases "elements s" rule: remdups_adj.cases) auto
  with q have sorted: "sorted_wrt (\<lambda>a b. call c a b \<le> 0) ?q" "mset ?q = mset (elements s)" by auto
  have len: "length ?q = num s" using sorted(2) wf length_elements [of s] by (metis size_mset)
  let ?s = "s\<lparr>data := mem_write (data s) 0 ?q, sorted_flag := True\<rparr>"
  have "mem_write (data s) 0 (elements s) = data s" using wf by (simp add: mem_write_def elements_def sk_wf_def min_absorb2)
  then have "sk_sort qs call (Some s) = Some ?s"
    using False cmp(1) by (simp add: sk_sort_def elements_def)
  moreover have "elements ?s = ?q" using len by (simp add: elements_def mem_write_def)
  moreover have "sk_wf ?s" using wf len by (simp add: sk_wf_def)
  ultimately show thesis
    using that [of ?s] sorted cmp(1) by (simp add: flag_ok_def)
qed

text \<open>The binary search finds what a linear search over the same range finds.\<close>

lemma find_append: "find P (xs @ ys) = (case find P xs of None \<Rightarrow> find P ys | Some x \<Rightarrow> Some x)"
  by (induction xs) auto

lemma find_upt_split:
  assumes "lo \<le> mid" "mid \<le> hi"
  shows "find P [lo ..< hi] = (case find P [lo ..< mid] of None \<Rightarrow> find P [mid ..< hi] | Some i \<Rightarrow> Some i)"
proof -
  have "[lo ..< hi] = [lo ..< mid] @ [mid ..< hi]"
    using upt_add_eq_append [OF assms(1), of "hi - mid"] assms(2) by simp
  then show ?thesis by (simp add: find_append)
qed

lemma sk_find_loop_take:
  "hi \<le> n \<Longrightarrow> sk_find_loop cmp (take n d) lo hi = sk_find_loop cmp d lo hi"
proof (induction cmp d lo hi rule: sk_find_loop.induct)
  case (1 cmp d lo hi)
  show ?case
  proof (cases "lo < hi")
    case True
    have "lo + (hi - lo - 1) div 2 < hi" using True by linarith
    then have "take n d ! (lo + (hi - lo - 1) div 2) = d ! (lo + (hi - lo - 1) div 2)" using 1(4) by simp
    then show ?thesis
      using 1(1-3) [OF True refl refl] 1(4) True \<open>lo + (hi - lo - 1) div 2 < hi\<close>
      by (subst (1 2) sk_find_loop.simps) (simp add: Let_def)
  next
    case False
    then show ?thesis by (simp add: sk_find_loop.simps)
  qed
qed

context comparator
begin

lemma binary_search:
  assumes "ascending xs" and "\<forall>y \<in> set xs. ok y" and "ok p"
  shows "hi \<le> length xs \<Longrightarrow> sk_find_loop (cmp p) xs lo hi = find (\<lambda>i. cmp p (xs ! i) = 0) [lo ..< hi]"
proof (induction "hi - lo" arbitrary: lo hi rule: less_induct)
  case less
  let ?P = "\<lambda>i. cmp p (xs ! i) = 0" and ?mid = "lo + (hi - lo - 1) div 2"
  show ?case
  proof (cases "lo < hi")
    case False
    then show ?thesis by (simp add: sk_find_loop.simps)
  next
    case True
    have mid: "lo \<le> ?mid" "?mid < hi" using True by linarith+
    consider (low) "0 < cmp p (xs ! ?mid)" | (high) "cmp p (xs ! ?mid) < 0" | (hit) "?P ?mid" by linarith
    then show ?thesis
    proof cases
      case low
      have "\<not> ?P i" if "i < ?mid + 1" for i
        using below [OF assms, of i ?mid] that low mid less.prems by fastforce
      then have "find ?P [lo ..< ?mid + 1] = None" by (auto simp: find_None_iff)
      then have "find ?P [lo ..< hi] = find ?P [?mid + 1 ..< hi]"
        using find_upt_split [of lo "?mid + 1" hi ?P] mid by simp
      moreover have "sk_find_loop (cmp p) xs (?mid + 1) hi = find ?P [?mid + 1 ..< hi]"
        by (rule less.hyps) (use mid less.prems in auto)
      ultimately show ?thesis using True low by (subst sk_find_loop.simps) (simp add: Let_def)
    next
      case high
      have "\<not> ?P i" if "?mid \<le> i" "i < hi" for i
        using above [OF assms that(1)] that(2) high less.prems by fastforce
      then have "find ?P [?mid ..< hi] = None" by (auto simp: find_None_iff)
      then have "find ?P [lo ..< hi] = find ?P [lo ..< ?mid]"
        using find_upt_split [of lo ?mid hi ?P] mid by (simp split: option.splits)
      moreover have "sk_find_loop (cmp p) xs lo ?mid = find ?P [lo ..< ?mid]"
        by (rule less.hyps) (use mid less.prems in auto)
      ultimately show ?thesis using True high by (subst sk_find_loop.simps) (simp add: Let_def)
    next
      case hit
      show ?thesis
      proof (cases "hi - lo = 1")
        case one: True
        then have "[lo ..< hi] = [?mid]" using True by (simp add: upt_conv_Cons)
        then show ?thesis using True hit one by (subst sk_find_loop.simps) (simp add: Let_def)
      next
        case False
        then have m: "?mid + 1 < hi" using True by linarith
        have "find ?P [lo ..< ?mid + 1] \<noteq> None" using hit mid by (auto simp: find_None_iff)
        then have "find ?P [lo ..< hi] = find ?P [lo ..< ?mid + 1]"
          using find_upt_split [of lo "?mid + 1" hi ?P] mid m by (auto split: option.splits)
        moreover have "sk_find_loop (cmp p) xs lo (?mid + 1) = find ?P [lo ..< ?mid + 1]"
          by (rule less.hyps) (use mid m less.prems in auto)
        ultimately show ?thesis using True hit False by (subst sk_find_loop.simps) (simp add: Let_def)
      qed
    qed
  qed
qed

end

text \<open>What \<open>sk_find\<close> promises: the index of the first match, whichever search it uses.\<close>

definition matches :: "('c \<Rightarrow> 'p ptr \<Rightarrow> 'p ptr \<Rightarrow> int) \<Rightarrow> ('p, 'c) stack \<Rightarrow> 'p ptr \<Rightarrow> 'p ptr \<Rightarrow> bool" where
  "matches call s p x \<longleftrightarrow>
     (case comp s of None \<Rightarrow> x = p | Some c \<Rightarrow> p \<noteq> None \<and> call c p x = 0)"

lemma find_False [simp]: "find (\<lambda>_. False) xs = None"
  by (induction xs) auto

lemma find_cong': "(\<And>x. x \<in> set xs \<Longrightarrow> P x = Q x) \<Longrightarrow> find P xs = find Q xs"
  by (induction xs) auto

lemma find_first_match:
  assumes wf: "sk_wf s" and flag: "flag_ok call s"
    and cmp: "\<And>c. comp s = Some c \<Longrightarrow> comparator ok (call c)" and ok: "\<forall>x \<in> set (elements s). ok x" "ok p"
  shows "sk_find call (Some s) p = find (\<lambda>i. matches call s p (elements s ! i)) [0 ..< num s]"
proof -
  have lin: "find (\<lambda>i. P (data s ! i)) [0 ..< num s] = find (\<lambda>i. P (elements s ! i)) [0 ..< num s]" for P
    using wf by (intro find_cong') (simp add: elements_nth)
  show ?thesis
  proof (cases "comp s")
    case None
    then show ?thesis using lin by (simp add: sk_find_def matches_def)
  next
    case (Some c)
    show ?thesis
    proof (cases "sorted_flag s \<and> p \<noteq> None")
      case True
      then have "sorted_wrt (\<lambda>a b. call c a b \<le> 0) (elements s)" using flag Some by (simp add: flag_ok_def)
      from comparator.binary_search [OF cmp [OF Some] this ok(1,2), of "num s" 0]
      have "sk_find_loop (call c p) (data s) 0 (num s) = find (\<lambda>i. call c p (elements s ! i) = 0) [0 ..< num s]"
        using sk_find_loop_take [of "num s" "num s" "call c p" "data s" 0] wf
        by (simp add: length_elements) (simp add: elements_def)
      then show ?thesis using True Some by (auto simp: sk_find_def sk_is_sorted_def matches_def)
    next
      case False
      then show ?thesis using Some lin [of "\<lambda>x. call c p x = 0"]
        by (auto simp: sk_find_def sk_is_sorted_def matches_def find_None_iff)
    qed
  qed
qed

section \<open>Deep copies\<close>

text \<open>Copying a list of pointers in order, until a copy fails.\<close>

fun copy_all :: "('s \<Rightarrow> 'p \<Rightarrow> 'p ptr \<times> 's) \<Rightarrow> 's \<Rightarrow> 'p ptr list \<Rightarrow> 'p ptr list option \<times> 'p ptr list \<times> 's" where
  "copy_all copy st [] = (Some [], [], st)"
| "copy_all copy st (None # xs) =
     (case copy_all copy st xs of (r, made, st1) \<Rightarrow> (map_option (\<lambda>ys. None # ys) r, None # made, st1))"
| "copy_all copy st (Some p # xs) =
     (case copy st p of
        (None, st1) \<Rightarrow> (None, [], st1)
      | (Some q, st1) \<Rightarrow>
          (case copy_all copy st1 xs of (r, made, st2) \<Rightarrow> (map_option (\<lambda>ys. Some q # ys) r, Some q # made, st2)))"

definition released_elements :: "'p ptr list \<Rightarrow> 'p released list" where
  "released_elements xs = concat (map (\<lambda>x. case x of None \<Rightarrow> [] | Some p \<Rightarrow> [Element p]) xs)"

lemma released_loop:
  assumes "i \<le> length d"
  shows "concat (map (\<lambda>j. case d ! j of None \<Rightarrow> [] | Some q \<Rightarrow> [Element q]) [0 ..< i]) = released_elements (take i d)"
proof -
  have "map (\<lambda>j. case d ! j of None \<Rightarrow> [] | Some q \<Rightarrow> [Element q]) [0 ..< i] =
      map (\<lambda>x. case x of None \<Rightarrow> [] | Some p \<Rightarrow> [Element p]) (take i d)"
    using assms by (intro nth_equalityI) simp_all
  then show ?thesis by (simp add: released_elements_def)
qed

lemma deep_copy_loop_all:
  "i \<le> num ret \<Longrightarrow> num ret \<le> length (data ret) \<Longrightarrow>
   deep_copy_loop copy st ret i =
   (case copy_all copy st (drop i (elements ret)) of
      (Some ys, _, st1) \<Rightarrow> (Some (ret\<lparr>data := take i (data ret) @ ys @ drop (num ret) (data ret)\<rparr>), [], st1)
    | (None, made, st1) \<Rightarrow>
        (None, released_elements (take i (data ret) @ made) @ sk_free (Some ret), st1))"
proof (induction copy st ret i rule: deep_copy_loop.induct)
  case (1 copy st ret i)
  show ?case
  proof (cases "i < num ret")
    case False
    then have "drop i (elements ret) = []" "i = num ret" using 1(3) by (simp_all add: elements_def)
    then show ?thesis by (simp add: deep_copy_loop.simps)
  next
    case True
    have i: "i < length (data ret)" using True 1(4) by simp
    have split: "drop i (elements ret) = data ret ! i # drop (Suc i) (elements ret)"
      using True 1(4) Cons_nth_drop_Suc [of i "elements ret"] by (simp add: elements_def)
    have tk: "take (Suc i) (data ret) = take i (data ret) @ [data ret ! i]" using i by (rule take_Suc_conv_app_nth)
    show ?thesis
    proof (cases "data ret ! i")
      case None
      then show ?thesis
        using 1(1) [OF True None] 1(4) True split tk
        by (subst deep_copy_loop.simps) (auto split: prod.splits option.splits)
    next
      case (Some p)
      obtain r st1 where c: "copy st p = (r, st1)" by fastforce
      show ?thesis
      proof (cases r)
        case None
        then show ?thesis
          using True Some c split i
          by (subst deep_copy_loop.simps) (simp add: released_loop)
      next
        case (Some q)
        let ?ret = "ret\<lparr>data := (data ret)[i := Some q]\<rparr>"
        have e: "drop (Suc i) (elements ?ret) = drop (Suc i) (elements ret)"
          by (simp add: elements_def take_update_swap)
        have t: "take (Suc i) (data ?ret) = take i (data ret) @ [Some q]"
          using i by (simp add: take_Suc_conv_app_nth)
        have IH: "deep_copy_loop copy st1 ?ret (i + 1) =
           (case copy_all copy st1 (drop (Suc i) (elements ret)) of
              (Some ys, _, st1) \<Rightarrow> (Some (?ret\<lparr>data := (take i (data ret) @ [Some q]) @ ys @ drop (num ret) (data ?ret)\<rparr>), [], st1)
            | (None, made, st1) \<Rightarrow>
                (None, released_elements ((take i (data ret) @ [Some q]) @ made) @ sk_free (Some ?ret), st1))"
          using 1(2) [OF True \<open>data ret ! i = Some p\<close> c [symmetric] Some] True 1(4) unfolding t [symmetric] e [symmetric]
          by (auto split: prod.splits option.splits)
        show ?thesis
          using True \<open>data ret ! i = Some p\<close> c Some split IH
          by (subst deep_copy_loop.simps) (auto simp: sk_free_def split: prod.splits option.splits)
      qed
    qed
  qed
qed

theorem deep_copy_result:
  assumes wf: "sk_wf s" and libc: "libc_wf (fst env)" and dup: "sk_dup env (Some s) = Some ret"
  shows "case copy_all copy st (elements s) of
     (Some ys, _, st1) \<Rightarrow> (\<exists>s'. sk_deep_copy env copy st (Some s) = (Some s', [], st1) \<and> sk_wf s' \<and> elements s' = ys \<and>
        sorted_flag s' = sorted_flag s \<and> comp s' = comp s)
   | (None, made, st1) \<Rightarrow> sk_deep_copy env copy st (Some s) = (None, released_elements made @ [Array, Struct], st1)"
proof -
  note d = dup_elements [OF wf libc dup]
  have n: "num ret \<le> length (data ret)" using d(1) by (simp add: sk_wf_def)
  have ys: "length ys = length xs" if "copy_all copy st xs = (Some ys, made, st1)" for xs ys made st1
    using that by (induction copy st xs arbitrary: ys made st1 rule: copy_all.induct) (auto split: prod.splits option.splits)
  have l: "length (elements s) = num ret" using d length_elements by metis
  show ?thesis
    using deep_copy_loop_all [of 0 ret copy st] n d dup l
    by (auto simp: sk_deep_copy_def sk_free_def sk_wf_def elements_def [of "data_update _ _"] dest!: ys split: prod.splits option.splits)
qed

section \<open>Histories of a stack\<close>

definition stack_shape :: "('p ptr \<Rightarrow> bool) \<Rightarrow> ('c \<Rightarrow> 'p ptr \<Rightarrow> 'p ptr \<Rightarrow> int) \<Rightarrow> ('p, 'c) stack \<Rightarrow> bool" where
  "stack_shape ok call s \<longleftrightarrow> sk_wf s \<and> (\<forall>x \<in> set (elements s). ok x) \<and>
     (\<forall>c. comp s = Some c \<longrightarrow> comparator ok (call c))"

definition stack_inv :: "('p ptr \<Rightarrow> bool) \<Rightarrow> ('c \<Rightarrow> 'p ptr \<Rightarrow> 'p ptr \<Rightarrow> int) \<Rightarrow> ('p, 'c) stack \<Rightarrow> bool" where
  "stack_inv ok call s \<longleftrightarrow> stack_shape ok call s \<and> flag_ok call s"

lemmas stack_inv_defs = stack_inv_def stack_shape_def flag_ok_def

text \<open>The copies compare with each other as the originals do.\<close>

definition copies_alike :: "('c \<Rightarrow> 'p ptr \<Rightarrow> 'p ptr \<Rightarrow> int) \<Rightarrow> ('p, 'c) stack \<Rightarrow> ('p, 'c) stack \<Rightarrow> bool" where
  "copies_alike call s s' \<longleftrightarrow> (\<forall>c. comp s = Some c \<longrightarrow> (\<forall>i < num s. \<forall>j < num s.
     call c (elements s' ! i) (elements s' ! j) = call c (elements s ! i) (elements s ! j)))"

text \<open>
  The operations as a step relation; \<open>env\<close> may differ from call to call. Only elements the comparison is
  meant for are stored, and a new comparison function orders them too. \<open>cp\<close> interprets the copy
  functions as \<open>call\<close> does the comparison functions.

  The first component of a state is a ghost, \<open>stale\<close>: an element of a stack that called itself
  sorted has been replaced since (by \<open>sk_set\<close>, or in a deep copy by copies that compare otherwise), and
  the flag has not been cleared after that.
\<close>

inductive stack_step ::
    "('p ptr \<Rightarrow> bool) \<Rightarrow> (('p ptr \<Rightarrow> 'p ptr \<Rightarrow> int) \<Rightarrow> 'p ptr list \<Rightarrow> 'p ptr list) \<Rightarrow>
     ('c \<Rightarrow> 'p ptr \<Rightarrow> 'p ptr \<Rightarrow> int) \<Rightarrow> ('f \<Rightarrow> 's \<Rightarrow> 'p \<Rightarrow> 'p ptr \<times> 's) \<Rightarrow>
     bool \<Rightarrow> ('p, 'c) stack \<Rightarrow> bool \<Rightarrow> ('p, 'c) stack \<Rightarrow> bool"
  for ok qs call cp where
  insert: "stack_step ok qs call cp g s (g \<and> sorted_flag s') s'"
    if "libc_wf (fst env)" "ok p" "sk_insert env (Some s) p i = (n, Some s')"
| delete: "stack_step ok qs call cp g s (g \<and> sorted_flag s') s'" if "sk_delete (Some s) i = (p, Some s')"
| delete_ptr: "stack_step ok qs call cp g s (g \<and> sorted_flag s') s'" if "sk_delete_ptr (Some s) p = (q, Some s')"
| zero: "stack_step ok qs call cp g s (g \<and> sorted_flag s') s'" if "sk_zero (Some s) = Some s'"
| sort: "stack_step ok qs call cp g s (g \<and> sorted_flag s') s'" if "sk_sort qs call (Some s) = Some s'"
| set_cmp: "stack_step ok qs call cp g s (g \<and> sorted_flag s') s'"
    if "cmp = None \<or> (\<exists>c. cmp = Some c \<and> comparator ok (call c))" "sk_set_cmp_func s cmp = (old, s')"
| dup: "stack_step ok qs call cp g s (g \<and> sorted_flag s') s'"
    if "libc_wf (fst env)" "sk_dup env (Some s) = Some s'"
| set_value: "stack_step ok qs call cp g s (g \<or> sorted_flag s \<and> s' \<noteq> s) s'"
    if "ok p" "sk_set (Some s) i p = (q, Some s')"
| deep_copy: "stack_step ok qs call cp g s (g \<or> sorted_flag s \<and> \<not> copies_alike call s s') s'"
    if "libc_wf (fst env)" "\<forall>st p q st1. cp f st p = (Some q, st1) \<longrightarrow> ok (Some q)"
      "sk_deep_copy env (cp f) st (Some s) = (Some s', released, st1)"

lemma copy_all_ok:
  "copy_all copy st xs = (Some ys, made, st1) \<Longrightarrow> \<forall>st p q st1. copy st p = (Some q, st1) \<longrightarrow> ok (Some q) \<Longrightarrow>
   \<forall>x \<in> set xs. ok x \<Longrightarrow> \<forall>y \<in> set ys. ok y"
proof (induction copy st xs arbitrary: ys made st1 rule: copy_all.induct)
  case (3 copy st p xs)
  from 3(2) obtain q st2 ys' made' where q: "copy st p = (Some q, st2)" "copy_all copy st2 xs = (Some ys', made', st1)" "ys = Some q # ys'"
    by (auto split: prod.splits option.splits)
  moreover have "ok (Some q)" using 3(3) q(1) by blast
  moreover have "\<forall>y \<in> set ys'. ok y" using 3(1) [OF q(1) [symmetric] refl q(2) 3(3)] 3(4) by simp
  ultimately show ?case by simp
qed (auto split: prod.splits option.splits)

lemma copy_all_length: "copy_all copy st xs = (Some ys, made, st1) \<Longrightarrow> length ys = length xs"
  by (induction copy st xs arbitrary: ys made st1 rule: copy_all.induct) (auto split: prod.splits option.splits)

lemma deep_copy_shape:
  assumes wf: "sk_wf s" and libc: "libc_wf (fst env)"
    and copy: "sk_deep_copy env copy st (Some s) = (Some s', released, st1)"
    and ok: "\<forall>st p q st1. copy st p = (Some q, st1) \<longrightarrow> ok (Some q)" "\<forall>x \<in> set (elements s). ok x"
  shows "sk_wf s'" and "\<forall>x \<in> set (elements s'). ok x" and "sorted_flag s' = sorted_flag s" and "comp s' = comp s"
    and "num s' = num s"
proof -
  obtain ret where ret: "sk_dup env (Some s) = Some ret"
    using copy by (auto simp: sk_deep_copy_def split: option.splits)
  obtain r made st2 where all: "copy_all copy st (elements s) = (r, made, st2)" by (metis prod_cases3)
  note d = deep_copy_result [OF wf libc ret, of copy st, unfolded all]
  obtain ys where r: "r = Some ys" using d copy by (cases r) auto
  have e: "sk_wf s'" "elements s' = ys" "sorted_flag s' = sorted_flag s" "comp s' = comp s"
    using d copy unfolding r by auto
  have "length ys = length (elements s)" by (rule copy_all_length [OF all [unfolded r]])
  then have "num s' = num s" using length_elements [OF e(1)] length_elements [OF wf] e(2) by simp
  moreover have "\<forall>x \<in> set (elements s'). ok x"
    using copy_all_ok [OF all [unfolded r] ok(1,2)] e(2) by simp
  ultimately show "sk_wf s'" "\<forall>x \<in> set (elements s'). ok x" "sorted_flag s' = sorted_flag s" "comp s' = comp s"
    "num s' = num s" using e by blast+
qed


definition ghost_inv :: "('p ptr \<Rightarrow> bool) \<Rightarrow> ('c \<Rightarrow> 'p ptr \<Rightarrow> 'p ptr \<Rightarrow> int) \<Rightarrow> bool \<Rightarrow> ('p, 'c) stack \<Rightarrow> bool" where
  "ghost_inv ok call g s \<longleftrightarrow> stack_shape ok call s \<and> (if g then sorted_flag s else flag_ok call s)"

lemma ghost_kept:
  assumes "ghost_inv ok call g s" and "stack_shape ok call s'" and "flag_ok call s \<longrightarrow> flag_ok call s'"
  shows "ghost_inv ok call (g \<and> sorted_flag s') s'"
  using assms by (auto simp: ghost_inv_def flag_ok_def split: if_splits)

lemma sort_keeps:
  assumes "stack_shape ok call s" and "qsort_ok ok qs" and sort: "sk_sort qs call (Some s) = Some s'"
  shows "stack_shape ok call s' \<and> (flag_ok call s \<longrightarrow> flag_ok call s')"
proof (cases "comp s = None \<or> sorted_flag s")
  case True
  then have "s' = s" using sort by (cases "comp s") (auto simp: sk_sort_def)
  then show ?thesis using assms(1) by simp
next
  case False
  then obtain c where c: "comp s = Some c" "flag_ok call s" by (auto simp: flag_ok_def)
  note sh = assms(1) [unfolded stack_shape_def]
  from c(1) sh have cmp: "comparator ok (call c)" "\<forall>x \<in> set (elements s). ok x" "sk_wf s" by auto
  obtain s'' where s'': "sk_sort qs call (Some s) = Some s''" "sk_wf s''" "flag_ok call s''"
    "mset (elements s'') = mset (elements s)" "comp s'' = comp s"
    by (rule sort_elements [OF cmp(3) c(1) cmp(1,2) assms(2) c(2)])
  have "set (elements s'') = set (elements s)" by (rule mset_eq_setD [OF s''(4)])
  then show ?thesis using s'' sort sh by (simp add: stack_shape_def)
qed

lemma sorted_wrt_alike:
  assumes "sorted_wrt P xs" and "length ys = length xs"
    and "\<And>i j. i < length xs \<Longrightarrow> j < length xs \<Longrightarrow> P (ys ! i) (ys ! j) = P (xs ! i) (xs ! j)"
  shows "sorted_wrt P ys"
  using assms by (simp add: sorted_wrt_iff_nth_less)

lemma deep_copy_keeps:
  assumes "ghost_inv ok call g s" and "libc_wf (fst env)" and "\<forall>st p q st1. copy st p = (Some q, st1) \<longrightarrow> ok (Some q)"
    and "sk_deep_copy env copy st (Some s) = (Some s', released, st1)"
  shows "ghost_inv ok call (g \<or> sorted_flag s \<and> \<not> copies_alike call s s') s'"
proof -
  have sh: "sk_wf s" "\<forall>x \<in> set (elements s). ok x" using assms(1) by (auto simp: ghost_inv_def stack_shape_def)
  note d = deep_copy_shape [OF sh(1) assms(2,4,3) sh(2)]
  have shape: "stack_shape ok call s'" using assms(1) d by (auto simp: ghost_inv_def stack_shape_def)
  have "flag_ok call s'" if flag: "flag_ok call s" and alike: "copies_alike call s s'"
    unfolding flag_ok_def
  proof
    assume "sorted_flag s'"
    then obtain c where c: "comp s = Some c" "sorted_wrt (\<lambda>a b. call c a b \<le> 0) (elements s)"
      using flag d(3) by (auto simp: flag_ok_def)
    have "sorted_wrt (\<lambda>a b. call c a b \<le> 0) (elements s')"
      using alike c(1) length_elements [OF sh(1)] length_elements [OF d(1)] d(5)
      by (intro sorted_wrt_alike [OF c(2)]) (auto simp: copies_alike_def)
    then show "\<exists>c. comp s' = Some c \<and> sorted_wrt (\<lambda>a b. call c a b \<le> 0) (elements s')" using c d(4) by simp
  qed
  then show ?thesis using shape assms(1) d(3) by (auto simp: ghost_inv_def flag_ok_def split: if_splits)
qed

lemma stack_step_inv:
  assumes "stack_step ok qs call cp g s g' s'" and qs: "qsort_ok ok qs" and inv: "ghost_inv ok call g s"
  shows "ghost_inv ok call g' s'"
proof -
  have sh: "stack_shape ok call s" using inv by (simp add: ghost_inv_def)
  note sh' = sh [unfolded stack_shape_def]
  show ?thesis
    using assms(1)
  proof cases
    case (insert env p i n)
    have "stack_shape ok call s' \<and> (flag_ok call s \<longrightarrow> flag_ok call s')"
      by (rule insert_elements [OF sh' [THEN conjunct1] insert(2), of p i])
        (use insert sh' in \<open>auto simp: stack_shape_def flag_ok_def dest: in_set_takeD in_set_dropD\<close>)
    then show ?thesis unfolding insert(1) by (blast intro: ghost_kept [OF inv])
  next
    case (delete i p)
    have "stack_shape ok call s' \<and> (flag_ok call s \<longrightarrow> flag_ok call s')"
    proof (cases "i < num s")
      case True
      then show ?thesis
        by (rule delete_elements [OF sh' [THEN conjunct1]])
          (use delete sh' sorted_wrt_remove in \<open>fastforce simp: stack_shape_def flag_ok_def dest: in_set_takeD in_set_dropD\<close>)
    qed (use delete sh in \<open>simp add: delete_out_of_range\<close>)
    then show ?thesis unfolding delete(1) by (blast intro: ghost_kept [OF inv])
  next
    case (delete_ptr p q)
    have "stack_shape ok call s' \<and> (flag_ok call s \<longrightarrow> flag_ok call s')"
      using sh' [THEN conjunct1]
    proof (cases rule: delete_ptr_elements [where p = p, case_names found absent])
      case (found s'')
      then have e: "s'' = s'" using delete_ptr(2) by simp
      have "set (elements s') \<subseteq> set (elements s)" using found(4) set_remove1_subset unfolding e by metis
      then show ?thesis using found sh' sorted_wrt_remove1 unfolding e
        by (auto simp: stack_shape_def flag_ok_def)
    qed (use delete_ptr sh in auto)
    then show ?thesis unfolding delete_ptr(1) by (blast intro: ghost_kept [OF inv])
  next
    case zero
    from sh' [THEN conjunct1] have "stack_shape ok call s' \<and> (flag_ok call s \<longrightarrow> flag_ok call s')"
      by (rule zero_elements) (use zero sh' in \<open>auto simp: stack_shape_def flag_ok_def\<close>)
    then show ?thesis unfolding zero(1) by (blast intro: ghost_kept [OF inv])
  next
    case sort
    show ?thesis unfolding sort(1) using sort_keeps [OF sh qs sort(2)] by (blast intro: ghost_kept [OF inv])
  next
    case (set_cmp cmp old)
    have "stack_shape ok call s' \<and> (flag_ok call s \<longrightarrow> flag_ok call s')"
      using set_cmp sh' by (auto simp: sk_set_cmp_func_def stack_shape_def flag_ok_def sk_wf_def elements_def split: if_splits)
    then show ?thesis unfolding set_cmp(1) by (blast intro: ghost_kept [OF inv])
  next
    case (dup env)
    note d = dup_elements [OF sh' [THEN conjunct1] dup(2,3)]
    have "stack_shape ok call s' \<and> (flag_ok call s \<longrightarrow> flag_ok call s')"
      using d sh' by (simp add: stack_shape_def flag_ok_def)
    then show ?thesis unfolding dup(1) by (blast intro: ghost_kept [OF inv])
  next
    case (set_value p i q)
    note e = set_elements [OF sh' [THEN conjunct1], of i p]
    have "sk_wf s'" "sorted_flag s' = sorted_flag s" "comp s' = comp s"
      using set_value(3) e(1) sh' by (auto simp: sk_wf_def split: if_splits)
    moreover have "\<forall>x \<in> set (elements s'). ok x"
      using set_value(2,3) e sh' by (auto split: if_splits dest!: set_update_subset_insert [THEN subsetD])
    ultimately show ?thesis using inv sh' unfolding set_value(1)
      by (auto simp: ghost_inv_def stack_shape_def flag_ok_def split: if_splits)
  next
    case (deep_copy env f st released st1)
    show ?thesis unfolding deep_copy(1) by (rule deep_copy_keeps [OF inv deep_copy(2-4)])
  qed
qed

inductive stack_run ::
    "('p ptr \<Rightarrow> bool) \<Rightarrow> (('p ptr \<Rightarrow> 'p ptr \<Rightarrow> int) \<Rightarrow> 'p ptr list \<Rightarrow> 'p ptr list) \<Rightarrow>
     ('c \<Rightarrow> 'p ptr \<Rightarrow> 'p ptr \<Rightarrow> int) \<Rightarrow> ('f \<Rightarrow> 's \<Rightarrow> 'p \<Rightarrow> 'p ptr \<times> 's) \<Rightarrow> bool \<Rightarrow> ('p, 'c) stack \<Rightarrow> bool"
  for ok qs call cp where
  new: "stack_run ok qs call cp False s"
    if "libc_wf (fst env)" "cmp = None \<or> (\<exists>c. cmp = Some c \<and> comparator ok (call c))" "sk_new env cmp = Some s"
| step: "stack_run ok qs call cp g' s'" if "stack_run ok qs call cp g s" "stack_step ok qs call cp g s g' s'"

lemma stack_run_inv:
  assumes "stack_run ok qs call cp g s" and "qsort_ok ok qs"
  shows "ghost_inv ok call g s"
  using assms(1)
proof induction
  case (new env cmp s)
  note n = new_elements [OF new(1,3)]
  then show ?case using new(2) by (auto simp: ghost_inv_def stack_shape_def flag_ok_def)
next
  case (step g s g' s')
  then show ?case using stack_step_inv assms(2) by blast
qed

section \<open>The flag after \<open>sk_set\<close>\<close>

text \<open>
  The search starts in the middle. A pointer stored there that compares above an element on the
  right sends the search for that element to the left, where it is not.
\<close>

lemma set_misleads_find:
  assumes inv: "stack_inv ok call s" and sorted: "sorted_flag s" and c: "comp s = Some c"
    and i: "i = (num s - 1) div 2" "i < j" "j < num s" and x: "x = elements s ! j" "x \<noteq> None"
    and above: "call c x p < 0" and left: "\<forall>k < i. call c x (elements s ! k) \<noteq> 0"
  shows "let s' = snd (sk_set (Some s) i p)
    in sk_is_sorted s' \<and> sk_value s' j = x \<and> sk_find call s' x = None"
proof -
  have wf: "sk_wf s" and cmp: "comparator ok (call c)" and ok: "\<forall>y \<in> set (elements s). ok y"
    and asc: "sorted_wrt (\<lambda>a b. call c a b \<le> 0) (elements s)"
    using inv sorted c by (auto simp: stack_inv_defs)
  note l = length_elements [OF wf]
  let ?d = "(data s)[i := p]"
  have nd: "num s \<le> length (data s)" using wf by (simp add: sk_wf_def)
  have okx: "ok x" using ok x(1) i(3) l by simp
  have "sk_find_loop (call c x) ?d 0 i = sk_find_loop (call c x) (take i ?d) 0 i"
    by (rule sk_find_loop_take [symmetric]) simp
  also have "take i ?d = take i (elements s)" using i by (simp add: elements_def min_def)
  also have "sk_find_loop (call c x) (take i (elements s)) 0 i = sk_find_loop (call c x) (elements s) 0 i"
    by (rule sk_find_loop_take) simp
  also have "\<dots> = find (\<lambda>k. call c x (elements s ! k) = 0) [0 ..< i]"
    using comparator.binary_search [OF cmp asc ok okx, of i 0] i l by simp
  also have "\<dots> = None" using left by (simp add: find_None_iff)
  finally have none: "sk_find_loop (call c x) ?d 0 i = None" .
  have "sk_find_loop (call c x) ?d 0 (num s) = sk_find_loop (call c x) ?d 0 i"
    using above i nd by (subst sk_find_loop.simps) (simp add: Let_def)
  then show ?thesis
    using none sorted c i nd x elements_nth [OF wf i(3)]
    by (auto simp: sk_set_def sk_is_sorted_def sk_value_def sk_find_def Let_def)
qed

text \<open>Numbers and a small heap, for examples.\<close>

definition compare_numbers :: "unit \<Rightarrow> nat ptr \<Rightarrow> nat ptr \<Rightarrow> int" where
  "compare_numbers c a b =
     (case (a, b) of
        (Some x, Some y) \<Rightarrow> int x - int y | (None, None) \<Rightarrow> 0 | (None, Some _) \<Rightarrow> - 1 | (Some _, None) \<Rightarrow> 1)"

interpretation numbers: comparator "\<lambda>_. True" "compare_numbers c" for c
  by unfold_locales (auto simp: compare_numbers_def sgn_if split: option.splits)

definition plain_env :: "nat env" where
  "plain_env = (\<lambda>n. if n \<le> 1024 then Some (replicate n 0) else None, \<lambda>_. None)"

lemma plain_env_wf: "libc_wf (fst plain_env)"
  by (simp add: plain_env_def libc_wf_def ADDRESS_SPACE_def)

end
