(* ===== verification/Lhash.thy ===== *)
theory Lhash
  imports Stack
begin

text \<open>
  \<open>crypto/lhash/lhash.c\<close>: the hash table with separate chains. A chain is the list of its items, in
  the order of their \<open>next\<close> pointers; a pointer to a \<open>next\<close> field (or to a bucket) is the number of
  the bucket with a position in its chain, the position behind the last item standing for the pointer
  that is \<open>NULL\<close>. As in \<open>Stack\<close>, pointers are options and function pointers are values. The lemmas
  are in \<open>Lhash_Spec\<close>.
\<close>

section \<open>The table\<close>

definition kMinNumBuckets :: nat where
  "kMinNumBuckets = 16"

definition kMaxAverageChainLength :: nat where
  "kMaxAverageChainLength = 2"

definition kMinAverageChainLength :: nat where
  "kMinAverageChainLength = 1"

record 'p lhash_item =
  item_data :: "'p ptr"
  item_hash :: u32

record ('p, 'c, 'h) lhash =
  num_items :: nat
  buckets :: "'p lhash_item list list"
  num_buckets :: nat
  callback_depth :: nat
  lh_comp :: 'c
  lh_hash :: 'h

text \<open>The allocator, and what the chains of an array that is not initialised look like.\<close>

type_synonym 'p lh_env = "libc_malloc \<times> (nat \<Rightarrow> 'p lhash_item list)"

definition SIZEOF_LHASH :: nat where
  "SIZEOF_LHASH = 48"

definition SIZEOF_LHASH_ITEM :: nat where
  "SIZEOF_LHASH_ITEM = 24"

definition UINT_MAX :: nat where
  "UINT_MAX = 2 ^ 32 - 1"

definition lh_new :: "'p lh_env \<Rightarrow> 'h \<Rightarrow> 'c \<Rightarrow> ('p, 'c, 'h) lhash option" where
  "lh_new env hash cmp =
     (case heap_malloc (fst env) SIZEOF_LHASH of
        None \<Rightarrow> None
      | Some _ \<Rightarrow>
          (case array_malloc env SIZEOF_PTR (size_mul SIZEOF_PTR kMinNumBuckets) of
             None \<Rightarrow> None
           | Some bs \<Rightarrow>
               Some \<lparr>num_items = 0, buckets = mem_write bs 0 (replicate kMinNumBuckets []),
                     num_buckets = kMinNumBuckets, callback_depth = 0, lh_comp = cmp, lh_hash = hash\<rparr>))"

text \<open>The blocks that are released, in order.\<close>

datatype 'p lh_released = Item "'p lhash_item" | Buckets | Table

definition lh_free :: "('p, 'c, 'h) lhash option \<Rightarrow> 'p lh_released list" where
  "lh_free lh =
     (case lh of
        None \<Rightarrow> []
      | Some t \<Rightarrow> concat (map (\<lambda>i. map Item (buckets t ! i)) [0 ..< num_buckets t]) @ [Buckets, Table])"

definition lh_num_items :: "('p, 'c, 'h) lhash \<Rightarrow> nat" where
  "lh_num_items lh = num_items lh"

section \<open>Searching\<close>

primrec chain_find :: "('x \<Rightarrow> bool) \<Rightarrow> 'x list \<Rightarrow> nat" where
  "chain_find P [] = 0"
| "chain_find P (cur # nxt) = (if P cur then 0 else Suc (chain_find P nxt))"

definition get_next_ptr_and_hash ::
    "('h \<Rightarrow> 'p ptr \<Rightarrow> u32) \<Rightarrow> ('c \<Rightarrow> 'p ptr \<Rightarrow> 'p ptr \<Rightarrow> int) \<Rightarrow> ('p, 'c, 'h) lhash \<Rightarrow> 'p ptr \<Rightarrow>
     u32 \<times> nat \<times> nat" where
  "get_next_ptr_and_hash call_hash_func call_cmp_func lh datum =
     (let hash = call_hash_func (lh_hash lh) datum; b = unat hash mod num_buckets lh
      in (hash, b, chain_find (\<lambda>cur. call_cmp_func (lh_comp lh) (item_data cur) datum = 0) (buckets lh ! b)))"

definition get_next_ptr_by_key :: "('k \<Rightarrow> 'p ptr \<Rightarrow> int) \<Rightarrow> ('p, 'c, 'h) lhash \<Rightarrow> 'k \<Rightarrow> u32 \<Rightarrow> nat \<times> nat" where
  "get_next_ptr_by_key cmp_key lh key key_hash =
     (let b = unat key_hash mod num_buckets lh
      in (b, chain_find (\<lambda>cur. cmp_key key (item_data cur) = 0) (buckets lh ! b)))"

definition next_item :: "('p, 'c, 'h) lhash \<Rightarrow> nat \<Rightarrow> nat \<Rightarrow> 'p lhash_item option" where
  "next_item lh b i = (if i < length (buckets lh ! b) then Some (buckets lh ! b ! i) else None)"

definition lh_retrieve ::
    "('h \<Rightarrow> 'p ptr \<Rightarrow> u32) \<Rightarrow> ('c \<Rightarrow> 'p ptr \<Rightarrow> 'p ptr \<Rightarrow> int) \<Rightarrow> ('p, 'c, 'h) lhash \<Rightarrow> 'p ptr \<Rightarrow> 'p ptr" where
  "lh_retrieve call_hash_func call_cmp_func lh datum =
     (case get_next_ptr_and_hash call_hash_func call_cmp_func lh datum of
        (_, b, i) \<Rightarrow> (case next_item lh b i of None \<Rightarrow> None | Some item \<Rightarrow> item_data item))"

definition lh_retrieve_key :: "('k \<Rightarrow> 'p ptr \<Rightarrow> int) \<Rightarrow> ('p, 'c, 'h) lhash \<Rightarrow> 'k \<Rightarrow> u32 \<Rightarrow> 'p ptr" where
  "lh_retrieve_key cmp_key lh key key_hash =
     (case get_next_ptr_by_key cmp_key lh key key_hash of
        (b, i) \<Rightarrow> (case next_item lh b i of None \<Rightarrow> None | Some item \<Rightarrow> item_data item))"

section \<open>Resizing\<close>

text \<open>The loops of \<open>lh_rebucket\<close>: an item is put in front of its new chain.\<close>

definition rebucket_item :: "nat \<Rightarrow> 'p lhash_item list list \<Rightarrow> 'p lhash_item \<Rightarrow> 'p lhash_item list list" where
  "rebucket_item new_num_buckets new_buckets cur =
     (let new_bucket = unat (item_hash cur) mod new_num_buckets
      in new_buckets[new_bucket := cur # new_buckets ! new_bucket])"

definition lh_rebucket :: "'p lh_env \<Rightarrow> ('p, 'c, 'h) lhash \<Rightarrow> nat \<Rightarrow> ('p, 'c, 'h) lhash" where
  "lh_rebucket env lh new_num_buckets =
     (let alloc_size = size_mul SIZEOF_PTR new_num_buckets
      in if alloc_size div SIZEOF_PTR \<noteq> new_num_buckets then lh
         else
           (case array_malloc env SIZEOF_PTR alloc_size of
              None \<Rightarrow> lh
            | Some bs \<Rightarrow>
                (let new_buckets =
                       foldl (\<lambda>nb i. foldl (rebucket_item new_num_buckets) nb (buckets lh ! i))
                         (mem_write bs 0 (replicate (alloc_size div SIZEOF_PTR) [])) [0 ..< num_buckets lh]
                 in lh\<lparr>num_buckets := new_num_buckets, buckets := new_buckets\<rparr>)))"

definition lh_maybe_resize :: "'p lh_env \<Rightarrow> ('p, 'c, 'h) lhash \<Rightarrow> ('p, 'c, 'h) lhash" where
  "lh_maybe_resize env lh =
     (if callback_depth lh > 0 then lh
      else
        (let avg_chain_length = num_items lh div num_buckets lh
         in if avg_chain_length > kMaxAverageChainLength then
              (let new_num_buckets = size_mul (num_buckets lh) 2
               in if new_num_buckets > num_buckets lh then lh_rebucket env lh new_num_buckets else lh)
            else if avg_chain_length < kMinAverageChainLength \<and> num_buckets lh > kMinNumBuckets then
              (let new_num_buckets = num_buckets lh div 2
               in lh_rebucket env lh
                    (if new_num_buckets < kMinNumBuckets then kMinNumBuckets else new_num_buckets))
            else lh))"

section \<open>Inserting, deleting, iterating\<close>

text \<open>The results: what the function returns, then what it stores in \<open>old_data\<close>.\<close>

definition lh_insert ::
    "'p lh_env \<Rightarrow> ('h \<Rightarrow> 'p ptr \<Rightarrow> u32) \<Rightarrow> ('c \<Rightarrow> 'p ptr \<Rightarrow> 'p ptr \<Rightarrow> int) \<Rightarrow> ('p, 'c, 'h) lhash \<Rightarrow>
     'p ptr \<Rightarrow> bool \<times> 'p ptr \<times> ('p, 'c, 'h) lhash" where
  "lh_insert env call_hash_func call_cmp_func lh datum =
     (case get_next_ptr_and_hash call_hash_func call_cmp_func lh datum of
        (hash, b, i) \<Rightarrow>
          (case next_item lh b i of
             Some item \<Rightarrow>
               (True, item_data item,
                lh\<lparr>buckets := (buckets lh)[b := (buckets lh ! b)[i := item\<lparr>item_data := datum\<rparr>]]\<rparr>)
           | None \<Rightarrow>
               (case heap_malloc (fst env) SIZEOF_LHASH_ITEM of
                  None \<Rightarrow> (False, None, lh)
                | Some _ \<Rightarrow>
                    (True, None,
                     lh_maybe_resize env
                       (lh\<lparr>buckets := (buckets lh)[b := buckets lh ! b @ [\<lparr>item_data = datum, item_hash = hash\<rparr>]],
                           num_items := size_add (num_items lh) 1\<rparr>)))))"

definition lh_delete ::
    "'p lh_env \<Rightarrow> ('h \<Rightarrow> 'p ptr \<Rightarrow> u32) \<Rightarrow> ('c \<Rightarrow> 'p ptr \<Rightarrow> 'p ptr \<Rightarrow> int) \<Rightarrow> ('p, 'c, 'h) lhash \<Rightarrow>
     'p ptr \<Rightarrow> 'p ptr \<times> ('p, 'c, 'h) lhash" where
  "lh_delete env call_hash_func call_cmp_func lh datum =
     (case get_next_ptr_and_hash call_hash_func call_cmp_func lh datum of
        (_, b, i) \<Rightarrow>
          (case next_item lh b i of
             None \<Rightarrow> (None, lh)
           | Some item \<Rightarrow>
               (item_data item,
                lh_maybe_resize env
                  (lh\<lparr>buckets := (buckets lh)[b := take i (buckets lh ! b) @ drop (i + 1) (buckets lh ! b)],
                      num_items := size_add (num_items lh) (SIZE_MOD - 1)\<rparr>))))"

text \<open>
  \<open>lh_doall_arg\<close> with a callback that has a state of its own and leaves the table as it is. The
  counter of running iterations saturates.
\<close>

definition lh_doall_arg ::
    "'p lh_env \<Rightarrow> ('p ptr \<Rightarrow> 's \<Rightarrow> 's) \<Rightarrow> ('p, 'c, 'h) lhash option \<Rightarrow> 's \<Rightarrow> ('p, 'c, 'h) lhash option \<times> 's" where
  "lh_doall_arg env func lh arg =
     (case lh of
        None \<Rightarrow> (None, arg)
      | Some t \<Rightarrow>
          (let t = (if callback_depth t < UINT_MAX then t\<lparr>callback_depth := callback_depth t + 1\<rparr> else t);
               arg = foldl (\<lambda>a i. foldl (\<lambda>a cur. func (item_data cur) a) a (buckets t ! i)) arg [0 ..< num_buckets t];
               t = (if callback_depth t < UINT_MAX then t\<lparr>callback_depth := callback_depth t - 1\<rparr> else t)
           in (Some (lh_maybe_resize env t), arg)))"

definition lh_strhash :: "bytes option \<Rightarrow> u32" where
  "lh_strhash c = (case c of None \<Rightarrow> 0 | Some s \<Rightarrow> OPENSSL_hash32 s (strlen s))"

end
