(* ===== verification/Lhash_Spec.thy ===== *)
theory Lhash_Spec
  imports Lhash "HOL-Library.Multiset"
begin

text \<open>
  The hash table as a set of elements, at most one of them equal to any given one: the table's
  invariant, what looking up, inserting, deleting and resizing do to the elements, and the length of
  the chains. What is required of the hash and comparison functions is the locale \<open>hashing\<close>.
\<close>

section \<open>Hashing\<close>

locale hashing =
  fixes ok :: "'a \<Rightarrow> bool"
    and hash :: "'a \<Rightarrow> u32"
    and eq :: "'a \<Rightarrow> 'a \<Rightarrow> bool"
  assumes eq_refl: "ok a \<Longrightarrow> eq a a"
    and eq_sym: "ok a \<Longrightarrow> ok b \<Longrightarrow> eq a b \<Longrightarrow> eq b a"
    and eq_trans: "ok a \<Longrightarrow> ok b \<Longrightarrow> ok c \<Longrightarrow> eq a b \<Longrightarrow> eq b c \<Longrightarrow> eq a c"
    and eq_hash: "ok a \<Longrightarrow> ok b \<Longrightarrow> eq a b \<Longrightarrow> hash a = hash b"
begin

text \<open>The elements of \<open>M\<close> that equal \<open>d\<close>.\<close>

definition equals :: "'a \<Rightarrow> 'a multiset \<Rightarrow> 'a multiset" where
  "equals d M = filter_mset (\<lambda>x. eq x d) M"

definition unique :: "'a multiset \<Rightarrow> bool" where
  "unique M \<longleftrightarrow> (\<forall>x \<in># M. ok x) \<and> (\<forall>d. ok d \<longrightarrow> size (equals d M) \<le> 1)"

lemma equals_single: "ok a \<Longrightarrow> unique M \<Longrightarrow> x \<in># M \<Longrightarrow> eq x a \<Longrightarrow> equals a M = {#x#}"
proof -
  assume a: "ok a" "unique M" "x \<in># M" "eq x a"
  then have "x \<in># equals a M" "size (equals a M) \<le> 1" by (simp_all add: equals_def unique_def)
  then show ?thesis
    by (metis One_nat_def Suc_leI empty_iff le_antisym nonempty_has_size set_mset_empty singletonD size_1_singleton_mset
        set_mset_single)
qed

lemma same_class: "ok a \<Longrightarrow> ok x \<Longrightarrow> ok d \<Longrightarrow> eq x a \<Longrightarrow> eq a d \<longleftrightarrow> eq x d"
  using eq_trans [of x a d] eq_trans [of a x d] eq_sym [of x a] by blast

lemma equals_cong:
  assumes "ok a" and "ok d" and "eq a d" and "\<forall>x \<in># M. ok x"
  shows "equals a M = equals d M"
  unfolding equals_def
proof (rule filter_mset_cong [OF refl])
  fix x
  assume "x \<in># M"
  then have "ok x" using assms(4) by blast
  then show "eq x a = eq x d" using eq_trans [of x a d] eq_trans [of x d a] eq_sym [of a d] assms by blast
qed

lemma unique_add:
  assumes u: "unique M" and a: "ok a" and new: "equals a M = {#}"
  shows "unique (add_mset a M)" and "ok d \<Longrightarrow> equals d (add_mset a M) = (if eq a d then {#a#} else equals d M)"
proof -
  have *: "equals d (add_mset a M) = (if eq a d then {#a#} else equals d M)" if "ok d" for d
  proof (cases "eq a d")
    case True
    then have "equals d M = {#}" using new equals_cong [OF a that True] u by (simp add: unique_def)
    then show ?thesis using True by (simp add: equals_def)
  qed (simp add: equals_def)
  show "ok d \<Longrightarrow> equals d (add_mset a M) = (if eq a d then {#a#} else equals d M)" by (rule *)
  show "unique (add_mset a M)" using u a * by (auto simp: unique_def)
qed

lemma unique_remove:
  assumes u: "unique (add_mset x M)" and a: "ok a" and x: "eq x a"
  shows "unique M" and "equals a M = {#}" and "ok d \<Longrightarrow> equals d M = (if eq a d then {#} else equals d (add_mset x M))"
proof -
  have okx: "ok x" using u by (simp add: unique_def)
  have "size (equals d M) \<le> size (equals d (add_mset x M))" for d by (simp add: equals_def)
  then show "unique M" using u unfolding unique_def by (auto intro: order_trans)
  have e: "equals d M = {#}" if "ok d" "eq x d" for d
    using equals_single [OF that(1) u _ that(2)] that(2) by (simp add: equals_def)
  show "equals a M = {#}" by (rule e [OF a x])
  show "equals d M = (if eq a d then {#} else equals d (add_mset x M))" if d: "ok d"
    using same_class [OF a okx d x] e [OF d] by (auto simp: equals_def)
qed

end

section \<open>Chains and buckets\<close>

lemma chain_find_le: "chain_find P xs \<le> length xs"
  by (induction xs) auto

lemma chain_find_hit: "chain_find P xs < length xs \<Longrightarrow> P (xs ! chain_find P xs)"
  by (induction xs) (auto split: if_splits)

lemma chain_find_miss: "\<not> chain_find P xs < length xs \<Longrightarrow> x \<in> set xs \<Longrightarrow> \<not> P x"
  by (induction xs) (auto split: if_splits)

lemma mset_concat_update:
  "b < length bs \<Longrightarrow> mset (concat (bs[b := c])) + mset (bs ! b) = mset (concat bs) + mset c"
  by (induction bs arbitrary: b) (auto split: nat.splits)

definition placed :: "nat \<Rightarrow> 'p lhash_item list list \<Rightarrow> bool" where
  "placed n bs \<longleftrightarrow> length bs = n \<and> (\<forall>b < n. \<forall>it \<in> set (bs ! b). unat (item_hash it) mod n = b)"

lemma placed_update:
  "placed n bs \<Longrightarrow> (\<And>it. it \<in> set c \<Longrightarrow> unat (item_hash it) mod n = b) \<Longrightarrow> placed n (bs[b := c])"
  by (cases "b < length bs") (auto simp: placed_def nth_list_update split: if_splits)

lemma placed_in:
  assumes "placed n bs" and "it \<in> set (concat bs)"
  shows "it \<in> set (bs ! (unat (item_hash it) mod n))"
proof -
  obtain c where "c \<in> set bs" "it \<in> set c" using assms(2) by auto
  moreover from this obtain i where "i < length bs" "c = bs ! i" by (auto simp: in_set_conv_nth)
  ultimately show ?thesis using assms(1) by (simp add: placed_def)
qed

lemma foldl_concat: "foldl (\<lambda>a i. foldl f a (g i)) a xs = foldl f a (concat (map g xs))"
  by (induction xs arbitrary: a) auto

lemma rebucket_item:
  assumes "placed n nb" and "0 < n"
  shows "placed n (rebucket_item n nb it)" and "mset (concat (rebucket_item n nb it)) = add_mset it (mset (concat nb))"
proof -
  let ?b = "unat (item_hash it) mod n"
  have b: "?b < length nb" using assms by (simp add: placed_def)
  show "placed n (rebucket_item n nb it)"
    unfolding rebucket_item_def Let_def
    by (rule placed_update [OF assms(1)]) (use assms b in \<open>auto simp: placed_def\<close>)
  show "mset (concat (rebucket_item n nb it)) = add_mset it (mset (concat nb))"
    using mset_concat_update [OF b, of "it # nb ! ?b"] by (simp add: rebucket_item_def Let_def)
qed

lemma rebucket_items:
  "placed n nb \<Longrightarrow> 0 < n \<Longrightarrow>
   placed n (foldl (rebucket_item n) nb xs) \<and> mset (concat (foldl (rebucket_item n) nb xs)) = mset xs + mset (concat nb)"
  by (induction xs arbitrary: nb) (simp_all add: rebucket_item)

section \<open>The invariant\<close>

definition items :: "('p, 'c, 'h) lhash \<Rightarrow> 'p lhash_item multiset" where
  "items lh = mset (concat (buckets lh))"

definition lh_elements :: "('p, 'c, 'h) lhash \<Rightarrow> 'p ptr multiset" where
  "lh_elements lh = image_mset item_data (items lh)"

abbreviation lh_eq :: "('c \<Rightarrow> 'p ptr \<Rightarrow> 'p ptr \<Rightarrow> int) \<Rightarrow> ('p, 'c, 'h) lhash \<Rightarrow> 'p ptr \<Rightarrow> 'p ptr \<Rightarrow> bool" where
  "lh_eq cc lh \<equiv> \<lambda>a b. cc (lh_comp lh) a b = 0"

definition lh_inv ::
    "('p ptr \<Rightarrow> bool) \<Rightarrow> ('h \<Rightarrow> 'p ptr \<Rightarrow> u32) \<Rightarrow> ('c \<Rightarrow> 'p ptr \<Rightarrow> 'p ptr \<Rightarrow> int) \<Rightarrow> ('p, 'c, 'h) lhash \<Rightarrow> bool" where
  "lh_inv ok ch cc lh \<longleftrightarrow>
     hashing ok (ch (lh_hash lh)) (lh_eq cc lh) \<and>
     kMinNumBuckets \<le> num_buckets lh \<and> num_buckets lh \<le> ADDRESS_SPACE div 8 \<and>
     placed (num_buckets lh) (buckets lh) \<and>
     num_items lh = size (items lh) \<and> num_items lh < SIZE_MOD \<and>
     (\<forall>it \<in># items lh. item_hash it = ch (lh_hash lh) (item_data it)) \<and>
     hashing.unique ok (lh_eq cc lh) (lh_elements lh)"

text \<open>The element of the table that equals \<open>d\<close>.\<close>

definition lh_lookup :: "('c \<Rightarrow> 'p ptr \<Rightarrow> 'p ptr \<Rightarrow> int) \<Rightarrow> ('p, 'c, 'h) lhash \<Rightarrow> 'p ptr \<Rightarrow> 'p ptr option" where
  "lh_lookup cc lh d = find (\<lambda>x. lh_eq cc lh x d) (map item_data (concat (buckets lh)))"


lemma lh_elements_list: "lh_elements lh = mset (map item_data (concat (buckets lh)))"
  by (simp add: lh_elements_def items_def)

lemma find_SomeD: "find P xs = Some x \<Longrightarrow> x \<in> set xs \<and> P x"
  by (induction xs) (auto split: if_splits)

lemma lh_lookup_Some: "lh_lookup cc lh d = Some x \<Longrightarrow> x \<in># lh_elements lh \<and> lh_eq cc lh x d"
  unfolding lh_lookup_def lh_elements_list by (drule find_SomeD) simp

lemma lh_lookup_None: "lh_lookup cc lh d = None \<longleftrightarrow> (\<forall>x \<in># lh_elements lh. \<not> lh_eq cc lh x d)"
  unfolding lh_lookup_def lh_elements_list by (auto simp: find_None_iff)

lemma lookup_equals:
  assumes "hashing ok h (lh_eq cc lh)" and "hashing.unique ok (lh_eq cc lh) (lh_elements lh)" and "ok d"
  shows "hashing.equals (lh_eq cc lh) d (lh_elements lh) = (case lh_lookup cc lh d of None \<Rightarrow> {#} | Some x \<Rightarrow> {#x#})"
proof (cases "lh_lookup cc lh d")
  case None
  then have "\<forall>x \<in># lh_elements lh. \<not> lh_eq cc lh x d" by (simp only: lh_lookup_None)
  then show ?thesis using None by (simp add: hashing.equals_def [OF assms(1)])
next
  case (Some x)
  then show ?thesis
    using hashing.equals_single [OF assms(1,3,2)] lh_lookup_Some [OF Some] by auto
qed

text \<open>The pointer \<open>get_next_ptr_and_hash\<close> finds is at the element the table has for \<open>d\<close>, if there is one.\<close>

lemma located:
  assumes inv: "lh_inv ok ch cc lh" and d: "ok d" and g: "get_next_ptr_and_hash ch cc lh d = (h, b, i)"
  shows "h = ch (lh_hash lh) d" and "b = unat h mod num_buckets lh" and "b < length (buckets lh)"
    and "lh_lookup cc lh d = map_option item_data (next_item lh b i)"
    and "i \<le> length (buckets lh ! b)"
proof -
  let ?c = "buckets lh ! b" and ?P = "\<lambda>cur. lh_eq cc lh (item_data cur) d"
  note I = inv [unfolded lh_inv_def]
  have h: "hashing ok (ch (lh_hash lh)) (lh_eq cc lh)" and u: "hashing.unique ok (lh_eq cc lh) (lh_elements lh)"
    using I by blast+
  show hb: "h = ch (lh_hash lh) d" "b = unat h mod num_buckets lh" using g by (auto simp: get_next_ptr_and_hash_def Let_def)
  have i: "i = chain_find ?P ?c" using g by (auto simp: get_next_ptr_and_hash_def Let_def)
  show b: "b < length (buckets lh)" using I hb by (auto simp: placed_def kMinNumBuckets_def)
  show "i \<le> length ?c" using i chain_find_le by metis
  show "lh_lookup cc lh d = map_option item_data (next_item lh b i)"
  proof (cases "i < length ?c")
    case True
    have "?c ! i \<in> set (concat (buckets lh))" using nth_mem [OF True] nth_mem [OF b] by (auto simp: set_concat)
    then have m: "item_data (?c ! i) \<in># lh_elements lh" by (simp add: lh_elements_def items_def)
    have e: "lh_eq cc lh (item_data (?c ! i)) d" using chain_find_hit [of ?P ?c] True i by blast
    have "{#item_data (?c ! i)#} = (case lh_lookup cc lh d of None \<Rightarrow> {#} | Some x \<Rightarrow> {#x#})"
      using hashing.equals_single [OF h d u m e] lookup_equals [of ok _ cc lh d, OF h u d] by simp
    then show ?thesis using True by (simp add: next_item_def split: option.splits)
  next
    case False
    have "\<not> lh_eq cc lh (item_data it) d" if "it \<in> set (concat (buckets lh))" for it
    proof
      assume e: "lh_eq cc lh (item_data it) d"
      have it: "it \<in># items lh" using that by (simp add: items_def)
      then have "item_data it \<in># lh_elements lh" by (simp add: lh_elements_def)
      then have "ok (item_data it)" using I hashing.unique_def [OF h] by blast
      then have "item_hash it = h" using hashing.eq_hash [OF h _ d e] I it hb by auto
      then have "it \<in> set ?c" using placed_in [of "num_buckets lh" "buckets lh" it] that I hb by auto
      then show False using chain_find_miss [of ?P ?c it] False i e by blast
    qed
    then have "lh_lookup cc lh d = None" by (auto simp: lh_lookup_None lh_elements_def items_def)
    then show ?thesis using False by (simp add: next_item_def)
  qed
qed

theorem retrieve_lookup:
  assumes "lh_inv ok ch cc lh" and "ok d"
  shows "lh_retrieve ch cc lh d = (case lh_lookup cc lh d of None \<Rightarrow> None | Some x \<Rightarrow> x)"
proof -
  obtain h b i where g: "get_next_ptr_and_hash ch cc lh d = (h, b, i)" by (metis prod_cases3)
  show ?thesis using located(4) [OF assms g] by (simp add: lh_retrieve_def g split: option.splits)
qed

section \<open>Resizing\<close>

lemma rebucket_result:
  assumes inv: "lh_inv ok ch cc lh" and libc: "libc_wf (fst env)" and n: "kMinNumBuckets \<le> n" "n \<le> HEAP_LIMIT div 8"
  shows "lh_inv ok ch cc (lh_rebucket env lh n)" and "items (lh_rebucket env lh n) = items lh"
    and "num_buckets (lh_rebucket env lh n) = (if array_malloc env 8 (8 * n) = None then num_buckets lh else n)"
    and "lh_comp (lh_rebucket env lh n) = lh_comp lh" and "lh_hash (lh_rebucket env lh n) = lh_hash lh"
    and "callback_depth (lh_rebucket env lh n) = callback_depth lh" and "num_items (lh_rebucket env lh n) = num_items lh"
proof -
  let ?t = "lh_rebucket env lh n"
  have sz: "size_mul 8 n = 8 * n" using n by (simp add: size_arith HEAP_LIMIT_def SIZE_MOD_def)
  have "lh_inv ok ch cc ?t \<and> items ?t = items lh \<and>
    num_buckets ?t = (if array_malloc env 8 (8 * n) = None then num_buckets lh else n) \<and>
    lh_comp ?t = lh_comp lh \<and> lh_hash ?t = lh_hash lh \<and> callback_depth ?t = callback_depth lh \<and> num_items ?t = num_items lh"
  proof (cases "array_malloc env 8 (8 * n)")
    case None
    then show ?thesis using inv by (simp add: lh_rebucket_def SIZEOF_PTR_def sz)
  next
    case (Some bs)
    have len: "length bs = n" "n \<le> ADDRESS_SPACE div 8" using pointers.malloc_length [OF libc n(2) Some] by auto
    have lb: "length (buckets lh) = num_buckets lh" using inv by (simp add: lh_inv_def placed_def)
    let ?nb = "foldl (rebucket_item n) (replicate n []) (concat (buckets lh))"
    have t: "?t = lh\<lparr>num_buckets := n, buckets := ?nb\<rparr>"
      using Some len map_nth [of "buckets lh", unfolded lb]
      by (simp add: lh_rebucket_def SIZEOF_PTR_def sz mem_write_def foldl_concat)
    have "placed n (replicate n [])" by (simp add: placed_def)
    then have "placed n ?nb" "mset (concat ?nb) = mset (concat (buckets lh))"
      using rebucket_items [of n "replicate n []" "concat (buckets lh)"] n by (auto simp: kMinNumBuckets_def)
    then show ?thesis
      using inv len n by (simp add: t Some lh_inv_def items_def lh_elements_def)
  qed
  then show "lh_inv ok ch cc ?t" "items ?t = items lh"
    "num_buckets ?t = (if array_malloc env 8 (8 * n) = None then num_buckets lh else n)"
    "lh_comp ?t = lh_comp lh" "lh_hash ?t = lh_hash lh" "callback_depth ?t = callback_depth lh" "num_items ?t = num_items lh"
    by blast+
qed

lemma resize_result:
  assumes inv: "lh_inv ok ch cc lh" and libc: "libc_wf (fst env)"
  shows "lh_inv ok ch cc (lh_maybe_resize env lh)" and "items (lh_maybe_resize env lh) = items lh"
    and "lh_comp (lh_maybe_resize env lh) = lh_comp lh" and "lh_hash (lh_maybe_resize env lh) = lh_hash lh"
    and "callback_depth (lh_maybe_resize env lh) = callback_depth lh"
    and "num_items (lh_maybe_resize env lh) = num_items lh"
proof -
  have nb: "kMinNumBuckets \<le> num_buckets lh" "num_buckets lh \<le> ADDRESS_SPACE div 8" using inv by (auto simp: lh_inv_def)
  have two: "size_mul (num_buckets lh) 2 = num_buckets lh * 2" using nb by (simp add: size_arith ADDRESS_SPACE_def SIZE_MOD_def)
  have up: "num_buckets lh * 2 \<le> HEAP_LIMIT div 8" using nb by (simp add: ADDRESS_SPACE_def HEAP_LIMIT_def)
  have down: "num_buckets lh div 2 \<le> HEAP_LIMIT div 8" "kMinNumBuckets \<le> HEAP_LIMIT div 8"
    using nb by (simp_all add: ADDRESS_SPACE_def HEAP_LIMIT_def kMinNumBuckets_def)
  note r = rebucket_result [OF inv libc]
  show "lh_inv ok ch cc (lh_maybe_resize env lh)" "items (lh_maybe_resize env lh) = items lh"
    "lh_comp (lh_maybe_resize env lh) = lh_comp lh" "lh_hash (lh_maybe_resize env lh) = lh_hash lh"
    "callback_depth (lh_maybe_resize env lh) = callback_depth lh" "num_items (lh_maybe_resize env lh) = num_items lh"
    using inv nb up down by (simp_all add: lh_maybe_resize_def Let_def two r)
qed

section \<open>The operations\<close>

lemma new_inv:
  assumes "hashing ok (ch h) (\<lambda>a b. cc c a b = 0)" and "libc_wf (fst env)" and "lh_new env h c = Some lh"
  shows "lh_inv ok ch cc lh" and "lh_elements lh = {#}" and "num_items lh = 0" and "callback_depth lh = 0"
    and "lh_hash lh = h" and "lh_comp lh = c"
proof -
  obtain bs where bs: "array_malloc env 8 (8 * 16) = Some bs"
    "lh = \<lparr>num_items = 0, buckets = mem_write bs 0 (replicate 16 []), num_buckets = 16, callback_depth = 0,
           lh_comp = c, lh_hash = h\<rparr>"
    using assms(3) by (auto simp: lh_new_def SIZEOF_PTR_def kMinNumBuckets_def size_mul_def SIZE_MOD_def split: option.splits)
  have "length bs = 16" using pointers.malloc_length [OF assms(2) _ bs(1)] by (simp add: HEAP_LIMIT_def)
  then have lh: "lh = \<lparr>num_items = 0, buckets = replicate 16 [], num_buckets = 16, callback_depth = 0, lh_comp = c, lh_hash = h\<rparr>"
    using bs(2) by (simp add: mem_write_def)
  have "hashing.unique ok (\<lambda>a b. cc c a b = 0) {#}"
    by (simp add: hashing.unique_def [OF assms(1)] hashing.equals_def [OF assms(1)])
  then show "lh_inv ok ch cc lh"
    using assms(1)
    by (simp add: lh lh_inv_def placed_def items_def lh_elements_def kMinNumBuckets_def ADDRESS_SPACE_def SIZE_MOD_def)
  show "lh_elements lh = {#}" "num_items lh = 0" "callback_depth lh = 0" "lh_hash lh = h" "lh_comp lh = c"
    by (simp_all add: lh lh_elements_def items_def)
qed

text \<open>A change of one chain, the hashes of its items being in place.\<close>

lemma chain_change:
  assumes inv: "lh_inv ok ch cc lh" and b: "b < length (buckets lh)"
    and c: "\<And>it. it \<in> set c \<Longrightarrow> unat (item_hash it) mod num_buckets lh = b"
    and h: "\<And>it. it \<in> set c \<Longrightarrow> item_hash it = ch (lh_hash lh) (item_data it)"
    and n: "n < SIZE_MOD" "n + length (buckets lh ! b) = num_items lh + length c"
    and t: "t = lh\<lparr>buckets := (buckets lh)[b := c], num_items := n\<rparr>"
    and u: "hashing.unique ok (lh_eq cc lh) (lh_elements t)"
  shows "lh_inv ok ch cc t"
proof -
  note I = inv [unfolded lh_inv_def]
  have m: "items t + mset (buckets lh ! b) = items lh + mset c"
    using mset_concat_update [OF b, of c] by (simp add: t items_def)
  then have "size (items t) + length (buckets lh ! b) = size (items lh) + length c"
    by (metis size_mset size_union)
  then have sz: "n = size (items t)" using n(2) I by simp
  have "item_hash it = ch (lh_hash lh) (item_data it)" if "it \<in># items t" for it
  proof -
    have "it \<in># items lh + mset c" using that m by (metis union_iff)
    then show ?thesis using I h by auto
  qed
  moreover have "placed (num_buckets lh) ((buckets lh)[b := c])" using placed_update [OF _ c] I by blast
  moreover have "num_buckets t = num_buckets lh" "buckets t = (buckets lh)[b := c]" "num_items t = n"
    "lh_comp t = lh_comp lh" "lh_hash t = lh_hash lh" by (simp_all add: t)
  ultimately show ?thesis using I sz n(1) u unfolding lh_inv_def by metis
qed

lemma lookup_is:
  assumes "lh_inv ok ch cc lh" and "ok d"
    and e: "hashing.equals (lh_eq cc lh) d (lh_elements lh) = (case r of None \<Rightarrow> {#} | Some x \<Rightarrow> {#x#})"
  shows "lh_lookup cc lh d = r"
proof -
  have "hashing ok (ch (lh_hash lh)) (lh_eq cc lh)" "hashing.unique ok (lh_eq cc lh) (lh_elements lh)"
    using assms(1) by (auto simp: lh_inv_def)
  then have "(case lh_lookup cc lh d of None \<Rightarrow> {#} | Some x \<Rightarrow> {#x#}) = (case r of None \<Rightarrow> {#} | Some x \<Rightarrow> {#x#})"
    using lookup_equals [of ok _ cc lh d] assms(2) e by metis
  then show ?thesis by (simp split: option.splits)
qed

text \<open>What the pointer found for \<open>x\<close> says of the item it points to.\<close>

lemma hit:
  assumes inv: "lh_inv ok ch cc lh" and x: "ok x" and g: "get_next_ptr_and_hash ch cc lh x = (h, b, j)"
    and it: "next_item lh b j = Some it"
  shows "b < length (buckets lh)" and "j < length (buckets lh ! b)" and "buckets lh ! b ! j = it"
    and "it \<in># items lh" and "lh_lookup cc lh x = Some (item_data it)" and "lh_eq cc lh (item_data it) x"
    and "item_hash it = h" and "b = unat h mod num_buckets lh"
    and "\<And>it. it \<in> set (buckets lh ! b) \<Longrightarrow> unat (item_hash it) mod num_buckets lh = b"
    and "\<And>it. it \<in> set (buckets lh ! b) \<Longrightarrow> item_hash it = ch (lh_hash lh) (item_data it)"
proof -
  note l = located [OF inv x g] and I = inv [unfolded lh_inv_def]
  show b: "b < length (buckets lh)" by (rule l)
  show j: "j < length (buckets lh ! b)" and c: "buckets lh ! b ! j = it" using it by (auto simp: next_item_def split: if_splits)
  have s: "it \<in># items lh" if "it \<in> set (buckets lh ! b)" for it
    using that nth_mem [OF b] by (auto simp: items_def)
  show i: "it \<in># items lh" using s j c nth_mem by metis
  show lk: "lh_lookup cc lh x = Some (item_data it)" using l(4) it by simp
  show e: "lh_eq cc lh (item_data it) x" using lh_lookup_Some [OF lk] by blast
  have hs: "hashing ok (ch (lh_hash lh)) (lh_eq cc lh)" "hashing.unique ok (lh_eq cc lh) (lh_elements lh)"
    using I by auto
  have "ok (item_data it)" using i hs(2) by (simp add: hashing.unique_def [OF hs(1)] lh_elements_def)
  then have "ch (lh_hash lh) (item_data it) = ch (lh_hash lh) x" by (rule hashing.eq_hash [OF hs(1) _ x e])
  then show "item_hash it = h" using I i l(1) by auto
  show "b = unat h mod num_buckets lh" by (rule l)
  show "\<And>it. it \<in> set (buckets lh ! b) \<Longrightarrow> unat (item_hash it) mod num_buckets lh = b" using I b by (auto simp: placed_def)
  show "\<And>it. it \<in> set (buckets lh ! b) \<Longrightarrow> item_hash it = ch (lh_hash lh) (item_data it)" using I s by blast
qed

lemma replace_item:
  assumes inv: "lh_inv ok ch cc lh" and x: "ok x" and g: "get_next_ptr_and_hash ch cc lh x = (h, b, j)"
    and it: "next_item lh b j = Some it"
    and t: "t = lh\<lparr>buckets := (buckets lh)[b := (buckets lh ! b)[j := it\<lparr>item_data := x\<rparr>]]\<rparr>"
  shows "lh_inv ok ch cc t" and "ok d \<Longrightarrow> lh_lookup cc t d = (if lh_eq cc lh x d then Some x else lh_lookup cc lh d)"
proof -
  note H = hit [OF inv x g it] and I = inv [unfolded lh_inv_def]
  have hs: "hashing ok (ch (lh_hash lh)) (lh_eq cc lh)" "hashing.unique ok (lh_eq cc lh) (lh_elements lh)" using I by auto
  let ?c = "buckets lh ! b" and ?it = "it\<lparr>item_data := x\<rparr>"
  obtain M where M: "lh_elements lh = add_mset (item_data it) M"
    using multi_member_split [OF H(4)] by (auto simp: lh_elements_def)
  obtain R where R: "mset ?c = add_mset it R" "mset (?c[j := ?it]) = add_mset ?it R"
    using H(2,3) by (metis insert_DiffM mset_update nth_mem set_mset_mset)
  have "items t + mset ?c = items lh + mset (?c[j := ?it])"
    using mset_concat_update [OF H(1), of "?c[j := ?it]"] by (simp add: t items_def)
  then have "add_mset it (items t) = add_mset ?it (items lh)" by (simp add: R)
  then have "add_mset (item_data it) (lh_elements t) = add_mset x (lh_elements lh)"
    unfolding lh_elements_def by (metis (no_types, lifting) image_mset_add_mset lhash_item.select_convs(1) lhash_item.update_convs(1) lhash_item.surjective)
  then have el: "lh_elements t = add_mset x M" by (simp add: M add_mset_commute [of x])
  note rem = hashing.unique_remove [OF hs(1) hs(2) [unfolded M] x H(6)]
  note add = hashing.unique_add [OF hs(1) rem(1) x rem(2)]
  have su: "i = ?it \<or> i \<in> set ?c" if "i \<in> set (?c[j := ?it])" for i
    using that set_update_subset_insert by fastforce
  show inv': "lh_inv ok ch cc t"
  proof (rule chain_change [OF inv H(1)])
    show "t = lh\<lparr>buckets := (buckets lh)[b := ?c[j := ?it]], num_items := num_items lh\<rparr>" by (simp add: t)
    show "hashing.unique ok (lh_eq cc lh) (lh_elements t)" unfolding el by (rule add)
    show "unat (item_hash i) mod num_buckets lh = b" if "i \<in> set (?c[j := ?it])" for i
      using su [OF that] H(7,8,9) by auto
    show "item_hash i = ch (lh_hash lh) (item_data i)" if "i \<in> set (?c[j := ?it])" for i
      using su [OF that] H(7,10) located(1) [OF inv x g] by auto
  qed (use I in auto)
  show "lh_lookup cc t d = (if lh_eq cc lh x d then Some x else lh_lookup cc lh d)" if d: "ok d"
  proof (rule lookup_is [OF inv' d])
    have "hashing.equals (lh_eq cc lh) d (lh_elements t) = (if lh_eq cc lh x d then {#x#} else
        (case lh_lookup cc lh d of None \<Rightarrow> {#} | Some x \<Rightarrow> {#x#}))"
      using add(2) [OF d] rem(3) [OF d] lookup_equals [of ok _ cc lh d, OF hs d] by (simp add: el M)
    then show "hashing.equals (lh_eq cc t) d (lh_elements t) =
      (case if lh_eq cc lh x d then Some x else lh_lookup cc lh d of None \<Rightarrow> {#} | Some x \<Rightarrow> {#x#})"
      by (simp add: t)
  qed
qed

lemma append_item:
  assumes inv: "lh_inv ok ch cc lh" and x: "ok x" and g: "get_next_ptr_and_hash ch cc lh x = (h, b, j)"
    and it: "next_item lh b j = None" and n: "num_items lh + 1 < SIZE_MOD"
    and t: "t = lh\<lparr>buckets := (buckets lh)[b := buckets lh ! b @ [\<lparr>item_data = x, item_hash = h\<rparr>]],
                  num_items := num_items lh + 1\<rparr>"
  shows "lh_inv ok ch cc t" and "ok d \<Longrightarrow> lh_lookup cc t d = (if lh_eq cc lh x d then Some x else lh_lookup cc lh d)"
proof -
  note l = located [OF inv x g] and I = inv [unfolded lh_inv_def]
  have hs: "hashing ok (ch (lh_hash lh)) (lh_eq cc lh)" "hashing.unique ok (lh_eq cc lh) (lh_elements lh)" using I by auto
  let ?c = "buckets lh ! b" and ?it = "\<lparr>item_data = x, item_hash = h\<rparr>"
  have "items t = add_mset ?it (items lh)"
    using mset_concat_update [OF l(3), of "?c @ [?it]"] by (simp add: t items_def)
  then have el: "lh_elements t = add_mset x (lh_elements lh)" by (simp add: lh_elements_def)
  have "hashing.equals (lh_eq cc lh) x (lh_elements lh) = {#}"
    using lookup_equals [of ok _ cc lh x, OF hs x] l(4) it by simp
  note add = hashing.unique_add [OF hs x this]
  have old: "item_hash i = ch (lh_hash lh) (item_data i) \<and> unat (item_hash i) mod num_buckets lh = b" if "i \<in> set ?c" for i
    using that I l(3) nth_mem [OF l(3)] by (auto simp: items_def placed_def)
  show inv': "lh_inv ok ch cc t"
  proof (rule chain_change [OF inv l(3)])
    show "hashing.unique ok (lh_eq cc lh) (lh_elements t)" unfolding el by (rule add)
    show "unat (item_hash i) mod num_buckets lh = b" if "i \<in> set (?c @ [?it])" for i
      using that old l(2) by auto
    show "item_hash i = ch (lh_hash lh) (item_data i)" if "i \<in> set (?c @ [?it])" for i
      using that old l(1) by auto
  qed (use n t in auto)
  show "lh_lookup cc t d = (if lh_eq cc lh x d then Some x else lh_lookup cc lh d)" if d: "ok d"
  proof (rule lookup_is [OF inv' d])
    show "hashing.equals (lh_eq cc t) d (lh_elements t) =
      (case if lh_eq cc lh x d then Some x else lh_lookup cc lh d of None \<Rightarrow> {#} | Some x \<Rightarrow> {#x#})"
      using add(2) [OF d] lookup_equals [of ok _ cc lh d, OF hs d] by (simp add: el) (simp add: t)
  qed
qed

lemma remove_item:
  assumes inv: "lh_inv ok ch cc lh" and x: "ok x" and g: "get_next_ptr_and_hash ch cc lh x = (h, b, j)"
    and it: "next_item lh b j = Some it"
    and t: "t = lh\<lparr>buckets := (buckets lh)[b := take j (buckets lh ! b) @ drop (j + 1) (buckets lh ! b)],
                  num_items := num_items lh - 1\<rparr>"
  shows "lh_inv ok ch cc t" and "ok d \<Longrightarrow> lh_lookup cc t d = (if lh_eq cc lh x d then None else lh_lookup cc lh d)"
    and "0 < num_items lh"
proof -
  note H = hit [OF inv x g it] and I = inv [unfolded lh_inv_def]
  have hs: "hashing ok (ch (lh_hash lh)) (lh_eq cc lh)" "hashing.unique ok (lh_eq cc lh) (lh_elements lh)" using I by auto
  let ?c = "buckets lh ! b" and ?d = "take j (buckets lh ! b) @ drop (j + 1) (buckets lh ! b)"
  have c: "mset ?c = add_mset it (mset ?d)"
    using arg_cong [OF id_take_nth_drop [OF H(2)], of mset] H(3) by simp
  have "items t + mset ?c = items lh + mset ?d"
    using mset_concat_update [OF H(1), of ?d] by (simp add: t items_def)
  then have m: "items lh = add_mset it (items t)" by (simp add: c)
  then have M: "lh_elements lh = add_mset (item_data it) (lh_elements t)" by (simp add: lh_elements_def)
  have n: "num_items lh = size (items t) + 1" using I m by simp
  then show "0 < num_items lh" by simp
  note rem = hashing.unique_remove [OF hs(1) hs(2) [unfolded M] x H(6)]
  have su: "i \<in> set ?c" if "i \<in> set ?d" for i using that by (auto dest: in_set_takeD in_set_dropD)
  show inv': "lh_inv ok ch cc t"
  proof (rule chain_change [OF inv H(1)])
    show "num_items lh - 1 + length ?c = num_items lh + length ?d" using n H(2) by simp
    have "num_items lh < SIZE_MOD" using I by blast
    then show "num_items lh - 1 < SIZE_MOD" by linarith
    show "unat (item_hash i) mod num_buckets lh = b" if "i \<in> set ?d" for i by (rule H(9) [OF su [OF that]])
    show "item_hash i = ch (lh_hash lh) (item_data i)" if "i \<in> set ?d" for i by (rule H(10) [OF su [OF that]])
  qed (rule t, rule rem)
  show "lh_lookup cc t d = (if lh_eq cc lh x d then None else lh_lookup cc lh d)" if d: "ok d"
  proof (rule lookup_is [OF inv' d])
    have "hashing.equals (lh_eq cc lh) d (lh_elements t) =
      (case if lh_eq cc lh x d then None else lh_lookup cc lh d of None \<Rightarrow> {#} | Some x \<Rightarrow> {#x#})"
      using rem(3) [OF d] lookup_equals [of ok _ cc lh d, OF hs d] M by simp
    then show "hashing.equals (lh_eq cc t) d (lh_elements t) =
      (case if lh_eq cc lh x d then None else lh_lookup cc lh d of None \<Rightarrow> {#} | Some x \<Rightarrow> {#x#})"
      by (simp add: t)
  qed
qed

text \<open>Looking up goes by the elements, so resizing does not change it.\<close>

lemma resize_lookup:
  assumes "lh_inv ok ch cc lh" and "libc_wf (fst env)" and "ok d"
  shows "lh_lookup cc (lh_maybe_resize env lh) d = lh_lookup cc lh d"
proof -
  note r = resize_result [OF assms(1,2)]
  have hs: "hashing ok (ch (lh_hash lh)) (lh_eq cc lh)" "hashing.unique ok (lh_eq cc lh) (lh_elements lh)"
    using assms(1) by (auto simp: lh_inv_def)
  show ?thesis
    by (rule lookup_is [OF r(1) assms(3)]) (use lookup_equals [of ok _ cc lh d, OF hs assms(3)] r in \<open>simp add: lh_elements_def\<close>)
qed

text \<open>Looking up after \<open>x\<close> has come in: the equal element, if there was one, is gone.\<close>

theorem insert_result:
  assumes inv: "lh_inv ok ch cc lh" and libc: "libc_wf (fst env)" and x: "ok x" and n: "num_items lh + 1 < SIZE_MOD"
    and i: "lh_insert env ch cc lh x = (r, old, lh')"
  shows "lh_inv ok ch cc lh'"
    and "old = (if r then (case lh_lookup cc lh x of None \<Rightarrow> None | Some y \<Rightarrow> y) else None)"
    and "ok d \<Longrightarrow> lh_lookup cc lh' d = (if r \<and> lh_eq cc lh x d then Some x else lh_lookup cc lh d)"
    and "num_items lh' = num_items lh + (if r \<and> lh_lookup cc lh x = None then 1 else 0)"
    and "r \<longleftrightarrow> lh_lookup cc lh x \<noteq> None \<or> heap_malloc (fst env) SIZEOF_LHASH_ITEM \<noteq> None"
    and "lh_comp lh' = lh_comp lh \<and> lh_hash lh' = lh_hash lh \<and> callback_depth lh' = callback_depth lh"
proof -
  obtain h b j where g: "get_next_ptr_and_hash ch cc lh x = (h, b, j)" by (metis prod_cases3)
  note l = located [OF inv x g]
  have "lh_inv ok ch cc lh' \<and>
     old = (if r then (case lh_lookup cc lh x of None \<Rightarrow> None | Some y \<Rightarrow> y) else None) \<and>
     (\<forall>d. ok d \<longrightarrow> lh_lookup cc lh' d = (if r \<and> lh_eq cc lh x d then Some x else lh_lookup cc lh d)) \<and>
     num_items lh' = num_items lh + (if r \<and> lh_lookup cc lh x = None then 1 else 0) \<and>
     (r \<longleftrightarrow> lh_lookup cc lh x \<noteq> None \<or> heap_malloc (fst env) SIZEOF_LHASH_ITEM \<noteq> None) \<and>
     lh_comp lh' = lh_comp lh \<and> lh_hash lh' = lh_hash lh \<and> callback_depth lh' = callback_depth lh"
  proof (cases "next_item lh b j")
    case (Some item)
    then show ?thesis using replace_item [OF inv x g Some refl] l(4) i by (auto simp: lh_insert_def g)
  next
    case None
    then have no: "lh_lookup cc lh x = None" using l(4) by simp
    show ?thesis
    proof (cases "heap_malloc (fst env) SIZEOF_LHASH_ITEM")
      case (Some m)
      note a = append_item [OF inv x g None n refl]
      show ?thesis
        using i None Some a resize_result [OF a(1) libc] resize_lookup [OF a(1) libc] no n
        by (auto simp: lh_insert_def g size_arith)
    qed (use i None inv no in \<open>auto simp: lh_insert_def g\<close>)
  qed
  then show "lh_inv ok ch cc lh'"
    "old = (if r then (case lh_lookup cc lh x of None \<Rightarrow> None | Some y \<Rightarrow> y) else None)"
    "ok d \<Longrightarrow> lh_lookup cc lh' d = (if r \<and> lh_eq cc lh x d then Some x else lh_lookup cc lh d)"
    "num_items lh' = num_items lh + (if r \<and> lh_lookup cc lh x = None then 1 else 0)"
    "r \<longleftrightarrow> lh_lookup cc lh x \<noteq> None \<or> heap_malloc (fst env) SIZEOF_LHASH_ITEM \<noteq> None"
    "lh_comp lh' = lh_comp lh \<and> lh_hash lh' = lh_hash lh \<and> callback_depth lh' = callback_depth lh"
    by auto
qed

theorem delete_result:
  assumes inv: "lh_inv ok ch cc lh" and libc: "libc_wf (fst env)" and x: "ok x"
    and i: "lh_delete env ch cc lh x = (old, lh')"
  shows "lh_inv ok ch cc lh'"
    and "old = (case lh_lookup cc lh x of None \<Rightarrow> None | Some y \<Rightarrow> y)"
    and "ok d \<Longrightarrow> lh_lookup cc lh' d = (if lh_eq cc lh x d then None else lh_lookup cc lh d)"
    and "num_items lh' = num_items lh - (if lh_lookup cc lh x = None then 0 else 1)"
    and "lh_comp lh' = lh_comp lh \<and> lh_hash lh' = lh_hash lh \<and> callback_depth lh' = callback_depth lh"
proof -
  obtain h b j where g: "get_next_ptr_and_hash ch cc lh x = (h, b, j)" by (metis prod_cases3)
  note l = located [OF inv x g]
  have "lh_inv ok ch cc lh' \<and> old = (case lh_lookup cc lh x of None \<Rightarrow> None | Some y \<Rightarrow> y) \<and>
     (\<forall>d. ok d \<longrightarrow> lh_lookup cc lh' d = (if lh_eq cc lh x d then None else lh_lookup cc lh d)) \<and>
     num_items lh' = num_items lh - (if lh_lookup cc lh x = None then 0 else 1) \<and>
     lh_comp lh' = lh_comp lh \<and> lh_hash lh' = lh_hash lh \<and> callback_depth lh' = callback_depth lh"
  proof (cases "next_item lh b j")
    case (Some item)
    note a = remove_item [OF inv x g Some refl]
    have "num_items lh < SIZE_MOD" using inv by (simp add: lh_inv_def)
    then have dec: "size_add (num_items lh) (SIZE_MOD - 1) = num_items lh - 1" using a(3) by (simp add: size_add_def mod_if)
    let ?t = "lh\<lparr>buckets := (buckets lh)[b := take j (buckets lh ! b) @ drop (j + 1) (buckets lh ! b)], num_items := num_items lh - 1\<rparr>"
    have "lh' = lh_maybe_resize env ?t" "old = item_data item"
      using i Some by (auto simp: lh_delete_def g dec simp del: One_nat_def)
    then show ?thesis
      using Some a(2) resize_result [OF a(1) libc] resize_lookup [OF a(1) libc] l(4) by simp
  next
    case None
    then have no: "lh_lookup cc lh x = None" using l(4) by simp
    have hs: "hashing ok (ch (lh_hash lh)) (lh_eq cc lh)" "hashing.unique ok (lh_eq cc lh) (lh_elements lh)"
      using inv by (auto simp: lh_inv_def)
    have "lh_lookup cc lh d = None" if d: "ok d" "lh_eq cc lh x d" for d
    proof -
      have "hashing.equals (lh_eq cc lh) x (lh_elements lh) = hashing.equals (lh_eq cc lh) d (lh_elements lh)"
        by (rule hashing.equals_cong [OF hs(1) x d]) (use hs(2) in \<open>simp add: hashing.unique_def [OF hs(1)]\<close>)
      then show ?thesis
        using lookup_equals [of ok _ cc lh x, OF hs x] lookup_equals [of ok _ cc lh d, OF hs d(1)] no
        by (auto split: option.splits)
    qed
    then show ?thesis using i None inv no by (auto simp: lh_delete_def g)
  qed
  then show "lh_inv ok ch cc lh'" "old = (case lh_lookup cc lh x of None \<Rightarrow> None | Some y \<Rightarrow> y)"
    "ok d \<Longrightarrow> lh_lookup cc lh' d = (if lh_eq cc lh x d then None else lh_lookup cc lh d)"
    "num_items lh' = num_items lh - (if lh_lookup cc lh x = None then 0 else 1)"
    "lh_comp lh' = lh_comp lh \<and> lh_hash lh' = lh_hash lh \<and> callback_depth lh' = callback_depth lh"
    by auto
qed

text \<open>Looking up by a key of another type, when key and hash belong to an element \<open>d\<close>.\<close>

theorem retrieve_key_lookup:
  assumes inv: "lh_inv ok ch cc lh" and d: "ok d" and key: "key_hash = ch (lh_hash lh) d"
    and cmp: "\<And>x. x \<in># lh_elements lh \<Longrightarrow> cmp_key key x = 0 \<longleftrightarrow> lh_eq cc lh x d"
  shows "lh_retrieve_key cmp_key lh key key_hash = (case lh_lookup cc lh d of None \<Rightarrow> None | Some x \<Rightarrow> x)"
proof -
  obtain h b i where g: "get_next_ptr_and_hash ch cc lh d = (h, b, i)" by (metis prod_cases3)
  have b: "b < length (buckets lh)" "b = unat h mod num_buckets lh" "h = key_hash" using located [OF inv d g] key by auto
  have cong: "chain_find P xs = chain_find Q xs" if "\<And>x. x \<in> set xs \<Longrightarrow> P x = Q x" for P Q :: "'x \<Rightarrow> bool" and xs
    using that by (induction xs) auto
  have "chain_find (\<lambda>cur. cmp_key key (item_data cur) = 0) (buckets lh ! b) =
    chain_find (\<lambda>cur. lh_eq cc lh (item_data cur) d) (buckets lh ! b)"
    by (rule cong) (use cmp nth_mem [OF b(1)] in \<open>auto simp: lh_elements_def items_def\<close>)
  then have "get_next_ptr_by_key cmp_key lh key key_hash = (b, i)"
    using g b by (auto simp: get_next_ptr_by_key_def get_next_ptr_and_hash_def Let_def)
  then show ?thesis using retrieve_lookup [OF inv d] by (simp add: lh_retrieve_key_def lh_retrieve_def g)
qed

section \<open>The length of the chains\<close>

text \<open>
  As long as the arrays can be allocated, there are fewer than three elements for each bucket.
\<close>

lemma resize_load:
  assumes inv: "lh_inv ok ch cc lh" and libc: "libc_wf (fst env)" and depth: "callback_depth lh = 0"
    and load: "num_items lh \<le> 3 * num_buckets lh" and mem: "array_malloc env 8 (8 * (2 * num_buckets lh)) \<noteq> None"
  shows "num_items (lh_maybe_resize env lh) < 3 * num_buckets (lh_maybe_resize env lh)"
proof -
  have nb: "16 \<le> num_buckets lh" "num_buckets lh \<le> ADDRESS_SPACE div 8" using inv by (auto simp: lh_inv_def kMinNumBuckets_def)
  have two: "size_mul (num_buckets lh) 2 = num_buckets lh * 2" using nb by (simp add: size_arith ADDRESS_SPACE_def SIZE_MOD_def)
  have lim: "n \<le> HEAP_LIMIT div 8" if "n \<le> num_buckets lh * 2" for n using that nb by (simp add: ADDRESS_SPACE_def HEAP_LIMIT_def)
  note r = rebucket_result [OF inv libc _ lim]
  have avg: "num_items lh div num_buckets lh > 2 \<longleftrightarrow> 3 * num_buckets lh \<le> num_items lh"
    using nb less_eq_div_iff_mult_less_eq [of "num_buckets lh" 3 "num_items lh"] by auto
  consider (up) "3 * num_buckets lh \<le> num_items lh"
    | (down) "num_items lh < num_buckets lh" "16 < num_buckets lh"
    | (same) "num_items lh < 3 * num_buckets lh" "\<not> (num_items lh < num_buckets lh \<and> 16 < num_buckets lh)" by linarith
  then show ?thesis
  proof cases
    case up
    then show ?thesis
      using depth nb mem r(3,7) [of "num_buckets lh * 2"] load avg
      by (simp add: lh_maybe_resize_def two Let_def kMaxAverageChainLength_def kMinNumBuckets_def mult.commute)
  next
    case down
    let ?n = "if num_buckets lh div 2 < 16 then 16 else num_buckets lh div 2"
    have "lh_maybe_resize env lh = lh_rebucket env lh ?n"
      using down depth by (simp add: lh_maybe_resize_def Let_def kMaxAverageChainLength_def kMinAverageChainLength_def kMinNumBuckets_def)
    moreover have "num_items lh < 3 * (num_buckets lh div 2)" using down by linarith
    ultimately show ?thesis using r(3,7) [of ?n] nb down by (simp add: kMinNumBuckets_def split: if_splits)
  next
    case same
    have "\<not> (num_items lh div num_buckets lh < 1 \<and> 16 < num_buckets lh)" using same(2) nb by (auto simp: div_eq_0_iff)
    then have "lh_maybe_resize env lh = lh"
      using same avg
      by (auto simp: lh_maybe_resize_def Let_def kMaxAverageChainLength_def kMinAverageChainLength_def kMinNumBuckets_def)
    then show ?thesis using same by simp
  qed
qed

section \<open>Iterating\<close>

theorem doall_result:
  assumes inv: "lh_inv ok ch cc lh" and libc: "libc_wf (fst env)" and depth: "callback_depth lh \<le> UINT_MAX"
    and i: "lh_doall_arg env func (Some lh) (arg :: nat) = (Some lh', arg')"
  shows "arg' = foldl (\<lambda>a x. func x a) arg (map item_data (concat (buckets lh)))"
    and "lh_inv ok ch cc lh'" and "items lh' = items lh" and "num_items lh' = num_items lh"
    and "lh_comp lh' = lh_comp lh" and "lh_hash lh' = lh_hash lh"
    and "callback_depth lh' = (if callback_depth lh + 1 < UINT_MAX then callback_depth lh else UINT_MAX)"
proof -
  let ?t = "lh\<lparr>callback_depth := if callback_depth lh + 1 < UINT_MAX then callback_depth lh else UINT_MAX\<rparr>"
  have lb: "length (buckets lh) = num_buckets lh" using inv by (simp add: lh_inv_def placed_def)
  have fm: "foldl (\<lambda>a cur. func (item_data cur) a) arg xs = foldl (\<lambda>a x. func x a) arg (map item_data xs)" for xs
    by (induction xs arbitrary: arg) auto
  have arr: "lh_doall_arg env func (Some lh) arg =
    (Some (lh_maybe_resize env ?t), foldl (\<lambda>a cur. func (item_data cur) a) arg (concat (buckets lh)))"
  proof -
    have same: "lh\<lparr>callback_depth := UINT_MAX\<rparr> = lh" if "callback_depth lh = UINT_MAX" using that by (cases lh) simp
    consider "callback_depth lh + 1 < UINT_MAX" | "callback_depth lh + 1 = UINT_MAX" | "callback_depth lh = UINT_MAX"
      using depth by linarith
    then show ?thesis
      by cases (use map_nth [of "buckets lh", unfolded lb] in \<open>simp_all add: lh_doall_arg_def Let_def foldl_concat same\<close>)
  qed
  have t: "lh_inv ok ch cc ?t" using inv by (simp add: lh_inv_def items_def lh_elements_def)
  note r = resize_result [OF t libc]
  show "arg' = foldl (\<lambda>a x. func x a) arg (map item_data (concat (buckets lh)))"
    using i arr fm [of "concat (buckets lh)"] by (metis prod.inject)
  show "lh_inv ok ch cc lh'" "items lh' = items lh" "num_items lh' = num_items lh"
    "lh_comp lh' = lh_comp lh" "lh_hash lh' = lh_hash lh"
    "callback_depth lh' = (if callback_depth lh + 1 < UINT_MAX then callback_depth lh else UINT_MAX)"
    using i arr r by (auto simp: items_def)
qed

section \<open>A table and the map it stands for\<close>

text \<open>
  The tables that come out of a sequence of operations, each with the map of elements that the same
  operations make: \<open>m d\<close> is the element equal to \<open>d\<close>.
\<close>

inductive lh_run ::
    "('p ptr \<Rightarrow> bool) \<Rightarrow> ('h \<Rightarrow> 'p ptr \<Rightarrow> u32) \<Rightarrow> ('c \<Rightarrow> 'p ptr \<Rightarrow> 'p ptr \<Rightarrow> int) \<Rightarrow>
     ('p, 'c, 'h) lhash \<Rightarrow> ('p ptr \<Rightarrow> 'p ptr option) \<Rightarrow> bool"
  for ok ch cc where
  new: "lh_run ok ch cc lh (\<lambda>_. None)"
    if "hashing ok (ch h) (\<lambda>a b. cc c a b = 0)" "libc_wf (fst env)" "lh_new env h c = Some lh"
| insert: "lh_run ok ch cc lh' (\<lambda>d. if r \<and> lh_eq cc lh x d then Some x else m d)"
    if "lh_run ok ch cc lh m" "libc_wf (fst env)" "ok x" "num_items lh + 1 < SIZE_MOD"
      "lh_insert env ch cc lh x = (r, old, lh')"
| delete: "lh_run ok ch cc lh' (\<lambda>d. if lh_eq cc lh x d then None else m d)"
    if "lh_run ok ch cc lh m" "libc_wf (fst env)" "ok x" "lh_delete env ch cc lh x = (old, lh')"
| doall: "lh_run ok ch cc lh' m"
    if "lh_run ok ch cc lh m" "libc_wf (fst env)" "lh_doall_arg env func (Some lh) (arg :: nat) = (Some lh', arg')"

lemma lh_run_simulation:
  "lh_run ok ch cc lh m \<Longrightarrow> lh_inv ok ch cc lh \<and> callback_depth lh = 0 \<and> (\<forall>d. ok d \<longrightarrow> lh_lookup cc lh d = m d)"
proof (induction rule: lh_run.induct)
  case (new h c env lh)
  note n = new_inv [of ok ch h cc c env lh, OF new]
  have "lh_lookup cc lh d = None" for d by (simp add: lh_lookup_None n(2))
  then show ?case using n by blast
next
  case (insert lh m env x r old lh')
  show ?case using insert_result [of ok ch cc lh env x r old lh', OF _ insert(2-5)] insert.IH by auto
next
  case (delete lh m env x old lh')
  show ?case using delete_result [of ok ch cc lh env x old lh', OF _ delete(2-4)] delete.IH by auto
next
  case (doall lh m env func arg lh' arg')
  then have inv: "lh_inv ok ch cc lh" "callback_depth lh \<le> UINT_MAX" by auto
  note r = doall_result [OF inv(1) doall(2) inv(2) doall(3)]
  have "lh_lookup cc lh' d = lh_lookup cc lh d" if "ok d" for d
  proof (rule lookup_is [OF r(2) that])
    have "hashing ok (ch (lh_hash lh)) (lh_eq cc lh)" "hashing.unique ok (lh_eq cc lh) (lh_elements lh)"
      using inv by (auto simp: lh_inv_def)
    from lookup_equals [of ok _ cc lh d, OF this that]
    show "hashing.equals (lh_eq cc lh') d (lh_elements lh') = (case lh_lookup cc lh d of None \<Rightarrow> {#} | Some x \<Rightarrow> {#x#})"
      using r by (simp add: lh_elements_def)
  qed
  then show ?case using r(2,7) doall by (simp add: UINT_MAX_def)
qed

section \<open>Strings\<close>

text \<open>The default hash function is FNV-1a of the bytes up to the terminator.\<close>

definition cstring :: "bytes \<Rightarrow> bytes" where
  "cstring s = takeWhile (\<lambda>c. c \<noteq> 0) s"

lemma strlen_cstring: "strlen s = length (cstring s)"
  unfolding cstring_def by (induction s) auto

lemma hash32_take: "n \<le> length s \<Longrightarrow> OPENSSL_hash32 s n = foldl (\<lambda>h c. (h XOR ucast c) * 16777619) 2166136261 (take n s)"
  unfolding OPENSSL_hash32_def by (induction n) (simp_all add: take_Suc_conv_app_nth)

lemma strhash_cstring: "lh_strhash (Some s) = foldl (\<lambda>h c. (h XOR ucast c) * 16777619) 2166136261 (cstring s)"
proof -
  have "take (length (cstring s)) s = cstring s" by (metis cstring_def takeWhile_eq_take takeWhile_dropWhile_id append_eq_conv_conj)
  then show ?thesis using hash32_take [of "strlen s" s] length_takeWhile_le [of "\<lambda>c. c \<noteq> 0" s]
    by (simp add: lh_strhash_def strlen_cstring cstring_def)
qed

interpretation strings: hashing "\<lambda>p. p \<noteq> None" lh_strhash "\<lambda>a b. map_option cstring a = map_option cstring b"
  by unfold_locales (auto simp: strhash_cstring)

end
