(* ===== verification/Bio.thy ===== *)
theory Bio
  imports Mem "HOL-Library.Monad_Syntax"
begin

unbundle bit_operations_syntax

text \<open>
  \<open>crypto/bio/bio.c\<close>: the abstract I/O object \<open>BIO\<close>, and the reader of a DER element from a stream.

  The objects live on a heap that maps addresses to them. A \<open>BIO_METHOD\<close> is a value of a type \<open>'m\<close>,
  and its functions are looked up in a table \<open>bio_methods\<close>, where they act on the heap (a function
  that is \<open>NULL\<close> is \<open>None\<close>). \<open>'x\<close> is the state a method keeps behind \<open>ptr\<close>. What a function writes to
  a buffer is a list of bytes among its results. The outcome \<open>None\<close> stands for a call that does not
  return or does something undefined: a dangling pointer, \<open>abort\<close>, a loop that does not end.
\<close>

section \<open>Numbers\<close>

text \<open>The conversions from \<open>size_t\<close> to \<open>int\<close> and from \<open>int\<close> to \<open>size_t\<close>, and \<open>+=\<close> of an \<open>int\<close>.\<close>

definition int_of_size :: "nat \<Rightarrow> int" where
  "int_of_size n = sint (word_of_nat n :: 32 word)"

definition size_of_int :: "int \<Rightarrow> nat" where
  "size_of_int i = nat (i mod int SIZE_MOD)"

definition size_plus :: "nat \<Rightarrow> int \<Rightarrow> nat" where
  "size_plus n i = size_of_int (int n + i)"

section \<open>The object\<close>

record ('m, 'x) bio =
  bio_method :: "'m option"
  init :: bool
  shutdown :: int
  flags :: u32
  retry_reason :: int
  references :: nat
  ptr :: "'x option"
  next_bio :: "nat option"
  num_read :: nat
  num_write :: nat

type_synonym ('m, 'x) bio_heap = "nat \<Rightarrow> ('m, 'x) bio option"

record ('m, 'x) bio_methods =
  mtype :: "'m \<Rightarrow> u32"
  bwrite :: "'m \<Rightarrow> (('m, 'x) bio_heap \<Rightarrow> nat \<Rightarrow> bytes option \<Rightarrow> int \<Rightarrow> (int \<times> ('m, 'x) bio_heap) option) option"
  bread :: "'m \<Rightarrow> (('m, 'x) bio_heap \<Rightarrow> nat \<Rightarrow> bool \<Rightarrow> int \<Rightarrow> (int \<times> bytes \<times> ('m, 'x) bio_heap) option) option"
  bgets :: "'m \<Rightarrow> (('m, 'x) bio_heap \<Rightarrow> nat \<Rightarrow> bool \<Rightarrow> int \<Rightarrow> (int \<times> bytes \<times> ('m, 'x) bio_heap) option) option"
  ctrl :: "'m \<Rightarrow> (('m, 'x) bio_heap \<Rightarrow> nat \<Rightarrow> int \<Rightarrow> int \<Rightarrow> nat option \<Rightarrow> (int \<times> ('m, 'x) bio_heap) option) option"
  create :: "'m \<Rightarrow> (('m, 'x) bio_heap \<Rightarrow> nat \<Rightarrow> (bool \<times> ('m, 'x) bio_heap) option) option"
  destroy :: "'m \<Rightarrow> (('m, 'x) bio_heap \<Rightarrow> nat \<Rightarrow> ('m, 'x) bio_heap option) option"

definition CRYPTO_REFCOUNT_MAX :: nat where
  "CRYPTO_REFCOUNT_MAX = 0xffffffff"

definition CRYPTO_refcount_inc :: "nat \<Rightarrow> nat" where
  "CRYPTO_refcount_inc count = (if count < CRYPTO_REFCOUNT_MAX then count + 1 else count)"

definition CRYPTO_refcount_dec_and_test_zero :: "nat \<Rightarrow> (bool \<times> nat) option" where
  "CRYPTO_refcount_dec_and_test_zero count =
     (if count = 0 then None
      else let count = (if count < CRYPTO_REFCOUNT_MAX then count - 1 else count) in Some (count = 0, count))"

text \<open>\<open>alloc\<close> is the allocator of objects: an address that is free, or \<open>NULL\<close>.\<close>

definition BIO_new ::
    "('m, 'x) bio_methods \<Rightarrow> (('m, 'x) bio_heap \<Rightarrow> nat option) \<Rightarrow> ('m, 'x) bio_heap \<Rightarrow> 'm \<Rightarrow>
     (nat option \<times> ('m, 'x) bio_heap) option" where
  "BIO_new ms alloc h meth =
     (case alloc h of
        None \<Rightarrow> Some (None, h)
      | Some ret \<Rightarrow>
          (let h = h(ret \<mapsto> \<lparr>bio_method = Some meth, init = False, shutdown = 1, flags = 0, retry_reason = 0,
                              references = 1, ptr = None, next_bio = None, num_read = 0, num_write = 0\<rparr>)
           in case create ms meth of
                None \<Rightarrow> Some (Some ret, h)
              | Some f \<Rightarrow>
                  do {
                    (ok, h) \<leftarrow> f h ret;
                    Some (if ok then (Some ret, h) else (None, h(ret := None)))
                  }))"

definition BIO_pop :: "('m, 'x) bio_heap \<Rightarrow> nat option \<Rightarrow> (nat option \<times> ('m, 'x) bio_heap) option" where
  "BIO_pop h bio =
     (case bio of
        None \<Rightarrow> Some (None, h)
      | Some a \<Rightarrow> do { b \<leftarrow> h a; Some (next_bio b, h(a \<mapsto> b\<lparr>next_bio := None\<rparr>)) })"

partial_function (option) BIO_free ::
    "('m, 'x) bio_methods \<Rightarrow> ('m, 'x) bio_heap \<Rightarrow> nat option \<Rightarrow> (bool \<times> ('m, 'x) bio_heap) option" where
  "BIO_free ms h bio =
     (case bio of
        None \<Rightarrow> Some (True, h)
      | Some a \<Rightarrow>
          do {
            b \<leftarrow> h a;
            (zero, count) \<leftarrow> CRYPTO_refcount_dec_and_test_zero (references b);
            let h = h(a \<mapsto> b\<lparr>references := count\<rparr>);
            if \<not> zero then Some (False, h)
            else
              do {
                (nxt, h) \<leftarrow> BIO_pop h (Some a);
                h \<leftarrow> (case Option.bind (bio_method b) (destroy ms) of None \<Rightarrow> Some h | Some f \<Rightarrow> f h a);
                BIO_free ms (h(a := None)) nxt
              }
          })"

definition BIO_up_ref :: "('m, 'x) bio_heap \<Rightarrow> nat \<Rightarrow> (bool \<times> ('m, 'x) bio_heap) option" where
  "BIO_up_ref h bio =
     do { b \<leftarrow> h bio; Some (True, h(bio \<mapsto> b\<lparr>references := CRYPTO_refcount_inc (references b)\<rparr>)) }"

definition BIO_vfree :: "('m, 'x) bio_methods \<Rightarrow> ('m, 'x) bio_heap \<Rightarrow> nat option \<Rightarrow> ('m, 'x) bio_heap option" where
  "BIO_vfree ms h bio = map_option snd (BIO_free ms h bio)"

definition BIO_free_all :: "('m, 'x) bio_methods \<Rightarrow> ('m, 'x) bio_heap \<Rightarrow> nat option \<Rightarrow> ('m, 'x) bio_heap option" where
  "BIO_free_all ms h bio = map_option snd (BIO_free ms h bio)"

section \<open>Chains\<close>

partial_function (option) last_in_chain :: "('m, 'x) bio_heap \<Rightarrow> nat \<Rightarrow> nat option" where
  "last_in_chain h last_bio =
     do { b \<leftarrow> h last_bio; (case next_bio b of None \<Rightarrow> Some last_bio | Some nxt \<Rightarrow> last_in_chain h nxt) }"

definition BIO_push ::
    "('m, 'x) bio_heap \<Rightarrow> nat option \<Rightarrow> nat option \<Rightarrow> (nat option \<times> ('m, 'x) bio_heap) option" where
  "BIO_push h bio appended_bio =
     (case bio of
        None \<Rightarrow> Some (None, h)
      | Some a \<Rightarrow>
          do {
            last_bio \<leftarrow> last_in_chain h a;
            b \<leftarrow> h last_bio;
            Some (Some a, h(last_bio \<mapsto> b\<lparr>next_bio := appended_bio\<rparr>))
          })"

definition BIO_next :: "('m, 'x) bio_heap \<Rightarrow> nat option \<Rightarrow> nat option option" where
  "BIO_next h bio = (case bio of None \<Rightarrow> Some None | Some a \<Rightarrow> do { b \<leftarrow> h a; Some (next_bio b) })"

partial_function (option) BIO_find_type ::
    "('m, 'x) bio_methods \<Rightarrow> ('m, 'x) bio_heap \<Rightarrow> nat option \<Rightarrow> u32 \<Rightarrow> nat option option" where
  "BIO_find_type ms h bio typ =
     (case bio of
        None \<Rightarrow> Some None
      | Some a \<Rightarrow>
          do {
            b \<leftarrow> h a;
            if (case bio_method b of
                  None \<Rightarrow> False
                | Some m \<Rightarrow> if typ AND 0xff = 0 then mtype ms m AND typ \<noteq> 0 else mtype ms m = typ)
            then Some (Some a)
            else BIO_find_type ms h (next_bio b) typ
          })"

section \<open>Reading and writing\<close>

definition BIO_read ::
    "('m, 'x) bio_methods \<Rightarrow> ('m, 'x) bio_heap \<Rightarrow> nat option \<Rightarrow> int \<Rightarrow> (int \<times> bytes \<times> ('m, 'x) bio_heap) option" where
  "BIO_read ms h bio n =
     (case bio of
        None \<Rightarrow> Some (- 2, [], h)
      | Some a \<Rightarrow>
          do {
            b \<leftarrow> h a;
            case Option.bind (bio_method b) (bread ms) of
              None \<Rightarrow> Some (- 2, [], h)
            | Some f \<Rightarrow>
                (if \<not> init b then Some (- 2, [], h)
                 else if n \<le> 0 then Some (0, [], h)
                 else
                   do {
                     (ret, out, h) \<leftarrow> f h a False n;
                     if ret > 0
                     then do { b \<leftarrow> h a; Some (ret, out, h(a \<mapsto> b\<lparr>num_read := size_plus (num_read b) ret\<rparr>)) }
                     else Some (ret, out, h)
                   })
          })"

definition BIO_gets ::
    "('m, 'x) bio_methods \<Rightarrow> ('m, 'x) bio_heap \<Rightarrow> nat option \<Rightarrow> int \<Rightarrow> (int \<times> bytes \<times> ('m, 'x) bio_heap) option" where
  "BIO_gets ms h bio n =
     (case bio of
        None \<Rightarrow> Some (- 2, [], h)
      | Some a \<Rightarrow>
          do {
            b \<leftarrow> h a;
            case Option.bind (bio_method b) (bgets ms) of
              None \<Rightarrow> Some (- 2, [], h)
            | Some f \<Rightarrow>
                (if \<not> init b then Some (- 2, [], h)
                 else if n \<le> 0 then Some (0, [], h)
                 else
                   do {
                     (ret, out, h) \<leftarrow> f h a False n;
                     if ret > 0
                     then do { b \<leftarrow> h a; Some (ret, out, h(a \<mapsto> b\<lparr>num_read := size_plus (num_read b) ret\<rparr>)) }
                     else Some (ret, out, h)
                   })
          })"

definition BIO_write ::
    "('m, 'x) bio_methods \<Rightarrow> ('m, 'x) bio_heap \<Rightarrow> nat option \<Rightarrow> bytes \<Rightarrow> int \<Rightarrow> (int \<times> ('m, 'x) bio_heap) option" where
  "BIO_write ms h bio src inl =
     (case bio of
        None \<Rightarrow> Some (- 2, h)
      | Some a \<Rightarrow>
          do {
            b \<leftarrow> h a;
            case Option.bind (bio_method b) (bwrite ms) of
              None \<Rightarrow> Some (- 2, h)
            | Some f \<Rightarrow>
                (if \<not> init b then Some (- 2, h)
                 else if inl \<le> 0 then Some (0, h)
                 else
                   do {
                     (ret, h) \<leftarrow> f h a (Some src) inl;
                     if ret > 0
                     then do { b \<leftarrow> h a; Some (ret, h(a \<mapsto> b\<lparr>num_write := size_plus (num_write b) ret\<rparr>)) }
                     else Some (ret, h)
                   })
          })"

partial_function (option) BIO_write_all ::
    "('m, 'x) bio_methods \<Rightarrow> ('m, 'x) bio_heap \<Rightarrow> nat option \<Rightarrow> bytes \<Rightarrow> nat \<Rightarrow> (bool \<times> ('m, 'x) bio_heap) option" where
  "BIO_write_all ms h bio src n =
     (if n > 0 then
        do {
          (ret, h) \<leftarrow> BIO_write ms h bio src (if n > INT_MAX then int INT_MAX else int n);
          if ret \<le> 0 then Some (False, h)
          else BIO_write_all ms h bio (drop (nat ret) src) (size_plus n (- ret))
        }
      else Some (True, h))"

definition BIO_puts ::
    "('m, 'x) bio_methods \<Rightarrow> ('m, 'x) bio_heap \<Rightarrow> nat option \<Rightarrow> bytes \<Rightarrow> (int \<times> ('m, 'x) bio_heap) option" where
  "BIO_puts ms h bio src = BIO_write ms h bio src (int_of_size (strlen src))"

fun indent_loop ::
    "('m, 'x) bio_methods \<Rightarrow> ('m, 'x) bio_heap \<Rightarrow> nat option \<Rightarrow> nat \<Rightarrow> (bool \<times> ('m, 'x) bio_heap) option" where
  "indent_loop ms h bio 0 = Some (True, h)"
| "indent_loop ms h bio (Suc indent) =
     do {
       (ret, h) \<leftarrow> BIO_puts ms h bio [0x20, 0];
       if ret \<noteq> 1 then Some (False, h) else indent_loop ms h bio indent
     }"

definition BIO_indent ::
    "('m, 'x) bio_methods \<Rightarrow> ('m, 'x) bio_heap \<Rightarrow> nat option \<Rightarrow> nat \<Rightarrow> nat \<Rightarrow> (bool \<times> ('m, 'x) bio_heap) option" where
  "BIO_indent ms h bio indent max_indent = indent_loop ms h bio (if indent > max_indent then max_indent else indent)"

section \<open>Control\<close>

definition BIO_ctrl ::
    "('m, 'x) bio_methods \<Rightarrow> ('m, 'x) bio_heap \<Rightarrow> nat option \<Rightarrow> int \<Rightarrow> int \<Rightarrow> nat option \<Rightarrow>
     (int \<times> ('m, 'x) bio_heap) option" where
  "BIO_ctrl ms h bio cmd larg parg =
     (case bio of
        None \<Rightarrow> Some (0, h)
      | Some a \<Rightarrow>
          do {
            b \<leftarrow> h a;
            case Option.bind (bio_method b) (ctrl ms) of None \<Rightarrow> Some (- 2, h) | Some f \<Rightarrow> f h a cmd larg parg
          })"

definition BIO_CTRL_RESET :: int where "BIO_CTRL_RESET = 1"

definition BIO_CTRL_EOF :: int where "BIO_CTRL_EOF = 2"

definition BIO_CTRL_GET_CLOSE :: int where "BIO_CTRL_GET_CLOSE = 8"

definition BIO_CTRL_SET_CLOSE :: int where "BIO_CTRL_SET_CLOSE = 9"

definition BIO_CTRL_PENDING :: int where "BIO_CTRL_PENDING = 10"

definition BIO_CTRL_FLUSH :: int where "BIO_CTRL_FLUSH = 11"

definition BIO_CTRL_WPENDING :: int where "BIO_CTRL_WPENDING = 13"

definition BIO_flush :: "('m, 'x) bio_methods \<Rightarrow> ('m, 'x) bio_heap \<Rightarrow> nat option \<Rightarrow> (int \<times> ('m, 'x) bio_heap) option" where
  "BIO_flush ms h bio = BIO_ctrl ms h bio BIO_CTRL_FLUSH 0 None"

definition BIO_reset :: "('m, 'x) bio_methods \<Rightarrow> ('m, 'x) bio_heap \<Rightarrow> nat option \<Rightarrow> (int \<times> ('m, 'x) bio_heap) option" where
  "BIO_reset ms h bio = BIO_ctrl ms h bio BIO_CTRL_RESET 0 None"

definition BIO_eof :: "('m, 'x) bio_methods \<Rightarrow> ('m, 'x) bio_heap \<Rightarrow> nat option \<Rightarrow> (int \<times> ('m, 'x) bio_heap) option" where
  "BIO_eof ms h bio = BIO_ctrl ms h bio BIO_CTRL_EOF 0 None"

definition BIO_pending :: "('m, 'x) bio_methods \<Rightarrow> ('m, 'x) bio_heap \<Rightarrow> nat option \<Rightarrow> (nat \<times> ('m, 'x) bio_heap) option" where
  "BIO_pending ms h bio =
     do { (r, h) \<leftarrow> BIO_ctrl ms h bio BIO_CTRL_PENDING 0 None; Some (if r < 0 then 0 else nat r, h) }"

definition BIO_ctrl_pending :: "('m, 'x) bio_methods \<Rightarrow> ('m, 'x) bio_heap \<Rightarrow> nat option \<Rightarrow> (nat \<times> ('m, 'x) bio_heap) option" where
  "BIO_ctrl_pending ms h bio = BIO_pending ms h bio"

definition BIO_wpending :: "('m, 'x) bio_methods \<Rightarrow> ('m, 'x) bio_heap \<Rightarrow> nat option \<Rightarrow> (nat \<times> ('m, 'x) bio_heap) option" where
  "BIO_wpending ms h bio =
     do { (r, h) \<leftarrow> BIO_ctrl ms h bio BIO_CTRL_WPENDING 0 None; Some (if r < 0 then 0 else nat r, h) }"

definition BIO_set_close ::
    "('m, 'x) bio_methods \<Rightarrow> ('m, 'x) bio_heap \<Rightarrow> nat option \<Rightarrow> int \<Rightarrow> (int \<times> ('m, 'x) bio_heap) option" where
  "BIO_set_close ms h bio close_flag = BIO_ctrl ms h bio BIO_CTRL_SET_CLOSE close_flag None"

section \<open>Flags\<close>

definition BIO_FLAGS_READ :: u32 where "BIO_FLAGS_READ = 0x01"

definition BIO_FLAGS_WRITE :: u32 where "BIO_FLAGS_WRITE = 0x02"

definition BIO_FLAGS_IO_SPECIAL :: u32 where "BIO_FLAGS_IO_SPECIAL = 0x04"

definition BIO_FLAGS_RWS :: u32 where
  "BIO_FLAGS_RWS = BIO_FLAGS_READ OR BIO_FLAGS_WRITE OR BIO_FLAGS_IO_SPECIAL"

definition BIO_FLAGS_SHOULD_RETRY :: u32 where "BIO_FLAGS_SHOULD_RETRY = 0x08"

definition kRetryFlags :: u32 where
  "kRetryFlags = BIO_FLAGS_RWS OR BIO_FLAGS_SHOULD_RETRY"

definition BIO_set_flags :: "('m, 'x) bio \<Rightarrow> u32 \<Rightarrow> ('m, 'x) bio" where
  "BIO_set_flags bio f = bio\<lparr>flags := flags bio OR f\<rparr>"

definition BIO_test_flags :: "('m, 'x) bio \<Rightarrow> u32 \<Rightarrow> u32" where
  "BIO_test_flags bio f = flags bio AND f"

definition BIO_clear_flags :: "('m, 'x) bio \<Rightarrow> u32 \<Rightarrow> ('m, 'x) bio" where
  "BIO_clear_flags bio f = bio\<lparr>flags := flags bio AND NOT f\<rparr>"

definition BIO_should_read :: "('m, 'x) bio \<Rightarrow> u32" where
  "BIO_should_read bio = BIO_test_flags bio BIO_FLAGS_READ"

definition BIO_should_write :: "('m, 'x) bio \<Rightarrow> u32" where
  "BIO_should_write bio = BIO_test_flags bio BIO_FLAGS_WRITE"

definition BIO_should_retry :: "('m, 'x) bio \<Rightarrow> u32" where
  "BIO_should_retry bio = BIO_test_flags bio BIO_FLAGS_SHOULD_RETRY"

definition BIO_should_io_special :: "('m, 'x) bio \<Rightarrow> u32" where
  "BIO_should_io_special bio = BIO_test_flags bio BIO_FLAGS_IO_SPECIAL"

definition BIO_set_retry_read :: "('m, 'x) bio \<Rightarrow> ('m, 'x) bio" where
  "BIO_set_retry_read bio = bio\<lparr>flags := flags bio OR (BIO_FLAGS_READ OR BIO_FLAGS_SHOULD_RETRY)\<rparr>"

definition BIO_set_retry_write :: "('m, 'x) bio \<Rightarrow> ('m, 'x) bio" where
  "BIO_set_retry_write bio = bio\<lparr>flags := flags bio OR (BIO_FLAGS_WRITE OR BIO_FLAGS_SHOULD_RETRY)\<rparr>"

definition BIO_set_retry_special :: "('m, 'x) bio \<Rightarrow> ('m, 'x) bio" where
  "BIO_set_retry_special bio = bio\<lparr>flags := flags bio OR (BIO_FLAGS_READ OR BIO_FLAGS_IO_SPECIAL)\<rparr>"

definition BIO_get_retry_flags :: "('m, 'x) bio \<Rightarrow> u32" where
  "BIO_get_retry_flags bio = flags bio AND kRetryFlags"

definition BIO_clear_retry_flags :: "('m, 'x) bio \<Rightarrow> ('m, 'x) bio" where
  "BIO_clear_retry_flags bio = bio\<lparr>flags := flags bio AND NOT kRetryFlags, retry_reason := 0\<rparr>"

definition BIO_copy_next_retry :: "('m, 'x) bio_heap \<Rightarrow> nat \<Rightarrow> ('m, 'x) bio_heap option" where
  "BIO_copy_next_retry h bio =
     do {
       b \<leftarrow> h bio;
       let b = BIO_clear_retry_flags b;
       let h = h(bio \<mapsto> b);
       nxt \<leftarrow> next_bio b;
       nb \<leftarrow> h nxt;
       let b = BIO_set_flags b (BIO_get_retry_flags nb);
       let h = h(bio \<mapsto> b);
       nb \<leftarrow> h nxt;
       Some (h(bio \<mapsto> b\<lparr>retry_reason := retry_reason nb\<rparr>))
     }"

text \<open>The types of \<open>BIO_get_new_index\<close>; its counter is the argument.\<close>

definition BIO_get_new_index :: "int \<Rightarrow> int \<times> int" where
  "BIO_get_new_index g_index = (if g_index > 255 then (- 1, g_index) else (g_index, g_index + 1))"

section \<open>Reading a whole stream or an element of it\<close>

text \<open>
  In these functions \<open>rd w n\<close> is the call of \<open>BIO_read\<close> on their object for at most \<open>n\<close> bytes, in a
  state \<open>w\<close>. The first result is the buffer with \<open>out_len\<close>, or nothing on a failure.
\<close>

definition kChunkSize :: nat where
  "kChunkSize = 4096"

partial_function (option) read_all_loop ::
    "libc_malloc \<Rightarrow> ('w \<Rightarrow> int \<Rightarrow> (int \<times> bytes \<times> 'w) option) \<Rightarrow> nat \<Rightarrow> 'w \<Rightarrow> bytes \<Rightarrow> nat \<Rightarrow> nat \<Rightarrow>
     ((bytes \<times> nat) option \<times> 'w) option" where
  "read_all_loop libc rd max_len w out n pos =
     (if pos = n then Some (None, w)
      else
        do {
          (r, bs, w) \<leftarrow> rd w (int_of_size (size_plus n (- int pos)));
          let out = mem_write out pos bs;
          if r = 0 then Some (Some (out, pos), w)
          else if r = - 1 then Some (None, w)
          else
            (let pos = size_plus pos r
             in if n < max_len \<and> size_plus n (- int pos) < kChunkSize div 2 then
                  (let n = size_add n kChunkSize;
                       n = (if n < kChunkSize \<or> n > max_len then max_len else n)
                   in case heap_realloc libc (Some out) n of
                        None \<Rightarrow> Some (None, w)
                      | Some out \<Rightarrow> read_all_loop libc rd max_len w out n pos)
                else read_all_loop libc rd max_len w out n pos)
        })"

definition bio_read_all ::
    "libc_malloc \<Rightarrow> ('w \<Rightarrow> int \<Rightarrow> (int \<times> bytes \<times> 'w) option) \<Rightarrow> 'w \<Rightarrow> bytes \<Rightarrow> nat \<Rightarrow>
     ((bytes \<times> nat) option \<times> 'w) option" where
  "bio_read_all libc rd w prefix max_len =
     (let n = size_add (length prefix) kChunkSize; n = (if n > max_len then max_len else n)
      in if n < length prefix then Some (None, w)
         else
           case heap_malloc libc n of
             None \<Rightarrow> Some (None, w)
           | Some out \<Rightarrow> read_all_loop libc rd max_len w (mem_write out 0 prefix) n (length prefix))"

text \<open>
  \<open>bio_read_full\<close> returns whether it succeeded, the bytes it has written to \<open>out\<close>, and what it stores
  in \<open>out_eof_on_first_read\<close> when it fails.
\<close>

partial_function (option) read_full_loop ::
    "('w \<Rightarrow> int \<Rightarrow> (int \<times> bytes \<times> 'w) option) \<Rightarrow> 'w \<Rightarrow> nat \<Rightarrow> bool \<Rightarrow> bytes \<Rightarrow> (bool \<times> bytes \<times> bool \<times> 'w) option" where
  "read_full_loop rd w n first_read out =
     (if n > 0 then
        do {
          let todo = (if n \<le> INT_MAX then int n else int INT_MAX);
          (ret, bs, w) \<leftarrow> rd w todo;
          if ret \<le> 0 then Some (False, out @ bs, first_read \<and> ret = 0, w)
          else read_full_loop rd w (size_plus n (- ret)) False (out @ bs)
        }
      else Some (True, out, False, w))"

definition bio_read_full ::
    "('w \<Rightarrow> int \<Rightarrow> (int \<times> bytes \<times> 'w) option) \<Rightarrow> 'w \<Rightarrow> nat \<Rightarrow> (bool \<times> bytes \<times> bool \<times> 'w) option" where
  "bio_read_full rd w n = read_full_loop rd w n True []"

text \<open>The reasons \<open>BIO_read_asn1\<close> gives for a failure, and the outcomes.\<close>

datatype asn1_error = HEADER_TOO_LONG | NOT_ENOUGH_DATA | DECODE_ERROR | TOO_LONG | MALLOC_FAILURE

type_synonym 'w read_asn1 = "((asn1_error + bytes \<times> nat) \<times> 'w) option"

text \<open>The part of \<open>BIO_read_asn1\<close> behind the length: the header read so far and the length of the contents.\<close>

definition read_asn1_body ::
    "libc_malloc \<Rightarrow> ('w \<Rightarrow> int \<Rightarrow> (int \<times> bytes \<times> 'w) option) \<Rightarrow> 'w \<Rightarrow> nat \<Rightarrow> bytes \<Rightarrow> nat \<Rightarrow> 'w read_asn1" where
  "read_asn1_body libc rd w max_len header n =
     (let header_len = length header
      in if size_add n header_len < n \<or> size_add n header_len > max_len \<or> n > INT_MAX
         then Some (Inl TOO_LONG, w)
         else
           (let n = size_add n header_len
            in case heap_malloc libc n of
                 None \<Rightarrow> Some (Inl MALLOC_FAILURE, w)
               | Some out \<Rightarrow>
                   do {
                     (ok, bs, _, w) \<leftarrow> bio_read_full rd w (n - header_len);
                     if \<not> ok then Some (Inl NOT_ENOUGH_DATA, w)
                     else Some (Inr (mem_write (mem_write out 0 header) header_len bs, n), w)
                   }))"

definition kInitialHeaderLen :: nat where
  "kInitialHeaderLen = 2"

definition BIO_read_asn1 ::
    "libc_malloc \<Rightarrow> ('w \<Rightarrow> int \<Rightarrow> (int \<times> bytes \<times> 'w) option) \<Rightarrow> 'w \<Rightarrow> nat \<Rightarrow> 'w read_asn1" where
  "BIO_read_asn1 libc rd w max_len =
     do {
       (ok, header, eof_on_first_read, w) \<leftarrow> bio_read_full rd w kInitialHeaderLen;
       if \<not> ok then Some (Inl (if eof_on_first_read then HEADER_TOO_LONG else NOT_ENOUGH_DATA), w)
       else
         (let tag = header ! 0; length_byte = header ! 1
          in if tag AND 0x1f = 0x1f then Some (Inl DECODE_ERROR, w)
             else if length_byte AND 0x80 = 0 then read_asn1_body libc rd w max_len header (unat length_byte)
             else
               (let num_bytes = unat (length_byte AND 0x7f)
                in if tag AND 0x20 \<noteq> 0 \<and> num_bytes = 0 then
                     do {
                       (res, w) \<leftarrow> bio_read_all libc rd w header max_len;
                       Some (case res of None \<Rightarrow> Inl NOT_ENOUGH_DATA | Some out \<Rightarrow> Inr out, w)
                     }
                   else if num_bytes = 0 \<or> num_bytes > 4 then Some (Inl DECODE_ERROR, w)
                   else
                     do {
                       (ok, bs, _, w) \<leftarrow> bio_read_full rd w num_bytes;
                       if \<not> ok then Some (Inl NOT_ENOUGH_DATA, w)
                       else
                         (let len32 = foldl (\<lambda>l b. push_bit 8 l OR ucast b) (0 :: u32) bs
                          in if len32 < 128 then Some (Inl DECODE_ERROR, w)
                             else if drop_bit ((num_bytes - 1) * 8) len32 = 0 then Some (Inl DECODE_ERROR, w)
                             else read_asn1_body libc rd w max_len (header @ bs) (unat len32))
                     }))
     }"

end
