(* ===== verification/BioPair.thy ===== *)
theory BioPair
  imports Bio
begin

text \<open>
  \<open>crypto/bio/pair.c\<close>: two connected \<open>BIO\<close>s; what is written to one is read from the other. Each has a
  ring buffer for what is written to it, which its peer reads from. As in \<open>Bio\<close>, the objects live on a
  heap and \<open>None\<close> is undefined behaviour or a loop that does not end. The offsets and lengths stay
  below the size of a buffer, so their sums do not wrap around and are sums of natural numbers. The
  lemmas are in \<open>BioPair_Spec\<close>.
\<close>

section \<open>The state\<close>

record bio_bio_st =
  peer :: "nat option"
  closed :: bool
  b_len :: nat
  b_offset :: nat
  b_size :: nat
  b_buf :: "bytes option"
  request :: nat

datatype pair_method = methods_biop

type_synonym pair_heap = "(pair_method, bio_bio_st) bio_heap"

definition SIZEOF_BIO_BIO :: nat where
  "SIZEOF_BIO_BIO = 56"

definition bio_new :: "libc_malloc \<Rightarrow> pair_heap \<Rightarrow> nat \<Rightarrow> (bool \<times> pair_heap) option" where
  "bio_new libc h bio =
     (case heap_malloc libc SIZEOF_BIO_BIO of
        None \<Rightarrow> Some (False, h)
      | Some _ \<Rightarrow>
          do {
            ob \<leftarrow> h bio;
            Some (True, h(bio \<mapsto> ob\<lparr>ptr := Some \<lparr>peer = None, closed = False, b_len = 0, b_offset = 0,
                                              b_size = 17 * 1024, b_buf = None, request = 0\<rparr>\<rparr>))
          })"

definition bio_destroy_pair :: "pair_heap \<Rightarrow> nat \<Rightarrow> pair_heap option" where
  "bio_destroy_pair h bio =
     do {
       ob \<leftarrow> h bio;
       case ptr ob of
         None \<Rightarrow> Some h
       | Some b \<Rightarrow>
           (case peer b of
              None \<Rightarrow> Some h
            | Some p \<Rightarrow>
                do {
                  po \<leftarrow> h p;
                  pb \<leftarrow> ptr po;
                  let h = h(p \<mapsto> po\<lparr>ptr := Some (pb\<lparr>peer := None, b_len := 0, b_offset := 0\<rparr>), init := False\<rparr>);
                  ob \<leftarrow> h bio;
                  b \<leftarrow> ptr ob;
                  Some (h(bio \<mapsto> ob\<lparr>ptr := Some (b\<lparr>peer := None, b_len := 0, b_offset := 0\<rparr>), init := False\<rparr>))
                })
     }"

definition bio_free :: "pair_heap \<Rightarrow> nat \<Rightarrow> pair_heap option" where
  "bio_free h bio =
     do {
       ob \<leftarrow> h bio;
       b \<leftarrow> ptr ob;
       h \<leftarrow> (if peer b \<noteq> None then bio_destroy_pair h bio else Some h);
       ob \<leftarrow> h bio;
       Some (h(bio \<mapsto> ob\<lparr>ptr := None\<rparr>))
     }"

section \<open>Reading and writing\<close>

text \<open>The loops that copy from and to the ring buffer.\<close>

partial_function (option) read_loop :: "bio_bio_st \<Rightarrow> bytes \<Rightarrow> nat \<Rightarrow> bytes \<Rightarrow> (bytes \<times> bio_bio_st) option" where
  "read_loop peer_b ring rest out =
     (let chunk = (if b_offset peer_b + rest \<le> b_size peer_b then rest else b_size peer_b - b_offset peer_b);
          out = out @ take chunk (drop (b_offset peer_b) ring);
          n = b_len peer_b - chunk;
          off = b_offset peer_b + chunk;
          peer_b = peer_b\<lparr>b_len := n, b_offset := (if n \<noteq> 0 then (if off = b_size peer_b then 0 else off) else 0)\<rparr>;
          rest = rest - chunk
      in if rest \<noteq> 0 then read_loop peer_b ring rest out else Some (out, peer_b))"

partial_function (option) write_loop :: "bio_bio_st \<Rightarrow> bytes \<Rightarrow> nat \<Rightarrow> bytes \<Rightarrow> (bytes \<times> bio_bio_st) option" where
  "write_loop b ring rest src =
     (let write_offset = b_offset b + b_len b;
          write_offset = (if write_offset \<ge> b_size b then write_offset - b_size b else write_offset);
          chunk = (if write_offset + rest \<le> b_size b then rest else b_size b - write_offset);
          ring = mem_write ring write_offset (take chunk src);
          b = b\<lparr>b_len := b_len b + chunk\<rparr>;
          rest = rest - chunk
      in if rest \<noteq> 0 then write_loop b ring rest (drop chunk src) else Some (ring, b))"

definition bio_read :: "pair_heap \<Rightarrow> nat \<Rightarrow> bool \<Rightarrow> int \<Rightarrow> (int \<times> bytes \<times> pair_heap) option" where
  "bio_read h bio buf_is_NULL sz =
     do {
       ob \<leftarrow> h bio;
       let ob = BIO_clear_retry_flags ob;
       let h = h(bio \<mapsto> ob);
       let n = size_of_int sz;
       if \<not> init ob then Some (0, [], h)
       else
         do {
           b \<leftarrow> ptr ob;
           p \<leftarrow> peer b;
           po \<leftarrow> h p;
           peer_b \<leftarrow> ptr po;
           let peer_b = peer_b\<lparr>request := 0\<rparr>;
           let h = h(p \<mapsto> po\<lparr>ptr := Some peer_b\<rparr>);
           if buf_is_NULL \<or> n = 0 then Some (0, [], h)
           else if b_len peer_b = 0 then
             (if closed peer_b then Some (0, [], h)
              else
                do {
                  ob \<leftarrow> h bio;
                  let h = h(bio \<mapsto> BIO_set_retry_read ob);
                  po \<leftarrow> h p;
                  Some (- 1, [],
                        h(p \<mapsto> po\<lparr>ptr := Some (peer_b\<lparr>request := (if n \<le> b_size peer_b then n else b_size peer_b)\<rparr>)\<rparr>))
                })
           else
             do {
               let n = (if b_len peer_b < n then b_len peer_b else n);
               ring \<leftarrow> b_buf peer_b;
               (out, peer_b) \<leftarrow> read_loop peer_b ring n [];
               Some (int_of_size n, out, h(p \<mapsto> po\<lparr>ptr := Some peer_b\<rparr>))
             }
         }
     }"

definition bio_write :: "pair_heap \<Rightarrow> nat \<Rightarrow> bytes option \<Rightarrow> int \<Rightarrow> (int \<times> pair_heap) option" where
  "bio_write h bio src num =
     do {
       ob \<leftarrow> h bio;
       let ob = BIO_clear_retry_flags ob;
       let h = h(bio \<mapsto> ob);
       let n = size_of_int num;
       case src of
         None \<Rightarrow> Some (0, h)
       | Some bs \<Rightarrow>
           (if \<not> init ob \<or> n = 0 then Some (0, h)
            else
              do {
                b \<leftarrow> ptr ob;
                let b = b\<lparr>request := 0\<rparr>;
                let ob = ob\<lparr>ptr := Some b\<rparr>;
                let h = h(bio \<mapsto> ob);
                if closed b then Some (- 1, h)
                else if b_len b = b_size b then Some (- 1, h(bio \<mapsto> BIO_set_retry_write ob))
                else
                  do {
                    let n = (if n > b_size b - b_len b then b_size b - b_len b else n);
                    ring \<leftarrow> b_buf b;
                    (ring, b) \<leftarrow> write_loop b ring n bs;
                    Some (int_of_size n, h(bio \<mapsto> ob\<lparr>ptr := Some (b\<lparr>b_buf := Some ring\<rparr>)\<rparr>))
                  }
              })
     }"

section \<open>Making a pair\<close>

text \<open>The buffer of one half: it is there already, or it is allocated with the size asked for.\<close>

definition make_buf :: "libc_malloc \<Rightarrow> bio_bio_st \<Rightarrow> nat \<Rightarrow> bool \<times> bio_bio_st" where
  "make_buf libc b writebuf_len =
     (if b_buf b = None then
        (let b = (if writebuf_len \<noteq> 0 then b\<lparr>b_size := writebuf_len\<rparr> else b)
         in case heap_malloc libc (b_size b) of
              None \<Rightarrow> (False, b)
            | Some m \<Rightarrow> (True, b\<lparr>b_buf := Some m, b_len := 0, b_offset := 0\<rparr>))
      else (True, b))"

definition bio_make_pair ::
    "libc_malloc \<Rightarrow> pair_heap \<Rightarrow> nat \<Rightarrow> nat \<Rightarrow> nat \<Rightarrow> nat \<Rightarrow> (bool \<times> pair_heap) option" where
  "bio_make_pair libc h bio1 bio2 writebuf1_len writebuf2_len =
     do {
       o1 \<leftarrow> h bio1;
       b1 \<leftarrow> ptr o1;
       o2 \<leftarrow> h bio2;
       b2 \<leftarrow> ptr o2;
       if peer b1 \<noteq> None \<or> peer b2 \<noteq> None then Some (False, h)
       else
         (case make_buf libc b1 writebuf1_len of
            (False, b1) \<Rightarrow> Some (False, h(bio1 \<mapsto> o1\<lparr>ptr := Some b1\<rparr>))
          | (True, b1) \<Rightarrow>
              (case make_buf libc b2 writebuf2_len of
                 (False, b2) \<Rightarrow> Some (False, h(bio1 \<mapsto> o1\<lparr>ptr := Some b1\<rparr>, bio2 \<mapsto> o2\<lparr>ptr := Some b2\<rparr>))
               | (True, b2) \<Rightarrow>
                   Some (True,
                         h(bio1 \<mapsto> o1\<lparr>ptr := Some (b1\<lparr>peer := Some bio2, closed := False, request := 0\<rparr>), init := True\<rparr>,
                           bio2 \<mapsto> o2\<lparr>ptr := Some (b2\<lparr>peer := Some bio1, closed := False, request := 0\<rparr>), init := True\<rparr>))))
     }"

section \<open>Control\<close>

definition BIO_C_GET_WRITE_BUF_SIZE :: int where "BIO_C_GET_WRITE_BUF_SIZE = 137"

definition BIO_C_GET_WRITE_GUARANTEE :: int where "BIO_C_GET_WRITE_GUARANTEE = 140"

definition BIO_C_GET_READ_REQUEST :: int where "BIO_C_GET_READ_REQUEST = 141"

definition BIO_C_SHUTDOWN_WR :: int where "BIO_C_SHUTDOWN_WR = 142"

definition BIO_C_RESET_READ_REQUEST :: int where "BIO_C_RESET_READ_REQUEST = 147"

definition bio_ctrl :: "pair_heap \<Rightarrow> nat \<Rightarrow> int \<Rightarrow> int \<Rightarrow> nat option \<Rightarrow> (int \<times> pair_heap) option" where
  "bio_ctrl h bio cmd larg parg =
     do {
       ob \<leftarrow> h bio;
       b \<leftarrow> ptr ob;
       if cmd = BIO_C_GET_WRITE_BUF_SIZE then Some (int (b_size b), h)
       else if cmd = BIO_C_GET_WRITE_GUARANTEE then
         Some (if peer b = None \<or> closed b then 0 else int (b_size b) - int (b_len b), h)
       else if cmd = BIO_C_GET_READ_REQUEST then Some (int (request b), h)
       else if cmd = BIO_C_RESET_READ_REQUEST then Some (1, h(bio \<mapsto> ob\<lparr>ptr := Some (b\<lparr>request := 0\<rparr>)\<rparr>))
       else if cmd = BIO_C_SHUTDOWN_WR then Some (1, h(bio \<mapsto> ob\<lparr>ptr := Some (b\<lparr>closed := True\<rparr>)\<rparr>))
       else if cmd = BIO_CTRL_GET_CLOSE then Some (shutdown ob, h)
       else if cmd = BIO_CTRL_SET_CLOSE then
         Some (1, h(bio \<mapsto> ob\<lparr>shutdown := sint (word_of_int larg :: 32 word)\<rparr>))
       else if cmd = BIO_CTRL_PENDING then
         (case peer b of
            None \<Rightarrow> Some (0, h)
          | Some p \<Rightarrow> do { po \<leftarrow> h p; peer_b \<leftarrow> ptr po; Some (int (b_len peer_b), h) })
       else if cmd = BIO_CTRL_WPENDING then Some (if b_buf b \<noteq> None then int (b_len b) else 0, h)
       else if cmd = BIO_CTRL_FLUSH then Some (1, h)
       else if cmd = BIO_CTRL_EOF then
         (case parg of
            None \<Rightarrow> Some (1, h)
          | Some a \<Rightarrow>
              do {
                other \<leftarrow> h a;
                other_b \<leftarrow> ptr other;
                Some (if b_len other_b = 0 \<and> closed other_b then 1 else 0, h)
              })
       else Some (0, h)
     }"

definition BIO_TYPE_BIO :: u32 where
  "BIO_TYPE_BIO = 19 OR 0x0400"

definition bio_s_bio :: "libc_malloc \<Rightarrow> (pair_method, bio_bio_st) bio_methods" where
  "bio_s_bio libc =
     \<lparr>mtype = \<lambda>_. BIO_TYPE_BIO, bwrite = \<lambda>_. Some bio_write, bread = \<lambda>_. Some bio_read, bgets = \<lambda>_. None,
      ctrl = \<lambda>_. Some bio_ctrl, create = \<lambda>_. Some (bio_new libc), destroy = \<lambda>_. Some bio_free\<rparr>"

definition BIO_new_bio_pair ::
    "libc_malloc \<Rightarrow> (pair_heap \<Rightarrow> nat option) \<Rightarrow> pair_heap \<Rightarrow> nat \<Rightarrow> nat \<Rightarrow>
     (bool \<times> nat option \<times> nat option \<times> pair_heap) option" where
  "BIO_new_bio_pair libc alloc h writebuf1_len writebuf2_len =
     (let ms = bio_s_bio libc
      in do {
           (bio1, h) \<leftarrow> BIO_new ms alloc h methods_biop;
           (bio2, h) \<leftarrow> BIO_new ms alloc h methods_biop;
           (ok, h) \<leftarrow>
             (case (bio1, bio2) of
                (Some a1, Some a2) \<Rightarrow> bio_make_pair libc h a1 a2 writebuf1_len writebuf2_len
              | _ \<Rightarrow> Some (False, h));
           if ok then Some (True, bio1, bio2, h)
           else
             do {
               (_, h) \<leftarrow> BIO_free ms h bio1;
               (_, h) \<leftarrow> BIO_free ms h bio2;
               Some (False, None, None, h)
             }
         })"

definition BIO_ctrl_get_read_request ::
    "libc_malloc \<Rightarrow> pair_heap \<Rightarrow> nat option \<Rightarrow> (int \<times> pair_heap) option" where
  "BIO_ctrl_get_read_request libc h bio = BIO_ctrl (bio_s_bio libc) h bio BIO_C_GET_READ_REQUEST 0 None"

definition BIO_ctrl_get_write_guarantee ::
    "libc_malloc \<Rightarrow> pair_heap \<Rightarrow> nat option \<Rightarrow> (int \<times> pair_heap) option" where
  "BIO_ctrl_get_write_guarantee libc h bio = BIO_ctrl (bio_s_bio libc) h bio BIO_C_GET_WRITE_GUARANTEE 0 None"

definition BIO_shutdown_wr :: "libc_malloc \<Rightarrow> pair_heap \<Rightarrow> nat option \<Rightarrow> (int \<times> pair_heap) option" where
  "BIO_shutdown_wr libc h bio = BIO_ctrl (bio_s_bio libc) h bio BIO_C_SHUTDOWN_WR 0 None"

end
