(* ===== verification/BioPair_Spec.thy ===== *)
theory BioPair_Spec
  imports BioPair
begin

text \<open>
  A BIO pair as two queues. The ring buffers, the invariant the comments of \<open>struct bio_bio_st\<close>
  state, what reading and writing do to the queues, and that over any run each side reads exactly what
  the other side has written, in order.
\<close>

section \<open>Rings\<close>

definition ring_slice :: "'a list \<Rightarrow> nat \<Rightarrow> nat \<Rightarrow> 'a list" where
  "ring_slice ring off k = map (\<lambda>i. ring ! ((off + i) mod length ring)) [0 ..< k]"

lemma length_ring_slice [simp]: "length (ring_slice ring off k) = k"
  by (simp add: ring_slice_def)

lemma ring_slice_0 [simp]: "ring_slice ring off 0 = []"
  by (simp add: ring_slice_def)

lemma ring_slice_direct: "off + k \<le> length ring \<Longrightarrow> ring_slice ring off k = take k (drop off ring)"
  by (rule nth_equalityI) (auto simp: ring_slice_def)

lemma ring_slice_add:
  "ring_slice ring off (j + k) = ring_slice ring off j @ ring_slice ring ((off + j) mod length ring) k"
  by (rule nth_equalityI) (auto simp: ring_slice_def nth_append mod_add_left_eq)

lemma ring_slice_take: "j \<le> k \<Longrightarrow> take j (ring_slice ring off k) = ring_slice ring off j"
  by (simp add: ring_slice_def take_map)

lemma ring_slice_drop: "j \<le> k \<Longrightarrow> drop j (ring_slice ring off k) = ring_slice ring ((off + j) mod length ring) (k - j)"
  using ring_slice_add [of ring off j "k - j"] by simp

lemma nth_mem_write:
  "i + length bs \<le> length m \<Longrightarrow> k < length m \<Longrightarrow>
   mem_write m i bs ! k = (if i \<le> k \<and> k < i + length bs then bs ! (k - i) else m ! k)"
  by (auto simp: mem_write_def nth_append)

lemma mod_once: "x < 2 * n \<Longrightarrow> x mod n = (if x < n then x else x - n)" for n :: nat
  by (auto simp: le_mod_geq)

text \<open>Bytes written behind the last byte of a ring come behind its contents.\<close>

lemma ring_slice_write:
  assumes n: "length ring = n" "off < n" "k + c \<le> n" and c: "length bs = c" "(off + k) mod n + c \<le> n"
  shows "ring_slice (mem_write ring ((off + k) mod n) bs) off (k + c) = ring_slice ring off k @ bs"
proof -
  let ?wo = "(off + k) mod n" and ?r = "mem_write ring ((off + k) mod n) bs"
  have len: "length ?r = n" using n c by simp
  have "ring_slice ?r off k = ring_slice ring off k"
  proof (rule nth_equalityI)
    fix i
    assume "i < length (ring_slice ?r off k)"
    then have i: "i < k" by simp
    have "(off + i) mod n < ?wo \<or> ?wo + c \<le> (off + i) mod n"
      using i n mod_once [of "off + i" n] mod_once [of "off + k" n] by auto
    moreover have "(off + i) mod n < n" using n by simp
    ultimately have "?r ! ((off + i) mod n) = ring ! ((off + i) mod n)"
      using nth_mem_write [of ?wo bs ring "(off + i) mod n"] n c by auto
    then show "ring_slice ?r off k ! i = ring_slice ring off k ! i"
      using i len n by (simp add: ring_slice_def)
  qed simp
  moreover have "ring_slice ?r ?wo c = bs"
    using c n len by (simp add: ring_slice_direct) (simp add: mem_write_def)
  ultimately show ?thesis using ring_slice_add [of ?r off k c] len by simp
qed

section \<open>The loops\<close>

definition ring_wf :: "bio_bio_st \<Rightarrow> bytes \<Rightarrow> bool" where
  "ring_wf b ring \<longleftrightarrow> length ring = b_size b \<and> 0 < b_size b \<and> b_size b \<le> ADDRESS_SPACE \<and> b_len b \<le> b_size b \<and>
     b_offset b < b_size b \<and> (b_len b = 0 \<longrightarrow> b_offset b = 0) \<and> (b_len b \<noteq> 0 \<longrightarrow> request b = 0) \<and>
     request b \<le> b_size b"

definition queued :: "bio_bio_st \<Rightarrow> bytes \<Rightarrow> bytes" where
  "queued b ring = ring_slice ring (b_offset b) (b_len b)"

lemma read_loop_fits:
  "b_offset b + rest \<le> b_size b \<Longrightarrow> b_offset b < b_size b \<Longrightarrow>
   read_loop b ring rest out = Some (out @ take rest (drop (b_offset b) ring),
     b\<lparr>b_len := b_len b - rest, b_offset := if b_len b - rest = 0 then 0 else (b_offset b + rest) mod b_size b\<rparr>)"
  by (subst read_loop.simps) (auto simp: Let_def)

lemma read_loop_wraps:
  "b_size b < b_offset b + rest \<Longrightarrow> b_offset b < b_size b \<Longrightarrow> rest \<le> b_len b \<Longrightarrow>
   read_loop b ring rest out =
     read_loop (b\<lparr>b_len := b_len b - (b_size b - b_offset b), b_offset := 0\<rparr>) ring (rest - (b_size b - b_offset b))
       (out @ take (b_size b - b_offset b) (drop (b_offset b) ring))"
  by (subst read_loop.simps) (auto simp: Let_def)

lemma write_loop_fits:
  "b_offset b < b_size b \<Longrightarrow> b_len b \<le> b_size b \<Longrightarrow> (b_offset b + b_len b) mod b_size b + rest \<le> b_size b \<Longrightarrow>
   write_loop b ring rest src =
     Some (mem_write ring ((b_offset b + b_len b) mod b_size b) (take rest src), b\<lparr>b_len := b_len b + rest\<rparr>)"
  by (subst write_loop.simps) (auto simp: Let_def mod_once [of "b_offset b + b_len b"])

lemma write_loop_wraps:
  "b_offset b < b_size b \<Longrightarrow> b_len b \<le> b_size b \<Longrightarrow> wo = (b_offset b + b_len b) mod b_size b \<Longrightarrow>
   b_size b < wo + rest \<Longrightarrow>
   write_loop b ring rest src =
     write_loop (b\<lparr>b_len := b_len b + (b_size b - wo)\<rparr>) (mem_write ring wo (take (b_size b - wo) src))
       (rest - (b_size b - wo)) (drop (b_size b - wo) src)"
  by (subst write_loop.simps) (auto simp: Let_def mod_once [of "b_offset b + b_len b"])

lemma read_loop_result:
  assumes wf: "ring_wf b ring" and rest: "0 < rest" "rest \<le> b_len b"
  shows "\<exists>b'. read_loop b ring rest out = Some (out @ take rest (queued b ring), b') \<and> ring_wf b' ring \<and>
    queued b' ring = drop rest (queued b ring) \<and>
    b' = b\<lparr>b_len := b_len b - rest, b_offset := b_offset b'\<rparr>"
proof -
  let ?n = "b_size b" and ?off = "b_offset b"
  let ?off' = "if b_len b = rest then 0 else (?off + rest) mod ?n"
  let ?b = "b\<lparr>b_len := b_len b - rest, b_offset := ?off'\<rparr>"
  have n: "length ring = ?n" "?off < ?n" "b_len b \<le> ?n" using wf by (auto simp: ring_wf_def)
  have out: "take rest (queued b ring) = ring_slice ring ?off rest"
    using rest by (simp add: queued_def ring_slice_take)
  have "read_loop b ring rest out = Some (out @ take rest (queued b ring), ?b)"
  proof (cases "?off + rest \<le> ?n")
    case True
    then show ?thesis using read_loop_fits [OF True n(2)] rest out by (simp add: ring_slice_direct n)
  next
    case False
    let ?c = "?n - ?off"
    have c: "?c < rest" "rest - ?c \<le> ?n" "0 < ?n" using False n rest by auto
    have "ring_slice ring ?off rest = drop ?off ring @ take (rest - ?c) ring"
      using ring_slice_add [of ring ?off ?c "rest - ?c"] c n by (simp add: ring_slice_direct)
    moreover have "(?off + rest) mod ?n = rest - ?c" using False n rest mod_once [of "?off + rest" ?n] by auto
    moreover have "(rest - ?c) mod ?n = rest - ?c" using False n rest by auto
    ultimately show ?thesis
      using read_loop_wraps [of b rest ring out] read_loop_fits [of "b\<lparr>b_len := b_len b - ?c, b_offset := 0\<rparr>" "rest - ?c" ring]
        False n(1,2) rest c out by simp
  qed
  moreover have "ring_wf ?b ring" using wf n rest by (auto simp: ring_wf_def)
  moreover have "queued ?b ring = drop rest (queued b ring)"
    using rest n by (auto simp: queued_def ring_slice_drop)
  ultimately show ?thesis by (intro exI [of _ ?b]) simp
qed

lemma write_loop_result:
  assumes wf: "ring_wf b ring" and rest: "0 < rest" "rest \<le> b_size b - b_len b" "rest \<le> length src" and req: "request b = 0"
  shows "\<exists>ring'. write_loop b ring rest src = Some (ring', b\<lparr>b_len := b_len b + rest\<rparr>) \<and>
    ring_wf (b\<lparr>b_len := b_len b + rest\<rparr>) ring' \<and>
    queued (b\<lparr>b_len := b_len b + rest\<rparr>) ring' = queued b ring @ take rest src"
proof -
  let ?n = "b_size b" and ?off = "b_offset b" and ?k = "b_len b"
  let ?wo = "(?off + ?k) mod ?n"
  have n: "length ring = ?n" "?off < ?n" "?k \<le> ?n" "0 < ?n" using wf by (auto simp: ring_wf_def)
  have wo: "?wo < ?n" using n by simp
  have "\<exists>ring'. write_loop b ring rest src = Some (ring', b\<lparr>b_len := ?k + rest\<rparr>) \<and> length ring' = ?n \<and>
    ring_slice ring' ?off (?k + rest) = ring_slice ring ?off ?k @ take rest src"
  proof (cases "?wo + rest \<le> ?n")
    case True
    then show ?thesis
      using write_loop_fits [of b rest ring src] ring_slice_write [of ring ?n ?off ?k rest "take rest src"] n rest by simp
  next
    case False
    obtain wo c where wo: "wo = ?wo" and c: "wo + c = ?n" "0 < c" "c < rest"
      using False wo by (metis add_diff_inverse_nat less_imp_le not_le zero_less_diff nat_add_left_cancel_less)
    define r1 r2 where "r1 = mem_write ring wo (take c src)" and "r2 = mem_write r1 0 (take (rest - c) (drop c src))"
    have z: "(?off + (?k + c)) mod ?n = 0"
      using c(1) unfolding wo by (metis add.assoc mod_add_left_eq mod_self)
    have l1: "length r1 = ?n" using n c rest by (simp add: r1_def)
    have s1: "ring_slice r1 ?off (?k + c) = ring_slice ring ?off ?k @ take c src"
      using ring_slice_write [of ring ?n ?off ?k c "take c src"] n c rest by (simp add: r1_def flip: wo)
    have s2: "ring_slice r2 ?off ((?k + c) + (rest - c)) = ring_slice r1 ?off (?k + c) @ take (rest - c) (drop c src)"
      unfolding r2_def using ring_slice_write [of r1 ?n ?off "?k + c" "rest - c" "take (rest - c) (drop c src)"] l1 n c rest
      by (simp only: z) simp
    have k: "?k + c + (rest - c) = ?k + rest" using c by simp
    have "ring_slice r2 ?off (?k + rest) = ring_slice ring ?off ?k @ take rest src"
      using s2 take_add [of c "rest - c" src] c unfolding k s1 by simp
    moreover have "write_loop b ring rest src = Some (r2, b\<lparr>b_len := ?k + rest\<rparr>)"
    proof -
      have d: "?n - wo = c" "?n < wo + rest" using c by auto
      have "write_loop b ring rest src = write_loop (b\<lparr>b_len := ?k + c\<rparr>) r1 (rest - c) (drop c src)"
        using write_loop_wraps [OF n(2,3) wo d(2)] by (simp only: d(1) r1_def)
      also have "\<dots> = Some (r2, b\<lparr>b_len := ?k + rest\<rparr>)"
        using write_loop_fits [of "b\<lparr>b_len := ?k + c\<rparr>" "rest - c" r1 "drop c src"] n rest c k by (simp add: z r2_def)
      finally show ?thesis .
    qed
    moreover have "length r2 = ?n" using l1 c rest n by (simp add: r2_def)
    ultimately show ?thesis by blast
  qed
  then show ?thesis using wf rest req by (auto simp: ring_wf_def queued_def)
qed

section \<open>The invariant of a pair\<close>

definition end_of :: "pair_heap \<Rightarrow> nat \<Rightarrow> bio_bio_st option" where
  "end_of h a = Option.bind (h a) ptr"

definition live :: "pair_heap \<Rightarrow> nat \<Rightarrow> bool" where
  "live h a = (case h a of None \<Rightarrow> False | Some ob \<Rightarrow> init ob \<and> bio_method ob = Some methods_biop)"

definition half :: "pair_heap \<Rightarrow> nat \<Rightarrow> nat \<Rightarrow> bool" where
  "half h a c \<longleftrightarrow> live h a \<and>
     (\<exists>b ring. end_of h a = Some b \<and> peer b = Some c \<and> b_buf b = Some ring \<and> ring_wf b ring)"

definition pair_inv :: "pair_heap \<Rightarrow> nat \<Rightarrow> nat \<Rightarrow> bool" where
  "pair_inv h a c \<longleftrightarrow> a \<noteq> c \<and> half h a c \<and> half h c a"

text \<open>What has been written to \<open>a\<close> and not been read yet; whether \<open>a\<close> is shut down; the size of its buffer.\<close>

definition unread :: "pair_heap \<Rightarrow> nat \<Rightarrow> bytes" where
  "unread h a =
     (case end_of h a of None \<Rightarrow> [] | Some b \<Rightarrow> (case b_buf b of None \<Rightarrow> [] | Some ring \<Rightarrow> queued b ring))"

definition shut :: "pair_heap \<Rightarrow> nat \<Rightarrow> bool" where
  "shut h a = (case end_of h a of None \<Rightarrow> False | Some b \<Rightarrow> closed b)"

definition capacity :: "pair_heap \<Rightarrow> nat \<Rightarrow> nat" where
  "capacity h a = (case end_of h a of None \<Rightarrow> 0 | Some b \<Rightarrow> b_size b)"

lemma pair_sym: "pair_inv h a c \<longleftrightarrow> pair_inv h c a"
  by (auto simp: pair_inv_def)

lemma pair_halves:
  assumes "pair_inv h a c"
  obtains oa ba ra oc bc rc where "a \<noteq> c" "h a = Some oa" "init oa" "bio_method oa = Some methods_biop" "ptr oa = Some ba"
    "peer ba = Some c" "b_buf ba = Some ra" "ring_wf ba ra"
    "h c = Some oc" "init oc" "bio_method oc = Some methods_biop" "ptr oc = Some bc"
    "peer bc = Some a" "b_buf bc = Some rc" "ring_wf bc rc"
  using assms by (fastforce simp: pair_inv_def half_def live_def end_of_def bind_eq_Some_conv split: option.splits)

lemma retry_simps [simp]:
  "ptr (BIO_clear_retry_flags ob) = ptr ob" "init (BIO_clear_retry_flags ob) = init ob" "bio_method (BIO_clear_retry_flags ob) = bio_method ob"
  "ptr (BIO_set_retry_read ob) = ptr ob" "init (BIO_set_retry_read ob) = init ob" "bio_method (BIO_set_retry_read ob) = bio_method ob"
  "ptr (BIO_set_retry_write ob) = ptr ob" "init (BIO_set_retry_write ob) = init ob" "bio_method (BIO_set_retry_write ob) = bio_method ob"
  by (simp_all add: BIO_clear_retry_flags_def BIO_set_retry_read_def BIO_set_retry_write_def)

lemma size_of_int_nonneg: "0 \<le> n \<Longrightarrow> n \<le> int INT_MAX \<Longrightarrow> size_of_int n = nat n"
  by (simp add: size_of_int_def INT_MAX_def SIZE_MOD_def)

lemma int_of_size_small: "n \<le> INT_MAX \<Longrightarrow> int_of_size n = int n"
  by (simp add: int_of_size_def INT_MAX_def signed_of_nat signed_take_bit_int_eq_self)

lemmas pair_state = pair_inv_def half_def live_def end_of_def unread_def shut_def capacity_def

definition holds :: "pair_heap \<Rightarrow> nat \<Rightarrow> nat \<Rightarrow> bio_bio_st \<Rightarrow> bytes \<Rightarrow> bool" where
  "holds h a c b ring \<longleftrightarrow> live h a \<and> end_of h a = Some b \<and> peer b = Some c \<and> b_buf b = Some ring \<and> ring_wf b ring"

lemma holdsI:
  "h a = Some ob \<Longrightarrow> init ob \<Longrightarrow> bio_method ob = Some methods_biop \<Longrightarrow> ptr ob = Some b \<Longrightarrow> peer b = Some c \<Longrightarrow>
   b_buf b = Some ring \<Longrightarrow> ring_wf b ring \<Longrightarrow> holds h a c b ring"
  by (simp add: holds_def live_def end_of_def)

lemma holdsE:
  assumes "holds h a c b ring"
  obtains ob where "h a = Some ob" "init ob" "bio_method ob = Some methods_biop" "ptr ob = Some b" "peer b = Some c"
    "b_buf b = Some ring" "ring_wf b ring"
  using assms by (auto simp: holds_def live_def end_of_def bind_eq_Some_conv split: option.splits)

lemma pair_holds:
  assumes "pair_inv h a c"
  obtains ba ra bc rc where "a \<noteq> c" "holds h a c ba ra" "holds h c a bc rc"
  using assms by (auto simp: pair_inv_def half_def holds_def)

lemma holds_facts: "holds h a c b ring \<Longrightarrow> unread h a = queued b ring \<and> shut h a = closed b \<and> capacity h a = b_size b"
  by (simp add: holds_def unread_def shut_def capacity_def)

text \<open>What a change of the two halves makes of a pair.\<close>

lemma pair_change:
  assumes "a \<noteq> c" and old: "holds h a c ba ra" "holds h c a bc rc" and new: "holds h' a c ba' ra'" "holds h' c a bc' rc'"
    and same: "b_size ba' = b_size ba" "b_size bc' = b_size bc" "\<forall>x. x \<noteq> a \<longrightarrow> x \<noteq> c \<longrightarrow> h' x = h x"
  shows "pair_inv h' a c" and "capacity h' = capacity h"
    and "closed ba' = closed ba \<Longrightarrow> closed bc' = closed bc \<Longrightarrow> shut h' = shut h"
proof -
  show "pair_inv h' a c" using assms by (auto simp: pair_inv_def half_def holds_def)
  have e: "end_of h' x = end_of h x" if "x \<noteq> a" "x \<noteq> c" for x using same(3) that by (simp add: end_of_def)
  show "capacity h' = capacity h"
  proof
    fix x
    show "capacity h' x = capacity h x"
      using holds_facts [OF old(1)] holds_facts [OF old(2)] holds_facts [OF new(1)] holds_facts [OF new(2)] same e [of x]
      by (cases "x = a"; cases "x = c") (auto simp: capacity_def [of _ x])
  qed
  show "shut h' = shut h" if "closed ba' = closed ba" "closed bc' = closed bc"
  proof
    fix x
    show "shut h' x = shut h x"
      using holds_facts [OF old(1)] holds_facts [OF old(2)] holds_facts [OF new(1)] holds_facts [OF new(2)] that e [of x]
      by (cases "x = a"; cases "x = c") (auto simp: shut_def [of _ x])
  qed
qed

lemma bio_read_result:
  assumes inv: "pair_inv h a c" and n: "0 < n" "n \<le> int INT_MAX"
  shows "\<exists>h'. bio_read h a False n =
      Some (if unread h c \<noteq> [] then int (min (nat n) (length (unread h c))) else if shut h c then 0 else - 1,
            take (nat n) (unread h c), h') \<and>
    pair_inv h' a c \<and> unread h' c = drop (nat n) (unread h c) \<and> unread h' a = unread h a \<and>
    shut h' = shut h \<and> capacity h' = capacity h \<and> (\<forall>x. x \<noteq> a \<longrightarrow> x \<noteq> c \<longrightarrow> h' x = h x)"
proof -
  obtain ba ra bc rc where H: "a \<noteq> c" "holds h a c ba ra" "holds h c a bc rc" by (rule pair_holds [OF inv])
  obtain oa where A: "h a = Some oa" "init oa" "bio_method oa = Some methods_biop" "ptr oa = Some ba" "peer ba = Some c"
    "b_buf ba = Some ra" "ring_wf ba ra" by (rule holdsE [OF H(2)])
  obtain oc where C: "h c = Some oc" "init oc" "bio_method oc = Some methods_biop" "ptr oc = Some bc" "peer bc = Some a"
    "b_buf bc = Some rc" "ring_wf bc rc" by (rule holdsE [OF H(3)])
  note f = holds_facts [OF H(2)] holds_facts [OF H(3)]
  have sz: "size_of_int n = nat n" "0 < nat n" using n by (simp_all add: size_of_int_nonneg)
  have l: "length (queued bc rc) = b_len bc" by (simp add: queued_def)
  have result: ?thesis
    if r: "bio_read h a False n =
        Some (if queued bc rc \<noteq> [] then int (min (nat n) (b_len bc)) else if closed bc then 0 else - 1,
              take (nat n) (queued bc rc), h(a \<mapsto> oa', c \<mapsto> oc\<lparr>ptr := Some b'\<rparr>))"
      and oa': "ptr oa' = ptr oa" "init oa' = init oa" "bio_method oa' = bio_method oa"
      and b': "ring_wf b' rc" "queued b' rc = drop (nat n) (queued bc rc)" "peer b' = Some a" "b_buf b' = Some rc"
        "closed b' = closed bc" "b_size b' = b_size bc"
    for oa' b'
  proof -
    let ?h = "h(a \<mapsto> oa', c \<mapsto> oc\<lparr>ptr := Some b'\<rparr>)"
    have N: "holds ?h a c ba ra" "holds ?h c a b' rc"
      using A C oa' b' H(1) by (auto intro!: holdsI)
    note ch = pair_change [OF H N refl b'(6)]
    show ?thesis
      using r ch b' f holds_facts [OF N(1)] holds_facts [OF N(2)] l by (intro exI [of _ ?h]) (simp add: fun_upd_other)
  qed
  show ?thesis
  proof (cases "b_len bc = 0")
    case True
    then have q: "queued bc rc = []" by (simp add: queued_def)
    show ?thesis
    proof (cases "closed bc")
      case c: True
      show ?thesis
        by (rule result [of "BIO_clear_retry_flags oa" "bc\<lparr>request := 0\<rparr>"])
          (use A C H True c sz q in \<open>auto simp: bio_read_def ring_wf_def queued_def\<close>)
    next
      case c: False
      show ?thesis
        by (rule result [of "BIO_set_retry_read (BIO_clear_retry_flags oa)"
              "bc\<lparr>request := if nat n \<le> b_size bc then nat n else b_size bc\<rparr>"])
          (use A C H True c sz q in \<open>auto simp: bio_read_def ring_wf_def queued_def fun_upd_twist\<close>)
    qed
  next
    case False
    define m where "m = (if b_len bc < nat n then b_len bc else nat n)"
    have m: "0 < m" "m \<le> b_len bc" using False sz by (auto simp: m_def)
    have wf: "ring_wf (bc\<lparr>request := 0\<rparr>) rc" using C by (simp add: ring_wf_def)
    obtain b' where b': "read_loop (bc\<lparr>request := 0\<rparr>) rc m [] = Some (take m (queued bc rc), b')"
      "ring_wf b' rc" "queued b' rc = drop m (queued bc rc)"
      "b' = bc\<lparr>request := 0, b_len := b_len bc - m, b_offset := b_offset b'\<rparr>"
      using read_loop_result [OF wf m(1), of "[]"] m(2) by (auto simp: queued_def)
    have q: "take m (queued bc rc) = take (nat n) (queued bc rc)" "drop m (queued bc rc) = drop (nat n) (queued bc rc)"
      using l by (auto simp: m_def)
    have i: "int_of_size m = int (min (nat n) (b_len bc))"
      using n by (subst int_of_size_small) (auto simp: m_def)
    have f: "peer b' = Some a" "b_buf b' = Some rc" "closed b' = closed bc" "b_size b' = b_size bc"
      using C by (subst b'(4), simp)+
    have ne: "queued bc rc \<noteq> []" using False l by auto
    show ?thesis
      by (rule result [of "BIO_clear_retry_flags oa" b'])
        (use A C H False sz b'(1-3) q i f ne in \<open>simp_all add: bio_read_def Let_def cong: if_cong flip: m_def split del: if_split\<close>)
  qed
qed

lemma bio_write_result:
  assumes inv: "pair_inv h a c" and n: "0 < n" "n \<le> int INT_MAX" "nat n \<le> length src"
  shows "\<exists>h'. bio_write h a (Some src) n =
      Some (if shut h a \<or> length (unread h a) = capacity h a then - 1
            else int (min (nat n) (capacity h a - length (unread h a))), h') \<and>
    pair_inv h' a c \<and> unread h' c = unread h c \<and>
    unread h' a = unread h a @ (if shut h a then [] else take (min (nat n) (capacity h a - length (unread h a))) src) \<and>
    shut h' = shut h \<and> capacity h' = capacity h \<and> (\<forall>x. x \<noteq> a \<longrightarrow> x \<noteq> c \<longrightarrow> h' x = h x)"
proof -
  obtain ba ra bc rc where H: "a \<noteq> c" "holds h a c ba ra" "holds h c a bc rc" by (rule pair_holds [OF inv])
  obtain oa where A: "h a = Some oa" "init oa" "bio_method oa = Some methods_biop" "ptr oa = Some ba" "peer ba = Some c"
    "b_buf ba = Some ra" "ring_wf ba ra" by (rule holdsE [OF H(2)])
  note f = holds_facts [OF H(2)] holds_facts [OF H(3)]
  have sz: "size_of_int n = nat n" "0 < nat n" using n by (simp_all add: size_of_int_nonneg)
  have l: "length (queued ba ra) = b_len ba" by (simp add: queued_def)
  have le: "b_len ba \<le> b_size ba" using A by (simp add: ring_wf_def)
  have result: ?thesis
    if r: "bio_write h a (Some src) n =
        Some (if closed ba \<or> b_len ba = b_size ba then - 1 else int (min (nat n) (b_size ba - b_len ba)), h(a \<mapsto> oa'))"
      and oa': "ptr oa' = Some b'" "init oa' = init oa" "bio_method oa' = bio_method oa"
      and b': "ring_wf b' r'" "queued b' r' = queued ba ra @ (if closed ba then [] else take (min (nat n) (b_size ba - b_len ba)) src)"
        "peer b' = Some c" "b_buf b' = Some r'" "closed b' = closed ba" "b_size b' = b_size ba"
    for oa' b' r'
  proof -
    let ?h = "h(a \<mapsto> oa')"
    have N: "holds ?h a c b' r'" "holds ?h c a bc rc"
      using A oa' b' H by (auto intro!: holdsI simp: holds_def live_def end_of_def)
    note ch = pair_change [OF H N b'(6) refl]
    show ?thesis
      using r ch b' f holds_facts [OF N(1)] holds_facts [OF N(2)] l by (intro exI [of _ ?h]) simp
  qed
  show ?thesis
  proof (cases "closed ba \<or> b_len ba = b_size ba")
    case True
    show ?thesis
      by (rule result [of "(if closed ba then id else BIO_set_retry_write)
            ((BIO_clear_retry_flags oa)\<lparr>ptr := Some (ba\<lparr>request := 0\<rparr>)\<rparr>)" "ba\<lparr>request := 0\<rparr>" ra])
        (use A True sz in \<open>auto simp: bio_write_def ring_wf_def queued_def BIO_set_retry_write_def\<close>)
  next
    case False
    define m where "m = (if nat n > b_size ba - b_len ba then b_size ba - b_len ba else nat n)"
    have m: "0 < m" "m \<le> b_size ba - b_len ba" "m \<le> length src" "m = min (nat n) (b_size ba - b_len ba)"
      using False sz n le by (auto simp: m_def)
    have wf: "ring_wf (ba\<lparr>request := 0\<rparr>) ra" using A by (simp add: ring_wf_def)
    obtain r' where r': "write_loop (ba\<lparr>request := 0\<rparr>) ra m src = Some (r', ba\<lparr>request := 0, b_len := b_len ba + m\<rparr>)"
      "ring_wf (ba\<lparr>request := 0, b_len := b_len ba + m\<rparr>) r'"
      "queued (ba\<lparr>request := 0, b_len := b_len ba + m\<rparr>) r' = queued ba ra @ take m src"
      using write_loop_result [OF wf m(1) _ m(3)] m(2) by (auto simp: queued_def)
    have i: "int_of_size m = int m" using n m(4) by (intro int_of_size_small) auto
    let ?b = "ba\<lparr>request := 0, b_len := b_len ba + m, b_buf := Some r'\<rparr>"
    show ?thesis
    proof (rule result [of "(BIO_clear_retry_flags oa)\<lparr>ptr := Some ?b\<rparr>" ?b r'])
      have "bio_write h a (Some src) n = Some (int m, h(a \<mapsto> (BIO_clear_retry_flags oa)\<lparr>ptr := Some ?b\<rparr>))"
        using A False sz r'(1) i by (simp add: bio_write_def Let_def cong: if_cong flip: m_def split del: if_split)
      then show "bio_write h a (Some src) n =
          Some (if closed ba \<or> b_len ba = b_size ba then - 1 else int (min (nat n) (b_size ba - b_len ba)),
                h(a \<mapsto> (BIO_clear_retry_flags oa)\<lparr>ptr := Some ?b\<rparr>))"
        using False m(4) by simp
      show "ring_wf ?b r'" using r'(2) by (simp add: ring_wf_def)
      show "queued ?b r' = queued ba ra @ (if closed ba then [] else take (min (nat n) (b_size ba - b_len ba)) src)"
        using r'(3) False unfolding m(4) by (simp add: queued_def)
    qed (use A in simp_all)
  qed
qed

section \<open>The operations of \<open>BIO\<close> on a pair\<close>

lemma bookkeeping:
  assumes "h a = Some ob" and "ptr ob' = ptr ob" and "init ob' = init ob" and "bio_method ob' = bio_method ob"
  shows "live (h(a \<mapsto> ob')) = live h" and "end_of (h(a \<mapsto> ob')) = end_of h"
  using assms by (auto simp: live_def end_of_def fun_eq_iff)

lemma same_state:
  assumes "live h' = live h" and "end_of h' = end_of h"
  shows "pair_inv h' = pair_inv h" and "unread h' = unread h" and "shut h' = shut h" and "capacity h' = capacity h"
  using assms by (auto simp: pair_inv_def half_def unread_def shut_def capacity_def fun_eq_iff)

lemma pair_there: "pair_inv h a c \<Longrightarrow> \<exists>ob. h a = Some ob \<and> init ob \<and> bio_method ob = Some methods_biop"
  by (auto simp: pair_inv_def half_def live_def split: option.splits)

theorem pair_read:
  assumes inv: "pair_inv h a c" and n: "0 < n" "n \<le> int INT_MAX"
  shows "\<exists>h'. BIO_read (bio_s_bio libc) h (Some a) n =
      Some (if unread h c \<noteq> [] then int (min (nat n) (length (unread h c))) else if shut h c then 0 else - 1,
            take (nat n) (unread h c), h') \<and>
    pair_inv h' a c \<and> unread h' c = drop (nat n) (unread h c) \<and> unread h' a = unread h a \<and>
    shut h' = shut h \<and> capacity h' = capacity h"
proof -
  obtain ob where ob: "h a = Some ob" "init ob" "bio_method ob = Some methods_biop" using pair_there [OF inv] by blast
  let ?r = "if unread h c \<noteq> [] then int (min (nat n) (length (unread h c))) else if shut h c then 0 else - 1"
  obtain h1 where h1: "bio_read h a False n = Some (?r, take (nat n) (unread h c), h1)"
    "pair_inv h1 a c" "unread h1 c = drop (nat n) (unread h c)" "unread h1 a = unread h a" "shut h1 = shut h"
    "capacity h1 = capacity h"
    using bio_read_result [OF inv n] by blast
  obtain ob1 where ob1: "h1 a = Some ob1" using pair_there [OF h1(2)] by blast
  let ?h = "if ?r > 0 then h1(a \<mapsto> ob1\<lparr>num_read := size_plus (num_read ob1) ?r\<rparr>) else h1"
  have "BIO_read (bio_s_bio libc) h (Some a) n = Some (?r, take (nat n) (unread h c), ?h)"
    using ob n h1(1) ob1 by (simp add: BIO_read_def bio_s_bio_def split del: if_split) (simp split: if_splits)
  moreover have "live ?h = live h1" "end_of ?h = end_of h1" using bookkeeping [of h1 a ob1 "ob1\<lparr>num_read := size_plus (num_read ob1) ?r\<rparr>"] ob1 by simp_all
  ultimately show ?thesis using same_state [of ?h h1] h1 by (intro exI [of _ ?h]) (simp split del: if_split)
qed

theorem pair_write:
  assumes inv: "pair_inv h a c" and n: "0 < n" "n \<le> int INT_MAX" "nat n \<le> length src"
  shows "\<exists>h'. BIO_write (bio_s_bio libc) h (Some a) src n =
      Some (if shut h a \<or> length (unread h a) = capacity h a then - 1
            else int (min (nat n) (capacity h a - length (unread h a))), h') \<and>
    pair_inv h' a c \<and> unread h' c = unread h c \<and>
    unread h' a = unread h a @ (if shut h a then [] else take (min (nat n) (capacity h a - length (unread h a))) src) \<and>
    shut h' = shut h \<and> capacity h' = capacity h"
proof -
  obtain ob where ob: "h a = Some ob" "init ob" "bio_method ob = Some methods_biop" using pair_there [OF inv] by blast
  let ?r = "if shut h a \<or> length (unread h a) = capacity h a then - 1
            else int (min (nat n) (capacity h a - length (unread h a)))"
  obtain h1 where h1: "bio_write h a (Some src) n = Some (?r, h1)"
    "pair_inv h1 a c" "unread h1 c = unread h c"
    "unread h1 a = unread h a @ (if shut h a then [] else take (min (nat n) (capacity h a - length (unread h a))) src)"
    "shut h1 = shut h" "capacity h1 = capacity h"
    using bio_write_result [OF inv n] by blast
  obtain ob1 where ob1: "h1 a = Some ob1" using pair_there [OF h1(2)] by blast
  let ?h = "if ?r > 0 then h1(a \<mapsto> ob1\<lparr>num_write := size_plus (num_write ob1) ?r\<rparr>) else h1"
  have "BIO_write (bio_s_bio libc) h (Some a) src n = Some (?r, ?h)"
    using ob n h1(1) ob1 by (simp add: BIO_write_def bio_s_bio_def split del: if_split) (simp split: if_splits)
  moreover have "live ?h = live h1" "end_of ?h = end_of h1" using bookkeeping [of h1 a ob1 "ob1\<lparr>num_write := size_plus (num_write ob1) ?r\<rparr>"] ob1 by simp_all
  ultimately show ?thesis using same_state [of ?h h1] h1 by (intro exI [of _ ?h]) (simp split del: if_split)
qed

theorem pair_shutdown:
  assumes inv: "pair_inv h a c"
  shows "\<exists>h'. BIO_shutdown_wr libc h (Some a) = Some (1, h') \<and> pair_inv h' a c \<and> unread h' = unread h \<and>
    shut h' = (shut h)(a := True) \<and> capacity h' = capacity h"
proof -
  obtain ba ra bc rc where H: "a \<noteq> c" "holds h a c ba ra" "holds h c a bc rc" by (rule pair_holds [OF inv])
  obtain oa where A: "h a = Some oa" "init oa" "bio_method oa = Some methods_biop" "ptr oa = Some ba" "peer ba = Some c"
    "b_buf ba = Some ra" "ring_wf ba ra" by (rule holdsE [OF H(2)])
  let ?h = "h(a \<mapsto> oa\<lparr>ptr := Some (ba\<lparr>closed := True\<rparr>)\<rparr>)"
  have N: "holds ?h a c (ba\<lparr>closed := True\<rparr>) ra" "holds ?h c a bc rc"
    using A H by (auto intro!: holdsI simp: holds_def live_def end_of_def ring_wf_def)
  note ch = pair_change [OF H N]
  have "BIO_shutdown_wr libc h (Some a) = Some (1, ?h)"
    using A by (simp add: BIO_shutdown_wr_def BIO_ctrl_def bio_s_bio_def bio_ctrl_def BIO_C_SHUTDOWN_WR_def
        BIO_C_GET_WRITE_BUF_SIZE_def BIO_C_GET_WRITE_GUARANTEE_def BIO_C_GET_READ_REQUEST_def BIO_C_RESET_READ_REQUEST_def)
  moreover have "unread ?h = unread h" "shut ?h = (shut h)(a := True)"
    using A by (auto simp: fun_eq_iff unread_def shut_def end_of_def queued_def)
  ultimately show ?thesis using ch by auto
qed

text \<open>The guarantee is the room that is left, and \<open>BIO_write\<close> takes that much.\<close>

theorem write_guarantee:
  assumes inv: "pair_inv h a c"
  shows "BIO_ctrl_get_write_guarantee libc h (Some a) =
    Some (if shut h a then 0 else int (capacity h a - length (unread h a)), h)"
proof -
  obtain ba ra bc rc where H: "a \<noteq> c" "holds h a c ba ra" "holds h c a bc rc" by (rule pair_holds [OF inv])
  obtain oa where A: "h a = Some oa" "init oa" "bio_method oa = Some methods_biop" "ptr oa = Some ba" "peer ba = Some c"
    "b_buf ba = Some ra" "ring_wf ba ra" by (rule holdsE [OF H(2)])
  then show ?thesis
    using holds_facts [OF H(2)]
    by (simp add: BIO_ctrl_get_write_guarantee_def BIO_ctrl_def bio_s_bio_def bio_ctrl_def
        BIO_C_GET_WRITE_BUF_SIZE_def BIO_C_GET_WRITE_GUARANTEE_def ring_wf_def queued_def of_nat_diff)
qed

section \<open>A fresh pair\<close>

lemma new_half:
  "BIO_new (bio_s_bio libc) alloc h methods_biop =
     (case alloc h of
        None \<Rightarrow> Some (None, h)
      | Some a \<Rightarrow>
          (case heap_malloc libc SIZEOF_BIO_BIO of
             None \<Rightarrow> Some (None, h(a := None))
           | Some _ \<Rightarrow>
               Some (Some a, h(a \<mapsto>
                 \<lparr>bio_method = Some methods_biop, init = False, shutdown = 1, flags = 0, retry_reason = 0, references = 1,
                  ptr = Some \<lparr>peer = None, closed = False, b_len = 0, b_offset = 0, b_size = 17 * 1024, b_buf = None, request = 0\<rparr>,
                  next_bio = None, num_read = 0, num_write = 0\<rparr>))))"
  by (simp add: BIO_new_def bio_s_bio_def bio_new_def split: option.splits)

definition ring_size :: "nat \<Rightarrow> nat" where
  "ring_size n = (if n = 0 then 17 * 1024 else n)"

lemma make_buf_result:
  assumes "libc_wf libc" and "n \<le> HEAP_LIMIT" and "b_buf b = None" and "b_size b = 17 * 1024" and "request b = 0"
    and "make_buf libc b n = (True, b')"
  shows "\<exists>ring. b_buf b' = Some ring \<and> ring_wf b' ring \<and> queued b' ring = [] \<and> b_size b' = ring_size n"
proof -
  have "heap_malloc libc (ring_size n) = Some m \<Longrightarrow> length m = ring_size n \<and> ring_size n \<le> ADDRESS_SPACE" for m
    using heap_malloc_length [OF assms(1), of "ring_size n" m] assms(2) by (simp add: ring_size_def HEAP_LIMIT_def)
  then show ?thesis
    using assms(3-6) by (auto simp: make_buf_def Let_def ring_size_def ring_wf_def queued_def split: option.splits if_splits)
qed

definition fresh_alloc :: "(pair_heap \<Rightarrow> nat option) \<Rightarrow> bool" where
  "fresh_alloc alloc \<longleftrightarrow> (\<forall>h x. alloc h = Some x \<longrightarrow> h x = None)"

theorem new_pair:
  assumes libc: "libc_wf libc" and alloc: "fresh_alloc alloc"
    and l: "l1 \<le> HEAP_LIMIT" "l2 \<le> HEAP_LIMIT" and n: "BIO_new_bio_pair libc alloc h l1 l2 = Some (True, p1, p2, h')"
  shows "\<exists>a c. p1 = Some a \<and> p2 = Some c \<and> pair_inv h' a c \<and> unread h' a = [] \<and> unread h' c = [] \<and>
    \<not> shut h' a \<and> \<not> shut h' c \<and> capacity h' a = ring_size l1 \<and> capacity h' c = ring_size l2"
proof -
  let ?b = "\<lparr>peer = None, closed = False, b_len = 0, b_offset = 0, b_size = 17 * 1024, b_buf = None, request = 0\<rparr>"
  let ?o = "\<lparr>bio_method = Some methods_biop, init = False, shutdown = 1, flags = 0, retry_reason = 0, references = 1,
                  ptr = Some ?b, next_bio = None, num_read = 0, num_write = 0\<rparr>"
  obtain a where a: "alloc h = Some a" "heap_malloc libc SIZEOF_BIO_BIO \<noteq> None" "p1 = Some a"
    using n by (auto simp: BIO_new_bio_pair_def new_half Let_def bind_eq_Some_conv split: option.splits if_splits prod.splits)
  obtain c where c: "alloc (h(a \<mapsto> ?o)) = Some c" "p2 = Some c"
    using n a by (auto simp: BIO_new_bio_pair_def new_half Let_def bind_eq_Some_conv split: option.splits if_splits prod.splits)
  have ac: "a \<noteq> c" using alloc [unfolded fresh_alloc_def, rule_format, OF c(1)] by auto
  have m: "bio_make_pair libc (h(a \<mapsto> ?o, c \<mapsto> ?o)) a c l1 l2 = Some (True, h')"
    using n a c by (auto simp: BIO_new_bio_pair_def new_half Let_def bind_eq_Some_conv split: option.splits if_splits prod.splits)
  obtain b1 b2 where b: "make_buf libc ?b l1 = (True, b1)" "make_buf libc ?b l2 = (True, b2)"
    "h' = h(a \<mapsto> ?o\<lparr>ptr := Some (b1\<lparr>peer := Some c, closed := False, request := 0\<rparr>), init := True\<rparr>,
            c \<mapsto> ?o\<lparr>ptr := Some (b2\<lparr>peer := Some a, closed := False, request := 0\<rparr>), init := True\<rparr>)"
    using m ac by (auto simp: bio_make_pair_def fun_upd_twist split: prod.splits bool.splits)
  obtain r1 where r1: "b_buf b1 = Some r1" "ring_wf b1 r1" "queued b1 r1 = []" "b_size b1 = ring_size l1"
    using make_buf_result [OF libc l(1) _ _ _ b(1)] by auto
  obtain r2 where r2: "b_buf b2 = Some r2" "ring_wf b2 r2" "queued b2 r2 = []" "b_size b2 = ring_size l2"
    using make_buf_result [OF libc l(2) _ _ _ b(2)] by auto
  have H: "holds h' a c (b1\<lparr>peer := Some c, closed := False, request := 0\<rparr>) r1"
    "holds h' c a (b2\<lparr>peer := Some a, closed := False, request := 0\<rparr>) r2"
    using b(3) ac r1 r2 by (auto intro!: holdsI simp: ring_wf_def)
  then have "pair_inv h' a c" using ac by (auto simp: pair_inv_def half_def holds_def)
  then show ?thesis using holds_facts [OF H(1)] holds_facts [OF H(2)] r1 r2 a c by (simp add: queued_def)
qed

section \<open>What is read is what was written\<close>

text \<open>
  Runs on a pair, with all the bytes that each side has accepted and all the bytes it has delivered.
\<close>

inductive pair_run ::
    "libc_malloc \<Rightarrow> (pair_heap \<Rightarrow> nat option) \<Rightarrow> nat \<Rightarrow> nat \<Rightarrow> pair_heap \<Rightarrow> (nat \<Rightarrow> bytes) \<Rightarrow> (nat \<Rightarrow> bytes) \<Rightarrow> bool"
  for libc alloc a c where
  start: "pair_run libc alloc a c h (\<lambda>_. []) (\<lambda>_. [])"
    if "BIO_new_bio_pair libc alloc h0 l1 l2 = Some (True, Some a, Some c, h)" "l1 \<le> HEAP_LIMIT" "l2 \<le> HEAP_LIMIT"
| written: "pair_run libc alloc a c h' (wr(x := wr x @ take (nat r) src)) rd"
    if "pair_run libc alloc a c h wr rd" "x = a \<or> x = c" "n \<le> int INT_MAX" "nat n \<le> length src"
      "BIO_write (bio_s_bio libc) h (Some x) src n = Some (r, h')"
| got: "pair_run libc alloc a c h' wr (rd(x := rd x @ out))"
    if "pair_run libc alloc a c h wr rd" "x = a \<or> x = c" "n \<le> int INT_MAX"
      "BIO_read (bio_s_bio libc) h (Some x) n = Some (r, out, h')"
| shut_down: "pair_run libc alloc a c h' wr rd"
    if "pair_run libc alloc a c h wr rd" "x = a \<or> x = c" "BIO_shutdown_wr libc h (Some x) = Some (r, h')"

lemma write_nothing: "pair_inv h a c \<Longrightarrow> n \<le> 0 \<Longrightarrow> BIO_write (bio_s_bio libc) h (Some a) src n = Some (0, h)"
  using pair_there [of h a c] by (auto simp: BIO_write_def bio_s_bio_def)

lemma read_nothing: "pair_inv h a c \<Longrightarrow> n \<le> 0 \<Longrightarrow> BIO_read (bio_s_bio libc) h (Some a) n = Some (0, [], h)"
  using pair_there [of h a c] by (auto simp: BIO_read_def bio_s_bio_def)

definition in_order :: "nat \<Rightarrow> nat \<Rightarrow> pair_heap \<Rightarrow> (nat \<Rightarrow> bytes) \<Rightarrow> (nat \<Rightarrow> bytes) \<Rightarrow> bool" where
  "in_order a c h wr rd \<longleftrightarrow> pair_inv h a c \<and> wr a = rd c @ unread h a \<and> wr c = rd a @ unread h c"

lemma in_order_sym: "in_order a c h wr rd \<longleftrightarrow> in_order c a h wr rd"
  by (auto simp: in_order_def pair_sym [of h a c])

lemma write_in_order:
  assumes i: "in_order a c h wr rd" and n: "n \<le> int INT_MAX" "nat n \<le> length src"
    and w: "BIO_write (bio_s_bio libc) h (Some a) src n = Some (r, h')"
  shows "in_order a c h' (wr(a := wr a @ take (nat r) src)) rd"
proof (cases "0 < n")
  case True
  have inv: "pair_inv h a c" using i by (simp add: in_order_def)
  have "a \<noteq> c" using inv by (simp add: pair_inv_def)
  then show ?thesis
    using pair_write [OF inv True n, of libc] i w by (auto simp: in_order_def split: if_splits)
next
  case False
  then show ?thesis using write_nothing [of h a c n libc src] i w by (auto simp: in_order_def)
qed

lemma read_in_order:
  assumes i: "in_order a c h wr rd" and n: "n \<le> int INT_MAX"
    and w: "BIO_read (bio_s_bio libc) h (Some a) n = Some (r, out, h')"
  shows "in_order a c h' wr (rd(a := rd a @ out))"
proof (cases "0 < n")
  case True
  have inv: "pair_inv h a c" using i by (simp add: in_order_def)
  have "a \<noteq> c" using inv by (simp add: pair_inv_def)
  then show ?thesis
    using pair_read [OF inv True n, of libc] i w by (auto simp: in_order_def)
next
  case False
  then show ?thesis using read_nothing [of h a c n libc] i w by (auto simp: in_order_def)
qed

lemma close_in_order:
  assumes i: "in_order a c h wr rd" and w: "BIO_shutdown_wr libc h (Some a) = Some (r, h')"
  shows "in_order a c h' wr rd"
  using pair_shutdown [of h a c libc] i w by (auto simp: in_order_def)

lemma pair_run_in_order:
  assumes "libc_wf libc" and "fresh_alloc alloc" and "pair_run libc alloc a c h wr rd"
  shows "in_order a c h wr rd"
  using assms(3)
proof induction
  case (start h0 l1 l2 h)
  then show ?case using new_pair [OF assms(1,2) start(2,3,1)] by (auto simp: in_order_def)
next
  case (written h wr rd x n src r h')
  then show ?case by (metis write_in_order in_order_sym)
next
  case (got h wr rd x n r out h')
  then show ?case by (metis read_in_order in_order_sym)
next
  case (shut_down h wr rd x r h')
  then show ?case by (metis close_in_order in_order_sym)
qed

end
