(* ===== verification/Bio_Spec.thy ===== *)
theory Bio_Spec
  imports BioPair_Spec Der
begin

text \<open>
  What the readers of \<open>Bio\<close> make of a stream: \<open>bio_read_full\<close> takes the first bytes of it,
  \<open>bio_read_all\<close> takes them all, and \<open>BIO_read_asn1\<close> takes one DER element, the one the parser of
  \<open>Cbs\<close> finds. A stream is the locale \<open>byte_source\<close>; reading one end of a BIO pair is an instance.
\<close>

section \<open>Streams\<close>

lemma size_plus_minus: "k \<le> n \<Longrightarrow> n < SIZE_MOD \<Longrightarrow> size_plus n (- int k) = n - k"
  by (simp add: size_plus_def size_of_int_def flip: of_nat_diff)

lemma size_plus_exact: "n + k < SIZE_MOD \<Longrightarrow> size_plus n (int k) = n + k"
  by (simp add: size_plus_def size_of_int_def flip: of_nat_add)

section \<open>The header of an element\<close>

text \<open>The identifier octet of a tag number below 31.\<close>

lemma low_tag_iff: "(\<exists>tag. der_tag tag = [t] \<and> unat (tag_num tag) < 31) \<longleftrightarrow> t AND 0x1f \<noteq> 0x1f"
proof
  assume "\<exists>tag. der_tag tag = [t] \<and> unat (tag_num tag) < 31"
  then obtain tag where tag: "t = tag_lead tag OR ucast (tag_num tag)" "unat (tag_num tag) < 31"
    by (auto simp: der_tag_def split: if_splits)
  have "ucast (t AND 0x1f) = tag_num tag"
    using lead_byte_split(2) [of "tag_num tag" tag] tag by (simp add: unsigned_and_eq)
  then show "t AND 0x1f \<noteq> 0x1f" using tag(2) by auto
next
  assume t: "t AND 0x1f \<noteq> 0x1f"
  let ?n = "ucast t AND 0x1f :: u32"
  have "unat ?n < 32" by (simp add: mask_consts unat_and_mask del: mask_numeral)
  moreover have "unat ?n \<noteq> 31"
  proof
    assume "unat ?n = 31"
    then have "?n = 0x1f" by (simp add: word_unat_eq_iff)
    then show False using t low_bits_u32 [of t] by simp
  qed
  ultimately have n: "unat ?n < 0x1f" by linarith
  then show "\<exists>tag. der_tag tag = [t] \<and> unat (tag_num tag) < 31"
    using tag_parts [of ?n t] byte_split [of t] low_bits_u32 [of t]
    by (intro exI [of _ "push_bit 24 (ucast t AND 0xe0) OR ?n"]) (auto simp: der_tag_def)
qed

lemma fold_be_val:
  "length bs \<le> 4 \<Longrightarrow> unat (foldl (\<lambda>l b. push_bit 8 l OR ucast b) (0 :: u32) bs) = be_val bs"
proof (induction bs rule: rev_induct)
  case (snoc b bs)
  let ?r = "foldl (\<lambda>l b. push_bit 8 l OR ucast b) (0 :: u32) bs"
  have IH: "unat ?r = be_val bs" using snoc by simp
  have "(256::nat) ^ length bs \<le> 256 ^ 3" using snoc.prems by (intro power_increasing) simp_all
  with be_val_less [of bs] have "be_val bs < 256 ^ 3" by (rule less_le_trans)
  then have "unat ?r * 2 ^ 8 < 2 ^ LENGTH(32)" by (simp add: IH)
  then show ?case by (simp add: unat_push_or IH)
qed simp

text \<open>The long form of a length: the checks accept exactly the minimal encodings.\<close>

lemma long_length_iff:
  assumes "length ls = k" and "0 < k" and "k \<le> 4" and "unat b = 128 + k"
  shows "128 \<le> be_val ls \<and> 256 ^ (k - 1) \<le> be_val ls \<longleftrightarrow> b # ls = der_len (be_val ls)"
proof
  assume *: "128 \<le> be_val ls \<and> 256 ^ (k - 1) \<le> be_val ls"
  have "be_val ls < 256 ^ Suc (k - 1)" using be_val_less [of ls] assms by simp
  then have o: "len_octets (be_val ls) = k" using len_octets_unique [of "k - 1"] * assms by simp
  have "128 + k = unat b" using assms(4) by simp
  then have "word_of_nat (128 + k) = b" by simp
  then show "b # ls = der_len (be_val ls)"
    using * be_bytes_be_val [of ls] assms by (simp add: der_len_def o del: of_nat_add)
next
  assume *: "b # ls = der_len (be_val ls)"
  then have ge: "128 \<le> be_val ls" using assms(1,2) by (auto simp: der_len_def split: if_splits)
  then have "length ls = len_octets (be_val ls)" using arg_cong [OF *, of length] by (simp add: der_len_def)
  then show "128 \<le> be_val ls \<and> 256 ^ (k - 1) \<le> be_val ls"
    using len_octets_least [of "be_val ls"] ge assms(1) by simp
qed

text \<open>The bytes at the front of the stream are the header of an element with contents of \<open>n\<close> bytes.\<close>

definition header :: "bytes \<Rightarrow> bytes \<Rightarrow> nat \<Rightarrow> bytes \<Rightarrow> bool" where
  "header bs hdr n r \<longleftrightarrow> bs = hdr @ r \<and> n < 2 ^ 32 \<and> (\<exists>t. hdr = t # der_len n \<and> t AND 0x1f \<noteq> 0x1f)"

definition indefinite :: "bytes \<Rightarrow> bool" where
  "indefinite bs \<longleftrightarrow> (\<exists>t r. bs = t # 0x80 # r \<and> t AND 0x1f \<noteq> 0x1f \<and> t AND 0x20 \<noteq> 0)"

lemma header_length: "header bs hdr n r \<Longrightarrow> length hdr \<le> 6"
  using len_octets_bound [of n 4] by (auto simp: header_def der_len_def)

section \<open>The stream\<close>

text \<open>
  \<open>has w bs e\<close>: in the state \<open>w\<close> the stream will deliver the bytes \<open>bs\<close>, in pieces of any size, and
  then answer every call with \<open>e\<close>.
\<close>

locale byte_source =
  fixes rd :: "'w \<Rightarrow> int \<Rightarrow> (int \<times> bytes \<times> 'w) option"
    and has :: "'w \<Rightarrow> bytes \<Rightarrow> int \<Rightarrow> bool"
  assumes more: "has w bs e \<Longrightarrow> bs \<noteq> [] \<Longrightarrow> 0 < n \<Longrightarrow> n \<le> int INT_MAX \<Longrightarrow>
      \<exists>k w'. rd w n = Some (int k, take k bs, w') \<and> 0 < k \<and> k \<le> nat n \<and> k \<le> length bs \<and> has w' (drop k bs) e"
    and stop: "has w [] e \<Longrightarrow> 0 < n \<Longrightarrow> n \<le> int INT_MAX \<Longrightarrow> \<exists>w'. rd w n = Some (e, [], w') \<and> has w' [] e"
    and code: "has w bs e \<Longrightarrow> e \<le> 0"
begin

lemma read_full_loop:
  "has w bs e \<Longrightarrow> n < SIZE_MOD \<Longrightarrow>
   \<exists>w'. read_full_loop rd w n first acc =
      Some (if n \<le> length bs then (True, acc @ take n bs, False, w') else (False, acc @ bs, first \<and> bs = [] \<and> e = 0, w')) \<and>
    has w' (drop n bs) e"
proof (induction n arbitrary: w bs first acc rule: less_induct)
  case (less n)
  show ?case
  proof (cases "n = 0")
    case True
    then show ?thesis using less.prems by (subst read_full_loop.simps) auto
  next
    case False
    define m where "m = (if n \<le> INT_MAX then int n else int INT_MAX)"
    have m: "0 < m" "m \<le> int INT_MAX" "nat m \<le> n" using False by (auto simp: m_def INT_MAX_def)
    show ?thesis
    proof (cases "bs = []")
      case True
      then obtain w' where w': "rd w m = Some (e, [], w')" "has w' [] e" using stop [OF _ m(1,2)] less.prems by blast
      have "read_full_loop rd w n first acc = Some (False, acc, first \<and> e = 0, w')"
        using False w' code [OF w'(2)] by (subst read_full_loop.simps) (simp add: Let_def flip: m_def)
      then show ?thesis using True False w' by simp
    next
      case ne: False
      then obtain k w1 where k: "rd w m = Some (int k, take k bs, w1)" "0 < k" "k \<le> nat m" "k \<le> length bs" "has w1 (drop k bs) e"
        using more [OF less.prems(1) _ m(1,2)] by blast
      have s: "size_plus n (- int k) = n - k" using k m less.prems by (intro size_plus_minus) auto
      have step: "read_full_loop rd w n first acc = read_full_loop rd w1 (n - k) False (acc @ take k bs)"
        using False k by (subst read_full_loop.simps) (simp add: Let_def s flip: m_def)
      have lt: "n - k < n" "n - k < SIZE_MOD" using k m less.prems by auto
      obtain w' where w': "read_full_loop rd w1 (n - k) False (acc @ take k bs) =
          Some (if n - k \<le> length (drop k bs) then (True, (acc @ take k bs) @ take (n - k) (drop k bs), False, w')
                else (False, (acc @ take k bs) @ drop k bs, False, w'))" "has w' (drop (n - k) (drop k bs)) e"
        using less.IH [OF lt(1) k(5) lt(2), of False "acc @ take k bs"] by (simp only: simp_thms) blast
      have "n - k \<le> length (drop k bs) \<longleftrightarrow> n \<le> length bs" using k by auto
      moreover have "take k bs @ take (n - k) (drop k bs) = take n bs" using k(3) m(3) take_add [of k "n - k" bs] by simp
      moreover have "drop (n - k) (drop k bs) = drop n bs" using k(3) m(3) by simp
      ultimately show ?thesis using step w' ne by auto
    qed
  qed
qed

lemma read_full:
  assumes "has w bs e" and "n < SIZE_MOD"
  obtains w' where "bio_read_full rd w n =
      Some (if n \<le> length bs then (True, take n bs, False, w') else (False, bs, bs = [] \<and> e = 0, w'))"
    "has w' (drop n bs) e"
  using read_full_loop [OF assms, of True "[]"] by (auto simp: bio_read_full_def)

text \<open>Reading to the end: it terminates, and a success is the whole stream, shorter than \<open>max_len\<close>.\<close>

lemma read_all_loop:
  assumes "has w bs e" and "e = 0 \<or> e = - 1" and "libc_wf libc" and "max_len \<le> HEAP_LIMIT"
    and "length out = n" and "length pre \<le> n" and "n \<le> max_len" and "n - length pre \<le> 6144" and "take (length pre) out = pre"
  shows "\<exists>res w'. read_all_loop libc rd max_len w out n (length pre) = Some (res, w') \<and>
    (\<forall>buf len. res = Some (buf, len) \<longrightarrow> e = 0 \<and> take len buf = pre @ bs \<and> len = length (pre @ bs) \<and> len < max_len)"
  using assms(1,5-9)
proof (induction "length bs" arbitrary: w bs out n pre rule: less_induct)
  case less
  show ?case
  proof (cases "length pre = n")
    case True
    then show ?thesis by (subst read_all_loop.simps) simp
  next
    case False
    have lim: "n < SIZE_MOD" using less.prems assms(4) by (simp add: HEAP_LIMIT_def SIZE_MOD_def)
    have m: "int_of_size (size_plus n (- int (length pre))) = int (n - length pre)"
      using less.prems lim by (simp add: size_plus_minus int_of_size_small INT_MAX_def)
    have todo: "0 < int (n - length pre)" "int (n - length pre) \<le> int INT_MAX" using False less.prems by (auto simp: INT_MAX_def)
    show ?thesis
    proof (cases "bs = []")
      case True
      then obtain w' where "rd w (int (n - length pre)) = Some (e, [], w')" using stop [OF _ todo] less.prems by blast
      then show ?thesis
        using False True less.prems assms(2) by (subst read_all_loop.simps) (auto simp: m)
    next
      case ne: False
      then obtain k w1 where k: "rd w (int (n - length pre)) = Some (int k, take k bs, w1)" "0 < k" "k \<le> n - length pre"
        "k \<le> length bs" "has w1 (drop k bs) e"
        using more [OF less.prems(1) _ todo] by auto
      define pre1 out1 where "pre1 = pre @ take k bs" and "out1 = mem_write out (length pre) (take k bs)"
      have pre1: "length pre1 = length pre + k" "pre1 @ drop k bs = pre @ bs" using k by (simp_all add: pre1_def)
      have out1: "length out1 = n" "take (length pre1) out1 = pre1"
        using k less.prems take_mem_write_upto [of "length pre" out "take k bs"] by (simp_all add: out1_def pre1_def)
      have pos: "size_plus (length pre) (int k) = length pre1" using k pre1 lim by (simp add: size_plus_exact)
      have gap: "size_plus n (- int (length pre1)) = n - length pre1" by (rule size_plus_minus) (use k pre1 lim in auto)
      have short: "length (drop k bs) < length bs" using k by simp
      have step: "read_all_loop libc rd max_len w out n (length pre) =
         (if n < max_len \<and> n - length pre1 < 2048 then
            (case heap_realloc libc (Some out1) (min (n + 4096) max_len) of
               None \<Rightarrow> Some (None, w1)
             | Some buf \<Rightarrow> read_all_loop libc rd max_len w1 buf (min (n + 4096) max_len) (length pre1))
          else read_all_loop libc rd max_len w1 out1 n (length pre1))"
      proof -
        have add: "size_add n 4096 = n + 4096" using less.prems assms(4) by (simp add: size_arith HEAP_LIMIT_def SIZE_MOD_def)
        have ifs: "(if n + 4096 < 4096 \<or> n + 4096 > max_len then max_len else n + 4096) = min (n + 4096) max_len" by auto
        show ?thesis
          using False k pos gap
          by (subst read_all_loop.simps) (simp add: m kChunkSize_def Let_def add ifs del: of_nat_add flip: out1_def cong: if_cong option.case_cong)
      qed
      show ?thesis
      proof (cases "n < max_len \<and> n - length pre1 < 2048")
        case False
        then show ?thesis
          using less.hyps [OF short k(5) out1(1) _ less.prems(4) _ out1(2)] step k pre1 less.prems by auto
      next
        case grow: True
        let ?n = "min (n + 4096) max_len"
        show ?thesis
        proof (cases "heap_realloc libc (Some out1) ?n")
          case None
          then show ?thesis using step grow by simp
        next
          case (Some buf)
          have b: "length buf = ?n" "take n buf = out1"
            using heap.grow [OF assms(3) _ _ Some] out1(1) assms(4) grow by (auto simp: heap.elems_def)
          have "take (length pre1) buf = pre1" using b out1 k pre1 by (metis min_absorb1 take_take le_add_diff_inverse less.prems(3) nat_add_left_cancel_le)
          moreover have "length pre1 \<le> ?n" "?n \<le> max_len" "?n - length pre1 \<le> 6144"
            using k pre1 less.prems grow by (auto simp: min_def)
          ultimately show ?thesis
            using less.hyps [OF short k(5) b(1), of pre1] step grow Some pre1(2) by simp
        qed
      qed
    qed
  qed
qed

lemma read_all:
  assumes "has w bs e" and "e = 0 \<or> e = - 1" and "libc_wf libc" and "max_len \<le> HEAP_LIMIT" and "length pre \<le> 2"
  obtains res w' where "bio_read_all libc rd w pre max_len = Some (res, w')"
    "\<And>buf len. res = Some (buf, len) \<Longrightarrow> e = 0 \<and> take len buf = pre @ bs \<and> len = length (pre @ bs) \<and> len < max_len"
proof -
  let ?n = "min (length pre + 4096) max_len"
  have n: "(if size_add (length pre) kChunkSize > max_len then max_len else size_add (length pre) kChunkSize) = ?n"
    using assms(5) by (auto simp: kChunkSize_def size_add_def SIZE_MOD_def min_def)
  have unf: "bio_read_all libc rd w pre max_len =
     (if ?n < length pre then Some (None, w)
      else case heap_malloc libc ?n of
             None \<Rightarrow> Some (None, w)
           | Some out \<Rightarrow> read_all_loop libc rd max_len w (mem_write out 0 pre) ?n (length pre))"
    by (simp only: bio_read_all_def Let_def n)
  show thesis
  proof (cases "?n < length pre \<or> heap_malloc libc ?n = None")
    case True
    then show thesis using that [of None w] by (cases "?n < length pre") (auto simp: unf min_less_iff_disj)
  next
    case False
    then obtain out where out: "heap_malloc libc ?n = Some out" "length pre \<le> ?n" by auto
    have l: "length out = ?n" using heap_malloc_length [OF assms(3) _ out(1)] assms(4) by auto
    have "bio_read_all libc rd w pre max_len = read_all_loop libc rd max_len w (mem_write out 0 pre) ?n (length pre)"
      using out by (auto simp: unf not_less)
    moreover have "take (length pre) (mem_write out 0 pre) = pre" by (simp add: mem_write_def)
    moreover have "?n - length pre \<le> 6144" by auto
    moreover have "length (mem_write out 0 pre) = ?n" using l out(2) by simp
    ultimately show thesis
      using read_all_loop [OF assms(1-4), of "mem_write out 0 pre" ?n pre] out(2) that by auto
  qed
qed

text \<open>The contents: the header is \<open>hd\<close>, the contents are \<open>n\<close> bytes long.\<close>

lemma read_body:
  assumes h: "has w r e" and libc: "libc_wf libc" and n: "n < 2 ^ 32" "length hdr \<le> 6"
  obtains w' where "read_asn1_body libc rd w max_len hdr n = Some
      (if n + length hdr > max_len \<or> n > INT_MAX then Inl TOO_LONG
       else if heap_malloc libc (n + length hdr) = None then Inl MALLOC_FAILURE
       else if n \<le> length r then Inr (hdr @ take n r, n + length hdr) else Inl NOT_ENOUGH_DATA, w')"
    and "n + length hdr \<le> max_len \<Longrightarrow> n \<le> INT_MAX \<Longrightarrow> heap_malloc libc (n + length hdr) \<noteq> None \<Longrightarrow> has w' (drop n r) e"
proof -
  have add: "size_add n (length hdr) = n + length hdr" using n by (simp add: size_arith SIZE_MOD_def)
  have lim: "n < SIZE_MOD" using n by (simp add: SIZE_MOD_def)
  show thesis
  proof (cases "n + length hdr > max_len \<or> n > INT_MAX \<or> heap_malloc libc (n + length hdr) = None")
    case True
    then show thesis using that [of w] by (auto simp: read_asn1_body_def Let_def add)
  next
    case False
    then obtain out where out: "heap_malloc libc (n + length hdr) = Some out" by auto
    have "length out = n + length hdr"
      using heap_malloc_length [OF libc _ out] n by (simp add: HEAP_LIMIT_def)
    then have buf: "n \<le> length r \<Longrightarrow> mem_write (mem_write out 0 hdr) (length hdr) (take n r) = hdr @ take n r"
      by (simp add: mem_write_def)
    obtain w' where w': "bio_read_full rd w n =
        Some (if n \<le> length r then (True, take n r, False, w') else (False, r, r = [] \<and> e = 0, w'))" "has w' (drop n r) e"
      by (rule read_full [OF h lim])
    show thesis
      by (rule that [of w']) (use False out w' buf in \<open>auto simp: read_asn1_body_def Let_def add\<close>)
  qed
qed

text \<open>Reading the header leads to the contents, or to a failure.\<close>

lemma read_header_complete:
  assumes h: "has w bs e" and hdr: "header bs hdr n r"
  shows "\<exists>w1. BIO_read_asn1 libc rd w max_len = read_asn1_body libc rd w1 max_len hdr n \<and> has w1 r e"
proof -
  obtain t where t: "bs = t # der_len n @ r" "hdr = t # der_len n" "t AND 0x1f \<noteq> 0x1f" "n < 2 ^ 32"
    using hdr by (auto simp: header_def)
  have lim: "kInitialHeaderLen < SIZE_MOD" by (simp add: kInitialHeaderLen_def SIZE_MOD_def)
  obtain w1 where w1: "bio_read_full rd w 2 =
      Some (if 2 \<le> length bs then (True, take 2 bs, False, w1) else (False, bs, bs = [] \<and> e = 0, w1))" "has w1 (drop 2 bs) e"
    by (rule read_full [OF h lim, unfolded kInitialHeaderLen_def])
  show ?thesis
  proof (cases "n < 128")
    case True
    then have bs: "bs = t # word_of_nat n # r" "hdr = [t, word_of_nat n]" using t by (simp_all add: der_len_def)
    have "BIO_read_asn1 libc rd w max_len = read_asn1_body libc rd w1 max_len hdr n"
      using w1 bs t short_length_byte [OF True]
      by (simp add: BIO_read_asn1_def kInitialHeaderLen_def Let_def numeral_2_eq_2)
    then show ?thesis using w1 bs by (simp add: numeral_2_eq_2) blast
  next
    case False
    define k where "k = len_octets n"
    have k: "k \<le> 4" "0 < k" using t(4) False len_octets_bound [of n 4] by (auto simp: k_def len_octets_pos)
    have bs: "bs = t # word_of_nat (128 + k) # be_bytes k n @ r" "hdr = [t, word_of_nat (128 + k)] @ be_bytes k n"
      using t False by (simp_all add: der_len_def k_def del: of_nat_add)
    have klim: "k < SIZE_MOD" using k by (simp add: SIZE_MOD_def)
    have d2: "drop 2 bs = be_bytes k n @ r" using bs by (simp add: numeral_2_eq_2)
    obtain w2 where w2: "bio_read_full rd w1 k = Some (True, be_bytes k n, False, w2)" "has w2 r e"
      using read_full [OF w1(2) [unfolded d2] klim] by (auto split: if_splits)
    have val: "be_val (be_bytes k n) = n" using less_len_octets [of n] by (simp add: be_val_be_bytes k_def)
    have u: "unat (foldl (\<lambda>l b. push_bit 8 l OR ucast b) (0 :: u32) (be_bytes k n)) = n"
      using fold_be_val [of "be_bytes k n"] k val by simp
    have w128: "\<not> foldl (\<lambda>l b. push_bit 8 l OR ucast b) (0 :: u32) (be_bytes k n) < 128"
      using u False by (simp add: word_less_nat_alt)
    have "256 ^ (k - 1) \<le> n" unfolding k_def using False by (intro len_octets_least) simp
    moreover have "(2::nat) ^ ((k - 1) * 8) = 256 ^ (k - 1)"
      unfolding mult.commute [of "k - 1"] power_mult by simp
    ultimately have "\<not> n < 2 ^ ((k - 1) * 8)" by simp
    then have mini: "drop_bit ((k - 1) * 8) (foldl (\<lambda>l b. push_bit 8 l OR ucast b) (0 :: u32) (be_bytes k n)) \<noteq> 0"
      by (simp only: drop_bit_eq_0_iff u) simp
    have "BIO_read_asn1 libc rd w max_len = read_asn1_body libc rd w2 max_len hdr n"
      using w1(1) w2(1) t(3) w128 long_length_byte [OF k(1)] u mini k bs
      by (simp add: BIO_read_asn1_def kInitialHeaderLen_def Let_def numeral_2_eq_2 del: of_nat_add)
    then show ?thesis using w2 by blast
  qed
qed

lemma read_header_sound:
  assumes h: "has w bs e" and ok: "BIO_read_asn1 libc rd w max_len = Some (Inr res, w')"
  shows "indefinite bs \<or> (\<exists>hdr n r. header bs hdr n r)"
proof -
  have lim: "kInitialHeaderLen < SIZE_MOD" by (simp add: kInitialHeaderLen_def SIZE_MOD_def)
  obtain w1 where w1: "bio_read_full rd w 2 =
      Some (if 2 \<le> length bs then (True, take 2 bs, False, w1) else (False, bs, bs = [] \<and> e = 0, w1))" "has w1 (drop 2 bs) e"
    by (rule read_full [OF h lim, unfolded kInitialHeaderLen_def])
  have "2 \<le> length bs" using ok w1(1) by (auto simp: BIO_read_asn1_def kInitialHeaderLen_def split: if_splits)
  then obtain t b r where bs: "bs = t # b # r" by (metis Suc_le_length_iff numeral_2_eq_2)
  have "take 2 bs = [t, b]" "drop 2 bs = r" using bs by (simp_all add: numeral_2_eq_2)
  then have w1': "bio_read_full rd w 2 = Some (True, [t, b], False, w1)" "has w1 r e" using w1 bs by simp_all
  have t: "t AND 0x1f \<noteq> 0x1f" using ok w1'(1) by (auto simp: BIO_read_asn1_def kInitialHeaderLen_def Let_def)
  show ?thesis
  proof (cases "b AND 0x80 = 0")
    case True
    then have "unat b < 128" using u8_high_bit [of b] by auto
    then have "header bs [t, b] (unat b) r" using t by (auto simp: header_def bs der_len_def)
    then show ?thesis by blast
  next
    case False
    define k where "k = unat (b AND 0x7f)"
    have b: "unat b = 128 + k"
      using False u8_high_bit [of b] u8_mod_128 [of b] by (simp add: k_def u8_and_7f)
    show ?thesis
    proof (cases "t AND 0x20 \<noteq> 0 \<and> k = 0")
      case True
      have "b = 0x80" using b True by (simp add: word_unat_eq_iff)
      then show ?thesis using t True bs by (auto simp: indefinite_def)
    next
      case def_: False
      have k: "0 < k" "k \<le> 4"
        using ok w1'(1) t False def_
        by (auto simp: BIO_read_asn1_def kInitialHeaderLen_def Let_def split: if_splits simp flip: k_def)
      then have klim: "k < SIZE_MOD" by (simp add: SIZE_MOD_def)
      obtain w2 where w2: "bio_read_full rd w1 k =
          Some (if k \<le> length r then (True, take k r, False, w2) else (False, r, r = [] \<and> e = 0, w2))" "has w2 (drop k r) e"
        by (rule read_full [OF w1'(2) klim])
      let ?f = "foldl (\<lambda>l b. push_bit 8 l OR ucast b) (0 :: u32) (take k r)"
      have checks: "k \<le> length r \<and> \<not> ?f < 128 \<and> drop_bit ((k - 1) * 8) ?f \<noteq> 0"
        using ok w1'(1) w2(1) t False def_ k
        by (auto simp: BIO_read_asn1_def kInitialHeaderLen_def Let_def split: if_splits simp flip: k_def)
      have u: "unat ?f = be_val (take k r)" using fold_be_val [of "take k r"] k by simp
      have "(2::nat) ^ ((k - 1) * 8) = 256 ^ (k - 1)"
        unfolding mult.commute [of "k - 1"] power_mult by simp
      then have "256 ^ (k - 1) \<le> be_val (take k r)"
        using checks u by (simp only: drop_bit_eq_0_iff not_less)
      moreover have "128 \<le> be_val (take k r)" using checks u by (simp add: word_less_nat_alt)
      ultimately have d: "b # take k r = der_len (be_val (take k r))"
        using long_length_iff [of "take k r" k b] k b checks by simp
      have "be_val (take k r) < 256 ^ k" using be_val_less [of "take k r"] checks by simp
      also have "(256::nat) ^ k \<le> 256 ^ 4" using k by (intro power_increasing) simp_all
      finally have "header bs (t # b # take k r) (be_val (take k r)) (drop k r)"
        using t by (auto simp: header_def bs simp flip: d)
      then show ?thesis by blast
    qed
  qed
qed

lemma read_asn1_complete:
  assumes h: "has w (der tag body @ rest) e" and libc: "libc_wf libc" and tag: "unat (tag_num tag) < 31"
    and fits: "length (der tag body) \<le> max_len" "length body \<le> INT_MAX" and mem: "heap_malloc libc (length (der tag body)) \<noteq> None"
  shows "\<exists>w'. BIO_read_asn1 libc rd w max_len = Some (Inr (der tag body, length (der tag body)), w') \<and> has w' rest e"
proof -
  obtain t where t: "der_tag tag = [t]" using tag by (simp add: der_tag_def)
  then have t31: "t AND 0x1f \<noteq> 0x1f" using low_tag_iff [of t] tag by blast
  let ?hdr = "t # der_len (length body)"
  have d: "der tag body = ?hdr @ body" by (simp add: der_def t)
  have n: "length body < 2 ^ 32" using fits by (simp add: INT_MAX_def)
  then have hdr: "header (der tag body @ rest) ?hdr (length body) (body @ rest)"
    using t31 by (auto simp: header_def d)
  obtain w1 where w1: "BIO_read_asn1 libc rd w max_len = read_asn1_body libc rd w1 max_len ?hdr (length body)" "has w1 (body @ rest) e"
    using read_header_complete [OF h hdr] by blast
  have l: "length body + length ?hdr = length (der tag body)" by (simp add: d)
  show ?thesis
  proof (rule read_body [OF w1(2) libc n header_length [OF hdr], of max_len])
    fix w'
    assume a: "read_asn1_body libc rd w1 max_len ?hdr (length body) = Some
      (if length body + length ?hdr > max_len \<or> length body > INT_MAX then Inl TOO_LONG
       else if heap_malloc libc (length body + length ?hdr) = None then Inl MALLOC_FAILURE
       else if length body \<le> length (body @ rest) then Inr (?hdr @ take (length body) (body @ rest), length body + length ?hdr)
       else Inl NOT_ENOUGH_DATA, w')"
    assume b: "length body + length ?hdr \<le> max_len \<Longrightarrow> length body \<le> INT_MAX \<Longrightarrow>
      heap_malloc libc (length body + length ?hdr) \<noteq> None \<Longrightarrow> has w' (drop (length body) (body @ rest)) e"
    show ?thesis
      using a [unfolded l] b [unfolded l] w1(1) fits mem d by (intro exI [of _ w']) simp
  qed
qed

lemma read_asn1_sound:
  assumes h: "has w bs e" and libc: "libc_wf libc" and def_: "\<not> indefinite bs"
    and ok: "BIO_read_asn1 libc rd w max_len = Some (Inr (out, m), w')"
  shows "\<exists>tag body rest. bs = der tag body @ rest \<and> unat (tag_num tag) < 31 \<and> length body \<le> INT_MAX \<and> m \<le> max_len \<and>
    out = der tag body \<and> m = length out \<and> has w' rest e"
proof -
  obtain hdr n r where hdr: "header bs hdr n r" using read_header_sound [OF h ok] def_ by blast
  then obtain t where t: "bs = hdr @ r" "hdr = t # der_len n" "t AND 0x1f \<noteq> 0x1f" "n < 2 ^ 32" by (auto simp: header_def)
  obtain tag where tag: "der_tag tag = [t]" "unat (tag_num tag) < 31" using low_tag_iff [of t] t(3) by blast
  obtain w1 where w1: "BIO_read_asn1 libc rd w max_len = read_asn1_body libc rd w1 max_len hdr n" "has w1 r e"
    using read_header_complete [OF h hdr] by blast
  show ?thesis
  proof (rule read_body [OF w1(2) libc t(4) header_length [OF hdr], of max_len])
    fix w2
    assume a: "read_asn1_body libc rd w1 max_len hdr n = Some
      (if n + length hdr > max_len \<or> n > INT_MAX then Inl TOO_LONG
       else if heap_malloc libc (n + length hdr) = None then Inl MALLOC_FAILURE
       else if n \<le> length r then Inr (hdr @ take n r, n + length hdr) else Inl NOT_ENOUGH_DATA, w2)"
    assume b: "n + length hdr \<le> max_len \<Longrightarrow> n \<le> INT_MAX \<Longrightarrow> heap_malloc libc (n + length hdr) \<noteq> None \<Longrightarrow>
      has w2 (drop n r) e"
    have r: "n + length hdr \<le> max_len" "n \<le> INT_MAX" "heap_malloc libc (n + length hdr) \<noteq> None" "n \<le> length r"
      "out = hdr @ take n r" "m = n + length hdr" "w' = w2"
      using a ok w1(1) by (auto split: if_splits)
    have d: "der tag (take n r) = hdr @ take n r" using r(4) tag(1) t(2) by (simp add: der_def min_absorb2)
    have l: "length (take n r) = n" using r(4) by simp
    show ?thesis
      by (rule exI [of _ tag], rule exI [of _ "take n r"], rule exI [of _ "drop n r"])
        (use r d l tag(2) t(1) b in \<open>simp del: length_take\<close>)
  qed
qed

end

text \<open>One side of a BIO pair is such a stream: it delivers what was written to the other side.\<close>

interpretation pair_end: byte_source "\<lambda>h n. BIO_read (bio_s_bio libc) h (Some a) n"
  "\<lambda>h bs e. pair_inv h a c \<and> unread h c = bs \<and> e = (if shut h c then 0 else - 1)" for libc a c
proof
  fix h :: pair_heap and bs :: bytes and e n :: int
  assume *: "pair_inv h a c \<and> unread h c = bs \<and> e = (if shut h c then 0 else - 1)" and n: "0 < n" "n \<le> int INT_MAX"
  obtain h' where r: "BIO_read (bio_s_bio libc) h (Some a) n =
      Some (if unread h c \<noteq> [] then int (min (nat n) (length (unread h c))) else if shut h c then 0 else - 1,
            take (nat n) (unread h c), h')" "pair_inv h' a c" "unread h' c = drop (nat n) (unread h c)" "shut h' = shut h"
    using pair_read [OF conjunct1 [OF *] n, of libc] by blast
  {
    assume "bs \<noteq> []"
    moreover have "take (nat n) bs = take (min (nat n) (length bs)) bs" "drop (nat n) bs = drop (min (nat n) (length bs)) bs"
      by (auto simp: min_def)
    ultimately show "\<exists>k w'. BIO_read (bio_s_bio libc) h (Some a) n = Some (int k, take k bs, w') \<and> 0 < k \<and> k \<le> nat n \<and>
        k \<le> length bs \<and> (pair_inv w' a c \<and> unread w' c = drop k bs \<and> e = (if shut w' c then 0 else - 1))"
      using r * n by (intro exI [of _ "min (nat n) (length bs)"] exI [of _ h']) auto
  }
next
  fix h :: pair_heap and e n :: int
  assume *: "pair_inv h a c \<and> unread h c = [] \<and> e = (if shut h c then 0 else - 1)" and n: "0 < n" "n \<le> int INT_MAX"
  obtain h' where "BIO_read (bio_s_bio libc) h (Some a) n = Some (e, [], h')" "pair_inv h' a c" "unread h' c = []" "shut h' = shut h"
    using pair_read [OF conjunct1 [OF *] n, of libc] * by auto
  then show "\<exists>w'. BIO_read (bio_s_bio libc) h (Some a) n = Some (e, [], w') \<and>
      (pair_inv w' a c \<and> unread w' c = [] \<and> e = (if shut w' c then 0 else - 1))"
    using * by (intro exI [of _ h']) auto
qed auto

section \<open>Errors while a stream is read to its end\<close>

lemma read_all_step:
  assumes "rd w (int (n - pos)) = Some (r, bs, w')" and "r \<noteq> 0" "r \<noteq> - 1" and n: "pos < n" "n \<le> INT_MAX"
    and p: "size_plus pos r = p" "p < n" and fixed: "n = max_len \<or> kChunkSize div 2 \<le> n - p"
  shows "read_all_loop libc rd max_len w out n pos = read_all_loop libc rd max_len w' (mem_write out pos bs) n p"
proof -
  have t: "int_of_size (size_plus n (- int pos)) = int (n - pos)" "size_plus n (- int p) = n - p"
    using n p(2) by (simp_all add: int_of_size_small size_plus_minus SIZE_MOD_def INT_MAX_def)
  have g: "\<not> (n < max_len \<and> n - p < kChunkSize div 2)" using fixed by auto
  show ?thesis
    using assms(1-3) n(1) by (subst read_all_loop.simps) (simp add: t g p(1) Let_def del: of_nat_diff)
qed

lemma read_all_stop:
  assumes "rd w (int (n - pos)) = Some (0, bs, w')" and n: "pos < n" "n \<le> INT_MAX"
  shows "read_all_loop libc rd max_len w out n pos = Some (Some (mem_write out pos bs, pos), w')"
proof -
  have t: "int_of_size (size_plus n (- int pos)) = int (n - pos)"
    using n by (simp add: int_of_size_small size_plus_minus SIZE_MOD_def INT_MAX_def)
  show ?thesis
    using assms(1) n(1) by (subst read_all_loop.simps) (simp add: t)
qed

text \<open>
  A stream that delivers the header of an element of indefinite length and some bytes, then an error
  other than \<open>- 1\<close>, then the end: the error is not seen and takes bytes away.
\<close>

lemma read_error_lost:
  assumes hdr: "rd w0 2 = Some (2, [t, 0x80], w1)" "t AND 0x1f \<noteq> 0x1f" "t AND 0x20 \<noteq> 0"
    and n: "n = (if 2 + kChunkSize > max_len then max_len else 2 + kChunkSize)"
    and room: "2 + length bs < n" "0 < length bs" "length bs \<le> kChunkSize div 2"
    and data: "rd w1 (int (n - 2)) = Some (int (length bs), bs, w2)"
    and err: "rd w2 (int (n - (2 + length bs))) = Some (r, [], w3)" "r < - 1"
    and left: "int p = 2 + int (length bs) + r"
    and eof: "rd w3 (int (n - p)) = Some (0, [], w4)"
    and mem: "libc_wf libc" "heap_malloc libc n = Some m"
  shows "\<exists>out. BIO_read_asn1 libc rd w0 max_len = Some (Inr (out, p), w4) \<and> take p out = take p (t # 0x80 # bs)"
proof -
  have k: "kChunkSize = 4096" by (simp add: kChunkSize_def)
  let ?k = "length bs"
  have small: "n \<le> 4098" "?k \<le> 2048" using n room k by (auto split: if_splits)
  have lim: "n \<le> INT_MAX" using small by (simp add: INT_MAX_def)
  have m: "length m = n" using heap_malloc_length [OF mem(1) _ mem(2)] small by (simp add: HEAP_LIMIT_def)
  have p: "p < 2 + ?k" using err left by linarith
  have fixed: "n = max_len \<or> kChunkSize div 2 \<le> n - j" if "j \<le> 2 + ?k" for j
    using that n small k by (auto split: if_splits)
  let ?o1 = "mem_write m 0 [t, 0x80]"
  let ?o2 = "mem_write ?o1 2 bs"
  have o2: "length ?o2 = n" "take (2 + ?k) ?o2 = t # 0x80 # bs"
    using m room by (simp_all add: mem_write_def min_def)
  have nil: "mem_write ?o2 j [] = ?o2" for j by (simp add: mem_write_def)
  have s1: "size_plus 2 (int ?k) = 2 + ?k" using small by (simp add: size_plus_exact SIZE_MOD_def)
  have s2: "size_plus (2 + ?k) r = p"
  proof -
    have "int (2 + ?k) + r = int p" using left by simp
    then show ?thesis using p small by (simp add: size_plus_def size_of_int_def SIZE_MOD_def)
  qed
  have "read_all_loop libc rd max_len w1 ?o1 n 2 = read_all_loop libc rd max_len w2 ?o2 n (2 + ?k)"
    using read_all_step [where rd = rd, OF data, of "2 + ?k"] lim s1 room fixed [of "2 + ?k"] by simp
  also have "\<dots> = read_all_loop libc rd max_len w3 (mem_write ?o2 (2 + ?k) []) n p"
    using read_all_step [where rd = rd, OF err(1), of p] lim s2 err(2) p room(1) fixed [of p] by simp
  also have "\<dots> = Some (Some (?o2, p), w4)"
    unfolding nil using read_all_stop [where rd = rd, OF eof, of libc max_len ?o2] lim p room(1) nil by simp
  finally have loop: "read_all_loop libc rd max_len w1 ?o1 n 2 = Some (Some (?o2, p), w4)" .
  have all: "bio_read_all libc rd w1 [t, 0x80] max_len = Some (Some (?o2, p), w4)"
  proof -
    have l: "length [t, 0x80] = 2" and a: "size_add 2 kChunkSize = 2 + kChunkSize" and lt: "\<not> n < 2"
      using k room by (simp_all add: size_add_def SIZE_MOD_def)
    show ?thesis using mem(2) loop lt unfolding bio_read_all_def l a Let_def n [symmetric] by simp
  qed
  have full: "bio_read_full rd w0 kInitialHeaderLen = Some (True, [t, 0x80], False, w1)"
    using hdr(1) by (simp add: bio_read_full_def kInitialHeaderLen_def read_full_loop.simps INT_MAX_def size_plus_def size_of_int_def)
  have b: "(0x80 :: u8) AND 0x80 \<noteq> 0" "(0x80 :: u8) AND 0x7f = 0" by simp_all
  have "BIO_read_asn1 libc rd w0 max_len = Some (Inr (?o2, p), w4)"
    using full all hdr(2,3) b by (simp add: BIO_read_asn1_def Let_def)
  moreover have "take p ?o2 = take p (t # 0x80 # bs)"
    using arg_cong [OF o2(2), of "take p"] p by (simp add: min_def)
  ultimately show ?thesis by blast
qed

end
