(* ===== verification/BioMem.thy ===== *)
theory BioMem
  imports Bio BufMem
begin

text \<open>
  \<open>crypto/bio/bio_mem.c\<close>: the memory BIO, an I/O object over a \<open>BUF_MEM\<close>. One that is made by
  \<open>BIO_new_mem_buf\<close> is read-only: reading moves its \<open>data\<close> pointer through memory that it does not own,
  so the state keeps the bytes that lie between the start and the pointer (\<open>mem_before\<close>), which a reset
  goes back to. The field \<open>num\<close> of \<open>struct bio_st\<close>, which no other method here uses, is kept in the state
  too. The commands that exchange raw pointers are functions of their own. The lemmas are in
  \<open>BioMem_Spec\<close>.
\<close>

section \<open>The state\<close>

record mem_bio =
  mem_buf :: buf_mem
  mem_before :: bytes
  mem_num :: int

datatype mem_method = mem_method

type_synonym mem_heap = "(mem_method, mem_bio) bio_heap"

definition BIO_FLAGS_MEM_RDONLY :: u32 where "BIO_FLAGS_MEM_RDONLY = 0x200"

definition BIO_TYPE_MEM :: u32 where "BIO_TYPE_MEM = 1 OR 0x0400"

definition BIO_C_SET_BUF_MEM_EOF_RETURN :: int where "BIO_C_SET_BUF_MEM_EOF_RETURN = 130"

definition BIO_CTRL_INFO :: int where "BIO_CTRL_INFO = 3"

text \<open>Conversions to \<open>long\<close> and from \<open>long\<close> to \<open>int\<close>.\<close>

definition long_of_size :: "nat \<Rightarrow> int" where
  "long_of_size n = sint (word_of_nat n :: 64 word)"

definition int_of_long :: "int \<Rightarrow> int" where
  "int_of_long n = sint (word_of_int n :: 32 word)"

definition mem_new :: "libc_malloc \<Rightarrow> mem_heap \<Rightarrow> nat \<Rightarrow> (bool \<times> mem_heap) option" where
  "mem_new libc h bio =
     (case BUF_MEM_new libc of
        None \<Rightarrow> Some (False, h)
      | Some b \<Rightarrow>
          do {
            ob \<leftarrow> h bio;
            Some (True, h(bio \<mapsto> ob\<lparr>shutdown := 1, init := True,
                                   ptr := Some \<lparr>mem_buf = b, mem_before = [], mem_num = - 1\<rparr>\<rparr>))
          })"

definition mem_free :: "mem_heap \<Rightarrow> nat \<Rightarrow> mem_heap option" where
  "mem_free h bio =
     do {
       ob \<leftarrow> h bio;
       if shutdown ob = 0 \<or> \<not> init ob \<or> ptr ob = None then Some h else Some (h(bio \<mapsto> ob\<lparr>ptr := None\<rparr>))
     }"

section \<open>Reading and writing\<close>

definition mem_read :: "mem_heap \<Rightarrow> nat \<Rightarrow> bool \<Rightarrow> int \<Rightarrow> (int \<times> bytes \<times> mem_heap) option" where
  "mem_read h bio out_is_NULL outl =
     do {
       ob \<leftarrow> h bio;
       m \<leftarrow> ptr ob;
       let ob = BIO_clear_retry_flags ob;
       let b = mem_buf m;
       let d = (case buf_data b of None \<Rightarrow> [] | Some d \<Rightarrow> d);
       let ret = (if buf_length b < INT_MAX \<and> outl > int_of_size (buf_length b) then int_of_size (buf_length b) else outl);
       if ret > 0 then
         if out_is_NULL then None
         else do {
           let n = nat ret;
           let b = b\<lparr>buf_length := buf_length b - n\<rparr>;
           let m = (if flags ob AND BIO_FLAGS_MEM_RDONLY \<noteq> 0
                    then m\<lparr>mem_buf := b\<lparr>buf_data := Some (drop n d)\<rparr>, mem_before := mem_before m @ take n d\<rparr>
                    else m\<lparr>mem_buf := b\<lparr>buf_data := Some (mem_move d 0 n (buf_length b))\<rparr>\<rparr>);
           Some (ret, take n d, h(bio \<mapsto> ob\<lparr>ptr := Some m\<rparr>))
         }
       else if buf_length b = 0 then
         Some (mem_num m, [], h(bio \<mapsto> (if mem_num m \<noteq> 0 then BIO_set_retry_read ob else ob)))
       else Some (ret, [], h(bio \<mapsto> ob))
     }"

definition mem_write_bio :: "libc_malloc \<Rightarrow> mem_heap \<Rightarrow> nat \<Rightarrow> bytes option \<Rightarrow> int \<Rightarrow> (int \<times> mem_heap) option" where
  "mem_write_bio libc h bio src inl =
     do {
       ob \<leftarrow> h bio;
       m \<leftarrow> ptr ob;
       if flags ob AND BIO_FLAGS_MEM_RDONLY \<noteq> 0 then Some (- 1, h)
       else
         do {
           let ob = BIO_clear_retry_flags ob;
           let h = h(bio \<mapsto> ob);
           let blen = int_of_size (buf_length (mem_buf m));
           if blen < 0 then None
           else if int INT_MAX - blen < inl then Some (- 1, h)
           else
             (case BUF_MEM_grow_clean libc (mem_buf m) (size_of_int (blen + inl)) of
                (r, b) \<Rightarrow>
                  (if r \<noteq> size_plus (size_of_int blen) inl then Some (- 1, h(bio \<mapsto> ob\<lparr>ptr := Some (m\<lparr>mem_buf := b\<rparr>)\<rparr>))
                   else
                     do {
                       bs \<leftarrow> src;
                       Some (inl, h(bio \<mapsto> ob\<lparr>ptr := Some (m\<lparr>mem_buf :=
                         b\<lparr>buf_data := map_option (\<lambda>d. mem_write d (nat blen) (take (nat inl) bs)) (buf_data b)\<rparr>\<rparr>)\<rparr>))
                     }))
         }
     }"

text \<open>The number of bytes up to and including the first newline, at most \<open>j\<close>.\<close>

fun line_length :: "bytes \<Rightarrow> nat \<Rightarrow> nat \<Rightarrow> nat" where
  "line_length p i 0 = i"
| "line_length p i (Suc k) = (if p ! i = 0x0a then Suc i else line_length p (Suc i) k)"

definition mem_gets :: "mem_heap \<Rightarrow> nat \<Rightarrow> bool \<Rightarrow> int \<Rightarrow> (int \<times> bytes \<times> mem_heap) option" where
  "mem_gets h bio buf_is_NULL sz =
     do {
       ob \<leftarrow> h bio;
       m \<leftarrow> ptr ob;
       let ob = BIO_clear_retry_flags ob;
       let h = h(bio \<mapsto> ob);
       let b = mem_buf m;
       let j = int_of_size (buf_length b);
       let j = (if sz - 1 < j then sz - 1 else j);
       if j \<le> 0 then (if sz > 0 \<and> buf_is_NULL then None else Some (0, if sz > 0 then [0] else [], h))
       else
         do {
           (i, out, h) \<leftarrow> mem_read h bio buf_is_NULL
              (int (line_length (case buf_data b of None \<Rightarrow> [] | Some d \<Rightarrow> d) 0 (nat j)));
           Some (i, if i > 0 then out @ [0] else out, h)
         }
     }"

section \<open>Control\<close>

definition mem_reset :: "mem_heap \<Rightarrow> nat \<Rightarrow> mem_heap option" where
  "mem_reset h bio =
     do {
       ob \<leftarrow> h bio;
       m \<leftarrow> ptr ob;
       let b = mem_buf m;
       case buf_data b of
         None \<Rightarrow> Some h
       | Some d \<Rightarrow>
           (if flags ob AND BIO_FLAGS_MEM_RDONLY \<noteq> 0 then
              (let back = buf_max b - buf_length b; pre = length (mem_before m)
               in if buf_max b < buf_length b \<or> back > pre then None
                  else
                    Some (h(bio \<mapsto> ob\<lparr>ptr := Some (m\<lparr>mem_buf :=
                            b\<lparr>buf_data := Some (drop (pre - back) (mem_before m) @ d), buf_length := buf_max b\<rparr>,
                          mem_before := take (pre - back) (mem_before m)\<rparr>)\<rparr>)))
            else
              Some (h(bio \<mapsto> ob\<lparr>ptr := Some (m\<lparr>mem_buf :=
                     b\<lparr>buf_data := Some (mem_write d 0 (replicate (buf_max b) 0)), buf_length := 0\<rparr>\<rparr>)\<rparr>)))
     }"

definition mem_ctrl :: "mem_heap \<Rightarrow> nat \<Rightarrow> int \<Rightarrow> int \<Rightarrow> nat option \<Rightarrow> (int \<times> mem_heap) option" where
  "mem_ctrl h bio cmd num parg =
     do {
       ob \<leftarrow> h bio;
       m \<leftarrow> ptr ob;
       let b = mem_buf m;
       if cmd = BIO_CTRL_RESET then do { h \<leftarrow> mem_reset h bio; Some (1, h) }
       else if cmd = BIO_CTRL_EOF then Some (of_bool (buf_length b = 0), h)
       else if cmd = BIO_C_SET_BUF_MEM_EOF_RETURN then
         Some (1, h(bio \<mapsto> ob\<lparr>ptr := Some (m\<lparr>mem_num := int_of_long num\<rparr>)\<rparr>))
       else if cmd = BIO_CTRL_INFO then Some (long_of_size (buf_length b), h)
       else if cmd = BIO_CTRL_GET_CLOSE then Some (shutdown ob, h)
       else if cmd = BIO_CTRL_SET_CLOSE then Some (1, h(bio \<mapsto> ob\<lparr>shutdown := int_of_long num\<rparr>))
       else if cmd = BIO_CTRL_WPENDING then Some (0, h)
       else if cmd = BIO_CTRL_PENDING then Some (long_of_size (buf_length b), h)
       else if cmd = BIO_CTRL_FLUSH then Some (1, h)
       else Some (0, h)
     }"

definition BIO_s_mem :: "libc_malloc \<Rightarrow> (mem_method, mem_bio) bio_methods" where
  "BIO_s_mem libc =
     \<lparr>mtype = \<lambda>_. BIO_TYPE_MEM, bwrite = \<lambda>_. Some (mem_write_bio libc), bread = \<lambda>_. Some mem_read,
      bgets = \<lambda>_. Some mem_gets, ctrl = \<lambda>_. Some mem_ctrl, create = \<lambda>_. Some (mem_new libc),
      destroy = \<lambda>_. Some mem_free\<rparr>"

section \<open>Interface\<close>

text \<open>
  \<open>buf\<close> is the memory at the pointer. With a negative \<open>len\<close>, \<open>strlen\<close> runs before the test for \<open>NULL\<close>.
\<close>

definition BIO_new_mem_buf ::
    "libc_malloc \<Rightarrow> (mem_heap \<Rightarrow> nat option) \<Rightarrow> mem_heap \<Rightarrow> bytes option \<Rightarrow> int \<Rightarrow> (nat option \<times> mem_heap) option" where
  "BIO_new_mem_buf libc alloc h buf len =
     do {
       n \<leftarrow> (if len < 0 then map_option strlen buf else Some (nat len));
       if buf = None \<and> len \<noteq> 0 then Some (None, h)
       else
         do {
           (ret, h) \<leftarrow> BIO_new (BIO_s_mem libc) alloc h mem_method;
           case ret of
             None \<Rightarrow> Some (None, h)
           | Some a \<Rightarrow>
               do {
                 ob \<leftarrow> h a;
                 m \<leftarrow> ptr ob;
                 Some (Some a, h(a \<mapsto> ob\<lparr>ptr := Some (m\<lparr>mem_buf := \<lparr>buf_length = n, buf_data = buf, buf_max = n\<rparr>, mem_num := 0\<rparr>),
                                        flags := flags ob OR BIO_FLAGS_MEM_RDONLY\<rparr>))
               }
         }
     }"

definition BIO_mem_contents :: "mem_heap \<Rightarrow> nat \<Rightarrow> (bytes option \<times> nat) option" where
  "BIO_mem_contents h bio =
     do {
       ob \<leftarrow> h bio;
       m \<leftarrow> ptr ob;
       if bio_method ob \<noteq> Some mem_method then None else Some (buf_data (mem_buf m), buf_length (mem_buf m))
     }"

text \<open>\<open>BIO_get_mem_data\<close> with the bytes at the pointer it stores; \<open>BIO_get_mem_ptr\<close> gives the buffer itself.\<close>

definition BIO_get_mem_data :: "libc_malloc \<Rightarrow> mem_heap \<Rightarrow> nat \<Rightarrow> (int \<times> bytes option) option" where
  "BIO_get_mem_data libc h bio =
     do {
       (r, h) \<leftarrow> BIO_ctrl (BIO_s_mem libc) h (Some bio) BIO_CTRL_INFO 0 None;
       ob \<leftarrow> h bio;
       m \<leftarrow> ptr ob;
       Some (r, buf_data (mem_buf m))
     }"

definition BIO_get_mem_ptr :: "mem_heap \<Rightarrow> nat \<Rightarrow> (int \<times> buf_mem) option" where
  "BIO_get_mem_ptr h bio = do { ob \<leftarrow> h bio; m \<leftarrow> ptr ob; Some (1, mem_buf m) }"

definition BIO_set_mem_buf :: "mem_heap \<Rightarrow> nat \<Rightarrow> buf_mem \<Rightarrow> int \<Rightarrow> (int \<times> mem_heap) option" where
  "BIO_set_mem_buf h bio b take_ownership =
     do {
       ob \<leftarrow> h bio;
       m \<leftarrow> ptr ob;
       h \<leftarrow> mem_free h bio;
       ob \<leftarrow> h bio;
       Some (1, h(bio \<mapsto> ob\<lparr>shutdown := int_of_long take_ownership, ptr := Some \<lparr>mem_buf = b, mem_before = [], mem_num = mem_num m\<rparr>\<rparr>))
     }"

definition BIO_set_mem_eof_return :: "libc_malloc \<Rightarrow> mem_heap \<Rightarrow> nat option \<Rightarrow> int \<Rightarrow> (int \<times> mem_heap) option" where
  "BIO_set_mem_eof_return libc h bio eof_value =
     BIO_ctrl (BIO_s_mem libc) h bio BIO_C_SET_BUF_MEM_EOF_RETURN eof_value None"

end
