(* ===== verification/BioMem_Spec.thy ===== *)
theory BioMem_Spec
  imports BioMem Bio_Spec
begin

text \<open>
  The memory BIO as a stream: reading takes bytes from its front, writing appends at its end or changes
  nothing, a reset of a read-only BIO goes back to the start of its memory, and one of a writable BIO
  drops what is pending. Reading is an instance
  of \<open>byte_source\<close>, so \<open>BIO_read_asn1\<close> works on it.
\<close>

section \<open>The state\<close>

definition rdonly :: "(mem_method, mem_bio) bio \<Rightarrow> bool" where
  "rdonly ob \<longleftrightarrow> flags ob AND BIO_FLAGS_MEM_RDONLY \<noteq> 0"

text \<open>
  The invariant: a writable BIO owns a well-formed buffer; the buffer of a read-only one is what is
  left of a memory of \<open>max\<close> bytes, of which the bytes before the pointer are known.
\<close>

definition mem_ok :: "bool \<Rightarrow> mem_bio \<Rightarrow> bool" where
  "mem_ok ro m \<longleftrightarrow>
     (if ro
      then buf_length (mem_buf m) \<le> length (heap.elems (buf_data (mem_buf m))) \<and>
           buf_max (mem_buf m) = length (mem_before m) + buf_length (mem_buf m) \<and>
           (buf_data (mem_buf m) = None \<longrightarrow> mem_before m = [])
      else buf_wf (mem_buf m) \<and> buf_length (mem_buf m) \<le> INT_MAX \<and> mem_before m = [])"

lemma mem_ok_length: "mem_ok ro m \<Longrightarrow> buf_length (mem_buf m) \<le> length (heap.elems (buf_data (mem_buf m)))"
  by (auto simp: mem_ok_def buf_wf_def split: if_splits)

text \<open>
  \<open>mem_state h a ro pre bs e\<close>: at \<open>a\<close> lives a memory BIO, read-only or not, that has delivered \<open>pre\<close> since
  its start, will deliver \<open>bs\<close>, and then answers with \<open>e\<close>.
\<close>

definition mem_state :: "mem_heap \<Rightarrow> nat \<Rightarrow> bool \<Rightarrow> bytes \<Rightarrow> bytes \<Rightarrow> int \<Rightarrow> bool" where
  "mem_state h a ro pre bs e \<longleftrightarrow>
     (\<exists>ob m. h a = Some ob \<and> bio_method ob = Some mem_method \<and> init ob \<and> ptr ob = Some m \<and>
        rdonly ob = ro \<and> mem_ok ro m \<and> mem_before m = pre \<and> contents (mem_buf m) = bs \<and> mem_num m = e)"

lemma mem_stateI:
  "h a = Some ob \<Longrightarrow> bio_method ob = Some mem_method \<Longrightarrow> init ob \<Longrightarrow> ptr ob = Some m \<Longrightarrow> rdonly ob = ro \<Longrightarrow>
   mem_ok ro m \<Longrightarrow> mem_before m = pre \<Longrightarrow> contents (mem_buf m) = bs \<Longrightarrow> mem_num m = e \<Longrightarrow> mem_state h a ro pre bs e"
  by (auto simp: mem_state_def)

lemma mem_stateE:
  assumes "mem_state h a ro pre bs e"
  obtains ob m where "h a = Some ob" "bio_method ob = Some mem_method" "init ob" "ptr ob = Some m" "rdonly ob = ro"
    "mem_ok ro m" "mem_before m = pre" "contents (mem_buf m) = bs" "mem_num m = e"
    "length bs = buf_length (mem_buf m)" "buf_length (mem_buf m) \<le> length (heap.elems (buf_data (mem_buf m)))"
proof -
  obtain ob m where *: "h a = Some ob" "bio_method ob = Some mem_method" "init ob" "ptr ob = Some m" "rdonly ob = ro"
    "mem_ok ro m" "mem_before m = pre" "contents (mem_buf m) = bs" "mem_num m = e"
    using assms unfolding mem_state_def by blast
  have le: "buf_length (mem_buf m) \<le> length (heap.elems (buf_data (mem_buf m)))" using *(6) by (rule mem_ok_length)
  then have "length bs = buf_length (mem_buf m)" using *(8) by (auto simp: contents_def)
  from that [OF * this le] show thesis .
qed

lemma rdonly_simps [simp]:
  "rdonly (BIO_clear_retry_flags ob) = rdonly ob" "rdonly (BIO_set_retry_read ob) = rdonly ob"
  "rdonly (ob\<lparr>ptr := p\<rparr>) = rdonly ob" "rdonly (ob\<lparr>num_read := k\<rparr>) = rdonly ob" "rdonly (ob\<lparr>num_write := k\<rparr>) = rdonly ob"
  by (simp_all add: rdonly_def BIO_clear_retry_flags_def BIO_set_retry_read_def BIO_clear_flags_def BIO_set_flags_def
      kRetryFlags_def BIO_FLAGS_RWS_def BIO_FLAGS_READ_def BIO_FLAGS_WRITE_def BIO_FLAGS_IO_SPECIAL_def
      BIO_FLAGS_SHOULD_RETRY_def BIO_FLAGS_MEM_RDONLY_def and.assoc and.left_commute bit.conj_disj_distrib2)

section \<open>Reading\<close>

lemma mem_read_result:
  assumes st: "mem_state h a ro pre bs e" and n: "0 < n" "n \<le> int INT_MAX"
  shows "\<exists>h'. mem_read h a False n =
      Some (if bs = [] then e else int (min (nat n) (length bs)), take (nat n) bs, h') \<and>
    mem_state h' a ro (if ro then pre @ take (nat n) bs else pre) (drop (nat n) bs) e"
proof -
  obtain ob m where ob: "h a = Some ob" "bio_method ob = Some mem_method" "init ob" "ptr ob = Some m" "rdonly ob = ro"
    "mem_ok ro m" "mem_before m = pre" "contents (mem_buf m) = bs" "mem_num m = e"
    "length bs = buf_length (mem_buf m)" "buf_length (mem_buf m) \<le> length (heap.elems (buf_data (mem_buf m)))"
    using st by (rule mem_stateE)
  let ?b = "mem_buf m" and ?d = "heap.elems (buf_data (mem_buf m))"
  have d: "(case buf_data ?b of None \<Rightarrow> [] | Some d \<Rightarrow> d) = ?d" by (simp add: heap.elems_def)
  define k where "k = min (nat n) (length bs)"
  have ret: "(if buf_length ?b < INT_MAX \<and> n > int_of_size (buf_length ?b) then int_of_size (buf_length ?b) else n) = int k"
    using n ob(10) by (auto simp: k_def int_of_size_small)
  have bs: "bs = take (length bs) ?d" using ob(8,10) by (simp add: contents_def)
  have "take k ?d = take k (take (length bs) ?d)" "take (nat n) bs = take k bs" "drop (nat n) bs = drop k bs"
    by (simp_all add: k_def min_def)
  with bs have tk: "take k ?d = take (nat n) bs" "drop (nat n) bs = drop k bs" by simp_all
  show ?thesis
  proof (cases "bs = []")
    case True
    then have "mem_read h a False n =
        Some (e, [], h(a \<mapsto> (if e \<noteq> 0 then BIO_set_retry_read (BIO_clear_retry_flags ob) else BIO_clear_retry_flags ob)))"
      using ob d ret by (simp add: mem_read_def Let_def k_def)
    then show ?thesis using True ob by (auto simp: intro!: mem_stateI)
  next
    case False
    then have k: "0 < k" "k \<le> length bs" using n by (auto simp: k_def)
    let ?b' = "?b\<lparr>buf_length := buf_length ?b - k\<rparr>"
    let ?m = "if ro then m\<lparr>mem_buf := ?b'\<lparr>buf_data := Some (drop k ?d)\<rparr>, mem_before := pre @ take k ?d\<rparr>
       else m\<lparr>mem_buf := ?b'\<lparr>buf_data := Some (mem_move ?d 0 k (buf_length ?b - k))\<rparr>\<rparr>"
    have r: "mem_read h a False n = Some (int k, take k ?d, h(a \<mapsto> (BIO_clear_retry_flags ob)\<lparr>ptr := Some ?m\<rparr>))"
      using ob k ret d rdonly_simps(1) [of ob] by (simp add: mem_read_def Let_def rdonly_def)
    have c: "contents (mem_buf ?m) = drop k bs"
      using ob(8,10,11) k by (auto simp: contents_def mem_move_def mem_write_def take_drop)
    have "mem_ok ro ?m" using ob k by (auto simp: mem_ok_def buf_wf_def mem_move_def)
    moreover have "mem_before ?m = (if ro then pre @ take (nat n) bs else pre)" using tk ob(7) by simp
    moreover have "mem_num ?m = e" by (simp add: ob(9))
    ultimately have "mem_state (h(a \<mapsto> (BIO_clear_retry_flags ob)\<lparr>ptr := Some ?m\<rparr>)) a ro
        (if ro then pre @ take (nat n) bs else pre) (drop k bs) e"
      using ob c by (intro mem_stateI [where ob = "(BIO_clear_retry_flags ob)\<lparr>ptr := Some ?m\<rparr>" and m = ?m]) (simp_all split del: if_split)
    then show ?thesis using r tk False by (simp add: k_def)
  qed
qed

lemma mem_state_counts:
  assumes "mem_state h a ro pre bs e" and "h a = Some ob"
  shows "mem_state (h(a \<mapsto> ob\<lparr>num_read := k\<rparr>)) a ro pre bs e" and "mem_state (h(a \<mapsto> ob\<lparr>num_write := k\<rparr>)) a ro pre bs e"
  using assms by (auto elim!: mem_stateE intro!: mem_stateI)

lemma mem_state_live: "mem_state h a ro pre bs e \<Longrightarrow> \<exists>ob. h a = Some ob \<and> init ob \<and> bio_method ob = Some mem_method"
  by (auto simp: mem_state_def)

theorem mem_read_stream:
  assumes st: "mem_state h a ro pre bs e" and n: "0 < n" "n \<le> int INT_MAX"
  shows "\<exists>h'. BIO_read (BIO_s_mem libc) h (Some a) n =
      Some (if bs = [] then e else int (min (nat n) (length bs)), take (nat n) bs, h') \<and>
    mem_state h' a ro (if ro then pre @ take (nat n) bs else pre) (drop (nat n) bs) e"
proof -
  let ?r = "if bs = [] then e else int (min (nat n) (length bs))"
  let ?pre = "if ro then pre @ take (nat n) bs else pre"
  obtain h1 where h1: "mem_read h a False n = Some (?r, take (nat n) bs, h1)" "mem_state h1 a ro ?pre (drop (nat n) bs) e"
    using mem_read_result [OF st n] by blast
  obtain ob where ob: "h a = Some ob" "init ob" "bio_method ob = Some mem_method" using mem_state_live [OF st] by blast
  obtain ob1 where ob1: "h1 a = Some ob1" using mem_state_live [OF h1(2)] by blast
  let ?h = "if ?r > 0 then h1(a \<mapsto> ob1\<lparr>num_read := size_plus (num_read ob1) ?r\<rparr>) else h1"
  have "BIO_read (BIO_s_mem libc) h (Some a) n = Some (?r, take (nat n) bs, ?h)"
    using ob n h1(1) ob1 by (simp add: BIO_read_def BIO_s_mem_def split del: if_split) (simp split: if_splits)
  moreover have "mem_state ?h a ro ?pre (drop (nat n) bs) e"
    using h1(2) mem_state_counts(1) [OF h1(2) ob1] by (cases "?r > 0") (simp_all only: if_True if_False)
  ultimately show ?thesis by blast
qed

text \<open>A memory BIO is a stream.\<close>

interpretation mem_src: byte_source "\<lambda>h n. BIO_read (BIO_s_mem libc) h (Some a) n"
  "\<lambda>h bs e. e \<le> 0 \<and> (\<exists>pre. mem_state h a ro pre bs e)" for libc a ro
proof
  fix h :: mem_heap and bs :: bytes and e n :: int
  assume *: "e \<le> 0 \<and> (\<exists>pre. mem_state h a ro pre bs e)" and n: "0 < n" "n \<le> int INT_MAX"
  then obtain pre where st: "mem_state h a ro pre bs e" by blast
  obtain h' where r: "BIO_read (BIO_s_mem libc) h (Some a) n =
      Some (if bs = [] then e else int (min (nat n) (length bs)), take (nat n) bs, h')"
    "mem_state h' a ro (if ro then pre @ take (nat n) bs else pre) (drop (nat n) bs) e"
    using mem_read_stream [OF st n] by blast
  let ?k = "min (nat n) (length bs)"
  have k: "take (nat n) bs = take ?k bs" "drop (nat n) bs = drop ?k bs" by (auto simp: min_def)
  assume "bs \<noteq> []"
  then have "0 < ?k" "?k \<le> nat n" "?k \<le> length bs" using n by simp_all
  then show "\<exists>k w'. BIO_read (BIO_s_mem libc) h (Some a) n = Some (int k, take k bs, w') \<and> 0 < k \<and> k \<le> nat n \<and>
      k \<le> length bs \<and> (e \<le> 0 \<and> (\<exists>pre. mem_state w' a ro pre (drop k bs) e))"
    using r * \<open>bs \<noteq> []\<close> unfolding k by (intro exI [of _ ?k] exI [of _ h']) auto
next
  fix h :: mem_heap and e n :: int
  assume *: "e \<le> 0 \<and> (\<exists>pre. mem_state h a ro pre [] e)" and n: "0 < n" "n \<le> int INT_MAX"
  then obtain pre where st: "mem_state h a ro pre [] e" by blast
  show "\<exists>w'. BIO_read (BIO_s_mem libc) h (Some a) n = Some (e, [], w') \<and> (e \<le> 0 \<and> (\<exists>pre. mem_state w' a ro pre [] e))"
    using mem_read_stream [OF st n, of libc] * by auto
qed blast

section \<open>Writing\<close>

lemma mem_write_result:
  assumes st: "mem_state h a False pre bs e" and libc: "libc_wf libc" and n: "0 < n" "n \<le> int INT_MAX" "nat n \<le> length src"
  shows "\<exists>r h'. mem_write_bio libc h a (Some src) n = Some (r, h') \<and>
    (r = n \<and> length bs + nat n \<le> INT_MAX \<and> mem_state h' a False pre (bs @ take (nat n) src) e \<or>
     r = - 1 \<and> mem_state h' a False pre bs e)"
proof -
  obtain ob m where ob: "h a = Some ob" "bio_method ob = Some mem_method" "init ob" "ptr ob = Some m" "rdonly ob = False"
    "mem_ok False m" "mem_before m = pre" "contents (mem_buf m) = bs" "mem_num m = e"
    "length bs = buf_length (mem_buf m)" "buf_length (mem_buf m) \<le> length (heap.elems (buf_data (mem_buf m)))"
    using st by (rule mem_stateE)
  let ?b = "mem_buf m" and ?ob = "BIO_clear_retry_flags ob"
  have wf: "buf_wf ?b" "buf_length ?b \<le> INT_MAX" "pre = []" using ob(6,7) by (simp_all add: mem_ok_def)
  have bl: "int_of_size (buf_length ?b) = int (length bs)" using wf(2) ob(10) by (simp add: int_of_size_small)
  have ro: "flags ob AND BIO_FLAGS_MEM_RDONLY = 0" using ob(5) by (simp add: rdonly_def)
  have same: "mem_state (h(a \<mapsto> ?ob)) a False pre bs e"
    using ob by (intro mem_stateI [where ob = ?ob and m = m]) simp_all
  show ?thesis
  proof (cases "length bs + nat n \<le> INT_MAX")
    case False
    then have "int INT_MAX - int (length bs) < n" using n(1) by linarith
    then have "mem_write_bio libc h a (Some src) n = Some (- 1, h(a \<mapsto> ?ob))"
      using ob ro bl n by (simp add: mem_write_bio_def Let_def)
    then show ?thesis using same by blast
  next
    case fits: True
    define l where "l = length bs + nat n"
    have szs: "size_of_int (int (length bs) + n) = l" "size_plus (size_of_int (int (length bs))) n = l"
      "\<not> int INT_MAX - int (length bs) < n"
      using fits n by (simp_all add: l_def size_of_int_nonneg size_plus_def)
    have "l + 3 \<le> 3 * (HEAP_LIMIT div 4)" using fits by (simp add: l_def INT_MAX_def HEAP_LIMIT_def)
    note grown = grow_result [OF wf(1) libc this]
    obtain r b where g: "BUF_MEM_grow libc ?b l = (r, b)" by (cases "BUF_MEM_grow libc ?b l")
    have w: "mem_write_bio libc h a (Some src) n =
       (if r \<noteq> l then Some (- 1, h(a \<mapsto> ?ob\<lparr>ptr := Some (m\<lparr>mem_buf := b\<rparr>)\<rparr>))
        else Some (n, h(a \<mapsto> ?ob\<lparr>ptr := Some (m\<lparr>mem_buf :=
                     b\<lparr>buf_data := map_option (\<lambda>d. mem_write d (length bs) (take (nat n) src)) (buf_data b)\<rparr>\<rparr>)\<rparr>)))"
      using ob ro bl n szs g by (simp add: mem_write_bio_def BUF_MEM_grow_clean_def Let_def)
    show ?thesis
    proof (cases "r = l")
      case False
      then have "b = ?b" using grown g by auto
      then have "mem_state (h(a \<mapsto> ?ob\<lparr>ptr := Some (m\<lparr>mem_buf := b\<rparr>)\<rparr>)) a False pre bs e"
        using ob by (intro mem_stateI [where ob = "?ob\<lparr>ptr := Some (m\<lparr>mem_buf := b\<rparr>)\<rparr>" and m = m]) simp_all
      then show ?thesis using w False by auto
    next
      case True
      have "l \<noteq> 0" using n by (simp add: l_def)
      then have b: "buf_wf b" "contents b = take l (contents ?b) @ replicate (l - buf_length ?b) 0"
        using grown g True by auto
      let ?b = "b\<lparr>buf_data := map_option (\<lambda>d. mem_write d (length bs) (take (nat n) src)) (buf_data b)\<rparr>"
      let ?m = "m\<lparr>mem_buf := ?b\<rparr>"
      have c: "contents b = bs @ replicate (nat n) 0" using b(2) ob(8,10) by (simp add: l_def)
      then have bl: "buf_length b = l" using length_contents [OF b(1)] n by (simp add: l_def)
      have len: "l \<le> length (heap.elems (buf_data b))" using b(1) bl by (simp add: buf_wf_def)
      have "take (length bs) (heap.elems (buf_data b)) = take (length bs) (contents b)"
        by (simp add: contents_def bl l_def)
      then have tk: "take (length bs) (heap.elems (buf_data b)) = bs" using c by simp
      have d: "heap.elems (map_option (\<lambda>d. mem_write d (length bs) (take (nat n) src)) (buf_data b)) =
          mem_write (heap.elems (buf_data b)) (length bs) (take (nat n) src)"
        using len \<open>l \<noteq> 0\<close> by (cases "buf_data b") simp_all
      have "buf_wf ?b" using b(1) len n by (simp add: buf_wf_def d l_def)
      moreover have "contents ?b = bs @ take (nat n) src"
        using take_mem_write_upto [of "length bs" "heap.elems (buf_data b)" "take (nat n) src"] len tk n
        by (simp add: contents_def d bl l_def)
      ultimately have "mem_state (h(a \<mapsto> ?ob\<lparr>ptr := Some ?m\<rparr>)) a False pre (bs @ take (nat n) src) e"
        using ob wf(3) bl fits by (intro mem_stateI [where ob = "?ob\<lparr>ptr := Some ?m\<rparr>" and m = ?m]) (simp_all add: mem_ok_def l_def)
      then show ?thesis using w True fits by auto
    qed
  qed
qed

theorem mem_write_stream:
  assumes st: "mem_state h a False pre bs e" and libc: "libc_wf libc" and n: "0 < n" "n \<le> int INT_MAX" "nat n \<le> length src"
  shows "\<exists>r h'. BIO_write (BIO_s_mem libc) h (Some a) src n = Some (r, h') \<and>
    (r = n \<and> length bs + nat n \<le> INT_MAX \<and> mem_state h' a False pre (bs @ take (nat n) src) e \<or>
     r = - 1 \<and> mem_state h' a False pre bs e)"
proof -
  obtain r h1 where h1: "mem_write_bio libc h a (Some src) n = Some (r, h1)"
    "r = n \<and> length bs + nat n \<le> INT_MAX \<and> mem_state h1 a False pre (bs @ take (nat n) src) e \<or> r = - 1 \<and> mem_state h1 a False pre bs e"
    using mem_write_result [OF assms] by blast
  obtain ob where ob: "h a = Some ob" "init ob" "bio_method ob = Some mem_method" using mem_state_live [OF st] by blast
  obtain ob1 where ob1: "h1 a = Some ob1" using mem_state_live h1(2) by blast
  let ?h = "if r > 0 then h1(a \<mapsto> ob1\<lparr>num_write := size_plus (num_write ob1) r\<rparr>) else h1"
  have "BIO_write (BIO_s_mem libc) h (Some a) src n = Some (r, ?h)"
    using ob n h1(1) ob1 by (simp add: BIO_write_def BIO_s_mem_def)
  moreover have "mem_state h1 a ro p c e \<Longrightarrow> mem_state ?h a ro p c e" for ro p c
    using mem_state_counts(2) [of h1 a, OF _ ob1] by simp
  ultimately show ?thesis using h1(2) by blast
qed

theorem mem_write_rdonly:
  assumes "mem_state h a True pre bs e" and "0 < n"
  shows "BIO_write (BIO_s_mem libc) h (Some a) src n = Some (- 1, h)"
  using assms by (auto simp: mem_state_def BIO_write_def BIO_s_mem_def mem_write_bio_def rdonly_def)

section \<open>Reset\<close>

theorem mem_reset_rdonly:
  assumes "mem_state h a True pre bs e"
  shows "\<exists>h'. BIO_reset (BIO_s_mem libc) h (Some a) = Some (1, h') \<and> mem_state h' a True [] (pre @ bs) e"
proof -
  obtain ob m where ob: "h a = Some ob" "bio_method ob = Some mem_method" "init ob" "ptr ob = Some m" "rdonly ob = True"
    "mem_ok True m" "mem_before m = pre" "contents (mem_buf m) = bs" "mem_num m = e"
    "length bs = buf_length (mem_buf m)" "buf_length (mem_buf m) \<le> length (heap.elems (buf_data (mem_buf m)))"
    using assms by (rule mem_stateE)
  let ?b = "mem_buf m"
  have mx: "buf_max ?b = length pre + buf_length ?b" using ob(6,7) by (simp add: mem_ok_def)
  have c: "BIO_reset (BIO_s_mem libc) h (Some a) = map_option (\<lambda>h. (1, h)) (mem_reset h a)"
    using ob by (simp add: BIO_reset_def BIO_ctrl_def BIO_s_mem_def mem_ctrl_def map_conv_bind_option comp_def)
  show ?thesis
  proof (cases "buf_data ?b")
    case None
    then have "pre = []" "mem_reset h a = Some h" using ob by (auto simp: mem_ok_def mem_reset_def)
    then show ?thesis using c assms by simp
  next
    case (Some d)
    let ?m = "m\<lparr>mem_buf := ?b\<lparr>buf_data := Some (pre @ d), buf_length := buf_max ?b\<rparr>, mem_before := []\<rparr>"
    have "mem_reset h a = Some (h(a \<mapsto> ob\<lparr>ptr := Some ?m\<rparr>))"
      using ob Some mx by (simp add: mem_reset_def rdonly_def Let_def)
    moreover have "mem_state (h(a \<mapsto> ob\<lparr>ptr := Some ?m\<rparr>)) a True [] (pre @ bs) e"
      using ob Some mx by (intro mem_stateI [where ob = "ob\<lparr>ptr := Some ?m\<rparr>" and m = ?m]) (auto simp: mem_ok_def contents_def)
    ultimately show ?thesis using c by simp
  qed
qed

text \<open>A writable BIO drops what is pending.\<close>

theorem mem_reset_writable:
  assumes "mem_state h a False pre bs e"
  shows "\<exists>h'. BIO_reset (BIO_s_mem libc) h (Some a) = Some (1, h') \<and> mem_state h' a False pre [] e"
proof -
  obtain ob m where ob: "h a = Some ob" "bio_method ob = Some mem_method" "init ob" "ptr ob = Some m" "rdonly ob = False"
    "mem_ok False m" "mem_before m = pre" "contents (mem_buf m) = bs" "mem_num m = e"
    "length bs = buf_length (mem_buf m)" "buf_length (mem_buf m) \<le> length (heap.elems (buf_data (mem_buf m)))"
    using assms by (rule mem_stateE)
  let ?b = "mem_buf m"
  have c: "BIO_reset (BIO_s_mem libc) h (Some a) = map_option (\<lambda>h. (1, h)) (mem_reset h a)"
    using ob by (simp add: BIO_reset_def BIO_ctrl_def BIO_s_mem_def mem_ctrl_def map_conv_bind_option comp_def)
  show ?thesis
  proof (cases "buf_data ?b")
    case None
    then have "mem_reset h a = Some h" "bs = []" using ob by (simp_all add: mem_reset_def)
    then show ?thesis using c assms by simp
  next
    case (Some d)
    let ?m = "m\<lparr>mem_buf := ?b\<lparr>buf_data := Some (mem_write d 0 (replicate (buf_max ?b) 0)), buf_length := 0\<rparr>\<rparr>"
    have "mem_reset h a = Some (h(a \<mapsto> ob\<lparr>ptr := Some ?m\<rparr>))"
      using ob Some by (simp add: mem_reset_def rdonly_def Let_def)
    moreover have "mem_state (h(a \<mapsto> ob\<lparr>ptr := Some ?m\<rparr>)) a False pre [] e"
      using ob Some by (intro mem_stateI [where ob = "ob\<lparr>ptr := Some ?m\<rparr>" and m = ?m])
        (auto simp: mem_ok_def contents_def buf_wf_def mem_write_def)
    ultimately show ?thesis using c by simp
  qed
qed

text \<open>The answer to a read when nothing is pending can be set.\<close>

theorem mem_set_eof:
  assumes "mem_state h a ro pre bs e"
  shows "\<exists>h'. BIO_set_mem_eof_return libc h (Some a) v = Some (1, h') \<and> mem_state h' a ro pre bs (int_of_long v)"
  using assms
  by (rule mem_stateE)
    (auto simp: BIO_set_mem_eof_return_def BIO_ctrl_def BIO_s_mem_def mem_ctrl_def BIO_CTRL_RESET_def BIO_CTRL_EOF_def
      BIO_C_SET_BUF_MEM_EOF_RETURN_def mem_ok_def intro!: mem_stateI)

section \<open>Lines\<close>

text \<open>A line: the bytes up to and including the first newline, or all of them.\<close>

fun first_line :: "bytes \<Rightarrow> bytes" where
  "first_line [] = []"
| "first_line (c # cs) = (if c = 0x0a then [c] else c # first_line cs)"

lemma line_length_result:
  "i + k \<le> length p \<Longrightarrow> line_length p i k = i + length (first_line (take k (drop i p)))"
proof (induction k arbitrary: i)
  case (Suc k)
  then have "drop i p = p ! i # drop (Suc i) p" by (simp add: Cons_nth_drop_Suc)
  with Suc show ?case by simp
qed simp

lemma first_line_prefix: "take (length (first_line cs)) cs = first_line cs"
  by (induction cs) auto

lemma first_line_nonempty [simp]: "first_line cs = [] \<longleftrightarrow> cs = []"
  by (cases cs) auto

lemma length_first_line: "length (first_line cs) \<le> length cs"
  using arg_cong [OF first_line_prefix [of cs], of length] by simp

theorem mem_gets_line:
  assumes st: "mem_state h a ro pre bs e" and n: "1 < n" "n \<le> int INT_MAX" and bs: "bs \<noteq> []" "length bs \<le> INT_MAX"
  defines "ln \<equiv> first_line (take (nat (n - 1)) bs)"
  shows "\<exists>h'. BIO_gets (BIO_s_mem libc) h (Some a) n = Some (int (length ln), ln @ [0], h') \<and>
    mem_state h' a ro (if ro then pre @ ln else pre) (drop (length ln) bs) e"
proof -
  obtain ob m where ob: "h a = Some ob" "bio_method ob = Some mem_method" "init ob" "ptr ob = Some m" "rdonly ob = ro"
    "mem_ok ro m" "mem_before m = pre" "contents (mem_buf m) = bs" "mem_num m = e"
    "length bs = buf_length (mem_buf m)" "buf_length (mem_buf m) \<le> length (heap.elems (buf_data (mem_buf m)))"
    using st by (rule mem_stateE)
  let ?b = "mem_buf m" and ?d = "heap.elems (buf_data (mem_buf m))" and ?h = "h(a \<mapsto> BIO_clear_retry_flags ob)"
  let ?j = "min (nat (n - 1)) (length bs)"
  have st1: "mem_state ?h a ro pre bs e" using ob by (intro mem_stateI [where ob = "BIO_clear_retry_flags ob" and m = m]) simp_all
  have d: "(case buf_data ?b of None \<Rightarrow> [] | Some d \<Rightarrow> d) = ?d" by (simp add: heap.elems_def)
  have j: "(if n - 1 < int (length bs) then n - 1 else int (length bs)) = int ?j" "0 < ?j" using n bs by auto
  have "take (length bs) ?d = bs" using ob(8,10) by (simp add: contents_def)
  from arg_cong [OF this, of "take ?j"] have "take ?j ?d = take ?j bs" by simp
  also have "\<dots> = take (nat (n - 1)) bs" by (simp add: min_def)
  finally have tk: "take ?j ?d = take (nat (n - 1)) bs" .
  have "0 + ?j \<le> length ?d" using ob(10,11) by simp
  from line_length_result [OF this] have ll: "line_length ?d 0 ?j = length ln" by (simp only: drop_0 tk ln_def add_0)
  have ln: "0 < length ln" "length ln \<le> length bs" "length ln \<le> nat (n - 1)"
    using length_first_line [of "take (nat (n - 1)) bs"] bs n by (auto simp: ln_def)
  have "take (length ln) (take (nat (n - 1)) bs) = ln" unfolding ln_def by (rule first_line_prefix)
  then have take_ln: "take (length ln) bs = ln" using ln by (simp add: min_absorb1)
  have "0 < int (length ln)" "int (length ln) \<le> int INT_MAX" using ln bs by simp_all
  from mem_read_result [OF st1 this] obtain h1 where h1: "mem_read ?h a False (int (length ln)) = Some (int (length ln), ln, h1)"
    "mem_state h1 a ro (if ro then pre @ ln else pre) (drop (length ln) bs) e"
    unfolding nat_int take_ln using bs(1) ln by (auto simp: min_absorb1)
  obtain ob1 where ob1: "h1 a = Some ob1" using mem_state_live [OF h1(2)] by blast
  have bl: "int_of_size (buf_length ?b) = int (length bs)" using bs ob(10) by (simp add: int_of_size_small)
  have "mem_gets h a False n = Some (int (length ln), ln @ [0], h1)"
    using ob(1,4) h1(1) ln(1) j(2) unfolding mem_gets_def Let_def
    by (simp only: bind.bind_lunit option.case bl j(1) d nat_int ll) (simp add: not_le del: of_nat_min)
  then have "BIO_gets (BIO_s_mem libc) h (Some a) n =
      Some (int (length ln), ln @ [0], h1(a \<mapsto> ob1\<lparr>num_read := size_plus (num_read ob1) (int (length ln))\<rparr>))"
    using ob n ob1 ln(1) by (simp add: BIO_gets_def BIO_s_mem_def)
  then show ?thesis using mem_state_counts(1) [OF h1(2) ob1] by blast
qed

text \<open>With nothing pending, or no room for more than the terminator, the line is empty.\<close>

lemma mem_gets_nothing:
  assumes st: "mem_state h a ro pre bs e" and n: "n \<le> int INT_MAX" and none: "bs = [] \<or> n \<le> 1" and bs: "length bs \<le> INT_MAX"
  shows "\<exists>h'. BIO_gets (BIO_s_mem libc) h (Some a) n = Some (0, if n > 0 then [0] else [], h') \<and> mem_state h' a ro pre bs e"
proof -
  obtain ob m where ob: "h a = Some ob" "bio_method ob = Some mem_method" "init ob" "ptr ob = Some m" "rdonly ob = ro"
    "mem_ok ro m" "mem_before m = pre" "contents (mem_buf m) = bs" "mem_num m = e"
    "length bs = buf_length (mem_buf m)" "buf_length (mem_buf m) \<le> length (heap.elems (buf_data (mem_buf m)))"
    using st by (rule mem_stateE)
  have st1: "mem_state (h(a \<mapsto> BIO_clear_retry_flags ob)) a ro pre bs e"
    using ob by (intro mem_stateI [where ob = "BIO_clear_retry_flags ob" and m = m]) simp_all
  have bl: "int_of_size (buf_length (mem_buf m)) = int (length bs)" using bs ob(10) by (simp add: int_of_size_small)
  show ?thesis
  proof (cases "n > 0")
    case True
    have "(if n - 1 < int (length bs) then n - 1 else int (length bs)) \<le> 0" using none True by (cases bs) auto
    then have "mem_gets h a False n = Some (0, [0], h(a \<mapsto> BIO_clear_retry_flags ob))"
      using ob(1,4) True unfolding mem_gets_def Let_def
      by (simp only: bind.bind_lunit option.case bl) (simp split del: if_split)
    then show ?thesis using ob True st1 by (simp add: BIO_gets_def BIO_s_mem_def)
  qed (use ob st in \<open>simp add: BIO_gets_def BIO_s_mem_def\<close>)
qed

section \<open>Creation\<close>

theorem new_mem_buf:
  assumes "BIO_new_mem_buf libc alloc h (Some d) len = Some (Some a, h')" and "len \<le> int (length d)"
  shows "mem_state h' a True [] (if len < 0 then take (strlen d) d else take (nat len) d) 0"
proof -
  have l: "strlen d \<le> length d" by (induction d) auto
  show ?thesis
    using assms l
    by (auto simp: BIO_new_mem_buf_def BIO_new_def BIO_s_mem_def mem_new_def bind_eq_Some_conv Let_def mem_ok_def contents_def
        rdonly_def BIO_FLAGS_MEM_RDONLY_def split: option.splits if_splits intro!: mem_stateI)
qed

theorem new_writable:
  assumes "BIO_new (BIO_s_mem libc) alloc h mem_method = Some (Some a, h')"
  shows "mem_state h' a False [] [] (- 1)"
  using assms BUF_MEM_new_empty [of libc]
  by (auto simp: BIO_new_def BIO_s_mem_def mem_new_def bind_eq_Some_conv Let_def mem_ok_def buf_wf_def contents_def
      rdonly_def BUF_MEM_new_def split: option.splits if_splits intro!: mem_stateI)

section \<open>Runs\<close>

definition mem_pending :: "mem_heap \<Rightarrow> nat \<Rightarrow> bytes" where
  "mem_pending h a = (case Option.bind (h a) ptr of None \<Rightarrow> [] | Some m \<Rightarrow> contents (mem_buf m))"

lemma mem_pending_state: "mem_state h a ro pre bs e \<Longrightarrow> mem_pending h a = bs"
  by (auto simp: mem_state_def mem_pending_def)

text \<open>
  The runs of one memory BIO: \<open>wr\<close> is what was put into it, \<open>rd\<close> what came out. A reset of a writable one
  starts again with nothing; a reset of a read-only one goes back to the start of \<open>wr\<close>.
\<close>

inductive mem_run :: "libc_malloc \<Rightarrow> nat \<Rightarrow> bool \<Rightarrow> mem_heap \<Rightarrow> bytes \<Rightarrow> bytes \<Rightarrow> bool" for libc a where
  created: "BIO_new (BIO_s_mem libc) alloc h0 mem_method = Some (Some a, h) \<Longrightarrow> mem_run libc a False h [] []"
| from_buf: "BIO_new_mem_buf libc alloc h0 (Some d) (int (length d)) = Some (Some a, h) \<Longrightarrow> length d \<le> INT_MAX \<Longrightarrow>
    mem_run libc a True h d []"
| written: "mem_run libc a ro h wr rd \<Longrightarrow> n \<le> int INT_MAX \<Longrightarrow> nat n \<le> length src \<Longrightarrow>
    BIO_write (BIO_s_mem libc) h (Some a) src n = Some (r, h') \<Longrightarrow>
    mem_run libc a ro h' (if r > 0 then wr @ take (nat r) src else wr) rd"
| was_read: "mem_run libc a ro h wr rd \<Longrightarrow> n \<le> int INT_MAX \<Longrightarrow>
    BIO_read (BIO_s_mem libc) h (Some a) n = Some (r, out, h') \<Longrightarrow> mem_run libc a ro h' wr (rd @ out)"
| got_line: "mem_run libc a ro h wr rd \<Longrightarrow> n \<le> int INT_MAX \<Longrightarrow>
    BIO_gets (BIO_s_mem libc) h (Some a) n = Some (r, out, h') \<Longrightarrow> mem_run libc a ro h' wr (rd @ take (nat r) out)"
| reset: "mem_run libc a ro h wr rd \<Longrightarrow> BIO_reset (BIO_s_mem libc) h (Some a) = Some (r, h') \<Longrightarrow>
    mem_run libc a ro h' (if ro then wr else []) []"
| eof_return: "mem_run libc a ro h wr rd \<Longrightarrow> BIO_set_mem_eof_return libc h (Some a) v = Some (r, h') \<Longrightarrow>
    mem_run libc a ro h' wr rd"

text \<open>What a run has left: \<open>bs\<close> is still to come.\<close>

definition mem_left :: "mem_heap \<Rightarrow> nat \<Rightarrow> bool \<Rightarrow> bytes \<Rightarrow> bytes \<Rightarrow> bytes \<Rightarrow> bool" where
  "mem_left h a ro wr rd bs \<longleftrightarrow> (\<exists>e. mem_state h a ro (if ro then rd else []) bs e) \<and> wr = rd @ bs \<and>
     length bs \<le> INT_MAX \<and> (ro \<longrightarrow> length wr \<le> INT_MAX)"

lemma mem_left_written:
  assumes "mem_left h a ro wr rd bs" and "libc_wf libc" and n: "n \<le> int INT_MAX" "nat n \<le> length src"
    and w: "BIO_write (BIO_s_mem libc) h (Some a) src n = Some (r, h')"
  shows "\<exists>bs'. mem_left h' a ro (if r > 0 then wr @ take (nat r) src else wr) rd bs'"
proof -
  obtain e where st: "mem_state h a ro (if ro then rd else []) bs e" using assms(1) by (auto simp: mem_left_def)
  consider "n \<le> 0" | "0 < n" ro | "0 < n" "\<not> ro" by linarith
  then show ?thesis
  proof cases
    case 1
    then have "r \<le> 0" "h' = h" using w mem_state_live [OF st] by (auto simp: BIO_write_def BIO_s_mem_def)
    then show ?thesis using assms(1) by (intro exI [of _ bs]) simp
  next
    case 2
    then have "r = - 1" "h' = h" using w mem_write_rdonly [of h a rd bs e n libc src] st by simp_all
    then show ?thesis using assms(1) by (intro exI [of _ bs]) simp
  next
    case 3
    then have st': "mem_state h a False [] bs e" using st by simp
    from mem_write_stream [OF this assms(2) 3(1) n] w
    consider "r = n" "length bs + nat n \<le> INT_MAX" "mem_state h' a False [] (bs @ take (nat n) src) e"
      | "r = - 1" "mem_state h' a False [] bs e" by auto
    then show ?thesis
    proof cases
      case 1
      then show ?thesis using assms(1) 3 n(2) by (intro exI [of _ "bs @ take (nat n) src"]) (auto simp: mem_left_def)
    next
      case 2
      then show ?thesis using assms(1) 3 by (intro exI [of _ bs]) (auto simp: mem_left_def)
    qed
  qed
qed

lemma mem_left_read:
  assumes "mem_left h a ro wr rd bs" and n: "n \<le> int INT_MAX"
    and w: "BIO_read (BIO_s_mem libc) h (Some a) n = Some (r, out, h')"
  shows "\<exists>bs'. mem_left h' a ro wr (rd @ out) bs'"
proof -
  obtain e where st: "mem_state h a ro (if ro then rd else []) bs e" using assms(1) by (auto simp: mem_left_def)
  show ?thesis
  proof (cases "n > 0")
    case True
    from mem_read_stream [OF st True n, of libc] w assms(1) show ?thesis
      by (intro exI [of _ "drop (nat n) bs"]) (auto simp: mem_left_def split: if_splits)
  next
    case False
    then have "out = []" "h' = h" using w mem_state_live [OF st] by (auto simp: BIO_read_def BIO_s_mem_def)
    then show ?thesis using assms(1) by auto
  qed
qed

lemma mem_left_line:
  assumes "mem_left h a ro wr rd bs" and n: "n \<le> int INT_MAX"
    and w: "BIO_gets (BIO_s_mem libc) h (Some a) n = Some (r, out, h')"
  shows "\<exists>bs'. mem_left h' a ro wr (rd @ take (nat r) out) bs'"
proof -
  obtain e where st: "mem_state h a ro (if ro then rd else []) bs e" and bs: "length bs \<le> INT_MAX" "wr = rd @ bs"
      "ro \<longrightarrow> length wr \<le> INT_MAX"
    using assms(1) by (auto simp: mem_left_def)
  show ?thesis
  proof (cases "bs = [] \<or> n \<le> 1")
    case True
    from mem_gets_nothing [OF st n True bs(1), of libc] w have "r = 0" "mem_state h' a ro (if ro then rd else []) bs e" by auto
    then show ?thesis using bs by (intro exI [of _ bs]) (auto simp: mem_left_def)
  next
    case False
    then have ne: "1 < n" "bs \<noteq> []" by auto
    let ?ln = "first_line (take (nat (n - 1)) bs)"
    from mem_gets_line [OF st ne(1) n ne(2) bs(1), of libc] w
    have r: "r = int (length ?ln)" "out = ?ln @ [0]"
      "mem_state h' a ro (if ro then (if ro then rd else []) @ ?ln else (if ro then rd else [])) (drop (length ?ln) bs) e"
      by auto
    have "length ?ln \<le> nat (n - 1)" using length_first_line [of "take (nat (n - 1)) bs"] by simp
    then have "take (length ?ln) bs = ?ln"
      using first_line_prefix [of "take (nat (n - 1)) bs"] by (simp add: min_absorb1)
    then have "?ln @ drop (length ?ln) bs = bs" by (metis append_take_drop_id)
    with r bs show ?thesis by (intro exI [of _ "drop (length ?ln) bs"]) (auto simp: mem_left_def split: if_splits)
  qed
qed

lemma mem_left_reset:
  assumes "mem_left h a ro wr rd bs" and w: "BIO_reset (BIO_s_mem libc) h (Some a) = Some (r, h')"
  shows "\<exists>bs'. mem_left h' a ro (if ro then wr else []) [] bs'"
proof -
  obtain e where st: "mem_state h a ro (if ro then rd else []) bs e" and bs: "wr = rd @ bs" "ro \<longrightarrow> length wr \<le> INT_MAX"
    using assms(1) by (auto simp: mem_left_def)
  show ?thesis
  proof (cases ro)
    case True
    with mem_reset_rdonly [of h a rd bs e libc] st w bs show ?thesis
      by (intro exI [of _ wr]) (auto simp: mem_left_def)
  next
    case False
    with mem_reset_writable [of h a "[]" bs e libc] st w show ?thesis
      by (intro exI [of _ "[]"]) (auto simp: mem_left_def)
  qed
qed

lemma mem_run_state:
  assumes "libc_wf libc" and "mem_run libc a ro h wr rd"
  shows "\<exists>bs. mem_left h a ro wr rd bs"
  using assms(2)
proof induction
  case (created alloc h0 h)
  then show ?case using new_writable by (force simp: mem_left_def)
next
  case (from_buf alloc h0 d h)
  then show ?case using new_mem_buf [OF from_buf(1)] by (auto simp: mem_left_def)
next
  case (written ro h wr rd n src r h')
  then show ?case using mem_left_written assms(1) by blast
next
  case (was_read ro h wr rd n r out h')
  then show ?case using mem_left_read by blast
next
  case (got_line ro h wr rd n r out h')
  then show ?case using mem_left_line by blast
next
  case (reset ro h wr rd r h')
  then show ?case using mem_left_reset by blast
next
  case (eof_return ro h wr rd v r h')
  then obtain bs where l: "mem_left h a ro wr rd bs" by blast
  then obtain e where "mem_state h a ro (if ro then rd else []) bs e" by (auto simp: mem_left_def)
  from mem_set_eof [OF this, of libc v] eof_return.hyps(2) have "\<exists>e. mem_state h' a ro (if ro then rd else []) bs e" by auto
  then show ?case using l by (auto simp: mem_left_def)
qed

end
