(* ===== verification/BnWords.thy ===== *)
theory BnWords
  imports ConstTime
begin

text \<open>
  The arithmetic on arrays of 64-bit words below the big numbers: \<open>crypto/fipsmodule/bn/generic.c\<close>, in
  the configuration of the build (no assembly, \<open>BN_ULLONG\<close> is a 128-bit integer), and the word-array
  functions of \<open>cmp.c\<close>, \<open>bn.c\<close>, \<open>shift.c\<close> and \<open>div.c\<close>.

  An array is the list of its words, least significant first. A function that fills an array returns
  the words it stores; each of them reads the words at an index before it stores at that index, so the
  results are the same when the arrays are the same. The loops that the source unrolls four times take
  one word per step here. The lemmas are in \<open>BnWords_Spec\<close>.
\<close>

unbundle bit_operations_syntax

type_synonym u128 = "128 word"
type_synonym words = "u64 list"

definition BN_BITS2 :: nat where "BN_BITS2 = 64"

definition Lw :: "u128 \<Rightarrow> u64" where "Lw t = ucast t"

definition Hw :: "u128 \<Rightarrow> u64" where "Hw t = ucast (drop_bit BN_BITS2 t)"

section \<open>Words times a word\<close>

definition mul_add :: "u64 \<Rightarrow> u64 \<Rightarrow> u64 \<Rightarrow> u64 \<Rightarrow> u64 \<times> u64" where
  "mul_add r a w c = (let t = ucast w * ucast a + ucast r + ucast c in (Lw t, Hw t))"

definition mul_word :: "u64 \<Rightarrow> u64 \<Rightarrow> u64 \<Rightarrow> u64 \<times> u64" where
  "mul_word a w c = (let t = ucast w * ucast a + ucast c in (Lw t, Hw t))"

definition sqr_word :: "u64 \<Rightarrow> u64 \<times> u64" where
  "sqr_word a = (let t = ucast a * ucast a in (Lw t, Hw t))"

fun mul_add_loop :: "u64 \<Rightarrow> words \<Rightarrow> words \<Rightarrow> u64 \<Rightarrow> words \<times> u64" where
  "mul_add_loop w (r # rp) (a # ap) c1 =
     (case mul_add r a w c1 of (r, c1) \<Rightarrow> (case mul_add_loop w rp ap c1 of (rp, c1) \<Rightarrow> (r # rp, c1)))"
| "mul_add_loop w _ _ c1 = ([], c1)"

definition bn_mul_add_words :: "words \<Rightarrow> words \<Rightarrow> nat \<Rightarrow> u64 \<Rightarrow> words \<times> u64" where
  "bn_mul_add_words rp ap num w = mul_add_loop w (take num rp) (take num ap) 0"

fun mul_loop :: "u64 \<Rightarrow> words \<Rightarrow> u64 \<Rightarrow> words \<times> u64" where
  "mul_loop w (a # ap) c1 =
     (case mul_word a w c1 of (r, c1) \<Rightarrow> (case mul_loop w ap c1 of (rp, c1) \<Rightarrow> (r # rp, c1)))"
| "mul_loop w [] c1 = ([], c1)"

definition bn_mul_words :: "words \<Rightarrow> nat \<Rightarrow> u64 \<Rightarrow> words \<times> u64" where
  "bn_mul_words ap num w = mul_loop w (take num ap) 0"

definition bn_sqr_words :: "words \<Rightarrow> nat \<Rightarrow> words" where
  "bn_sqr_words a n = concat (map (\<lambda>x. case sqr_word x of (r0, r1) \<Rightarrow> [r0, r1]) (take n a))"

section \<open>Sums and differences\<close>

fun add_loop :: "u128 \<Rightarrow> words \<Rightarrow> words \<Rightarrow> words \<times> u64" where
  "add_loop ll (a # as) (b # bs) =
     (let ll = ll + (ucast a + ucast b); r = ucast ll; ll = drop_bit BN_BITS2 ll
      in case add_loop ll as bs of (rs, c) \<Rightarrow> (r # rs, c))"
| "add_loop ll _ _ = ([], ucast ll)"

definition bn_add_words :: "words \<Rightarrow> words \<Rightarrow> nat \<Rightarrow> words \<times> u64" where
  "bn_add_words a b n = (if n = 0 then ([], 0) else add_loop 0 (take n a) (take n b))"

fun sub_loop :: "u64 \<Rightarrow> words \<Rightarrow> words \<Rightarrow> words \<times> u64" where
  "sub_loop c (t1 # as) (t2 # bs) =
     (let r = t1 - t2 - c; c = (if t1 \<noteq> t2 then of_bool (t1 < t2) else c)
      in case sub_loop c as bs of (rs, c) \<Rightarrow> (r # rs, c))"
| "sub_loop c _ _ = ([], c)"

definition bn_sub_words :: "words \<Rightarrow> words \<Rightarrow> nat \<Rightarrow> words \<times> u64" where
  "bn_sub_words a b n = sub_loop 0 (take n a) (take n b)"

section \<open>Products by columns\<close>

text \<open>
  The accumulator is the triple \<open>(c0, c1, c2)\<close>. The source rotates the names of its three variables after
  each column; here the triple is shifted. A column is the list of its steps, in the order of the source.
\<close>

type_synonym acc3 = "u64 \<times> u64 \<times> u64"

fun mul_add_c :: "u64 \<Rightarrow> u64 \<Rightarrow> acc3 \<Rightarrow> acc3" where
  "mul_add_c a b (c0, c1, c2) =
     (let t = ucast a * ucast b + ucast c0; c0 = Lw t; hi = Hw t; c1 = c1 + hi
      in (c0, c1, if c1 < hi then c2 + 1 else c2))"

fun mul_add_c2 :: "u64 \<Rightarrow> u64 \<Rightarrow> acc3 \<Rightarrow> acc3" where
  "mul_add_c2 a b (c0, c1, c2) =
     (let t = ucast a * ucast b; tt = t + ucast c0; c0 = Lw tt; hi = Hw tt; c1 = c1 + hi;
          c2 = (if c1 < hi then c2 + 1 else c2);
          t = t + ucast c0; c0 = Lw t; hi = Hw t; c1 = c1 + hi
      in (c0, c1, if c1 < hi then c2 + 1 else c2))"

definition sqr_add_c :: "words \<Rightarrow> nat \<Rightarrow> acc3 \<Rightarrow> acc3" where
  "sqr_add_c a i = mul_add_c (a ! i) (a ! i)"

definition sqr_add_c2 :: "words \<Rightarrow> nat \<Rightarrow> nat \<Rightarrow> acc3 \<Rightarrow> acc3" where
  "sqr_add_c2 a i j = mul_add_c2 (a ! i) (a ! j)"

fun comba :: "(nat \<times> nat \<Rightarrow> acc3 \<Rightarrow> acc3) \<Rightarrow> (nat \<times> nat) list list \<Rightarrow> acc3 \<Rightarrow> words" where
  "comba step [] (c1, c2, c3) = [c1]"
| "comba step (col # cols) c = (case fold step col c of (c1, c2, c3) \<Rightarrow> c1 # comba step cols (c2, c3, 0))"

definition mul_step :: "words \<Rightarrow> words \<Rightarrow> nat \<times> nat \<Rightarrow> acc3 \<Rightarrow> acc3" where
  "mul_step a b = (\<lambda>(i, j). mul_add_c (a ! i) (b ! j))"

text \<open>A square has the steps \<open>(i, i)\<close> of \<open>sqr_add_c\<close> and the steps \<open>(i, j)\<close> of \<open>sqr_add_c2\<close>.\<close>

definition sqr_step :: "words \<Rightarrow> nat \<times> nat \<Rightarrow> acc3 \<Rightarrow> acc3" where
  "sqr_step a = (\<lambda>(i, j). if i = j then sqr_add_c a i else sqr_add_c2 a i j)"

definition mul_columns8 :: "(nat \<times> nat) list list" where
  "mul_columns8 =
    [[(0, 0)],
     [(0, 1), (1, 0)],
     [(2, 0), (1, 1), (0, 2)],
     [(0, 3), (1, 2), (2, 1), (3, 0)],
     [(4, 0), (3, 1), (2, 2), (1, 3), (0, 4)],
     [(0, 5), (1, 4), (2, 3), (3, 2), (4, 1), (5, 0)],
     [(6, 0), (5, 1), (4, 2), (3, 3), (2, 4), (1, 5), (0, 6)],
     [(0, 7), (1, 6), (2, 5), (3, 4), (4, 3), (5, 2), (6, 1), (7, 0)],
     [(7, 1), (6, 2), (5, 3), (4, 4), (3, 5), (2, 6), (1, 7)],
     [(2, 7), (3, 6), (4, 5), (5, 4), (6, 3), (7, 2)],
     [(7, 3), (6, 4), (5, 5), (4, 6), (3, 7)],
     [(4, 7), (5, 6), (6, 5), (7, 4)],
     [(7, 5), (6, 6), (5, 7)],
     [(6, 7), (7, 6)],
     [(7, 7)]]"

definition bn_mul_comba8 :: "words \<Rightarrow> words \<Rightarrow> words" where
  "bn_mul_comba8 a b = comba (mul_step a b) mul_columns8 (0, 0, 0)"

definition mul_columns4 :: "(nat \<times> nat) list list" where
  "mul_columns4 =
    [[(0, 0)],
     [(0, 1), (1, 0)],
     [(2, 0), (1, 1), (0, 2)],
     [(0, 3), (1, 2), (2, 1), (3, 0)],
     [(3, 1), (2, 2), (1, 3)],
     [(2, 3), (3, 2)],
     [(3, 3)]]"

definition bn_mul_comba4 :: "words \<Rightarrow> words \<Rightarrow> words" where
  "bn_mul_comba4 a b = comba (mul_step a b) mul_columns4 (0, 0, 0)"

definition sqr_columns8 :: "(nat \<times> nat) list list" where
  "sqr_columns8 =
    [[(0, 0)],
     [(1, 0)],
     [(1, 1), (2, 0)],
     [(3, 0), (2, 1)],
     [(2, 2), (3, 1), (4, 0)],
     [(5, 0), (4, 1), (3, 2)],
     [(3, 3), (4, 2), (5, 1), (6, 0)],
     [(7, 0), (6, 1), (5, 2), (4, 3)],
     [(4, 4), (5, 3), (6, 2), (7, 1)],
     [(7, 2), (6, 3), (5, 4)],
     [(5, 5), (6, 4), (7, 3)],
     [(7, 4), (6, 5)],
     [(6, 6), (7, 5)],
     [(7, 6)],
     [(7, 7)]]"

definition bn_sqr_comba8 :: "words \<Rightarrow> words" where
  "bn_sqr_comba8 a = comba (sqr_step a) sqr_columns8 (0, 0, 0)"

definition sqr_columns4 :: "(nat \<times> nat) list list" where
  "sqr_columns4 =
    [[(0, 0)],
     [(1, 0)],
     [(1, 1), (2, 0)],
     [(3, 0), (2, 1)],
     [(2, 2), (3, 1)],
     [(3, 2)],
     [(3, 3)]]"

definition bn_sqr_comba4 :: "words \<Rightarrow> words" where
  "bn_sqr_comba4 a = comba (sqr_step a) sqr_columns4 (0, 0, 0)"

section \<open>Selection, comparison and reduction\<close>

definition bn_select_words :: "u64 \<Rightarrow> words \<Rightarrow> words \<Rightarrow> nat \<Rightarrow> words" where
  "bn_select_words msk a b num = map2 (constant_time_select_w msk) (take num a) (take num b)"

definition or_words :: "words \<Rightarrow> u64" where
  "or_words ws = foldl (OR) 0 ws"

definition bn_cmp_words_consttime :: "words \<Rightarrow> nat \<Rightarrow> words \<Rightarrow> nat \<Rightarrow> 32 word" where
  "bn_cmp_words_consttime a a_len b b_len =
     (let m = (if a_len < b_len then a_len else b_len);
          ret = foldl (\<lambda>ret (x, y).
                  constant_time_select_int (constant_time_eq_w x y) ret
                    (constant_time_select_int (constant_time_lt_w x y) (- 1) 1)) 0 (zip (take m a) (take m b))
      in if a_len < b_len then
           constant_time_select_int (constant_time_is_zero_w (or_words (drop a_len (take b_len b)))) ret (- 1)
         else if b_len < a_len then
           constant_time_select_int (constant_time_is_zero_w (or_words (drop b_len (take a_len a)))) ret 1
         else ret)"

definition bn_less_than_words :: "words \<Rightarrow> words \<Rightarrow> nat \<Rightarrow> bool" where
  "bn_less_than_words a b len = (sint (bn_cmp_words_consttime a len b len) < 0)"

text \<open>The words of the result and the mask. The assertions are off in the build.\<close>

definition bn_reduce_once :: "words \<Rightarrow> u64 \<Rightarrow> words \<Rightarrow> nat \<Rightarrow> words \<times> u64" where
  "bn_reduce_once a carry m num =
     (case bn_sub_words a m num of
        (r, borrow) \<Rightarrow> (let carry = carry - borrow in (bn_select_words carry a r num, carry)))"

definition bn_reduce_once_in_place :: "words \<Rightarrow> u64 \<Rightarrow> words \<Rightarrow> nat \<Rightarrow> words \<times> u64" where
  "bn_reduce_once_in_place r carry m num =
     (case bn_sub_words r m num of
        (tmp, borrow) \<Rightarrow> (let carry = carry - borrow in (bn_select_words carry r tmp num, carry)))"

definition bn_mod_sub_words :: "words \<Rightarrow> words \<Rightarrow> words \<Rightarrow> nat \<Rightarrow> words" where
  "bn_mod_sub_words a b m num =
     (case bn_sub_words a b num of
        (r, borrow) \<Rightarrow> (case bn_add_words r m num of (tmp, _) \<Rightarrow> bn_select_words (0 - borrow) tmp r num))"

definition bn_mod_add_words :: "words \<Rightarrow> words \<Rightarrow> words \<Rightarrow> nat \<Rightarrow> words" where
  "bn_mod_add_words a b m num =
     (case bn_add_words a b num of (r, carry) \<Rightarrow> fst (bn_reduce_once_in_place r carry m num))"

section \<open>Shifts\<close>

fun rshift_loop :: "nat \<Rightarrow> words \<Rightarrow> words" where
  "rshift_loop k (x # y # ws) = (drop_bit k x OR push_bit (BN_BITS2 - k) y) # rshift_loop k (y # ws)"
| "rshift_loop k [x] = [drop_bit k x]"
| "rshift_loop k [] = []"

definition bn_rshift_words :: "words \<Rightarrow> nat \<Rightarrow> nat \<Rightarrow> words" where
  "bn_rshift_words a shift num =
     (let shift_bits = shift mod BN_BITS2; shift_words = shift div BN_BITS2
      in if shift_words \<ge> num then replicate num 0
         else
           (if shift_bits = 0 then take (num - shift_words) (drop shift_words a)
            else rshift_loop shift_bits (take (num - shift_words) (drop shift_words a))) @
           replicate shift_words 0)"

definition bn_rshift1_words :: "words \<Rightarrow> nat \<Rightarrow> words" where
  "bn_rshift1_words a num = (if num = 0 then [] else rshift_loop 1 (take num a))"

definition bn_is_bit_set_words :: "words \<Rightarrow> nat \<Rightarrow> nat \<Rightarrow> bool" where
  "bn_is_bit_set_words a num bt =
     (let i = bt div BN_BITS2; j = bt mod BN_BITS2 in i < num \<and> drop_bit j (a ! i) AND 1 \<noteq> 0)"

end
