(* ===== verification/BnMul.thy ===== *)
theory BnMul
  imports BnWords
begin

text \<open>
  \<open>crypto/fipsmodule/bn/mul.c\<close>: multiplication and squaring of word arrays, by schoolbook and by
  Karatsuba. The scratch space \<open>t\<close> of the recursive routines is the sequence of the values that are
  stored in it; a result array \<open>r\<close> is the list of the words stored so far. The assertions, which the
  callers establish, are the hypotheses of the lemmas in \<open>BnMul_Spec\<close>.
\<close>

definition BN_MUL_RECURSIVE_SIZE_NORMAL :: nat where "BN_MUL_RECURSIVE_SIZE_NORMAL = 16"

definition BN_SQR_RECURSIVE_SIZE_NORMAL :: nat where "BN_SQR_RECURSIVE_SIZE_NORMAL = BN_MUL_RECURSIVE_SIZE_NORMAL"

definition bn_abs_sub_words :: "words \<Rightarrow> words \<Rightarrow> nat \<Rightarrow> words" where
  "bn_abs_sub_words a b num =
     (case bn_sub_words a b num of
        (tmp, borrow) \<Rightarrow> (case bn_sub_words b a num of (r, _) \<Rightarrow> bn_select_words (0 - borrow) r tmp num))"

section \<open>Schoolbook multiplication\<close>

text \<open>\<open>i\<close> words of \<open>b\<close> are done; \<open>r\<close> has \<open>na + i\<close> words.\<close>

fun mul_normal_loop :: "words \<Rightarrow> nat \<Rightarrow> words \<Rightarrow> nat \<Rightarrow> words \<Rightarrow> words" where
  "mul_normal_loop a na r i [] = r"
| "mul_normal_loop a na r i (w # b) =
     (case bn_mul_add_words (drop i r) a na w of (s, c) \<Rightarrow> mul_normal_loop a na (take i r @ s @ [c]) (Suc i) b)"

definition bn_mul_normal :: "words \<Rightarrow> nat \<Rightarrow> words \<Rightarrow> nat \<Rightarrow> words" where
  "bn_mul_normal a na b nb =
     (case (if na < nb then (b, nb, a, na) else (a, na, b, nb)) of
        (a, na, b, nb) \<Rightarrow>
          (if nb = 0 then replicate na 0
           else (case bn_mul_words a na (b ! 0) of
                   (r, c) \<Rightarrow> mul_normal_loop a na (r @ [c]) 1 (take (nb - 1) (drop 1 b)))))"

section \<open>Differences of arrays of different sizes\<close>

text \<open>
  The loops of \<open>bn_sub_part_words\<close> over the part that only one array has. Once the borrow is 0, the rest
  of \<open>a\<close> is copied.
\<close>

fun sub_from_0_loop :: "u64 \<Rightarrow> words \<Rightarrow> words \<times> u64" where
  "sub_from_0_loop c [] = ([], c)"
| "sub_from_0_loop c (t # b) =
     (case sub_from_0_loop (if t \<noteq> 0 then 1 else c) b of (r, c') \<Rightarrow> ((0 - t - c) # r, c'))"

fun sub_borrow_loop :: "u64 \<Rightarrow> words \<Rightarrow> words \<times> u64" where
  "sub_borrow_loop c [] = ([], c)"
| "sub_borrow_loop c (t # a) =
     (if c = 0 then (t # a, c)
      else (case sub_borrow_loop (if t \<noteq> 0 then 0 else c) a of (r, c') \<Rightarrow> ((t - c) # r, c')))"

definition bn_sub_part_words :: "words \<Rightarrow> words \<Rightarrow> nat \<Rightarrow> int \<Rightarrow> words \<times> u64" where
  "bn_sub_part_words a b cl dl =
     (case bn_sub_words a b cl of
        (r, c) \<Rightarrow>
          (if dl = 0 then (r, c)
           else if dl < 0
           then (case sub_from_0_loop c (take (nat (- dl)) (drop cl b)) of (r', c) \<Rightarrow> (r @ r', c))
           else (case sub_borrow_loop c (take (nat dl) (drop cl a)) of (r', c) \<Rightarrow> (r @ r', c))))"

definition bn_abs_sub_part_words :: "words \<Rightarrow> words \<Rightarrow> nat \<Rightarrow> int \<Rightarrow> words \<times> u64" where
  "bn_abs_sub_part_words a b cl dl =
     (case bn_sub_part_words a b cl dl of
        (tmp, borrow) \<Rightarrow>
          (case bn_sub_part_words b a cl (- dl) of
             (r, _) \<Rightarrow>
               (let r_len = cl + nat (if dl < 0 then - dl else dl); borrow = 0 - borrow
                in (bn_select_words borrow r tmp r_len, borrow))))"

section \<open>Karatsuba multiplication\<close>

fun propagate :: "u64 \<Rightarrow> words \<Rightarrow> words \<times> u64" where
  "propagate c [] = ([], c)"
| "propagate c (old # r) = (case propagate (of_bool (old + c < old)) r of (r', c') \<Rightarrow> ((old + c) # r', c'))"

text \<open>
  The common end of the two recursive multiplications: \<open>r\<close> holds \<open>a0 b0\<close> and \<open>a1 b1\<close>, \<open>t23\<close> the absolute
  value of the product of the differences and \<open>neg\<close> the mask of its sign.
\<close>

definition karatsuba_sum :: "nat \<Rightarrow> words \<Rightarrow> words \<Rightarrow> u64 \<Rightarrow> words" where
  "karatsuba_sum n r t23 neg =
     (let n2 = 2 * n;
          (t01, c) = bn_add_words r (drop n2 r) n2;
          (t_neg, borrow) = bn_sub_words t01 t23 n2;
          c_neg = c - borrow;
          (t_pos, carry) = bn_add_words t01 t23 n2;
          c_pos = c + carry;
          t23 = bn_select_words neg t_neg t_pos n2;
          c = constant_time_select_w neg c_neg c_pos;
          (r12, carry) = bn_add_words (drop n r) t23 n2;
          c = c + carry
      in take n r @ r12 @ fst (propagate c (drop (n + n2) r)))"

function bn_mul_recursive :: "words \<Rightarrow> words \<Rightarrow> nat \<Rightarrow> int \<Rightarrow> int \<Rightarrow> words" where
  "bn_mul_recursive a b n2 dna dnb =
     (if n2 = 8 \<and> dna = 0 \<and> dnb = 0 then bn_mul_comba8 (take 8 a) (take 8 b)
      else if n2 < BN_MUL_RECURSIVE_SIZE_NORMAL
      then bn_mul_normal a (nat (int n2 + dna)) b (nat (int n2 + dnb)) @ replicate (nat (- (dna + dnb))) 0
      else
        (let n = n2 div 2; tna = int n + dna; tnb = int n + dnb;
             (t0, neg_a) = bn_abs_sub_part_words (take n a) (drop n a) (nat tna) (int n - tna);
             (t1, neg_b) = bn_abs_sub_part_words (drop n b) (take n b) (nat tnb) (tnb - int n);
             neg = neg_a XOR neg_b;
             (t23, r01, r23) =
               (if n = 4 \<and> dna = 0 \<and> dnb = 0
                then (bn_mul_comba4 t0 t1, bn_mul_comba4 (take n a) (take n b), bn_mul_comba4 (drop n a) (drop n b))
                else if n = 8 \<and> dna = 0 \<and> dnb = 0
                then (bn_mul_comba8 t0 t1, bn_mul_comba8 (take n a) (take n b), bn_mul_comba8 (drop n a) (drop n b))
                else (bn_mul_recursive t0 t1 n 0 0, bn_mul_recursive (take n a) (take n b) n 0 0,
                      bn_mul_recursive (drop n a) (drop n b) n dna dnb))
         in karatsuba_sum n (r01 @ r23) t23 neg))"
  by pat_completeness auto
termination
  by (relation "measure (\<lambda>(_, _, n2, _, _). n2)") (auto simp: BN_MUL_RECURSIVE_SIZE_NORMAL_def)

text \<open>\<open>memset\<close> of \<open>k\<close> bytes of an array of words.\<close>

fun zero_bytes :: "nat \<Rightarrow> words \<Rightarrow> words" where
  "zero_bytes k [] = []"
| "zero_bytes k (w # ws) = (if 8 \<le> k then 0 # zero_bytes (k - 8) ws else (w AND NOT (mask (8 * k))) # ws)"

text \<open>The size \<open>i\<close> at which the loop of \<open>bn_mul_part_recursive\<close> over the powers of two stops.\<close>

function lower_half :: "nat \<Rightarrow> nat \<Rightarrow> nat \<Rightarrow> nat" where
  "lower_half i tna tnb =
     (let i = i div 2 in if i < tna \<or> i < tnb then i else if i = tna \<or> i = tnb then i else lower_half i tna tnb)"
  by pat_completeness auto
termination by (relation "measure (\<lambda>(i, _, _). i)") auto

declare bn_mul_recursive.simps [simp del] lower_half.simps [simp del]

lemma lower_half_le: "lower_half i tna tnb \<le> i div 2"
proof (induction i tna tnb rule: lower_half.induct)
  case (1 i tna tnb)
  then show ?case by (subst lower_half.simps) (auto simp: Let_def intro: order_trans)
qed

text \<open>\<open>r\<close> is what the array holds before the call.\<close>

function bn_mul_part_recursive :: "words \<Rightarrow> words \<Rightarrow> words \<Rightarrow> nat \<Rightarrow> nat \<Rightarrow> nat \<Rightarrow> words" where
  "bn_mul_part_recursive r a b n tna tnb =
     (let n2 = n * 2
      in if n < 8
         then
           (let r = mem_write r 0 (bn_mul_normal a (n + tna) b (n + tnb))
            in take (n2 + tna + tnb) r @ zero_bytes (n2 - tna - tnb) (drop (n2 + tna + tnb) r))
         else
           (let (t0, neg_a) = bn_abs_sub_part_words (take n a) (drop n a) tna (int n - int tna);
                (t1, neg_b) = bn_abs_sub_part_words (drop n b) (take n b) tnb (int tnb - int n);
                neg = neg_a XOR neg_b;
                (t23, r01, r23) =
                  (if n = 8
                   then (bn_mul_comba8 t0 t1, bn_mul_comba8 (take n a) (take n b),
                         bn_mul_normal (drop n a) tna (drop n b) tnb @ replicate (n2 - tna - tnb) 0)
                   else
                     (let z = replicate n2 0
                      in (bn_mul_recursive t0 t1 n 0 0, bn_mul_recursive (take n a) (take n b) n 0 0,
                          if tna < BN_MUL_RECURSIVE_SIZE_NORMAL \<and> tnb < BN_MUL_RECURSIVE_SIZE_NORMAL
                          then mem_write z 0 (bn_mul_normal (drop n a) tna (drop n b) tnb)
                          else
                            (let i = lower_half n tna tnb
                             in if i < tna \<or> i < tnb
                                then mem_write z 0 (bn_mul_part_recursive (take (4 * i) z) (drop n a) (drop n b) i (tna - i) (tnb - i))
                                else mem_write z 0 (bn_mul_recursive (drop n a) (drop n b) i (int tna - int i) (int tnb - int i))))))
            in karatsuba_sum n (r01 @ r23) t23 neg))"
  by pat_completeness auto
termination
proof (relation "measure (\<lambda>(_, _, _, n, _, _). n)", goal_cases)
  case (2 r a b n tna tnb)
  then show ?case using lower_half_le [of n tna tnb] by simp
qed simp

declare bn_mul_part_recursive.simps [simp del]

section \<open>Squaring\<close>

text \<open>The products of different words; \<open>r\<close> holds the words stored so far.\<close>

fun sqr_cross :: "words \<Rightarrow> nat \<Rightarrow> words \<Rightarrow> words" where
  "sqr_cross r pos [] = r"
| "sqr_cross r pos [w] = r"
| "sqr_cross r pos (w # ap) =
     (case bn_mul_add_words (drop pos r) ap (length ap) w of (s, c) \<Rightarrow> sqr_cross (take pos r @ s @ [c]) (pos + 2) ap)"

definition bn_sqr_normal :: "words \<Rightarrow> nat \<Rightarrow> words" where
  "bn_sqr_normal a n =
     (if n = 0 then []
      else
        (let mx = n * 2;
             r = (if n > 1
                  then (case bn_mul_words (drop 1 a) (n - 1) (a ! 0) of (s, c) \<Rightarrow> sqr_cross (0 # s @ [c]) 3 (take (n - 1) (drop 1 a)))
                  else [0]) @ [0];
             (r, _) = bn_add_words r r mx;
             tmp = bn_sqr_words a n;
             (r, _) = bn_add_words r tmp mx
         in r))"

function bn_sqr_recursive :: "words \<Rightarrow> nat \<Rightarrow> words" where
  "bn_sqr_recursive a n2 =
     (if n2 = 4 then bn_sqr_comba4 (take 4 a)
      else if n2 = 8 then bn_sqr_comba8 (take 8 a)
      else if n2 < BN_SQR_RECURSIVE_SIZE_NORMAL then bn_sqr_normal a n2
      else
        (let n = n2 div 2;
             t0 = bn_abs_sub_words a (drop n a) n;
             t23 = bn_sqr_recursive t0 n;
             r = bn_sqr_recursive (take n a) n @ bn_sqr_recursive (drop n a) n;
             (t01, c) = bn_add_words r (drop n2 r) n2;
             (t23, borrow) = bn_sub_words t01 t23 n2;
             c = c - borrow;
             (r12, carry) = bn_add_words (drop n r) t23 n2;
             c = c + carry
         in take n r @ r12 @ fst (propagate c (drop (n + n2) r))))"
  by pat_completeness auto
termination
  by (relation "measure snd") (auto simp: BN_SQR_RECURSIVE_SIZE_NORMAL_def BN_MUL_RECURSIVE_SIZE_NORMAL_def)

declare bn_sqr_recursive.simps [simp del]

section \<open>Small numbers\<close>

definition BN_SMALL_MAX_WORDS :: nat where "BN_SMALL_MAX_WORDS = 9"

text \<open>\<open>None\<close> is \<open>abort\<close>.\<close>

definition bn_mul_small :: "nat \<Rightarrow> words \<Rightarrow> nat \<Rightarrow> words \<Rightarrow> nat \<Rightarrow> words option" where
  "bn_mul_small num_r a num_a b num_b =
     (if num_r \<noteq> num_a + num_b then None
      else Some (if num_a = 8 \<and> num_b = 8 then bn_mul_comba8 (take 8 a) (take 8 b) else bn_mul_normal a num_a b num_b))"

definition bn_sqr_small :: "nat \<Rightarrow> words \<Rightarrow> nat \<Rightarrow> words option" where
  "bn_sqr_small num_r a num_a =
     (if num_r \<noteq> 2 * num_a \<or> num_a > BN_SMALL_MAX_WORDS then None
      else Some (if num_a = 4 then bn_sqr_comba4 (take 4 a) else if num_a = 8 then bn_sqr_comba8 (take 8 a)
                 else bn_sqr_normal a num_a))"

end
