(* ===== verification/Bn.thy ===== *)
theory Bn
  imports Mem BnMul
begin

text \<open>
  Big numbers, \<open>BIGNUM\<close>: \<open>bn.c\<close>, \<open>cmp.c\<close>, \<open>add.c\<close> and \<open>shift.c\<close> of \<open>crypto/fipsmodule/bn\<close>. The array \<open>d\<close> is
  the list of its \<open>dmax\<close> words, and \<open>NULL\<close> is the empty one; the number is the first \<open>width\<close> of them, with
  a sign of its own.

  Operands are passed by value. Where the result of an operation is the same object as an operand, the
  code has read each word of the operand before it stores over it, and an expansion keeps the words, so
  that the value computed is the same. A function returns its \<open>int\<close> as a \<open>bool\<close> and the result object,
  also where it fails. The lemmas are in \<open>Bn_Spec\<close>.
\<close>

unbundle bit_operations_syntax

section \<open>The state\<close>

record bignum =
  bn_d :: words
  bn_width :: nat
  bn_dmax :: nat
  bn_neg :: bool
  bn_flags :: u32

definition BN_FLG_MALLOCED :: u32 where "BN_FLG_MALLOCED = 0x01"

definition BN_FLG_STATIC_DATA :: u32 where "BN_FLG_STATIC_DATA = 0x02"

definition BN_BYTES :: nat where "BN_BYTES = 8"

definition BN_MASK2 :: u64 where "BN_MASK2 = 0xffffffffffffffff"

definition SIZEOF_BIGNUM :: nat where "SIZEOF_BIGNUM = 24"

text \<open>Arrays of words in memory; the targets are little-endian.\<close>

definition words_of_bytes :: "bytes \<Rightarrow> words" where
  "words_of_bytes bs = map (\<lambda>i. word_of_nat (le_val (take BN_BYTES (drop (BN_BYTES * i) bs)))) [0 ..< length bs div BN_BYTES]"

definition bytes_of_words :: "words \<Rightarrow> bytes" where
  "bytes_of_words ws = concat (map (\<lambda>w. le_bytes BN_BYTES (unat w)) ws)"

definition words_malloc :: "libc_malloc \<Rightarrow> nat \<Rightarrow> words option" where
  "words_malloc libc n = map_option words_of_bytes (heap_malloc libc (size_mul BN_BYTES n))"

text \<open>The words that count.\<close>

definition bn_words :: "bignum \<Rightarrow> words" where
  "bn_words bn = take (bn_width bn) (bn_d bn)"

section \<open>Allocation and copies\<close>

definition BN_init :: bignum where
  "BN_init = \<lparr>bn_d = [], bn_width = 0, bn_dmax = 0, bn_neg = False, bn_flags = 0\<rparr>"

definition BN_new :: "libc_malloc \<Rightarrow> bignum option" where
  "BN_new libc =
     (case heap_malloc libc SIZEOF_BIGNUM of
        None \<Rightarrow> None
      | Some _ \<Rightarrow> Some \<lparr>bn_d = [], bn_width = 0, bn_dmax = 0, bn_neg = False, bn_flags = BN_FLG_MALLOCED\<rparr>)"

definition bn_wexpand :: "libc_malloc \<Rightarrow> bignum \<Rightarrow> nat \<Rightarrow> bool \<times> bignum" where
  "bn_wexpand libc bn wds =
     (if wds \<le> bn_dmax bn then (True, bn)
      else if wds > INT_MAX div (4 * BN_BITS2) then (False, bn)
      else if bn_flags bn AND BN_FLG_STATIC_DATA \<noteq> 0 then (False, bn)
      else (case words_malloc libc wds of
              None \<Rightarrow> (False, bn)
            | Some a \<Rightarrow> (True, bn\<lparr>bn_d := mem_write a 0 (bn_words bn), bn_dmax := wds\<rparr>)))"

definition bn_expand :: "libc_malloc \<Rightarrow> bignum \<Rightarrow> nat \<Rightarrow> bool \<times> bignum" where
  "bn_expand libc bn bits =
     (if size_add bits (BN_BITS2 - 1) < bits then (False, bn)
      else bn_wexpand libc bn (size_add bits (BN_BITS2 - 1) div BN_BITS2))"

definition BN_copy :: "libc_malloc \<Rightarrow> bignum \<Rightarrow> bignum \<Rightarrow> bool \<times> bignum" where
  "BN_copy libc dest src =
     (case bn_wexpand libc dest (bn_width src) of
        (False, dest) \<Rightarrow> (False, dest)
      | (True, dest) \<Rightarrow>
          (True, dest\<lparr>bn_d := mem_write (bn_d dest) 0 (bn_words src), bn_width := bn_width src, bn_neg := bn_neg src\<rparr>))"

definition BN_dup :: "libc_malloc \<Rightarrow> bignum option \<Rightarrow> bignum option" where
  "BN_dup libc src =
     (case src of
        None \<Rightarrow> None
      | Some src \<Rightarrow>
          (case BN_new libc of
             None \<Rightarrow> None
           | Some copy \<Rightarrow> (case BN_copy libc copy src of (False, _) \<Rightarrow> None | (True, copy) \<Rightarrow> Some copy)))"

definition BN_clear :: "bignum \<Rightarrow> bignum" where
  "BN_clear bn = bn\<lparr>bn_d := replicate (bn_dmax bn) 0, bn_width := 0, bn_neg := False\<rparr>"

definition BN_value_one :: bignum where
  "BN_value_one = \<lparr>bn_d = [1], bn_width = 1, bn_dmax = 1, bn_neg = False, bn_flags = BN_FLG_STATIC_DATA\<rparr>"

definition BN_zero :: "bignum \<Rightarrow> bignum" where
  "BN_zero bn = bn\<lparr>bn_width := 0, bn_neg := False\<rparr>"

definition BN_set_word :: "libc_malloc \<Rightarrow> bignum \<Rightarrow> u64 \<Rightarrow> bool \<times> bignum" where
  "BN_set_word libc bn v =
     (if v = 0 then (True, BN_zero bn)
      else (case bn_wexpand libc bn 1 of
              (False, bn) \<Rightarrow> (False, bn)
            | (True, bn) \<Rightarrow> (True, bn\<lparr>bn_neg := False, bn_d := (bn_d bn)[0 := v], bn_width := 1\<rparr>)))"

definition BN_one :: "libc_malloc \<Rightarrow> bignum \<Rightarrow> bool \<times> bignum" where
  "BN_one libc bn = BN_set_word libc bn 1"

definition BN_set_u64 :: "libc_malloc \<Rightarrow> bignum \<Rightarrow> u64 \<Rightarrow> bool \<times> bignum" where
  "BN_set_u64 libc bn v = BN_set_word libc bn v"

definition bn_set_words :: "libc_malloc \<Rightarrow> bignum \<Rightarrow> words \<Rightarrow> nat \<Rightarrow> bool \<times> bignum" where
  "bn_set_words libc bn ws num =
     (case bn_wexpand libc bn num of
        (False, bn) \<Rightarrow> (False, bn)
      | (True, bn) \<Rightarrow> (True, bn\<lparr>bn_d := mem_write (bn_d bn) 0 (take num ws), bn_width := num, bn_neg := False\<rparr>))"

definition bn_fits_in_words :: "bignum \<Rightarrow> nat \<Rightarrow> bool" where
  "bn_fits_in_words bn num = (or_words (drop num (bn_words bn)) = 0)"

text \<open>The words written to \<open>out\<close>.\<close>

definition bn_copy_words :: "nat \<Rightarrow> bignum \<Rightarrow> words option" where
  "bn_copy_words num bn =
     (if bn_neg bn then None
      else if bn_width bn > num
      then (if \<not> bn_fits_in_words bn num then None else Some (mem_write (replicate num 0) 0 (take num (bn_words bn))))
      else Some (mem_write (replicate num 0) 0 (bn_words bn)))"

definition bn_resize_words :: "libc_malloc \<Rightarrow> bignum \<Rightarrow> nat \<Rightarrow> bool \<times> bignum" where
  "bn_resize_words libc bn wds =
     (if bn_width bn \<le> wds
      then (case bn_wexpand libc bn wds of
              (False, bn) \<Rightarrow> (False, bn)
            | (True, bn) \<Rightarrow>
                (True, bn\<lparr>bn_d := mem_write (bn_d bn) (bn_width bn) (replicate (wds - bn_width bn) 0), bn_width := wds\<rparr>))
      else if \<not> bn_fits_in_words bn wds then (False, bn)
      else (True, bn\<lparr>bn_width := wds\<rparr>))"

section \<open>Sizes and signs\<close>

text \<open>One of the blocks of \<open>BN_num_bits_word\<close>: the count so far and what is left to count.\<close>

definition num_bits_block :: "nat \<Rightarrow> u32 \<times> u64 \<Rightarrow> u32 \<times> u64" where
  "num_bits_block k = (\<lambda>(bits, l).
     (let x = drop_bit k l;
          msk = 0 - x;
          msk = 0 - drop_bit (BN_BITS2 - 1) msk
      in (bits + ucast (word_of_nat k AND msk), l XOR ((x XOR l) AND msk))))"

definition BN_num_bits_word :: "u64 \<Rightarrow> u32" where
  "BN_num_bits_word l =
     fst (num_bits_block 1 (num_bits_block 2 (num_bits_block 4 (num_bits_block 8 (num_bits_block 16 (num_bits_block 32
       (of_bool (l \<noteq> 0), l)))))))"

fun minimal_width :: "words \<Rightarrow> nat \<Rightarrow> nat" where
  "minimal_width d 0 = 0"
| "minimal_width d (Suc ret) = (if d ! ret = 0 then minimal_width d ret else Suc ret)"

definition bn_minimal_width :: "bignum \<Rightarrow> nat" where
  "bn_minimal_width bn = minimal_width (bn_d bn) (bn_width bn)"

definition bn_set_minimal_width :: "bignum \<Rightarrow> bignum" where
  "bn_set_minimal_width bn =
     (let w = bn_minimal_width bn in if w = 0 then bn\<lparr>bn_width := w, bn_neg := False\<rparr> else bn\<lparr>bn_width := w\<rparr>)"

definition BN_num_bits :: "bignum \<Rightarrow> nat" where
  "BN_num_bits bn =
     (let width = bn_minimal_width bn
      in if width = 0 then 0 else (width - 1) * BN_BITS2 + unat (BN_num_bits_word (bn_d bn ! (width - 1))))"

definition BN_num_bytes :: "bignum \<Rightarrow> nat" where
  "BN_num_bytes bn = (BN_num_bits bn + 7) div 8"

definition BN_is_negative :: "bignum \<Rightarrow> bool" where
  "BN_is_negative bn = bn_neg bn"

section \<open>Comparison\<close>

definition BN_ucmp :: "bignum \<Rightarrow> bignum \<Rightarrow> 32 word" where
  "BN_ucmp a b = bn_cmp_words_consttime (bn_d a) (bn_width a) (bn_d b) (bn_width b)"

definition BN_cmp :: "bignum option \<Rightarrow> bignum option \<Rightarrow> 32 word" where
  "BN_cmp a b =
     (case (a, b) of
        (Some _, None) \<Rightarrow> - 1
      | (None, Some _) \<Rightarrow> 1
      | (None, None) \<Rightarrow> 0
      | (Some a, Some b) \<Rightarrow>
          (if bn_neg a \<noteq> bn_neg b then (if bn_neg a then - 1 else 1)
           else (let ret = BN_ucmp a b in if bn_neg a then - ret else ret)))"

definition BN_abs_is_word :: "bignum \<Rightarrow> u64 \<Rightarrow> bool" where
  "BN_abs_is_word bn w =
     (if bn_width bn = 0 then w = 0 else foldl (OR) (bn_d bn ! 0 XOR w) (drop 1 (bn_words bn)) = 0)"

definition BN_cmp_word :: "bignum \<Rightarrow> u64 \<Rightarrow> 32 word" where
  "BN_cmp_word a b =
     BN_cmp (Some a) (Some \<lparr>bn_d = [b], bn_width = of_bool (b > 0), bn_dmax = 1, bn_neg = False, bn_flags = BN_FLG_STATIC_DATA\<rparr>)"

definition BN_is_zero :: "bignum \<Rightarrow> bool" where
  "BN_is_zero bn = bn_fits_in_words bn 0"

definition BN_is_one :: "bignum \<Rightarrow> bool" where
  "BN_is_one bn \<longleftrightarrow> \<not> bn_neg bn \<and> BN_abs_is_word bn 1"

definition BN_is_word :: "bignum \<Rightarrow> u64 \<Rightarrow> bool" where
  "BN_is_word bn w \<longleftrightarrow> BN_abs_is_word bn w \<and> (w = 0 \<or> \<not> bn_neg bn)"

definition BN_is_odd :: "bignum \<Rightarrow> bool" where
  "BN_is_odd bn \<longleftrightarrow> bn_width bn > 0 \<and> bn_d bn ! 0 AND 1 = 1"

definition BN_is_pow2 :: "bignum \<Rightarrow> bool" where
  "BN_is_pow2 bn =
     (let width = bn_minimal_width bn
      in if width = 0 \<or> bn_neg bn then False
         else if \<exists>w \<in> set (take (width - 1) (bn_d bn)). w \<noteq> 0 then False
         else bn_d bn ! (width - 1) AND (bn_d bn ! (width - 1) - 1) = 0)"

definition BN_equal_consttime :: "bignum \<Rightarrow> bignum \<Rightarrow> bool" where
  "BN_equal_consttime a b =
     (let msk = or_words (drop (bn_width a) (bn_words b));
          msk = foldl (OR) msk (drop (bn_width b) (bn_words a));
          mn = (if bn_width a < bn_width b then bn_width a else bn_width b);
          msk = foldl (OR) msk (map2 (XOR) (take mn (bn_d a)) (take mn (bn_d b)));
          msk = msk OR of_bool (bn_neg a \<noteq> bn_neg b)
      in msk = 0)"

definition BN_set_negative :: "bignum \<Rightarrow> int \<Rightarrow> bignum" where
  "BN_set_negative bn sign = (if sign \<noteq> 0 \<and> \<not> BN_is_zero bn then bn\<lparr>bn_neg := True\<rparr> else bn\<lparr>bn_neg := False\<rparr>)"

section \<open>Addition and subtraction\<close>

fun carry_loop :: "u64 \<Rightarrow> words \<Rightarrow> words \<times> u64" where
  "carry_loop carry [] = ([], carry)"
| "carry_loop carry (x # xs) =
     (let tmp = carry + x in case carry_loop (of_bool (tmp < x)) xs of (r, carry) \<Rightarrow> (tmp # r, carry))"

definition bn_uadd_consttime :: "libc_malloc \<Rightarrow> bignum \<Rightarrow> bignum \<Rightarrow> bignum \<Rightarrow> bool \<times> bignum" where
  "bn_uadd_consttime libc r a b =
     (case (if bn_width a < bn_width b then (b, a) else (a, b)) of
        (a, b) \<Rightarrow>
          (let mx = bn_width a; mn = bn_width b
           in case bn_wexpand libc r (mx + 1) of
                (False, r) \<Rightarrow> (False, r)
              | (True, r) \<Rightarrow>
                  (case bn_add_words (bn_d a) (bn_d b) mn of
                     (lo, carry) \<Rightarrow>
                       (case carry_loop carry (drop mn (bn_words a)) of
                          (hi, carry) \<Rightarrow>
                            (True, r\<lparr>bn_width := mx + 1, bn_d := mem_write (bn_d r) 0 (lo @ hi @ [carry])\<rparr>)))))"

definition BN_uadd :: "libc_malloc \<Rightarrow> bignum \<Rightarrow> bignum \<Rightarrow> bignum \<Rightarrow> bool \<times> bignum" where
  "BN_uadd libc r a b =
     (case bn_uadd_consttime libc r a b of (False, r) \<Rightarrow> (False, r) | (True, r) \<Rightarrow> (True, bn_set_minimal_width r))"

fun borrow_loop :: "u64 \<Rightarrow> words \<Rightarrow> words \<times> u64" where
  "borrow_loop borrow [] = ([], borrow)"
| "borrow_loop borrow (x # xs) =
     (let y = x - borrow in case borrow_loop (of_bool (x < y)) xs of (r, borrow) \<Rightarrow> (y # r, borrow))"

definition bn_usub_consttime :: "libc_malloc \<Rightarrow> bignum \<Rightarrow> bignum \<Rightarrow> bignum \<Rightarrow> bool \<times> bignum" where
  "bn_usub_consttime libc r a b =
     (if bn_width b > bn_width a \<and> \<not> bn_fits_in_words b (bn_width a) then (False, r)
      else
        (let b_width = (if bn_width b > bn_width a then bn_width a else bn_width b)
         in case bn_wexpand libc r (bn_width a) of
              (False, r) \<Rightarrow> (False, r)
            | (True, r) \<Rightarrow>
                (case bn_sub_words (bn_d a) (bn_d b) b_width of
                   (lo, borrow) \<Rightarrow>
                     (case borrow_loop borrow (drop b_width (bn_words a)) of
                        (hi, borrow) \<Rightarrow>
                          (let r = r\<lparr>bn_d := mem_write (bn_d r) 0 (lo @ hi)\<rparr>
                           in if borrow \<noteq> 0 then (False, r) else (True, r\<lparr>bn_width := bn_width a, bn_neg := False\<rparr>))))))"

definition BN_usub :: "libc_malloc \<Rightarrow> bignum \<Rightarrow> bignum \<Rightarrow> bignum \<Rightarrow> bool \<times> bignum" where
  "BN_usub libc r a b =
     (case bn_usub_consttime libc r a b of (False, r) \<Rightarrow> (False, r) | (True, r) \<Rightarrow> (True, bn_set_minimal_width r))"

definition BN_add :: "libc_malloc \<Rightarrow> bignum \<Rightarrow> bignum \<Rightarrow> bignum \<Rightarrow> bool \<times> bignum" where
  "BN_add libc r a b =
     (let a_neg = bn_neg a
      in if a_neg \<noteq> bn_neg b
         then (case (if a_neg then (b, a) else (a, b)) of
                 (a, b) \<Rightarrow>
                   (if sint (BN_ucmp a b) < 0
                    then (case BN_usub libc r b a of (False, r) \<Rightarrow> (False, r) | (True, r) \<Rightarrow> (True, r\<lparr>bn_neg := True\<rparr>))
                    else (case BN_usub libc r a b of (False, r) \<Rightarrow> (False, r) | (True, r) \<Rightarrow> (True, r\<lparr>bn_neg := False\<rparr>))))
         else (case BN_uadd libc r a b of (ret, r) \<Rightarrow> (ret, r\<lparr>bn_neg := a_neg\<rparr>)))"

definition BN_sub :: "libc_malloc \<Rightarrow> bignum \<Rightarrow> bignum \<Rightarrow> bignum \<Rightarrow> bool \<times> bignum" where
  "BN_sub libc r a b =
     (case (if bn_neg a then (if bn_neg b then (b, a, False, False) else (a, b, True, True))
            else (a, b, bn_neg b, False)) of
        (a, b, add, neg) \<Rightarrow>
          (if add
           then (case BN_uadd libc r a b of (False, r) \<Rightarrow> (False, r) | (True, r) \<Rightarrow> (True, r\<lparr>bn_neg := neg\<rparr>))
           else if sint (BN_ucmp a b) < 0
           then (case BN_usub libc r b a of (False, r) \<Rightarrow> (False, r) | (True, r) \<Rightarrow> (True, r\<lparr>bn_neg := True\<rparr>))
           else (case BN_usub libc r a b of (False, r) \<Rightarrow> (False, r) | (True, r) \<Rightarrow> (True, r\<lparr>bn_neg := False\<rparr>))))"

text \<open>
  Adding and subtracting a word. The loop of the subtraction has no bound of its own: \<open>None\<close> is an access
  beyond the array.
\<close>

fun add_word_loop :: "words \<Rightarrow> u64 \<Rightarrow> words \<times> u64" where
  "add_word_loop [] w = ([], w)"
| "add_word_loop (x # xs) w =
     (if w = 0 then (x # xs, w)
      else (let l = x + w in case add_word_loop xs (if w > l then 1 else 0) of (ys, w) \<Rightarrow> (l # ys, w)))"

fun sub_word_loop :: "words \<Rightarrow> u64 \<Rightarrow> (words \<times> nat) option" where
  "sub_word_loop [] w = None"
| "sub_word_loop (x # xs) w =
     (if x \<ge> w then Some ((x - w) # xs, 0)
      else (case sub_word_loop xs 1 of None \<Rightarrow> None | Some (ys, i) \<Rightarrow> Some ((x - w) # ys, Suc i)))"

function (sequential) BN_add_word :: "libc_malloc \<Rightarrow> bignum \<Rightarrow> u64 \<Rightarrow> (bool \<times> bignum) option"
  and BN_sub_word :: "libc_malloc \<Rightarrow> bignum \<Rightarrow> u64 \<Rightarrow> (bool \<times> bignum) option" where
  "BN_add_word libc a w =
     (if w = 0 then Some (True, a)
      else if BN_is_zero a then Some (BN_set_word libc a w)
      else if bn_neg a
      then (case BN_sub_word libc (a\<lparr>bn_neg := False\<rparr>) w of
              None \<Rightarrow> None
            | Some (i, a) \<Rightarrow> Some (i, if \<not> BN_is_zero a then a\<lparr>bn_neg := \<not> bn_neg a\<rparr> else a))
      else
        (case add_word_loop (bn_words a) w of
           (ws, w) \<Rightarrow>
             (let a = a\<lparr>bn_d := mem_write (bn_d a) 0 ws\<rparr>
              in if w \<noteq> 0
                 then (case bn_wexpand libc a (bn_width a + 1) of
                         (False, a) \<Rightarrow> Some (False, a)
                       | (True, a) \<Rightarrow> Some (True, a\<lparr>bn_d := (bn_d a)[bn_width a := w], bn_width := bn_width a + 1\<rparr>))
                 else Some (True, a))))"
| "BN_sub_word libc a w =
     (if w = 0 then Some (True, a)
      else if BN_is_zero a
      then (case BN_set_word libc a w of (i, a) \<Rightarrow> Some (i, if i then BN_set_negative a 1 else a))
      else if bn_neg a
      then (case BN_add_word libc (a\<lparr>bn_neg := False\<rparr>) w of
              None \<Rightarrow> None
            | Some (i, a) \<Rightarrow> Some (i, a\<lparr>bn_neg := True\<rparr>))
      else if bn_minimal_width a = 1 \<and> bn_d a ! 0 < w
      then Some (True, a\<lparr>bn_d := (bn_d a)[0 := w - bn_d a ! 0], bn_neg := True\<rparr>)
      else
        (case sub_word_loop (bn_d a) w of
           None \<Rightarrow> None
         | Some (ws, i) \<Rightarrow>
             Some (True, if ws ! i = 0 \<and> i = bn_width a - 1 then a\<lparr>bn_d := ws, bn_width := bn_width a - 1\<rparr>
                         else a\<lparr>bn_d := ws\<rparr>)))"
  by pat_completeness auto
termination
  by (relation "measure (\<lambda>x. case x of Inl (_, a, _) \<Rightarrow> of_bool (bn_neg a) | Inr (_, a, _) \<Rightarrow> of_bool (bn_neg a))") auto

declare BN_add_word.simps [simp del] BN_sub_word.simps [simp del]

section \<open>Shifts and bits\<close>

text \<open>The loops of \<open>BN_lshift\<close>, from the most significant word down; \<open>t\<close> is the result array.\<close>

fun lshift_copy_loop :: "nat \<Rightarrow> words \<Rightarrow> nat \<Rightarrow> words \<Rightarrow> words" where
  "lshift_copy_loop nw f 0 t = t"
| "lshift_copy_loop nw f (Suc i) t = lshift_copy_loop nw f i (t[nw + i := f ! i])"

fun lshift_loop :: "nat \<Rightarrow> nat \<Rightarrow> words \<Rightarrow> nat \<Rightarrow> words \<Rightarrow> words" where
  "lshift_loop lb nw f 0 t = t"
| "lshift_loop lb nw f (Suc i) t =
     (let l = f ! i;
          t = t[nw + i + 1 := t ! (nw + i + 1) OR drop_bit (BN_BITS2 - lb) l];
          t = t[nw + i := push_bit lb l]
      in lshift_loop lb nw f i t)"

definition BN_lshift :: "libc_malloc \<Rightarrow> bignum \<Rightarrow> bignum \<Rightarrow> int \<Rightarrow> bool \<times> bignum" where
  "BN_lshift libc r a n =
     (if n < 0 then (False, r)
      else
        (let r = r\<lparr>bn_neg := bn_neg a\<rparr>; nw = nat n div BN_BITS2
         in case bn_wexpand libc r (bn_width a + nw + 1) of
              (False, r) \<Rightarrow> (False, r)
            | (True, r) \<Rightarrow>
                (let lb = nat n mod BN_BITS2;
                     t = (bn_d r)[bn_width a + nw := 0];
                     t = (if lb = 0 then lshift_copy_loop nw (bn_d a) (bn_width a) t else lshift_loop lb nw (bn_d a) (bn_width a) t);
                     t = mem_write t 0 (replicate nw 0)
                 in (True, bn_set_minimal_width (r\<lparr>bn_d := t, bn_width := bn_width a + nw + 1\<rparr>)))))"

fun lshift1_loop :: "u64 \<Rightarrow> words \<Rightarrow> words \<times> u64" where
  "lshift1_loop c [] = ([], c)"
| "lshift1_loop c (t # ap) = (case lshift1_loop (drop_bit (BN_BITS2 - 1) t) ap of (r, c') \<Rightarrow> ((push_bit 1 t OR c) # r, c'))"

definition BN_lshift1 :: "libc_malloc \<Rightarrow> bignum \<Rightarrow> bignum \<Rightarrow> bool \<times> bignum" where
  "BN_lshift1 libc r a =
     (case bn_wexpand libc (r\<lparr>bn_neg := bn_neg a\<rparr>) (bn_width a + 1) of
        (False, r) \<Rightarrow> (False, r)
      | (True, r) \<Rightarrow>
          (case lshift1_loop 0 (bn_words a) of
             (ws, c) \<Rightarrow>
               (let d = mem_write (bn_d r) 0 ws
                in (True, if c \<noteq> 0 then r\<lparr>bn_d := d[bn_width a := 1], bn_width := bn_width a + 1\<rparr>
                          else r\<lparr>bn_d := d, bn_width := bn_width a\<rparr>))))"

definition BN_rshift :: "libc_malloc \<Rightarrow> bignum \<Rightarrow> bignum \<Rightarrow> int \<Rightarrow> bool \<times> bignum" where
  "BN_rshift libc r a n =
     (if n < 0 then (False, r)
      else
        (case bn_wexpand libc r (bn_width a) of
           (False, r) \<Rightarrow> (False, r)
         | (True, r) \<Rightarrow>
             (True, bn_set_minimal_width
                (r\<lparr>bn_d := mem_write (bn_d r) 0 (bn_rshift_words (bn_d a) (nat n) (bn_width a)),
                   bn_neg := bn_neg a, bn_width := bn_width a\<rparr>))))"

text \<open>\<open>m\<close> is \<open>max_bits >> i\<close>; \<open>tmp\<close> is the scratch number, or \<open>NULL\<close>.\<close>

fun rshift_secret_loop :: "words \<Rightarrow> nat \<Rightarrow> u32 \<Rightarrow> nat \<Rightarrow> nat \<Rightarrow> words" where
  "rshift_secret_loop d width n i m =
     (if m = 0 then d
      else
        (let msk = 0 - ucast (drop_bit i n AND 1);
             tmp = bn_rshift_words d (2 ^ i) width
         in rshift_secret_loop (mem_write d 0 (bn_select_words msk tmp d width)) width n (Suc i) (m div 2)))"

declare rshift_secret_loop.simps [simp del]

definition bn_rshift_secret_shift :: "libc_malloc \<Rightarrow> bignum option \<Rightarrow> bignum \<Rightarrow> bignum \<Rightarrow> u32 \<Rightarrow> bool \<times> bignum" where
  "bn_rshift_secret_shift libc tmp r a n =
     (case tmp of
        None \<Rightarrow> (False, r)
      | Some tmp \<Rightarrow>
          (case BN_copy libc r a of
             (False, r) \<Rightarrow> (False, r)
           | (True, r) \<Rightarrow>
               (case bn_wexpand libc tmp (bn_width r) of
                  (False, _) \<Rightarrow> (False, r)
                | (True, _) \<Rightarrow>
                    (True, r\<lparr>bn_d := rshift_secret_loop (bn_d r) (bn_width r) n 0 (BN_BITS2 * bn_width r)\<rparr>))))"

definition BN_rshift1 :: "libc_malloc \<Rightarrow> bignum \<Rightarrow> bignum \<Rightarrow> bool \<times> bignum" where
  "BN_rshift1 libc r a =
     (case bn_wexpand libc r (bn_width a) of
        (False, r) \<Rightarrow> (False, r)
      | (True, r) \<Rightarrow>
          (True, bn_set_minimal_width
             (r\<lparr>bn_d := mem_write (bn_d r) 0 (bn_rshift1_words (bn_d a) (bn_width a)), bn_width := bn_width a,
                bn_neg := bn_neg a\<rparr>)))"

definition BN_set_bit :: "libc_malloc \<Rightarrow> bignum \<Rightarrow> int \<Rightarrow> bool \<times> bignum" where
  "BN_set_bit libc a n =
     (if n < 0 then (False, a)
      else
        (let i = nat n div BN_BITS2; j = nat n mod BN_BITS2
         in case (if bn_width a \<le> i
                  then (case bn_wexpand libc a (i + 1) of
                          (False, a) \<Rightarrow> (False, a)
                        | (True, a) \<Rightarrow>
                            (True, a\<lparr>bn_d := mem_write (bn_d a) (bn_width a) (replicate (i + 1 - bn_width a) 0), bn_width := i + 1\<rparr>))
                  else (True, a)) of
              (False, a) \<Rightarrow> (False, a)
            | (True, a) \<Rightarrow> (True, a\<lparr>bn_d := (bn_d a)[i := bn_d a ! i OR push_bit j 1]\<rparr>)))"

definition BN_clear_bit :: "bignum \<Rightarrow> int \<Rightarrow> bool \<times> bignum" where
  "BN_clear_bit a n =
     (if n < 0 then (False, a)
      else
        (let i = nat n div BN_BITS2; j = nat n mod BN_BITS2
         in if bn_width a \<le> i then (False, a)
            else (True, bn_set_minimal_width (a\<lparr>bn_d := (bn_d a)[i := bn_d a ! i AND NOT (push_bit j 1)]\<rparr>))))"

definition BN_is_bit_set :: "bignum \<Rightarrow> int \<Rightarrow> bool" where
  "BN_is_bit_set a n = (if n < 0 then False else bn_is_bit_set_words (bn_d a) (bn_width a) (nat n))"

definition BN_mask_bits :: "bignum \<Rightarrow> int \<Rightarrow> bool \<times> bignum" where
  "BN_mask_bits a n =
     (if n < 0 then (False, a)
      else
        (let w = nat n div BN_BITS2; b = nat n mod BN_BITS2
         in if w \<ge> bn_width a then (True, a)
            else
              (True, bn_set_minimal_width
                 (if b = 0 then a\<lparr>bn_width := w\<rparr>
                  else a\<lparr>bn_width := w + 1, bn_d := (bn_d a)[w := bn_d a ! w AND NOT (push_bit b BN_MASK2)]\<rparr>))))"

definition low_zero_block :: "nat \<Rightarrow> u32 \<times> u64 \<Rightarrow> u32 \<times> u64" where
  "low_zero_block k = (\<lambda>(bits, l).
     (let msk = constant_time_is_zero_w (push_bit (BN_BITS2 - k) l)
      in (bits + ucast (word_of_nat k AND msk), constant_time_select_w msk (drop_bit k l) l)))"

definition bn_count_low_zero_bits_word :: "u64 \<Rightarrow> u32" where
  "bn_count_low_zero_bits_word l =
     fst (low_zero_block 1 (low_zero_block 2 (low_zero_block 4 (low_zero_block 8 (low_zero_block 16 (low_zero_block 32 (0, l)))))))"

fun low_zero_loop :: "words \<Rightarrow> nat \<Rightarrow> u64 \<Rightarrow> u32 \<Rightarrow> u32" where
  "low_zero_loop [] i saw_nonzero ret = ret"
| "low_zero_loop (x # xs) i saw_nonzero ret =
     (let nonzero = NOT (constant_time_is_zero_w x);
          first_nonzero = NOT saw_nonzero AND nonzero;
          bits = bn_count_low_zero_bits_word x
      in low_zero_loop xs (Suc i) (saw_nonzero OR nonzero)
           (ucast (scast ret OR (first_nonzero AND scast (word_of_nat (i * BN_BITS2) + bits)))))"

definition BN_count_low_zero_bits :: "bignum \<Rightarrow> u32" where
  "BN_count_low_zero_bits bn = low_zero_loop (bn_words bn) 0 0 0"

end
