(* ===== verification/BnWords_Spec.thy ===== *)
theory BnWords_Spec
  imports BnWords
begin

text \<open>
  What the word arrays stand for: \<open>wval\<close> is the number an array of words denotes, and each routine of
  \<open>BnWords\<close> is arithmetic on these numbers, with the carry or the borrow that leaves the array.
\<close>

section \<open>The value of an array\<close>

definition LIMB :: nat where "LIMB = 2 ^ 64"

fun wval :: "words \<Rightarrow> nat" where
  "wval [] = 0"
| "wval (w # ws) = unat w + LIMB * wval ws"

named_theorems wval_simps "values of arrays put together"

lemma LIMB_pos [simp]: "0 < LIMB" "LIMB \<noteq> 0" "Suc 0 \<le> LIMB" "1 \<le> LIMB" "1 < LIMB" "Suc 0 < LIMB"
  by (simp_all add: LIMB_def)

lemma unat_limb [simp]: "unat (w :: u64) < LIMB"
  using unsigned_less [of w, where ?'a = nat] by (simp add: LIMB_def)

lemma unat_limb_le: "unat (w :: u64) \<le> LIMB - 1"
  using unat_limb [of w] by linarith

lemma wval_less: "wval ws < LIMB ^ length ws"
proof (induction ws)
  case (Cons w ws)
  have "unat w + LIMB * wval ws < LIMB * (wval ws + 1)" using unat_limb [of w] by simp
  also have "\<dots> \<le> LIMB * LIMB ^ length ws" using Cons by (intro mult_le_mono2) simp
  finally show ?case by simp
qed simp

lemma wval_append [wval_simps]: "wval (xs @ ys) = wval xs + LIMB ^ length xs * wval ys"
  by (induction xs) (simp_all add: algebra_simps)

lemma wval_replicate_0 [wval_simps, simp]: "wval (replicate n 0) = 0"
  by (induction n) simp_all

lemma wval_split: "wval ws = wval (take n ws) + LIMB ^ min n (length ws) * wval (drop n ws)"
  using wval_append [of "take n ws" "drop n ws"] by (simp add: min.commute)

lemma wval_eq_0_iff: "wval ws = 0 \<longleftrightarrow> (\<forall>w \<in> set ws. w = 0)"
  by (induction ws) (auto simp: unat_eq_zero)

text \<open>A digit and a rest determine the number.\<close>

lemma digit_unique:
  assumes "x + B * y = x' + B * y'" and "x < B" and "x' < (B :: nat)"
  shows "x = x'" and "y = y'"
proof -
  have "(x + B * y) mod B = (x' + B * y') mod B" "(x + B * y) div B = (x' + B * y') div B" using assms(1) by simp_all
  then show "x = x'" "y = y'" using assms(2,3) by simp_all
qed

text \<open>One word of a ripple: the carry of the word goes into the rest.\<close>

lemma carry_step:
  fixes L :: nat
  assumes "v + P * c' = w + c1" and "r + L * c1 = x"
  shows "r + L * v + L * P * c' = x + L * w"
proof -
  have "L * v + L * (P * c') = L * w + L * c1" using arg_cong [OF assms(1), of "(*) L"] by (simp add: algebra_simps)
  then show ?thesis using assms(2) by (simp add: mult.assoc)
qed

lemma wval_inject: "length xs = length ys \<Longrightarrow> wval xs = wval ys \<Longrightarrow> xs = ys"
proof (induction xs ys rule: list_induct2)
  case (Cons x xs y ys)
  have "unat x = unat y" "wval xs = wval ys" using digit_unique [of "unat x" LIMB "wval xs" "unat y" "wval ys"] Cons.prems by simp_all
  then show ?case using Cons.IH by (simp add: word_unat_eq_iff)
qed simp

section \<open>Words and double words\<close>

lemma unat_u128_ucast [simp]: "unat (ucast (w :: u64) :: u128) = unat w"
  by (simp add: unsigned_ucast_eq take_bit_nat_eq_self_iff) (use unat_limb [of w] in \<open>simp add: LIMB_def\<close>)

lemma Lw_Hw: "unat t = unat (Lw t) + LIMB * unat (Hw t)"
proof -
  have "unat t < 2 ^ 128" using unsigned_less [of t, where ?'a = nat] by simp
  then have q: "unat t div 2 ^ 64 < 2 ^ 64" by (intro less_mult_imp_div_less) simp
  have len: "(2 :: nat) ^ LENGTH(64) = 2 ^ 64" by simp
  have "unat (Hw t) = unat t div 2 ^ 64"
    unfolding Hw_def BN_BITS2_def unsigned_ucast_eq unat_drop_bit_eq
    unfolding drop_bit_eq_div take_bit_eq_mod len using q by (rule mod_less)
  moreover have "unat (Lw t) = unat t mod 2 ^ 64" by (simp add: Lw_def unsigned_ucast_eq take_bit_eq_mod)
  ultimately show ?thesis by (simp add: LIMB_def)
qed

lemma LIMB_sq: "LIMB * LIMB = 2 ^ 128"
  by (simp add: LIMB_def)

lemma unat_u128:
  assumes "n < LIMB * LIMB" and "unat (t :: u128) = n mod 2 ^ 128"
  shows "unat (Lw t) + LIMB * unat (Hw t) = n"
  using assms Lw_Hw [of t] by (simp add: LIMB_sq)

lemma word_times_word: "unat (a :: u64) * unat (b :: u64) \<le> (LIMB - 1) * (LIMB - 1)"
  by (intro mult_le_mono unat_limb_le)

lemma LIMB_square: "(LIMB - 1) * (LIMB - 1) + 2 * (LIMB - 1) + 1 = LIMB * LIMB"
proof -
  obtain k where k: "LIMB = Suc k" using LIMB_pos(1) gr0_implies_Suc by blast
  show ?thesis unfolding k by simp
qed

lemma unat_u128_ops:
  "unat (x + y :: u128) = (unat x + unat y) mod 2 ^ 128" "unat (x * y :: u128) = unat x * unat y mod 2 ^ 128"
  by (simp_all add: unat_word_ariths)

lemma mul_add_value:
  assumes "mul_add r a w c = (r', c')"
  shows "unat r' + LIMB * unat c' = unat w * unat a + unat r + unat c"
proof -
  have "unat w * unat a + unat r + unat c < LIMB * LIMB"
    using word_times_word [of w a] unat_limb_le [of r] unat_limb_le [of c] LIMB_square by linarith
  from unat_u128 [OF this, of "ucast w * ucast a + ucast r + ucast c"] show ?thesis
    using assms by (auto simp: mul_add_def Let_def unat_u128_ops mod_simps)
qed

lemma mul_word_value:
  assumes "mul_word a w c = (r', c')"
  shows "unat r' + LIMB * unat c' = unat w * unat a + unat c"
proof -
  have "unat w * unat a + unat c < LIMB * LIMB"
    using word_times_word [of w a] unat_limb_le [of c] LIMB_square by linarith
  from unat_u128 [OF this, of "ucast w * ucast a + ucast c"] show ?thesis
    using assms by (auto simp: mul_word_def Let_def unat_u128_ops mod_simps)
qed

lemma sqr_word_value:
  assumes "sqr_word a = (r0, r1)"
  shows "unat r0 + LIMB * unat r1 = unat a * unat a"
proof -
  have "unat a * unat a < LIMB * LIMB" using word_times_word [of a a] LIMB_square by linarith
  from unat_u128 [OF this, of "ucast a * ucast a"] show ?thesis
    using assms by (auto simp: sqr_word_def Let_def unat_u128_ops)
qed

section \<open>Words times a word\<close>

lemma mul_add_loop_value:
  "length rp = length ap \<Longrightarrow> mul_add_loop w rp ap c = (r, c') \<Longrightarrow>
   length r = length ap \<and> wval r + LIMB ^ length ap * unat c' = wval rp + unat w * wval ap + unat c"
proof (induction rp ap arbitrary: c r c' rule: list_induct2)
  case (Cons x rp y ap)
  obtain r0 c1 where m: "mul_add x y w c = (r0, c1)" by fastforce
  obtain rs c2 where l: "mul_add_loop w rp ap c1 = (rs, c2)" by fastforce
  have "r = r0 # rs" "c' = c2" using Cons.prems m l by simp_all
  moreover have IH: "length rs = length ap" "wval rs + LIMB ^ length ap * unat c2 = (wval rp + unat w * wval ap) + unat c1"
    using Cons.IH [OF l] by simp_all
  ultimately show ?case using carry_step [OF IH(2) mul_add_value [OF m]] by (simp add: algebra_simps)
qed simp

theorem mul_add_words_value:
  assumes "bn_mul_add_words rp ap n w = (r, c)" and "n \<le> length rp" and "n \<le> length ap"
  shows "length r = n \<and> wval r + LIMB ^ n * unat c = wval (take n rp) + unat w * wval (take n ap)"
  using assms mul_add_loop_value [of "take n rp" "take n ap" w 0 r c] by (simp add: bn_mul_add_words_def)

lemma mul_loop_value:
  "mul_loop w ap c = (r, c') \<Longrightarrow> length r = length ap \<and> wval r + LIMB ^ length ap * unat c' = unat w * wval ap + unat c"
proof (induction ap arbitrary: c r c')
  case (Cons y ap)
  obtain r0 c1 where m: "mul_word y w c = (r0, c1)" by fastforce
  obtain rs c2 where l: "mul_loop w ap c1 = (rs, c2)" by fastforce
  have "r = r0 # rs" "c' = c2" using Cons.prems m l by simp_all
  moreover have IH: "length rs = length ap" "wval rs + LIMB ^ length ap * unat c2 = unat w * wval ap + unat c1"
    using Cons.IH [OF l] by simp_all
  ultimately show ?case using carry_step [OF IH(2) mul_word_value [OF m]] by (simp add: algebra_simps)
qed simp

theorem mul_words_value:
  assumes "bn_mul_words ap n w = (r, c)" and "n \<le> length ap"
  shows "length r = n \<and> wval r + LIMB ^ n * unat c = unat w * wval (take n ap)"
  using assms mul_loop_value [of w "take n ap" 0 r c] by (simp add: bn_mul_words_def)

text \<open>The squares of the words, each in its two places.\<close>

fun square_sum :: "words \<Rightarrow> nat" where
  "square_sum [] = 0"
| "square_sum (w # ws) = unat w * unat w + LIMB * LIMB * square_sum ws"

theorem sqr_words_value:
  assumes "n \<le> length a"
  shows "length (bn_sqr_words a n) = 2 * n" and "wval (bn_sqr_words a n) = square_sum (take n a)"
proof -
  have "length (concat (map (\<lambda>x. case sqr_word x of (r0, r1) \<Rightarrow> [r0, r1]) ws)) = 2 * length ws \<and>
     wval (concat (map (\<lambda>x. case sqr_word x of (r0, r1) \<Rightarrow> [r0, r1]) ws)) = square_sum ws" for ws
  proof (induction ws)
    case (Cons w ws)
    obtain r0 r1 where s: "sqr_word w = (r0, r1)" by fastforce
    show ?case using Cons sqr_word_value [OF s] by (simp add: s algebra_simps)
  qed simp
  then show "length (bn_sqr_words a n) = 2 * n" "wval (bn_sqr_words a n) = square_sum (take n a)"
    using assms by (simp_all add: bn_sqr_words_def)
qed

section \<open>Sums and differences\<close>

lemma add_loop_value:
  "length as = length bs \<Longrightarrow> unat ll \<le> 1 \<Longrightarrow> add_loop ll as bs = (r, c) \<Longrightarrow>
   length r = length as \<and> unat c \<le> 1 \<and> wval r + LIMB ^ length as * unat c = wval as + wval bs + unat ll"
proof (induction as bs arbitrary: ll r c rule: list_induct2)
  case Nil
  then have "unat ll mod 2 ^ 64 = unat ll" by simp
  then show ?case using Nil by (auto simp: unsigned_ucast_eq take_bit_eq_mod)
next
  case (Cons x as y bs)
  define s where "s = ll + (ucast x + ucast y)"
  have n2: "unat ll + (unat x + unat y) < 2 * LIMB"
    using Cons.prems(1) unat_limb_le [of x] unat_limb_le [of y] LIMB_pos(1) by linarith
  then have n1: "unat ll + (unat x + unat y) < LIMB * LIMB" by (rule less_le_trans) (simp add: LIMB_def)
  have v: "unat (Lw s) + LIMB * unat (Hw s) = unat ll + (unat x + unat y)"
    using unat_u128 [OF n1, of s] by (simp add: s_def unat_u128_ops mod_simps)
  have "LIMB * unat (Hw s) < LIMB * 2" using v n2 by linarith
  then have h: "unat (Hw s) \<le> 1" by simp
  have "unat s = unat (Lw s) + LIMB * unat (Hw s)" by (rule Lw_Hw)
  then have "unat s div 2 ^ 64 = unat (Hw s)" using unat_limb [of "Lw s"] by (simp add: LIMB_def)
  then have d: "unat (drop_bit BN_BITS2 s) = unat (Hw s)"
    unfolding BN_BITS2_def unat_drop_bit_eq unfolding drop_bit_eq_div .
  obtain rs c1 where l: "add_loop (drop_bit BN_BITS2 s) as bs = (rs, c1)" by fastforce
  have "r = Lw s # rs" "c = c1" using Cons.prems(2) l by (simp_all add: Let_def Lw_def flip: s_def)
  moreover have IH: "length rs = length as" "unat c1 \<le> 1" "wval rs + LIMB ^ length as * unat c1 = (wval as + wval bs) + unat (Hw s)"
    using Cons.IH [OF _ l] h by (simp_all add: d)
  ultimately show ?case using carry_step [OF IH(3) v] by (simp add: algebra_simps)
qed

theorem add_words_value:
  assumes "bn_add_words a b n = (r, c)" and "n \<le> length a" and "n \<le> length b"
  shows "length r = n \<and> unat c \<le> 1 \<and> wval r + LIMB ^ n * unat c = wval (take n a) + wval (take n b)"
  using assms add_loop_value [of "take n a" "take n b" 0 r c] by (auto simp: bn_add_words_def split: if_splits)

lemma sub_step:
  fixes x y c :: u64
  assumes "unat c \<le> 1"
  defines "c' \<equiv> (if x \<noteq> y then of_bool (x < y) else c)"
  shows "unat (x - y - c) + unat y + unat c = unat x + LIMB * unat c'" and "unat c' \<le> 1"
proof -
  show "unat c' \<le> 1" using assms(1) by (simp add: c'_def)
  have L: "unat x < LIMB" "unat y < LIMB" by simp_all
  have d: "unat (x - y) = (if unat y \<le> unat x then unat x - unat y else unat x + LIMB - unat y)"
    by (simp add: unat_sub_if' LIMB_def)
  have e: "unat (z - 1) = (if z = 0 then LIMB - 1 else unat z - 1)" for z :: u64
    by (simp add: unat_minus_one LIMB_def unsigned_minus_1_eq_mask mask_eq_exp_minus_1)
  have "unat c = 0 \<or> unat c = 1" using assms(1) by linarith
  then have c: "c = 0 \<or> c = 1" by (metis unat_eq_zero unat_1 word_unat_eq_iff)
  consider "unat x < unat y" | "x = y" | "unat y < unat x" using word_unat_eq_iff [of x y] by linarith
  then show "unat (x - y - c) + unat y + unat c = unat x + LIMB * unat c'"
  proof cases
    case 1
    then have "c' = 1" "x - y \<noteq> 0" by (auto simp: c'_def word_less_nat_alt)
    then show ?thesis using c d 1 by (auto simp: e simp del: unat_limb) (use L in linarith)+
  next
    case 2
    then show ?thesis using c e [of 0] by (auto simp: c'_def)
  next
    case 3
    then have "c' = 0" "x - y \<noteq> 0" by (auto simp: c'_def word_less_nat_alt)
    then show ?thesis using c d 3 by (auto simp: e)
  qed
qed

lemma sub_loop_value:
  "length as = length bs \<Longrightarrow> unat c \<le> 1 \<Longrightarrow> sub_loop c as bs = (r, c') \<Longrightarrow>
   length r = length as \<and> unat c' \<le> 1 \<and> wval r + wval bs + unat c = wval as + LIMB ^ length as * unat c'"
proof (induction as bs arbitrary: c r c' rule: list_induct2)
  case (Cons x as y bs)
  let ?c = "if x \<noteq> y then of_bool (x < y) else c"
  obtain rs c1 where l: "sub_loop ?c as bs = (rs, c1)" by fastforce
  have "r = (x - y - c) # rs" "c' = c1" using Cons.prems(2) l by (simp_all add: Let_def split del: if_split)
  moreover have IH: "length rs = length as" "unat c1 \<le> 1" "wval as + LIMB ^ length as * unat c1 = (wval rs + wval bs) + unat ?c"
    using Cons.IH [OF _ l] sub_step(2) [OF Cons.prems(1), of x y] by simp_all
  moreover have "unat x + LIMB * unat ?c = unat (x - y - c) + unat y + unat c" by (rule sub_step(1) [OF Cons.prems(1), symmetric])
  note carry_step [OF IH(3) this]
  ultimately show ?case by (simp add: algebra_simps split del: if_split)
qed simp

theorem sub_words_value:
  assumes "bn_sub_words a b n = (r, c)" and "n \<le> length a" and "n \<le> length b"
  shows "length r = n \<and> unat c \<le> 1 \<and> wval r + wval (take n b) = wval (take n a) + LIMB ^ n * unat c"
  using assms sub_loop_value [of "take n a" "take n b" 0 r c] by (simp add: bn_sub_words_def)

section \<open>Selection and comparison\<close>

lemma select_words [consttime]:
  assumes "n \<le> length a" and "n \<le> length b"
  shows "bn_select_words (mask_w p) a b n = take n (if p then a else b)"
proof -
  have "length xs = length ys \<Longrightarrow> map2 (\<lambda>x y. if p then x else y) xs ys = (if p then xs else ys)" for xs ys :: words
    by (induction xs ys rule: list_induct2) auto
  from this [of "take n a" "take n b"] show ?thesis using assms by (simp add: bn_select_words_def consttime)
qed

text \<open>The masks that are computed from a carry.\<close>

lemma bit_cases: "unat (b :: u64) \<le> 1 \<Longrightarrow> b = 0 \<or> b = 1"
  using word_unat_eq_iff [of b 0] word_unat_eq_iff [of b 1] by (simp only: unsigned_0 unsigned_1) linarith

lemma mask_of_bit: "unat b \<le> 1 \<Longrightarrow> 0 - b = mask_w (b \<noteq> 0)"
proof -
  assume "unat b \<le> 1"
  then have "b = 0 \<or> b = 1" by (rule bit_cases)
  then show ?thesis by (auto simp: mask_w_def CONSTTIME_TRUE_W_def CONSTTIME_FALSE_W_def)
qed

lemma or_words_0: "or_words ws = 0 \<longleftrightarrow> wval ws = 0"
proof -
  have "foldl (OR) x ws = 0 \<longleftrightarrow> x = 0 \<and> (\<forall>w \<in> set ws. w = 0)" for x :: u64
    by (induction ws arbitrary: x) (auto simp: or_eq_0_iff)
  then show ?thesis by (simp add: or_words_def wval_eq_0_iff)
qed

definition cmp_nat :: "nat \<Rightarrow> nat \<Rightarrow> 32 word" where
  "cmp_nat x y = (if x < y then - 1 else if x = y then 0 else 1)"

text \<open>The more significant digit decides.\<close>

lemma cmp_nat_digit:
  assumes "x < B" and "y < (B :: nat)"
  shows "cmp_nat (x + B * u) (y + B * v) = (if u = v then cmp_nat x y else cmp_nat u v)"
proof -
  have "x + B * u < y + B * v" if "u < v"
  proof -
    have "x + B * u < B * Suc u" using assms(1) by simp
    also have "\<dots> \<le> B * v" using that by (intro mult_le_mono2) simp
    finally show ?thesis by simp
  qed
  moreover have "y + B * v < x + B * u" if "v < u"
  proof -
    have "y + B * v < B * Suc v" using assms(2) by simp
    also have "\<dots> \<le> B * u" using that by (intro mult_le_mono2) simp
    finally show ?thesis by simp
  qed
  ultimately show ?thesis by (cases u v rule: linorder_cases) (simp_all add: cmp_nat_def)
qed

lemma cmp_loop:
  "length xs = length ys \<Longrightarrow>
   foldl (\<lambda>ret (x, y). constant_time_select_int (constant_time_eq_w x y) ret
            (constant_time_select_int (constant_time_lt_w x y) (- 1) 1)) 0 (zip xs ys) = cmp_nat (wval xs) (wval ys)"
proof (induction xs arbitrary: ys rule: rev_induct)
  case Nil
  then show ?case by (simp add: cmp_nat_def)
next
  case (snoc x xs)
  obtain y ys' where ys: "ys = ys' @ [y]" "length ys' = length xs"
    using snoc.prems by (cases ys rule: rev_cases) simp_all
  have "cmp_nat (wval xs + LIMB ^ length xs * unat x) (wval ys' + LIMB ^ length xs * unat y) =
      (if unat x = unat y then cmp_nat (wval xs) (wval ys') else cmp_nat (unat x) (unat y))"
    using wval_less [of xs] wval_less [of ys'] ys(2) by (intro cmp_nat_digit) simp_all
  then show ?case
    using snoc.IH [OF ys(2) [symmetric]] ys
    by (simp add: consttime wval_append cmp_nat_def word_unat_eq_iff word_less_nat_alt)
qed

theorem cmp_words_value:
  assumes "m \<le> length a" and "n \<le> length b"
  shows "bn_cmp_words_consttime a m b n = cmp_nat (wval (take m a)) (wval (take n b))"
proof -
  define k where "k = min m n"
  have k: "(if m < n then m else n) = k" "length (take k a) = k" "length (take k b) = k" using assms by (auto simp: k_def)
  have loop: "foldl (\<lambda>ret (x, y). constant_time_select_int (constant_time_eq_w x y) ret
      (constant_time_select_int (constant_time_lt_w x y) (- 1) 1)) 0 (zip (take k a) (take k b)) =
      cmp_nat (wval (take k a)) (wval (take k b))"
    by (rule cmp_loop) (simp only: k)
  have tail: "wval (take j ws) = wval (take i ws) + LIMB ^ i * wval (drop i (take j ws))" if "i \<le> j" "j \<le> length ws" for i j and ws :: words
    using wval_split [of "take j ws" i] that by (simp add: min_absorb1)
  have less: "wval (take i ws) < LIMB ^ i" for i and ws :: words
  proof -
    have "wval (take i ws) < LIMB ^ length (take i ws)" by (rule wval_less)
    also have "\<dots> \<le> LIMB ^ i" by (intro power_increasing) simp_all
    finally show ?thesis .
  qed
  consider "m < n" | "n < m" | "m = n" by linarith
  then show ?thesis
  proof cases
    case 1
    then have "cmp_nat (wval (take m a)) (wval (take n b)) =
        (if wval (drop m (take n b)) = 0 then cmp_nat (wval (take m a)) (wval (take m b)) else - 1)"
      using cmp_nat_digit [OF less [of m a] less [of m b], of 0 "wval (drop m (take n b))"] tail [of m n b] assms
      by (auto simp: cmp_nat_def)
    then show ?thesis using loop 1 by (simp add: bn_cmp_words_consttime_def Let_def k(1) consttime or_words_0 k_def)
  next
    case 2
    then have "cmp_nat (wval (take m a)) (wval (take n b)) =
        (if wval (drop n (take m a)) = 0 then cmp_nat (wval (take n a)) (wval (take n b)) else 1)"
      using cmp_nat_digit [OF less [of n a] less [of n b], of "wval (drop n (take m a))" 0] tail [of n m a] assms
      by (auto simp: cmp_nat_def)
    then show ?thesis using loop 2 by (simp add: bn_cmp_words_consttime_def Let_def k(1) consttime or_words_0 k_def)
  next
    case 3
    then show ?thesis using loop by (simp add: bn_cmp_words_consttime_def Let_def k_def)
  qed
qed

lemma cmp_nat_sint: "sint (cmp_nat x y) = (if x < y then - 1 else if x = y then 0 else 1)"
  by (simp add: cmp_nat_def)

theorem less_than_words_value:
  "n \<le> length a \<Longrightarrow> n \<le> length b \<Longrightarrow> bn_less_than_words a b n \<longleftrightarrow> wval (take n a) < wval (take n b)"
  by (simp add: bn_less_than_words_def cmp_words_value cmp_nat_sint)

section \<open>Modular sums and differences\<close>

text \<open>A number below twice the modulus: one subtraction, kept if it does not go below zero.\<close>

theorem reduce_once_value:
  assumes "bn_reduce_once a carry m n = (r, c)" and "length a = n" and "length m = n"
    and "unat carry \<le> 1" and "wval a + LIMB ^ n * unat carry < 2 * wval m"
  shows "length r = n \<and> wval r = (wval a + LIMB ^ n * unat carry) mod wval m \<and>
    c = mask_w (wval a + LIMB ^ n * unat carry < wval m)"
proof -
  obtain d b where d: "bn_sub_words a m n = (d, b)" by fastforce
  have v: "length d = n" "unat b \<le> 1" "wval d + wval m = wval a + LIMB ^ n * unat b"
    using sub_words_value [OF d] assms(2,3) by simp_all
  have small: "wval d < LIMB ^ n" "wval m < LIMB ^ n" "wval a < LIMB ^ n"
    using wval_less [of d] wval_less [of m] wval_less [of a] v(1) assms(2,3) by simp_all
  let ?x = "wval a + LIMB ^ n * unat carry"
  have bits: "carry = 0 \<or> carry = 1" "b = 0 \<or> b = 1"
    using bit_cases [OF assms(4)] bit_cases [OF v(2)] .
  have "carry - b = mask_w (?x < wval m) \<and> (?x < wval m \<longrightarrow> carry = 0) \<and> (wval m \<le> ?x \<longrightarrow> ?x - wval m = wval d)"
  proof (cases "b = 0")
    case True
    then have "wval m \<le> wval a" using v(3) by simp
    moreover from this have "carry = 0" using assms(5) bits(1) small v(3) True by auto
    ultimately show ?thesis using True v(3) by (auto simp: mask_w_def CONSTTIME_FALSE_W_def)
  next
    case False
    then have b: "b = 1" using bits by simp
    then have lt: "wval a < wval m" using v(3) small(1) by simp
    show ?thesis
    proof (cases "carry = 0")
      case True
      then show ?thesis using b lt by (simp add: mask_w_def CONSTTIME_TRUE_W_def)
    next
      case False
      then have "carry = 1" using bits by simp
      then show ?thesis using b v(3) small by (simp add: mask_w_def CONSTTIME_FALSE_W_def)
    qed
  qed
  then have c: "carry - b = mask_w (?x < wval m)" "?x < wval m \<Longrightarrow> carry = 0" "wval m \<le> ?x \<Longrightarrow> ?x - wval m = wval d" by auto
  have r: "r = (if ?x < wval m then a else d)" "c = mask_w (?x < wval m)"
    using assms(1-3) d v(1) by (simp_all add: bn_reduce_once_def Let_def c(1) consttime)
  show ?thesis
  proof (cases "?x < wval m")
    case True
    then show ?thesis using r c(2) assms(2) by simp
  next
    case False
    then have "?x mod wval m = ?x - wval m" using assms(5) by (simp add: mod_if)
    then show ?thesis using False r c(3) v(1) by simp
  qed
qed

lemma reduce_in_place: "bn_reduce_once_in_place r carry m n = bn_reduce_once r carry m n"
  by (simp add: bn_reduce_once_in_place_def bn_reduce_once_def)

theorem mod_add_words_value:
  assumes "length a = n" and "length b = n" and "length m = n" and "wval a < wval m" and "wval b < wval m"
  shows "length (bn_mod_add_words a b m n) = n \<and> wval (bn_mod_add_words a b m n) = (wval a + wval b) mod wval m"
proof -
  obtain r c where s: "bn_add_words a b n = (r, c)" by fastforce
  have v: "length r = n" "unat c \<le> 1" "wval r + LIMB ^ n * unat c = wval a + wval b"
    using add_words_value [OF s] assms(1,2) by simp_all
  obtain r' c' where t: "bn_reduce_once r c m n = (r', c')" by fastforce
  have "wval r + LIMB ^ n * unat c < 2 * wval m" using v(3) assms(4,5) by simp
  from reduce_once_value [OF t v(1) assms(3) v(2) this] show ?thesis
    using v(3) by (simp add: bn_mod_add_words_def s reduce_in_place t)
qed

theorem mod_sub_words_value:
  assumes "length a = n" and "length b = n" and "length m = n" and "wval a < wval m" and "wval b < wval m"
  shows "length (bn_mod_sub_words a b m n) = n \<and>
    int (wval (bn_mod_sub_words a b m n)) = (int (wval a) - int (wval b)) mod int (wval m)"
proof -
  obtain r c where s: "bn_sub_words a b n = (r, c)" by fastforce
  have v: "length r = n" "unat c \<le> 1" "wval r + wval b = wval a + LIMB ^ n * unat c"
    using sub_words_value [OF s] assms(1,2) by simp_all
  obtain t d where t: "bn_add_words r m n = (t, d)" by fastforce
  have w: "length t = n" "unat d \<le> 1" "wval t + LIMB ^ n * unat d = wval r + wval m"
    using add_words_value [OF t] v(1) assms(3) by simp_all
  have small: "wval r < LIMB ^ n" "wval t < LIMB ^ n" "wval m < LIMB ^ n"
    using wval_less [of r] wval_less [of t] wval_less [of m] v(1) w(1) assms(3) by simp_all
  have res: "bn_mod_sub_words a b m n = (if c \<noteq> 0 then t else r)"
    using v(1) w(1) mask_of_bit [OF v(2)] by (simp add: bn_mod_sub_words_def s t consttime)
  show ?thesis
  proof (cases "c = 0")
    case True
    then have "int (wval r) = int (wval a) - int (wval b)" using v(3) by simp
    moreover have "0 \<le> int (wval a) - int (wval b)" "int (wval a) - int (wval b) < int (wval m)" using True v(3) assms(4) by simp_all
    ultimately show ?thesis using True res v(1) by simp
  next
    case False
    then have c: "unat c = 1" using bit_cases [OF v(2)] by simp
    then have eq: "wval r + wval b = wval a + LIMB ^ n" using v(3) by simp
    then have lt: "wval a < wval b" using small(1) by linarith
    have ge: "LIMB ^ n \<le> wval r + wval m" using eq assms(5) by linarith
    have "unat d = 1"
    proof (rule ccontr)
      assume "unat d \<noteq> 1"
      then have "unat d = 0" using w(2) by linarith
      then show False using w(3) ge small(2) by simp
    qed
    then have "wval t + LIMB ^ n = wval r + wval m" using w(3) by simp
    then have t': "int (wval t) = int (wval a) - int (wval b) + int (wval m)" using eq by linarith
    have "(int (wval a) - int (wval b)) mod int (wval m) = (int (wval a) - int (wval b) + int (wval m)) mod int (wval m)" by simp
    also have "\<dots> = int (wval a) - int (wval b) + int (wval m)" using lt assms(4,5) by (intro mod_pos_pos_trivial) simp_all
    finally show ?thesis using False res w(1) t' by simp
  qed
qed

section \<open>Shifts\<close>

lemma unat_shift: "unat (drop_bit k x) = unat x div 2 ^ k" for x :: u64
  unfolding unat_drop_bit_eq unfolding drop_bit_eq_div ..

lemma LIMB_split: "k \<le> 64 \<Longrightarrow> LIMB = 2 ^ k * 2 ^ (64 - k)"
  unfolding LIMB_def by (simp only: flip: power_add) simp

lemma shift_step:
  fixes x y :: u64
  assumes "k \<le> 64"
  shows "unat (drop_bit k x OR push_bit (64 - k) y) = unat x div 2 ^ k + 2 ^ (64 - k) * (unat y mod 2 ^ k)"
proof -
  have y: "push_bit (64 - k) y = push_bit (64 - k) (take_bit k y)"
    using assms by (intro bit_word_eqI) (auto simp: bit_simps)
  have ty: "unat (take_bit k y) = unat y mod 2 ^ k" unfolding unsigned_take_bit_eq unfolding take_bit_eq_mod ..
  have "unat x < 2 ^ (64 - k) * 2 ^ k" using unat_limb [of x] LIMB_split [OF assms] by (simp add: mult.commute)
  then have "unat (drop_bit k x) < 2 ^ (64 - k)" unfolding unat_shift by (rule less_mult_imp_div_less)
  moreover have "unat (take_bit k y) * 2 ^ (64 - k) < 2 ^ LENGTH(64)"
  proof -
    have "unat y mod 2 ^ k * 2 ^ (64 - k) < 2 ^ k * 2 ^ (64 - k)" by (intro mult_strict_right_mono) simp_all
    then show ?thesis unfolding ty using LIMB_split [OF assms] by (simp add: LIMB_def)
  qed
  ultimately have "unat (push_bit (64 - k) (take_bit k y) OR drop_bit k x) = unat (take_bit k y) * 2 ^ (64 - k) + unat (drop_bit k x)"
    by (rule unat_push_or)
  then show ?thesis unfolding y ty unat_shift by (simp add: or.commute mult.commute)
qed

lemma shift_digits:
  fixes x v :: nat
  assumes "k \<le> 64"
  shows "(x + LIMB * v) div 2 ^ k = x div 2 ^ k + 2 ^ (64 - k) * (v mod 2 ^ k) + LIMB * (v div 2 ^ k)"
proof -
  let ?q = "2 ^ (64 - k) :: nat"
  have "2 ^ (64 - k) * v = ?q * (v mod 2 ^ k + 2 ^ k * (v div 2 ^ k))" by simp
  also have "\<dots> = ?q * (v mod 2 ^ k) + LIMB * (v div 2 ^ k)"
    unfolding LIMB_split [OF assms] by (simp only: distrib_left mult.assoc mult.left_commute mult.commute)
  finally have "2 ^ (64 - k) * v = ?q * (v mod 2 ^ k) + LIMB * (v div 2 ^ k)" .
  moreover have "(x + LIMB * v) div 2 ^ k = x div 2 ^ k + 2 ^ (64 - k) * v"
    unfolding LIMB_split [OF assms] by (simp add: mult.assoc)
  ultimately show ?thesis by simp
qed

lemma rshift_loop_value:
  assumes "k \<le> 64"
  shows "length (rshift_loop k ws) = length ws \<and> wval (rshift_loop k ws) = wval ws div 2 ^ k"
proof (induction ws rule: rshift_loop.induct [of "\<lambda>_ ws. length (rshift_loop k ws) = length ws \<and> wval (rshift_loop k ws) = wval ws div 2 ^ k"])
  case (1 k' x y ws)
  have "(2 :: nat) ^ k dvd LIMB * wval ws" unfolding LIMB_split [OF assms] by simp
  then have m: "wval (y # ws) mod 2 ^ k = unat y mod 2 ^ k" by (simp add: mod_add_right_eq [symmetric] mod_eq_0_iff_dvd del: mod_add_right_eq)
  show ?case using 1 shift_step [OF assms, of x y] shift_digits [OF assms, of "unat x" "wval (y # ws)"]
    unfolding m by (simp add: BN_BITS2_def)
next
  case (2 k' x)
  then show ?case by (simp add: unat_shift)
qed simp

lemma wval_drop: "n \<le> length ws \<Longrightarrow> wval (drop n ws) = wval ws div LIMB ^ n"
  using wval_split [of ws n] wval_less [of "take n ws"] by (simp add: min_absorb1)

lemma wval_take: "n \<le> length ws \<Longrightarrow> wval (take n ws) = wval ws mod LIMB ^ n"
  using wval_split [of ws n] wval_less [of "take n ws"] by (simp add: min_absorb1)

theorem rshift_words_value:
  assumes "length a = num"
  shows "length (bn_rshift_words a shift num) = num" and "wval (bn_rshift_words a shift num) = wval a div 2 ^ shift"
proof -
  define b w where "b = shift mod BN_BITS2" and "w = shift div BN_BITS2"
  have s: "shift = 64 * w + b" "b < 64" by (simp_all add: b_def w_def BN_BITS2_def)
  have p: "(2::nat) ^ shift = LIMB ^ w * 2 ^ b" by (simp add: s(1) power_add power_mult LIMB_def)
  have "length (bn_rshift_words a shift num) = num \<and> wval (bn_rshift_words a shift num) = wval a div 2 ^ shift"
  proof (cases "num \<le> w")
    case True
    have "wval a < LIMB ^ num" using wval_less [of a] assms by simp
    also have "\<dots> \<le> LIMB ^ w" using True by (intro power_increasing) simp_all
    also have "\<dots> \<le> LIMB ^ w * 2 ^ b" by simp
    finally have "wval a div 2 ^ shift = 0" unfolding p by simp
    then show ?thesis using True by (simp add: bn_rshift_words_def Let_def flip: b_def w_def)
  next
    case False
    have "wval a div 2 ^ shift = wval (drop w a) div 2 ^ b"
      unfolding p using False assms by (simp add: wval_drop div_mult2_eq)
    then show ?thesis
      using False assms s(2) rshift_loop_value [of b "drop w a"]
      by (auto simp: bn_rshift_words_def Let_def wval_append simp flip: b_def w_def)
  qed
  then show "length (bn_rshift_words a shift num) = num" "wval (bn_rshift_words a shift num) = wval a div 2 ^ shift" by simp_all
qed

theorem rshift1_words_value:
  "length a = num \<Longrightarrow> length (bn_rshift1_words a num) = num \<and> wval (bn_rshift1_words a num) = wval a div 2"
  using rshift_loop_value [of 1 a] by (cases a) (auto simp: bn_rshift1_words_def)

end
