(* ===== verification/BnComba_Spec.thy ===== *)
theory BnComba_Spec
  imports BnWords_Spec
begin

text \<open>
  The multiplications and squarings by columns compute the product. \<open>column_steps\<close> is the interface of
  a step: it adds its weight to the three-word accumulator unless that overflows. From it follows that no
  column of at most eight steps overflows and that the result is the sum of the columns; the tables of
  \<open>BnWords\<close> hold each product of two words once, in the column of its weight.
\<close>

section \<open>Products by columns\<close>

fun acc_val :: "acc3 \<Rightarrow> nat" where
  "acc_val (c0, c1, c2) = unat c0 + LIMB * (unat c1 + LIMB * unat c2)"

lemma word_add_carry: "unat (x + y) + LIMB * of_bool (x + y < y) = unat x + unat y" for x y :: u64
proof -
  have small: "unat x < LIMB" "unat y < LIMB" by simp_all
  have m: "unat (x + y) = (unat x + unat y) mod LIMB" by (simp add: unat_word_ariths LIMB_def)
  show ?thesis
  proof (cases "unat x + unat y < LIMB")
    case True
    then show ?thesis using m by (simp add: word_less_nat_alt)
  next
    case False
    then have u: "unat (x + y) = unat x + unat y - LIMB" unfolding m using small False le_mod_geq [of LIMB "unat x + unat y"] mod_less [of "unat x + unat y - LIMB" LIMB] by linarith
    then have "x + y < y" unfolding word_less_nat_alt using small False by linarith
    then have "of_bool (x + y < y) = (1 :: nat)" by (simp only: of_bool_eq)
    then have "LIMB * of_bool (x + y < y) = LIMB" by simp
    then show ?thesis unfolding u using False by linarith
  qed
qed

lemma mul_add_c_value:
  assumes "acc_val c + unat a * unat b < LIMB ^ 3"
  shows "acc_val (mul_add_c a b c) = acc_val c + unat a * unat b"
proof -
  obtain c0 c1 c2 where c: "c = (c0, c1, c2)" by (metis prod_cases3)
  define t where "t = ucast a * ucast b + (ucast c0 :: u128)"
  let ?k = "of_bool (c1 + Hw t < Hw t) :: nat"
  have "unat a * unat b + unat c0 < LIMB * LIMB"
    using word_times_word [of a b] unat_limb_le [of c0] LIMB_square by linarith
  from unat_u128 [OF this, of t] have t: "unat (Lw t) + LIMB * unat (Hw t) = unat a * unat b + unat c0"
    by (simp add: t_def unat_u128_ops mod_simps)
  have k: "unat (c1 + Hw t) + LIMB * ?k = unat c1 + unat (Hw t)" by (rule word_add_carry)
  have eq: "unat (Lw t) + LIMB * (unat (c1 + Hw t) + LIMB * (unat c2 + ?k)) = acc_val c + unat a * unat b"
  proof -
    have "unat (Lw t) + LIMB * (unat (c1 + Hw t) + LIMB * ?k) = unat (Lw t) + LIMB * (unat c1 + unat (Hw t))" by (simp only: k)
    then show ?thesis using t by (simp add: c algebra_simps)
  qed
  have "LIMB * (LIMB * (unat c2 + ?k)) \<le> acc_val c + unat a * unat b" unfolding eq [symmetric] by (simp add: algebra_simps)
  also note assms
  also have "LIMB ^ 3 = LIMB * (LIMB * LIMB)" by (simp only: power3_eq_cube mult.assoc)
  finally have "unat c2 + ?k < LIMB" using mult_less_cancel1 by metis
  then have "unat (if c1 + Hw t < Hw t then c2 + 1 else c2) = unat c2 + ?k"
    by (auto simp: LIMB_def unat_word_ariths)
  then show ?thesis using eq by (simp add: c Let_def flip: t_def)
qed

lemma mul_add_c2_twice: "mul_add_c2 a b c = mul_add_c a b (mul_add_c a b c)"
  by (cases c) (simp add: Let_def)

text \<open>The number that a list of columns stands for; \<open>weight\<close> is what a step adds to its column.\<close>

fun col_sum :: "('i \<Rightarrow> nat) \<Rightarrow> 'i list list \<Rightarrow> nat" where
  "col_sum weight [] = 0"
| "col_sum weight (col # cols) = sum_list (map weight col) + LIMB * col_sum weight cols"

locale column_steps =
  fixes step :: "nat \<times> nat \<Rightarrow> acc3 \<Rightarrow> acc3" and weight :: "nat \<times> nat \<Rightarrow> nat"
  assumes step: "acc_val c + weight p < LIMB ^ 3 \<Longrightarrow> acc_val (step p c) = acc_val c + weight p"
    and bounded: "weight p \<le> 2 * (LIMB * LIMB)"
begin

lemma column:
  "acc_val c + sum_list (map weight col) < LIMB ^ 3 \<Longrightarrow> acc_val (fold step col c) = acc_val c + sum_list (map weight col)"
proof (induction col arbitrary: c)
  case (Cons p col)
  have "acc_val (step p c) = acc_val c + weight p" using Cons.prems by (intro step) simp
  then show ?case using Cons.IH [of "step p c"] Cons.prems by simp
qed simp

lemma columns:
  assumes "\<forall>col \<in> set cols. length col \<le> 8" and "acc_val c < LIMB * LIMB"
  shows "length (comba step cols c) = Suc (length cols) \<and>
    (\<exists>rest. wval (comba step cols c) + LIMB ^ Suc (length cols) * rest = acc_val c + col_sum weight cols)"
  using assms
proof (induction cols arbitrary: c)
  case Nil
  obtain c0 c1 c2 where "c = (c0, c1, c2)" by (metis prod_cases3)
  then show ?case by auto
next
  case (Cons col cols)
  have "sum_list (map weight col) \<le> sum_list (map (\<lambda>_. 2 * (LIMB * LIMB)) col)" by (intro sum_list_mono bounded)
  also have "\<dots> \<le> 8 * (2 * (LIMB * LIMB))" using Cons.prems(1) by (simp add: sum_list_triv)
  finally have "acc_val c + sum_list (map weight col) < 17 * (LIMB * LIMB)" using Cons.prems(2) by simp
  also have "\<dots> \<le> LIMB ^ 3" by (simp add: power3_eq_cube LIMB_def)
  finally have v: "acc_val (fold step col c) = acc_val c + sum_list (map weight col)" by (rule column)
  obtain c0 c1 c2 where f: "fold step col c = (c0, c1, c2)" by (metis prod_cases3)
  have "acc_val (c1, c2, 0) < LIMB * LIMB"
  proof -
    have "unat c1 + LIMB * unat c2 \<le> (LIMB - 1) + LIMB * (LIMB - 1)" by (intro add_mono mult_le_mono2 unat_limb_le)
    also have "\<dots> < LIMB * LIMB" by (simp add: diff_mult_distrib2)
    finally show ?thesis by simp
  qed
  then obtain rest where rest: "length (comba step cols (c1, c2, 0)) = Suc (length cols)"
    "wval (comba step cols (c1, c2, 0)) + LIMB ^ Suc (length cols) * rest = acc_val (c1, c2, 0) + col_sum weight cols"
    using Cons.IH [of "(c1, c2, 0)"] Cons.prems(1) by auto
  have "LIMB * wval (comba step cols (c1, c2, 0)) + LIMB * (LIMB ^ Suc (length cols) * rest) =
      LIMB * (unat c1 + LIMB * unat c2) + LIMB * col_sum weight cols"
    using arg_cong [OF rest(2), of "(*) LIMB"] by (simp add: algebra_simps)
  then have "wval (comba step (col # cols) c) + LIMB ^ Suc (length (col # cols)) * rest = acc_val c + col_sum weight (col # cols)"
    using v by (simp add: f algebra_simps)
  then show ?case using rest(1) by (auto simp: f)
qed

text \<open>No column overflows; the result is the sum of the columns if that fits.\<close>

lemma comba_value:
  assumes "\<forall>col \<in> set cols. length col \<le> 8" and "col_sum weight cols < LIMB ^ Suc (length cols)"
  shows "length (comba step cols (0, 0, 0)) = Suc (length cols) \<and> wval (comba step cols (0, 0, 0)) = col_sum weight cols"
proof -
  obtain rest where r: "length (comba step cols (0, 0, 0)) = Suc (length cols)"
    "wval (comba step cols (0, 0, 0)) + LIMB ^ Suc (length cols) * rest = col_sum weight cols"
    using columns [OF assms(1), of "(0, 0, 0)"] by auto
  have "rest = 0"
  proof (rule ccontr)
    assume "rest \<noteq> 0"
    then have "LIMB ^ Suc (length cols) \<le> LIMB ^ Suc (length cols) * rest" by simp
    then show False using r(2) assms(2) by linarith
  qed
  then show ?thesis using r by simp
qed

end

interpretation mul_columns: column_steps "mul_step a b" "\<lambda>(i, j). unat (a ! i) * unat (b ! j)" for a b
proof
  fix c and p :: "nat \<times> nat"
  show "acc_val c + (case p of (i, j) \<Rightarrow> unat (a ! i) * unat (b ! j)) < LIMB ^ 3 \<Longrightarrow>
      acc_val (mul_step a b p c) = acc_val c + (case p of (i, j) \<Rightarrow> unat (a ! i) * unat (b ! j))"
    by (cases p) (simp add: mul_step_def mul_add_c_value)
  have "unat (a ! fst p) * unat (b ! snd p) \<le> LIMB * LIMB" by (intro mult_le_mono less_imp_le unat_limb)
  then show "(case p of (i, j) \<Rightarrow> unat (a ! i) * unat (b ! j)) \<le> 2 * (LIMB * LIMB)" by (cases p) simp
qed

interpretation sqr_columns: column_steps "sqr_step a" "\<lambda>(i, j). if i = j then unat (a ! i) * unat (a ! i) else 2 * (unat (a ! i) * unat (a ! j))" for a
proof
  fix c and p :: "nat \<times> nat"
  let ?w = "case p of (i, j) \<Rightarrow> if i = j then unat (a ! i) * unat (a ! i) else 2 * (unat (a ! i) * unat (a ! j))"
  have le: "unat (a ! fst p) * unat (a ! snd p) \<le> LIMB * LIMB" by (intro mult_le_mono less_imp_le unat_limb)
  then show "?w \<le> 2 * (LIMB * LIMB)" by (cases p) auto
  assume small: "acc_val c + ?w < LIMB ^ 3"
  show "acc_val (sqr_step a p c) = acc_val c + ?w"
  proof (cases p)
    case (Pair i j)
    show ?thesis
    proof (cases "i = j")
      case True
      then show ?thesis using small Pair by (simp add: sqr_step_def sqr_add_c_def mul_add_c_value)
    next
      case False
      then have "acc_val (mul_add_c (a ! i) (a ! j) c) = acc_val c + unat (a ! i) * unat (a ! j)"
        using small Pair by (intro mul_add_c_value) simp
      then show ?thesis using False small Pair by (simp add: sqr_step_def sqr_add_c2_def mul_add_c2_twice mul_add_c_value)
    qed
  qed
qed

text \<open>The columns hold each product once, in its place.\<close>

lemma wval_sum: "wval ws = (\<Sum>i < length ws. unat (ws ! i) * LIMB ^ i)"
  by (induction ws) (simp_all add: sum.lessThan_Suc_shift sum_distrib_left algebra_simps del: sum.lessThan_Suc)

fun in_place :: "nat \<Rightarrow> (nat \<times> nat) list list \<Rightarrow> bool" where
  "in_place k [] = True"
| "in_place k (col # cols) = (list_all (\<lambda>(i, j). i + j = k) col \<and> in_place (Suc k) cols)"

lemma col_sum_in_place:
  "in_place k cols \<Longrightarrow> LIMB ^ k * col_sum weight cols = sum_list (map (\<lambda>(i, j). weight (i, j) * LIMB ^ (i + j)) (concat cols))"
proof (induction k cols rule: in_place.induct)
  case (2 k col cols)
  have "sum_list (map (\<lambda>(i, j). weight (i, j) * LIMB ^ (i + j)) col) = LIMB ^ k * sum_list (map weight col)"
    using 2(2) by (induction col) (auto simp: algebra_simps)
  then show ?case using 2 by (simp add: algebra_simps)
qed simp

lemma col_sum_set:
  assumes "in_place 0 cols" and "distinct (concat cols)"
  shows "col_sum weight cols = (\<Sum>(i, j) \<in> set (concat cols). weight (i, j) * LIMB ^ (i + j))"
  using col_sum_in_place [OF assms(1), of weight] assms(2) by (simp add: sum_list_distinct_conv_sum_set)

lemma mul_col_sum:
  assumes "in_place 0 cols" and "distinct (concat cols)" and "set (concat cols) = {..<n} \<times> {..<n}"
    and "length a = n" and "length b = n"
  shows "col_sum (\<lambda>(i, j). unat (a ! i) * unat (b ! j)) cols = wval a * wval b"
proof -
  have "wval a * wval b = (\<Sum>i<n. \<Sum>j<n. unat (a ! i) * unat (b ! j) * LIMB ^ (i + j))"
    unfolding wval_sum [of a] wval_sum [of b] assms(4,5) sum_product by (simp add: power_add algebra_simps)
  also have "\<dots> = (\<Sum>(i, j) \<in> {..<n} \<times> {..<n}. unat (a ! i) * unat (b ! j) * LIMB ^ (i + j))"
    by (simp add: sum.cartesian_product)
  finally show ?thesis unfolding col_sum_set [OF assms(1,2)] assms(3) by simp
qed

lemma lower_triangle:
  fixes f :: "nat \<Rightarrow> nat \<Rightarrow> nat"
  assumes "\<And>i j. f i j = f j i"
  shows "(\<Sum>i<n. \<Sum>j<n. f i j) = (\<Sum>i<n. \<Sum>j\<le>i. if i = j then f i j else 2 * f i j)"
proof (induction n)
  case (Suc n)
  have "(\<Sum>i<Suc n. \<Sum>j<Suc n. f i j) = (\<Sum>i<n. \<Sum>j<n. f i j) + 2 * (\<Sum>j<n. f n j) + f n n"
    using assms by (simp add: sum.distrib)
  moreover have "(\<Sum>j\<le>n. if n = j then f n j else 2 * f n j) = 2 * (\<Sum>j<n. f n j) + f n n"
  proof -
    have "{..n} = insert n {..<n}" by auto
    then show ?thesis by (simp add: sum_distrib_left)
  qed
  ultimately show ?case using Suc by simp
qed simp

lemma sqr_col_sum:
  assumes "in_place 0 cols" and "distinct (concat cols)" and "set (concat cols) = Sigma {..<n} (\<lambda>i. {..i})" and "length a = n"
  shows "col_sum (\<lambda>(i, j). if i = j then unat (a ! i) * unat (a ! i) else 2 * (unat (a ! i) * unat (a ! j))) cols = wval a * wval a"
proof -
  have "wval a * wval a = (\<Sum>i<n. \<Sum>j<n. unat (a ! i) * unat (a ! j) * LIMB ^ (i + j))"
    unfolding wval_sum [of a] assms(4) sum_product by (simp add: power_add algebra_simps)
  also have "\<dots> = (\<Sum>i<n. \<Sum>j\<le>i. if i = j then unat (a ! i) * unat (a ! j) * LIMB ^ (i + j) else 2 * (unat (a ! i) * unat (a ! j) * LIMB ^ (i + j)))"
    by (rule lower_triangle) (simp add: add.commute mult.commute)
  also have "\<dots> = (\<Sum>(i, j) \<in> Sigma {..<n} (\<lambda>i. {..i}).
      (if i = j then unat (a ! i) * unat (a ! i) else 2 * (unat (a ! i) * unat (a ! j))) * LIMB ^ (i + j))"
    by (subst sum.Sigma) (auto intro!: sum.cong)
  finally show ?thesis unfolding col_sum_set [OF assms(1,2)] assms(3) by simp
qed

lemma range_sets: "{..<n} = set [0..<n]" "{..i} = set [0..<Suc i]" for n i :: nat
  by auto

lemma column_tables:
  "in_place 0 mul_columns4" "distinct (concat mul_columns4)" "set (concat mul_columns4) = {..<4} \<times> {..<4}"
  "in_place 0 mul_columns8" "distinct (concat mul_columns8)" "set (concat mul_columns8) = {..<8} \<times> {..<8}"
  "in_place 0 sqr_columns4" "distinct (concat sqr_columns4)" "set (concat sqr_columns4) = Sigma {..<4} (\<lambda>i. {..i})"
  "in_place 0 sqr_columns8" "distinct (concat sqr_columns8)" "set (concat sqr_columns8) = Sigma {..<8} (\<lambda>i. {..i})"
  unfolding range_sets by code_simp+

lemma product_fits: "length a = n \<Longrightarrow> length b = m \<Longrightarrow> wval a * wval b < LIMB ^ (n + m)"
  using mult_strict_mono [OF wval_less [of a] wval_less [of b]] by (simp add: power_add)

theorem mul_comba8_value:
  assumes "length a = 8" and "length b = 8"
  shows "length (bn_mul_comba8 a b) = 16" and "wval (bn_mul_comba8 a b) = wval a * wval b"
proof -
  have s: "col_sum (\<lambda>(i, j). unat (a ! i) * unat (b ! j)) mul_columns8 = wval a * wval b"
    by (rule mul_col_sum [OF column_tables(4-6) assms])
  have "length mul_columns8 = 15" "\<forall>col \<in> set mul_columns8. length col \<le> 8" by (simp_all add: mul_columns8_def)
  then show "length (bn_mul_comba8 a b) = 16" "wval (bn_mul_comba8 a b) = wval a * wval b"
    using mul_columns.comba_value [of mul_columns8 a b] product_fits [OF assms] s by (simp_all add: bn_mul_comba8_def)
qed

theorem mul_comba4_value:
  assumes "length a = 4" and "length b = 4"
  shows "length (bn_mul_comba4 a b) = 8" and "wval (bn_mul_comba4 a b) = wval a * wval b"
proof -
  have s: "col_sum (\<lambda>(i, j). unat (a ! i) * unat (b ! j)) mul_columns4 = wval a * wval b"
    by (rule mul_col_sum [OF column_tables(1-3) assms])
  have "length mul_columns4 = 7" "\<forall>col \<in> set mul_columns4. length col \<le> 8" by (simp_all add: mul_columns4_def)
  then show "length (bn_mul_comba4 a b) = 8" "wval (bn_mul_comba4 a b) = wval a * wval b"
    using mul_columns.comba_value [of mul_columns4 a b] product_fits [OF assms] s by (simp_all add: bn_mul_comba4_def)
qed

theorem sqr_comba8_value:
  assumes "length a = 8"
  shows "length (bn_sqr_comba8 a) = 16" and "wval (bn_sqr_comba8 a) = wval a * wval a"
proof -
  note s = sqr_col_sum [OF column_tables(10-12) assms]
  have "length sqr_columns8 = 15" "\<forall>col \<in> set sqr_columns8. length col \<le> 8" by (simp_all add: sqr_columns8_def)
  then show "length (bn_sqr_comba8 a) = 16" "wval (bn_sqr_comba8 a) = wval a * wval a"
    using sqr_columns.comba_value [of sqr_columns8 a] product_fits [OF assms assms] s by (simp_all add: bn_sqr_comba8_def)
qed

theorem sqr_comba4_value:
  assumes "length a = 4"
  shows "length (bn_sqr_comba4 a) = 8" and "wval (bn_sqr_comba4 a) = wval a * wval a"
proof -
  note s = sqr_col_sum [OF column_tables(7-9) assms]
  have "length sqr_columns4 = 7" "\<forall>col \<in> set sqr_columns4. length col \<le> 8" by (simp_all add: sqr_columns4_def)
  then show "length (bn_sqr_comba4 a) = 8" "wval (bn_sqr_comba4 a) = wval a * wval a"
    using sqr_columns.comba_value [of sqr_columns4 a] product_fits [OF assms assms] s by (simp_all add: bn_sqr_comba4_def)
qed

end
