(* ===== verification/BnMul_Spec.thy ===== *)
theory BnMul_Spec
  imports BnMul BnComba_Spec
begin

text \<open>
  Every multiplication of \<open>BnMul\<close> computes the product of the numbers: schoolbook, by columns, and the
  two Karatsuba recursions, whose middle term is a sum or a difference chosen by a mask.
\<close>

section \<open>Schoolbook multiplication\<close>

lemma mul_normal_loop_value:
  "length r = na + i \<Longrightarrow> length a = na \<Longrightarrow>
   length (mul_normal_loop a na r i b) = na + i + length b \<and>
   wval (mul_normal_loop a na r i b) = wval r + LIMB ^ i * (wval a * wval b)"
proof (induction b arbitrary: r i)
  case (Cons w b)
  obtain s c where m: "bn_mul_add_words (drop i r) a na w = (s, c)" by fastforce
  have v: "length s = na" "wval s + LIMB ^ na * unat c = wval (drop i r) + unat w * wval a"
    using mul_add_words_value [OF m] Cons.prems by simp_all
  let ?r = "take i r @ s @ [c]"
  have "wval ?r = wval (take i r) + LIMB ^ i * (wval s + LIMB ^ na * unat c)"
    using Cons.prems v(1) by (simp add: wval_append)
  also have "\<dots> = (wval (take i r) + LIMB ^ i * wval (drop i r)) + LIMB ^ i * (unat w * wval a)"
    unfolding v(2) by (simp add: algebra_simps)
  also have "\<dots> = wval r + LIMB ^ i * (unat w * wval a)"
    using wval_split [of r i] Cons.prems(1) by (simp add: min_absorb1)
  finally have r: "wval ?r = wval r + LIMB ^ i * (unat w * wval a)" .
  have "length ?r = na + Suc i" using v(1) Cons.prems by simp
  from Cons.IH [OF this Cons.prems(2)] show ?case using m r by (simp add: algebra_simps)
qed simp

theorem mul_normal_value:
  assumes "length a = na" and "length b = nb"
  shows "length (bn_mul_normal a na b nb) = na + nb" and "wval (bn_mul_normal a na b nb) = wval a * wval b"
proof -
  have main: "length (bn_mul_normal a na b nb) = na + nb \<and> wval (bn_mul_normal a na b nb) = wval a * wval b"
    if l: "length a = na" "length b = nb" "nb \<le> na" for a na b nb
  proof (cases b)
    case Nil
    then show ?thesis using l by (auto simp: bn_mul_normal_def)
  next
    case (Cons w b')
    obtain s c where m: "bn_mul_words a na w = (s, c)" by fastforce
    have v: "length s = na" "wval s + LIMB ^ na * unat c = unat w * wval a"
      using mul_words_value [OF m] l by simp_all
    have "bn_mul_normal a na b nb = mul_normal_loop a na (s @ [c]) 1 b'"
      using l Cons m by (simp add: bn_mul_normal_def)
    then show ?thesis
      using mul_normal_loop_value [of "s @ [c]" na 1 a b'] v l Cons by (simp add: wval_append algebra_simps)
  qed
  have "length (bn_mul_normal a na b nb) = na + nb \<and> wval (bn_mul_normal a na b nb) = wval a * wval b"
  proof (cases "na < nb")
    case True
    then have "bn_mul_normal a na b nb = bn_mul_normal b nb a na" by (simp add: bn_mul_normal_def)
    then show ?thesis using main [of b nb a na] True assms by (simp add: mult.commute)
  next
    case False
    then show ?thesis using main [of a na b nb] assms by simp
  qed
  then show "length (bn_mul_normal a na b nb) = na + nb" "wval (bn_mul_normal a na b nb) = wval a * wval b" by simp_all
qed

section \<open>Absolute differences\<close>

lemma sub_from_0_value:
  "unat c \<le> 1 \<Longrightarrow> sub_from_0_loop c b = (r, c') \<Longrightarrow>
   length r = length b \<and> unat c' \<le> 1 \<and> wval r + wval b + unat c = LIMB ^ length b * unat c'"
proof (induction b arbitrary: c r c')
  case (Cons t b)
  let ?c = "if t \<noteq> 0 then 1 else c"
  have eq: "?c = (if 0 \<noteq> t then of_bool (0 < t) else c)" by (auto simp: word_neq_0_conv)
  obtain rs c1 where l: "sub_from_0_loop ?c b = (rs, c1)" by fastforce
  note st = sub_step [OF Cons.prems(1), of 0 t, folded eq]
  have r: "r = (0 - t - c) # rs" "c' = c1" using Cons.prems(2) l by (simp_all split del: if_split)
  have IH: "length rs = length b" "unat c1 \<le> 1" "wval rs + wval b + unat ?c = LIMB ^ length b * unat c1"
    using Cons.IH [OF st(2) l] by simp_all
  have "LIMB * (wval rs + wval b) + LIMB * unat ?c = LIMB * (LIMB ^ length b * unat c1)"
    using arg_cong [OF IH(3), of "(*) LIMB"] by (simp add: algebra_simps)
  then show ?case using r IH(1,2) st(1) by (simp add: algebra_simps split del: if_split)
qed simp

lemma sub_borrow_value:
  "unat c \<le> 1 \<Longrightarrow> sub_borrow_loop c a = (r, c') \<Longrightarrow>
   length r = length a \<and> unat c' \<le> 1 \<and> wval r + unat c = wval a + LIMB ^ length a * unat c'"
proof (induction a arbitrary: c r c')
  case (Cons t a)
  show ?case
  proof (cases "c = 0")
    case True
    then show ?thesis using Cons.prems by auto
  next
    case False
    let ?c = "if t \<noteq> 0 then 0 else c"
    have eq: "?c = (if t \<noteq> 0 then of_bool (t < 0) else c)" by simp
    obtain rs c1 where l: "sub_borrow_loop ?c a = (rs, c1)" by fastforce
    note st = sub_step [OF Cons.prems(1), of t 0, folded eq]
    have r: "r = (t - c) # rs" "c' = c1" using Cons.prems(2) l False by (simp_all split del: if_split)
    have IH: "length rs = length a" "unat c1 \<le> 1" "wval rs + unat ?c = wval a + LIMB ^ length a * unat c1"
      using Cons.IH [OF st(2) l] by simp_all
    have "LIMB * wval rs + LIMB * unat ?c = LIMB * wval a + LIMB * (LIMB ^ length a * unat c1)"
      using arg_cong [OF IH(3), of "(*) LIMB"] by (simp add: algebra_simps)
    then show ?thesis using r IH(1,2) st(1) by (simp add: algebra_simps split del: if_split)
  qed
qed simp

text \<open>The lengths: \<open>cl\<close> common words and \<open>dl\<close> more in \<open>a\<close>, or \<open>- dl\<close> more in \<open>b\<close>.\<close>

lemma sub_part_words_value:
  assumes "bn_sub_part_words a b cl dl = (r, c)" and "length a = cl + nat dl" and "length b = cl + nat (- dl)"
  shows "length r = cl + nat \<bar>dl\<bar> \<and> unat c \<le> 1 \<and> wval r + wval b = wval a + LIMB ^ (cl + nat \<bar>dl\<bar>) * unat c"
proof -
  obtain s k where s: "bn_sub_words a b cl = (s, k)" by fastforce
  have v: "length s = cl" "unat k \<le> 1" "wval s + wval (take cl b) = wval (take cl a) + LIMB ^ cl * unat k"
    using sub_words_value [OF s] assms(2,3) by simp_all
  have a: "wval a = wval (take cl a) + LIMB ^ cl * wval (drop cl a)" using wval_split [of a cl] assms(2) by (simp add: min_absorb1)
  have b: "wval b = wval (take cl b) + LIMB ^ cl * wval (drop cl b)" using wval_split [of b cl] assms(3) by (simp add: min_absorb1)
  consider "dl = 0" | "dl < 0" | "0 < dl" by linarith
  then show ?thesis
  proof cases
    case 1
    then show ?thesis using assms s v by (simp add: bn_sub_part_words_def)
  next
    case 2
    have t: "take (nat (- dl)) (drop cl b) = drop cl b" "length (drop cl b) = nat (- dl)" "nat \<bar>dl\<bar> = nat (- dl)" using assms(3) 2 by simp_all
    obtain r' k' where l: "sub_from_0_loop k (drop cl b) = (r', k')" by fastforce
    have w: "length r' = nat (- dl)" "unat k' \<le> 1" "wval r' + wval (drop cl b) + unat k = LIMB ^ nat (- dl) * unat k'"
      using sub_from_0_value [OF v(2) l] unfolding t(2) by simp_all
    have r: "r = s @ r'" "c = k'" using assms(1) s l t(1) 2 by (simp_all add: bn_sub_part_words_def)
    have "LIMB ^ cl * wval r' + LIMB ^ cl * wval (drop cl b) + LIMB ^ cl * unat k = LIMB ^ (cl + nat (- dl)) * unat k'"
      using arg_cong [OF w(3), of "(*) (LIMB ^ cl)"] by (simp add: algebra_simps power_add)
    moreover have "wval a = wval (take cl a)" using a assms(2) 2 by simp
    ultimately show ?thesis using v(1,3) w(1,2) t(3) b by (simp add: r wval_append)
  next
    case 3
    have t: "take (nat dl) (drop cl a) = drop cl a" "length (drop cl a) = nat dl" "nat \<bar>dl\<bar> = nat dl" using assms(2) 3 by simp_all
    obtain r' k' where l: "sub_borrow_loop k (drop cl a) = (r', k')" by fastforce
    have w: "length r' = nat dl" "unat k' \<le> 1" "wval r' + unat k = wval (drop cl a) + LIMB ^ nat dl * unat k'"
      using sub_borrow_value [OF v(2) l] unfolding t(2) by simp_all
    have r: "r = s @ r'" "c = k'" using assms(1) s l t(1) 3 by (simp_all add: bn_sub_part_words_def)
    have "LIMB ^ cl * wval r' + LIMB ^ cl * unat k = LIMB ^ cl * wval (drop cl a) + LIMB ^ (cl + nat dl) * unat k'"
      using arg_cong [OF w(3), of "(*) (LIMB ^ cl)"] by (simp add: algebra_simps power_add)
    moreover have "wval b = wval (take cl b)" using b assms(3) 3 by simp
    ultimately show ?thesis using v(1,3) w(1,2) t(3) a by (simp add: r wval_append)
  qed
qed

text \<open>From two differences with their borrows: one of them is the absolute value.\<close>

lemma abs_from_borrows:
  assumes "x + b = a + P * k" and "y + a = b + P * k'" and "a < P" and "b < P" and "x < P" and "y < P" and "k \<le> (1 :: nat)" and "k' \<le> 1"
  shows "k = (if a < b then 1 else 0)" and "int (if a < b then y else x) = \<bar>int a - int b\<bar>"
proof -
  have k: "k = 0 \<or> k = 1" "k' = 0 \<or> k' = 1" using assms(7,8) by linarith+
  show "k = (if a < b then 1 else 0)" using k(1) assms by auto
  show "int (if a < b then y else x) = \<bar>int a - int b\<bar>" using k assms by auto
qed

theorem abs_sub_part_words_value:
  assumes "bn_abs_sub_part_words a b cl dl = (r, m)" and "length a = cl + nat dl" and "length b = cl + nat (- dl)"
  shows "length r = cl + nat \<bar>dl\<bar>" and "int (wval r) = \<bar>int (wval a) - int (wval b)\<bar>" and "m = mask_w (wval a < wval b)"
proof -
  let ?n = "cl + nat \<bar>dl\<bar>"
  obtain x k where x: "bn_sub_part_words a b cl dl = (x, k)" by fastforce
  obtain y k' where y: "bn_sub_part_words b a cl (- dl) = (y, k')" by fastforce
  have vx: "length x = ?n" "unat k \<le> 1" "wval x + wval b = wval a + LIMB ^ ?n * unat k"
    using sub_part_words_value [OF x assms(2,3)] by simp_all
  have vy: "length y = ?n" "unat k' \<le> 1" "wval y + wval a = wval b + LIMB ^ ?n * unat k'"
    using sub_part_words_value [OF y] assms(2,3) by simp_all
  have bound: "length ws \<le> ?n \<Longrightarrow> wval ws < LIMB ^ ?n" for ws
    using wval_less [of ws] power_increasing [of "length ws" ?n LIMB] by (simp add: less_le_trans)
  have small: "wval a < LIMB ^ ?n" "wval b < LIMB ^ ?n" "wval x < LIMB ^ ?n" "wval y < LIMB ^ ?n"
    using assms(2,3) vx(1) vy(1) by (auto intro!: bound)
  note res = abs_from_borrows [OF vx(3) vy(3) small vx(2) vy(2)]
  have "k \<noteq> 0 \<longleftrightarrow> wval a < wval b" using res(1) unat_eq_zero [of k] by (auto split: if_splits)
  then have mk: "- k = mask_w (wval a < wval b)" using mask_of_bit [OF vx(2)] by simp
  have len: "cl + nat (if dl < 0 then - dl else dl) = ?n" by simp
  have r: "r = (if wval a < wval b then y else x)" "m = mask_w (wval a < wval b)"
    using assms(1) x y vx(1) vy(1)
    by (cases "wval a < wval b"; simp add: bn_abs_sub_part_words_def Let_def len mk consttime split del: if_split)+
  show "length r = ?n" "int (wval r) = \<bar>int (wval a) - int (wval b)\<bar>" "m = mask_w (wval a < wval b)"
    using r vx(1) vy(1) res(2) by (cases "wval a < wval b"; simp)+
qed

theorem abs_sub_words_value:
  assumes "length a = n" and "length b = n"
  shows "length (bn_abs_sub_words a b n) = n" and "int (wval (bn_abs_sub_words a b n)) = \<bar>int (wval a) - int (wval b)\<bar>"
proof -
  have "bn_sub_part_words a b n 0 = bn_sub_words a b n" for a b by (simp add: bn_sub_part_words_def case_prod_beta)
  then have eq: "bn_abs_sub_words a b n = fst (bn_abs_sub_part_words a b n 0)"
    by (simp add: bn_abs_sub_words_def bn_abs_sub_part_words_def Let_def split: prod.splits)
  obtain r m where "bn_abs_sub_part_words a b n 0 = (r, m)" by fastforce
  from abs_sub_part_words_value [OF this] this assms
  show "length (bn_abs_sub_words a b n) = n" "int (wval (bn_abs_sub_words a b n)) = \<bar>int (wval a) - int (wval b)\<bar>" by (simp_all add: eq)
qed

section \<open>Karatsuba multiplication\<close>

lemma propagate_value:
  "propagate c r = (r', c') \<Longrightarrow> length r' = length r \<and> wval r' + LIMB ^ length r * unat c' = wval r + unat c"
proof (induction r arbitrary: c r' c')
  case (Cons x r)
  obtain s k where l: "propagate (of_bool (x + c < x)) r = (s, k)" by fastforce
  have r: "r' = (x + c) # s" "c' = k" using Cons.prems l by simp_all
  have IH: "length s = length r" "wval s + LIMB ^ length r * unat k = wval r + unat (of_bool (x + c < x) :: u64)"
    using Cons.IH [OF l] by simp_all
  have "unat (x + c) + LIMB * unat (of_bool (x + c < x) :: u64) = unat x + unat c"
    using word_add_carry [of c x] unfolding add.commute [of x c] by (cases "c + x < x") simp_all
  from carry_step [OF IH(2) this] show ?case using r IH(1) by (simp add: algebra_simps)
qed simp

text \<open>The middle term, with its carry.\<close>

lemma middle_term:
  assumes len: "length r = 2 * n2" "length t = n2"
    and t01: "bn_add_words r (drop n2 r) n2 = (t01, c)"
    and tneg: "bn_sub_words t01 t n2 = (tn, b)" and tpos: "bn_add_words t01 t n2 = (tp, k)"
    and neg: "s \<longrightarrow> wval t \<le> wval (take n2 r) + wval (drop n2 r)"
  defines "x \<equiv> bn_select_words (mask_w s) tn tp n2" and "d \<equiv> constant_time_select_w (mask_w s) (c - b) (c + k)"
  shows "length x = n2" and "unat d \<le> 2"
    and "int (wval x + LIMB ^ n2 * unat d) = int (wval (take n2 r)) + int (wval (drop n2 r)) + (if s then - int (wval t) else int (wval t))"
proof -
  have v: "length t01 = n2" "unat c \<le> 1" "wval t01 + LIMB ^ n2 * unat c = wval (take n2 r) + wval (drop n2 r)"
    using add_words_value [OF t01] len by simp_all
  have vn: "length tn = n2" "unat b \<le> 1" "wval tn + wval t = wval t01 + LIMB ^ n2 * unat b"
    using sub_words_value [OF tneg] len v(1) by simp_all
  have vp: "length tp = n2" "unat k \<le> 1" "wval tp + LIMB ^ n2 * unat k = wval t01 + wval t"
    using add_words_value [OF tpos] len v(1) by simp_all
  have x: "x = (if s then tn else tp)" "d = (if s then c - b else c + k)"
    using vn(1) vp(1) by (simp_all add: x_def d_def consttime)
  show "length x = n2" using x vn(1) vp(1) by simp
  have plus: "unat (c + k) = unat c + unat k" using v(2) vp(2) by (simp add: unat_word_ariths)
  have minus: "unat b \<le> unat c \<and> unat (c - b) = unat c - unat b" if s
  proof -
    have "unat b \<le> unat c"
    proof (rule ccontr)
      assume "\<not> unat b \<le> unat c"
      then have "unat c = 0" "unat b = 1" using vn(2) by linarith+
      then have "wval tn + wval t = wval (take n2 r) + wval (drop n2 r) + LIMB ^ n2" using v(3) vn(3) by simp
      moreover have "wval tn < LIMB ^ n2" using wval_less [of tn] vn(1) by simp
      ultimately show False using neg that by linarith
    qed
    then show ?thesis by (simp add: unat_sub word_le_nat_alt)
  qed
  show "unat d \<le> 2" using x plus minus v(2) vp(2) by (auto split: if_splits)
  show "int (wval x + LIMB ^ n2 * unat d) = int (wval (take n2 r)) + int (wval (drop n2 r)) + (if s then - int (wval t) else int (wval t))"
  proof (cases s)
    case True
    then have "unat c = unat (c - b) + unat b" using minus by simp
    then have "LIMB ^ n2 * unat c = LIMB ^ n2 * unat (c - b) + LIMB ^ n2 * unat b" by (simp add: distrib_left)
    then have "wval tn + LIMB ^ n2 * unat (c - b) + wval t = wval (take n2 r) + wval (drop n2 r)" using v(3) vn(3) by linarith
    then show ?thesis unfolding x if_P [OF True] by linarith
  next
    case False
    have "LIMB ^ n2 * unat (c + k) = LIMB ^ n2 * unat c + LIMB ^ n2 * unat k" by (simp add: plus distrib_left)
    then have "wval tp + LIMB ^ n2 * unat (c + k) = wval (take n2 r) + wval (drop n2 r) + wval t" using v(3) vp(3) by linarith
    then show ?thesis unfolding x if_not_P [OF False] by linarith
  qed
qed

lemma karatsuba_sum_value:
  assumes len: "length r = 4 * n" "length t = 2 * n"
    and mid: "int m = int (wval (take (2 * n) r)) + int (wval (drop (2 * n) r)) + (if s then - int (wval t) else int (wval t))"
    and fits: "wval r + LIMB ^ n * m < LIMB ^ (4 * n)"
  shows "length (karatsuba_sum n r t (mask_w s)) = 4 * n" and "wval (karatsuba_sum n r t (mask_w s)) = wval r + LIMB ^ n * m"
proof -
  let ?n2 = "2 * n"
  obtain t01 c where t01: "bn_add_words r (drop ?n2 r) ?n2 = (t01, c)" by fastforce
  obtain tn b where tn: "bn_sub_words t01 t ?n2 = (tn, b)" by fastforce
  obtain tp k where tp: "bn_add_words t01 t ?n2 = (tp, k)" by fastforce
  define x where "x = bn_select_words (mask_w s) tn tp ?n2"
  define d where "d = constant_time_select_w (mask_w s) (c - b) (c + k)"
  have "s \<longrightarrow> wval t \<le> wval (take ?n2 r) + wval (drop ?n2 r)" using mid by auto
  note mt = middle_term [OF _ _ t01 tn tp this, folded x_def d_def]
  have x: "length x = ?n2" "unat d \<le> 2" using mt(1,2) len by simp_all
  have "int (wval x + LIMB ^ ?n2 * unat d) = int m" using mt(3) len unfolding mid by simp
  then have xm: "wval x + LIMB ^ ?n2 * unat d = m" by (simp only: of_nat_eq_iff)
  obtain y e where y: "bn_add_words (drop n r) x ?n2 = (y, e)" by fastforce
  have vy: "length y = ?n2" "unat e \<le> 1" "wval y + LIMB ^ ?n2 * unat e = wval (take ?n2 (drop n r)) + wval x"
    using add_words_value [OF y] len x(1) by simp_all
  have de: "unat (d + e) = unat d + unat e" using x(2) vy(2) by (simp add: unat_word_ariths)
  obtain z f where z: "propagate (d + e) (drop (n + ?n2) r) = (z, f)" by fastforce
  have vz: "length z = n" "wval z + LIMB ^ n * unat f = wval (drop (n + ?n2) r) + (unat d + unat e)"
    using propagate_value [OF z] len(1) by (simp_all add: de)
  have res: "karatsuba_sum n r t (mask_w s) = take n r @ y @ z"
    using z by (simp add: karatsuba_sum_def Let_def t01 tn tp y flip: x_def d_def)
  show "length (karatsuba_sum n r t (mask_w s)) = 4 * n" using res len vy(1) vz(1) by simp
  have r: "wval r = wval (take n r) + LIMB ^ n * (wval (take ?n2 (drop n r)) + LIMB ^ ?n2 * wval (drop (n + ?n2) r))"
    using wval_split [of r n] wval_split [of "drop n r" ?n2] len(1) by (simp add: min_absorb1 add.commute)
  let ?v = "wval (take n r @ y @ z)"
  have "?v = wval (take n r) + LIMB ^ n * (wval y + LIMB ^ ?n2 * wval z)"
    using len(1) vy(1) by (simp add: wval_append min_absorb1)
  moreover have "wval y + LIMB ^ ?n2 * wval z + LIMB ^ (3 * n) * unat f =
      wval (take ?n2 (drop n r)) + wval x + LIMB ^ ?n2 * (wval (drop (n + ?n2) r) + unat d)"
  proof -
    have "LIMB ^ ?n2 * wval z + LIMB ^ (3 * n) * unat f = LIMB ^ ?n2 * wval (drop (n + ?n2) r) + LIMB ^ ?n2 * unat d + LIMB ^ ?n2 * unat e"
      using arg_cong [OF vz(2), of "(*) (LIMB ^ ?n2)"] by (simp add: algebra_simps flip: power_add)
    then show ?thesis using vy(3) by (simp add: algebra_simps)
  qed
  ultimately have "?v + LIMB ^ n * (LIMB ^ (3 * n) * unat f) =
      wval (take n r) + LIMB ^ n * (wval (take ?n2 (drop n r)) + wval x + LIMB ^ ?n2 * (wval (drop (n + ?n2) r) + unat d))"
    by (simp add: distrib_left [symmetric])
  also have "\<dots> = wval r + LIMB ^ n * m" unfolding r xm [symmetric] by (simp add: algebra_simps)
  also have "LIMB ^ n * (LIMB ^ (3 * n) * unat f) = LIMB ^ (4 * n) * unat f"
    by (simp only: mult.assoc [symmetric] power_add [symmetric]) simp
  finally have eq: "?v + LIMB ^ (4 * n) * unat f = wval r + LIMB ^ n * m" .
  then have "LIMB ^ (4 * n) * unat f < LIMB ^ (4 * n) * 1" using fits by linarith
  then have "unat f = 0" by simp
  then show "wval (karatsuba_sum n r t (mask_w s)) = wval r + LIMB ^ n * m" using eq res by simp
qed

lemma mask_xor: "mask_w p XOR mask_w q = mask_w (p \<noteq> q)"
  by (cases p; cases q) (simp_all add: mask_w_def CONSTTIME_TRUE_W_def CONSTTIME_FALSE_W_def)

text \<open>The sign of \<open>(a0 - a1) (b1 - b0)\<close>, from the masks of the two differences.\<close>

lemma signed_product:
  assumes "int t = \<bar>int a0 - int a1\<bar> * \<bar>int b1 - int b0\<bar>"
  shows "int a0 * int b0 + int a1 * int b1 + (if (a0 < a1) \<noteq> (b1 < b0) then - int t else int t) = int (a0 * b1 + a1 * b0)"
proof -
  have "(if (a0 < a1) \<noteq> (b1 < b0) then - int t else int t) = (int a0 - int a1) * (int b1 - int b0)"
    unfolding assms by (cases "a0 < a1"; cases "b1 < b0") (simp_all add: algebra_simps)
  then show ?thesis by (simp add: algebra_simps)
qed

text \<open>One step of the recursion: from the three products to the product.\<close>

lemma karatsuba_step:
  assumes len: "length a0 = n" "length a1 \<le> n" "length b0 = n" "length b1 \<le> n"
    and t0: "bn_abs_sub_part_words a0 a1 (length a1) (int n - int (length a1)) = (t0, neg_a)"
    and t1: "bn_abs_sub_part_words b1 b0 (length b1) (int (length b1) - int n) = (t1, neg_b)"
    and prods: "length t23 = 2 * n" "wval t23 = wval t0 * wval t1"
      "length r01 = 2 * n" "wval r01 = wval a0 * wval b0" "length r23 = 2 * n" "wval r23 = wval a1 * wval b1"
  shows "length (karatsuba_sum n (r01 @ r23) t23 (neg_a XOR neg_b)) = 4 * n"
    and "wval (karatsuba_sum n (r01 @ r23) t23 (neg_a XOR neg_b)) = wval (a0 @ a1) * wval (b0 @ b1)"
proof -
  have v0: "int (wval t0) = \<bar>int (wval a0) - int (wval a1)\<bar>" "neg_a = mask_w (wval a0 < wval a1)"
    using abs_sub_part_words_value [OF t0] len(1,2) by simp_all
  have v1: "int (wval t1) = \<bar>int (wval b1) - int (wval b0)\<bar>" "neg_b = mask_w (wval b1 < wval b0)"
    using abs_sub_part_words_value [OF t1] len(3,4) by simp_all
  let ?s = "(wval a0 < wval a1) \<noteq> (wval b1 < wval b0)"
  let ?m = "wval a0 * wval b1 + wval a1 * wval b0"
  have neg: "neg_a XOR neg_b = mask_w ?s" by (simp add: v0(2) v1(2) mask_xor)
  have l: "length (r01 @ r23) = 4 * n" using prods by simp
  have mid: "int ?m = int (wval (take (2 * n) (r01 @ r23))) + int (wval (drop (2 * n) (r01 @ r23))) +
      (if ?s then - int (wval t23) else int (wval t23))"
    using signed_product [of "wval t23" "wval a0" "wval a1" "wval b1" "wval b0"] prods v0(1) v1(1) by simp
  have p2: "LIMB ^ (n * 2) = LIMB ^ n * LIMB ^ n" by (simp add: mult_2_right power_add)
  have val: "wval (r01 @ r23) + LIMB ^ n * ?m = wval (a0 @ a1) * wval (b0 @ b1)"
    using len prods by (simp add: wval_append p2 algebra_simps)
  have "wval (a0 @ a1) * wval (b0 @ b1) < LIMB ^ (length (a0 @ a1) + length (b0 @ b1))" by (rule product_fits) simp_all
  also have "\<dots> \<le> LIMB ^ (4 * n)" using len by (intro power_increasing) simp_all
  finally have "wval (r01 @ r23) + LIMB ^ n * ?m < LIMB ^ (4 * n)" by (simp only: val)
  note res = karatsuba_sum_value [OF l prods(1) mid this]
  show "length (karatsuba_sum n (r01 @ r23) t23 (neg_a XOR neg_b)) = 4 * n"
    "wval (karatsuba_sum n (r01 @ r23) t23 (neg_a XOR neg_b)) = wval (a0 @ a1) * wval (b0 @ b1)"
    using res val by (simp_all only: neg)
qed

lemma mul_recursive_step:
  assumes "16 \<le> n2" and "n = n2 div 2" and "8 \<le> n"
  shows "bn_mul_recursive a b n2 dna dnb =
     (case bn_abs_sub_part_words (take n a) (drop n a) (nat (int n + dna)) (int n - (int n + dna)) of
        (t0, neg_a) \<Rightarrow>
          (case bn_abs_sub_part_words (drop n b) (take n b) (nat (int n + dnb)) (int n + dnb - int n) of
             (t1, neg_b) \<Rightarrow>
               (let mul = (\<lambda>x y da db. if n = 8 \<and> dna = 0 \<and> dnb = 0 then bn_mul_comba8 x y else bn_mul_recursive x y n da db)
                in karatsuba_sum n (mul (take n a) (take n b) 0 0 @ mul (drop n a) (drop n b) dna dnb) (mul t0 t1 0 0) (neg_a XOR neg_b))))"
proof -
  have "\<not> (n2 = 8 \<and> dna = 0 \<and> dnb = 0)" "\<not> n2 < 16" "n \<noteq> 4" using assms by linarith+
  note ifs = this
  show ?thesis
  proof (cases "n = 8 \<and> dna = 0 \<and> dnb = 0")
    case True
    then show ?thesis using ifs by (subst bn_mul_recursive.simps) (simp add: BN_MUL_RECURSIVE_SIZE_NORMAL_def Let_def flip: assms(2))
  next
    case False
    have "\<not> (n = 4 \<and> dna = 0 \<and> dnb = 0)" using ifs by simp
    note conds = ifs(1,2) this False
    show ?thesis
      by (subst bn_mul_recursive.simps)
        (simp only: BN_MUL_RECURSIVE_SIZE_NORMAL_def Let_def conds [THEN if_not_P] prod.case flip: assms(2))
  qed
qed

theorem mul_recursive_value:
  assumes "n2 = 2 ^ k" and "- 8 \<le> dna" and "dna \<le> 0" and "- 8 \<le> dnb" and "dnb \<le> 0"
    and "int (length a) = int n2 + dna" and "int (length b) = int n2 + dnb"
  shows "length (bn_mul_recursive a b n2 dna dnb) = 2 * n2 \<and> wval (bn_mul_recursive a b n2 dna dnb) = wval a * wval b"
  using assms
proof (induction k arbitrary: n2 a b dna dnb)
  case (0 n2 a b dna dnb)
  have la: "length a = nat (int n2 + dna)" "length b = nat (int n2 + dnb)" using 0 by simp_all
  have l: "nat (int n2 + dna) + nat (int n2 + dnb) + nat (- (dna + dnb)) = 2 * n2" using 0 by linarith
  show ?case using 0(1) mul_normal_value [OF la] l
    by (simp add: bn_mul_recursive.simps BN_MUL_RECURSIVE_SIZE_NORMAL_def wval_append)
next
  case (Suc k n2 a b dna dnb)
  have la: "length a = nat (int n2 + dna)" "length b = nat (int n2 + dnb)" using Suc.prems by simp_all
  consider (comba) "n2 = 8" "dna = 0" "dnb = 0" | (normal) "\<not> (n2 = 8 \<and> dna = 0 \<and> dnb = 0)" "n2 < 16" | (rec) "16 \<le> n2"
    by linarith
  then show ?case
  proof cases
    case comba
    then show ?thesis using la mul_comba8_value [of a b] by (simp add: bn_mul_recursive.simps)
  next
    case normal
    have l: "nat (int n2 + dna) + nat (int n2 + dnb) + nat (- (dna + dnb)) = 2 * n2" using Suc.prems by linarith
    have "bn_mul_recursive a b n2 dna dnb =
        bn_mul_normal a (nat (int n2 + dna)) b (nat (int n2 + dnb)) @ replicate (nat (- (dna + dnb))) 0"
      using normal by (subst bn_mul_recursive.simps) (simp only: BN_MUL_RECURSIVE_SIZE_NORMAL_def if_False if_True)
    then show ?thesis using mul_normal_value [OF la] l by (simp add: wval_append)
  next
    case rec
    define n where "n = n2 div 2"
    have n: "n = 2 ^ k" "n2 = 2 * n" "8 \<le> n" using Suc.prems(1) rec by (simp_all add: n_def)
    let ?a0 = "take n a" and ?a1 = "drop n a" and ?b0 = "take n b" and ?b1 = "drop n b"
    have len: "length ?a0 = n" "length ?b0 = n" "int (length ?a1) = int n + dna" "int (length ?b1) = int n + dnb"
      "length ?a1 \<le> n" "length ?b1 \<le> n"
    proof -
      have i: "int (length a) = 2 * int n + dna" "int (length b) = 2 * int n + dnb" using Suc.prems(6,7) n(2) by simp_all
      then have "n \<le> length a" "n \<le> length b" using n(3) Suc.prems(2,4) by linarith+
      then show "length ?a0 = n" "length ?b0 = n" "int (length ?a1) = int n + dna" "int (length ?b1) = int n + dnb"
        "length ?a1 \<le> n" "length ?b1 \<le> n"
        using i Suc.prems(3,5) by auto
    qed
    obtain t0 neg_a where t0: "bn_abs_sub_part_words ?a0 ?a1 (length ?a1) (int n - int (length ?a1)) = (t0, neg_a)" by fastforce
    obtain t1 neg_b where t1: "bn_abs_sub_part_words ?b1 ?b0 (length ?b1) (int (length ?b1) - int n) = (t1, neg_b)" by fastforce
    have lt: "length t0 = n" "length t1 = n"
      using abs_sub_part_words_value(1) [OF t0] abs_sub_part_words_value(1) [OF t1] len by simp_all
    let ?mul = "\<lambda>x y da db. if n = 8 \<and> dna = 0 \<and> dnb = 0 then bn_mul_comba8 x y else bn_mul_recursive x y n da db"
    have mul: "length (?mul x y da db) = 2 * n \<and> wval (?mul x y da db) = wval x * wval y"
      if "int (length x) = int n + da" "int (length y) = int n + db" "da \<in> {dna, 0}" "db \<in> {dnb, 0}" for x y da db
      using Suc.IH [OF n(1), of da db x y] mul_comba8_value [of x y] that Suc.prems by auto
    note m1 = mul [of t0 0 t1 0] and m2 = mul [of ?a0 0 ?b0 0] and m3 = mul [OF len(3,4)]
    have tn: "nat (int n + dna) = length ?a1" "nat (int n + dnb) = length ?b1" "int n - (int n + dna) = int n - int (length ?a1)"
      "int n + dnb - int n = int (length ?b1) - int n"
      using len(3,4) by simp_all
    have "bn_mul_recursive a b n2 dna dnb = karatsuba_sum n (?mul ?a0 ?b0 0 0 @ ?mul ?a1 ?b1 dna dnb) (?mul t0 t1 0 0) (neg_a XOR neg_b)"
      using mul_recursive_step [OF rec n_def n(3), of a b dna dnb] unfolding tn t0 t1 prod.case Let_def .
    then show ?thesis
      using karatsuba_step [OF len(1,5,2,6) t0 t1] m1 m2 m3 lt len n(2) by simp
  qed
qed

section \<open>Sizes between two powers of two\<close>

lemma lower_half_pow2:
  assumes "tna < 2 ^ k" and "tnb < 2 ^ k" and "0 < tna \<or> 0 < tnb"
  obtains j where "lower_half (2 ^ k) tna tnb = 2 ^ j" "j < k" "2 ^ j \<le> max tna tnb" "max tna tnb < 2 * 2 ^ j"
proof -
  have "\<exists>j<k. lower_half (2 ^ k) tna tnb = 2 ^ j \<and> 2 ^ j \<le> max tna tnb \<and> max tna tnb < 2 * 2 ^ j"
    using assms
  proof (induction k)
    case (Suc k)
    have half: "2 ^ Suc k div 2 = (2 ^ k :: nat)" by simp
    show ?case
    proof (cases "2 ^ k \<le> max tna tnb")
      case True
      then have "lower_half (2 ^ Suc k) tna tnb = 2 ^ k"
        by (subst lower_half.simps) (auto simp: half Let_def max_def split: if_splits)
      then show ?thesis using True Suc.prems by (intro exI [of _ k]) simp
    next
      case False
      then have "tna < 2 ^ k" "tnb < 2 ^ k" by simp_all
      moreover from this have "lower_half (2 ^ Suc k) tna tnb = lower_half (2 ^ k) tna tnb"
        by (subst lower_half.simps) (simp add: half Let_def)
      ultimately show ?thesis using Suc by (metis less_Suc_eq)
    qed
  qed simp
  then show thesis using that by blast
qed

lemma write_into_zeros:
  "length x \<le> n \<Longrightarrow> length (mem_write (replicate n 0) 0 x) = n \<and> wval (mem_write (replicate n 0) 0 x) = wval x"
  by (simp add: mem_write_def wval_append)

text \<open>The product of the upper halves, in the first words of a zeroed array.\<close>

definition upper_product :: "words \<Rightarrow> words \<Rightarrow> nat \<Rightarrow> nat \<Rightarrow> nat \<Rightarrow> words" where
  "upper_product a1 b1 n tna tnb =
     (let z = replicate (2 * n) 0
      in if n = 8 then bn_mul_normal a1 tna b1 tnb @ replicate (2 * n - tna - tnb) 0
         else if tna < 16 \<and> tnb < 16 then mem_write z 0 (bn_mul_normal a1 tna b1 tnb)
         else
           (let i = lower_half n tna tnb
            in if i < tna \<or> i < tnb
               then mem_write z 0 (bn_mul_part_recursive (take (4 * i) z) a1 b1 i (tna - i) (tnb - i))
               else mem_write z 0 (bn_mul_recursive a1 b1 i (int tna - int i) (int tnb - int i))))"

lemma mul_part_recursive_step:
  assumes "8 \<le> n"
  shows "bn_mul_part_recursive r a b n tna tnb =
     (case bn_abs_sub_part_words (take n a) (drop n a) tna (int n - int tna) of
        (t0, neg_a) \<Rightarrow>
          (case bn_abs_sub_part_words (drop n b) (take n b) tnb (int tnb - int n) of
             (t1, neg_b) \<Rightarrow>
               (let mul = (\<lambda>x y. if n = 8 then bn_mul_comba8 x y else bn_mul_recursive x y n 0 0)
                in karatsuba_sum n (mul (take n a) (take n b) @ upper_product (drop n a) (drop n b) n tna tnb) (mul t0 t1) (neg_a XOR neg_b))))"
proof -
  have c: "\<not> n < 8" using assms by simp
  show ?thesis
  proof (cases "n = 8")
    case True
    then show ?thesis by (subst bn_mul_part_recursive.simps) (simp add: Let_def upper_product_def)
  next
    case False
    show ?thesis
      by (subst bn_mul_part_recursive.simps)
        (simp only: BN_MUL_RECURSIVE_SIZE_NORMAL_def Let_def upper_product_def c [THEN if_not_P] False [THEN if_not_P] prod.case mult.commute [of n 2])
  qed
qed

theorem mul_part_recursive_value:
  assumes "n = 2 ^ k" and "8 \<le> n" and "tna < n" and "tnb < n" and "tna \<le> Suc tnb" and "tnb \<le> Suc tna"
    and "length a = n + tna" and "length b = n + tnb"
  shows "length (bn_mul_part_recursive r a b n tna tnb) = 4 * n \<and> wval (bn_mul_part_recursive r a b n tna tnb) = wval a * wval b"
  using assms
proof (induction n arbitrary: k r a b tna tnb rule: less_induct)
  case (less n)
  let ?a0 = "take n a" and ?a1 = "drop n a" and ?b0 = "take n b" and ?b1 = "drop n b"
  have len: "length ?a0 = n" "length ?b0 = n" "length ?a1 = tna" "length ?b1 = tnb" "length ?a1 \<le> n" "length ?b1 \<le> n"
    using less.prems by simp_all
  obtain t0 neg_a where t0: "bn_abs_sub_part_words ?a0 ?a1 (length ?a1) (int n - int (length ?a1)) = (t0, neg_a)" by fastforce
  obtain t1 neg_b where t1: "bn_abs_sub_part_words ?b1 ?b0 (length ?b1) (int (length ?b1) - int n) = (t1, neg_b)" by fastforce
  have lt: "length t0 = n" "length t1 = n"
    using abs_sub_part_words_value(1) [OF t0] abs_sub_part_words_value(1) [OF t1] len(1-4) less.prems(3,4) by simp_all
  let ?mul = "\<lambda>x y. if n = 8 then bn_mul_comba8 x y else bn_mul_recursive x y n 0 0"
  have mul: "length (?mul x y) = 2 * n \<and> wval (?mul x y) = wval x * wval y" if "length x = n" "length y = n" for x y
    using mul_recursive_value [OF less.prems(1), of 0 0 x y] mul_comba8_value [of x y] that by auto
  have up: "length (upper_product ?a1 ?b1 n tna tnb) = 2 * n \<and> wval (upper_product ?a1 ?b1 n tna tnb) = wval ?a1 * wval ?b1"
  proof -
    note nrm = mul_normal_value [OF len(3,4)]
    consider "n = 8" | "n \<noteq> 8" "tna < 16" "tnb < 16" | "n \<noteq> 8" "16 \<le> max tna tnb" by (cases "n = 8"; cases "tna < 16 \<and> tnb < 16") (auto simp: le_max_iff_disj not_less)
    then show ?thesis
    proof cases
      case 1
      then show ?thesis using nrm less.prems by (simp add: upper_product_def wval_append)
    next
      case 2
      then show ?thesis using nrm write_into_zeros [of "bn_mul_normal ?a1 tna ?b1 tnb" "2 * n"] less.prems
        by (simp add: upper_product_def Let_def)
    next
      case 3
      obtain j where j: "lower_half n tna tnb = 2 ^ j" "j < k" "2 ^ j \<le> max tna tnb" "max tna tnb < 2 * 2 ^ j"
      proof -
        have "tna < 2 ^ k" "tnb < 2 ^ k" "0 < tna \<or> 0 < tnb" using less.prems(1,3,4) 3(2) by (auto simp: le_max_iff_disj)
        from lower_half_pow2 [OF this] that show thesis unfolding less.prems(1) by blast
      qed
      define i where "i = (2 :: nat) ^ j"
      have "2 * i = 2 ^ Suc j" by (simp add: i_def)
      also have "\<dots> \<le> n" unfolding less.prems(1) using j(2) by (intro power_increasing) simp_all
      finally have i2: "2 * i \<le> n" .
      have "16 < 2 * i" using j(4) 3(2) unfolding i_def by linarith
      then have i8: "8 \<le> i" by linarith
      have c: "\<not> (tna < 16 \<and> tnb < 16)" using 3(2) by auto
      show ?thesis
      proof (cases "i < tna \<or> i < tnb")
        case True
        have m: "tna < 2 * i" "tnb < 2 * i" using j(4) by (simp_all add: i_def)
        have ge: "i \<le> tna" "i \<le> tnb" using True less.prems(5,6) by linarith+
        have il: "i < n" "i = 2 ^ j" "tna - i < i" "tnb - i < i" "tna - i \<le> Suc (tnb - i)" "tnb - i \<le> Suc (tna - i)"
          "length ?a1 = i + (tna - i)" "length ?b1 = i + (tnb - i)"
          using i2 i8 m ge less.prems(5,6) unfolding len(3,4) i_def [symmetric] by (linarith | rule refl)+
        note IH = less.IH [OF il(1,2) i8 il(3-8)]
        have "upper_product ?a1 ?b1 n tna tnb =
            mem_write (replicate (2 * n) 0) 0 (bn_mul_part_recursive (take (4 * i) (replicate (2 * n) 0)) ?a1 ?b1 i (tna - i) (tnb - i))"
          unfolding upper_product_def Let_def j(1) i_def [symmetric] if_not_P [OF 3(1)] if_not_P [OF c] if_P [OF True] ..
        then show ?thesis using write_into_zeros [of _ "2 * n"] IH i2 by simp
      next
        case False
        then have eq: "max tna tnb = i" using j(3) unfolding i_def by linarith
        have dn: "- 8 \<le> int tna - int i" "int tna - int i \<le> 0" "- 8 \<le> int tnb - int i" "int tnb - int i \<le> 0"
          using eq less.prems(5,6) by linarith+
        have "int (length ?a1) = int i + (int tna - int i)" "int (length ?b1) = int i + (int tnb - int i)" using len(3,4) by simp_all
        note IH = mul_recursive_value [OF i_def dn this]
        have "upper_product ?a1 ?b1 n tna tnb =
            mem_write (replicate (2 * n) 0) 0 (bn_mul_recursive ?a1 ?b1 i (int tna - int i) (int tnb - int i))"
          unfolding upper_product_def Let_def j(1) i_def [symmetric] if_not_P [OF 3(1)] if_not_P [OF c] if_not_P [OF False] ..
        then show ?thesis using write_into_zeros [of _ "2 * n"] IH i2 by simp
      qed
    qed
  qed
  have "bn_mul_part_recursive r a b n tna tnb =
      karatsuba_sum n (?mul ?a0 ?b0 @ upper_product ?a1 ?b1 n tna tnb) (?mul t0 t1) (neg_a XOR neg_b)"
    using mul_part_recursive_step [OF less.prems(2), of r a b tna tnb] unfolding t0 [unfolded len(3)] t1 [unfolded len(4)] prod.case Let_def .
  then show ?case
    using karatsuba_step [OF len(1,5,2,6) t0 t1, of "?mul t0 t1" "?mul ?a0 ?b0" "upper_product ?a1 ?b1 n tna tnb"]
      mul [OF lt] mul [OF len(1,2)] up by simp
qed

section \<open>Fewer than eight words\<close>

text \<open>The words a \<open>memset\<close> of \<open>k\<close> bytes does not reach; and what it does to the others.\<close>

lemma length_zero_bytes [simp]: "length (zero_bytes k ws) = length ws"
  by (induction k ws rule: zero_bytes.induct) simp_all

lemma zero_bytes_nth:
  "i < length ws \<Longrightarrow> (i < k div 8 \<longrightarrow> zero_bytes k ws ! i = 0) \<and> ((k + 7) div 8 \<le> i \<longrightarrow> zero_bytes k ws ! i = ws ! i)"
proof (induction k ws arbitrary: i rule: zero_bytes.induct)
  case (2 k w ws)
  show ?case
  proof (cases i)
    case 0
    then show ?thesis by (cases "k = 0") auto
  next
    case (Suc j)
    have "(k + 7) div 8 = Suc ((k - 8 + 7) div 8)" "k div 8 = Suc ((k - 8) div 8)" if "8 \<le> k" using that by auto
    then show ?thesis using 2 Suc by auto
  qed
qed simp

theorem part_recursive_small:
  assumes n: "n < 8" "tna < n" "tnb < n" and len: "length a = n + tna" "length b = n + tnb" "length r = 4 * n"
    and i: "2 * n + tna + tnb + (2 * n - tna - tnb + 7) div 8 \<le> i" "i < 4 * n"
  defines "s \<equiv> bn_mul_part_recursive r a b n tna tnb"
  shows "length s = 4 * n" and "wval (take (2 * n + tna + tnb) s) = wval a * wval b" and "s ! i = r ! i"
    and "r ! i \<noteq> 0 \<Longrightarrow> wval s \<noteq> wval a * wval b"
proof -
  let ?p = "2 * n + tna + tnb" and ?k = "2 * n - tna - tnb"
  let ?m = "bn_mul_normal a (n + tna) b (n + tnb)"
  have m: "length ?m = ?p" "wval ?m = wval a * wval b" using mul_normal_value [OF len(1,2)] by simp_all
  have p: "?p \<le> 4 * n" using n by simp
  have w: "mem_write r 0 ?m = ?m @ drop ?p r" using m(1) by (simp add: mem_write_def)
  have s: "s = ?m @ zero_bytes ?k (drop ?p r)"
    using n(1) m(1) w unfolding s_def
    by (subst bn_mul_part_recursive.simps) (simp add: Let_def mult.commute [of n 2] add.assoc)
  show "length s = 4 * n" using s m(1) len(3) p by simp
  show t: "wval (take ?p s) = wval a * wval b" using s m by simp
  have ip: "?p \<le> i" using i(1) by simp
  have "i - ?p < length (drop ?p r)" "(?k + 7) div 8 \<le> i - ?p" using i len(3) by auto
  with zero_bytes_nth [of "i - ?p" "drop ?p r" ?k]
  have "zero_bytes ?k (drop ?p r) ! (i - ?p) = drop ?p r ! (i - ?p)" by blast
  also have "\<dots> = r ! i" using ip i(2) len(3) by simp
  finally show si: "s ! i = r ! i" using s m(1) ip by (simp add: nth_append)
  show "wval s \<noteq> wval a * wval b" if "r ! i \<noteq> 0"
  proof
    assume "wval s = wval a * wval b"
    moreover have "wval s = wval (take ?p s) + LIMB ^ ?p * wval (drop ?p s)"
      using wval_split [of s ?p] \<open>length s = 4 * n\<close> p by (simp add: min_absorb1)
    ultimately have "wval (drop ?p s) = 0" using t by (simp add: LIMB_def)
    then have "\<forall>w \<in> set (drop ?p s). w = 0" by (simp add: wval_eq_0_iff)
    moreover have "s ! i \<in> set (drop ?p s)"
      using ip i(2) \<open>length s = 4 * n\<close> by (auto simp: in_set_conv_nth intro!: exI [of _ "i - ?p"])
    ultimately show False using that si by simp
  qed
qed

section \<open>Squaring\<close>

fun cross_sum :: "words \<Rightarrow> nat" where
  "cross_sum [] = 0"
| "cross_sum (w # ws) = LIMB * (unat w * wval ws) + LIMB * LIMB * cross_sum ws"

lemma square_parts: "2 * cross_sum ws + square_sum ws = wval ws * wval ws"
proof (induction ws)
  case (Cons w ws)
  have "2 * cross_sum (w # ws) + square_sum (w # ws) =
      unat w * unat w + 2 * (LIMB * (unat w * wval ws)) + LIMB * LIMB * (2 * cross_sum ws + square_sum ws)"
    by (simp add: algebra_simps)
  then show ?case unfolding Cons by (simp add: algebra_simps)
qed simp

text \<open>\<open>r\<close> has a word more than the part that is final and the part that the next words are added to.\<close>

lemma sqr_cross_value:
  "ap \<noteq> [] \<Longrightarrow> length r = pos + length ap - 1 \<Longrightarrow> 1 \<le> pos \<Longrightarrow>
   length (sqr_cross r pos ap) = pos + 2 * length ap - 2 \<and>
   LIMB * wval (sqr_cross r pos ap) = LIMB * wval r + LIMB ^ pos * cross_sum ap"
proof (induction r pos ap rule: sqr_cross.induct)
  case (3 r pos w v ap)
  let ?ap = "v # ap"
  obtain s c where m: "bn_mul_add_words (drop pos r) ?ap (length ?ap) w = (s, c)" by fastforce
  have l: "length (drop pos r) = length ?ap" using 3(3) by simp
  have v: "length s = length ?ap" "wval s + LIMB ^ length ?ap * unat c = wval (drop pos r) + unat w * wval ?ap"
    using mul_add_words_value [OF m] l by simp_all
  let ?r = "take pos r @ s @ [c]"
  have lr: "length ?r = pos + 2 + length ?ap - 1" using v(1) 3(3) by simp
  have "wval ?r = wval (take pos r) + LIMB ^ pos * (wval s + LIMB ^ length ?ap * unat c)"
    using 3(3) v(1) by (simp add: wval_append)
  also have "\<dots> = (wval (take pos r) + LIMB ^ pos * wval (drop pos r)) + LIMB ^ pos * (unat w * wval ?ap)"
    unfolding v(2) by (simp add: algebra_simps)
  also have "wval (take pos r) + LIMB ^ pos * wval (drop pos r) = wval r"
    using wval_split [of r pos] 3(3) by (simp add: min_absorb1)
  finally have r: "wval ?r = wval r + LIMB ^ pos * (unat w * wval ?ap)" .
  have IH: "length (sqr_cross ?r (pos + 2) ?ap) = pos + 2 + 2 * length ?ap - 2"
    "LIMB * wval (sqr_cross ?r (pos + 2) ?ap) = LIMB * wval ?r + LIMB ^ (pos + 2) * cross_sum ?ap"
    using 3(1) [OF m [symmetric] _ lr] by simp_all
  have eq: "sqr_cross r pos (w # ?ap) = sqr_cross ?r (pos + 2) ?ap" using m by simp
  have "LIMB * wval (sqr_cross ?r (pos + 2) ?ap) = LIMB * wval r + LIMB ^ pos * cross_sum (w # ?ap)"
    unfolding IH(2) r by (simp add: algebra_simps power2_eq_square)
  then show ?case unfolding eq using IH(1) by simp
qed simp_all

theorem sqr_normal_value:
  assumes "length a = n"
  shows "length (bn_sqr_normal a n) = 2 * n" and "wval (bn_sqr_normal a n) = wval a * wval a"
proof -
  have "length (bn_sqr_normal a n) = 2 * n \<and> wval (bn_sqr_normal a n) = wval a * wval a"
  proof (cases a)
    case Nil
    then show ?thesis using assms by (simp add: bn_sqr_normal_def)
  next
    case (Cons w ws)
    have n: "n = Suc (length ws)" using assms Cons by simp
    define r where "r = (if n > 1
        then (case bn_mul_words ws (n - 1) w of (s, c) \<Rightarrow> sqr_cross (0 # s @ [c]) 3 ws) else [0]) @ [0]"
    have r: "length r = 2 * n \<and> wval r = cross_sum a"
    proof (cases ws)
      case Nil
      then show ?thesis using Cons n by (simp add: r_def)
    next
      case (Cons v ws')
      obtain s c where m: "bn_mul_words ws (n - 1) w = (s, c)" by fastforce
      have v: "length s = length ws" "wval s + LIMB ^ length ws * unat c = unat w * wval ws"
        using mul_words_value [OF m] n by simp_all
      let ?r = "0 # s @ [c]"
      have w: "wval ?r = LIMB * (unat w * wval ws)" using v by (simp add: wval_append)
      have "ws \<noteq> []" "length ?r = 3 + length ws - 1" using Cons v(1) by simp_all
      then have q: "length (sqr_cross ?r 3 ws) = 3 + 2 * length ws - 2"
        "LIMB * wval (sqr_cross ?r 3 ws) = LIMB * wval ?r + LIMB ^ 3 * cross_sum ws"
        using sqr_cross_value [of ws ?r 3] by simp_all
      have "LIMB * wval (sqr_cross ?r 3 ws) = LIMB * cross_sum a"
        unfolding q(2) w \<open>a = w # ws\<close> by (simp add: power3_eq_cube algebra_simps)
      then have "wval (sqr_cross ?r 3 ws) = cross_sum a" by simp
      moreover have "r = sqr_cross ?r 3 ws @ [0]" using m n Cons by (simp add: r_def)
      ultimately show ?thesis using q(1) n Cons by (simp add: wval_append)
    qed
    obtain r2 c2 where r2: "bn_add_words r r (2 * n) = (r2, c2)" by fastforce
    obtain r3 c3 where r3: "bn_add_words r2 (bn_sqr_words a n) (2 * n) = (r3, c3)" by fastforce
    have "bn_sqr_normal a n = (case bn_add_words r r (n * 2) of (r, _) \<Rightarrow> case bn_add_words r (bn_sqr_words a n) (n * 2) of (r, _) \<Rightarrow> r)"
      using n Cons by (simp add: bn_sqr_normal_def Let_def r_def)
    then have "bn_sqr_normal a n = r3" unfolding mult.commute [of n 2] r2 r3 prod.case r3 .
    moreover have v2: "length r2 = 2 * n" "wval r2 + LIMB ^ (2 * n) * unat c2 = 2 * cross_sum a"
      using add_words_value [OF r2] r by simp_all
    moreover have v3: "length r3 = 2 * n" "wval r3 + LIMB ^ (2 * n) * unat c3 = wval r2 + square_sum a"
      using add_words_value [OF r3] v2(1) sqr_words_value [of n a] assms by simp_all
    moreover have "wval a * wval a < LIMB ^ (2 * n)" using product_fits [OF assms assms] by (simp add: mult_2)
    then have small: "wval r3 + LIMB ^ (2 * n) * unat c3 + LIMB ^ (2 * n) * unat c2 < LIMB ^ (2 * n) * 1"
      using v2(2) v3(2) square_parts [of a] by linarith
    then have "LIMB ^ (2 * n) * unat c3 < LIMB ^ (2 * n) * 1" "LIMB ^ (2 * n) * unat c2 < LIMB ^ (2 * n) * 1" by linarith+
    then have "unat c3 = 0" "unat c2 = 0" by simp_all
    ultimately show ?thesis using square_parts [of a] by simp
  qed
  then show "length (bn_sqr_normal a n) = 2 * n" "wval (bn_sqr_normal a n) = wval a * wval a" by simp_all
qed

lemma sqr_recursive_step:
  assumes "16 \<le> n2" and "n2 = 2 * n" and "length a = n2"
    and t: "t = bn_sqr_recursive (bn_abs_sub_words (take n a) (drop n a) n) n" "length t = n2"
    and r: "r = bn_sqr_recursive (take n a) n @ bn_sqr_recursive (drop n a) n" "length r = 2 * n2"
  shows "bn_sqr_recursive a n2 = karatsuba_sum n r t (mask_w True)"
proof -
  have half: "n2 div 2 = n" using assms(2) by simp
  have c: "n2 \<noteq> 4" "n2 \<noteq> 8" "\<not> n2 < 16" using assms(1) by simp_all
  have abs: "bn_abs_sub_words a (drop n a) n = bn_abs_sub_words (take n a) (drop n a) n"
    by (simp add: bn_abs_sub_words_def bn_sub_words_def)
  obtain t01 k where t01: "bn_add_words r (drop n2 r) n2 = (t01, k)" by fastforce
  obtain tn b where tn: "bn_sub_words t01 t n2 = (tn, b)" by fastforce
  obtain tp k' where tp: "bn_add_words t01 t n2 = (tp, k')" by fastforce
  have "length t01 = n2" using add_words_value [OF t01] r(2) by simp
  then have "length tn = n2" "length tp = n2"
    using sub_words_value [OF tn] add_words_value [OF tp] t(2) by simp_all
  then have sel: "bn_select_words (mask_w True) tn tp n2 = tn" by (simp add: consttime)
  have "bn_sqr_recursive a n2 =
     (case bn_add_words r (drop n2 r) n2 of (t01, c) \<Rightarrow> case bn_sub_words t01 t n2 of (t23, borrow) \<Rightarrow>
       case bn_add_words (drop n r) t23 n2 of (r12, carry) \<Rightarrow> take n r @ r12 @ fst (propagate (c - borrow + carry) (drop (n + n2) r)))"
    by (subst bn_sqr_recursive.simps)
      (simp only: c [THEN if_not_P] BN_SQR_RECURSIVE_SIZE_NORMAL_def BN_MUL_RECURSIVE_SIZE_NORMAL_def half Let_def abs flip: t(1) r(1))
  then show ?thesis
    unfolding karatsuba_sum_def Let_def assms(2) [symmetric] t01 tn tp prod.case sel by (simp add: consttime)
qed

theorem sqr_recursive_value:
  assumes "n2 = 2 ^ k" and "length a = n2"
  shows "length (bn_sqr_recursive a n2) = 2 * n2 \<and> wval (bn_sqr_recursive a n2) = wval a * wval a"
  using assms
proof (induction k arbitrary: n2 a)
  case 0
  then show ?case using sqr_normal_value [of a n2]
    by (subst (1 2) bn_sqr_recursive.simps) (simp add: BN_SQR_RECURSIVE_SIZE_NORMAL_def BN_MUL_RECURSIVE_SIZE_NORMAL_def)
next
  case (Suc k n2 a)
  consider "n2 = 4" | "n2 = 8" | "n2 < 16" "n2 \<noteq> 4" "n2 \<noteq> 8" | (rec) "16 \<le> n2" by linarith
  then show ?case
  proof cases
    case 1
    then show ?thesis using sqr_comba4_value [of a] Suc.prems(2) by (simp add: bn_sqr_recursive.simps)
  next
    case 2
    then show ?thesis using sqr_comba8_value [of a] Suc.prems(2) by (simp add: bn_sqr_recursive.simps)
  next
    case 3
    have "bn_sqr_recursive a n2 = bn_sqr_normal a n2"
      using 3 by (subst bn_sqr_recursive.simps) (simp only: BN_SQR_RECURSIVE_SIZE_NORMAL_def BN_MUL_RECURSIVE_SIZE_NORMAL_def if_True if_False)
    then show ?thesis using sqr_normal_value [OF Suc.prems(2)] by simp
  next
    case rec
    define n where "n = (2 :: nat) ^ k"
    have n: "n2 = 2 * n" using Suc.prems(1) by (simp add: n_def)
    let ?a0 = "take n a" and ?a1 = "drop n a"
    have len: "length ?a0 = n" "length ?a1 = n" using Suc.prems(2) n by simp_all
    let ?d = "bn_abs_sub_words ?a0 ?a1 n"
    note d = abs_sub_words_value [OF len]
    note IH = Suc.IH [OF n_def]
    let ?t = "bn_sqr_recursive ?d n" and ?r = "bn_sqr_recursive ?a0 n @ bn_sqr_recursive ?a1 n"
    have t: "length ?t = n2" "wval ?t = wval ?d * wval ?d" using IH [OF d(1)] n by simp_all
    have r: "length ?r = 2 * n2" "wval (take n2 ?r) = wval ?a0 * wval ?a0" "wval (drop n2 ?r) = wval ?a1 * wval ?a1"
      using IH [OF len(1)] IH [OF len(2)] n by simp_all
    have step: "bn_sqr_recursive a n2 = karatsuba_sum n ?r ?t (mask_w True)"
      by (rule sqr_recursive_step [OF rec n Suc.prems(2) refl t(1) refl r(1)])
    let ?m = "2 * (wval ?a0 * wval ?a1)"
    have "int (wval ?t) = (int (wval ?a0) - int (wval ?a1)) * (int (wval ?a0) - int (wval ?a1))"
      unfolding t(2) of_nat_mult d(2) by (simp add: abs_mult_self_eq)
    then have mid: "int ?m = int (wval (take (2 * n) ?r)) + int (wval (drop (2 * n) ?r)) + (if True then - int (wval ?t) else int (wval ?t))"
      unfolding n [symmetric] r(2,3) by (simp add: algebra_simps)
    have a: "wval a = wval ?a0 + LIMB ^ n * wval ?a1" using wval_split [of a n] Suc.prems(2) n by (simp add: min_absorb1)
    have rv: "wval ?r = wval ?a0 * wval ?a0 + LIMB ^ (2 * n) * (wval ?a1 * wval ?a1)"
      using wval_split [of ?r n2] r n by (simp add: min_absorb1)
    have p2: "LIMB ^ (2 * n) = LIMB ^ n * LIMB ^ n" by (simp add: mult_2 power_add)
    have val: "wval ?r + LIMB ^ n * ?m = wval a * wval a" unfolding rv a p2 by (simp add: algebra_simps)
    have "wval a * wval a < LIMB ^ (4 * n)" using product_fits [OF Suc.prems(2,2)] n by (simp add: mult.commute)
    then have "wval ?r + LIMB ^ n * ?m < LIMB ^ (4 * n)" unfolding val .
    from karatsuba_sum_value [OF _ _ mid this] show ?thesis unfolding step val using r(1) t(1) n by simp
  qed
qed

section \<open>Small numbers\<close>

theorem mul_small_value:
  assumes "length a = na" and "length b = nb"
  obtains r where "bn_mul_small (na + nb) a na b nb = Some r" "length r = na + nb" "wval r = wval a * wval b"
  using that mul_comba8_value [of a b] mul_normal_value [OF assms] assms by (cases "na = 8 \<and> nb = 8") (auto simp: bn_mul_small_def)

theorem sqr_small_value:
  assumes "length a = na" and "na \<le> BN_SMALL_MAX_WORDS"
  obtains r where "bn_sqr_small (2 * na) a na = Some r" "length r = 2 * na" "wval r = wval a * wval a"
  using that sqr_comba4_value [of a] sqr_comba8_value [of a] sqr_normal_value [OF assms(1)] assms
  by (cases "na = 4"; cases "na = 8") (auto simp: bn_sqr_small_def)

end
