(* ===== verification/Bn_Spec.thy ===== *)
theory Bn_Spec
  imports Bn BnMul_Spec
begin

text \<open>
  What a \<open>BIGNUM\<close> stands for, \<open>bn_int\<close>, and the operations of \<open>bn.c\<close>, \<open>cmp.c\<close> and \<open>add.c\<close> as arithmetic on
  the integers. \<open>roomy\<close> says when an array can be made large enough: the operations succeed exactly then.
\<close>

section \<open>Values\<close>

definition bn_mag :: "bignum \<Rightarrow> nat" where
  "bn_mag bn = wval (bn_words bn)"

definition bn_int :: "bignum \<Rightarrow> int" where
  "bn_int bn = (if bn_neg bn then - int (bn_mag bn) else int (bn_mag bn))"

text \<open>The array has the size it is said to have; zero has no sign.\<close>

definition bn_wf :: "bignum \<Rightarrow> bool" where
  "bn_wf bn \<longleftrightarrow> length (bn_d bn) = bn_dmax bn \<and> bn_width bn \<le> bn_dmax bn"

definition bn_ok :: "bignum \<Rightarrow> bool" where
  "bn_ok bn \<longleftrightarrow> bn_wf bn \<and> (bn_neg bn \<longrightarrow> bn_mag bn \<noteq> 0)"

named_theorems bn_simps "values of big numbers"

lemma bn_ok_wf: "bn_ok bn \<Longrightarrow> bn_wf bn"
  by (simp add: bn_ok_def)

lemma length_bn_words [simp]: "bn_wf bn \<Longrightarrow> length (bn_words bn) = bn_width bn"
  by (simp add: bn_words_def bn_wf_def)

lemma bn_words_take: "bn_wf bn \<Longrightarrow> n \<le> bn_width bn \<Longrightarrow> take n (bn_d bn) = take n (bn_words bn)"
  by (simp add: bn_words_def min_absorb1)

lemma bn_mag_less: "bn_wf bn \<Longrightarrow> bn_mag bn < LIMB ^ bn_width bn"
  using wval_less [of "bn_words bn"] by (simp add: bn_mag_def)

lemma bn_words_flags [simp]:
  "bn_words (bn\<lparr>bn_neg := s\<rparr>) = bn_words bn" "bn_mag (bn\<lparr>bn_neg := s\<rparr>) = bn_mag bn" "bn_wf (bn\<lparr>bn_neg := s\<rparr>) = bn_wf bn"
  by (simp_all add: bn_words_def bn_mag_def bn_wf_def)

text \<open>Storing the words of a result.\<close>

lemma bn_words_store:
  assumes "length d = bn_dmax bn" and "length ws \<le> bn_dmax bn"
  shows "bn_words (bn\<lparr>bn_d := mem_write d 0 ws, bn_width := length ws\<rparr>) = ws"
    "bn_wf (bn\<lparr>bn_d := mem_write d 0 ws, bn_width := length ws\<rparr>)"
  using assms by (auto simp: bn_words_def bn_wf_def mem_write_def)

section \<open>Room\<close>

definition roomy :: "libc_malloc \<Rightarrow> bignum \<Rightarrow> nat \<Rightarrow> bool" where
  "roomy libc bn n \<longleftrightarrow>
     n \<le> bn_dmax bn \<or>
     n \<le> INT_MAX div (4 * BN_BITS2) \<and> bn_flags bn AND BN_FLG_STATIC_DATA = 0 \<and> words_malloc libc n \<noteq> None"

lemma roomy_neg [simp]: "roomy libc (bn\<lparr>bn_neg := s\<rparr>) n = roomy libc bn n"
  by (simp add: roomy_def)

lemma words_malloc_length:
  assumes "libc_wf libc" and "n \<le> INT_MAX" and "words_malloc libc n = Some ws"
  shows "length ws = n"
proof -
  have "size_mul BN_BYTES n = 8 * n" using assms(2) by (simp add: size_mul_def INT_MAX_def SIZE_MOD_def BN_BYTES_def)
  moreover have "8 * n \<le> HEAP_LIMIT" using assms(2) by (simp add: INT_MAX_def HEAP_LIMIT_def)
  ultimately show ?thesis using assms heap_malloc_length [of libc "8 * n"]
    by (auto simp: words_malloc_def words_of_bytes_def BN_BYTES_def)
qed

lemma wexpand:
  assumes "libc_wf libc" and "bn_wf bn" and "bn_wexpand libc bn n = (b, bn')"
  shows "b = roomy libc bn n" "bn_wf bn'" "bn_words bn' = bn_words bn" "bn_width bn' = bn_width bn"
    "bn_neg bn' = bn_neg bn" "bn_flags bn' = bn_flags bn" "b \<Longrightarrow> n \<le> bn_dmax bn'" "bn_dmax bn \<le> bn_dmax bn'"
    "b \<Longrightarrow> length (bn_d bn') = bn_dmax bn'" "\<not> b \<Longrightarrow> bn' = bn"
proof -
  have len: "length ws = n" if "words_malloc libc n = Some ws" "n \<le> INT_MAX div (4 * BN_BITS2)" for ws
    using words_malloc_length [OF assms(1) _ that(1)] that(2) by (simp add: INT_MAX_def BN_BITS2_def)
  have "b = roomy libc bn n \<and> bn_wf bn' \<and> bn_words bn' = bn_words bn \<and> bn_width bn' = bn_width bn \<and>
    bn_neg bn' = bn_neg bn \<and> bn_flags bn' = bn_flags bn \<and> (b \<longrightarrow> n \<le> bn_dmax bn') \<and> bn_dmax bn \<le> bn_dmax bn' \<and>
    (\<not> b \<longrightarrow> bn' = bn)"
  proof (cases "n \<le> bn_dmax bn \<or> \<not> roomy libc bn n")
    case True
    then show ?thesis using assms(2,3) by (auto simp: bn_wexpand_def roomy_def split: if_splits option.splits)
  next
    case False
    then obtain ws where ws: "words_malloc libc n = Some ws" "n \<le> INT_MAX div (4 * BN_BITS2)" by (auto simp: roomy_def)
    have l: "bn_width bn \<le> n" using False assms(2) by (simp add: bn_wf_def)
    have "b" "bn' = bn\<lparr>bn_d := mem_write ws 0 (bn_words bn), bn_dmax := n\<rparr>"
      using False ws assms(3) by (auto simp: bn_wexpand_def roomy_def split: if_splits)
    then show ?thesis using False len [OF ws] l assms(2)
      by (auto simp: bn_wf_def bn_words_def mem_write_def)
  qed
  then show "b = roomy libc bn n" "bn_wf bn'" "bn_words bn' = bn_words bn" "bn_width bn' = bn_width bn"
    "bn_neg bn' = bn_neg bn" "bn_flags bn' = bn_flags bn" "b \<Longrightarrow> n \<le> bn_dmax bn'" "bn_dmax bn \<le> bn_dmax bn'"
    "b \<Longrightarrow> length (bn_d bn') = bn_dmax bn'" "\<not> b \<Longrightarrow> bn' = bn"
    by (auto simp: bn_wf_def)
qed

section \<open>Minimal width\<close>

lemma minimal_width_le: "minimal_width d n \<le> n"
  by (induction n) auto

lemma minimal_width_value: "n \<le> length d \<Longrightarrow> wval (take (minimal_width d n) d) = wval (take n d)"
proof (induction n)
  case (Suc n)
  then have "wval (take (Suc n) d) = wval (take n d) + LIMB ^ n * unat (d ! n)"
    by (simp add: take_Suc_conv_app_nth wval_append)
  with Suc show ?case by simp
qed simp

lemma minimal_width_top: "minimal_width d n \<noteq> 0 \<Longrightarrow> d ! (minimal_width d n - 1) \<noteq> 0"
  by (induction n) auto

lemma minimal_width_0: "n \<le> length d \<Longrightarrow> minimal_width d n = 0 \<longleftrightarrow> wval (take n d) = 0"
proof
  assume n: "n \<le> length d" and v: "wval (take n d) = 0"
  have le: "minimal_width d n \<le> length d" using minimal_width_le [of d n] n by simp
  show "minimal_width d n = 0"
  proof (rule ccontr)
    assume m: "minimal_width d n \<noteq> 0"
    have "minimal_width d n - 1 < length d" using m le by simp
    then have "d ! (minimal_width d n - 1) \<in> set (take (minimal_width d n) d)"
      using m le by (auto simp: in_set_conv_nth intro!: exI [of _ "minimal_width d n - 1"])
    moreover have "wval (take (minimal_width d n) d) = 0" using minimal_width_value [OF n] v by simp
    ultimately show False using minimal_width_top [OF m] by (auto simp: wval_eq_0_iff)
  qed
next
  assume "n \<le> length d" "minimal_width d n = 0"
  then show "wval (take n d) = 0" using minimal_width_value [of n d] by simp
qed

lemma set_minimal_width:
  assumes "bn_wf bn"
  shows "bn_ok (bn_set_minimal_width bn)" "bn_int (bn_set_minimal_width bn) = bn_int bn"
    "bn_mag (bn_set_minimal_width bn) = bn_mag bn"
    "bn_neg (bn_set_minimal_width bn) \<longleftrightarrow> bn_neg bn \<and> bn_mag bn \<noteq> 0"
proof -
  have l: "bn_width bn \<le> length (bn_d bn)" using assms by (simp add: bn_wf_def)
  note mv = minimal_width_value [OF l] and m0 = minimal_width_0 [OF l] and ml = minimal_width_le [of "bn_d bn" "bn_width bn"]
  show mag: "bn_mag (bn_set_minimal_width bn) = bn_mag bn"
    using mv m0 by (auto simp: bn_set_minimal_width_def bn_minimal_width_def bn_mag_def bn_words_def Let_def)
  show neg: "bn_neg (bn_set_minimal_width bn) \<longleftrightarrow> bn_neg bn \<and> bn_mag bn \<noteq> 0"
    using m0 by (auto simp: bn_set_minimal_width_def bn_minimal_width_def bn_mag_def bn_words_def Let_def)
  have "bn_wf (bn_set_minimal_width bn)" using assms ml by (auto simp: bn_set_minimal_width_def bn_minimal_width_def bn_wf_def Let_def)
  then show "bn_ok (bn_set_minimal_width bn)" using mag neg by (simp add: bn_ok_def)
  show "bn_int (bn_set_minimal_width bn) = bn_int bn" using mag neg by (simp add: bn_int_def)
qed

lemma minimal_width_bounds:
  assumes "bn_wf bn" and "bn_minimal_width bn = Suc k"
  shows "LIMB ^ k \<le> bn_mag bn" and "bn_mag bn < LIMB ^ Suc k"
    and "bn_mag bn = wval (take k (bn_d bn)) + LIMB ^ k * unat (bn_d bn ! k)" and "bn_d bn ! k \<noteq> 0" and "k < bn_width bn"
proof -
  have l: "bn_width bn \<le> length (bn_d bn)" using assms by (simp add: bn_wf_def)
  have w: "minimal_width (bn_d bn) (bn_width bn) = Suc k" using assms(2) by (simp add: bn_minimal_width_def)
  have k: "k < bn_width bn" using minimal_width_le [of "bn_d bn" "bn_width bn"] w by simp
  have v: "bn_mag bn = wval (take (Suc k) (bn_d bn))"
    using minimal_width_value [OF l] w by (simp add: bn_mag_def bn_words_def)
  then show e: "bn_mag bn = wval (take k (bn_d bn)) + LIMB ^ k * unat (bn_d bn ! k)"
    using k l by (simp add: take_Suc_conv_app_nth wval_append)
  show nz: "bn_d bn ! k \<noteq> 0" using minimal_width_top [of "bn_d bn" "bn_width bn"] w by simp
  have "1 \<le> unat (bn_d bn ! k)" using nz by (simp add: Suc_le_eq unat_gt_0)
  then have "LIMB ^ k * 1 \<le> LIMB ^ k * unat (bn_d bn ! k)" by (rule mult_le_mono2)
  then show "LIMB ^ k \<le> bn_mag bn" unfolding e by linarith
  show "bn_mag bn < LIMB ^ Suc k" using v wval_less [of "take (Suc k) (bn_d bn)"] k l by (simp add: min_absorb1)
  show "k < bn_width bn" by (rule k)
qed

section \<open>Assignment\<close>

lemma zero_value [bn_simps]: "bn_int (BN_zero bn) = 0" "bn_mag (BN_zero bn) = 0" "bn_wf bn \<Longrightarrow> bn_ok (BN_zero bn)"
  by (simp_all add: BN_zero_def bn_int_def bn_mag_def bn_words_def bn_ok_def bn_wf_def)

lemma copy_value:
  assumes "libc_wf libc" and "bn_wf dest" and "bn_wf src" and "BN_copy libc dest src = (b, r)"
  shows "b = roomy libc dest (bn_width src)" "bn_wf r" "b \<Longrightarrow> bn_words r = bn_words src" "b \<Longrightarrow> bn_neg r = bn_neg src"
    "b \<Longrightarrow> bn_width r = bn_width src" "\<not> b \<Longrightarrow> r = dest" "bn_flags r = bn_flags dest"
proof -
  obtain c d where w: "bn_wexpand libc dest (bn_width src) = (c, d)" by fastforce
  note f = wexpand [OF assms(1,2) w]
  have "b = c" "b \<longrightarrow> r = d\<lparr>bn_d := mem_write (bn_d d) 0 (bn_words src), bn_width := bn_width src, bn_neg := bn_neg src\<rparr>" "\<not> b \<longrightarrow> r = d"
    using assms(4) w by (auto simp: BN_copy_def split: bool.splits)
  then show "b = roomy libc dest (bn_width src)" "bn_wf r" "b \<Longrightarrow> bn_words r = bn_words src" "b \<Longrightarrow> bn_neg r = bn_neg src"
    "b \<Longrightarrow> bn_width r = bn_width src" "\<not> b \<Longrightarrow> r = dest" "bn_flags r = bn_flags dest"
    using f bn_words_store [of "bn_d d" d "bn_words src"] assms(3) by (auto simp: bn_words_def bn_wf_def)
qed

lemma set_word_value:
  assumes "libc_wf libc" and "bn_wf bn" and "BN_set_word libc bn v = (b, r)"
  shows "b \<longleftrightarrow> v = 0 \<or> roomy libc bn 1" "b \<Longrightarrow> bn_ok r" "b \<Longrightarrow> bn_int r = int (unat v)" "\<not> b \<Longrightarrow> r = bn"
    "b \<Longrightarrow> \<not> bn_neg r" "b \<Longrightarrow> bn_mag r = unat v"
proof -
  obtain c d where w: "bn_wexpand libc bn 1 = (c, d)" by fastforce
  note f = wexpand [OF assms(1,2) w]
  have z: "v = 0 \<Longrightarrow> b \<and> r = BN_zero bn" using assms(3) by (simp add: BN_set_word_def)
  have nz: "v \<noteq> 0 \<Longrightarrow> b = c \<and> (b \<longrightarrow> r = d\<lparr>bn_neg := False, bn_d := (bn_d d)[0 := v], bn_width := 1\<rparr>) \<and> (\<not> b \<longrightarrow> r = d)"
    using assms(3) w by (auto simp: BN_set_word_def split: bool.splits)
  have "v \<noteq> 0 \<Longrightarrow> b \<Longrightarrow> bn_words r = [v]" using nz f by (cases "bn_d d") (auto simp: bn_words_def bn_wf_def)
  then have v: "v \<noteq> 0 \<Longrightarrow> b \<Longrightarrow> bn_mag r = unat v" by (simp add: bn_mag_def)
  have wf: "v \<noteq> 0 \<Longrightarrow> b \<Longrightarrow> bn_wf r \<and> \<not> bn_neg r" using nz f by (auto simp: bn_wf_def)
  show "b \<longleftrightarrow> v = 0 \<or> roomy libc bn 1" using z nz f(1) by blast
  show "b \<Longrightarrow> bn_ok r" using z wf zero_value(3) [OF assms(2)] by (cases "v = 0") (auto simp: bn_ok_def)
  show "b \<Longrightarrow> bn_int r = int (unat v)" using z wf v zero_value(1) by (cases "v = 0") (auto simp: bn_int_def)
  show "\<not> b \<Longrightarrow> r = bn" using z nz f(10) by blast
  show "b \<Longrightarrow> \<not> bn_neg r" using z wf by (cases "v = 0") (auto simp: BN_zero_def)
  show "b \<Longrightarrow> bn_mag r = unat v" using z v zero_value(2) by (cases "v = 0") auto
qed

lemma fits_in_words: "bn_wf bn \<Longrightarrow> bn_fits_in_words bn n \<longleftrightarrow> bn_mag bn < LIMB ^ n"
proof -
  assume wf: "bn_wf bn"
  have s: "bn_mag bn = wval (take n (bn_words bn)) + LIMB ^ min n (bn_width bn) * wval (drop n (bn_words bn))"
    using wval_split [of "bn_words bn" n] wf by (simp add: bn_mag_def)
  have t: "wval (take n (bn_words bn)) < LIMB ^ min n (bn_width bn)"
    using wval_less [of "take n (bn_words bn)"] wf by (simp add: min.commute)
  show "bn_fits_in_words bn n \<longleftrightarrow> bn_mag bn < LIMB ^ n"
  proof (cases "n \<le> bn_width bn")
    case True
    show ?thesis
    proof
      assume "bn_fits_in_words bn n"
      then show "bn_mag bn < LIMB ^ n" using s t True by (simp add: bn_fits_in_words_def or_words_0 min_absorb1)
    next
      assume "bn_mag bn < LIMB ^ n"
      then have "wval (take n (bn_words bn)) + LIMB ^ n * wval (drop n (bn_words bn)) < LIMB ^ n" using s True by (simp add: min_absorb1)
      then have "LIMB ^ n * wval (drop n (bn_words bn)) < LIMB ^ n * 1" by linarith
      then have "wval (drop n (bn_words bn)) = 0" by simp
      then show "bn_fits_in_words bn n" by (simp add: bn_fits_in_words_def or_words_0)
    qed
  next
    case False
    then have d: "drop n (bn_words bn) = []" using wf by simp
    have "LIMB ^ bn_width bn \<le> LIMB ^ n" using False by (intro power_increasing) simp_all
    then have "bn_mag bn < LIMB ^ n" using bn_mag_less [OF wf] by (rule order_less_le_trans [rotated])
    then show ?thesis by (simp add: bn_fits_in_words_def or_words_0 d)
  qed
qed

lemma is_zero: "bn_wf bn \<Longrightarrow> BN_is_zero bn \<longleftrightarrow> bn_mag bn = 0"
  by (simp add: BN_is_zero_def fits_in_words)

end
