(* ===== verification/BnAdd_Spec.thy ===== *)
theory BnAdd_Spec
  imports Bn_Spec
begin

text \<open>
  Comparison, addition and subtraction of big numbers are those of the integers; they fail exactly
  where the result array cannot be made large enough.
\<close>

section \<open>Comparison\<close>

lemma ucmp_value [bn_simps]: "bn_wf a \<Longrightarrow> bn_wf b \<Longrightarrow> BN_ucmp a b = cmp_nat (bn_mag a) (bn_mag b)"
  by (simp add: BN_ucmp_def cmp_words_value bn_wf_def bn_mag_def bn_words_def)

theorem cmp_value:
  assumes "bn_ok a" and "bn_ok b"
  shows "sint (BN_cmp (Some a) (Some b)) = (if bn_int a < bn_int b then - 1 else if bn_int a = bn_int b then 0 else 1)"
proof -
  have "sint (- cmp_nat x y) = - sint (cmp_nat x y)" for x y
    by (simp add: cmp_nat_def)
  then show ?thesis
    using assms by (auto simp: BN_cmp_def bn_ok_def ucmp_value cmp_nat_sint bn_int_def)
qed

section \<open>Sums and differences\<close>

lemma carry_loop_propagate: "carry_loop c xs = propagate c xs"
  by (induction xs arbitrary: c) (simp_all add: add.commute)

lemma borrow_bit:
  assumes "unat (c :: u64) \<le> 1"
  shows "of_bool (x < x - c) = (if x \<noteq> 0 then of_bool (x < 0) else c)"
proof -
  have "\<not> x < x - 1" if "x \<noteq> 0" using that by (simp add: word_less_nat_alt unat_minus_one)
  moreover have "(0 :: u64) < - 1" by code_simp
  ultimately show ?thesis using bit_cases [OF assms] by (cases "x = 0") auto
qed

lemma borrow_loop_value:
  "unat c \<le> 1 \<Longrightarrow> borrow_loop c xs = (r, c') \<Longrightarrow>
   length r = length xs \<and> unat c' \<le> 1 \<and> wval r + unat c = wval xs + LIMB ^ length xs * unat c'"
proof (induction xs arbitrary: c r c')
  case (Cons x xs)
  let ?c = "if x \<noteq> 0 then of_bool (x < 0) else c"
  note bb = borrow_bit [OF Cons.prems(1), of x]
  obtain rs c1 where l: "borrow_loop ?c xs = (rs, c1)" by fastforce
  note st = sub_step [OF Cons.prems(1), of x 0]
  have r: "r = (x - c) # rs" "c' = c1" using Cons.prems(2) l by (simp_all add: bb Let_def split del: if_split)
  have IH: "length rs = length xs" "unat c1 \<le> 1" "wval rs + unat ?c = wval xs + LIMB ^ length xs * unat c1"
    using Cons.IH [OF st(2) l] by simp_all
  have "LIMB * wval rs + LIMB * unat ?c = LIMB * wval xs + LIMB * (LIMB ^ length xs * unat c1)"
    using arg_cong [OF IH(3), of "(*) LIMB"] by (simp add: algebra_simps del: mult_cancel_left)
  moreover have "unat (x - c) + unat c = unat x + LIMB * unat ?c" using st(1) by simp
  ultimately show ?case using IH(1,2) unfolding r by (simp add: mult.assoc split del: if_split)
qed simp

lemma uadd_consttime:
  assumes "libc_wf libc" and "bn_wf r" and "bn_wf a" and "bn_wf b" and "bn_uadd_consttime libc r a b = (ok, s)"
  shows "ok = roomy libc r (max (bn_width a) (bn_width b) + 1)" "bn_wf s" "bn_neg s = bn_neg r"
    "ok \<Longrightarrow> bn_mag s = bn_mag a + bn_mag b" "ok \<Longrightarrow> bn_width s = max (bn_width a) (bn_width b) + 1" "\<not> ok \<Longrightarrow> s = r"
proof -
  have main: "ok = roomy libc r (bn_width x + 1) \<and> bn_wf s \<and> bn_neg s = bn_neg r \<and>
      (ok \<longrightarrow> bn_mag s = bn_mag x + bn_mag y \<and> bn_width s = bn_width x + 1) \<and> (\<not> ok \<longrightarrow> s = r)"
    if sw: "(if bn_width a < bn_width b then (b, a) else (a, b)) = (x, y)" and le: "bn_width y \<le> bn_width x"
      and wf: "bn_wf x" "bn_wf y" for x y
  proof -
    obtain c d where w: "bn_wexpand libc r (bn_width x + 1) = (c, d)" by fastforce
    obtain lo k where lo: "bn_add_words (bn_d x) (bn_d y) (bn_width y) = (lo, k)" by fastforce
    obtain hi k' where hi: "carry_loop k (drop (bn_width y) (bn_words x)) = (hi, k')" by fastforce
    note f = wexpand [OF assms(1,2) w]
    have "bn_width y \<le> length (bn_d x)" "bn_width y \<le> length (bn_d y)" using wf le by (auto simp: bn_wf_def)
    from add_words_value [OF lo this] have lo': "length lo = bn_width y" "unat k \<le> 1"
      "wval lo + LIMB ^ bn_width y * unat k = wval (take (bn_width y) (bn_words x)) + bn_mag y"
      using bn_words_take [OF wf(1) le] by (simp_all add: bn_mag_def bn_words_def)
    have hi': "length hi = bn_width x - bn_width y"
      "wval hi + LIMB ^ (bn_width x - bn_width y) * unat k' = wval (drop (bn_width y) (bn_words x)) + unat k"
      using propagate_value [OF hi [unfolded carry_loop_propagate]] wf by simp_all
    let ?ws = "lo @ hi @ [k']"
    have len: "length ?ws = bn_width x + 1" using lo'(1) hi'(1) le by simp
    have "wval ?ws = wval lo + LIMB ^ bn_width y * (wval hi + LIMB ^ (bn_width x - bn_width y) * unat k')"
      by (simp add: wval_append lo'(1) hi'(1))
    also have "\<dots> = (wval lo + LIMB ^ bn_width y * unat k) + LIMB ^ bn_width y * wval (drop (bn_width y) (bn_words x))"
      unfolding hi'(2) by (simp add: algebra_simps)
    also have "\<dots> = wval (bn_words x) + bn_mag y"
      using wval_split [of "bn_words x" "bn_width y"] wf le unfolding lo'(3) by (simp add: min_absorb1)
    finally have v: "wval ?ws = bn_mag x + bn_mag y" by (simp add: bn_mag_def)
    have s: "ok = c" "ok \<longrightarrow> s = d\<lparr>bn_d := mem_write (bn_d d) 0 ?ws, bn_width := length ?ws\<rparr>" "\<not> ok \<longrightarrow> s = d"
      using assms(5) w lo hi len by (auto simp: bn_uadd_consttime_def sw Let_def split: bool.splits)
    have st: "bn_words s = ?ws \<and> bn_wf s" if ok
      using bn_words_store [of "bn_d d" d ?ws] f s len that by auto
    show ?thesis
    proof (cases ok)
      case True
      then have "bn_mag s = bn_mag x + bn_mag y" using st v by (simp add: bn_mag_def)
      with True show ?thesis using st f s len by simp
    next
      case False
      then show ?thesis using f s assms(2) by simp
    qed
  qed
  have "ok = roomy libc r (max (bn_width a) (bn_width b) + 1) \<and> bn_wf s \<and> bn_neg s = bn_neg r \<and>
    (ok \<longrightarrow> bn_mag s = bn_mag a + bn_mag b \<and> bn_width s = max (bn_width a) (bn_width b) + 1) \<and> (\<not> ok \<longrightarrow> s = r)"
  proof (cases "bn_width a < bn_width b")
    case True
    then have m: "max (bn_width a) (bn_width b) = bn_width b" by simp
    have "(if bn_width a < bn_width b then (b, a) else (a, b)) = (b, a)" using True by simp
    from main [OF this _ assms(4,3)] True show ?thesis unfolding m add.commute [of "bn_mag a"] by simp
  next
    case False
    then have m: "max (bn_width a) (bn_width b) = bn_width a" by simp
    have "(if bn_width a < bn_width b then (b, a) else (a, b)) = (a, b)" using False by simp
    from main [OF this _ assms(3,4)] False show ?thesis unfolding m by simp
  qed
  then show "ok = roomy libc r (max (bn_width a) (bn_width b) + 1)" "bn_wf s" "bn_neg s = bn_neg r"
    "ok \<Longrightarrow> bn_mag s = bn_mag a + bn_mag b" "ok \<Longrightarrow> bn_width s = max (bn_width a) (bn_width b) + 1" "\<not> ok \<Longrightarrow> s = r" by blast+
qed

theorem uadd_value:
  assumes "libc_wf libc" and "bn_wf r" and "bn_wf a" and "bn_wf b" and "BN_uadd libc r a b = (ok, s)"
  shows "ok = roomy libc r (max (bn_width a) (bn_width b) + 1)" "ok \<Longrightarrow> bn_ok s" "ok \<Longrightarrow> bn_mag s = bn_mag a + bn_mag b"
    "ok \<Longrightarrow> bn_neg s \<longleftrightarrow> bn_neg r \<and> bn_mag a + bn_mag b \<noteq> 0" "\<not> ok \<Longrightarrow> s = r"
proof -
  obtain c d where w: "bn_uadd_consttime libc r a b = (c, d)" by fastforce
  note f = uadd_consttime [OF assms(1-4) w]
  have "ok = c" "ok \<longrightarrow> s = bn_set_minimal_width d" "\<not> ok \<longrightarrow> s = d" using assms(5) w by (auto simp: BN_uadd_def split: bool.splits)
  then show "ok = roomy libc r (max (bn_width a) (bn_width b) + 1)" "ok \<Longrightarrow> bn_ok s" "ok \<Longrightarrow> bn_mag s = bn_mag a + bn_mag b"
    "ok \<Longrightarrow> bn_neg s \<longleftrightarrow> bn_neg r \<and> bn_mag a + bn_mag b \<noteq> 0" "\<not> ok \<Longrightarrow> s = r"
    using f set_minimal_width [OF f(2)] by auto
qed

lemma usub_consttime:
  assumes "libc_wf libc" and "bn_wf r" and "bn_wf a" and "bn_wf b" and "bn_usub_consttime libc r a b = (ok, s)"
  shows "ok \<longleftrightarrow> bn_mag b \<le> bn_mag a \<and> roomy libc r (bn_width a)" "bn_wf s" "ok \<Longrightarrow> \<not> bn_neg s"
    "ok \<Longrightarrow> bn_mag s + bn_mag b = bn_mag a" "ok \<Longrightarrow> bn_width s = bn_width a" "bn_mag b \<le> bn_mag a \<Longrightarrow> \<not> ok \<Longrightarrow> s = r"
proof -
  let ?n = "bn_width a" and ?m = "if bn_width b > bn_width a then bn_width a else bn_width b"
  have "ok = (bn_mag b \<le> bn_mag a \<and> roomy libc r ?n) \<and> bn_wf s \<and> (ok \<longrightarrow> \<not> bn_neg s \<and> bn_mag s + bn_mag b = bn_mag a \<and> bn_width s = ?n) \<and>
    (bn_mag b \<le> bn_mag a \<longrightarrow> \<not> ok \<longrightarrow> s = r)"
  proof (cases "bn_width b > ?n \<and> \<not> bn_fits_in_words b ?n")
    case True
    then have "bn_mag a < bn_mag b" using fits_in_words [OF assms(4), of ?n] bn_mag_less [OF assms(3)] by linarith
    then show ?thesis using True assms(2,5) by (simp add: bn_usub_consttime_def)
  next
    case False
    obtain c d where w: "bn_wexpand libc r ?n = (c, d)" by fastforce
    obtain lo k where lo: "bn_sub_words (bn_d a) (bn_d b) ?m = (lo, k)" by fastforce
    obtain hi k' where hi: "borrow_loop k (drop ?m (bn_words a)) = (hi, k')" by fastforce
    note f = wexpand [OF assms(1,2) w]
    have mb: "wval (take ?m (bn_d b)) = bn_mag b"
    proof (cases "bn_width b > ?n")
      case True
      then have "wval (drop ?n (bn_words b)) = 0" using False by (simp add: bn_fits_in_words_def or_words_0)
      then show ?thesis using True wval_split [of "bn_words b" ?n] bn_words_take [OF assms(4), of ?n] by (simp add: bn_mag_def)
    qed (simp add: bn_mag_def bn_words_def)
    have mle: "?m \<le> ?n" by simp
    have "?m \<le> length (bn_d a)" "?m \<le> length (bn_d b)" using assms(3,4) by (auto simp: bn_wf_def)
    from sub_words_value [OF lo this] have lo': "length lo = ?m" "unat k \<le> 1"
      "wval lo + bn_mag b = wval (take ?m (bn_words a)) + LIMB ^ ?m * unat k"
      using bn_words_take [OF assms(3) mle] by (simp_all add: mb)
    have hi': "length hi = ?n - ?m" "unat k' \<le> 1" "wval hi + unat k = wval (drop ?m (bn_words a)) + LIMB ^ (?n - ?m) * unat k'"
      using borrow_loop_value [OF lo'(2) hi] assms(3) by simp_all
    let ?ws = "lo @ hi"
    have len: "length ?ws = ?n" using lo'(1) hi'(1) mle by simp
    have pw: "LIMB ^ ?m * (LIMB ^ (?n - ?m) * unat k') = LIMB ^ ?n * unat k'"
      using mle by (simp only: mult.assoc [symmetric] power_add [symmetric]) simp
    have A: "bn_mag a = wval (take ?m (bn_words a)) + LIMB ^ ?m * wval (drop ?m (bn_words a))"
      using wval_split [of "bn_words a" ?m] assms(3) by (simp add: bn_mag_def)
    have W: "wval ?ws = wval lo + LIMB ^ ?m * wval hi" by (simp add: wval_append lo'(1))
    have "LIMB ^ ?m * wval hi + LIMB ^ ?m * unat k = LIMB ^ ?m * wval (drop ?m (bn_words a)) + LIMB ^ ?n * unat k'"
      using arg_cong [OF hi'(3), of "(*) (LIMB ^ ?m)"] unfolding distrib_left pw .
    with lo'(3) have v: "wval ?ws + bn_mag b = bn_mag a + LIMB ^ ?n * unat k'" unfolding A W by linarith
    have less: "wval ?ws < LIMB ^ ?n" using wval_less [of ?ws] len by simp
    have k0: "k' = 0 \<longleftrightarrow> bn_mag b \<le> bn_mag a"
    proof
      assume "k' = 0" then show "bn_mag b \<le> bn_mag a" using v by simp
    next
      assume le: "bn_mag b \<le> bn_mag a"
      show "k' = 0"
      proof (rule ccontr)
        assume "k' \<noteq> 0"
        then have "k' = 1" using bit_cases [OF hi'(2)] by simp
        then show False using v less le by simp
      qed
    qed
    let ?d = "d\<lparr>bn_d := mem_write (bn_d d) 0 ?ws\<rparr>"
    have s: "ok \<longleftrightarrow> c \<and> k' = 0" "ok \<longrightarrow> s = ?d\<lparr>bn_width := ?n, bn_neg := False\<rparr>"
      "\<not> c \<longrightarrow> s = d" "c \<and> \<not> ok \<longrightarrow> s = ?d"
      using assms(5) w lo hi False by (auto simp: bn_usub_consttime_def Let_def split: bool.splits if_splits)
    have nd: "c \<longrightarrow> bn_wf ?d" using f len by (auto simp: bn_wf_def)
    have st: "bn_words s = ?ws \<and> bn_wf s" if ok
      using bn_words_store [of "bn_d d" d ?ws] f s len that by (auto simp: bn_words_def bn_wf_def)
    show ?thesis
    proof (cases ok)
      case True
      then have "bn_mag s = wval ?ws" "k' = 0" using st s by (simp_all add: bn_mag_def)
      then show ?thesis using True st s f k0 v by simp
    next
      case nok: False
      show ?thesis
      proof (cases c)
        case True
        then have "s = ?d" "k' \<noteq> 0" using nok s by blast+
        then show ?thesis using nok nd True k0 by simp
      next
        case False
        then show ?thesis using nok f s assms(2) by simp
      qed
    qed
  qed
  then show "ok \<longleftrightarrow> bn_mag b \<le> bn_mag a \<and> roomy libc r (bn_width a)" "bn_wf s" "ok \<Longrightarrow> \<not> bn_neg s"
    "ok \<Longrightarrow> bn_mag s + bn_mag b = bn_mag a" "ok \<Longrightarrow> bn_width s = bn_width a" "bn_mag b \<le> bn_mag a \<Longrightarrow> \<not> ok \<Longrightarrow> s = r" by blast+
qed

theorem usub_value:
  assumes "libc_wf libc" and "bn_wf r" and "bn_wf a" and "bn_wf b" and "BN_usub libc r a b = (ok, s)"
  shows "ok \<longleftrightarrow> bn_mag b \<le> bn_mag a \<and> roomy libc r (bn_width a)" "ok \<Longrightarrow> bn_ok s" "ok \<Longrightarrow> \<not> bn_neg s"
    "ok \<Longrightarrow> bn_mag s + bn_mag b = bn_mag a" "bn_mag b \<le> bn_mag a \<Longrightarrow> \<not> ok \<Longrightarrow> s = r"
proof -
  obtain c d where w: "bn_usub_consttime libc r a b = (c, d)" by fastforce
  note f = usub_consttime [OF assms(1-4) w]
  have "ok = c" "ok \<longrightarrow> s = bn_set_minimal_width d" "\<not> ok \<longrightarrow> s = d" using assms(5) w by (auto simp: BN_usub_def split: bool.splits)
  then show "ok \<longleftrightarrow> bn_mag b \<le> bn_mag a \<and> roomy libc r (bn_width a)" "ok \<Longrightarrow> bn_ok s" "ok \<Longrightarrow> \<not> bn_neg s"
    "ok \<Longrightarrow> bn_mag s + bn_mag b = bn_mag a" "bn_mag b \<le> bn_mag a \<Longrightarrow> \<not> ok \<Longrightarrow> s = r"
    using f set_minimal_width [OF f(2)] by auto
qed


text \<open>The words that a sum of two numbers with signs needs.\<close>

definition sum_width :: "bignum \<Rightarrow> bignum \<Rightarrow> nat" where
  "sum_width a b =
     (if bn_neg a = bn_neg b then max (bn_width a) (bn_width b) + 1
      else (case (if bn_neg a then (b, a) else (a, b)) of
              (x, y) \<Rightarrow> if bn_mag x < bn_mag y then bn_width y else bn_width x))"

lemma signed_difference:
  assumes "libc_wf libc" and "bn_wf r" and "bn_wf x" and "bn_wf y"
    and "(if sint (BN_ucmp x y) < 0
          then (case BN_usub libc r y x of (False, r) \<Rightarrow> (False, r) | (True, r) \<Rightarrow> (True, r\<lparr>bn_neg := True\<rparr>))
          else (case BN_usub libc r x y of (False, r) \<Rightarrow> (False, r) | (True, r) \<Rightarrow> (True, r\<lparr>bn_neg := False\<rparr>))) = (ok, s)"
  shows "ok = roomy libc r (if bn_mag x < bn_mag y then bn_width y else bn_width x) \<and>
    (ok \<longrightarrow> bn_ok s \<and> bn_int s = int (bn_mag x) - int (bn_mag y)) \<and> (\<not> ok \<longrightarrow> s = r)"
proof (cases "bn_mag x < bn_mag y")
  case True
  obtain c d where u: "BN_usub libc r y x = (c, d)" by fastforce
  note f = usub_value [OF assms(1,2,4,3) u]
  have "ok = c" "ok \<longrightarrow> s = d\<lparr>bn_neg := True\<rparr>" "\<not> ok \<longrightarrow> s = d"
    using assms(3-5) u True by (auto simp: ucmp_value cmp_nat_sint split: bool.splits)
  then show ?thesis using f True by (cases ok) (auto simp: bn_ok_def bn_int_def)
next
  case False
  obtain c d where u: "BN_usub libc r x y = (c, d)" by fastforce
  note f = usub_value [OF assms(1,2,3,4) u]
  have "ok = c" "ok \<longrightarrow> s = d\<lparr>bn_neg := False\<rparr>" "\<not> ok \<longrightarrow> s = d"
    using assms(3-5) u False by (auto simp: ucmp_value cmp_nat_sint split: bool.splits if_splits)
  then show ?thesis using f False by (cases ok) (auto simp: bn_ok_def bn_int_def)
qed

theorem add_value:
  assumes "libc_wf libc" and "bn_wf r" and "bn_ok a" and "bn_ok b" and "BN_add libc r a b = (ok, s)"
  shows "ok = roomy libc r (sum_width a b)" "ok \<Longrightarrow> bn_ok s" "ok \<Longrightarrow> bn_int s = bn_int a + bn_int b"
    "\<not> ok \<Longrightarrow> bn_words s = bn_words r"
proof -
  note wf = bn_ok_wf [OF assms(3)] bn_ok_wf [OF assms(4)]
  have "ok = roomy libc r (sum_width a b) \<and> (ok \<longrightarrow> bn_ok s \<and> bn_int s = bn_int a + bn_int b) \<and> (\<not> ok \<longrightarrow> bn_words s = bn_words r)"
  proof (cases "bn_neg a = bn_neg b")
    case True
    obtain c d where u: "BN_uadd libc r a b = (c, d)" by fastforce
    note f = uadd_value [OF assms(1,2) wf u]
    have "ok = c" "s = d\<lparr>bn_neg := bn_neg a\<rparr>" using assms(5) u True by (simp_all add: BN_add_def Let_def)
    then show ?thesis using f True assms(3,4) by (cases ok) (auto simp: sum_width_def bn_ok_def bn_int_def)
  next
    case False
    show ?thesis
    proof (cases "bn_neg a")
      case True
      from signed_difference [OF assms(1,2) wf(2,1), of ok s] assms(5) False True
      show ?thesis by (auto simp: BN_add_def sum_width_def bn_int_def)
    next
      case nneg: False
      from signed_difference [OF assms(1,2) wf, of ok s] assms(5) False nneg
      show ?thesis by (auto simp: BN_add_def sum_width_def bn_int_def)
    qed
  qed
  then show "ok = roomy libc r (sum_width a b)" "ok \<Longrightarrow> bn_ok s" "ok \<Longrightarrow> bn_int s = bn_int a + bn_int b"
    "\<not> ok \<Longrightarrow> bn_words s = bn_words r" by blast+
qed

theorem sub_value:
  assumes "libc_wf libc" and "bn_wf r" and "bn_ok a" and "bn_ok b" and "BN_sub libc r a b = (ok, s)"
  shows "ok = roomy libc r (sum_width a (b\<lparr>bn_neg := \<not> bn_neg b\<rparr>))" "ok \<Longrightarrow> bn_ok s" "ok \<Longrightarrow> bn_int s = bn_int a - bn_int b"
    "\<not> ok \<Longrightarrow> s = r"
proof -
  note wf = bn_ok_wf [OF assms(3)] bn_ok_wf [OF assms(4)]
  have "ok = roomy libc r (sum_width a (b\<lparr>bn_neg := \<not> bn_neg b\<rparr>)) \<and> (ok \<longrightarrow> bn_ok s \<and> bn_int s = bn_int a - bn_int b) \<and> (\<not> ok \<longrightarrow> s = r)"
  proof (cases "bn_neg a = bn_neg b")
    case False
    obtain c d where u: "BN_uadd libc r a b = (c, d)" by fastforce
    note f = uadd_value [OF assms(1,2) wf u]
    have "ok = c" "ok \<longrightarrow> s = d\<lparr>bn_neg := bn_neg a\<rparr>" "\<not> ok \<longrightarrow> s = d"
      using assms(5) u False by (auto simp: BN_sub_def Let_def split: bool.splits if_splits)
    then show ?thesis using f False assms(3,4) by (cases ok) (auto simp: sum_width_def bn_ok_def bn_int_def)
  next
    case True
    show ?thesis
    proof (cases "bn_neg a")
      case neg: True
      from signed_difference [OF assms(1,2) wf(2,1), of ok s] assms(5) True neg
      show ?thesis by (auto simp: BN_sub_def sum_width_def bn_int_def)
    next
      case nneg: False
      from signed_difference [OF assms(1,2) wf, of ok s] assms(5) True nneg
      show ?thesis by (auto simp: BN_sub_def sum_width_def bn_int_def)
    qed
  qed
  then show "ok = roomy libc r (sum_width a (b\<lparr>bn_neg := \<not> bn_neg b\<rparr>))" "ok \<Longrightarrow> bn_ok s" "ok \<Longrightarrow> bn_int s = bn_int a - bn_int b"
    "\<not> ok \<Longrightarrow> s = r" by blast+
qed

section \<open>Adding and subtracting a word\<close>

lemma add_word_loop_value:
  "add_word_loop xs w = (ys, w') \<Longrightarrow> length ys = length xs \<and> wval ys + LIMB ^ length xs * unat w' = wval xs + unat w"
proof (induction xs arbitrary: w ys w')
  case (Cons x xs)
  show ?case
  proof (cases "w = 0")
    case False
    let ?w = "if w > x + w then 1 else 0 :: u64"
    obtain zs v where l: "add_word_loop xs ?w = (zs, v)" by fastforce
    have r: "ys = (x + w) # zs" "w' = v" using Cons.prems False l by (simp_all add: Let_def)
    have IH: "length zs = length xs" "wval zs + LIMB ^ length xs * unat v = wval xs + unat ?w" using Cons.IH [OF l] by simp_all
    have "unat (x + w) + LIMB * unat ?w = unat x + unat w" using word_add_carry [of x w] by (cases "x + w < w") simp_all
    from carry_step [OF IH(2) this] show ?thesis using r IH(1) by (simp add: algebra_simps)
  qed (use Cons.prems in auto)
qed simp

lemma sub_word_loop_value:
  "w \<noteq> 0 \<Longrightarrow> unat w \<le> wval xs \<Longrightarrow> \<exists>ys i. sub_word_loop xs w = Some (ys, i) \<and> length ys = length xs \<and> i < length xs \<and> wval ys + unat w = wval xs"
proof (induction xs arbitrary: w)
  case Nil
  then show ?case by (simp add: unat_eq_zero)
next
  case (Cons x xs)
  show ?case
  proof (cases "w \<le> x")
    case True
    then have "unat (x - w) + unat w = unat x" by (simp add: unat_sub word_le_nat_alt)
    then show ?thesis using True by simp
  next
    case False
    then have lt: "unat x < unat w" by (simp add: word_le_nat_alt not_le)
    have "unat (x - w) + unat w = unat x + LIMB" using lt unat_limb [of w] by (simp add: unat_sub_if' LIMB_def)
    moreover have "wval xs \<noteq> 0" using Cons.prems lt by (intro notI) simp
    then have "unat (1 :: u64) \<le> wval xs" by simp
    from Cons.IH [OF _ this] obtain ys i where "sub_word_loop xs 1 = Some (ys, i)" "length ys = length xs" "i < length xs"
      "wval ys + 1 = wval xs" by auto
    ultimately show ?thesis using False by (auto simp: algebra_simps simp flip: \<open>wval ys + 1 = wval xs\<close>)
  qed
qed

lemma sub_word_loop_append: "sub_word_loop xs w = Some (ys, i) \<Longrightarrow> sub_word_loop (xs @ zs) w = Some (ys @ zs, i)"
  by (induction xs arbitrary: w ys i) (auto split: if_splits option.splits)


lemma bn_words_stored_words:
  assumes "bn_wf a" and "length ws = bn_width a"
  shows "bn_words (a\<lparr>bn_d := mem_write (bn_d a) 0 ws\<rparr>) = ws" "bn_wf (a\<lparr>bn_d := mem_write (bn_d a) 0 ws\<rparr>)"
  using assms by (auto simp: bn_words_def bn_wf_def mem_write_def)

lemma add_word_nonneg:
  assumes "libc_wf libc" and "bn_wf a" and "\<not> bn_neg a" and "bn_mag a \<noteq> 0" and "w \<noteq> 0"
  shows "\<exists>ok s. BN_add_word libc a w = Some (ok, s) \<and> (ok \<longrightarrow> bn_wf s \<and> \<not> bn_neg s \<and> bn_mag s = bn_mag a + unat w) \<and>
    (roomy libc a (bn_width a + 1) \<longrightarrow> ok)"
proof -
  obtain ws v where l: "add_word_loop (bn_words a) w = (ws, v)" by fastforce
  note lv = add_word_loop_value [OF l]
  let ?a = "a\<lparr>bn_d := mem_write (bn_d a) 0 ws\<rparr>"
  have len: "length ws = bn_width a" using lv assms(2) by simp
  note st = bn_words_stored_words [OF assms(2) len]
  have v: "wval ws + LIMB ^ bn_width a * unat v = bn_mag a + unat w" using lv assms(2) by (simp add: bn_mag_def)
  have nz: "\<not> BN_is_zero a" using assms(2,4) by (simp add: is_zero)
  show ?thesis
  proof (cases "v = 0")
    case True
    then have "BN_add_word libc a w = Some (True, ?a)" using l nz assms(3,5) by (simp add: BN_add_word.simps Let_def)
    then show ?thesis using st v True assms(3) by (auto simp: bn_mag_def)
  next
    case False
    obtain c d where w: "bn_wexpand libc ?a (bn_width a + 1) = (c, d)" by fastforce
    note f = wexpand [OF assms(1) st(2) w]
    have ro: "roomy libc ?a (bn_width a + 1) = roomy libc a (bn_width a + 1)" by (simp add: roomy_def)
    show ?thesis
    proof (cases c)
      case True
      let ?s = "d\<lparr>bn_d := (bn_d d)[bn_width d := v], bn_width := bn_width d + 1\<rparr>"
      have eq: "BN_add_word libc a w = Some (True, ?s)" using l nz False w True assms(3,5) by (simp add: BN_add_word.simps Let_def)
      have d: "bn_width d = bn_width a" "bn_width a < length (bn_d d)" "take (bn_width a) (bn_d d) = ws" "\<not> bn_neg d"
        using f True st(1) assms(3) by (auto simp: bn_words_def)
      then have "bn_words ?s = ws @ [v]" by (simp add: bn_words_def take_Suc_conv_app_nth)
      then have "bn_mag ?s = bn_mag a + unat w" using v len by (simp add: bn_mag_def wval_append)
      moreover have "bn_wf ?s" using f True d by (simp add: bn_wf_def)
      ultimately show ?thesis using eq d(4) by auto
    next
      case nc: False
      have eq: "BN_add_word libc a w = Some (False, d)" using l nz False w nc assms(3,5) by (simp add: BN_add_word.simps Let_def)
      moreover have "\<not> roomy libc a (bn_width a + 1)" using f(1) nc ro by simp
      ultimately show ?thesis by auto
    qed
  qed
qed

lemma sub_word_nonneg:
  assumes "bn_wf a" and "\<not> bn_neg a" and "bn_mag a \<noteq> 0" and "w \<noteq> 0"
  shows "\<exists>s. BN_sub_word libc a w = Some (True, s) \<and> bn_ok s \<and> bn_int s = int (bn_mag a) - int (unat w)"
proof -
  have nz: "\<not> BN_is_zero a" using assms(1,3) by (simp add: is_zero)
  have wl: "bn_width a \<le> length (bn_d a)" using assms(1) by (simp add: bn_wf_def)
  have mw0: "bn_minimal_width a \<noteq> 0"
    using minimal_width_0 [OF wl] assms(3) by (simp add: bn_minimal_width_def bn_mag_def bn_words_def)
  show ?thesis
  proof (cases "bn_minimal_width a = 1 \<and> bn_d a ! 0 < w")
    case True
    let ?s = "a\<lparr>bn_d := (bn_d a)[0 := w - bn_d a ! 0], bn_neg := True\<rparr>"
    have eq: "BN_sub_word libc a w = Some (True, ?s)" using True nz assms(2,4) by (simp add: BN_sub_word.simps)
    from True minimal_width_bounds(3,5) [OF assms(1), of 0] have m: "bn_mag a = unat (bn_d a ! 0)" and w0: "0 < bn_width a" by simp_all
    obtain x xs where xs: "bn_words a = x # xs" using w0 assms(1) by (cases "bn_words a") (auto simp: bn_words_def bn_wf_def)
    then have x: "x = bn_d a ! 0" using w0 by (metis bn_words_def nth_Cons_0 nth_take)
    have xs0: "wval xs = 0" using m by (simp add: bn_mag_def xs x)
    have "bn_words ?s = (w - x) # xs" using xs x w0 by (simp add: bn_words_def take_update_swap)
    then have "bn_mag ?s = unat (w - x)" using xs0 by (simp add: bn_mag_def)
    also have "\<dots> = unat w - unat x" using True x by (simp add: unat_sub order_less_imp_le)
    finally have "bn_mag ?s = unat w - bn_mag a" using m x by simp
    moreover have "bn_mag a < unat w" using True m by (simp add: word_less_nat_alt)
    moreover have "bn_wf ?s" using assms(1) by (simp add: bn_wf_def)
    ultimately show ?thesis using eq by (simp add: bn_ok_def bn_int_def)
  next
    case False
    have le: "unat w \<le> bn_mag a"
    proof (cases "bn_minimal_width a = 1")
      case True
      then have "\<not> bn_d a ! 0 < w" using False by simp
      then show ?thesis using minimal_width_bounds(3) [OF assms(1), of 0] True by (simp add: word_le_nat_alt not_less)
    next
      case n1: False
      then obtain k where k: "bn_minimal_width a = Suc k" "1 \<le> k" using mw0 by (cases "bn_minimal_width a") auto
      have "LIMB ^ 1 \<le> LIMB ^ k" using k(2) by (intro power_increasing) simp_all
      then show ?thesis using minimal_width_bounds(1) [OF assms(1) k(1)] unat_limb [of w] by (simp del: unat_limb)
    qed
    obtain ys i where l: "sub_word_loop (bn_words a) w = Some (ys, i)" "length ys = bn_width a" "i < bn_width a"
      "wval ys + unat w = bn_mag a"
      using sub_word_loop_value [OF assms(4), of "bn_words a"] le assms(1) by (auto simp: bn_mag_def)
    define d where "d = ys @ drop (bn_width a) (bn_d a)"
    have ld: "sub_word_loop (bn_d a) w = Some (d, i)"
      using sub_word_loop_append [OF l(1), of "drop (bn_width a) (bn_d a)"] by (simp add: bn_words_def d_def)
    have di: "d ! i = ys ! i" "length d = length (bn_d a)" using l wl by (simp_all add: d_def nth_append)
    let ?s = "if d ! i = 0 \<and> i = bn_width a - 1 then a\<lparr>bn_d := d, bn_width := bn_width a - 1\<rparr> else a\<lparr>bn_d := d\<rparr>"
    have eq: "BN_sub_word libc a w = Some (True, ?s)"
      unfolding BN_sub_word.simps [of libc a w] ld if_not_P [OF False] if_not_P [OF nz] if_not_P [OF assms(2)] if_not_P [OF assms(4)]
      by simp
    have wf: "bn_wf ?s" "\<not> bn_neg ?s" using assms(1,2) di by (auto simp: bn_wf_def)
    have "bn_mag ?s = wval ys"
    proof (cases "d ! i = 0 \<and> i = bn_width a - 1")
      case True
      then have ys: "ys = take (bn_width a - 1) ys @ [0]" using l di by (metis Suc_diff_1 diff_le_self gr_implies_not_zero le_refl not_gr_zero take_Suc_conv_app_nth take_all)
      have "wval ys = wval (take (bn_width a - 1) ys)" by (subst ys) (simp add: wval_append)
      then show ?thesis using True l by (simp add: bn_mag_def bn_words_def d_def)
    next
      case nF: False
      then show ?thesis using l by (auto simp: bn_mag_def bn_words_def d_def)
    qed
    then have "bn_int ?s = int (wval ys)" using wf(2) by (simp only: bn_int_def if_False)
    moreover have "int (wval ys) + int (unat w) = int (bn_mag a)" unfolding l(4) [symmetric] by (rule of_nat_add [symmetric])
    ultimately have "bn_int ?s = int (bn_mag a) - int (unat w)" by linarith
    moreover have "bn_ok ?s" using wf by (simp add: bn_ok_def)
    ultimately show ?thesis using eq by blast
  qed
qed

theorem add_word_value:
  assumes "libc_wf libc" and "bn_ok a"
  shows "\<exists>ok s. BN_add_word libc a w = Some (ok, s) \<and> (ok \<longrightarrow> bn_ok s \<and> bn_int s = bn_int a + int (unat w)) \<and>
    (roomy libc a (bn_width a + 1) \<longrightarrow> ok)"
proof -
  have wf: "bn_wf a" using assms(2) by (rule bn_ok_wf)
  consider "w = 0" | "w \<noteq> 0" "bn_mag a = 0" | "w \<noteq> 0" "bn_mag a \<noteq> 0" "bn_neg a" | "w \<noteq> 0" "bn_mag a \<noteq> 0" "\<not> bn_neg a" by blast
  then show ?thesis
  proof cases
    case 1
    then show ?thesis using assms(2) by (auto simp: BN_add_word.simps)
  next
    case 2
    obtain ok s where b: "BN_set_word libc a w = (ok, s)" by fastforce
    have "BN_add_word libc a w = Some (ok, s)" using 2 wf b by (simp add: BN_add_word.simps is_zero)
    moreover have "roomy libc a (bn_width a + 1) \<longrightarrow> roomy libc a 1" using wf by (cases "bn_width a") (auto simp: roomy_def bn_wf_def)
    moreover have "bn_int a = 0" using 2 by (simp add: bn_int_def)
    ultimately show ?thesis using set_word_value [OF assms(1) wf b] by auto
  next
    case 3
    obtain s where s: "BN_sub_word libc (a\<lparr>bn_neg := False\<rparr>) w = Some (True, s)" "bn_ok s" "bn_int s = int (bn_mag a) - int (unat w)"
      using sub_word_nonneg [of "a\<lparr>bn_neg := False\<rparr>" w libc] 3 wf by auto
    let ?s = "if \<not> BN_is_zero s then s\<lparr>bn_neg := \<not> bn_neg s\<rparr> else s"
    have "BN_add_word libc a w = Some (True, ?s)" using 3 wf s(1) by (simp add: BN_add_word.simps is_zero)
    moreover have "bn_ok ?s \<and> bn_int ?s = - bn_int s"
      using s(2) is_zero [OF bn_ok_wf [OF s(2)]] by (cases "bn_mag s = 0") (simp_all add: bn_ok_def bn_int_def)
    moreover have "bn_int a = - int (bn_mag a)" using 3 by (simp add: bn_int_def)
    then have "- bn_int s = bn_int a + int (unat w)" using s(3) by linarith
    ultimately show ?thesis by auto
  next
    case 4
    obtain ok s where s: "BN_add_word libc a w = Some (ok, s)" "ok \<Longrightarrow> bn_wf s" "ok \<Longrightarrow> \<not> bn_neg s" "ok \<Longrightarrow> bn_mag s = bn_mag a + unat w"
      "roomy libc a (bn_width a + 1) \<longrightarrow> ok"
      using add_word_nonneg [OF assms(1) wf 4(3,2,1)] by blast
    then have "bn_ok s \<and> bn_int s = bn_int a + int (unat w)" if ok using that 4 by (simp add: bn_ok_def bn_int_def)
    with s(1,5) show ?thesis by blast
  qed
qed

theorem sub_word_value:
  assumes "libc_wf libc" and "bn_ok a"
  shows "\<exists>ok s. BN_sub_word libc a w = Some (ok, s) \<and> (ok \<longrightarrow> bn_ok s \<and> bn_int s = bn_int a - int (unat w)) \<and>
    (roomy libc a (bn_width a + 1) \<longrightarrow> ok)"
proof -
  have wf: "bn_wf a" using assms(2) by (rule bn_ok_wf)
  consider "w = 0" | "w \<noteq> 0" "bn_mag a = 0" | "w \<noteq> 0" "bn_mag a \<noteq> 0" "bn_neg a" | "w \<noteq> 0" "bn_mag a \<noteq> 0" "\<not> bn_neg a" by blast
  then show ?thesis
  proof cases
    case 1
    then show ?thesis using assms(2) by (auto simp: BN_sub_word.simps)
  next
    case 2
    obtain ok s where b: "BN_set_word libc a w = (ok, s)" by fastforce
    note f = set_word_value [OF assms(1) wf b]
    have e: "BN_sub_word libc a w = Some (ok, if ok then BN_set_negative s 1 else s)" using 2 wf b by (simp add: BN_sub_word.simps is_zero)
    have r: "roomy libc a (bn_width a + 1) \<longrightarrow> roomy libc a 1" using wf by (cases "bn_width a") (auto simp: roomy_def bn_wf_def)
    have "unat w \<noteq> 0" using 2 by (simp add: unat_eq_zero)
    then have n: "bn_ok (BN_set_negative s 1) \<and> bn_int (BN_set_negative s 1) = - int (unat w)" if ok
      using f(2,5,6) that is_zero [of s] by (simp add: BN_set_negative_def bn_ok_def bn_int_def)
    have "bn_int a = 0" using 2 by (simp add: bn_int_def)
    then show ?thesis using e r f(1) n 2(1) by auto
  next
    case 3
    let ?a = "a\<lparr>bn_neg := False\<rparr>"
    obtain ok s where s: "BN_add_word libc ?a w = Some (ok, s)" "ok \<longrightarrow> bn_wf s \<and> \<not> bn_neg s \<and> bn_mag s = bn_mag a + unat w"
      "roomy libc ?a (bn_width ?a + 1) \<longrightarrow> ok"
      using add_word_nonneg [OF assms(1), of ?a w] 3 wf by auto
    have "BN_sub_word libc a w = Some (ok, s\<lparr>bn_neg := True\<rparr>)" using 3 wf s(1) by (simp add: BN_sub_word.simps is_zero)
    then show ?thesis using s(2,3) 3 by (auto simp: bn_ok_def bn_int_def)
  next
    case 4
    then have "bn_int a = int (bn_mag a)" by (simp add: bn_int_def)
    then show ?thesis using sub_word_nonneg [OF wf 4(3,2,1), of libc] by metis
  qed
qed

end
