(* ===== verification/BnBits_Spec.thy ===== *)
theory BnBits_Spec
  imports Bn_Spec
begin

text \<open>Shifts, single bits and sizes of big numbers.\<close>

section \<open>Shifts to the left\<close>

lemma mem_write_at:
  assumes "i + length ws \<le> length d"
  shows "mem_write d i ws = take i d @ ws @ drop (i + length ws) d"
  using assms by (simp add: mem_write_def)

lemma lshift_copy_loop_result:
  "nw + i \<le> length t \<Longrightarrow> i \<le> length f \<Longrightarrow> lshift_copy_loop nw f i t = mem_write t nw (take i f)"
proof (induction i arbitrary: t)
  case (Suc i)
  then have "lshift_copy_loop nw f (Suc i) t = mem_write (t[nw + i := f ! i]) nw (take i f)" by simp
  also have "\<dots> = mem_write t nw (take (Suc i) f)"
    using Suc.prems by (simp add: mem_write_at take_Suc_conv_app_nth upd_conv_take_nth_drop min_absorb1)
  finally show ?case .
qed (simp add: mem_write_def)

text \<open>The words of a number shifted by fewer bits than a word has, with the word that falls out.\<close>

fun lshift_words :: "nat \<Rightarrow> u64 \<Rightarrow> words \<Rightarrow> words" where
  "lshift_words lb c [] = [c]"
| "lshift_words lb c (x # xs) = (push_bit lb x OR c) # lshift_words lb (drop_bit (64 - lb) x) xs"

lemma length_lshift_words [simp]: "length (lshift_words lb c xs) = Suc (length xs)"
  by (induction xs arbitrary: c) auto

lemma lshift_words_nonempty [simp]: "lshift_words lb c xs \<noteq> []"
  by (cases xs) auto

lemma lshift_words_snoc:
  "lshift_words lb c (xs @ [x]) =
   butlast (lshift_words lb c xs) @ [push_bit lb x OR last (lshift_words lb c xs), drop_bit (64 - lb) x]"
  by (induction xs arbitrary: c) auto

lemma lshift_loop_result:
  "nw + i < length t \<Longrightarrow> i \<le> length f \<Longrightarrow>
   lshift_loop lb nw f i t =
   take nw t @ butlast (lshift_words lb 0 (take i f)) @ [t ! (nw + i) OR last (lshift_words lb 0 (take i f))] @ drop (nw + i + 1) t"
proof (induction i arbitrary: t)
  case 0
  then show ?case by (simp add: Cons_nth_drop_Suc)
next
  case (Suc i)
  let ?t = "t[nw + i + 1 := t ! (nw + i + 1) OR drop_bit (64 - lb) (f ! i), nw + i := push_bit lb (f ! i)]"
  have "lshift_loop lb nw f (Suc i) t = lshift_loop lb nw f i ?t" by (simp add: BN_BITS2_def Let_def)
  also have "\<dots> = take nw t @ butlast (lshift_words lb 0 (take i f)) @
      [push_bit lb (f ! i) OR last (lshift_words lb 0 (take i f)), t ! (nw + i + 1) OR drop_bit (64 - lb) (f ! i)] @ drop (nw + i + 2) t"
    using Suc.prems Suc.IH [of ?t] by (simp add: upd_conv_take_nth_drop min_absorb1 Cons_nth_drop_Suc nth_append)
  finally show ?case using Suc.prems by (simp add: take_Suc_conv_app_nth lshift_words_snoc butlast_append)
qed

lemma lshift_word:
  fixes x c :: u64
  assumes "lb \<le> 64" and "unat c < 2 ^ lb"
  shows "unat (push_bit lb x OR c) + LIMB * unat (drop_bit (64 - lb) x) = 2 ^ lb * unat x + unat c"
    and "unat (drop_bit (64 - lb) x) < 2 ^ lb"
proof -
  have c: "drop_bit (64 - lb) (push_bit (64 - lb) c) = c"
  proof (rule bit_word_eqI)
    fix n assume n: "n < LENGTH(64)"
    have "bit c n \<Longrightarrow> n < lb" using not_bit_unat_less [OF assms(2), of n] by (meson not_le)
    then show "bit (drop_bit (64 - lb) (push_bit (64 - lb) c)) n = bit c n"
      using assms(1) n by (auto simp: bit_simps)
  qed
  have L: "LIMB = 2 ^ lb * 2 ^ (64 - lb)" using LIMB_split [OF assms(1)] .
  have "unat (push_bit lb x OR c) = unat (drop_bit (64 - lb) (push_bit (64 - lb) c)) + 2 ^ lb * (unat x mod 2 ^ (64 - lb))"
    using shift_step [of "64 - lb" "push_bit (64 - lb) c" x] assms(1) unfolding unat_shift [symmetric] c
    by (simp add: or.commute)
  moreover have "2 ^ lb * unat x = 2 ^ lb * (unat x mod 2 ^ (64 - lb)) + 2 ^ lb * (2 ^ (64 - lb) * (unat x div 2 ^ (64 - lb)))"
    by (simp only: distrib_left [symmetric] mod_mult_div_eq)
  ultimately show "unat (push_bit lb x OR c) + LIMB * unat (drop_bit (64 - lb) x) = 2 ^ lb * unat x + unat c"
    unfolding c L unat_shift by (simp only: mult.assoc)
  have "unat x < 2 ^ lb * 2 ^ (64 - lb)" using unat_limb [of x] L by (simp del: unat_limb)
  then show "unat (drop_bit (64 - lb) x) < 2 ^ lb" unfolding unat_shift by (rule less_mult_imp_div_less)
qed

lemma lshift_words_value:
  "lb \<le> 64 \<Longrightarrow> unat c < 2 ^ lb \<Longrightarrow> wval (lshift_words lb c xs) = 2 ^ lb * wval xs + unat c"
proof (induction xs arbitrary: c)
  case (Cons x xs)
  note l = lshift_word [OF Cons.prems, of x]
  have IH: "wval (lshift_words lb (drop_bit (64 - lb) x) xs) = 2 ^ lb * wval xs + unat (drop_bit (64 - lb) x)"
    using Cons.IH [OF Cons.prems(1) l(2)] .
  have "wval (lshift_words lb c (x # xs)) = (unat (push_bit lb x OR c) + LIMB * unat (drop_bit (64 - lb) x)) + LIMB * (2 ^ lb * wval xs)"
    by (simp only: lshift_words.simps wval.simps IH distrib_left)
  then show ?case unfolding l(1) by (simp add: algebra_simps)
qed simp

theorem lshift_value:
  assumes "libc_wf libc" and "bn_wf r" and "bn_wf a" and "BN_lshift libc r a n = (ok, s)"
  shows "ok \<longleftrightarrow> 0 \<le> n \<and> roomy libc r (bn_width a + nat n div 64 + 1)" "ok \<Longrightarrow> bn_ok s" "ok \<Longrightarrow> bn_int s = bn_int a * 2 ^ nat n"
    "\<not> ok \<Longrightarrow> bn_words s = bn_words r"
proof -
  have "(ok \<longleftrightarrow> 0 \<le> n \<and> roomy libc r (bn_width a + nat n div 64 + 1)) \<and> (ok \<longrightarrow> bn_ok s \<and> bn_int s = bn_int a * 2 ^ nat n) \<and>
    (\<not> ok \<longrightarrow> bn_words s = bn_words r)"
  proof (cases "n < 0")
    case True
    then show ?thesis using assms(4) by (simp add: BN_lshift_def)
  next
    case False
    define nw lb where "nw = nat n div 64" and "lb = nat n mod 64"
    have n: "nat n = 64 * nw + lb" "lb < 64" by (simp_all add: nw_def lb_def)
    let ?w = "bn_width a"
    obtain c d where w: "bn_wexpand libc (r\<lparr>bn_neg := bn_neg a\<rparr>) (?w + nw + 1) = (c, d)" by fastforce
    have "bn_wf (r\<lparr>bn_neg := bn_neg a\<rparr>)" using assms(2) by simp
    note f = wexpand [OF assms(1) this w]
    define t where "t = (bn_d d)[?w + nw := 0]"
    define u where "u = (if lb = 0 then lshift_copy_loop nw (bn_d a) ?w t else lshift_loop lb nw (bn_d a) ?w t)"
    define v where "v = mem_write u 0 (replicate nw 0)"
    define e where "e = d\<lparr>bn_d := v, bn_width := ?w + nw + 1\<rparr>"
    have s: "ok = c" "ok \<longrightarrow> s = bn_set_minimal_width e" "\<not> ok \<longrightarrow> s = d"
      using assms(4) w False by (auto simp: BN_lshift_def Let_def BN_BITS2_def nw_def lb_def t_def u_def v_def e_def split: bool.splits)
    have ro: "c = roomy libc r (?w + nw + 1)" using f(1) by simp
    have ws: "\<exists>ws rest. v = ws @ rest \<and> length ws = ?w + nw + 1 \<and> length v = bn_dmax d \<and> wval ws = 2 ^ nat n * bn_mag a" if c
    proof -
      have room: "?w + nw < length (bn_d d)" "length (bn_d d) = bn_dmax d" using f that by auto
      have la: "?w \<le> length (bn_d a)" using assms(3) by (simp add: bn_wf_def)
      have p: "(2::nat) ^ nat n = LIMB ^ nw * 2 ^ lb" by (simp add: n(1) power_add power_mult LIMB_def)
      show ?thesis
      proof (cases "lb = 0")
        case True
        have "u = take nw t @ bn_words a @ drop (nw + ?w) t"
          using lshift_copy_loop_result [of nw ?w t "bn_d a"] room la True by (simp add: u_def t_def mem_write_at bn_words_def min_absorb1)
        then have "v = (replicate nw 0 @ bn_words a @ [0]) @ drop (?w + nw + 1) t"
          using room assms(3) by (simp add: v_def mem_write_at t_def upd_conv_take_nth_drop add.commute)
        moreover have "wval (replicate nw 0 @ bn_words a @ [0]) = 2 ^ nat n * bn_mag a" using True
          by (simp add: wval_append p bn_mag_def)
        ultimately show ?thesis using room assms(3) t_def by (intro exI conjI) (assumption | simp)+
      next
        case lb: False
        let ?ls = "lshift_words lb 0 (bn_words a)"
        have "t ! (nw + ?w) = 0" using room by (simp add: t_def add.commute)
        moreover have "u = take nw t @ butlast ?ls @ [t ! (nw + ?w) OR last ?ls] @ drop (nw + ?w + 1) t"
          using lshift_loop_result [of nw ?w t "bn_d a" lb] room la lb by (simp add: u_def t_def bn_words_def)
        ultimately have "u = take nw t @ (butlast ?ls @ [last ?ls]) @ drop (?w + nw + 1) t" by (simp add: add.commute)
        then have "u = take nw t @ ?ls @ drop (?w + nw + 1) t" by (simp only: append_butlast_last_id [OF lshift_words_nonempty])
        then have "v = (replicate nw 0 @ ?ls) @ drop (?w + nw + 1) t"
          using room by (simp add: v_def mem_write_at t_def)
        moreover have "wval (replicate nw 0 @ ?ls) = 2 ^ nat n * bn_mag a"
          using lshift_words_value [of lb 0 "bn_words a"] n(2) by (simp add: wval_append p bn_mag_def)
        ultimately show ?thesis using room assms(3) t_def by (intro exI conjI) (assumption | simp)+
      qed
    qed
    show ?thesis
    proof (cases ok)
      case True
      then obtain ws rest where v: "v = ws @ rest" "length ws = ?w + nw + 1" "length v = bn_dmax d" "wval ws = 2 ^ nat n * bn_mag a"
        using ws s by auto
      then have "bn_mag e = 2 ^ nat n * bn_mag a" "bn_wf e" by (auto simp: e_def bn_mag_def bn_words_def bn_wf_def)
      moreover have "bn_neg e = bn_neg a" using f by (simp add: e_def)
      ultimately have "bn_int e = bn_int a * 2 ^ nat n" by (simp add: bn_int_def)
      then show ?thesis using True s ro False set_minimal_width [OF \<open>bn_wf e\<close>] by (simp add: nw_def)
    next
      case nok: False
      then show ?thesis using s ro False f by (simp add: nw_def)
    qed
  qed
  then show "ok \<longleftrightarrow> 0 \<le> n \<and> roomy libc r (bn_width a + nat n div 64 + 1)" "ok \<Longrightarrow> bn_ok s" "ok \<Longrightarrow> bn_int s = bn_int a * 2 ^ nat n"
    "\<not> ok \<Longrightarrow> bn_words s = bn_words r" by blast+
qed


lemma lshift1_loop_words: "lshift1_loop c xs = (butlast (lshift_words 1 c xs), last (lshift_words 1 c xs))"
  by (induction xs arbitrary: c) (simp_all add: BN_BITS2_def)

lemma last_lshift_words: "lb \<le> 64 \<Longrightarrow> unat c < 2 ^ lb \<Longrightarrow> unat (last (lshift_words lb c xs)) < 2 ^ lb"
  by (induction xs arbitrary: c) (simp_all add: lshift_word(2))

theorem lshift1_value:
  assumes "libc_wf libc" and "bn_wf r" and "bn_ok a" and "BN_lshift1 libc r a = (ok, s)"
  shows "ok \<longleftrightarrow> roomy libc r (bn_width a + 1)" "ok \<Longrightarrow> bn_ok s" "ok \<Longrightarrow> bn_int s = bn_int a * 2"
proof -
  have wf: "bn_wf a" using assms(3) by (rule bn_ok_wf)
  obtain c d where w: "bn_wexpand libc (r\<lparr>bn_neg := bn_neg a\<rparr>) (bn_width a + 1) = (c, d)" by fastforce
  have "bn_wf (r\<lparr>bn_neg := bn_neg a\<rparr>)" using assms(2) by simp
  note f = wexpand [OF assms(1) this w]
  let ?ls = "lshift_words 1 0 (bn_words a)"
  define xs x where "xs = butlast ?ls" and "x = last ?ls"
  have ls: "?ls = xs @ [x]" by (simp add: xs_def x_def)
  have len: "length xs = bn_width a" using wf by (simp add: xs_def)
  have v: "wval (xs @ [x]) = 2 * bn_mag a" using lshift_words_value [of 1 0 "bn_words a"] by (simp add: bn_mag_def flip: ls)
  have "unat x \<le> 1" using last_lshift_words [of 1 0 "bn_words a"] by (simp add: x_def)
  then have x01: "x = 0 \<or> x = 1" by (rule bit_cases)
  let ?d = "mem_write (bn_d d) 0 xs"
  let ?s = "if x \<noteq> 0 then d\<lparr>bn_d := ?d[bn_width a := 1], bn_width := bn_width a + 1\<rparr> else d\<lparr>bn_d := ?d, bn_width := bn_width a\<rparr>"
  have "lshift1_loop 0 (bn_words a) = (xs, x)" by (simp only: lshift1_loop_words xs_def x_def)
  then have s: "ok = c" "ok \<longrightarrow> s = ?s"
    using assms(4) w by (auto simp: BN_lshift1_def Let_def split: bool.splits)
  have "bn_wf ?s \<and> bn_mag ?s = 2 * bn_mag a" if c
  proof -
    have room: "bn_width a < length (bn_d d)" "length (bn_d d) = bn_dmax d" using f that by auto
    have "wval (bn_words ?s) = wval (xs @ [x])"
      using x01 len room by (auto simp: bn_words_def mem_write_at list_update_append take_Suc_conv_app_nth nth_append wval_append)
    then have "bn_mag ?s = 2 * bn_mag a" using v by (simp add: bn_mag_def)
    moreover have "bn_wf ?s" using room len by (auto simp: bn_wf_def mem_write_at)
    ultimately show ?thesis by blast
  qed
  moreover have "bn_neg ?s = bn_neg a" using f by simp
  ultimately have "bn_wf s \<and> bn_mag s = 2 * bn_mag a \<and> bn_neg s = bn_neg a" if c using that s by simp
  then have "bn_ok s \<and> bn_int s = bn_int a * 2" if c using that assms(3) by (simp add: bn_ok_def bn_int_def)
  then show "ok \<longleftrightarrow> roomy libc r (bn_width a + 1)" "ok \<Longrightarrow> bn_ok s" "ok \<Longrightarrow> bn_int s = bn_int a * 2"
    using s f(1) by auto
qed

section \<open>Shifts to the right\<close>

lemma rshift_words_take: "num \<le> length a \<Longrightarrow> bn_rshift_words a n num = bn_rshift_words (take num a) n num"
  by (simp add: bn_rshift_words_def take_drop Let_def)

lemma rshift_stored:
  assumes "libc_wf libc" and "bn_wf r" and "bn_wf a" and "length ws = bn_width a"
    and "(case bn_wexpand libc r (bn_width a) of (False, r) \<Rightarrow> (False, r)
       | (True, r) \<Rightarrow> (True, bn_set_minimal_width (r\<lparr>bn_d := mem_write (bn_d r) 0 ws, bn_width := bn_width a, bn_neg := bn_neg a\<rparr>))) = (ok, s)"
  shows "ok \<longleftrightarrow> roomy libc r (bn_width a)" "ok \<Longrightarrow> bn_ok s" "ok \<Longrightarrow> bn_int s = (if bn_neg a then - int (wval ws) else int (wval ws))"
    "\<not> ok \<Longrightarrow> s = r"
proof -
  obtain c d where w: "bn_wexpand libc r (bn_width a) = (c, d)" by fastforce
  note f = wexpand [OF assms(1,2) w]
  let ?e = "d\<lparr>bn_d := mem_write (bn_d d) 0 ws, bn_width := bn_width a, bn_neg := bn_neg a\<rparr>"
  have s: "ok = c" "ok \<longrightarrow> s = bn_set_minimal_width ?e" "\<not> ok \<longrightarrow> s = d" using assms(5) w by (auto split: bool.splits)
  have "bn_wf ?e \<and> bn_words ?e = ws" if c using f that assms(4) bn_words_store [of "bn_d d" d ws] by (simp add: bn_wf_def bn_words_def)
  then have e: "bn_wf ?e \<and> bn_int ?e = (if bn_neg a then - int (wval ws) else int (wval ws))" if c using that by (simp add: bn_int_def bn_mag_def)
  show "ok \<longleftrightarrow> roomy libc r (bn_width a)" "ok \<Longrightarrow> bn_ok s" "ok \<Longrightarrow> bn_int s = (if bn_neg a then - int (wval ws) else int (wval ws))"
    "\<not> ok \<Longrightarrow> s = r"
    using s f(1,10) e set_minimal_width [of ?e] by auto
qed

text \<open>The quotient is rounded towards zero.\<close>

theorem rshift_value:
  assumes "libc_wf libc" and "bn_wf r" and "bn_wf a" and "BN_rshift libc r a n = (ok, s)"
  shows "ok \<longleftrightarrow> 0 \<le> n \<and> roomy libc r (bn_width a)" "ok \<Longrightarrow> bn_ok s"
    "ok \<Longrightarrow> bn_int s = (if bn_neg a then - int (bn_mag a div 2 ^ nat n) else int (bn_mag a div 2 ^ nat n))" "\<not> ok \<Longrightarrow> s = r"
proof -
  let ?ws = "bn_rshift_words (bn_d a) (nat n) (bn_width a)"
  have len: "length ?ws = bn_width a" and v: "wval ?ws = bn_mag a div 2 ^ nat n"
    using rshift_words_value [of "bn_words a" "bn_width a" "nat n"] rshift_words_take [of "bn_width a" "bn_d a" "nat n"] assms(3)
    by (simp_all add: bn_mag_def bn_wf_def bn_words_def)
  have eq: "BN_rshift libc r a n = (case bn_wexpand libc r (bn_width a) of (False, r) \<Rightarrow> (False, r)
       | (True, r) \<Rightarrow> (True, bn_set_minimal_width (r\<lparr>bn_d := mem_write (bn_d r) 0 ?ws, bn_width := bn_width a, bn_neg := bn_neg a\<rparr>)))"
    if "0 \<le> n"
  proof -
    have comm: "d\<lparr>bn_d := v, bn_neg := x, bn_width := y\<rparr> = d\<lparr>bn_d := v, bn_width := y, bn_neg := x\<rparr>" for d v x y by simp
    show ?thesis using that by (simp only: BN_rshift_def comm if_not_P not_less)
  qed
  have "(ok \<longleftrightarrow> 0 \<le> n \<and> roomy libc r (bn_width a)) \<and> (ok \<longrightarrow> bn_ok s \<and>
    bn_int s = (if bn_neg a then - int (bn_mag a div 2 ^ nat n) else int (bn_mag a div 2 ^ nat n))) \<and> (\<not> ok \<longrightarrow> s = r)"
  proof (cases "n < 0")
    case True
    then show ?thesis using assms(4) by (simp add: BN_rshift_def)
  next
    case False
    then have "0 \<le> n" by simp
    from rshift_stored [OF assms(1-3) len assms(4) [unfolded eq [OF this]], unfolded v] False show ?thesis by auto
  qed
  then show "ok \<longleftrightarrow> 0 \<le> n \<and> roomy libc r (bn_width a)" "ok \<Longrightarrow> bn_ok s"
    "ok \<Longrightarrow> bn_int s = (if bn_neg a then - int (bn_mag a div 2 ^ nat n) else int (bn_mag a div 2 ^ nat n))" "\<not> ok \<Longrightarrow> s = r"
    by blast+
qed

theorem rshift1_value:
  assumes "libc_wf libc" and "bn_wf r" and "bn_wf a" and "BN_rshift1 libc r a = (ok, s)"
  shows "ok \<longleftrightarrow> roomy libc r (bn_width a)" "ok \<Longrightarrow> bn_ok s"
    "ok \<Longrightarrow> bn_int s = (if bn_neg a then - int (bn_mag a div 2) else int (bn_mag a div 2))" "\<not> ok \<Longrightarrow> s = r"
proof -
  let ?ws = "bn_rshift1_words (bn_d a) (bn_width a)"
  have "?ws = bn_rshift1_words (bn_words a) (bn_width a)" by (simp add: bn_rshift1_words_def bn_words_def)
  then have len: "length ?ws = bn_width a" and v: "wval ?ws = bn_mag a div 2"
    using rshift1_words_value [of "bn_words a" "bn_width a"] assms(3) by (simp_all add: bn_mag_def)
  show "ok \<longleftrightarrow> roomy libc r (bn_width a)" "ok \<Longrightarrow> bn_ok s"
    "ok \<Longrightarrow> bn_int s = (if bn_neg a then - int (bn_mag a div 2) else int (bn_mag a div 2))" "\<not> ok \<Longrightarrow> s = r"
    using rshift_stored [OF assms(1-3) len assms(4) [unfolded BN_rshift1_def], unfolded v] by blast+
qed

text \<open>The shift by a secret amount goes through all powers of two below the size of the number.\<close>

fun bit_count :: "nat \<Rightarrow> nat" where
  "bit_count m = (if m = 0 then 0 else Suc (bit_count (m div 2)))"

declare bit_count.simps [simp del]

lemma bit_count_less: "m < 2 ^ bit_count m"
proof (induction m rule: bit_count.induct)
  case (1 m)
  show ?case
  proof (cases "m = 0")
    case False
    have "m < 2 * (m div 2) + 2" by simp
    also have "\<dots> \<le> 2 * 2 ^ bit_count (m div 2)" using 1 [OF False] by simp
    finally show ?thesis using False by (simp add: bit_count.simps [of m])
  qed (simp add: bit_count.simps)
qed

lemma secret_mask: "0 - ucast (drop_bit i n AND 1 :: u32) = mask_w (unat n div 2 ^ i mod 2 = 1)"
proof -
  have b: "bit n i \<longleftrightarrow> unat n div 2 ^ i mod 2 = 1"
  proof -
    have "bit n i = bit (unat n) i" by (simp add: bit_unsigned_iff)
    then show ?thesis by (simp only: bit_iff_odd odd_iff_mod_2_eq_one)
  qed
  have "drop_bit i n AND 1 = of_bool (bit n i)"
    by (simp add: and_one_eq mod_2_eq_odd bit_iff_odd_drop_bit)
  then show ?thesis unfolding b by (cases "unat n div 2 ^ i mod 2 = 1") (simp_all add: mask_w_def CONSTTIME_TRUE_W_def CONSTTIME_FALSE_W_def)
qed

lemma rshift_secret_loop_value:
  "width \<le> length d \<Longrightarrow> length (rshift_secret_loop d width n i m) = length d \<and>
   wval (take width (rshift_secret_loop d width n i m)) = wval (take width d) div 2 ^ (2 ^ i * (unat n div 2 ^ i mod 2 ^ bit_count m))"
proof (induction d width n i m rule: rshift_secret_loop.induct)
  case (1 d width n i m)
  show ?case
  proof (cases "m = 0")
    case False
    let ?b = "unat n div 2 ^ i mod 2" and ?y = "unat n div 2 ^ Suc i mod 2 ^ bit_count (m div 2)"
    let ?tmp = "bn_rshift_words d (2 ^ i) width"
    define e where "e = mem_write d 0 (bn_select_words (0 - ucast (drop_bit i n AND 1)) ?tmp d width)"
    have tmp: "length ?tmp = width" "wval ?tmp = wval (take width d) div 2 ^ 2 ^ i"
      using rshift_words_value [of "take width d" width "2 ^ i"] rshift_words_take [OF 1(2), of "2 ^ i"] 1(2) by simp_all
    have sel: "bn_select_words (0 - ucast (drop_bit i n AND 1)) ?tmp d width = take width (if ?b = 1 then ?tmp else d)"
      unfolding secret_mask using tmp 1(2) by (intro select_words) simp_all
    have e: "length e = length d" "wval (take width e) = wval (take width d) div 2 ^ (2 ^ i * ?b)"
      using 1(2) tmp unfolding e_def sel by (auto simp: mem_write_at min_absorb1 not_mod_2_eq_1_eq_0)
    have eq: "rshift_secret_loop d width n i m = rshift_secret_loop e width n (Suc i) (m div 2)"
      using False by (simp add: rshift_secret_loop.simps [of d] e_def Let_def)
    have IH: "length (rshift_secret_loop e width n (Suc i) (m div 2)) = length e \<and>
        wval (take width (rshift_secret_loop e width n (Suc i) (m div 2))) = wval (take width e) div 2 ^ (2 ^ Suc i * ?y)"
      using 1(1) [OF False refl refl] 1(2) e(1) unfolding e_def by simp
    have "unat n div 2 ^ i mod 2 ^ bit_count m = 2 * ?y + ?b"
      using False mod_mult2_eq [of "unat n div 2 ^ i" 2 "2 ^ bit_count (m div 2)"]
      by (simp add: bit_count.simps [of m] div_mult2_eq [symmetric] mult.commute)
    then have "2 ^ i * (unat n div 2 ^ i mod 2 ^ bit_count m) = 2 ^ i * ?b + 2 ^ Suc i * ?y" by (simp add: distrib_left)
    then show ?thesis using IH e by (simp add: eq power_add div_mult2_eq)
  qed (simp add: rshift_secret_loop.simps bit_count.simps)
qed

theorem rshift_secret_value:
  assumes "libc_wf libc" and "bn_wf r" and "bn_ok a" and "bn_wf t" and "bn_rshift_secret_shift libc (Some t) r a n = (ok, s)"
  shows "ok \<longleftrightarrow> roomy libc r (bn_width a) \<and> roomy libc t (bn_width a)" "ok \<Longrightarrow> bn_wf s" "ok \<Longrightarrow> bn_width s = bn_width a"
    "ok \<Longrightarrow> bn_mag s = bn_mag a div 2 ^ (unat n mod 2 ^ bit_count (64 * bn_width a))" "ok \<Longrightarrow> bn_neg s = bn_neg a"
proof -
  have wf: "bn_wf a" using assms(3) by (rule bn_ok_wf)
  obtain c d where w: "BN_copy libc r a = (c, d)" by fastforce
  obtain b t' where t: "bn_wexpand libc t (bn_width a) = (b, t')" by fastforce
  note f = copy_value [OF assms(1,2) wf w] and g = wexpand [OF assms(1,4) t]
  let ?s = "d\<lparr>bn_d := rshift_secret_loop (bn_d d) (bn_width d) n 0 (BN_BITS2 * bn_width d)\<rparr>"
  have s: "ok \<longleftrightarrow> c \<and> b" "ok \<longrightarrow> s = ?s"
    using assms(5) w t f(5) by (auto simp: bn_rshift_secret_shift_def split: bool.splits)
  have v: "bn_wf ?s \<and> bn_mag ?s = bn_mag a div 2 ^ (unat n mod 2 ^ bit_count (64 * bn_width a))" if c
    using rshift_secret_loop_value [of "bn_width d" "bn_d d" n 0 "BN_BITS2 * bn_width d"] f that
    by (auto simp: bn_wf_def bn_mag_def bn_words_def BN_BITS2_def)
  show "ok \<longleftrightarrow> roomy libc r (bn_width a) \<and> roomy libc t (bn_width a)" "ok \<Longrightarrow> bn_wf s" "ok \<Longrightarrow> bn_width s = bn_width a"
    "ok \<Longrightarrow> bn_mag s = bn_mag a div 2 ^ (unat n mod 2 ^ bit_count (64 * bn_width a))" "ok \<Longrightarrow> bn_neg s = bn_neg a"
    using s v f g(1) by auto
qed


section \<open>Bits\<close>

lemma bit_wval: "bit (wval ws) n \<longleftrightarrow> n div 64 < length ws \<and> bit (ws ! (n div 64)) (n mod 64)"
proof (induction ws arbitrary: n)
  case (Cons w ws)
  have v: "wval (w # ws) = unat w + LIMB * wval ws" by simp
  have ow: "bit (unat w + LIMB * wval ws) n = (if n < 64 then bit w n else bit (wval ws) (n - 64))"
  proof (cases "n < 64")
    case True
    have eq: "LIMB = 2 ^ n * (2 * 2 ^ (63 - n))" using True unfolding LIMB_def by (simp only: flip: power_Suc power_add) simp
    have L: "LIMB * wval ws = 2 ^ n * (2 * (2 ^ (63 - n) * wval ws))" by (subst eq) (simp only: mult.assoc)
    have "(unat w + LIMB * wval ws) div 2 ^ n = unat w div 2 ^ n + 2 * (2 ^ (63 - n) * wval ws)" unfolding L by simp
    then have "bit (unat w + LIMB * wval ws) n = bit (unat w) n" by (simp add: bit_iff_odd)
    also have "\<dots> = bit w n" by (simp add: bit_unsigned_iff)
    finally show ?thesis using True by simp
  next
    case False
    have "(2::nat) ^ n = LIMB * 2 ^ (n - 64)" using False unfolding LIMB_def by (simp only: flip: power_add) simp
    then have "(unat w + LIMB * wval ws) div 2 ^ n = wval ws div 2 ^ (n - 64)" by (simp add: div_mult2_eq)
    then show ?thesis using False by (simp add: bit_iff_odd)
  qed
  show ?case
  proof (cases "n < 64")
    case True
    then show ?thesis unfolding v ow by simp
  next
    case False
    then have "n div 64 = Suc ((n - 64) div 64)" "n mod 64 = (n - 64) mod 64" by (simp_all add: le_div_geq le_mod_geq)
    then show ?thesis unfolding v ow using False Cons.IH [of "n - 64"] by simp
  qed
qed simp

theorem is_bit_set_value:
  assumes "bn_wf a" and "0 \<le> n"
  shows "BN_is_bit_set a n = bit (bn_mag a) (nat n)"
proof -
  have i: "nat n div 64 < bn_width a \<Longrightarrow> bn_words a ! (nat n div 64) = bn_d a ! (nat n div 64)" by (simp add: bn_words_def)
  have "drop_bit j x AND 1 \<noteq> 0 \<longleftrightarrow> bit x j" for x :: u64 and j
    by (simp add: and_one_eq mod_2_eq_odd bit_iff_odd_drop_bit)
  then show ?thesis using assms i
    by (auto simp: BN_is_bit_set_def bn_is_bit_set_words_def Let_def BN_BITS2_def bn_mag_def bit_wval)
qed

lemma bn_words_update: "bn_words (a\<lparr>bn_d := (bn_d a)[i := x]\<rparr>) = (bn_words a)[i := x]"
  by (simp add: bn_words_def take_update_swap)

lemma bit_index: "(n :: nat) = m \<longleftrightarrow> n div 64 = m div 64 \<and> n mod 64 = m mod 64"
  by (metis div_mult_mod_eq)

lemma bit_update:
  assumes "m div 64 < length ws"
  shows "wval (ws[m div 64 := ws ! (m div 64) OR push_bit (m mod 64) 1]) = set_bit m (wval ws)"
    and "wval (ws[m div 64 := ws ! (m div 64) AND NOT (push_bit (m mod 64) 1)]) = unset_bit m (wval ws)"
proof -
  have j: "m mod 64 < 64" by simp
  show "wval (ws[m div 64 := ws ! (m div 64) OR push_bit (m mod 64) 1]) = set_bit m (wval ws)"
  proof (rule bit_eqI)
    fix n show "bit (wval (ws[m div 64 := ws ! (m div 64) OR push_bit (m mod 64) 1])) n = bit (set_bit m (wval ws)) n"
      unfolding bit_wval bit_set_bit_iff bit_index [of m n] using assms
      by (cases "m div 64 = n div 64") (auto simp: bit_simps)
  qed
  show "wval (ws[m div 64 := ws ! (m div 64) AND NOT (push_bit (m mod 64) 1)]) = unset_bit m (wval ws)"
  proof (rule bit_eqI)
    fix n show "bit (wval (ws[m div 64 := ws ! (m div 64) AND NOT (push_bit (m mod 64) 1)])) n = bit (unset_bit m (wval ws)) n"
      unfolding bit_wval bit_unset_bit_iff bit_index [of m n] using assms
      by (cases "m div 64 = n div 64") (auto simp: bit_simps)
  qed
qed

theorem set_bit_value:
  assumes "libc_wf libc" and "bn_ok a" and "BN_set_bit libc a n = (ok, s)"
  shows "ok \<longleftrightarrow> 0 \<le> n \<and> (nat n div 64 < bn_width a \<or> roomy libc a (nat n div 64 + 1))" "ok \<Longrightarrow> bn_ok s"
    "ok \<Longrightarrow> bn_mag s = set_bit (nat n) (bn_mag a)" "ok \<Longrightarrow> bn_neg s = bn_neg a" "\<not> ok \<Longrightarrow> s = a"
proof -
  have wf: "bn_wf a" using assms(2) by (rule bn_ok_wf)
  let ?i = "nat n div 64"
  have "(ok \<longleftrightarrow> 0 \<le> n \<and> (?i < bn_width a \<or> roomy libc a (?i + 1))) \<and> (\<not> ok \<longrightarrow> s = a) \<and>
    (ok \<longrightarrow> bn_wf s \<and> bn_mag s = set_bit (nat n) (bn_mag a) \<and> bn_neg s = bn_neg a)"
  proof (cases "n < 0")
    case True
    then show ?thesis using assms(3) by (simp add: BN_set_bit_def)
  next
    case False
    have upd: "bn_wf (b\<lparr>bn_d := (bn_d b)[?i := bn_d b ! ?i OR push_bit (nat n mod 64) 1]\<rparr>) \<and>
        bn_mag (b\<lparr>bn_d := (bn_d b)[?i := bn_d b ! ?i OR push_bit (nat n mod 64) 1]\<rparr>) = set_bit (nat n) (bn_mag b)"
      if "bn_wf b" "?i < bn_width b" for b
    proof -
      have "bn_d b ! ?i = bn_words b ! ?i" using that by (simp add: bn_words_def)
      then show ?thesis using that bit_update(1) [of "nat n" "bn_words b"]
        by (simp add: bn_mag_def bn_words_update) (simp add: bn_wf_def)
    qed
    show ?thesis
    proof (cases "?i < bn_width a")
      case True
      then show ?thesis using False assms(3) upd [OF wf] by (auto simp: BN_set_bit_def BN_BITS2_def Let_def)
    next
      case wide: False
      obtain c d where w: "bn_wexpand libc a (?i + 1) = (c, d)" by fastforce
      note f = wexpand [OF assms(1) wf w]
      let ?b = "d\<lparr>bn_d := mem_write (bn_d d) (bn_width d) (replicate (?i + 1 - bn_width d) 0), bn_width := ?i + 1\<rparr>"
      let ?s = "?b\<lparr>bn_d := (bn_d ?b)[?i := bn_d ?b ! ?i OR push_bit (nat n mod 64) 1]\<rparr>"
      have s: "ok = c" "ok \<longrightarrow> s = ?s" "\<not> ok \<longrightarrow> s = d"
        using assms(3) w False wide by (auto simp: BN_set_bit_def BN_BITS2_def Let_def split: bool.splits)
      have b: "bn_wf ?b \<and> bn_mag ?b = bn_mag a" if c
      proof -
        have room: "?i + 1 \<le> length (bn_d d)" "length (bn_d d) = bn_dmax d" "bn_width d \<le> ?i" using f that wide by auto
        have "bn_words ?b = take (bn_width d) (bn_d d) @ replicate (?i + 1 - bn_width d) 0"
          using room by (simp add: bn_words_def mem_write_at)
        then have "bn_words ?b = bn_words a @ replicate (?i + 1 - bn_width d) 0"
          by (simp only: f(3) flip: bn_words_def)
        then show ?thesis using room by (simp add: bn_mag_def bn_wf_def wval_append)
      qed
      show ?thesis
      proof (cases c)
        case True
        then show ?thesis using upd [of ?b] b s f(1,5) False wide by simp
      next
        case nc: False
        then show ?thesis using s f(1,10) False wide by simp
      qed
    qed
  qed
  note r = this
  have "bit (set_bit (nat n) (bn_mag a)) (nat n)" by (simp add: bit_simps)
  then have "set_bit (nat n) (bn_mag a) \<noteq> 0" by (intro notI) simp
  then show "ok \<longleftrightarrow> 0 \<le> n \<and> (nat n div 64 < bn_width a \<or> roomy libc a (nat n div 64 + 1))" "ok \<Longrightarrow> bn_ok s"
    "ok \<Longrightarrow> bn_mag s = set_bit (nat n) (bn_mag a)" "ok \<Longrightarrow> bn_neg s = bn_neg a" "\<not> ok \<Longrightarrow> s = a"
    using r by (auto simp: bn_ok_def)
qed

theorem clear_bit_value:
  assumes "bn_wf a" and "BN_clear_bit a n = (ok, s)"
  shows "ok \<longleftrightarrow> 0 \<le> n \<and> nat n div 64 < bn_width a" "ok \<Longrightarrow> bn_ok s"
    "ok \<Longrightarrow> bn_mag s = unset_bit (nat n) (bn_mag a)" "\<not> ok \<Longrightarrow> s = a"
proof -
  let ?i = "nat n div 64"
  let ?b = "a\<lparr>bn_d := (bn_d a)[?i := bn_d a ! ?i AND NOT (push_bit (nat n mod 64) 1)]\<rparr>"
  have b: "bn_wf ?b \<and> bn_mag ?b = unset_bit (nat n) (bn_mag a)" if "?i < bn_width a"
  proof -
    have "bn_d a ! ?i = bn_words a ! ?i" using that by (simp add: bn_words_def)
    then show ?thesis using that bit_update(2) [of "nat n" "bn_words a"] assms(1)
      by (simp add: bn_mag_def bn_words_update) (simp add: bn_wf_def)
  qed
  have "(ok \<longleftrightarrow> 0 \<le> n \<and> ?i < bn_width a) \<and> (ok \<longrightarrow> bn_ok s \<and> bn_mag s = unset_bit (nat n) (bn_mag a)) \<and> (\<not> ok \<longrightarrow> s = a)"
  proof (cases "0 \<le> n \<and> ?i < bn_width a")
    case True
    then have "ok" "s = bn_set_minimal_width ?b" using assms(2) by (simp_all add: BN_clear_bit_def BN_BITS2_def Let_def)
    then show ?thesis using True b set_minimal_width(1,3) [of ?b] by simp
  next
    case False
    then have "\<not> ok \<and> s = a" using assms(2) by (cases "n < 0") (simp_all add: BN_clear_bit_def BN_BITS2_def Let_def)
    then show ?thesis using False by blast
  qed
  then show "ok \<longleftrightarrow> 0 \<le> n \<and> nat n div 64 < bn_width a" "ok \<Longrightarrow> bn_ok s"
    "ok \<Longrightarrow> bn_mag s = unset_bit (nat n) (bn_mag a)" "\<not> ok \<Longrightarrow> s = a" by blast+
qed

theorem mask_bits_value:
  assumes "bn_wf a" and "0 \<le> n" and "BN_mask_bits a n = (ok, s)"
  shows "ok" and "bn_wf s" and "bn_mag s = bn_mag a mod 2 ^ nat n"
proof -
  define w b where "w = nat n div 64" and "b = nat n mod 64"
  have n: "nat n = 64 * w + b" "b < 64" by (simp_all add: w_def b_def)
  have "ok \<and> bn_wf s \<and> bn_mag s = bn_mag a mod 2 ^ nat n"
  proof (cases "bn_width a \<le> w")
    case True
    have "bn_mag a < LIMB ^ bn_width a" using assms(1) by (rule bn_mag_less)
    also have "\<dots> \<le> LIMB ^ w" using True by (intro power_increasing) simp_all
    also have "\<dots> = 2 ^ (64 * w)" by (simp add: LIMB_def power_mult)
    also have "\<dots> \<le> 2 ^ nat n" using n by (intro power_increasing) simp_all
    finally show ?thesis using True assms by (simp add: BN_mask_bits_def BN_BITS2_def w_def Let_def)
  next
    case False
    define e where "e = (if b = 0 then a\<lparr>bn_width := w\<rparr> else a\<lparr>bn_width := w + 1, bn_d := (bn_d a)[w := bn_d a ! w AND NOT (push_bit b BN_MASK2)]\<rparr>)"
    have s: "ok" "s = bn_set_minimal_width e" using assms(2,3) False by (simp_all add: BN_mask_bits_def BN_BITS2_def w_def b_def e_def Let_def split: if_splits)
    have la: "w < length (bn_d a)" "w < bn_width a" using False assms(1) by (simp_all add: bn_wf_def)
    have "bn_wf e" using assms(1) False by (simp add: e_def bn_wf_def)
    moreover have "bn_mag e = take_bit (nat n) (bn_mag a)"
    proof (rule bit_eqI)
      fix k
      have m: "BN_MASK2 = - 1" by (simp add: BN_MASK2_def)
      have idx: "k < nat n \<longleftrightarrow> k div 64 < w \<or> k div 64 = w \<and> k mod 64 < b"
      proof -
        have "64 * q + r < 64 * w + b \<longleftrightarrow> q < w \<or> q = w \<and> r < b" if "r < 64" for q r
          using that n(2) by (cases q w rule: linorder_cases) auto
        from this [of "k mod 64" "k div 64"] show ?thesis unfolding n(1) by simp
      qed
      show "bit (bn_mag e) k = bit (take_bit (nat n) (bn_mag a)) k"
      proof (cases "b = 0")
        case True
        then show ?thesis using la idx by (auto simp: e_def bn_mag_def bn_words_def bit_wval bit_take_bit_iff)
      next
        case False
        then show ?thesis using la idx n(2)
          by (auto simp: e_def bn_mag_def bn_words_def bit_wval bit_take_bit_iff nth_list_update m bit_simps less_Suc_eq)
      qed
    qed
    ultimately show ?thesis using s set_minimal_width [of e] by (simp add: bn_ok_def take_bit_eq_mod)
  qed
  then show "ok" "bn_wf s" "bn_mag s = bn_mag a mod 2 ^ nat n" by simp_all
qed


section \<open>Sizes\<close>

lemma bit_count_shift: "m div 2 ^ k \<noteq> 0 \<Longrightarrow> bit_count m = k + bit_count (m div 2 ^ k)"
proof (induction k arbitrary: m)
  case (Suc k)
  have e: "m div 2 div 2 ^ k = m div 2 ^ Suc k" by (simp add: div_mult2_eq [symmetric])
  then have "m \<noteq> 0" using Suc.prems by (intro notI) simp
  then have "bit_count m = Suc (bit_count (m div 2))" by (simp add: bit_count.simps [of m])
  also have "bit_count (m div 2) = k + bit_count (m div 2 ^ Suc k)" using Suc.IH [of "m div 2"] Suc.prems unfolding e by simp
  finally show ?case by simp
qed simp

lemma bit_count_bounds: "m \<noteq> 0 \<Longrightarrow> 2 ^ (bit_count m - 1) \<le> m"
proof (induction m rule: bit_count.induct)
  case (1 m)
  show ?case
  proof (cases "m div 2 = 0")
    case True
    then show ?thesis using 1(2) by (simp add: bit_count.simps [of m] bit_count.simps [of 0])
  next
    case False
    then obtain j where j: "bit_count (m div 2) = Suc j" by (simp add: bit_count.simps [of "m div 2"])
    have "2 * 2 ^ j \<le> 2 * (m div 2)" using 1(1) [OF 1(2) False] j by simp
    then show ?thesis using 1(2) j by (simp add: bit_count.simps [of m])
  qed
qed

lemma bit_count_unique: "2 ^ k \<le> m \<Longrightarrow> m < 2 ^ Suc k \<Longrightarrow> bit_count m = Suc k"
proof -
  assume m: "2 ^ k \<le> m" "m < 2 ^ Suc k"
  then have "m div 2 ^ k = 1" by (intro div_nat_eqI) simp_all
  then show ?thesis using bit_count_shift [of m k] by (simp add: bit_count.simps [of "Suc 0"] bit_count.simps [of 0])
qed

lemma num_bits_block_result:
  assumes "1 \<le> k" and "k \<le> 64"
  shows "num_bits_block k (bits, l) = (if drop_bit k l = 0 then (bits, l) else (bits + word_of_nat k, drop_bit k l))"
proof -
  let ?x = "drop_bit k l"
  have m: "0 - drop_bit (BN_BITS2 - 1) (0 - ?x) = mask_w (?x \<noteq> 0)"
  proof (cases "?x = 0")
    case False
    have "unat ?x \<le> unat l div 2" using assms(1) unfolding unat_shift
      by (intro div_le_mono2) (use power_increasing [of 1 k "2 :: nat"] in simp_all)
    then have "unat ?x \<le> 2 ^ 63" using unat_limb [of l] by (simp add: LIMB_def del: unat_limb)
    moreover have "unat (0 - ?x) = 2 ^ 64 - unat ?x" using False by (subst unat_sub_if') (simp add: unat_gt_0 word_le_nat_alt unat_eq_zero)
    ultimately have "bit (0 - ?x) 63" by (simp add: msb_bit)
    then show ?thesis using False msb_w [of "0 - ?x"] by (simp add: constant_time_msb_w_def BN_BITS2_def)
  qed (simp add: mask_w_def CONSTTIME_FALSE_W_def)
  have k: "ucast (word_of_nat k AND mask_w p :: u64) = (if p then word_of_nat k else 0 :: u32)" for p
    using assms(2) by (cases p) (auto simp: mask_w_def CONSTTIME_TRUE_W_def CONSTTIME_FALSE_W_def word_unat_eq_iff unsigned_ucast_eq unsigned_of_nat take_bit_nat_eq_self)
  have x: "l XOR ((?x XOR l) AND mask_w p) = (if p then ?x else l)" for p
  proof (cases p)
    case True
    have "l XOR (?x XOR l) = ?x" by (rule bit_word_eqI) (auto simp: bit_simps)
    then show ?thesis using True by (simp add: mask_w_def CONSTTIME_TRUE_W_def)
  qed (simp add: mask_w_def CONSTTIME_FALSE_W_def)
  show ?thesis unfolding num_bits_block_def prod.case Let_def m k x by simp
qed

lemma num_bits_block_step:
  assumes "num_bits_block k (bits, l) = (bits', l')" and "1 \<le> k" and "k \<le> 32" and "unat l < 2 ^ (2 * k)"
  shows "bits' + word_of_nat (bit_count (unat l')) = bits + word_of_nat (bit_count (unat l))" and "unat l' < 2 ^ k" and "l' = 0 \<longleftrightarrow> l = 0"
proof -
  have "unat l < 2 ^ k * 2 ^ k" using assms(4) by (simp add: mult_2 power_add)
  then have d: "unat (drop_bit k l) < 2 ^ k" unfolding unat_shift by (rule less_mult_imp_div_less)
  have z: "drop_bit k l = 0 \<longleftrightarrow> unat l < 2 ^ k" by (rule drop_bit_eq_0_iff)
  have "bit_count (unat l) = k + bit_count (unat (drop_bit k l))" if "drop_bit k l \<noteq> 0"
    using bit_count_shift [of "unat l" k] that unfolding unat_shift [symmetric] by (simp add: unat_eq_zero)
  then show "bits' + word_of_nat (bit_count (unat l')) = bits + word_of_nat (bit_count (unat l))" "unat l' < 2 ^ k" "l' = 0 \<longleftrightarrow> l = 0"
    using assms(1) num_bits_block_result [of k bits l] assms(2,3) d z by (auto split: if_splits)
qed

theorem num_bits_word_value: "unat (BN_num_bits_word l) = bit_count (unat l)"
proof -
  obtain b1 l1 where 1: "num_bits_block 32 (of_bool (l \<noteq> 0), l) = (b1, l1)" by fastforce
  obtain b2 l2 where 2: "num_bits_block 16 (b1, l1) = (b2, l2)" by fastforce
  obtain b3 l3 where 3: "num_bits_block 8 (b2, l2) = (b3, l3)" by fastforce
  obtain b4 l4 where 4: "num_bits_block 4 (b3, l3) = (b4, l4)" by fastforce
  obtain b5 l5 where 5: "num_bits_block 2 (b4, l4) = (b5, l5)" by fastforce
  obtain b6 l6 where 6: "num_bits_block 1 (b5, l5) = (b6, l6)" by fastforce
  have "unat l < 2 ^ (2 * 32)" using unat_limb [of l] by (simp add: LIMB_def del: unat_limb)
  note s1 = num_bits_block_step [OF 1 _ _ this, simplified]
  note s2 = num_bits_block_step [OF 2, simplified, OF s1(2) [simplified]]
  note s3 = num_bits_block_step [OF 3, simplified, OF s2(2) [simplified]]
  note s4 = num_bits_block_step [OF 4, simplified, OF s3(2) [simplified]]
  note s5 = num_bits_block_step [OF 5, simplified, OF s4(2) [simplified]]
  note s6 = num_bits_block_step [OF 6, simplified, OF s5(2) [simplified]]
  have "bit_count (unat l6) = of_bool (l \<noteq> 0)"
  proof (cases "l = 0")
    case True
    then show ?thesis using s1(3) s2(3) s3(3) s4(3) s5(3) s6(3) by (simp add: bit_count.simps)
  next
    case False
    then have "l6 \<noteq> 0" using s1(3) s2(3) s3(3) s4(3) s5(3) s6(3) by simp
    then have "unat l6 = 1" using s6(2) unat_eq_zero [of l6] by linarith
    then show ?thesis using False by (simp add: bit_count.simps [of "Suc 0"] bit_count.simps [of 0])
  qed
  moreover have "b6 + word_of_nat (bit_count (unat l6)) = of_bool (l \<noteq> 0) + word_of_nat (bit_count (unat l))"
    using s1(1) s2(1) s3(1) s4(1) s5(1) s6(1) by simp
  ultimately have b: "b6 = word_of_nat (bit_count (unat l))" by (cases "l = 0") simp_all
  have "bit_count (unat l) \<le> 64"
  proof (rule ccontr)
    assume c: "\<not> bit_count (unat l) \<le> 64"
    then have "unat l \<noteq> 0" by (intro notI) (simp add: bit_count.simps)
    then have "2 ^ (bit_count (unat l) - 1) \<le> unat l" by (rule bit_count_bounds)
    moreover have "(2::nat) ^ 64 \<le> 2 ^ (bit_count (unat l) - 1)" using c by (intro power_increasing) simp_all
    ultimately show False using unat_limb [of l] by (simp add: LIMB_def del: unat_limb)
  qed
  then have "unat (word_of_nat (bit_count (unat l)) :: u32) = bit_count (unat l)" by (simp add: unsigned_of_nat take_bit_nat_eq_self)
  then show ?thesis using b by (simp only: BN_num_bits_word_def 1 2 3 4 5 6 fst_conv)
qed

theorem num_bits_value:
  assumes "bn_wf a"
  shows "BN_num_bits a = bit_count (bn_mag a)"
proof (cases "bn_minimal_width a")
  case 0
  have "bn_width a \<le> length (bn_d a)" using assms by (simp add: bn_wf_def)
  then have "bn_mag a = 0" using minimal_width_0 [of "bn_width a" "bn_d a"] 0 by (simp add: bn_minimal_width_def bn_mag_def bn_words_def)
  then show ?thesis using 0 by (simp add: BN_num_bits_def bit_count.simps)
next
  case (Suc k)
  note b = minimal_width_bounds [OF assms Suc]
  have l: "k < length (bn_d a)" using b(5) assms by (simp add: bn_wf_def)
  have p: "LIMB ^ k = 2 ^ (64 * k)" by (simp add: LIMB_def power_mult)
  have "wval (take k (bn_d a)) < LIMB ^ k" using wval_less [of "take k (bn_d a)"] l by simp
  then have q: "bn_mag a div 2 ^ (64 * k) = unat (bn_d a ! k)" unfolding b(3) p [symmetric] by simp
  then have "bn_mag a div 2 ^ (64 * k) \<noteq> 0" using b(4) by (simp add: unat_eq_zero)
  from bit_count_shift [OF this] q show ?thesis by (simp add: BN_num_bits_def Suc num_bits_word_value BN_BITS2_def)
qed


section \<open>Low zero bits\<close>

fun low_zeros :: "nat \<Rightarrow> nat" where
  "low_zeros m = (if m = 0 \<or> odd m then 0 else Suc (low_zeros (m div 2)))"

declare low_zeros.simps [simp del]

lemma low_zeros_factor: "m \<noteq> 0 \<Longrightarrow> \<exists>q. odd q \<and> m = 2 ^ low_zeros m * q"
proof (induction m rule: low_zeros.induct)
  case (1 m)
  show ?case
  proof (cases "odd m")
    case True
    then show ?thesis by (auto simp: low_zeros.simps [of m])
  next
    case False
    then have "m div 2 \<noteq> 0" using 1(2) by (auto elim!: evenE)
    then obtain q where q: "odd q" "m div 2 = 2 ^ low_zeros (m div 2) * q" using 1 False by auto
    have "m = 2 * (m div 2)" using False by simp
    also have "\<dots> = 2 ^ low_zeros m * q" using False 1(2) by (subst q(2)) (simp add: low_zeros.simps [of m])
    finally show ?thesis using q(1) by blast
  qed
qed

lemma low_zeros_shift: "m \<noteq> 0 \<Longrightarrow> low_zeros (2 ^ k * m) = k + low_zeros m"
  by (induction k) (simp_all add: low_zeros.simps [of "2 * _"] mult.assoc)

lemma low_zeros_add:
  assumes "2 ^ k dvd v" and "x < 2 ^ k" and "x \<noteq> 0"
  shows "low_zeros (x + v) = low_zeros x" and "low_zeros x < k"
proof -
  obtain q where q: "odd q" "x = 2 ^ low_zeros x * q" using low_zeros_factor [OF assms(3)] by blast
  have "2 ^ low_zeros x \<le> x" using q by (metis assms(3) dvd_imp_le dvd_triv_left not_gr_zero)
  then have "(2::nat) ^ low_zeros x < 2 ^ k" using assms(2) by (rule order_le_less_trans)
  then show lt: "low_zeros x < k" by simp
  obtain u where u: "v = 2 ^ k * u" using assms(1) by blast
  have "(2::nat) ^ k = 2 ^ low_zeros x * (2 * 2 ^ (k - low_zeros x - 1))" using lt by (simp flip: power_Suc power_add)
  then have v: "v = 2 ^ low_zeros x * (2 * (2 ^ (k - low_zeros x - 1) * u))" unfolding u by (simp only: mult.assoc)
  have "x + v = 2 ^ low_zeros x * (q + 2 * (2 ^ (k - low_zeros x - 1) * u))" by (subst q(2), subst v) (simp only: distrib_left)
  moreover have nz: "q + 2 * (2 ^ (k - low_zeros x - 1) * u) \<noteq> 0" using q(1) by (cases q) simp_all
  ultimately have "low_zeros (x + v) = low_zeros x + low_zeros (q + 2 * (2 ^ (k - low_zeros x - 1) * u))"
    by (simp only: low_zeros_shift [OF nz])
  moreover have "odd (q + 2 * (2 ^ (k - low_zeros x - 1) * u))" using q(1) by simp
  ultimately show "low_zeros (x + v) = low_zeros x" by (simp add: low_zeros.simps [of "q + _"])
qed

lemma low_zero_block_step:
  assumes "low_zero_block k (bits, l) = (bits', l')" and "1 \<le> k" and "k \<le> 32" and "unat l mod 2 ^ (2 * k) \<noteq> 0"
  shows "bits' + word_of_nat (low_zeros (unat l')) = bits + word_of_nat (low_zeros (unat l))" and "unat l' mod 2 ^ k \<noteq> 0"
proof -
  have "unat (push_bit (64 - k) l) = 2 ^ (64 - k) * (unat l mod 2 ^ k)"
    using shift_step [of k 0 l] assms(3) by simp
  then have z: "push_bit (64 - k) l = 0 \<longleftrightarrow> unat l mod 2 ^ k = 0" by (simp add: unat_eq_zero [symmetric])
  have k: "ucast (word_of_nat k AND mask_w p :: u64) = (if p then word_of_nat k else 0 :: u32)" for p
    using assms(3) by (cases p) (auto simp: mask_w_def CONSTTIME_TRUE_W_def CONSTTIME_FALSE_W_def word_unat_eq_iff unsigned_ucast_eq unsigned_of_nat take_bit_nat_eq_self)
  have r: "bits' = bits + (if unat l mod 2 ^ k = 0 then word_of_nat k else 0)" "l' = (if unat l mod 2 ^ k = 0 then drop_bit k l else l)"
    using assms(1) by (simp_all add: low_zero_block_def Let_def BN_BITS2_def is_zero_w select_w k z split: if_splits)
  have p: "unat l mod 2 ^ (2 * k) = 2 ^ k * (unat l div 2 ^ k mod 2 ^ k) + unat l mod 2 ^ k"
    by (simp add: mult_2 power_add mod_mult2_eq)
  have d: "unat l = 2 ^ k * unat (drop_bit k l)" "unat (drop_bit k l) \<noteq> 0" if m0: "unat l mod 2 ^ k = 0"
  proof -
    show "unat l = 2 ^ k * unat (drop_bit k l)" unfolding unat_shift using m0 by (metis mult_div_mod_eq add_0_right)
    show "unat (drop_bit k l) \<noteq> 0" unfolding unat_shift using p m0 assms(4) by (intro notI) simp
  qed
  show "bits' + word_of_nat (low_zeros (unat l')) = bits + word_of_nat (low_zeros (unat l))"
    using r d low_zeros_shift [of "unat (drop_bit k l)" k] by (cases "unat l mod 2 ^ k = 0") simp_all
  show "unat l' mod 2 ^ k \<noteq> 0"
    using r p assms(4) by (cases "unat l mod 2 ^ k = 0") (simp_all add: unat_shift)
qed

lemma count_low_zero_bits_word:
  assumes "l \<noteq> 0"
  shows "bn_count_low_zero_bits_word l = word_of_nat (low_zeros (unat l))"
proof -
  obtain b1 l1 where 1: "low_zero_block 32 (0, l) = (b1, l1)" by fastforce
  obtain b2 l2 where 2: "low_zero_block 16 (b1, l1) = (b2, l2)" by fastforce
  obtain b3 l3 where 3: "low_zero_block 8 (b2, l2) = (b3, l3)" by fastforce
  obtain b4 l4 where 4: "low_zero_block 4 (b3, l3) = (b4, l4)" by fastforce
  obtain b5 l5 where 5: "low_zero_block 2 (b4, l4) = (b5, l5)" by fastforce
  obtain b6 l6 where 6: "low_zero_block 1 (b5, l5) = (b6, l6)" by fastforce
  have "unat l mod 2 ^ (2 * 32) \<noteq> 0" using assms unat_limb [of l] by (simp add: LIMB_def unat_eq_zero del: unat_limb)
  note s1 = low_zero_block_step [OF 1 _ _ this, simplified]
  note s2 = low_zero_block_step [OF 2, simplified, OF s1(2) [simplified]]
  note s3 = low_zero_block_step [OF 3, simplified, OF s2(2) [simplified]]
  note s4 = low_zero_block_step [OF 4, simplified, OF s3(2) [simplified]]
  note s5 = low_zero_block_step [OF 5, simplified, OF s4(2) [simplified]]
  note s6 = low_zero_block_step [OF 6, simplified, OF s5(2) [simplified]]
  have "low_zeros (unat l6) = 0" using s6(2) by (simp add: low_zeros.simps odd_iff_mod_2_eq_one)
  then have "b6 = word_of_nat (low_zeros (unat l))" using s1(1) s2(1) s3(1) s4(1) s5(1) s6(1) by simp
  then show ?thesis by (simp only: bn_count_low_zero_bits_word_def 1 2 3 4 5 6 fst_conv)
qed

lemma low_zero_loop_done: "low_zero_loop xs i (mask_w True) ret = ret"
  by (induction xs arbitrary: i) (simp_all add: mask_w_def CONSTTIME_TRUE_W_def ucast_scast)

lemma low_zero_loop_value:
  "low_zero_loop xs i (mask_w False) 0 = (if wval xs = 0 then 0 else word_of_nat (64 * i + low_zeros (wval xs)))"
proof (induction xs arbitrary: i)
  case (Cons x xs)
  show ?case
  proof (cases "x = 0")
    case True
    then have nz: "NOT (constant_time_is_zero_w x) = mask_w False" by (simp add: consttime)
    have "low_zero_loop (x # xs) i (mask_w False) 0 = low_zero_loop xs (Suc i) (mask_w False) 0"
      unfolding low_zero_loop.simps Let_def nz by (simp add: mask_w_def CONSTTIME_FALSE_W_def)
    moreover have "low_zeros (LIMB * wval xs) = 64 + low_zeros (wval xs)" if "wval xs \<noteq> 0"
      using low_zeros_shift [OF that, of 64] by (simp add: LIMB_def)
    ultimately show ?thesis using Cons.IH [of "Suc i"] True by simp
  next
    case False
    then have nz: "NOT (constant_time_is_zero_w x) = mask_w True" by (simp add: consttime)
    have "low_zero_loop (x # xs) i (mask_w False) 0 =
        low_zero_loop xs (Suc i) (mask_w True) (word_of_nat (i * 64) + bn_count_low_zero_bits_word x)"
      unfolding low_zero_loop.simps Let_def nz by (simp add: mask_w_def CONSTTIME_FALSE_W_def CONSTTIME_TRUE_W_def ucast_scast BN_BITS2_def)
    also have "\<dots> = word_of_nat (64 * i + low_zeros (unat x))"
      unfolding low_zero_loop_done count_low_zero_bits_word [OF False] by (simp add: mult.commute)
    also have "low_zeros (unat x) = low_zeros (unat x + LIMB * wval xs)"
      using low_zeros_add(1) [of 64 "LIMB * wval xs" "unat x"] False unat_limb [of x] by (simp add: LIMB_def unat_eq_zero del: unat_limb)
    finally show ?thesis using False by (simp add: unat_eq_zero)
  qed
qed (simp add: mask_w_def)

theorem count_low_zero_bits_value:
  assumes "bn_wf a" and "bn_width a < 2 ^ 25"
  shows "unat (BN_count_low_zero_bits a) = low_zeros (bn_mag a)"
proof (cases "bn_mag a = 0")
  case True
  then show ?thesis using low_zero_loop_value [of "bn_words a" 0]
    by (simp add: BN_count_low_zero_bits_def bn_mag_def mask_w_def CONSTTIME_FALSE_W_def low_zeros.simps)
next
  case False
  have "bn_mag a < 2 ^ (64 * bn_width a)" using bn_mag_less [OF assms(1)] by (simp add: LIMB_def power_mult)
  from low_zeros_add(2) [OF _ this False, of 0] have "low_zeros (bn_mag a) < 64 * bn_width a" by simp
  then have "low_zeros (bn_mag a) < 2 ^ 32" using assms(2) by simp
  then show ?thesis using False low_zero_loop_value [of "bn_words a" 0]
    by (simp add: BN_count_low_zero_bits_def bn_mag_def mask_w_def CONSTTIME_FALSE_W_def unsigned_of_nat take_bit_nat_eq_self)
qed

end
