(* ===== verification/BnCtx.thy ===== *)
theory BnCtx
  imports Bn_Spec Stack_Spec
begin

text \<open>
  \<open>crypto/fipsmodule/bn/ctx.c\<close>: the pool of temporary numbers. The numbers of the pool hang on a stack of
  pointers of \<open>stack.c\<close>, and a pointer that \<open>BN_CTX_get\<close> hands out is the position of its number there:
  \<open>ctx_bn\<close> reads the number and \<open>ctx_put\<close> writes it. \<open>BN_CTX_end\<close> asserts that there is a frame to end.
\<close>

unbundle bit_operations_syntax

section \<open>Frames\<close>

record bn_stack =
  st_indexes :: "nat list option"
  st_depth :: nat
  st_size :: nat

text \<open>The allocator with what fresh arrays hold: of pointers to numbers, and of indices.\<close>

record ctx_env =
  env_libc :: libc_malloc
  env_pointers :: "nat \<Rightarrow> bignum ptr"
  env_indexes :: "nat \<Rightarrow> nat"

abbreviation pointer_env :: "ctx_env \<Rightarrow> bignum env" where
  "pointer_env env \<equiv> (env_libc env, env_pointers env)"

definition BN_CTX_START_FRAMES :: nat where
  "BN_CTX_START_FRAMES = 32"

definition SIZEOF_SIZE_T :: nat where
  "SIZEOF_SIZE_T = 8"

definition BN_STACK_init :: bn_stack where
  "BN_STACK_init = \<lparr>st_indexes = None, st_depth = 0, st_size = 0\<rparr>"

definition stack_store :: "bn_stack \<Rightarrow> nat list \<Rightarrow> nat \<Rightarrow> bn_stack" where
  "stack_store st d idx = st\<lparr>st_indexes := Some (d[st_depth st := idx]), st_depth := st_depth st + 1\<rparr>"

definition BN_STACK_push :: "ctx_env \<Rightarrow> bn_stack \<Rightarrow> nat \<Rightarrow> bool \<times> bn_stack" where
  "BN_STACK_push env st idx =
     (if st_depth st = st_size st
      then
        (let new_size = (if st_size st \<noteq> 0 then size_mul (st_size st) 3 div 2 else BN_CTX_START_FRAMES)
         in if new_size \<le> st_size st \<or> new_size > (SIZE_MOD - 1) div SIZEOF_SIZE_T then (False, st)
            else
              (case array_realloc (env_libc env, env_indexes env) SIZEOF_SIZE_T (st_indexes st) (size_mul new_size SIZEOF_SIZE_T) of
                 None \<Rightarrow> (False, st)
               | Some d \<Rightarrow> (True, stack_store (st\<lparr>st_size := new_size\<rparr>) d idx)))
      else (True, stack_store st (pointers.elems (st_indexes st)) idx))"

definition BN_STACK_pop :: "bn_stack \<Rightarrow> nat \<times> bn_stack" where
  "BN_STACK_pop st = (let st = st\<lparr>st_depth := st_depth st - 1\<rparr> in (pointers.elems (st_indexes st) ! st_depth st, st))"

section \<open>The pool\<close>

record bn_ctx =
  ctx_bignums :: "(bignum, unit) stack option"
  ctx_stack :: bn_stack
  ctx_used :: nat
  ctx_error :: bool
  ctx_defer_error :: bool

definition SIZEOF_BN_CTX :: nat where
  "SIZEOF_BN_CTX = 48"

definition ctx_bn :: "bn_ctx \<Rightarrow> nat \<Rightarrow> bignum" where
  "ctx_bn ctx i = (case sk_value (ctx_bignums ctx) i of None \<Rightarrow> BN_init | Some bn \<Rightarrow> bn)"

definition ctx_put :: "bn_ctx \<Rightarrow> nat \<Rightarrow> bignum \<Rightarrow> bn_ctx" where
  "ctx_put ctx i bn = ctx\<lparr>ctx_bignums := snd (sk_set (ctx_bignums ctx) i (Some bn))\<rparr>"

definition BN_CTX_new :: "ctx_env \<Rightarrow> bn_ctx option" where
  "BN_CTX_new env =
     (case heap_malloc (env_libc env) SIZEOF_BN_CTX of
        None \<Rightarrow> None
      | Some _ \<Rightarrow>
          Some \<lparr>ctx_bignums = None, ctx_stack = BN_STACK_init, ctx_used = 0, ctx_error = False, ctx_defer_error = False\<rparr>)"

text \<open>What \<open>BN_CTX_free\<close> releases: the numbers and their stack; the array of indices and the struct follow.\<close>

definition BN_CTX_free :: "bn_ctx option \<Rightarrow> bignum released list" where
  "BN_CTX_free ctx = (case ctx of None \<Rightarrow> [] | Some ctx \<Rightarrow> sk_pop_free (ctx_bignums ctx) @ [Array, Struct])"

definition BN_CTX_start :: "ctx_env \<Rightarrow> bn_ctx \<Rightarrow> bn_ctx" where
  "BN_CTX_start env ctx =
     (if ctx_error ctx then ctx
      else
        (case BN_STACK_push env (ctx_stack ctx) (ctx_used ctx) of
           (False, st) \<Rightarrow> ctx\<lparr>ctx_stack := st, ctx_error := True, ctx_defer_error := True\<rparr>
         | (True, st) \<Rightarrow> ctx\<lparr>ctx_stack := st\<rparr>))"

definition BN_CTX_get :: "ctx_env \<Rightarrow> bn_ctx \<Rightarrow> nat option \<times> bn_ctx" where
  "BN_CTX_get env ctx =
     (if ctx_error ctx then (None, if ctx_defer_error ctx then ctx\<lparr>ctx_defer_error := False\<rparr> else ctx)
      else
        (case (case ctx_bignums ctx of None \<Rightarrow> sk_new_null (pointer_env env) | Some s \<Rightarrow> Some s) of
           None \<Rightarrow> (None, ctx\<lparr>ctx_error := True\<rparr>)
         | Some s \<Rightarrow>
             (let ctx = ctx\<lparr>ctx_bignums := Some s\<rparr>
              in case (if ctx_used ctx = sk_num (Some s)
                       then (case BN_new (env_libc env) of
                               None \<Rightarrow> None
                             | Some bn \<Rightarrow>
                                 (case sk_push (pointer_env env) (Some s) (Some bn) of (n, s) \<Rightarrow> if n = 0 then None else s))
                       else Some s) of
                   None \<Rightarrow> (None, ctx\<lparr>ctx_error := True\<rparr>)
                 | Some s \<Rightarrow>
                     (let ctx = ctx\<lparr>ctx_bignums := Some s\<rparr>; ret = ctx_used ctx; ctx = ctx_put ctx ret (BN_zero (ctx_bn ctx ret))
                      in (Some ret, ctx\<lparr>ctx_used := ret + 1\<rparr>)))))"

definition BN_CTX_end :: "bn_ctx \<Rightarrow> bn_ctx" where
  "BN_CTX_end ctx =
     (if ctx_error ctx then ctx
      else (case BN_STACK_pop (ctx_stack ctx) of (used, st) \<Rightarrow> ctx\<lparr>ctx_used := used, ctx_stack := st\<rparr>))"

section \<open>The state of a pool\<close>

text \<open>The frames, the numbers, and the invariant.\<close>

definition frames :: "bn_ctx \<Rightarrow> nat list" where
  "frames ctx = take (st_depth (ctx_stack ctx)) (pointers.elems (st_indexes (ctx_stack ctx)))"

definition ctx_pool :: "bn_ctx \<Rightarrow> bignum ptr list" where
  "ctx_pool ctx = (case ctx_bignums ctx of None \<Rightarrow> [] | Some s \<Rightarrow> elements s)"

text \<open>A number of the pool: its array is on the heap.\<close>

definition pooled :: "bignum \<Rightarrow> bool" where
  "pooled bn \<longleftrightarrow> bn_wf bn \<and> bn_flags bn AND BN_FLG_STATIC_DATA = 0"

lemma pooled_wf: "pooled bn \<Longrightarrow> bn_wf bn"
  by (simp add: pooled_def)

definition stack_ok :: "bn_stack \<Rightarrow> bool" where
  "stack_ok st \<longleftrightarrow> st_depth st \<le> st_size st \<and> length (pointers.elems (st_indexes st)) = st_size st \<and> st_size st \<le> ADDRESS_SPACE div 8"

definition ctx_wf :: "bn_ctx \<Rightarrow> bool" where
  "ctx_wf ctx \<longleftrightarrow> ctx_error ctx \<or>
     (stack_ok (ctx_stack ctx) \<and> (\<forall>s. ctx_bignums ctx = Some s \<longrightarrow> sk_wf s) \<and> ctx_used ctx \<le> length (ctx_pool ctx) \<and>
      (\<forall>p \<in> set (ctx_pool ctx). \<exists>bn. p = Some bn \<and> pooled bn))"

lemma new_ctx: "BN_CTX_new env = Some ctx \<Longrightarrow> ctx_wf ctx \<and> \<not> ctx_error ctx \<and> frames ctx = [] \<and> ctx_used ctx = 0"
  by (auto simp: BN_CTX_new_def ctx_wf_def BN_STACK_init_def stack_ok_def pointers.elems_def ctx_pool_def frames_def
      split: option.splits)

lemma stack_store_frames:
  assumes "length d = st_size st" and "st_depth st < st_size st" and "take (st_depth st) d = fs" and "st_size st \<le> ADDRESS_SPACE div 8"
  shows "stack_ok (stack_store st d idx)"
    "take (st_depth (stack_store st d idx)) (pointers.elems (st_indexes (stack_store st d idx))) = fs @ [idx]"
  using assms by (auto simp: stack_store_def stack_ok_def pointers.elems_def take_Suc_conv_app_nth)

lemma stack_push:
  assumes libc: "libc_wf (env_libc env)" and ok: "stack_ok st" and "BN_STACK_push env st idx = (b, st')"
  shows "b \<Longrightarrow> stack_ok st' \<and> take (st_depth st') (pointers.elems (st_indexes st')) = take (st_depth st) (pointers.elems (st_indexes st)) @ [idx]"
    and "\<not> b \<Longrightarrow> st' = st"
proof -
  let ?fs = "take (st_depth st) (pointers.elems (st_indexes st))"
  have "(b \<longrightarrow> stack_ok st' \<and> take (st_depth st') (pointers.elems (st_indexes st')) = ?fs @ [idx]) \<and> (\<not> b \<longrightarrow> st' = st)"
  proof (cases "st_depth st = st_size st")
    case False
    then have "b" "st' = stack_store st (pointers.elems (st_indexes st)) idx" using assms(3) by (simp_all add: BN_STACK_push_def)
    then show ?thesis using stack_store_frames [of "pointers.elems (st_indexes st)" st ?fs idx] ok False
      by (simp add: stack_ok_def)
  next
    case True
    let ?n = "if st_size st \<noteq> 0 then size_mul (st_size st) 3 div 2 else BN_CTX_START_FRAMES"
    let ?r = "array_realloc (env_libc env, env_indexes env) SIZEOF_SIZE_T (st_indexes st) (size_mul ?n SIZEOF_SIZE_T)"
    have sz: "st_size st \<le> ADDRESS_SPACE div 8" "length (pointers.elems (st_indexes st)) = st_size st"
      using ok by (simp_all add: stack_ok_def)
    then have n: "?n = (if st_size st \<noteq> 0 then st_size st * 3 div 2 else 32)"
      by (simp add: size_mul_def SIZE_MOD_def ADDRESS_SPACE_def BN_CTX_START_FRAMES_def)
    have lim: "?n \<le> HEAP_LIMIT div 8" using sz(1) unfolding n by (simp add: ADDRESS_SPACE_def HEAP_LIMIT_def) arith
    have mul: "size_mul ?n SIZEOF_SIZE_T = 8 * ?n"
      using lim by (simp add: size_mul_def SIZEOF_SIZE_T_def SIZE_MOD_def HEAP_LIMIT_def)
    show ?thesis
    proof (cases b)
      case False
      then show ?thesis using assms(3) True by (auto simp: BN_STACK_push_def Let_def split: if_splits option.splits)
    next
      case b: True
      then obtain d where d: "?r = Some d" "st' = stack_store (st\<lparr>st_size := ?n\<rparr>) d idx" "st_size st < ?n"
        using assms(3) True by (auto simp: BN_STACK_push_def Let_def split: if_splits option.splits)
      have r: "array_realloc (env_libc env, env_indexes env) 8 (st_indexes st) (8 * ?n) = Some d"
        using d(1) unfolding mul by (simp add: SIZEOF_SIZE_T_def)
      have le: "length (pointers.elems (st_indexes st)) \<le> ?n" using d(3) sz(2) by simp
      have "length d = ?n" "?n \<le> ADDRESS_SPACE div 8" "take (length (pointers.elems (st_indexes st))) d = pointers.elems (st_indexes st)"
        using pointers.grow [OF _ lim le r] libc by simp_all
      then have "stack_ok st'" "take (st_depth st') (pointers.elems (st_indexes st')) = ?fs @ [idx]"
        using stack_store_frames [of d "st\<lparr>st_size := ?n\<rparr>" ?fs idx] d(2,3) True sz(2) by auto
      then show ?thesis using b by blast
    qed
  qed
  then show "b \<Longrightarrow> stack_ok st' \<and> take (st_depth st') (pointers.elems (st_indexes st')) = ?fs @ [idx]" "\<not> b \<Longrightarrow> st' = st"
    by blast+
qed

lemma start_result:
  assumes libc: "libc_wf (env_libc env)" and wf: "ctx_wf ctx" and ok: "\<not> ctx_error (BN_CTX_start env ctx)"
  shows "\<not> ctx_error ctx" "ctx_wf (BN_CTX_start env ctx)" "frames (BN_CTX_start env ctx) = frames ctx @ [ctx_used ctx]"
    "ctx_used (BN_CTX_start env ctx) = ctx_used ctx" "ctx_pool (BN_CTX_start env ctx) = ctx_pool ctx"
proof -
  show ne: "\<not> ctx_error ctx" using ok by (auto simp: BN_CTX_start_def)
  obtain b st where p: "BN_STACK_push env (ctx_stack ctx) (ctx_used ctx) = (b, st)" by fastforce
  have s: "stack_ok (ctx_stack ctx)" using wf ne by (simp add: ctx_wf_def)
  have b: "b" "BN_CTX_start env ctx = ctx\<lparr>ctx_stack := st\<rparr>"
    using ok ne p by (auto simp: BN_CTX_start_def split: bool.splits)
  note st = stack_push(1) [OF libc s p b(1)]
  show "frames (BN_CTX_start env ctx) = frames ctx @ [ctx_used ctx]" using st by (simp add: b frames_def)
  show "ctx_used (BN_CTX_start env ctx) = ctx_used ctx" "ctx_pool (BN_CTX_start env ctx) = ctx_pool ctx"
    by (simp_all add: b ctx_pool_def)
  show "ctx_wf (BN_CTX_start env ctx)" using wf ne st by (simp add: b ctx_wf_def ctx_pool_def)
qed

lemma put_result:
  assumes "ctx_wf ctx" and "\<not> ctx_error ctx" and "i < length (ctx_pool ctx)" and "pooled bn"
  shows "ctx_wf (ctx_put ctx i bn)" "\<not> ctx_error (ctx_put ctx i bn)" "frames (ctx_put ctx i bn) = frames ctx"
    "ctx_used (ctx_put ctx i bn) = ctx_used ctx" "ctx_pool (ctx_put ctx i bn) = (ctx_pool ctx)[i := Some bn]"
proof -
  obtain s where s: "ctx_bignums ctx = Some s" using assms(3) by (auto simp: ctx_pool_def split: option.splits)
  have wf: "sk_wf s" using assms(1,2) s by (simp add: ctx_wf_def)
  have "i < num s" using assms(3) s by (simp add: ctx_pool_def length_elements [OF wf])
  then have p: "ctx_put ctx i bn = ctx\<lparr>ctx_bignums := Some (s\<lparr>data := (data s)[i := Some bn]\<rparr>)\<rparr>"
    by (simp add: ctx_put_def s set_elements(1) [OF wf])
  show pool: "ctx_pool (ctx_put ctx i bn) = (ctx_pool ctx)[i := Some bn]"
    by (simp add: p ctx_pool_def s set_elements(2) [OF wf])
  show "\<not> ctx_error (ctx_put ctx i bn)" "frames (ctx_put ctx i bn) = frames ctx" "ctx_used (ctx_put ctx i bn) = ctx_used ctx"
    using assms(2) by (simp_all add: p frames_def)
  have "sk_wf (s\<lparr>data := (data s)[i := Some bn]\<rparr>)" using wf by (simp add: sk_wf_def)
  moreover have "\<exists>bn. p = Some bn \<and> pooled bn" if "p \<in> set ((ctx_pool ctx)[i := Some bn])" for p
    using set_update_subset_insert [of "ctx_pool ctx" i "Some bn"] that assms(1,2,4) by (auto simp: ctx_wf_def)
  moreover have "ctx_used ctx \<le> length ((ctx_pool ctx)[i := Some bn])" using assms(1,2) by (simp add: ctx_wf_def)
  moreover have "stack_ok (ctx_stack ctx)" using assms(1,2) by (simp add: ctx_wf_def)
  ultimately show "ctx_wf (ctx_put ctx i bn)"
    unfolding ctx_wf_def pool by (simp add: p)
qed

lemma ctx_bn_pool: "ctx_wf ctx \<Longrightarrow> \<not> ctx_error ctx \<Longrightarrow> i < length (ctx_pool ctx) \<Longrightarrow> ctx_pool ctx ! i = Some (ctx_bn ctx i) \<and> pooled (ctx_bn ctx i)"
proof -
  assume *: "ctx_wf ctx" "\<not> ctx_error ctx" "i < length (ctx_pool ctx)"
  then obtain s where s: "ctx_bignums ctx = Some s" by (auto simp: ctx_pool_def split: option.splits)
  have wf: "sk_wf s" using * s by (simp add: ctx_wf_def)
  have i: "i < num s" using * s by (simp add: ctx_pool_def length_elements [OF wf])
  have "ctx_pool ctx ! i \<in> set (ctx_pool ctx)" using *(3) by simp
  then obtain bn where bn: "ctx_pool ctx ! i = Some bn" "pooled bn" using *(1,2) unfolding ctx_wf_def by blast
  have "data s ! i = Some bn" using bn(1) by (simp add: ctx_pool_def s elements_nth [OF wf i])
  then have "ctx_bn ctx i = bn" using i by (simp add: ctx_bn_def sk_value_def s)
  then show ?thesis using bn by simp
qed

lemma ctx_bn_put:
  assumes "ctx_wf ctx" and "\<not> ctx_error ctx" and "i < length (ctx_pool ctx)" and "pooled bn" and "j < length (ctx_pool ctx)"
  shows "ctx_bn (ctx_put ctx i bn) j = (if j = i then bn else ctx_bn ctx j)"
proof -
  note p = put_result [OF assms(1-4)]
  have "ctx_pool (ctx_put ctx i bn) ! j = Some (ctx_bn (ctx_put ctx i bn) j)"
    using ctx_bn_pool [OF p(1,2)] assms(5) by (simp add: p(5))
  moreover have "ctx_pool ctx ! j = Some (ctx_bn ctx j)" using ctx_bn_pool [OF assms(1,2,5)] by simp
  ultimately show ?thesis using assms(3,5) by (simp add: p(5) nth_list_update split: if_splits)
qed

lemma new_bignum: "BN_new libc = Some bn \<Longrightarrow> pooled bn"
  by (auto simp: BN_new_def bn_wf_def pooled_def BN_FLG_MALLOCED_def BN_FLG_STATIC_DATA_def split: option.splits)

lemma used_wf: "ctx_wf ctx \<Longrightarrow> \<not> ctx_error ctx \<Longrightarrow> n \<le> length (ctx_pool ctx) \<Longrightarrow> ctx_wf (ctx\<lparr>ctx_used := n\<rparr>)"
  by (simp add: ctx_wf_def ctx_pool_def)

text \<open>
  \<open>BN_CTX_get\<close> hands out the next number, a zero, and leaves the ones in use alone; or it fails for good.
\<close>

lemma get_result:
  assumes libc: "libc_wf (env_libc env)" and wf: "ctx_wf ctx" and g: "BN_CTX_get env ctx = (t, ctx')"
  shows "(t = None \<and> ctx_error ctx') \<or>
    (t = Some (ctx_used ctx) \<and> \<not> ctx_error ctx \<and> \<not> ctx_error ctx' \<and> ctx_wf ctx' \<and> frames ctx' = frames ctx \<and>
     ctx_used ctx' = ctx_used ctx + 1 \<and> ctx_used ctx' \<le> length (ctx_pool ctx') \<and>
     (\<forall>i < ctx_used ctx. ctx_bn ctx' i = ctx_bn ctx i) \<and>
     bn_ok (ctx_bn ctx' (ctx_used ctx)) \<and> bn_width (ctx_bn ctx' (ctx_used ctx)) = 0)"
proof (cases "ctx_error ctx")
  case True
  then show ?thesis using g by (auto simp: BN_CTX_get_def split: if_splits)
next
  case ne: False
  show ?thesis
  proof (cases "t = None")
    case True
    then show ?thesis using g ne by (auto simp: BN_CTX_get_def Let_def split: option.splits if_splits prod.splits)
  next
    case False
    then obtain s1 s where s1: "(case ctx_bignums ctx of None \<Rightarrow> sk_new_null (pointer_env env) | Some s \<Rightarrow> Some s) = Some s1"
      and s: "(if ctx_used ctx = sk_num (Some s1)
         then (case BN_new (env_libc env) of None \<Rightarrow> None
               | Some bn \<Rightarrow> (case sk_push (pointer_env env) (Some s1) (Some bn) of (n, s) \<Rightarrow> if n = 0 then None else s))
         else Some s1) = Some s"
      using g ne by (auto simp: BN_CTX_get_def Let_def split: option.splits)
    let ?c = "ctx\<lparr>ctx_bignums := Some s\<rparr>" and ?u = "ctx_used ctx"
    have r: "t = Some ?u" "ctx' = (ctx_put ?c ?u (BN_zero (ctx_bn ?c ?u)))\<lparr>ctx_used := ?u + 1\<rparr>"
      using g ne s1 s by (auto simp: BN_CTX_get_def Let_def)
    have wf1: "sk_wf s1" "elements s1 = ctx_pool ctx"
      using s1 wf ne new_elements [of "pointer_env env" None s1] libc
      by (auto simp: ctx_pool_def ctx_wf_def sk_new_null_def split: option.splits)
    have len1: "num s1 = length (ctx_pool ctx)" using length_elements [OF wf1(1)] wf1(2) by simp
    have u: "?u \<le> length (ctx_pool ctx)" using wf ne by (simp add: ctx_wf_def)
    have "sk_wf s \<and> (elements s = ctx_pool ctx \<and> ?u < length (ctx_pool ctx) \<or>
        (\<exists>bn. pooled bn \<and> elements s = ctx_pool ctx @ [Some bn] \<and> ?u = length (ctx_pool ctx)))"
    proof (cases "?u = num s1")
      case False
      then have "s = s1" using s by (simp add: sk_num_def)
      then show ?thesis using wf1 len1 u False by auto
    next
      case True
      then obtain bn where bn: "BN_new (env_libc env) = Some bn"
        and n: "(case sk_push (pointer_env env) (Some s1) (Some bn) of (n, s) \<Rightarrow> if n = 0 then None else s) = Some s"
        using s by (auto simp: sk_num_def split: option.splits)
      have l: "libc_wf (fst (pointer_env env))" using libc by simp
      from insert_elements [OF wf1(1) l, of "Some bn" "num s1"]
      have "sk_wf s \<and> elements s = take (num s1) (elements s1) @ Some bn # drop (num s1) (elements s1)"
        using n by cases (auto simp: sk_push_def)
      then show ?thesis using new_bignum [OF bn] wf1(2) len1 True by auto
    qed
    then have sw: "sk_wf s" and el: "?u < length (elements s)" "\<forall>i < ?u. elements s ! i = ctx_pool ctx ! i"
        "\<forall>p \<in> set (elements s). \<exists>bn. p = Some bn \<and> pooled bn"
      using wf ne u by (auto simp: ctx_wf_def nth_append)
    have c: "ctx_wf ?c" "\<not> ctx_error ?c" "ctx_pool ?c = elements s" "frames ?c = frames ctx"
      using wf ne sw el by (auto simp: ctx_wf_def ctx_pool_def frames_def)
    have uc: "?u < length (ctx_pool ?c)" using el c by simp
    have z: "pooled (BN_zero (ctx_bn ?c ?u))" using ctx_bn_pool [OF c(1,2) uc] by (auto simp: pooled_def BN_zero_def bn_wf_def)
    note p = put_result [OF c(1,2) uc z]
    let ?c' = "ctx_put ?c ?u (BN_zero (ctx_bn ?c ?u))"
    have upd: "frames ctx' = frames ?c'" "ctx_pool ctx' = ctx_pool ?c'" "ctx_bn ctx' i = ctx_bn ?c' i" for i
      by (simp_all add: r(2) frames_def ctx_pool_def ctx_bn_def)
    have old: "ctx_bn ctx' i = ctx_bn ctx i" if "i < ?u" for i
    proof -
      have "ctx_bn ctx' i = ctx_bn ?c i" using ctx_bn_put [OF c(1,2) uc z, of i] that uc by (simp add: upd)
      moreover have "ctx_pool ?c ! i = Some (ctx_bn ?c i)" using ctx_bn_pool [OF c(1,2), of i] that uc by simp
      moreover have "ctx_pool ctx ! i = Some (ctx_bn ctx i)" using ctx_bn_pool [OF wf ne, of i] that u by simp
      ultimately show ?thesis using el(2) c(3) that by simp
    qed
    have new: "ctx_bn ctx' ?u = BN_zero (ctx_bn ?c ?u)" using ctx_bn_put [OF c(1,2) uc z uc] by (simp add: upd)
    have "bn_ok (ctx_bn ctx' ?u)" "bn_width (ctx_bn ctx' ?u) = 0"
      using new ctx_bn_pool [OF c(1,2) uc] zero_value(3) pooled_wf by (auto simp: BN_zero_def)
    moreover have "ctx_wf ctx'" using used_wf [OF p(1,2), of "?u + 1"] uc p(5) by (simp add: r(2))
    moreover have "\<not> ctx_error ctx'" "ctx_used ctx' = ?u + 1" using p by (simp_all add: r(2))
    moreover have "ctx_used ctx' \<le> length (ctx_pool ctx')" using uc p(5) upd(2) calculation(5) by simp
    ultimately show ?thesis using r(1) ne old p(3) c(4) upd(1) by simp
  qed
qed

lemma end_result:
  assumes "ctx_wf ctx" and "\<not> ctx_error ctx" and "frames ctx = fs @ [u]" and "u \<le> ctx_used ctx"
  shows "ctx_wf (BN_CTX_end ctx)" "\<not> ctx_error (BN_CTX_end ctx)" "frames (BN_CTX_end ctx) = fs" "ctx_used (BN_CTX_end ctx) = u"
    "ctx_bn (BN_CTX_end ctx) i = ctx_bn ctx i" "ctx_pool (BN_CTX_end ctx) = ctx_pool ctx"
proof -
  let ?st = "ctx_stack ctx" and ?d = "pointers.elems (st_indexes (ctx_stack ctx))"
  have ok: "stack_ok ?st" using assms(1,2) by (simp add: ctx_wf_def)
  have len: "st_depth ?st = Suc (length fs)"
    using arg_cong [OF assms(3), of length] ok by (simp add: frames_def stack_ok_def)
  have "?d ! length fs = (take (st_depth ?st) ?d) ! length fs" using len by simp
  then have top: "?d ! length fs = u" using assms(3) by (simp add: frames_def nth_append)
  have e: "BN_CTX_end ctx = ctx\<lparr>ctx_used := u, ctx_stack := ?st\<lparr>st_depth := length fs\<rparr>\<rparr>"
    using assms(2) len top by (simp add: BN_CTX_end_def BN_STACK_pop_def Let_def)
  have "take (length fs) (take (st_depth ?st) ?d) = fs" using assms(3) by (simp add: frames_def)
  then show "frames (BN_CTX_end ctx) = fs" using len by (simp add: e frames_def)
  show "\<not> ctx_error (BN_CTX_end ctx)" "ctx_used (BN_CTX_end ctx) = u" using assms(2) by (simp_all add: e)
  show "ctx_bn (BN_CTX_end ctx) i = ctx_bn ctx i" "ctx_pool (BN_CTX_end ctx) = ctx_pool ctx" by (simp_all add: e ctx_bn_def ctx_pool_def)
  show "ctx_wf (BN_CTX_end ctx)" using assms(1,2,4) ok len by (auto simp: e ctx_wf_def ctx_pool_def stack_ok_def)
qed

text \<open>
  \<open>ctx_keeps ctx ctx'\<close>: unless the pool has failed, its frames and the numbers in use are what they were;
  more numbers may be in use.
\<close>

definition ctx_keeps :: "bn_ctx \<Rightarrow> bn_ctx \<Rightarrow> bool" where
  "ctx_keeps ctx ctx' \<longleftrightarrow> (\<not> ctx_error ctx' \<longrightarrow>
     \<not> ctx_error ctx \<and> ctx_wf ctx' \<and> frames ctx' = frames ctx \<and> ctx_used ctx \<le> ctx_used ctx' \<and>
     (\<forall>i < ctx_used ctx. ctx_bn ctx' i = ctx_bn ctx i))"

lemma ctx_keeps_refl: "ctx_wf ctx \<Longrightarrow> ctx_keeps ctx ctx"
  by (simp add: ctx_keeps_def)

lemma ctx_keeps_trans: "ctx_keeps a b \<Longrightarrow> ctx_keeps b c \<Longrightarrow> ctx_keeps a c"
  by (auto simp: ctx_keeps_def)

lemma ctx_keeps_wf: "ctx_keeps a b \<Longrightarrow> ctx_wf b"
  by (auto simp: ctx_keeps_def ctx_wf_def)

lemma get_keeps:
  assumes "libc_wf (env_libc env)" and "ctx_wf ctx" and "BN_CTX_get env ctx = (t, ctx')"
  shows "ctx_keeps ctx ctx'" and "t = None \<longleftrightarrow> ctx_error ctx'"
    and "t = Some i \<Longrightarrow> i = ctx_used ctx" and "t = Some i \<Longrightarrow> i < ctx_used ctx'" and "t = Some i \<Longrightarrow> pooled (ctx_bn ctx' i)"
    and "t = Some i \<Longrightarrow> bn_ok (ctx_bn ctx' i)" and "t = Some i \<Longrightarrow> bn_width (ctx_bn ctx' i) = 0"
proof -
  note g = get_result [OF assms]
  show "t = None \<longleftrightarrow> ctx_error ctx'" using g by auto
  show "ctx_keeps ctx ctx'" using g by (auto simp: ctx_keeps_def)
  assume t: "t = Some i"
  with g have "ctx_wf ctx'" "\<not> ctx_error ctx'" "ctx_used ctx < length (ctx_pool ctx')" by auto
  from ctx_bn_pool [OF this] g t
  show "i = ctx_used ctx" "i < ctx_used ctx'" "pooled (ctx_bn ctx' i)" "bn_ok (ctx_bn ctx' i)" "bn_width (ctx_bn ctx' i) = 0"
    by auto
qed

lemma put_keeps:
  assumes "ctx_keeps ctx ctx'" and "ctx_used ctx \<le> i" and "i < ctx_used ctx'" and "pooled bn"
  shows "ctx_keeps ctx (ctx_put ctx' i bn)" and "ctx_used (ctx_put ctx' i bn) = ctx_used ctx'"
    and "\<not> ctx_error ctx' \<Longrightarrow> j < ctx_used ctx' \<Longrightarrow> ctx_bn (ctx_put ctx' i bn) j = (if j = i then bn else ctx_bn ctx' j)"
proof -
  have p: "ctx_keeps ctx (ctx_put ctx' i bn) \<and> (j < ctx_used ctx' \<longrightarrow> ctx_bn (ctx_put ctx' i bn) j = (if j = i then bn else ctx_bn ctx' j))"
    if ne: "\<not> ctx_error ctx'" for j
  proof -
    have wf: "ctx_wf ctx'" using assms(1) by (rule ctx_keeps_wf)
    then have u: "ctx_used ctx' \<le> length (ctx_pool ctx')" using ne by (simp add: ctx_wf_def)
    then have i: "i < length (ctx_pool ctx')" using assms(3) by simp
    note r = put_result [OF wf ne i assms(4)] and v = ctx_bn_put [OF wf ne i assms(4)]
    show ?thesis using r v assms(1-3) ne u by (auto simp: ctx_keeps_def)
  qed
  show "ctx_keeps ctx (ctx_put ctx' i bn)"
    using p by (cases "ctx_error ctx'") (auto simp: ctx_keeps_def ctx_put_def)
  show "ctx_used (ctx_put ctx' i bn) = ctx_used ctx'" by (simp add: ctx_put_def)
  show "\<not> ctx_error ctx' \<Longrightarrow> j < ctx_used ctx' \<Longrightarrow> ctx_bn (ctx_put ctx' i bn) j = (if j = i then bn else ctx_bn ctx' j)"
    using p by blast
qed

text \<open>A frame: what happens between \<open>BN_CTX_start\<close> and \<open>BN_CTX_end\<close> leaves the pool as it was.\<close>

lemma balanced:
  assumes "libc_wf (env_libc env)" and "ctx_wf ctx" and "ctx_keeps (BN_CTX_start env ctx) ctx'"
  shows "ctx_keeps ctx (BN_CTX_end ctx')" and "ctx_error (BN_CTX_end ctx') \<longleftrightarrow> ctx_error ctx'"
    and "\<not> ctx_error (BN_CTX_end ctx') \<Longrightarrow> ctx_used (BN_CTX_end ctx') = ctx_used ctx"
proof -
  have all: "ctx_keeps ctx (BN_CTX_end ctx') \<and> (ctx_error (BN_CTX_end ctx') \<longleftrightarrow> ctx_error ctx') \<and>
    (\<not> ctx_error (BN_CTX_end ctx') \<longrightarrow> ctx_used (BN_CTX_end ctx') = ctx_used ctx)"
  proof (cases "ctx_error ctx'")
    case True
    then show ?thesis by (simp add: ctx_keeps_def BN_CTX_end_def)
  next
    case ne: False
    then have k: "\<not> ctx_error (BN_CTX_start env ctx)" "ctx_wf ctx'" "frames ctx' = frames (BN_CTX_start env ctx)"
      "ctx_used (BN_CTX_start env ctx) \<le> ctx_used ctx'" "\<forall>i < ctx_used (BN_CTX_start env ctx). ctx_bn ctx' i = ctx_bn (BN_CTX_start env ctx) i"
      using assms(3) by (auto simp: ctx_keeps_def)
    note s = start_result [OF assms(1,2) k(1)]
    have f: "frames ctx' = frames ctx @ [ctx_used ctx]" "ctx_used ctx \<le> ctx_used ctx'" using k s by simp_all
    note e = end_result [OF k(2) ne f]
    have "ctx_bn (BN_CTX_end ctx') i = ctx_bn ctx i" if "i < ctx_used ctx" for i
    proof -
      have "i < length (ctx_pool ctx)" using that assms(2) s(1) by (simp add: ctx_wf_def)
      with ctx_bn_pool [OF s(2) k(1), of i] ctx_bn_pool [OF assms(2) s(1), of i] s(5)
      have "ctx_bn (BN_CTX_start env ctx) i = ctx_bn ctx i" by simp
      then show ?thesis using k(5) that e(5) [of i] s(4) by simp
    qed
    then show ?thesis using e(1-4) s(1) ne by (simp add: ctx_keeps_def)
  qed
  show "ctx_keeps ctx (BN_CTX_end ctx')" by (rule conjunct1 [OF all])
  show "ctx_error (BN_CTX_end ctx') \<longleftrightarrow> ctx_error ctx'" by (rule conjunct1 [OF conjunct2 [OF all]])
  show "\<not> ctx_error (BN_CTX_end ctx') \<Longrightarrow> ctx_used (BN_CTX_end ctx') = ctx_used ctx"
    by (rule mp [OF conjunct2 [OF conjunct2 [OF all]]])
qed

lemma start_wf: "libc_wf (env_libc env) \<Longrightarrow> ctx_wf ctx \<Longrightarrow> ctx_wf (BN_CTX_start env ctx)"
  by (cases "ctx_error (BN_CTX_start env ctx)") (simp add: ctx_wf_def, rule start_result(2))

text \<open>Once it has failed, a pool fails for good.\<close>

lemma error_stays:
  "ctx_error ctx \<Longrightarrow> ctx_error (BN_CTX_start env ctx)" "ctx_error ctx \<Longrightarrow> BN_CTX_end ctx = ctx"
  "ctx_error ctx \<Longrightarrow> \<exists>ctx'. BN_CTX_get env ctx = (None, ctx') \<and> ctx_error ctx'" "ctx_error (ctx_put ctx i bn) = ctx_error ctx"
  by (simp_all add: BN_CTX_start_def BN_CTX_end_def BN_CTX_get_def ctx_put_def)

text \<open>A temporary in a frame of its own.\<close>

lemma temporary_in_frame:
  assumes libc: "libc_wf (env_libc env)" and ctx: "ctx_wf ctx" and g: "BN_CTX_get env (BN_CTX_start env ctx) = (Some i, ctx')" and p: "pooled bn"
  shows "i = ctx_used ctx" "bn_int (ctx_bn ctx' i) = 0" "\<forall>j < ctx_used ctx. ctx_bn (ctx_put ctx' i bn) j = ctx_bn ctx j"
    "ctx_bn (ctx_put ctx' i bn) i = bn" "ctx_wf (BN_CTX_end (ctx_put ctx' i bn))"
    "ctx_used (BN_CTX_end (ctx_put ctx' i bn)) = ctx_used ctx" "frames (BN_CTX_end (ctx_put ctx' i bn)) = frames ctx"
proof -
  let ?c = "BN_CTX_start env ctx"
  have c: "ctx_wf ?c" by (rule start_wf [OF libc ctx])
  note r = get_result [OF libc c g] and k = get_keeps [OF libc c g]
  have ne: "\<not> ctx_error ?c" "\<not> ctx_error ctx'" using r by simp_all
  note st = start_result [OF libc ctx ne(1)]
  show i: "i = ctx_used ctx" using k(3) [OF refl] st by simp
  show "bn_int (ctx_bn ctx' i) = 0" using k(7) [OF refl] by (simp add: bn_int_def bn_mag_def bn_words_def)
  have u: "ctx_used ?c \<le> i" using k(3) [OF refl] by simp
  note pk = put_keeps [OF k(1) u k(4) [OF refl] p]
  have same: "ctx_bn ?c j = ctx_bn ctx j" for j using st by (simp add: ctx_bn_def BN_CTX_start_def split: prod.splits bool.splits if_splits)
  show "ctx_bn (ctx_put ctx' i bn) i = bn" using pk(3) [OF ne(2) k(4) [OF refl]] by simp
  show "\<forall>j < ctx_used ctx. ctx_bn (ctx_put ctx' i bn) j = ctx_bn ctx j"
  proof (intro allI impI)
    fix j assume j: "j < ctx_used ctx"
    then have "j < ctx_used ctx'" "j \<noteq> i" using i k(4) [OF refl] by simp_all
    moreover have "ctx_bn ctx' j = ctx_bn ctx j" using k(1) ne(2) j st same by (auto simp: ctx_keeps_def)
    ultimately show "ctx_bn (ctx_put ctx' i bn) j = ctx_bn ctx j" using pk(3) [OF ne(2), of j] by simp
  qed
  note b = balanced [OF libc ctx pk(1)]
  have "\<not> ctx_error (ctx_put ctx' i bn)" using ne(2) by (simp add: ctx_put_def)
  then have ne2: "\<not> ctx_error (BN_CTX_end (ctx_put ctx' i bn))" using b(2) by simp
  then show "ctx_wf (BN_CTX_end (ctx_put ctx' i bn))" "ctx_used (BN_CTX_end (ctx_put ctx' i bn)) = ctx_used ctx"
    "frames (BN_CTX_end (ctx_put ctx' i bn)) = frames ctx"
    using b by (simp_all add: ctx_keeps_def)
qed

end
