(* ===== verification/BnProd.thy ===== *)
theory BnProd
  imports BnCtx
begin

text \<open>
  The products of \<open>crypto/fipsmodule/bn/mul.c\<close> on big numbers: the choice of the algorithm, the temporaries
  and the result. \<open>same\<close> says that the result is the same object as an operand, which is then computed in a
  number of the pool and copied. The scratch array of the recursive routines is expanded in its number of
  the pool; what they leave in it lies beyond its width and is not modelled.
\<close>

unbundle bit_operations_syntax

section \<open>Multiplication\<close>

definition kMulNormalSize :: nat where
  "kMulNormalSize = 16"

text \<open>The words of a product are stored in \<open>rr\<close>.\<close>

definition store_product :: "bignum \<Rightarrow> nat \<Rightarrow> words \<Rightarrow> bignum" where
  "store_product rr tp ws = rr\<lparr>bn_width := tp, bn_d := mem_write (bn_d rr) 0 ws\<rparr>"

text \<open>The body of \<open>bn_mul_impl\<close>, from the sign of \<open>rr\<close> to the label \<open>end\<close>.\<close>

definition mul_into :: "ctx_env \<Rightarrow> bignum \<Rightarrow> bignum \<Rightarrow> bignum \<Rightarrow> bn_ctx \<Rightarrow> bool \<times> bignum \<times> bn_ctx" where
  "mul_into env rr a b ctx =
     (let libc = env_libc env; al = bn_width a; bl = bn_width b; rr = rr\<lparr>bn_neg := (bn_neg a \<noteq> bn_neg b)\<rparr>;
          i = int al - int bl
      in if i = 0 \<and> al = 8
         then
           (case bn_wexpand libc rr 16 of
              (False, rr) \<Rightarrow> (False, rr, ctx)
            | (True, rr) \<Rightarrow> (True, store_product rr 16 (bn_mul_comba8 (take 8 (bn_d a)) (take 8 (bn_d b))), ctx))
         else
           (let tp = al + bl
            in if al \<ge> kMulNormalSize \<and> bl \<ge> kMulNormalSize \<and> - 1 \<le> i \<and> i \<le> 1
               then
                 (let j = (if i \<ge> 0 then BN_num_bits_word (word_of_nat al) else BN_num_bits_word (word_of_nat bl));
                      j = push_bit (unat j - 1) 1
                  in case BN_CTX_get env ctx of
                       (None, ctx) \<Rightarrow> (False, rr, ctx)
                     | (Some t, ctx) \<Rightarrow>
                         (if al > j \<or> bl > j
                          then
                            (case bn_wexpand libc (ctx_bn ctx t) (j * 8) of
                               (False, tb) \<Rightarrow> (False, rr, ctx)
                             | (True, tb) \<Rightarrow>
                                 (case bn_wexpand libc rr (j * 4) of
                                    (False, rr) \<Rightarrow> (False, rr, ctx_put ctx t tb)
                                  | (True, rr) \<Rightarrow>
                                      (True, store_product rr tp
                                         (bn_mul_part_recursive (bn_d rr) (bn_words a) (bn_words b) j (al - j) (bl - j)), ctx_put ctx t tb)))
                          else
                            (case bn_wexpand libc (ctx_bn ctx t) (j * 4) of
                               (False, tb) \<Rightarrow> (False, rr, ctx)
                             | (True, tb) \<Rightarrow>
                                 (case bn_wexpand libc rr (j * 2) of
                                    (False, rr) \<Rightarrow> (False, rr, ctx_put ctx t tb)
                                  | (True, rr) \<Rightarrow>
                                      (True, store_product rr tp
                                         (bn_mul_recursive (bn_words a) (bn_words b) j (int al - int j) (int bl - int j)), ctx_put ctx t tb)))))
               else
                 (case bn_wexpand libc rr tp of
                    (False, rr) \<Rightarrow> (False, rr, ctx)
                  | (True, rr) \<Rightarrow> (True, store_product rr tp (bn_mul_normal (bn_words a) al (bn_words b) bl), ctx))))"

definition bn_mul_impl :: "ctx_env \<Rightarrow> bool \<Rightarrow> bignum \<Rightarrow> bignum \<Rightarrow> bignum \<Rightarrow> bn_ctx \<Rightarrow> bool \<times> bignum \<times> bn_ctx" where
  "bn_mul_impl env same r a b ctx =
     (if bn_width a = 0 \<or> bn_width b = 0 then (True, BN_zero r, ctx)
      else
        (let ctx = BN_CTX_start env ctx
         in if same
            then
              (case BN_CTX_get env ctx of
                 (None, ctx) \<Rightarrow> (False, r, BN_CTX_end ctx)
               | (Some i, ctx) \<Rightarrow>
                   (case mul_into env (ctx_bn ctx i) a b ctx of
                      (False, rr, ctx) \<Rightarrow> (False, r, BN_CTX_end (ctx_put ctx i rr))
                    | (True, rr, ctx) \<Rightarrow> (case BN_copy (env_libc env) r rr of (ok, r) \<Rightarrow> (ok, r, BN_CTX_end (ctx_put ctx i rr)))))
            else (case mul_into env r a b ctx of (ok, r, ctx) \<Rightarrow> (ok, r, BN_CTX_end ctx))))"

definition BN_mul :: "ctx_env \<Rightarrow> bool \<Rightarrow> bignum \<Rightarrow> bignum \<Rightarrow> bignum \<Rightarrow> bn_ctx \<Rightarrow> bool \<times> bignum \<times> bn_ctx" where
  "BN_mul env same r a b ctx =
     (case bn_mul_impl env same r a b ctx of
        (False, r, ctx) \<Rightarrow> (False, r, ctx)
      | (True, r, ctx) \<Rightarrow> (True, bn_set_minimal_width r, ctx))"

definition bn_mul_consttime :: "ctx_env \<Rightarrow> bool \<Rightarrow> bignum \<Rightarrow> bignum \<Rightarrow> bignum \<Rightarrow> bn_ctx \<Rightarrow> bool \<times> bignum \<times> bn_ctx" where
  "bn_mul_consttime env same r a b ctx = (if bn_neg a \<or> bn_neg b then (False, r, ctx) else bn_mul_impl env same r a b ctx)"

definition BN_mul_word :: "libc_malloc \<Rightarrow> bignum \<Rightarrow> u64 \<Rightarrow> bool \<times> bignum" where
  "BN_mul_word libc bn w =
     (if bn_width bn = 0 then (True, bn)
      else if w = 0 then (True, BN_zero bn)
      else
        (case bn_mul_words (bn_d bn) (bn_width bn) w of
           (ws, ll) \<Rightarrow>
             (let bn = bn\<lparr>bn_d := mem_write (bn_d bn) 0 ws\<rparr>
              in if ll \<noteq> 0
                 then (case bn_wexpand libc bn (bn_width bn + 1) of
                         (False, bn) \<Rightarrow> (False, bn)
                       | (True, bn) \<Rightarrow> (True, bn\<lparr>bn_d := (bn_d bn)[bn_width bn := ll], bn_width := bn_width bn + 1\<rparr>))
                 else (True, bn))))"

section \<open>Squaring\<close>

text \<open>The body of \<open>bn_sqr_consttime\<close> from the first expansion on; \<open>tmp\<close> is its second temporary.\<close>

definition sqr_into :: "ctx_env \<Rightarrow> bignum \<Rightarrow> nat \<Rightarrow> bignum \<Rightarrow> bn_ctx \<Rightarrow> bool \<times> bignum \<times> bn_ctx" where
  "sqr_into env rr tmp a ctx =
     (let libc = env_libc env; al = bn_width a; mx = 2 * al
      in case bn_wexpand libc rr mx of
           (False, rr) \<Rightarrow> (False, rr, ctx)
         | (True, rr) \<Rightarrow>
             (case (if al = 4 then (Some (bn_sqr_comba4 (take 4 (bn_d a))), ctx)
                    else if al = 8 then (Some (bn_sqr_comba8 (take 8 (bn_d a))), ctx)
                    else if al < BN_SQR_RECURSIVE_SIZE_NORMAL then (Some (bn_sqr_normal (bn_words a) al), ctx)
                    else if al \<noteq> 0 \<and> al AND (al - 1) = 0
                    then (case bn_wexpand libc (ctx_bn ctx tmp) (al * 4) of
                            (False, tb) \<Rightarrow> (None, ctx)
                          | (True, tb) \<Rightarrow> (Some (bn_sqr_recursive (bn_words a) al), ctx_put ctx tmp tb))
                    else (case bn_wexpand libc (ctx_bn ctx tmp) mx of
                            (False, tb) \<Rightarrow> (None, ctx)
                          | (True, tb) \<Rightarrow> (Some (bn_sqr_normal (bn_words a) al), ctx_put ctx tmp tb))) of
                (None, ctx) \<Rightarrow> (False, rr, ctx)
              | (Some ws, ctx) \<Rightarrow> (True, rr\<lparr>bn_d := mem_write (bn_d rr) 0 ws, bn_neg := False, bn_width := mx\<rparr>, ctx)))"

definition bn_sqr_consttime :: "ctx_env \<Rightarrow> bool \<Rightarrow> bignum \<Rightarrow> bignum \<Rightarrow> bn_ctx \<Rightarrow> bool \<times> bignum \<times> bn_ctx" where
  "bn_sqr_consttime env same r a ctx =
     (if bn_width a = 0 then (True, r\<lparr>bn_width := 0, bn_neg := False\<rparr>, ctx)
      else
        (let ctx = BN_CTX_start env ctx
         in if same
            then
              (case BN_CTX_get env ctx of
                 (rr, ctx) \<Rightarrow>
                   (case BN_CTX_get env ctx of
                      (tmp, ctx) \<Rightarrow>
                        (case (rr, tmp) of
                           (Some i, Some tmp) \<Rightarrow>
                             (case sqr_into env (ctx_bn ctx i) tmp a ctx of
                                (False, rr, ctx) \<Rightarrow> (False, r, BN_CTX_end (ctx_put ctx i rr))
                              | (True, rr, ctx) \<Rightarrow>
                                  (case BN_copy (env_libc env) r rr of (ok, r) \<Rightarrow> (ok, r, BN_CTX_end (ctx_put ctx i rr))))
                         | _ \<Rightarrow> (False, r, BN_CTX_end ctx))))
            else
              (case BN_CTX_get env ctx of
                 (None, ctx) \<Rightarrow> (False, r, BN_CTX_end ctx)
               | (Some tmp, ctx) \<Rightarrow> (case sqr_into env r tmp a ctx of (ok, r, ctx) \<Rightarrow> (ok, r, BN_CTX_end ctx)))))"

definition BN_sqr :: "ctx_env \<Rightarrow> bool \<Rightarrow> bignum \<Rightarrow> bignum \<Rightarrow> bn_ctx \<Rightarrow> bool \<times> bignum \<times> bn_ctx" where
  "BN_sqr env same r a ctx =
     (case bn_sqr_consttime env same r a ctx of
        (False, r, ctx) \<Rightarrow> (False, r, ctx)
      | (True, r, ctx) \<Rightarrow> (True, bn_set_minimal_width r, ctx))"

text \<open>The distance of two magnitudes.\<close>

definition bn_abs_sub_consttime :: "ctx_env \<Rightarrow> bignum \<Rightarrow> bignum \<Rightarrow> bignum \<Rightarrow> bn_ctx \<Rightarrow> bool \<times> bignum \<times> bn_ctx" where
  "bn_abs_sub_consttime env r a b ctx =
     (let libc = env_libc env;
          cl = (if bn_width a < bn_width b then bn_width a else bn_width b);
          dl = int (bn_width a) - int (bn_width b);
          r_len = (if bn_width a < bn_width b then bn_width b else bn_width a)
      in case BN_CTX_get env (BN_CTX_start env ctx) of
           (None, ctx) \<Rightarrow> (False, r, BN_CTX_end ctx)
         | (Some t, ctx) \<Rightarrow>
             (case bn_wexpand libc r r_len of
                (False, r) \<Rightarrow> (False, r, BN_CTX_end ctx)
              | (True, r) \<Rightarrow>
                  (case bn_wexpand libc (ctx_bn ctx t) r_len of
                     (False, tb) \<Rightarrow> (False, r, BN_CTX_end ctx)
                   | (True, tb) \<Rightarrow>
                       (True, store_product r r_len (fst (bn_abs_sub_part_words (bn_words a) (bn_words b) cl dl)),
                        BN_CTX_end (ctx_put ctx t tb)))))"

end
