(* ===== verification/BnDiv.thy ===== *)
theory BnDiv
  imports BnProd
begin

text \<open>
  \<open>crypto/fipsmodule/bn/div.c\<close> without \<open>BN_div\<close>: division bit by bit in constant time, the modular
  operations on reduced numbers, division by a word and by a power of two. A pointer to a result that may
  be \<open>NULL\<close> or the same object as an operand is an option of its value and a flag.
\<close>

unbundle bit_operations_syntax

definition bn_div_rem_words :: "u64 \<Rightarrow> u64 \<Rightarrow> u64 \<Rightarrow> u64 \<times> u64" where
  "bn_div_rem_words n0 n1 d0 =
     (let n = push_bit BN_BITS2 (ucast n0) OR ucast n1 :: u128;
          q = ucast (n div ucast d0)
      in (q, n1 - q * d0))"

section \<open>Long division in binary\<close>

text \<open>The loops: \<open>m\<close> is the divisor of \<open>num\<close> words, \<open>x\<close> a word of the numerator, \<open>q\<close> the one of the quotient.\<close>

fun div_bits_loop :: "words \<Rightarrow> nat \<Rightarrow> u64 \<Rightarrow> nat \<Rightarrow> words \<Rightarrow> u64 \<Rightarrow> words \<times> u64" where
  "div_bits_loop m w x 0 r q = (r, q)"
| "div_bits_loop m w x (Suc b) r q =
     (case bn_add_words r r w of
        (r, carry) \<Rightarrow>
          (let r = r[0 := r ! 0 OR (drop_bit b x AND 1)]
           in case bn_reduce_once_in_place r carry m w of
                (r, subtracted) \<Rightarrow> div_bits_loop m w x b r (q OR push_bit b (NOT subtracted AND 1))))"

fun div_words_loop :: "words \<Rightarrow> nat \<Rightarrow> words \<Rightarrow> nat \<Rightarrow> words \<Rightarrow> words \<Rightarrow> words \<times> words" where
  "div_words_loop m w nd 0 r q = (r, q)"
| "div_words_loop m w nd (Suc i) r q =
     (case div_bits_loop m w (nd ! i) BN_BITS2 r (q ! i) of (r, qi) \<Rightarrow> div_words_loop m w nd i r (q[i := qi]))"

text \<open>A result: the object it is computed in, which is a temporary if there is none of its own.\<close>

definition own_or_temporary :: "ctx_env \<Rightarrow> (bignum \<times> bool) option \<Rightarrow> bn_ctx \<Rightarrow> (bignum \<times> nat option) option \<times> bn_ctx" where
  "own_or_temporary env res ctx =
     (case res of
        Some (r, False) \<Rightarrow> (Some (r, None), ctx)
      | _ \<Rightarrow>
          (case BN_CTX_get env ctx of
             (None, ctx) \<Rightarrow> (None, ctx)
           | (Some i, ctx) \<Rightarrow> (Some (ctx_bn ctx i, Some i), ctx)))"

definition put_temporary :: "bn_ctx \<Rightarrow> nat option \<Rightarrow> bignum \<Rightarrow> bn_ctx" where
  "put_temporary ctx t bn = (case t of None \<Rightarrow> ctx | Some i \<Rightarrow> ctx_put ctx i bn)"

text \<open>\<open>BN_copy(res, x)\<close>, or nothing where \<open>res\<close> is \<open>NULL\<close> or is \<open>x\<close> itself.\<close>

definition deliver :: "libc_malloc \<Rightarrow> (bignum \<times> bool) option \<Rightarrow> bignum \<Rightarrow> nat option \<Rightarrow> bool \<times> bignum option" where
  "deliver libc res x t =
     (case res of
        None \<Rightarrow> (True, None)
      | Some (r, _) \<Rightarrow>
          (case t of None \<Rightarrow> (True, Some x) | Some _ \<Rightarrow> (case BN_copy libc r x of (ok, r) \<Rightarrow> (ok, Some r))))"

text \<open>The object of a result that is given up: it has changed if it was used itself.\<close>

definition kept :: "bignum option \<Rightarrow> nat option \<Rightarrow> bignum \<Rightarrow> bignum option" where
  "kept res t bn = (case t of None \<Rightarrow> Some bn | Some _ \<Rightarrow> res)"

definition bn_div_consttime ::
    "ctx_env \<Rightarrow> (bignum \<times> bool) option \<Rightarrow> (bignum \<times> bool) option \<Rightarrow> bignum \<Rightarrow> bignum \<Rightarrow> bn_ctx \<Rightarrow>
     bool \<times> bignum option \<times> bignum option \<times> bn_ctx" where
  "bn_div_consttime env quot rmdr numerator divisor ctx =
     (let libc = env_libc env; q0 = map_option fst quot; r0 = map_option fst rmdr
      in if BN_is_negative numerator \<or> BN_is_negative divisor then (False, q0, r0, ctx)
         else if BN_is_zero divisor then (False, q0, r0, ctx)
         else
           (let ctx = BN_CTX_start env ctx
            in case own_or_temporary env quot ctx of
                 (q, ctx) \<Rightarrow>
                   (case own_or_temporary env rmdr ctx of
                      (r, ctx) \<Rightarrow>
                        (case BN_CTX_get env ctx of
                           (tmp, ctx) \<Rightarrow>
                             (case (q, r, tmp) of
                                (Some (q, qi), Some (r, ri), Some tmp) \<Rightarrow>
                                  (case bn_wexpand libc q (bn_width numerator) of
                                     (False, q) \<Rightarrow> (False, kept q0 qi q, r0, BN_CTX_end (put_temporary ctx qi q))
                                   | (True, q) \<Rightarrow>
                                       (case bn_wexpand libc r (bn_width divisor) of
                                          (False, r) \<Rightarrow> (False, kept q0 qi q, kept r0 ri r, BN_CTX_end (put_temporary (put_temporary ctx qi q) ri r))
                                        | (True, r) \<Rightarrow>
                                            (case bn_wexpand libc (ctx_bn ctx tmp) (bn_width divisor) of
                                               (False, _) \<Rightarrow> (False, kept q0 qi q, kept r0 ri r, BN_CTX_end (put_temporary (put_temporary ctx qi q) ri r))
                                             | (True, tb) \<Rightarrow>
                                                 (case div_words_loop (bn_d divisor) (bn_width divisor) (bn_d numerator) (bn_width numerator)
                                                         (replicate (bn_width divisor) 0) (replicate (bn_width numerator) 0) of
                                                    (rw, qw) \<Rightarrow>
                                                      (let q = q\<lparr>bn_d := mem_write (bn_d q) 0 qw, bn_width := bn_width numerator, bn_neg := False\<rparr>;
                                                           r = r\<lparr>bn_d := mem_write (bn_d r) 0 rw, bn_width := bn_width divisor, bn_neg := False\<rparr>;
                                                           ctx = put_temporary (put_temporary (ctx_put ctx tmp tb) qi q) ri r
                                                       in case deliver libc quot q qi of
                                                            (False, quot) \<Rightarrow> (False, quot, kept r0 ri r, BN_CTX_end ctx)
                                                          | (True, quot) \<Rightarrow>
                                                              (case deliver libc rmdr r ri of
                                                                 (ok, rmdr) \<Rightarrow> (ok, quot, rmdr, BN_CTX_end ctx)))))))
                              | _ \<Rightarrow> (False, q0, r0, BN_CTX_end ctx))))))"

section \<open>Modular operations on reduced numbers\<close>

text \<open>A number of the pool with the given width, or \<open>None\<close>: its position.\<close>

definition bn_scratch_space_from_ctx :: "ctx_env \<Rightarrow> nat \<Rightarrow> bn_ctx \<Rightarrow> nat option \<times> bn_ctx" where
  "bn_scratch_space_from_ctx env width ctx =
     (case BN_CTX_get env ctx of
        (None, ctx) \<Rightarrow> (None, ctx)
      | (Some i, ctx) \<Rightarrow>
          (case bn_wexpand (env_libc env) (ctx_bn ctx i) width of
             (False, _) \<Rightarrow> (None, ctx)
           | (True, bn) \<Rightarrow> (Some i, ctx_put ctx i (bn\<lparr>bn_neg := False, bn_width := width\<rparr>))))"

definition bn_resized_from_ctx :: "ctx_env \<Rightarrow> bignum \<Rightarrow> nat \<Rightarrow> bn_ctx \<Rightarrow> bignum option \<times> bn_ctx" where
  "bn_resized_from_ctx env bn width ctx =
     (if bn_width bn \<ge> width then (Some bn, ctx)
      else
        (case bn_scratch_space_from_ctx env width ctx of
           (None, ctx) \<Rightarrow> (None, ctx)
         | (Some i, ctx) \<Rightarrow>
             (case BN_copy (env_libc env) (ctx_bn ctx i) bn of
                (False, ret) \<Rightarrow> (None, ctx_put ctx i ret)
              | (True, ret) \<Rightarrow>
                  (case bn_resize_words (env_libc env) ret width of
                     (False, ret) \<Rightarrow> (None, ctx_put ctx i ret)
                   | (True, ret) \<Rightarrow> (Some ret, ctx_put ctx i ret)))))"

text \<open>The common body of the two operations; \<open>f\<close> is the operation on words.\<close>

definition mod_op_consttime ::
    "(words \<Rightarrow> words \<Rightarrow> words \<Rightarrow> nat \<Rightarrow> words) \<Rightarrow> ctx_env \<Rightarrow> bignum \<Rightarrow> bignum \<Rightarrow> bignum \<Rightarrow> bignum \<Rightarrow> bn_ctx \<Rightarrow>
     bool \<times> bignum \<times> bn_ctx" where
  "mod_op_consttime f env r a b m ctx =
     (case bn_resized_from_ctx env a (bn_width m) (BN_CTX_start env ctx) of
        (a, ctx) \<Rightarrow>
          (case bn_resized_from_ctx env b (bn_width m) ctx of
             (b, ctx) \<Rightarrow>
               (case bn_scratch_space_from_ctx env (bn_width m) ctx of
                  (tmp, ctx) \<Rightarrow>
                    (case (a, b, tmp) of
                       (Some a, Some b, Some _) \<Rightarrow>
                         (case bn_wexpand (env_libc env) r (bn_width m) of
                            (False, r) \<Rightarrow> (False, r, BN_CTX_end ctx)
                          | (True, r) \<Rightarrow>
                              (True, r\<lparr>bn_d := mem_write (bn_d r) 0 (f (bn_d a) (bn_d b) (bn_d m) (bn_width m)),
                                       bn_width := bn_width m, bn_neg := False\<rparr>, BN_CTX_end ctx))
                     | _ \<Rightarrow> (False, r, BN_CTX_end ctx)))))"

definition bn_mod_add_consttime :: "ctx_env \<Rightarrow> bignum \<Rightarrow> bignum \<Rightarrow> bignum \<Rightarrow> bignum \<Rightarrow> bn_ctx \<Rightarrow> bool \<times> bignum \<times> bn_ctx" where
  "bn_mod_add_consttime = mod_op_consttime bn_mod_add_words"

definition bn_mod_sub_consttime :: "ctx_env \<Rightarrow> bignum \<Rightarrow> bignum \<Rightarrow> bignum \<Rightarrow> bignum \<Rightarrow> bn_ctx \<Rightarrow> bool \<times> bignum \<times> bn_ctx" where
  "bn_mod_sub_consttime = mod_op_consttime bn_mod_sub_words"

definition bn_mod_lshift1_consttime :: "ctx_env \<Rightarrow> bignum \<Rightarrow> bignum \<Rightarrow> bignum \<Rightarrow> bn_ctx \<Rightarrow> bool \<times> bignum \<times> bn_ctx" where
  "bn_mod_lshift1_consttime env r a m ctx = bn_mod_add_consttime env r a a m ctx"

fun mod_lshift_loop :: "ctx_env \<Rightarrow> nat \<Rightarrow> bignum \<Rightarrow> bignum \<Rightarrow> bn_ctx \<Rightarrow> bool \<times> bignum \<times> bn_ctx" where
  "mod_lshift_loop env 0 r m ctx = (True, r, ctx)"
| "mod_lshift_loop env (Suc n) r m ctx =
     (case bn_mod_lshift1_consttime env r r m ctx of
        (False, r, ctx) \<Rightarrow> (False, r, ctx)
      | (True, r, ctx) \<Rightarrow> mod_lshift_loop env n r m ctx)"

definition bn_mod_lshift_consttime :: "ctx_env \<Rightarrow> bignum \<Rightarrow> bignum \<Rightarrow> int \<Rightarrow> bignum \<Rightarrow> bn_ctx \<Rightarrow> bool \<times> bignum \<times> bn_ctx" where
  "bn_mod_lshift_consttime env r a n m ctx =
     (case BN_copy (env_libc env) r a of
        (False, r) \<Rightarrow> (False, r, ctx)
      | (True, r) \<Rightarrow> mod_lshift_loop env (nat n) r m ctx)"

text \<open>The variants with a pool of their own.\<close>

definition with_new_ctx :: "ctx_env \<Rightarrow> bignum \<Rightarrow> (bn_ctx \<Rightarrow> bool \<times> bignum \<times> bn_ctx) \<Rightarrow> bool \<times> bignum" where
  "with_new_ctx env r f = (case BN_CTX_new env of None \<Rightarrow> (False, r) | Some ctx \<Rightarrow> (case f ctx of (ok, r, _) \<Rightarrow> (ok, r)))"

definition BN_mod_add_quick :: "ctx_env \<Rightarrow> bignum \<Rightarrow> bignum \<Rightarrow> bignum \<Rightarrow> bignum \<Rightarrow> bool \<times> bignum" where
  "BN_mod_add_quick env r a b m = with_new_ctx env r (bn_mod_add_consttime env r a b m)"

definition BN_mod_sub_quick :: "ctx_env \<Rightarrow> bignum \<Rightarrow> bignum \<Rightarrow> bignum \<Rightarrow> bignum \<Rightarrow> bool \<times> bignum" where
  "BN_mod_sub_quick env r a b m = with_new_ctx env r (bn_mod_sub_consttime env r a b m)"

definition BN_mod_lshift_quick :: "ctx_env \<Rightarrow> bignum \<Rightarrow> bignum \<Rightarrow> int \<Rightarrow> bignum \<Rightarrow> bool \<times> bignum" where
  "BN_mod_lshift_quick env r a n m = with_new_ctx env r (bn_mod_lshift_consttime env r a n m)"

definition BN_mod_lshift1_quick :: "ctx_env \<Rightarrow> bignum \<Rightarrow> bignum \<Rightarrow> bignum \<Rightarrow> bool \<times> bignum" where
  "BN_mod_lshift1_quick env r a m = with_new_ctx env r (bn_mod_lshift1_consttime env r a m)"

section \<open>Division by a word\<close>

fun div_word_loop :: "u64 \<Rightarrow> nat \<Rightarrow> u64 \<Rightarrow> words \<Rightarrow> words \<times> u64" where
  "div_word_loop w 0 ret d = (d, ret)"
| "div_word_loop w (Suc i) ret d =
     (let l = d ! i; q = fst (bn_div_rem_words ret l w); ret = l - q * w in div_word_loop w i ret (d[i := q]))"

definition BN_div_word :: "libc_malloc \<Rightarrow> bignum \<Rightarrow> u64 \<Rightarrow> u64 \<times> bignum" where
  "BN_div_word libc a w =
     (if w = 0 then (- 1, a)
      else if bn_width a = 0 then (0, a)
      else
        (let j = BN_BITS2 - unat (BN_num_bits_word w); w = push_bit j w
         in case BN_lshift libc a a (int j) of
              (False, a) \<Rightarrow> (- 1, a)
            | (True, a) \<Rightarrow>
                (case div_word_loop w (bn_width a) 0 (bn_d a) of
                   (d, ret) \<Rightarrow> (drop_bit j ret, bn_set_minimal_width (a\<lparr>bn_d := d\<rparr>)))))"

fun mod_word_loop :: "u64 \<Rightarrow> nat \<Rightarrow> u128 \<Rightarrow> words \<Rightarrow> u128" where
  "mod_word_loop w 0 ret d = ret"
| "mod_word_loop w (Suc i) ret d = mod_word_loop w i ((push_bit BN_BITS2 ret OR ucast (d ! i)) mod ucast w) d"

definition BN_mod_word :: "bignum \<Rightarrow> u64 \<Rightarrow> u64" where
  "BN_mod_word a w = (if w = 0 then - 1 else ucast (mod_word_loop w (bn_width a) 0 (bn_d a)))"

section \<open>Powers of two\<close>

definition BN_mod_pow2 :: "libc_malloc \<Rightarrow> bignum \<Rightarrow> bignum \<Rightarrow> nat \<Rightarrow> bool \<times> bignum" where
  "BN_mod_pow2 libc r a e =
     (if e = 0 \<or> bn_width a = 0 then (True, BN_zero r)
      else
        (let num_words = 1 + (e - 1) div BN_BITS2
         in if bn_width a < num_words then BN_copy libc r a
            else
              (case bn_wexpand libc r num_words of
                 (False, r) \<Rightarrow> (False, r)
               | (True, r) \<Rightarrow>
                   (let d = mem_write (bn_d r) 0 (take num_words (bn_d a));
                        top_word_exponent = e mod BN_BITS2;
                        d = (if top_word_exponent \<noteq> 0
                             then d[num_words - 1 := d ! (num_words - 1) AND (push_bit top_word_exponent 1 - 1)] else d)
                    in (True, bn_set_minimal_width (r\<lparr>bn_d := d, bn_neg := bn_neg a, bn_width := num_words\<rparr>))))))"

definition BN_nnmod_pow2 :: "libc_malloc \<Rightarrow> bignum \<Rightarrow> bignum \<Rightarrow> nat \<Rightarrow> bool \<times> bignum" where
  "BN_nnmod_pow2 libc r a e =
     (case BN_mod_pow2 libc r a e of
        (False, r) \<Rightarrow> (False, r)
      | (True, r) \<Rightarrow>
          (if BN_is_zero r \<or> \<not> bn_neg r then (True, r)
           else
             (let num_words = 1 + (e - 1) div BN_BITS2
              in case bn_wexpand libc r num_words of
                   (False, r) \<Rightarrow> (False, r)
                 | (True, r) \<Rightarrow>
                     (let d = mem_write (bn_d r) (bn_width r) (replicate (num_words - bn_width r) 0);
                          d = mem_write d 0 (map (NOT) (take num_words d));
                          top_word_exponent = e mod BN_BITS2;
                          d = (if top_word_exponent \<noteq> 0
                               then d[num_words - 1 := d ! (num_words - 1) AND (push_bit top_word_exponent 1 - 1)] else d);
                          r = bn_set_minimal_width (r\<lparr>bn_d := d, bn_neg := False, bn_width := num_words\<rparr>)
                      in BN_add libc r r BN_value_one))))"

end
