(* ===== verification/BnProd_Spec.thy ===== *)
theory BnProd_Spec
  imports BnProd BnAdd_Spec BnBits_Spec
begin

text \<open>
  The products on big numbers are products: each of the algorithms that \<open>bn_mul_impl\<close> and
  \<open>bn_sqr_consttime\<close> choose from is correct for the sizes it is chosen for, the temporaries of the pool are
  given back, and the operations fail only for want of memory or of room.
\<close>

unbundle bit_operations_syntax

section \<open>Room and storing\<close>

text \<open>No array of some size up to \<open>n\<close> words can be had.\<close>

definition starved :: "libc_malloc \<Rightarrow> nat \<Rightarrow> bool" where
  "starved libc n \<longleftrightarrow> INT_MAX div (4 * BN_BITS2) < n \<or> (\<exists>k \<le> n. words_malloc libc k = None)"

lemma starved_mono: "starved libc a \<Longrightarrow> a \<le> b \<Longrightarrow> starved libc b"
  unfolding starved_def by (meson le_trans order_less_le_trans)

lemma not_roomy: "\<not> roomy libc bn k \<Longrightarrow> k \<le> n \<Longrightarrow> starved libc n \<or> bn_flags bn AND BN_FLG_STATIC_DATA \<noteq> 0"
  by (auto simp: roomy_def starved_def)

lemma pooled_wexpand:
  assumes "libc_wf libc" and "pooled bn" and "bn_wexpand libc bn n = (ok, bn')"
  shows "pooled bn'" "\<not> ok \<Longrightarrow> n \<le> m \<Longrightarrow> starved libc m"
proof -
  note w = wexpand [OF assms(1) pooled_wf [OF assms(2)] assms(3)]
  show "pooled bn'" using assms(2) w by (simp add: pooled_def)
  show "\<not> ok \<Longrightarrow> n \<le> m \<Longrightarrow> starved libc m" using w(1) not_roomy [of libc bn n m] assms(2) by (simp add: pooled_def)
qed

lemma wval_take_less:
  assumes "wval ws < LIMB ^ n"
  shows "wval (take n ws) = wval ws"
proof (cases "n \<le> length ws")
  case True
  then have "wval ws = wval (take n ws) + LIMB ^ n * wval (drop n ws)" using wval_split [of ws n] by (simp add: min_absorb1)
  then have "LIMB ^ n * wval (drop n ws) < LIMB ^ n * 1" using assms by linarith
  then have "wval (drop n ws) = 0" by simp
  with \<open>wval ws = _\<close> show ?thesis by simp
qed simp

lemma store_product:
  assumes "bn_wf rr" and "length ws \<le> bn_dmax rr" and "tp \<le> length ws" and "wval ws < LIMB ^ tp"
  shows "bn_wf (store_product rr tp ws)" "bn_mag (store_product rr tp ws) = wval ws" "bn_neg (store_product rr tp ws) = bn_neg rr"
    "bn_width (store_product rr tp ws) = tp" "bn_flags (store_product rr tp ws) = bn_flags rr"
proof -
  have "bn_words (store_product rr tp ws) = take tp ws"
    using assms by (simp add: store_product_def bn_words_def bn_wf_def mem_write_def)
  then show "bn_mag (store_product rr tp ws) = wval ws" by (simp add: bn_mag_def wval_take_less [OF assms(4)])
  show "bn_wf (store_product rr tp ws)" using assms by (simp add: store_product_def bn_wf_def mem_write_def)
  show "bn_neg (store_product rr tp ws) = bn_neg rr" "bn_width (store_product rr tp ws) = tp" "bn_flags (store_product rr tp ws) = bn_flags rr"
    by (simp_all add: store_product_def)
qed

section \<open>Multiplication\<close>

lemma product_less: "bn_wf a \<Longrightarrow> bn_wf b \<Longrightarrow> bn_mag a * bn_mag b < LIMB ^ (bn_width a + bn_width b)"
  using bn_mag_less [of a] bn_mag_less [of b] by (simp add: power_add mult_strict_mono)

text \<open>The larger power of two up to the larger width.\<close>

lemma power_below:
  assumes "0 < al" and "al \<le> INT_MAX" and "j = push_bit (unat (BN_num_bits_word (word_of_nat al)) - 1) (1 :: nat)"
  shows "\<exists>k. j = 2 ^ k" "j \<le> al" "al < 2 * j"
proof -
  have al: "unat (word_of_nat al :: u64) = al"
    using assms(2) by (simp add: unat_of_nat INT_MAX_def)
  then have j: "j = 2 ^ (bit_count al - 1)" using assms(3) by (simp add: num_bits_word_value push_bit_eq_mult)
  then show "\<exists>k. j = 2 ^ k" by blast
  show "j \<le> al" using bit_count_bounds [of al] assms(1) j by simp
  have "bit_count al \<noteq> 0" using assms(1) by (subst bit_count.simps) simp
  then have "2 * j = 2 ^ bit_count al" unfolding j by (cases "bit_count al") simp_all
  then show "al < 2 * j" using bit_count_less [of al] by simp
qed

text \<open>
  What an operation into \<open>rr\<close> that may use the pool promises: with \<open>ok\<close> the result has the given width,
  magnitude and sign; without, memory or room were lacking.
\<close>

definition computes :: "ctx_env \<Rightarrow> bignum \<Rightarrow> bn_ctx \<Rightarrow> bool \<times> bignum \<times> bn_ctx \<Rightarrow> nat \<Rightarrow> nat \<Rightarrow> bool \<Rightarrow> nat \<Rightarrow> bool" where
  "computes env rr ctx res width mag neg lim \<longleftrightarrow>
     (case res of (ok, s, ctx') \<Rightarrow>
        bn_wf s \<and> bn_flags s = bn_flags rr \<and> ctx_keeps ctx ctx' \<and>
        (ok \<longrightarrow> bn_width s = width \<and> bn_mag s = mag \<and> bn_neg s = neg) \<and>
        (\<not> ok \<longrightarrow> ctx_error ctx' \<or> starved (env_libc env) lim \<or> bn_flags rr AND BN_FLG_STATIC_DATA \<noteq> 0))"

lemma computes_store:
  assumes libc: "libc_wf libc" and rr: "bn_wf rr" and e: "bn_wexpand libc rr n = (ok, s)" and libc_def: "env_libc env = libc"
    and n: "n \<le> lim" and k: "ctx_keeps ctx ctx'"
    and ws: "length ws = n" "tp \<le> n" "wval ws < LIMB ^ tp" "wval ws = mag"
  shows "computes env rr ctx (if ok then (True, store_product s tp ws, ctx') else (False, s, ctx')) tp mag (bn_neg rr) lim"
proof -
  note w = wexpand [OF libc rr e]
  show ?thesis
  proof (cases ok)
    case True
    then show ?thesis using store_product [of s ws tp] w ws k by (simp add: computes_def)
  next
    case False
    then show ?thesis using w(1) not_roomy [OF _ n, of libc rr] rr k e w by (simp add: computes_def libc_def)
  qed
qed

lemma bool_pair_if: "(case x of (False, s) \<Rightarrow> f s | (True, s) \<Rightarrow> g s) = (if fst x then g (snd x) else f (snd x))"
  by (cases x) (auto split: bool.splits)

theorem mul_into_value:
  assumes libc: "libc_wf (env_libc env)" and ctx: "ctx_wf ctx" and wf: "bn_wf rr" "bn_wf a" "bn_wf b"
    and width: "0 < bn_width a" "bn_width a \<le> INT_MAX" "0 < bn_width b" "bn_width b \<le> INT_MAX"
  shows "computes env rr ctx (mul_into env rr a b ctx) (bn_width a + bn_width b) (bn_mag a * bn_mag b) (bn_neg a \<noteq> bn_neg b)
    (4 * (bn_width a + bn_width b))"
proof -
  let ?libc = "env_libc env" and ?al = "bn_width a" and ?bl = "bn_width b" and ?p = "bn_mag a * bn_mag b"
  let ?rr = "rr\<lparr>bn_neg := (bn_neg a \<noteq> bn_neg b)\<rparr>" and ?lim = "4 * (bn_width a + bn_width b)"
  have rr: "bn_wf ?rr" using wf(1) by simp
  have less: "?p < LIMB ^ (?al + ?bl)" by (rule product_less [OF wf(2,3)])
  note keep = ctx_keeps_refl [OF ctx]
  have flags: "computes env ?rr ctx res w m n l \<Longrightarrow> computes env rr ctx res w m n l" for res w m n l
    by (simp add: computes_def)
  have eq: "int ?al - int ?bl = 0 \<longleftrightarrow> ?al = ?bl" by linarith
  consider (comba) "?al = 8" "?bl = 8"
    | (rec) "16 \<le> ?al" "16 \<le> ?bl" "- 1 \<le> int ?al - int ?bl" "int ?al - int ?bl \<le> 1"
    | (normal) "\<not> (int ?al - int ?bl = 0 \<and> ?al = 8)" "\<not> (kMulNormalSize \<le> ?al \<and> kMulNormalSize \<le> ?bl \<and> - 1 \<le> int ?al - int ?bl \<and> int ?al - int ?bl \<le> 1)"
    unfolding eq kMulNormalSize_def by metis
  then show ?thesis
  proof cases
    case comba
    obtain ok s where e: "bn_wexpand ?libc ?rr 16 = (ok, s)" by fastforce
    have t: "take 8 (bn_d a) = bn_words a" "take 8 (bn_d b) = bn_words b" using comba by (simp_all add: bn_words_def)
    have "length (bn_mul_comba8 (bn_words a) (bn_words b)) = 16" "wval (bn_mul_comba8 (bn_words a) (bn_words b)) = ?p"
      using mul_comba8_value [of "bn_words a" "bn_words b"] wf comba by (simp_all add: bn_mag_def)
    from computes_store [OF libc rr e refl _ keep this(1) _ _ this(2), of ?lim 16] comba less this(2)
    show ?thesis unfolding mul_into_def Let_def bool_pair_if e fst_conv snd_conv t by (intro flags) simp
  next
    case normal
    obtain ok s where e: "bn_wexpand ?libc ?rr (?al + ?bl) = (ok, s)" by fastforce
    have "length (bn_mul_normal (bn_words a) ?al (bn_words b) ?bl) = ?al + ?bl" "wval (bn_mul_normal (bn_words a) ?al (bn_words b) ?bl) = ?p"
      using mul_normal_value [of "bn_words a" ?al "bn_words b" ?bl] wf by (simp_all add: bn_mag_def)
    from computes_store [OF libc rr e refl _ keep this(1) _ _ this(2), of ?lim "?al + ?bl"] less this(2)
    show ?thesis unfolding mul_into_def Let_def if_not_P [OF normal(1)] if_not_P [OF normal(2)] bool_pair_if e fst_conv snd_conv
      by (intro flags) simp
  next
    case rec
    let ?m = "if int ?al - int ?bl \<ge> 0 then ?al else ?bl"
    define j :: nat where "j = push_bit (unat (BN_num_bits_word (word_of_nat ?m)) - 1) 1"
    have m: "0 < ?m" "?m \<le> INT_MAX" using width by simp_all
    obtain k where k: "j = 2 ^ k" and j: "j \<le> ?m" "?m < 2 * j" using power_below [OF m j_def] by blast
    have jd: "push_bit (unat (if int ?al - int ?bl \<ge> 0 then BN_num_bits_word (word_of_nat ?al) else BN_num_bits_word (word_of_nat ?bl)) - 1) 1 = j"
      by (simp add: j_def)
    have not_comba: "\<not> (int ?al - int ?bl = 0 \<and> ?al = 8)" and big: "kMulNormalSize \<le> ?al \<and> kMulNormalSize \<le> ?bl \<and> - 1 \<le> int ?al - int ?bl \<and> int ?al - int ?bl \<le> 1"
      using rec by (simp_all add: kMulNormalSize_def)
    obtain t c where g: "BN_CTX_get env ctx = (t, c)" by fastforce
    note gk = get_keeps [OF libc ctx g]
    have red: "mul_into env rr a b ctx =
       (case t of None \<Rightarrow> (False, ?rr, c)
        | Some t \<Rightarrow>
            (if ?al > j \<or> ?bl > j
             then (case bn_wexpand ?libc (ctx_bn c t) (j * 8) of
                     (False, tb) \<Rightarrow> (False, ?rr, c)
                   | (True, tb) \<Rightarrow>
                       (case bn_wexpand ?libc ?rr (j * 4) of
                          (False, rr) \<Rightarrow> (False, rr, ctx_put c t tb)
                        | (True, rr) \<Rightarrow> (True, store_product rr (?al + ?bl)
                             (bn_mul_part_recursive (bn_d rr) (bn_words a) (bn_words b) j (?al - j) (?bl - j)), ctx_put c t tb)))
             else (case bn_wexpand ?libc (ctx_bn c t) (j * 4) of
                     (False, tb) \<Rightarrow> (False, ?rr, c)
                   | (True, tb) \<Rightarrow>
                       (case bn_wexpand ?libc ?rr (j * 2) of
                          (False, rr) \<Rightarrow> (False, rr, ctx_put c t tb)
                        | (True, rr) \<Rightarrow> (True, store_product rr (?al + ?bl)
                             (bn_mul_recursive (bn_words a) (bn_words b) j (int ?al - int j) (int ?bl - int j)), ctx_put c t tb)))))"
      unfolding mul_into_def Let_def if_not_P [OF not_comba] if_P [OF big] g by (cases t) (simp_all only: jd option.case prod.case)
    show ?thesis
    proof (cases t)
      case None
      then show ?thesis using gk(1,2) wf(1) unfolding red by (simp add: computes_def)
    next
      case (Some i)
      then have ne: "\<not> ctx_error c" and i: "i = ctx_used ctx" "i < ctx_used c" "pooled (ctx_bn c i)" using gk(2-5) by auto
      have no_room: "computes env rr ctx (False, ?rr, c) (?al + ?bl) ?p (bn_neg a \<noteq> bn_neg b) ?lim" if "starved ?libc ?lim"
        using that gk(1) wf(1) by (simp add: computes_def)
      have keeps: "ctx_keeps ctx (ctx_put c i tb)" if "pooled tb" for tb
        using put_keeps(1) [OF gk(1) _ i(2) that] i(1) by simp
      show ?thesis
      proof (cases "?al > j \<or> ?bl > j")
        case part: True
        then have js: "j \<le> ?al" "j \<le> ?bl" "8 \<le> j" "?al - j < j" "?bl - j < j" "?al - j \<le> Suc (?bl - j)" "?bl - j \<le> Suc (?al - j)"
          using rec j by (auto split: if_splits)
        obtain ok1 tb where e1: "bn_wexpand ?libc (ctx_bn c i) (j * 8) = (ok1, tb)" by fastforce
        obtain ok s where e: "bn_wexpand ?libc ?rr (j * 4) = (ok, s)" by fastforce
        have l8: "j * 8 \<le> ?lim" and l4: "j * 4 \<le> ?lim" using js by simp_all
        note pe = pooled_wexpand [OF libc i(3) e1]
        have v: "length (bn_mul_part_recursive (bn_d s) (bn_words a) (bn_words b) j (?al - j) (?bl - j)) = j * 4"
          "wval (bn_mul_part_recursive (bn_d s) (bn_words a) (bn_words b) j (?al - j) (?bl - j)) = ?p"
          using mul_part_recursive_value [OF k js(3-7), of "bn_words a" "bn_words b"] js wf by (simp_all add: bn_mag_def mult.commute)
        have tp: "?al + ?bl \<le> j * 4" using js(1-5) by simp
        have "wval (bn_mul_part_recursive (bn_d s) (bn_words a) (bn_words b) j (?al - j) (?bl - j)) < LIMB ^ (?al + ?bl)"
          using less v(2) by simp
        from computes_store [OF libc rr e refl l4 keeps [OF pe(1)] v(1) tp this v(2)]
        have st: "computes env rr ctx (if ok then (True, store_product s (?al + ?bl)
             (bn_mul_part_recursive (bn_d s) (bn_words a) (bn_words b) j (?al - j) (?bl - j)), ctx_put c i tb) else (False, s, ctx_put c i tb))
            (?al + ?bl) ?p (bn_neg a \<noteq> bn_neg b) ?lim"
          by (intro flags) simp
        show ?thesis
        proof (cases ok1)
          case True
          then show ?thesis using st part unfolding red Some option.case bool_pair_if e1 e fst_conv snd_conv by simp
        next
          case False
          then show ?thesis using no_room pe(2) [OF False l8] part unfolding red Some option.case bool_pair_if e1 fst_conv snd_conv by simp
        qed
      next
        case whole: False
        then have js: "?al \<le> j" "?bl \<le> j" "- 8 \<le> int ?al - int j" "- 8 \<le> int ?bl - int j" "2 * j \<le> ?al + ?bl + 1"
          using rec j by (auto split: if_splits)
        obtain ok1 tb where e1: "bn_wexpand ?libc (ctx_bn c i) (j * 4) = (ok1, tb)" by fastforce
        obtain ok s where e: "bn_wexpand ?libc ?rr (j * 2) = (ok, s)" by fastforce
        have l4: "j * 4 \<le> ?lim" using js(5) rec(1) by simp
        then have l2: "j * 2 \<le> ?lim" by linarith
        note pe = pooled_wexpand [OF libc i(3) e1]
        have v: "length (bn_mul_recursive (bn_words a) (bn_words b) j (int ?al - int j) (int ?bl - int j)) = j * 2"
          "wval (bn_mul_recursive (bn_words a) (bn_words b) j (int ?al - int j) (int ?bl - int j)) = ?p"
          using mul_recursive_value [OF k js(3) _ js(4), of "bn_words a" "bn_words b"] js wf by (simp_all add: bn_mag_def mult.commute)
        have tp: "?al + ?bl \<le> j * 2" using js(1,2) by simp
        have "wval (bn_mul_recursive (bn_words a) (bn_words b) j (int ?al - int j) (int ?bl - int j)) < LIMB ^ (?al + ?bl)"
          using less v(2) by simp
        from computes_store [OF libc rr e refl l2 keeps [OF pe(1)] v(1) tp this v(2)]
        have st: "computes env rr ctx (if ok then (True, store_product s (?al + ?bl)
             (bn_mul_recursive (bn_words a) (bn_words b) j (int ?al - int j) (int ?bl - int j)), ctx_put c i tb) else (False, s, ctx_put c i tb))
            (?al + ?bl) ?p (bn_neg a \<noteq> bn_neg b) ?lim"
          by (intro flags) simp
        show ?thesis
        proof (cases ok1)
          case True
          then show ?thesis using st whole unfolding red Some option.case bool_pair_if e1 e fst_conv snd_conv by simp
        next
          case False
          then show ?thesis using no_room pe(2) [OF False l4] whole unfolding red Some option.case bool_pair_if e1 fst_conv snd_conv by simp
        qed
      qed
    qed
  qed
qed

section \<open>Temporaries and frames\<close>

definition returns :: "ctx_env \<Rightarrow> bignum \<Rightarrow> bn_ctx \<Rightarrow> bool \<times> bignum \<times> bn_ctx \<Rightarrow> nat \<Rightarrow> nat \<Rightarrow> bool \<Rightarrow> nat \<Rightarrow> bool" where
  "returns env r ctx res width mag neg lim \<longleftrightarrow>
     computes env r ctx res width mag neg lim \<and>
     (case res of (ok, s, ctx') \<Rightarrow> \<not> ctx_error ctx' \<longrightarrow> ctx_used ctx' = ctx_used ctx)"

lemma in_frame:
  assumes "libc_wf (env_libc env)" and "ctx_wf ctx" and "computes env r (BN_CTX_start env ctx) (ok, s, c) width mag neg lim"
  shows "returns env r ctx (ok, s, BN_CTX_end c) width mag neg lim"
proof -
  have k: "ctx_keeps (BN_CTX_start env ctx) c" using assms(3) by (simp add: computes_def)
  from balanced [OF assms(1,2) k] assms(3) show ?thesis by (simp add: returns_def computes_def)
qed

lemma failed:
  assumes "bn_wf r" and "ctx_keeps ctx c" and "ctx_error c"
  shows "computes env r ctx (False, r, c) width mag neg lim"
  using assms by (simp add: computes_def)

lemma via_temporary:
  assumes libc: "libc_wf (env_libc env)" and r: "bn_wf r" and c: "ctx_keeps ctx c1" "ctx_used ctx \<le> i" "i < ctx_used c1"
    and t: "pooled (ctx_bn c1 i)" and comp: "computes env (ctx_bn c1 i) c1 (ok, rr, c2) width mag neg lim" and w: "width \<le> lim"
  shows "computes env r ctx
     (if ok then (fst (BN_copy (env_libc env) r rr), snd (BN_copy (env_libc env) r rr), ctx_put c2 i rr) else (False, r, ctx_put c2 i rr))
     width mag neg lim"
proof -
  have rr: "bn_wf rr" "pooled rr" using comp t by (auto simp: computes_def pooled_def)
  have k: "ctx_keeps ctx c2" using ctx_keeps_trans [OF c(1)] comp by (auto simp: computes_def)
  have keeps: "ctx_keeps ctx (ctx_put c2 i rr)"
  proof (cases "ctx_error c2")
    case True
    then show ?thesis by (simp add: ctx_keeps_def ctx_put_def)
  next
    case False
    then have "i < ctx_used c2" using comp c(3) by (auto simp: computes_def ctx_keeps_def)
    from put_keeps(1) [OF k c(2) this rr(2)] show ?thesis .
  qed
  obtain b s where b: "BN_copy (env_libc env) r rr = (b, s)" by fastforce
  note cv = copy_value [OF libc r rr(1) b]
  have bad: "starved (env_libc env) lim \<or> ctx_error (ctx_put c2 i rr)" if "\<not> ok"
    using that comp t by (auto simp: computes_def pooled_def ctx_put_def)
  show ?thesis
  proof (cases ok)
    case False
    then show ?thesis using keeps bad r by (auto simp: computes_def)
  next
    case True
    then have v: "bn_width rr = width" "bn_mag rr = mag" "bn_neg rr = neg" using comp by (simp_all add: computes_def)
    have "b \<Longrightarrow> bn_mag s = mag" using cv(3) v by (simp add: bn_mag_def)
    moreover have "\<not> b \<Longrightarrow> starved (env_libc env) lim \<or> bn_flags r AND BN_FLG_STATIC_DATA \<noteq> 0"
      using not_roomy [of "env_libc env" r width lim] cv(1) v(1) w by auto
    ultimately show ?thesis using True keeps cv v by (simp add: computes_def b)
  qed
qed

section \<open>The operations\<close>

theorem mul_impl_value:
  assumes libc: "libc_wf (env_libc env)" and ctx: "ctx_wf ctx" and wf: "bn_wf r" "bn_wf a" "bn_wf b"
    and width: "bn_width a \<le> INT_MAX" "bn_width b \<le> INT_MAX"
  shows "returns env r ctx (bn_mul_impl env same r a b ctx) (if bn_width a = 0 \<or> bn_width b = 0 then 0 else bn_width a + bn_width b)
    (bn_mag a * bn_mag b) (bn_width a \<noteq> 0 \<and> bn_width b \<noteq> 0 \<and> bn_neg a \<noteq> bn_neg b) (4 * (bn_width a + bn_width b))"
proof (cases "bn_width a = 0 \<or> bn_width b = 0")
  case True
  then have "bn_mag a * bn_mag b = 0" by (auto simp: bn_mag_def bn_words_def)
  moreover have "bn_mul_impl env same r a b ctx = (True, BN_zero r, ctx)" using True by (simp add: bn_mul_impl_def)
  ultimately show ?thesis using True wf(1) ctx_keeps_refl [OF ctx] zero_value(2,3)
    by (auto simp: returns_def computes_def BN_zero_def bn_wf_def bn_mag_def bn_words_def)
next
  case False
  let ?c = "BN_CTX_start env ctx" and ?w = "bn_width a + bn_width b" and ?lim = "4 * (bn_width a + bn_width b)"
    and ?m = "bn_mag a * bn_mag b" and ?n = "bn_neg a \<noteq> bn_neg b"
  have c: "ctx_wf ?c" by (rule start_wf [OF libc ctx])
  have pos: "0 < bn_width a" "0 < bn_width b" using False by simp_all
  have goal: "returns env r ctx (bn_mul_impl env same r a b ctx) ?w ?m ?n ?lim"
  proof (cases same)
    case True
    obtain t c1 where g: "BN_CTX_get env ?c = (t, c1)" by fastforce
    note gk = get_keeps [OF libc c g]
    show ?thesis
    proof (cases t)
      case None
      then have "bn_mul_impl env same r a b ctx = (False, r, BN_CTX_end c1)" using False True g by (simp add: bn_mul_impl_def)
      then show ?thesis using in_frame [OF libc ctx failed [OF wf(1) gk(1)]] gk(2) None by simp
    next
      case (Some i)
      obtain ok rr c2 where m: "mul_into env (ctx_bn c1 i) a b c1 = (ok, rr, c2)" by (metis prod_cases3)
      note t = gk(3-5) [OF Some]
      have "computes env (ctx_bn c1 i) c1 (mul_into env (ctx_bn c1 i) a b c1) ?w ?m ?n ?lim"
        by (rule mul_into_value [OF libc ctx_keeps_wf [OF gk(1)] pooled_wf [OF t(3)] wf(2,3) pos(1) width(1) pos(2) width(2)])
      then have comp: "computes env (ctx_bn c1 i) c1 (ok, rr, c2) ?w ?m ?n ?lim" unfolding m .
      have "bn_mul_impl env same r a b ctx =
        (if ok then (fst (BN_copy (env_libc env) r rr), snd (BN_copy (env_libc env) r rr), BN_CTX_end (ctx_put c2 i rr))
         else (False, r, BN_CTX_end (ctx_put c2 i rr)))"
        using False True g Some m by (simp add: bn_mul_impl_def split: prod.splits bool.splits)
      moreover have "computes env r ?c
        (if ok then (fst (BN_copy (env_libc env) r rr), snd (BN_copy (env_libc env) r rr), ctx_put c2 i rr) else (False, r, ctx_put c2 i rr))
        ?w ?m ?n ?lim"
        using t(1) by (intro via_temporary [OF libc wf(1) gk(1) _ t(2,3) comp]) simp_all
      ultimately show ?thesis using in_frame [OF libc ctx] by (cases ok) simp_all
    qed
  next
    case no: False
    obtain ok s c2 where m: "mul_into env r a b ?c = (ok, s, c2)" by (metis prod_cases3)
    have "computes env r ?c (ok, s, c2) ?w ?m ?n ?lim"
      using mul_into_value [OF libc c wf pos(1) width(1) pos(2) width(2)] unfolding m .
    moreover have "bn_mul_impl env same r a b ctx = (ok, s, BN_CTX_end c2)" using False no m by (simp add: bn_mul_impl_def)
    ultimately show ?thesis using in_frame [OF libc ctx] by simp
  qed
  then show ?thesis using False by simp
qed

theorem mul_value:
  assumes libc: "libc_wf (env_libc env)" and ctx: "ctx_wf ctx" and wf: "bn_wf r" "bn_ok a" "bn_ok b"
    and width: "bn_width a \<le> INT_MAX" "bn_width b \<le> INT_MAX" and m: "BN_mul env same r a b ctx = (ok, s, ctx')"
  shows "ok \<Longrightarrow> bn_ok s" "ok \<Longrightarrow> bn_int s = bn_int a * bn_int b" "ctx_keeps ctx ctx'"
    "\<not> ctx_error ctx' \<Longrightarrow> ctx_used ctx' = ctx_used ctx"
    "\<not> ok \<Longrightarrow> ctx_error ctx' \<or> starved (env_libc env) (4 * (bn_width a + bn_width b)) \<or> bn_flags r AND BN_FLG_STATIC_DATA \<noteq> 0"
proof -
  obtain ok1 s1 c1 where i: "bn_mul_impl env same r a b ctx = (ok1, s1, c1)" by (metis prod_cases3)
  note v = mul_impl_value [OF libc ctx wf(1) bn_ok_wf [OF wf(2)] bn_ok_wf [OF wf(3)] width, of same, unfolded i]
  have r: "ok = ok1" "ctx' = c1" "ok \<longrightarrow> s = bn_set_minimal_width s1" using m i by (auto simp: BN_mul_def split: bool.splits)
  have w: "bn_wf s1" using v by (simp add: returns_def computes_def)
  have z: "bn_width x = 0 \<Longrightarrow> bn_mag x = 0" for x by (simp add: bn_mag_def bn_words_def)
  have "ok \<Longrightarrow> bn_int s1 = bn_int a * bn_int b"
    using v r(1) z [of a] z [of b] by (auto simp: returns_def computes_def bn_int_def)
  then show "ok \<Longrightarrow> bn_ok s" "ok \<Longrightarrow> bn_int s = bn_int a * bn_int b" using r(3) set_minimal_width [OF w] by simp_all
  show "ctx_keeps ctx ctx'" "\<not> ctx_error ctx' \<Longrightarrow> ctx_used ctx' = ctx_used ctx"
    "\<not> ok \<Longrightarrow> ctx_error ctx' \<or> starved (env_libc env) (4 * (bn_width a + bn_width b)) \<or> bn_flags r AND BN_FLG_STATIC_DATA \<noteq> 0"
    using v r by (auto simp: returns_def computes_def)
qed

theorem mul_consttime_value:
  assumes libc: "libc_wf (env_libc env)" and ctx: "ctx_wf ctx" and wf: "bn_wf r" "bn_wf a" "bn_wf b"
    and width: "bn_width a \<le> INT_MAX" "bn_width b \<le> INT_MAX" and nonneg: "\<not> bn_neg a" "\<not> bn_neg b"
  shows "returns env r ctx (bn_mul_consttime env same r a b ctx) (if bn_width a = 0 \<or> bn_width b = 0 then 0 else bn_width a + bn_width b)
    (bn_mag a * bn_mag b) False (4 * (bn_width a + bn_width b))"
  using mul_impl_value [OF libc ctx wf width, of same] nonneg by (simp add: bn_mul_consttime_def)

theorem mul_by_word_value:
  assumes libc: "libc_wf libc" and ok: "bn_ok bn" and m: "BN_mul_word libc bn w = (k, s)"
  shows "k \<Longrightarrow> bn_ok s" "k \<Longrightarrow> bn_int s = bn_int bn * int (unat w)" "roomy libc bn (bn_width bn + 1) \<Longrightarrow> k" "bn_wf s"
proof -
  have wf: "bn_wf bn" using ok by (rule bn_ok_wf)
  have "(k \<longrightarrow> bn_ok s \<and> bn_int s = bn_int bn * int (unat w)) \<and> (roomy libc bn (bn_width bn + 1) \<longrightarrow> k) \<and> bn_wf s"
  proof (cases "bn_width bn = 0 \<or> w = 0")
    case True
    then show ?thesis using m wf ok zero_value [of bn] bn_ok_wf [OF zero_value(3) [OF wf]]
      by (auto simp: BN_mul_word_def bn_int_def bn_mag_def bn_words_def split: if_splits)
  next
    case False
    obtain ws ll where l: "bn_mul_words (bn_d bn) (bn_width bn) w = (ws, ll)" by fastforce
    have "bn_width bn \<le> length (bn_d bn)" using wf by (simp add: bn_wf_def)
    from mul_words_value [OF l this]
    have v: "length ws = bn_width bn" "wval ws + LIMB ^ bn_width bn * unat ll = unat w * bn_mag bn"
      by (simp_all add: bn_mag_def bn_words_def)
    let ?b = "bn\<lparr>bn_d := mem_write (bn_d bn) 0 ws\<rparr>"
    have b: "bn_words ?b = ws" "bn_wf ?b" using bn_words_stored_words [OF wf v(1)] by simp_all
    have nz: "bn_neg bn \<Longrightarrow> unat w * bn_mag bn \<noteq> 0" using ok False by (auto simp: bn_ok_def unat_eq_0)
    show ?thesis
    proof (cases "ll = 0")
      case True
      then have "k" "s = ?b" using m False l by (simp_all add: BN_mul_word_def)
      then show ?thesis using b v True nz by (auto simp: bn_ok_def bn_int_def bn_mag_def)
    next
      case carry: False
      obtain c d where e: "bn_wexpand libc ?b (bn_width bn + 1) = (c, d)" by fastforce
      note we = wexpand [OF libc b(2) e]
      have r: "k = c" "c \<longrightarrow> s = d\<lparr>bn_d := (bn_d d)[bn_width d := ll], bn_width := bn_width d + 1\<rparr>" "\<not> c \<longrightarrow> s = d"
        using m False l carry e by (auto simp: BN_mul_word_def split: bool.splits)
      have rm: "roomy libc ?b n = roomy libc bn n" for n by (simp add: roomy_def)
      show ?thesis
      proof (cases c)
        case no: False
        then show ?thesis using r we rm by simp
      next
        case yes: True
        have len: "bn_width d < length (bn_d d)" using we yes by (simp add: bn_wf_def)
        have "bn_words s = ws @ [ll]"
          using r yes we(3) b(1) len by (simp add: bn_words_def take_Suc_conv_app_nth)
        then have "bn_mag s = unat w * bn_mag bn" using v by (simp add: bn_mag_def wval_append)
        moreover have "bn_neg s = bn_neg bn" "bn_wf s" using r yes we len by (simp_all add: bn_wf_def)
        ultimately show ?thesis using r yes nz by (auto simp: bn_ok_def bn_int_def)
      qed
    qed
  qed
  then show "k \<Longrightarrow> bn_ok s" "k \<Longrightarrow> bn_int s = bn_int bn * int (unat w)" "roomy libc bn (bn_width bn + 1) \<Longrightarrow> k" "bn_wf s"
    by blast+
qed

section \<open>Squaring\<close>

lemma power_of_two_test:
  fixes n :: nat
  assumes "n \<noteq> 0" and "n AND (n - 1) = 0"
  shows "\<exists>k. n = 2 ^ k"
  using assms
proof (induction n rule: less_induct)
  case (less n)
  show ?case
  proof (cases "even n")
    case True
    then obtain m where m: "n = 2 * m" by blast
    then have "m \<noteq> 0" "m < n" using less.prems(1) by auto
    have "m AND (m - 1) = 0"
    proof (rule bit_eqI)
      fix i
      have "n - 1 = 2 * (m - 1) + 1" using m \<open>m \<noteq> 0\<close> by simp
      then have "bit (n - 1) (Suc i) = bit (m - 1) i" by (simp add: bit_Suc)
      moreover have "bit n (Suc i) = bit m i" by (simp add: m bit_Suc)
      moreover have "\<not> bit (n AND (n - 1)) (Suc i)" unfolding less.prems(2) by simp
      ultimately show "bit (m AND (m - 1)) i = bit (0 :: nat) i" by (simp add: bit_simps)
    qed
    from less.IH [OF \<open>m < n\<close> \<open>m \<noteq> 0\<close> this] obtain k where "m = 2 ^ k" by blast
    then have "n = 2 ^ Suc k" using m by simp
    then show ?thesis by blast
  next
    case False
    have "n = 1"
    proof (rule ccontr)
      assume "n \<noteq> 1"
      with False have "n div 2 \<noteq> 0" by (cases n) auto
      have "(n - 1) div 2 = n div 2" using False by (cases n) auto
      then have "bit (n AND (n - 1)) (Suc i) = bit (n div 2) i" for i unfolding bit_and_iff unfolding bit_Suc by simp
      then have "n div 2 = 0" unfolding less.prems(2) by (intro bit_eqI) simp
      with \<open>n div 2 \<noteq> 0\<close> show False by simp
    qed
    then show ?thesis by (intro exI [of _ 0]) simp
  qed
qed

theorem sqr_into_value:
  assumes libc: "libc_wf (env_libc env)" and ctx: "ctx_keeps ctx c" "ctx_used ctx \<le> t" "t < ctx_used c" "pooled (ctx_bn c t)"
    and wf: "bn_wf rr" "bn_wf a" and width: "0 < bn_width a"
  shows "computes env rr ctx (sqr_into env rr t a c) (2 * bn_width a) (bn_mag a * bn_mag a) False (4 * bn_width a)"
proof -
  let ?libc = "env_libc env" and ?al = "bn_width a" and ?m = "bn_mag a * bn_mag a"
  obtain k d where e: "bn_wexpand ?libc rr (2 * ?al) = (k, d)" by fastforce
  note we = wexpand [OF libc wf(1) e]
  show ?thesis
  proof (cases k)
    case False
    then have "sqr_into env rr t a c = (False, d, c)" by (simp add: sqr_into_def e Let_def)
    then show ?thesis using False we ctx(1) wf(1) not_roomy [of ?libc rr "2 * ?al" "4 * ?al"] by (auto simp: computes_def)
  next
    case k: True
    have la: "length (bn_words a) = ?al" using wf(2) by simp
    have expand: "\<exists>ws c2. (case bn_wexpand ?libc (ctx_bn c t) n of (False, tb) \<Rightarrow> (None, c) | (True, tb) \<Rightarrow> (Some sq, ctx_put c t tb)) = (ws, c2) \<and>
        ctx_keeps ctx c2 \<and> (ws = None \<and> starved ?libc (4 * ?al) \<or> ws = Some sq)" if "n \<le> 4 * ?al" for n sq
    proof -
      obtain b tb where e: "bn_wexpand ?libc (ctx_bn c t) n = (b, tb)" by fastforce
      note p = pooled_wexpand [OF libc ctx(4) e]
      show ?thesis using put_keeps(1) [OF ctx(1,2,3) p(1)] p(2) [OF _ that] ctx(1) by (cases b) (auto simp: e)
    qed
    define X where "X = (if ?al = 4 then (Some (bn_sqr_comba4 (take 4 (bn_d a))), c)
        else if ?al = 8 then (Some (bn_sqr_comba8 (take 8 (bn_d a))), c)
        else if ?al < BN_SQR_RECURSIVE_SIZE_NORMAL then (Some (bn_sqr_normal (bn_words a) ?al), c)
        else if ?al \<noteq> 0 \<and> ?al AND (?al - 1) = 0
        then (case bn_wexpand ?libc (ctx_bn c t) (?al * 4) of
                (False, tb) \<Rightarrow> (None, c) | (True, tb) \<Rightarrow> (Some (bn_sqr_recursive (bn_words a) ?al), ctx_put c t tb))
        else (case bn_wexpand ?libc (ctx_bn c t) (2 * ?al) of
                (False, tb) \<Rightarrow> (None, c) | (True, tb) \<Rightarrow> (Some (bn_sqr_normal (bn_words a) ?al), ctx_put c t tb)))"
    have red: "sqr_into env rr t a c = (case X of (None, ctx) \<Rightarrow> (False, d, ctx)
        | (Some ws, ctx) \<Rightarrow> (True, d\<lparr>bn_d := mem_write (bn_d d) 0 ws, bn_neg := False, bn_width := 2 * ?al\<rparr>, ctx))"
      using k unfolding sqr_into_def X_def Let_def e by simp
    have t4: "?al = 4 \<Longrightarrow> take 4 (bn_d a) = bn_words a" and t8: "?al = 8 \<Longrightarrow> take 8 (bn_d a) = bn_words a"
      by (simp_all add: bn_words_def)
    have "\<exists>ws c2. X = (ws, c2) \<and> ctx_keeps ctx c2 \<and>
      (ws = None \<and> starved ?libc (4 * ?al) \<or> (\<exists>sq. ws = Some sq \<and> length sq = 2 * ?al \<and> wval sq = ?m))"
    proof -
      consider "?al = 4" | "?al = 8" | "?al \<noteq> 4" "?al \<noteq> 8" "?al < BN_SQR_RECURSIVE_SIZE_NORMAL"
        | "\<not> ?al < BN_SQR_RECURSIVE_SIZE_NORMAL" "?al AND (?al - 1) = 0" | "\<not> ?al < BN_SQR_RECURSIVE_SIZE_NORMAL" "?al AND (?al - 1) \<noteq> 0"
        by blast
      then show ?thesis
      proof cases
        case 1
        then show ?thesis using ctx(1) sqr_comba4_value [of "bn_words a"] la by (simp add: X_def t4 bn_mag_def)
      next
        case 2
        then show ?thesis using ctx(1) sqr_comba8_value [of "bn_words a"] la by (simp add: X_def t8 bn_mag_def)
      next
        case 3
        then show ?thesis using ctx(1) sqr_normal_value [OF la] by (simp add: X_def bn_mag_def)
      next
        case 4
        then have big: "?al \<noteq> 4" "?al \<noteq> 8" by (auto simp: BN_SQR_RECURSIVE_SIZE_NORMAL_def BN_MUL_RECURSIVE_SIZE_NORMAL_def)
        obtain n where "?al = 2 ^ n" using power_of_two_test [of ?al] 4 width by auto
        from sqr_recursive_value [OF this la] expand [of "?al * 4" "bn_sqr_recursive (bn_words a) ?al"] 4 big width
        show ?thesis by (auto simp: X_def bn_mag_def)
      next
        case 5
        then have big: "?al \<noteq> 4" "?al \<noteq> 8" by (auto simp: BN_SQR_RECURSIVE_SIZE_NORMAL_def BN_MUL_RECURSIVE_SIZE_NORMAL_def)
        from sqr_normal_value [OF la] expand [of "2 * ?al" "bn_sqr_normal (bn_words a) ?al"] 5 big width
        show ?thesis by (auto simp: X_def bn_mag_def)
      qed
    qed
    then obtain ws c2 where x: "X = (ws, c2)" "ctx_keeps ctx c2"
      "ws = None \<and> starved ?libc (4 * ?al) \<or> (\<exists>sq. ws = Some sq \<and> length sq = 2 * ?al \<and> wval sq = ?m)"
      by blast
    show ?thesis
    proof (cases ws)
      case None
      then show ?thesis using x we red by (simp add: computes_def)
    next
      case (Some sq)
      then have sq: "length sq = 2 * ?al" "wval sq = ?m" using x(3) by simp_all
      let ?s = "d\<lparr>bn_d := mem_write (bn_d d) 0 sq, bn_neg := False, bn_width := 2 * ?al\<rparr>"
      have "bn_wf ?s" "bn_words ?s = sq" using we k sq by (simp_all add: bn_wf_def bn_words_def mem_write_def)
      then show ?thesis using x(1,2) Some sq we red by (simp add: computes_def bn_mag_def)
    qed
  qed
qed

theorem sqr_consttime_value:
  assumes libc: "libc_wf (env_libc env)" and ctx: "ctx_wf ctx" and wf: "bn_wf r" "bn_wf a"
  shows "returns env r ctx (bn_sqr_consttime env same r a ctx) (2 * bn_width a) (bn_mag a * bn_mag a) False (4 * bn_width a)"
proof (cases "bn_width a = 0")
  case True
  then have "bn_mag a * bn_mag a = 0" by (auto simp: bn_mag_def bn_words_def)
  moreover have "bn_sqr_consttime env same r a ctx = (True, r\<lparr>bn_width := 0, bn_neg := False\<rparr>, ctx)" using True by (simp add: bn_sqr_consttime_def)
  ultimately show ?thesis using True wf(1) ctx_keeps_refl [OF ctx]
    by (auto simp: returns_def computes_def bn_wf_def bn_mag_def bn_words_def)
next
  case False
  let ?c = "BN_CTX_start env ctx" and ?w = "2 * bn_width a" and ?lim = "4 * bn_width a" and ?m = "bn_mag a * bn_mag a"
  have c: "ctx_wf ?c" by (rule start_wf [OF libc ctx])
  have pos: "0 < bn_width a" using False by simp
  obtain t c1 where g: "BN_CTX_get env ?c = (t, c1)" by fastforce
  note gk = get_keeps [OF libc c g]
  show ?thesis
  proof (cases same)
    case no: False
    show ?thesis
    proof (cases t)
      case None
      then have "bn_sqr_consttime env same r a ctx = (False, r, BN_CTX_end c1)" using False no g by (simp add: bn_sqr_consttime_def)
      then show ?thesis using in_frame [OF libc ctx failed [OF wf(1) gk(1)]] gk(2) None by simp
    next
      case (Some i)
      obtain ok s c2 where m: "sqr_into env r i a c1 = (ok, s, c2)" by (metis prod_cases3)
      have "computes env r ?c (ok, s, c2) ?w ?m False ?lim"
        using sqr_into_value [OF libc gk(1) _ gk(4,5) [OF Some] wf pos] gk(3) [OF Some] unfolding m by simp
      moreover have "bn_sqr_consttime env same r a ctx = (ok, s, BN_CTX_end c2)" using False no m g Some by (simp add: bn_sqr_consttime_def)
      ultimately show ?thesis using in_frame [OF libc ctx] by simp
    qed
  next
    case yes: True
    obtain t2 c2 where g2: "BN_CTX_get env c1 = (t2, c2)" by fastforce
    note gk2 = get_keeps [OF libc ctx_keeps_wf [OF gk(1)] g2]
    have k2: "ctx_keeps ?c c2" by (rule ctx_keeps_trans [OF gk(1) gk2(1)])
    show ?thesis
    proof (cases "t = None \<or> t2 = None")
      case True
      then have "bn_sqr_consttime env same r a ctx = (False, r, BN_CTX_end c2)"
        using False yes g g2 by (cases t) (simp_all add: bn_sqr_consttime_def)
      moreover have "ctx_error c2" using True gk(2) gk2(1,2) by (auto simp: ctx_keeps_def)
      ultimately show ?thesis using in_frame [OF libc ctx failed [OF wf(1) k2]] by simp
    next
      case both: False
      then obtain i j where ij: "t = Some i" "t2 = Some j" by (cases t; cases t2) simp_all
      have ne: "\<not> ctx_error c2" using ij gk2(2) by auto
      note i = gk(3-5) [OF ij(1)] and j = gk2(3-5) [OF ij(2)]
      have kept: "ctx_used c1 \<le> ctx_used c2" "ctx_bn c2 i = ctx_bn c1 i" using gk2(1) ne i(2) by (auto simp: ctx_keeps_def)
      obtain ok rr c3 where m: "sqr_into env (ctx_bn c2 i) j a c2 = (ok, rr, c3)" by (metis prod_cases3)
      have p: "pooled (ctx_bn c2 i)" using i(3) kept(2) by simp
      have "computes env (ctx_bn c2 i) c1 (sqr_into env (ctx_bn c2 i) j a c2) ?w ?m False ?lim"
        using j(1) by (intro sqr_into_value [OF libc gk2(1) _ j(2,3) pooled_wf [OF p] wf(2) pos]) simp
      then have comp: "computes env (ctx_bn c2 i) c1 (ok, rr, c3) ?w ?m False ?lim" unfolding m .
      then have "computes env (ctx_bn c1 i) c1 (ok, rr, c3) ?w ?m False ?lim" unfolding kept(2) .
      from via_temporary [OF libc wf(1) gk(1) _ i(2,3) this] i(1)
      have "computes env r ?c
        (if ok then (fst (BN_copy (env_libc env) r rr), snd (BN_copy (env_libc env) r rr), ctx_put c3 i rr) else (False, r, ctx_put c3 i rr))
        ?w ?m False ?lim"
        by simp
      moreover have "bn_sqr_consttime env same r a ctx =
        (if ok then (fst (BN_copy (env_libc env) r rr), snd (BN_copy (env_libc env) r rr), BN_CTX_end (ctx_put c3 i rr))
         else (False, r, BN_CTX_end (ctx_put c3 i rr)))"
        using False yes g g2 ij m by (simp add: bn_sqr_consttime_def split: prod.splits bool.splits)
      ultimately show ?thesis using in_frame [OF libc ctx] by (cases ok) simp_all
    qed
  qed
qed

theorem sqr_value:
  assumes libc: "libc_wf (env_libc env)" and ctx: "ctx_wf ctx" and wf: "bn_wf r" "bn_wf a" and m: "BN_sqr env same r a ctx = (ok, s, ctx')"
  shows "ok \<Longrightarrow> bn_ok s" "ok \<Longrightarrow> bn_int s = bn_int a * bn_int a" "ctx_keeps ctx ctx'"
    "\<not> ok \<Longrightarrow> ctx_error ctx' \<or> starved (env_libc env) (4 * bn_width a) \<or> bn_flags r AND BN_FLG_STATIC_DATA \<noteq> 0"
    "\<not> ctx_error ctx' \<longrightarrow> ctx_used ctx' = ctx_used ctx"
proof -
  obtain ok1 s1 c1 where i: "bn_sqr_consttime env same r a ctx = (ok1, s1, c1)" by (metis prod_cases3)
  note v = sqr_consttime_value [OF libc ctx wf, of same, unfolded i]
  have r: "ok = ok1" "ctx' = c1" "ok \<longrightarrow> s = bn_set_minimal_width s1" using m i by (auto simp: BN_sqr_def split: bool.splits)
  have w: "bn_wf s1" using v by (simp add: returns_def computes_def)
  have "ok \<Longrightarrow> bn_int s1 = bn_int a * bn_int a" using v r(1) by (simp add: returns_def computes_def bn_int_def)
  then show "ok \<Longrightarrow> bn_ok s" "ok \<Longrightarrow> bn_int s = bn_int a * bn_int a" using r(3) set_minimal_width [OF w] by simp_all
  show "ctx_keeps ctx ctx'" "\<not> ok \<Longrightarrow> ctx_error ctx' \<or> starved (env_libc env) (4 * bn_width a) \<or> bn_flags r AND BN_FLG_STATIC_DATA \<noteq> 0"
    "\<not> ctx_error ctx' \<longrightarrow> ctx_used ctx' = ctx_used ctx"
    using v r by (auto simp: returns_def computes_def)
qed

theorem abs_sub_consttime_value:
  assumes libc: "libc_wf (env_libc env)" and ctx: "ctx_wf ctx" and wf: "bn_wf r" "bn_wf a" "bn_wf b"
  shows "returns env r ctx (bn_abs_sub_consttime env r a b ctx) (max (bn_width a) (bn_width b))
    (nat \<bar>int (bn_mag a) - int (bn_mag b)\<bar>) (bn_neg r) (max (bn_width a) (bn_width b))"
proof -
  let ?c = "BN_CTX_start env ctx" and ?n = "max (bn_width a) (bn_width b)" and ?m = "nat \<bar>int (bn_mag a) - int (bn_mag b)\<bar>"
  let ?cl = "if bn_width a < bn_width b then bn_width a else bn_width b" and ?dl = "int (bn_width a) - int (bn_width b)"
  have c: "ctx_wf ?c" by (rule start_wf [OF libc ctx])
  obtain t c1 where g: "BN_CTX_get env ?c = (t, c1)" by fastforce
  note gk = get_keeps [OF libc c g]
  obtain k1 d1 where e1: "bn_wexpand (env_libc env) r ?n = (k1, d1)" by fastforce
  note w1 = wexpand [OF libc wf(1) e1]
  obtain ws mk where v: "bn_abs_sub_part_words (bn_words a) (bn_words b) ?cl ?dl = (ws, mk)" by fastforce
  have len: "length (bn_words a) = ?cl + nat ?dl" "length (bn_words b) = ?cl + nat (- ?dl)" using wf(2,3) by (auto simp: nat_diff_distrib')
  have n: "?cl + nat \<bar>?dl\<bar> = ?n" by auto
  have ws: "length ws = ?n" "wval ws = ?m"
    using abs_sub_part_words_value(1,2) [OF v len] unfolding n by (simp_all add: bn_mag_def)
  have lt: "wval ws < LIMB ^ ?n" using wval_less [of ws] ws(1) by simp
  have rl: "(if bn_width a < bn_width b then bn_width b else bn_width a) = ?n" by simp
  have red: "bn_abs_sub_consttime env r a b ctx =
      (case t of None \<Rightarrow> (False, r, BN_CTX_end c1)
       | Some i \<Rightarrow>
           (if \<not> k1 then (False, d1, BN_CTX_end c1)
            else (case bn_wexpand (env_libc env) (ctx_bn c1 i) ?n of
                    (False, tb) \<Rightarrow> (False, d1, BN_CTX_end c1)
                  | (True, tb) \<Rightarrow> (True, store_product d1 ?n ws, BN_CTX_end (ctx_put c1 i tb)))))"
    unfolding bn_abs_sub_consttime_def Let_def rl g prod.case e1 v fst_conv by (cases t; cases k1; simp)
  show ?thesis
  proof (cases t)
    case None
    then show ?thesis using in_frame [OF libc ctx failed [OF wf(1) gk(1)]] gk(2) red by simp
  next
    case (Some i)
    note i = gk(3-5) [OF Some]
    have u: "ctx_used ?c \<le> i" using i(1) by simp
    obtain k2 tb where e2: "bn_wexpand (env_libc env) (ctx_bn c1 i) ?n = (k2, tb)" by fastforce
    note w2 = wexpand [OF libc pooled_wf [OF i(3)] e2] and p2 = pooled_wexpand [OF libc i(3) e2]
    have starved: "starved (env_libc env) ?n \<or> bn_flags r AND BN_FLG_STATIC_DATA \<noteq> 0" if "\<not> k1 \<or> \<not> k2"
      using that p2(2) [of ?n] w1(1) not_roomy [of "env_libc env" r ?n ?n] by auto
    show ?thesis
    proof (cases "k1 \<and> k2")
      case False
      then have "bn_abs_sub_consttime env r a b ctx = (False, d1, BN_CTX_end c1)" using red Some e2 by (cases k1) simp_all
      moreover have "computes env r ?c (False, d1, c1) ?n ?m (bn_neg r) ?n" using gk(1) w1(2,6) starved False by (auto simp: computes_def)
      ultimately show ?thesis using in_frame [OF libc ctx] by simp
    next
      case True
      have "computes env r ?c (if k1 then (True, store_product d1 ?n ws, ctx_put c1 i tb) else (False, d1, ctx_put c1 i tb)) ?n ?m (bn_neg r) ?n"
        using computes_store [OF libc wf(1) e1 refl le_refl put_keeps(1) [OF gk(1) u i(2) p2(1)] ws(1) le_refl lt ws(2)] .
      then have "computes env r ?c (True, store_product d1 ?n ws, ctx_put c1 i tb) ?n ?m (bn_neg r) ?n" using True by simp
      then show ?thesis using in_frame [OF libc ctx] red Some e2 True by simp
    qed
  qed
qed

end
