(* ===== verification/BnDiv_Spec.thy ===== *)
theory BnDiv_Spec
  imports BnDiv BnProd_Spec
begin

text \<open>
  The divisions of \<open>div.c\<close> are divisions, and the modular operations compute in the residues: on numbers
  below the modulus they give the reduced result, with the width of the modulus.
\<close>

unbundle bit_operations_syntax

section \<open>Long division in binary\<close>

lemma reduce_in_place_take: "bn_reduce_once_in_place r carry m w = bn_reduce_once r carry (take w m) w"
  by (simp add: bn_reduce_once_in_place_def bn_reduce_once_def bn_sub_words_def)

lemma unat_or_low:
  fixes x y :: u64
  assumes "2 ^ k dvd unat x" and "unat y < 2 ^ k"
  shows "unat (x OR y) = unat x + unat y"
proof -
  obtain d where "unat x = 2 ^ k * d" using assms(1) by blast
  then have x: "unat x = push_bit k d" by (simp add: push_bit_eq_mult mult.commute)
  have "\<not> bit (unat x) n \<or> \<not> bit (unat y) n" for n
  proof (cases "k \<le> n")
    case True
    then show ?thesis using not_bit_unat_less [OF assms(2)] by (simp add: bit_unsigned_iff)
  next
    case False
    then show ?thesis by (simp add: x bit_push_bit_iff)
  qed
  then have "unat x + unat y = unat x OR unat y" by (intro disjunctive_add) blast
  then show ?thesis by (simp add: unsigned_or_eq)
qed

lemma split_quotient: "(v :: nat) * K + y = v div M * K * M + (v mod M * K + y)"
proof -
  have "v * K = v div M * M * K + v mod M * K" by (metis add_mult_distrib div_mult_mod_eq)
  then show ?thesis by (simp add: ac_simps)
qed

lemma div_mod_split:
  fixes v M K y :: nat
  assumes "0 < M"
  shows "(v * K + y) mod M = (v mod M * K + y) mod M" and "(v * K + y) div M = v div M * K + (v mod M * K + y) div M"
proof -
  have e: "v * K + y = (v mod M * K + y) + v div M * K * M" using split_quotient [of v K y M] by (simp only: add.commute)
  show "(v * K + y) mod M = (v mod M * K + y) mod M" "(v * K + y) div M = v div M * K + (v mod M * K + y) div M"
    unfolding e mod_mult_self1 using div_mult_self1 [of M "v mod M * K + y" "v div M * K"] assms by simp_all
qed

lemma double_and_add:
  assumes "bn_add_words r r w = (r1, carry)" and "length r = w" and "0 < w" and "x < 2"
  shows "length (r1[0 := r1 ! 0 OR word_of_nat x]) = w" "unat carry \<le> 1"
    "wval (r1[0 := r1 ! 0 OR word_of_nat x]) + LIMB ^ w * unat carry = 2 * wval r + x"
proof -
  note v = add_words_value [OF assms(1)]
  have l: "length r1 = w" "unat carry \<le> 1" "wval r1 + LIMB ^ w * unat carry = 2 * wval r" using v assms(2) by simp_all
  then obtain y ys where y: "r1 = y # ys" using assms(3) by (cases r1) auto
  have "even (LIMB ^ w * unat carry)" using assms(3) by (simp add: LIMB_def)
  then have "even (wval r1)" using l(3) by (metis dvd_add_times_triv_left_iff dvd_triv_left even_add)
  then have "2 ^ 1 dvd unat y" using y by (simp add: LIMB_def)
  then have "unat (y OR word_of_nat x) = unat y + unat (word_of_nat x :: u64)" using assms(4) by (intro unat_or_low [of 1]) (auto simp: unat_of_nat)
  then have "unat (y OR word_of_nat x) = unat y + x" using assms(4) by (simp add: unat_of_nat)
  then have "wval (r1[0 := r1 ! 0 OR word_of_nat x]) = wval r1 + x" using y by simp
  then show "wval (r1[0 := r1 ! 0 OR word_of_nat x]) + LIMB ^ w * unat carry = 2 * wval r + x" using l(3) by simp
  show "length (r1[0 := r1 ! 0 OR word_of_nat x]) = w" "unat carry \<le> 1" using l by simp_all
qed

lemma bit_of_word: "drop_bit b x AND 1 = (word_of_nat (unat x div 2 ^ b mod 2) :: u64)"
proof -
  have "unat (drop_bit b x AND 1) = unat x div 2 ^ b mod 2"
    by (simp add: and_one_eq unat_mod_distrib) (simp add: unat_drop_bit_eq flip: drop_bit_eq_div)
  then show ?thesis by (rule word_of_natI)
qed

lemma div_bits_loop_value:
  assumes m: "w \<le> length m" "0 < w"
  shows "div_bits_loop m w x b r q = (r', q') \<Longrightarrow> b \<le> 64 \<Longrightarrow> length r = w \<Longrightarrow> wval r < wval (take w m) \<Longrightarrow> 2 ^ b dvd unat q \<Longrightarrow>
    length r' = w \<and> wval r' = (wval r * 2 ^ b + unat x mod 2 ^ b) mod wval (take w m) \<and>
    unat q' = unat q + (wval r * 2 ^ b + unat x mod 2 ^ b) div wval (take w m)"
proof (induction b arbitrary: r q)
  case 0
  then show ?case by simp
next
  case (Suc b)
  let ?M = "wval (take w m)" and ?b = "unat x div 2 ^ b mod 2"
  obtain r1 carry where a: "bn_add_words r r w = (r1, carry)" by fastforce
  let ?r2 = "r1[0 := r1 ! 0 OR word_of_nat ?b]"
  have d: "length ?r2 = w" "unat carry \<le> 1" "wval ?r2 + LIMB ^ w * unat carry = 2 * wval r + ?b"
    using double_and_add [OF a Suc.prems(3) m(2), of ?b] by simp_all
  obtain r3 sub where rd: "bn_reduce_once_in_place ?r2 carry m w = (r3, sub)" by fastforce
  have lt: "2 * wval r + ?b < 2 * ?M" using Suc.prems(4) by (auto intro: order_less_le_trans [of _ "2 * Suc (wval r)"])
  have rv: "length r3 = w" "wval r3 = (2 * wval r + ?b) mod ?M" "sub = mask_w (2 * wval r + ?b < ?M)"
    using reduce_once_value [of ?r2 carry "take w m" w r3 sub] rd d lt m(1) by (simp_all add: reduce_in_place_take)
  have pos: "0 < ?M" using Suc.prems(4) by simp
  have qb: "NOT sub AND 1 = (word_of_nat ((2 * wval r + ?b) div ?M) :: u64)" "(2 * wval r + ?b) div ?M < 2"
  proof -
    show "(2 * wval r + ?b) div ?M < 2" using lt pos by (simp add: less_mult_imp_div_less)
    show "NOT sub AND 1 = (word_of_nat ((2 * wval r + ?b) div ?M) :: u64)"
    proof (cases "2 * wval r + ?b < ?M")
      case True
      then show ?thesis using rv(3) by (simp add: NOT_mask_w) (simp add: mask_w_def CONSTTIME_TRUE_W_def CONSTTIME_FALSE_W_def)
    next
      case False
      then have "(2 * wval r + ?b) div ?M = 1" using lt by (simp add: div_nat_eqI)
      then show ?thesis using False rv(3) by (simp add: NOT_mask_w) (simp add: mask_w_def CONSTTIME_TRUE_W_def CONSTTIME_FALSE_W_def)
    qed
  qed
  let ?d = "(2 * wval r + ?b) div ?M"
  have b: "b < 64" using Suc.prems(2) by simp
  have pb: "unat (push_bit b (word_of_nat ?d) :: u64) = ?d * 2 ^ b"
  proof -
    have "?d * 2 ^ b < 2 ^ Suc b" using qb(2) by simp
    also have "(2 :: nat) ^ Suc b \<le> 2 ^ 64" using b by (intro power_increasing) simp_all
    finally have lt: "?d * 2 ^ b < 2 ^ 64" .
    have "push_bit b (word_of_nat ?d :: u64) = word_of_nat (?d * 2 ^ b)" by (simp add: push_bit_eq_mult)
    then show ?thesis using lt by (simp only: unat_of_nat) simp
  qed
  have q2: "unat (q OR push_bit b (word_of_nat ?d)) = unat q + ?d * 2 ^ b"
    using unat_or_low [OF Suc.prems(5), of "push_bit b (word_of_nat ?d)"] pb qb(2) by simp
  have dv: "2 ^ b dvd unat (q OR push_bit b (word_of_nat ?d))"
    using Suc.prems(5) unfolding q2 by (intro dvd_add) (auto elim: dvd_trans [rotated] simp: le_imp_power_dvd)
  have run: "div_bits_loop m w x b r3 (q OR push_bit b (word_of_nat ?d)) = (r', q')"
    using Suc.prems(1) unfolding div_bits_loop.simps a prod.case Let_def bit_of_word rd qb(1) .
  have "wval r3 < ?M" using rv(2) pos by simp
  from Suc.IH [OF run _ rv(1) this dv] b
  have ih: "length r' = w" "wval r' = (wval r3 * 2 ^ b + unat x mod 2 ^ b) mod ?M"
    "unat q' = unat q + ?d * 2 ^ b + (wval r3 * 2 ^ b + unat x mod 2 ^ b) div ?M"
    unfolding q2 by simp_all
  have e: "wval r * 2 ^ Suc b + unat x mod 2 ^ Suc b = (2 * wval r + ?b) * 2 ^ b + unat x mod 2 ^ b"
  proof -
    have "unat x mod 2 ^ Suc b = 2 ^ b * ?b + unat x mod 2 ^ b"
      by (metis mod_mult2_eq power_Suc2)
    then show ?thesis by (simp add: algebra_simps)
  qed
  show ?case using ih rv(2) unfolding e div_mod_split [OF pos, of "2 * wval r + ?b" "2 ^ b"] by simp
qed

lemma div_words_loop_value:
  assumes m: "w \<le> length m" "0 < w"
  shows "div_words_loop m w nd i r q = (r', q') \<Longrightarrow> i \<le> length nd \<Longrightarrow> i \<le> length q \<Longrightarrow> length r = w \<Longrightarrow> wval r < wval (take w m) \<Longrightarrow>
    take i q = replicate i 0 \<Longrightarrow>
    length r' = w \<and> length q' = length q \<and> drop i q' = drop i q \<and>
    wval r' = (wval r * LIMB ^ i + wval (take i nd)) mod wval (take w m) \<and>
    wval (take i q') = (wval r * LIMB ^ i + wval (take i nd)) div wval (take w m)"
proof (induction i arbitrary: r q)
  case 0
  then show ?case by simp
next
  case (Suc i)
  let ?M = "wval (take w m)" and ?x = "unat (nd ! i)" and ?y = "wval (take i nd)"
  have pos: "0 < ?M" using Suc.prems(5) by simp
  have q0: "q ! i = 0" "take i q = replicate i 0"
  proof -
    have "take (Suc i) q ! i = 0" unfolding Suc.prems(6) by (simp del: replicate_Suc)
    then show "q ! i = 0" by simp
    have "take i (take (Suc i) q) = replicate i 0" unfolding Suc.prems(6) by (simp add: take_replicate del: replicate_Suc)
    then show "take i q = replicate i 0" by simp
  qed
  obtain r1 qi where b: "div_bits_loop m w (nd ! i) 64 r (q ! i) = (r1, qi)" by fastforce
  have bv: "length r1 = w" "wval r1 = (wval r * LIMB + ?x) mod ?M" "unat qi = (wval r * LIMB + ?x) div ?M"
  proof -
    have "?x mod 2 ^ 64 = ?x" using unat_limb [of "nd ! i"] by (simp add: LIMB_def)
    then show "length r1 = w" "wval r1 = (wval r * LIMB + ?x) mod ?M" "unat qi = (wval r * LIMB + ?x) div ?M"
      using div_bits_loop_value [OF m b _ Suc.prems(4,5)] by (simp_all add: q0(1) LIMB_def)
  qed
  have run: "div_words_loop m w nd i r1 (q[i := qi]) = (r', q')" using Suc.prems(1) b by (simp add: BN_BITS2_def)
  have "wval r1 < ?M" using bv(2) pos by simp
  from Suc.IH [OF run _ _ bv(1) this] Suc.prems(2,3) q0(2)
  have ih: "length r' = w" "length q' = length q" "drop i q' = drop i (q[i := qi])"
    "wval r' = (wval r1 * LIMB ^ i + ?y) mod ?M" "wval (take i q') = (wval r1 * LIMB ^ i + ?y) div ?M"
    by simp_all
  have i: "i < length q'" using ih(2) Suc.prems(3) by simp
  have "drop i q' = qi # drop (Suc i) q" using ih(3) Cons_nth_drop_Suc [of i "q[i := qi]"] Suc.prems(3) by simp
  then have top: "q' ! i = qi" "drop (Suc i) q' = drop (Suc i) q" using i by (metis Cons_nth_drop_Suc list.inject)+
  have e: "wval r * LIMB ^ Suc i + wval (take (Suc i) nd) = (wval r * LIMB + ?x) * LIMB ^ i + ?y"
    using Suc.prems(2) by (simp add: take_Suc_conv_app_nth wval_append algebra_simps)
  let ?v = "wval r * LIMB + ?x"
  have "wval (take (Suc i) q') = wval (take i q') + LIMB ^ i * unat qi"
    using i top(1) by (simp add: take_Suc_conv_app_nth wval_append)
  then have "wval (take (Suc i) q') = (?v * LIMB ^ i + ?y) div ?M"
    using ih(5) bv(2,3) unfolding div_mod_split(2) [OF pos, of ?v "LIMB ^ i" ?y] by (simp add: mult.commute)
  moreover have "wval r' = (?v * LIMB ^ i + ?y) mod ?M" using ih(4) bv(2) unfolding div_mod_split(1) [OF pos, of ?v "LIMB ^ i" ?y] by simp
  ultimately show ?case using ih(1,2) top(2) unfolding e by simp
qed

section \<open>Division of big numbers\<close>

text \<open>A result is in an object of its own or in a number of the pool that was taken since \<open>c\<close>.\<close>

definition temp_ok :: "bn_ctx \<Rightarrow> bn_ctx \<Rightarrow> nat option \<Rightarrow> bignum \<Rightarrow> bool" where
  "temp_ok c c' t bn \<longleftrightarrow> (\<forall>i. t = Some i \<longrightarrow> ctx_used c \<le> i \<and> i < ctx_used c' \<and> pooled bn)"

lemma put_temporary_keeps:
  assumes "ctx_keeps c c'" and "temp_ok c c' t bn"
  shows "ctx_keeps c (put_temporary c' t bn)" and "ctx_used (put_temporary c' t bn) = ctx_used c'"
    and "ctx_error (put_temporary c' t bn) = ctx_error c'"
  using assms put_keeps(1,2) [OF assms(1)] by (auto simp: put_temporary_def temp_ok_def ctx_put_def split: option.splits)

definition results_wf :: "(bignum \<times> bool) option \<Rightarrow> bool" where
  "results_wf res \<longleftrightarrow> (\<forall>r f. res = Some (r, f) \<longrightarrow> bn_wf r)"

definition static_result :: "(bignum \<times> bool) option \<Rightarrow> bool" where
  "static_result res \<longleftrightarrow> (\<exists>r f. res = Some (r, f) \<and> bn_flags r AND BN_FLG_STATIC_DATA \<noteq> 0)"

lemma own_or_temporary_result:
  assumes libc: "libc_wf (env_libc env)" and k: "ctx_keeps c0 c" and used: "ctx_used c0 \<le> ctx_used c" and wf: "results_wf res"
    and o: "own_or_temporary env res c = (x, c')"
  shows "ctx_keeps c c'" "ctx_keeps c0 c'" "x = None \<Longrightarrow> ctx_error c'"
    "x = Some (bn, t) \<Longrightarrow> bn_wf bn \<and> (ctx_error c' \<or> temp_ok c0 c' t bn) \<and> (t = None \<longrightarrow> res = Some (bn, False)) \<and> (\<forall>i. t = Some i \<longrightarrow> pooled bn)"
    "x \<noteq> None \<Longrightarrow> ctx_used c \<le> ctx_used c'"
proof -
  have cw: "ctx_wf c" using k by (rule ctx_keeps_wf)
  have all: "ctx_keeps c c' \<and> (x = None \<longrightarrow> ctx_error c') \<and> (x \<noteq> None \<longrightarrow> ctx_used c \<le> ctx_used c') \<and>
    (\<forall>bn t. x = Some (bn, t) \<longrightarrow> bn_wf bn \<and> (ctx_error c' \<or> temp_ok c0 c' t bn) \<and> (t = None \<longrightarrow> res = Some (bn, False)) \<and>
      (\<forall>i. t = Some i \<longrightarrow> pooled bn))"
  proof (cases "\<exists>r. res = Some (r, False)")
    case True
    then show ?thesis using o wf ctx_keeps_refl [OF cw] by (auto simp: own_or_temporary_def results_wf_def temp_ok_def)
  next
    case False
    obtain t c1 where g: "BN_CTX_get env c = (t, c1)" by fastforce
    note gk = get_keeps [OF libc cw g]
    have r: "own_or_temporary env res c = (case t of None \<Rightarrow> (None, c1) | Some i \<Rightarrow> (Some (ctx_bn c1 i, Some i), c1))"
      using False by (auto simp: own_or_temporary_def g split: option.splits prod.splits bool.splits)
    show ?thesis
    proof (cases t)
      case None
      then show ?thesis using o r gk(1,2) by auto
    next
      case (Some i)
      note i = gk(3-5) [OF Some]
      have e: "x = Some (ctx_bn c1 i, Some i)" "c' = c1" using o r Some by auto
      have "temp_ok c0 c1 (Some i) (ctx_bn c1 i)" using i used unfolding temp_ok_def by (metis option.inject)
      then show ?thesis using e gk(1) i pooled_wf [OF i(3)] by auto
    qed
  qed
  then show "ctx_keeps c c'" "x = None \<Longrightarrow> ctx_error c'" "x \<noteq> None \<Longrightarrow> ctx_used c \<le> ctx_used c'" by blast+
  show "ctx_keeps c0 c'" using ctx_keeps_trans [OF k] all by blast
  show "x = Some (bn, t) \<Longrightarrow> bn_wf bn \<and> (ctx_error c' \<or> temp_ok c0 c' t bn) \<and> (t = None \<longrightarrow> res = Some (bn, False)) \<and> (\<forall>i. t = Some i \<longrightarrow> pooled bn)"
    using all by blast
qed

lemma wexpand_result:
  assumes libc: "libc_wf libc" and wf: "bn_wf bn" and t: "(t = None \<longrightarrow> res = Some (bn, False)) \<and> (\<forall>i. t = Some i \<longrightarrow> pooled bn)"
    and e: "bn_wexpand libc bn n = (k, bn')"
  shows "bn_wf bn'" "\<not> k \<Longrightarrow> n \<le> lim \<Longrightarrow> starved libc lim \<or> static_result res" "\<forall>i. t = Some i \<longrightarrow> pooled bn'"
    "k \<Longrightarrow> n \<le> bn_dmax bn'"
proof -
  note w = wexpand [OF libc wf e]
  show "bn_wf bn'" by (rule w(2))
  show "\<forall>i. t = Some i \<longrightarrow> pooled bn'" using t w by (auto simp: pooled_def)
  show "k \<Longrightarrow> n \<le> bn_dmax bn'" by (rule w(7))
  show "\<not> k \<Longrightarrow> n \<le> lim \<Longrightarrow> starved libc lim \<or> static_result res"
    using w(1) not_roomy [of libc bn n lim] t by (cases t) (auto simp: static_result_def pooled_def)
qed

lemma deliver_result:
  assumes libc: "libc_wf libc" and res: "results_wf res" and x: "bn_wf x" "\<not> bn_neg x" and le: "bn_width x \<le> lim"
    and t: "t = None \<Longrightarrow> \<exists>r. res = Some (r, False)" and d: "deliver libc res x t = (k, out)"
  shows "k \<Longrightarrow> res \<noteq> None \<Longrightarrow> \<exists>s. out = Some s \<and> bn_wf s \<and> \<not> bn_neg s \<and> bn_mag s = bn_mag x \<and> bn_width s = bn_width x"
    and "\<not> k \<Longrightarrow> starved libc lim \<or> static_result res"
proof -
  have "(k \<longrightarrow> res \<noteq> None \<longrightarrow> (\<exists>s. out = Some s \<and> bn_wf s \<and> \<not> bn_neg s \<and> bn_mag s = bn_mag x \<and> bn_width s = bn_width x)) \<and>
    (\<not> k \<longrightarrow> starved libc lim \<or> static_result res)"
  proof (cases res)
    case None
    then show ?thesis using d by (simp add: deliver_def)
  next
    case (Some p)
    obtain r f where p: "p = (r, f)" by fastforce
    show ?thesis
    proof (cases t)
      case None
      then show ?thesis using d Some p x by (auto simp: deliver_def)
    next
      case (Some i)
      obtain b s where c: "BN_copy libc r x = (b, s)" by fastforce
      have r: "bn_wf r" using res \<open>res = Some p\<close> p by (simp add: results_wf_def)
      note cv = copy_value [OF libc r x(1) c]
      have "k = b" "out = Some s" using d \<open>res = Some p\<close> p Some c by (simp_all add: deliver_def)
      moreover have "b \<Longrightarrow> bn_mag s = bn_mag x" using cv(3) by (simp add: bn_mag_def)
      moreover have "\<not> b \<Longrightarrow> starved libc lim \<or> static_result res"
        using cv(1) not_roomy [OF _ le, of libc r] \<open>res = Some p\<close> p by (auto simp: static_result_def)
      ultimately show ?thesis using cv x by auto
    qed
  qed
  then show "k \<Longrightarrow> res \<noteq> None \<Longrightarrow> \<exists>s. out = Some s \<and> bn_wf s \<and> \<not> bn_neg s \<and> bn_mag s = bn_mag x \<and> bn_width s = bn_width x"
    "\<not> k \<Longrightarrow> starved libc lim \<or> static_result res" by blast+
qed

text \<open>What the divisions promise.\<close>

definition divides :: "ctx_env \<Rightarrow> (bignum \<times> bool) option \<Rightarrow> (bignum \<times> bool) option \<Rightarrow> bignum \<Rightarrow> bignum \<Rightarrow> bn_ctx \<Rightarrow>
    bool \<times> bignum option \<times> bignum option \<times> bn_ctx \<Rightarrow> bool" where
  "divides env quot rmdr n d ctx res \<longleftrightarrow>
     (case res of (ok, q, r, ctx') \<Rightarrow>
        ctx_keeps ctx ctx' \<and>
        (ok \<longrightarrow> \<not> bn_neg n \<and> \<not> bn_neg d \<and> bn_mag d \<noteq> 0 \<and>
          (quot \<noteq> None \<longrightarrow> (\<exists>s. q = Some s \<and> bn_wf s \<and> \<not> bn_neg s \<and> bn_mag s = bn_mag n div bn_mag d \<and> bn_width s = bn_width n)) \<and>
          (rmdr \<noteq> None \<longrightarrow> (\<exists>s. r = Some s \<and> bn_wf s \<and> \<not> bn_neg s \<and> bn_mag s = bn_mag n mod bn_mag d \<and> bn_width s = bn_width d))) \<and>
        (\<not> ok \<longrightarrow> bn_neg n \<or> bn_neg d \<or> bn_mag d = 0 \<or> ctx_error ctx' \<or> starved (env_libc env) (max (bn_width n) (bn_width d)) \<or>
          static_result quot \<or> static_result rmdr))"

lemma division_words:
  assumes wf: "bn_wf n" "bn_wf d" and nz: "bn_mag d \<noteq> 0"
    and l: "div_words_loop (bn_d d) (bn_width d) (bn_d n) (bn_width n) (replicate (bn_width d) 0) (replicate (bn_width n) 0) = (rw, qw)"
  shows "length rw = bn_width d" "length qw = bn_width n" "wval rw = bn_mag n mod bn_mag d" "wval qw = bn_mag n div bn_mag d"
proof -
  have pos: "0 < bn_width d" using nz by (cases "bn_width d = 0") (auto simp: bn_mag_def bn_words_def)
  have "wval (replicate k 0) = 0" for k by (induction k) simp_all
  with div_words_loop_value [OF _ pos l] wf nz
  show "length rw = bn_width d" "length qw = bn_width n" "wval rw = bn_mag n mod bn_mag d" "wval qw = bn_mag n div bn_mag d"
    by (auto simp: bn_mag_def bn_words_def bn_wf_def)
qed

theorem div_consttime_value:
  assumes libc: "libc_wf (env_libc env)" and ctx: "ctx_wf ctx" and res: "results_wf quot" "results_wf rmdr" and wf: "bn_wf n" "bn_wf d"
  shows "divides env quot rmdr n d ctx (bn_div_consttime env quot rmdr n d ctx)"
proof (cases "bn_neg n \<or> bn_neg d \<or> bn_mag d = 0")
  case True
  then have "bn_div_consttime env quot rmdr n d ctx = (False, map_option fst quot, map_option fst rmdr, ctx)"
    using is_zero [OF wf(2)] by (auto simp: bn_div_consttime_def BN_is_negative_def Let_def)
  then show ?thesis using True ctx_keeps_refl [OF ctx] by (auto simp: divides_def)
next
  case False
  let ?c = "BN_CTX_start env ctx" and ?libc = "env_libc env" and ?lim = "max (bn_width n) (bn_width d)"
    and ?old_q = "map_option fst quot" and ?old_r = "map_option fst rmdr"
  have c: "ctx_wf ?c" by (rule start_wf [OF libc ctx])
  obtain q c1 where o1: "own_or_temporary env quot ?c = (q, c1)" by fastforce
  note q = own_or_temporary_result [OF libc ctx_keeps_refl [OF c] _ res(1) o1]
  obtain r c2 where o2: "own_or_temporary env rmdr c1 = (r, c2)" by fastforce
  obtain t c3 where g: "BN_CTX_get env c2 = (t, c3)" by fastforce
  have k1: "ctx_keeps ?c c1" using q(1) by simp
  have fail: "divides env quot rmdr n d ctx (False, x, y, BN_CTX_end c')"
    if "ctx_keeps ?c c'" "ctx_error c' \<or> starved ?libc ?lim \<or> static_result quot \<or> static_result rmdr" for x y c'
    using balanced [OF libc ctx that(1)] that(2) by (auto simp: divides_def)
  show ?thesis
  proof (cases "q = None \<or> r = None \<or> t = None")
    case True
    have c1: "ctx_wf c1" by (rule ctx_keeps_wf [OF k1])
    have o2k: "ctx_keeps c1 c2" and o2e: "r = None \<Longrightarrow> ctx_error c2"
      using own_or_temporary_result(1,3) [OF libc ctx_keeps_refl [OF c1] _ res(2) o2] by simp_all
    note gk = get_keeps [OF libc ctx_keeps_wf [OF o2k] g]
    have k3: "ctx_keeps ?c c3" using k1 o2k gk(1) ctx_keeps_trans by blast
    have "q = None \<Longrightarrow> ctx_error c1" using q(3) by simp
    then have "ctx_error c3" using True o2k o2e gk(1,2) by (auto simp: ctx_keeps_def)
    moreover have "bn_div_consttime env quot rmdr n d ctx = (False, ?old_q, ?old_r, BN_CTX_end c3)"
      using True False is_zero [OF wf(2)] o1 o2 g
      by (cases q; cases r; cases t) (auto simp: bn_div_consttime_def BN_is_negative_def Let_def)
    ultimately show ?thesis using fail [OF k3] by simp
  next
    case some: False
    then obtain qb qi rb ri i where x: "q = Some (qb, qi)" "r = Some (rb, ri)" "t = Some i" by auto
    have u1: "ctx_used ?c \<le> ctx_used c1" using q(5) x(1) by simp
    note r = own_or_temporary_result [OF libc k1 u1 res(2) o2]
    note gk = get_keeps [OF libc ctx_keeps_wf [OF r(2)] g]
    have ne3: "\<not> ctx_error c3" using gk(2) x(3) by auto
    then have ne2: "\<not> ctx_error c2" using gk(1) by (simp add: ctx_keeps_def)
    then have ne1: "\<not> ctx_error c1" using r(1) by (simp add: ctx_keeps_def)
    have u2: "ctx_used c1 \<le> ctx_used c2" using r(5) x(2) by simp
    have u3: "ctx_used c2 \<le> ctx_used c3" using gk(1) ne3 by (simp add: ctx_keeps_def)
    have k3: "ctx_keeps ?c c3" using ctx_keeps_trans [OF r(2) gk(1)] .
    have qv: "bn_wf qb" "temp_ok ?c c1 qi qb" "(qi = None \<longrightarrow> quot = Some (qb, False)) \<and> (\<forall>i. qi = Some i \<longrightarrow> pooled qb)"
      using q(4) [OF _ x(1)] ne1 by simp_all
    have rv: "bn_wf rb" "temp_ok ?c c2 ri rb" "(ri = None \<longrightarrow> rmdr = Some (rb, False)) \<and> (\<forall>i. ri = Some i \<longrightarrow> pooled rb)"
      using r(4) [OF x(2)] ne2 by simp_all
    obtain kq q1 where eq: "bn_wexpand ?libc qb (bn_width n) = (kq, q1)" by fastforce
    obtain kr r1 where er: "bn_wexpand ?libc rb (bn_width d) = (kr, r1)" by fastforce
    obtain kt tb where et: "bn_wexpand ?libc (ctx_bn c3 i) (bn_width d) = (kt, tb)" by fastforce
    obtain rw qw where l: "div_words_loop (bn_d d) (bn_width d) (bn_d n) (bn_width n) (replicate (bn_width d) 0) (replicate (bn_width n) 0) = (rw, qw)"
      by fastforce
    note wq = wexpand_result [OF libc qv(1,3) eq] and wr = wexpand_result [OF libc rv(1,3) er]
    note i = gk(3-5) [OF x(3)]
    note wt = pooled_wexpand [OF libc i(3) et]
    have tq: "temp_ok ?c c' qi y" if "ctx_used c3 \<le> ctx_used c'" "\<forall>i. qi = Some i \<longrightarrow> pooled y" for y c'
      using qv(2) that u2 u3 by (cases qi) (auto simp: temp_ok_def)
    have tr: "temp_ok ?c c' ri y" if "ctx_used c3 \<le> ctx_used c'" "\<forall>i. ri = Some i \<longrightarrow> pooled y" for y c'
      using rv(2) that u3 by (cases ri) (auto simp: temp_ok_def)
    have step: "bn_div_consttime env quot rmdr n d ctx =
      (if \<not> kq then (False, kept ?old_q qi q1, ?old_r, BN_CTX_end (put_temporary c3 qi q1))
       else if \<not> kr then (False, kept ?old_q qi q1, kept ?old_r ri r1, BN_CTX_end (put_temporary (put_temporary c3 qi q1) ri r1))
       else if \<not> kt then (False, kept ?old_q qi q1, kept ?old_r ri r1, BN_CTX_end (put_temporary (put_temporary c3 qi q1) ri r1))
       else
         (let q = q1\<lparr>bn_d := mem_write (bn_d q1) 0 qw, bn_width := bn_width n, bn_neg := False\<rparr>;
              r = r1\<lparr>bn_d := mem_write (bn_d r1) 0 rw, bn_width := bn_width d, bn_neg := False\<rparr>;
              ctx = put_temporary (put_temporary (ctx_put c3 i tb) qi q) ri r
          in case deliver ?libc quot q qi of
               (False, quot) \<Rightarrow> (False, quot, kept ?old_r ri r, BN_CTX_end ctx)
             | (True, quot) \<Rightarrow> (case deliver ?libc rmdr r ri of (ok, rmdr) \<Rightarrow> (ok, quot, rmdr, BN_CTX_end ctx))))"
      using False is_zero [OF wf(2)] unfolding bn_div_consttime_def BN_is_negative_def Let_def o1 o2 g x option.case prod.case eq er et l
      by (simp split: bool.splits)
    have pq: "ctx_keeps ?c (put_temporary c3 qi q1)" "ctx_used (put_temporary c3 qi q1) = ctx_used c3"
      using put_temporary_keeps [OF k3 tq [OF order_refl wq(3)]] by simp_all
    have pr: "ctx_keeps ?c (put_temporary (put_temporary c3 qi q1) ri r1)"
      using put_temporary_keeps(1) [OF pq(1) tr] pq(2) wr(3) by simp
    have lims: "bn_width n \<le> ?lim" "bn_width d \<le> ?lim" by simp_all
    consider "\<not> kq" | "kq" "\<not> kr" | "kq" "kr" "\<not> kt" | "kq" "kr" "kt" by blast
    then show ?thesis
    proof cases
      case 1
      then show ?thesis using fail [OF pq(1)] wq(2) [OF _ lims(1)] unfolding step by auto
    next
      case 2
      then show ?thesis using fail [OF pr] wr(2) [OF _ lims(2)] unfolding step by auto
    next
      case 3
      then show ?thesis using fail [OF pr] wt(2) [OF _ lims(2)] unfolding step by auto
    next
      case 4
      let ?q = "q1\<lparr>bn_d := mem_write (bn_d q1) 0 qw, bn_width := bn_width n, bn_neg := False\<rparr>"
      let ?r = "r1\<lparr>bn_d := mem_write (bn_d r1) 0 rw, bn_width := bn_width d, bn_neg := False\<rparr>"
      let ?e = "put_temporary (put_temporary (ctx_put c3 i tb) qi ?q) ri ?r"
      note dw = division_words [OF wf _ l]
      have lens: "length qw = bn_width n" "length rw = bn_width d" "wval qw = bn_mag n div bn_mag d" "wval rw = bn_mag n mod bn_mag d"
        using dw False by simp_all
      have vq: "bn_wf ?q" "bn_mag ?q = bn_mag n div bn_mag d" "bn_width ?q = bn_width n" "\<not> bn_neg ?q"
        using wq(1) wq(4) [OF 4(1)] lens by (simp_all add: bn_wf_def bn_mag_def bn_words_def mem_write_def)
      have vr: "bn_wf ?r" "bn_mag ?r = bn_mag n mod bn_mag d" "bn_width ?r = bn_width d" "\<not> bn_neg ?r"
        using wr(1) wr(4) [OF 4(2)] lens by (simp_all add: bn_wf_def bn_mag_def bn_words_def mem_write_def)
      have i0: "ctx_used ?c \<le> i" using i(1) u1 u2 by simp
      note p0 = put_keeps(1,2) [OF k3 i0 i(2) wt(1)]
      have pools: "\<forall>i. qi = Some i \<longrightarrow> pooled ?q" "\<forall>i. ri = Some i \<longrightarrow> pooled ?r"
        using wq(3) wr(3) vq(1) vr(1) by (auto simp: pooled_def)
      note p1 = put_temporary_keeps [OF p0(1) tq [OF _ pools(1)]]
      have e: "ctx_keeps ?c ?e" using put_temporary_keeps(1) [OF p1(1) tr [OF _ pools(2)]] p1(2) p0(2) by simp
      obtain kd oq where d1: "deliver ?libc quot ?q qi = (kd, oq)" by fastforce
      obtain kd2 ord where d2: "deliver ?libc rmdr ?r ri = (kd2, ord)" by fastforce
      have lq: "bn_width ?q \<le> ?lim" and lr: "bn_width ?r \<le> ?lim" by simp_all
      note dq = deliver_result [OF libc res(1) vq(1,4) lq _ d1] and dr = deliver_result [OF libc res(2) vr(1,4) lr _ d2]
      have qn: "qi = None \<Longrightarrow> \<exists>r. quot = Some (r, False)" and rn: "ri = None \<Longrightarrow> \<exists>r. rmdr = Some (r, False)" using qv(3) rv(3) by blast+
      have fin: "bn_div_consttime env quot rmdr n d ctx =
        (if kd then (kd2, oq, ord, BN_CTX_end ?e) else (False, oq, kept ?old_r ri ?r, BN_CTX_end ?e))"
        unfolding step using 4 by (simp add: d1 d2 Let_def split: bool.splits)
      show ?thesis
      proof (cases "kd \<and> kd2")
        case True
        then show ?thesis using balanced(1) [OF libc ctx e] dq(1) [OF qn] dr(1) [OF rn] vq vr False unfolding fin by (simp add: divides_def)
      next
        case no: False
        have "starved ?libc ?lim \<or> static_result quot \<or> static_result rmdr" using no dq(2) [OF qn] dr(2) [OF rn] by blast
        then show ?thesis using no fail [OF e] unfolding fin by (cases kd) simp_all
      qed
    qed
  qed
qed

text \<open>With both results, in terms of the integers.\<close>

lemma division_result:
  assumes "libc_wf (env_libc env)" and "ctx_wf ctx" and "bn_wf q" and "bn_wf r" and "bn_wf n" and "bn_wf d"
    and e: "bn_div_consttime env (Some (q, fq)) (Some (r, fr)) n d ctx = (ok, quot, rmdr, ctx')"
  shows "ok \<longrightarrow> (\<exists>s t. quot = Some s \<and> rmdr = Some t \<and> bn_ok s \<and> bn_ok t \<and> bn_int n = bn_int s * bn_int d + bn_int t \<and>
       0 \<le> bn_int t \<and> bn_int t < bn_int d)"
    "\<not> ok \<longrightarrow> bn_neg n \<or> bn_neg d \<or> bn_mag d = 0 \<or> ctx_error ctx' \<or> starved (env_libc env) (max (bn_width n) (bn_width d)) \<or>
       bn_flags q AND BN_FLG_STATIC_DATA \<noteq> 0 \<or> bn_flags r AND BN_FLG_STATIC_DATA \<noteq> 0"
proof -
  have "divides env (Some (q, fq)) (Some (r, fr)) n d ctx (ok, quot, rmdr, ctx')"
    using div_consttime_value [OF assms(1,2) _ _ assms(5,6), of "Some (q, fq)" "Some (r, fr)"] assms(3,4) unfolding e by (simp add: results_wf_def)
  note v = this [unfolded divides_def prod.case]
  show "ok \<longrightarrow> (\<exists>s t. quot = Some s \<and> rmdr = Some t \<and> bn_ok s \<and> bn_ok t \<and> bn_int n = bn_int s * bn_int d + bn_int t \<and>
       0 \<le> bn_int t \<and> bn_int t < bn_int d)"
  proof
    assume ok
    then obtain s t where st: "quot = Some s" "rmdr = Some t" "bn_ok s" "bn_ok t" "bn_int s = int (bn_mag n div bn_mag d)"
      "bn_int t = int (bn_mag n mod bn_mag d)" and d: "bn_int n = int (bn_mag n)" "bn_int d = int (bn_mag d)" "bn_mag d \<noteq> 0"
      using v by (auto simp: bn_ok_def bn_int_def)
    have "int (bn_mag n) = int (bn_mag n div bn_mag d * bn_mag d + bn_mag n mod bn_mag d)" by simp
    then have "bn_int n = bn_int s * bn_int d + bn_int t" unfolding st d by (simp only: of_nat_add of_nat_mult)
    then show "\<exists>s t. quot = Some s \<and> rmdr = Some t \<and> bn_ok s \<and> bn_ok t \<and> bn_int n = bn_int s * bn_int d + bn_int t \<and> 0 \<le> bn_int t \<and> bn_int t < bn_int d"
      using st d by auto
  qed
  show "\<not> ok \<longrightarrow> bn_neg n \<or> bn_neg d \<or> bn_mag d = 0 \<or> ctx_error ctx' \<or> starved (env_libc env) (max (bn_width n) (bn_width d)) \<or>
       bn_flags q AND BN_FLG_STATIC_DATA \<noteq> 0 \<or> bn_flags r AND BN_FLG_STATIC_DATA \<noteq> 0"
    using v by (auto simp: static_result_def)
qed

end
