(* ===== verification/BnMod_Spec.thy ===== *)
theory BnMod_Spec
  imports BnDiv_Spec
begin

text \<open>
  The modular operations of \<open>div.c\<close> on numbers below the modulus, and division by a word or a power of two.
\<close>

unbundle bit_operations_syntax

section \<open>Resizing\<close>

lemma resize_value:
  assumes libc: "libc_wf libc" and wf: "bn_wf bn" and e: "bn_resize_words libc bn n = (k, s)"
  shows "k \<longleftrightarrow> (if bn_width bn \<le> n then roomy libc bn n else bn_mag bn < LIMB ^ n)" "bn_wf s" "k \<Longrightarrow> bn_width s = n"
    "k \<Longrightarrow> bn_mag s = bn_mag bn" "bn_neg s = bn_neg bn" "bn_flags s = bn_flags bn" "\<not> k \<Longrightarrow> s = bn"
proof -
  have "(k \<longleftrightarrow> (if bn_width bn \<le> n then roomy libc bn n else bn_mag bn < LIMB ^ n)) \<and> bn_wf s \<and> (k \<longrightarrow> bn_width s = n) \<and>
    (k \<longrightarrow> bn_mag s = bn_mag bn) \<and> bn_neg s = bn_neg bn \<and> bn_flags s = bn_flags bn \<and> (\<not> k \<longrightarrow> s = bn)"
  proof (cases "bn_width bn \<le> n")
    case True
    obtain b d where w: "bn_wexpand libc bn n = (b, d)" by fastforce
    note we = wexpand [OF libc wf w]
    show ?thesis
    proof (cases b)
      case False
      then show ?thesis using True e w we wf by (auto simp: bn_resize_words_def)
    next
      case b: True
      let ?d = "mem_write (bn_d d) (bn_width d) (replicate (n - bn_width d) 0)"
      have s: "k" "s = d\<lparr>bn_d := ?d, bn_width := n\<rparr>" using True e w b by (auto simp: bn_resize_words_def)
      have le: "bn_width d \<le> n" "n \<le> length (bn_d d)" using we b True by simp_all
      have l: "length ?d = length (bn_d d)" using le by (simp add: mem_write_def)
      have "take n ?d = bn_words d @ replicate (n - bn_width d) 0"
        using le by (simp add: mem_write_at bn_words_def)
      then have "bn_words s = bn_words bn @ replicate (n - bn_width d) 0" using s we(3) by (simp add: bn_words_def)
      moreover have "wval (replicate i 0) = 0" for i by (induction i) simp_all
      ultimately have "bn_mag s = bn_mag bn" by (simp add: bn_mag_def wval_append)
      then show ?thesis using s we b True l by (auto simp: bn_wf_def)
    qed
  next
    case False
    have "bn_mag (bn\<lparr>bn_width := n\<rparr>) = bn_mag bn" if "bn_mag bn < LIMB ^ n"
    proof -
      have "bn_words (bn\<lparr>bn_width := n\<rparr>) = take n (bn_words bn)" using False by (simp add: bn_words_def min_absorb1)
      then show ?thesis using wval_take_less [of "bn_words bn" n] that by (simp add: bn_mag_def)
    qed
    then show ?thesis using False e wf fits_in_words [OF wf, of n] by (auto simp: bn_resize_words_def bn_wf_def split: if_splits)
  qed
  then show "k \<longleftrightarrow> (if bn_width bn \<le> n then roomy libc bn n else bn_mag bn < LIMB ^ n)" "bn_wf s" "k \<Longrightarrow> bn_width s = n"
    "k \<Longrightarrow> bn_mag s = bn_mag bn" "bn_neg s = bn_neg bn" "bn_flags s = bn_flags bn" "\<not> k \<Longrightarrow> s = bn" by blast+
qed

lemma scratch_result:
  assumes libc: "libc_wf (env_libc env)" and ctx: "ctx_wf ctx" and e: "bn_scratch_space_from_ctx env w ctx = (t, c)"
  shows "ctx_keeps ctx c" "t = None \<Longrightarrow> ctx_error c \<or> starved (env_libc env) w"
    "t = Some i \<Longrightarrow> ctx_used ctx \<le> i" "t = Some i \<Longrightarrow> i < ctx_used c" "t = Some i \<Longrightarrow> pooled (ctx_bn c i)"
    "t = Some i \<Longrightarrow> \<not> ctx_error c" "t = Some i \<Longrightarrow> bn_width (ctx_bn c i) = w"
proof -
  obtain x c1 where g: "BN_CTX_get env ctx = (x, c1)" by fastforce
  note gk = get_keeps [OF libc ctx g]
  have "ctx_keeps ctx c \<and> (t = None \<longrightarrow> ctx_error c \<or> starved (env_libc env) w) \<and>
    (\<forall>i. t = Some i \<longrightarrow> ctx_used ctx \<le> i \<and> i < ctx_used c \<and> pooled (ctx_bn c i) \<and> \<not> ctx_error c \<and> bn_width (ctx_bn c i) = w)"
  proof (cases x)
    case None
    then show ?thesis using e g gk(1,2) by (simp add: bn_scratch_space_from_ctx_def)
  next
    case (Some i)
    obtain b d where w: "bn_wexpand (env_libc env) (ctx_bn c1 i) w = (b, d)" by fastforce
    note i = gk(3-5) [OF Some] and pw = pooled_wexpand [OF libc gk(5) [OF Some] w] and we = wexpand [OF libc pooled_wf [OF gk(5) [OF Some]] w]
    show ?thesis
    proof (cases b)
      case False
      then have "t = None" "c = c1" using e g Some w by (simp_all add: bn_scratch_space_from_ctx_def)
      then show ?thesis using gk(1) pw(2) [OF False order_refl] by simp
    next
      case True
      let ?d = "d\<lparr>bn_neg := False, bn_width := w\<rparr>"
      have r: "t = Some i" "c = ctx_put c1 i ?d" using e g Some w True by (auto simp: bn_scratch_space_from_ctx_def)
      have p: "pooled ?d" using pw(1) we True by (simp add: pooled_def bn_wf_def)
      have ne: "\<not> ctx_error c1" using gk(2) Some by auto
      have iu: "ctx_used ctx \<le> i" using i(1) by simp
      note pk = put_keeps [OF gk(1) iu i(2) p]
      have "ctx_bn c i = ?d" using pk(3) [OF ne i(2)] r(2) by simp
      moreover have "\<not> ctx_error c" using ne r(2) by (simp add: ctx_put_def)
      ultimately show ?thesis using pk(1,2) r p iu i(2) by simp
    qed
  qed
  then show "ctx_keeps ctx c" "t = None \<Longrightarrow> ctx_error c \<or> starved (env_libc env) w"
    "t = Some i \<Longrightarrow> ctx_used ctx \<le> i" "t = Some i \<Longrightarrow> i < ctx_used c" "t = Some i \<Longrightarrow> pooled (ctx_bn c i)"
    "t = Some i \<Longrightarrow> \<not> ctx_error c" "t = Some i \<Longrightarrow> bn_width (ctx_bn c i) = w" by blast+
qed

lemma resized_result:
  assumes libc: "libc_wf (env_libc env)" and ctx: "ctx_wf ctx" and wf: "bn_wf bn" and fits: "bn_mag bn < LIMB ^ w"
    and e: "bn_resized_from_ctx env bn w ctx = (x, c)"
  shows "ctx_keeps ctx c" "x = None \<Longrightarrow> ctx_error c \<or> starved (env_libc env) w" "x = Some s \<Longrightarrow> wval (take w (bn_d s)) = bn_mag bn"
    "x = Some s \<Longrightarrow> w \<le> length (bn_d s)" "x \<noteq> None \<Longrightarrow> \<not> ctx_error ctx \<Longrightarrow> \<not> ctx_error c"
proof -
  have value_words: "wval (take w (bn_d s)) = bn_mag bn \<and> w \<le> length (bn_d s)" if "bn_wf s" "w \<le> bn_width s" "bn_mag s = bn_mag bn" for s
  proof -
    have "take w (bn_d s) = take w (bn_words s)" using that by (simp add: bn_words_def min_absorb1)
    then show ?thesis using wval_take_less [of "bn_words s" w] that fits by (simp add: bn_mag_def bn_wf_def)
  qed
  have "ctx_keeps ctx c \<and> (x = None \<longrightarrow> ctx_error c \<or> starved (env_libc env) w) \<and> (x \<noteq> None \<longrightarrow> \<not> ctx_error ctx \<longrightarrow> \<not> ctx_error c) \<and>
    (\<forall>s. x = Some s \<longrightarrow> wval (take w (bn_d s)) = bn_mag bn \<and> w \<le> length (bn_d s))"
  proof (cases "w \<le> bn_width bn")
    case True
    then show ?thesis using e ctx_keeps_refl [OF ctx] value_words [OF wf] by (auto simp: bn_resized_from_ctx_def)
  next
    case False
    obtain t c1 where g: "bn_scratch_space_from_ctx env w ctx = (t, c1)" by fastforce
    note sr = scratch_result [OF libc ctx g]
    show ?thesis
    proof (cases t)
      case None
      then show ?thesis using e g sr(1,2) False by (simp add: bn_resized_from_ctx_def)
    next
      case (Some i)
      note i = sr(3-7) [OF Some]
      obtain b1 d1 where cp: "BN_copy (env_libc env) (ctx_bn c1 i) bn = (b1, d1)" by fastforce
      note cv = copy_value [OF libc pooled_wf [OF i(3)] wf cp]
      obtain b2 d2 where rs: "bn_resize_words (env_libc env) d1 w = (b2, d2)" by fastforce
      note rv = resize_value [OF libc cv(2) rs]
      have p1: "pooled d1" using cv i(3) by (simp add: pooled_def)
      then have p2: "pooled d2" using rv(2,6) by (simp add: pooled_def)
      note k1 = put_keeps(1,2) [OF sr(1) i(1,2) p1] and k2 = put_keeps(1,2) [OF sr(1) i(1,2) p2]
      have res: "(x, c) = (if \<not> b1 then (None, ctx_put c1 i d1) else if \<not> b2 then (None, ctx_put c1 i d2) else (Some d2, ctx_put c1 i d2))"
        using e g Some cp rs False by (simp add: bn_resized_from_ctx_def split: bool.splits)
      have s1: "starved (env_libc env) w" if "\<not> b1"
        using that cv(1) not_roomy [of "env_libc env" "ctx_bn c1 i" "bn_width bn" w] i(3) False by (auto simp: pooled_def)
      have s2: "starved (env_libc env) w" if "b1" "\<not> b2"
        using that rv(1) cv(5) not_roomy [of "env_libc env" d1 w w] p1 False by (auto simp: pooled_def split: if_splits)
      have v: "bn_mag d2 = bn_mag bn" "bn_width d2 = w" if "b1" "b2" using that rv cv(3) by (simp_all add: bn_mag_def)
      show ?thesis
      proof (cases "b1 \<and> b2")
        case True
        then have "x = Some d2" "c = ctx_put c1 i d2" using res by simp_all
        then show ?thesis using k2 value_words [OF rv(2)] v True i(4) by (simp add: ctx_put_def)
      next
        case no: False
        then show ?thesis using res k1 k2 s1 s2 by (cases b1) auto
      qed
    qed
  qed
  then show "ctx_keeps ctx c" "x = None \<Longrightarrow> ctx_error c \<or> starved (env_libc env) w" "x = Some s \<Longrightarrow> wval (take w (bn_d s)) = bn_mag bn"
    "x = Some s \<Longrightarrow> w \<le> length (bn_d s)" "x \<noteq> None \<Longrightarrow> \<not> ctx_error ctx \<Longrightarrow> \<not> ctx_error c" by blast+
qed

section \<open>Sums and differences of residues\<close>

lemma mod_words_take:
  "bn_mod_add_words a b m n = bn_mod_add_words (take n a) (take n b) (take n m) n"
  "bn_mod_sub_words a b m n = bn_mod_sub_words (take n a) (take n b) (take n m) n"
  by (simp_all add: bn_mod_add_words_def bn_mod_sub_words_def bn_add_words_def bn_sub_words_def reduce_in_place_take bn_reduce_once_def split: prod.splits)

text \<open>\<open>f\<close> computes \<open>g\<close> in the residues, on the low words of its arguments.\<close>

definition residue_op :: "(words \<Rightarrow> words \<Rightarrow> words \<Rightarrow> nat \<Rightarrow> words) \<Rightarrow> (int \<Rightarrow> int \<Rightarrow> int) \<Rightarrow> bool" where
  "residue_op f g \<longleftrightarrow>
     (\<forall>a b m n. n \<le> length a \<and> n \<le> length b \<and> n \<le> length m \<and> wval (take n a) < wval (take n m) \<and> wval (take n b) < wval (take n m) \<longrightarrow>
        length (f a b m n) = n \<and>
        int (wval (f a b m n)) = g (int (wval (take n a))) (int (wval (take n b))) mod int (wval (take n m)))"

lemma add_residues: "residue_op bn_mod_add_words (+)"
  unfolding residue_op_def
proof (intro allI impI)
  fix a b m and n
  assume *: "n \<le> length a \<and> n \<le> length b \<and> n \<le> length m \<and> wval (take n a) < wval (take n m) \<and> wval (take n b) < wval (take n m)"
  then show "length (bn_mod_add_words a b m n) = n \<and>
      int (wval (bn_mod_add_words a b m n)) = (int (wval (take n a)) + int (wval (take n b))) mod int (wval (take n m))"
    using mod_add_words_value [of "take n a" n "take n b" "take n m"] unfolding mod_words_take(1) [of a]
    by (simp add: zmod_int)
qed

lemma sub_residues: "residue_op bn_mod_sub_words (-)"
  unfolding residue_op_def
proof (intro allI impI)
  fix a b m and n
  assume *: "n \<le> length a \<and> n \<le> length b \<and> n \<le> length m \<and> wval (take n a) < wval (take n m) \<and> wval (take n b) < wval (take n m)"
  then show "length (bn_mod_sub_words a b m n) = n \<and>
      int (wval (bn_mod_sub_words a b m n)) = (int (wval (take n a)) - int (wval (take n b))) mod int (wval (take n m))"
    using mod_sub_words_value [of "take n a" n "take n b" "take n m"] unfolding mod_words_take(2) [of a] by simp
qed

theorem mod_op_value:
  assumes f: "residue_op f g" and libc: "libc_wf (env_libc env)" and ctx: "ctx_wf ctx" and wf: "bn_wf r" "bn_wf a" "bn_wf b" "bn_wf m"
    and lt: "bn_mag a < bn_mag m" "bn_mag b < bn_mag m"
  shows "returns env r ctx (mod_op_consttime f env r a b m ctx) (bn_width m) (nat (g (int (bn_mag a)) (int (bn_mag b)) mod int (bn_mag m))) False (bn_width m)"
proof -
  let ?w = "bn_width m" and ?c = "BN_CTX_start env ctx" and ?libc = "env_libc env"
  have c: "ctx_wf ?c" by (rule start_wf [OF libc ctx])
  have fits: "bn_mag a < LIMB ^ ?w" "bn_mag b < LIMB ^ ?w" using bn_mag_less [OF wf(4)] lt by linarith+
  obtain x c1 where e1: "bn_resized_from_ctx env a ?w ?c = (x, c1)" by fastforce
  note r1 = resized_result [OF libc c wf(2) fits(1) e1]
  obtain y c2 where e2: "bn_resized_from_ctx env b ?w c1 = (y, c2)" by fastforce
  note r2 = resized_result [OF libc ctx_keeps_wf [OF r1(1)] wf(3) fits(2) e2]
  obtain t c3 where e3: "bn_scratch_space_from_ctx env ?w c2 = (t, c3)" by fastforce
  note r3 = scratch_result [OF libc ctx_keeps_wf [OF r2(1)] e3]
  have k: "ctx_keeps ?c c3" using r1(1) r2(1) r3(1) ctx_keeps_trans by blast
  have err: "ctx_error c1 \<Longrightarrow> ctx_error c3" "ctx_error c2 \<Longrightarrow> ctx_error c3" using r2(1) r3(1) by (auto simp: ctx_keeps_def)
  show ?thesis
  proof (cases "x = None \<or> y = None \<or> t = None")
    case True
    then have bad: "ctx_error c3 \<or> starved ?libc ?w" using r1(2) r2(2) r3(2) err by auto
    have "mod_op_consttime f env r a b m ctx = (False, r, BN_CTX_end c3)"
      using True e1 e2 e3 by (cases x; cases y; cases t) (simp_all add: mod_op_consttime_def)
    moreover have "computes env r ?c (False, r, c3) w v n ?w" for w v n using k bad wf(1) by (auto simp: computes_def)
    ultimately show ?thesis using in_frame [OF libc ctx] by simp
  next
    case False
    then obtain x' y' i where xy: "x = Some x'" "y = Some y'" "t = Some i" by auto
    obtain kr r' where e: "bn_wexpand ?libc r ?w = (kr, r')" by fastforce
    note we = wexpand [OF libc wf(1) e]
    let ?ws = "f (bn_d x') (bn_d y') (bn_d m) ?w"
    have mw: "wval (take ?w (bn_d m)) = bn_mag m" "?w \<le> length (bn_d m)" using wf(4) by (simp_all add: bn_mag_def bn_words_def bn_wf_def)
    have v: "length ?ws = ?w" "int (wval ?ws) = g (int (bn_mag a)) (int (bn_mag b)) mod int (bn_mag m)"
      using f r1(3,4) [OF xy(1)] r2(3,4) [OF xy(2)] lt mw unfolding residue_op_def by auto
    let ?s = "r'\<lparr>bn_d := mem_write (bn_d r') 0 ?ws, bn_width := ?w, bn_neg := False\<rparr>"
    have res: "mod_op_consttime f env r a b m ctx = (if kr then (True, ?s, BN_CTX_end c3) else (False, r', BN_CTX_end c3))"
      using e1 e2 e3 e xy by (simp add: mod_op_consttime_def split: bool.splits)
    show ?thesis
    proof (cases kr)
      case no: False
      have "computes env r ?c (False, r', c3) ?w q False ?w" for q
        using we no not_roomy [of ?libc r ?w ?w] k wf(1) by (auto simp: computes_def)
      then show ?thesis using in_frame [OF libc ctx] res no by simp
    next
      case True
      have s: "bn_wf ?s" "bn_words ?s = ?ws" using we True v(1) by (simp_all add: bn_wf_def bn_words_def mem_write_def)
      then have "bn_mag ?s = nat (g (int (bn_mag a)) (int (bn_mag b)) mod int (bn_mag m))" using v(2) by (simp add: bn_mag_def flip: v(2))
      then have "computes env r ?c (True, ?s, c3) ?w (nat (g (int (bn_mag a)) (int (bn_mag b)) mod int (bn_mag m))) False ?w"
        using s(1) we k by (simp add: computes_def)
      then show ?thesis using in_frame [OF libc ctx] res True by simp
    qed
  qed
qed

theorem mod_add_value:
  assumes "libc_wf (env_libc env)" and "ctx_wf ctx" and "bn_wf r" "bn_wf a" "bn_wf b" "bn_wf m" and "bn_mag a < bn_mag m" "bn_mag b < bn_mag m"
  shows "returns env r ctx (bn_mod_add_consttime env r a b m ctx) (bn_width m) ((bn_mag a + bn_mag b) mod bn_mag m) False (bn_width m)"
  using mod_op_value [OF add_residues assms] by (simp add: bn_mod_add_consttime_def nat_mod_distrib nat_add_distrib)

theorem mod_sub_value:
  assumes "libc_wf (env_libc env)" and "ctx_wf ctx" and "bn_wf r" "bn_wf a" "bn_wf b" "bn_wf m" and "bn_mag a < bn_mag m" "bn_mag b < bn_mag m"
  shows "returns env r ctx (bn_mod_sub_consttime env r a b m ctx) (bn_width m) (nat ((int (bn_mag a) - int (bn_mag b)) mod int (bn_mag m))) False (bn_width m)"
  using mod_op_value [OF sub_residues assms] by (simp add: bn_mod_sub_consttime_def)

text \<open>Doubling in a loop multiplies by a power of two.\<close>

lemma mod_lshift_loop_value:
  assumes libc: "libc_wf (env_libc env)" and m: "bn_wf m"
  shows "ctx_wf ctx \<Longrightarrow> bn_wf r \<Longrightarrow> bn_mag r < bn_mag m \<Longrightarrow> \<not> bn_neg r \<Longrightarrow> mod_lshift_loop env n r m ctx = (ok, s, ctx') \<Longrightarrow>
    bn_wf s \<and> bn_flags s = bn_flags r \<and> ctx_keeps ctx ctx' \<and> (\<not> ctx_error ctx' \<longrightarrow> ctx_used ctx' = ctx_used ctx) \<and>
    (ok \<longrightarrow> bn_mag s = bn_mag r * 2 ^ n mod bn_mag m \<and> \<not> bn_neg s \<and> (n \<noteq> 0 \<longrightarrow> bn_width s = bn_width m)) \<and>
    (\<not> ok \<longrightarrow> ctx_error ctx' \<or> starved (env_libc env) (bn_width m) \<or> bn_flags r AND BN_FLG_STATIC_DATA \<noteq> 0)"
proof (induction n arbitrary: r ctx)
  case 0
  then show ?case using ctx_keeps_refl by simp
next
  case (Suc n)
  obtain k r1 c1 where e: "bn_mod_lshift1_consttime env r r m ctx = (k, r1, c1)" by (metis prod_cases3)
  have v: "returns env r ctx (k, r1, c1) (bn_width m) ((bn_mag r + bn_mag r) mod bn_mag m) False (bn_width m)"
    using mod_add_value [OF libc Suc.prems(1,2,2,2) m Suc.prems(3,3)] e by (simp add: bn_mod_lshift1_consttime_def)
  show ?case
  proof (cases k)
    case False
    then show ?thesis using Suc.prems(5) e v by (auto simp: returns_def computes_def)
  next
    case True
    then have r1: "bn_wf r1" "bn_mag r1 = 2 * bn_mag r mod bn_mag m" "\<not> bn_neg r1" "bn_flags r1 = bn_flags r" "ctx_keeps ctx c1"
        "\<not> ctx_error c1 \<longrightarrow> ctx_used c1 = ctx_used ctx" "bn_width r1 = bn_width m"
      using v by (simp_all add: returns_def computes_def mult_2)
    have lt: "bn_mag r1 < bn_mag m" using r1(2) Suc.prems(3) by simp
    have run: "mod_lshift_loop env n r1 m c1 = (ok, s, ctx')" using Suc.prems(5) e True by simp
    note ih = Suc.IH [OF ctx_keeps_wf [OF r1(5)] r1(1) lt r1(3) run]
    have "bn_mag r1 * 2 ^ n mod bn_mag m = bn_mag r * 2 ^ Suc n mod bn_mag m"
      unfolding r1(2) mod_mult_left_eq by (simp add: ac_simps)
    moreover have "n = 0 \<Longrightarrow> s = r1" using run by simp
    moreover have "ctx_keeps ctx ctx'" using ih r1(5) ctx_keeps_trans by blast
    moreover have "\<not> ctx_error ctx' \<longrightarrow> ctx_used ctx' = ctx_used ctx" using ih r1(6) by (auto simp: ctx_keeps_def)
    ultimately show ?thesis using ih r1(4,7) by auto
  qed
qed

theorem mod_lshift_value:
  assumes libc: "libc_wf (env_libc env)" and ctx: "ctx_wf ctx" and wf: "bn_wf r" "bn_wf a" "bn_wf m" and lt: "bn_mag a < bn_mag m" "\<not> bn_neg a"
    and e: "bn_mod_lshift_consttime env r a n m ctx = (ok, s, ctx')"
  shows "ok \<Longrightarrow> bn_mag s = bn_mag a * 2 ^ nat n mod bn_mag m" "ok \<Longrightarrow> \<not> bn_neg s" "ok \<Longrightarrow> 0 < n \<Longrightarrow> bn_width s = bn_width m" "bn_wf s"
    "ctx_keeps ctx ctx'" "\<not> ctx_error ctx' \<Longrightarrow> ctx_used ctx' = ctx_used ctx"
    "\<not> ok \<Longrightarrow> ctx_error ctx' \<or> starved (env_libc env) (max (bn_width a) (bn_width m)) \<or> bn_flags r AND BN_FLG_STATIC_DATA \<noteq> 0"
proof -
  obtain b r1 where c: "BN_copy (env_libc env) r a = (b, r1)" by fastforce
  note cv = copy_value [OF libc wf(1,2) c]
  have mono: "starved (env_libc env) (bn_width m) \<Longrightarrow> starved (env_libc env) (max (bn_width a) (bn_width m))"
    by (erule starved_mono) simp
  have "(ok \<longrightarrow> bn_mag s = bn_mag a * 2 ^ nat n mod bn_mag m \<and> \<not> bn_neg s \<and> (0 < n \<longrightarrow> bn_width s = bn_width m)) \<and> bn_wf s \<and> ctx_keeps ctx ctx' \<and>
    (\<not> ctx_error ctx' \<longrightarrow> ctx_used ctx' = ctx_used ctx) \<and>
    (\<not> ok \<longrightarrow> ctx_error ctx' \<or> starved (env_libc env) (max (bn_width a) (bn_width m)) \<or> bn_flags r AND BN_FLG_STATIC_DATA \<noteq> 0)"
  proof (cases b)
    case False
    then have "ok = False" "s = r1" "ctx' = ctx" using e c by (auto simp: bn_mod_lshift_consttime_def)
    then show ?thesis using False cv not_roomy [of "env_libc env" r "bn_width a" "max (bn_width a) (bn_width m)"] ctx_keeps_refl [OF ctx] by auto
  next
    case True
    have m1: "bn_mag r1 = bn_mag a" using cv(3) [OF True] by (simp add: bn_mag_def)
    have run: "mod_lshift_loop env (nat n) r1 m ctx = (ok, s, ctx')" using e c True by (simp add: bn_mod_lshift_consttime_def)
    from mod_lshift_loop_value [OF libc wf(3) ctx cv(2) _ _ run] lt m1 cv(4) [OF True] cv(7) mono
    show ?thesis by auto
  qed
  then show "ok \<Longrightarrow> bn_mag s = bn_mag a * 2 ^ nat n mod bn_mag m" "ok \<Longrightarrow> \<not> bn_neg s" "ok \<Longrightarrow> 0 < n \<Longrightarrow> bn_width s = bn_width m" "bn_wf s"
    "ctx_keeps ctx ctx'" "\<not> ctx_error ctx' \<Longrightarrow> ctx_used ctx' = ctx_used ctx"
    "\<not> ok \<Longrightarrow> ctx_error ctx' \<or> starved (env_libc env) (max (bn_width a) (bn_width m)) \<or> bn_flags r AND BN_FLG_STATIC_DATA \<noteq> 0"
    by blast+
qed

end
