(* ===== verification/BnDivWord_Spec.thy ===== *)
theory BnDivWord_Spec
  imports BnMod_Spec
begin

text \<open>Division by a word, and residues modulo a power of two.\<close>

unbundle bit_operations_syntax

section \<open>Division by a word\<close>

lemma double_word:
  fixes n0 :: u128
  assumes "unat n0 < LIMB"
  shows "unat (push_bit BN_BITS2 n0 OR ucast (n1 :: u64)) = unat n0 * LIMB + unat n1"
proof -
  have u: "unat (ucast n1 :: u128) = unat n1"
    using unat_limb [of n1] by (simp add: unsigned_ucast_eq take_bit_nat_eq_self LIMB_def)
  show ?thesis
    using unat_push_or [of "ucast n1 :: u128" 64 n0] unat_limb [of n1] assms unfolding u by (simp add: BN_BITS2_def LIMB_def)
qed

lemma div_rem_words_value:
  assumes "n0 < d"
  shows "unat (fst (bn_div_rem_words n0 n1 d)) = (unat n0 * LIMB + unat n1) div unat d"
    and "unat (n1 - fst (bn_div_rem_words n0 n1 d) * d) = (unat n0 * LIMB + unat n1) mod unat d"
proof -
  let ?n = "unat n0 * LIMB + unat n1" and ?q = "fst (bn_div_rem_words n0 n1 d)"
  have u: "unat (ucast x :: u128) = unat x" for x :: u64
    using unat_limb [of x] by (simp add: unsigned_ucast_eq take_bit_nat_eq_self LIMB_def)
  have lt: "unat n0 < unat d" using assms by (simp add: word_less_nat_alt)
  have "(unat n0 + 1) * LIMB \<le> unat d * LIMB" using lt by (intro mult_le_mono1) simp
  moreover have "?n < (unat n0 + 1) * LIMB" by simp
  ultimately have "?n < LIMB * unat d" by (simp only: mult.commute)
  then have small: "?n div unat d < LIMB" by (rule less_mult_imp_div_less)
  have "?q = ucast ((push_bit BN_BITS2 (ucast n0 :: u128) OR ucast n1) div ucast d)" by (simp add: bn_div_rem_words_def Let_def)
  moreover have "unat (push_bit BN_BITS2 (ucast n0 :: u128) OR ucast n1) = ?n"
    using double_word [of "ucast n0" n1] unfolding u by simp
  ultimately show q: "unat ?q = ?n div unat d"
    using small by (simp add: unsigned_ucast_eq unat_div u LIMB_def take_bit_nat_eq_self)
  have "unat (n1 - ?q * d) = ?n mod unat d"
  proof -
    have "?q * d = word_of_nat (?n div unat d * unat d)" using q by (metis of_nat_mult of_nat_unat ucast_id)
    moreover have "unat (word_of_nat LIMB :: u64) = 0" by (simp only: unat_of_nat) (simp add: LIMB_def)
    then have "n1 = word_of_nat ?n" by (simp add: unat_eq_0)
    ultimately have "n1 - ?q * d = word_of_nat ?n - word_of_nat (?n div unat d * unat d)" by (simp only:)
    also have "\<dots> = word_of_nat (?n - ?n div unat d * unat d)" by (rule of_nat_diff [symmetric]) simp
    also have "?n - ?n div unat d * unat d = ?n mod unat d" by (simp add: minus_div_mult_eq_mod)
    finally have "n1 - ?q * d = word_of_nat (?n mod unat d)" .
    moreover have "?n mod unat d < LIMB"
    proof -
      have "0 < unat d" using lt by simp
      then have "?n mod unat d < unat d" by (rule mod_less_divisor)
      also note unat_limb
      finally show ?thesis .
    qed
    ultimately show ?thesis by (simp add: unat_of_nat LIMB_def)
  qed
  then show "unat (n1 - ?q * d) = ?n mod unat d" .
qed

lemma div_word_loop_value:
  "div_word_loop w i ret d = (d', ret') \<Longrightarrow> ret < w \<Longrightarrow> i \<le> length d \<Longrightarrow>
   length d' = length d \<and> drop i d' = drop i d \<and> wval (take i d') = (unat ret * LIMB ^ i + wval (take i d)) div unat w \<and>
   unat ret' = (unat ret * LIMB ^ i + wval (take i d)) mod unat w"
proof (induction i arbitrary: ret d)
  case 0
  then show ?case by (auto simp: word_less_nat_alt)
next
  case (Suc i)
  let ?x = "d ! i" and ?y = "wval (take i d)"
  define q where "q = fst (bn_div_rem_words ret ?x w)"
  note v = div_rem_words_value [OF Suc.prems(2), of ?x, folded q_def]
  have pos: "0 < unat w" using Suc.prems(2) by (simp add: word_less_nat_alt)
  have run: "div_word_loop w i (?x - q * w) (d[i := q]) = (d', ret')" using Suc.prems(1) by (simp add: q_def Let_def)
  have "?x - q * w < w" using v(2) pos by (simp add: word_less_nat_alt)
  from Suc.IH [OF run this] Suc.prems(3)
  have ih: "length d' = length d" "drop i d' = drop i (d[i := q])"
    "wval (take i d') = (unat (?x - q * w) * LIMB ^ i + ?y) div unat w" "unat ret' = (unat (?x - q * w) * LIMB ^ i + ?y) mod unat w"
    by simp_all
  have i: "i < length d'" using ih(1) Suc.prems(3) by simp
  have "drop i d' = q # drop (Suc i) d" using ih(2) Cons_nth_drop_Suc [of i "d[i := q]"] Suc.prems(3) by simp
  then have top: "d' ! i = q" "drop (Suc i) d' = drop (Suc i) d" using i by (metis Cons_nth_drop_Suc list.inject)+
  have e: "unat ret * LIMB ^ Suc i + wval (take (Suc i) d) = (unat ret * LIMB + unat ?x) * LIMB ^ i + ?y"
    using Suc.prems(3) by (simp add: take_Suc_conv_app_nth wval_append algebra_simps)
  have "wval (take (Suc i) d') = wval (take i d') + LIMB ^ i * unat q" using i top(1) by (simp add: take_Suc_conv_app_nth wval_append)
  then have "wval (take (Suc i) d') = ((unat ret * LIMB + unat ?x) * LIMB ^ i + ?y) div unat w"
    using ih(3) v unfolding div_mod_split(2) [OF pos, of "unat ret * LIMB + unat ?x"] by (simp add: mult.commute)
  moreover have "unat ret' = ((unat ret * LIMB + unat ?x) * LIMB ^ i + ?y) mod unat w"
    using ih(4) v(2) unfolding div_mod_split(1) [OF pos, of "unat ret * LIMB + unat ?x"] by simp
  ultimately show ?case using ih(1) top(2) unfolding e by simp
qed

lemma bn_mag_int: "bn_mag a = nat \<bar>bn_int a\<bar>"
  by (simp add: bn_int_def)

theorem div_word_value:
  assumes libc: "libc_wf libc" and wf: "bn_ok a" and w: "w \<noteq> 0" and room: "roomy libc a (bn_width a + 1)" and e: "BN_div_word libc a w = (ret, s)"
  shows "unat ret = bn_mag a mod unat w" and "bn_ok s" and "bn_int s = (if bn_neg a then - int (bn_mag a div unat w) else int (bn_mag a div unat w))"
proof -
  have "unat ret = bn_mag a mod unat w \<and> bn_ok s \<and> bn_int s = (if bn_neg a then - int (bn_mag a div unat w) else int (bn_mag a div unat w))"
  proof (cases "bn_width a = 0")
    case True
    then have "bn_mag a = 0" by (simp add: bn_mag_def bn_words_def)
    then show ?thesis using True e w wf by (simp add: BN_div_word_def bn_int_def)
  next
    case False
    have uw: "unat w \<noteq> 0" using w by (simp add: unat_eq_0)
    define b where "b = unat (BN_num_bits_word w)"
    have b: "b = bit_count (unat w)" by (simp add: b_def num_bits_word_value)
    have "unat w < 2 ^ b" unfolding b by (rule bit_count_less)
    have b0: "b \<noteq> 0" using uw unfolding b by (subst bit_count.simps) simp
    have lo: "2 ^ (b - 1) \<le> unat w" using bit_count_bounds [OF uw] b by simp
    have "(2 :: nat) ^ (b - 1) < 2 ^ 64" using lo unat_limb [of w] by (simp add: LIMB_def)
    then have b64: "b \<le> 64" using power_less_imp_less_exp [of "2 :: nat" "b - 1" 64] by simp
    let ?j = "64 - b"
    have "unat w * 2 ^ ?j < 2 ^ b * 2 ^ ?j" using \<open>unat w < 2 ^ b\<close> by simp
    then have "unat w * 2 ^ ?j < 2 ^ 64" using b64 by (simp add: power_add [symmetric])
    then have sw: "unat (push_bit ?j w) = unat w * 2 ^ ?j"
      unfolding unsigned_push_bit_eq by (simp add: push_bit_eq_mult take_bit_nat_eq_self)
    obtain k t where l: "BN_lshift libc a a (int ?j) = (k, t)" by fastforce
    note lv = lshift_value [OF libc bn_ok_wf [OF wf] bn_ok_wf [OF wf] l]
    have "?j div 64 = 0" using b0 b64 by simp
    then have k: "k" using lv(1) room by simp
    have t: "bn_wf t" "bn_mag t = bn_mag a * 2 ^ ?j" "bn_neg t = bn_neg a"
    proof -
      have ok: "bn_ok t" and i: "bn_int t = bn_int a * 2 ^ ?j" using lv(2,3) k by simp_all
      show "bn_wf t" using ok by (rule bn_ok_wf)
      show "bn_mag t = bn_mag a * 2 ^ ?j" unfolding bn_mag_int i by (simp add: abs_mult nat_mult_distrib nat_power_eq)
      then show "bn_neg t = bn_neg a" using ok wf i by (auto simp: bn_ok_def bn_int_def split: if_splits)
    qed
    obtain d' rt where dl: "div_word_loop (push_bit ?j w) (bn_width t) 0 (bn_d t) = (d', rt)" by fastforce
    have "(0 :: u64) < push_bit ?j w" using sw uw by (simp add: word_less_nat_alt)
    from div_word_loop_value [OF dl this] t(1)
    have dv: "length d' = length (bn_d t)" "wval (take (bn_width t) d') = bn_mag t div unat (push_bit ?j w)"
      "unat rt = bn_mag t mod unat (push_bit ?j w)"
      by (simp_all add: bn_wf_def bn_mag_def bn_words_def)
    let ?s = "t\<lparr>bn_d := d'\<rparr>"
    have r: "ret = drop_bit ?j rt" "s = bn_set_minimal_width ?s"
      using e w False l k dl by (simp_all add: BN_div_word_def b_def [symmetric] BN_BITS2_def Let_def)
    have wf': "bn_wf ?s" using t(1) dv(1) by (simp add: bn_wf_def)
    have m: "bn_mag ?s = bn_mag a div unat w" using dv(2) t(2) sw by (simp add: bn_mag_def bn_words_def)
    have "unat rt = (bn_mag a mod unat w) * 2 ^ ?j" using dv(3) t(2) sw by (simp add: mod_mult_mult2)
    then have "unat ret = bn_mag a mod unat w" unfolding r(1) unat_drop_bit_eq unfolding drop_bit_eq_div by simp
    moreover have "bn_int ?s = (if bn_neg a then - int (bn_mag a div unat w) else int (bn_mag a div unat w))"
      using m t(3) by (simp add: bn_int_def)
    ultimately show ?thesis using set_minimal_width [OF wf'] r(2) by simp
  qed
  then show "unat ret = bn_mag a mod unat w" "bn_ok s" "bn_int s = (if bn_neg a then - int (bn_mag a div unat w) else int (bn_mag a div unat w))"
    by blast+
qed

lemma mod_word_loop_value:
  assumes w: "w \<noteq> 0"
  shows "unat ret < unat w \<Longrightarrow> i \<le> length d \<Longrightarrow> unat (mod_word_loop w i ret d) = (unat ret * LIMB ^ i + wval (take i d)) mod unat w"
proof (induction i arbitrary: ret)
  case (Suc i)
  have pos: "0 < unat w" using w by (simp add: unat_gt_0)
  have u: "unat (ucast w :: u128) = unat w" using unat_limb [of w] by (simp add: unsigned_ucast_eq take_bit_nat_eq_self LIMB_def)
  let ?r = "(push_bit BN_BITS2 ret OR ucast (d ! i)) mod ucast w"
  have "unat ret < LIMB" using Suc.prems(1) unat_limb [of w] by (rule order_less_trans)
  then have r: "unat ?r = (unat ret * LIMB + unat (d ! i)) mod unat w" by (simp add: unat_mod u double_word)
  then have "unat ?r < unat w" using pos by simp
  from Suc.IH [OF this] Suc.prems(2)
  have "unat (mod_word_loop w (Suc i) ret d) = ((unat ret * LIMB + unat (d ! i)) mod unat w * LIMB ^ i + wval (take i d)) mod unat w"
    unfolding r by simp
  also have "\<dots> = ((unat ret * LIMB + unat (d ! i)) * LIMB ^ i + wval (take i d)) mod unat w" by (rule div_mod_split(1) [OF pos, symmetric])
  also have "(unat ret * LIMB + unat (d ! i)) * LIMB ^ i + wval (take i d) = unat ret * LIMB ^ Suc i + wval (take (Suc i) d)"
    using Suc.prems(2) by (simp add: take_Suc_conv_app_nth wval_append algebra_simps)
  finally show ?case .
qed simp

theorem mod_word_value:
  assumes "bn_wf a" and "w \<noteq> 0"
  shows "unat (BN_mod_word a w) = bn_mag a mod unat w"
proof -
  have pos: "0 < unat w" using assms(2) by (simp add: unat_gt_0)
  have v: "unat (mod_word_loop w (bn_width a) 0 (bn_d a)) = bn_mag a mod unat w"
    using mod_word_loop_value [OF assms(2), of 0 "bn_width a" "bn_d a"] pos assms(1) by (simp add: bn_wf_def bn_mag_def bn_words_def)
  have "bn_mag a mod unat w < LIMB" using mod_less_divisor [OF pos] unat_limb [of w] by (rule order_less_trans)
  then show ?thesis using v assms(2) by (simp add: BN_mod_word_def unsigned_ucast_eq take_bit_nat_eq_self LIMB_def)
qed

section \<open>Powers of two\<close>

text \<open>The words up to the top word of \<open>e\<close> bits, with the top word cut.\<close>

definition cut_top :: "words \<Rightarrow> nat \<Rightarrow> words" where
  "cut_top d e =
     (let k = (e - 1) div 64 in if e mod 64 \<noteq> 0 then d[k := d ! k AND (push_bit (e mod 64) 1 - 1)] else d)"

lemma length_cut_top [simp]: "length (cut_top d e) = length d"
  by (simp add: cut_top_def Let_def)

lemma LIMB_power: "LIMB ^ k = 2 ^ (64 * k)"
  by (simp add: LIMB_def power_mult)

lemma cut_top_value:
  assumes e: "0 < e" and k: "Suc ((e - 1) div 64) \<le> length d"
  shows "wval (take (Suc ((e - 1) div 64)) (cut_top d e)) = wval (take (Suc ((e - 1) div 64)) d) mod 2 ^ e"
proof -
  let ?k = "(e - 1) div 64" and ?t = "e mod 64"
  have split: "take (Suc ?k) d = take ?k d @ [d ! ?k]" using k by (simp add: take_Suc_conv_app_nth)
  have len: "length (take ?k d) = ?k" using k by simp
  show ?thesis
  proof (cases "?t = 0")
    case True
    then obtain q where q: "e = 64 * q" by (metis mod_0_imp_dvd dvd_def)
    then have ek: "e = 64 * Suc ?k" using e by (cases q) auto
    have "wval (take (Suc ?k) d) < LIMB ^ Suc ?k" using wval_less [of "take (Suc ?k) d"] k by (simp add: min_absorb1)
    also have "LIMB ^ Suc ?k = 2 ^ e" unfolding LIMB_power by (subst (2) ek) (rule refl)
    finally have "wval (take (Suc ?k) d) < 2 ^ e" .
    then show ?thesis using True by (simp add: cut_top_def Let_def)
  next
    case False
    obtain m where m: "e = Suc m" using e by (cases e) auto
    then have "(e - 1) div 64 = e div 64" using False by (simp add: div_Suc)
    then have ek: "e = 64 * ?k + ?t" by simp
    let ?x = "d ! ?k AND (push_bit ?t 1 - 1)"
    have me: "push_bit ?t 1 - 1 = (mask ?t :: u64)" by (simp add: mask_eq_exp_minus_1 push_bit_eq_mult)
    have "?x = take_bit ?t (d ! ?k)" unfolding me by (rule take_bit_eq_mask [symmetric])
    then have x: "unat ?x = unat (d ! ?k) mod 2 ^ ?t" by (simp only: unsigned_take_bit_eq) (simp only: take_bit_eq_mod)
    have c: "cut_top d e = d[?k := ?x]" using False by (simp add: cut_top_def Let_def)
    have "take (Suc ?k) (d[?k := ?x]) = take ?k d @ [?x]" using k by (simp add: take_Suc_conv_app_nth)
    then have "wval (take (Suc ?k) (cut_top d e)) = wval (take ?k d) + 2 ^ (64 * ?k) * (unat (d ! ?k) mod 2 ^ ?t)"
      using len x by (simp add: c wval_append LIMB_power)
    also have "\<dots> = (wval (take ?k d) + 2 ^ (64 * ?k) * unat (d ! ?k)) mod (2 ^ (64 * ?k) * 2 ^ ?t)"
    proof -
      have lt: "wval (take ?k d) < 2 ^ (64 * ?k)" using wval_less [of "take ?k d"] len by (simp add: LIMB_power)
      show ?thesis using lt by (simp add: mod_mult2_eq)
    qed
    also have "wval (take ?k d) + 2 ^ (64 * ?k) * unat (d ! ?k) = wval (take (Suc ?k) d)"
      unfolding split using len by (simp add: wval_append LIMB_power)
    also have "(2 :: nat) ^ (64 * ?k) * 2 ^ ?t = 2 ^ e" using ek by (simp add: power_add [symmetric])
    finally show ?thesis .
  qed
qed

theorem mod_pow2_value:
  assumes libc: "libc_wf libc" and wf: "bn_wf r" "bn_ok a" and m: "BN_mod_pow2 libc r a e = (k, s)"
  shows "k \<Longrightarrow> bn_ok s" "k \<Longrightarrow> bn_mag s = bn_mag a mod 2 ^ e" "k \<Longrightarrow> bn_mag s \<noteq> 0 \<Longrightarrow> bn_neg s = bn_neg a" "bn_flags s = bn_flags r"
    "\<not> k \<Longrightarrow> starved libc (Suc (e div 64)) \<or> bn_flags r AND BN_FLG_STATIC_DATA \<noteq> 0"
proof -
  let ?n = "1 + (e - 1) div BN_BITS2"
  have n: "?n = Suc ((e - 1) div 64)" by (simp add: BN_BITS2_def)
  have le: "?n \<le> Suc (e div 64)" unfolding n by (simp add: div_le_mono)
  have wa: "bn_wf a" by (rule bn_ok_wf [OF wf(2)])
  have "(k \<longrightarrow> bn_ok s \<and> bn_mag s = bn_mag a mod 2 ^ e \<and> (bn_mag s \<noteq> 0 \<longrightarrow> bn_neg s = bn_neg a)) \<and> bn_flags s = bn_flags r \<and>
    (\<not> k \<longrightarrow> starved libc (Suc (e div 64)) \<or> bn_flags r AND BN_FLG_STATIC_DATA \<noteq> 0)"
  proof (cases "e = 0 \<or> bn_width a = 0")
    case True
    then have "bn_mag a mod 2 ^ e = 0" by (auto simp: bn_mag_def bn_words_def)
    moreover have "k" "s = BN_zero r" using True m by (auto simp: BN_mod_pow2_def)
    ultimately show ?thesis using zero_value(2,3) wf(1) by (simp add: BN_zero_def bn_ok_def bn_wf_def bn_mag_def bn_words_def)
  next
    case e0: False
    show ?thesis
    proof (cases "bn_width a < ?n")
      case True
      then have c: "BN_copy libc r a = (k, s)" using m e0 by (simp add: BN_mod_pow2_def)
      note cv = copy_value [OF libc wf(1) wa c]
      have "bn_mag a < LIMB ^ bn_width a" by (rule bn_mag_less [OF wa])
      also have "\<dots> \<le> 2 ^ e"
      proof -
        have "64 * bn_width a \<le> e" using True e0 unfolding n by (simp add: less_Suc_eq_le less_eq_div_iff_mult_less_eq)
        then show ?thesis unfolding LIMB_power by (intro power_increasing) simp_all
      qed
      finally have "bn_mag a mod 2 ^ e = bn_mag a" by simp
      moreover have "k \<Longrightarrow> bn_mag s = bn_mag a" using cv(3) by (simp add: bn_mag_def)
      moreover have "\<not> k \<Longrightarrow> starved libc (Suc (e div 64)) \<or> bn_flags r AND BN_FLG_STATIC_DATA \<noteq> 0"
        using cv(1) not_roomy [of libc r "bn_width a" "Suc (e div 64)"] True le by linarith
      ultimately show ?thesis using cv wf(2) by (auto simp: bn_ok_def)
    next
      case wide: False
      obtain b d where w: "bn_wexpand libc r ?n = (b, d)" by fastforce
      note we = wexpand [OF libc wf(1) w]
      show ?thesis
      proof (cases b)
        case False
        then have "k = False" "s = d" using m e0 wide w by (auto simp: BN_mod_pow2_def)
        then show ?thesis using we(1,6) False not_roomy [OF _ le, of libc r] by auto
      next
        case b: True
        let ?d0 = "mem_write (bn_d d) 0 (take ?n (bn_d a))"
        let ?s = "d\<lparr>bn_d := cut_top ?d0 e, bn_neg := bn_neg a, bn_width := ?n\<rparr>"
        have s: "k" "s = bn_set_minimal_width ?s"
          using m e0 wide w b by (cases "e mod 64 = 0"; simp add: BN_mod_pow2_def cut_top_def BN_BITS2_def Let_def)+
        have la: "?n \<le> bn_width a" "?n \<le> length (bn_d a)" "?n \<le> length (bn_d d)" using wide wa we(2) we(7) [OF b] by (simp_all add: bn_wf_def)
        have t: "take ?n ?d0 = take ?n (bn_d a)" "length ?d0 = length (bn_d d)" using la by (simp_all add: mem_write_def)
        have wf': "bn_wf ?s" using we(2) we(7) [OF b] t(2) by (simp add: bn_wf_def)
        have "bn_mag ?s = wval (take ?n (cut_top ?d0 e))" by (simp add: bn_mag_def bn_words_def)
        also have "\<dots> = wval (take ?n (bn_d a)) mod 2 ^ e" using cut_top_value [of e ?d0] e0 la t unfolding n by simp
        also have "\<dots> = bn_mag a mod 2 ^ e"
        proof -
          have "take ?n (bn_d a) = take ?n (bn_words a)" using la by (simp add: bn_words_def min_absorb1)
          moreover have "bn_mag a = wval (take ?n (bn_words a)) + 2 ^ (64 * ?n) * wval (drop ?n (bn_words a))"
            using wval_split [of "bn_words a" ?n] la wa by (simp add: bn_mag_def LIMB_power min_absorb1)
          moreover have "2 ^ e dvd (2 :: nat) ^ (64 * ?n)"
          proof -
            have "e - 1 < 64 * Suc ((e - 1) div 64)" using dividend_less_times_div [of 64 "e - 1"] by simp
            then show ?thesis unfolding n by (intro le_imp_power_dvd) linarith
          qed
          then have "(wval (take ?n (bn_words a)) + 2 ^ (64 * ?n) * wval (drop ?n (bn_words a))) mod 2 ^ e = wval (take ?n (bn_words a)) mod 2 ^ e"
            by (metis dvd_mult2 dvd_imp_mod_0 mod_add_right_eq add_0_right)
          ultimately show ?thesis by simp
        qed
        finally have mag: "bn_mag ?s = bn_mag a mod 2 ^ e" .
        note sm = set_minimal_width [OF wf']
        have fl: "bn_flags s = bn_flags r" unfolding s(2) using we(6) by (simp add: bn_set_minimal_width_def Let_def)
        have ok: "bn_ok s" unfolding s(2) by (rule sm(1))
        have ms: "bn_mag s = bn_mag a mod 2 ^ e" unfolding s(2) sm(3) by (rule mag)
        have "bn_neg s \<longleftrightarrow> bn_neg a \<and> bn_mag s \<noteq> 0" unfolding s(2) sm(3,4) by simp
        with fl ok ms s(1) show ?thesis by blast
      qed
    qed
  qed
  then show "k \<Longrightarrow> bn_ok s" "k \<Longrightarrow> bn_mag s = bn_mag a mod 2 ^ e" "k \<Longrightarrow> bn_mag s \<noteq> 0 \<Longrightarrow> bn_neg s = bn_neg a" "bn_flags s = bn_flags r"
    "\<not> k \<Longrightarrow> starved libc (Suc (e div 64)) \<or> bn_flags r AND BN_FLG_STATIC_DATA \<noteq> 0" by blast+
qed

lemma wval_not: "wval (map NOT ws) + wval ws = LIMB ^ length ws - 1"
proof (induction ws)
  case (Cons w ws)
  have "unat (NOT w) + unat w = LIMB - 1"
  proof -
    have "NOT w = - 1 - w" by (simp add: not_eq_complement)
    then have "unat (NOT w) = LIMB - 1 - unat w" using unat_limb_le [of w] by (simp add: unat_sub_if' unsigned_minus_1_eq_mask mask_eq_exp_minus_1 LIMB_def)
    then show ?thesis using unat_limb_le [of w] by simp
  qed
  moreover define L where "L = LIMB ^ length ws"
  have "LIMB * wval (map NOT ws) + LIMB * wval ws = LIMB * (L - 1)"
    unfolding L_def Cons.IH [symmetric] by (simp only: distrib_left)
  moreover have "LIMB * (L - 1) = LIMB * L - LIMB" by (simp add: diff_mult_distrib2)
  moreover have "LIMB * 1 \<le> LIMB * L" unfolding L_def by (intro mult_le_mono2) simp
  moreover have "wval (map NOT (w # ws)) + wval (w # ws) =
      (LIMB * wval (map NOT ws) + LIMB * wval ws) + (unat (NOT w) + unat w)"
    by simp
  moreover have "1 \<le> LIMB" by (simp add: LIMB_def)
  ultimately have "wval (map NOT (w # ws)) + wval (w # ws) = LIMB * L - 1" by linarith
  then show ?case by (simp add: L_def)
qed simp

lemma one_value: "bn_ok BN_value_one" "bn_int BN_value_one = 1" "bn_width BN_value_one = 1" "\<not> bn_neg BN_value_one"
  by (simp_all add: BN_value_one_def bn_ok_def bn_wf_def bn_int_def bn_mag_def bn_words_def)

lemma minimal_narrow: "bn_width (bn_set_minimal_width x) \<le> bn_width x"
  using minimal_width_le [of "bn_d x" "bn_width x"] by (simp add: bn_set_minimal_width_def bn_minimal_width_def Let_def)

theorem nnmod_pow2_value:
  assumes libc: "libc_wf libc" and wf: "bn_wf r" "bn_ok a" and m: "BN_nnmod_pow2 libc r a e = (k, s)"
  shows "k \<Longrightarrow> bn_ok s" "k \<Longrightarrow> bn_int s = bn_int a mod 2 ^ e"
    "\<not> k \<Longrightarrow> starved libc (e div 64 + 2) \<or> bn_flags r AND BN_FLG_STATIC_DATA \<noteq> 0"
proof -
  obtain b p where e: "BN_mod_pow2 libc r a e = (b, p)" by fastforce
  note pv = mod_pow2_value [OF libc wf e]
  have mono: "starved libc (Suc (e div 64)) \<Longrightarrow> starved libc (e div 64 + 2)" by (erule starved_mono) simp
  have "(k \<longrightarrow> bn_ok s \<and> bn_int s = bn_int a mod 2 ^ e) \<and> (\<not> k \<longrightarrow> starved libc (e div 64 + 2) \<or> bn_flags r AND BN_FLG_STATIC_DATA \<noteq> 0)"
  proof (cases "b \<and> bn_mag p \<noteq> 0 \<and> bn_neg p")
    case False
    have z: "b \<Longrightarrow> BN_is_zero p \<longleftrightarrow> bn_mag p = 0" using is_zero [OF bn_ok_wf [OF pv(1)]] by simp
    have r: "k = b" "s = p" using m e z False by (auto simp: BN_nnmod_pow2_def split: bool.splits)
    have "bn_int p = bn_int a mod 2 ^ e" if b: "b"
    proof (cases "bn_mag p = 0")
      case True
      then have "2 ^ e dvd bn_mag a" using pv(2) [OF b] by (simp add: mod_eq_0_iff_dvd)
      then have "2 ^ e dvd int (bn_mag a)" by (metis int_dvd_int_iff of_nat_numeral of_nat_power)
      then show ?thesis using True by (simp add: bn_int_def)
    next
      case nz: False
      then have "\<not> bn_neg a" "\<not> bn_neg p" using False b pv(3) by simp_all
      then show ?thesis using pv(2) [OF b] by (simp add: bn_int_def zmod_int)
    qed
    then show ?thesis using r pv(1,5) mono by auto
  next
    case True
    then have b: "b" "bn_mag p \<noteq> 0" "bn_neg p" "bn_neg a" using pv(3) by simp_all
    have wp: "bn_wf p" by (rule bn_ok_wf [OF pv(1) [OF b(1)]])
    have lt: "bn_mag p < 2 ^ e" using pv(2) [OF b(1)] by simp
    have e0: "0 < e" using lt b(2) by (cases e) simp_all
    let ?n = "1 + (e - 1) div BN_BITS2"
    have n: "?n = Suc ((e - 1) div 64)" by (simp add: BN_BITS2_def)
    have nle: "?n \<le> e div 64 + 2" unfolding n using div_le_mono [of "e - 1" e 64] by simp
    obtain c d where w: "bn_wexpand libc p ?n = (c, d)" by fastforce
    note we = wexpand [OF libc wp w]
    have nz: "\<not> BN_is_zero p" using is_zero [OF wp] b(2) by simp
    show ?thesis
    proof (cases c)
      case False
      then have "k = False" using m e b(1,3) nz w by (auto simp: BN_nnmod_pow2_def)
      then show ?thesis using we(1) False not_roomy [OF _ nle, of libc p] pv(4) by auto
    next
      case c: True
      define d0 where "d0 = mem_write (bn_d d) (bn_width d) (replicate (?n - bn_width d) 0)"
      define d1 where "d1 = mem_write d0 0 (map NOT (take ?n d0))"
      let ?t = "d\<lparr>bn_d := cut_top d1 e, bn_neg := False, bn_width := ?n\<rparr>"
      have run: "BN_nnmod_pow2 libc r a e = BN_add libc (bn_set_minimal_width ?t) (bn_set_minimal_width ?t) BN_value_one"
        using e b nz w c by (cases "e mod 64 = 0") (simp_all add: BN_nnmod_pow2_def cut_top_def d0_def d1_def BN_BITS2_def Let_def)
      have ln: "?n \<le> length (bn_d d)" using we(7,9) c by simp
      have l0: "length d0 = length (bn_d d)" using ln we(2) by (auto simp: d0_def mem_write_def bn_wf_def)
      have "bn_width p \<le> ?n \<or> ?n \<le> bn_width p" by linarith
      have v0: "wval (take ?n d0) = bn_mag p"
      proof (cases "bn_width d \<le> ?n")
        case True
        have zeros: "wval (replicate i 0) = 0" for i by (induction i) simp_all
        have "take ?n d0 = bn_words d @ replicate (?n - bn_width d) 0" using True ln by (simp add: d0_def mem_write_at bn_words_def)
        then show ?thesis using we(3) by (simp add: wval_append bn_mag_def zeros)
      next
        case False
        then have "d0 = bn_d d" by (simp add: d0_def mem_write_def)
        then have "take ?n d0 = take ?n (bn_words p)" using bn_words_take [OF we(2), of ?n] False by (simp add: we(3))
        moreover have "bn_mag p < LIMB ^ ?n"
        proof -
          have "e \<le> 64 * ?n" using dividend_less_times_div [of 64 "e - 1"] e0 unfolding n by simp
          then have "(2 :: nat) ^ e \<le> LIMB ^ ?n" unfolding LIMB_power by (intro power_increasing) simp_all
          then show ?thesis using lt by simp
        qed
        ultimately show ?thesis using wval_take_less [of "bn_words p" ?n] by (simp add: bn_mag_def)
      qed
      have l1: "length d1 = length (bn_d d)" using l0 ln by (simp add: d1_def mem_write_def)
      have t1: "take ?n d1 = map NOT (take ?n d0)" using l0 ln by (simp add: d1_def mem_write_def)
      have v1: "wval (take ?n d1) + bn_mag p = LIMB ^ ?n - 1" using wval_not [of "take ?n d0"] l0 ln unfolding t1 v0 by (simp add: min_absorb2)
      have wt: "bn_wf ?t" using we(2,7) c l1 by (simp add: bn_wf_def)
      have "bn_mag ?t = wval (take ?n (cut_top d1 e))" by (simp add: bn_mag_def bn_words_def)
      also have "\<dots> = wval (take ?n d1) mod 2 ^ e" using cut_top_value [OF e0, of d1] ln l1 unfolding n by simp
      also have "\<dots> = 2 ^ e - 1 - bn_mag p"
      proof -
        have "e \<le> 64 * ?n" using dividend_less_times_div [of 64 "e - 1"] e0 unfolding n by simp
        then obtain q where q: "LIMB ^ ?n = 2 ^ e * Suc q"
          unfolding LIMB_power by (metis le_imp_power_dvd dvd_def not0_implies_Suc mult_0_right power_not_zero zero_neq_numeral)
        have w: "wval (take ?n d1) = (2 ^ e - 1 - bn_mag p) + 2 ^ e * q" using v1 lt unfolding q by simp
        show ?thesis unfolding w mod_mult_self2 using lt by (intro mod_less) linarith
      qed
      finally have mt: "bn_mag ?t = 2 ^ e - 1 - bn_mag p" .
      let ?u = "bn_set_minimal_width ?t"
      note sm = set_minimal_width [OF wt]
      have add: "BN_add libc ?u ?u BN_value_one = (k, s)" using m unfolding run .
      note av = add_value [OF libc bn_ok_wf [OF sm(1)] sm(1) one_value(1) add]
      have iu: "bn_int ?u = int (2 ^ e - 1 - bn_mag p)" unfolding sm(2) unfolding bn_int_def mt by simp
      have "bn_int a mod 2 ^ e = 2 ^ e - int (bn_mag p)"
      proof -
        have "int (bn_mag p) = int (bn_mag a) mod 2 ^ e" using pv(2) [OF b(1)] by (simp add: zmod_int)
        then show ?thesis using b(2,4) by (simp add: bn_int_def zmod_zminus1_eq_if)
      qed
      moreover have "int (2 ^ e - 1 - bn_mag p) + 1 = 2 ^ e - int (bn_mag p)" using lt by (simp add: of_nat_diff)
      ultimately have val: "k \<Longrightarrow> bn_int s = bn_int a mod 2 ^ e" using av(3) iu one_value(2) by simp
      have sw: "sum_width ?u BN_value_one \<le> e div 64 + 2"
      proof -
        have "\<not> bn_neg ?u" using sm(4) by simp
        then show ?thesis using minimal_narrow [of ?t] n div_le_mono [of "e - 1" e 64] one_value(3,4) by (simp add: sum_width_def)
      qed
      have "bn_flags ?u = bn_flags r" using we(6) pv(4) by (simp add: bn_set_minimal_width_def Let_def)
      then have "\<not> k \<Longrightarrow> starved libc (e div 64 + 2) \<or> bn_flags r AND BN_FLG_STATIC_DATA \<noteq> 0"
        using av(1) not_roomy [OF _ sw, of libc ?u] by simp
      then show ?thesis using av(2) val by blast
    qed
  qed
  then show "k \<Longrightarrow> bn_ok s" "k \<Longrightarrow> bn_int s = bn_int a mod 2 ^ e"
    "\<not> k \<Longrightarrow> starved libc (e div 64 + 2) \<or> bn_flags r AND BN_FLG_STATIC_DATA \<noteq> 0" by blast+
qed

end
