(* ===== verification/BnRun.thy ===== *)
theory BnRun
  imports BnDivWord_Spec
begin

text \<open>
  Clients of the big numbers: straight-line programs over a list of \<open>BIGNUM\<close> objects and a pool. A
  destination may be an operand, and the number of a register is overwritten whatever it held. A run of a
  program that reports no failure is a run of the same program on integers.
\<close>

section \<open>Programs\<close>

datatype instr =
    Word_to nat u64
  | Copy nat nat
  | Add nat nat nat
  | Sub nat nat nat
  | Mul nat nat nat
  | Sqr nat nat
  | Lshift nat nat int
  | Rshift nat nat int
  | Mul_word nat u64
  | Low_bits nat nat nat
  | Quo_rem nat nat nat nat

text \<open>The registers of an instruction; the two results of a division are different objects.\<close>

fun in_range :: "nat \<Rightarrow> instr \<Rightarrow> bool" where
  "in_range n (Word_to d w) \<longleftrightarrow> d < n"
| "in_range n (Copy d a) \<longleftrightarrow> d < n \<and> a < n"
| "in_range n (Add d a b) \<longleftrightarrow> d < n \<and> a < n \<and> b < n"
| "in_range n (Sub d a b) \<longleftrightarrow> d < n \<and> a < n \<and> b < n"
| "in_range n (Mul d a b) \<longleftrightarrow> d < n \<and> a < n \<and> b < n"
| "in_range n (Sqr d a) \<longleftrightarrow> d < n \<and> a < n"
| "in_range n (Lshift d a k) \<longleftrightarrow> d < n \<and> a < n"
| "in_range n (Rshift d a k) \<longleftrightarrow> d < n \<and> a < n"
| "in_range n (Mul_word d w) \<longleftrightarrow> d < n"
| "in_range n (Low_bits d a e) \<longleftrightarrow> d < n \<and> a < n"
| "in_range n (Quo_rem q r a b) \<longleftrightarrow> q < n \<and> r < n \<and> a < n \<and> b < n \<and> q \<noteq> r"

definition stored :: "bignum list \<Rightarrow> nat \<Rightarrow> bool \<times> bignum \<Rightarrow> bignum list option" where
  "stored regs d res = (case res of (ok, r) \<Rightarrow> if ok then Some (regs[d := r]) else None)"

definition stored_ctx :: "bignum list \<Rightarrow> nat \<Rightarrow> bool \<times> bignum \<times> bn_ctx \<Rightarrow> (bignum list \<times> bn_ctx) option" where
  "stored_ctx regs d res = (case res of (ok, r, ctx) \<Rightarrow> if ok then Some (regs[d := r], ctx) else None)"

text \<open>The calls that an instruction makes; \<open>None\<close> is a failure that is reported.\<close>

fun exec :: "ctx_env \<Rightarrow> instr \<Rightarrow> bignum list \<Rightarrow> bn_ctx \<Rightarrow> (bignum list \<times> bn_ctx) option" where
  "exec env (Word_to d w) regs ctx = map_option (\<lambda>rs. (rs, ctx)) (stored regs d (BN_set_word (env_libc env) (regs ! d) w))"
| "exec env (Copy d a) regs ctx =
     (if d = a then Some (regs, ctx) else map_option (\<lambda>rs. (rs, ctx)) (stored regs d (BN_copy (env_libc env) (regs ! d) (regs ! a))))"
| "exec env (Add d a b) regs ctx = map_option (\<lambda>rs. (rs, ctx)) (stored regs d (BN_add (env_libc env) (regs ! d) (regs ! a) (regs ! b)))"
| "exec env (Sub d a b) regs ctx = map_option (\<lambda>rs. (rs, ctx)) (stored regs d (BN_sub (env_libc env) (regs ! d) (regs ! a) (regs ! b)))"
| "exec env (Mul d a b) regs ctx = stored_ctx regs d (BN_mul env (d = a \<or> d = b) (regs ! d) (regs ! a) (regs ! b) ctx)"
| "exec env (Sqr d a) regs ctx = stored_ctx regs d (BN_sqr env (d = a) (regs ! d) (regs ! a) ctx)"
| "exec env (Lshift d a n) regs ctx = map_option (\<lambda>rs. (rs, ctx)) (stored regs d (BN_lshift (env_libc env) (regs ! d) (regs ! a) n))"
| "exec env (Rshift d a n) regs ctx = map_option (\<lambda>rs. (rs, ctx)) (stored regs d (BN_rshift (env_libc env) (regs ! d) (regs ! a) n))"
| "exec env (Mul_word d w) regs ctx = map_option (\<lambda>rs. (rs, ctx)) (stored regs d (BN_mul_word (env_libc env) (regs ! d) w))"
| "exec env (Low_bits d a e) regs ctx = map_option (\<lambda>rs. (rs, ctx)) (stored regs d (BN_nnmod_pow2 (env_libc env) (regs ! d) (regs ! a) e))"
| "exec env (Quo_rem q r a b) regs ctx =
     (case bn_div_consttime env (Some (regs ! q, q = a \<or> q = b)) (Some (regs ! r, r = a \<or> r = b)) (regs ! a) (regs ! b) ctx of
        (True, Some x, Some y, ctx) \<Rightarrow> Some (regs[q := x, r := y], ctx)
      | _ \<Rightarrow> None)"

text \<open>The width of a number is an \<open>int\<close>.\<close>

definition fits :: "bignum list \<Rightarrow> bool" where
  "fits regs \<longleftrightarrow> (\<forall>r \<in> set regs. bn_width r \<le> INT_MAX)"

inductive number_run :: "ctx_env \<Rightarrow> bignum list \<Rightarrow> bn_ctx \<Rightarrow> instr list \<Rightarrow> bignum list \<Rightarrow> bn_ctx \<Rightarrow> bool" for env where
  start: "number_run env regs ctx [] regs ctx"
| step: "number_run env regs ctx is regs' ctx' \<Longrightarrow> fits regs' \<Longrightarrow> in_range (length regs') i \<Longrightarrow> exec env i regs' ctx' = Some (regs'', ctx'') \<Longrightarrow>
     number_run env regs ctx (is @ [i]) regs'' ctx''"

inductive_simps number_run_empty: "number_run env regs ctx [] regs' ctx'"

section \<open>The same programs on integers\<close>

definition towards_zero :: "(nat \<Rightarrow> nat) \<Rightarrow> int \<Rightarrow> int" where
  "towards_zero f x = sgn x * int (f (nat \<bar>x\<bar>))"

fun int_step :: "instr \<Rightarrow> int list \<Rightarrow> int list" where
  "int_step (Word_to d w) xs = xs[d := int (unat w)]"
| "int_step (Copy d a) xs = xs[d := xs ! a]"
| "int_step (Add d a b) xs = xs[d := xs ! a + xs ! b]"
| "int_step (Sub d a b) xs = xs[d := xs ! a - xs ! b]"
| "int_step (Mul d a b) xs = xs[d := xs ! a * xs ! b]"
| "int_step (Sqr d a) xs = xs[d := xs ! a * xs ! a]"
| "int_step (Lshift d a n) xs = xs[d := xs ! a * 2 ^ nat n]"
| "int_step (Rshift d a n) xs = xs[d := towards_zero (\<lambda>m. m div 2 ^ nat n) (xs ! a)]"
| "int_step (Mul_word d w) xs = xs[d := xs ! d * int (unat w)]"
| "int_step (Low_bits d a e) xs = xs[d := xs ! a mod 2 ^ e]"
| "int_step (Quo_rem q r a b) xs = xs[q := xs ! a div xs ! b, r := xs ! a mod xs ! b]"

section \<open>Simulation\<close>

definition all_ok :: "bignum list \<Rightarrow> bool" where
  "all_ok regs \<longleftrightarrow> (\<forall>r \<in> set regs. bn_ok r)"

lemma all_ok_nth: "all_ok regs \<Longrightarrow> i < length regs \<Longrightarrow> bn_ok (regs ! i)" "all_ok regs \<Longrightarrow> i < length regs \<Longrightarrow> bn_wf (regs ! i)"
  by (simp_all add: all_ok_def bn_ok_wf)

lemma all_ok_update: "all_ok regs \<Longrightarrow> bn_ok r \<Longrightarrow> all_ok (regs[d := r])"
  using set_update_subset_insert [of regs d r] by (auto simp: all_ok_def)

lemma fits_nth: "fits regs \<Longrightarrow> i < length regs \<Longrightarrow> bn_width (regs ! i) \<le> INT_MAX"
  by (simp add: fits_def)

lemma stored_value:
  assumes "map_option (\<lambda>rs. (rs, ctx)) (stored regs d res) = Some (regs', ctx')" and "all_ok regs" and "ctx_wf ctx" and "d < length regs"
    and "\<And>s. res = (True, s) \<Longrightarrow> bn_ok s \<and> bn_int s = v"
  shows "ctx_wf ctx' \<and> all_ok regs' \<and> map bn_int regs' = (map bn_int regs)[d := v]"
  using assms by (cases res) (auto simp: stored_def map_update intro!: all_ok_update split: if_splits)

lemma stored_ctx_value:
  assumes "stored_ctx regs d res = Some (regs', ctx')" and "all_ok regs" and "d < length regs"
    and "\<And>s c. res = (True, s, c) \<Longrightarrow> bn_ok s \<and> bn_int s = v \<and> ctx_wf c"
  shows "ctx_wf ctx' \<and> all_ok regs' \<and> map bn_int regs' = (map bn_int regs)[d := v]"
  using assms by (cases res) (auto simp: stored_ctx_def map_update intro!: all_ok_update split: if_splits)

lemma towards_zero_value: "bn_ok x \<Longrightarrow> (if bn_neg x then - int (f (bn_mag x)) else int (f (bn_mag x))) = towards_zero f (bn_int x)" if "f 0 = 0"
  using that by (cases "bn_mag x = 0") (auto simp: towards_zero_def bn_int_def bn_ok_def)

lemma exec_refines:
  assumes libc: "libc_wf (env_libc env)" and ctx: "ctx_wf ctx" and ok: "all_ok regs" and w: "fits regs" and i: "in_range (length regs) i"
    and e: "exec env i regs ctx = Some (regs', ctx')"
  shows "ctx_wf ctx' \<and> all_ok regs' \<and> map bn_int regs' = int_step i (map bn_int regs)"
  using i e
proof (cases i)
  case (Word_to d v)
  have r: "d < length regs" using i Word_to by simp
  have "bn_ok s \<and> bn_int s = int (unat v)" if s: "BN_set_word (env_libc env) (regs ! d) v = (True, s)" for s
    using set_word_value(2,3) [OF libc all_ok_nth(2) [OF ok r] s] by simp
  then show ?thesis using e r unfolding Word_to exec.simps int_step.simps by (intro stored_value [OF _ ok ctx]) auto
next
  case (Copy d a)
  show ?thesis
  proof (cases "d = a")
    case True
    then have "(map bn_int regs)[d := map bn_int regs ! a] = map bn_int regs" by (metis list_update_id)
    then show ?thesis using True e ctx ok unfolding Copy by simp
  next
    case False
    have d: "d < length regs" "a < length regs" using i Copy by simp_all
    have "bn_ok s \<and> bn_int s = bn_int (regs ! a)" if s: "BN_copy (env_libc env) (regs ! d) (regs ! a) = (True, s)" for s
      using copy_value [OF libc all_ok_nth(2) [OF ok d(1)] all_ok_nth(2) [OF ok d(2)] s] all_ok_nth(1) [OF ok d(2)]
      by (simp add: bn_ok_def bn_int_def bn_mag_def)
    then show ?thesis using False e d unfolding Copy exec.simps int_step.simps by (intro stored_value [OF _ ok ctx]) auto
  qed
next
  case (Add d a b)
  then show ?thesis using e i ok unfolding Add exec.simps int_step.simps
    by (intro stored_value [OF _ ok ctx]) (auto dest: add_value(2,3) [OF libc, rotated 3] simp: all_ok_nth)
next
  case (Sub d a b)
  then show ?thesis using e i ok unfolding Sub exec.simps int_step.simps
    by (intro stored_value [OF _ ok ctx]) (auto dest: sub_value(2,3) [OF libc, rotated 3] simp: all_ok_nth)
next
  case (Mul d a b)
  have r: "d < length regs" "a < length regs" "b < length regs" using i Mul by simp_all
  have "bn_ok s \<and> bn_int s = bn_int (regs ! a) * bn_int (regs ! b) \<and> ctx_wf c"
    if s: "BN_mul env (d = a \<or> d = b) (regs ! d) (regs ! a) (regs ! b) ctx = (True, s, c)" for s c
    using mul_value(1-3) [OF libc ctx all_ok_nth(2) [OF ok r(1)] all_ok_nth(1) [OF ok r(2)] all_ok_nth(1) [OF ok r(3)] fits_nth [OF w r(2)] fits_nth [OF w r(3)] s]
      ctx_keeps_wf by simp
  then show ?thesis using e r unfolding Mul exec.simps int_step.simps by (intro stored_ctx_value [OF _ ok]) auto
next
  case (Sqr d a)
  have r: "d < length regs" "a < length regs" using i Sqr by simp_all
  have "bn_ok s \<and> bn_int s = bn_int (regs ! a) * bn_int (regs ! a) \<and> ctx_wf c"
    if s: "BN_sqr env (d = a) (regs ! d) (regs ! a) ctx = (True, s, c)" for s c
    using sqr_value(1-3) [OF libc ctx all_ok_nth(2) [OF ok r(1)] all_ok_nth(2) [OF ok r(2)] s] ctx_keeps_wf by simp
  then show ?thesis using e r unfolding Sqr exec.simps int_step.simps by (intro stored_ctx_value [OF _ ok]) auto
next
  case (Lshift d a n)
  then show ?thesis using e i ok unfolding Lshift exec.simps int_step.simps
    by (intro stored_value [OF _ ok ctx]) (auto dest: lshift_value(2,3) [OF libc, rotated 2] simp: all_ok_nth)
next
  case (Rshift d a n)
  have r: "d < length regs" "a < length regs" using i Rshift by simp_all
  have "bn_ok s \<and> bn_int s = towards_zero (\<lambda>m. m div 2 ^ nat n) (bn_int (regs ! a))"
    if s: "BN_rshift (env_libc env) (regs ! d) (regs ! a) n = (True, s)" for s
    using rshift_value(2,3) [OF libc all_ok_nth(2) [OF ok r(1)] all_ok_nth(2) [OF ok r(2)] s]
      towards_zero_value [OF _ all_ok_nth(1) [OF ok r(2)], of "\<lambda>m. m div 2 ^ nat n"] by simp
  then show ?thesis using e r unfolding Rshift exec.simps int_step.simps by (intro stored_value [OF _ ok ctx]) auto
next
  case (Mul_word d v)
  have r: "d < length regs" using i Mul_word by simp
  have "bn_ok s \<and> bn_int s = bn_int (regs ! d) * int (unat v)" if s: "BN_mul_word (env_libc env) (regs ! d) v = (True, s)" for s
    using mul_by_word_value(1,2) [OF libc all_ok_nth(1) [OF ok r] s] by simp
  then show ?thesis using e r unfolding Mul_word exec.simps int_step.simps by (intro stored_value [OF _ ok ctx]) auto
next
  case (Low_bits d a k)
  have r: "d < length regs" "a < length regs" using i Low_bits by simp_all
  have "bn_ok s \<and> bn_int s = bn_int (regs ! a) mod 2 ^ k" if s: "BN_nnmod_pow2 (env_libc env) (regs ! d) (regs ! a) k = (True, s)" for s
    using nnmod_pow2_value(1,2) [OF libc all_ok_nth(2) [OF ok r(1)] all_ok_nth(1) [OF ok r(2)] s] by simp
  then show ?thesis using e r unfolding Low_bits exec.simps int_step.simps by (intro stored_value [OF _ ok ctx]) auto
next
  case (Quo_rem q r a b)
  have g: "q < length regs" "r < length regs" "a < length regs" "b < length regs" "q \<noteq> r" using i Quo_rem by simp_all
  have res: "results_wf (Some (regs ! q, q = a \<or> q = b))" "results_wf (Some (regs ! r, r = a \<or> r = b))"
    using all_ok_nth(2) [OF ok] g by (simp_all add: results_wf_def)
  obtain x y where d: "bn_div_consttime env (Some (regs ! q, q = a \<or> q = b)) (Some (regs ! r, r = a \<or> r = b)) (regs ! a) (regs ! b) ctx =
      (True, Some x, Some y, ctx')" "regs' = regs[q := x, r := y]"
    using e unfolding Quo_rem by (auto split: prod.splits bool.splits option.splits)
  have "divides env (Some (regs ! q, q = a \<or> q = b)) (Some (regs ! r, r = a \<or> r = b)) (regs ! a) (regs ! b) ctx (True, Some x, Some y, ctx')"
    using div_consttime_value [OF libc ctx res all_ok_nth(2) [OF ok g(3)] all_ok_nth(2) [OF ok g(4)]] unfolding d(1) .
  then have v: "ctx_wf ctx'" "\<not> bn_neg (regs ! a)" "\<not> bn_neg (regs ! b)" "bn_ok x" "bn_ok y"
    "bn_int x = int (bn_mag (regs ! a) div bn_mag (regs ! b))" "bn_int y = int (bn_mag (regs ! a) mod bn_mag (regs ! b))"
    using ctx_keeps_wf by (auto simp: divides_def bn_ok_def bn_int_def)
  have "all_ok regs'" unfolding d(2) by (intro all_ok_update ok v)
  moreover have "map bn_int regs' = int_step i (map bn_int regs)"
    using v g by (simp add: Quo_rem d(2) map_update bn_int_def zdiv_int zmod_int)
  ultimately show ?thesis using v(1) by simp
qed

theorem number_run_simulates:
  assumes "number_run env regs ctx is regs' ctx'" and "libc_wf (env_libc env)" and "ctx_wf ctx" and "all_ok regs"
  shows "ctx_wf ctx' \<and> all_ok regs' \<and> map bn_int regs' = fold int_step is (map bn_int regs)"
  using assms
proof (induction rule: number_run.induct)
  case (step regs ctx "is" regs' ctx' i regs'' ctx'')
  then have "ctx_wf ctx'" "all_ok regs'" "map bn_int regs' = fold int_step is (map bn_int regs)" by simp_all
  with exec_refines [OF step.prems(1) this(1,2) step.hyps(2-4)] show ?case by simp
qed simp

end
