(* ===== verification/BnMont.thy ===== *)
theory BnMont
  imports BnDiv
begin

text \<open>
  Montgomery arithmetic: \<open>crypto/fipsmodule/bn/montgomery.c\<close> and \<open>montgomery_inv.c\<close>, in the configuration of
  the build (one limb for \<open>n0\<close>, no \<open>bn_mul_mont\<close> in assembly). \<open>BN_MONT_CTX_set\<close>, which divides with
  \<open>BN_div\<close>, and the lock of \<open>BN_MONT_CTX_set_locked\<close> are left out.
\<close>

unbundle bit_operations_syntax

section \<open>The context\<close>

record mont_ctx =
  mont_RR :: bignum
  mont_N :: bignum
  mont_n0 :: "u64 \<times> u64"

definition SIZEOF_BN_MONT_CTX :: nat where
  "SIZEOF_BN_MONT_CTX = 64"

definition BN_MONT_CTX_new :: "libc_malloc \<Rightarrow> mont_ctx option" where
  "BN_MONT_CTX_new libc =
     (case heap_malloc libc SIZEOF_BN_MONT_CTX of
        None \<Rightarrow> None
      | Some _ \<Rightarrow> Some \<lparr>mont_RR = BN_init, mont_N = BN_init, mont_n0 = (0, 0)\<rparr>)"

text \<open>\<open>same\<close> says that the two contexts are the same object; the result may be \<open>NULL\<close> with a part copied.\<close>

definition BN_MONT_CTX_copy :: "libc_malloc \<Rightarrow> bool \<Rightarrow> mont_ctx \<Rightarrow> mont_ctx \<Rightarrow> bool \<times> mont_ctx" where
  "BN_MONT_CTX_copy libc same to frm =
     (if same then (True, to)
      else
        (case BN_copy libc (mont_RR to) (mont_RR frm) of
           (False, rr) \<Rightarrow> (False, to\<lparr>mont_RR := rr\<rparr>)
         | (True, rr) \<Rightarrow>
             (case BN_copy libc (mont_N to) (mont_N frm) of
                (False, n) \<Rightarrow> (False, to\<lparr>mont_RR := rr, mont_N := n\<rparr>)
              | (True, n) \<Rightarrow> (True, to\<lparr>mont_RR := rr, mont_N := n, mont_n0 := mont_n0 frm\<rparr>))))"

section \<open>The inverse of the modulus modulo a word\<close>

definition LG_LITTLE_R :: nat where
  "LG_LITTLE_R = 64"

fun neg_inv_loop :: "u64 \<Rightarrow> nat \<Rightarrow> u64 \<Rightarrow> u64 \<Rightarrow> u64" where
  "neg_inv_loop beta 0 u v = v"
| "neg_inv_loop beta (Suc i) u v =
     (let alpha = push_bit (LG_LITTLE_R - 1) 1;
          u_is_odd = 0 - (u AND 1);
          beta_if_u_is_odd = beta AND u_is_odd;
          u = drop_bit 1 (u XOR beta_if_u_is_odd) + (u AND beta_if_u_is_odd);
          alpha_if_u_is_odd = alpha AND u_is_odd;
          v = drop_bit 1 v + alpha_if_u_is_odd
      in neg_inv_loop beta i u v)"

definition bn_neg_inv_mod_r_u64 :: "u64 \<Rightarrow> u64" where
  "bn_neg_inv_mod_r_u64 n = neg_inv_loop n LG_LITTLE_R 1 0"

definition bn_mont_n0 :: "bignum \<Rightarrow> u64" where
  "bn_mont_n0 n = bn_neg_inv_mod_r_u64 (bn_d n ! 0)"

definition bn_mont_ctx_set_N_and_n0 :: "libc_malloc \<Rightarrow> mont_ctx \<Rightarrow> bignum \<Rightarrow> bool \<times> mont_ctx" where
  "bn_mont_ctx_set_N_and_n0 libc mont md =
     (if BN_is_zero md then (False, mont)
      else if \<not> BN_is_odd md then (False, mont)
      else if BN_is_negative md then (False, mont)
      else
        (case BN_copy libc (mont_N mont) md of
           (False, n) \<Rightarrow> (False, mont\<lparr>mont_N := n\<rparr>)
         | (True, n) \<Rightarrow>
             (let n = bn_set_minimal_width n in (True, mont\<lparr>mont_N := n, mont_n0 := (bn_mont_n0 n, 0)\<rparr>))))"

definition bn_mod_exp_base_2_consttime :: "ctx_env \<Rightarrow> bignum \<Rightarrow> nat \<Rightarrow> bignum \<Rightarrow> bn_ctx \<Rightarrow> bool \<times> bignum \<times> bn_ctx" where
  "bn_mod_exp_base_2_consttime env r p n ctx =
     (let r = BN_zero r; n_bits = BN_num_bits n
      in if n_bits = 1 then (True, r, ctx)
         else
           (case BN_set_bit (env_libc env) r (int n_bits - 1) of
              (False, r) \<Rightarrow> (False, r, ctx)
            | (True, r) \<Rightarrow> bn_mod_lshift_consttime env r r (int p - (int n_bits - 1)) n ctx))"

definition BN_MONT_CTX_new_consttime :: "ctx_env \<Rightarrow> bignum \<Rightarrow> bn_ctx \<Rightarrow> mont_ctx option \<times> bn_ctx" where
  "BN_MONT_CTX_new_consttime env md ctx =
     (case BN_MONT_CTX_new (env_libc env) of
        None \<Rightarrow> (None, ctx)
      | Some mont \<Rightarrow>
          (case bn_mont_ctx_set_N_and_n0 (env_libc env) mont md of
             (False, mont) \<Rightarrow> (None, ctx)
           | (True, mont) \<Rightarrow>
               (let lgBigR = bn_width (mont_N mont) * BN_BITS2
                in case bn_mod_exp_base_2_consttime env (mont_RR mont) (lgBigR * 2) (mont_N mont) ctx of
                     (False, rr, ctx) \<Rightarrow> (None, ctx)
                   | (True, rr, ctx) \<Rightarrow>
                       (case bn_resize_words (env_libc env) rr (bn_width (mont_N mont)) of
                          (False, rr) \<Rightarrow> (None, ctx)
                        | (True, rr) \<Rightarrow> (Some (mont\<lparr>mont_RR := rr\<rparr>), ctx)))))"

section \<open>Reduction\<close>

text \<open>
  The loop of \<open>bn_from_montgomery_in_place\<close>: \<open>i\<close> words are done, \<open>k\<close> are left. The function returns the words
  of the result and the array \<open>a\<close>, which it uses up.
\<close>

fun mont_loop :: "words \<Rightarrow> nat \<Rightarrow> u64 \<Rightarrow> nat \<Rightarrow> nat \<Rightarrow> words \<Rightarrow> u64 \<Rightarrow> words \<times> u64" where
  "mont_loop n num_n n0 i 0 a carry = (a, carry)"
| "mont_loop n num_n n0 i (Suc k) a carry =
     (case bn_mul_add_words (drop i a) n num_n (a ! i * n0) of
        (s, v) \<Rightarrow>
          (let a = mem_write a i s;
               v = v + (carry + a ! (i + num_n));
               carry = carry OR of_bool (v \<noteq> a ! (i + num_n));
               carry = carry AND of_bool (v \<le> a ! (i + num_n));
               a = a[i + num_n := v]
           in mont_loop n num_n n0 (Suc i) k a carry))"

definition bn_from_montgomery_in_place :: "nat \<Rightarrow> words \<Rightarrow> nat \<Rightarrow> mont_ctx \<Rightarrow> (words \<times> words) option" where
  "bn_from_montgomery_in_place num_r a num_a mont =
     (let n = bn_d (mont_N mont); num_n = bn_width (mont_N mont)
      in if num_r \<noteq> num_n \<or> num_a \<noteq> 2 * num_n then None
         else
           (case mont_loop n num_n (fst (mont_n0 mont)) 0 num_n a 0 of
              (a, carry) \<Rightarrow> Some (fst (bn_reduce_once (drop num_n a) carry n num_n), a)))"

text \<open>The two objects of \<open>BN_from_montgomery_word\<close>: the result and the number that it reduces, which is used up.\<close>

definition BN_from_montgomery_word :: "libc_malloc \<Rightarrow> bignum \<Rightarrow> bignum \<Rightarrow> mont_ctx \<Rightarrow> bool \<times> bignum \<times> bignum" where
  "BN_from_montgomery_word libc ret r mont =
     (if bn_neg r then (False, ret, r)
      else
        (let n = mont_N mont
         in if bn_width n = 0 then (True, ret\<lparr>bn_width := 0\<rparr>, r)
            else
              (case bn_resize_words libc r (2 * bn_width n) of
                 (False, r) \<Rightarrow> (False, ret, r)
               | (True, r) \<Rightarrow>
                   (case bn_wexpand libc ret (bn_width n) of
                      (False, ret) \<Rightarrow> (False, ret, r)
                    | (True, ret) \<Rightarrow>
                        (let ret = ret\<lparr>bn_width := bn_width n, bn_neg := False\<rparr>
                         in case bn_from_montgomery_in_place (bn_width ret) (bn_d r) (bn_width r) mont of
                              None \<Rightarrow> (False, ret, r)
                            | Some (ws, a) \<Rightarrow> (True, ret\<lparr>bn_d := mem_write (bn_d ret) 0 ws\<rparr>, r\<lparr>bn_d := a\<rparr>))))))"

definition BN_from_montgomery :: "ctx_env \<Rightarrow> bignum \<Rightarrow> bignum \<Rightarrow> mont_ctx \<Rightarrow> bn_ctx \<Rightarrow> bool \<times> bignum \<times> bn_ctx" where
  "BN_from_montgomery env r a mont ctx =
     (case BN_CTX_get env (BN_CTX_start env ctx) of
        (None, ctx) \<Rightarrow> (False, r, BN_CTX_end ctx)
      | (Some i, ctx) \<Rightarrow>
          (case BN_copy (env_libc env) (ctx_bn ctx i) a of
             (False, t) \<Rightarrow> (False, r, BN_CTX_end (ctx_put ctx i t))
           | (True, t) \<Rightarrow>
               (case BN_from_montgomery_word (env_libc env) r t mont of
                  (ret, r, t) \<Rightarrow> (ret, r, BN_CTX_end (ctx_put ctx i t)))))"

definition bn_one_to_montgomery :: "ctx_env \<Rightarrow> bignum \<Rightarrow> mont_ctx \<Rightarrow> bn_ctx \<Rightarrow> bool \<times> bignum \<times> bn_ctx" where
  "bn_one_to_montgomery env r mont ctx =
     (let n = mont_N mont
      in if bn_width n > 0 \<and> drop_bit (BN_BITS2 - 1) (bn_d n ! (bn_width n - 1)) \<noteq> 0
         then
           (case bn_wexpand (env_libc env) r (bn_width n) of
              (False, r) \<Rightarrow> (False, r, ctx)
            | (True, r) \<Rightarrow>
                (True, r\<lparr>bn_d := mem_write (bn_d r) 0 ((0 - bn_d n ! 0) # map NOT (drop 1 (bn_words n))),
                         bn_width := bn_width n, bn_neg := False\<rparr>, ctx))
         else BN_from_montgomery env r (mont_RR mont) mont ctx)"

section \<open>Multiplication\<close>

text \<open>\<open>same\<close> says that the two factors are the same object.\<close>

definition bn_mod_mul_montgomery_fallback ::
    "ctx_env \<Rightarrow> bool \<Rightarrow> bignum \<Rightarrow> bignum \<Rightarrow> bignum \<Rightarrow> mont_ctx \<Rightarrow> bn_ctx \<Rightarrow> bool \<times> bignum \<times> bn_ctx" where
  "bn_mod_mul_montgomery_fallback env same r a b mont ctx =
     (case BN_CTX_get env (BN_CTX_start env ctx) of
        (None, ctx) \<Rightarrow> (False, r, BN_CTX_end ctx)
      | (Some i, ctx) \<Rightarrow>
          (case (if same then bn_sqr_consttime env False (ctx_bn ctx i) a ctx
                 else bn_mul_consttime env False (ctx_bn ctx i) a b ctx) of
             (False, tmp, ctx) \<Rightarrow> (False, r, BN_CTX_end (ctx_put ctx i tmp))
           | (True, tmp, ctx) \<Rightarrow>
               (case BN_from_montgomery_word (env_libc env) r tmp mont of
                  (ret, r, tmp) \<Rightarrow> (ret, r, BN_CTX_end (ctx_put ctx i tmp)))))"

definition BN_mod_mul_montgomery ::
    "ctx_env \<Rightarrow> bool \<Rightarrow> bignum \<Rightarrow> bignum \<Rightarrow> bignum \<Rightarrow> mont_ctx \<Rightarrow> bn_ctx \<Rightarrow> bool \<times> bignum \<times> bn_ctx" where
  "BN_mod_mul_montgomery env same r a b mont ctx =
     (if bn_neg a \<or> bn_neg b then (False, r, ctx) else bn_mod_mul_montgomery_fallback env same r a b mont ctx)"

definition BN_to_montgomery :: "ctx_env \<Rightarrow> bignum \<Rightarrow> bignum \<Rightarrow> mont_ctx \<Rightarrow> bn_ctx \<Rightarrow> bool \<times> bignum \<times> bn_ctx" where
  "BN_to_montgomery env ret a mont ctx = BN_mod_mul_montgomery env False ret a (mont_RR mont) mont ctx"

definition bn_less_than_montgomery_R :: "bignum \<Rightarrow> mont_ctx \<Rightarrow> bool" where
  "bn_less_than_montgomery_R bn mont \<longleftrightarrow> \<not> BN_is_negative bn \<and> bn_fits_in_words bn (bn_width (mont_N mont))"

section \<open>Small numbers\<close>

text \<open>\<open>None\<close> is \<open>abort\<close>.\<close>

definition bn_mod_mul_montgomery_small :: "bool \<Rightarrow> words \<Rightarrow> words \<Rightarrow> nat \<Rightarrow> mont_ctx \<Rightarrow> words option" where
  "bn_mod_mul_montgomery_small same a b num_words mont =
     (if num_words \<noteq> bn_width (mont_N mont) \<or> num_words > BN_SMALL_MAX_WORDS then None
      else
        (case (if same then bn_sqr_small (2 * num_words) a num_words else bn_mul_small (2 * num_words) a num_words b num_words) of
           None \<Rightarrow> None
         | Some tmp \<Rightarrow> map_option fst (bn_from_montgomery_in_place num_words tmp (2 * num_words) mont)))"

definition bn_to_montgomery_small :: "words \<Rightarrow> nat \<Rightarrow> mont_ctx \<Rightarrow> words option" where
  "bn_to_montgomery_small a num_words mont = bn_mod_mul_montgomery_small False a (bn_d (mont_RR mont)) num_words mont"

definition bn_from_montgomery_small :: "words \<Rightarrow> nat \<Rightarrow> mont_ctx \<Rightarrow> words option" where
  "bn_from_montgomery_small a num_words mont =
     (if num_words \<noteq> bn_width (mont_N mont) \<or> num_words > BN_SMALL_MAX_WORDS then None
      else map_option fst
             (bn_from_montgomery_in_place num_words (take num_words a @ replicate num_words 0) (2 * num_words) mont))"

end
