(* ===== verification/BnMont_Spec.thy ===== *)
theory BnMont_Spec
  imports BnMont BnDivWord_Spec
begin

text \<open>
  Montgomery arithmetic is arithmetic modulo \<open>N\<close>: with \<open>R = 2 ^ (64 * width)\<close>, a reduction of \<open>A < N * R\<close>
  gives the number \<open>x < N\<close> with \<open>x * R = A\<close> modulo \<open>N\<close>, and going to the Montgomery form and back is the
  identity on the residues.
\<close>

unbundle bit_operations_syntax

section \<open>The inverse modulo a word\<close>

lemma xor_and_sum: "((x :: nat) XOR y) + 2 * (x AND y) = x + y"
proof (induction x arbitrary: y rule: less_induct)
  case (less x)
  show ?case
  proof (cases "x = 0")
    case False
    then have ih: "((x div 2) XOR (y div 2)) + 2 * ((x div 2) AND (y div 2)) = x div 2 + y div 2" by (intro less.IH) simp
    have x: "x XOR y = of_bool (odd x \<noteq> odd y) + 2 * ((x div 2) XOR (y div 2))" by (rule xor_nat_rec)
    have a: "x AND y = of_bool (odd x \<and> odd y) + 2 * ((x div 2) AND (y div 2))" by (rule and_nat_rec)
    have "(x XOR y) + 2 * (x AND y) =
        of_bool (odd x \<noteq> odd y) + 2 * of_bool (odd x \<and> odd y) + 2 * (((x div 2) XOR (y div 2)) + 2 * ((x div 2) AND (y div 2)))"
      unfolding x a by simp
    also have "\<dots> = of_bool (odd x \<noteq> odd y) + 2 * of_bool (odd x \<and> odd y) + 2 * (x div 2) + 2 * (y div 2)"
      unfolding ih by simp
    also have "\<dots> = x + y" by (cases "odd x"; cases "odd y") (simp_all add: odd_two_times_div_two_nat)
    finally show ?thesis .
  qed simp
qed

text \<open>The average of two words, without overflow.\<close>

lemma dietz_average: "unat (drop_bit 1 (x XOR y) + (x AND y) :: u64) = (unat x + unat y) div 2"
proof -
  have s: "(unat x XOR unat y) + 2 * (unat x AND unat y) = unat x + unat y" by (rule xor_and_sum)
  have d: "unat (drop_bit 1 (x XOR y)) = (unat x XOR unat y) div 2"
    unfolding unat_drop_bit_eq unfolding drop_bit_eq_div by (simp add: unsigned_xor_eq)
  have a: "unat (x AND y) = (unat x AND unat y)" by (rule unsigned_and_eq)
  have e: "(unat x XOR unat y) div 2 + (unat x AND unat y) = (unat x + unat y) div 2" unfolding s [symmetric] by simp
  have "(unat x + unat y) div 2 < LIMB" using unat_limb [of x] unat_limb [of y] by (simp del: unat_limb)
  then show ?thesis unfolding unat_word_ariths d a e by (simp add: LIMB_def)
qed

lemma mask_and: "x AND (0 - (u AND 1)) = (if odd u then x else (0 :: u64))"
proof (cases "odd u")
  case True
  then have "u AND 1 = 1" by (simp add: and_one_eq odd_iff_mod_2_eq_one)
  then show ?thesis using True by simp
next
  case False
  then have "u AND 1 = 0" by (simp add: and_one_eq even_iff_mod_2_eq_zero)
  then show ?thesis using False by simp
qed

lemma odd_unat: "odd (unat (u :: u64)) \<longleftrightarrow> odd u"
  by (simp add: bit_unsigned_iff flip: bit_0)

lemma neg_inv_loop_value:
  "odd (unat n) \<Longrightarrow> i \<le> 64 \<Longrightarrow> unat u \<le> unat n \<Longrightarrow> unat u * LIMB = unat v * unat n + 2 ^ i \<Longrightarrow>
   \<exists>u'. u' * LIMB = unat (neg_inv_loop n i u v) * unat n + 1"
proof (induction i arbitrary: u v)
  case 0
  then show ?case by auto
next
  case (Suc i)
  let ?U = "unat u" and ?V = "unat v" and ?N = "unat n"
  have "even (?V * ?N)" using Suc.prems(4) by (metis LIMB_def dvd_add_left_iff dvd_mult dvd_triv_left power_Suc even_numeral even_power zero_less_numeral)
  then have ev: "even ?V" using Suc.prems(1) by simp
  let ?u = "drop_bit 1 (u XOR (if odd u then n else 0)) + (u AND (if odd u then n else 0))"
  let ?v = "drop_bit 1 v + (if odd u then push_bit 63 1 else 0)"
  have u: "unat ?u = (?U + (if odd ?U then ?N else 0)) div 2"
    unfolding dietz_average by (simp add: odd_unat)
  have hv: "unat (drop_bit 1 v) = ?V div 2" unfolding unat_drop_bit_eq unfolding drop_bit_eq_div by simp
  have p63: "unat (push_bit 63 1 :: u64) = 2 ^ 63" by (simp add: push_bit_eq_mult)
  have "?V div 2 + 2 ^ 63 < LIMB" using unat_limb [of v] by (simp add: LIMB_def del: unat_limb)
  then have v: "unat ?v = ?V div 2 + (if odd ?U then 2 ^ 63 else 0)"
    using hv p63 by (auto simp: unat_word_ariths LIMB_def odd_unat)
  have half: "LIMB = 2 * 2 ^ 63" by (simp add: LIMB_def)
  obtain w where w: "?V = 2 * w" using ev by blast
  have "(?U + ?N) div 2 \<le> ?N" "?U div 2 \<le> ?N" using Suc.prems(3) by linarith+
  then have le: "unat ?u \<le> ?N" unfolding u by simp
  have eq: "unat ?u * LIMB = unat ?v * ?N + 2 ^ i"
  proof (cases "odd ?U")
    case False
    then obtain t where t: "?U = 2 * t" by blast
    have "2 * (t * LIMB) = 2 * (w * ?N + 2 ^ i)" using Suc.prems(4) unfolding t w by simp
    then have "t * LIMB = w * ?N + 2 ^ i" by simp
    then show ?thesis using False unfolding u v t w by simp
  next
    case True
    then obtain t where t: "?U + ?N = 2 * t" using Suc.prems(1) by (metis even_add evenE)
    have "2 * (t * LIMB) = ?U * LIMB + ?N * LIMB" using t by (simp add: add_mult_distrib [symmetric])
    also have "\<dots> = 2 * ((w + 2 ^ 63) * ?N + 2 ^ i)" unfolding Suc.prems(4) w by (simp add: half algebra_simps)
    finally have "t * LIMB = (w + 2 ^ 63) * ?N + 2 ^ i" by simp
    moreover have "(?U + ?N) div 2 = t" using t by simp
    ultimately show ?thesis using True unfolding u v w by simp
  qed
  have "neg_inv_loop n (Suc i) u v = neg_inv_loop n i ?u ?v"
    unfolding neg_inv_loop.simps Let_def mask_and LG_LITTLE_R_def by (simp add: if_distrib)
  then show ?case using Suc.IH [OF Suc.prems(1) _ le eq] Suc.prems(2) by simp
qed

theorem neg_inv_value:
  assumes "odd (unat n)"
  shows "LIMB dvd unat (bn_neg_inv_mod_r_u64 n) * unat n + 1"
proof -
  have "unat (1 :: u64) \<le> unat n" using assms by (cases "unat n") auto
  then have "\<exists>u'. u' * LIMB = unat (neg_inv_loop n 64 1 0) * unat n + 1"
    using assms by (intro neg_inv_loop_value) (simp_all add: LIMB_def)
  then obtain u' where "u' * LIMB = unat (bn_neg_inv_mod_r_u64 n) * unat n + 1"
    by (auto simp: bn_neg_inv_mod_r_u64_def LG_LITTLE_R_def)
  then show ?thesis by (metis dvd_triv_right)
qed

section \<open>Reduction\<close>

text \<open>The word above the product, with the carry in and out.\<close>

lemma LIMB_word: "2 ^ LENGTH(64) = LIMB"
  by (simp add: LIMB_def)

lemma mont_carry_step:
  fixes v old carry :: u64
  assumes "unat carry \<le> 1"
  defines "v' \<equiv> v + (carry + old)"
  defines "carry' \<equiv> (carry OR of_bool (v' \<noteq> old)) AND of_bool (v' \<le> old)"
  shows "unat v' + LIMB * unat carry' = unat v + unat carry + unat old" and "unat carry' \<le> 1"
proof -
  let ?s = "unat v + unat carry + unat old"
  have lv: "unat v < LIMB" "unat old < LIMB" by simp_all
  have v': "unat v' = ?s mod LIMB" unfolding v'_def unat_word_ariths LIMB_word by (simp only: mod_add_right_eq add.assoc)
  have c: "carry = 0 \<or> carry = 1" using assms(1) bit_cases [OF assms(1)] by auto
  have cv: "carry' = of_bool (LIMB \<le> ?s)"
  proof (cases "?s < LIMB")
    case True
    then have e: "unat v' = ?s" unfolding v' by simp
    then have "v' = old \<longleftrightarrow> unat v = 0 \<and> unat carry = 0" "v' \<le> old \<longleftrightarrow> unat v = 0 \<and> unat carry = 0"
      by (auto simp: word_unat_eq_iff word_le_nat_alt)
    then show ?thesis using True c by (auto simp: carry'_def unat_eq_0)
  next
    case False
    have "?s - LIMB < LIMB" "LIMB \<le> ?s" using lv assms(1) False by linarith+
    then have e: "unat v' + LIMB = ?s" unfolding v' by (simp add: le_mod_geq)
    have "unat v' \<le> unat old" "unat v' = unat old \<longrightarrow> unat carry \<noteq> 0" using e lv assms(1) by linarith+
    then have "v' \<le> old" "v' = old \<longrightarrow> carry = 1"
      using c by (auto simp: word_le_nat_alt)
    then show ?thesis using False c by (auto simp: carry'_def)
  qed
  show "unat carry' \<le> 1" unfolding cv by simp
  show "unat v' + LIMB * unat carry' = ?s"
  proof (cases "?s < LIMB")
    case True
    then show ?thesis unfolding cv v' by simp
  next
    case False
    have "?s - LIMB < LIMB" "LIMB \<le> ?s" using lv assms(1) False by linarith+
    then show ?thesis unfolding cv v' by (simp add: le_mod_geq)
  qed
qed

lemma split_at_words:
  assumes "i + nn < length a"
  shows "a = take i a @ take nn (drop i a) @ a ! (i + nn) # drop (Suc (i + nn)) a"
proof -
  have "drop nn (drop i a) = a ! (i + nn) # drop (Suc (i + nn)) a" using assms by (simp add: Cons_nth_drop_Suc add.commute)
  then have "drop i a = take nn (drop i a) @ a ! (i + nn) # drop (Suc (i + nn)) a" by (metis append_take_drop_id)
  then show ?thesis by (metis append_take_drop_id)
qed

lemma mont_loop_value:
  assumes nn: "0 < nn" "nn \<le> length n" and n0: "LIMB dvd unat n0 * unat (n ! 0) + 1"
  shows "mont_loop n nn n0 i k a carry = (a', carry') \<Longrightarrow> i + k + nn \<le> length a \<Longrightarrow> take i a = replicate i 0 \<Longrightarrow> unat carry \<le> 1 \<Longrightarrow>
    length a' = length a \<and> take (i + k) a' = replicate (i + k) 0 \<and> drop (i + k + nn) a' = drop (i + k + nn) a \<and> unat carry' \<le> 1 \<and>
    (\<exists>Q < LIMB ^ k. wval a' + LIMB ^ (i + k + nn) * unat carry' = wval a + LIMB ^ (i + nn) * unat carry + LIMB ^ i * Q * wval (take nn n))"
proof (induction k arbitrary: i a carry)
  case 0
  then show ?case by simp
next
  case (Suc k)
  let ?N = "wval (take nn n)"
  define q where "q = a ! i * n0"
  obtain s v where m: "bn_mul_add_words (drop i a) n nn q = (s, v)" by fastforce
  have li: "i + nn < length a" "i < length a" "nn \<le> length (drop i a)" using Suc.prems(2) nn by simp_all
  from mul_add_words_value [OF m li(3) nn(2)]
  have mv: "length s = nn" "wval s + LIMB ^ nn * unat v = wval (take nn (drop i a)) + unat q * ?N" by simp_all
  define old where "old = a ! (i + nn)"
  let ?v = "v + (carry + old)" and ?c = "(carry OR of_bool (v + (carry + old) \<noteq> old)) AND of_bool (v + (carry + old) \<le> old)"
  note cs = mont_carry_step [OF Suc.prems(4), of v old]
  let ?a = "take i a @ s @ ?v # drop (Suc (i + nn)) a"
  have upd: "(mem_write a i s)[i + nn := ?v] = ?a"
  proof -
    have "mem_write a i s = take i a @ s @ drop (i + nn) a" using li mv(1) by (simp add: mem_write_at)
    moreover have "drop (i + nn) a = old # drop (Suc (i + nn)) a" using li(1) by (simp add: old_def Cons_nth_drop_Suc)
    ultimately show ?thesis using li mv(1) by (simp add: list_update_append)
  qed
  have nth_old: "mem_write a i s ! (i + nn) = old" using li mv(1) by (simp add: mem_write_at nth_append old_def)
  have run: "mont_loop n nn n0 (Suc i) k ?a ?c = (a', carry')"
    using Suc.prems(1) m unfolding mont_loop.simps q_def [symmetric] by (simp add: nth_old upd Let_def)
  have len: "length ?a = length a" using li mv(1) by simp
  have s0: "s \<noteq> []" using mv(1) nn by auto
  have hd0: "s ! 0 = 0"
  proof -
    obtain s1 ss where s: "s = s1 # ss" using s0 by (cases s) auto
    obtain n1 ns where n: "take nn n = n1 # ns" using nn by (cases n; cases nn) auto
    then have n1: "n ! 0 = n1" using nn by (cases n; cases nn) auto
    obtain x1 xs where x: "take nn (drop i a) = x1 # xs" using nn li(3) by (cases "take nn (drop i a)") auto
    then have x1: "a ! i = x1" using nn li by (metis nth_Cons_0 nth_drop nth_take add_0_right less_imp_le)
    have "LIMB dvd LIMB ^ nn * unat v" using nn by (simp add: dvd_power)
    then have "(wval s) mod LIMB = (wval s + LIMB ^ nn * unat v) mod LIMB" by (metis dvd_imp_mod_0 mod_add_right_eq add_0_right)
    also have "wval s + LIMB ^ nn * unat v = (unat x1 + unat q * unat n1) + LIMB * (wval xs + unat q * wval ns)"
      unfolding mv(2) x n by (simp add: algebra_simps)
    also have "\<dots> mod LIMB = (unat x1 + unat q * unat n1) mod LIMB" by (rule mod_mult_self2)
    also have "\<dots> = (unat x1 * (unat n0 * unat n1 + 1)) mod LIMB"
    proof -
      have q: "unat q = (unat x1 * unat n0) mod LIMB" unfolding q_def x1 unat_word_ariths LIMB_word ..
      have "(unat x1 + unat q * unat n1) mod LIMB = (unat x1 + (unat q * unat n1) mod LIMB) mod LIMB" by (rule mod_add_right_eq [symmetric])
      also have "(unat q * unat n1) mod LIMB = (unat x1 * unat n0 * unat n1) mod LIMB" unfolding q by (rule mod_mult_left_eq)
      also have "(unat x1 + (unat x1 * unat n0 * unat n1) mod LIMB) mod LIMB = (unat x1 + unat x1 * unat n0 * unat n1) mod LIMB"
        by (rule mod_add_right_eq)
      finally have "(unat x1 + unat q * unat n1) mod LIMB = (unat x1 + unat x1 * unat n0 * unat n1) mod LIMB" .
      then show ?thesis by (simp add: algebra_simps)
    qed
    also have "\<dots> = 0" using n0 unfolding n1 by (metis dvd_mult dvd_imp_mod_0)
    finally have "unat s1 = 0" unfolding s by simp
    then show ?thesis by (simp add: s unat_eq_0)
  qed
  have zeros: "take (Suc i) ?a = replicate (Suc i) 0"
  proof -
    have "take (Suc i) ?a = take i a @ [s ! 0]" using s0 li by (cases s) simp_all
    then show ?thesis using hd0 Suc.prems(3) by (simp add: replicate_append_same)
  qed
  have step: "wval ?a + LIMB ^ (Suc i + nn) * unat ?c = wval a + LIMB ^ (i + nn) * unat carry + LIMB ^ i * unat q * ?N"
  proof -
    let ?P = "wval (take i a)" and ?X = "wval (take nn (drop i a))" and ?S = "wval (drop (Suc (i + nn)) a)"
    have "length (take i a) = i" using li by simp
    then have wa: "wval ?a = ?P + LIMB ^ i * (wval s + LIMB ^ nn * (unat ?v + LIMB * ?S))" using mv(1) by (simp add: wval_append)
    have "wval a = ?P + LIMB ^ i * (?X + LIMB ^ nn * (unat old + LIMB * ?S))"
      using li by (subst split_at_words [OF li(1)]) (simp add: wval_append old_def)
    moreover have "LIMB ^ (Suc i + nn) * unat ?c = LIMB ^ i * (LIMB ^ nn * (LIMB * unat ?c))" by (simp add: power_add ac_simps)
    moreover have "LIMB ^ (i + nn) * unat carry = LIMB ^ i * (LIMB ^ nn * unat carry)" by (simp add: power_add ac_simps)
    moreover have "LIMB ^ i * unat q * ?N = LIMB ^ i * (unat q * ?N)" by (simp add: ac_simps)
    moreover have "wval s + LIMB ^ nn * (unat ?v + LIMB * ?S) + LIMB ^ nn * (LIMB * unat ?c) =
        ?X + LIMB ^ nn * (unat old + LIMB * ?S) + LIMB ^ nn * unat carry + unat q * ?N"
    proof -
      have "wval s + LIMB ^ nn * (unat ?v + LIMB * ?S) + LIMB ^ nn * (LIMB * unat ?c) =
          wval s + LIMB ^ nn * (unat ?v + LIMB * unat ?c) + LIMB ^ nn * (LIMB * ?S)" by (simp add: distrib_left)
      also have "\<dots> = (wval s + LIMB ^ nn * unat v) + LIMB ^ nn * (unat carry + unat old) + LIMB ^ nn * (LIMB * ?S)"
        unfolding cs(1) by (simp add: distrib_left)
      finally show ?thesis unfolding mv(2) by (simp add: distrib_left)
    qed
    ultimately show ?thesis unfolding wa by (simp only: distrib_left [symmetric] add.assoc)
  qed
  have "Suc i + k + nn \<le> length ?a" using Suc.prems(2) len by simp
  from Suc.IH [OF run this zeros cs(2)] obtain Q where ih: "length a' = length ?a" "take (Suc i + k) a' = replicate (Suc i + k) 0"
    "drop (Suc i + k + nn) a' = drop (Suc i + k + nn) ?a" "unat carry' \<le> 1" "Q < LIMB ^ k"
    "wval a' + LIMB ^ (Suc i + k + nn) * unat carry' = wval ?a + LIMB ^ (Suc i + nn) * unat ?c + LIMB ^ Suc i * Q * ?N"
    by blast
  let ?Q = "unat q + LIMB * Q"
  have "LIMB * (Q + 1) \<le> LIMB * LIMB ^ k" using ih(5) by (intro mult_le_mono2) simp
  then have "?Q < LIMB ^ Suc k" using unat_limb [of q] by (simp del: unat_limb)
  moreover have "wval a' + LIMB ^ (i + Suc k + nn) * unat carry' = wval a + LIMB ^ (i + nn) * unat carry + LIMB ^ i * ?Q * ?N"
    using ih(6) step by (simp add: algebra_simps)
  moreover have "drop (Suc i + k + nn) ?a = drop (i + Suc k + nn) a" using li mv(1) by (simp add: ac_simps)
  ultimately show ?case using ih(1-4) len by auto
qed

section \<open>Contexts\<close>

definition mont_R :: "mont_ctx \<Rightarrow> nat" where
  "mont_R mont = LIMB ^ bn_width (mont_N mont)"

text \<open>An odd modulus, with the negative of its inverse modulo a word.\<close>

definition mont_law :: "mont_ctx \<Rightarrow> bool" where
  "mont_law mont \<longleftrightarrow>
     bn_wf (mont_N mont) \<and> odd (bn_mag (mont_N mont)) \<and> \<not> bn_neg (mont_N mont) \<and>
     LIMB dvd unat (fst (mont_n0 mont)) * unat (bn_d (mont_N mont) ! 0) + 1"

text \<open>\<open>x\<close> is \<open>a / R\<close> modulo \<open>N\<close>.\<close>

definition redc :: "mont_ctx \<Rightarrow> nat \<Rightarrow> nat \<Rightarrow> bool" where
  "redc mont a x \<longleftrightarrow> x < bn_mag (mont_N mont) \<and> (x * mont_R mont) mod bn_mag (mont_N mont) = a mod bn_mag (mont_N mont)"

lemma mont_width: "mont_law mont \<Longrightarrow> 0 < bn_width (mont_N mont)"
  by (auto simp: mont_law_def bn_mag_def bn_words_def elim: oddE intro: ccontr)

lemma reduce_once_take: "bn_reduce_once a carry m n = bn_reduce_once (take n a) carry (take n m) n"
  by (simp add: bn_reduce_once_def bn_sub_words_def bn_select_words_def)

theorem in_place_value:
  assumes mont: "mont_law mont" and w: "w = bn_width (mont_N mont)" and len: "2 * w \<le> length a"
    and lt: "wval (take (2 * w) a) < bn_mag (mont_N mont) * mont_R mont"
  shows "\<exists>ws a'. bn_from_montgomery_in_place w a (2 * w) mont = Some (ws, a') \<and> length ws = w \<and> length a' = length a \<and>
    redc mont (wval (take (2 * w) a)) (wval ws)"
proof -
  let ?n = "bn_d (mont_N mont)" and ?N = "bn_mag (mont_N mont)" and ?A = "wval (take (2 * w) a)"
  have pos: "0 < w" using mont_width [OF mont] w by simp
  have nl: "w \<le> length ?n" and N: "wval (take w ?n) = ?N" using mont by (simp_all add: mont_law_def bn_wf_def w bn_mag_def bn_words_def)
  have n0: "LIMB dvd unat (fst (mont_n0 mont)) * unat (?n ! 0) + 1" using mont by (simp add: mont_law_def)
  obtain a' carry where l: "mont_loop ?n w (fst (mont_n0 mont)) 0 w a 0 = (a', carry)" by fastforce
  have "0 + w + w \<le> length a" "take 0 a = replicate 0 0" "unat (0 :: u64) \<le> 1" using len by simp_all
  from mont_loop_value [OF pos nl n0 l this] obtain Q where v: "length a' = length a" "take w a' = replicate w 0"
    "drop (w + w) a' = drop (w + w) a" "unat carry \<le> 1" "Q < LIMB ^ w" "wval a' + LIMB ^ (w + w) * unat carry = wval a + Q * ?N"
    unfolding N by auto
  define x where "x = take w (drop w a')"
  have lx: "length x = w" using v(1) len by (simp add: x_def)
  have two: "take (2 * w) a' = replicate w 0 @ x"
    unfolding mult_2 take_add by (simp add: v(2) x_def)
  have "wval a' = wval (take (2 * w) a') + LIMB ^ (2 * w) * wval (drop (2 * w) a')" "wval a = ?A + LIMB ^ (2 * w) * wval (drop (2 * w) a)"
    using wval_split [of a' "2 * w"] wval_split [of a "2 * w"] len v(1) by (simp_all add: min_absorb1)
  then have "wval (take (2 * w) a') + LIMB ^ (2 * w) * unat carry = ?A + Q * ?N" using v(3,6) by (simp add: mult_2)
  then have eq: "mont_R mont * (wval x + LIMB ^ w * unat carry) = ?A + Q * ?N"
    unfolding two by (simp add: wval_append mont_R_def w [symmetric] mult_2 power_add distrib_left mult.assoc)
  have "Q * ?N < mont_R mont * ?N" using v(5) mont by (auto simp: mont_R_def w mont_law_def elim: oddE)
  moreover have "mont_R mont * (2 * ?N) = ?N * mont_R mont + mont_R mont * ?N" by simp
  ultimately have "mont_R mont * (wval x + LIMB ^ w * unat carry) < mont_R mont * (2 * ?N)" using lt eq by linarith
  then have lt2: "wval x + LIMB ^ w * unat carry < 2 * wval (take w ?n)" unfolding N by simp
  obtain ws c where r: "bn_reduce_once x carry (take w ?n) w = (ws, c)" by fastforce
  have "length (take w ?n) = w" using nl by simp
  from reduce_once_value [OF r lx this v(4) lt2] have ws: "length ws = w" "wval ws = (wval x + LIMB ^ w * unat carry) mod ?N"
    unfolding N by simp_all
  have "bn_reduce_once (drop w a') carry ?n w = (ws, c)" using r unfolding x_def by (simp only: reduce_once_take [of "drop w a'"])
  then have run: "bn_from_montgomery_in_place w a (2 * w) mont = Some (ws, a')" using l by (simp add: bn_from_montgomery_in_place_def w [symmetric])
  have "(wval ws * mont_R mont) mod ?N = (mont_R mont * (wval x + LIMB ^ w * unat carry)) mod ?N"
    unfolding ws(2) by (simp only: mult.commute [of _ "mont_R mont"] mod_mult_right_eq)
  also have "\<dots> = ?A mod ?N" unfolding eq by simp
  finally have "redc mont ?A (wval ws)" using mont ws(2) by (auto simp: redc_def mont_law_def elim: oddE)
  then show ?thesis using run ws(1) v(1) by blast
qed

text \<open>There is one such number: \<open>R\<close> can be cancelled.\<close>

lemma cancel_R:
  assumes "mont_law mont" and "(x * mont_R mont) mod bn_mag (mont_N mont) = (y * mont_R mont) mod bn_mag (mont_N mont)"
  shows "x mod bn_mag (mont_N mont) = y mod bn_mag (mont_N mont)"
proof -
  let ?N = "bn_mag (mont_N mont)" and ?R = "mont_R mont"
  have "coprime (2 ^ 64) (int ?N)" using assms(1) unfolding coprime_power_left_iff by (simp add: mont_law_def)
  then have cop: "coprime (int ?N) (int ?R)" by (simp add: mont_R_def LIMB_def ac_simps)
  have "(int x * int ?R) mod int ?N = (int y * int ?R) mod int ?N" using assms(2) by (metis of_nat_mult zmod_int)
  then have "int ?N dvd (int x - int y) * int ?R" by (simp add: mod_eq_dvd_iff left_diff_distrib)
  then have "int ?N dvd int x - int y" using cop by (simp add: coprime_dvd_mult_left_iff)
  then have "int x mod int ?N = int y mod int ?N" by (simp add: mod_eq_dvd_iff)
  then show ?thesis by (metis of_nat_eq_iff zmod_int)
qed

lemma redc_unique:
  assumes "mont_law mont" and "redc mont a x" and "redc mont a y"
  shows "x = y"
  using cancel_R [OF assms(1), of x y] assms(2,3) by (simp add: redc_def)

section \<open>Reduction of big numbers\<close>

lemma redc_fits:
  assumes "mont_law mont" and "a < bn_mag (mont_N mont) * mont_R mont"
  shows "a < LIMB ^ (2 * bn_width (mont_N mont))"
proof -
  have "bn_mag (mont_N mont) \<le> mont_R mont" using bn_mag_less [of "mont_N mont"] assms(1) by (simp add: mont_law_def mont_R_def)
  then have "bn_mag (mont_N mont) * mont_R mont \<le> mont_R mont * mont_R mont" by (rule mult_le_mono1)
  then show ?thesis using assms(2) unfolding mont_R_def mult_2 power_add by linarith
qed

theorem from_word_value:
  assumes libc: "libc_wf libc" and mont: "mont_law mont" and wf: "bn_wf ret" "bn_wf r" and lt: "bn_mag r < bn_mag (mont_N mont) * mont_R mont"
    and e: "BN_from_montgomery_word libc ret r mont = (ok, s, t)"
  shows "ok \<Longrightarrow> redc mont (bn_mag r) (bn_mag s)" "ok \<Longrightarrow> \<not> bn_neg s" "ok \<Longrightarrow> bn_width s = bn_width (mont_N mont)" "bn_wf s" "bn_wf t"
    "bn_flags s = bn_flags ret" "bn_flags t = bn_flags r"
    "\<not> bn_neg r \<Longrightarrow> \<not> ok \<Longrightarrow> starved libc (2 * bn_width (mont_N mont)) \<or> bn_flags ret AND BN_FLG_STATIC_DATA \<noteq> 0 \<or> bn_flags r AND BN_FLG_STATIC_DATA \<noteq> 0"
proof -
  let ?w = "bn_width (mont_N mont)"
  let ?goal = "(ok \<longrightarrow> redc mont (bn_mag r) (bn_mag s) \<and> \<not> bn_neg s \<and> bn_width s = ?w) \<and> bn_wf s \<and> bn_wf t \<and>
    bn_flags s = bn_flags ret \<and> bn_flags t = bn_flags r \<and>
    (\<not> bn_neg r \<and> \<not> ok \<longrightarrow> starved libc (2 * ?w) \<or> bn_flags ret AND BN_FLG_STATIC_DATA \<noteq> 0 \<or> bn_flags r AND BN_FLG_STATIC_DATA \<noteq> 0)"
  have pos: "0 < ?w" by (rule mont_width [OF mont])
  obtain b1 r1 where rs: "bn_resize_words libc r (2 * ?w) = (b1, r1)" by fastforce
  obtain b2 s1 where we: "bn_wexpand libc ret ?w = (b2, s1)" by fastforce
  note rv = resize_value [OF libc wf(2) rs] and wv = wexpand [OF libc wf(1) we]
  have red: "BN_from_montgomery_word libc ret r mont =
      (if bn_neg r then (False, ret, r) else if \<not> b1 then (False, ret, r1) else if \<not> b2 then (False, s1, r1)
       else (case bn_from_montgomery_in_place ?w (bn_d r1) (bn_width r1) mont of
               None \<Rightarrow> (False, s1\<lparr>bn_width := ?w, bn_neg := False\<rparr>, r1)
             | Some (ws, a) \<Rightarrow> (True, s1\<lparr>bn_width := ?w, bn_neg := False, bn_d := mem_write (bn_d s1) 0 ws\<rparr>, r1\<lparr>bn_d := a\<rparr>)))"
    using pos by (simp add: BN_from_montgomery_word_def rs we Let_def split: bool.splits option.splits)
  have ?goal
  proof (cases "bn_neg r \<or> \<not> b1 \<or> \<not> b2")
    case True
    have "starved libc (2 * ?w) \<or> bn_flags r AND BN_FLG_STATIC_DATA \<noteq> 0" if "\<not> b1"
      using that rv(1) redc_fits [OF mont lt] not_roomy [of libc r "2 * ?w" "2 * ?w"] by (auto split: if_splits)
    moreover have "starved libc (2 * ?w) \<or> bn_flags ret AND BN_FLG_STATIC_DATA \<noteq> 0" if "\<not> b2"
      using that wv(1) not_roomy [of libc ret ?w "2 * ?w"] by simp
    ultimately show ?thesis using True e wf rv(2,6) wv(2,6,10) unfolding red by (auto split: if_splits)
  next
    case False
    then have r1: "bn_wf r1" "bn_width r1 = 2 * ?w" "bn_mag r1 = bn_mag r" "bn_flags r1 = bn_flags r" using rv by simp_all
    have A: "2 * ?w \<le> length (bn_d r1)" "wval (take (2 * ?w) (bn_d r1)) = bn_mag r"
      using r1 by (simp_all add: bn_wf_def bn_mag_def bn_words_def)
    from in_place_value [OF mont refl A(1)] obtain ws a where p: "bn_from_montgomery_in_place ?w (bn_d r1) (2 * ?w) mont = Some (ws, a)"
      "length ws = ?w" "length a = length (bn_d r1)" "redc mont (bn_mag r) (wval ws)" unfolding A(2) using lt by blast
    have st: "ok" "s = s1\<lparr>bn_width := ?w, bn_neg := False, bn_d := mem_write (bn_d s1) 0 ws\<rparr>" "t = r1\<lparr>bn_d := a\<rparr>"
      using e False unfolding red r1(2) p(1) by auto
    have "?w \<le> length (bn_d s1)" "length (bn_d s1) = bn_dmax s1" using wv False by simp_all
    then have "bn_words s = ws" "bn_wf s" using p(2) unfolding st by (simp_all add: bn_words_def mem_write_def bn_wf_def)
    moreover have "bn_wf t" using r1(1) p(3) unfolding st by (simp add: bn_wf_def)
    ultimately show ?thesis using p(4) st wv(6) r1(4) by (simp add: bn_mag_def)
  qed
  then show "ok \<Longrightarrow> redc mont (bn_mag r) (bn_mag s)" "ok \<Longrightarrow> \<not> bn_neg s" "ok \<Longrightarrow> bn_width s = ?w" "bn_wf s" "bn_wf t"
    "bn_flags s = bn_flags ret" "bn_flags t = bn_flags r"
    "\<not> bn_neg r \<Longrightarrow> \<not> ok \<Longrightarrow> starved libc (2 * ?w) \<or> bn_flags ret AND BN_FLG_STATIC_DATA \<noteq> 0 \<or> bn_flags r AND BN_FLG_STATIC_DATA \<noteq> 0"
    by blast+
qed

text \<open>The operations that work in a temporary: as \<open>returns\<close>, for a result that the relation \<open>P\<close> describes.\<close>

definition reduces :: "ctx_env \<Rightarrow> mont_ctx \<Rightarrow> nat \<Rightarrow> bignum \<Rightarrow> bn_ctx \<Rightarrow> bool \<times> bignum \<times> bn_ctx \<Rightarrow> nat \<Rightarrow> bool" where
  "reduces env mont a r ctx res lim \<longleftrightarrow>
     (case res of (ok, s, ctx') \<Rightarrow>
        bn_wf s \<and> bn_flags s = bn_flags r \<and> ctx_keeps ctx ctx' \<and> (\<not> ctx_error ctx' \<longrightarrow> ctx_used ctx' = ctx_used ctx) \<and>
        (ok \<longrightarrow> redc mont a (bn_mag s) \<and> \<not> bn_neg s \<and> bn_width s = bn_width (mont_N mont)) \<and>
        (\<not> ok \<longrightarrow> ctx_error ctx' \<or> starved (env_libc env) lim \<or> bn_flags r AND BN_FLG_STATIC_DATA \<noteq> 0))"

lemma put_keeps_or_error:
  assumes "ctx_keeps ctx c" and "ctx_used ctx \<le> i" and "\<not> ctx_error c \<Longrightarrow> i < ctx_used c" and "pooled bn"
  shows "ctx_keeps ctx (ctx_put c i bn)" "ctx_error (ctx_put c i bn) \<longleftrightarrow> ctx_error c"
proof -
  have "ctx_keeps ctx (ctx_put c i bn) \<and> (ctx_error (ctx_put c i bn) \<longleftrightarrow> ctx_error c)"
  proof (cases "ctx_error c")
    case True
    then show ?thesis by (simp add: ctx_keeps_def ctx_put_def)
  next
    case False
    then have w: "ctx_wf c" "i < ctx_used c" using assms(1,3) by (auto simp: ctx_keeps_def)
    then have "i < length (ctx_pool c)" using False by (simp add: ctx_wf_def)
    then show ?thesis using put_keeps(1) [OF assms(1,2) w(2) assms(4)] put_result(2) [OF w(1) False _ assms(4)] False by simp
  qed
  then show "ctx_keeps ctx (ctx_put c i bn)" "ctx_error (ctx_put c i bn) \<longleftrightarrow> ctx_error c" by blast+
qed

lemma returns_mono: "returns env r ctx res w m n l \<Longrightarrow> l \<le> l' \<Longrightarrow> returns env r ctx res w m n l'"
  using starved_mono [of "env_libc env" l l'] by (auto simp: returns_def computes_def)

lemma reduce_temporary:
  assumes libc: "libc_wf (env_libc env)" and ctx: "ctx_wf ctx" and mont: "mont_law mont" and r: "bn_wf r"
    and k: "ctx_keeps (BN_CTX_start env ctx) c" "ctx_used (BN_CTX_start env ctx) \<le> i" "\<not> ctx_error c \<Longrightarrow> i < ctx_used c"
    and t: "pooled t" "\<not> bn_neg t" "bn_mag t < bn_mag (mont_N mont) * mont_R mont" and lim: "2 * bn_width (mont_N mont) \<le> lim"
    and e: "BN_from_montgomery_word (env_libc env) r t mont = (ok, s, t')"
  shows "reduces env mont (bn_mag t) r ctx (ok, s, BN_CTX_end (ctx_put c i t')) lim"
proof -
  note v = from_word_value [OF libc mont r pooled_wf [OF t(1)] t(3) e]
  have "pooled t'" using t(1) v(5,7) by (simp add: pooled_def)
  note p = put_keeps_or_error(1) [OF k this]
  note b = balanced [OF libc ctx p]
  have "\<not> ok \<Longrightarrow> starved (env_libc env) lim \<or> bn_flags r AND BN_FLG_STATIC_DATA \<noteq> 0"
    using v(8) [OF t(2)] t(1) starved_mono [OF _ lim] by (auto simp: pooled_def)
  then show ?thesis using v(1-4,6) b by (auto simp: reduces_def)
qed

lemma reduce_failed:
  assumes libc: "libc_wf (env_libc env)" and ctx: "ctx_wf ctx" and r: "bn_wf r" and k: "ctx_keeps (BN_CTX_start env ctx) c"
    and "ctx_error c \<or> starved (env_libc env) lim"
  shows "reduces env mont a r ctx (False, r, BN_CTX_end c) lim"
  using balanced [OF libc ctx k] assms(3,5) by (auto simp: reduces_def)

theorem from_montgomery_value:
  assumes libc: "libc_wf (env_libc env)" and ctx: "ctx_wf ctx" and mont: "mont_law mont" and wf: "bn_wf r" "bn_wf a" and nn: "\<not> bn_neg a"
    and lt: "bn_mag a < bn_mag (mont_N mont) * mont_R mont"
  shows "reduces env mont (bn_mag a) r ctx (BN_from_montgomery env r a mont ctx) (2 * bn_width (mont_N mont) + bn_width a)"
proof -
  let ?c = "BN_CTX_start env ctx" and ?lim = "2 * bn_width (mont_N mont) + bn_width a"
  have c: "ctx_wf ?c" by (rule start_wf [OF libc ctx])
  obtain t c1 where g: "BN_CTX_get env ?c = (t, c1)" by fastforce
  note gk = get_keeps [OF libc c g]
  show ?thesis
  proof (cases t)
    case None
    then have "BN_from_montgomery env r a mont ctx = (False, r, BN_CTX_end c1)" using g by (simp add: BN_from_montgomery_def)
    moreover have "ctx_error c1" using gk(2) None by simp
    ultimately show ?thesis using reduce_failed [OF libc ctx wf(1) gk(1)] by simp
  next
    case (Some i)
    note i = gk(3-5) [OF Some]
    have u: "ctx_used ?c \<le> i" using i(1) by simp
    obtain b d where cp: "BN_copy (env_libc env) (ctx_bn c1 i) a = (b, d)" by fastforce
    note cv = copy_value [OF libc pooled_wf [OF i(3)] wf(2) cp]
    have p: "pooled d" using i(3) cv(2,7) by (simp add: pooled_def)
    show ?thesis
    proof (cases b)
      case True
      obtain ok s t' where w: "BN_from_montgomery_word (env_libc env) r d mont = (ok, s, t')" by (metis prod_cases3)
      have "BN_from_montgomery env r a mont ctx = (ok, s, BN_CTX_end (ctx_put c1 i t'))"
        using g Some cp True w by (simp add: BN_from_montgomery_def)
      moreover have "bn_mag d = bn_mag a" "\<not> bn_neg d" using cv(3,4) True nn by (simp_all add: bn_mag_def)
      ultimately show ?thesis
        using reduce_temporary [OF libc ctx mont wf(1) gk(1) u i(2) p _ _ _ w, of ?lim] lt by simp
    next
      case False
      then have "starved (env_libc env) ?lim" using cv(1) i(3) not_roomy [of "env_libc env" "ctx_bn c1 i" "bn_width a" ?lim] by (auto simp: pooled_def)
      moreover have "BN_from_montgomery env r a mont ctx = (False, r, BN_CTX_end (ctx_put c1 i d))"
        using g Some cp False by (simp add: BN_from_montgomery_def)
      ultimately show ?thesis using reduce_failed [OF libc ctx wf(1) put_keeps(1) [OF gk(1) u i(2) p]] by simp
    qed
  qed
qed

section \<open>Multiplication\<close>

theorem mod_mul_montgomery_value:
  assumes libc: "libc_wf (env_libc env)" and ctx: "ctx_wf ctx" and mont: "mont_law mont" and wf: "bn_wf r" "bn_wf a" "bn_wf b"
    and nn: "\<not> bn_neg a" "\<not> bn_neg b" and width: "bn_width a \<le> INT_MAX" "bn_width b \<le> INT_MAX" and same: "same \<Longrightarrow> b = a"
    and lt: "bn_mag a * bn_mag b < bn_mag (mont_N mont) * mont_R mont"
  shows "reduces env mont (bn_mag a * bn_mag b) r ctx (BN_mod_mul_montgomery env same r a b mont ctx)
    (2 * bn_width (mont_N mont) + 4 * (bn_width a + bn_width b))"
proof -
  let ?c = "BN_CTX_start env ctx" and ?lim = "2 * bn_width (mont_N mont) + 4 * (bn_width a + bn_width b)"
  have c: "ctx_wf ?c" by (rule start_wf [OF libc ctx])
  obtain t c1 where g: "BN_CTX_get env ?c = (t, c1)" by fastforce
  note gk = get_keeps [OF libc c g]
  note red = BN_mod_mul_montgomery_def bn_mod_mul_montgomery_fallback_def
  show ?thesis
  proof (cases t)
    case None
    then have "BN_mod_mul_montgomery env same r a b mont ctx = (False, r, BN_CTX_end c1)" using g nn by (simp add: red)
    moreover have "ctx_error c1" using gk(2) None by simp
    ultimately show ?thesis using reduce_failed [OF libc ctx wf(1) gk(1)] by simp
  next
    case (Some i)
    note i = gk(3-5) [OF Some]
    have u: "ctx_used ?c \<le> i" using i(1) by simp
    obtain k d c2 where m: "(if same then bn_sqr_consttime env False (ctx_bn c1 i) a c1
        else bn_mul_consttime env False (ctx_bn c1 i) a b c1) = (k, d, c2)"
      by (metis prod_cases3)
    have "returns env (ctx_bn c1 i) c1 (if same then bn_sqr_consttime env False (ctx_bn c1 i) a c1
        else bn_mul_consttime env False (ctx_bn c1 i) a b c1)
        (if same then 2 * bn_width a else if bn_width a = 0 \<or> bn_width b = 0 then 0 else bn_width a + bn_width b) (bn_mag a * bn_mag b) False ?lim"
    proof (cases same)
      case True
      show ?thesis using returns_mono [OF sqr_consttime_value [OF libc ctx_keeps_wf [OF gk(1)] pooled_wf [OF i(3)] wf(2), of False], of ?lim] True same by simp
    next
      case False
      show ?thesis
        using returns_mono [OF mul_consttime_value [OF libc ctx_keeps_wf [OF gk(1)] pooled_wf [OF i(3)] wf(2,3) width nn, of False], of ?lim] False by simp
    qed
    then have v: "bn_wf d" "bn_flags d = bn_flags (ctx_bn c1 i)" "ctx_keeps c1 c2" "k \<longrightarrow> bn_mag d = bn_mag a * bn_mag b \<and> \<not> bn_neg d"
      "\<not> k \<longrightarrow> ctx_error c2 \<or> starved (env_libc env) ?lim"
      using i(3) unfolding m by (auto simp: returns_def computes_def pooled_def)
    have p: "pooled d" using i(3) v(1,2) by (simp add: pooled_def)
    have k2: "ctx_keeps ?c c2" by (rule ctx_keeps_trans [OF gk(1) v(3)])
    have i2: "\<not> ctx_error c2 \<Longrightarrow> i < ctx_used c2" using v(3) i(2) by (auto simp: ctx_keeps_def)
    have step: "BN_mod_mul_montgomery env same r a b mont ctx =
        (if k then (case BN_from_montgomery_word (env_libc env) r d mont of (ret, r, tmp) \<Rightarrow> (ret, r, BN_CTX_end (ctx_put c2 i tmp)))
         else (False, r, BN_CTX_end (ctx_put c2 i d)))"
      using nn g Some m by (simp add: red split: if_splits)
    show ?thesis
    proof (cases k)
      case True
      obtain ok s t' where w: "BN_from_montgomery_word (env_libc env) r d mont = (ok, s, t')" by (metis prod_cases3)
      have d: "bn_mag d = bn_mag a * bn_mag b" "\<not> bn_neg d" using v(4) True by simp_all
      have lt': "bn_mag d < bn_mag (mont_N mont) * mont_R mont" unfolding d(1) by (rule lt)
      have "2 * bn_width (mont_N mont) \<le> ?lim" by simp
      from reduce_temporary [OF libc ctx mont wf(1) k2 u i2 p d(2) lt' this w] show ?thesis using step True w d(1) by simp
    next
      case False
      note pk = put_keeps_or_error [OF k2 u i2 p]
      have "ctx_error (ctx_put c2 i d) \<or> starved (env_libc env) ?lim" using v(5) False pk(2) by blast
      from reduce_failed [OF libc ctx wf(1) pk(1) this] show ?thesis using step False by simp
    qed
  qed
qed

text \<open>On Montgomery forms it is multiplication.\<close>

theorem mod_mul_montgomery_forms:
  assumes libc: "libc_wf (env_libc env)" and ctx: "ctx_wf ctx" and mont: "mont_law mont" and wf: "bn_wf r" "bn_wf a" "bn_wf b"
    and nn: "\<not> bn_neg a" "\<not> bn_neg b" and width: "bn_width a \<le> INT_MAX" "bn_width b \<le> INT_MAX" and same: "same \<Longrightarrow> b = a"
    and a: "bn_mag a = x * mont_R mont mod bn_mag (mont_N mont)" and b: "bn_mag b = y * mont_R mont mod bn_mag (mont_N mont)"
    and e: "BN_mod_mul_montgomery env same r a b mont ctx = (True, s, ctx')"
  shows "bn_int s = int (x * y * mont_R mont mod bn_mag (mont_N mont))" "bn_width s = bn_width (mont_N mont)" "ctx_keeps ctx ctx'"
proof -
  let ?N = "bn_mag (mont_N mont)" and ?R = "mont_R mont"
  have N: "0 < ?N" "?N < ?R" using mont bn_mag_less [of "mont_N mont"] by (auto simp: mont_law_def mont_R_def elim: oddE)
  have "bn_mag a < ?N" "bn_mag b < ?R" using N unfolding a b by (simp_all add: less_trans [of _ ?N ?R])
  then have lt: "bn_mag a * bn_mag b < ?N * ?R" by (intro mult_strict_mono) simp_all
  have v: "redc mont (bn_mag a * bn_mag b) (bn_mag s)" "\<not> bn_neg s" "bn_width s = bn_width (mont_N mont)" "ctx_keeps ctx ctx'"
    using mod_mul_montgomery_value [OF libc ctx mont wf nn width same lt, of same] e by (simp_all add: reduces_def)
  have "(bn_mag s * ?R) mod ?N = (bn_mag a * bn_mag b) mod ?N" using v(1) by (simp add: redc_def)
  also have "\<dots> = (x * ?R * (y * ?R)) mod ?N" unfolding a b by (rule mod_mult_eq)
  also have "\<dots> = (x * y * ?R * ?R) mod ?N" by (simp add: ac_simps)
  finally have "bn_mag s = x * y * ?R mod ?N" using cancel_R [OF mont] v(1) by (metis mod_less redc_def)
  then show "bn_int s = int (x * y * ?R mod ?N)" using v(2) by (simp add: bn_int_def)
  show "bn_width s = bn_width (mont_N mont)" "ctx_keeps ctx ctx'" by (rule v)+
qed

text \<open>With a temporary at hand and memory for twice the width, the operations succeed.\<close>

lemma from_word_runs:
  assumes "libc_wf libc" and "mont_law mont" and "bn_wf r" and "bn_wf t" and "bn_mag t < bn_mag (mont_N mont) * mont_R mont" and "\<not> bn_neg t"
    and "\<not> starved libc (2 * bn_width (mont_N mont))" and "bn_flags r AND BN_FLG_STATIC_DATA = 0" and "bn_flags t AND BN_FLG_STATIC_DATA = 0"
  shows "fst (BN_from_montgomery_word libc r t mont)"
proof -
  obtain ok s t' where e: "BN_from_montgomery_word libc r t mont = (ok, s, t')" by (metis prod_cases3)
  show ?thesis using from_word_value(8) [OF assms(1-5) e assms(6)] assms(7-9) e by auto
qed

lemma mod_mul_montgomery_runs:
  assumes libc: "libc_wf (env_libc env)" and ctx: "ctx_wf ctx" and mont: "mont_law mont" and wf: "bn_wf r" "bn_wf a" "bn_wf b"
    and nn: "\<not> bn_neg a" "\<not> bn_neg b" and width: "bn_width a \<le> INT_MAX" "bn_width b \<le> INT_MAX"
    and lt: "bn_mag a * bn_mag b < bn_mag (mont_N mont) * mont_R mont"
    and get: "BN_CTX_get env (BN_CTX_start env ctx) = (Some i, c)" and mul: "fst (bn_mul_consttime env False (ctx_bn c i) a b c)"
    and mem: "\<not> starved (env_libc env) (2 * bn_width (mont_N mont))" "bn_flags r AND BN_FLG_STATIC_DATA = 0"
  shows "fst (BN_mod_mul_montgomery env False r a b mont ctx)"
proof -
  note gk = get_keeps [OF libc start_wf [OF libc ctx] get]
  have p: "pooled (ctx_bn c i)" by (rule gk(5)) simp
  obtain d c2 where m: "bn_mul_consttime env False (ctx_bn c i) a b c = (True, d, c2)" using mul by (cases "bn_mul_consttime env False (ctx_bn c i) a b c") auto
  have d: "bn_wf d" "bn_mag d = bn_mag a * bn_mag b" "\<not> bn_neg d" "bn_flags d AND BN_FLG_STATIC_DATA = 0"
    using mul_consttime_value [OF libc ctx_keeps_wf [OF gk(1)] pooled_wf [OF p] wf(2,3) width nn, of False] p unfolding m
    by (simp_all add: returns_def computes_def pooled_def)
  have "fst (BN_from_montgomery_word (env_libc env) r d mont)" using from_word_runs [OF libc mont wf(1) d(1) _ d(3) mem d(4)] lt d(2) by simp
  then show ?thesis using nn get m
    by (auto simp: BN_mod_mul_montgomery_def bn_mod_mul_montgomery_fallback_def split: prod.splits)
qed

lemma from_montgomery_runs:
  assumes libc: "libc_wf (env_libc env)" and ctx: "ctx_wf ctx" and mont: "mont_law mont" and wf: "bn_wf r" "bn_wf a" and nn: "\<not> bn_neg a"
    and lt: "bn_mag a < bn_mag (mont_N mont) * mont_R mont"
    and get: "BN_CTX_get env (BN_CTX_start env ctx) = (Some i, c)" and room: "roomy (env_libc env) (ctx_bn c i) (bn_width a)"
    and mem: "\<not> starved (env_libc env) (2 * bn_width (mont_N mont))" "bn_flags r AND BN_FLG_STATIC_DATA = 0"
  shows "fst (BN_from_montgomery env r a mont ctx)"
proof -
  note gk = get_keeps [OF libc start_wf [OF libc ctx] get]
  have p: "pooled (ctx_bn c i)" by (rule gk(5)) simp
  obtain k d where cp: "BN_copy (env_libc env) (ctx_bn c i) a = (k, d)" by fastforce
  note cv = copy_value [OF libc pooled_wf [OF p] wf(2) cp]
  have k: k using cv(1) room by simp
  have d: "bn_wf d" "bn_mag d = bn_mag a" "\<not> bn_neg d" "bn_flags d AND BN_FLG_STATIC_DATA = 0"
    using cv(2-4,7) k nn p by (simp_all add: bn_mag_def pooled_def)
  have "fst (BN_from_montgomery_word (env_libc env) r d mont)" using from_word_runs [OF libc mont wf(1) d(1) _ d(3) mem d(4)] lt d(2) by simp
  then show ?thesis using get cp k by (auto simp: BN_from_montgomery_def split: prod.splits)
qed

section \<open>Making a context\<close>

lemma and_one_odd: "(x :: u64) AND 1 = 1 \<longleftrightarrow> odd (unat x)"
  by (metis and_one_eq odd_iff_mod_2_eq_one odd_unat)

lemma odd_mag: "bn_wf bn \<Longrightarrow> BN_is_odd bn \<longleftrightarrow> odd (bn_mag bn)"
proof -
  assume wf: "bn_wf bn"
  show ?thesis
  proof (cases "bn_width bn")
    case (Suc k)
    then obtain x xs where x: "bn_d bn = x # xs" using wf by (cases "bn_d bn") (auto simp: bn_wf_def)
    have "even LIMB" by (simp add: LIMB_def)
    then have "odd (bn_mag bn) \<longleftrightarrow> odd (unat x)" by (simp add: bn_mag_def bn_words_def x Suc)
    then show ?thesis unfolding BN_is_odd_def and_one_odd by (simp add: x Suc)
  qed (simp add: BN_is_odd_def bn_mag_def bn_words_def)
qed

lemma low_word_odd: "bn_wf bn \<Longrightarrow> odd (bn_mag bn) \<Longrightarrow> odd (unat (bn_d bn ! 0))"
  using odd_mag [of bn] unfolding BN_is_odd_def and_one_odd by simp

theorem set_N_and_n0_value:
  assumes libc: "libc_wf libc" and wf: "bn_wf (mont_N mont)" "bn_ok md" and e: "bn_mont_ctx_set_N_and_n0 libc mont md = (ok, mont')"
  shows "ok \<longleftrightarrow> odd (bn_mag md) \<and> \<not> bn_neg md \<and> roomy libc (mont_N mont) (bn_width md)"
    "ok \<Longrightarrow> mont_law mont'" "ok \<Longrightarrow> bn_mag (mont_N mont') = bn_mag md" "ok \<Longrightarrow> bn_width (mont_N mont') \<le> bn_width md" "mont_RR mont' = mont_RR mont"
proof -
  have md: "bn_wf md" using wf(2) by (rule bn_ok_wf)
  obtain b n where c: "BN_copy libc (mont_N mont) md = (b, n)" by fastforce
  note cv = copy_value [OF libc wf(1) md c]
  have red: "bn_mont_ctx_set_N_and_n0 libc mont md =
      (if even (bn_mag md) \<or> bn_neg md then (False, mont)
       else if \<not> b then (False, mont\<lparr>mont_N := n\<rparr>)
       else (True, mont\<lparr>mont_N := bn_set_minimal_width n, mont_n0 := (bn_mont_n0 (bn_set_minimal_width n), 0)\<rparr>))"
    by (simp add: bn_mont_ctx_set_N_and_n0_def is_zero [OF md] odd_mag [OF md] BN_is_negative_def c Let_def)
  have "(ok \<longleftrightarrow> odd (bn_mag md) \<and> \<not> bn_neg md \<and> roomy libc (mont_N mont) (bn_width md)) \<and>
    (ok \<longrightarrow> mont_law mont' \<and> bn_mag (mont_N mont') = bn_mag md \<and> bn_width (mont_N mont') \<le> bn_width md) \<and> mont_RR mont' = mont_RR mont"
  proof (cases "even (bn_mag md) \<or> bn_neg md \<or> \<not> b")
    case True
    then show ?thesis using e cv(1) unfolding red by (auto split: if_splits)
  next
    case False
    let ?n = "bn_set_minimal_width n"
    have n: "bn_wf n" "bn_mag n = bn_mag md" "bn_neg n = bn_neg md" "bn_width n = bn_width md" using cv False by (simp_all add: bn_mag_def)
    note s = set_minimal_width [OF n(1)]
    have law: "bn_wf ?n" "odd (bn_mag ?n)" "\<not> bn_neg ?n" using s n False by (simp_all add: bn_ok_def)
    have r: "ok" "mont' = mont\<lparr>mont_N := ?n, mont_n0 := (bn_mont_n0 ?n, 0)\<rparr>" using e False unfolding red by simp_all
    have "mont_law mont'" unfolding r mont_law_def bn_mont_n0_def using law neg_inv_value [OF low_word_odd [OF law(1,2)]] by simp
    then show ?thesis using r False cv(1) s(3) n(2,4) minimal_narrow [of n] by simp
  qed
  then show "ok \<longleftrightarrow> odd (bn_mag md) \<and> \<not> bn_neg md \<and> roomy libc (mont_N mont) (bn_width md)"
    "ok \<Longrightarrow> mont_law mont'" "ok \<Longrightarrow> bn_mag (mont_N mont') = bn_mag md" "ok \<Longrightarrow> bn_width (mont_N mont') \<le> bn_width md" "mont_RR mont' = mont_RR mont"
    by blast+
qed

lemma set_bit_shape:
  assumes "libc_wf libc" and "bn_wf a" and "BN_set_bit libc a n = (ok, s)"
  shows "bn_flags s = bn_flags a" "bn_width s \<le> max (bn_width a) (nat n div 64 + 1)"
proof -
  obtain b d where w: "bn_wexpand libc a (nat n div 64 + 1) = (b, d)" by fastforce
  note v = wexpand [OF assms(1,2) w]
  have "bn_flags s = bn_flags a \<and> bn_width s \<le> max (bn_width a) (nat n div 64 + 1)"
    using assms(3) w v(4,6) by (auto simp: BN_set_bit_def BN_BITS2_def Let_def split: if_splits bool.splits)
  then show "bn_flags s = bn_flags a" "bn_width s \<le> max (bn_width a) (nat n div 64 + 1)" by blast+
qed

theorem exp_base_2_value:
  assumes libc: "libc_wf (env_libc env)" and ctx: "ctx_wf ctx" and wf: "bn_wf r" "bn_wf n" and odd: "odd (bn_mag n)"
    and p: "64 * bn_width n \<le> p" and e: "bn_mod_exp_base_2_consttime env r p n ctx = (ok, s, ctx')"
  shows "ok \<Longrightarrow> bn_mag s = 2 ^ p mod bn_mag n" "ok \<Longrightarrow> \<not> bn_neg s" "ok \<Longrightarrow> bn_mag n \<noteq> 1 \<Longrightarrow> bn_width s = bn_width n"
    "bn_mag n = 1 \<Longrightarrow> ok \<and> s = BN_zero r" "bn_wf s" "ctx_keeps ctx ctx'" "\<not> ctx_error ctx' \<Longrightarrow> ctx_used ctx' = ctx_used ctx"
    "\<not> ok \<Longrightarrow> ctx_error ctx' \<or> starved (env_libc env) (bn_width n) \<or> bn_flags r AND BN_FLG_STATIC_DATA \<noteq> 0"
proof -
  let ?k = "bit_count (bn_mag n)" and ?z = "BN_zero r" and ?libc = "env_libc env"
  have pos: "bn_mag n \<noteq> 0" using odd by (auto elim: oddE)
  then have k: "2 ^ (?k - 1) \<le> bn_mag n" "bn_mag n < 2 ^ ?k" using bit_count_bounds bit_count_less by simp_all
  have one: "?k = 1 \<longleftrightarrow> bn_mag n = 1"
  proof
    assume "?k = 1"
    then have "bn_mag n < 2" using k(2) by simp
    then show "bn_mag n = 1" using pos by linarith
  qed (simp add: bit_count.simps [of "Suc 0"] bit_count.simps [of 0])
  have z: "bn_ok ?z" "bn_wf ?z" "bn_mag ?z = 0" "bn_flags ?z = bn_flags r" "bn_width ?z = 0" "\<not> bn_neg ?z"
    using wf(1) by (simp_all add: bn_simps bn_ok_wf) (simp_all add: BN_zero_def)
  have pk: "2 ^ (?k - 1) < (2 :: nat) ^ (64 * bn_width n)" using k(1) bn_mag_less [OF wf(2)] unfolding LIMB_power by (rule le_less_trans)
  then have kw: "?k - 1 < 64 * bn_width n" by (rule power_less_imp_less_exp [rotated]) simp
  have "(ok \<longrightarrow> bn_mag s = 2 ^ p mod bn_mag n \<and> \<not> bn_neg s \<and> (bn_mag n \<noteq> 1 \<longrightarrow> bn_width s = bn_width n)) \<and>
    (bn_mag n = 1 \<longrightarrow> ok \<and> s = ?z) \<and> bn_wf s \<and> ctx_keeps ctx ctx' \<and> (\<not> ctx_error ctx' \<longrightarrow> ctx_used ctx' = ctx_used ctx) \<and>
    (\<not> ok \<longrightarrow> ctx_error ctx' \<or> starved ?libc (bn_width n) \<or> bn_flags r AND BN_FLG_STATIC_DATA \<noteq> 0)"
  proof (cases "bn_mag n = 1")
    case True
    then have "(ok, s, ctx') = (True, ?z, ctx)" using e one by (simp add: bn_mod_exp_base_2_consttime_def num_bits_value [OF wf(2)] Let_def)
    then show ?thesis using True z ctx_keeps_refl [OF ctx] by simp
  next
    case False
    let ?i = "int ?k - 1"
    have k2: "1 < ?k" using one False pos k(2) by (cases "?k = 0") auto
    obtain b d where sb: "BN_set_bit ?libc ?z ?i = (b, d)" by fastforce
    note sv = set_bit_value [OF libc z(1) sb] and sh = set_bit_shape [OF libc z(2) sb]
    have ni: "nat ?i = ?k - 1" "0 \<le> ?i" using k2 by auto
    have wi: "(?k - 1) div 64 + 1 \<le> bn_width n" using kw by (simp add: less_mult_imp_div_less Suc_leI mult.commute)
    have red: "bn_mod_exp_base_2_consttime env r p n ctx =
        (if b then bn_mod_lshift_consttime env d d (int p - ?i) n ctx else (False, d, ctx))"
      using one False sb by (simp add: bn_mod_exp_base_2_consttime_def num_bits_value [OF wf(2)] Let_def)
    show ?thesis
    proof (cases b)
      case no: False
      have "roomy ?libc ?z ((?k - 1) div 64 + 1) \<Longrightarrow> b" using sv(1) ni z(5) by simp
      then have "starved ?libc (bn_width n) \<or> bn_flags r AND BN_FLG_STATIC_DATA \<noteq> 0" using no not_roomy [OF _ wi, of ?libc ?z] z(4) by auto
      moreover have "(ok, s, ctx') = (False, ?z, ctx)" using e no sv(5) unfolding red by simp
      ultimately show ?thesis using False z(2) ctx_keeps_refl [OF ctx] by simp
    next
      case True
      have d: "bn_wf d" "bn_mag d = 2 ^ (?k - 1)" "\<not> bn_neg d" "bn_flags d = bn_flags r" "bn_width d \<le> bn_width n"
        using sv(2-4) True sh z ni wi by (simp_all add: bn_ok_wf set_bit_eq)
      have "even ((2 :: nat) ^ (?k - 1))" using k2 by simp
      then have "bn_mag n \<noteq> 2 ^ (?k - 1)" using odd by metis
      then have lt: "bn_mag d < bn_mag n" using k(1) d(2) by simp
      have l: "bn_mod_lshift_consttime env d d (int p - ?i) n ctx = (ok, s, ctx')" using e True unfolding red by simp
      note lv = mod_lshift_value [OF libc ctx d(1) d(1) wf(2) lt d(3) l]
      have np: "nat (int p - ?i) = p - (?k - 1)" "0 < int p - ?i" "?k - 1 \<le> p" using kw p k2 by auto
      have "2 ^ (?k - 1) * 2 ^ (p - (?k - 1)) = (2 :: nat) ^ p" using np(3) by (simp add: power_add [symmetric])
      then show ?thesis using False lv np(1,2) d by (simp add: max_absorb2)
    qed
  qed
  then show "ok \<Longrightarrow> bn_mag s = 2 ^ p mod bn_mag n" "ok \<Longrightarrow> \<not> bn_neg s" "ok \<Longrightarrow> bn_mag n \<noteq> 1 \<Longrightarrow> bn_width s = bn_width n"
    "bn_mag n = 1 \<Longrightarrow> ok \<and> s = BN_zero r" "bn_wf s" "ctx_keeps ctx ctx'" "\<not> ctx_error ctx' \<Longrightarrow> ctx_used ctx' = ctx_used ctx"
    "\<not> ok \<Longrightarrow> ctx_error ctx' \<or> starved ?libc (bn_width n) \<or> bn_flags r AND BN_FLG_STATIC_DATA \<noteq> 0"
    by blast+
qed

text \<open>A context that is complete: \<open>RR\<close> is the square of \<open>R\<close> modulo \<open>N\<close>.\<close>

definition mont_ok :: "mont_ctx \<Rightarrow> bool" where
  "mont_ok mont \<longleftrightarrow>
     mont_law mont \<and> bn_wf (mont_RR mont) \<and> \<not> bn_neg (mont_RR mont) \<and> bn_width (mont_RR mont) = bn_width (mont_N mont) \<and>
     bn_mag (mont_RR mont) = (mont_R mont * mont_R mont) mod bn_mag (mont_N mont)"

lemma init_wf: "bn_wf BN_init" "bn_flags BN_init = 0"
  by (simp_all add: BN_init_def bn_wf_def)

theorem new_consttime_value:
  assumes libc: "libc_wf (env_libc env)" and ctx: "ctx_wf ctx" and md: "bn_ok md" and e: "BN_MONT_CTX_new_consttime env md ctx = (x, ctx')"
  shows "x = Some mont \<Longrightarrow> mont_ok mont" "x = Some mont \<Longrightarrow> bn_mag (mont_N mont) = bn_mag md" "x = Some mont \<Longrightarrow> odd (bn_mag md) \<and> \<not> bn_neg md"
    "ctx_keeps ctx ctx'" "\<not> ctx_error ctx' \<Longrightarrow> ctx_used ctx' = ctx_used ctx"
    "x = None \<Longrightarrow> even (bn_mag md) \<or> bn_neg md \<or> ctx_error ctx' \<or> starved (env_libc env) (bn_width md) \<or> heap_malloc (env_libc env) SIZEOF_BN_MONT_CTX = None"
proof -
  let ?libc = "env_libc env"
  let ?goal = "(\<forall>mont. x = Some mont \<longrightarrow> mont_ok mont \<and> bn_mag (mont_N mont) = bn_mag md \<and> odd (bn_mag md) \<and> \<not> bn_neg md) \<and>
    ctx_keeps ctx ctx' \<and> (\<not> ctx_error ctx' \<longrightarrow> ctx_used ctx' = ctx_used ctx) \<and>
    (x = None \<longrightarrow> even (bn_mag md) \<or> bn_neg md \<or> ctx_error ctx' \<or> starved ?libc (bn_width md) \<or> heap_malloc ?libc SIZEOF_BN_MONT_CTX = None)"
  have ?goal
  proof (cases "heap_malloc ?libc SIZEOF_BN_MONT_CTX")
    case None
    then show ?thesis using e ctx_keeps_refl [OF ctx] by (simp add: BN_MONT_CTX_new_consttime_def BN_MONT_CTX_new_def)
  next
    case (Some blk)
    let ?m = "\<lparr>mont_RR = BN_init, mont_N = BN_init, mont_n0 = (0, 0)\<rparr>"
    obtain b m where n: "bn_mont_ctx_set_N_and_n0 ?libc ?m md = (b, m)" by fastforce
    have "bn_wf (mont_N ?m)" by (simp add: init_wf)
    note nv = set_N_and_n0_value [OF libc this md n]
    show ?thesis
    proof (cases b)
      case False
      then have "(x, ctx') = (None, ctx)" using e Some n by (simp add: BN_MONT_CTX_new_consttime_def BN_MONT_CTX_new_def)
      moreover have "even (bn_mag md) \<or> bn_neg md \<or> starved ?libc (bn_width md)"
        using nv(1) False not_roomy [of ?libc BN_init "bn_width md" "bn_width md"] by (auto simp: init_wf)
      ultimately show ?thesis using ctx_keeps_refl [OF ctx] by auto
    next
      case True
      let ?w = "bn_width (mont_N m)"
      have m: "mont_law m" "bn_mag (mont_N m) = bn_mag md" "?w \<le> bn_width md" "mont_RR m = BN_init" "odd (bn_mag md)" "\<not> bn_neg md" using nv True by simp_all
      have N: "bn_wf (mont_N m)" "odd (bn_mag (mont_N m))" using m(1) by (simp_all add: mont_law_def)
      obtain b2 rr c where x2: "bn_mod_exp_base_2_consttime env (mont_RR m) (?w * BN_BITS2 * 2) (mont_N m) ctx = (b2, rr, c)" by (metis prod_cases3)
      have p: "64 * ?w \<le> ?w * BN_BITS2 * 2" by (simp add: BN_BITS2_def)
      have i: "bn_wf (mont_RR m)" "bn_flags (mont_RR m) = 0" using m(4) by (simp_all add: init_wf)
      note xv = exp_base_2_value [OF libc ctx i(1) N p x2]
      obtain b3 rr3 where rs: "bn_resize_words ?libc rr ?w = (b3, rr3)" by fastforce
      note rv = resize_value [OF libc xv(5) rs]
      have res: "(x, ctx') = (if \<not> b2 \<or> \<not> b3 then (None, c) else (Some (m\<lparr>mont_RR := rr3\<rparr>), c))"
        using e Some n True x2 rs by (simp add: BN_MONT_CTX_new_consttime_def BN_MONT_CTX_new_def Let_def split: bool.splits)
      have bad: "ctx_error c \<or> starved ?libc (bn_width md)" if "\<not> b2 \<or> \<not> b3"
      proof (cases b2)
        case False
        then show ?thesis using xv(8) i(2) starved_mono [OF _ m(3)] by auto
      next
        case b2: True
        have "roomy ?libc rr ?w" if "bn_mag (mont_N m) \<noteq> 1"
          using xv(3) [OF b2 that] xv(5) by (simp add: roomy_def bn_wf_def)
        moreover have "starved ?libc ?w" if "bn_mag (mont_N m) = 1" "\<not> roomy ?libc rr ?w"
          using xv(4) [OF that(1)] that(2) not_roomy [of ?libc rr ?w ?w] i(2) by (simp add: BN_zero_def)
        moreover have "bn_width rr \<le> ?w" using xv(3,4) b2 by (cases "bn_mag (mont_N m) = 1") (simp_all add: BN_zero_def)
        ultimately show ?thesis using rv(1) that b2 starved_mono [OF _ m(3)] by auto
      qed
      have R: "2 ^ (?w * BN_BITS2 * 2) = LIMB ^ ?w * LIMB ^ ?w" by (simp add: LIMB_power BN_BITS2_def power_add [symmetric])
      show ?thesis
      proof (cases "\<not> b2 \<or> \<not> b3")
        case True
        then show ?thesis using res bad xv(6,7) by auto
      next
        case False
        let ?mont = "m\<lparr>mont_RR := rr3\<rparr>"
        have "mont_law ?mont" "mont_R ?mont = LIMB ^ ?w" using m(1) by (simp_all add: mont_law_def mont_R_def)
        moreover have "b2" "b3" using False by simp_all
        ultimately have "mont_ok ?mont" using xv(1,2) rv(2,5) rv(3,4) [OF \<open>b3\<close>] unfolding R by (simp add: mont_ok_def)
        then show ?thesis using False res xv(6,7) m by auto
      qed
    qed
  qed
  then show "x = Some mont \<Longrightarrow> mont_ok mont" "x = Some mont \<Longrightarrow> bn_mag (mont_N mont) = bn_mag md" "x = Some mont \<Longrightarrow> odd (bn_mag md) \<and> \<not> bn_neg md"
    "ctx_keeps ctx ctx'" "\<not> ctx_error ctx' \<Longrightarrow> ctx_used ctx' = ctx_used ctx"
    "x = None \<Longrightarrow> even (bn_mag md) \<or> bn_neg md \<or> ctx_error ctx' \<or> starved ?libc (bn_width md) \<or> heap_malloc ?libc SIZEOF_BN_MONT_CTX = None"
    by simp_all
qed

section \<open>To the Montgomery form and back\<close>

theorem to_montgomery_value:
  assumes libc: "libc_wf (env_libc env)" and ctx: "ctx_wf ctx" and mont: "mont_ok mont" and wf: "bn_wf r" "bn_wf a" and nn: "\<not> bn_neg a"
    and width: "bn_width a \<le> INT_MAX" "bn_width (mont_N mont) \<le> INT_MAX" and lt: "bn_mag a < mont_R mont"
    and e: "BN_to_montgomery env r a mont ctx = (ok, s, ctx')"
  shows "ok \<Longrightarrow> bn_mag s = (bn_mag a * mont_R mont) mod bn_mag (mont_N mont)" "ok \<Longrightarrow> bn_width s = bn_width (mont_N mont)" "ok \<Longrightarrow> \<not> bn_neg s"
    "bn_wf s" "ctx_keeps ctx ctx'" "\<not> ctx_error ctx' \<Longrightarrow> ctx_used ctx' = ctx_used ctx"
proof -
  let ?N = "bn_mag (mont_N mont)" and ?R = "mont_R mont" and ?RR = "bn_mag (mont_RR mont)"
  have law: "mont_law mont" and RR: "bn_wf (mont_RR mont)" "\<not> bn_neg (mont_RR mont)" "bn_width (mont_RR mont) \<le> INT_MAX" "?RR = (?R * ?R) mod ?N"
    using mont width(2) by (simp_all add: mont_ok_def)
  have N: "0 < ?N" using law by (auto simp: mont_law_def elim: oddE)
  have "bn_mag a * ?RR \<le> bn_mag a * ?N" using RR(4) N by (simp add: less_imp_le)
  also have "\<dots> < ?N * ?R" using lt N by simp
  finally have l: "bn_mag a * ?RR < ?N * ?R" .
  note v = mod_mul_montgomery_value [OF libc ctx law wf RR(1) nn RR(2) width(1) RR(3) _ l, of False]
  then have s: "bn_wf s" "ctx_keeps ctx ctx'" "\<not> ctx_error ctx' \<longrightarrow> ctx_used ctx' = ctx_used ctx"
    "ok \<longrightarrow> redc mont (bn_mag a * ?RR) (bn_mag s) \<and> \<not> bn_neg s \<and> bn_width s = bn_width (mont_N mont)"
    using e by (simp_all add: reduces_def BN_to_montgomery_def)
  have "bn_mag s = (bn_mag a * ?R) mod ?N" if ok
  proof -
    have r: "(bn_mag s * ?R) mod ?N = (bn_mag a * ?RR) mod ?N" "bn_mag s < ?N" using s(4) that by (simp_all add: redc_def)
    have "(bn_mag s * ?R) mod ?N = (bn_mag a * (?R * ?R)) mod ?N" unfolding r(1) RR(4) by (rule mod_mult_right_eq)
    then have "(bn_mag s * ?R) mod ?N = ((bn_mag a * ?R) * ?R) mod ?N" by (simp add: mult.assoc)
    from cancel_R [OF law this] r(2) show ?thesis by simp
  qed
  then show "ok \<Longrightarrow> bn_mag s = (bn_mag a * mont_R mont) mod bn_mag (mont_N mont)" "ok \<Longrightarrow> bn_width s = bn_width (mont_N mont)" "ok \<Longrightarrow> \<not> bn_neg s"
    "bn_wf s" "ctx_keeps ctx ctx'" "\<not> ctx_error ctx' \<Longrightarrow> ctx_used ctx' = ctx_used ctx"
    using s by simp_all
qed

theorem to_and_from_montgomery:
  assumes libc: "libc_wf (env_libc env)" and ctx: "ctx_wf ctx" and mont: "mont_ok mont" and wf: "bn_wf r" "bn_wf t" "bn_wf a" and nn: "\<not> bn_neg a"
    and width: "bn_width a \<le> INT_MAX" "bn_width (mont_N mont) \<le> INT_MAX" and lt: "bn_mag a < bn_mag (mont_N mont)"
    and e: "BN_to_montgomery env r a mont ctx = (True, m, ctx')" and c: "ctx_wf ctx2" and f: "BN_from_montgomery env t m mont ctx2 = (True, s, ctx2')"
  shows "bn_int s = bn_int a"
proof -
  have law: "mont_law mont" using mont by (simp add: mont_ok_def)
  then have N: "bn_wf (mont_N mont)" by (simp add: mont_law_def)
  have "bn_mag (mont_N mont) < mont_R mont" using bn_mag_less [OF N] by (simp add: mont_R_def)
  then have "bn_mag a < mont_R mont" using lt by simp
  note v = to_montgomery_value [OF libc ctx mont wf(1,3) nn width this e]
  have m: "bn_mag m = (bn_mag a * mont_R mont) mod bn_mag (mont_N mont)" "\<not> bn_neg m" "bn_wf m" using v by simp_all
  have "bn_mag m < bn_mag (mont_N mont)" using m(1) lt by simp
  also have "\<dots> \<le> bn_mag (mont_N mont) * mont_R mont" by (simp add: mont_R_def)
  finally have lm: "bn_mag m < bn_mag (mont_N mont) * mont_R mont" .
  have "reduces env mont (bn_mag m) t ctx2 (True, s, ctx2') (2 * bn_width (mont_N mont) + bn_width m)"
    using from_montgomery_value [OF libc c law wf(2) m(3,2) lm] unfolding f .
  then have s: "redc mont (bn_mag m) (bn_mag s)" "\<not> bn_neg s" by (simp_all add: reduces_def)
  have "redc mont (bn_mag m) (bn_mag a)" using lt m(1) by (simp add: redc_def)
  then have "bn_mag s = bn_mag a" using redc_unique [OF law s(1)] by simp
  then show ?thesis using s(2) nn by (simp add: bn_int_def)
qed

text \<open>The complement of a number with an odd low word.\<close>

lemma unat_not: "unat (NOT w :: u64) + unat w + 1 = LIMB"
proof -
  have one: "unat (- 1 :: u64) = LIMB - 1" by (simp add: unsigned_minus_1_eq_mask mask_eq_exp_minus_1 LIMB_def)
  have "NOT w = - 1 - w" by (simp add: not_eq_complement)
  moreover have "unat (- 1 - w) = unat (- 1 :: u64) - unat w" by (rule unat_sub) (rule word_order.extremum)
  ultimately have "unat (NOT w) = LIMB - 1 - unat w" by (simp only: one)
  then show ?thesis using unat_limb [of w] by (simp del: unat_limb)
qed

lemma wval_complement: "wval (map NOT ws) + wval ws + 1 = LIMB ^ length ws"
proof (induction ws)
  case (Cons w ws)
  have "LIMB * (wval (map NOT ws) + wval ws + 1) = LIMB * LIMB ^ length ws" unfolding Cons ..
  then show ?case using unat_not [of w] by (simp add: distrib_left)
qed simp

lemma wval_negate:
  assumes "x \<noteq> 0"
  shows "wval ((0 - x) # map NOT ws) + wval (x # ws) = LIMB ^ length (x # ws)"
proof -
  have "0 - x = NOT x + 1" by (simp add: minus_eq_not_plus_1)
  moreover have "unat x \<noteq> 0" using assms by (simp add: unat_eq_0)
  moreover have "unat (NOT x + 1) = (unat (NOT x) + 1) mod LIMB" unfolding unat_word_ariths(1) LIMB_word unsigned_1 ..
  ultimately have "unat (0 - x) + unat x = LIMB" using unat_not [of x] by simp
  moreover have "LIMB * (wval (map NOT ws) + wval ws + 1) = LIMB * LIMB ^ length ws" unfolding wval_complement ..
  ultimately show ?thesis by (simp add: distrib_left)
qed

lemma written_words:
  "length ws = w \<Longrightarrow> w \<le> length (bn_d d) \<Longrightarrow> bn_words (d\<lparr>bn_d := mem_write (bn_d d) 0 ws, bn_width := w, bn_neg := b\<rparr>) = ws"
  by (simp add: bn_words_def mem_write_def)

theorem one_to_montgomery_value:
  assumes libc: "libc_wf (env_libc env)" and ctx: "ctx_wf ctx" and mont: "mont_ok mont" and r: "bn_wf r"
    and e: "bn_one_to_montgomery env r mont ctx = (ok, s, ctx')"
  shows "ok \<Longrightarrow> bn_mag s = mont_R mont mod bn_mag (mont_N mont)" "ok \<Longrightarrow> bn_width s = bn_width (mont_N mont)" "ok \<Longrightarrow> \<not> bn_neg s"
proof -
  let ?n = "mont_N mont" and ?R = "mont_R mont"
  let ?N = "bn_mag ?n" and ?w = "bn_width ?n"
  have law: "mont_law mont" and RR: "bn_wf (mont_RR mont)" "\<not> bn_neg (mont_RR mont)" "bn_mag (mont_RR mont) = (?R * ?R) mod ?N"
    using mont by (simp_all add: mont_ok_def)
  have N: "bn_wf ?n" "odd ?N" using law by (simp_all add: mont_law_def)
  have pos: "0 < ?w" by (rule mont_width [OF law])
  have "(ok \<longrightarrow> bn_mag s = ?R mod ?N \<and> bn_width s = ?w \<and> \<not> bn_neg s)"
  proof (cases "drop_bit (BN_BITS2 - 1) (bn_d ?n ! (?w - 1)) \<noteq> 0")
    case False
    then have "BN_from_montgomery env r (mont_RR mont) mont ctx = (ok, s, ctx')" using e by (simp add: bn_one_to_montgomery_def)
    moreover have "bn_mag (mont_RR mont) < ?N * ?R"
    proof -
      have "bn_mag (mont_RR mont) < ?N" using RR(3) N(2) by (auto elim: oddE)
      also have "\<dots> \<le> ?N * ?R" by (simp add: mont_R_def)
      finally show ?thesis .
    qed
    ultimately have v: "ok \<longrightarrow> redc mont (bn_mag (mont_RR mont)) (bn_mag s) \<and> \<not> bn_neg s \<and> bn_width s = ?w"
      using from_montgomery_value [OF libc ctx law r RR(1,2)] by (simp add: reduces_def)
    have "bn_mag s = ?R mod ?N" if s: "redc mont (bn_mag (mont_RR mont)) (bn_mag s)"
      using s cancel_R [OF law, of "bn_mag s" ?R] by (simp add: redc_def RR(3))
    then show ?thesis using v by simp
  next
    case True
    obtain k d where w: "bn_wexpand (env_libc env) r ?w = (k, d)" by fastforce
    note wv = wexpand [OF libc r w]
    let ?ws = "(0 - bn_d ?n ! 0) # map NOT (drop 1 (bn_words ?n))"
    have res: "(ok, s, ctx') = (if k then (True, d\<lparr>bn_d := mem_write (bn_d d) 0 ?ws, bn_width := ?w, bn_neg := False\<rparr>, ctx) else (False, d, ctx))"
      using e True pos w by (cases k) (simp_all add: bn_one_to_montgomery_def Let_def)
    obtain x xs where x: "bn_words ?n = x # xs" using pos N(1) length_bn_words [of ?n] by (cases "bn_words ?n") auto
    then have x0: "bn_d ?n ! 0 = x" using pos by (metis bn_words_def nth_Cons_0 nth_take)
    have len: "length (x # xs) = ?w" using length_bn_words [OF N(1)] x by simp
    have "odd (unat x)" using low_word_odd [OF N] x0 by simp
    then have "x \<noteq> 0" by auto
    from wval_negate [OF this, of xs] have sum: "wval ?ws + ?N = ?R" unfolding len by (simp add: x x0 bn_mag_def mont_R_def)
    have half: "?R < 2 * ?N"
    proof -
      have wl: "?w - 1 < length (bn_d ?n)" using N(1) pos unfolding bn_wf_def by linarith
      have top: "2 ^ 63 \<le> unat (bn_d ?n ! (?w - 1))" using True by (simp add: BN_BITS2_def drop_bit_eq_0_iff not_less)
      have "?N = wval (take (?w - 1) (bn_d ?n)) + LIMB ^ (?w - 1) * unat (bn_d ?n ! (?w - 1))"
        using wl pos take_Suc_conv_app_nth [OF wl] by (simp add: bn_mag_def bn_words_def wval_append)
      then have "LIMB ^ (?w - 1) * 2 ^ 63 \<le> ?N" using mult_le_mono2 [OF top, of "LIMB ^ (?w - 1)"] by linarith
      moreover have R: "?R = 2 * (LIMB ^ (?w - 1) * 2 ^ 63)" using pos by (cases ?w) (simp_all add: mont_R_def LIMB_def)
      moreover have "even (LIMB ^ (?w - 1) * 2 ^ 63)" by simp
      ultimately show ?thesis using N(2) by (metis le_neq_implies_less nat_mult_less_cancel1 zero_less_numeral)
    qed
    have "wval ?ws < ?N" using half sum by linarith
    then have val: "wval ?ws = ?R mod ?N" unfolding sum [symmetric] by (simp only: mod_add_self2 mod_less)
    have lw: "length ?ws = ?w" using len x by simp
    show ?thesis
    proof (cases k)
      case k: True
      then have "?w \<le> length (bn_d d)" using wv by simp
      from written_words [OF lw this, of False] have "bn_words s = ?ws" "bn_width s = ?w" "\<not> bn_neg s" "ok" using res k by auto
      moreover have "bn_mag s = ?R mod ?N" unfolding bn_mag_def [of s] \<open>bn_words s = ?ws\<close> by (rule val)
      ultimately show ?thesis by blast
    qed (use res in simp)
  qed
  then show "ok \<Longrightarrow> bn_mag s = ?R mod ?N" "ok \<Longrightarrow> bn_width s = ?w" "ok \<Longrightarrow> \<not> bn_neg s" by simp_all
qed

section \<open>Small numbers\<close>

text \<open>The multiplications read only the words that they are told to.\<close>

lemma mul_normal_loop_take: "mul_normal_loop a na r i b = mul_normal_loop (take na a) na r i b"
  by (induction b arbitrary: r i) (simp_all add: bn_mul_add_words_def split: prod.splits)

lemma mul_small_take: "bn_mul_small k a na b nb = bn_mul_small k (take na a) na (take nb b) nb"
proof -
  have "bn_mul_normal a na b nb = bn_mul_normal (take na a) na (take nb b) nb"
    by (auto simp: bn_mul_normal_def bn_mul_words_def take_drop min_absorb1 Let_def mul_normal_loop_take [symmetric] split: prod.splits)
  then show ?thesis by (simp add: bn_mul_small_def)
qed

theorem mod_mul_small_value:
  assumes mont: "mont_law mont" and w: "w = bn_width (mont_N mont)" "w \<le> BN_SMALL_MAX_WORDS" and len: "length a = w" "w \<le> length b"
    and same: "same \<Longrightarrow> b = a" and lt: "wval a * wval (take w b) < bn_mag (mont_N mont) * mont_R mont"
  shows "\<exists>ws. bn_mod_mul_montgomery_small same a b w mont = Some ws \<and> length ws = w \<and> redc mont (wval a * wval (take w b)) (wval ws)"
proof -
  have l: "length (take w b) = w" using len(2) by simp
  have "\<exists>p. (if same then bn_sqr_small (2 * w) a w else bn_mul_small (2 * w) a w b w) = Some p \<and> length p = 2 * w \<and>
    wval p = wval a * wval (take w b)"
  proof (cases same)
    case True
    obtain p where "bn_sqr_small (2 * w) a w = Some p" "length p = 2 * w" "wval p = wval a * wval a"
      using sqr_small_value [OF len(1) w(2)] by blast
    then show ?thesis using True same len(1) by simp
  next
    case False
    obtain p where "bn_mul_small (w + w) a w (take w b) w = Some p" "length p = w + w" "wval p = wval a * wval (take w b)"
      using mul_small_value [OF len(1) l] by blast
    then show ?thesis using False len(1) unfolding mul_small_take [of _ a] by (simp add: mult_2)
  qed
  then obtain p where p: "(if same then bn_sqr_small (2 * w) a w else bn_mul_small (2 * w) a w b w) = Some p" "length p = 2 * w"
    "wval p = wval a * wval (take w b)"
    by blast
  have "wval (take (2 * w) p) < bn_mag (mont_N mont) * mont_R mont" using p lt by simp
  from in_place_value [OF mont w(1) _ this] p(2) obtain ws a' where r: "bn_from_montgomery_in_place w p (2 * w) mont = Some (ws, a')" "length ws = w"
    "redc mont (wval p) (wval ws)" by auto
  have "bn_mod_mul_montgomery_small same a b w mont =
    (case (if same then bn_sqr_small (2 * w) a w else bn_mul_small (2 * w) a w b w) of
       None \<Rightarrow> None
     | Some tmp \<Rightarrow> map_option fst (bn_from_montgomery_in_place w tmp (2 * w) mont))"
    using w(2) unfolding bn_mod_mul_montgomery_small_def w(1) by simp
  then show ?thesis unfolding p(1) using r p(3) by simp
qed

theorem from_small_value:
  assumes mont: "mont_law mont" and w: "w = bn_width (mont_N mont)" "w \<le> BN_SMALL_MAX_WORDS" and len: "length a = w"
  shows "\<exists>ws. bn_from_montgomery_small a w mont = Some ws \<and> length ws = w \<and> redc mont (wval a) (wval ws)"
proof -
  have "wval a < mont_R mont" using wval_less [of a] len by (simp add: mont_R_def w(1))
  also have "\<dots> \<le> bn_mag (mont_N mont) * mont_R mont" using mont by (auto simp: mont_law_def elim: oddE)
  finally have "wval (take (2 * w) (a @ replicate w 0)) < bn_mag (mont_N mont) * mont_R mont" using len by (simp add: wval_append)
  from in_place_value [OF mont w(1) _ this] len obtain ws a' where
    r: "bn_from_montgomery_in_place w (a @ replicate w 0) (2 * w) mont = Some (ws, a')" "length ws = w" "redc mont (wval a) (wval ws)"
    by (auto simp: wval_append)
  then show ?thesis using w len by (simp add: bn_from_montgomery_small_def)
qed

theorem to_and_from_small:
  assumes mont: "mont_ok mont" and w: "w = bn_width (mont_N mont)" "w \<le> BN_SMALL_MAX_WORDS" and len: "length a = w"
    and lt: "wval a < bn_mag (mont_N mont)"
  shows "\<exists>m. bn_to_montgomery_small a w mont = Some m \<and> wval m = (wval a * mont_R mont) mod bn_mag (mont_N mont) \<and> bn_from_montgomery_small m w mont = Some a"
proof -
  let ?N = "bn_mag (mont_N mont)" and ?R = "mont_R mont" and ?RR = "bn_mag (mont_RR mont)"
  have law: "mont_law mont" using mont by (simp add: mont_ok_def)
  have RR: "w \<le> length (bn_d (mont_RR mont))" "wval (take w (bn_d (mont_RR mont))) = ?RR" "?RR = (?R * ?R) mod ?N"
    using mont by (auto simp: mont_ok_def w(1) bn_wf_def bn_mag_def bn_words_def)
  have la: "wval a < ?R" using wval_less [of a] len by (simp add: mont_R_def w(1))
  have "wval a * ?RR \<le> wval a * ?N" using RR(3) lt by (simp add: less_imp_le)
  also have "\<dots> < ?N * ?R" using la lt by simp
  finally have l: "wval a * wval (take w (bn_d (mont_RR mont))) < ?N * ?R" unfolding RR(2) .
  obtain m where m: "bn_to_montgomery_small a w mont = Some m" "length m = w" "redc mont (wval a * ?RR) (wval m)"
    using mod_mul_small_value [OF law w len RR(1) _ l, of False] unfolding RR(2) by (auto simp: bn_to_montgomery_small_def)
  have r: "(wval m * ?R) mod ?N = (wval a * ?RR) mod ?N" "wval m < ?N" using m(3) by (simp_all add: redc_def)
  have "(wval m * ?R) mod ?N = (wval a * (?R * ?R)) mod ?N" unfolding r(1) RR(3) by (rule mod_mult_right_eq)
  then have "(wval m * ?R) mod ?N = ((wval a * ?R) * ?R) mod ?N" by (simp add: mult.assoc)
  from cancel_R [OF law this] have v: "wval m = (wval a * ?R) mod ?N" using r(2) by simp
  obtain s where s: "bn_from_montgomery_small m w mont = Some s" "length s = w" "redc mont (wval m) (wval s)"
    using from_small_value [OF law w m(2)] by blast
  have "redc mont (wval m) (wval a)" using lt v by (simp add: redc_def)
  then have "wval s = wval a" using redc_unique [OF law s(3)] by simp
  then have "s = a" using s(2) len by (intro wval_inject) simp_all
  then show ?thesis using m(1) v s(1) by blast
qed

end
