(* ===== verification/Spec2Isabelle.thy ===== *)
theory Spec2Isabelle
  imports Codec Oid Set_Of Unicode Ber_Spec BufMem Base64_Spec Stack_Spec Lhash_Spec Bio_Spec BioMem_Spec BnAdd_Spec BnBits_Spec BnRun BnMont_Spec
begin

text \<open>
  This development is about the C code of the repository that stands on its own: the support
  libraries of BoringSSL under \<open>src/harusari/Pods/BoringSSL-GRPC/src/crypto/\<close> (file names below are
  relative to it). The application itself is Swift; it reaches this code through gRPC and TLS, whose
  parsers, builders, buffers and tables these libraries are.

  Parts and theories, in the order in which they build on one another.

  \<^item> \<open>Prelude\<close>: types, \<open>size_t\<close> arithmetic with its wrap-around (\<open>size_add\<close>, \<open>size_mul\<close>), \<open>memcpy\<close> and
    \<open>memmove\<close> on byte lists, big- and little-endian numbers. \<open>Mem\<close> (\<open>mem.c\<close>): the allocator with its size
    prefix, \<open>CRYPTO_memcmp\<close>, \<open>OPENSSL_hash32\<close>, bounded strings; the locale \<open>array_heap\<close> is what growing
    buffers need of an allocator, interpreted here and, for pointer arrays, in \<open>Stack\<close>.
  \<^item> \<open>Cbs\<close>, \<open>Cbs_Spec\<close>, \<open>Der\<close>, \<open>Der_Values\<close> (\<open>bytestring/cbs.c\<close>): the reader. A \<open>CBS\<close> is a pointer and a
    length: the bytes from the pointer on, and how many belong to the string. \<open>window v t\<close> is the reader
    of \<open>v\<close> with \<open>t\<close> behind it in memory; the rules in \<open>cbs_simps\<close> run every operation on a window, and so
    show that nothing behind the string is read. \<open>der\<close> is the distinguished encoding.
  \<^item> \<open>Cbb\<close>, \<open>Cbb_Spec\<close>, \<open>Cbb_Asn1\<close>, \<open>Cbb_Writers\<close> (\<open>bytestring/cbb.c\<close>): the builder. Its structs live in a
    store, because a parent points to its open child. The abstract state is a stack of frames
    (\<open>cbb_rep\<close>); closing frames (\<open>collapse\<close>) puts the length in front of the contents. \<open>writes\<close> says that an
    operation appends given bytes to the frame it is called on.
  \<^item> \<open>Codec\<close>: the locales \<open>codec\<close> and \<open>strict_codec\<close>, a writer of the builder against a reader, interpreted
    for the fixed-width integers in both orders and for the ASN.1 values; \<open>Unicode\<close> (\<open>bytestring/unicode.c\<close>)
    interprets them for UTF-8, UCS-2, UTF-32 and Latin-1. \<open>Oid\<close>: object identifiers and their text.
    \<open>Set_Of\<close>: sorting a SET OF. \<open>Ber\<close>, \<open>Ber_Spec\<close> (\<open>bytestring/ber.c\<close>): from BER to DER, specified on
    trees; \<open>scan\<close> is what the search for BER computes, \<open>uses_ber\<close> what it should. A builder fails only
    where it is \<open>outgrown\<close> or \<open>heap_short\<close>: the allocator has refused a block of bounded size.
  \<^item> \<open>BufMem\<close> (\<open>buf/buf.c\<close>); \<open>ConstTime\<close> (\<open>internal.h\<close>); \<open>Base64\<close>, \<open>Base64_Spec\<close> (\<open>base64/base64.c\<close>) with its
    encoder and decoder in one block and as streams.
  \<^item> \<open>Comparator\<close>: the locale of a comparison function and what \<open>qsort\<close> does with it. \<open>Stack\<close>, \<open>Stack_Spec\<close>
    (\<open>stack/stack.c\<close>): pointer arrays with their sorted flag; \<open>stack_run\<close> are the reachable ones,
    with a ghost that records whether an element was replaced behind the flag (\<open>sk_set\<close> does not clear it).
    \<open>Lhash\<close>, \<open>Lhash_Spec\<close> (\<open>lhash/lhash.c\<close>): chained hash tables; the locale \<open>hashing\<close> is the contract of
    the hash and comparison functions, \<open>lh_run\<close> simulates a finite map.
  \<^item> \<open>Bio\<close>, \<open>Bio_Spec\<close> (\<open>bio/bio.c\<close>): I/O objects on a heap, called through a method table that is a parameter;
    the locale \<open>byte_source\<close> is what \<open>BIO_read_asn1\<close> needs of a stream. \<open>BioPair\<close>, \<open>BioPair_Spec\<close>
    (\<open>bio/pair.c\<close>): two connected objects with ring buffers; \<open>pair_run\<close> are the runs on both ends, and a
    pair is interpreted as a \<open>byte_source\<close>. \<open>BioMem\<close>, \<open>BioMem_Spec\<close> (\<open>bio/bio_mem.c\<close>): buffers as objects;
    \<open>mem_run\<close> are their runs.
  \<^item> \<open>BnWords\<close> (\<open>fipsmodule/bn/generic.c\<close> and the word functions of \<open>bn.c\<close>, \<open>cmp.c\<close>, \<open>shift.c\<close>, \<open>div.c\<close>) and
    \<open>BnMul\<close> (\<open>mul.c\<close>): arithmetic on arrays of 64-bit words, low word first. \<open>wval\<close> is the number that an
    array holds; \<open>BnWords_Spec\<close>, \<open>BnComba_Spec\<close>, \<open>BnMul_Spec\<close> give the value of every result and carry.
  \<^item> \<open>Bn\<close> (\<open>bn.c\<close>, \<open>cmp.c\<close>, \<open>add.c\<close>, \<open>shift.c\<close>): \<open>BIGNUM\<close>, with its array, width, capacity, sign and flags.
    \<open>bn_int\<close> is the integer, \<open>bn_wf\<close> the shape, \<open>bn_ok\<close> adds that zero has no sign; \<open>roomy\<close> says that a size can
    be had. \<open>Bn_Spec\<close>, \<open>BnAdd_Spec\<close>, \<open>BnBits_Spec\<close>: storage, sums and comparison, shifts and bits.
  \<^item> \<open>BnCtx\<close> (\<open>ctx.c\<close>): pools of temporaries, \<open>ctx_keeps\<close> being what an operation that uses one promises of the
    numbers in use. \<open>BnProd\<close>, \<open>BnProd_Spec\<close> (\<open>mul.c\<close>): products. \<open>BnDiv\<close>, \<open>BnDiv_Spec\<close>, \<open>BnMod_Spec\<close>,
    \<open>BnDivWord_Spec\<close> (\<open>div.c\<close>): division, residues, words and powers of two. \<open>computes\<close>, \<open>returns\<close> and
    \<open>divides\<close> state the result, the pool and the reasons of a failure at once; \<open>starved\<close> is want of memory.
    \<open>BnMont\<close>, \<open>BnMont_Spec\<close> (\<open>montgomery.c\<close>, \<open>montgomery_inv.c\<close>): \<open>redc\<close> is division by \<open>R\<close> modulo \<open>N\<close>.
    \<open>BnRun\<close>: programs over big numbers, simulated by programs over integers.

  Conventions. An \<open>int\<close> result that is 0 or 1 is a \<open>bool\<close>, an output parameter is a component of the
  result, \<open>NULL\<close> is \<open>None\<close>. \<open>size_t\<close> is a \<open>nat\<close> with the wrap-around written out, other integers are words
  of their width. Operands are passed by value: where the source tests whether two pointers are equal, or
  writes a result that is an operand, a flag \<open>same\<close> says so; a temporary is a position in its pool, and
  arrays that are only scratch space are kept in size, not in contents. \<open>malloc\<close> of the C library is the parameter \<open>libc\<close>; \<open>libc_wf\<close> says that a block it returns
  has the requested size and that none is larger than \<open>ADDRESS_SPACE\<close>, \<open>2 ^ 62\<close> bytes. \<open>qsort\<close> is a
  parameter where the order of equal elements could matter. The code of the big numbers is the one of a
  64-bit build without assembly and with a 128-bit integer type; \<open>assert\<close> is a premise where one is needed.

  Fuel and loops. \<open>convert_ber_rec\<close> has one unit of fuel per byte of input, which the theorem on the
  conversion shows to be enough for every well-formed input; \<open>CBB_flush_rec\<close> has one per struct. The
  copy loops of \<open>bio_read\<close> and \<open>bio_write\<close> and the loops that read a stream are partial functions whose
  results, and so their ends, are proved. All other loops are total.

  The theorems below are the properties of the components and of their composition. Those with
  hypotheses are followed by an instance of them on concrete data.

  Not modelled: the error queue (\<open>err/\<close>), thread-local data and locks, \<open>BIO_snprintf\<close>; callbacks of
  \<open>lh_doall_arg\<close> that change the table; setters of single fields of \<open>BIO\<close> and \<open>BIO_METHOD\<close>; the functions
  that only release memory. Of the big numbers: \<open>BN_div\<close> and what calls it, exponentiation, \<open>gcd\<close>, primes,
  random numbers, conversions. Elliptic curves, RSA, digests, ciphers, X.509, libssl, gRPC, nanopb and
  the Objective-C and Swift code are outside this development.
\<close>

section \<open>Reading DER\<close>

text \<open>
  C1: \<open>CBS_get_asn1\<close> succeeds exactly on the strings that start with the distinguished encoding of
  the requested tag and of contents shorter than \<open>2 ^ 32\<close> bytes; it returns the contents and leaves
  the reader behind the element, whatever lies in memory behind the string.
\<close>

theorem get_asn1_exact:
  "CBS_get_asn1 (window v t) tag = (Some out, c) \<longleftrightarrow>
   (\<exists>body r. v = der tag body @ r \<and> length body < 2 ^ 32 \<and>
             out = window body (r @ t) \<and> c = window r t)"
  using get_asn1_sound [of v t tag out c] by (auto simp: cbs_simps)

text \<open>
  C2: \<open>parse_asn1_tag\<close> accepts exactly the shortest identifier octets of a tag: no tag number has
  two spellings, and all 29 bits of a tag number are read, not only numbers below 31.
\<close>

theorem asn1_tag_exact:
  "parse_asn1_tag (window v t) = (Some tag, c) \<longleftrightarrow> (\<exists>r. v = der_tag tag @ r \<and> c = window r t)"
  using asn1_tag.reader_iff [of v t tag c] by simp

text \<open>
  \<open>CBS_get_asn1_int64\<close> accepts an INTEGER exactly if its contents are the shortest two's-complement
  octets of a value of 64 bits, and stores that value.
\<close>

lemma asn1_int64_exact:
  "CBS_get_asn1_int64 (window v t) = (Some x, c) \<longleftrightarrow>
   (\<exists>p r. v = der CBS_ASN1_INTEGER p @ r \<and> c = window r t \<and>
          asn1_int_minimal p \<and> length p \<le> 8 \<and> sbe_val p = sint x)"
  using get_asn1_int64_iff [of v t x c] by metis

text \<open>
  \<open>CBS_asn1_bitstring_has_bit\<close> numbers the bits from the most significant bit of the first byte,
  answers no beyond the end, and answers no for every bit of a string that is not valid DER.
\<close>

lemma bitstring_bits:
  "CBS_asn1_bitstring_has_bit (window v t) n \<longleftrightarrow>
   bitstring_ok v \<and> unat n div 8 < length (tl v) \<and> bit (tl v ! (unat n div 8)) (7 - unat n mod 8)"
  by (rule bitstring_has_bit_window)

text \<open>
  The constant-time comparison of a string with \<open>n\<close> bytes of memory is equality: every byte
  counts, and nothing behind the string or behind the \<open>n\<close> bytes does.
\<close>

lemma mem_equal_exact:
  "CBS_mem_equal (window v t) (p @ q) (length p) \<longleftrightarrow> v = p"
proof -
  have "CRYPTO_memcmp (v @ t) (p @ q) (length p) = 0 \<longleftrightarrow> (\<forall>i < length p. (v @ t) ! i = (p @ q) ! i)"
    by (simp only: CRYPTO_memcmp_def memcmp_loop_zero) auto
  then show ?thesis by (auto simp: CBS_mem_equal_def window_def list_eq_iff_nth_eq nth_append)
qed

text \<open>
  A code point is read from UTF-8 exactly if it is a valid one in its shortest form: surrogates,
  noncharacters, values beyond \<open>0x10ffff\<close> and overlong forms are all rejected.
\<close>

lemma utf8_exact:
  "cbs_get_utf8 (window w t) = (Some x, c) \<longleftrightarrow>
   is_valid_code_point x \<and> (\<exists>r. w = utf8 (unat x) @ r \<and> c = window r t)"
  by (rule utf8.reader_iff)

section \<open>Building\<close>

text \<open>An allocator for the witnesses: \<open>plain_env\<close> hands out up to 1024 zero bytes.\<close>

lemma plain_malloc:
  assumes "n \<le> 1000"
  shows "\<exists>b. heap_malloc (fst plain_env) n = Some b" and "\<exists>b. heap_realloc (fst plain_env) d n = Some b"
  using assms
  by (auto simp: plain_env_def heap_malloc_def heap_realloc_def OPENSSL_realloc_def OPENSSL_malloc_def
      OPENSSL_MALLOC_PREFIX_def size_add_exact SIZE_MOD_def Let_def split: option.splits)

lemma plain_array:
  assumes "n \<le> 1000"
  shows "\<exists>d. array_malloc (fst plain_env, f) w n = Some d" and "\<exists>d. array_realloc (fst plain_env, f) w xs n = Some d"
  using plain_malloc [OF assms] by (auto simp: array_malloc_def array_realloc_def split: option.splits)

lemma plain_memory [simp]:
  assumes "cap \<le> 1000" and "n \<le> 500"
  shows "\<not> heap_short (fst plain_env) cap n"
proof -
  have "heap_malloc (fst plain_env) m \<noteq> None" if "m \<le> 1000" for m using plain_malloc(1) [OF that] by auto
  moreover have "SIZEOF_CBB_BUFFER \<le> 1000" by (simp add: SIZEOF_CBB_BUFFER_def)
  ultimately show ?thesis using assms by (auto simp: heap_short_def)
qed

lemma plain_init: "cap \<le> 1000 \<Longrightarrow> fst (CBB_init (fst plain_env) st h cap)"
  by (simp add: CBB_init_def cbb_init_def Let_def plain_env_def heap_malloc_def OPENSSL_malloc_def OPENSSL_MALLOC_PREFIX_def
      size_add_exact SIZE_MOD_def SIZEOF_CBB_BUFFER_def)

text \<open>
  C3: \<open>CBB_flush\<close> refines closing the open children of a stack of frames. Where the lengths of all
  children fit their prefixes, the builder then holds the parent's bytes followed by the children's,
  each behind its length; otherwise, or where the buffer is too small and cannot grow, it
  fails and is in error.
\<close>

theorem flush_refines:
  assumes "cbb_rep st (ps @ h # qs) (gs @ (k, b) # ys)" and "length ps = length gs" and "libc_wf libc"
  shows "cbb_result libc st (ps @ [h]) (map_option (\<lambda>c. gs @ [(k, b @ c)]) (collapse ys)) (CBB_flush libc st h)"
  by (rule CBB_flush_result [OF assms])

definition open_builder :: cbb_mem where
  "open_builder = \<lparr>base_buf = Some [1, 0, 7, 8, 0, 0], base_len = 4, base_cap = 6, can_resize = False,
     base_error = False, cbb_at = (\<lambda>h. \<lparr>has_base = True, child = (if h = 0 then Some 1 else None),
       cbb_offset = (if h = 0 then 0 else 1), pending_len_len = (if h = 0 then 0 else 1),
       pending_is_asn1 = False, is_child = (h \<noteq> 0)\<rparr>), cbb_objects = 2\<rparr>"

theorem flush_refines_witness:
  "cbb_rep open_builder [0, 1] [(Top, [1]), (Prefixed 1, [7, 8])] \<and>
   cbb_result (fst plain_env) open_builder [0] (Some [(Top, [1, 2, 7, 8])]) (CBB_flush (fst plain_env) open_builder 0)"
proof -
  have "cbb_rep open_builder ([] @ 0 # [1]) ([] @ (Top, [1]) # [(Prefixed 1, [7, 8])])"
    by (simp add: open_builder_def cbb_rep_def buf_ok_def valid_bytes_def base_bytes_def ADDRESS_SPACE_def frames_ok_def)
  from this flush_refines [OF this _ plain_env_wf] show ?thesis by (simp add: be_bytes_numerals)
qed

text \<open>
  C4: signed integers written one after another by \<open>CBB_add_asn1_int64\<close> are read back in order by
  \<open>CBS_get_asn1_int64\<close> with nothing left over. Building fails only where the heap refuses the builder,
  its first buffer, or, for an initial capacity that is too small, a buffer of at most twice the
  bytes that are written.
\<close>

theorem int64_round_trip:
  assumes "libc_wf libc" and "xs \<noteq> []" and "cap \<le> ADDRESS_SPACE" and "2 \<le> cbb_objects st"
  shows "case build libc st cap (put_list (\<lambda>x st h. CBB_add_asn1_int64 libc 1 st h x) xs) of
      Some out \<Rightarrow> out = concat (map (\<lambda>x. der CBS_ASN1_INTEGER (asn1_int x)) xs) \<and>
        get_list CBS_get_asn1_int64 (length xs) (CBS_init out (length out)) = (Some xs, window [] [])
    | None \<Rightarrow> heap_short libc cap (length (concat (map (\<lambda>x. der CBS_ASN1_INTEGER (asn1_int x)) xs)))"
  using asn1_int64.build_result [OF assms(1) _ assms(2,3), of st] assms(4) by auto

theorem int64_round_trip_witness:
  "\<exists>out. build (fst plain_env) (fresh_cbb_mem\<lparr>cbb_objects := 2\<rparr>) 1
      (put_list (\<lambda>x st h. CBB_add_asn1_int64 (fst plain_env) 1 st h x) [5, - 300]) = Some out \<and>
    get_list CBS_get_asn1_int64 (length [5 :: u64, - 300]) (CBS_init out (length out)) = (Some [5, - 300], window [] [])"
  (is "\<exists>out. ?b = Some out \<and> _ out")
proof -
  have "length (der CBS_ASN1_INTEGER (asn1_int x)) \<le> 10" for x
    using asn1_int_spec(2) [of x]
    by (simp add: length_der der_header_len_def der_tag_def der_len_def tag_num_def CBS_ASN1_INTEGER_def CBS_ASN1_TAG_NUMBER_MASK_def)
  from this [of 5] this [of "- 300"]
  have "length (concat (map (\<lambda>x. der CBS_ASN1_INTEGER (asn1_int x)) [5, - 300])) \<le> 64"
    by simp
  then have "\<not> heap_short (fst plain_env) 1 (length (concat (map (\<lambda>x. der CBS_ASN1_INTEGER (asn1_int x)) [5, - 300])))"
    by simp
  then show ?thesis
    using int64_round_trip [OF plain_env_wf, of "[5, - 300]" 1 "fresh_cbb_mem\<lparr>cbb_objects := 2\<rparr>"]
    by (cases ?b) (simp_all add: ADDRESS_SPACE_def)
qed

text \<open>
  C5: a text of valid code points written as UTF-8 is read back code point by code point. The text
  takes as many bytes as \<open>cbb_get_utf8_len\<close> says of its code points together, and building fails
  only where the heap refuses the memory for them.
\<close>

theorem utf8_text_round_trip:
  assumes "libc_wf libc" and "\<forall>u \<in> set us. is_valid_code_point u" and "us \<noteq> []"
    and "cap \<le> ADDRESS_SPACE" and "0 < cbb_objects st"
  shows "case build libc st cap (put_list (\<lambda>u st h. cbb_add_utf8 libc st h u) us) of
      Some out \<Rightarrow> out = concat (map (\<lambda>u. utf8 (unat u)) us) \<and> length out = sum_list (map cbb_get_utf8_len us) \<and>
        get_list cbs_get_utf8 (length us) (CBS_init out (length out)) = (Some us, window [] [])
    | None \<Rightarrow> heap_short libc cap (sum_list (map cbb_get_utf8_len us))"
proof -
  have eq: "length (concat (map (\<lambda>u. utf8 (unat u)) us)) = sum_list (map cbb_get_utf8_len us)"
    by (induction us) (simp_all add: utf8_length)
  have "0 \<notin> {}" "{} \<subseteq> {..< cbb_objects st}" by simp_all
  from utf8.build_result [OF assms this] eq show ?thesis by (auto split: option.splits)
qed

theorem utf8_text_round_trip_witness:
  "\<exists>out. build (fst plain_env) (fresh_cbb_mem\<lparr>cbb_objects := 1\<rparr>) 1
      (put_list (\<lambda>u st h. cbb_add_utf8 (fst plain_env) st h u) [0x41, 0x20ac]) = Some out \<and> length out = 4 \<and>
    get_list cbs_get_utf8 (length [0x41 :: u32, 0x20ac]) (CBS_init out (length out)) = (Some [0x41, 0x20ac], window [] [])"
  (is "\<exists>out. ?b = Some out \<and> _ out")
proof -
  have valid: "\<forall>u \<in> set [0x41, 0x20ac]. is_valid_code_point u" by (simp add: is_valid_code_point_def)
  have len: "sum_list (map cbb_get_utf8_len [0x41, 0x20ac]) = 4" by (simp add: cbb_get_utf8_len_def)
  have "[0x41, 0x20ac :: u32] \<noteq> []" "1 \<le> ADDRESS_SPACE" "0 < cbb_objects (fresh_cbb_mem\<lparr>cbb_objects := 1\<rparr>)"
    by (simp_all add: ADDRESS_SPACE_def)
  note r = utf8_text_round_trip [OF plain_env_wf valid this, unfolded len]
  show ?thesis
  proof (cases ?b)
    case None
    then show ?thesis using r by simp
  next
    case (Some out)
    with r show ?thesis unfolding Some option.case by blast
  qed
qed

text \<open>
  C6: \<open>CBB_add_asn1_oid_from_text\<close> accepts exactly the dotted decimal texts of object identifiers
  whose components are below \<open>2 ^ 64\<close> and whose first two components are in range, and writes the
  contents octets of that identifier; on an accepted text only the buffer can make it fail.
\<close>

theorem oid_text_accepted:
  assumes "libc_wf libc" and "cap \<le> ADDRESS_SPACE" and "0 < cbb_objects st"
  shows "case build libc st cap (\<lambda>st h. CBB_add_asn1_oid_from_text libc st h (txt @ t) (length txt)) of
      Some out \<Rightarrow> \<exists>n ns. oid_ok n ns \<and> txt = oid_text n ns \<and> out = oid_contents n ns
    | None \<Rightarrow> fst (CBB_init libc st 0 cap) \<longrightarrow>
        (\<forall>n ns. oid_ok n ns \<and> txt = oid_text n ns \<longrightarrow> cap < length (oid_contents n ns))"
proof -
  let ?op = "\<lambda>st h. CBB_add_asn1_oid_from_text libc st h (txt @ t) (length txt)"
  have written: "build libc st cap ?op = Some (oid_contents n ns) \<or>
      build libc st cap ?op = None \<and> (fst (CBB_init libc st 0 cap) \<longrightarrow> cap < length (oid_contents n ns))"
    if "oid_ok n ns" "txt = oid_text n ns" for n ns
    using build_writes [OF assms(1) writes_oid_from_text [OF assms(1) that(1), of t] assms(2,3)] that(2) by auto
  show ?thesis
  proof (cases "build libc st cap ?op")
    case None
    have "cap < length (oid_contents n ns)"
      if "fst (CBB_init libc st 0 cap)" "oid_ok n ns" "txt = oid_text n ns" for n ns
      using written [OF that(2,3)] None that(1) by simp
    then show ?thesis using None by simp
  next
    case (Some out)
    then obtain st1 st2 where "?op st1 0 = (True, st2)" using assms by (rule build_SomeE)
    then obtain n ns where "oid_ok n ns" "txt = oid_text n ns" using oid_from_text_sound by blast
    with written [OF this] Some show ?thesis by auto
  qed
qed

theorem oid_text_accepted_witness:
  "\<exists>out n ns. build (fst plain_env) (fresh_cbb_mem\<lparr>cbb_objects := 1\<rparr>) 64
     (\<lambda>st h. CBB_add_asn1_oid_from_text (fst plain_env) st h ([0x31, 0x2e, 0x32] @ [0]) (length [0x31 :: u8, 0x2e, 0x32])) = Some out \<and>
   oid_ok n ns \<and> [0x31, 0x2e, 0x32] = oid_text n ns \<and> out = oid_contents n ns"
  (is "\<exists>out n ns. ?b = Some out \<and> _ out n ns")
proof -
  have f: "oid_text 42 [] = [0x31, 0x2e, 0x32]" "oid_contents 42 [] = [42]" "oid_ok 42 []"
    by (simp_all add: oid_text_def oid_contents_def oid_ok_def dotted_def decimal_small b128_def)
  note r = oid_text_accepted [OF plain_env_wf, of 64 "fresh_cbb_mem\<lparr>cbb_objects := 1\<rparr>" "[0x31, 0x2e, 0x32]" "[0]"]
  show ?thesis
  proof (cases ?b)
    case None
    then have "\<forall>n ns. oid_ok n ns \<and> [0x31, 0x2e, 0x32] = oid_text n ns \<longrightarrow> 64 < length (oid_contents n ns)"
      using r plain_init by (simp add: ADDRESS_SPACE_def)
    then have "64 < length (oid_contents 42 [])" using f by metis
    then show ?thesis by (simp add: f)
  next
    case (Some out)
    then show ?thesis using r by (simp add: ADDRESS_SPACE_def)
  qed
qed

text \<open>
  \<open>CBS_asn1_oid_to_text\<close> is the converse: it prints the one identifier with the given contents,
  with a final zero byte, and returns \<open>NULL\<close> for contents that are not an identifier's.
\<close>

lemma oid_text_printed:
  assumes "libc_wf libc"
  shows "case CBS_asn1_oid_to_text libc (window oid t) of
      Some txt \<Rightarrow> \<exists>n ns. oid_ok n ns \<and> oid = oid_contents n ns \<and>
        take (Suc (length (oid_text n ns))) txt = oid_text n ns @ [0]
    | None \<Rightarrow> \<forall>n ns. oid_ok n ns \<and> oid = oid_contents n ns \<longrightarrow>
        \<not> fst (CBB_init libc fresh_cbb_mem 0 32) \<or> 32 < Suc (length (oid_text n ns))"
  using oid_to_text_cases [OF assms] .

text \<open>
  C7: \<open>CBB_flush_asn1_set_of\<close> sorts: what was written to a SET must be a sequence of DER elements, and
  it becomes the same elements in the lexicographic order of their encodings; anything else is
  refused, and for elements only memory can run out.
\<close>

theorem set_of_sorted:
  assumes libc: "libc_wf libc" and cap: "cap \<le> ADDRESS_SPACE" and st: "0 < cbb_objects st" and d: "length d \<le> ADDRESS_SPACE"
  shows "case build libc st cap (seq_writer (\<lambda>st h. CBB_add_bytes libc st h d (length d)) (CBB_flush_asn1_set_of libc)) of
      Some out \<Rightarrow> \<exists>es. d = concat es \<and> (\<forall>e \<in> set es. is_der e) \<and> out = concat (sort es)
    | None \<Rightarrow> fst (CBB_init libc st 0 cap) \<and> length d \<le> cap \<longrightarrow>
        (\<forall>es. d = concat es \<and> (\<forall>e \<in> set es. is_der e) \<longrightarrow> heap_malloc libc (length d) = None \<or>
           OPENSSL_malloc libc (length es * SIZEOF_CBS) = None \<or> (SIZE_MOD - 1) div SIZEOF_CBS < length es)"
proof (cases "fst (CBB_init libc st 0 cap)")
  case False
  then show ?thesis by (auto simp: build_def split: prod.splits bool.splits)
next
  case True
  let ?add = "\<lambda>st h. CBB_add_bytes libc st h d (length d)"
  let ?op = "seq_writer ?add (CBB_flush_asn1_set_of libc)"
  obtain st1 ok st2 where rep: "cbb_rep st1 [0] [(Top, [])]" "cbb_objects st1 = cbb_objects st" and c: "base_cap st1 = cap" and op: "?op st1 0 = (ok, st2)"
    and fails: "\<not> ok \<longrightarrow> build libc st cap ?op = None"
    and builds: "\<forall>bs. ok \<and> cbb_rep st2 [0] [(Top, bs)] \<longrightarrow> build libc st cap ?op = Some bs"
    by (rule build_cases [OF libc cap st True, of ?op])
  obtain ok1 st3 where add: "?add st1 0 = (ok1, st3)" by fastforce
  have added: "cbb_result libc st1 [0] (Some [(Top, d)]) (ok1, st3)"
    using writesD_last [OF writes_bytes [OF libc order_refl d], of st1 "[]" 0 "[]" Top "[]"] rep add by simp
  show ?thesis
  proof (cases ok1)
    case False
    then have "\<not> ok" using op add by (auto simp: seq_writer_def)
    moreover have "cap < length d" using added c False by (auto simp: cbb_result_def dest: outgrownD)
    ultimately show ?thesis using fails by simp
  next
    case True
    with added have rep3: "cbb_rep st3 [0] [(Top, d)]" by (simp add: cbb_result_def)
    have sets: "CBB_flush_asn1_set_of libc st3 0 = (ok, st2)" using op add True by (simp add: seq_writer_def)
    obtain st4 where fl: "CBB_flush libc st3 0 = (True, st4)" and rep4: "cbb_rep st4 ([] @ [0]) ([] @ [(Top, d)])"
      using flush_keeps [OF rep3 libc] by auto
    show ?thesis
    proof (cases ok)
      case True
      then show ?thesis using flush_set_of_flushed [OF rep4 _ libc fl sets] builds by auto
    next
      case False
      have "heap_malloc libc (length d) = None \<or> OPENSSL_malloc libc (length es * SIZEOF_CBS) = None \<or>
          (SIZE_MOD - 1) div SIZEOF_CBS < length es" if "d = concat es" "\<forall>e \<in> set es. is_der e" for es
        using flush_set_of_fails [of st4 "[]" 0 "[]" Top es libc st3 st2] rep4 libc fl sets that False by simp
      then show ?thesis using fails False by simp
    qed
  qed
qed

theorem set_of_sorted_witness:
  "\<exists>out es. build (fst plain_env) (fresh_cbb_mem\<lparr>cbb_objects := 1\<rparr>) 64
     (seq_writer (\<lambda>st h. CBB_add_bytes (fst plain_env) st h [2, 1, 5, 2, 1, 3] (length [2 :: u8, 1, 5, 2, 1, 3]))
       (CBB_flush_asn1_set_of (fst plain_env))) = Some out \<and>
    [2, 1, 5, 2, 1, 3] = concat es \<and> (\<forall>e \<in> set es. is_der e) \<and> out = concat (sort es)"
  (is "\<exists>out es. ?b = Some out \<and> _ out es")
proof -
  have w: "libc_wf (fst plain_env)" "(64 :: nat) \<le> ADDRESS_SPACE" "0 < cbb_objects (fresh_cbb_mem\<lparr>cbb_objects := 1\<rparr>)"
      "length [2 :: u8, 1, 5, 2, 1, 3] \<le> ADDRESS_SPACE" by (simp_all add: plain_env_wf ADDRESS_SPACE_def)
  have tlv: "is_der [2, 1, b]" for b
  proof -
    have "der 2 [b] = [2, 1, b]" by (simp add: der_def der_tag_def tag_num_def tag_lead_def der_len_def CBS_ASN1_TAG_NUMBER_MASK_def)
    then show ?thesis unfolding is_der_def by (intro exI [of _ 2] exI [of _ "[b]"]) simp
  qed
  have "?b \<noteq> None"
  proof
    assume "?b = None"
    with set_of_sorted [OF w] have "\<forall>es. [2, 1, 5, 2, 1, 3] = concat es \<and> (\<forall>e \<in> set es. is_der e) \<longrightarrow>
        heap_malloc (fst plain_env) (length [2 :: u8, 1, 5, 2, 1, 3]) = None \<or>
        OPENSSL_malloc (fst plain_env) (length es * SIZEOF_CBS) = None \<or> (SIZE_MOD - 1) div SIZEOF_CBS < length es"
      by (simp add: plain_init)
    from this [THEN spec, of "[[2, 1, 5], [2, 1, 3]]"] show False
      by (simp add: tlv heap_malloc_def OPENSSL_malloc_def plain_env_def SIZE_MOD_def SIZEOF_CBS_def size_add_exact
          OPENSSL_MALLOC_PREFIX_def)
  qed
  then show ?thesis using set_of_sorted [OF w] by auto
qed

section \<open>From BER to DER\<close>

text \<open>
  C8: on a sequence of well-formed elements \<open>CBS_asn1_ber_to_der\<close> does one of two things. Where its
  search (\<open>scan\<close>) finds BER, all elements of the input are converted and the reader ends up empty:
  indefinite lengths become definite, constructed strings are joined into primitive ones. That
  fails only for a string with a fragment of another type, for contents too long for their length
  octets, or because an allocation is refused. Where the search finds nothing the first element is
  returned as it stands, without a copy, and the reader stands behind it.
\<close>

theorem ber_to_der:
  assumes "\<forall>u \<in> set ts. ber_ok u" and "heights ts \<le> kMaxDepth" and "libc_wf libc"
    and "length (encs ts) \<le> ADDRESS_SPACE"
  shows "if scan False ts
    then (\<exists>u \<in> set ts. uses_ber u) \<and>
      (case CBS_asn1_ber_to_der libc (window (encs ts) t) of
         (Some (out, storage), c) \<Rightarrow> to_ders 0 ts = Some (cbs_view out) \<and> cbs_wf out \<and> c = window [] t
       | (None, c) \<Rightarrow> \<forall>d. to_ders 0 ts = Some d \<longrightarrow> heap_short libc (length (encs ts)) (length d))
    else CBS_asn1_ber_to_der libc (window (encs ts) t) =
      (case ts of [] \<Rightarrow> (None, window [] t)
       | u # us \<Rightarrow> (Some (window (enc u) (encs us @ t), None), window (encs us) t))"
  using convert_result [OF assms(1-3) _ assms(4)] first_is_kept [OF assms(1,2)] scan_uses [of False ts] by simp

theorem ber_to_der_witness:
  "\<exists>out storage. CBS_asn1_ber_to_der (fst plain_env) (window [0x24, 0x80, 4, 1, 7, 0, 0] []) = (Some (out, storage), window [] []) \<and>
     cbs_view out = [4, 1, 7]"
proof -
  let ?ts = "[Con 0x20000004 True [Prim 4 [7]]]"
  have tags: "der_tag 0x20000004 = [0x24]" "der 4 [7] = [4, 1, 7]" by code_simp+
  have e: "encs ?ts = [0x24, 0x80, 4, 1, 7, 0, 0]" by (simp add: tags)
  have d: "to_ders 0 ?ts = Some [4, 1, 7]" by (simp add: is_string_type_def CBS_ASN1_CONSTRUCTED_def tags)
  have h: "heights ?ts \<le> kMaxDepth" "length (encs ?ts) \<le> ADDRESS_SPACE" "scan False ?ts" "\<forall>u \<in> set ?ts. ber_ok u"
    unfolding e by (simp_all add: kMaxDepth_def ADDRESS_SPACE_def CBS_ASN1_CONSTRUCTED_def)
  have "\<not> heap_short (fst plain_env) 7 3" by (simp add: plain_memory)
  then show ?thesis
    using ber_to_der [OF h(4,1) plain_env_wf h(2), of "[]"] h(3) unfolding d e
    by (auto split: prod.splits option.splits)
qed

text \<open>
  C9: \<open>cbs_find_ber\<close> misses BER: the recursive call for a constructed element stores 0 in the flag
  again. A constructed element whose last constructed members hold no BER, and whose members are
  not BER themselves, is returned unconverted, whatever the earlier members hold inside. If one of
  them holds BER the element that is returned is not the DER encoding of its value.
\<close>

theorem ber_is_missed:
  assumes "w = Con tag False (us @ Con tag' False vs # ps)" and "ber_ok w" and "height w \<le> kMaxDepth"
    and "\<not> is_string_type tag" and "\<not> is_string_type tag'" and "\<forall>u \<in> set us. \<not> marked u"
    and "\<forall>v \<in> set vs \<union> set ps. \<not> uses_ber v" and "\<exists>u \<in> set us. uses_ber u"
  shows "CBS_asn1_ber_to_der libc (window (enc w) t) = (Some (window (enc w) t, None), window [] t) \<and>
     to_der 0 w \<noteq> Some (enc w)"
proof
  have "\<not> scan False [w]" using scan_forgets [OF assms(6,5,7)] assms(1,4) by simp
  then show "CBS_asn1_ber_to_der libc (window (enc w) t) = (Some (window (enc w) t, None), window [] t)"
    using first_is_kept [of "[w]" libc t] assms(2,3) by simp
  have "uses_ber w" using assms(1,8) by auto
  then show "to_der 0 w \<noteq> Some (enc w)" using ders_without_ber [of "[w]" "enc w" "[]" "[]"] assms(2) by auto
qed

definition hidden_ber :: ber where
  "hidden_ber = Con 0x20000010 False [Con 0x20000010 False [Con 0x20000004 False []], Con 0x20000010 False []]"

theorem ber_is_missed_witness:
  "enc hidden_ber = [0x30, 6, 0x30, 2, 0x24, 0, 0x30, 0] \<and>
   to_der 0 hidden_ber = Some [0x30, 6, 0x30, 2, 4, 0, 0x30, 0] \<and>
   CBS_asn1_ber_to_der (fst plain_env) (window (enc hidden_ber) []) = (Some (window (enc hidden_ber) [], None), window [] []) \<and>
   to_der 0 hidden_ber \<noteq> Some (enc hidden_ber)"
proof -
  have tags: "der_tag 0x20000004 = [0x24]" "der_tag 0x20000010 = [0x30]" "der_tag 4 = [4]" by code_simp+
  note ders = der_def der_len_def tags
  have str: "\<not> is_string_type 0x20000010" "is_string_type 0x20000004" by code_simp+
  have "hidden_ber = Con 0x20000010 False ([Con 0x20000010 False [Con 0x20000004 False []]] @ Con 0x20000010 False [] # [])"
    by (simp add: hidden_ber_def)
  moreover have "ber_ok hidden_ber" by (simp add: hidden_ber_def ders CBS_ASN1_CONSTRUCTED_def)
  moreover have "height hidden_ber \<le> kMaxDepth" by (simp add: hidden_ber_def kMaxDepth_def)
  ultimately have "CBS_asn1_ber_to_der (fst plain_env) (window (enc hidden_ber) []) = (Some (window (enc hidden_ber) [], None), window [] []) \<and>
      to_der 0 hidden_ber \<noteq> Some (enc hidden_ber)"
    by (rule ber_is_missed) (simp_all add: str)
  moreover have "enc hidden_ber = [0x30, 6, 0x30, 2, 0x24, 0, 0x30, 0]" by (simp add: hidden_ber_def ders)
  moreover have "to_der 0 hidden_ber = Some [0x30, 6, 0x30, 2, 4, 0, 0x30, 0]"
    by (simp add: hidden_ber_def ders str CBS_ASN1_CONSTRUCTED_def)
  ultimately show ?thesis by blast
qed

section \<open>Memory and growing buffers\<close>

text \<open>
  C10: \<open>OPENSSL_malloc\<close> adds the eight bytes of its prefix without a check. For the eight largest
  sizes the sum wraps, and the C library is asked for less than the prefix that is then written.
\<close>

theorem malloc_size_wraps:
  assumes "SIZE_MOD - 8 \<le> n" and "n < SIZE_MOD"
  shows "OPENSSL_malloc libc n = map_option (\<lambda>ptr. mem_write ptr 0 (le_bytes 8 n)) (libc (n - (SIZE_MOD - 8)))
     \<and> n - (SIZE_MOD - 8) < OPENSSL_MALLOC_PREFIX"
proof -
  have "size_add n 8 = n - (SIZE_MOD - 8)"
    using assms unfolding size_add_def by (subst mod_if) (auto simp: SIZE_MOD_def)
  then show ?thesis using assms
    by (auto simp: OPENSSL_malloc_def OPENSSL_MALLOC_PREFIX_def SIZE_MOD_def split: option.splits)
qed

theorem malloc_size_wraps_witness:
  "OPENSSL_malloc (fst plain_env) (SIZE_MOD - 3) = Some (mem_write (replicate 5 0) 0 (le_bytes 8 (SIZE_MOD - 3)))"
  using malloc_size_wraps [of "SIZE_MOD - 3" "fst plain_env"] by (simp add: SIZE_MOD_def plain_env_def)

text \<open>
  \<open>BUF_MEM_append\<close> appends the bytes or leaves the buffer untouched; it fails only when the
  bytes do not fit and no memory is left, and it keeps the buffer's invariant.
\<close>

lemma buf_append:
  assumes "buf_wf b" and "libc_wf libc" and "len \<le> length src" and "len \<le> ADDRESS_SPACE div 4"
  shows "case BUF_MEM_append libc b src len of (ok, b') \<Rightarrow>
     buf_wf b' \<and> (if ok then contents b' = contents b @ take len src else b' = b \<and> buf_max b < buf_length b + len)"
  by (rule append_result [OF assms])

section \<open>Constant-time selection\<close>

text \<open>
  The branch-free comparisons make the masks that the branch-free selection needs: together they
  choose like a conditional expression, for bytes on unsigned order and for \<open>int\<close> on equality.
\<close>

lemma constant_time_choice:
  "constant_time_select_8 (constant_time_lt_8 a b) x y = (if a < b then x else y) \<and>
   constant_time_select_w (constant_time_ge_w a b) v w = (if b \<le> a then v else w) \<and>
   constant_time_select_int (constant_time_eq_int i j) k l = (if i = j then k else l)"
  by (simp add: consttime)

section \<open>Base64\<close>

lemma b64_char_eq:
  "b64_char n = word_of_nat (let v = n mod 64 in if v < 26 then v + 65 else if v < 52 then v + 71
     else if v < 62 then v - 4 else if v = 62 then 43 else 47)"
  unfolding unat_b64_char [symmetric] by simp

text \<open>
  \<open>EVP_EncodeBlock\<close> writes the base64 text of the input with its padding, then a zero byte, and
  returns the length of the text.
\<close>

lemma encode_block_exact:
  assumes "p \<le> length m" and "n \<le> length src" and "n \<le> 2 ^ 62"
  shows "EVP_EncodeBlock m p src n = (length (b64 (take n src)), mem_write m p (b64 (take n src) @ [0]))"
  by (rule encode_block [OF assms])

text \<open>
  \<open>EVP_EncodedLength\<close> computes the size of the output of \<open>EVP_EncodeBlock\<close> with its zero byte, or
  fails exactly when that size is not a \<open>size_t\<close>.
\<close>

lemma encoded_length_bounds:
  assumes "length src < SIZE_MOD"
  shows "EVP_EncodedLength (length src) =
    (if length (b64 src @ [0]) < SIZE_MOD then Some (length (b64 src @ [0])) else None)"
  using encoded_length [OF assms] by (simp add: length_b64)

text \<open>
  C11: \<open>EVP_DecodeBase64\<close> decodes exactly the texts the reference decoder accepts: whole groups of
  four, padding in the last group only. Otherwise it fails.
\<close>

theorem decode_exact:
  assumes "n \<le> length src" and "n div 4 * 3 \<le> max_out"
  shows "case EVP_DecodeBase64 m max_out src n of (r, m') \<Rightarrow>
      case b64_decode (take n src) of
        None \<Rightarrow> r = None
      | Some x \<Rightarrow> r = Some (length x) \<and> m' = mem_write m 0 x"
  by (rule decode_base64 [OF assms])

theorem decode_exact_witness:
  "case EVP_DecodeBase64 [0, 0, 0] 3 [0x61, 0x47, 0x6b, 0x3d] 4 of (r, m') \<Rightarrow> r = Some 2 \<and> m' = [0x68, 0x69, 0]"
proof -
  have "b64_decode [0x61, 0x47, 0x6b, 0x3d] = Some [0x68, 0x69]"
    by (simp add: b64_value_def be_bytes_numerals)
  then show ?thesis using decode_exact [of 4 "[0x61, 0x47, 0x6b, 0x3d]" 3 "[0, 0, 0]"]
    by (auto simp: mem_write_def split: prod.splits)
qed

text \<open>
  C12: the streaming encoder and decoder are inverse to one another: however the input is cut into
  calls of \<open>EVP_EncodeUpdate\<close>, and however the lines it produces are cut into calls of
  \<open>EVP_DecodeUpdate\<close>, the input comes back.
\<close>

theorem stream_round_trip:
  assumes "\<forall>x \<in> set xs. length x \<le> 2 ^ 30" and "\<forall>y \<in> set ys. length y \<le> 2 ^ 30"
    and "concat ys = encode_pieces m EVP_EncodeInit xs"
  shows "decode_pieces m' EVP_DecodeInit ys = Some (concat xs)"
  by (rule pieces_round_trip [OF assms])

theorem stream_round_trip_witness:
  "\<exists>ys. concat ys = encode_pieces [] EVP_EncodeInit [[1], [2, 3]] \<and> decode_pieces [] EVP_DecodeInit ys = Some [1, 2, 3]"
proof -
  let ?e = "encode_pieces [] EVP_EncodeInit [[1], [2, 3]]"
  have "concat (map (\<lambda>b. [b]) ?e) = ?e" by (induction ?e) auto
  moreover have "\<forall>y \<in> set (map (\<lambda>b. [b]) ?e). length y \<le> 2 ^ 30" by simp
  ultimately show ?thesis using stream_round_trip [of "[[1], [2, 3]]" "map (\<lambda>b. [b]) ?e" "[]" "[]"]
    by (intro exI [of _ "map (\<lambda>b. [b]) ?e"]) simp
qed

text \<open>
  One call of \<open>EVP_DecodeUpdate\<close> follows the reference stream. It returns 0 exactly when padding
  has been seen, not when a line was short as the header file says, and an invalid text leaves the
  context in error with no output.
\<close>

lemma decode_update_follows:
  assumes "dec_ok ctx" and "\<not> error_encountered ctx" and "n \<le> length src" and "n + 3 \<le> INT_MAX"
  shows "case EVP_DecodeUpdate ctx m src n of (ret, out_len, ctx', m') \<Rightarrow>
     case dstream (pending ctx) (eof_seen ctx) (take n src) of
       None \<Rightarrow> ret = - 1 \<and> out_len = 0 \<and> error_encountered ctx'
     | Some (x, p', e') \<Rightarrow> ret = (if e' then 0 else 1) \<and> out_len = length x \<and> m' = mem_write m 0 x \<and>
         dec_ok ctx' \<and> pending ctx' = p' \<and> eof_seen ctx' = e' \<and> \<not> error_encountered ctx'"
  by (rule decode_update [OF assms])

text \<open>
  A trailing minus is not stripped, although the header file says that minuses are: the whole
  text is rejected.
\<close>

lemma minus_is_rejected:
  "fst (EVP_DecodeBlock m (b64 x @ [0x2d]) (length (b64 x) + 1)) = - 1"
  by (rule decode_block_minus_rejected)

section \<open>Stacks\<close>

lemma plain_new: "\<exists>s. sk_new plain_env cmp = Some s"
  using plain_malloc(1) [of SIZEOF_STACK] plain_array(1) [of 32 "snd plain_env" 8]
  by (auto simp: sk_new_def SIZEOF_STACK_def SIZEOF_PTR_def kMinSize_def)

text \<open>A run for the witnesses: a new stack, two insertions, then sorting.\<close>

definition sorted_stack :: "(nat, unit) stack" where
  "sorted_stack = \<lparr>num = 2, data = [Some 3, Some 5, None, None], sorted_flag = True, num_alloc = 4, comp = Some ()\<rparr>"

definition same_pointer :: "unit \<Rightarrow> unit \<Rightarrow> nat \<Rightarrow> nat ptr \<times> unit" where
  "same_pointer f st p = (Some p, st)"

lemma sorted_stack_run: "stack_run (\<lambda>_. True) qsort compare_numbers same_pointer False sorted_stack"
proof -
  let ?stack = "\<lambda>n d f. \<lparr>num = n, data = d, sorted_flag = f, num_alloc = 4, comp = Some ()\<rparr>"
  let ?run = "stack_run (\<lambda>_. True) qsort compare_numbers same_pointer False"
  have s0: "sk_new plain_env (Some ()) = Some (?stack 0 [None, None, None, None] False)"
  proof -
    obtain b where b: "heap_malloc (fst plain_env) 32 = Some b" using plain_malloc(1) [of 32] by auto
    moreover from heap_malloc_length [OF plain_env_wf _ b] have "length b = 32" by (simp add: HEAP_LIMIT_def)
    moreover have "map (snd plain_env) [0 ..< 4] = [None, None, None, None]" by code_simp
    moreover have "mem_write [None, None, None, None] 0 (replicate 4 None) = [None, None, None, None :: nat ptr]" by code_simp
    ultimately show ?thesis
      using plain_malloc(1) [of SIZEOF_STACK] by (auto simp: sk_new_def array_malloc_def SIZEOF_STACK_def SIZEOF_PTR_def kMinSize_def)
  qed
  let ?step = "stack_step (\<lambda>_. True) qsort compare_numbers same_pointer False"
  have r0: "?run (?stack 0 [None, None, None, None] False)"
    using stack_run.new [OF plain_env_wf _ s0] numbers.comparator_axioms by simp
  have i1: "sk_insert plain_env (Some (?stack 0 [None, None, None, None] False)) (Some 5) 0 =
      (1, Some (?stack 1 [Some 5, None, None, None] False))" by (simp add: sk_insert_def)
  have "?step (?stack 0 [None, None, None, None] False) False (?stack 1 [Some 5, None, None, None] False)"
    using stack_step.insert [OF plain_env_wf _ i1, where ok = "\<lambda>_. True" and g = False] by simp
  note r1 = stack_run.step [OF r0 this]
  have i2: "sk_insert plain_env (Some (?stack 1 [Some 5, None, None, None] False)) (Some 3) 1 =
      (2, Some (?stack 2 [Some 5, Some 3, None, None] False))" by (simp add: sk_insert_def)
  have "?step (?stack 1 [Some 5, None, None, None] False) False (?stack 2 [Some 5, Some 3, None, None] False)"
    using stack_step.insert [OF plain_env_wf _ i2, where ok = "\<lambda>_. True" and g = False] by simp
  note r2 = stack_run.step [OF r1 this]
  have so: "sk_sort qsort compare_numbers (Some (?stack 2 [Some 5, Some 3, None, None] False)) =
      Some (?stack 2 [Some 3, Some 5, None, None] True)"
    by (simp add: sk_sort_def qsort_def compare_numbers_def mem_write_def)
  have "?step (?stack 2 [Some 5, Some 3, None, None] False) False (?stack 2 [Some 3, Some 5, None, None] True)"
    using stack_step.sort [OF so, where ok = "\<lambda>_. True" and g = False] by simp
  from stack_run.step [OF r2 this] show ?thesis by (simp add: sorted_stack_def)
qed

text \<open>
  C13: whatever operations a stack goes through after \<open>sk_new\<close> (insertions, deletions, \<open>sk_set\<close>, sorting,
  new comparison functions, duplication, deep copies), its array has room for its elements. Where
  it says that it is sorted its elements are in the order of its comparison function, unless it is
  stale: an element has been replaced, by \<open>sk_set\<close> or in a deep copy by one that compares otherwise,
  while the flag was set, and nothing has cleared the flag since.
\<close>

theorem stack_invariant:
  assumes "stack_run ok qs call cp stale s" and "qsort_ok ok qs"
  shows "stack_shape ok call s \<and> (stale \<longrightarrow> sorted_flag s) \<and> (\<not> stale \<longrightarrow> flag_ok call s)"
  using stack_run_inv [OF assms] by (auto simp: ghost_inv_def split: if_splits)

theorem stack_invariant_witness:
  "stack_shape (\<lambda>_. True) compare_numbers sorted_stack \<and> flag_ok compare_numbers sorted_stack"
  using stack_invariant [OF sorted_stack_run qsort_meets] by blast

text \<open>
  C14: in every reachable stack that is not stale (in the sense of the property above; a stack whose
  flag is not set never is) \<open>sk_find\<close> returns the index of the first match, also where the stack is
  sorted and the search is binary; with a comparison function \<open>NULL\<close> is never found.
\<close>

theorem stack_find:
  assumes "stack_run ok qs call cp stale s" and "qsort_ok ok qs" and "ok p" and "\<not> stale \<or> \<not> sorted_flag s"
  shows "sk_find call (Some s) p = find (\<lambda>i. matches call s p (elements s ! i)) [0 ..< num s]"
  using stack_run_inv [OF assms(1,2)] assms(3,4)
  by (intro find_first_match [where ok = ok]) (auto simp: ghost_inv_def stack_shape_def split: if_splits)

theorem stack_find_witness:
  "sk_find compare_numbers (Some sorted_stack) (Some 5) = Some 1"
proof -
  have "[0 ..< 2 :: nat] = [0, 1]" by code_simp
  then show ?thesis using stack_find [OF sorted_stack_run qsort_meets, of "Some 5"]
    by (simp add: sorted_stack_def elements_def matches_def compare_numbers_def)
qed

text \<open>
  \<open>sk_deep_copy\<close> copies the elements in order with \<open>NULL\<close> kept; when one copy fails, every copy
  made so far is released, then the array and the struct, and nothing leaks.
\<close>

lemma deep_copy_releases:
  assumes "sk_wf s" and "libc_wf (fst env)" and "sk_dup env (Some s) = Some ret"
  shows "case copy_all copy st (elements s) of
     (Some ys, _, st1) \<Rightarrow> (\<exists>s'. sk_deep_copy env copy st (Some s) = (Some s', [], st1) \<and> sk_wf s' \<and> elements s' = ys \<and>
        sorted_flag s' = sorted_flag s \<and> comp s' = comp s)
   | (None, made, st1) \<Rightarrow> sk_deep_copy env copy st (Some s) = (None, released_elements made @ [Array, Struct], st1)"
  by (rule deep_copy_result [OF assms])

text \<open>
  C15: \<open>sk_set\<close> stores a pointer and leaves the sorted flag alone. In every sorted stack, a pointer
  stored in the middle that compares above an element of the right half makes \<open>sk_find\<close> miss that
  element: the stack still says it is sorted and still holds the element, and \<open>sk_find\<close> reports that
  there is none (where nothing in the left half equals it).
\<close>

theorem set_breaks_sorted_find:
  assumes "stack_inv ok call s" and "sorted_flag s" and "comp s = Some c"
    and "i = (num s - 1) div 2" and "i < j" and "j < num s" and "x = elements s ! j" and "x \<noteq> None"
    and "call c x p < 0" and "\<forall>k < i. call c x (elements s ! k) \<noteq> 0"
  shows "let s' = snd (sk_set (Some s) i p)
    in sk_is_sorted s' \<and> sk_value s' j = x \<and> sk_find call s' x = None"
  by (rule set_misleads_find [OF assms])

text \<open>The numbers 1 and 2, sorted; 1 is replaced by 3, and 2 is not found.\<close>

definition sorted_pair :: "(nat, unit) stack" where
  "sorted_pair = \<lparr>num = 2, data = [Some 1, Some 2, None, None], sorted_flag = True, num_alloc = 4, comp = Some ()\<rparr>"

theorem set_breaks_sorted_find_witness:
  "stack_inv (\<lambda>_. True) compare_numbers sorted_pair \<and>
   (let s = snd (sk_set (Some sorted_pair) 0 (Some 3))
    in sk_is_sorted s \<and> sk_value s 1 = Some 2 \<and> sk_find compare_numbers s (Some 2) = None)"
proof -
  have inv: "stack_inv (\<lambda>_. True) compare_numbers sorted_pair"
    by (simp add: sorted_pair_def stack_inv_defs sk_wf_def ADDRESS_SPACE_def elements_def numbers.comparator_axioms
        compare_numbers_def)
  have "let s' = snd (sk_set (Some sorted_pair) 0 (Some 3))
      in sk_is_sorted s' \<and> sk_value s' 1 = Some 2 \<and> sk_find compare_numbers s' (Some 2) = None"
    by (rule set_breaks_sorted_find [OF inv, where c = "()"])
      (simp_all add: sorted_pair_def elements_def compare_numbers_def)
  with inv show ?thesis by blast
qed

section \<open>Hash tables\<close>

text \<open>
  C16: a hash table refines a finite map up to the equality of its comparison function: after any
  sequence of insertions, deletions and traversals, with the resizes they cause and with
  allocations that fail, \<open>lh_retrieve\<close> returns what the map holds.
\<close>

theorem lhash_refines_map:
  assumes "lh_run ok ch cc lh m" and "ok d"
  shows "lh_retrieve ch cc lh d = (case m d of None \<Rightarrow> None | Some x \<Rightarrow> x)"
  using lh_run_simulation [OF assms(1)] retrieve_lookup assms(2) by metis

text \<open>A table of C strings with one entry, for the witnesses.\<close>

definition string_hash :: "unit \<Rightarrow> bytes ptr \<Rightarrow> u32" where
  "string_hash h = lh_strhash"

definition string_cmp :: "unit \<Rightarrow> bytes ptr \<Rightarrow> bytes ptr \<Rightarrow> int" where
  "string_cmp c a b = (if map_option cstring a = map_option cstring b then 0 else 1)"

definition string_env :: "bytes lh_env" where
  "string_env = (fst plain_env, \<lambda>_. [])"

lemma string_hashing: "hashing (\<lambda>p. p \<noteq> None) (string_hash h) (\<lambda>a b. string_cmp c a b = 0)"
  using strings.hashing_axioms by (simp add: string_hash_def string_cmp_def)

lemma string_env_wf: "libc_wf (fst string_env)"
  by (simp add: string_env_def plain_env_wf)

lemma string_malloc:
  assumes "n \<le> 1000"
  shows "\<exists>b. heap_malloc (fst string_env) n = Some b" and "\<exists>d. array_malloc string_env w n = Some d"
  using plain_malloc(1) [OF assms] plain_array(1) [OF assms, of "snd string_env" w] by (simp_all add: string_env_def)

lemma string_table:
  "\<exists>lh. lh_new string_env () () = Some (lh :: (bytes, unit, unit) lhash) \<and> lh_inv (\<lambda>p. p \<noteq> None) string_hash string_cmp lh \<and>
     num_items lh = 0 \<and> num_buckets lh = 16 \<and> callback_depth lh = 0 \<and> lh_elements lh = {#}"
proof -
  have "lh_new string_env () () \<noteq> (None :: (bytes, unit, unit) lhash option)"
    using string_malloc(1) [of SIZEOF_LHASH] string_malloc(2) [of 128 8]
    by (auto simp: lh_new_def SIZEOF_LHASH_def SIZEOF_PTR_def kMinNumBuckets_def size_mul_exact SIZE_MOD_def)
  then obtain lh :: "(bytes, unit, unit) lhash" where lh: "lh_new string_env () () = Some lh" by blast
  moreover have "num_buckets lh = 16" using lh by (auto simp: lh_new_def kMinNumBuckets_def split: option.splits)
  ultimately show ?thesis
    using new_inv [where ok = "\<lambda>p. p \<noteq> None" and ch = string_hash and cc = string_cmp, OF string_hashing string_env_wf lh] by blast
qed

lemma string_run:
  "\<exists>lh m. lh_run (\<lambda>p. p \<noteq> None) string_hash string_cmp (lh :: (bytes, unit, unit) lhash) m \<and> m (Some [97, 0]) = Some (Some [97, 0])"
proof -
  obtain lh :: "(bytes, unit, unit) lhash" where lh: "lh_new string_env () () = Some lh"
      "lh_inv (\<lambda>p. p \<noteq> None) string_hash string_cmp lh" "num_items lh = 0"
    using string_table by blast
  have run: "lh_run (\<lambda>p. p \<noteq> None) string_hash string_cmp lh (\<lambda>_. None)"
    by (rule lh_run.new [OF string_hashing string_env_wf lh(1)])
  obtain r old lh' where i: "lh_insert string_env string_hash string_cmp lh (Some [97, 0]) = (r, old, lh')" by (metis prod_cases3)
  have "num_items lh + 1 < SIZE_MOD" using lh(3) by (simp add: SIZE_MOD_def)
  note ins = lh_run.insert [OF run string_env_wf _ this i] insert_result(5) [OF lh(2) string_env_wf _ this i]
  have "r" using ins(2) string_malloc(1) [of SIZEOF_LHASH_ITEM] by (auto simp: SIZEOF_LHASH_ITEM_def)
  with ins(1) show ?thesis
    by (intro exI [of _ lh'] exI [of _ "\<lambda>d. if r \<and> string_cmp (lh_comp lh) (Some [97, 0]) d = 0 then Some (Some [97, 0]) else None"])
      (simp add: string_cmp_def)
qed

theorem lhash_refines_map_witness:
  "\<exists>lh :: (bytes, unit, unit) lhash. lh_retrieve string_hash string_cmp lh (Some [97, 0]) = Some [97, 0]"
proof -
  obtain lh :: "(bytes, unit, unit) lhash" and m where "lh_run (\<lambda>p. p \<noteq> None) string_hash string_cmp lh m"
      "m (Some [97, 0]) = Some (Some [97, 0])"
    using string_run by blast
  then show ?thesis using lhash_refines_map [of "\<lambda>p. p \<noteq> None" string_hash string_cmp lh m "Some [97, 0]"] by auto
qed

text \<open>
  \<open>lh_insert\<close> replaces an equal element and hands the old one back, adds the element where there
  is none, and on failure, which needs a new element and no memory for it, keeps the table as it
  was. The invariant holds in every case.
\<close>

lemma lhash_insert:
  assumes "lh_inv ok ch cc lh" and "libc_wf (fst env)" and "ok x" and "num_items lh + 1 < SIZE_MOD"
    and "lh_insert env ch cc lh x = (r, old, lh')"
  shows "lh_inv ok ch cc lh' \<and>
     (r \<longleftrightarrow> lh_lookup cc lh x \<noteq> None \<or> heap_malloc (fst env) SIZEOF_LHASH_ITEM \<noteq> None) \<and>
     old = (if r then (case lh_lookup cc lh x of None \<Rightarrow> None | Some y \<Rightarrow> y) else None) \<and>
     num_items lh' = num_items lh + (if r \<and> lh_lookup cc lh x = None then 1 else 0) \<and>
     (\<forall>d. ok d \<longrightarrow> lh_lookup cc lh' d = (if r \<and> lh_eq cc lh x d then Some x else lh_lookup cc lh d))"
  using insert_result(1,2,4,5) [OF assms] insert_result(3) [OF assms] by blast

text \<open>
  Outside callbacks the table stays sparse: a table that was filled to the limit when
  \<open>lh_maybe_resize\<close> runs has fewer than three elements per bucket afterwards, provided that the
  larger array can be allocated.
\<close>

lemma lhash_load:
  assumes "lh_inv ok ch cc lh" and "libc_wf (fst env)" and "callback_depth lh = 0"
    and "num_items lh \<le> 3 * num_buckets lh" and "array_malloc env 8 (8 * (2 * num_buckets lh)) \<noteq> None"
  shows "num_items (lh_maybe_resize env lh) < 3 * num_buckets (lh_maybe_resize env lh)"
  by (rule resize_load [OF assms])

text \<open>
  \<open>lh_doall_arg\<close> visits every element exactly once, in one fixed order, and the deferred resize
  that ends the traversal loses nothing.
\<close>

lemma lhash_doall:
  assumes "lh_inv ok ch cc lh" and "libc_wf (fst env)" and "callback_depth lh \<le> UINT_MAX"
    and "lh_doall_arg env func (Some lh) (arg :: nat) = (Some lh', arg')"
  shows "arg' = foldl (\<lambda>a x. func x a) arg (map item_data (concat (buckets lh))) \<and>
     mset (map item_data (concat (buckets lh))) = lh_elements lh' \<and> lh_inv ok ch cc lh'"
  using doall_result(1,2,3) [OF assms] by (simp add: lh_elements_def items_def)

text \<open>
  The hash of a C string is the 32-bit FNV-1a hash of the bytes before the first zero byte, so
  strings that compare equal hash equal whatever follows them in memory.
\<close>

lemma strhash_is_fnv1a:
  "lh_strhash (Some s) = foldl (\<lambda>h c. (h XOR ucast c) * 16777619) 2166136261 (takeWhile (\<lambda>c. c \<noteq> 0) s)"
  using strhash_cstring [of s] by (simp add: cstring_def)

section \<open>BIO pairs\<close>

text \<open>
  \<open>BIO_new_bio_pair\<close> returns two connected halves of the requested sizes, 17 KiB for a size of 0,
  with nothing to read on either side.
\<close>

lemma new_pair_connected:
  assumes "libc_wf libc" and "fresh_alloc alloc" and "l1 \<le> HEAP_LIMIT" and "l2 \<le> HEAP_LIMIT"
    and "BIO_new_bio_pair libc alloc h l1 l2 = Some (True, p1, p2, h')"
  shows "\<exists>a c. p1 = Some a \<and> p2 = Some c \<and> pair_inv h' a c \<and> unread h' a = [] \<and> unread h' c = [] \<and>
    \<not> shut h' a \<and> \<not> shut h' c \<and> capacity h' a = ring_size l1 \<and> capacity h' c = ring_size l2"
  by (rule new_pair [OF assms])

text \<open>An allocator of objects: the first free address among three.\<close>

definition next_free :: "pair_heap \<Rightarrow> nat option" where
  "next_free h = find (\<lambda>x. h x = None) [0, 1, 2]"

lemma next_free_fresh: "fresh_alloc next_free"
  unfolding fresh_alloc_def next_free_def by (intro allI impI) (drule find_SomeD, simp)

lemma example_pair:
  "\<exists>h. BIO_new_bio_pair (fst plain_env) next_free (\<lambda>_. None) 4 8 = Some (True, Some 0, Some 1, h)"
proof -
  obtain m b1 b2 where "heap_malloc (fst plain_env) SIZEOF_BIO_BIO = Some m" "heap_malloc (fst plain_env) 4 = Some b1"
      "heap_malloc (fst plain_env) 8 = Some b2"
    using plain_malloc(1) [of SIZEOF_BIO_BIO] plain_malloc(1) [of 4] plain_malloc(1) [of 8] by (auto simp: SIZEOF_BIO_BIO_def)
  then show ?thesis
    by (simp add: BIO_new_bio_pair_def new_half next_free_def bio_make_pair_def make_buf_def Let_def)
qed

text \<open>
  C17: nothing is lost, repeated or reordered. In every run of writes, reads and shutdowns on the two
  ends, with partial and failing calls among them, what was written to one end is what was read
  from the other followed by what is still queued.
\<close>

theorem pair_is_fifo:
  assumes "libc_wf libc" and "fresh_alloc alloc" and "pair_run libc alloc a c h wr rd"
  shows "pair_inv h a c \<and> wr a = rd c @ unread h a \<and> wr c = rd a @ unread h c"
  using pair_run_in_order [OF assms] by (simp add: in_order_def)

theorem pair_is_fifo_witness:
  "\<exists>h wr rd. pair_run (fst plain_env) next_free 0 1 h wr rd \<and> wr 0 = [7, 8] \<and> rd 1 @ unread h 0 = [7, 8]"
proof -
  obtain h where h: "BIO_new_bio_pair (fst plain_env) next_free (\<lambda>_. None) 4 8 = Some (True, Some 0, Some 1, h)"
    using example_pair by blast
  have run: "pair_run (fst plain_env) next_free 0 1 h (\<lambda>_. []) (\<lambda>_. [])"
    by (rule pair_run.start [OF h]) (simp_all add: HEAP_LIMIT_def)
  have inv: "pair_inv h 0 1" "unread h 0 = []" "\<not> shut h 0" "capacity h 0 = 4"
    using new_pair [OF plain_env_wf next_free_fresh _ _ h] by (auto simp: HEAP_LIMIT_def ring_size_def)
  obtain h' where w: "BIO_write (bio_s_bio (fst plain_env)) h (Some 0) [7, 8] 2 = Some (2, h')"
    using pair_write [OF inv(1), of 2 "[7, 8]" "fst plain_env"] inv(2-4) by (auto simp: INT_MAX_def)
  define wr where "wr = (\<lambda>_ :: nat. [])(0 := [] @ take (nat 2) [7 :: u8, 8])"
  have "pair_run (fst plain_env) next_free 0 1 h' wr (\<lambda>_. [])"
    unfolding wr_def by (rule pair_run.written [OF run _ _ _ w]) (simp_all add: INT_MAX_def)
  moreover from pair_is_fifo [OF plain_env_wf next_free_fresh this] have "wr 0 = [] @ unread h' 0" by simp
  moreover have "wr 0 = [7, 8]" by (simp add: wr_def)
  ultimately show ?thesis by (intro exI [of _ h'] exI [of _ wr] exI [of _ "\<lambda>_. []"]) simp
qed

text \<open>
  C18: \<open>BIO_ctrl_get_write_guarantee\<close> keeps its promise: a write of no more bytes than it tells is
  taken completely, and the bytes are queued behind those that wait.
\<close>

theorem write_guarantee_kept:
  assumes "pair_inv h a c" and "BIO_ctrl_get_write_guarantee libc h (Some a) = Some (g, h1)"
    and "0 < n" and "n \<le> g" and "n \<le> int INT_MAX" and "nat n \<le> length src"
  shows "\<exists>h'. BIO_write (bio_s_bio libc) h (Some a) src n = Some (n, h') \<and>
     unread h' a = unread h a @ take (nat n) src \<and> pair_inv h' a c"
proof -
  have g: "g = (if shut h a then 0 else int (capacity h a - length (unread h a)))"
    using write_guarantee [OF assms(1), of libc] assms(2) by simp
  with assms(3,4) have "\<not> shut h a" "nat n \<le> capacity h a - length (unread h a)" by (auto split: if_splits)
  then show ?thesis using pair_write [OF assms(1,3,5,6), of libc] assms(3) by (auto simp: min_absorb1)
qed

theorem write_guarantee_kept_witness:
  "\<exists>h h'. pair_inv h 0 1 \<and> BIO_ctrl_get_write_guarantee (fst plain_env) h (Some 0) = Some (4, h) \<and>
     BIO_write (bio_s_bio (fst plain_env)) h (Some 0) [7, 8, 9, 10, 11] 4 = Some (4, h') \<and> unread h' 0 = [7, 8, 9, 10]"
proof -
  obtain h where h: "BIO_new_bio_pair (fst plain_env) next_free (\<lambda>_. None) 4 8 = Some (True, Some 0, Some 1, h)"
    using example_pair by blast
  have inv: "pair_inv h 0 1" "unread h 0 = []" "\<not> shut h 0" "capacity h 0 = 4"
    using new_pair [OF plain_env_wf next_free_fresh _ _ h] by (auto simp: HEAP_LIMIT_def ring_size_def)
  then have g: "BIO_ctrl_get_write_guarantee (fst plain_env) h (Some 0) = Some (4, h)"
    using write_guarantee [OF inv(1), of "fst plain_env"] by simp
  from write_guarantee_kept [OF inv(1) g, of 4 "[7, 8, 9, 10, 11]"] inv g show ?thesis
    by (auto simp: INT_MAX_def)
qed

text \<open>
  C19: the copy loop of \<open>bio_read\<close> ends: on a well-formed ring buffer it hands over the oldest bytes
  in at most two pieces, and keeps the rest in order.
\<close>

theorem ring_read_ends:
  assumes "ring_wf b ring" and "0 < rest" and "rest \<le> b_len b"
  shows "\<exists>b'. read_loop b ring rest out = Some (out @ take rest (queued b ring), b') \<and> ring_wf b' ring \<and>
    queued b' ring = drop rest (queued b ring)"
  using read_loop_result [OF assms] by blast

theorem ring_read_ends_witness:
  "\<exists>b'. read_loop \<lparr>peer = None, closed = False, b_len = 3, b_offset = 2, b_size = 4, b_buf = None, request = 0\<rparr>
     [7, 0, 5, 6] 3 [] = Some ([5, 6, 7], b') \<and> queued b' [7, 0, 5, 6] = []"
proof -
  let ?b = "\<lparr>peer = None, closed = False, b_len = 3, b_offset = 2, b_size = 4, b_buf = None, request = 0\<rparr>"
  have "ring_wf ?b [7, 0, 5, 6]" by (simp add: ring_wf_def ADDRESS_SPACE_def)
  moreover have "queued ?b [7, 0, 5, 6] = [5, 6, 7]"
    by (simp add: queued_def ring_slice_def upt_rec)
  ultimately show ?thesis using ring_read_ends [of ?b "[7, 0, 5, 6]" 3 "[]"] by auto
qed

text \<open>
  C20: \<open>BIO_read_asn1\<close> on one end of a pair returns, in one buffer, exactly the next DER element that
  was written to the other end, in however many pieces it arrives, and leaves the bytes behind it
  for the next read.
\<close>

theorem read_asn1_from_pair:
  assumes "pair_inv h a c" and "unread h c = der tag body @ rest" and "libc_wf libc" and "unat (tag_num tag) < 31"
    and "length (der tag body) \<le> max_len" and "length body \<le> INT_MAX" and "heap_malloc libc (length (der tag body)) \<noteq> None"
  shows "\<exists>h'. BIO_read_asn1 libc (\<lambda>h n. BIO_read (bio_s_bio libc) h (Some a) n) h max_len =
      Some (Inr (der tag body, length (der tag body)), h') \<and> pair_inv h' a c \<and> unread h' c = rest"
  using pair_end.read_asn1_complete [of h a c tag body rest _ libc max_len libc] assms by blast

lemma pair_with_element:
  "\<exists>h. pair_inv h 1 0 \<and> unread h 0 = der 2 [5] @ [9]"
proof -
  obtain h where h: "BIO_new_bio_pair (fst plain_env) next_free (\<lambda>_. None) 4 8 = Some (True, Some 0, Some 1, h)"
    using example_pair by blast
  have inv: "pair_inv h 0 1" "unread h 0 = []" "\<not> shut h 0" "capacity h 0 = 4"
    using new_pair [OF plain_env_wf next_free_fresh _ _ h] by (auto simp: HEAP_LIMIT_def ring_size_def)
  have "der 2 [5] = [2, 1, 5]" by code_simp
  then show ?thesis
    using pair_write [OF inv(1), of 4 "[2, 1, 5, 9]" "fst plain_env"] inv(2-4) pair_sym by (auto simp: INT_MAX_def)
qed

theorem read_asn1_from_pair_witness:
  "\<exists>h h'. BIO_read_asn1 (fst plain_env) (\<lambda>h n. BIO_read (bio_s_bio (fst plain_env)) h (Some 1) n) h 10 =
     Some (Inr (der 2 [5], length (der 2 [5])), h') \<and> unread h' 0 = [9]"
proof -
  obtain h where h: "pair_inv h 1 0" "unread h 0 = der 2 [5] @ [9]" using pair_with_element by blast
  have d: "der 2 [5] = [2, 1, 5]" "unat (tag_num 2) < 31" by code_simp+
  have "heap_malloc (fst plain_env) (length (der 2 [5])) \<noteq> None" using plain_malloc(1) [of "length (der 2 [5])"] by (auto simp: d)
  from read_asn1_from_pair [OF h plain_env_wf d(2) _ _ this, of 10] show ?thesis by (auto simp: d INT_MAX_def)
qed

text \<open>
  And it returns nothing else: a success on a stream that does not start with an indefinite
  length means that the stream starts with that DER element, of a tag number below 31 and within
  the limit.
\<close>

lemma read_asn1_is_sound:
  assumes "pair_inv h a c" and "libc_wf libc" and "\<not> indefinite (unread h c)"
    and "BIO_read_asn1 libc (\<lambda>h n. BIO_read (bio_s_bio libc) h (Some a) n) h max_len = Some (Inr (out, m), h')"
  shows "\<exists>tag body. unread h c = der tag body @ unread h' c \<and> unat (tag_num tag) < 31 \<and> m \<le> max_len \<and>
     out = der tag body \<and> m = length out \<and> pair_inv h' a c"
  using pair_end.read_asn1_sound [of h a c "unread h c" _ libc libc max_len out m h'] assms by blast

text \<open>
  C21: \<open>bio_read_all\<close> takes only \<open>-1\<close> for an error, though \<open>BIO_read\<close> may return any negative number for
  one. On every \<open>BIO\<close> that delivers the header of an element of indefinite length and some bytes of
  it, then fails with \<open>r < -1\<close>, then reports its end, \<open>BIO_read_asn1\<close> reports a success, and the last
  \<open>- r\<close> bytes that were read are missing from the element.
\<close>

theorem read_error_is_lost:
  assumes "BIO_read ms ha (Some a) 2 = Some (2, [t, 0x80], hb)" and "t AND 0x1f \<noteq> 0x1f" and "t AND 0x20 \<noteq> 0"
    and "n = (if 2 + kChunkSize > max_len then max_len else 2 + kChunkSize)"
    and "2 + length bs < n" and "0 < length bs" and "length bs \<le> kChunkSize div 2"
    and "BIO_read ms hb (Some a) (int (n - 2)) = Some (int (length bs), bs, hc)"
    and "BIO_read ms hc (Some a) (int (n - (2 + length bs))) = Some (r, [], hz)" and "r < - 1"
    and "int p = 2 + int (length bs) + r"
    and "BIO_read ms hz (Some a) (int (n - p)) = Some (0, [], he)"
    and "libc_wf libc" and "heap_malloc libc n = Some m"
  shows "\<exists>out. BIO_read_asn1 libc (\<lambda>h n. BIO_read ms h (Some a) n) ha max_len = Some (Inr (out, p), he) \<and>
     take p out = take p (t # 0x80 # bs)"
  by (rule read_error_lost [OF assms])

text \<open>
  A method whose reads are scripted; the number behind \<open>ptr\<close> counts them. The third one fails, as a
  method of the application may.
\<close>

definition scripted_reads :: "nat \<Rightarrow> int \<times> bytes" where
  "scripted_reads i = (if i = 0 then (2, [0x30, 0x80]) else if i = 1 then (3, [2, 1, 7]) else if i = 2 then (- 2, []) else (0, []))"

definition scripted_methods :: "(unit, nat) bio_methods" where
  "scripted_methods = \<lparr>mtype = \<lambda>_. 0, bwrite = \<lambda>_. None,
     bread = \<lambda>_. Some (\<lambda>h a peek n. case h a of None \<Rightarrow> None | Some b \<Rightarrow>
       (case ptr b of None \<Rightarrow> None | Some i \<Rightarrow>
         (case scripted_reads i of (r, bs) \<Rightarrow> Some (r, bs, h(a \<mapsto> b\<lparr>ptr := Some (i + 1)\<rparr>))))),
     bgets = \<lambda>_. None, ctrl = \<lambda>_. None, create = \<lambda>_. None, destroy = \<lambda>_. None\<rparr>"

definition scripted_bio :: "nat \<Rightarrow> nat \<Rightarrow> (unit, nat) bio_heap" where
  "scripted_bio i s = [0 \<mapsto> \<lparr>bio_method = Some (), init = True, shutdown = 1, flags = 0, retry_reason = 0,
     references = 1, ptr = Some i, next_bio = None, num_read = s, num_write = 0\<rparr>]"

theorem read_error_is_lost_witness:
  "\<exists>out he. BIO_read_asn1 (fst plain_env) (\<lambda>h n. BIO_read scripted_methods h (Some 0) n) (scripted_bio 0 0) 16 =
       Some (Inr (out, 3), he) \<and> take 3 out = [0x30, 0x80, 2]"
proof -
  obtain m where m: "heap_malloc (fst plain_env) 16 = Some m" using plain_malloc(1) [of 16] by auto
  have read: "BIO_read scripted_methods (scripted_bio i s) (Some 0) n =
      Some (fst (scripted_reads i), snd (scripted_reads i),
        scripted_bio (i + 1) (if fst (scripted_reads i) > 0 then size_plus s (fst (scripted_reads i)) else s))"
    if "0 < n" for i s n
    using that by (simp add: BIO_read_def scripted_methods_def scripted_bio_def split: prod.split)
  have flags: "(0x30 :: u8) AND 0x1f \<noteq> 0x1f" "(0x30 :: u8) AND 0x20 \<noteq> 0" by simp_all
  have "\<exists>out. BIO_read_asn1 (fst plain_env) (\<lambda>h n. BIO_read scripted_methods h (Some 0) n) (scripted_bio 0 0) 16 =
       Some (Inr (out, 3), scripted_bio 4 5) \<and> take 3 out = take 3 (0x30 # 0x80 # [2, 1, 7])"
    by (rule read_error_is_lost [where n = 16 and r = "- 2" and hb = "scripted_bio 1 2" and hc = "scripted_bio 2 5"
          and hz = "scripted_bio 3 5", OF _ flags _ _ _ _ _ _ _ _ _ plain_env_wf m])
      (simp_all add: read scripted_reads_def numeral_2_eq_2 [symmetric] kChunkSize_def size_plus_def size_of_int_def SIZE_MOD_def)
  then show ?thesis by auto
qed

section \<open>Memory BIOs\<close>

text \<open>
  C22: a memory BIO is a queue, and a read-only one a tape. In every run of writes, reads, lines (also
  with nothing pending) and changes of the answer at the end, what was put in is what came out,
  followed by what is still pending. A reset of a writable BIO drops what is pending, and the run
  goes on as from a new one; a reset of a read-only BIO makes everything pending again.
\<close>

theorem mem_bio_in_order:
  assumes "libc_wf libc" and "mem_run libc a ro h wr rd"
  shows "wr = rd @ mem_pending h a \<and> length (mem_pending h a) \<le> INT_MAX"
  using mem_run_state [OF assms] mem_pending_state by (fastforce simp: mem_left_def)

lemma example_mem_buf:
  "\<exists>h. BIO_new_mem_buf (fst plain_env) (\<lambda>_. Some 0) (\<lambda>_. None) (Some [7, 10, 8, 9]) (int (length [7 :: u8, 10, 8, 9])) = Some (Some 0, h)"
proof -
  obtain b where "BUF_MEM_new (fst plain_env) = Some b"
    using plain_malloc(1) [of SIZEOF_BUF_MEM] by (auto simp: BUF_MEM_new_def SIZEOF_BUF_MEM_def)
  then show ?thesis by (simp add: BIO_new_mem_buf_def BIO_new_def BIO_s_mem_def mem_new_def)
qed

theorem mem_bio_in_order_witness:
  "\<exists>h rd. mem_run (fst plain_env) 0 True h [7, 10, 8, 9] rd \<and> rd @ mem_pending h 0 = [7, 10, 8, 9] \<and> rd = [7, 10, 8]"
proof -
  obtain h where h: "BIO_new_mem_buf (fst plain_env) (\<lambda>_. Some 0) (\<lambda>_. None) (Some [7, 10, 8, 9]) (int (length [7 :: u8, 10, 8, 9])) = Some (Some 0, h)"
    using example_mem_buf by blast
  have run: "mem_run (fst plain_env) 0 True h [7, 10, 8, 9] []"
    by (rule mem_run.from_buf [OF h]) (simp add: INT_MAX_def)
  have st: "mem_state h 0 True [] [7, 10, 8, 9] 0" using new_mem_buf [OF h] by simp
  obtain h1 where h1: "BIO_read (BIO_s_mem (fst plain_env)) h (Some 0) 3 = Some (3, [7, 10, 8], h1)"
    using mem_read_stream [OF st, of 3 "fst plain_env"] by (auto simp: INT_MAX_def)
  have "mem_run (fst plain_env) 0 True h1 [7, 10, 8, 9] ([] @ [7, 10, 8])"
    by (rule mem_run.was_read [OF run _ h1]) (simp add: INT_MAX_def)
  then have "mem_run (fst plain_env) 0 True h1 [7, 10, 8, 9] [7, 10, 8]" by simp
  from mem_bio_in_order [OF plain_env_wf this] this show ?thesis by (intro exI [of _ h1] exI [of _ "[7, 10, 8]"]) simp
qed

section \<open>Big numbers\<close>

text \<open>
  C23: the Karatsuba multiplication of \<open>mul.c\<close> is multiplication: with operands of \<open>n2\<close> words, a power of
  two, or of up to eight words less, the words it stores are the product.
\<close>

theorem karatsuba_product:
  assumes "n2 = 2 ^ k" and "- 8 \<le> dna" and "dna \<le> 0" and "- 8 \<le> dnb" and "dnb \<le> 0"
    and "int (length a) = int n2 + dna" and "int (length b) = int n2 + dnb"
  shows "length (bn_mul_recursive a b n2 dna dnb) = 2 * n2 \<and> wval (bn_mul_recursive a b n2 dna dnb) = wval a * wval b"
  using assms by (rule mul_recursive_value)

theorem karatsuba_product_witness:
  "wval (bn_mul_recursive (replicate 32 7) (replicate 31 5) 32 0 (- 1)) = wval (replicate 32 7) * wval (replicate 31 5)"
  using karatsuba_product [of 32 5 0 "- 1" "replicate 32 7" "replicate 31 5"] by simp

text \<open>
  C24: so is the variant for sizes that are not near a power of two, from eight words on: whatever the
  array of the result held before.
\<close>

theorem part_recursive_product:
  assumes "n = 2 ^ k" and "8 \<le> n" and "tna < n" and "tnb < n" and "tna \<le> Suc tnb" and "tnb \<le> Suc tna"
    and "length a = n + tna" and "length b = n + tnb"
  shows "length (bn_mul_part_recursive r a b n tna tnb) = 4 * n \<and> wval (bn_mul_part_recursive r a b n tna tnb) = wval a * wval b"
  using assms by (rule mul_part_recursive_value)

theorem part_recursive_product_witness:
  "wval (bn_mul_part_recursive (replicate 64 9) (replicate 29 7) (replicate 30 5) 16 13 14) = wval (replicate 29 7) * wval (replicate 30 5)"
  using part_recursive_product [of 16 4 13 14 "replicate 29 7" "replicate 30 5" "replicate 64 9"] by simp

text \<open>
  C25: for fewer than eight words that variant does not clear what it should: \<open>memset\<close> is given a number of
  words, not of bytes. The low words of the result are the product, but every word of the array
  above those the bytes cover keeps what it held before the call, and one that was not 0 makes the
  result as a whole differ from the product.
\<close>

theorem part_recursive_stale:
  assumes "n < 8" and "tna < n" and "tnb < n" and "length a = n + tna" and "length b = n + tnb" and "length r = 4 * n"
    and "2 * n + tna + tnb + (2 * n - tna - tnb + 7) div 8 \<le> i" and "i < 4 * n"
    and "bn_mul_part_recursive r a b n tna tnb = s"
  shows "wval (take (2 * n + tna + tnb) s) = wval a * wval b \<and> s ! i = r ! i \<and> (r ! i \<noteq> 0 \<longrightarrow> wval s \<noteq> wval a * wval b)"
  using part_recursive_small [OF assms(1-8)] assms(9) by blast

theorem part_recursive_stale_witness:
  "wval (bn_mul_part_recursive (replicate 16 1) (replicate 5 7) (replicate 4 9) 4 1 0) \<noteq> wval (replicate 5 7) * wval (replicate 4 9)"
  using part_recursive_stale [OF _ _ _ _ _ _ _ _ refl, of 4 1 0 "replicate 5 7" "replicate 4 9" "replicate 16 1" 15] by simp

text \<open>
  Squaring by halves is squaring.
\<close>

lemma karatsuba_square:
  assumes "n2 = 2 ^ k" and "length a = n2"
  shows "length (bn_sqr_recursive a n2) = 2 * n2 \<and> wval (bn_sqr_recursive a n2) = wval a * wval a"
  using assms by (rule sqr_recursive_value)

text \<open>A number of one word with room for two.\<close>

definition one_word :: "u64 \<Rightarrow> bool \<Rightarrow> bignum" where
  "one_word v s = \<lparr>bn_d = [v, 0], bn_width = 1, bn_dmax = 2, bn_neg = s, bn_flags = 0\<rparr>"

lemma one_word_facts:
  "bn_wf (one_word v s)" "v \<noteq> 0 \<Longrightarrow> bn_ok (one_word v s)" "bn_mag (one_word v s) = unat v" "bn_width (one_word v s) = 1"
  "bn_neg (one_word v s) = s" "n \<le> 2 \<Longrightarrow> roomy libc (one_word v s) n" "bn_int (one_word v s) = (if s then - int (unat v) else int (unat v))"
  by (simp_all add: one_word_def bn_wf_def bn_ok_def bn_mag_def bn_words_def roomy_def bn_int_def unat_eq_0)

text \<open>
  C26: \<open>BN_add\<close> and \<open>BN_sub\<close> are exact. They fail only for want of room; otherwise the result has the sum or
  the difference as its value, in a normal form without a negative zero, however its array was used before.
\<close>

theorem add_sub_exact:
  assumes "libc_wf libc" and "bn_wf r" and "bn_ok a" and "bn_ok b"
    and "BN_add libc r a b = (ok1, s)" and "BN_sub libc r a b = (ok2, d)"
  shows "ok1 = roomy libc r (sum_width a b) \<and> ok2 = roomy libc r (sum_width a (b\<lparr>bn_neg := \<not> bn_neg b\<rparr>)) \<and>
    (ok1 \<longrightarrow> bn_ok s \<and> bn_int s = bn_int a + bn_int b) \<and> (ok2 \<longrightarrow> bn_ok d \<and> bn_int d = bn_int a - bn_int b)"
  using add_value [OF assms(1-5)] sub_value [OF assms(1-4,6)] by blast

theorem add_sub_exact_witness:
  "\<exists>s d. BN_add (fst plain_env) (one_word 3 True) (one_word 5 True) (one_word 9 False) = (True, s) \<and> bn_int s = 4 \<and>
     BN_sub (fst plain_env) (one_word 3 True) (one_word 5 True) (one_word 9 False) = (True, d) \<and> bn_int d = - 14"
proof -
  obtain k1 s where a: "BN_add (fst plain_env) (one_word 3 True) (one_word 5 True) (one_word 9 False) = (k1, s)" by fastforce
  obtain k2 d where b: "BN_sub (fst plain_env) (one_word 3 True) (one_word 5 True) (one_word 9 False) = (k2, d)" by fastforce
  have w: "sum_width (one_word 5 True) (one_word 9 False) \<le> 2" "sum_width (one_word 5 True) ((one_word 9 False)\<lparr>bn_neg := True\<rparr>) \<le> 2"
    by (simp_all add: sum_width_def one_word_def)
  have "roomy (fst plain_env) (one_word 3 True) (sum_width (one_word 5 True) (one_word 9 False))"
    "roomy (fst plain_env) (one_word 3 True) (sum_width (one_word 5 True) ((one_word 9 False)\<lparr>bn_neg := \<not> bn_neg (one_word 9 False)\<rparr>))"
    using w by (simp_all add: one_word_facts)
  with add_sub_exact [OF plain_env_wf one_word_facts(1) one_word_facts(2) one_word_facts(2) a b]
  have "k1" "k2" "bn_int s = 4" "bn_int d = - 14" by (auto simp: one_word_facts(7))
  with a b show ?thesis by simp
qed

text \<open>
  C27: \<open>BN_add_word\<close> and \<open>BN_sub_word\<close> end, within the array, on every number in normal form, and add and
  subtract the word across zero; they fail only for want of room for one more word.
\<close>

theorem word_arithmetic_total:
  assumes "libc_wf libc" and "bn_ok a"
  shows "\<exists>ok1 s ok2 d. BN_add_word libc a w = Some (ok1, s) \<and> BN_sub_word libc a w = Some (ok2, d) \<and>
    (ok1 \<longrightarrow> bn_ok s \<and> bn_int s = bn_int a + int (unat w)) \<and> (ok2 \<longrightarrow> bn_ok d \<and> bn_int d = bn_int a - int (unat w)) \<and>
    (roomy libc a (bn_width a + 1) \<longrightarrow> ok1 \<and> ok2)"
  using add_word_value [OF assms, of w] sub_word_value [OF assms, of w] by blast

theorem word_arithmetic_total_witness:
  "\<exists>s d. BN_add_word (fst plain_env) (one_word 5 True) 7 = Some (True, s) \<and> bn_int s = 2 \<and>
     BN_sub_word (fst plain_env) (one_word 5 True) 7 = Some (True, d) \<and> bn_int d = - 12"
proof -
  have "roomy (fst plain_env) (one_word 5 True) (bn_width (one_word 5 True) + 1)" by (simp add: one_word_facts)
  with word_arithmetic_total [OF plain_env_wf one_word_facts(2), of 5 True 7]
  obtain s d where "BN_add_word (fst plain_env) (one_word 5 True) 7 = Some (True, s)" "bn_int s = bn_int (one_word 5 True) + int (unat (7 :: u64))"
    "BN_sub_word (fst plain_env) (one_word 5 True) 7 = Some (True, d)" "bn_int d = bn_int (one_word 5 True) - int (unat (7 :: u64))"
    by auto
  then show ?thesis by (simp add: one_word_facts)
qed

text \<open>
  C28: \<open>BN_cmp\<close> orders numbers in normal form as the integers, in constant time and whatever the widths.
\<close>

theorem cmp_exact:
  assumes "bn_ok a" and "bn_ok b"
  shows "sint (BN_cmp (Some a) (Some b)) = (if bn_int a < bn_int b then - 1 else if bn_int a = bn_int b then 0 else 1)"
  using assms by (rule cmp_value)

theorem cmp_exact_witness: "sint (BN_cmp (Some (one_word 5 True)) (Some (one_word 3 True))) = - 1"
  using cmp_exact [OF one_word_facts(2) one_word_facts(2), of 5 3 True True] by (simp add: one_word_facts)

text \<open>
  C29: \<open>BN_lshift\<close> multiplies by a power of two, \<open>BN_rshift\<close> divides by one and rounds towards zero; a negative
  distance is refused.
\<close>

theorem shifts_exact:
  assumes "libc_wf libc" and "bn_wf r" and "bn_wf a" and "BN_lshift libc r a n = (ok1, s)" and "BN_rshift libc r a n = (ok2, d)"
  shows "(ok1 \<longleftrightarrow> 0 \<le> n \<and> roomy libc r (bn_width a + nat n div 64 + 1)) \<and> (ok2 \<longleftrightarrow> 0 \<le> n \<and> roomy libc r (bn_width a)) \<and>
    (ok1 \<longrightarrow> bn_ok s \<and> bn_int s = bn_int a * 2 ^ nat n) \<and>
    (ok2 \<longrightarrow> bn_ok d \<and> bn_int d = (if bn_neg a then - int (bn_mag a div 2 ^ nat n) else int (bn_mag a div 2 ^ nat n)))"
  using lshift_value [OF assms(1-4)] rshift_value [OF assms(1-3,5)] by blast

theorem shifts_exact_witness:
  "\<exists>s d. BN_lshift (fst plain_env) (one_word 3 False) (one_word 5 True) 2 = (True, s) \<and> bn_int s = - 20 \<and>
     BN_rshift (fst plain_env) (one_word 3 False) (one_word 5 True) 2 = (True, d) \<and> bn_int d = - 1"
proof -
  obtain k1 s where a: "BN_lshift (fst plain_env) (one_word 3 False) (one_word 5 True) 2 = (k1, s)" by fastforce
  obtain k2 d where b: "BN_rshift (fst plain_env) (one_word 3 False) (one_word 5 True) 2 = (k2, d)" by fastforce
  from shifts_exact [OF plain_env_wf one_word_facts(1) one_word_facts(1) a b]
  have "k1" "k2" "bn_int s = - 20" "bn_int d = - 1" by (simp_all add: one_word_facts)
  with a b show ?thesis by simp
qed

text \<open>
  C30: \<open>bn_rshift_secret_shift\<close> shifts by the distance modulo the power of two above 64 times the width: the
  bits of the distance above that are ignored. It fails only for want of room. So it behaves as
  \<open>BN_rshift\<close> does for every distance below that power, and a distance that is a multiple of it
  leaves the number unchanged instead of shifting everything out.
\<close>

theorem secret_shift_wraps:
  assumes "libc_wf libc" and "bn_wf r" and "bn_ok a" and "bn_wf t"
    and "bn_rshift_secret_shift libc (Some t) r a n = (ok, s)"
  shows "ok = (roomy libc r (bn_width a) \<and> roomy libc t (bn_width a)) \<and>
    (ok \<longrightarrow> bn_width s = bn_width a \<and> bn_neg s = bn_neg a \<and>
       bn_mag s = bn_mag a div 2 ^ (unat n mod 2 ^ bit_count (64 * bn_width a))) \<and>
    (ok \<and> 2 ^ bit_count (64 * bn_width a) dvd unat n \<longrightarrow> bn_int s = bn_int a)"
  using rshift_secret_value [OF assms] by (auto simp: bn_int_def mod_eq_0_iff_dvd [THEN iffD2] dvd_imp_mod_0)

theorem secret_shift_wraps_witness:
  "\<exists>s. bn_rshift_secret_shift (fst plain_env) (Some (one_word 0 False)) (one_word 0 False) (one_word 5 False) 129 = (True, s) \<and> bn_mag s = 2"
proof -
  obtain k s where a: "bn_rshift_secret_shift (fst plain_env) (Some (one_word 0 False)) (one_word 0 False) (one_word 5 False) 129 = (k, s)"
    by fastforce
  have "bit_count 64 = 7" by code_simp
  with secret_shift_wraps [OF plain_env_wf one_word_facts(1) one_word_facts(2) one_word_facts(1) a]
  have k "bn_mag s = 2" by (simp_all add: one_word_facts)
  with a show ?thesis by simp
qed

text \<open>
  The branch-free counts are right: \<open>BN_num_bits\<close> is the number of bits of the magnitude, and
  \<open>BN_count_low_zero_bits\<close> the number of its trailing zeros (0 for 0), in an \<open>int\<close>, for up to \<open>2^25\<close> words.
\<close>

lemma bit_counts:
  assumes "bn_wf a" and "bn_width a < 2 ^ 25"
  shows "BN_num_bits a = bit_count (bn_mag a) \<and> unat (BN_count_low_zero_bits a) = low_zeros (bn_mag a)"
  using num_bits_value [OF assms(1)] count_low_zero_bits_value [OF assms] by blast

section \<open>Pools, products and residues\<close>

text \<open>A pool that has been used before: four numbers with room for four words, and room for two frames.\<close>

definition plain_ctx_env :: ctx_env where
  "plain_ctx_env = \<lparr>env_libc = fst plain_env, env_pointers = (\<lambda>_. None), env_indexes = (\<lambda>_. 0)\<rparr>"

definition used_ctx :: bn_ctx where
  "used_ctx =
     \<lparr>ctx_bignums = Some \<lparr>num = 4, data = replicate 4 (Some \<lparr>bn_d = [7, 7, 7, 7], bn_width = 1, bn_dmax = 4, bn_neg = True, bn_flags = 0\<rparr>) @ [None],
        sorted_flag = False, num_alloc = 5, comp = None\<rparr>,
      ctx_stack = \<lparr>st_indexes = Some [0, 0], st_depth = 0, st_size = 2\<rparr>, ctx_used = 0, ctx_error = False, ctx_defer_error = False\<rparr>"

lemma used_ctx_wf: "ctx_wf used_ctx" "libc_wf (env_libc plain_ctx_env)"
  using plain_env_wf
  by (auto simp: ctx_wf_def used_ctx_def stack_ok_def pointers.elems_def sk_wf_def elements_def ctx_pool_def pooled_def bn_wf_def
      ADDRESS_SPACE_def plain_ctx_env_def)

text \<open>
  C31: a temporary is fresh. The number that \<open>BN_CTX_get\<close> gives out in a new frame is zero and is not one
  that is in use; those keep their values until the frame is ended, and then the pool is as it was.
\<close>

theorem temporaries_fresh:
  assumes "libc_wf (env_libc env)" and "ctx_wf ctx" and "BN_CTX_get env (BN_CTX_start env ctx) = (Some i, ctx')" and "pooled bn"
  shows "i = ctx_used ctx \<and> bn_int (ctx_bn ctx' i) = 0 \<and> (\<forall>j < ctx_used ctx. ctx_bn (ctx_put ctx' i bn) j = ctx_bn ctx j) \<and>
    ctx_bn (ctx_put ctx' i bn) i = bn \<and> ctx_wf (BN_CTX_end (ctx_put ctx' i bn)) \<and>
    ctx_used (BN_CTX_end (ctx_put ctx' i bn)) = ctx_used ctx \<and> frames (BN_CTX_end (ctx_put ctx' i bn)) = frames ctx"
  using temporary_in_frame [OF assms] by blast

theorem temporaries_fresh_witness:
  "\<exists>ctx'. BN_CTX_get plain_ctx_env (BN_CTX_start plain_ctx_env used_ctx) = (Some 0, ctx') \<and>
     bn_int (ctx_bn ctx' 0) = 0 \<and> ctx_used (BN_CTX_end (ctx_put ctx' 0 (one_word 5 True))) = 0"
proof -
  have "fst (BN_CTX_get plain_ctx_env (BN_CTX_start plain_ctx_env used_ctx)) = Some 0" by code_simp
  then obtain ctx' where g: "BN_CTX_get plain_ctx_env (BN_CTX_start plain_ctx_env used_ctx) = (Some 0, ctx')" by (metis prod.collapse)
  have "pooled (one_word 5 True)" by (simp add: pooled_def one_word_facts) (simp add: one_word_def)
  from temporaries_fresh [OF used_ctx_wf(2,1) g this] show ?thesis using g by simp
qed

text \<open>
  C32: the type of the numbers is kept: whatever program of additions, products, shifts, divisions and so on is
  run on objects in normal form, with destinations that are operands or not, every object is again in
  normal form (its array of the size it claims, no negative zero), and the pool is well-formed.
\<close>

theorem numbers_stay_normal:
  assumes "number_run env regs ctx prog regs' ctx'" and "libc_wf (env_libc env)" and "ctx_wf ctx" and "\<forall>r \<in> set regs. bn_ok r"
  shows "(\<forall>r \<in> set regs'. bn_ok r) \<and> ctx_wf ctx'"
  using number_run_simulates [OF assms(1-3)] assms(4) by (simp add: all_ok_def)

text \<open>Two instructions on two registers, one of them destination and operand.\<close>

definition small_run :: "bignum list \<times> bn_ctx" where
  "small_run =
     (case exec plain_ctx_env (Mul 0 0 1) [one_word 3 True, one_word 4 False] used_ctx of
        Some (regs, ctx) \<Rightarrow> (case exec plain_ctx_env (Sub 1 1 0) regs ctx of Some s \<Rightarrow> s | None \<Rightarrow> ([], ctx))
      | None \<Rightarrow> ([], used_ctx))"

lemma small_run: "number_run plain_ctx_env [one_word 3 True, one_word 4 False] used_ctx [Mul 0 0 1, Sub 1 1 0] (fst small_run) (snd small_run)"
proof -
  let ?r = "[one_word 3 True, one_word 4 False]"
  have "(case exec plain_ctx_env (Mul 0 0 1) ?r used_ctx of None \<Rightarrow> False
     | Some (regs, ctx) \<Rightarrow> list_all (\<lambda>r. bn_width r \<le> 2) regs \<and> length regs = 2 \<and> exec plain_ctx_env (Sub 1 1 0) regs ctx \<noteq> None)"
    by code_simp
  then obtain regs ctx s where e: "exec plain_ctx_env (Mul 0 0 1) ?r used_ctx = Some (regs, ctx)" "list_all (\<lambda>r. bn_width r \<le> 2) regs"
    "length regs = 2" "exec plain_ctx_env (Sub 1 1 0) regs ctx = Some s"
    by (auto split: option.splits prod.splits)
  have f: "fits ?r" "fits regs" using e(2) by (auto simp: fits_def one_word_facts INT_MAX_def list_all_iff)
  have e4: "exec plain_ctx_env (Sub 1 1 0) regs ctx = Some (fst s, snd s)" by (metis e(4) prod.collapse)
  have "number_run plain_ctx_env ?r used_ctx ([] @ [Mul 0 0 1]) regs ctx" by (rule step [OF start f(1) _ e(1)]) simp
  then have "number_run plain_ctx_env ?r used_ctx (([] @ [Mul 0 0 1]) @ [Sub 1 1 0]) (fst s) (snd s)"
    by (rule step [OF _ f(2) _ e4]) (simp add: e(3))
  moreover have "small_run = s" unfolding small_run_def e(1) option.case prod.case e(4) ..
  ultimately show ?thesis by simp
qed

theorem numbers_stay_normal_witness:
  "length (fst small_run) = 2 \<and> bn_ok (fst small_run ! 0) \<and> bn_ok (fst small_run ! 1)"
proof -
  have l: "length (fst small_run) = 2" by code_simp
  have ok: "\<forall>r \<in> set (fst small_run). bn_ok r" using numbers_stay_normal [OF small_run used_ctx_wf(2,1)] one_word_facts(2) by simp
  show ?thesis using l ok by (auto intro!: bspec [OF ok] nth_mem)
qed

text \<open>
  C33: programs over big numbers refine programs over integers: a run that reports no failure leaves in each
  object the integer that the same program computes, quotients being those of numbers that are not negative.
\<close>

theorem number_program_refines:
  assumes "number_run env regs ctx prog regs' ctx'" and "libc_wf (env_libc env)" and "ctx_wf ctx" and "\<forall>r \<in> set regs. bn_ok r"
  shows "map bn_int regs' = fold int_step prog (map bn_int regs)"
  using number_run_simulates [OF assms(1-3)] assms(4) by (simp add: all_ok_def)

theorem number_program_refines_witness: "map bn_int (fst small_run) = [- 12, 16]"
  using number_program_refines [OF small_run used_ctx_wf(2,1)] one_word_facts(2) by (simp add: one_word_facts)

text \<open>
  C34: \<open>BN_mul\<close> and \<open>BN_sqr\<close> are exact at every size, whichever algorithm is chosen and whether or not the
  result is an operand; the pool is given back, and they fail only for want of memory.
\<close>

theorem products_exact:
  assumes "libc_wf (env_libc env)" and "ctx_wf ctx" and "bn_wf r" and "bn_ok a" and "bn_ok b"
    and "bn_width a \<le> INT_MAX" and "bn_width b \<le> INT_MAX"
    and "BN_mul env same r a b ctx = (ok1, s, ctx1)" and "BN_sqr env same r a ctx = (ok2, t, ctx2)"
  shows "(ok1 \<longrightarrow> bn_ok s \<and> bn_int s = bn_int a * bn_int b) \<and> (ok2 \<longrightarrow> bn_ok t \<and> bn_int t = bn_int a * bn_int a) \<and>
    ctx_keeps ctx ctx1 \<and> ctx_keeps ctx ctx2 \<and> (\<not> ctx_error ctx1 \<longrightarrow> ctx_used ctx1 = ctx_used ctx) \<and>
    (\<not> ctx_error ctx2 \<longrightarrow> ctx_used ctx2 = ctx_used ctx) \<and>
    (\<not> ok1 \<longrightarrow> ctx_error ctx1 \<or> starved (env_libc env) (4 * (bn_width a + bn_width b)) \<or> bn_flags r AND BN_FLG_STATIC_DATA \<noteq> 0) \<and>
    (\<not> ok2 \<longrightarrow> ctx_error ctx2 \<or> starved (env_libc env) (4 * bn_width a) \<or> bn_flags r AND BN_FLG_STATIC_DATA \<noteq> 0)"
  using mul_value [OF assms(1-8)] sqr_value [OF assms(1-3) bn_ok_wf [OF assms(4)] assms(9)] by blast

theorem products_exact_witness:
  "\<exists>s t ctx1 ctx2. BN_mul plain_ctx_env True (one_word 5 True) (one_word 5 True) (one_word 9 False) used_ctx = (True, s, ctx1) \<and> bn_int s = - 45 \<and>
     BN_sqr plain_ctx_env True (one_word 5 True) (one_word 5 True) used_ctx = (True, t, ctx2) \<and> bn_int t = 25"
proof -
  obtain k1 s c1 where a: "BN_mul plain_ctx_env True (one_word 5 True) (one_word 5 True) (one_word 9 False) used_ctx = (k1, s, c1)"
    by (metis prod_cases3)
  obtain k2 t c2 where b: "BN_sqr plain_ctx_env True (one_word 5 True) (one_word 5 True) used_ctx = (k2, t, c2)" by (metis prod_cases3)
  have "fst (BN_mul plain_ctx_env True (one_word 5 True) (one_word 5 True) (one_word 9 False) used_ctx)" by code_simp
  then have k1: k1 using a by simp
  have "fst (BN_sqr plain_ctx_env True (one_word 5 True) (one_word 5 True) used_ctx)" by code_simp
  then have k2: k2 using b by simp
  from products_exact [OF used_ctx_wf(2,1) one_word_facts(1) one_word_facts(2) one_word_facts(2) _ _ a b] k1 k2
  have "bn_int s = - 45" "bn_int t = 25" by (simp_all add: one_word_facts INT_MAX_def)
  with a b k1 k2 show ?thesis by simp
qed

text \<open>
  C35: \<open>bn_div_consttime\<close> is Euclidean division, for results that are operands or not: it fails only on a
  negative number, on a divisor that is zero, or for want of memory.
\<close>

theorem division_exact:
  assumes "libc_wf (env_libc env)" and "ctx_wf ctx" and "bn_wf q" and "bn_wf r" and "bn_wf n" and "bn_wf d"
    and "bn_div_consttime env (Some (q, fq)) (Some (r, fr)) n d ctx = (ok, quot, rmdr, ctx')"
  shows "(ok \<longrightarrow> (\<exists>s t. quot = Some s \<and> rmdr = Some t \<and> bn_ok s \<and> bn_ok t \<and> bn_int n = bn_int s * bn_int d + bn_int t \<and>
       0 \<le> bn_int t \<and> bn_int t < bn_int d)) \<and>
    (\<not> ok \<longrightarrow> bn_neg n \<or> bn_neg d \<or> bn_mag d = 0 \<or> ctx_error ctx' \<or> starved (env_libc env) (max (bn_width n) (bn_width d)) \<or>
       bn_flags q AND BN_FLG_STATIC_DATA \<noteq> 0 \<or> bn_flags r AND BN_FLG_STATIC_DATA \<noteq> 0)"
  using division_result [OF assms] by blast

theorem division_exact_witness:
  "\<exists>s t ctx'. bn_div_consttime plain_ctx_env (Some (one_word 1 False, False)) (Some (one_word 1 False, False)) (one_word 17 False)
       (one_word 5 False) used_ctx = (True, Some s, Some t, ctx') \<and> bn_int s = 3 \<and> bn_int t = 2"
proof -
  let ?run = "bn_div_consttime plain_ctx_env (Some (one_word 1 False, False)) (Some (one_word 1 False, False)) (one_word 17 False) (one_word 5 False) used_ctx"
  let ?g = "BN_CTX_get plain_ctx_env (BN_CTX_start plain_ctx_env used_ctx)"
  have "fst ?g = Some 0" "fst (bn_wexpand (env_libc plain_ctx_env) (ctx_bn (snd ?g) 0) (Suc 0))" by code_simp+
  then obtain c tb where g: "?g = (Some 0, c)" "bn_wexpand (env_libc plain_ctx_env) (ctx_bn c 0) (Suc 0) = (True, tb)"
    by (cases ?g; cases "bn_wexpand (env_libc plain_ctx_env) (ctx_bn (snd ?g) 0) (Suc 0)") auto
  have z: "\<not> BN_is_zero (one_word 5 False)" by (simp add: is_zero one_word_facts)
  have w: "bn_wexpand (env_libc plain_ctx_env) (one_word v False) (Suc 0) = (True, one_word v False)" for v by (simp add: bn_wexpand_def one_word_def)
  obtain ok q r c' where run: "?run = (ok, q, r, c')" by (metis prod_cases4)
  have ok: ok using run z g by (auto simp: bn_div_consttime_def own_or_temporary_def deliver_def put_temporary_def BN_is_negative_def one_word_facts w Let_def
      split: prod.splits)
  from division_exact [OF used_ctx_wf(2,1) one_word_facts(1) one_word_facts(1) one_word_facts(1) one_word_facts(1) run] ok
  obtain s t where v: "q = Some s" "r = Some t" "17 = bn_int s * 5 + bn_int t" "0 \<le> bn_int t" "bn_int t < 5" by (auto simp: one_word_facts)
  then have "bn_int s = 3 \<and> bn_int t = 2" by presburger
  with v run ok show ?thesis by simp
qed

text \<open>
  C36: on reduced numbers the constant-time operations compute sums, differences and multiples by powers of
  two in the ring of residues, with results of the width of the modulus.
\<close>

theorem residues_exact:
  assumes "libc_wf (env_libc env)" and "ctx_wf ctx" and "bn_wf r" and "bn_wf a" and "bn_wf b" and "bn_wf m"
    and "bn_mag a < bn_mag m" and "bn_mag b < bn_mag m" and "\<not> bn_neg a"
    and "bn_mod_add_consttime env r a b m ctx = (ok1, s, ctx1)" and "bn_mod_sub_consttime env r a b m ctx = (ok2, d, ctx2)"
    and "bn_mod_lshift_consttime env r a n m ctx = (ok3, t, ctx3)"
  shows "(ok1 \<longrightarrow> bn_int s = (int (bn_mag a) + int (bn_mag b)) mod int (bn_mag m) \<and> bn_width s = bn_width m) \<and>
    (ok2 \<longrightarrow> bn_int d = (int (bn_mag a) - int (bn_mag b)) mod int (bn_mag m) \<and> bn_width d = bn_width m) \<and>
    (ok3 \<longrightarrow> bn_int t = int (bn_mag a) * 2 ^ nat n mod int (bn_mag m)) \<and>
    (\<not> ctx_error ctx1 \<longrightarrow> ctx_used ctx1 = ctx_used ctx) \<and> (\<not> ctx_error ctx2 \<longrightarrow> ctx_used ctx2 = ctx_used ctx)"
  using mod_add_value [OF assms(1-8), unfolded assms(10)] mod_sub_value [OF assms(1-8), unfolded assms(11)]
    mod_lshift_value(1,2) [OF assms(1-4,6,7,9,12)] assms(7)
  by (auto simp: returns_def computes_def bn_int_def zmod_int)

theorem residues_exact_witness:
  "\<exists>s d t ctx1 ctx2 ctx3.
     bn_mod_add_consttime plain_ctx_env (one_word 0 False) (one_word 5 False) (one_word 6 False) (one_word 7 False) used_ctx = (True, s, ctx1) \<and> bn_int s = 4 \<and>
     bn_mod_sub_consttime plain_ctx_env (one_word 0 False) (one_word 5 False) (one_word 6 False) (one_word 7 False) used_ctx = (True, d, ctx2) \<and> bn_int d = 6 \<and>
     bn_mod_lshift_consttime plain_ctx_env (one_word 0 False) (one_word 5 False) 2 (one_word 7 False) used_ctx = (True, t, ctx3) \<and> bn_int t = 6"
proof -
  let ?add = "bn_mod_add_consttime plain_ctx_env (one_word 0 False) (one_word 5 False) (one_word 6 False) (one_word 7 False) used_ctx"
  let ?sub = "bn_mod_sub_consttime plain_ctx_env (one_word 0 False) (one_word 5 False) (one_word 6 False) (one_word 7 False) used_ctx"
  let ?shl = "bn_mod_lshift_consttime plain_ctx_env (one_word 0 False) (one_word 5 False) 2 (one_word 7 False) used_ctx"
  obtain k1 s c1 k2 d c2 k3 t c3 where e: "?add = (k1, s, c1)" "?sub = (k2, d, c2)" "?shl = (k3, t, c3)" by (metis prod_cases3)
  have "fst ?add" by code_simp
  moreover have "fst ?sub" by code_simp
  moreover have "fst ?shl" by code_simp
  ultimately have k: "k1" "k2" "k3" using e by simp_all
  from residues_exact [OF used_ctx_wf(2,1) one_word_facts(1) one_word_facts(1) one_word_facts(1) one_word_facts(1) _ _ _ e] k
  have "bn_int s = 4" "bn_int d = 6" "bn_int t = 6" by (simp_all add: one_word_facts)
  with e k show ?thesis by simp
qed

text \<open>
  C37: a Montgomery context made by \<open>BN_MONT_CTX_new_consttime\<close> is complete: for an odd positive modulus it
  holds the modulus, the negative of its inverse modulo a word, and \<open>R * R\<close> reduced. There is none for an
  even or a negative modulus; otherwise only memory can be missing.
\<close>

theorem montgomery_context:
  assumes "libc_wf (env_libc env)" and "ctx_wf ctx" and "bn_ok md" and "BN_MONT_CTX_new_consttime env md ctx = (x, ctx')"
  shows "(\<forall>mont. x = Some mont \<longrightarrow> odd (bn_int md) \<and> \<not> bn_neg md \<and> bn_int (mont_N mont) = bn_int md \<and>
      LIMB dvd unat (fst (mont_n0 mont)) * unat (bn_d (mont_N mont) ! 0) + 1 \<and>
      bn_mag (mont_RR mont) = (mont_R mont * mont_R mont) mod bn_mag md \<and> bn_width (mont_RR mont) = bn_width (mont_N mont)) \<and>
    (x = None \<longrightarrow> even (bn_int md) \<or> bn_neg md \<or> ctx_error ctx' \<or> starved (env_libc env) (bn_width md) \<or>
      heap_malloc (env_libc env) SIZEOF_BN_MONT_CTX = None)"
proof (intro conjI allI impI)
  fix mont assume x: "x = Some mont"
  note v = new_consttime_value [OF assms]
  show "odd (bn_int md)" "\<not> bn_neg md" "bn_int (mont_N mont) = bn_int md" "LIMB dvd unat (fst (mont_n0 mont)) * unat (bn_d (mont_N mont) ! 0) + 1"
    "bn_mag (mont_RR mont) = (mont_R mont * mont_R mont) mod bn_mag md" "bn_width (mont_RR mont) = bn_width (mont_N mont)"
    using v(1-3) [OF x] by (simp_all add: mont_ok_def mont_law_def bn_int_def)
next
  assume "x = None"
  from new_consttime_value(6) [OF assms this]
  show "even (bn_int md) \<or> bn_neg md \<or> ctx_error ctx' \<or> starved (env_libc env) (bn_width md) \<or> heap_malloc (env_libc env) SIZEOF_BN_MONT_CTX = None"
    by (auto simp: bn_int_def)
qed

theorem montgomery_context_witness:
  "\<exists>mont ctx'. BN_MONT_CTX_new_consttime plain_ctx_env (one_word 1 False) used_ctx = (Some mont, ctx') \<and> bn_int (mont_N mont) = 1"
proof -
  obtain x c where e: "BN_MONT_CTX_new_consttime plain_ctx_env (one_word 1 False) used_ctx = (x, c)" by fastforce
  note m = montgomery_context [OF used_ctx_wf(2,1) one_word_facts(2) e]
  let ?m = "\<lparr>mont_RR = BN_init, mont_N = BN_init, mont_n0 = (0, 0)\<rparr>" and ?libc = "env_libc plain_ctx_env"
  have h: "heap_malloc ?libc SIZEOF_BN_MONT_CTX \<noteq> None" "words_malloc ?libc 0 \<noteq> None" "words_malloc ?libc 1 \<noteq> None"
    using plain_malloc(1) [of 64] plain_malloc(1) [of 0] plain_malloc(1) [of 8]
    by (auto simp: plain_ctx_env_def SIZEOF_BN_MONT_CTX_def words_malloc_def BN_BYTES_def size_mul_def SIZE_MOD_def)
  obtain b m where n: "bn_mont_ctx_set_N_and_n0 ?libc ?m (one_word 1 False) = (b, m)" by fastforce
  have "bn_wf (mont_N ?m)" by (simp add: init_wf)
  note nv = set_N_and_n0_value [OF used_ctx_wf(2) this one_word_facts(2) n]
  have "BN_num_bits (mont_N m) = 1" if b
  proof -
    have "bn_wf (mont_N m)" "bn_mag (mont_N m) = 1" using nv(2,3) that by (simp_all add: mont_law_def one_word_facts)
    moreover have "bit_count 1 = 1" by code_simp
    ultimately show ?thesis using num_bits_value by metis
  qed
  then have "c = used_ctx" using e n h(1)
    by (cases b) (auto simp: BN_MONT_CTX_new_consttime_def BN_MONT_CTX_new_def bn_mod_exp_base_2_consttime_def Let_def split: option.splits prod.splits bool.splits)
  moreover have "\<not> starved ?libc (bn_width (one_word 1 False))"
    using h by (auto simp: starved_def one_word_facts INT_MAX_def BN_BITS2_def le_Suc_eq)
  ultimately have "x \<noteq> None" using m h(1) by (auto simp: one_word_facts used_ctx_def)
  with m e show ?thesis by (auto simp: one_word_facts)
qed

text \<open>
  C38: the Montgomery product is the product: for Montgomery forms of \<open>x\<close> and \<open>y\<close> it is the Montgomery form of
  \<open>x * y\<close>, fully reduced.
\<close>

theorem montgomery_product:
  assumes "libc_wf (env_libc env)" and "ctx_wf ctx" and "mont_law mont" and "bn_wf r" and "bn_wf a" and "bn_wf b"
    and "\<not> bn_neg a" and "\<not> bn_neg b" and "bn_width a \<le> INT_MAX" and "bn_width b \<le> INT_MAX" and "same \<Longrightarrow> b = a"
    and "bn_mag a = x * mont_R mont mod bn_mag (mont_N mont)" and "bn_mag b = y * mont_R mont mod bn_mag (mont_N mont)"
    and "BN_mod_mul_montgomery env same r a b mont ctx = (True, s, ctx')"
  shows "bn_int s = int (x * y * mont_R mont mod bn_mag (mont_N mont)) \<and> bn_width s = bn_width (mont_N mont) \<and> ctx_keeps ctx ctx'"
  using mod_mul_montgomery_forms [OF assms] by blast

text \<open>The context of the modulus 7, where \<open>R\<close> is 2.\<close>

definition mont_7 :: mont_ctx where
  "mont_7 = \<lparr>mont_RR = one_word 4 False, mont_N = one_word 7 False, mont_n0 = (10540996613548315209, 0)\<rparr>"

lemma mont_7_facts:
  "mont_ok mont_7" "mont_law mont_7" "bn_mag (mont_N mont_7) = 7" "bn_width (mont_N mont_7) = 1" "mont_R mont_7 mod 7 = 2"
proof -
  have R: "mont_R mont_7 = 18446744073709551616" by (simp add: mont_R_def mont_7_def one_word_def LIMB_def)
  have w: "bn_d (mont_N mont_7) ! 0 = 7" by (simp add: mont_7_def one_word_def)
  show law: "mont_law mont_7" unfolding mont_law_def w by (simp add: mont_7_def one_word_facts LIMB_def)
  show "mont_ok mont_7" unfolding mont_ok_def R using law by (simp add: mont_7_def one_word_facts)
  show "mont_R mont_7 mod 7 = 2" unfolding R by simp
  show "bn_mag (mont_N mont_7) = 7" "bn_width (mont_N mont_7) = 1" by (simp_all add: mont_7_def one_word_facts)
qed

lemma mont_7_form: "(k * mont_R mont_7) mod 7 = (k * 2) mod 7"
  by (metis mod_mult_right_eq mont_7_facts(5))

text \<open>The pool has a number at hand, and there is memory for small numbers.\<close>

lemma used_ctx_get:
  "\<exists>c. BN_CTX_get plain_ctx_env (BN_CTX_start plain_ctx_env used_ctx) = (Some 0, c) \<and> bn_dmax (ctx_bn c 0) = 4 \<and>
     fst (bn_mul_consttime plain_ctx_env False (ctx_bn c 0) (one_word x False) (one_word y False) c)"
proof -
  let ?g = "BN_CTX_get plain_ctx_env (BN_CTX_start plain_ctx_env used_ctx)"
  have "fst ?g = Some 0" "bn_dmax (ctx_bn (snd ?g) 0) = 4" by code_simp+
  moreover have "fst (bn_mul_consttime plain_ctx_env False (ctx_bn (snd ?g) 0) (one_word x False) (one_word y False) (snd ?g))" by code_simp
  ultimately show ?thesis by (metis prod.collapse)
qed

lemma plain_not_starved: "n \<le> 100 \<Longrightarrow> \<not> starved (env_libc plain_ctx_env) n"
proof -
  assume n: "n \<le> 100"
  have "words_malloc (env_libc plain_ctx_env) k \<noteq> None" if "k \<le> n" for k
    using that n plain_malloc(1) [of "8 * k"] by (auto simp: plain_ctx_env_def words_malloc_def BN_BYTES_def size_mul_def SIZE_MOD_def ac_simps)
  then show ?thesis using n by (auto simp: starved_def INT_MAX_def BN_BITS2_def)
qed

theorem montgomery_product_witness:
  "\<exists>s ctx'. BN_mod_mul_montgomery plain_ctx_env False (one_word 0 False) (one_word 6 False) (one_word 3 False) mont_7 used_ctx = (True, s, ctx') \<and> bn_int s = 2"
proof -
  let ?run = "BN_mod_mul_montgomery plain_ctx_env False (one_word 0 False) (one_word 6 False) (one_word 3 False) mont_7 used_ctx"
  obtain c where g: "BN_CTX_get plain_ctx_env (BN_CTX_start plain_ctx_env used_ctx) = (Some 0, c)"
    "fst (bn_mul_consttime plain_ctx_env False (ctx_bn c 0) (one_word 6 False) (one_word 3 False) c)" using used_ctx_get by blast
  have R: "7 \<le> mont_R mont_7" by (simp add: mont_R_def mont_7_def one_word_def LIMB_def)
  have "fst ?run"
    by (rule mod_mul_montgomery_runs [OF used_ctx_wf(2,1) mont_7_facts(2) _ _ _ _ _ _ _ _ g])
      (use R in \<open>simp_all add: one_word_facts mont_7_facts plain_not_starved INT_MAX_def\<close>, simp_all add: one_word_def)
  then obtain s c where run: "?run = (True, s, c)" by (metis prod.collapse)
  have f: "(3 * mont_R mont_7) mod 7 = 6" "(5 * mont_R mont_7) mod 7 = 3" "(15 * mont_R mont_7) mod 7 = 2" by (simp_all add: mont_7_form)
  have "bn_int s = int (3 * 5 * mont_R mont_7 mod bn_mag (mont_N mont_7))"
    using montgomery_product [OF used_ctx_wf(2,1) mont_7_facts(2) one_word_facts(1) one_word_facts(1) one_word_facts(1) _ _ _ _ _ _ _ run] f
    by (simp add: one_word_facts mont_7_facts(3) INT_MAX_def)
  with run f show ?thesis by (simp add: mont_7_facts(3))
qed

text \<open>
  C39: from the Montgomery form a reduced number comes back as it was.
\<close>

theorem montgomery_round_trip:
  assumes "libc_wf (env_libc env)" and "ctx_wf ctx1" and "ctx_wf ctx2" and "mont_ok mont" and "bn_wf r" and "bn_wf t" and "bn_wf a" and "\<not> bn_neg a"
    and "bn_width a \<le> INT_MAX" and "bn_width (mont_N mont) \<le> INT_MAX" and "bn_mag a < bn_mag (mont_N mont)"
    and "BN_to_montgomery env r a mont ctx1 = (True, m, ctx1')" and "BN_from_montgomery env t m mont ctx2 = (True, s, ctx2')"
  shows "bn_int m = (bn_int a * int (mont_R mont)) mod int (bn_mag (mont_N mont)) \<and> bn_int s = bn_int a"
proof
  have "bn_wf (mont_N mont)" using assms(4) by (simp add: mont_ok_def mont_law_def)
  from bn_mag_less [OF this] have "bn_mag a < mont_R mont" using assms(11) by (simp add: mont_R_def)
  from to_montgomery_value(1,3) [OF assms(1,2,4,5,7-10) this assms(12)]
  show "bn_int m = (bn_int a * int (mont_R mont)) mod int (bn_mag (mont_N mont))" using assms(8) by (simp add: bn_int_def zmod_int)
  show "bn_int s = bn_int a" using to_and_from_montgomery [OF assms(1,2,4-12,3,13)] .
qed

theorem montgomery_round_trip_witness:
  "\<exists>m ctx1 s ctx2. BN_to_montgomery plain_ctx_env (one_word 0 False) (one_word 5 False) mont_7 used_ctx = (True, m, ctx1) \<and> bn_int m = 3 \<and>
     BN_from_montgomery plain_ctx_env (one_word 0 False) m mont_7 used_ctx = (True, s, ctx2) \<and> bn_int s = 5"
proof -
  let ?to = "BN_to_montgomery plain_ctx_env (one_word 0 False) (one_word 5 False) mont_7 used_ctx"
  let ?from = "\<lambda>m. BN_from_montgomery plain_ctx_env (one_word 0 False) m mont_7 used_ctx"
  have RR: "mont_RR mont_7 = one_word 4 False" by (simp add: mont_7_def)
  obtain c where g: "BN_CTX_get plain_ctx_env (BN_CTX_start plain_ctx_env used_ctx) = (Some 0, c)" "bn_dmax (ctx_bn c 0) = 4"
    "fst (bn_mul_consttime plain_ctx_env False (ctx_bn c 0) (one_word 5 False) (one_word 4 False) c)" using used_ctx_get by blast
  have R: "7 \<le> mont_R mont_7" by (simp add: mont_R_def mont_7_def one_word_def LIMB_def)
  have "fst ?to" unfolding BN_to_montgomery_def RR
    by (rule mod_mul_montgomery_runs [OF used_ctx_wf(2,1) mont_7_facts(2) _ _ _ _ _ _ _ _ g(1,3)])
      (use R in \<open>simp_all add: one_word_facts mont_7_facts plain_not_starved INT_MAX_def\<close>, simp_all add: one_word_def)
  then obtain m c1 where to: "?to = (True, m, c1)" by (metis prod.collapse)
  have "bn_mag (one_word 5 False) < mont_R mont_7" using R by (simp add: one_word_facts)
  from to_montgomery_value [OF used_ctx_wf(2,1) mont_7_facts(1) one_word_facts(1) one_word_facts(1) _ _ _ this to]
  have m: "bn_wf m" "\<not> bn_neg m" "bn_width m = 1" "bn_mag m < 7" by (simp_all add: one_word_facts mont_7_facts INT_MAX_def)
  have "bn_mag m < bn_mag (mont_N mont_7) * mont_R mont_7" using m(4) R by (simp add: mont_7_facts)
  then have "fst (?from m)"
    by (rule from_montgomery_runs [OF used_ctx_wf(2,1) mont_7_facts(2) one_word_facts(1) m(1,2) _ g(1)])
      (use g(2) m(3) in \<open>simp_all add: roomy_def mont_7_facts plain_not_starved one_word_def\<close>)
  then obtain s c2 where ret: "?from m = (True, s, c2)" by (metis prod.collapse)
  have "int ((5 * mont_R mont_7) mod 7) = 3" by (simp only: mont_7_form) simp
  then have "(5 * int (mont_R mont_7)) mod 7 = 3" by (simp add: zmod_int)
  with montgomery_round_trip [OF used_ctx_wf(2,1,1) mont_7_facts(1) one_word_facts(1) one_word_facts(1) one_word_facts(1) _ _ _ _ to ret] to ret
  show ?thesis by (simp add: one_word_facts mont_7_facts INT_MAX_def)
qed

text \<open>
  C40: the small variants, which cannot fail, go to the Montgomery form and back too.
\<close>

theorem small_round_trip:
  assumes "mont_ok mont" and "w = bn_width (mont_N mont)" and "w \<le> BN_SMALL_MAX_WORDS" and "length a = w" and "wval a < bn_mag (mont_N mont)"
  shows "\<exists>m. bn_to_montgomery_small a w mont = Some m \<and> wval m = (wval a * mont_R mont) mod bn_mag (mont_N mont) \<and> bn_from_montgomery_small m w mont = Some a"
  using to_and_from_small [OF assms] .

theorem small_round_trip_witness: "\<exists>m. bn_to_montgomery_small [5] 1 mont_7 = Some m \<and> wval m = 3 \<and> bn_from_montgomery_small m 1 mont_7 = Some [5]"
proof -
  have "(5 * mont_R mont_7) mod 7 = 3" by (simp add: mont_7_form)
  then show ?thesis using small_round_trip [OF mont_7_facts(1), of 1 "[5]"] by (simp add: mont_7_facts BN_SMALL_MAX_WORDS_def)
qed

end
